(* ===== verification/Kernel_Prelude.thy ===== *)
theory Kernel_Prelude
  imports Main "HOL-Library.Word" "HOL-Library.Monad_Syntax"
begin

text \<open>
  What the component theories share: the error numbers of \<open>libs/error.h\<close>, the
  convention for runs that do not return, and generic lemmas on lists and on options.

  A kernel function is a HOL function into \<open>'a option\<close>.  \<open>Some\<close> is a normal return with
  the new state; \<open>None\<close> says that the C function does not return normally: an \<open>assert\<close>
  fails, \<open>panic\<close> is called, a null pointer is dereferenced, or a loop runs forever.
  Error codes are values, as in the source: \<open>0\<close> on success and \<open>- E_x\<close> on failure.
\<close>

section \<open>Runs that may not return\<close>

definition assert_k :: "bool \<Rightarrow> unit option" where
  "assert_k b = (if b then Some () else None)"

lemma assert_k_True [simp]: "assert_k True = Some ()"
  by (simp add: assert_k_def)

lemma assert_k_False [simp]: "assert_k False = None"
  by (simp add: assert_k_def)

lemma assert_k_eq_Some [simp]: "assert_k b = Some u \<longleftrightarrow> b"
  by (simp add: assert_k_def)

lemma bind_assert_k [simp]: "Option.bind (assert_k b) f = (if b then f () else None)"
  by (simp add: assert_k_def)

section \<open>Error numbers (libs/error.h)\<close>

definition E_UNSPECIFIED :: int where "E_UNSPECIFIED = 1"
definition E_BAD_PROC :: int where "E_BAD_PROC = 2"
definition E_INVAL :: int where "E_INVAL = 3"
definition E_NO_MEM :: int where "E_NO_MEM = 4"
definition E_NO_FREE_PROC :: int where "E_NO_FREE_PROC = 5"
definition E_KILLED :: int where "E_KILLED = 9"
definition E_TOO_BIG :: int where "E_TOO_BIG = 12"
definition E_NO_DEV :: int where "E_NO_DEV = 13"
definition E_NA_DEV :: int where "E_NA_DEV = 14"
definition E_BUSY :: int where "E_BUSY = 15"
definition E_NOENT :: int where "E_NOENT = 16"
definition E_ISDIR :: int where "E_ISDIR = 17"
definition E_NOTDIR :: int where "E_NOTDIR = 18"
definition E_UNIMP :: int where "E_UNIMP = 20"
definition E_MAX_OPEN :: int where "E_MAX_OPEN = 22"
definition E_EXISTS :: int where "E_EXISTS = 23"

lemmas error_numbers = E_UNSPECIFIED_def E_BAD_PROC_def E_INVAL_def E_NO_MEM_def
  E_NO_FREE_PROC_def E_KILLED_def E_TOO_BIG_def E_NO_DEV_def E_NA_DEV_def E_BUSY_def
  E_NOENT_def E_ISDIR_def E_NOTDIR_def E_UNIMP_def E_MAX_OPEN_def E_EXISTS_def

section \<open>Unsigned fields\<close>

text \<open>An \<open>unsigned int\<close> field holds its value modulo \<open>2 ^ 32\<close>, a \<open>size_t\<close> modulo \<open>2 ^ 64\<close>.\<close>

definition u32 :: "nat \<Rightarrow> nat" where "u32 x = x mod 2 ^ 32"

definition u64 :: "nat \<Rightarrow> nat" where "u64 x = x mod 2 ^ 64"

lemma u32_id [simp]: "x < 2 ^ 32 \<Longrightarrow> u32 x = x"
  by (simp add: u32_def)

lemma u64_id [simp]: "x < 2 ^ 64 \<Longrightarrow> u64 x = x"
  by (simp add: u64_def)

section \<open>Lists\<close>

lemma takeWhile_append_dropWhile_hd:
  assumes "\<exists>x\<in>set xs. \<not> P x"
  shows "\<exists>y ys. xs = takeWhile P xs @ y # ys \<and> \<not> P y"
  using assms by (induction xs) auto

lemma find_Some_split:
  "List.find P xs = Some x \<Longrightarrow>
     \<exists>ys zs. xs = ys @ x # zs \<and> P x \<and> (\<forall>y\<in>set ys. \<not> P y)"
proof (induction xs)
  case Nil
  then show ?case by simp
next
  case (Cons a xs)
  show ?case
  proof (cases "P a")
    case True
    with Cons.prems show ?thesis by (auto intro: exI [of _ "[]"])
  next
    case False
    with Cons obtain ys zs where "xs = ys @ x # zs" "P x" "\<forall>y\<in>set ys. \<not> P y"
      by auto
    with False show ?thesis by (intro exI [of _ "a # ys"] exI [of _ zs]) auto
  qed
qed

lemma find_append_not:
  "\<forall>y\<in>set ys. \<not> P y \<Longrightarrow> P x \<Longrightarrow> List.find P (ys @ x # zs) = Some x"
  by (induction ys) auto

lemma sum_list_map_cong: "\<forall>x\<in>set xs. f x = g x \<Longrightarrow> sum_list (map f xs) = sum_list (map g xs)"
  by (metis map_eq_conv)

lemma distinct_map_cong: "\<forall>x\<in>set xs. f x = g x \<Longrightarrow> distinct (map f xs) = distinct (map g xs)"
  by (metis map_eq_conv)

lemma map_fun_upd_notin [simp]: "x \<notin> set xs \<Longrightarrow> map (f(x := v)) xs = map f xs"
  by auto

end
