(* ===== verification/List_Ring.thy ===== *)
theory List_Ring
  imports Kernel_Prelude
begin

text \<open>
  \<open>libs/list.h\<close>, the circular doubly linked list every kernel component is built on.
  The two pointer fields of all \<open>list_entry_t\<close> are the maps \<open>l_next\<close> and \<open>l_prev\<close>; each
  inline function is one definition with the assignments in the order of the source.
  \<open>ring h a xs\<close> says that the entries \<open>xs\<close> are linked in this order around the head
  \<open>a\<close>.  The lemmas show what each operation does to the ring, and that a ring it does
  not touch stays as it is.
\<close>

record 'a links =
  l_next :: "'a \<Rightarrow> 'a"
  l_prev :: "'a \<Rightarrow> 'a"

section \<open>The operations\<close>

definition list_init :: "'a \<Rightarrow> 'a links \<Rightarrow> 'a links" where
  "list_init elm h = h\<lparr>l_next := (l_next h)(elm := elm), l_prev := (l_prev h)(elm := elm)\<rparr>"

text \<open>\<open>prev->next = next->prev = elm\<close> writes \<open>next->prev\<close> first.\<close>

definition list_add_raw :: "'a \<Rightarrow> 'a \<Rightarrow> 'a \<Rightarrow> 'a links \<Rightarrow> 'a links" where
  "list_add_raw elm prev nxt h =
    (let h = h\<lparr>l_prev := (l_prev h)(nxt := elm)\<rparr>;
         h = h\<lparr>l_next := (l_next h)(prev := elm)\<rparr>;
         h = h\<lparr>l_next := (l_next h)(elm := nxt)\<rparr>
     in h\<lparr>l_prev := (l_prev h)(elm := prev)\<rparr>)"

definition list_del_raw :: "'a \<Rightarrow> 'a \<Rightarrow> 'a links \<Rightarrow> 'a links" where
  "list_del_raw prev nxt h =
    (let h = h\<lparr>l_next := (l_next h)(prev := nxt)\<rparr>
     in h\<lparr>l_prev := (l_prev h)(nxt := prev)\<rparr>)"

definition list_add_after :: "'a \<Rightarrow> 'a \<Rightarrow> 'a links \<Rightarrow> 'a links" where
  "list_add_after listelm elm h = list_add_raw elm listelm (l_next h listelm) h"

definition list_add :: "'a \<Rightarrow> 'a \<Rightarrow> 'a links \<Rightarrow> 'a links" where
  "list_add listelm elm h = list_add_after listelm elm h"

definition list_add_before :: "'a \<Rightarrow> 'a \<Rightarrow> 'a links \<Rightarrow> 'a links" where
  "list_add_before listelm elm h = list_add_raw elm (l_prev h listelm) listelm h"

definition list_del :: "'a \<Rightarrow> 'a links \<Rightarrow> 'a links" where
  "list_del listelm h = list_del_raw (l_prev h listelm) (l_next h listelm) h"

definition list_del_init :: "'a \<Rightarrow> 'a links \<Rightarrow> 'a links" where
  "list_del_init listelm h = list_init listelm (list_del listelm h)"

definition list_empty :: "'a \<Rightarrow> 'a links \<Rightarrow> bool" where
  "list_empty lst h \<longleftrightarrow> l_next h lst = lst"

definition list_next :: "'a \<Rightarrow> 'a links \<Rightarrow> 'a" where
  "list_next listelm h = l_next h listelm"

definition list_prev :: "'a \<Rightarrow> 'a links \<Rightarrow> 'a" where
  "list_prev listelm h = l_prev h listelm"

lemmas list_ops = list_init_def list_add_raw_def list_del_raw_def list_add_after_def
  list_add_def list_add_before_def list_del_def list_del_init_def list_empty_def
  list_next_def list_prev_def

section \<open>Chains of pointers\<close>

fun chain :: "('a \<Rightarrow> 'a) \<Rightarrow> 'a \<Rightarrow> 'a list \<Rightarrow> 'a \<Rightarrow> bool" where
  "chain f a [] b \<longleftrightarrow> f a = b"
| "chain f a (x # xs) b \<longleftrightarrow> f a = x \<and> chain f x xs b"

lemma chain_append [simp]:
  "chain f a (xs @ y # ys) b \<longleftrightarrow> chain f a xs y \<and> chain f y ys b"
  by (induction xs arbitrary: a) auto

lemma chain_cong:
  "\<forall>x\<in>set (a # xs). f x = g x \<Longrightarrow> chain f a xs b = chain g a xs b"
  by (induction xs arbitrary: a) auto

lemma chain_upd [simp]:
  "u \<noteq> a \<Longrightarrow> u \<notin> set xs \<Longrightarrow> chain (f(u := v)) a xs b = chain f a xs b"
  by (rule chain_cong) auto

lemma chain_last: "chain f a xs b \<Longrightarrow> f (last (a # xs)) = b"
  by (induction xs arbitrary: a) (auto split: if_splits)

lemma chain_first: "chain f a xs b \<Longrightarrow> f a = hd (xs @ [b])"
  by (cases xs) auto

section \<open>Rings\<close>

definition next_ring :: "'a links \<Rightarrow> 'a \<Rightarrow> 'a list \<Rightarrow> bool" where
  "next_ring h a xs \<longleftrightarrow> distinct (a # xs) \<and> chain (l_next h) a xs a"

definition ring :: "'a links \<Rightarrow> 'a \<Rightarrow> 'a list \<Rightarrow> bool" where
  "ring h a xs \<longleftrightarrow> next_ring h a xs \<and> chain (l_prev h) a (rev xs) a"

lemma ringI:
  "distinct (a # xs) \<Longrightarrow> chain (l_next h) a xs a \<Longrightarrow> chain (l_prev h) a (rev xs) a \<Longrightarrow> ring h a xs"
  by (simp add: ring_def next_ring_def)

lemma ring_distinct: "ring h a xs \<Longrightarrow> distinct (a # xs)"
  by (simp add: ring_def next_ring_def)

lemma ring_next_ring: "ring h a xs \<Longrightarrow> next_ring h a xs"
  by (simp add: ring_def)

lemma ring_list_init: "ring (list_init a h) a []"
  by (simp add: ring_def next_ring_def list_init_def)

lemma ring_first: "ring h a xs \<Longrightarrow> l_next h a = hd (xs @ [a])"
  by (auto simp: ring_def next_ring_def dest: chain_first)

lemma ring_last: "ring h a xs \<Longrightarrow> l_prev h a = last (a # xs)"
  by (cases xs rule: rev_cases) (auto simp: ring_def)

lemma next_ring_step:
  "next_ring h a (ys @ x # zs) \<Longrightarrow> l_next h x = hd (zs @ [a]) \<and> l_next h (last (a # ys)) = x"
  by (auto simp: next_ring_def dest: chain_first chain_last)

lemma ring_step:
  assumes "ring h a (ys @ x # zs)"
  shows "l_next h x = hd (zs @ [a])" and "l_prev h x = last (a # ys)"
    and "l_next h (last (a # ys)) = x" and "l_prev h (hd (zs @ [a])) = x"
proof -
  from assms have n: "chain (l_next h) a (ys @ x # zs) a"
    and p: "chain (l_prev h) a (rev zs @ x # rev ys) a"
    by (auto simp: ring_def next_ring_def)
  from n show "l_next h x = hd (zs @ [a])" by (auto dest: chain_first)
  from n show "l_next h (last (a # ys)) = x" by (auto dest: chain_last)
  from p have "chain (l_prev h) x (rev ys) a" by simp
  then have "l_prev h x = hd (rev ys @ [a])" by (rule chain_first)
  then show "l_prev h x = last (a # ys)" by (cases ys rule: rev_cases) auto
  from p have "chain (l_prev h) a (rev zs) x" by simp
  then have "l_prev h (last (a # rev zs)) = x" by (rule chain_last)
  then show "l_prev h (hd (zs @ [a])) = x" by (cases zs) auto
qed

lemma ring_empty_iff: "ring h a xs \<Longrightarrow> list_empty a h \<longleftrightarrow> xs = []"
  by (cases xs) (auto simp: ring_def next_ring_def list_empty_def)

lemma ring_cong:
  "\<forall>x\<in>set (a # xs). l_next h' x = l_next h x \<and> l_prev h' x = l_prev h x \<Longrightarrow>
     ring h' a xs = ring h a xs"
  using chain_cong [of a xs "l_next h'" "l_next h" a] chain_cong [of a "rev xs" "l_prev h'" "l_prev h" a]
  by (auto simp: ring_def next_ring_def)

section \<open>What the operations do to a ring\<close>

lemma ring_list_add_raw:
  assumes "ring h a (ys @ zs)" and "e \<notin> set (a # ys @ zs)"
  shows "ring (list_add_raw e (last (a # ys)) (hd (zs @ [a])) h) a (ys @ e # zs)"
  using assms
  by (cases ys rule: rev_cases; cases zs)
    (auto simp: ring_def next_ring_def list_add_raw_def Let_def)

lemma ring_list_del_raw:
  assumes "ring h a (ys @ x # zs)"
  shows "ring (list_del_raw (last (a # ys)) (hd (zs @ [a])) h) a (ys @ zs)"
  using assms
  by (cases ys rule: rev_cases; cases zs)
    (auto simp: ring_def next_ring_def list_del_raw_def Let_def)

lemma ring_list_add_head:
  assumes "ring h a xs" and "e \<notin> set (a # xs)"
  shows "ring (list_add a e h) a (e # xs)"
  using ring_list_add_raw [of h a "[]" xs e] assms ring_first [OF assms(1)]
  by (simp add: list_add_def list_add_after_def)

lemma ring_list_add_before_head:
  assumes "ring h a xs" and "e \<notin> set (a # xs)"
  shows "ring (list_add_before a e h) a (xs @ [e])"
  using ring_list_add_raw [of h a xs "[]" e] assms ring_last [OF assms(1)]
  by (simp add: list_add_before_def)

lemma ring_list_add_entry:
  assumes "ring h a (ys @ x # zs)" and "e \<notin> set (a # ys @ x # zs)"
  shows "ring (list_add x e h) a (ys @ x # e # zs)"
  using ring_list_add_raw [of h a "ys @ [x]" zs e] assms ring_step(1) [OF assms(1)]
  by (simp add: list_add_def list_add_after_def)

lemma ring_list_add_before_entry:
  assumes "ring h a (ys @ x # zs)" and "e \<notin> set (a # ys @ x # zs)"
  shows "ring (list_add_before x e h) a (ys @ e # x # zs)"
  using ring_list_add_raw [of h a ys "x # zs" e] assms ring_step(2) [OF assms(1)]
  by (simp add: list_add_before_def)

lemma ring_list_add_after_prefix:
  assumes "ring h a (ys @ zs)" and "e \<notin> set (a # ys @ zs)"
  shows "ring (list_add (last (a # ys)) e h) a (ys @ e # zs)"
proof (cases ys rule: rev_cases)
  case Nil
  with assms ring_list_add_head [of h a zs e] show ?thesis by simp
next
  case (snoc us u)
  with assms ring_list_add_entry [of h a us u zs e] show ?thesis by simp
qed

lemma ring_list_del:
  assumes "ring h a (ys @ x # zs)"
  shows "ring (list_del x h) a (ys @ zs)"
  using ring_list_del_raw [OF assms] ring_step(1,2) [OF assms]
  by (simp add: list_del_def)

lemma ring_list_init_other:
  assumes "ring h a xs" and "x \<notin> set (a # xs)"
  shows "ring (list_init x h) a xs"
  using assms by (subst ring_cong [of _ _ _ h]) (auto simp: list_init_def)

lemma ring_list_del_init:
  assumes "ring h a (ys @ x # zs)"
  shows "ring (list_del_init x h) a (ys @ zs)"
  unfolding list_del_init_def
  using ring_distinct [OF assms]
  by (intro ring_list_init_other ring_list_del [OF assms]) auto

lemma list_del_init_empty: "list_empty x (list_del_init x h)"
  by (simp add: list_del_init_def list_init_def list_empty_def)

text \<open>An entry is unlinked when it points to itself; then it is in no other ring.\<close>

lemma ring_member_next: "ring h a xs \<Longrightarrow> x \<in> set xs \<Longrightarrow> \<not> list_empty x h"
proof -
  assume r: "ring h a xs" and "x \<in> set xs"
  then obtain ys zs where xs: "xs = ys @ x # zs" by (meson split_list)
  have "l_next h x = hd (zs @ [a])" using r xs ring_step(1) by metis
  moreover have "distinct (a # ys @ x # zs)" using ring_distinct [OF r] xs by simp
  ultimately show "\<not> list_empty x h" by (cases zs) (auto simp: list_empty_def)
qed

lemma ring_unlinked: "ring h a xs \<Longrightarrow> list_empty x h \<Longrightarrow> x \<noteq> a \<Longrightarrow> x \<notin> set (a # xs)"
  using ring_member_next by fastforce

lemma list_links_cong:
  "u \<notin> {e, prev, nxt} \<Longrightarrow>
     l_next (list_add_raw e prev nxt h) u = l_next h u \<and>
     l_prev (list_add_raw e prev nxt h) u = l_prev h u"
  by (simp add: list_add_raw_def Let_def)

lemma list_del_cong:
  "u \<notin> {l_prev h x, l_next h x} \<Longrightarrow>
     l_next (list_del x h) u = l_next h u \<and> l_prev (list_del x h) u = l_prev h u"
  by (simp add: list_del_def list_del_raw_def Let_def)

section \<open>Two disjoint rings\<close>

lemma ring_neighbours:
  assumes "ring h a (ys @ x # zs)"
  shows "l_prev h x \<in> set (a # ys)" and "l_next h x \<in> set (zs @ [a])"
  using ring_step(1,2) [OF assms] by (cases zs; cases ys rule: rev_cases; auto)+

lemma ring_list_del_other:
  assumes "ring h a (ys @ x # zs)" and "ring h b us"
    and "set (a # ys @ x # zs) \<inter> set (b # us) = {}"
  shows "ring (list_del x h) b us"
proof -
  have "\<forall>u\<in>set (b # us). u \<notin> {l_prev h x, l_next h x}"
    using ring_neighbours [OF assms(1)] assms(3) by fastforce
  then have "\<forall>u\<in>set (b # us). l_next (list_del x h) u = l_next h u \<and> l_prev (list_del x h) u = l_prev h u"
    using list_del_cong [of _ h x] by blast
  then show ?thesis using ring_cong assms(2) by metis
qed

lemma ring_list_add_before_head_other:
  assumes "ring h a xs" and "ring h b us" and "set (a # e # xs) \<inter> set (b # us) = {}"
  shows "ring (list_add_before a e h) b us"
proof -
  have "l_prev h a \<in> set (a # xs)" using ring_last [OF assms(1)] by (cases xs) auto
  then have "\<forall>u\<in>set (b # us). u \<notin> {e, l_prev h a, a}" using assms(3) by fastforce
  then have "\<forall>u\<in>set (b # us). l_next (list_add_before a e h) u = l_next h u \<and>
      l_prev (list_add_before a e h) u = l_prev h u"
    unfolding list_add_before_def using list_links_cong [of _ e "l_prev h a" a h] by blast
  then show ?thesis using ring_cong assms(2) by metis
qed

lemma ring_list_add_head_other:
  assumes "ring l a xs" and "ring l b us" and "set (a # e # xs) \<inter> set (b # us) = {}"
  shows "ring (list_add a e l) b us"
proof -
  have n: "l_next l a \<in> set (a # xs)" using ring_first [OF assms(1)] by (cases xs) auto
  then have "\<forall>u\<in>set (b # us). u \<notin> {e, a, l_next l a}" using assms(3) by fastforce
  then have "\<forall>u\<in>set (b # us). l_next (list_add a e l) u = l_next l u \<and> l_prev (list_add a e l) u = l_prev l u"
    unfolding list_add_def list_add_after_def using list_links_cong [of _ e a "l_next l a" l] by blast
  then show ?thesis using ring_cong assms(2) by metis
qed

lemma ring_remove:
  assumes "ring l h (map f xs)" and "x \<in> set xs" and "inj f"
  shows "ring (list_del (f x) l) h (map f (remove1 x xs))"
proof -
  obtain ys zs where xs: "xs = ys @ x # zs" using assms(2) by (meson split_list)
  have "distinct xs" using ring_distinct [OF assms(1)] by (simp add: distinct_map)
  then have "remove1 x xs = ys @ zs" by (simp add: xs remove1_append)
  then show ?thesis using ring_list_del [of l h "map f ys" "f x" "map f zs"] assms(1) by (simp add: xs)
qed

section \<open>The queue contract\<close>

text \<open>
  Wait queues, run queues and the FIFO swap list use a ring in one way only: entries are
  appended before the head, the entry after the head is looked at, and an entry is
  unlinked.  The contract is stated over a relation \<open>rel s xs\<close> between a state and the
  abstract queue it represents.
\<close>

locale fifo_queue =
  fixes rel :: "'s \<Rightarrow> 'e list \<Rightarrow> bool"
    and valid :: "'e \<Rightarrow> 's \<Rightarrow> bool"
    and enq :: "'e \<Rightarrow> 's \<Rightarrow> 's"
    and deq :: "'e \<Rightarrow> 's \<Rightarrow> 's"
    and front :: "'s \<Rightarrow> 'e option"
  assumes enq_rel: "rel s xs \<Longrightarrow> e \<notin> set xs \<Longrightarrow> valid e s \<Longrightarrow> rel (enq e s) (xs @ [e])"
    and deq_rel: "rel s (ys @ e # zs) \<Longrightarrow> rel (deq e s) (ys @ zs)"
    and front_rel: "rel s xs \<Longrightarrow> front s = (case xs of [] \<Rightarrow> None | x # _ \<Rightarrow> Some x)"
    and valid_enq: "rel s xs \<Longrightarrow> valid e s \<Longrightarrow> valid d s \<Longrightarrow> e \<notin> set (d # xs) \<Longrightarrow> valid e (enq d s)"
begin

lemma enq_all:
  "rel s xs \<Longrightarrow> distinct (xs @ es) \<Longrightarrow> \<forall>e\<in>set es. valid e s \<Longrightarrow> rel (fold enq es s) (xs @ es)"
proof (induction es arbitrary: s xs)
  case Nil
  then show ?case by simp
next
  case (Cons e es)
  have "rel (enq e s) (xs @ [e])" using Cons.prems by (intro enq_rel) auto
  moreover have "\<forall>d\<in>set es. valid d (enq e s)" using Cons.prems by (auto intro!: valid_enq [of s xs])
  ultimately have "rel (fold enq es (enq e s)) ((xs @ [e]) @ es)"
    using Cons.prems(2) by (intro Cons.IH) auto
  then show ?case by simp
qed

lemma deq_prefix: "rel s (xs @ ys) \<Longrightarrow> rel (fold deq xs s) ys"
proof (induction xs arbitrary: s)
  case (Cons x xs)
  have "rel (deq x s) (xs @ ys)" using deq_rel [of s "[]" x "xs @ ys"] Cons.prems by simp
  then show ?case using Cons.IH by simp
qed simp

lemma first_in_first_out:
  assumes "rel s []" and "distinct (xs @ y # ys)" and "\<forall>e\<in>set (xs @ y # ys). valid e s"
  shows "front (fold deq xs (fold enq (xs @ y # ys) s)) = Some y"
proof -
  have "rel (fold enq (xs @ y # ys) s) ([] @ xs @ y # ys)"
    using assms by (intro enq_all) auto
  then have "rel (fold deq xs (fold enq (xs @ y # ys) s)) (y # ys)"
    by (intro deq_prefix) simp
  then show ?thesis using front_rel by fastforce
qed

lemma drained: "rel s [] \<Longrightarrow> distinct xs \<Longrightarrow> \<forall>e\<in>set xs. valid e s \<Longrightarrow>
    front (fold deq xs (fold enq xs s)) = None"
  using enq_all [of s "[]" xs] deq_prefix [of "fold enq xs s" xs "[]"] front_rel by fastforce

end

definition ring_front :: "'a \<Rightarrow> 'a links \<Rightarrow> 'a option" where
  "ring_front a h = (if list_empty a h then None else Some (list_next a h))"

lemma ring_front_eq: "ring h a xs \<Longrightarrow> ring_front a h = (case xs of [] \<Rightarrow> None | x # _ \<Rightarrow> Some x)"
  using ring_empty_iff ring_first by (fastforce simp: ring_front_def list_next_def split: list.split)

interpretation list_queue:
  fifo_queue "\<lambda>h. ring h a" "\<lambda>e h. e \<noteq> a" "list_add_before a" list_del "ring_front a" for a
  by unfold_locales (auto intro: ring_list_add_before_head ring_list_del simp: ring_front_eq)

text \<open>Unlinking with \<open>list_del_init\<close>, as the run queue and the wait queue do, is a queue as well.\<close>

interpretation list_init_queue:
  fifo_queue "\<lambda>h. ring h a" "\<lambda>e h. e \<noteq> a" "list_add_before a" list_del_init "ring_front a" for a
  by unfold_locales (auto intro: ring_list_add_before_head ring_list_del_init simp: ring_front_eq)

end
