(* ===== verification/Page_Frame.thy ===== *)
theory Page_Frame
  imports List_Ring
begin

text \<open>
  \<open>struct Page\<close> and \<open>free_area_t\<close> of \<open>kern/mm/memlayout.h\<close>, shared by the physical memory
  managers.  A page is its index in the array \<open>pages\<close>, so that pointer comparison and
  pointer arithmetic on \<open>struct Page *\<close> are those on the indices.  The list entries of
  the free list are the head \<open>FreeList\<close> and the \<open>page_link\<close> fields of the pages.
  The second half is the contract of \<open>struct pmm_manager\<close>: what a page allocator
  promises about the set of free pages.
\<close>

section \<open>Page descriptors\<close>

record page =
  p_ref :: int
  p_flags :: "64 word"
  p_property :: nat

definition PG_reserved :: nat where "PG_reserved = 0"
definition PG_property :: nat where "PG_property = 1"

definition SetPageProperty :: "page \<Rightarrow> page" where
  "SetPageProperty p = p\<lparr>p_flags := set_bit PG_property (p_flags p)\<rparr>"

definition ClearPageProperty :: "page \<Rightarrow> page" where
  "ClearPageProperty p = p\<lparr>p_flags := unset_bit PG_property (p_flags p)\<rparr>"

definition SetPageReserved :: "page \<Rightarrow> page" where
  "SetPageReserved p = p\<lparr>p_flags := set_bit PG_reserved (p_flags p)\<rparr>"

definition PageProperty :: "page \<Rightarrow> bool" where
  "PageProperty p = bit (p_flags p) PG_property"

definition PageReserved :: "page \<Rightarrow> bool" where
  "PageReserved p = bit (p_flags p) PG_reserved"

lemma page_flags [simp]:
  "PageProperty (SetPageProperty p)" "\<not> PageProperty (ClearPageProperty p)"
  "PageReserved (SetPageReserved p)"
  "PageReserved (SetPageProperty p) = PageReserved p"
  "PageReserved (ClearPageProperty p) = PageReserved p"
  "p_property (SetPageProperty p) = p_property p"
  "p_property (ClearPageProperty p) = p_property p"
  "p_ref (SetPageProperty p) = p_ref p"
  "p_ref (ClearPageProperty p) = p_ref p"
  "PageProperty (p\<lparr>p_property := v\<rparr>) = PageProperty p"
  "PageReserved (p\<lparr>p_property := v\<rparr>) = PageReserved p"
  "PageProperty (p\<lparr>p_ref := r\<rparr>) = PageProperty p"
  "PageReserved (p\<lparr>p_ref := r\<rparr>) = PageReserved p"
  by (simp_all add: PageProperty_def PageReserved_def SetPageProperty_def ClearPageProperty_def
      SetPageReserved_def PG_property_def PG_reserved_def bit_set_bit_iff bit_unset_bit_iff)

lemma page_flags_zero [simp]:
  "\<not> PageProperty (p\<lparr>p_flags := 0\<rparr>)" "\<not> PageReserved (p\<lparr>p_flags := 0\<rparr>)"
  by (simp_all add: PageProperty_def PageReserved_def)

section \<open>The free area\<close>

datatype node = FreeList | PageLink nat

record free_area =
  fa_pages :: "nat \<Rightarrow> page"
  fa_links :: "node links"
  fa_nr_free :: nat

definition upd_page :: "nat \<Rightarrow> (page \<Rightarrow> page) \<Rightarrow> free_area \<Rightarrow> free_area" where
  "upd_page p f s = s\<lparr>fa_pages := (fa_pages s)(p := f (fa_pages s p))\<rparr>"

definition prop_of :: "free_area \<Rightarrow> nat \<Rightarrow> nat" where
  "prop_of s p = p_property (fa_pages s p)"

lemma upd_page_simps [simp]:
  "fa_links (upd_page p f s) = fa_links s" "fa_nr_free (upd_page p f s) = fa_nr_free s"
  "fa_pages (upd_page p f s) = (fa_pages s)(p := f (fa_pages s p))"
  by (simp_all add: upd_page_def)

section \<open>Blocks\<close>

definition block_pages :: "(nat \<Rightarrow> nat) \<Rightarrow> nat \<Rightarrow> nat set" where
  "block_pages len x = {x..<x + len x}"

definition blocks_pages :: "(nat \<Rightarrow> nat) \<Rightarrow> nat list \<Rightarrow> nat set" where
  "blocks_pages len xs = (\<Union>x\<in>set xs. block_pages len x)"

text \<open>Blocks in address order, none empty and none overlapping the next.\<close>

fun blocks_ordered :: "(nat \<Rightarrow> nat) \<Rightarrow> nat list \<Rightarrow> bool" where
  "blocks_ordered len [] \<longleftrightarrow> True"
| "blocks_ordered len [x] \<longleftrightarrow> 0 < len x"
| "blocks_ordered len (x # y # ys) \<longleftrightarrow> 0 < len x \<and> x + len x \<le> y \<and> blocks_ordered len (y # ys)"

lemma blocks_ordered_Cons:
  "blocks_ordered len (x # xs) \<longleftrightarrow>
     0 < len x \<and> (\<forall>y\<in>set xs. x + len x \<le> y) \<and> blocks_ordered len xs"
  by (induction xs arbitrary: x) fastforce+

lemma blocks_ordered_append:
  "blocks_ordered len (xs @ ys) \<longleftrightarrow>
     blocks_ordered len xs \<and> blocks_ordered len ys \<and> (\<forall>x\<in>set xs. \<forall>y\<in>set ys. x + len x \<le> y)"
  by (induction xs) (auto simp: blocks_ordered_Cons)

lemma blocks_ordered_cong:
  "\<forall>x\<in>set xs. len' x = len x \<Longrightarrow> blocks_ordered len' xs = blocks_ordered len xs"
  by (induction xs) (auto simp: blocks_ordered_Cons)

lemma blocks_ordered_distinct: "blocks_ordered len xs \<Longrightarrow> distinct xs"
  by (induction xs) (auto simp: blocks_ordered_Cons)

lemma blocks_pages_simps [simp]:
  "blocks_pages len [] = {}"
  "blocks_pages len (x # xs) = {x..<x + len x} \<union> blocks_pages len xs"
  "blocks_pages len (xs @ ys) = blocks_pages len xs \<union> blocks_pages len ys"
  by (auto simp: blocks_pages_def block_pages_def)

lemma blocks_pages_cong:
  "\<forall>x\<in>set xs. len' x = len x \<Longrightarrow> blocks_pages len' xs = blocks_pages len xs"
  by (simp add: blocks_pages_def block_pages_def)

lemma finite_blocks_pages [simp]: "finite (blocks_pages len xs)"
  by (simp add: blocks_pages_def block_pages_def)

lemma blocks_pages_head: "blocks_ordered len xs \<Longrightarrow> x \<in> set xs \<Longrightarrow> x \<in> blocks_pages len xs"
  by (induction xs) (auto simp: blocks_ordered_Cons)

lemma blocks_pages_card:
  "blocks_ordered len xs \<Longrightarrow> card (blocks_pages len xs) = sum_list (map len xs)"
proof (induction xs)
  case (Cons x xs)
  have "{x..<x + len x} \<inter> blocks_pages len xs = {}"
    using Cons.prems by (auto simp: blocks_ordered_Cons blocks_pages_def block_pages_def)
  then show ?case using Cons by (simp add: blocks_ordered_Cons card_Un_disjoint)
qed simp

lemma blocks_sum_bound:
  assumes "blocks_ordered len xs" and "\<forall>x\<in>set xs. x + len x \<le> N"
  shows "sum_list (map len xs) \<le> N"
proof -
  have "blocks_pages len xs \<subseteq> {0..<N}"
    using assms(2) by (fastforce simp: blocks_pages_def block_pages_def)
  then have "card (blocks_pages len xs) \<le> N" using card_mono [of "{0..<N}"] by simp
  then show ?thesis using blocks_pages_card [OF assms(1)] by simp
qed

section \<open>The contract of a physical memory manager\<close>

text \<open>
  \<open>inv s F\<close> says that the manager state \<open>s\<close> is consistent and that its free pages are \<open>F\<close>.
  \<open>can_free\<close> is what the caller of \<open>free_pages\<close> has to know.
\<close>

locale page_allocator =
  fixes inv :: "'s \<Rightarrow> nat set \<Rightarrow> bool"
    and alloc :: "nat \<Rightarrow> 's \<Rightarrow> ('s \<times> nat option) option"
    and release :: "nat \<Rightarrow> nat \<Rightarrow> 's \<Rightarrow> 's option"
    and nr_pages :: "'s \<Rightarrow> nat"
    and can_free :: "nat \<Rightarrow> nat \<Rightarrow> 's \<Rightarrow> nat set \<Rightarrow> bool"
  assumes count: "inv s F \<Longrightarrow> finite F \<and> nr_pages s = card F"
    and alloc_total: "inv s F \<Longrightarrow> 0 < n \<Longrightarrow> \<exists>s' r. alloc n s = Some (s', r)"
    and alloc_none: "inv s F \<Longrightarrow> alloc n s = Some (s', None) \<Longrightarrow> s' = s"
    and alloc_some: "inv s F \<Longrightarrow> alloc n s = Some (s', Some p) \<Longrightarrow>
      {p..<p + n} \<subseteq> F \<and> inv s' (F - {p..<p + n})"
    and release_ok: "inv s F \<Longrightarrow> can_free p n s F \<Longrightarrow> {p..<p + n} \<inter> F = {} \<Longrightarrow>
      \<exists>s'. release p n s = Some s' \<and> inv s' (F \<union> {p..<p + n})"
begin

lemma alloc_exhausted:
  assumes "inv s F" and "card F < n" and "0 < n"
  shows "alloc n s = Some (s, None)"
proof -
  obtain s' r where a: "alloc n s = Some (s', r)" using alloc_total assms by blast
  have "r = None"
  proof (rule ccontr)
    assume "r \<noteq> None"
    then obtain p where "r = Some p" by auto
    then have "{p..<p + n} \<subseteq> F" using alloc_some assms(1) a by blast
    then have "n \<le> card F" using card_mono [of F "{p..<p + n}"] count [OF assms(1)] by simp
    then show False using assms(2) by simp
  qed
  then show ?thesis using a alloc_none assms(1) by auto
qed

lemma alloc_count:
  assumes "inv s F" and "alloc n s = Some (s', Some p)"
  shows "nr_pages s' + n = nr_pages s"
proof -
  have sub: "{p..<p + n} \<subseteq> F" and i: "inv s' (F - {p..<p + n})"
    using alloc_some assms by auto
  have "card (F - {p..<p + n}) + n = card F"
    using sub card_Diff_subset [of "{p..<p + n}" F] card_mono [of F "{p..<p + n}"] count [OF assms(1)]
    by simp
  then show ?thesis using count [OF i] count [OF assms(1)] by simp
qed

lemma alloc_disjoint:
  assumes "inv s F" and "alloc n s = Some (s1, Some p)" and "alloc m s1 = Some (s2, Some q)"
  shows "{p..<p + n} \<inter> {q..<q + m} = {}"
  using alloc_some [OF _ assms(3)] alloc_some [OF assms(1,2)] by blast

lemma alloc_release:
  assumes "inv s F" and "alloc n s = Some (s1, Some p)" and "can_free p n s1 (F - {p..<p + n})"
  shows "\<exists>s2. release p n s1 = Some s2 \<and> inv s2 F \<and> nr_pages s2 = nr_pages s"
proof -
  have sub: "{p..<p + n} \<subseteq> F" and i: "inv s1 (F - {p..<p + n})"
    using alloc_some assms by auto
  obtain s2 where "release p n s1 = Some s2" "inv s2 (F - {p..<p + n} \<union> {p..<p + n})"
    using release_ok [OF i assms(3)] by auto
  moreover have "F - {p..<p + n} \<union> {p..<p + n} = F" using sub by auto
  ultimately show ?thesis using count assms(1) by metis
qed

end

end
