(* ===== verification/First_Fit.thy ===== *)
theory First_Fit
  imports Page_Frame
begin

text \<open>
  The first-fit manager \<open>kern/mm/default_pmm.c\<close>, pointer by pointer: the loops over the
  free list follow \<open>l_next\<close> in the link state, so a damaged list is walked the way the C
  code walks it.  \<open>ff_ok N s xs\<close> is the representation invariant, \<open>xs\<close> the blocks of the
  free list in order.  The lemmas give every operation on every branch; the manager meets
  the contract \<open>page_allocator\<close> except when a block is freed above all the others, where
  the insertion loop links the block to itself.
\<close>

section \<open>The operations\<close>

definition default_init :: "free_area \<Rightarrow> free_area" where
  "default_init s = s\<lparr>fa_links := list_init FreeList (fa_links s), fa_nr_free := 0\<rparr>"

fun init_memmap_loop :: "nat \<Rightarrow> nat \<Rightarrow> free_area \<Rightarrow> free_area option" where
  "init_memmap_loop 0 p s = Some s"
| "init_memmap_loop (Suc k) p s = do {
     assert_k (PageReserved (fa_pages s p));
     init_memmap_loop k (p + 1)
       (upd_page p (\<lambda>q. q\<lparr>p_flags := 0, p_property := 0, p_ref := 0\<rparr>) s) }"

fun free_pages_loop :: "nat \<Rightarrow> nat \<Rightarrow> free_area \<Rightarrow> free_area option" where
  "free_pages_loop 0 p s = Some s"
| "free_pages_loop (Suc k) p s = do {
     assert_k (\<not> PageReserved (fa_pages s p) \<and> \<not> PageProperty (fa_pages s p));
     free_pages_loop k (p + 1) (upd_page p (\<lambda>q. q\<lparr>p_flags := 0, p_ref := 0\<rparr>) s) }"

text \<open>
  The insertion loop of \<open>default_init_memmap\<close> and of \<open>default_free_pages\<close>.  After the
  \<open>list_add\<close> at the end of the list there is no \<open>break\<close>: the loop goes on with the entry
  just inserted.
\<close>

partial_function (option) insert_loop :: "nat \<Rightarrow> node \<Rightarrow> node links \<Rightarrow> node links option" where
  "insert_loop base le h =
    (case list_next le h of
       FreeList \<Rightarrow> Some h
     | PageLink page \<Rightarrow>
         if base < page then Some (list_add_before (PageLink page) (PageLink base) h)
         else insert_loop base (PageLink page)
                (if list_next (PageLink page) h = FreeList
                 then list_add (PageLink page) (PageLink base) h else h))"

definition insert_block :: "nat \<Rightarrow> node links \<Rightarrow> node links option" where
  "insert_block base h =
    (if list_empty FreeList h then Some (list_add FreeList (PageLink base) h)
     else insert_loop base FreeList h)"

definition default_init_memmap :: "nat \<Rightarrow> nat \<Rightarrow> free_area \<Rightarrow> free_area option" where
  "default_init_memmap base n s = do {
     assert_k (0 < n);
     s \<leftarrow> init_memmap_loop n base s;
     let s = upd_page base (\<lambda>q. SetPageProperty (q\<lparr>p_property := u32 n\<rparr>)) s;
     let s = s\<lparr>fa_nr_free := u32 (fa_nr_free s + n)\<rparr>;
     h \<leftarrow> insert_block base (fa_links s);
     Some (s\<lparr>fa_links := h\<rparr>) }"

partial_function (option) first_fit_loop ::
    "nat \<Rightarrow> node \<Rightarrow> free_area \<Rightarrow> nat option option" where
  "first_fit_loop n le s =
    (case list_next le (fa_links s) of
       FreeList \<Rightarrow> Some None
     | PageLink p \<Rightarrow>
         if n \<le> p_property (fa_pages s p) then Some (Some p)
         else first_fit_loop n (PageLink p) s)"

text \<open>The second half of \<open>default_alloc_pages\<close>: the block found is unlinked and its rest put back.\<close>

definition take_block :: "nat \<Rightarrow> nat \<Rightarrow> free_area \<Rightarrow> free_area" where
  "take_block n page s =
    (let prev = list_prev (PageLink page) (fa_links s);
         s = s\<lparr>fa_links := list_del (PageLink page) (fa_links s)\<rparr>;
         s = (if n < p_property (fa_pages s page)
              then let p = page + n;
                       len = p_property (fa_pages s page);
                       s = upd_page p (\<lambda>q. SetPageProperty (q\<lparr>p_property := u32 (len - n)\<rparr>)) s
                   in s\<lparr>fa_links := list_add prev (PageLink p) (fa_links s)\<rparr>
              else s);
         s = s\<lparr>fa_nr_free := fa_nr_free s - n\<rparr>
     in upd_page page ClearPageProperty s)"

definition default_alloc_pages :: "nat \<Rightarrow> free_area \<Rightarrow> (free_area \<times> nat option) option" where
  "default_alloc_pages n s = do {
     assert_k (0 < n);
     if fa_nr_free s < n then Some (s, None)
     else do {
       r \<leftarrow> first_fit_loop n FreeList s;
       (case r of
          None \<Rightarrow> Some (s, None)
        | Some page \<Rightarrow> Some (take_block n page s, Some page)) } }"

definition merge_prev :: "nat \<Rightarrow> free_area \<Rightarrow> free_area \<times> nat" where
  "merge_prev base s =
    (case list_prev (PageLink base) (fa_links s) of
       FreeList \<Rightarrow> (s, base)
     | PageLink p \<Rightarrow>
         if p + p_property (fa_pages s p) = base
         then let len = p_property (fa_pages s base);
                  s = upd_page p (\<lambda>q. q\<lparr>p_property := u32 (p_property q + len)\<rparr>) s;
                  s = upd_page base ClearPageProperty s
              in (s\<lparr>fa_links := list_del (PageLink base) (fa_links s)\<rparr>, p)
         else (s, base))"

definition merge_next :: "nat \<Rightarrow> free_area \<Rightarrow> free_area" where
  "merge_next base s =
    (case list_next (PageLink base) (fa_links s) of
       FreeList \<Rightarrow> s
     | PageLink p \<Rightarrow>
         if base + p_property (fa_pages s base) = p
         then let len = p_property (fa_pages s p);
                  s = upd_page base (\<lambda>q. q\<lparr>p_property := u32 (p_property q + len)\<rparr>) s;
                  s = upd_page p ClearPageProperty s
              in s\<lparr>fa_links := list_del (PageLink p) (fa_links s)\<rparr>
         else s)"

definition default_free_pages :: "nat \<Rightarrow> nat \<Rightarrow> free_area \<Rightarrow> free_area option" where
  "default_free_pages base n s = do {
     assert_k (0 < n);
     s \<leftarrow> free_pages_loop n base s;
     let s = upd_page base (\<lambda>q. SetPageProperty (q\<lparr>p_property := u32 n\<rparr>)) s;
     let s = s\<lparr>fa_nr_free := u32 (fa_nr_free s + n)\<rparr>;
     h \<leftarrow> insert_block base (fa_links s);
     let (s, base) = merge_prev base (s\<lparr>fa_links := h\<rparr>);
     Some (merge_next base s) }"

definition default_nr_free_pages :: "free_area \<Rightarrow> nat" where
  "default_nr_free_pages s = fa_nr_free s"

section \<open>The loops\<close>

definition reset_page :: "page \<Rightarrow> page" where
  "reset_page q = q\<lparr>p_flags := 0, p_property := 0, p_ref := 0\<rparr>"

definition released_page :: "page \<Rightarrow> page" where
  "released_page q = q\<lparr>p_flags := 0, p_ref := 0\<rparr>"

lemma init_memmap_loop_eq:
  "init_memmap_loop k p s =
    (if \<forall>q\<in>{p..<p + k}. PageReserved (fa_pages s q)
     then Some (s\<lparr>fa_pages := \<lambda>q. if q \<in> {p..<p + k} then reset_page (fa_pages s q) else fa_pages s q\<rparr>)
     else None)"
proof (induction k arbitrary: p s)
  case 0
  then show ?case by simp
next
  case (Suc k)
  have r: "{p..<p + Suc k} = insert p {Suc p..<Suc p + k}" by auto
  show ?case unfolding r by (auto simp: Suc.IH reset_page_def fun_eq_iff)
qed

lemma free_pages_loop_eq:
  "free_pages_loop k p s =
    (if \<forall>q\<in>{p..<p + k}. \<not> PageReserved (fa_pages s q) \<and> \<not> PageProperty (fa_pages s q)
     then Some (s\<lparr>fa_pages := \<lambda>q. if q \<in> {p..<p + k} then released_page (fa_pages s q) else fa_pages s q\<rparr>)
     else None)"
proof (induction k arbitrary: p s)
  case 0
  then show ?case by simp
next
  case (Suc k)
  have r: "{p..<p + Suc k} = insert p {Suc p..<Suc p + k}" by auto
  show ?case unfolding r by (auto simp: Suc.IH released_page_def fun_eq_iff)
qed

lemma insert_loop_below:
  assumes "ring h FreeList (map PageLink (ys @ us @ z # vs))"
    and "\<forall>u\<in>set us. u \<le> base" and "base < z" and "le = last (FreeList # map PageLink ys)"
  shows "insert_loop base le h =
    Some (list_add_before (PageLink z) (PageLink base) h)"
  using assms
proof (induction us arbitrary: ys le)
  case Nil
  then have "l_next h le = PageLink z"
    using ring_step(3) [of h FreeList "map PageLink ys" "PageLink z" "map PageLink vs"] by simp
  then show ?case using Nil.prems(3) by (subst insert_loop.simps) (simp add: list_next_def)
next
  case (Cons u us)
  have r: "ring h FreeList (map PageLink ys @ PageLink u # map PageLink (us @ z # vs))"
    using Cons.prems(1) by simp
  have n1: "l_next h le = PageLink u"
    using ring_step(3) [OF r] Cons.prems by metis
  have n2: "l_next h (PageLink u) \<noteq> FreeList"
    using ring_step(1) [OF r] by (cases us) auto
  have IH: "insert_loop base (PageLink u) h =
    Some (list_add_before (PageLink z) (PageLink base) h)"
    using Cons.prems by (intro Cons.IH [of "ys @ [u]"]) auto
  show ?case
    using Cons.prems(2) by (subst insert_loop.simps) (simp add: list_next_def n1 n2 IH)
qed

lemma insert_loop_end:
  assumes "ring h FreeList (map PageLink (ys @ us @ [z]))"
    and "\<forall>u\<in>set (us @ [z]). u < base" and "base \<notin> set ys"
    and "le = last (FreeList # map PageLink ys)"
  shows "insert_loop base le h =
    Some (list_add (PageLink base) (PageLink base) (list_add (PageLink z) (PageLink base) h))"
  using assms
proof (induction us arbitrary: ys le)
  case Nil
  let ?h = "list_add (PageLink z) (PageLink base) h"
  have r: "ring h FreeList (map PageLink ys @ PageLink z # [])" using Nil.prems(1) by simp
  have n1: "l_next h le = PageLink z"
    using ring_step(3) [OF r] Nil.prems(4) by metis
  have n2: "l_next h (PageLink z) = FreeList"
    using ring_step(1) [OF r] by simp
  have r': "ring ?h FreeList (map PageLink (ys @ [z]) @ PageLink base # [])"
    using ring_list_add_entry [OF r, of "PageLink base"] Nil.prems(2,3) by auto
  have n3: "l_next ?h (PageLink z) = PageLink base" and n4: "l_next ?h (PageLink base) = FreeList"
    using ring_step(1,3) [OF r'] by simp_all
  have n5: "l_next (list_add (PageLink base) (PageLink base) ?h) (PageLink base) = FreeList"
    using n4 by (simp add: list_add_def list_add_after_def list_add_raw_def Let_def)
  have 1: "insert_loop base (PageLink base) (list_add (PageLink base) (PageLink base) ?h) =
     Some (list_add (PageLink base) (PageLink base) ?h)"
    by (subst insert_loop.simps) (simp add: list_next_def n5)
  have *: "insert_loop base (PageLink z) ?h = Some (list_add (PageLink base) (PageLink base) ?h)"
    by (subst insert_loop.simps) (simp add: list_next_def n3 n4 1)
  show ?case
    using Nil.prems(2) by (subst insert_loop.simps) (simp add: list_next_def n1 n2 *)
next
  case (Cons u us)
  have r: "ring h FreeList (map PageLink ys @ PageLink u # map PageLink (us @ [z]))"
    using Cons.prems(1) by simp
  have n1: "l_next h le = PageLink u"
    using ring_step(3) [OF r] Cons.prems by metis
  have n2: "l_next h (PageLink u) \<noteq> FreeList"
    using ring_step(1) [OF r] by (cases us) auto
  have *: "insert_loop base (PageLink u) h =
    Some (list_add (PageLink base) (PageLink base) (list_add (PageLink z) (PageLink base) h))"
    using Cons.prems by (intro Cons.IH [of "ys @ [u]"]) auto
  show ?case
    using Cons.prems(2) by (subst insert_loop.simps) (simp add: list_next_def n1 n2 *)
qed

lemma first_fit_loop_find:
  assumes "next_ring (fa_links s) FreeList (map PageLink (ys @ zs))"
    and "le = last (FreeList # map PageLink ys)"
  shows "first_fit_loop n le s =
    Some (List.find (\<lambda>p. n \<le> prop_of s p) zs)"
  using assms
proof (induction zs arbitrary: ys le)
  case Nil
  then have "l_next (fa_links s) le = FreeList"
    by (auto simp: next_ring_def dest: chain_last)
  then show ?case by (subst first_fit_loop.simps) (simp add: list_next_def)
next
  case (Cons z zs)
  have n: "l_next (fa_links s) le = PageLink z"
    using next_ring_step [of "fa_links s" FreeList "map PageLink ys" "PageLink z" "map PageLink zs"]
      Cons.prems by simp
  have IH: "first_fit_loop n (PageLink z) s = Some (List.find (\<lambda>p. n \<le> prop_of s p) zs)"
    using Cons.IH [of "ys @ [z]"] Cons.prems by simp
  show ?case by (subst first_fit_loop.simps) (simp add: list_next_def n IH prop_of_def)
qed

section \<open>The representation invariant\<close>

definition free_set :: "free_area \<Rightarrow> nat list \<Rightarrow> nat set" where
  "free_set s xs = blocks_pages (prop_of s) xs"

definition ff_ok :: "nat \<Rightarrow> free_area \<Rightarrow> nat list \<Rightarrow> bool" where
  "ff_ok N s xs \<longleftrightarrow>
     ring (fa_links s) FreeList (map PageLink xs) \<and>
     blocks_ordered (prop_of s) xs \<and>
     (\<forall>x\<in>set xs. x + prop_of s x \<le> N \<and> PageProperty (fa_pages s x)) \<and>
     fa_nr_free s = sum_list (map (prop_of s) xs) \<and> N < 2 ^ 32"

text \<open>A list is coalesced when no block touches the next one.\<close>

fun coalesced :: "(nat \<Rightarrow> nat) \<Rightarrow> nat list \<Rightarrow> bool" where
  "coalesced len [] \<longleftrightarrow> True"
| "coalesced len [x] \<longleftrightarrow> True"
| "coalesced len (x # y # ys) \<longleftrightarrow> x + len x \<noteq> y \<and> coalesced len (y # ys)"

lemma coalesced_append:
  "coalesced len (xs @ y # ys) \<longleftrightarrow>
     coalesced len (xs @ [y]) \<and> coalesced len (y # ys)"
  by (induction len xs rule: coalesced.induct) auto

lemma coalesced_snoc:
  "coalesced len (xs @ [y]) \<longleftrightarrow> coalesced len xs \<and> (xs \<noteq> [] \<longrightarrow> last xs + len (last xs) \<noteq> y)"
  by (induction len xs rule: coalesced.induct) auto

lemma coalesced_appendD: "coalesced len (us @ vs) \<Longrightarrow> coalesced len us \<and> coalesced len vs"
proof (cases vs)
  case (Cons v ws)
  assume "coalesced len (us @ vs)"
  then have "coalesced len (us @ [v])" "coalesced len (v # ws)"
    unfolding Cons using coalesced_append [of len us v ws] by blast+
  then show ?thesis unfolding Cons by (simp add: coalesced_snoc)
qed simp

lemma coalesced_cong:
  "\<forall>x\<in>set xs. len' x = len x \<Longrightarrow> coalesced len' xs = coalesced len xs"
  by (induction len xs rule: coalesced.induct) auto

lemma ff_ok_card: "ff_ok N s xs \<Longrightarrow> fa_nr_free s = card (free_set s xs)"
  by (simp add: ff_ok_def free_set_def blocks_pages_card)

lemma ff_ok_subset: "ff_ok N s xs \<Longrightarrow> free_set s xs \<subseteq> {0..<N}"
  unfolding ff_ok_def free_set_def blocks_pages_def block_pages_def by fastforce

lemma ff_ok_distinct: "ff_ok N s xs \<Longrightarrow> distinct xs"
  unfolding ff_ok_def using blocks_ordered_distinct by blast

lemma ff_ok_init: "N < 2 ^ 32 \<Longrightarrow> ff_ok N (default_init s) []"
  by (simp add: ff_ok_def default_init_def ring_list_init)

text \<open>Changes outside the list and outside the heads do not matter.\<close>

lemma ff_ok_frame:
  assumes "ff_ok N s xs"
    and "fa_links s' = fa_links s" "fa_nr_free s' = fa_nr_free s"
    and "\<forall>x\<in>set xs. fa_pages s' x = fa_pages s x"
  shows "ff_ok N s' xs" and "free_set s' xs = free_set s xs"
proof -
  have p: "\<forall>x\<in>set xs. prop_of s' x = prop_of s x" using assms(4) by (simp add: prop_of_def)
  show "ff_ok N s' xs"
    using assms p blocks_ordered_cong [OF p] sum_list_map_cong [OF p] by (simp add: ff_ok_def)
  show "free_set s' xs = free_set s xs"
    unfolding free_set_def by (rule blocks_pages_cong [OF p])
qed

section \<open>Allocation\<close>

lemma prop_of_upd [simp]:
  "prop_of (upd_page p f s) = (prop_of s)(p := p_property (f (fa_pages s p)))"
  "prop_of (s\<lparr>fa_links := h\<rparr>) = prop_of s"
  "prop_of (s\<lparr>fa_nr_free := k\<rparr>) = prop_of s"
  by (auto simp: prop_of_def upd_page_def)

definition rest_block :: "nat \<Rightarrow> nat \<Rightarrow> free_area \<Rightarrow> nat list" where
  "rest_block n x s = (if n < prop_of s x then [x + n] else [])"

lemma take_block_prop:
  "prop_of (take_block n x s) =
     (if n < prop_of s x then (prop_of s)(x + n := u32 (prop_of s x - n)) else prop_of s)"
  by (auto simp: take_block_def Let_def fun_eq_iff) (auto simp: prop_of_def)

lemma take_block_pages:
  "fa_pages (take_block n x s) y =
     (let q = (if y = x + n \<and> n < prop_of s x
               then SetPageProperty (fa_pages s y\<lparr>p_property := u32 (prop_of s x - n)\<rparr>)
               else fa_pages s y)
      in if y = x then ClearPageProperty q else q)"
  by (auto simp: take_block_def Let_def prop_of_def)

lemma take_block_nr: "fa_nr_free (take_block n x s) = fa_nr_free s - n"
  by (simp add: take_block_def Let_def)

lemma take_block_links:
  assumes "ring (fa_links s) FreeList (map PageLink (ys @ x # zs))"
    and "n < prop_of s x \<Longrightarrow> x + n \<notin> set (ys @ zs)"
  shows "ring (fa_links (take_block n x s)) FreeList (map PageLink (ys @ rest_block n x s @ zs))"
proof -
  have r: "ring (fa_links s) FreeList (map PageLink ys @ PageLink x # map PageLink zs)"
    using assms(1) by simp
  have prev: "list_prev (PageLink x) (fa_links s) = last (FreeList # map PageLink ys)"
    using ring_step(2) [OF r] by (simp add: list_prev_def)
  have d: "ring (list_del (PageLink x) (fa_links s)) FreeList (map PageLink ys @ map PageLink zs)"
    by (rule ring_list_del [OF r])
  show ?thesis
  proof (cases "n < prop_of s x")
    case True
    have "PageLink (x + n) \<notin> set (FreeList # map PageLink ys @ map PageLink zs)"
      using assms(2) [OF True] by auto
    from ring_list_add_after_prefix [OF d this] True show ?thesis
      unfolding take_block_def Let_def prev by (simp add: prop_of_def rest_block_def)
  next
    case False
    with d show ?thesis
      unfolding take_block_def Let_def prev by (simp add: prop_of_def rest_block_def)
  qed
qed

lemma take_block_ok:
  assumes ok: "ff_ok N s (ys @ x # zs)" and n: "0 < n" "n \<le> prop_of s x"
  shows "ff_ok N (take_block n x s) (ys @ rest_block n x s @ zs)"
    and "free_set (take_block n x s) (ys @ rest_block n x s @ zs) =
         free_set s (ys @ x # zs) - {x..<x + n}"
    and "{x..<x + n} \<subseteq> free_set s (ys @ x # zs)"
proof -
  let ?s = "take_block n x s" and ?len = "prop_of s"
  have ord: "blocks_ordered ?len (ys @ x # zs)"
    and bnd: "\<forall>y\<in>set (ys @ x # zs). y + ?len y \<le> N \<and> PageProperty (fa_pages s y)" and N: "N < 2 ^ 32"
    and nr: "fa_nr_free s = sum_list (map ?len (ys @ x # zs))"
    using ok by (auto simp: ff_ok_def)
  have ys: "\<forall>y\<in>set ys. y < x \<and> y + ?len y \<le> x" and zs: "\<forall>z\<in>set zs. x + ?len x \<le> z"
    using ord by (auto simp: blocks_ordered_append blocks_ordered_Cons)
      (metis add_leD1 blocks_ordered_Cons in_set_conv_decomp blocks_ordered_append less_add_same_cancel1 order_less_le_trans)
  have small: "u32 (?len x - n) = ?len x - n" using bnd N by (intro u32_id) auto
  have len: "\<forall>y\<in>set (ys @ zs). prop_of ?s y = ?len y"
    using ys zs n by (auto simp: take_block_prop)
  have rest: "n < ?len x \<Longrightarrow> prop_of ?s (x + n) = ?len x - n"
    by (simp add: take_block_prop small)
  have pages: "\<forall>y\<in>set (ys @ zs). fa_pages ?s y = fa_pages s y"
    using ys zs n by (auto simp: take_block_pages Let_def)
  have "x + n \<notin> set (ys @ zs)" if "n < ?len x"
    using ys zs that by fastforce
  then have ring: "ring (fa_links ?s) FreeList (map PageLink (ys @ rest_block n x s @ zs))"
    using ok by (intro take_block_links) (auto simp: ff_ok_def)
  have ord': "blocks_ordered (prop_of ?s) ys" "blocks_ordered (prop_of ?s) zs"
    using ord len blocks_ordered_cong [of ys "prop_of ?s" ?len] blocks_ordered_cong [of zs "prop_of ?s" ?len]
    by (simp_all add: blocks_ordered_append blocks_ordered_Cons)
  have sum: "sum_list (map (prop_of ?s) (ys @ rest_block n x s @ zs)) + n = sum_list (map ?len (ys @ x # zs))"
  proof -
    have "sum_list (map (prop_of ?s) ys) = sum_list (map ?len ys)"
      "sum_list (map (prop_of ?s) zs) = sum_list (map ?len zs)"
      using len by (intro sum_list_map_cong; simp)+
    then show ?thesis using rest n by (cases "n < ?len x") (simp_all add: rest_block_def)
  qed
  show "ff_ok N ?s (ys @ rest_block n x s @ zs)"
    unfolding ff_ok_def
  proof (intro conjI)
    show "blocks_ordered (prop_of ?s) (ys @ rest_block n x s @ zs)"
    proof (cases "n < ?len x")
      case True
      have "\<forall>y\<in>set ys. y + prop_of ?s y \<le> x + n" using ys len by fastforce
      moreover have "\<forall>z\<in>set zs. \<forall>y\<in>set ys. y + prop_of ?s y \<le> z" using ys zs len by fastforce
      moreover have "\<forall>z\<in>set zs. x + n + prop_of ?s (x + n) \<le> z" using zs rest True by fastforce
      ultimately show ?thesis using ord' True rest
        by (simp add: blocks_ordered_append blocks_ordered_Cons rest_block_def)
    next
      case False
      have "\<forall>z\<in>set zs. \<forall>y\<in>set ys. y + prop_of ?s y \<le> z" using ys zs len by fastforce
      then show ?thesis using ord' False by (simp add: blocks_ordered_append rest_block_def)
    qed
    show "\<forall>y\<in>set (ys @ rest_block n x s @ zs).
        y + prop_of ?s y \<le> N \<and> PageProperty (fa_pages ?s y)"
    proof
      fix y assume "y \<in> set (ys @ rest_block n x s @ zs)"
      then consider "y \<in> set (ys @ zs)" | "n < ?len x" "y = x + n"
        by (cases "n < ?len x") (simp_all add: rest_block_def, blast+)
      then show "y + prop_of ?s y \<le> N \<and> PageProperty (fa_pages ?s y)"
      proof cases
        case 1
        then show ?thesis using bnd len pages by auto
      next
        case 2
        then show ?thesis using bnd rest n by (simp add: take_block_pages)
      qed
    qed
    show "fa_nr_free ?s = sum_list (map (prop_of ?s) (ys @ rest_block n x s @ zs))"
      by (simp only: take_block_nr nr sum [symmetric] add_diff_cancel_right')
  qed (use ring N in auto)
  have b: "blocks_pages (prop_of ?s) ys = blocks_pages ?len ys"
    "blocks_pages (prop_of ?s) zs = blocks_pages ?len zs"
    using len by (auto intro!: blocks_pages_cong)
  have d: "blocks_pages ?len ys \<inter> {x..<x + n} = {}" "blocks_pages ?len zs \<inter> {x..<x + n} = {}"
    using ys zs n by (fastforce simp: blocks_pages_def block_pages_def)+
  have r: "blocks_pages (prop_of ?s) (rest_block n x s) = {x..<x + ?len x} - {x..<x + n}"
    using rest n by (auto simp: rest_block_def)
  show "free_set ?s (ys @ rest_block n x s @ zs) = free_set s (ys @ x # zs) - {x..<x + n}"
    unfolding free_set_def using b d r by auto
  show "{x..<x + n} \<subseteq> free_set s (ys @ x # zs)"
    using n by (auto simp: free_set_def)
qed

lemma first_fit_search:
  "ff_ok N s xs \<Longrightarrow> first_fit_loop n FreeList s = Some (List.find (\<lambda>p. n \<le> prop_of s p) xs)"
  using first_fit_loop_find [of s "[]" xs FreeList n] by (simp add: ff_ok_def ring_next_ring)

lemma default_alloc_eq:
  "ff_ok N s xs \<Longrightarrow> 0 < n \<Longrightarrow> default_alloc_pages n s =
     Some (if fa_nr_free s < n then (s, None)
           else case List.find (\<lambda>p. n \<le> prop_of s p) xs of
                  None \<Rightarrow> (s, None) | Some x \<Rightarrow> (take_block n x s, Some x))"
  by (simp add: default_alloc_pages_def first_fit_search split: option.split)

lemma fit_le_nr_free:
  "ff_ok N s xs \<Longrightarrow> x \<in> set xs \<Longrightarrow> prop_of s x \<le> fa_nr_free s"
  by (auto simp: ff_ok_def member_le_sum_list)

section \<open>Release\<close>

definition join_blocks :: "nat \<Rightarrow> nat \<Rightarrow> free_area \<Rightarrow> free_area" where
  "join_blocks p q s =
    (let len = p_property (fa_pages s q);
         s = upd_page p (\<lambda>r. r\<lparr>p_property := u32 (p_property r + len)\<rparr>) s;
         s = upd_page q ClearPageProperty s
     in s\<lparr>fa_links := list_del (PageLink q) (fa_links s)\<rparr>)"

lemma merge_prev_join:
  "merge_prev base s =
    (case list_prev (PageLink base) (fa_links s) of
       FreeList \<Rightarrow> (s, base)
     | PageLink p \<Rightarrow> if p + prop_of s p = base then (join_blocks p base s, p) else (s, base))"
  by (simp add: merge_prev_def join_blocks_def prop_of_def Let_def split: node.split)

lemma merge_next_join:
  "merge_next base s =
    (case list_next (PageLink base) (fa_links s) of
       FreeList \<Rightarrow> s
     | PageLink p \<Rightarrow> if base + prop_of s base = p then join_blocks base p s else s)"
  by (simp add: merge_next_def join_blocks_def prop_of_def Let_def split: node.split)

lemma join_blocks_fields:
  "fa_links (join_blocks p q s) = list_del (PageLink q) (fa_links s)"
  "fa_nr_free (join_blocks p q s) = fa_nr_free s"
  "p \<noteq> q \<Longrightarrow> prop_of (join_blocks p q s) = (prop_of s)(p := u32 (prop_of s p + prop_of s q))"
  "p \<noteq> q \<Longrightarrow> PageProperty (fa_pages (join_blocks p q s) y) =
     (y \<noteq> q \<and> PageProperty (fa_pages s y))"
  by (auto simp: join_blocks_def Let_def fun_eq_iff prop_of_def)

lemma join_blocks_ok:
  assumes ok: "ff_ok N s (us @ p # q # vs)" and adj: "p + prop_of s p = q"
  shows "ff_ok N (join_blocks p q s) (us @ p # vs)"
    and "free_set (join_blocks p q s) (us @ p # vs) = free_set s (us @ p # q # vs)"
    and "\<forall>y. y \<noteq> p \<longrightarrow> prop_of (join_blocks p q s) y = prop_of s y"
    and "prop_of (join_blocks p q s) p = prop_of s p + prop_of s q"
proof -
  let ?s = "join_blocks p q s" and ?len = "prop_of s"
  have ord: "blocks_ordered ?len (us @ p # q # vs)"
    and bnd: "\<forall>y\<in>set (us @ p # q # vs). y + ?len y \<le> N \<and> PageProperty (fa_pages s y)"
    and N: "N < 2 ^ 32" and nr: "fa_nr_free s = sum_list (map ?len (us @ p # q # vs))"
    and ring: "ring (fa_links s) FreeList (map PageLink (us @ p # q # vs))"
    using ok by (auto simp: ff_ok_def)
  have dist: "distinct (us @ p # q # vs)" by (rule blocks_ordered_distinct [OF ord])
  then have pq: "p \<noteq> q" and p: "p \<notin> set us" "p \<notin> set vs" and q: "q \<notin> set us" "q \<notin> set vs" by auto
  have "q + ?len q \<le> N" using bnd by simp
  then have len': "prop_of ?s = ?len(p := ?len p + ?len q)"
    using join_blocks_fields(3) [OF pq] adj N by simp
  then show "\<forall>y. y \<noteq> p \<longrightarrow> prop_of ?s y = ?len y" and lp: "prop_of ?s p = ?len p + ?len q" by simp_all
  have us: "\<forall>u\<in>set us. prop_of ?s u = ?len u" and vs: "\<forall>u\<in>set vs. prop_of ?s u = ?len u"
    using len' p by auto
  have o: "blocks_ordered (prop_of ?s) us = blocks_ordered ?len us"
    "blocks_ordered (prop_of ?s) vs = blocks_ordered ?len vs"
    using us vs by (intro blocks_ordered_cong; simp)+
  have rng: "ring (fa_links s) FreeList (map PageLink (us @ [p]) @ PageLink q # map PageLink vs)"
    using ring by simp
  show "ff_ok N ?s (us @ p # vs)"
    unfolding ff_ok_def
  proof (intro conjI)
    show "ring (fa_links ?s) FreeList (map PageLink (us @ p # vs))"
      using ring_list_del [OF rng] by (simp add: join_blocks_fields(1))
    show "blocks_ordered (prop_of ?s) (us @ p # vs)"
      using ord us vs adj lp by (auto simp: blocks_ordered_append blocks_ordered_Cons o add.assoc [symmetric])
    have "\<forall>y\<in>set us \<union> set vs. y + prop_of ?s y \<le> N \<and> PageProperty (fa_pages ?s y)"
      using bnd us vs q by (auto simp: join_blocks_fields(4) [OF pq])
    moreover have "p + prop_of ?s p \<le> N \<and> PageProperty (fa_pages ?s p)"
      using bnd adj lp pq by (simp add: join_blocks_fields(4) [OF pq])
    ultimately show "\<forall>y\<in>set (us @ p # vs). y + prop_of ?s y \<le> N \<and> PageProperty (fa_pages ?s y)"
      by simp
    have "sum_list (map (prop_of ?s) us) = sum_list (map ?len us)"
      "sum_list (map (prop_of ?s) vs) = sum_list (map ?len vs)"
      using us vs by (intro sum_list_map_cong; simp)+
    then show "fa_nr_free ?s = sum_list (map (prop_of ?s) (us @ p # vs))"
      using nr lp by (simp add: join_blocks_fields(2))
  qed (rule N)
  have "blocks_pages (prop_of ?s) us = blocks_pages ?len us"
    "blocks_pages (prop_of ?s) vs = blocks_pages ?len vs"
    using us vs by (intro blocks_pages_cong; simp)+
  moreover have "{p..<p + (?len p + ?len q)} = {p..<p + ?len p} \<union> {q..<q + ?len q}"
    using adj by auto
  ultimately show "free_set ?s (us @ p # vs) = free_set s (us @ p # q # vs)"
    unfolding free_set_def by (simp add: lp Un_ac)
qed

lemma merge_prev_ok:
  assumes ok: "ff_ok N s (us @ b # vs)"
    and c: "coalesced (prop_of s) us" "coalesced (prop_of s) vs"
  obtains s' us' b' where "merge_prev b s = (s', b')" "ff_ok N s' (us' @ b' # vs)"
    "free_set s' (us' @ b' # vs) = free_set s (us @ b # vs)"
    "coalesced (prop_of s') (us' @ [b'])" "coalesced (prop_of s') vs"
proof -
  have ring: "ring (fa_links s) FreeList (map PageLink us @ PageLink b # map PageLink vs)"
    using ok by (simp add: ff_ok_def)
  have prev: "list_prev (PageLink b) (fa_links s) = last (FreeList # map PageLink us)"
    using ring_step(2) [OF ring] by (simp add: list_prev_def)
  show ?thesis
  proof (cases us rule: rev_cases)
    case Nil
    then show ?thesis using that [of s b "[]"] ok c prev by (simp add: merge_prev_join)
  next
    case (snoc ws p)
    have pv: "list_prev (PageLink b) (fa_links s) = PageLink p" using prev snoc by simp
    show ?thesis
    proof (cases "p + prop_of s p = b")
      case True
      have ok': "ff_ok N s (ws @ p # b # vs)" using ok snoc by simp
      have "distinct (ws @ p # b # vs)"
        by (rule ff_ok_distinct [OF ok'])
      then have eq: "\<forall>y\<in>set ws. prop_of (join_blocks p b s) y = prop_of s y"
        "\<forall>y\<in>set vs. prop_of (join_blocks p b s) y = prop_of s y"
        using join_blocks_ok(3) [OF ok' True] by auto
      have "coalesced (prop_of (join_blocks p b s)) (ws @ [p])"
        using c(1) snoc eq(1) coalesced_cong [OF eq(1)] by (auto simp: coalesced_snoc)
      moreover have "coalesced (prop_of (join_blocks p b s)) vs"
        using c(2) coalesced_cong [OF eq(2)] by simp
      ultimately show ?thesis
        using that [of "join_blocks p b s" p ws] join_blocks_ok(1,2) [OF ok' True] pv True snoc
        by (simp add: merge_prev_join)
    next
      case False
      then show ?thesis
        using that [of s b us] ok c pv snoc coalesced_snoc [of "prop_of s" us b]
        by (simp add: merge_prev_join)
    qed
  qed
qed

lemma merge_next_ok:
  assumes ok: "ff_ok N s (us @ b # vs)"
    and c: "coalesced (prop_of s) (us @ [b])" "coalesced (prop_of s) vs"
  obtains vs' where "ff_ok N (merge_next b s) (us @ b # vs')"
    "free_set (merge_next b s) (us @ b # vs') = free_set s (us @ b # vs)"
    "coalesced (prop_of (merge_next b s)) (us @ b # vs')"
proof -
  have ring: "ring (fa_links s) FreeList (map PageLink us @ PageLink b # map PageLink vs)"
    using ok by (simp add: ff_ok_def)
  have next': "list_next (PageLink b) (fa_links s) = hd (map PageLink vs @ [FreeList])"
    using ring_step(1) [OF ring] by (simp add: list_next_def)
  show ?thesis
  proof (cases vs)
    case Nil
    then show ?thesis using that [of "[]"] ok c next' by (simp add: merge_next_join)
  next
    case (Cons p ws)
    have nx: "list_next (PageLink b) (fa_links s) = PageLink p" using next' Cons by simp
    show ?thesis
    proof (cases "b + prop_of s b = p")
      case True
      let ?s = "join_blocks b p s"
      have ok': "ff_ok N s (us @ b # p # ws)" using ok Cons by simp
      have d: "distinct (us @ b # p # ws)"
        by (rule ff_ok_distinct [OF ok'])
      then have eq: "\<forall>y\<in>set us. prop_of ?s y = prop_of s y" "\<forall>y\<in>set ws. prop_of ?s y = prop_of s y"
        using join_blocks_ok(3) [OF ok' True] by auto
      have c1: "coalesced (prop_of ?s) (us @ [b])"
        using c(1) eq(1) coalesced_cong [OF eq(1)] by (auto simp: coalesced_snoc)
      have c2: "coalesced (prop_of ?s) (b # ws)"
        using c(2) Cons eq(2) coalesced_cong [OF eq(2)] True join_blocks_ok(4) [OF ok' True]
        by (cases ws) auto
      have "merge_next b s = ?s" using nx True by (simp add: merge_next_join)
      then show ?thesis
        using that [of ws] join_blocks_ok(1,2) [OF ok' True] c1 c2 Cons
        by (simp add: coalesced_append [of _ us b ws])
    next
      case False
      have "merge_next b s = s" using nx False by (simp add: merge_next_join)
      moreover have "coalesced (prop_of s) (us @ b # vs)"
        using c False Cons by (intro iffD2 [OF coalesced_append]) simp
      ultimately show ?thesis using that [of vs] ok by simp
    qed
  qed
qed

lemma insert_block_empty:
  "ring h FreeList [] \<Longrightarrow> insert_block base h = Some (list_add FreeList (PageLink base) h) \<and>
     ring (list_add FreeList (PageLink base) h) FreeList (map PageLink [base])"
  using ring_list_add_head [of h FreeList "[]" "PageLink base"] ring_empty_iff [of h FreeList "[]"]
  by (simp add: insert_block_def)

lemma insert_block_below:
  assumes "ring h FreeList (map PageLink (us @ z # vs))"
    and "\<forall>u\<in>set us. u < base" and "base < z" and "base \<notin> set vs"
  shows "\<exists>h'. insert_block base h = Some h' \<and> ring h' FreeList (map PageLink (us @ base # z # vs))"
proof -
  have "\<not> list_empty FreeList h" using ring_empty_iff [OF assms(1)] by simp
  then have "insert_block base h = Some (list_add_before (PageLink z) (PageLink base) h)"
    using insert_loop_below [of h "[]" us z vs base FreeList] assms
    by (simp add: insert_block_def order_less_imp_le)
  moreover have "PageLink base \<notin> set (FreeList # map PageLink us @ PageLink z # map PageLink vs)"
    using assms(2-4) by auto
  ultimately show ?thesis
    using ring_list_add_before_entry [of h FreeList "map PageLink us" "PageLink z" "map PageLink vs"] assms(1)
    by simp
qed

definition freeable :: "nat \<Rightarrow> nat \<Rightarrow> nat \<Rightarrow> free_area \<Rightarrow> bool" where
  "freeable N base n s \<longleftrightarrow> 0 < n \<and> base + n \<le> N \<and>
     (\<forall>q\<in>{base..<base + n}. \<not> PageReserved (fa_pages s q) \<and> \<not> PageProperty (fa_pages s q))"

definition released :: "nat \<Rightarrow> nat \<Rightarrow> free_area \<Rightarrow> free_area" where
  "released base n s =
    (upd_page base (\<lambda>q. SetPageProperty (q\<lparr>p_property := u32 n\<rparr>))
      (s\<lparr>fa_pages := \<lambda>q. if q \<in> {base..<base + n} then released_page (fa_pages s q) else fa_pages s q\<rparr>))
      \<lparr>fa_nr_free := u32 (fa_nr_free s + n)\<rparr>"

lemma default_free_eq:
  "freeable N base n s \<Longrightarrow> default_free_pages base n s =
     (case insert_block base (fa_links s) of
        None \<Rightarrow> None
      | Some h \<Rightarrow> (let (s, b) = merge_prev base ((released base n s)\<lparr>fa_links := h\<rparr>)
                   in Some (merge_next b s)))"
  by (simp add: default_free_pages_def free_pages_loop_eq freeable_def released_def Let_def
      split: option.split)

lemma released_fields:
  "0 < n \<Longrightarrow> q \<notin> {base..<base + n} \<Longrightarrow> fa_pages (released base n s) q = fa_pages s q"
  "0 < n \<Longrightarrow> prop_of (released base n s) base = u32 n"
  "0 < n \<Longrightarrow> PageProperty (fa_pages (released base n s) base)"
  "fa_nr_free (released base n s) = u32 (fa_nr_free s + n)"
  "fa_links (released base n s) = fa_links s"
  by (auto simp: released_def released_page_def prop_of_def)

lemma released_ok:
  assumes ok: "ff_ok N s (us @ vs)" and f: "freeable N base n s"
    and disj: "{base..<base + n} \<inter> free_set s (us @ vs) = {}"
    and us: "\<forall>u\<in>set us. u < base" and vs: "\<forall>v\<in>set vs. base < v"
    and ring: "ring h FreeList (map PageLink (us @ base # vs))"
  defines "s' \<equiv> (released base n s)\<lparr>fa_links := h\<rparr>"
  shows "ff_ok N s' (us @ base # vs)"
    and "free_set s' (us @ base # vs) = free_set s (us @ vs) \<union> {base..<base + n}"
    and "\<forall>x\<in>set (us @ vs). prop_of s' x = prop_of s x"
proof -
  let ?len = "prop_of s"
  have n: "0 < n" "base + n \<le> N" using f by (auto simp: freeable_def)
  have ord: "blocks_ordered ?len (us @ vs)"
    and bnd: "\<forall>y\<in>set (us @ vs). y + ?len y \<le> N \<and> PageProperty (fa_pages s y)"
    and N: "N < 2 ^ 32" and nr: "fa_nr_free s = sum_list (map ?len (us @ vs))"
    using ok by (auto simp: ff_ok_def)
  have out: "x \<notin> {base..<base + n}" if "x \<in> set (us @ vs)" for x
    using blocks_pages_head [OF ord that] disj by (auto simp: free_set_def)
  have pg: "\<forall>x\<in>set (us @ vs). fa_pages s' x = fa_pages s x"
    using out released_fields(1) [OF n(1)] by (simp add: s'_def)
  then show eq: "\<forall>x\<in>set (us @ vs). prop_of s' x = ?len x" by (simp add: prop_of_def)
  have lb: "prop_of s' base = n" using released_fields(2) [of n base s] n N by (simp add: s'_def)
  have u: "\<forall>x\<in>set us. x + ?len x \<le> base"
  proof (rule ballI, rule ccontr)
    fix x assume x: "x \<in> set us" "\<not> x + ?len x \<le> base"
    then have "base \<in> {x..<x + ?len x}" using us by auto
    then have "base \<in> free_set s (us @ vs)" using x(1) by (auto simp: free_set_def blocks_pages_def block_pages_def)
    moreover have "base \<in> {base..<base + n}" using n by simp
    ultimately show False using disj by blast
  qed
  have v: "\<forall>x\<in>set vs. base + n \<le> x" using vs out by fastforce
  have o: "blocks_ordered (prop_of s') us = blocks_ordered ?len us"
    "blocks_ordered (prop_of s') vs = blocks_ordered ?len vs"
    using eq by (intro blocks_ordered_cong; simp)+
  have ord': "blocks_ordered (prop_of s') (us @ base # vs)"
    using ord u v eq lb n(1) by (simp add: blocks_ordered_append blocks_ordered_Cons o)
  have bnd': "\<forall>x\<in>set (us @ base # vs). x + prop_of s' x \<le> N \<and> PageProperty (fa_pages s' x)"
    using bnd eq pg lb n released_fields(3) [of n base s] by (simp add: s'_def)
  have "sum_list (map (prop_of s') us) = sum_list (map ?len us)"
    "sum_list (map (prop_of s') vs) = sum_list (map ?len vs)"
    using eq by (intro sum_list_map_cong; simp)+
  then have sum: "sum_list (map (prop_of s') (us @ base # vs)) = fa_nr_free s + n"
    using nr lb by simp
  then have "fa_nr_free s + n < 2 ^ 32" using blocks_sum_bound [OF ord', of N] bnd' N by simp
  then have "fa_nr_free s' = sum_list (map (prop_of s') (us @ base # vs))"
    using sum by (simp add: s'_def released_fields(4))
  then show "ff_ok N s' (us @ base # vs)"
    using ring ord' bnd' N by (simp add: ff_ok_def s'_def)
  have "blocks_pages (prop_of s') us = blocks_pages ?len us"
    "blocks_pages (prop_of s') vs = blocks_pages ?len vs"
    using eq by (intro blocks_pages_cong; simp)+
  then show "free_set s' (us @ base # vs) = free_set s (us @ vs) \<union> {base..<base + n}"
    by (simp add: free_set_def lb Un_ac)
qed

lemma split_below:
  fixes base :: nat
  assumes "sorted xs" "base \<notin> set xs" "\<exists>x\<in>set xs. base < x"
  obtains us z vs where "xs = us @ z # vs" "\<forall>u\<in>set us. u < base" "base < z" "\<forall>v\<in>set vs. base < v"
proof -
  obtain us z vs where "xs = us @ z # vs" "base < z" "\<forall>u\<in>set us. \<not> base < u"
    using split_list_first_prop [OF assms(3)] by blast
  moreover from this have "\<forall>v\<in>set vs. base < v" using assms(1) by (auto simp: sorted_append)
  moreover have "\<forall>u\<in>set us. u < base"
    using calculation assms(2) by (metis in_set_conv_decomp linorder_neqE_nat append.assoc append_Cons)
  ultimately show ?thesis using that by blast
qed

lemma blocks_ordered_sorted: "blocks_ordered len xs \<Longrightarrow> sorted xs"
  by (induction xs) (auto simp: blocks_ordered_Cons intro: order_trans [OF le_add1])

lemma release_ok:
  assumes ok: "ff_ok N s xs" and c: "coalesced (prop_of s) xs" and f: "freeable N base n s"
    and disj: "{base..<base + n} \<inter> free_set s xs = {}"
    and above: "free_set s xs = {} \<or> (\<exists>x\<in>free_set s xs. base < x)"
  obtains s' xs' where "default_free_pages base n s = Some s'" "ff_ok N s' xs'"
    "free_set s' xs' = free_set s xs \<union> {base..<base + n}" "coalesced (prop_of s') xs'"
proof -
  have n: "0 < n" using f by (simp add: freeable_def)
  have ord: "blocks_ordered (prop_of s) xs" and ring: "ring (fa_links s) FreeList (map PageLink xs)"
    using ok by (auto simp: ff_ok_def)
  have notin: "base \<notin> set xs" using blocks_pages_head [OF ord] disj n by (force simp: free_set_def)
  obtain h us vs where h: "insert_block base (fa_links s) = Some h"
    and xs: "xs = us @ vs" and us: "\<forall>u\<in>set us. u < base" and vs: "\<forall>v\<in>set vs. base < v"
    and r: "ring h FreeList (map PageLink (us @ base # vs))"
  proof (cases "xs = []")
    case True
    then show ?thesis using insert_block_empty [of "fa_links s" base] ring that [of _ "[]" "[]"] by auto
  next
    case False
    then have "free_set s xs \<noteq> {}"
      using blocks_pages_head [OF ord, of "hd xs"] by (auto simp: free_set_def)
    then obtain y where "y \<in> free_set s xs" "base < y" using above by blast
    then obtain x where x: "x \<in> set xs" "y \<in> {x..<x + prop_of s x}"
      by (auto simp: free_set_def blocks_pages_def block_pages_def)
    have "base < x"
    proof (rule ccontr)
      assume "\<not> base < x"
      then have "base \<in> {x..<x + prop_of s x}" using x(2) \<open>base < y\<close> by simp
      then have "base \<in> free_set s xs" using x(1) by (auto simp: free_set_def blocks_pages_def block_pages_def)
      moreover have "base \<in> {base..<base + n}" using n by simp
      ultimately show False using disj by blast
    qed
    then obtain us z vs where *: "xs = us @ z # vs" "\<forall>u\<in>set us. u < base" "base < z" "\<forall>v\<in>set vs. base < v"
      using split_below [OF blocks_ordered_sorted [OF ord] notin] x(1) by blast
    then show ?thesis
      using insert_block_below [of "fa_links s" us z vs base] ring that [of _ us "z # vs"] by auto
  qed
  define s1 where "s1 = (released base n s)\<lparr>fa_links := h\<rparr>"
  have ok1: "ff_ok N s1 (us @ base # vs)" "free_set s1 (us @ base # vs) = free_set s xs \<union> {base..<base + n}"
    and eq: "\<forall>x\<in>set (us @ vs). prop_of s1 x = prop_of s x"
    using released_ok [of N s us vs base n h] ok f disj us vs r xs by (auto simp: s1_def)
  have "coalesced (prop_of s) us \<and> coalesced (prop_of s) vs"
    using c unfolding xs by (rule coalesced_appendD)
  then have "coalesced (prop_of s1) us" "coalesced (prop_of s1) vs"
    using eq coalesced_cong [of us "prop_of s1" "prop_of s"] coalesced_cong [of vs "prop_of s1" "prop_of s"]
    by simp_all
  from merge_prev_ok [OF ok1(1) this] obtain s2 us' b where m: "merge_prev base s1 = (s2, b)"
    "ff_ok N s2 (us' @ b # vs)" "free_set s2 (us' @ b # vs) = free_set s1 (us @ base # vs)"
    "coalesced (prop_of s2) (us' @ [b])" "coalesced (prop_of s2) vs" .
  from merge_next_ok [OF m(2,4,5)] obtain vs' where "ff_ok N (merge_next b s2) (us' @ b # vs')"
    "free_set (merge_next b s2) (us' @ b # vs') = free_set s2 (us' @ b # vs)"
    "coalesced (prop_of (merge_next b s2)) (us' @ b # vs')" .
  moreover have "default_free_pages base n s = Some (merge_next b s2)"
    using default_free_eq [OF f] h m(1) by (simp add: s1_def)
  ultimately show ?thesis using that [of "merge_next b s2" "us' @ b # vs'"] m(3) ok1(2) by simp
qed

section \<open>The manager meets the contract\<close>

lemma take_block_coalesced:
  assumes ok: "ff_ok N s (ys @ x # zs)" and n: "0 < n" "n \<le> prop_of s x"
    and c: "coalesced (prop_of s) (ys @ x # zs)"
  shows "coalesced (prop_of (take_block n x s)) (ys @ rest_block n x s @ zs)"
proof -
  let ?s = "take_block n x s" and ?len = "prop_of s"
  have ord: "blocks_ordered ?len (ys @ x # zs)" and bx: "x + ?len x \<le> N" and N: "N < 2 ^ 32"
    using ok by (auto simp: ff_ok_def)
  have ys: "\<forall>y\<in>set ys. 0 < ?len y \<and> y + ?len y \<le> x" and zs: "\<forall>z\<in>set zs. x + ?len x \<le> z"
    and oy: "blocks_ordered ?len ys"
    using ord by (auto simp: blocks_ordered_append blocks_ordered_Cons dest: split_list)
  have len: "\<forall>y\<in>set (ys @ zs). prop_of ?s y = ?len y"
    using ys zs n by (fastforce simp: take_block_prop)
  then have cong: "coalesced (prop_of ?s) ys = coalesced ?len ys" "coalesced (prop_of ?s) zs = coalesced ?len zs"
    by (intro coalesced_cong; simp)+
  have cy: "coalesced ?len ys" and cxz: "coalesced ?len (x # zs)" and cz: "coalesced ?len zs"
    using coalesced_appendD [OF c] coalesced_appendD [of ?len "[x]" zs] by auto
  have lasty: "ys \<noteq> [] \<Longrightarrow> last ys + prop_of ?s (last ys) \<le> x"
    using ys len by simp
  show ?thesis
  proof (cases "n < ?len x")
    case True
    have rest: "prop_of ?s (x + n) = ?len x - n" using True bx N by (simp add: take_block_prop)
    have "coalesced (prop_of ?s) ((x + n) # zs)"
      using cz cong(2) cxz rest True by (cases zs) auto
    moreover have "coalesced (prop_of ?s) (ys @ [x + n])"
      using cy cong(1) lasty n by (auto simp: coalesced_snoc)
    ultimately show ?thesis
      using True coalesced_append [of "prop_of ?s" ys "x + n" zs] by (simp add: rest_block_def)
  next
    case False
    show ?thesis
    proof (cases zs)
      case Nil
      then show ?thesis using False cy cong(1) by (simp add: rest_block_def)
    next
      case (Cons z ws)
      have "x < z" using zs Cons n False by auto
      then have "coalesced (prop_of ?s) (ys @ [z])"
        using cy cong(1) lasty by (auto simp: coalesced_snoc)
      then show ?thesis
        using False cz cong(2) Cons coalesced_append [of "prop_of ?s" ys z ws] by (simp add: rest_block_def)
    qed
  qed
qed

definition ff_inv :: "nat \<Rightarrow> free_area \<Rightarrow> nat set \<Rightarrow> bool" where
  "ff_inv N s F \<longleftrightarrow> (\<exists>xs. ff_ok N s xs \<and> coalesced (prop_of s) xs \<and> F = free_set s xs)"

definition can_free :: "nat \<Rightarrow> nat \<Rightarrow> nat \<Rightarrow> free_area \<Rightarrow> nat set \<Rightarrow> bool" where
  "can_free N base n s F \<longleftrightarrow> freeable N base n s \<and> (F = {} \<or> (\<exists>x\<in>F. base < x))"

lemma default_alloc_cases:
  assumes ok: "ff_ok N s xs" and n: "0 < n"
  obtains (none) "default_alloc_pages n s = Some (s, None)" "\<forall>x\<in>set xs. prop_of s x < n"
  | (some) ys x zs where "xs = ys @ x # zs" "n \<le> prop_of s x" "\<forall>y\<in>set ys. prop_of s y < n"
      "default_alloc_pages n s = Some (take_block n x s, Some x)"
proof (cases "List.find (\<lambda>p. n \<le> prop_of s p) xs")
  case None
  then have "\<forall>x\<in>set xs. prop_of s x < n" by (auto simp: find_None_iff)
  then show ?thesis using none default_alloc_eq [OF ok n] None by (simp split: if_splits)
next
  case (Some x)
  then obtain ys zs where *: "xs = ys @ x # zs" "n \<le> prop_of s x" "\<forall>y\<in>set ys. \<not> n \<le> prop_of s y"
    using find_Some_split by fast
  have "n \<le> fa_nr_free s" using fit_le_nr_free [OF ok, of x] * by simp
  then show ?thesis using some * default_alloc_eq [OF ok n] Some by (simp add: not_le)
qed

lemma default_alloc_inv:
  assumes "ff_inv N s F" and a: "default_alloc_pages n s = Some (s', Some p)"
  shows "{p..<p + n} \<subseteq> F \<and> ff_inv N s' (F - {p..<p + n})"
proof -
  obtain xs where xs: "ff_ok N s xs" "coalesced (prop_of s) xs" "F = free_set s xs"
    using assms(1) by (auto simp: ff_inv_def)
  have n: "0 < n" using a by (simp add: default_alloc_pages_def split: if_splits)
  from xs(1) n show ?thesis
  proof (cases rule: default_alloc_cases)
    case none
    then show ?thesis using a by simp
  next
    case (some ys x zs)
    then have eq: "s' = take_block n x s" "p = x" using a by auto
    note ok = xs(1) [unfolded some(1)]
    show ?thesis
      using take_block_ok [OF ok n some(2)] take_block_coalesced [OF ok n some(2)] xs some(1) eq
      unfolding ff_inv_def by blast
  qed
qed

interpretation first_fit: page_allocator "ff_inv N" default_alloc_pages default_free_pages
    default_nr_free_pages "can_free N" for N
proof unfold_locales
  fix s F assume "ff_inv N s F"
  then show "finite F \<and> default_nr_free_pages s = card F"
    by (auto simp: ff_inv_def default_nr_free_pages_def ff_ok_card) (simp add: free_set_def)
next
  fix s F n assume "ff_inv N s F" "0 < (n :: nat)"
  then show "\<exists>s' r. default_alloc_pages n s = Some (s', r)"
    by (auto simp: ff_inv_def elim!: default_alloc_cases)
next
  fix s F n s' assume "ff_inv N s F" and a: "default_alloc_pages n s = Some (s', None)"
  then obtain xs where xs: "ff_ok N s xs" by (auto simp: ff_inv_def)
  have n: "0 < n" using a by (simp add: default_alloc_pages_def split: if_splits)
  from xs n a show "s' = s" by (auto elim!: default_alloc_cases)
next
  fix s F n s' p assume "ff_inv N s F" "default_alloc_pages n s = Some (s', Some p)"
  then show "{p..<p + n} \<subseteq> F \<and> ff_inv N s' (F - {p..<p + n})" by (rule default_alloc_inv)
next
  fix s F p n assume a: "ff_inv N s F" "can_free N p n s F" "{p..<p + n} \<inter> F = {}"
  then obtain xs where xs: "ff_ok N s xs" "coalesced (prop_of s) xs" "F = free_set s xs"
    by (auto simp: ff_inv_def)
  from release_ok [OF xs(1,2), of p n] a(2,3) xs(3) obtain s' xs' where
    "default_free_pages p n s = Some s'" "ff_ok N s' xs'" "coalesced (prop_of s') xs'"
    "free_set s' xs' = F \<union> {p..<p + n}"
    unfolding can_free_def by metis
  then show "\<exists>s'. default_free_pages p n s = Some s' \<and> ff_inv N s' (F \<union> {p..<p + n})"
    by (auto simp: ff_inv_def)
qed

section \<open>A free above every block\<close>

text \<open>What the insertion loop leaves when the new block lies above all blocks of the list.\<close>

lemma insert_block_above:
  assumes r: "ring h FreeList (map PageLink (us @ [z]))" and below: "\<forall>u\<in>set (us @ [z]). u < base"
  obtains h' where "insert_block base h = Some h'"
    "next_ring h' FreeList (map PageLink (us @ [z, base]))"
    "l_prev h' (PageLink base) = PageLink base" "l_next h' (PageLink base) = FreeList"
    "l_prev h' FreeList = PageLink base"
proof -
  let ?h1 = "list_add (PageLink z) (PageLink base) h"
  let ?h2 = "list_add (PageLink base) (PageLink base) ?h1"
  have notin: "PageLink base \<notin> set (FreeList # map PageLink us @ PageLink z # map PageLink [])"
    using below by auto
  have r0: "ring h FreeList (map PageLink us @ PageLink z # map PageLink [])" using r by simp
  from ring_list_add_entry [OF r0 notin]
  have r1: "ring ?h1 FreeList (map PageLink (us @ [z]) @ PageLink base # [])" by simp
  have nb: "l_next ?h1 (PageLink base) = FreeList" using ring_step(1) [OF r1] by simp
  have nx: "l_next ?h2 = l_next ?h1"
    using nb by (simp add: list_add_def list_add_after_def list_add_raw_def Let_def fun_eq_iff)
  have "\<not> list_empty FreeList h" using ring_empty_iff [OF r] by simp
  then have i: "insert_block base h = Some ?h2"
    using insert_loop_end [of h "[]" us z base FreeList] r below by (simp add: insert_block_def)
  have "next_ring ?h1 FreeList (map PageLink (us @ [z, base]))"
    using ring_next_ring [OF r1] by simp
  then have "next_ring ?h2 FreeList (map PageLink (us @ [z, base]))"
    by (simp add: next_ring_def nx)
  moreover have "l_prev ?h2 (PageLink base) = PageLink base" "l_prev ?h2 FreeList = PageLink base"
    using nb by (simp_all add: list_add_def list_add_after_def list_add_raw_def Let_def)
  moreover have "l_next ?h2 (PageLink base) = FreeList" using nx nb by simp
  ultimately show ?thesis using that [OF i] by blast
qed

text \<open>A free list whose last block is linked to itself backwards.\<close>

definition self_linked :: "free_area \<Rightarrow> nat list \<Rightarrow> nat \<Rightarrow> nat \<Rightarrow> bool" where
  "self_linked s xs base n \<longleftrightarrow>
     next_ring (fa_links s) FreeList (map PageLink (xs @ [base])) \<and>
     l_prev (fa_links s) (PageLink base) = PageLink base \<and>
     l_next (fa_links s) (PageLink base) = FreeList \<and>
     l_prev (fa_links s) FreeList = PageLink base \<and> prop_of s base = n"

definition stuck_end :: "free_area \<Rightarrow> nat list \<Rightarrow> nat \<Rightarrow> nat \<Rightarrow> bool" where
  "stuck_end s xs base n \<longleftrightarrow> self_linked s xs base n \<and> (\<forall>x\<in>set xs. prop_of s x < n)"

lemma stuck_alloc:
  assumes s: "stuck_end s xs base n" and n: "0 < n" "n \<le> fa_nr_free s"
  shows "\<exists>s'. default_alloc_pages n s = Some (s', Some base) \<and> stuck_end s' xs base n \<and>
    fa_nr_free s' = fa_nr_free s - n"
proof -
  have f: "first_fit_loop n FreeList s = Some (Some base)"
    using first_fit_loop_find [of s "[]" "xs @ [base]" FreeList n] s
      find_append_not [of xs "\<lambda>p. n \<le> prop_of s p" base "[]"]
    by (auto simp: stuck_end_def self_linked_def not_le)
  have links: "list_del (PageLink base) (fa_links s) = fa_links s"
    using s by (cases "fa_links s") (auto simp: stuck_end_def self_linked_def list_del_def list_del_raw_def Let_def)
  have same: "fa_links (take_block n base s) = fa_links s"
    and len: "prop_of (take_block n base s) = prop_of s"
    using s links by (simp_all add: stuck_end_def self_linked_def take_block_def Let_def take_block_prop prop_of_def)
      (auto simp: prop_of_def fun_eq_iff)
  then have "stuck_end (take_block n base s) xs base n" using s by (simp add: stuck_end_def self_linked_def)
  then show ?thesis using f n by (simp add: default_alloc_pages_def take_block_nr)
qed

lemma free_above_links:
  assumes ok: "ff_ok N s (us @ [z])" and f: "freeable N base n s"
    and above: "\<forall>x\<in>set (us @ [z]). x + prop_of s x \<le> base"
  obtains s' where "default_free_pages base n s = Some s'" "self_linked s' (us @ [z]) base n"
    "\<forall>x\<in>set (us @ [z]). prop_of s' x = prop_of s x" "fa_nr_free s' = fa_nr_free s + n"
proof -
  have ord: "blocks_ordered (prop_of s) (us @ [z])"
    and ring: "ring (fa_links s) FreeList (map PageLink (us @ [z]))" and N: "N < 2 ^ 32"
    and nr: "fa_nr_free s = sum_list (map (prop_of s) (us @ [z]))"
    using ok by (auto simp: ff_ok_def)
  have n: "0 < n" "base + n \<le> N" using f by (auto simp: freeable_def)
  have "0 < prop_of s x" if "x \<in> set (us @ [z])" for x
    using ord that by (auto simp: blocks_ordered_append blocks_ordered_Cons dest: split_list)
  then have below: "\<forall>u\<in>set (us @ [z]). u < base" using above by fastforce
  from insert_block_above [OF ring below] obtain h' where h: "insert_block base (fa_links s) = Some h'"
    "next_ring h' FreeList (map PageLink (us @ [z, base]))"
    "l_prev h' (PageLink base) = PageLink base" "l_next h' (PageLink base) = FreeList"
    "l_prev h' FreeList = PageLink base" .
  let ?s = "(released base n s)\<lparr>fa_links := h'\<rparr>"
  have len: "prop_of ?s base = n" using released_fields(2) [OF n(1)] n N by simp
  have "merge_prev base ?s = (?s, base)" using h n len by (simp add: merge_prev_join list_prev_def)
  moreover have "merge_next base ?s = ?s" using h by (simp add: merge_next_join list_next_def)
  ultimately have 1: "default_free_pages base n s = Some ?s"
    using default_free_eq [OF f] h(1) by simp
  have same: "\<forall>x\<in>set (us @ [z]). prop_of ?s x = prop_of s x"
  proof
    fix x assume "x \<in> set (us @ [z])"
    then have "x < base" using below by blast
    then have "fa_pages (released base n s) x = fa_pages s x"
      by (intro released_fields(1) [OF n(1)]) simp
    then show "prop_of ?s x = prop_of s x" by (simp add: prop_of_def)
  qed
  have "self_linked ?s (us @ [z]) base n"
    using h len by (simp add: self_linked_def)
  moreover have "fa_nr_free s \<le> base" using blocks_sum_bound [OF ord above] nr by simp
  then have "fa_nr_free ?s = fa_nr_free s + n" using n N by (simp add: released_fields(4))
  ultimately show ?thesis using that 1 same by blast
qed

lemma free_above_stuck:
  assumes "ff_ok N s (us @ [z])" and "freeable N base n s"
    and "\<forall>x\<in>set (us @ [z]). x + prop_of s x \<le> base"
    and "\<forall>x\<in>set (us @ [z]). prop_of s x < n"
  obtains s' where "default_free_pages base n s = Some s'" "stuck_end s' (us @ [z]) base n"
    "fa_nr_free s' = fa_nr_free s + n"
proof -
  obtain s' where "default_free_pages base n s = Some s'" "self_linked s' (us @ [z]) base n"
    "\<forall>x\<in>set (us @ [z]). prop_of s' x = prop_of s x" "fa_nr_free s' = fa_nr_free s + n"
    by (rule free_above_links [OF assms(1-3)])
  then show ?thesis using that assms(4) by (simp add: stuck_end_def)
qed

text \<open>A release above all free pages, stated with the set of free pages.\<close>

lemma release_above:
  assumes ok: "ff_ok N s xs" and f: "freeable N base n s" and dis: "{base..<base + n} \<inter> free_set s xs = {}"
    and top: "free_set s xs \<noteq> {}" "\<not> (\<exists>x\<in>free_set s xs. base < x)"
  obtains s' where "default_free_pages base n s = Some s'" "self_linked s' xs base n"
    "fa_nr_free s' = fa_nr_free s + n"
proof -
  have ord: "blocks_ordered (prop_of s) xs" using ok by (simp add: ff_ok_def)
  obtain us z where xs: "xs = us @ [z]"
    using top(1) by (cases xs rule: rev_cases) (auto simp: free_set_def blocks_pages_def)
  have "x + prop_of s x \<le> base" if x: "x \<in> set xs" for x
  proof (rule ccontr)
    assume c: "\<not> x + prop_of s x \<le> base"
    have "0 < prop_of s x"
      using ord x by (auto simp: blocks_ordered_append blocks_ordered_Cons dest: split_list)
    then have "x + prop_of s x - 1 \<in> free_set s xs" using x by (auto simp: free_set_def blocks_pages_def block_pages_def intro!: bexI [of _ x])
    moreover from this have "x + prop_of s x - 1 \<le> base" using top(2) by force
    moreover have "base \<in> {base..<base + n}" using f by (simp add: freeable_def)
    then have "base \<notin> free_set s xs" using dis by blast
    moreover have "x + prop_of s x - 1 = base \<or> base < x + prop_of s x - 1" using c by linarith
    ultimately show False by force
  qed
  then show ?thesis using free_above_links [of N s us z base n] ok f that unfolding xs by blast
qed

section \<open>Properties\<close>

text \<open>C2. First fit: \<open>default_alloc_pages\<close> returns the first block of the free list with at
  least \<open>n\<close> pages, takes exactly its first \<open>n\<close> pages from the free pages, puts the rest
  of the block back in place, and clears the head's property flag; when no block is large
  enough it returns \<open>NULL\<close> and changes nothing.\<close>

theorem default_alloc_first_fit:
  assumes "ff_ok N s xs" and "0 < n"
  shows "case List.find (\<lambda>p. n \<le> prop_of s p) xs of
      None \<Rightarrow> default_alloc_pages n s = Some (s, None)
    | Some x \<Rightarrow> \<exists>s' xs'. default_alloc_pages n s = Some (s', Some x) \<and> ff_ok N s' xs' \<and>
        {x..<x + n} \<subseteq> free_set s xs \<and> free_set s' xs' = free_set s xs - {x..<x + n} \<and>
        fa_nr_free s' = fa_nr_free s - n \<and> \<not> PageProperty (fa_pages s' x)"
proof (cases "List.find (\<lambda>p. n \<le> prop_of s p) xs")
  case None
  then show ?thesis using default_alloc_eq [OF assms] by (simp split: if_splits)
next
  case (Some x)
  then obtain ys zs where xs: "xs = ys @ x # zs" "n \<le> prop_of s x"
    using find_Some_split by fast
  note ok = assms(1) [unfolded xs(1)]
  have "n \<le> fa_nr_free s" using fit_le_nr_free [OF assms(1), of x] xs by simp
  then have "default_alloc_pages n s = Some (take_block n x s, Some x)"
    using default_alloc_eq [OF assms] Some by simp
  moreover have "\<not> PageProperty (fa_pages (take_block n x s) x)" by (simp add: take_block_pages Let_def)
  ultimately show ?thesis
    using take_block_ok [OF ok assms(2) xs(2)] Some xs(1) take_block_nr by auto
qed

text \<open>C3. Releasing \<open>n\<close> allocated pages from \<open>base\<close> on.  While the free list is empty or holds a page above
  \<open>base\<close>, the release adds exactly these pages to the free pages, keeps the list in address order with
  all flags and the counter right, and merges: no two neighbouring blocks touch.  Otherwise the new
  block is the last one of the list, is not merged with the block before it, and its
  backward pointer points to itself.\<close>

theorem default_free_merges:
  assumes "ff_ok N s xs" and "coalesced (prop_of s) xs" and "freeable N base n s"
    and "{base..<base + n} \<inter> free_set s xs = {}"
  shows "\<exists>s'. default_free_pages base n s = Some s' \<and>
    (if free_set s xs = {} \<or> (\<exists>x\<in>free_set s xs. base < x)
     then \<exists>xs'. ff_ok N s' xs' \<and> free_set s' xs' = free_set s xs \<union> {base..<base + n} \<and> coalesced (prop_of s') xs'
     else self_linked s' xs base n \<and> fa_nr_free s' = fa_nr_free s + n)"
proof (cases "free_set s xs = {} \<or> (\<exists>x\<in>free_set s xs. base < x)")
  case True
  then show ?thesis using release_ok [OF assms True] unfolding if_P [OF True] by metis
next
  case False
  then show ?thesis using release_above [OF assms(1,3,4)] unfolding if_not_P [OF False] by blast
qed

text \<open>C4. Releasing what was just allocated.  As long as another free page lies above the block, or no
  other page is free, this restores the free pages and the counter.  Otherwise the counter is
  restored, but the block is linked to itself at the end of the list.\<close>

theorem first_fit_alloc_release:
  assumes "ff_inv N s F" and "default_alloc_pages n s = Some (s1, Some p)" and "freeable N p n s1"
  shows "\<exists>s2. default_free_pages p n s1 = Some s2 \<and> default_nr_free_pages s2 = default_nr_free_pages s \<and>
    (if F - {p..<p + n} = {} \<or> (\<exists>x\<in>F - {p..<p + n}. p < x) then ff_inv N s2 F else \<exists>xs. self_linked s2 xs p n)"
proof (cases "F - {p..<p + n} = {} \<or> (\<exists>x\<in>F - {p..<p + n}. p < x)")
  case True
  then have "can_free N p n s1 (F - {p..<p + n})" using assms(3) by (simp add: can_free_def)
  from first_fit.alloc_release [OF assms(1,2) this] show ?thesis unfolding if_P [OF True] by blast
next
  case False
  have i: "ff_inv N s1 (F - {p..<p + n})" using first_fit.alloc_some [OF assms(1,2)] by blast
  then obtain xs where xs: "ff_ok N s1 xs" "free_set s1 xs = F - {p..<p + n}" by (auto simp: ff_inv_def)
  have dis: "{p..<p + n} \<inter> free_set s1 xs = {}" unfolding xs(2) by blast
  obtain s2 where s2: "default_free_pages p n s1 = Some s2" "self_linked s2 xs p n" "fa_nr_free s2 = fa_nr_free s1 + n"
    using release_above [OF xs(1) assms(3) dis] False unfolding xs(2) by blast
  moreover have "default_nr_free_pages s2 = default_nr_free_pages s"
    using first_fit.alloc_count [OF assms(1,2)] s2(3) by (simp add: default_nr_free_pages_def)
  ultimately show ?thesis unfolding if_not_P [OF False] by blast
qed

text \<open>C1. The insertion loop has no \<open>break\<close> after the \<open>list_add\<close> at the end of the list.
  Hence a block released above all free blocks is linked to itself; when it is the first
  fit for \<open>n\<close> pages, it is handed out by an allocation and stays on the free list, so
  that a second allocation returns the same pages again.\<close>

theorem free_above_double_allocation:
  assumes "ff_ok N s xs" and "xs \<noteq> []" and "freeable N base n s"
    and "\<forall>x\<in>set xs. x + prop_of s x \<le> base" and "\<forall>x\<in>set xs. prop_of s x < n"
    and "n \<le> fa_nr_free s"
  shows "\<exists>s1 s2 s3. default_free_pages base n s = Some s1 \<and>
    default_alloc_pages n s1 = Some (s2, Some base) \<and>
    default_alloc_pages n s2 = Some (s3, Some base)"
proof -
  obtain us z where xs: "xs = us @ [z]" using assms(2) by (cases xs rule: rev_cases) auto
  have n: "0 < n" using assms(3) by (simp add: freeable_def)
  from free_above_stuck [of N s us z base n] assms xs obtain s1 where
    s1: "default_free_pages base n s = Some s1" "stuck_end s1 xs base n" "fa_nr_free s1 = fa_nr_free s + n"
    by auto
  obtain s2 where s2: "default_alloc_pages n s1 = Some (s2, Some base)" "stuck_end s2 xs base n"
    "fa_nr_free s2 = fa_nr_free s"
    using stuck_alloc [OF s1(2) n] s1(3) by auto
  obtain s3 where "default_alloc_pages n s2 = Some (s3, Some base)"
    using stuck_alloc [OF s2(2) n] s2(3) assms(6) by auto
  then show ?thesis using s1(1) s2(1) by blast
qed

text \<open>\<open>default_init_memmap\<close> on the empty manager: when all \<open>n\<close> pages are reserved the free
  list is the single block \<open>base\<close>, the free pages are exactly the pages of the range, and
  every page of the range has reference count 0 and is no longer reserved; when some page
  is not reserved the assertion stops the kernel.\<close>

theorem default_init_memmap_ok:
  assumes "0 < n" and "base + n < 2 ^ 32"
  shows "if \<forall>q\<in>{base..<base + n}. PageReserved (fa_pages s q)
    then \<exists>s'. default_init_memmap base n (default_init s) = Some s' \<and> ff_ok (base + n) s' [base] \<and>
      free_set s' [base] = {base..<base + n} \<and>
      (\<forall>q\<in>{base..<base + n}. p_ref (fa_pages s' q) = 0 \<and> \<not> PageReserved (fa_pages s' q))
    else default_init_memmap base n (default_init s) = None"
proof -
  have "ring (fa_links (default_init s)) FreeList []"
    by (simp add: default_init_def ring_list_init)
  note i = insert_block_empty [OF this, of base]
  show ?thesis
    using assms i
    by (auto simp: default_init_memmap_def init_memmap_loop_eq default_init_def ff_ok_def free_set_def
        prop_of_def reset_page_def)
qed

subsection \<open>The properties at work\<close>

definition sample_page :: "64 word \<Rightarrow> nat \<Rightarrow> page" where
  "sample_page fl len = \<lparr>p_ref = 0, p_flags = fl, p_property = len\<rparr>"

text \<open>Six pages; the pages 0 and 2 are free blocks of one page each, the others are allocated.\<close>

definition ff_sample :: free_area where
  "ff_sample = \<lparr>fa_pages = (\<lambda>_. sample_page 0 0)(0 := sample_page 2 1, 2 := sample_page 2 1),
     fa_links = list_add_before FreeList (PageLink 2)
       (list_add_before FreeList (PageLink 0)
         (list_init FreeList \<lparr>l_next = id, l_prev = id\<rparr>)),
     fa_nr_free = 2\<rparr>"

lemma sample_flags [simp]:
  "PageProperty (sample_page 2 k)" "\<not> PageProperty (sample_page 0 k)"
  "\<not> PageReserved (sample_page 2 k)" "\<not> PageReserved (sample_page 0 k)"
  "PageReserved (sample_page 1 k)" "p_property (sample_page f k) = k"
  by (simp_all add: sample_page_def PageProperty_def PageReserved_def PG_property_def PG_reserved_def)

lemma ff_sample_ring: "ring (fa_links ff_sample) FreeList (map PageLink [0, 2])"
  by (simp add: ff_sample_def ring_def next_ring_def list_ops)

lemma ff_sample_prop [simp]:
  "prop_of ff_sample 0 = 1" "prop_of ff_sample 2 = 1" "prop_of ff_sample (Suc (Suc 0)) = 1"
  "fa_nr_free ff_sample = 2"
  by (simp_all add: ff_sample_def prop_of_def)

lemma ff_sample_ok:
  "ff_ok 6 ff_sample [0, 2]" "coalesced (prop_of ff_sample) [0, 2]" "free_set ff_sample [0, 2] = {0, 2}"
  using ff_sample_ring by (auto simp: ff_ok_def free_set_def) (simp_all add: ff_sample_def)

lemma ff_sample_freeable: "freeable 6 4 2 ff_sample" "freeable 6 1 1 ff_sample"
  by (auto simp: freeable_def ff_sample_def)

lemma default_alloc_first_fit_witness:
  "\<exists>s' xs'. default_alloc_pages 1 ff_sample = Some (s', Some 0) \<and> ff_ok 6 s' xs' \<and>
     free_set s' xs' = {2} \<and> fa_nr_free s' = 1"
  using default_alloc_first_fit [OF ff_sample_ok(1), of 1] ff_sample_ok(3) by auto

lemma default_free_merges_witness:
  "(\<exists>s' xs'. default_free_pages 1 1 ff_sample = Some s' \<and> ff_ok 6 s' xs' \<and> free_set s' xs' = {0, 1, 2}) \<and>
   (\<exists>s'. default_free_pages 4 2 ff_sample = Some s' \<and> self_linked s' [0, 2] 4 2)"
proof
  have *: "{0, 2} \<union> {1..<1 + 1} = {0, 1, 2 :: nat}" by auto
  show "\<exists>s' xs'. default_free_pages 1 1 ff_sample = Some s' \<and> ff_ok 6 s' xs' \<and> free_set s' xs' = {0, 1, 2}"
    using default_free_merges [OF ff_sample_ok(1,2) ff_sample_freeable(2)]
    unfolding ff_sample_ok(3) * by fastforce
  show "\<exists>s'. default_free_pages 4 2 ff_sample = Some s' \<and> self_linked s' [0, 2] 4 2"
    using default_free_merges [OF ff_sample_ok(1,2) ff_sample_freeable(1)]
    unfolding ff_sample_ok(3) by fastforce
qed

lemma first_fit_alloc_release_witness:
  "\<exists>s1 s2. default_alloc_pages 1 ff_sample = Some (s1, Some 0) \<and>
     default_free_pages 0 1 s1 = Some s2 \<and> ff_inv 6 s2 {0, 2} \<and> default_nr_free_pages s2 = 2"
proof -
  have inv: "ff_inv 6 ff_sample {0, 2}" using ff_sample_ok unfolding ff_inv_def by metis
  have a: "default_alloc_pages 1 ff_sample = Some (take_block 1 0 ff_sample, Some 0)"
    using default_alloc_eq [OF ff_sample_ok(1), of 1] by simp
  have "fa_pages (take_block 1 0 ff_sample) 0 = ClearPageProperty (sample_page 2 1)"
    by (simp add: take_block_pages) (simp add: ff_sample_def)
  then have "freeable 6 0 1 (take_block 1 0 ff_sample)" by (auto simp: freeable_def)
  from first_fit_alloc_release [OF inv a this] a show ?thesis
    by (fastforce simp: default_nr_free_pages_def)
qed

lemma free_above_double_allocation_witness:
  "\<exists>s1 s2 s3. default_free_pages 4 2 ff_sample = Some s1 \<and>
     default_alloc_pages 2 s1 = Some (s2, Some 4) \<and> default_alloc_pages 2 s2 = Some (s3, Some 4)"
  using free_above_double_allocation [OF ff_sample_ok(1) _ ff_sample_freeable(1)] by simp

lemma default_init_memmap_ok_witness:
  "\<exists>s'. default_init_memmap 3 5 (default_init (ff_sample\<lparr>fa_pages := \<lambda>_. sample_page 1 0\<rparr>)) = Some s' \<and>
     ff_ok 8 s' [3] \<and> free_set s' [3] = {3..<8}"
  using default_init_memmap_ok [of 5 3 "ff_sample\<lparr>fa_pages := \<lambda>_. sample_page 1 0\<rparr>"] by auto

end
