(* ===== verification/Best_Fit.thy ===== *)
theory Best_Fit
  imports First_Fit
begin

text \<open>
  The best-fit manager \<open>kern/mm/best_fit_pmm.c\<close> of lab 2.  Its data are those of the
  first-fit manager, its insertion and merging code is the same text, so the operations
  are translated again and then proved equal to those of \<open>First_Fit\<close>; the search of
  \<open>best_fit_alloc_pages\<close> is its own.
\<close>

section \<open>The operations\<close>

definition best_fit_init :: "free_area \<Rightarrow> free_area" where
  "best_fit_init s = s\<lparr>fa_links := list_init FreeList (fa_links s), fa_nr_free := 0\<rparr>"

fun bf_init_memmap_loop :: "nat \<Rightarrow> nat \<Rightarrow> free_area \<Rightarrow> free_area option" where
  "bf_init_memmap_loop 0 p s = Some s"
| "bf_init_memmap_loop (Suc k) p s = do {
     assert_k (PageReserved (fa_pages s p));
     bf_init_memmap_loop k (p + 1)
       (upd_page p (\<lambda>q. q\<lparr>p_flags := 0, p_property := 0, p_ref := 0\<rparr>) s) }"

fun bf_free_pages_loop :: "nat \<Rightarrow> nat \<Rightarrow> free_area \<Rightarrow> free_area option" where
  "bf_free_pages_loop 0 p s = Some s"
| "bf_free_pages_loop (Suc k) p s = do {
     assert_k (\<not> PageReserved (fa_pages s p) \<and> \<not> PageProperty (fa_pages s p));
     bf_free_pages_loop k (p + 1) (upd_page p (\<lambda>q. q\<lparr>p_flags := 0, p_ref := 0\<rparr>) s) }"

definition best_fit_init_memmap :: "nat \<Rightarrow> nat \<Rightarrow> free_area \<Rightarrow> free_area option" where
  "best_fit_init_memmap base n s = do {
     assert_k (0 < n);
     s \<leftarrow> bf_init_memmap_loop n base s;
     let s = upd_page base (\<lambda>q. SetPageProperty (q\<lparr>p_property := u32 n\<rparr>)) s;
     let s = s\<lparr>fa_nr_free := u32 (fa_nr_free s + n)\<rparr>;
     h \<leftarrow> (if list_empty FreeList (fa_links s)
          then Some (list_add FreeList (PageLink base) (fa_links s))
          else insert_loop base FreeList (fa_links s));
     Some (s\<lparr>fa_links := h\<rparr>) }"

partial_function (option) best_fit_loop ::
    "nat \<Rightarrow> node \<Rightarrow> nat option \<Rightarrow> nat \<Rightarrow> free_area \<Rightarrow> nat option option" where
  "best_fit_loop n le page min_size s =
    (case list_next le (fa_links s) of
       FreeList \<Rightarrow> Some page
     | PageLink p \<Rightarrow>
         if n \<le> p_property (fa_pages s p) \<and> p_property (fa_pages s p) < min_size
         then best_fit_loop n (PageLink p) (Some p) (p_property (fa_pages s p)) s
         else best_fit_loop n (PageLink p) page min_size s)"

definition best_fit_alloc_pages :: "nat \<Rightarrow> free_area \<Rightarrow> (free_area \<times> nat option) option" where
  "best_fit_alloc_pages n s = do {
     assert_k (0 < n);
     if fa_nr_free s < n then Some (s, None)
     else do {
       r \<leftarrow> best_fit_loop n FreeList None (u32 (fa_nr_free s + 1)) s;
       (case r of
          None \<Rightarrow> Some (s, None)
        | Some page \<Rightarrow>
            let prev = list_prev (PageLink page) (fa_links s);
                s = s\<lparr>fa_links := list_del (PageLink page) (fa_links s)\<rparr>;
                s = (if n < p_property (fa_pages s page)
                     then let p = page + n;
                              len = p_property (fa_pages s page);
                              s = upd_page p (\<lambda>q. SetPageProperty (q\<lparr>p_property := u32 (len - n)\<rparr>)) s
                          in s\<lparr>fa_links := list_add prev (PageLink p) (fa_links s)\<rparr>
                     else s);
                s = s\<lparr>fa_nr_free := fa_nr_free s - n\<rparr>
            in Some (upd_page page ClearPageProperty s, Some page)) } }"

definition best_fit_free_pages :: "nat \<Rightarrow> nat \<Rightarrow> free_area \<Rightarrow> free_area option" where
  "best_fit_free_pages base n s = do {
     assert_k (0 < n);
     s \<leftarrow> bf_free_pages_loop n base s;
     let s = upd_page base (\<lambda>q. SetPageProperty (q\<lparr>p_property := u32 n\<rparr>)) s;
     let s = s\<lparr>fa_nr_free := u32 (fa_nr_free s + n)\<rparr>;
     h \<leftarrow> (if list_empty FreeList (fa_links s)
          then Some (list_add FreeList (PageLink base) (fa_links s))
          else insert_loop base FreeList (fa_links s));
     let s = s\<lparr>fa_links := h\<rparr>;
     let (s, base) =
       (case list_prev (PageLink base) (fa_links s) of
          FreeList \<Rightarrow> (s, base)
        | PageLink p \<Rightarrow>
            if p + p_property (fa_pages s p) = base
            then let len = p_property (fa_pages s base);
                     s = upd_page p (\<lambda>q. q\<lparr>p_property := u32 (p_property q + len)\<rparr>) s;
                     s = upd_page base ClearPageProperty s
                 in (s\<lparr>fa_links := list_del (PageLink base) (fa_links s)\<rparr>, p)
            else (s, base));
     Some (case list_next (PageLink base) (fa_links s) of
          FreeList \<Rightarrow> s
        | PageLink p \<Rightarrow>
            if base + p_property (fa_pages s base) = p
            then let len = p_property (fa_pages s p);
                     s = upd_page base (\<lambda>q. q\<lparr>p_property := u32 (p_property q + len)\<rparr>) s;
                     s = upd_page p ClearPageProperty s
                 in s\<lparr>fa_links := list_del (PageLink p) (fa_links s)\<rparr>
            else s) }"

definition best_fit_nr_free_pages :: "free_area \<Rightarrow> nat" where
  "best_fit_nr_free_pages s = fa_nr_free s"

section \<open>What is the same as in first fit\<close>

lemma bf_loops: "bf_init_memmap_loop k p s = init_memmap_loop k p s"
  "bf_free_pages_loop k p s = free_pages_loop k p s"
  by (induction k arbitrary: p s) auto

lemma best_fit_init_memmap_eq: "best_fit_init_memmap base n s = default_init_memmap base n s"
  by (simp add: best_fit_init_memmap_def default_init_memmap_def bf_loops insert_block_def)

lemma best_fit_free_eq: "best_fit_free_pages base n s = default_free_pages base n s"
  by (simp add: best_fit_free_pages_def default_free_pages_def bf_loops insert_block_def
      merge_prev_def merge_next_def Let_def)

lemma best_fit_alloc_take: "best_fit_alloc_pages n s = do {
     assert_k (0 < n);
     if fa_nr_free s < n then Some (s, None)
     else do {
       r \<leftarrow> best_fit_loop n FreeList None (u32 (fa_nr_free s + 1)) s;
       (case r of None \<Rightarrow> Some (s, None) | Some page \<Rightarrow> Some (take_block n page s, Some page)) } }"
  unfolding best_fit_alloc_pages_def take_block_def Let_def by (rule refl)

section \<open>The search\<close>

fun best_scan :: "nat \<Rightarrow> (nat \<Rightarrow> nat) \<Rightarrow> nat list \<Rightarrow> nat option \<Rightarrow> nat \<Rightarrow> nat option" where
  "best_scan n len [] page m = page"
| "best_scan n len (x # xs) page m =
    (if n \<le> len x \<and> len x < m then best_scan n len xs (Some x) (len x) else best_scan n len xs page m)"

lemma best_fit_loop_scan:
  assumes "next_ring (fa_links s) FreeList (map PageLink (ys @ zs))"
    and "le = last (FreeList # map PageLink ys)"
  shows "best_fit_loop n le page m s = Some (best_scan n (prop_of s) zs page m)"
  using assms
proof (induction zs arbitrary: ys le page m)
  case Nil
  then have "l_next (fa_links s) le = FreeList"
    by (auto simp: next_ring_def dest: chain_last)
  then show ?case by (subst best_fit_loop.simps) (simp add: list_next_def)
next
  case (Cons z zs)
  have n: "l_next (fa_links s) le = PageLink z"
    using next_ring_step [of "fa_links s" FreeList "map PageLink ys" "PageLink z" "map PageLink zs"]
      Cons.prems by simp
  have IH: "best_fit_loop n (PageLink z) page m s = Some (best_scan n (prop_of s) zs page m)" for page m
    using Cons.IH [of "ys @ [z]"] Cons.prems by simp
  show ?case by (subst best_fit_loop.simps) (simp add: list_next_def n IH prop_of_def)
qed

lemma best_scan_spec:
  "case best_scan n len xs page m of
     None \<Rightarrow> page = None \<and> (\<forall>x\<in>set xs. len x < n \<or> m \<le> len x)
   | Some x \<Rightarrow> (\<forall>y\<in>set xs. n \<le> len y \<longrightarrow> min (len x) m \<le> len y) \<and>
       (x \<in> set xs \<and> n \<le> len x \<and> len x < m \<or>
        page = Some x \<and> (\<forall>y\<in>set xs. n \<le> len y \<longrightarrow> m \<le> len y))"
proof (induction xs arbitrary: page m)
  case Nil
  then show ?case by (simp split: option.split)
next
  case (Cons a xs)
  show ?case
    using Cons.IH [of "Some a" "len a"] Cons.IH [of page m]
    by (auto simp: not_less not_le split: option.splits)
qed

lemma best_fit_search:
  assumes ok: "ff_ok N s xs" and N: "N + 1 < 2 ^ 32"
  obtains (none) "best_fit_loop n FreeList None (u32 (fa_nr_free s + 1)) s = Some None"
      "\<forall>x\<in>set xs. prop_of s x < n"
  | (some) x where "best_fit_loop n FreeList None (u32 (fa_nr_free s + 1)) s = Some (Some x)"
      "x \<in> set xs" "n \<le> prop_of s x" "\<forall>y\<in>set xs. n \<le> prop_of s y \<longrightarrow> prop_of s x \<le> prop_of s y"
proof -
  let ?m = "fa_nr_free s + 1" and ?r = "best_scan n (prop_of s) xs None (fa_nr_free s + 1)"
  have "fa_nr_free s \<le> N"
    using blocks_sum_bound [of "prop_of s" xs N] ok by (simp add: ff_ok_def)
  then have m: "u32 ?m = ?m" using N by (intro u32_id) simp
  have l: "best_fit_loop n FreeList None (u32 ?m) s = Some ?r"
    unfolding m using best_fit_loop_scan [where s=s and ys="[]" and zs=xs and le=FreeList and n=n] ok
    by (simp add: ff_ok_def ring_next_ring)
  have small: "\<forall>x\<in>set xs. prop_of s x < ?m" using fit_le_nr_free [OF ok] by (simp add: less_Suc_eq_le)
  show ?thesis
  proof (cases ?r)
    case None
    then show ?thesis using none l small best_scan_spec [where n=n and len="prop_of s" and xs=xs and page=None and m="?m"] by fastforce
  next
    case (Some x)
    then show ?thesis
      using some [of x] l small best_scan_spec [where n=n and len="prop_of s" and xs=xs and page=None and m="?m"] by (auto simp: min_def split: if_splits)
  qed
qed

section \<open>The manager meets the contract\<close>

definition bf_inv :: "nat \<Rightarrow> free_area \<Rightarrow> nat set \<Rightarrow> bool" where
  "bf_inv N s F \<longleftrightarrow> ff_inv N s F \<and> N + 1 < 2 ^ 32"

lemma best_fit_alloc_cases:
  assumes ok: "ff_ok N s xs" and N: "N + 1 < 2 ^ 32" and n: "0 < n"
  obtains (none) "best_fit_alloc_pages n s = Some (s, None)" "\<forall>x\<in>set xs. prop_of s x < n"
  | (some) ys x zs where "xs = ys @ x # zs" "n \<le> prop_of s x"
      "\<forall>y\<in>set xs. n \<le> prop_of s y \<longrightarrow> prop_of s x \<le> prop_of s y"
      "best_fit_alloc_pages n s = Some (take_block n x s, Some x)"
  using ok N
proof (cases rule: best_fit_search [of N s xs n])
  case none
  then show ?thesis using that(1) n by (simp add: best_fit_alloc_take)
next
  case (some x)
  moreover obtain ys zs where "xs = ys @ x # zs" using some(2) by (meson split_list)
  moreover have "n \<le> fa_nr_free s" using fit_le_nr_free [OF ok some(2)] some(3) by simp
  ultimately show ?thesis using that(2) [of ys x zs] n by (simp add: best_fit_alloc_take)
qed

interpretation best_fit: page_allocator "bf_inv N" best_fit_alloc_pages best_fit_free_pages
    best_fit_nr_free_pages "can_free N" for N
proof unfold_locales
  fix s F assume "bf_inv N s F"
  then show "finite F \<and> best_fit_nr_free_pages s = card F"
    using first_fit.count [of N s F] by (simp add: bf_inv_def best_fit_nr_free_pages_def default_nr_free_pages_def)
next
  fix s F n assume "bf_inv N s F" "0 < (n :: nat)"
  then show "\<exists>s' r. best_fit_alloc_pages n s = Some (s', r)"
    unfolding bf_inv_def ff_inv_def by (meson best_fit_alloc_cases)
next
  fix s F n s' assume i: "bf_inv N s F" and a: "best_fit_alloc_pages n s = Some (s', None)"
  then obtain xs where xs: "ff_ok N s xs" "N + 1 < 2 ^ 32" by (auto simp: bf_inv_def ff_inv_def)
  have n: "0 < n" using a by (simp add: best_fit_alloc_pages_def split: if_splits)
  from xs n show "s' = s" by (cases rule: best_fit_alloc_cases) (use a in auto)
next
  fix s F n s' p assume i: "bf_inv N s F" and a: "best_fit_alloc_pages n s = Some (s', Some p)"
  then obtain xs where xs: "ff_ok N s xs" "N + 1 < 2 ^ 32"
    and c: "coalesced (prop_of s) xs" "F = free_set s xs" by (auto simp: bf_inv_def ff_inv_def)
  have n: "0 < n" using a by (simp add: best_fit_alloc_pages_def split: if_splits)
  from xs n show "{p..<p + n} \<subseteq> F \<and> bf_inv N s' (F - {p..<p + n})"
  proof (cases rule: best_fit_alloc_cases)
    case none
    then show ?thesis using a by simp
  next
    case (some ys x zs)
    then have eq: "s' = take_block n x s" "p = x" using a by auto
    note ok = xs(1) [unfolded some(1)]
    show ?thesis
      using take_block_ok [OF ok n some(2)] take_block_coalesced [OF ok n some(2)] xs c some(1) eq
      unfolding bf_inv_def ff_inv_def by blast
  qed
next
  fix s F p n assume "bf_inv N s F" "can_free N p n s F" "{p..<p + n} \<inter> F = {}"
  then show "\<exists>s'. best_fit_free_pages p n s = Some s' \<and> bf_inv N s' (F \<union> {p..<p + n})"
    using first_fit.release_ok by (auto simp: bf_inv_def best_fit_free_eq)
qed

section \<open>Properties\<close>

text \<open>Best fit: \<open>best_fit_alloc_pages\<close> takes the first \<open>n\<close> pages of a free block that has
  at least \<open>n\<close> pages and is the smallest such block, and puts the rest back; it returns
  \<open>NULL\<close> exactly when no block is large enough, and then changes nothing.\<close>

theorem best_fit_alloc_smallest:
  assumes "ff_ok N s xs" and "N + 1 < 2 ^ 32" and "0 < n"
  shows "if \<exists>x\<in>set xs. n \<le> prop_of s x
    then \<exists>x s' xs'. best_fit_alloc_pages n s = Some (s', Some x) \<and> x \<in> set xs \<and> n \<le> prop_of s x \<and>
      (\<forall>y\<in>set xs. n \<le> prop_of s y \<longrightarrow> prop_of s x \<le> prop_of s y) \<and>
      ff_ok N s' xs' \<and> free_set s' xs' = free_set s xs - {x..<x + n}
    else best_fit_alloc_pages n s = Some (s, None)"
  using assms
proof (cases rule: best_fit_alloc_cases)
  case none
  then have "\<not> (\<exists>x\<in>set xs. n \<le> prop_of s x)" by (auto simp: not_le)
  then show ?thesis using none(1) by simp
next
  case (some ys x zs)
  have "x \<in> set xs" using some(1) by simp
  moreover from this have "\<exists>x\<in>set xs. n \<le> prop_of s x" using some(2) by blast
  ultimately show ?thesis
    using some take_block_ok [OF assms(1) [unfolded some(1)] assms(3) some(2)] by auto
qed

lemma best_fit_alloc_smallest_witness:
  "\<exists>x s' xs'. best_fit_alloc_pages 1 ff_sample = Some (s', Some x) \<and> x \<in> {0, 2} \<and>
     free_set s' xs' = {0, 2} - {x}"
  using best_fit_alloc_smallest [OF ff_sample_ok(1), of 1] ff_sample_ok(3) by force

text \<open>The best-fit manager conserves pages: an allocation of \<open>n\<close> pages lowers
  \<open>best_fit_nr_free_pages\<close> by \<open>n\<close>, the pages handed out are disjoint from those of a later
  allocation, and releasing them (with a free page above, or none left) restores the set
  of free pages.\<close>

theorem best_fit_conservation:
  assumes "bf_inv N s F" and "best_fit_alloc_pages n s = Some (s1, Some p)"
    and "best_fit_alloc_pages m s1 = Some (s2, Some q)" and "can_free N p n s1 (F - {p..<p + n})"
  shows "best_fit_nr_free_pages s1 + n = best_fit_nr_free_pages s \<and>
    {p..<p + n} \<inter> {q..<q + m} = {} \<and>
    (\<exists>s'. best_fit_free_pages p n s1 = Some s' \<and> bf_inv N s' F)"
  using best_fit.alloc_count [OF assms(1,2)] best_fit.alloc_disjoint [OF assms(1-3)]
    best_fit.alloc_release [OF assms(1,2,4)] by auto

lemma best_fit_conservation_witness:
  "\<exists>s1 s2. best_fit_alloc_pages 1 ff_sample = Some (s1, Some 0) \<and>
     best_fit_alloc_pages 1 s1 = Some (s2, Some 2) \<and> best_fit_nr_free_pages s1 = 1 \<and>
     (\<exists>s'. best_fit_free_pages 0 1 s1 = Some s' \<and> bf_inv 6 s' {0, 2})"
proof -
  let ?s1 = "take_block 1 0 ff_sample"
  have inv: "bf_inv 6 ff_sample {0, 2}" using ff_sample_ok unfolding bf_inv_def ff_inv_def by auto
  have m: "u32 (fa_nr_free ff_sample + 1) = 3" by simp
  have "best_fit_loop 1 FreeList None 3 ff_sample = Some (Some 0)"
    using best_fit_loop_scan [where s=ff_sample and ys="[]" and zs="[0, 2]" and le=FreeList
        and n=1 and page=None and m=3] ff_sample_ok(1)
    by (simp add: ff_ok_def ring_next_ring)
  then have a: "best_fit_alloc_pages 1 ff_sample = Some (?s1, Some 0)"
    using m by (simp add: best_fit_alloc_take)
  have "rest_block 1 0 ff_sample = []" by (simp add: rest_block_def)
  then have ok1: "ff_ok 6 ?s1 [2]"
    using take_block_ok(1) [of 6 ff_sample "[]" 0 "[2]" 1] ff_sample_ok(1) by simp
  have len: "prop_of ?s1 2 = 1" by (simp add: take_block_prop)
  have "best_fit_loop 1 FreeList None 2 ?s1 = Some (Some 2)"
    using best_fit_loop_scan [where s="?s1" and ys="[]" and zs="[2]" and le=FreeList
        and n=1 and page=None and m=2] ok1 len
    by (simp add: ff_ok_def ring_next_ring)
  moreover have "u32 (Suc (Suc 0)) = Suc (Suc 0)" by (rule u32_id) simp
  ultimately have b: "best_fit_alloc_pages 1 ?s1 = Some (take_block 1 2 ?s1, Some 2)"
    by (simp add: best_fit_alloc_take take_block_nr numeral_2_eq_2)
  have "fa_pages ?s1 0 = ClearPageProperty (sample_page 2 1)"
    by (simp add: take_block_pages) (simp add: ff_sample_def)
  then have "can_free 6 0 1 ?s1 ({0, 2} - {0..<0 + 1})"
    by (auto simp: can_free_def freeable_def)
  from best_fit_conservation [OF inv a b this] a b show ?thesis
    by (simp add: best_fit_nr_free_pages_def)
qed

end
