(* ===== verification/Buddy.thy ===== *)
theory Buddy
  imports Page_Frame
begin

text \<open>
  The buddy allocator \<open>kern/mm/buddy_pmm.c\<close> of lab 2.  There is one list of free blocks for each
  order, with the heads \<open>FreeHead o\<close>; a block of order \<open>k\<close> has \<open>2 ^ k\<close> pages and is named by its
  first page.  Shifts \<open>1 << order\<close> are powers of two, for requests below \<open>2 ^ 31\<close> pages they do not
  overflow.  \<open>buddy_ok\<close> is the invariant, \<open>buddy_pages\<close> the set of free pages.
\<close>

section \<open>The operations\<close>

definition MAX_ORDER :: nat where "MAX_ORDER = 10"

datatype buddy_node = FreeHead nat | BuddyLink nat

record buddy_system =
  bd_pages :: "nat \<Rightarrow> page"
  bd_links :: "buddy_node links"
  bd_nr_free :: "nat \<Rightarrow> nat"

definition upd_bpage :: "nat \<Rightarrow> (page \<Rightarrow> page) \<Rightarrow> buddy_system \<Rightarrow> buddy_system" where
  "upd_bpage p f s = s\<lparr>bd_pages := (bd_pages s)(p := f (bd_pages s p))\<rparr>"

fun buddy_init_loop :: "nat \<Rightarrow> nat \<Rightarrow> buddy_system \<Rightarrow> buddy_system" where
  "buddy_init_loop i 0 s = s"
| "buddy_init_loop i (Suc n) s =
    (let s = s\<lparr>bd_links := list_init (FreeHead i) (bd_links s)\<rparr>;
         s = s\<lparr>bd_nr_free := (bd_nr_free s)(i := 0)\<rparr>
     in buddy_init_loop (Suc i) n s)"

definition buddy_init :: "buddy_system \<Rightarrow> buddy_system" where
  "buddy_init s = buddy_init_loop 0 (Suc MAX_ORDER) s"

text \<open>The four statements that put a block into the list of its order.\<close>

definition add_block :: "nat \<Rightarrow> nat \<Rightarrow> buddy_system \<Rightarrow> buddy_system" where
  "add_block k p s =
    (let s = upd_bpage p (\<lambda>q. SetPageProperty (q\<lparr>p_property := 2 ^ k\<rparr>)) s;
         s = s\<lparr>bd_links := list_add (FreeHead k) (BuddyLink p) (bd_links s)\<rparr>
     in s\<lparr>bd_nr_free := (bd_nr_free s)(k := u64 (bd_nr_free s k + 1))\<rparr>)"

fun order_down :: "nat \<Rightarrow> nat \<Rightarrow> nat" where
  "order_down 0 n = 0"
| "order_down (Suc k) n = (if 2 ^ Suc k > n then order_down k n else Suc k)"

function memmap_loop :: "nat \<Rightarrow> nat \<Rightarrow> nat \<Rightarrow> nat \<Rightarrow> buddy_system \<Rightarrow> buddy_system" where
  "memmap_loop base n k i s =
    (if i < n then
       memmap_loop base n k (i + 2 ^ k)
         (add_block k (base + i) (upd_bpage (base + i) (\<lambda>q. q\<lparr>p_flags := 0, p_ref := 0\<rparr>) s))
     else s)"
  by pat_completeness auto
termination by (relation "measure (\<lambda>(base, n, k, i, s). n - i)") (auto intro: diff_less_mono2)

declare memmap_loop.simps [simp del]

definition buddy_init_memmap :: "nat \<Rightarrow> nat \<Rightarrow> buddy_system \<Rightarrow> buddy_system option" where
  "buddy_init_memmap base n s = do {
     assert_k (n > 0);
     Some (memmap_loop base n (order_down MAX_ORDER n) 0 s) }"

function order_up :: "nat \<Rightarrow> nat \<Rightarrow> nat" where
  "order_up k n = (if 2 ^ k < n then order_up (k + 1) n else k)"
  by pat_completeness auto
termination
proof (relation "measure (\<lambda>(k, n). n - k)")
  fix k n :: nat assume a: "2 ^ k < n"
  have "k < n" using less_exp [of k] a by (rule less_trans)
  then show "((k + 1, n), (k, n)) \<in> measure (\<lambda>(k, n). n - k)" using a by simp
qed simp

declare order_up.simps [simp del]

fun split_block :: "nat \<Rightarrow> nat \<Rightarrow> nat \<Rightarrow> buddy_system \<Rightarrow> buddy_system" where
  "split_block p k 0 s = s"
| "split_block p k (Suc c) s = (if Suc c > k then split_block p k c (add_block c (p + 2 ^ c) s) else s)"

definition take_first :: "nat \<Rightarrow> buddy_system \<Rightarrow> (buddy_system \<times> nat) option" where
  "take_first c s =
    (case list_next (FreeHead c) (bd_links s) of
       FreeHead _ \<Rightarrow> None
     | BuddyLink p \<Rightarrow>
         let s = s\<lparr>bd_links := list_del (BuddyLink p) (bd_links s)\<rparr>;
             s = upd_bpage p ClearPageProperty s
         in Some (s\<lparr>bd_nr_free := (bd_nr_free s)(c := u64 (bd_nr_free s c + (2 ^ 64 - 1)))\<rparr>, p))"

function buddy_alloc_loop :: "nat \<Rightarrow> nat \<Rightarrow> buddy_system \<Rightarrow> (buddy_system \<times> nat option) option" where
  "buddy_alloc_loop k c s =
    (if c \<le> MAX_ORDER then
       if \<not> list_empty (FreeHead c) (bd_links s) then do {
         (s, p) \<leftarrow> take_first c s;
         Some (split_block p k c s, Some p) }
       else buddy_alloc_loop k (c + 1) s
     else Some (s, None))"
  by pat_completeness auto
termination by (relation "measure (\<lambda>(k, c, s). Suc MAX_ORDER - c)") auto

declare buddy_alloc_loop.simps [simp del]

definition buddy_alloc_pages :: "nat \<Rightarrow> buddy_system \<Rightarrow> (buddy_system \<times> nat option) option" where
  "buddy_alloc_pages n s =
    (let k = order_up 0 n in if k > MAX_ORDER then Some (s, None) else buddy_alloc_loop k k s)"

text \<open>
  The loop that merges: it looks at the page behind \<open>p\<close> only, and only at \<open>property\<close>, which an
  allocated block keeps.
\<close>

function merge_loop :: "nat \<Rightarrow> nat \<Rightarrow> buddy_system \<Rightarrow> buddy_system \<times> nat" where
  "merge_loop p c s =
    (if c \<le> MAX_ORDER then
       let buddy = p + 2 ^ c
       in if p_property (bd_pages s buddy) \<noteq> 2 ^ c \<or> PageReserved (bd_pages s buddy) then (s, p)
          else
            let s = s\<lparr>bd_links := list_del (BuddyLink buddy) (bd_links s)\<rparr>;
                s = s\<lparr>bd_nr_free := (bd_nr_free s)(c := u64 (bd_nr_free s c + (2 ^ 64 - 1)))\<rparr>;
                s = upd_bpage buddy ClearPageProperty s
            in merge_loop (if p > buddy then buddy else p) (c + 1) s
     else (s, p))"
  by pat_completeness auto
termination by (relation "measure (\<lambda>(p, c, s). Suc MAX_ORDER - c)") auto

declare merge_loop.simps [simp del]

text \<open>An order above \<open>MAX_ORDER\<close> would write behind the array of lists.\<close>

definition buddy_free_pages :: "nat \<Rightarrow> nat \<Rightarrow> buddy_system \<Rightarrow> buddy_system option" where
  "buddy_free_pages base n s = do {
     let k = order_up 0 n;
     let (s, p) = merge_loop base k s;
     assert_k (k \<le> MAX_ORDER);
     Some (add_block k p s) }"

definition buddy_nr_free_pages :: "buddy_system \<Rightarrow> nat" where
  "buddy_nr_free_pages s = u64 (\<Sum>i\<in>{0..MAX_ORDER}. bd_nr_free s i * 2 ^ i)"

section \<open>The invariant\<close>

definition order_blocks :: "(nat \<Rightarrow> nat list) \<Rightarrow> (nat \<times> nat) set" where
  "order_blocks B = {(k, p). k \<le> MAX_ORDER \<and> p \<in> set (B k)}"

definition disjoint_blocks :: "nat \<times> nat \<Rightarrow> nat \<times> nat \<Rightarrow> bool" where
  "disjoint_blocks x y \<longleftrightarrow> snd x + 2 ^ fst x \<le> snd y \<or> snd y + 2 ^ fst y \<le> snd x"

definition block_range :: "nat \<times> nat \<Rightarrow> nat set" where
  "block_range x = {snd x..<snd x + 2 ^ fst x}"

definition buddy_pages :: "(nat \<Rightarrow> nat list) \<Rightarrow> nat set" where
  "buddy_pages B = \<Union> (block_range ` order_blocks B)"

definition buddy_ok :: "nat \<Rightarrow> buddy_system \<Rightarrow> (nat \<Rightarrow> nat list) \<Rightarrow> bool" where
  "buddy_ok N s B \<longleftrightarrow> N < 2 ^ 64 \<and>
     (\<forall>k\<le>MAX_ORDER. ring (bd_links s) (FreeHead k) (map BuddyLink (B k)) \<and> bd_nr_free s k = length (B k)) \<and>
     (\<forall>(k, p) \<in> order_blocks B. p_property (bd_pages s p) = 2 ^ k \<and> PageProperty (bd_pages s p) \<and> p + 2 ^ k \<le> N) \<and>
     (\<forall>x\<in>order_blocks B. \<forall>y\<in>order_blocks B. x \<noteq> y \<longrightarrow> disjoint_blocks x y)"

lemma buddy_ok_ring: "buddy_ok N s B \<Longrightarrow> k \<le> MAX_ORDER \<Longrightarrow> ring (bd_links s) (FreeHead k) (map BuddyLink (B k))"
  and buddy_ok_nr: "buddy_ok N s B \<Longrightarrow> k \<le> MAX_ORDER \<Longrightarrow> bd_nr_free s k = length (B k)"
  and buddy_ok_block: "buddy_ok N s B \<Longrightarrow> (k, p) \<in> order_blocks B \<Longrightarrow>
    p_property (bd_pages s p) = 2 ^ k \<and> PageProperty (bd_pages s p) \<and> p + 2 ^ k \<le> N"
  and buddy_ok_disjoint: "buddy_ok N s B \<Longrightarrow> x \<in> order_blocks B \<Longrightarrow> y \<in> order_blocks B \<Longrightarrow> x \<noteq> y \<Longrightarrow> disjoint_blocks x y"
  and buddy_ok_bound: "buddy_ok N s B \<Longrightarrow> N < 2 ^ 64"
  unfolding buddy_ok_def by (simp, simp, fastforce, simp, simp)

lemma fits_below: "p + 2 ^ k \<le> N \<Longrightarrow> p < (N :: nat)"
proof -
  have "(0 :: nat) < 2 ^ k" by simp
  then show "p + 2 ^ k \<le> N \<Longrightarrow> p < N" by linarith
qed

lemma buddy_ok_set: "buddy_ok N s B \<Longrightarrow> k \<le> MAX_ORDER \<Longrightarrow> set (B k) \<subseteq> {0..<N} \<and> distinct (B k)"
  using buddy_ok_block [of N s B k] buddy_ok_ring [of N s B k] ring_distinct
  by (fastforce simp: order_blocks_def distinct_map dest: fits_below)

lemma buddy_ok_length: "buddy_ok N s B \<Longrightarrow> k \<le> MAX_ORDER \<Longrightarrow> length (B k) \<le> N"
  using buddy_ok_set [of N s B k] card_mono [of "{0..<N}" "set (B k)"] by (simp add: distinct_card)

lemma disjoint_sym: "disjoint_blocks x y \<longleftrightarrow> disjoint_blocks y x"
  by (auto simp: disjoint_blocks_def)

lemma disjoint_ranges: "disjoint_blocks x y \<longleftrightarrow> block_range x \<inter> block_range y = {}"
proof
  assume "block_range x \<inter> block_range y = {}"
  then have "max (snd x) (snd y) \<notin> block_range x \<inter> block_range y" by simp
  then show "disjoint_blocks x y" by (auto simp: block_range_def disjoint_blocks_def max_def split: if_splits)
qed (auto simp: disjoint_blocks_def block_range_def)

lemma disjoint_distinct: "disjoint_blocks x y \<Longrightarrow> snd x \<noteq> snd y"
  by (auto simp: disjoint_blocks_def)

lemma blocks_upd:
  assumes "k \<le> MAX_ORDER"
  shows "order_blocks (B(k := xs)) = {(c, p) \<in> order_blocks B. c \<noteq> k} \<union> {(k, p) |p. p \<in> set xs}"
  using assms by (auto simp: order_blocks_def split: if_splits)

text \<open>A block that touches no free block joins its list.\<close>

lemma add_block_ok:
  assumes ok: "buddy_ok N s B" and k: "k \<le> MAX_ORDER" and top: "p + 2 ^ k \<le> N"
    and dis: "\<And>x. x \<in> order_blocks B \<Longrightarrow> disjoint_blocks (k, p) x"
  shows "buddy_ok N (add_block k p s) (B(k := p # B k))"
    and "buddy_pages (B(k := p # B k)) = buddy_pages B \<union> block_range (k, p)"
proof -
  let ?B = "B(k := p # B k)" and ?s = "add_block k p s"
  have bl: "order_blocks ?B = insert (k, p) (order_blocks B)"
    using k by (auto simp: order_blocks_def split: if_splits)
  have new: "p \<notin> set (B c)" if "c \<le> MAX_ORDER" for c
    using dis [of "(c, p)"] that by (auto simp: order_blocks_def disjoint_blocks_def)
  have r: "ring (bd_links s) (FreeHead c) (map BuddyLink (B c))" if "c \<le> MAX_ORDER" for c
    using buddy_ok_ring [OF ok that] .
  have share: "set (B k) \<inter> set (B c) = {}" if c: "c \<le> MAX_ORDER" "c \<noteq> k" for c
  proof -
    have "False" if "q \<in> set (B k)" "q \<in> set (B c)" for q
    proof -
      have "(k, q) \<in> order_blocks B" "(c, q) \<in> order_blocks B" using that c(1) k by (simp_all add: order_blocks_def)
      from buddy_ok_disjoint [OF ok this] show False using c(2) by (simp add: disjoint_blocks_def)
    qed
    then show ?thesis by blast
  qed
  have ring: "ring (bd_links ?s) (FreeHead c) (map BuddyLink (?B c))" if c: "c \<le> MAX_ORDER" for c
  proof (cases "c = k")
    case True
    then show ?thesis using ring_list_add_head [OF r [OF k], of "BuddyLink p"] new [OF k]
      by (auto simp: add_block_def Let_def upd_bpage_def)
  next
    case False
    have "set (FreeHead k # BuddyLink p # map BuddyLink (B k)) \<inter> set (FreeHead c # map BuddyLink (B c)) = {}"
      using False new [OF c] share [OF c False] by auto
    then show ?thesis using ring_list_add_head_other [OF r [OF k] r [OF c]] False
      by (simp add: add_block_def Let_def upd_bpage_def)
  qed
  have len: "length (B k) < N"
  proof -
    have "insert p (set (B k)) \<subseteq> {0..<N}" and "distinct (B k)"
      using buddy_ok_set [OF ok k] fits_below [OF top] by auto
    then show ?thesis using card_mono [of "{0..<N}" "insert p (set (B k))"] new [OF k] by (simp add: distinct_card)
  qed
  have nr: "bd_nr_free ?s c = length (?B c)" if "c \<le> MAX_ORDER" for c
    using buddy_ok_nr [OF ok that] buddy_ok_nr [OF ok k] len buddy_ok_bound [OF ok] by (simp add: add_block_def Let_def upd_bpage_def)
  have tag: "p_property (bd_pages ?s q) = 2 ^ c \<and> PageProperty (bd_pages ?s q) \<and> q + 2 ^ c \<le> N" if "(c, q) \<in> order_blocks ?B" for c q
  proof (cases "(c, q) = (k, p)")
    case False
    then have b: "(c, q) \<in> order_blocks B" using that bl by auto
    then have "q \<noteq> p" using dis [OF b] by (auto simp: disjoint_blocks_def)
    then show ?thesis using buddy_ok_block [OF ok b] by (simp add: add_block_def Let_def upd_bpage_def)
  qed (use top in \<open>simp add: add_block_def Let_def upd_bpage_def\<close>)
  have "\<forall>x\<in>order_blocks ?B. \<forall>y\<in>order_blocks ?B. x \<noteq> y \<longrightarrow> disjoint_blocks x y"
    unfolding bl using buddy_ok_disjoint [OF ok] dis disjoint_sym by blast
  moreover have "\<forall>c\<le>MAX_ORDER. ring (bd_links ?s) (FreeHead c) (map BuddyLink (?B c)) \<and>
      bd_nr_free ?s c = length (?B c)" using ring nr by blast
  moreover have "\<forall>(c, q) \<in> order_blocks ?B. p_property (bd_pages ?s q) = 2 ^ c \<and> PageProperty (bd_pages ?s q) \<and> q + 2 ^ c \<le> N"
    using tag by blast
  ultimately show "buddy_ok N ?s ?B" unfolding buddy_ok_def by (intro conjI buddy_ok_bound [OF ok])
  show "buddy_pages ?B = buddy_pages B \<union> block_range (k, p)" unfolding buddy_pages_def bl by auto
qed

text \<open>A free block leaves its list.\<close>

definition del_block :: "nat \<Rightarrow> nat \<Rightarrow> buddy_system \<Rightarrow> buddy_system" where
  "del_block c p s = (upd_bpage p ClearPageProperty (s\<lparr>bd_links := list_del (BuddyLink p) (bd_links s)\<rparr>))
    \<lparr>bd_nr_free := (bd_nr_free s)(c := u64 (bd_nr_free s c + (2 ^ 64 - 1)))\<rparr>"

lemma del_block_fields [simp]:
  "bd_links (del_block c p s) = list_del (BuddyLink p) (bd_links s)"
  "bd_pages (del_block c p s) = (bd_pages s)(p := ClearPageProperty (bd_pages s p))"
  "bd_nr_free (del_block c p s) = (bd_nr_free s)(c := u64 (bd_nr_free s c + (2 ^ 64 - 1)))"
  by (simp_all add: del_block_def upd_bpage_def)

lemma del_block_alt:
  "del_block c p s = upd_bpage p ClearPageProperty (s\<lparr>bd_links := list_del (BuddyLink p) (bd_links s),
     bd_nr_free := (bd_nr_free s)(c := u64 (bd_nr_free s c + (2 ^ 64 - 1)))\<rparr>)"
  by (cases s) (simp add: del_block_def upd_bpage_def)

lemma buddy_lists_apart:
  assumes ok: "buddy_ok N s B" and "c \<le> MAX_ORDER" "k \<le> MAX_ORDER" "c \<noteq> k"
  shows "set (B c) \<inter> set (B k) = {}"
proof -
  have "False" if "q \<in> set (B c)" "q \<in> set (B k)" for q
  proof -
    have "(c, q) \<in> order_blocks B" "(k, q) \<in> order_blocks B" using that assms(2,3) by (simp_all add: order_blocks_def)
    from buddy_ok_disjoint [OF ok this] show False using assms(4) by (simp add: disjoint_blocks_def)
  qed
  then show ?thesis by blast
qed

lemma del_block_ok:
  assumes ok: "buddy_ok N s B" and bp: "(c, p) \<in> order_blocks B"
  defines "B' \<equiv> B(c := remove1 p (B c))"
  shows "buddy_ok N (del_block c p s) B'" and "x \<in> order_blocks B' \<Longrightarrow> disjoint_blocks (c, p) x"
    and "order_blocks B' = order_blocks B - {(c, p)}" and "buddy_pages B' = buddy_pages B - block_range (c, p)"
    and "block_range (c, p) \<subseteq> buddy_pages B"
proof -
  have c: "c \<le> MAX_ORDER" and p: "p \<in> set (B c)" using bp by (simp_all add: order_blocks_def)
  have dst: "distinct (B c)" using buddy_ok_set [OF ok c] by simp
  note r = buddy_ok_ring [OF ok]
  show bl: "order_blocks B' = order_blocks B - {(c, p)}"
    using c dst by (auto simp: order_blocks_def B'_def split: if_splits)
  show dis: "disjoint_blocks (c, p) x" if "x \<in> order_blocks B'" for x
    using buddy_ok_disjoint [OF ok bp, of x] that bl by auto
  have ring: "ring (bd_links (del_block c p s)) (FreeHead k) (map BuddyLink (B' k))" if k: "k \<le> MAX_ORDER" for k
  proof (cases "k = c")
    case True
    then show ?thesis using ring_remove [OF r [OF c] p] by (simp add: B'_def inj_def)
  next
    case False
    obtain ys zs where yz: "B c = ys @ p # zs" using p by (meson split_list)
    have "set (FreeHead c # map BuddyLink ys @ BuddyLink p # map BuddyLink zs) \<inter> set (FreeHead k # map BuddyLink (B k)) = {}"
      using False yz buddy_lists_apart [OF ok c k] by auto
    then show ?thesis
      using ring_list_del_other [of "bd_links s" "FreeHead c" "map BuddyLink ys" "BuddyLink p" "map BuddyLink zs"]
        r [OF c] r [OF k] yz False by (simp add: B'_def)
  qed
  have nr: "bd_nr_free (del_block c p s) k = length (B' k)" if k: "k \<le> MAX_ORDER" for k
  proof (cases "k = c")
    case True
    have "0 < length (B c)" using p by (cases "B c") auto
    moreover have "length (B c) < 2 ^ 64" using buddy_ok_length [OF ok c] buddy_ok_bound [OF ok] by simp
    moreover have "length (B c) + (2 ^ 64 - 1) = (length (B c) - 1) + 2 ^ 64" using calculation(1) by simp
    ultimately have "u64 (length (B c) + (2 ^ 64 - 1)) = length (B c) - 1"
      by (simp only: u64_def mod_add_self2) simp
    then show ?thesis using True buddy_ok_nr [OF ok c] p by (simp add: B'_def length_remove1)
  qed (use buddy_ok_nr [OF ok k] in \<open>simp add: B'_def\<close>)
  have tag: "p_property (bd_pages (del_block c p s) q) = 2 ^ k \<and> PageProperty (bd_pages (del_block c p s) q) \<and> q + 2 ^ k \<le> N"
    if b: "(k, q) \<in> order_blocks B'" for k q
  proof -
    have "q \<noteq> p" using disjoint_distinct [OF dis [OF b]] by simp
    then show ?thesis using buddy_ok_block [OF ok, of k q] b bl by simp
  qed
  show "buddy_ok N (del_block c p s) B'"
    unfolding buddy_ok_def
  proof (intro conjI buddy_ok_bound [OF ok])
    show "\<forall>k\<le>MAX_ORDER. ring (bd_links (del_block c p s)) (FreeHead k) (map BuddyLink (B' k)) \<and>
        bd_nr_free (del_block c p s) k = length (B' k)" using ring nr by blast
    show "\<forall>(k, q) \<in> order_blocks B'. p_property (bd_pages (del_block c p s) q) = 2 ^ k \<and>
        PageProperty (bd_pages (del_block c p s) q) \<and> q + 2 ^ k \<le> N" using tag by blast
    show "\<forall>x\<in>order_blocks B'. \<forall>y\<in>order_blocks B'. x \<noteq> y \<longrightarrow> disjoint_blocks x y"
      using buddy_ok_disjoint [OF ok] bl by blast
  qed
  show sub: "block_range (c, p) \<subseteq> buddy_pages B" using bp by (auto simp: buddy_pages_def)
  have "block_range (c, p) \<inter> buddy_pages B' = {}" using dis unfolding disjoint_ranges buddy_pages_def by blast
  moreover have "buddy_pages B = buddy_pages B' \<union> block_range (c, p)" unfolding buddy_pages_def bl using bp by blast
  ultimately show "buddy_pages B' = buddy_pages B - block_range (c, p)" by blast
qed

lemma take_first_ok:
  assumes ok: "buddy_ok N s B" and c: "c \<le> MAX_ORDER" and B: "B c = p # ps"
  obtains s' where "take_first c s = Some (s', p)" "buddy_ok N s' (B(c := ps))"
    "\<And>x. x \<in> order_blocks (B(c := ps)) \<Longrightarrow> disjoint_blocks (c, p) x" "\<not> PageProperty (bd_pages s' p)"
    "buddy_pages B = buddy_pages (B(c := ps)) \<union> block_range (c, p)" "p + 2 ^ c \<le> N"
proof -
  have bp: "(c, p) \<in> order_blocks B" and rm: "remove1 p (B c) = ps" using c B by (simp_all add: order_blocks_def)
  have "list_next (FreeHead c) (bd_links s) = BuddyLink p"
    using ring_first [OF buddy_ok_ring [OF ok c]] B by (simp add: list_next_def)
  then have run: "take_first c s = Some (del_block c p s, p)" by (simp add: take_first_def del_block_def Let_def upd_bpage_def)
  note d = del_block_ok [OF ok bp, unfolded rm]
  show ?thesis
    by (rule that [OF run d(1,2)]) (use d(4,5) buddy_ok_block [OF ok bp] in auto)
qed

section \<open>Allocation\<close>

lemma blocks_insert: "k \<le> MAX_ORDER \<Longrightarrow> order_blocks (B(k := p # B k)) = insert (k, p) (order_blocks B)"
  by (auto simp: order_blocks_def split: if_splits)

lemma split_block_ok:
  "buddy_ok N s B \<Longrightarrow> c \<le> MAX_ORDER \<Longrightarrow> k \<le> c \<Longrightarrow> p + 2 ^ c \<le> N \<Longrightarrow> \<not> PageProperty (bd_pages s p) \<Longrightarrow>
    (\<And>x. x \<in> order_blocks B \<Longrightarrow> disjoint_blocks (c, p) x) \<Longrightarrow>
    \<exists>B'. buddy_ok N (split_block p k c s) B' \<and> buddy_pages B' = buddy_pages B \<union> {p + 2 ^ k..<p + 2 ^ c} \<and>
      (\<forall>x\<in>order_blocks B'. disjoint_blocks (k, p) x) \<and> \<not> PageProperty (bd_pages (split_block p k c s) p)"
proof (induction c arbitrary: s B)
  case 0
  then show ?case by (intro exI [of _ B]) simp
next
  case (Suc c s B)
  show ?case
  proof (cases "k = Suc c")
    case True
    then show ?thesis using Suc.prems by (intro exI [of _ B]) simp
  next
    case False
    then have k: "k \<le> c" using Suc.prems(3) by simp
    let ?q = "p + 2 ^ c" and ?B = "B(c := (p + 2 ^ c) # B c)"
    have c: "c \<le> MAX_ORDER" using Suc.prems(2) by simp
    have dis: "disjoint_blocks (c, ?q) x" "disjoint_blocks (c, p) x" if "x \<in> order_blocks B" for x
      using Suc.prems(6) [OF that] by (auto simp: disjoint_blocks_def)
    have top: "?q + 2 ^ c \<le> N" using Suc.prems(4) by simp
    have add: "buddy_ok N (add_block c ?q s) ?B" "buddy_pages ?B = buddy_pages B \<union> block_range (c, ?q)"
      by (rule add_block_ok [OF Suc.prems(1) c top]; use dis(1) in blast)+
    have np: "\<not> PageProperty (bd_pages (add_block c ?q s) p)"
      using Suc.prems(5) by (simp add: add_block_def upd_bpage_def Let_def)
    have dis2: "disjoint_blocks (c, p) x" if "x \<in> order_blocks ?B" for x
    proof (cases "x = (c, ?q)")
      case False
      then show ?thesis using that dis(2) blocks_insert [OF c, of B ?q] by simp
    qed (simp add: disjoint_blocks_def)
    have top2: "p + 2 ^ c \<le> N" using Suc.prems(4) by simp
    obtain B' where B': "buddy_ok N (split_block p k c (add_block c ?q s)) B'"
      "buddy_pages B' = buddy_pages ?B \<union> {p + 2 ^ k..<p + 2 ^ c}" "\<forall>x\<in>order_blocks B'. disjoint_blocks (k, p) x"
      "\<not> PageProperty (bd_pages (split_block p k c (add_block c ?q s)) p)"
      using Suc.IH [OF add(1) c k top2 np dis2] by blast
    have "{p + 2 ^ k..<p + 2 ^ c} \<union> {p + 2 ^ c..<p + 2 ^ Suc c} = {p + 2 ^ k..<p + 2 ^ Suc c}"
      by (rule ivl_disj_un_two(3)) (use k in simp_all)
    moreover have "block_range (c, ?q) = {p + 2 ^ c..<p + 2 ^ Suc c}"
      by (simp add: block_range_def mult_2 add.assoc)
    ultimately have "buddy_pages B' = buddy_pages B \<union> {p + 2 ^ k..<p + 2 ^ Suc c}"
      unfolding B'(2) add(2) by blast
    then show ?thesis using B' False Suc.prems(3) by (intro exI [of _ B']) simp
  qed
qed

text \<open>The first order from \<open>c\<close> on with a free block.\<close>

lemma buddy_alloc_loop_ok:
  "buddy_ok N s B \<Longrightarrow> k \<le> c \<Longrightarrow>
    (if \<exists>j. c \<le> j \<and> j \<le> MAX_ORDER \<and> B j \<noteq> []
     then \<exists>s' p B'. buddy_alloc_loop k c s = Some (s', Some p) \<and> buddy_ok N s' B' \<and> block_range (k, p) \<subseteq> buddy_pages B \<and>
       buddy_pages B' = buddy_pages B - block_range (k, p) \<and> \<not> PageProperty (bd_pages s' p)
     else buddy_alloc_loop k c s = Some (s, None))"
proof (induction "Suc MAX_ORDER - c" arbitrary: c)
  case 0
  then show ?case by (auto simp: buddy_alloc_loop.simps [of k c])
next
  case (Suc x c)
  have c: "c \<le> MAX_ORDER" using Suc.hyps(2) by simp
  show ?case
  proof (cases "B c = []")
    case True
    then have "list_empty (FreeHead c) (bd_links s)"
      using ring_empty_iff [OF buddy_ok_ring [OF Suc.prems(1) c]] by simp
    then have run: "buddy_alloc_loop k c s = buddy_alloc_loop k (c + 1) s" using c by (simp add: buddy_alloc_loop.simps [of k c])
    have eq: "(\<exists>j. c \<le> j \<and> j \<le> MAX_ORDER \<and> B j \<noteq> []) \<longleftrightarrow> (\<exists>j. c + 1 \<le> j \<and> j \<le> MAX_ORDER \<and> B j \<noteq> [])"
      using True by (metis Suc_eq_plus1 not_less_eq_eq order.antisym le_SucI Suc_leD)
    have "x = Suc MAX_ORDER - (c + 1)" "k \<le> c + 1" using Suc.hyps(2) Suc.prems(2) by simp_all
    then show ?thesis unfolding run eq by (intro Suc.hyps(1) Suc.prems(1))
  next
    case False
    then obtain p ps where B: "B c = p # ps" by (cases "B c") auto
    have ne: "\<not> list_empty (FreeHead c) (bd_links s)"
      using ring_empty_iff [OF buddy_ok_ring [OF Suc.prems(1) c]] B by simp
    obtain s1 where 1: "take_first c s = Some (s1, p)" "buddy_ok N s1 (B(c := ps))"
      "\<And>x. x \<in> order_blocks (B(c := ps)) \<Longrightarrow> disjoint_blocks (c, p) x" "\<not> PageProperty (bd_pages s1 p)"
      "buddy_pages B = buddy_pages (B(c := ps)) \<union> block_range (c, p)" "p + 2 ^ c \<le> N"
      using take_first_ok [OF Suc.prems(1) c B] by blast
    obtain B' where 2: "buddy_ok N (split_block p k c s1) B'"
      "buddy_pages B' = buddy_pages (B(c := ps)) \<union> {p + 2 ^ k..<p + 2 ^ c}"
      "\<forall>x\<in>order_blocks B'. disjoint_blocks (k, p) x" "\<not> PageProperty (bd_pages (split_block p k c s1) p)"
      using split_block_ok [OF 1(2) c Suc.prems(2) 1(6,4,3)] by blast
    have run: "buddy_alloc_loop k c s = Some (split_block p k c s1, Some p)"
      using c ne 1(1) by (simp add: buddy_alloc_loop.simps [of k c])
    have le: "{p..<p + 2 ^ k} \<union> {p + 2 ^ k..<p + 2 ^ c} = {p..<p + 2 ^ c}"
      by (rule ivl_disj_un_two(3)) (use Suc.prems(2) in simp_all)
    have apart: "block_range (k, p) \<inter> buddy_pages B' = {}"
      using 2(3) unfolding disjoint_ranges buddy_pages_def by blast
    have "buddy_pages B = buddy_pages B' \<union> block_range (k, p)"
      unfolding 1(5) 2(2) block_range_def using le by auto
    then have "block_range (k, p) \<subseteq> buddy_pages B" "buddy_pages B' = buddy_pages B - block_range (k, p)"
      using apart by blast+
    then show ?thesis using run 2(1,4) c B by (auto intro!: exI [of _ c])
  qed
qed

lemma order_up_ok: "n \<le> 2 ^ order_up k n" "k \<le> order_up k n" "k < order_up k n \<Longrightarrow> 2 ^ (order_up k n - 1) < n"
proof -
  have "n \<le> 2 ^ order_up k n \<and> k \<le> order_up k n \<and> (k < order_up k n \<longrightarrow> 2 ^ (order_up k n - 1) < n)"
  proof (induction k n rule: order_up.induct)
    case (1 k n)
    show ?case
    proof (cases "2 ^ k < n")
      case True
      then show ?thesis using 1 [OF True] order_up.simps [of k n] by (cases "order_up (k + 1) n = k + 1") auto
    next
      case False
      then show ?thesis using order_up.simps [of k n] by simp
    qed
  qed
  then show "n \<le> 2 ^ order_up k n" "k \<le> order_up k n" "k < order_up k n \<Longrightarrow> 2 ^ (order_up k n - 1) < n" by auto
qed

section \<open>Release\<close>

text \<open>
  The test of the loop tells a free block of order \<open>c\<close> behind \<open>p\<close> from everything else.  It does so as
  long as no allocated block there has kept this \<open>property\<close>.
\<close>

definition tags_true :: "nat \<Rightarrow> nat \<Rightarrow> buddy_system \<Rightarrow> (nat \<Rightarrow> nat list) \<Rightarrow> bool" where
  "tags_true p k s B \<longleftrightarrow> (\<forall>c\<in>{k..MAX_ORDER}.
     (p_property (bd_pages s (p + 2 ^ c)) = 2 ^ c \<and> \<not> PageReserved (bd_pages s (p + 2 ^ c))) =
       ((c, p + 2 ^ c) \<in> order_blocks B))"

lemma merge_loop_ok:
  "buddy_ok N s B \<Longrightarrow> c \<le> Suc MAX_ORDER \<Longrightarrow> tags_true p c s B \<Longrightarrow>
    \<exists>s' m B'. merge_loop p c s = (s', p) \<and> c \<le> m \<and> m \<le> Suc MAX_ORDER \<and>
      (\<forall>j. c \<le> j \<and> j < m \<longrightarrow> (j, p + 2 ^ j) \<in> order_blocks B) \<and> (m \<le> MAX_ORDER \<longrightarrow> (m, p + 2 ^ m) \<notin> order_blocks B) \<and>
      buddy_ok N s' B' \<and> order_blocks B' \<subseteq> order_blocks B \<and> buddy_pages B' = buddy_pages B - {p + 2 ^ c..<p + 2 ^ m}"
proof (induction "Suc MAX_ORDER - c" arbitrary: c s B)
  case 0
  then show ?case by (intro exI [of _ s] exI [of _ c] exI [of _ B]) (auto simp: merge_loop.simps [of p c])
next
  case (Suc x c s B)
  have c: "c \<le> MAX_ORDER" using Suc.hyps(2) by simp
  have test: "(p_property (bd_pages s (p + 2 ^ c)) \<noteq> 2 ^ c \<or> PageReserved (bd_pages s (p + 2 ^ c))) \<longleftrightarrow>
      (c, p + 2 ^ c) \<notin> order_blocks B"
    using Suc.prems(3) c by (auto simp: tags_true_def)
  show ?case
  proof (cases "(c, p + 2 ^ c) \<in> order_blocks B")
    case False
    then have "merge_loop p c s = (s, p)" using c test by (simp add: merge_loop.simps [of p c] Let_def)
    then show ?thesis using Suc.prems(1) c False by (intro exI [of _ s] exI [of _ c] exI [of _ B]) auto
  next
    case True
    let ?q = "p + 2 ^ c" let ?s = "del_block c ?q s" let ?B = "B(c := remove1 ?q (B c))"
    note d = del_block_ok [OF Suc.prems(1) True]
    have run: "merge_loop p c s = merge_loop p (c + 1) ?s"
      using c test True by (subst merge_loop.simps) (simp add: Let_def del_block_alt)
    have tags: "tags_true p (c + 1) ?s ?B"
      unfolding tags_true_def
    proof
      fix j assume j: "j \<in> {c + 1..MAX_ORDER}"
      then have "(2 :: nat) ^ j \<noteq> 2 ^ c" by simp
      then show "(p_property (bd_pages ?s (p + 2 ^ j)) = 2 ^ j \<and> \<not> PageReserved (bd_pages ?s (p + 2 ^ j))) =
          ((j, p + 2 ^ j) \<in> order_blocks ?B)"
        using Suc.prems(3) j d(3) by (auto simp: tags_true_def)
    qed
    have x: "x = Suc MAX_ORDER - (c + 1)" "c + 1 \<le> Suc MAX_ORDER" using Suc.hyps(2) by simp_all
    obtain s' m B' where 1: "merge_loop p (c + 1) ?s = (s', p)" "c + 1 \<le> m" "m \<le> Suc MAX_ORDER"
      "\<forall>j. c + 1 \<le> j \<and> j < m \<longrightarrow> (j, p + 2 ^ j) \<in> order_blocks ?B" "m \<le> MAX_ORDER \<longrightarrow> (m, p + 2 ^ m) \<notin> order_blocks ?B"
      "buddy_ok N s' B'" "order_blocks B' \<subseteq> order_blocks ?B" "buddy_pages B' = buddy_pages ?B - {p + 2 ^ (c + 1)..<p + 2 ^ m}"
      using Suc.hyps(1) [OF x(1) d(1) x(2) tags] by blast
    have br: "block_range (c, ?q) = {p + 2 ^ c..<p + 2 ^ (c + 1)}" by (simp add: block_range_def mult_2 add.assoc)
    have "{p + 2 ^ c..<p + 2 ^ (c + 1)} \<union> {p + 2 ^ (c + 1)..<p + 2 ^ m} = {p + 2 ^ c..<p + 2 ^ m}"
      by (rule ivl_disj_un_two(3)) (use 1(2) in \<open>simp_all add: power_increasing del: power_Suc\<close>)
    then have pages: "buddy_pages B' = buddy_pages B - {p + 2 ^ c..<p + 2 ^ m}" unfolding 1(8) d(4) br by blast
    have below: "(j, p + 2 ^ j) \<in> order_blocks B" if "c \<le> j" "j < m" for j
      using 1(4) d(3) True that by (cases "j = c") auto
    have stop: "m \<le> MAX_ORDER \<longrightarrow> (m, p + 2 ^ m) \<notin> order_blocks B" using 1(2,5) d(3) by auto
    show ?thesis
      using run 1(1-3,6,7) d(3) pages below stop by (intro exI [of _ s'] exI [of _ m] exI [of _ B']) auto
  qed
qed

section \<open>Counting\<close>

lemma order_blocks_Sigma: "order_blocks B = (SIGMA k:{0..MAX_ORDER}. set (B k))"
  by (auto simp: order_blocks_def)

lemma finite_buddy_pages: "finite (buddy_pages B)"
  by (simp add: buddy_pages_def block_range_def order_blocks_Sigma)

lemma buddy_nr_free:
  assumes ok: "buddy_ok N s B"
  shows "buddy_nr_free_pages s = card (buddy_pages B)"
proof -
  note S = order_blocks_Sigma [of B]
  have fin: "finite (order_blocks B)" unfolding S by simp
  have "card (buddy_pages B) = (\<Sum>x\<in>order_blocks B. card (block_range x))"
    unfolding buddy_pages_def
  proof (rule card_UN_disjoint [OF fin])
    show "\<forall>x\<in>order_blocks B. finite (block_range x)" by (simp add: block_range_def)
    show "\<forall>x\<in>order_blocks B. \<forall>y\<in>order_blocks B. x \<noteq> y \<longrightarrow> block_range x \<inter> block_range y = {}"
      using buddy_ok_disjoint [OF ok] unfolding disjoint_ranges by blast
  qed
  also have "\<dots> = (\<Sum>(k, p)\<in>order_blocks B. 2 ^ k)" by (rule sum.cong) (auto simp: block_range_def)
  also have "\<dots> = (\<Sum>k\<in>{0..MAX_ORDER}. \<Sum>p\<in>set (B k). 2 ^ k)" unfolding S by (subst sum.Sigma) auto
  also have "\<dots> = (\<Sum>k\<in>{0..MAX_ORDER}. bd_nr_free s k * 2 ^ k)"
    by (rule sum.cong) (use buddy_ok_nr [OF ok] buddy_ok_set [OF ok] in \<open>simp_all add: distinct_card\<close>)
  finally have c: "card (buddy_pages B) = (\<Sum>k\<in>{0..MAX_ORDER}. bd_nr_free s k * 2 ^ k)" .
  have "buddy_pages B \<subseteq> {0..<N}"
    using buddy_ok_block [OF ok] by (fastforce simp: buddy_pages_def block_range_def)
  then have "card (buddy_pages B) \<le> N" using card_mono [of "{0..<N}"] by fastforce
  then show ?thesis using c buddy_ok_bound [OF ok] by (simp add: buddy_nr_free_pages_def)
qed

section \<open>Start\<close>

lemma ring_nil: "ring h a [] \<longleftrightarrow> l_next h a = a \<and> l_prev h a = a"
  by (auto simp: ring_def next_ring_def)

lemma buddy_init_loop_ok:
  "ring (bd_links (buddy_init_loop i n s)) (FreeHead k) [] =
     (if i \<le> k \<and> k < i + n then True else ring (bd_links s) (FreeHead k) [])"
  "bd_nr_free (buddy_init_loop i n s) k = (if i \<le> k \<and> k < i + n then 0 else bd_nr_free s k)"
  by (induction n arbitrary: i s) (auto simp: Let_def ring_nil list_init_def)

lemma buddy_init_ok: "N < 2 ^ 64 \<Longrightarrow> buddy_ok N (buddy_init s) (\<lambda>_. [])"
  by (simp add: buddy_ok_def buddy_init_def buddy_init_loop_ok order_blocks_def del: buddy_init_loop.simps)

lemma buddy_ok_page: "buddy_ok N s B \<Longrightarrow> (\<And>x. x \<in> order_blocks B \<Longrightarrow> snd x \<noteq> p) \<Longrightarrow> buddy_ok N (upd_bpage p f s) B"
  by (fastforce simp: buddy_ok_def upd_bpage_def)

lemma order_down_ok: "0 < n \<Longrightarrow> 2 ^ order_down k n \<le> n \<and> order_down k n \<le> k"
  by (induction k) auto

lemma memmap_loop_ok:
  "buddy_ok N s B \<Longrightarrow> k \<le> MAX_ORDER \<Longrightarrow> base + n + 2 ^ k \<le> N \<Longrightarrow> i < n + 2 ^ k \<Longrightarrow> 2 ^ k dvd i \<Longrightarrow>
    (\<And>x. x \<in> order_blocks B \<Longrightarrow> snd x + 2 ^ fst x \<le> base + i) \<Longrightarrow>
    \<exists>B' m. buddy_ok N (memmap_loop base n k i s) B' \<and> i \<le> m \<and> n \<le> m \<and> m < n + 2 ^ k \<and> 2 ^ k dvd m \<and>
      buddy_pages B' = buddy_pages B \<union> {base + i..<base + m}"
proof (induction "n - i" arbitrary: i s B rule: less_induct)
  case (less i s B)
  note pr = less.prems
  have p0: "(0 :: nat) < 2 ^ k" by simp
  show ?case
  proof (cases "i < n")
    case False
    then show ?thesis using pr by (intro exI [of _ B] exI [of _ i]) (auto simp: memmap_loop.simps [of base n k i])
  next
    case True
    let ?s = "upd_bpage (base + i) (\<lambda>q. q\<lparr>p_flags := 0, p_ref := 0\<rparr>) s" and ?B = "B(k := (base + i) # B k)"
    have dis: "disjoint_blocks (k, base + i) x" if "x \<in> order_blocks B" for x
      using pr(6) [OF that] by (simp add: disjoint_blocks_def)
    have "snd x \<noteq> base + i" if "x \<in> order_blocks B" for x using disjoint_distinct [OF dis [OF that]] by simp
    then have ok1: "buddy_ok N ?s B" by (rule buddy_ok_page [OF pr(1)])
    have top: "base + i + 2 ^ k \<le> N" using pr(3) True by simp
    have add: "buddy_ok N (add_block k (base + i) ?s) ?B" "buddy_pages ?B = buddy_pages B \<union> block_range (k, base + i)"
      by (rule add_block_ok [OF ok1 pr(2) top]; use dis in blast)+
    have below: "snd x + 2 ^ fst x \<le> base + (i + 2 ^ k)" if "x \<in> order_blocks ?B" for x
    proof (cases "x = (k, base + i)")
      case False
      then have "x \<in> order_blocks B" using that blocks_insert [OF pr(2)] by auto
      then show ?thesis using pr(6) [of x] p0 by linarith
    qed simp
    have i: "n - (i + 2 ^ k) < n - i" "i + 2 ^ k < n + 2 ^ k" "2 ^ k dvd i + 2 ^ k"
      using True p0 pr(5) by (linarith, linarith, simp)
    obtain B' m where 1: "buddy_ok N (memmap_loop base n k (i + 2 ^ k) (add_block k (base + i) ?s)) B'" "i + 2 ^ k \<le> m" "n \<le> m"
      "m < n + 2 ^ k" "2 ^ k dvd m" "buddy_pages B' = buddy_pages ?B \<union> {base + (i + 2 ^ k)..<base + m}"
      using less.hyps [OF i(1) add(1) pr(2,3) i(2,3) below] by blast
    have "{base + i..<base + (i + 2 ^ k)} \<union> {base + (i + 2 ^ k)..<base + m} = {base + i..<base + m}"
      by (rule ivl_disj_un_two(3)) (use 1(2) in simp_all)
    then have "buddy_pages B' = buddy_pages B \<union> {base + i..<base + m}"
      unfolding 1(6) add(2) block_range_def by (simp add: add.assoc Un_assoc)
    then show ?thesis
      using 1(1-5) True by (intro exI [of _ B'] exI [of _ m]) (simp add: memmap_loop.simps [of base n k i])
  qed
qed

section \<open>Properties\<close>

text \<open>
  \<open>buddy_alloc_pages\<close> takes a block of the least order that holds \<open>n\<close> pages out of the free pages
  and splits a larger block when there is none of that order; every other free page stays free.
  It returns the null pointer exactly when no list from that order on has a block.\<close>
theorem buddy_alloc_splits:
  assumes "buddy_ok N s B"
  shows "let k = order_up 0 n in n \<le> 2 ^ k \<and>
    (if \<exists>j. k \<le> j \<and> j \<le> MAX_ORDER \<and> B j \<noteq> []
     then \<exists>s' p B'. buddy_alloc_pages n s = Some (s', Some p) \<and> buddy_ok N s' B' \<and> {p..<p + 2 ^ k} \<subseteq> buddy_pages B \<and>
       buddy_pages B' = buddy_pages B - {p..<p + 2 ^ k} \<and> \<not> PageProperty (bd_pages s' p)
     else buddy_alloc_pages n s = Some (s, None))"
proof -
  let ?k = "order_up 0 n"
  have run: "buddy_alloc_pages n s = (if ?k > MAX_ORDER then Some (s, None) else buddy_alloc_loop ?k ?k s)"
    by (simp add: buddy_alloc_pages_def Let_def)
  show ?thesis
  proof (cases "\<exists>j. ?k \<le> j \<and> j \<le> MAX_ORDER \<and> B j \<noteq> []")
    case True
    then have "\<not> ?k > MAX_ORDER" by auto
    then show ?thesis using buddy_alloc_loop_ok [OF assms order.refl, of ?k, unfolded block_range_def fst_conv snd_conv]
        order_up_ok(1) [of n 0] run True by (simp only: Let_def if_True if_False simp_thms)
  next
    case False
    then show ?thesis using buddy_alloc_loop_ok [OF assms order.refl, of ?k] order_up_ok(1) [of n 0] run
      by (simp only: Let_def if_False simp_thms if_cancel)
  qed
qed

text \<open>C5.
  \<open>buddy_free_pages\<close> loses memory.  The free blocks of order \<open>k\<close>, \<open>k + 1\<close> and so on behind the
  released block, up to the first order \<open>m\<close> where there is none, leave their lists, but the
  block that is put back has order \<open>k\<close> again: the pages from its end to \<open>p + 2 ^ m\<close> were free and
  are in no list afterwards.\<close>
theorem buddy_free_loses:
  assumes ok: "buddy_ok N s B" and k: "order_up 0 n = k" "k \<le> MAX_ORDER" and top: "p + 2 ^ k \<le> N"
    and used: "{p..<p + 2 ^ k} \<inter> buddy_pages B = {}" and tags: "tags_true p k s B"
  shows "\<exists>s' m B'. buddy_free_pages p n s = Some s' \<and> buddy_ok N s' B' \<and> k \<le> m \<and>
    (\<forall>j. k \<le> j \<and> j < m \<longrightarrow> (j, p + 2 ^ j) \<in> order_blocks B) \<and> (m \<le> MAX_ORDER \<longrightarrow> (m, p + 2 ^ m) \<notin> order_blocks B) \<and>
    {p + 2 ^ k..<p + 2 ^ m} \<subseteq> buddy_pages B \<and>
    buddy_pages B' = buddy_pages B - {p + 2 ^ k..<p + 2 ^ m} \<union> {p..<p + 2 ^ k} \<and>
    buddy_nr_free_pages s' + 2 ^ m = buddy_nr_free_pages s + 2 ^ k + 2 ^ k"
proof -
  have k1: "k \<le> Suc MAX_ORDER" using k(2) by simp
  obtain s1 m B1 where 1: "merge_loop p k s = (s1, p)" "k \<le> m" "m \<le> Suc MAX_ORDER"
    "\<forall>j. k \<le> j \<and> j < m \<longrightarrow> (j, p + 2 ^ j) \<in> order_blocks B" "m \<le> MAX_ORDER \<longrightarrow> (m, p + 2 ^ m) \<notin> order_blocks B"
    "buddy_ok N s1 B1" "order_blocks B1 \<subseteq> order_blocks B" "buddy_pages B1 = buddy_pages B - {p + 2 ^ k..<p + 2 ^ m}"
    using merge_loop_ok [OF ok k1 tags] by blast
  let ?B = "B1(k := p # B1 k)"
  have dis: "disjoint_blocks (k, p) x" if "x \<in> order_blocks B1" for x
  proof -
    have "block_range x \<subseteq> buddy_pages B" using that 1(7) unfolding buddy_pages_def by blast
    moreover have "block_range (k, p) = {p..<p + 2 ^ k}" by (simp add: block_range_def)
    ultimately show ?thesis using used unfolding disjoint_ranges by blast
  qed
  have add: "buddy_ok N (add_block k p s1) ?B" "buddy_pages ?B = buddy_pages B1 \<union> block_range (k, p)"
    by (rule add_block_ok [OF 1(6) k(2) top]; use dis in blast)+
  have run: "buddy_free_pages p n s = Some (add_block k p s1)" using k 1(1) by (simp add: buddy_free_pages_def)
  have pages: "buddy_pages ?B = buddy_pages B - {p + 2 ^ k..<p + 2 ^ m} \<union> {p..<p + 2 ^ k}"
    unfolding add(2) 1(8) by (simp add: block_range_def)
  have lost: "{p + 2 ^ k..<p + 2 ^ m} \<subseteq> buddy_pages B" using 1(2,4)
  proof (induction m rule: dec_induct)
    case (step j)
    have "block_range (j, p + 2 ^ j) \<subseteq> buddy_pages B" using step.prems step.hyps by (auto simp: buddy_pages_def)
    then have "{p + 2 ^ j..<p + 2 ^ Suc j} \<subseteq> buddy_pages B" by (simp add: block_range_def mult_2 add.assoc)
    moreover have "{p + 2 ^ k..<p + 2 ^ Suc j} = {p + 2 ^ k..<p + 2 ^ j} \<union> {p + 2 ^ j..<p + 2 ^ Suc j}"
      by (rule ivl_disj_un_two(3) [symmetric]) (use step.hyps in simp_all)
    ultimately show ?case using step.IH step.prems by auto
  qed simp
  have fin: "finite (buddy_pages B)" by (rule finite_buddy_pages)
  have le: "(2 :: nat) ^ k \<le> 2 ^ m" using 1(2) by simp
  have "card (buddy_pages B) = card (buddy_pages B - {p + 2 ^ k..<p + 2 ^ m}) + (2 ^ m - 2 ^ k)"
    using card_Diff_subset [OF _ lost] card_mono [OF fin lost] by simp
  moreover have "card (buddy_pages ?B) = card (buddy_pages B - {p + 2 ^ k..<p + 2 ^ m}) + 2 ^ k"
    unfolding pages by (subst card_Un_disjoint) (use fin used in auto)
  ultimately have "buddy_nr_free_pages (add_block k p s1) + 2 ^ m = buddy_nr_free_pages s + 2 ^ k + 2 ^ k"
    using buddy_nr_free [OF ok] buddy_nr_free [OF add(1)] le by linarith
  then show ?thesis using run add(1) 1(2,4,5) lost pages by blast
qed

text \<open>
  \<open>buddy_init_memmap\<close> makes blocks of one order only and the last one may reach beyond the \<open>n\<close> pages
  that exist: the free pages are those up to the next multiple of the block size.\<close>
theorem buddy_init_overruns:
  assumes "0 < n" and "base + n + 1024 \<le> N" and "N < 2 ^ 64"
  shows "\<exists>s' B m. buddy_init_memmap base n (buddy_init s) = Some s' \<and> buddy_ok N s' B \<and>
    buddy_pages B = {base..<base + m} \<and> n \<le> m \<and> 2 ^ order_down MAX_ORDER n dvd m \<and> m < n + 2 ^ order_down MAX_ORDER n"
proof -
  let ?k = "order_down MAX_ORDER n"
  have k: "2 ^ ?k \<le> n" "?k \<le> MAX_ORDER" using order_down_ok [OF assms(1), of MAX_ORDER] by simp_all
  have "(2 :: nat) ^ ?k \<le> 2 ^ 10" using k(2) by (intro power_increasing) (simp_all add: MAX_ORDER_def)
  then have top: "base + n + 2 ^ ?k \<le> N" using assms(2) by simp
  have i: "0 < n + 2 ^ ?k" "2 ^ ?k dvd (0 :: nat)" by simp_all
  obtain B m where 1: "buddy_ok N (memmap_loop base n ?k 0 (buddy_init s)) B" "n \<le> m" "m < n + 2 ^ ?k" "2 ^ ?k dvd m"
    "buddy_pages B = buddy_pages (\<lambda>_. []) \<union> {base + 0..<base + m}"
  proof -
    have no: "snd x + 2 ^ fst x \<le> base + 0" if "x \<in> order_blocks (\<lambda>_. [])" for x using that by (simp add: order_blocks_def)
    show ?thesis using memmap_loop_ok [OF buddy_init_ok [OF assms(3)] k(2) top i, OF no] that by blast
  qed
  have "buddy_pages (\<lambda>_. []) = {}" by (simp add: buddy_pages_def order_blocks_def)
  then show ?thesis using 1 assms(1) by (auto simp: buddy_init_memmap_def)
qed

section \<open>An example\<close>

text \<open>Two of eight pages are allocated; when they are released, the other six are lost.\<close>

definition buddy_sample :: buddy_system where
  "buddy_sample = add_block 2 4 (add_block 1 2 (buddy_init
     \<lparr>bd_pages = (\<lambda>_. \<lparr>p_ref = 0, p_flags = 0, p_property = 0\<rparr>), bd_links = \<lparr>l_next = id, l_prev = id\<rparr>, bd_nr_free = (\<lambda>_. 0)\<rparr>))"

abbreviation (input) sample_blocks :: "nat \<Rightarrow> nat list" where
  "sample_blocks \<equiv> ((\<lambda>_. [])(1 := [2]))(2 := [4])"

lemma buddy_sample_ok: "buddy_ok 8 buddy_sample sample_blocks"
proof -
  let ?s = "buddy_init \<lparr>bd_pages = (\<lambda>_. \<lparr>p_ref = 0, p_flags = 0, p_property = 0\<rparr>),
    bd_links = \<lparr>l_next = id, l_prev = id\<rparr>, bd_nr_free = (\<lambda>_. 0)\<rparr>"
  have 1: "buddy_ok 8 (add_block 1 2 ?s) ((\<lambda>_. [])(1 := [2]))"
    using add_block_ok(1) [OF buddy_init_ok [of 8], of 1 2] by (simp add: MAX_ORDER_def order_blocks_def)
  have 2: "disjoint_blocks (2, 4) x" if "x \<in> order_blocks ((\<lambda>_. [])(1 := [2]))" for x
    using that by (auto simp: order_blocks_def disjoint_blocks_def split: if_splits)
  show ?thesis using add_block_ok(1) [OF 1, of 2 4] 2 by (simp add: MAX_ORDER_def buddy_sample_def)
qed

lemma sample_blocks_of: "order_blocks sample_blocks = {(1, 2), (2, 4)}"
  by (auto simp: order_blocks_def MAX_ORDER_def split: if_splits)

lemma sample_pages: "buddy_pages sample_blocks = {2..<8}"
  unfolding buddy_pages_def sample_blocks_of by (auto simp: block_range_def)

lemma sample_tags: "tags_true 0 1 buddy_sample sample_blocks"
proof -
  have pages: "bd_pages (buddy_init_loop i n s) = bd_pages s" for i n s
    by (induction n arbitrary: i s) (simp_all add: Let_def)
  have "bd_pages buddy_sample p = (if p = 2 \<or> p = 4
      then SetPageProperty \<lparr>p_ref = 0, p_flags = 0, p_property = p\<rparr> else \<lparr>p_ref = 0, p_flags = 0, p_property = 0\<rparr>)" for p
    by (simp add: buddy_sample_def add_block_def upd_bpage_def buddy_init_def pages Let_def del: buddy_init_loop.simps)
  moreover have "\<not> PageReserved (SetPageProperty \<lparr>p_ref = 0, p_flags = 0, p_property = x\<rparr>)" for x
    by (simp add: SetPageProperty_def PageReserved_def PG_property_def PG_reserved_def bit_simps)
  moreover have "p_property (SetPageProperty q) = p_property q" for q by (simp add: SetPageProperty_def)
  ultimately have "(p_property (bd_pages buddy_sample (0 + 2 ^ c)) = 2 ^ c \<and> \<not> PageReserved (bd_pages buddy_sample (0 + 2 ^ c)))
      \<longleftrightarrow> (2 :: nat) ^ c = 2 \<or> (2 :: nat) ^ c = 4" for c
    by simp
  moreover have "(2 :: nat) ^ c = 2 \<longleftrightarrow> c = 1" "(2 :: nat) ^ c = 4 \<longleftrightarrow> c = 2" for c
    using power_inject_exp [of "2 :: nat" c 1] power_inject_exp [of "2 :: nat" c 2] by auto
  ultimately show ?thesis unfolding tags_true_def sample_blocks_of by simp
qed

theorem buddy_alloc_splits_witness:
  "\<exists>s' p. buddy_alloc_pages 1 buddy_sample = Some (s', Some p)"
proof -
  have "order_up 0 1 = 0" by (simp add: order_up.simps)
  moreover have "sample_blocks 1 \<noteq> []" "(1 :: nat) \<le> MAX_ORDER" by (simp_all add: MAX_ORDER_def)
  ultimately show ?thesis using buddy_alloc_splits [OF buddy_sample_ok, of 1] unfolding Let_def
    by (metis (no_types, lifting) zero_le)
qed

theorem buddy_free_loses_witness:
  "\<exists>s'. buddy_free_pages 0 2 buddy_sample = Some s' \<and> buddy_nr_free_pages buddy_sample = 6 \<and> buddy_nr_free_pages s' = 2"
proof -
  have k: "order_up 0 2 = 1" by (simp add: order_up.simps)
  have in_range: "1 \<le> MAX_ORDER" "(0 :: nat) + 2 ^ 1 \<le> 8" by (simp_all add: MAX_ORDER_def)
  have used: "{0..<0 + 2 ^ 1} \<inter> buddy_pages sample_blocks = {}" unfolding sample_pages by auto
  obtain s' m where 1: "buddy_free_pages 0 2 buddy_sample = Some s'" "1 \<le> m"
    "\<forall>j. 1 \<le> j \<and> j < m \<longrightarrow> (j, 0 + 2 ^ j) \<in> order_blocks sample_blocks"
    "m \<le> MAX_ORDER \<longrightarrow> (m, 0 + 2 ^ m) \<notin> order_blocks sample_blocks"
    "buddy_nr_free_pages s' + 2 ^ m = buddy_nr_free_pages buddy_sample + 2 ^ 1 + 2 ^ 1"
    using buddy_free_loses [OF buddy_sample_ok k in_range used sample_tags] by blast
  have six: "buddy_nr_free_pages buddy_sample = 6" using buddy_nr_free [OF buddy_sample_ok] by (simp only: sample_pages card_atLeastLessThan)
  have "m < 4" using 1(3) [THEN spec, of 3] unfolding sample_blocks_of by auto
  then have "m = 1 \<or> m = 2 \<or> m = 3" using 1(2) by auto
  then have "m = 3" using 1(4) unfolding sample_blocks_of MAX_ORDER_def by auto
  then show ?thesis using 1(1,5) six by auto
qed

end
