(* ===== verification/Sched.thy ===== *)
theory Sched
  imports List_Ring
begin

text \<open>
  The scheduler core \<open>kern/schedule/sched.c\<close> and \<open>proc_run\<close>.  A \<open>struct proc_struct *\<close> is a
  number; the record \<open>proc\<close> has the fields scheduling works on.  The kernel state holds the
  run queue, the timer list and the wait queues, each with its own link fields.  The
  scheduling class is the record of function pointers \<open>sched_class\<close>, an argument of every
  function that calls through it; the locale \<open>sched_laws\<close> is its contract and proves, once
  for all classes, that the run queue holds exactly the runnable processes that do not run.
\<close>

section \<open>State\<close>

datatype proc_state = PROC_UNINIT | PROC_SLEEPING | PROC_RUNNABLE | PROC_ZOMBIE

record proc =
  state :: proc_state
  wait_state :: "32 word"
  need_resched :: bool
  runs :: int
  time_slice :: int
  on_rq :: bool

datatype rnode = RunList | RunLink nat
datatype tnode = TimerList | TimerLink nat
datatype wnode = WaitHead nat | WaitLink nat

record timer =
  expires :: nat
  t_proc :: "nat option"

record wait =
  w_proc :: "nat option"
  wakeup_flags :: "32 word"
  wait_queue :: nat

record kstate =
  procs :: "nat \<Rightarrow> proc"
  current :: "nat option"
  idleproc :: nat
  run_links :: "rnode links"
  proc_num :: nat
  max_time_slice :: int
  timers :: "nat \<Rightarrow> timer"
  timer_links :: "tnode links"
  waits :: "nat \<Rightarrow> wait"
  wait_links :: "wnode links"
  sem_value :: "nat \<Rightarrow> int"

definition WT_INTERRUPTED :: "32 word" where "WT_INTERRUPTED = 0x80000000"
definition WT_CHILD :: "32 word" where "WT_CHILD = 0x80000001"
definition WT_KSEM :: "32 word" where "WT_KSEM = 0x00000100"
definition WT_TIMER :: "32 word" where "WT_TIMER = 0x80000002"
definition MAX_TIME_SLICE :: int where "MAX_TIME_SLICE = 5"

definition upd_proc :: "nat \<Rightarrow> (proc \<Rightarrow> proc) \<Rightarrow> kstate \<Rightarrow> kstate" where
  "upd_proc p f s = s\<lparr>procs := (procs s)(p := f (procs s p))\<rparr>"

lemma upd_proc_simps [simp]:
  "procs (upd_proc p f s) = (procs s)(p := f (procs s p))"
  "current (upd_proc p f s) = current s" "idleproc (upd_proc p f s) = idleproc s"
  "run_links (upd_proc p f s) = run_links s" "proc_num (upd_proc p f s) = proc_num s"
  "max_time_slice (upd_proc p f s) = max_time_slice s"
  "timers (upd_proc p f s) = timers s" "timer_links (upd_proc p f s) = timer_links s"
  "waits (upd_proc p f s) = waits s" "wait_links (upd_proc p f s) = wait_links s"
  "sem_value (upd_proc p f s) = sem_value s"
  by (simp_all add: upd_proc_def)

section \<open>The scheduling class\<close>

record sched_class =
  sc_init :: "kstate \<Rightarrow> kstate"
  sc_enqueue :: "nat \<Rightarrow> kstate \<Rightarrow> kstate option"
  sc_dequeue :: "nat \<Rightarrow> kstate \<Rightarrow> kstate option"
  sc_pick_next :: "kstate \<Rightarrow> nat option"
  sc_proc_tick :: "nat \<Rightarrow> kstate \<Rightarrow> kstate"

definition sched_class_enqueue :: "sched_class \<Rightarrow> nat \<Rightarrow> kstate \<Rightarrow> kstate option" where
  "sched_class_enqueue sc p s = (if p \<noteq> idleproc s then sc_enqueue sc p s else Some s)"

definition sched_class_dequeue :: "sched_class \<Rightarrow> nat \<Rightarrow> kstate \<Rightarrow> kstate option" where
  "sched_class_dequeue sc p s = sc_dequeue sc p s"

definition sched_class_pick_next :: "sched_class \<Rightarrow> kstate \<Rightarrow> nat option" where
  "sched_class_pick_next sc s = sc_pick_next sc s"

definition sched_class_proc_tick :: "sched_class \<Rightarrow> nat \<Rightarrow> kstate \<Rightarrow> kstate" where
  "sched_class_proc_tick sc p s =
    (if p \<noteq> idleproc s then sc_proc_tick sc p s
     else upd_proc p (\<lambda>q. q\<lparr>need_resched := True\<rparr>) s)"

section \<open>The operations\<close>

definition sched_init :: "sched_class \<Rightarrow> kstate \<Rightarrow> kstate" where
  "sched_init sc s =
    (let s = s\<lparr>timer_links := list_init TimerList (timer_links s)\<rparr>;
         s = s\<lparr>max_time_slice := MAX_TIME_SLICE\<rparr>
     in sc_init sc s)"

definition wakeup_proc :: "sched_class \<Rightarrow> nat \<Rightarrow> kstate \<Rightarrow> kstate option" where
  "wakeup_proc sc p s = do {
     assert_k (state (procs s p) \<noteq> PROC_ZOMBIE);
     if state (procs s p) \<noteq> PROC_RUNNABLE then
       (let s = upd_proc p (\<lambda>q. q\<lparr>state := PROC_RUNNABLE, wait_state := 0\<rparr>) s
        in if Some p \<noteq> current s then sched_class_enqueue sc p s else Some s)
     else Some s }"

text \<open>
  \<open>proc_run\<close> of labs 6 to 8 is an exercise whose body has been left empty: it does nothing.
  Labs 4 and 5 have a body; what is left of it after the page table and the registers have been
  switched is that \<open>current\<close> is the new process.  \<open>schedule_with\<close> is \<open>schedule\<close> with the function it
  calls as an argument, \<open>schedule\<close> the function as it stands in labs 6 to 8.
\<close>

definition proc_run :: "nat \<Rightarrow> kstate \<Rightarrow> kstate" where
  "proc_run p s = s"

definition proc_run_lab5 :: "nat \<Rightarrow> kstate \<Rightarrow> kstate" where
  "proc_run_lab5 p s = (if Some p \<noteq> current s then s\<lparr>current := Some p\<rparr> else s)"

definition schedule_with :: "(nat \<Rightarrow> kstate \<Rightarrow> kstate) \<Rightarrow> sched_class \<Rightarrow> kstate \<Rightarrow> kstate option" where
  "schedule_with run sc s = do {
     c \<leftarrow> current s;
     let s = upd_proc c (\<lambda>q. q\<lparr>need_resched := False\<rparr>) s;
     s \<leftarrow> (if state (procs s c) = PROC_RUNNABLE then sched_class_enqueue sc c s else Some s);
     let picked = sched_class_pick_next sc s;
     s \<leftarrow> (case picked of None \<Rightarrow> Some s | Some p \<Rightarrow> sched_class_dequeue sc p s);
     let next = (case picked of None \<Rightarrow> idleproc s | Some p \<Rightarrow> p);
     let s = upd_proc next (\<lambda>q. q\<lparr>runs := runs q + 1\<rparr>) s;
     Some (if next \<noteq> c then run next s else s) }"

definition schedule :: "sched_class \<Rightarrow> kstate \<Rightarrow> kstate option" where
  "schedule sc s = schedule_with proc_run sc s"

definition do_yield :: "kstate \<Rightarrow> kstate option" where
  "do_yield s = do { c \<leftarrow> current s; Some (upd_proc c (\<lambda>q. q\<lparr>need_resched := True\<rparr>) s) }"

section \<open>The contract of a scheduling class\<close>

text \<open>\<open>same_rq\<close>: nothing a run queue depends on has changed.  \<open>same_rest\<close>: a class
  operation has changed nothing but the run queue and the time slices.\<close>

definition same_rq :: "kstate \<Rightarrow> kstate \<Rightarrow> bool" where
  "same_rq s s' \<longleftrightarrow> run_links s' = run_links s \<and> proc_num s' = proc_num s \<and>
     max_time_slice s' = max_time_slice s \<and>
     (\<forall>p. time_slice (procs s' p) = time_slice (procs s p) \<and> on_rq (procs s' p) = on_rq (procs s p))"

definition same_rest :: "kstate \<Rightarrow> kstate \<Rightarrow> bool" where
  "same_rest s s' \<longleftrightarrow> current s' = current s \<and> idleproc s' = idleproc s \<and>
     timers s' = timers s \<and> timer_links s' = timer_links s \<and>
     waits s' = waits s \<and> wait_links s' = wait_links s \<and> sem_value s' = sem_value s \<and>
     (\<forall>p. state (procs s' p) = state (procs s p) \<and> wait_state (procs s' p) = wait_state (procs s p) \<and>
          runs (procs s' p) = runs (procs s p))"

lemma same_rest_refl [simp]: "same_rest s s" by (simp add: same_rest_def)

lemma same_rest_trans: "same_rest s t \<Longrightarrow> same_rest t u \<Longrightarrow> same_rest s u"
  by (simp add: same_rest_def)

definition runnable_waiting :: "kstate \<Rightarrow> nat \<Rightarrow> bool" where
  "runnable_waiting s p \<longleftrightarrow>
     state (procs s p) = PROC_RUNNABLE \<and> Some p \<noteq> current s \<and> p \<noteq> idleproc s"

text \<open>The run queue holds exactly the runnable processes that do not run, except idle.\<close>

definition sched_ok :: "(kstate \<Rightarrow> nat set \<Rightarrow> bool) \<Rightarrow> kstate \<Rightarrow> bool" where
  "sched_ok rel s \<longleftrightarrow> rel s {p. runnable_waiting s p}"

locale sched_laws =
  fixes sc :: sched_class
    and rel :: "kstate \<Rightarrow> nat set \<Rightarrow> bool"
  assumes rel_same: "rel s Q \<Longrightarrow> same_rq s s' \<Longrightarrow> rel s' Q"
    and enqueue_law: "rel s Q \<Longrightarrow> p \<notin> Q \<Longrightarrow>
      \<exists>s'. sc_enqueue sc p s = Some s' \<and> rel s' (insert p Q) \<and> same_rest s s'"
    and dequeue_law: "rel s Q \<Longrightarrow> p \<in> Q \<Longrightarrow>
      \<exists>s'. sc_dequeue sc p s = Some s' \<and> rel s' (Q - {p}) \<and> same_rest s s'"
    and pick_law: "rel s Q \<Longrightarrow> case sc_pick_next sc s of None \<Rightarrow> Q = {} | Some p \<Rightarrow> p \<in> Q"
    and tick_law: "rel s Q \<Longrightarrow> p \<notin> Q \<Longrightarrow>
      rel (sc_proc_tick sc p s) Q \<and> same_rest s (sc_proc_tick sc p s)"
begin

lemma sched_ok_cong:
  assumes "sched_ok rel s" and "same_rq s s'" and "current s' = current s" and "idleproc s' = idleproc s"
    and "\<forall>p. Some p \<noteq> current s \<longrightarrow> state (procs s' p) = state (procs s p)"
  shows "sched_ok rel s'"
proof -
  have "{p. runnable_waiting s' p} = {p. runnable_waiting s p}"
    using assms(3-5) by (auto simp: runnable_waiting_def)
  then show ?thesis using assms(1,2) rel_same by (simp add: sched_ok_def)
qed

lemma enqueue_idle_guard:
  assumes "rel s Q" and "p \<notin> Q"
  shows "\<exists>s'. sched_class_enqueue sc p s = Some s' \<and> same_rest s s' \<and>
    rel s' (if p = idleproc s then Q else insert p Q)"
  using assms enqueue_law [OF assms] by (auto simp: sched_class_enqueue_def)

lemma wakeup_ok:
  assumes ok: "sched_ok rel s" and nz: "state (procs s p) \<noteq> PROC_ZOMBIE"
  obtains s' where "wakeup_proc sc p s = Some s'" "sched_ok rel s'"
    "state (procs s' p) = PROC_RUNNABLE"
    "\<forall>q. q \<noteq> p \<longrightarrow> state (procs s' q) = state (procs s q) \<and> wait_state (procs s' q) = wait_state (procs s q)"
    "current s' = current s" "idleproc s' = idleproc s" "timers s' = timers s"
    "timer_links s' = timer_links s" "waits s' = waits s" "wait_links s' = wait_links s"
    "sem_value s' = sem_value s"
    "state (procs s p) \<noteq> PROC_RUNNABLE \<Longrightarrow> wait_state (procs s' p) = 0"
    "state (procs s p) = PROC_RUNNABLE \<Longrightarrow> s' = s"
proof (cases "state (procs s p) = PROC_RUNNABLE")
  case True
  then show ?thesis using that [of s] ok by (simp add: wakeup_proc_def)
next
  case False
  let ?Q = "{p. runnable_waiting s p}"
  let ?s = "upd_proc p (\<lambda>q. q\<lparr>state := PROC_RUNNABLE, wait_state := 0\<rparr>) s"
  have r: "rel ?s ?Q" using ok rel_same [of s ?Q ?s] by (auto simp: sched_ok_def same_rq_def)
  have notin: "p \<notin> ?Q" using False by (simp add: runnable_waiting_def)
  show ?thesis
  proof (cases "Some p = current s")
    case True
    then have "{p. runnable_waiting ?s p} = ?Q" by (auto simp: runnable_waiting_def)
    then show ?thesis using that [of ?s] r True False nz
      by (simp add: wakeup_proc_def Let_def sched_ok_def)
  next
    case c: False
    obtain s' where e: "sched_class_enqueue sc p ?s = Some s'" "same_rest ?s s'"
      "rel s' (if p = idleproc ?s then ?Q else insert p ?Q)"
      using enqueue_idle_guard [OF r notin] by auto
    have "{q. runnable_waiting s' q} = (if p = idleproc ?s then ?Q else insert p ?Q)"
      using e(2) False c by (auto simp: runnable_waiting_def same_rest_def)
    then have "sched_ok rel s'" using e(3) by (simp add: sched_ok_def)
    then show ?thesis using that [of s'] e(1,2) False c nz
      by (simp add: wakeup_proc_def Let_def same_rest_def)
  qed
qed

text \<open>
  \<open>schedule\<close> up to its call of \<open>proc_run\<close>, for every \<open>proc_run\<close>: the process \<open>n\<close> that has been picked
  is in no queue, all other runnable processes are.\<close>

lemma schedule_ok:
  assumes ok: "sched_ok rel s" and c: "current s = Some c"
  obtains t n where "\<And>run. schedule_with run sc s = Some (if n \<noteq> c then run n t else t)"
    "rel t ({p. state (procs s p) = PROC_RUNNABLE \<and> p \<noteq> idleproc s} - {n})"
    "sched_ok rel (t\<lparr>current := Some n\<rparr>)" "same_rest s (t\<lparr>procs := procs s\<rparr>)"
    "n = idleproc s \<or> state (procs s n) = PROC_RUNNABLE"
    "n = idleproc s \<Longrightarrow> \<forall>p. state (procs s p) = PROC_RUNNABLE \<longrightarrow> p = idleproc s"
    "\<forall>p. state (procs t p) = state (procs s p) \<and> wait_state (procs t p) = wait_state (procs s p) \<and>
         runs (procs t p) = runs (procs s p) + (if p = n then 1 else 0)"
proof -
  let ?Q = "{p. runnable_waiting s p}"
  let ?s0 = "upd_proc c (\<lambda>q. q\<lparr>need_resched := False\<rparr>) s"
  define Q1 where "Q1 = {p. state (procs s p) = PROC_RUNNABLE \<and> p \<noteq> idleproc s}"
  have r0: "rel ?s0 ?Q" using ok rel_same [of s ?Q ?s0] by (auto simp: sched_ok_def same_rq_def)
  have notin: "c \<notin> ?Q" using c by (simp add: runnable_waiting_def)
  have Q1: "Q1 = (if state (procs s c) = PROC_RUNNABLE \<and> c \<noteq> idleproc s then insert c ?Q else ?Q)"
    using c by (auto simp: Q1_def runnable_waiting_def)
  obtain s1 where s1: "(if state (procs ?s0 c) = PROC_RUNNABLE then sched_class_enqueue sc c ?s0 else Some ?s0) = Some s1"
    "same_rest ?s0 s1" "rel s1 Q1"
    using enqueue_idle_guard [OF r0 notin] r0 unfolding Q1
    by (cases "state (procs s c) = PROC_RUNNABLE") (auto split: if_splits)
  define picked where "picked = sched_class_pick_next sc s1"
  define n where "n = (case picked of None \<Rightarrow> idleproc s1 | Some p \<Rightarrow> p)"
  have pk: "case picked of None \<Rightarrow> Q1 = {} | Some p \<Rightarrow> p \<in> Q1"
    using pick_law [OF s1(3)] by (simp add: picked_def sched_class_pick_next_def)
  obtain s2 where s2: "(case picked of None \<Rightarrow> Some s1 | Some p \<Rightarrow> sched_class_dequeue sc p s1) = Some s2"
    "same_rest s1 s2" "rel s2 (Q1 - {n})"
  proof (cases picked)
    case None
    then show ?thesis using that [of s1] s1(3) pk by simp
  next
    case (Some p)
    then show ?thesis using that dequeue_law [OF s1(3), of p] pk by (auto simp: n_def sched_class_dequeue_def)
  qed
  have rest: "same_rest ?s0 s2" by (rule same_rest_trans [OF s1(2) s2(2)])
  define t where "t = upd_proc n (\<lambda>q. q\<lparr>runs := runs q + 1\<rparr>) s2"
  have n_eq: "(case picked of None \<Rightarrow> idleproc s2 | Some p \<Rightarrow> p) = n"
    using s2(2) by (simp add: n_def same_rest_def split: option.split)
  have sch: "schedule_with run sc s = Some (if n \<noteq> c then run n t else t)" for run
    using c s1(1) s2(1) n_eq unfolding schedule_with_def Let_def picked_def t_def by simp
  have relt: "rel t (Q1 - {n})" using s2(3) rel_same [of s2 "Q1 - {n}" t] by (simp add: t_def same_rq_def)
  have st: "\<forall>p. state (procs t p) = state (procs s p) \<and> wait_state (procs t p) = wait_state (procs s p) \<and>
      runs (procs t p) = runs (procs s p) + (if p = n then 1 else 0)"
    using rest by (simp add: t_def same_rest_def)
  have "{p. runnable_waiting (t\<lparr>current := Some n\<rparr>) p} = Q1 - {n}"
    using st rest by (auto simp: runnable_waiting_def Q1_def t_def same_rest_def)
  then have ok': "sched_ok rel (t\<lparr>current := Some n\<rparr>)"
    using rel_same [OF relt, of "t\<lparr>current := Some n\<rparr>"] by (simp add: sched_ok_def same_rq_def)
  have n: "n = idleproc s \<or> state (procs s n) = PROC_RUNNABLE"
    using pk s1(2) by (auto simp: n_def Q1_def same_rest_def split: option.splits)
  have idle_only: "\<forall>p. state (procs s p) = PROC_RUNNABLE \<longrightarrow> p = idleproc s" if "n = idleproc s"
  proof -
    have "picked = None" using pk that by (cases picked) (auto simp: n_def Q1_def)
    then show ?thesis using pk by (auto simp: Q1_def)
  qed
  have rest': "same_rest s (t\<lparr>procs := procs s\<rparr>)" using rest by (simp add: t_def same_rest_def)
  show ?thesis by (rule that [OF sch relt [unfolded Q1_def] ok' rest' n idle_only st])
qed

text \<open>With the \<open>proc_run\<close> of lab 5 the process that has been picked runs.\<close>

lemma schedule_lab5_ok:
  assumes ok: "sched_ok rel s" and c: "current s = Some c"
  obtains s' n where "schedule_with proc_run_lab5 sc s = Some s'" "sched_ok rel s'" "current s' = Some n"
    "n = idleproc s \<or> state (procs s n) = PROC_RUNNABLE" "idleproc s' = idleproc s"
    "\<forall>p. state (procs s' p) = state (procs s p) \<and> wait_state (procs s' p) = wait_state (procs s p)"
    "waits s' = waits s" "wait_links s' = wait_links s" "sem_value s' = sem_value s"
proof -
  obtain t n where t: "\<And>run. schedule_with run sc s = Some (if n \<noteq> c then run n t else t)"
    "sched_ok rel (t\<lparr>current := Some n\<rparr>)" "same_rest s (t\<lparr>procs := procs s\<rparr>)"
    "n = idleproc s \<or> state (procs s n) = PROC_RUNNABLE"
    "\<forall>p. state (procs t p) = state (procs s p) \<and> wait_state (procs t p) = wait_state (procs s p) \<and>
         runs (procs t p) = runs (procs s p) + (if p = n then 1 else 0)"
    by (rule schedule_ok [OF ok c]) (rule that; assumption)
  have "current t = Some c" using t(3) c by (simp add: same_rest_def)
  then have "(if n \<noteq> c then proc_run_lab5 n t else t) = t\<lparr>current := Some n\<rparr>"
    by (cases t) (simp add: proc_run_lab5_def)
  then show ?thesis using that [of "t\<lparr>current := Some n\<rparr>" n] t by (simp add: same_rest_def)
qed

end

end
