(* ===== verification/Round_Robin.thy ===== *)
theory Round_Robin
  imports Sched
begin

text \<open>
  The round-robin class \<open>kern/schedule/default_sched_c.c\<close>.  \<open>rr_ok s xs\<close>: the run list is
  the ring of the processes \<open>xs\<close>, every other process is unlinked, and the counter and the
  time slices fit.  The class meets the contract \<open>sched_laws\<close> of the scheduler core, whose
  facts hold for it as \<open>rr.wakeup_ok\<close> and \<open>rr.schedule_ok\<close>; its run list is an instance of
  the queue contract, which gives the order in which processes run.
\<close>

section \<open>The operations\<close>

definition RR_init :: "kstate \<Rightarrow> kstate" where
  "RR_init s = s\<lparr>run_links := list_init RunList (run_links s), proc_num := 0\<rparr>"

definition RR_enqueue :: "nat \<Rightarrow> kstate \<Rightarrow> kstate option" where
  "RR_enqueue p s = do {
     assert_k (list_empty (RunLink p) (run_links s));
     let s = s\<lparr>run_links := list_add_before RunList (RunLink p) (run_links s)\<rparr>;
     let s = (if time_slice (procs s p) = 0 \<or> max_time_slice s < time_slice (procs s p)
              then upd_proc p (\<lambda>q. q\<lparr>time_slice := max_time_slice s\<rparr>) s else s);
     let s = upd_proc p (\<lambda>q. q\<lparr>on_rq := True\<rparr>) s;
     Some (s\<lparr>proc_num := u32 (proc_num s + 1)\<rparr>) }"

definition RR_dequeue :: "nat \<Rightarrow> kstate \<Rightarrow> kstate option" where
  "RR_dequeue p s = do {
     assert_k (\<not> list_empty (RunLink p) (run_links s) \<and> on_rq (procs s p));
     let s = s\<lparr>run_links := list_del_init (RunLink p) (run_links s)\<rparr>;
     Some (s\<lparr>proc_num := u32 (proc_num s + (2 ^ 32 - 1))\<rparr>) }"

definition RR_pick_next :: "kstate \<Rightarrow> nat option" where
  "RR_pick_next s =
    (case list_next RunList (run_links s) of RunList \<Rightarrow> None | RunLink p \<Rightarrow> Some p)"

definition RR_proc_tick :: "nat \<Rightarrow> kstate \<Rightarrow> kstate" where
  "RR_proc_tick p s =
    (let s = (if 0 < time_slice (procs s p)
              then upd_proc p (\<lambda>q. q\<lparr>time_slice := time_slice q - 1\<rparr>) s else s)
     in if time_slice (procs s p) = 0
        then upd_proc p (\<lambda>q. q\<lparr>need_resched := True\<rparr>) s else s)"

definition RR_class :: sched_class where
  "RR_class = \<lparr>sc_init = RR_init, sc_enqueue = RR_enqueue, sc_dequeue = RR_dequeue,
     sc_pick_next = RR_pick_next, sc_proc_tick = RR_proc_tick\<rparr>"

lemma RR_class_simps [simp]:
  "sc_init RR_class = RR_init" "sc_enqueue RR_class = RR_enqueue"
  "sc_dequeue RR_class = RR_dequeue" "sc_pick_next RR_class = RR_pick_next"
  "sc_proc_tick RR_class = RR_proc_tick"
  by (simp_all add: RR_class_def)

section \<open>The run list\<close>

definition rr_ok :: "kstate \<Rightarrow> nat list \<Rightarrow> bool" where
  "rr_ok s xs \<longleftrightarrow>
     ring (run_links s) RunList (map RunLink xs) \<and>
     (\<forall>p. p \<notin> set xs \<longrightarrow> list_empty (RunLink p) (run_links s)) \<and>
     proc_num s = u32 (length xs) \<and>
     (\<forall>p\<in>set xs. on_rq (procs s p) \<and> 0 < time_slice (procs s p) \<and>
        time_slice (procs s p) \<le> max_time_slice s) \<and>
     (\<forall>p. 0 \<le> time_slice (procs s p)) \<and> 0 < max_time_slice s"

lemma rr_ok_distinct: "rr_ok s xs \<Longrightarrow> distinct xs"
  by (auto simp: rr_ok_def distinct_map dest: ring_distinct)

lemma list_empty_add_before:
  assumes r: "ring h a xs" and x: "x \<notin> set (a # e # xs)"
  shows "list_empty x (list_add_before a e h) = list_empty x h"
proof -
  have "l_prev h a \<in> set (a # xs)" using ring_last [OF r] by (cases xs) auto
  then have "x \<notin> {e, l_prev h a, a}" using x by fastforce
  then show ?thesis
    using list_links_cong [of x e "l_prev h a" a h] by (simp add: list_empty_def list_add_before_def)
qed

lemma list_empty_del_init:
  assumes r: "ring h a (ys @ e # zs)" and x: "x \<notin> set (a # ys @ e # zs)"
  shows "list_empty x (list_del_init e h) = list_empty x h"
proof -
  have "x \<notin> {l_prev h e, l_next h e}" "x \<noteq> e" using ring_neighbours [OF r] x by fastforce+
  then show ?thesis
    using list_del_cong [of x h e] by (simp add: list_empty_def list_del_init_def list_init_def)
qed

lemma u32_Suc: "u32 (u32 n + 1) = u32 (Suc n)"
  by (simp add: u32_def mod_Suc_eq)

lemma u32_pred: "0 < n \<Longrightarrow> u32 (u32 n + (2 ^ 32 - 1)) = u32 (n - 1)"
proof -
  assume "0 < n"
  then obtain m where n: "n = Suc m" by (cases n) auto
  have "u32 (u32 n + (2 ^ 32 - 1)) = (Suc m + (2 ^ 32 - 1)) mod 2 ^ 32"
    unfolding u32_def n by (rule mod_add_left_eq)
  also have "\<dots> = (m + 2 ^ 32) mod 2 ^ 32" by simp
  finally show ?thesis by (simp add: n u32_def)
qed

lemma RR_enqueue_ok:
  assumes ok: "rr_ok s xs" and p: "p \<notin> set xs"
  shows "\<exists>s'. RR_enqueue p s = Some s' \<and> rr_ok s' (xs @ [p]) \<and> same_rest s s'"
proof -
  let ?h = "list_add_before RunList (RunLink p) (run_links s)"
  have r: "ring (run_links s) RunList (map RunLink xs)"
    and e: "\<forall>q. q \<notin> set xs \<longrightarrow> list_empty (RunLink q) (run_links s)" using ok by (auto simp: rr_ok_def)
  have r': "ring ?h RunList (map RunLink (xs @ [p]))"
    using ring_list_add_before_head [OF r, of "RunLink p"] p by auto
  have e': "\<forall>q. q \<notin> set (xs @ [p]) \<longrightarrow> list_empty (RunLink q) ?h"
  proof (intro allI impI)
    fix q assume "q \<notin> set (xs @ [p])"
    then have "RunLink q \<notin> set (RunList # RunLink p # map RunLink xs)" "q \<notin> set xs" by auto
    then show "list_empty (RunLink q) ?h" using e list_empty_add_before [OF r] by blast
  qed
  let ?t = "if time_slice (procs s p) = 0 \<or> max_time_slice s < time_slice (procs s p)
    then max_time_slice s else time_slice (procs s p)"
  let ?s = "s\<lparr>run_links := ?h, procs := (procs s)(p := (procs s p)\<lparr>time_slice := ?t, on_rq := True\<rparr>),
    proc_num := u32 (proc_num s + 1)\<rparr>"
  have "RR_enqueue p s = Some ?s"
    using e p by (simp add: RR_enqueue_def upd_proc_def Let_def)
  moreover have "rr_ok ?s (xs @ [p])"
    using ok r' e' by (auto simp: rr_ok_def u32_Suc [simplified] order.order_iff_strict)
  moreover have "same_rest s ?s" by (simp add: same_rest_def)
  ultimately show ?thesis by blast
qed

lemma RR_dequeue_ok:
  assumes ok: "rr_ok s (ys @ p # zs)"
  shows "\<exists>s'. RR_dequeue p s = Some s' \<and> rr_ok s' (ys @ zs) \<and> same_rest s s'"
proof -
  let ?h = "list_del_init (RunLink p) (run_links s)"
  have r: "ring (run_links s) RunList (map RunLink ys @ RunLink p # map RunLink zs)"
    and e: "\<forall>q. q \<notin> set (ys @ p # zs) \<longrightarrow> list_empty (RunLink q) (run_links s)"
    using ok by (auto simp: rr_ok_def)
  have e': "\<forall>q. q \<notin> set (ys @ zs) \<longrightarrow> list_empty (RunLink q) ?h"
  proof (intro allI impI)
    fix q assume q: "q \<notin> set (ys @ zs)"
    show "list_empty (RunLink q) ?h"
    proof (cases "q = p")
      case True
      then show ?thesis by (simp add: list_del_init_empty)
    next
      case False
      then have "RunLink q \<notin> set (RunList # map RunLink ys @ RunLink p # map RunLink zs)"
        using q by auto
      then have "list_empty (RunLink q) ?h = list_empty (RunLink q) (run_links s)"
        by (rule list_empty_del_init [OF r])
      then show ?thesis using e q False by simp
    qed
  qed
  have "\<not> list_empty (RunLink p) (run_links s)" using ring_member_next [OF r] by simp
  moreover have "ring ?h RunList (map RunLink (ys @ zs))" using ring_list_del_init [OF r] by simp
  moreover have "u32 (proc_num s + (2 ^ 32 - 1)) = u32 (length (ys @ zs))"
    using ok u32_pred [of "length (ys @ p # zs)"] by (simp add: rr_ok_def)
  ultimately show ?thesis
    using ok e' by (auto simp: RR_dequeue_def rr_ok_def same_rest_def)
qed

lemma RR_pick_next_eq:
  "rr_ok s xs \<Longrightarrow> RR_pick_next s = (case xs of [] \<Rightarrow> None | x # _ \<Rightarrow> Some x)"
  using ring_first [of "run_links s" RunList "map RunLink xs"]
  by (auto simp: RR_pick_next_def rr_ok_def list_next_def split: list.split)

lemma RR_proc_tick_ok:
  assumes "rr_ok s xs" and "p \<notin> set xs"
  shows "rr_ok (RR_proc_tick p s) xs \<and> same_rest s (RR_proc_tick p s)"
  using assms by (auto simp: rr_ok_def same_rest_def RR_proc_tick_def Let_def)

definition rr_rel :: "kstate \<Rightarrow> nat set \<Rightarrow> bool" where
  "rr_rel s Q \<longleftrightarrow> (\<exists>xs. rr_ok s xs \<and> Q = set xs)"

lemma rr_rel_unique: "rr_rel s Q \<Longrightarrow> rr_rel s R \<Longrightarrow> Q = R"
proof -
  have "p \<in> set xs \<longleftrightarrow> \<not> list_empty (RunLink p) (run_links s)" if ok: "rr_ok s xs" for p xs
  proof
    assume "p \<in> set xs"
    then obtain ys zs where "xs = ys @ p # zs" by (auto dest: split_list)
    then have "ring (run_links s) RunList (map RunLink ys @ RunLink p # map RunLink zs)"
      using ok by (simp add: rr_ok_def)
    then show "\<not> list_empty (RunLink p) (run_links s)" by (simp add: ring_member_next)
  qed (use ok in \<open>auto simp: rr_ok_def\<close>)
  then show "rr_rel s Q \<Longrightarrow> rr_rel s R \<Longrightarrow> Q = R" unfolding rr_rel_def by blast
qed

lemma rr_ok_same: "rr_ok s xs \<Longrightarrow> same_rq s s' \<Longrightarrow> rr_ok s' xs"
  by (simp add: rr_ok_def same_rq_def)

interpretation rr: sched_laws RR_class rr_rel
proof unfold_locales
  fix s Q s' assume "rr_rel s Q" "same_rq s s'"
  then show "rr_rel s' Q" using rr_ok_same by (auto simp: rr_rel_def)
next
  fix s Q p assume "rr_rel s Q" "p \<notin> Q"
  then obtain xs where "rr_ok s xs" "Q = set xs" "p \<notin> set xs" by (auto simp: rr_rel_def)
  moreover from this obtain s' where "RR_enqueue p s = Some s'" "rr_ok s' (xs @ [p])" "same_rest s s'"
    using RR_enqueue_ok by blast
  moreover have "insert p (set xs) = set (xs @ [p])" by simp
  ultimately show "\<exists>s'. sc_enqueue RR_class p s = Some s' \<and> rr_rel s' (insert p Q) \<and> same_rest s s'"
    unfolding rr_rel_def by auto
next
  fix s Q p assume "rr_rel s Q" "p \<in> Q"
  then obtain ys zs where ok: "rr_ok s (ys @ p # zs)" and Q: "Q = set (ys @ p # zs)"
    by (auto simp: rr_rel_def dest: split_list)
  obtain s' where "RR_dequeue p s = Some s'" "rr_ok s' (ys @ zs)" "same_rest s s'"
    using RR_dequeue_ok [OF ok] by blast
  moreover have "Q - {p} = set (ys @ zs)" using rr_ok_distinct [OF ok] Q by auto
  ultimately show "\<exists>s'. sc_dequeue RR_class p s = Some s' \<and> rr_rel s' (Q - {p}) \<and> same_rest s s'"
    unfolding rr_rel_def by auto
next
  fix s Q assume "rr_rel s Q"
  then show "case sc_pick_next RR_class s of None \<Rightarrow> Q = {} | Some p \<Rightarrow> p \<in> Q"
    by (auto simp: rr_rel_def RR_pick_next_eq split: option.splits list.splits)
next
  fix s Q p assume "rr_rel s Q" "p \<notin> Q"
  then show "rr_rel (sc_proc_tick RR_class p s) Q \<and> same_rest s (sc_proc_tick RR_class p s)"
    using RR_proc_tick_ok by (auto simp: rr_rel_def)
qed

text \<open>The run list as a queue: appending and unlinking alone.\<close>

interpretation rr_queue:
  fifo_queue rr_ok "\<lambda>p s. True" "\<lambda>p s. the (RR_enqueue p s)" "\<lambda>p s. the (RR_dequeue p s)" RR_pick_next
proof unfold_locales
  fix s xs e assume "rr_ok s xs" "e \<notin> set xs"
  then show "rr_ok (the (RR_enqueue e s)) (xs @ [e])" using RR_enqueue_ok by fastforce
next
  fix s ys e zs assume "rr_ok s (ys @ e # zs)"
  then show "rr_ok (the (RR_dequeue e s)) (ys @ zs)" using RR_dequeue_ok by fastforce
qed (simp_all add: RR_pick_next_eq)

section \<open>The order in which processes run\<close>

definition contenders :: "kstate \<Rightarrow> nat list \<Rightarrow> nat list" where
  "contenders s xs =
    (case current s of
       Some c \<Rightarrow> if state (procs s c) = PROC_RUNNABLE \<and> c \<noteq> idleproc s then xs @ [c] else xs
     | None \<Rightarrow> xs)"

text \<open>One call, up to \<open>proc_run\<close>: \<open>n\<close> is the head of the queue, or idle.\<close>

lemma rr_schedule_step:
  assumes ok: "rr_ok s xs" and c: "current s = Some c" "c \<notin> set xs"
  defines "n \<equiv> hd (contenders s xs @ [idleproc s])"
  shows "\<exists>t. (\<forall>run. schedule_with run RR_class s = Some (if n \<noteq> c then run n t else t)) \<and>
     current t = Some c \<and> rr_ok t (tl (contenders s xs)) \<and> idleproc t = idleproc s \<and>
     (\<forall>p. state (procs t p) = state (procs s p)) \<and>
     (\<forall>p. runs (procs t p) = runs (procs s p) + (if p = n then 1 else 0))"
proof -
  let ?s0 = "upd_proc c (\<lambda>q. q\<lparr>need_resched := False\<rparr>) s"
  have ok0: "rr_ok ?s0 xs" using rr_ok_same [OF ok, of ?s0] by (auto simp: same_rq_def)
  obtain s1 where s1: "(if state (procs ?s0 c) = PROC_RUNNABLE then sched_class_enqueue RR_class c ?s0 else Some ?s0) = Some s1"
    "rr_ok s1 (contenders s xs)" "same_rest ?s0 s1"
  proof (cases "state (procs s c) = PROC_RUNNABLE \<and> c \<noteq> idleproc s")
    case True
    then show ?thesis using RR_enqueue_ok [OF ok0 c(2)] c(1) that
      by (auto simp: sched_class_enqueue_def contenders_def)
  next
    case False
    then have "contenders s xs = xs" using c(1) by (simp add: contenders_def)
    then show ?thesis using False ok0 that [of ?s0]
      by (cases "state (procs s c) = PROC_RUNNABLE") (simp_all add: sched_class_enqueue_def)
  qed
  have pick: "sched_class_pick_next RR_class s1 =
      (case contenders s xs of [] \<Rightarrow> None | x # _ \<Rightarrow> Some x)"
    using RR_pick_next_eq [OF s1(2)] by (simp add: sched_class_pick_next_def)
  have "\<exists>s2. (case sched_class_pick_next RR_class s1 of None \<Rightarrow> Some s1
      | Some p \<Rightarrow> sched_class_dequeue RR_class p s1) = Some s2 \<and> rr_ok s2 (tl (contenders s xs)) \<and> same_rest s1 s2"
  proof (cases "contenders s xs")
    case Nil
    then show ?thesis using pick s1(2) by simp
  next
    case (Cons x ws)
    then show ?thesis using pick RR_dequeue_ok [of s1 "[]" x ws] s1(2) by (simp add: sched_class_dequeue_def)
  qed
  then obtain s2 where s2: "(case sched_class_pick_next RR_class s1 of None \<Rightarrow> Some s1
      | Some p \<Rightarrow> sched_class_dequeue RR_class p s1) = Some s2"
    "rr_ok s2 (tl (contenders s xs))" "same_rest s1 s2" by blast
  have rest: "same_rest ?s0 s2" by (rule same_rest_trans [OF s1(3) s2(3)])
  then have idle: "idleproc s2 = idleproc s" by (simp add: same_rest_def)
  have next': "(case sched_class_pick_next RR_class s1 of None \<Rightarrow> idleproc s2 | Some p \<Rightarrow> p) = n"
    unfolding pick idle n_def by (cases "contenders s xs") simp_all
  define t where "t = upd_proc n (\<lambda>q. q\<lparr>runs := runs q + 1\<rparr>) s2"
  have "schedule_with run RR_class s = Some (if n \<noteq> c then run n t else t)" for run
    using c(1) s1(1) s2(1) next' unfolding schedule_with_def Let_def t_def by simp
  moreover have "same_rq s2 t" by (auto simp: t_def same_rq_def)
  then have "rr_ok t (tl (contenders s xs))" by (rule rr_ok_same [OF s2(2)])
  moreover have "current t = Some c \<and> idleproc t = idleproc s \<and> (\<forall>p. state (procs t p) = state (procs s p)) \<and>
      (\<forall>p. runs (procs t p) = runs (procs s p) + (if p = n then 1 else 0))"
    using rest c(1) by (simp add: t_def same_rest_def)
  ultimately show ?thesis by blast
qed

fun schedules :: "(nat \<Rightarrow> kstate \<Rightarrow> kstate) \<Rightarrow> nat \<Rightarrow> kstate \<Rightarrow> kstate option" where
  "schedules run 0 s = Some s"
| "schedules run (Suc k) s = do { s \<leftarrow> schedule_with run RR_class s; schedules run k s }"

lemma contenders_Cons:
  "contenders s (x # ys) = x # contenders s ys"
  by (simp add: contenders_def split: option.split)

text \<open>With the \<open>proc_run\<close> of lab 5.\<close>

lemma schedules_queue:
  assumes "rr_ok s xs" and "current s = Some c" "c \<notin> set xs" and "idleproc s \<notin> set xs"
    and "i < length xs"
  shows "\<exists>s'. schedules proc_run_lab5 (Suc i) s = Some s' \<and> current s' = Some (xs ! i)"
  using assms
proof (induction i arbitrary: s xs c)
  case (0 s xs c)
  then obtain x ys where xs: "xs = x # ys" by (cases xs) auto
  then have "x \<noteq> c" using 0(3) by auto
  then show ?case using rr_schedule_step [OF 0(1,2,3)] xs by (auto simp: contenders_Cons proc_run_lab5_def)
next
  case (Suc i s xs c)
  then obtain x ys where xs: "xs = x # ys" by (cases xs) auto
  have xc: "x \<noteq> c" using Suc.prems(3) xs by auto
  have con: "contenders s xs = x # ys @ (if state (procs s c) = PROC_RUNNABLE \<and> c \<noteq> idleproc s then [c] else [])"
    using Suc.prems xs by (simp add: contenders_def)
  obtain t where t: "\<forall>run. schedule_with run RR_class s = Some (run x t)" "current t = Some c"
    "rr_ok t (tl (contenders s xs))" "idleproc t = idleproc s"
    using rr_schedule_step [OF Suc.prems(1-3)] con xc by auto
  let ?s1 = "t\<lparr>current := Some x\<rparr>"
  have s1: "schedule_with proc_run_lab5 RR_class s = Some ?s1" using t(1,2) xc by (simp add: proc_run_lab5_def)
  have ok1: "rr_ok ?s1 (tl (contenders s xs))" by (rule rr_ok_same [OF t(3)]) (simp add: same_rq_def)
  have "x \<notin> set (tl (contenders s xs))" "idleproc ?s1 \<notin> set (tl (contenders s xs))"
    using Suc.prems(3,4) rr_ok_distinct [OF Suc.prems(1)] xs con t(4) by auto
  moreover have "i < length ys" using Suc.prems(5) xs by simp
  moreover from this have "i < length (tl (contenders s xs))" "tl (contenders s xs) ! i = xs ! Suc i"
    using con xs by (auto simp: nth_append)
  ultimately show ?case using Suc.IH [OF ok1, of x] s1 by auto
qed

text \<open>With the empty \<open>proc_run\<close> of labs 6 to 8 the caller stays \<open>current\<close>.\<close>

lemma schedules_empty_idle:
  assumes "rr_ok s xs" and "current s = Some c" "c \<notin> set xs"
    and "state (procs s c) \<noteq> PROC_RUNNABLE \<or> c = idleproc s" and "i < length xs"
  shows "\<exists>s'. schedules proc_run (Suc i) s = Some s' \<and> current s' = Some c \<and> rr_ok s' (drop (Suc i) xs) \<and>
    runs (procs s' (xs ! i)) = runs (procs s (xs ! i)) + 1"
  using assms
proof (induction i arbitrary: s xs)
  case (0 s xs)
  then obtain x ys where xs: "xs = x # ys" by (cases xs) auto
  have con: "contenders s xs = xs" using 0(2,4) by (auto simp: contenders_def)
  then show ?case using rr_schedule_step [OF 0(1,2,3)] xs by (auto simp: proc_run_def)
next
  case (Suc i s xs)
  then obtain x ys where xs: "xs = x # ys" by (cases xs) auto
  have con: "contenders s xs = xs" using Suc.prems(2,4) by (auto simp: contenders_def)
  have xc: "x \<noteq> c" using Suc.prems(3) xs by auto
  obtain t where t: "schedule_with proc_run RR_class s = Some t" "current t = Some c" "rr_ok t ys"
    "idleproc t = idleproc s" "\<forall>p. state (procs t p) = state (procs s p)"
    "\<forall>p. runs (procs t p) = runs (procs s p) + (if p = x then 1 else 0)"
    using rr_schedule_step [OF Suc.prems(1-3)] con unfolding xs by (auto simp: proc_run_def)
  have i: "i < length ys" using Suc.prems(5) xs by simp
  have "ys ! i \<noteq> x" using rr_ok_distinct [OF Suc.prems(1)] xs i by (metis distinct.simps(2) nth_mem)
  then show ?case using Suc.IH [OF t(3,2) _ _ i] Suc.prems(3,4) t xs by auto
qed

lemma schedules_empty_panics:
  assumes ok: "rr_ok s xs" and c: "current s = Some c" "c \<notin> set xs"
    and run: "state (procs s c) = PROC_RUNNABLE" "c \<noteq> idleproc s" and ne: "xs \<noteq> []"
  shows "schedules proc_run 2 s = None"
proof -
  obtain x ys where xs: "xs = x # ys" using ne by (cases xs) auto
  have con: "contenders s xs = x # ys @ [c]" using c run xs by (simp add: contenders_def)
  obtain t where t: "schedule_with proc_run RR_class s = Some t" "current t = Some c" "rr_ok t (ys @ [c])"
    "idleproc t = idleproc s" "\<forall>p. state (procs t p) = state (procs s p)"
    using rr_schedule_step [OF ok c] by (auto simp: con proc_run_def)
  obtain zs where "run_links t = run_links t" "ring (run_links t) RunList (map RunLink ys @ RunLink c # zs)"
    using t(3) by (auto simp: rr_ok_def)
  then have "\<not> list_empty (RunLink c) (run_links t)" using ring_member_next by fastforce
  then have "schedule_with proc_run RR_class t = None"
    using t(2,4,5) run by (simp add: schedule_with_def sched_class_enqueue_def RR_enqueue_def)
  then show ?thesis using t(1) by (simp add: numeral_2_eq_2)
qed

section \<open>Properties\<close>

text \<open>C6. \<open>schedule\<close> when the run queue holds exactly the runnable processes that do not run (idle
  excepted).  It returns; it has picked a runnable process \<open>n\<close>, or the idle process, this only when
  nothing else is runnable, and counted the run, and the queue holds every other runnable process.
  Hence with the \<open>proc_run\<close> of labs 4 and 5, which makes \<open>n\<close> the current process, the invariant
  holds again; as \<open>schedule\<close> stands in labs 6 to 8, with an empty \<open>proc_run\<close>, the caller remains
  current, and a process picked in its place is neither running nor queued.\<close>

theorem schedule_keeps_run_queue:
  assumes "sched_ok rr_rel s" and "current s = Some c"
  shows "\<exists>t n. schedule RR_class s = Some t \<and> current t = Some c \<and>
    schedule_with proc_run_lab5 RR_class s = Some (t\<lparr>current := Some n\<rparr>) \<and>
    sched_ok rr_rel (t\<lparr>current := Some n\<rparr>) \<and> (sched_ok rr_rel t \<longleftrightarrow> n = c \<or> n = idleproc s) \<and>
    rr_rel t ({p. state (procs s p) = PROC_RUNNABLE \<and> p \<noteq> idleproc s} - {n}) \<and>
    (n = idleproc s \<or> state (procs s n) = PROC_RUNNABLE) \<and>
    (n = idleproc s \<longrightarrow> (\<forall>p. state (procs s p) = PROC_RUNNABLE \<longrightarrow> p = idleproc s)) \<and>
    runs (procs t n) = runs (procs s n) + 1"
proof -
  obtain t n where t: "\<And>run. schedule_with run RR_class s = Some (if n \<noteq> c then run n t else t)"
    "rr_rel t ({p. state (procs s p) = PROC_RUNNABLE \<and> p \<noteq> idleproc s} - {n})"
    "sched_ok rr_rel (t\<lparr>current := Some n\<rparr>)" "same_rest s (t\<lparr>procs := procs s\<rparr>)"
    "n = idleproc s \<or> state (procs s n) = PROC_RUNNABLE"
    "n = idleproc s \<Longrightarrow> \<forall>p. state (procs s p) = PROC_RUNNABLE \<longrightarrow> p = idleproc s"
    "\<forall>p. state (procs t p) = state (procs s p) \<and> wait_state (procs t p) = wait_state (procs s p) \<and>
         runs (procs t p) = runs (procs s p) + (if p = n then 1 else 0)"
    by (rule rr.schedule_ok [OF assms]) (rule that; assumption)
  have cur: "current t = Some c" "idleproc t = idleproc s" using t(4) assms(2) by (simp_all add: same_rest_def)
  have five: "schedule_with proc_run_lab5 RR_class s = Some (t\<lparr>current := Some n\<rparr>)"
    using t(1) [of proc_run_lab5] cur by (cases t) (simp add: proc_run_lab5_def)
  have "sched_ok rr_rel t \<longleftrightarrow> {p. runnable_waiting t p} = {p. state (procs s p) = PROC_RUNNABLE \<and> p \<noteq> idleproc s} - {n}"
    using t(2) rr_rel_unique by (auto simp: sched_ok_def)
  also have "\<dots> \<longleftrightarrow> n = c \<or> n = idleproc s"
    using cur t(5-7) by (auto simp: runnable_waiting_def)
  finally show ?thesis using t cur five by (intro exI [of _ t] exI [of _ n]) (simp add: schedule_def proc_run_def)
qed

text \<open>\<open>wakeup_proc\<close> on a process that is not a zombie returns with the process runnable
  and queued (unless it runs or is idle): the run-queue invariant is kept, and a process
  that was already runnable is not queued twice.\<close>

theorem wakeup_keeps_run_queue:
  assumes "sched_ok rr_rel s" and "state (procs s p) \<noteq> PROC_ZOMBIE"
  shows "\<exists>s'. wakeup_proc RR_class p s = Some s' \<and> sched_ok rr_rel s' \<and>
    state (procs s' p) = PROC_RUNNABLE \<and>
    (state (procs s p) = PROC_RUNNABLE \<longrightarrow> s' = s) \<and>
    (\<forall>q. q \<noteq> p \<longrightarrow> state (procs s' q) = state (procs s q))"
  by (rule rr.wakeup_ok [OF assms]) blast


subsection \<open>The properties at work\<close>

text \<open>Process 0 is idle and runs; 1 and 2 are runnable and queued, 3 sleeps.\<close>

definition sample_proc :: "proc_state \<Rightarrow> bool \<Rightarrow> proc" where
  "sample_proc st q = \<lparr>state = st, wait_state = 0, need_resched = False, runs = 0,
     time_slice = (if q then 5 else 0), on_rq = q\<rparr>"

definition rr_sample :: kstate where
  "rr_sample = \<lparr>procs = (\<lambda>_. sample_proc PROC_SLEEPING False)
       (0 := sample_proc PROC_RUNNABLE False, 1 := sample_proc PROC_RUNNABLE True,
        2 := sample_proc PROC_RUNNABLE True),
     current = Some 0, idleproc = 0,
     run_links = list_add_before RunList (RunLink 2)
       (list_add_before RunList (RunLink 1) (list_init RunList \<lparr>l_next = id, l_prev = id\<rparr>)),
     proc_num = 2, max_time_slice = 5,
     timers = (\<lambda>_. \<lparr>expires = 0, t_proc = None\<rparr>),
     timer_links = \<lparr>l_next = id, l_prev = id\<rparr>,
     waits = (\<lambda>_. \<lparr>w_proc = None, wakeup_flags = 0, wait_queue = 0\<rparr>),
     wait_links = \<lparr>l_next = id, l_prev = id\<rparr>,
     sem_value = (\<lambda>_. 0)\<rparr>"

lemma sample_proc_simps [simp]:
  "state (sample_proc st q) = st" "on_rq (sample_proc st q) = q"
  "wait_state (sample_proc st q) = 0" "runs (sample_proc st q) = 0"
  "time_slice (sample_proc st q) = (if q then 5 else 0)"
  by (simp_all add: sample_proc_def)

lemma rr_sample_simps [simp]:
  "current rr_sample = Some 0" "idleproc rr_sample = 0"
  "procs rr_sample = (\<lambda>_. sample_proc PROC_SLEEPING False)
       (0 := sample_proc PROC_RUNNABLE False, 1 := sample_proc PROC_RUNNABLE True,
        2 := sample_proc PROC_RUNNABLE True)"
  "timers rr_sample = (\<lambda>_. \<lparr>expires = 0, t_proc = None\<rparr>)"
  "timer_links rr_sample = \<lparr>l_next = id, l_prev = id\<rparr>"
  "waits rr_sample = (\<lambda>_. \<lparr>w_proc = None, wakeup_flags = 0, wait_queue = 0\<rparr>)"
  "wait_links rr_sample = \<lparr>l_next = id, l_prev = id\<rparr>"
  by (simp_all add: rr_sample_def)

lemma rr_sample_ok: "rr_ok rr_sample [1, 2]"
  by (auto simp: rr_ok_def rr_sample_def ring_def next_ring_def list_ops u32_def)

lemma rr_sample_sched: "sched_ok rr_rel rr_sample"
proof -
  have "{p. runnable_waiting rr_sample p} = set [1, 2]"
    by (auto simp: runnable_waiting_def split: if_splits)
  then show ?thesis using rr_sample_ok unfolding sched_ok_def rr_rel_def by metis
qed

lemma schedule_keeps_run_queue_witness:
  "\<exists>t n. schedule RR_class rr_sample = Some t \<and> sched_ok rr_rel (t\<lparr>current := Some n\<rparr>) \<and> n \<noteq> 0 \<and> \<not> sched_ok rr_rel t"
proof -
  obtain t n where t: "schedule RR_class rr_sample = Some t" "sched_ok rr_rel (t\<lparr>current := Some n\<rparr>)"
    "sched_ok rr_rel t \<longleftrightarrow> n = 0 \<or> n = idleproc rr_sample"
    "n = idleproc rr_sample \<longrightarrow> (\<forall>p. state (procs rr_sample p) = PROC_RUNNABLE \<longrightarrow> p = idleproc rr_sample)"
    using schedule_keeps_run_queue [OF rr_sample_sched rr_sample_simps(1)] by blast
  have "n \<noteq> 0"
  proof
    assume "n = 0"
    then have "n = idleproc rr_sample" by simp
    from spec [OF mp [OF t(4) this], of 1] show False by simp
  qed
  moreover from this have "\<not> sched_ok rr_rel t" unfolding t(3) by simp
  ultimately show ?thesis using t(1,2) by blast
qed

lemma wakeup_keeps_run_queue_witness:
  "\<exists>s'. wakeup_proc RR_class 3 rr_sample = Some s' \<and> sched_ok rr_rel s' \<and>
     state (procs s' 3) = PROC_RUNNABLE"
  using wakeup_keeps_run_queue [OF rr_sample_sched, of 3] by auto


end
