(* ===== verification/Timers.thy ===== *)
theory Timers
  imports Round_Robin
begin

text \<open>
  The timer list of \<open>kern/schedule/sched.c\<close>.  Every timer stores the ticks that are left
  after its predecessor has expired; \<open>dues\<close> turns these differences back into the ticks
  left for each timer.  The lemmas show \<open>add_timer\<close>, \<open>del_timer\<close> and \<open>run_timer_list\<close> as
  insertion, deletion and a tick on that abstract list.
\<close>

section \<open>The operations\<close>

definition upd_timer :: "nat \<Rightarrow> (nat \<Rightarrow> nat) \<Rightarrow> kstate \<Rightarrow> kstate" where
  "upd_timer t f s =
    s\<lparr>timers := (timers s)(t := (timers s t)\<lparr>expires := f (expires (timers s t))\<rparr>)\<rparr>"

definition timer_init :: "nat \<Rightarrow> nat option \<Rightarrow> nat \<Rightarrow> kstate \<Rightarrow> kstate" where
  "timer_init t p e s =
    s\<lparr>timers := (timers s)(t := \<lparr>expires = u32 e, t_proc = p\<rparr>),
      timer_links := list_init (TimerLink t) (timer_links s)\<rparr>"

partial_function (option) add_timer_loop ::
    "nat \<Rightarrow> tnode \<Rightarrow> kstate \<Rightarrow> (tnode \<times> kstate) option" where
  "add_timer_loop t le s =
    (case le of
       TimerList \<Rightarrow> Some (le, s)
     | TimerLink n \<Rightarrow>
         if expires (timers s t) < expires (timers s n)
         then Some (le, upd_timer n (\<lambda>e. e - expires (timers s t)) s)
         else add_timer_loop t (list_next le (timer_links s))
                (upd_timer t (\<lambda>e. e - expires (timers s n)) s))"

definition add_timer :: "nat \<Rightarrow> kstate \<Rightarrow> kstate option" where
  "add_timer t s = do {
     assert_k (0 < expires (timers s t) \<and> t_proc (timers s t) \<noteq> None);
     assert_k (list_empty (TimerLink t) (timer_links s));
     (le, s) \<leftarrow> add_timer_loop t (list_next TimerList (timer_links s)) s;
     Some (s\<lparr>timer_links := list_add_before le (TimerLink t) (timer_links s)\<rparr>) }"

definition del_timer :: "nat \<Rightarrow> kstate \<Rightarrow> kstate" where
  "del_timer t s =
    (if \<not> list_empty (TimerLink t) (timer_links s)
     then (let s = (if expires (timers s t) \<noteq> 0
                    then (case list_next (TimerLink t) (timer_links s) of
                            TimerList \<Rightarrow> s
                          | TimerLink n \<Rightarrow> upd_timer n (\<lambda>e. u32 (e + expires (timers s t))) s)
                    else s)
           in s\<lparr>timer_links := list_del_init (TimerLink t) (timer_links s)\<rparr>)
     else s)"

partial_function (option) run_timer_loop ::
    "sched_class \<Rightarrow> nat \<Rightarrow> tnode \<Rightarrow> kstate \<Rightarrow> kstate option" where
  "run_timer_loop sc t le s =
    (if expires (timers s t) \<noteq> 0 then Some s
     else let le = list_next le (timer_links s) in do {
       p \<leftarrow> t_proc (timers s t);
       assert_k (wait_state (procs s p) \<noteq> 0 \<longrightarrow> and (wait_state (procs s p)) WT_INTERRUPTED \<noteq> 0);
       s \<leftarrow> wakeup_proc sc p s;
       (let s = del_timer t s
        in case le of TimerList \<Rightarrow> Some s | TimerLink n \<Rightarrow> run_timer_loop sc n le s) })"

definition run_timer_list :: "sched_class \<Rightarrow> kstate \<Rightarrow> kstate option" where
  "run_timer_list sc s = do {
     s \<leftarrow> (case list_next TimerList (timer_links s) of
            TimerList \<Rightarrow> Some s
          | TimerLink t \<Rightarrow> do {
              assert_k (expires (timers s t) \<noteq> 0);
              run_timer_loop sc t (TimerLink t) (upd_timer t (\<lambda>e. e - 1) s) });
     Some (case current s of None \<Rightarrow> s | Some c \<Rightarrow> sched_class_proc_tick sc c s) }"

text \<open>\<open>do_sleep\<close> up to the call of \<open>schedule\<close>, and after it.\<close>

definition do_sleep_enter :: "nat \<Rightarrow> nat \<Rightarrow> kstate \<Rightarrow> kstate option" where
  "do_sleep_enter t time s =
    (if time = 0 then Some s
     else do {
       c \<leftarrow> current s;
       let s = timer_init t (Some c) time s;
       let s = upd_proc c (\<lambda>q. q\<lparr>state := PROC_SLEEPING, wait_state := WT_TIMER\<rparr>) s;
       add_timer t s })"

definition do_sleep_resume :: "nat \<Rightarrow> nat \<Rightarrow> kstate \<Rightarrow> kstate" where
  "do_sleep_resume t time s = (if time = 0 then s else del_timer t s)"

section \<open>The abstract timer list\<close>

fun dues :: "(nat \<Rightarrow> nat) \<Rightarrow> nat \<Rightarrow> nat list \<Rightarrow> (nat \<times> nat) list" where
  "dues ex a [] = []"
| "dues ex a (t # ts) = (t, a + ex t) # dues ex (a + ex t) ts"

lemma dues_append: "dues ex a (xs @ ys) = dues ex a xs @ dues ex (a + sum_list (map ex xs)) ys"
  by (induction xs arbitrary: a) (auto simp: add.assoc)

lemma dues_cong: "\<forall>t\<in>set ts. ex' t = ex t \<Longrightarrow> dues ex' a ts = dues ex a ts"
  by (induction ts arbitrary: a) auto

lemma dues_le_sum: "(t, d) \<in> set (dues ex a ts) \<Longrightarrow> d \<le> a + sum_list (map ex ts)"
  by (induction ts arbitrary: a) (auto, fastforce)

lemma dues_ge: "(t, d) \<in> set (dues ex a ts) \<Longrightarrow> a \<le> d"
  by (induction ts arbitrary: a) (auto, fastforce)

lemma dues_fst [simp]: "map fst (dues ex a ts) = ts"
  by (induction ts arbitrary: a) auto

lemma dues_member: "(t, d) \<in> set (dues ex a ts) \<Longrightarrow> t \<in> set ts"
  by (metis dues_fst fst_conv image_eqI list.set_map)

definition expiry :: "kstate \<Rightarrow> nat \<Rightarrow> nat" where
  "expiry s t = expires (timers s t)"

definition timer_dues :: "kstate \<Rightarrow> nat list \<Rightarrow> (nat \<times> nat) list" where
  "timer_dues s ts = dues (expiry s) 0 ts"

definition timer_ring :: "kstate \<Rightarrow> nat list \<Rightarrow> bool" where
  "timer_ring s ts \<longleftrightarrow>
     ring (timer_links s) TimerList (map TimerLink ts) \<and>
     (\<forall>t. t \<notin> set ts \<longrightarrow> list_empty (TimerLink t) (timer_links s)) \<and>
     (\<forall>t\<in>set ts. t_proc (timers s t) \<noteq> None) \<and>
     sum_list (map (expiry s) ts) < 2 ^ 32"

definition timer_ok :: "kstate \<Rightarrow> nat list \<Rightarrow> bool" where
  "timer_ok s ts \<longleftrightarrow> timer_ring s ts \<and> (ts \<noteq> [] \<longrightarrow> 0 < expiry s (hd ts))"

lemma upd_timer_simps [simp]:
  "procs (upd_timer t f s) = procs s" "current (upd_timer t f s) = current s"
  "timer_links (upd_timer t f s) = timer_links s"
  "expiry (upd_timer t f s) = (expiry s)(t := f (expiry s t))"
  "t_proc (timers (upd_timer t f s) u) = t_proc (timers s u)"
  "expires (timers (upd_timer t f s) u) = (if u = t then f (expires (timers s t)) else expires (timers s u))"
  by (auto simp: upd_timer_def expiry_def fun_eq_iff)

lemma expiry_links [simp]: "expiry (s\<lparr>timer_links := h\<rparr>) = expiry s"
  by (simp add: expiry_def fun_eq_iff)

lemma timer_ring_distinct: "timer_ring s ts \<Longrightarrow> distinct ts"
  by (auto simp: timer_ring_def distinct_map dest: ring_distinct)

lemma timer_ring_next:
  assumes "timer_ring s (us @ t # vs)"
  shows "list_next (TimerLink t) (timer_links s) = hd (map TimerLink vs @ [TimerList])"
  using assms ring_step(1) [of "timer_links s" TimerList "map TimerLink us" "TimerLink t" "map TimerLink vs"]
  by (simp add: timer_ring_def list_next_def)

lemma timer_ring_first:
  "timer_ring s ts \<Longrightarrow> list_next TimerList (timer_links s) = hd (map TimerLink ts @ [TimerList])"
  by (auto simp: timer_ring_def list_next_def dest: ring_first)

section \<open>Adding a timer\<close>

lemma add_timer_loop_ok:
  assumes "timer_ring s0 (us @ vs)" and "timer_links s = timer_links s0" and "t \<notin> set vs"
  shows "\<exists>ws vs' s'. vs = ws @ vs' \<and>
    add_timer_loop t (hd (map TimerLink vs @ [TimerList])) s =
      Some (hd (map TimerLink vs' @ [TimerList]), s') \<and>
    sum_list (map (expiry s) ws) \<le> expiry s t \<and>
    (let rest = expiry s t - sum_list (map (expiry s) ws) in
      (vs' \<noteq> [] \<longrightarrow> rest < expiry s (hd vs')) \<and>
      expiry s' = (\<lambda>u. if u = t then rest
        else if vs' \<noteq> [] \<and> u = hd vs' then expiry s u - rest else expiry s u)) \<and>
    (\<exists>f. s' = s\<lparr>timers := f\<rparr> \<and> (\<forall>u. t_proc (f u) = t_proc (timers s u)))"
  using assms
proof (induction vs arbitrary: us s)
  case Nil
  then show ?case
    by (subst add_timer_loop.simps)
      (auto simp: fun_eq_iff Let_def intro!: exI [of _ "timers s"])
next
  case (Cons v vs)
  show ?case
  proof (cases "expiry s t < expiry s v")
    case True
    then have "add_timer_loop t (TimerLink v) s = Some (TimerLink v, upd_timer v (\<lambda>e. e - expires (timers s t)) s)"
      by (subst add_timer_loop.simps) (simp add: expiry_def)
    then show ?thesis using True Cons.prems(3)
      by (intro exI [of _ "[]"] exI [of _ "v # vs"])
        (auto simp: Let_def fun_eq_iff expiry_def upd_timer_def)
  next
    case False
    let ?s1 = "upd_timer t (\<lambda>e. e - expires (timers s v)) s"
    have step: "add_timer_loop t (TimerLink v) s = add_timer_loop t (list_next (TimerLink v) (timer_links s)) ?s1"
      using False by (subst add_timer_loop.simps) (simp add: expiry_def)
    have nx: "list_next (TimerLink v) (timer_links s) = hd (map TimerLink vs @ [TimerList])"
      using timer_ring_next [of s0 us v vs] Cons.prems(1,2) by simp
    have p1: "timer_ring s0 ((us @ [v]) @ vs)" and p2: "timer_links ?s1 = timer_links s0"
      and p3: "t \<notin> set vs" using Cons.prems by simp_all
    obtain ws vs' s' where IH: "vs = ws @ vs'"
      "add_timer_loop t (hd (map TimerLink vs @ [TimerList])) ?s1 = Some (hd (map TimerLink vs' @ [TimerList]), s')"
      "sum_list (map (expiry ?s1) ws) \<le> expiry ?s1 t"
      "let rest = expiry ?s1 t - sum_list (map (expiry ?s1) ws) in
        (vs' \<noteq> [] \<longrightarrow> rest < expiry ?s1 (hd vs')) \<and>
        expiry s' = (\<lambda>u. if u = t then rest
          else if vs' \<noteq> [] \<and> u = hd vs' then expiry ?s1 u - rest else expiry ?s1 u)"
      "\<exists>f. s' = ?s1\<lparr>timers := f\<rparr> \<and> (\<forall>u. t_proc (f u) = t_proc (timers ?s1 u))"
      using Cons.IH [OF p1 p2 p3] by blast
    have tn: "t \<notin> set ws" "t \<noteq> v" "vs' \<noteq> [] \<longrightarrow> hd vs' \<noteq> t"
      using Cons.prems(3) IH(1) by (auto simp: hd_in_set)
    have m: "map (expiry ?s1) ws = map (expiry s) ws" using tn(1) by simp
    have et: "expiry ?s1 t = expiry s t - expiry s v" by (simp add: expiry_def)
    obtain f where "s' = ?s1\<lparr>timers := f\<rparr>" "\<forall>u. t_proc (f u) = t_proc (timers s u)"
      using IH(5) by auto
    then have f: "s' = s\<lparr>timers := f\<rparr>" by (simp add: upd_timer_def)
    have "add_timer_loop t (hd (map TimerLink (v # vs) @ [TimerList])) s =
        Some (hd (map TimerLink vs' @ [TimerList]), s')"
      using step nx IH(2) by simp
    moreover have "sum_list (map (expiry s) (v # ws)) \<le> expiry s t"
      using IH(3) False unfolding m et by simp
    moreover have "let rest = expiry s t - sum_list (map (expiry s) (v # ws)) in
        (vs' \<noteq> [] \<longrightarrow> rest < expiry s (hd vs')) \<and>
        expiry s' = (\<lambda>u. if u = t then rest
          else if vs' \<noteq> [] \<and> u = hd vs' then expiry s u - rest else expiry s u)"
      using IH(4) tn unfolding m et by (auto simp: Let_def fun_eq_iff)
    moreover have "v # vs = (v # ws) @ vs'" using IH(1) by simp
    ultimately show ?thesis using f \<open>\<forall>u. t_proc (f u) = t_proc (timers s u)\<close> by blast
  qed
qed

lemma ring_insert_before:
  assumes "ring h a (us @ vs)" and "e \<notin> set (a # us @ vs)"
  shows "ring (list_add_before (hd (vs @ [a])) e h) a (us @ e # vs)"
proof (cases vs)
  case Nil
  then show ?thesis using ring_list_add_before_head [of h a us e] assms by simp
next
  case (Cons v ws)
  then show ?thesis using ring_list_add_before_entry [of h a us v ws e] assms by simp
qed

lemma list_empty_insert_before:
  assumes "ring h a (us @ vs)" and "x \<notin> set (a # e # us @ vs)"
  shows "list_empty x (list_add_before (hd (vs @ [a])) e h) = list_empty x h"
proof -
  have "l_prev h (hd (vs @ [a])) \<in> set (a # us)"
  proof (cases vs)
    case Nil
    then show ?thesis using ring_last [OF assms(1)] by (cases us) auto
  next
    case (Cons v ws)
    then show ?thesis using ring_neighbours(1) [of h a us v ws] assms(1) by simp
  qed
  moreover have "hd (vs @ [a]) \<in> set (a # vs)" by (cases vs) auto
  ultimately have "x \<notin> {e, l_prev h (hd (vs @ [a])), hd (vs @ [a])}" using assms(2) by fastforce
  then show ?thesis
    using list_links_cong [of x e "l_prev h (hd (vs @ [a]))" "hd (vs @ [a])" h]
    by (simp add: list_empty_def list_add_before_def)
qed

lemma takeWhile_dropWhile_split:
  assumes "\<forall>x\<in>set xs. P x" and "ys \<noteq> [] \<Longrightarrow> \<not> P (hd ys)"
  shows "takeWhile P (xs @ ys) = xs" and "dropWhile P (xs @ ys) = ys"
  using assms by (cases ys; simp add: takeWhile_append2 dropWhile_append2)+

lemma add_timer_dues:
  assumes ok: "timer_ok s ts" and t: "t \<notin> set ts" and e: "0 < expiry s t" "t_proc (timers s t) \<noteq> None"
    and bound: "expiry s t + sum_list (map (expiry s) ts) < 2 ^ 32"
  obtains s' ts' f h where "add_timer t s = Some s'" "timer_ok s' ts'" "set ts' = insert t (set ts)"
    "timer_dues s' ts' = takeWhile (\<lambda>(_, d). d \<le> expiry s t) (timer_dues s ts) @
       (t, expiry s t) # dropWhile (\<lambda>(_, d). d \<le> expiry s t) (timer_dues s ts)"
    "s' = s\<lparr>timers := f, timer_links := h\<rparr>" "\<forall>u. t_proc (f u) = t_proc (timers s u)"
proof -
  have tr: "timer_ring s ts" and pos: "ts \<noteq> [] \<longrightarrow> 0 < expiry s (hd ts)"
    using ok by (auto simp: timer_ok_def)
  have un: "list_empty (TimerLink t) (timer_links s)" using tr t by (simp add: timer_ring_def)
  have tr': "timer_ring s ([] @ ts)" using tr by simp
  obtain ws vs s1 where L: "ts = ws @ vs"
    "add_timer_loop t (hd (map TimerLink ts @ [TimerList])) s = Some (hd (map TimerLink vs @ [TimerList]), s1)"
    "sum_list (map (expiry s) ws) \<le> expiry s t"
    "let rest = expiry s t - sum_list (map (expiry s) ws) in
        (vs \<noteq> [] \<longrightarrow> rest < expiry s (hd vs)) \<and>
        expiry s1 = (\<lambda>u. if u = t then rest
          else if vs \<noteq> [] \<and> u = hd vs then expiry s u - rest else expiry s u)"
    "\<exists>f. s1 = s\<lparr>timers := f\<rparr> \<and> (\<forall>u. t_proc (f u) = t_proc (timers s u))"
    using add_timer_loop_ok [OF tr' refl t] by blast
  then obtain f where f: "s1 = s\<lparr>timers := f\<rparr>" "\<forall>u. t_proc (f u) = t_proc (timers s u)" by blast
  define rest where "rest = expiry s t - sum_list (map (expiry s) ws)"
  have x1: "vs \<noteq> [] \<Longrightarrow> rest < expiry s (hd vs)"
    and x2: "expiry s1 = (\<lambda>u. if u = t then rest
          else if vs \<noteq> [] \<and> u = hd vs then expiry s u - rest else expiry s u)"
    using L(4) by (auto simp: Let_def rest_def)
  define h where "h = list_add_before (hd (map TimerLink vs @ [TimerList])) (TimerLink t) (timer_links s)"
  let ?s' = "s1\<lparr>timer_links := h\<rparr>" and ?ts = "ws @ t # vs"
  have r: "ring (timer_links s) TimerList (map TimerLink ws @ map TimerLink vs)"
    and emp: "\<forall>u. u \<notin> set ts \<longrightarrow> list_empty (TimerLink u) (timer_links s)"
    using tr L(1) by (auto simp: timer_ring_def)
  have tn: "TimerLink t \<notin> set (TimerList # map TimerLink ws @ map TimerLink vs)"
    using t L(1) by auto
  have ring': "ring h TimerList (map TimerLink ?ts)"
    using ring_insert_before [OF r tn] by (simp add: h_def)
  have emp': "\<forall>u. u \<notin> set ?ts \<longrightarrow> list_empty (TimerLink u) h"
  proof (intro allI impI)
    fix u assume "u \<notin> set ?ts"
    then have "TimerLink u \<notin> set (TimerList # TimerLink t # map TimerLink ws @ map TimerLink vs)"
      and "u \<notin> set ts" using L(1) by auto
    then show "list_empty (TimerLink u) h"
      using emp list_empty_insert_before [OF r] by (auto simp: h_def)
  qed
  have dist: "distinct (ws @ vs)" using timer_ring_distinct [OF tr] L(1) by simp
  have ews: "\<forall>u\<in>set ws. expiry s1 u = expiry s u"
    using t L(1) dist by (auto simp: x2)
  have et: "expiry s1 t = rest" by (simp add: x2)
  have sw: "sum_list (map (expiry s1) ws) = sum_list (map (expiry s) ws)"
    by (rule sum_list_map_cong [OF ews])
  have dvs: "dues (expiry s1) (expiry s t) vs = dues (expiry s) (sum_list (map (expiry s) ws)) vs \<and>
      sum_list (map (expiry s1) (t # vs)) \<le> expiry s t + sum_list (map (expiry s) vs)"
  proof (cases vs)
    case Nil
    then show ?thesis using et by (simp add: rest_def)
  next
    case (Cons v us)
    have "\<forall>u\<in>set us. expiry s1 u = expiry s u" using t L(1) dist Cons by (auto simp: x2)
    moreover have "expiry s1 v = expiry s v - rest" using t L(1) Cons by (auto simp: x2)
    moreover have "expiry s t + (expiry s v - rest) = sum_list (map (expiry s) ws) + expiry s v"
      using x1 Cons L(3) by (simp add: rest_def)
    ultimately show ?thesis
      using Cons et x1 sum_list_map_cong [of us "expiry s1" "expiry s"]
        dues_cong [of us "expiry s1" "expiry s"] by (simp add: rest_def add.commute)
  qed
  have D: "timer_dues ?s' ?ts = dues (expiry s) 0 ws @ (t, expiry s t) # dues (expiry s) (sum_list (map (expiry s) ws)) vs"
    using dvs L(3) by (simp add: timer_dues_def dues_append dues_cong [OF ews] sw et rest_def)
  have split: "timer_dues s ts = dues (expiry s) 0 ws @ dues (expiry s) (sum_list (map (expiry s) ws)) vs"
    by (simp add: timer_dues_def L(1) dues_append)
  have a1: "\<forall>x\<in>set (dues (expiry s) 0 ws). case x of (_, d) \<Rightarrow> d \<le> expiry s t"
    using L(3) by (auto dest!: dues_le_sum)
  have a2: "\<not> (case hd (dues (expiry s) (sum_list (map (expiry s) ws)) vs) of (_, d) \<Rightarrow> d \<le> expiry s t)"
    if "dues (expiry s) (sum_list (map (expiry s) ws)) vs \<noteq> []"
    using that x1 L(3) by (cases vs) (auto simp: rest_def)
  have "timer_dues ?s' ?ts = takeWhile (\<lambda>(_, d). d \<le> expiry s t) (timer_dues s ts) @
       (t, expiry s t) # dropWhile (\<lambda>(_, d). d \<le> expiry s t) (timer_dues s ts)"
    using D takeWhile_dropWhile_split [where P = "\<lambda>(_, d). d \<le> expiry s t"
        and xs = "dues (expiry s) 0 ws" and ys = "dues (expiry s) (sum_list (map (expiry s) ws)) vs"]
      a1 a2 split by simp
  moreover have "timer_ok ?s' ?ts"
  proof -
    have "\<forall>u\<in>set ?ts. t_proc (timers ?s' u) \<noteq> None"
      using tr f e(2) L(1) by (auto simp: timer_ring_def)
    moreover have "sum_list (map (expiry ?s') ?ts) < 2 ^ 32"
      using dvs sw bound L(1) by simp
    moreover have "0 < expiry ?s' (hd ?ts)"
      using pos ews et e(1) L(1) by (cases ws) (auto simp: rest_def)
    ultimately show ?thesis using ring' emp' by (simp add: timer_ok_def timer_ring_def)
  qed
  moreover have "add_timer t s = Some ?s'"
    using e un L(2) f timer_ring_first [OF tr] by (simp add: add_timer_def expiry_def h_def)
  moreover have "set ?ts = insert t (set ts)" using L(1) by auto
  moreover have "?s' = s\<lparr>timers := f, timer_links := h\<rparr>" using f(1) by simp
  ultimately show ?thesis using that f(2) by blast
qed

section \<open>Deleting a timer\<close>

lemma filter_dues_notin: "t \<notin> set ts \<Longrightarrow> filter (\<lambda>(u, _). u \<noteq> t) (dues ex a ts) = dues ex a ts"
  by (induction ts arbitrary: a) auto

lemma ring_del_entry_empty:
  assumes r: "ring h a (map f us @ f t # map f vs)" and inj: "inj f" and a: "a \<notin> range f"
    and emp: "\<forall>u. u \<notin> set (us @ t # vs) \<longrightarrow> list_empty (f u) h"
  shows "\<forall>u. u \<notin> set (us @ vs) \<longrightarrow> list_empty (f u) (list_del_init (f t) h)"
proof (intro allI impI)
  fix u assume u: "u \<notin> set (us @ vs)"
  show "list_empty (f u) (list_del_init (f t) h)"
  proof (cases "u = t")
    case True
    then show ?thesis by (simp add: list_del_init_empty)
  next
    case False
    then have "f u \<notin> set (a # map f us @ f t # map f vs)"
      using u a inj by (auto simp: inj_image_mem_iff inj_eq)
    then have "list_empty (f u) (list_del_init (f t) h) = list_empty (f u) h"
      by (rule list_empty_del_init [OF r])
    then show ?thesis using emp u False by simp
  qed
qed

lemma timer_ring_linked:
  "timer_ring s ts \<Longrightarrow> list_empty (TimerLink t) (timer_links s) \<longleftrightarrow> t \<notin> set ts"
  using ring_member_next [of "timer_links s" TimerList "map TimerLink ts" "TimerLink t"]
  by (auto simp: timer_ring_def)

lemma del_timer_dues:
  assumes tr: "timer_ring s (us @ t # vs)"
  shows "timer_ring (del_timer t s) (us @ vs)"
    and "timer_dues (del_timer t s) (us @ vs) = filter (\<lambda>(u, _). u \<noteq> t) (timer_dues s (us @ t # vs))"
    and "\<exists>f h. del_timer t s = s\<lparr>timers := f, timer_links := h\<rparr> \<and>
      (\<forall>u. t_proc (f u) = t_proc (timers s u)) \<and> (expiry s t = 0 \<longrightarrow> f = timers s)"
    and "us = [] \<Longrightarrow> vs \<noteq> [] \<Longrightarrow> expiry (del_timer t s) (hd vs) = expiry s t + expiry s (hd vs)"
    and "us \<noteq> [] \<Longrightarrow> expiry (del_timer t s) (hd us) = expiry s (hd us)"
proof -
  have dist: "distinct (us @ t # vs)" by (rule timer_ring_distinct [OF tr])
  have linked: "\<not> list_empty (TimerLink t) (timer_links s)" using timer_ring_linked [OF tr] by simp
  have sum: "sum_list (map (expiry s) (us @ t # vs)) < 2 ^ 32" using tr by (simp add: timer_ring_def)
  have nx: "list_next (TimerLink t) (timer_links s) = hd (map TimerLink vs @ [TimerList])"
    by (rule timer_ring_next [OF tr])
  let ?f = "if expiry s t \<noteq> 0 \<and> vs \<noteq> []
    then (timers s)(hd vs := (timers s (hd vs))\<lparr>expires := expiry s (hd vs) + expiry s t\<rparr>) else timers s"
  let ?h = "list_del_init (TimerLink t) (timer_links s)"
  have "vs \<noteq> [] \<Longrightarrow> expiry s (hd vs) + expiry s t < 2 ^ 32" using sum by (cases vs) auto
  then have u: "vs \<noteq> [] \<Longrightarrow> u32 (expires (timers s (hd vs)) + expires (timers s t)) =
      expires (timers s (hd vs)) + expires (timers s t)" by (simp add: expiry_def)
  have eq: "del_timer t s = s\<lparr>timers := ?f, timer_links := ?h\<rparr>"
  proof (cases vs)
    case Nil
    then show ?thesis using linked nx by (simp add: del_timer_def)
  next
    case (Cons v ws)
    then show ?thesis using linked nx u by (simp add: del_timer_def upd_timer_def expiry_def)
  qed
  then show "\<exists>f h. del_timer t s = s\<lparr>timers := f, timer_links := h\<rparr> \<and>
      (\<forall>u. t_proc (f u) = t_proc (timers s u)) \<and> (expiry s t = 0 \<longrightarrow> f = timers s)"
    by (intro exI conjI) auto
  have ex: "expiry (del_timer t s) = (if vs \<noteq> [] then (expiry s)(hd vs := expiry s t + expiry s (hd vs)) else expiry s)"
    by (auto simp: eq expiry_def fun_eq_iff)
  have eus: "\<forall>x\<in>set us. expiry (del_timer t s) x = expiry s x"
    using dist by (cases vs) (auto simp: ex)
  have dvs: "dues (expiry (del_timer t s)) a vs = dues (expiry s) (a + expiry s t) vs \<and>
      sum_list (map (expiry (del_timer t s)) vs) \<le> expiry s t + sum_list (map (expiry s) vs)" for a
  proof (cases vs)
    case (Cons v ws)
    have "\<forall>x\<in>set ws. expiry (del_timer t s) x = expiry s x" using dist Cons by (auto simp: ex)
    then show ?thesis
      using Cons dues_cong [of ws "expiry (del_timer t s)" "expiry s"]
        sum_list_map_cong [of ws "expiry (del_timer t s)" "expiry s"] by (simp add: ex add.assoc)
  qed simp
  have sus: "sum_list (map (expiry (del_timer t s)) us) = sum_list (map (expiry s) us)"
    by (rule sum_list_map_cong [OF eus])
  show "timer_dues (del_timer t s) (us @ vs) = filter (\<lambda>(u, _). u \<noteq> t) (timer_dues s (us @ t # vs))"
    using dist by (simp add: timer_dues_def dues_append dues_cong [OF eus] sus dvs filter_dues_notin)
  have r: "ring (timer_links s) TimerList (map TimerLink us @ TimerLink t # map TimerLink vs)"
    and emp: "\<forall>u. u \<notin> set (us @ t # vs) \<longrightarrow> list_empty (TimerLink u) (timer_links s)"
    using tr by (auto simp: timer_ring_def)
  have "\<forall>u. u \<notin> set (us @ vs) \<longrightarrow> list_empty (TimerLink u) ?h"
    using ring_del_entry_empty [OF r _ _ emp] by (auto simp: inj_def)
  moreover have "ring ?h TimerList (map TimerLink (us @ vs))" using ring_list_del_init [OF r] by simp
  moreover have "sum_list (map (expiry (del_timer t s)) (us @ vs)) < 2 ^ 32"
    using sum sus dvs [of 0] by simp
  moreover have "\<forall>x\<in>set (us @ vs). t_proc (timers (del_timer t s) x) \<noteq> None"
    using tr by (auto simp: eq timer_ring_def)
  moreover have "timer_links (del_timer t s) = ?h" by (simp add: eq)
  ultimately show "timer_ring (del_timer t s) (us @ vs)" by (simp add: timer_ring_def)
  show "us = [] \<Longrightarrow> vs \<noteq> [] \<Longrightarrow> expiry (del_timer t s) (hd vs) = expiry s t + expiry s (hd vs)"
    by (simp add: ex)
  show "us \<noteq> [] \<Longrightarrow> expiry (del_timer t s) (hd us) = expiry s (hd us)"
    using eus by simp
qed

section \<open>A timer tick\<close>

lemma dues_positive: "0 < a \<Longrightarrow> filter (\<lambda>(_, d). 0 < d) (dues ex a ts) = dues ex a ts"
  by (induction ts arbitrary: a) auto

lemma dues_drop_zero:
  "dues ex 0 (dropWhile (\<lambda>u. ex u = 0) ts) = filter (\<lambda>(_, d). 0 < d) (dues ex 0 ts)"
  by (induction ts) (auto simp: dues_positive)

lemma dues_zero: "u \<in> set (takeWhile (\<lambda>u. ex u = 0) ts) \<longleftrightarrow> (u, 0) \<in> set (dues ex 0 ts)"
proof (induction ts)
  case (Cons a ts)
  then show ?case using dues_ge [of u 0 ex "ex a" ts] by (cases "ex a = 0") auto
qed simp

lemma dues_tick:
  assumes "distinct (t # ts)" and "0 < ex t"
  shows "dues (ex(t := ex t - 1)) 0 (t # ts) = map (\<lambda>(u, d). (u, d - 1)) (dues ex 0 (t # ts))"
proof -
  have "dues (ex(t := ex t - 1)) b ts = map (\<lambda>(u, d). (u, d - 1)) (dues ex (Suc b) ts)" for b
    using assms(1) by (induction ts arbitrary: b) auto
  from this [of "ex t - 1"] show ?thesis using assms(2) by simp
qed

definition wakeable :: "kstate \<Rightarrow> nat option \<Rightarrow> bool" where
  "wakeable s p \<longleftrightarrow> (case p of None \<Rightarrow> False | Some p \<Rightarrow> state (procs s p) \<noteq> PROC_ZOMBIE \<and>
     (wait_state (procs s p) \<noteq> 0 \<longrightarrow> and (wait_state (procs s p)) WT_INTERRUPTED \<noteq> 0))"

lemma wakeable_cong: "procs s' = procs s \<Longrightarrow> wakeable s' q = wakeable s q"
  by (cases q) (simp_all add: wakeable_def)

context sched_laws
begin

lemma sched_ok_timers:
  "sched_ok rel s \<Longrightarrow> sched_ok rel (s\<lparr>timers := f, timer_links := h\<rparr>)"
  using rel_same [of s "{p. runnable_waiting s p}" "s\<lparr>timers := f, timer_links := h\<rparr>"]
  by (simp add: sched_ok_def same_rq_def runnable_waiting_def)

lemma run_timer_loop_ok:
  assumes "sched_ok rel s" and "timer_ring s (t # ts)"
    and "\<forall>u\<in>set (t # ts). wakeable s (t_proc (timers s u))"
  shows "\<exists>s'. run_timer_loop sc t (TimerLink t) s = Some s' \<and> sched_ok rel s' \<and>
    timer_ring s' (dropWhile (\<lambda>u. expiry s u = 0) (t # ts)) \<and> timers s' = timers s \<and>
    current s' = current s \<and> idleproc s' = idleproc s \<and>
    (\<forall>p. state (procs s' p) =
      (if \<exists>u\<in>set (takeWhile (\<lambda>u. expiry s u = 0) (t # ts)). t_proc (timers s u) = Some p
       then PROC_RUNNABLE else state (procs s p)))"
  using assms
proof (induction ts arbitrary: t s)
  case Nil
  then show ?case
  proof (cases "expiry s t = 0")
    case True
    obtain p where p: "t_proc (timers s t) = Some p" "state (procs s p) \<noteq> PROC_ZOMBIE"
      "wait_state (procs s p) \<noteq> 0 \<longrightarrow> and (wait_state (procs s p)) WT_INTERRUPTED \<noteq> 0"
      using Nil.prems(3) by (auto simp: wakeable_def split: option.splits)
    from wakeup_ok [OF Nil.prems(1) p(2)] obtain s1 where s1: "wakeup_proc sc p s = Some s1"
      "sched_ok rel s1" "state (procs s1 p) = PROC_RUNNABLE"
      "\<forall>q. q \<noteq> p \<longrightarrow> state (procs s1 q) = state (procs s q)"
      "timers s1 = timers s" "timer_links s1 = timer_links s" "current s1 = current s" "idleproc s1 = idleproc s"
      by metis
    have e1: "expiry s1 = expiry s" using s1(5) by (simp add: expiry_def fun_eq_iff)
    have tr1: "timer_ring s1 ([] @ t # [])"
      using Nil.prems(2) s1(5,6) by (simp add: timer_ring_def e1)
    obtain h where d: "del_timer t s1 = s1\<lparr>timers := timers s1, timer_links := h\<rparr>"
      using del_timer_dues(3) [OF tr1] True e1 by auto
    have "list_next (TimerLink t) (timer_links s) = TimerList"
      using timer_ring_next [of s "[]" t "[]"] Nil.prems(2) by simp
    then have "run_timer_loop sc t (TimerLink t) s = Some (del_timer t s1)"
      using True p s1(1) by (subst run_timer_loop.simps) (simp add: expiry_def)
    moreover have "timer_ring (del_timer t s1) []" using del_timer_dues(1) [OF tr1] by simp
    moreover have "sched_ok rel (del_timer t s1)" unfolding d by (rule sched_ok_timers [OF s1(2)])
    ultimately show ?thesis using True p(1) s1 d by auto
  next
    case False
    then have "run_timer_loop sc t (TimerLink t) s = Some s"
      by (subst run_timer_loop.simps) (simp add: expiry_def)
    then show ?thesis using Nil.prems False by simp
  qed
next
  case (Cons t' ts)
  show ?case
  proof (cases "expiry s t = 0")
    case True
    obtain p where p: "t_proc (timers s t) = Some p" "state (procs s p) \<noteq> PROC_ZOMBIE"
      "wait_state (procs s p) \<noteq> 0 \<longrightarrow> and (wait_state (procs s p)) WT_INTERRUPTED \<noteq> 0"
      using Cons.prems(3) by (auto simp: wakeable_def split: option.splits)
    from wakeup_ok [OF Cons.prems(1) p(2)] obtain s1 where s1: "wakeup_proc sc p s = Some s1"
      "sched_ok rel s1" "state (procs s1 p) = PROC_RUNNABLE"
      "\<forall>q. q \<noteq> p \<longrightarrow> state (procs s1 q) = state (procs s q) \<and> wait_state (procs s1 q) = wait_state (procs s q)"
      "timers s1 = timers s" "timer_links s1 = timer_links s" "current s1 = current s" "idleproc s1 = idleproc s"
      and ws: "wait_state (procs s1 p) = 0 \<or> s1 = s"
      by metis
    have e1: "expiry s1 = expiry s" using s1(5) by (simp add: expiry_def fun_eq_iff)
    have tr1: "timer_ring s1 ([] @ t # t' # ts)"
      using Cons.prems(2) s1(5,6) by (simp add: timer_ring_def e1)
    obtain h where d: "del_timer t s1 = s1\<lparr>timers := timers s1, timer_links := h\<rparr>"
      using del_timer_dues(3) [OF tr1] True e1 by auto
    have tr2: "timer_ring (del_timer t s1) (t' # ts)" using del_timer_dues(1) [OF tr1] by simp
    have sch2: "sched_ok rel (del_timer t s1)" unfolding d by (rule sched_ok_timers [OF s1(2)])
    have wake: "wakeable s1 q" if "wakeable s q" for q
      using that ws s1(3,4) by (auto simp: wakeable_def split: option.splits) (metis proc_state.distinct(11))+
    moreover have "wakeable (del_timer t s1) q = wakeable s1 q" for q
      by (rule wakeable_cong) (simp add: d)
    moreover have "timers (del_timer t s1) = timers s" using s1(5) by (simp add: d)
    ultimately have "\<forall>u\<in>set (t' # ts). wakeable (del_timer t s1) (t_proc (timers (del_timer t s1) u))"
      using Cons.prems(3) by simp
    note IH' = Cons.IH [OF sch2 tr2 this]
    have dt: "timers (del_timer t s1) = timers s" "procs (del_timer t s1) = procs s1"
      "current (del_timer t s1) = current s1" "idleproc (del_timer t s1) = idleproc s1"
      "expiry (del_timer t s1) = expiry s1"
      using s1(5) by (simp_all add: d expiry_def fun_eq_iff)
    from IH' obtain s' where IH:
      "run_timer_loop sc t' (TimerLink t') (del_timer t s1) = Some s'" "sched_ok rel s'"
      "timer_ring s' (dropWhile (\<lambda>u. expiry s u = 0) (t' # ts))" "timers s' = timers s"
      "current s' = current s" "idleproc s' = idleproc s"
      "\<forall>p. state (procs s' p) =
        (if \<exists>u\<in>set (takeWhile (\<lambda>u. expiry s u = 0) (t' # ts)). t_proc (timers s u) = Some p
         then PROC_RUNNABLE else state (procs s1 p))"
      using s1(7,8) e1 unfolding dt by metis
    have "list_next (TimerLink t) (timer_links s) = TimerLink t'"
      using timer_ring_next [of s "[]" t "t' # ts"] Cons.prems(2) by simp
    then have "run_timer_loop sc t (TimerLink t) s = Some s'"
      using True p s1(1) IH(1) by (subst run_timer_loop.simps) (simp add: expiry_def)
    then show ?thesis using True p(1) s1(3,4) IH by auto
  next
    case False
    then have "run_timer_loop sc t (TimerLink t) s = Some s"
      by (subst run_timer_loop.simps) (simp add: expiry_def)
    then show ?thesis using Cons.prems False by simp
  qed
qed

lemma tick_class_ok:
  assumes "sched_ok rel s"
  shows "sched_ok rel (case current s of None \<Rightarrow> s | Some c \<Rightarrow> sched_class_proc_tick sc c s) \<and>
    same_rest s (case current s of None \<Rightarrow> s | Some c \<Rightarrow> sched_class_proc_tick sc c s)"
proof (cases "current s")
  case None
  then show ?thesis using assms by simp
next
  case (Some c)
  let ?Q = "{p. runnable_waiting s p}" and ?s = "sched_class_proc_tick sc c s"
  have "c \<notin> ?Q" using Some by (simp add: runnable_waiting_def)
  then have t: "rel ?s ?Q \<and> same_rest s ?s"
    using assms tick_law [of s ?Q c] rel_same [of s ?Q "upd_proc c (\<lambda>q. q\<lparr>need_resched := True\<rparr>) s"]
    by (auto simp: sched_ok_def sched_class_proc_tick_def same_rq_def same_rest_def)
  then have "{p. runnable_waiting ?s p} = ?Q" by (simp add: runnable_waiting_def same_rest_def)
  then show ?thesis using t Some by (simp add: sched_ok_def)
qed

lemma run_timer_list_ok:
  assumes ok: "sched_ok rel s" and t: "timer_ok s ts"
    and wake: "\<forall>u\<in>set ts. wakeable s (t_proc (timers s u))"
  shows "\<exists>s' ts'. run_timer_list sc s = Some s' \<and> sched_ok rel s' \<and> timer_ok s' ts' \<and>
    timer_dues s' ts' = map (\<lambda>(u, d). (u, d - 1)) (filter (\<lambda>(_, d). 1 < d) (timer_dues s ts)) \<and>
    current s' = current s \<and>
    (\<forall>p. state (procs s' p) =
      (if \<exists>u. (u, 1) \<in> set (timer_dues s ts) \<and> t_proc (timers s u) = Some p
       then PROC_RUNNABLE else state (procs s p)))"
proof -
  have tr: "timer_ring s ts" using t by (simp add: timer_ok_def)
  obtain s1 where s1: "(case list_next TimerList (timer_links s) of
            TimerList \<Rightarrow> Some s
          | TimerLink t \<Rightarrow> do {
              assert_k (expires (timers s t) \<noteq> 0);
              run_timer_loop sc t (TimerLink t) (upd_timer t (\<lambda>e. e - 1) s) }) = Some s1"
    "sched_ok rel s1" "current s1 = current s" and ts: "\<exists>ts'. timer_ok s1 ts' \<and>
      timer_dues s1 ts' = map (\<lambda>(u, d). (u, d - 1)) (filter (\<lambda>(_, d). 1 < d) (timer_dues s ts))"
    and st: "\<forall>p. state (procs s1 p) =
      (if \<exists>u. (u, 1) \<in> set (timer_dues s ts) \<and> t_proc (timers s u) = Some p
       then PROC_RUNNABLE else state (procs s p))"
  proof (cases ts)
    case Nil
    have "\<exists>ts'. timer_ok s ts' \<and>
      timer_dues s ts' = map (\<lambda>(u, d). (u, d - 1)) (filter (\<lambda>(_, d). 1 < d) (timer_dues s ts))"
      using t Nil by (intro exI [of _ "[]"]) (simp add: timer_dues_def)
    moreover have "\<not> (\<exists>u. (u, 1) \<in> set (timer_dues s ts))" using Nil by (simp add: timer_dues_def)
    ultimately show ?thesis
      using that [of s] ok timer_ring_first [OF tr] Nil by simp
  next
    case (Cons v vs)
    let ?s = "upd_timer v (\<lambda>e. e - 1) s"
    have pos: "0 < expiry s v" using t Cons by (simp add: timer_ok_def)
    have dist: "distinct (v # vs)" using timer_ring_distinct [OF tr] Cons by simp
    have e: "expiry ?s = (expiry s)(v := expiry s v - 1)" by simp
    have "v \<notin> set vs" using dist by simp
    then have "sum_list (map (expiry ?s) vs) = sum_list (map (expiry s) vs)"
      unfolding e by simp
    then have tr0: "timer_ring ?s (v # vs)" using tr Cons by (auto simp: timer_ring_def)
    have eq: "?s = s\<lparr>timers := timers ?s, timer_links := timer_links s\<rparr>" by (simp add: upd_timer_def)
    have ok0: "sched_ok rel ?s" by (subst eq) (rule sched_ok_timers [OF ok])
    have wk0: "\<forall>u\<in>set (v # vs). wakeable ?s (t_proc (timers ?s u))"
      using wake Cons wakeable_cong [of ?s s] by simp
    obtain s1 where L: "run_timer_loop sc v (TimerLink v) ?s = Some s1" "sched_ok rel s1"
      "timer_ring s1 (dropWhile (\<lambda>u. expiry ?s u = 0) (v # vs))" "timers s1 = timers ?s"
      "current s1 = current ?s"
      "\<forall>p. state (procs s1 p) =
        (if \<exists>u\<in>set (takeWhile (\<lambda>u. expiry ?s u = 0) (v # vs)). t_proc (timers ?s u) = Some p
         then PROC_RUNNABLE else state (procs ?s p))"
      using run_timer_loop_ok [OF ok0 tr0 wk0] by blast
    let ?ts = "dropWhile (\<lambda>u. expiry ?s u = 0) (v # vs)"
    have e1: "expiry s1 = expiry ?s" using L(4) by (simp add: expiry_def fun_eq_iff)
    have "?ts \<noteq> [] \<Longrightarrow> expiry ?s (hd ?ts) \<noteq> 0" using hd_dropWhile by fast
    then have ok1: "timer_ok s1 ?ts" using L(3) by (simp only: timer_ok_def e1) auto
    have D: "dues (expiry ?s) 0 (v # vs) = map (\<lambda>(u, d). (u, d - 1)) (timer_dues s ts)"
      unfolding e timer_dues_def Cons by (rule dues_tick [where ex = "expiry s", OF dist pos])
    have "timer_dues s1 ?ts = filter (\<lambda>(_, d). 0 < d) (dues (expiry ?s) 0 (v # vs))"
      unfolding timer_dues_def e1 by (rule dues_drop_zero)
    then have d1: "timer_dues s1 ?ts = map (\<lambda>(u, d). (u, d - 1)) (filter (\<lambda>(_, d). 1 < d) (timer_dues s ts))"
      unfolding D by (auto simp: filter_map comp_def case_prod_unfold intro!: arg_cong [of _ _ "map _"] filter_cong)
    have ge: "(u, d) \<in> set (timer_dues s ts) \<Longrightarrow> 0 < d" for u d
      using pos dues_ge [of u d "expiry s" "expiry s v" vs] by (auto simp: timer_dues_def Cons)
    have z: "u \<in> set (takeWhile (\<lambda>u. expiry ?s u = 0) (v # vs)) \<longleftrightarrow> (u, 1) \<in> set (timer_dues s ts)" for u
      unfolding dues_zero D
    proof
      assume "(u, 0) \<in> set (map (\<lambda>(u, d). (u, d - 1)) (timer_dues s ts))"
      then obtain d where d: "(u, d) \<in> set (timer_dues s ts)" "d - 1 = 0" by auto
      then have "d = 1" using ge [OF d(1)] by simp
      then show "(u, 1) \<in> set (timer_dues s ts)" using d(1) by simp
    next
      assume "(u, 1) \<in> set (timer_dues s ts)"
      then show "(u, 0) \<in> set (map (\<lambda>(u, d). (u, d - 1)) (timer_dues s ts))" by force
    qed
    have "\<forall>p. state (procs s1 p) =
      (if \<exists>u. (u, 1) \<in> set (timer_dues s ts) \<and> t_proc (timers s u) = Some p
       then PROC_RUNNABLE else state (procs s p))"
      using L(6) unfolding Bex_def z upd_timer_simps(1,5) .
    then show ?thesis
      using that [of s1] L(1,2,5) ok1 d1 Cons pos timer_ring_first [OF tr] by (auto simp: expiry_def)
  qed
  let ?s' = "case current s1 of None \<Rightarrow> s1 | Some c \<Rightarrow> sched_class_proc_tick sc c s1"
  have tick: "sched_ok rel ?s'" "same_rest s1 ?s'" using tick_class_ok [OF s1(2)] by auto
  have run: "run_timer_list sc s = Some ?s'" using s1(1) unfolding run_timer_list_def by simp
  obtain ts' where ts': "timer_ok s1 ts'"
    "timer_dues s1 ts' = map (\<lambda>(u, d). (u, d - 1)) (filter (\<lambda>(_, d). 1 < d) (timer_dues s ts))"
    using ts by blast
  have "timer_ok ?s' ts' \<and> timer_dues ?s' ts' = timer_dues s1 ts'"
    using tick(2) ts'(1)
    by (simp add: timer_ok_def timer_ring_def timer_dues_def same_rest_def expiry_def [abs_def])
  then show ?thesis
    using run tick ts' st s1(3) by (intro exI [of _ ?s'] exI [of _ ts']) (simp add: same_rest_def)
qed

end

section \<open>Properties\<close>

text \<open>\<open>add_timer\<close> inserts the timer into the list of remaining times, after the timers that
  expire no later and before those that expire later; the remaining time of every other
  timer is unchanged although the stored differences are.\<close>

theorem add_timer_inserts:
  assumes "timer_ok s ts" and "t \<notin> set ts" and "0 < expiry s t" and "t_proc (timers s t) \<noteq> None"
    and "expiry s t + sum_list (map (expiry s) ts) < 2 ^ 32"
  shows "\<exists>s' ts'. add_timer t s = Some s' \<and> timer_ok s' ts' \<and>
    timer_dues s' ts' = takeWhile (\<lambda>(_, d). d \<le> expiry s t) (timer_dues s ts) @
      (t, expiry s t) # dropWhile (\<lambda>(_, d). d \<le> expiry s t) (timer_dues s ts)"
  by (rule add_timer_dues [OF assms]) blast

text \<open>\<open>del_timer\<close> removes exactly this timer; the remaining times of the others stay.\<close>

theorem del_timer_removes:
  assumes "timer_ok s ts" and "t \<in> set ts"
  shows "\<exists>ts'. timer_ok (del_timer t s) ts' \<and>
    timer_dues (del_timer t s) ts' = filter (\<lambda>(u, _). u \<noteq> t) (timer_dues s ts)"
proof -
  obtain us vs where ts: "ts = us @ t # vs" using assms(2) by (meson split_list)
  have tr: "timer_ring s (us @ t # vs)" and pos: "0 < expiry s (hd (us @ t # vs))"
    using assms(1) ts by (auto simp: timer_ok_def)
  have "us @ vs \<noteq> [] \<Longrightarrow> 0 < expiry (del_timer t s) (hd (us @ vs))"
    using del_timer_dues(4,5) [OF tr] pos by (cases us) auto
  then show ?thesis using del_timer_dues(1,2) [OF tr] ts by (auto simp: timer_ok_def)
qed

text \<open>C13. One clock tick: \<open>run_timer_list\<close> lowers every remaining time by one, drops exactly the
  timers that expire now, makes exactly their processes runnable, and keeps the timer list
  and the run-queue invariant.\<close>

theorem run_timer_list_ticks:
  assumes "sched_ok rr_rel s" and "timer_ok s ts"
    and "\<forall>u\<in>set ts. wakeable s (t_proc (timers s u))"
  shows "\<exists>s' ts'. run_timer_list RR_class s = Some s' \<and> sched_ok rr_rel s' \<and> timer_ok s' ts' \<and>
    timer_dues s' ts' = map (\<lambda>(u, d). (u, d - 1)) (filter (\<lambda>(_, d). 1 < d) (timer_dues s ts)) \<and>
    current s' = current s \<and>
    (\<forall>p. state (procs s' p) =
      (if \<exists>u. (u, 1) \<in> set (timer_dues s ts) \<and> t_proc (timers s u) = Some p
       then PROC_RUNNABLE else state (procs s p)))"
  using assms by (rule rr.run_timer_list_ok)

subsection \<open>The properties at work\<close>

text \<open>The sample of \<open>Round_Robin\<close> with two timers: timer 0 of process 3 expires in one tick,
  timer 1 of process 4 three ticks later.\<close>

definition timer_sample :: kstate where
  "timer_sample = rr_sample\<lparr>
     timers := (\<lambda>_. \<lparr>expires = 2, t_proc = Some 5\<rparr>)
       (0 := \<lparr>expires = 1, t_proc = Some 3\<rparr>, 1 := \<lparr>expires = 3, t_proc = Some 4\<rparr>),
     timer_links := list_add_before TimerList (TimerLink 1)
       (list_add_before TimerList (TimerLink 0) (list_init TimerList \<lparr>l_next = id, l_prev = id\<rparr>))\<rparr>"

lemma timer_sample_ok: "timer_ok timer_sample [0, 1]"
  by (auto simp: timer_ok_def timer_ring_def timer_sample_def ring_def next_ring_def list_ops expiry_def)

lemma timer_sample_dues: "timer_dues timer_sample [0, 1] = [(0, 1), (1, 4)]"
  by (simp add: timer_dues_def timer_sample_def expiry_def)

lemma timer_sample_sched: "sched_ok rr_rel timer_sample"
  unfolding timer_sample_def by (rule rr.sched_ok_timers [OF rr_sample_sched])

lemma timer_sample_timers: "timers timer_sample = (\<lambda>_. \<lparr>expires = 2, t_proc = Some 5\<rparr>)
       (0 := \<lparr>expires = 1, t_proc = Some 3\<rparr>, 1 := \<lparr>expires = 3, t_proc = Some 4\<rparr>)"
  "procs timer_sample = procs rr_sample"
  by (simp_all add: timer_sample_def)

lemma add_timer_inserts_witness:
  "\<exists>s' ts'. add_timer 7 timer_sample = Some s' \<and> timer_ok s' ts' \<and>
     timer_dues s' ts' = [(0, 1), (7, 2), (1, 4)]"
  using add_timer_inserts [OF timer_sample_ok, of 7] unfolding timer_sample_dues
  by (simp add: expiry_def timer_sample_timers)

lemma del_timer_removes_witness:
  "\<exists>ts'. timer_ok (del_timer 0 timer_sample) ts' \<and> timer_dues (del_timer 0 timer_sample) ts' = [(1, 4)]"
  using del_timer_removes [OF timer_sample_ok, of 0] unfolding timer_sample_dues by simp

lemma run_timer_list_ticks_witness:
  "\<exists>s' ts'. run_timer_list RR_class timer_sample = Some s' \<and> timer_dues s' ts' = [(1, 3)] \<and>
     state (procs s' 3) = PROC_RUNNABLE \<and> state (procs s' 4) = PROC_SLEEPING"
proof -
  have "\<forall>u\<in>set [0, 1]. wakeable timer_sample (t_proc (timers timer_sample u))"
    by (simp add: wakeable_def timer_sample_timers)
  from run_timer_list_ticks [OF timer_sample_sched timer_sample_ok this] show ?thesis
    unfolding timer_sample_dues by (auto simp: timer_sample_timers)
qed

end
