(* ===== verification/Semaphore.thy ===== *)
theory Semaphore
  imports Timers
begin

text \<open>
  Wait queues (\<open>kern/sync/wait.c\<close>) and semaphores (\<open>kern/sync/sem.c\<close>).  A wait queue and
  the semaphore it belongs to have the same number.  \<open>down\<close> is split at its call of \<open>schedule\<close>:
  \<open>down_enter\<close> is the part before it, \<open>down_resume\<close> the part after it.
  \<open>sem_ok s q ws\<close> says that the waiters of semaphore \<open>q\<close> are \<open>ws\<close> in order, all asleep on it,
  and that there are none while the value is positive.
\<close>

section \<open>Wait queues\<close>

definition upd_wait :: "nat \<Rightarrow> (wait \<Rightarrow> wait) \<Rightarrow> kstate \<Rightarrow> kstate" where
  "upd_wait w f s = s\<lparr>waits := (waits s)(w := f (waits s w))\<rparr>"

definition wait_init :: "nat \<Rightarrow> nat \<Rightarrow> kstate \<Rightarrow> kstate" where
  "wait_init w p s =
    (let s = upd_wait w (\<lambda>x. x\<lparr>w_proc := Some p, wakeup_flags := WT_INTERRUPTED\<rparr>) s
     in s\<lparr>wait_links := list_init (WaitLink w) (wait_links s)\<rparr>)"

definition wait_queue_init :: "nat \<Rightarrow> kstate \<Rightarrow> kstate" where
  "wait_queue_init q s = s\<lparr>wait_links := list_init (WaitHead q) (wait_links s)\<rparr>"

definition wait_queue_add :: "nat \<Rightarrow> nat \<Rightarrow> kstate \<Rightarrow> kstate option" where
  "wait_queue_add q w s = do {
     assert_k (list_empty (WaitLink w) (wait_links s) \<and> w_proc (waits s w) \<noteq> None);
     let s = upd_wait w (\<lambda>x. x\<lparr>wait_queue := q\<rparr>) s;
     Some (s\<lparr>wait_links := list_add_before (WaitHead q) (WaitLink w) (wait_links s)\<rparr>) }"

definition wait_queue_del :: "nat \<Rightarrow> nat \<Rightarrow> kstate \<Rightarrow> kstate option" where
  "wait_queue_del q w s = do {
     assert_k (\<not> list_empty (WaitLink w) (wait_links s) \<and> wait_queue (waits s w) = q);
     Some (s\<lparr>wait_links := list_del_init (WaitLink w) (wait_links s)\<rparr>) }"

text \<open>\<open>le2wait\<close> after the comparison with the head of the queue; another queue's head is not
  an entry.\<close>

definition wait_of :: "wnode \<Rightarrow> nat option" where
  "wait_of le = (case le of WaitHead _ \<Rightarrow> None | WaitLink w \<Rightarrow> Some w)"

definition wait_queue_next :: "nat \<Rightarrow> nat \<Rightarrow> kstate \<Rightarrow> nat option option" where
  "wait_queue_next q w s = do {
     assert_k (\<not> list_empty (WaitLink w) (wait_links s) \<and> wait_queue (waits s w) = q);
     let le = list_next (WaitLink w) (wait_links s);
     Some (if le \<noteq> WaitHead q then wait_of le else None) }"

definition wait_queue_prev :: "nat \<Rightarrow> nat \<Rightarrow> kstate \<Rightarrow> nat option option" where
  "wait_queue_prev q w s = do {
     assert_k (\<not> list_empty (WaitLink w) (wait_links s) \<and> wait_queue (waits s w) = q);
     let le = list_prev (WaitLink w) (wait_links s);
     Some (if le \<noteq> WaitHead q then wait_of le else None) }"

definition wait_queue_first :: "nat \<Rightarrow> kstate \<Rightarrow> nat option" where
  "wait_queue_first q s =
    (let le = list_next (WaitHead q) (wait_links s)
     in if le \<noteq> WaitHead q then wait_of le else None)"

definition wait_queue_last :: "nat \<Rightarrow> kstate \<Rightarrow> nat option" where
  "wait_queue_last q s =
    (let le = list_prev (WaitHead q) (wait_links s)
     in if le \<noteq> WaitHead q then wait_of le else None)"

definition wait_queue_empty :: "nat \<Rightarrow> kstate \<Rightarrow> bool" where
  "wait_queue_empty q s = list_empty (WaitHead q) (wait_links s)"

definition wait_in_queue :: "nat \<Rightarrow> kstate \<Rightarrow> bool" where
  "wait_in_queue w s \<longleftrightarrow> \<not> list_empty (WaitLink w) (wait_links s)"

definition wakeup_wait :: "sched_class \<Rightarrow> nat \<Rightarrow> nat \<Rightarrow> 32 word \<Rightarrow> bool \<Rightarrow> kstate \<Rightarrow> kstate option" where
  "wakeup_wait sc q w fl del s = do {
     s \<leftarrow> (if del then wait_queue_del q w s else Some s);
     let s = upd_wait w (\<lambda>x. x\<lparr>wakeup_flags := fl\<rparr>) s;
     p \<leftarrow> w_proc (waits s w);
     wakeup_proc sc p s }"

definition wakeup_first :: "sched_class \<Rightarrow> nat \<Rightarrow> 32 word \<Rightarrow> bool \<Rightarrow> kstate \<Rightarrow> kstate option" where
  "wakeup_first sc q fl del s =
    (case wait_queue_first q s of None \<Rightarrow> Some s | Some w \<Rightarrow> wakeup_wait sc q w fl del s)"

partial_function (option) wakeup_queue_del_loop ::
    "sched_class \<Rightarrow> nat \<Rightarrow> nat \<Rightarrow> 32 word \<Rightarrow> kstate \<Rightarrow> kstate option" where
  "wakeup_queue_del_loop sc q w fl s = do {
     s \<leftarrow> wakeup_wait sc q w fl True s;
     (case wait_queue_first q s of None \<Rightarrow> Some s | Some w \<Rightarrow> wakeup_queue_del_loop sc q w fl s) }"

partial_function (option) wakeup_queue_keep_loop ::
    "sched_class \<Rightarrow> nat \<Rightarrow> nat \<Rightarrow> 32 word \<Rightarrow> kstate \<Rightarrow> kstate option" where
  "wakeup_queue_keep_loop sc q w fl s = do {
     s \<leftarrow> wakeup_wait sc q w fl False s;
     r \<leftarrow> wait_queue_next q w s;
     (case r of None \<Rightarrow> Some s | Some w \<Rightarrow> wakeup_queue_keep_loop sc q w fl s) }"

definition wakeup_queue :: "sched_class \<Rightarrow> nat \<Rightarrow> 32 word \<Rightarrow> bool \<Rightarrow> kstate \<Rightarrow> kstate option" where
  "wakeup_queue sc q fl del s =
    (case wait_queue_first q s of
       None \<Rightarrow> Some s
     | Some w \<Rightarrow> if del then wakeup_queue_del_loop sc q w fl s else wakeup_queue_keep_loop sc q w fl s)"

definition wait_current_set :: "nat \<Rightarrow> nat \<Rightarrow> 32 word \<Rightarrow> kstate \<Rightarrow> kstate option" where
  "wait_current_set q w ws s = do {
     c \<leftarrow> current s;
     let s = wait_init w c s;
     let s = upd_proc c (\<lambda>x. x\<lparr>state := PROC_SLEEPING, wait_state := ws\<rparr>) s;
     wait_queue_add q w s }"

definition wait_current_del :: "nat \<Rightarrow> nat \<Rightarrow> kstate \<Rightarrow> kstate option" where
  "wait_current_del q w s = (if wait_in_queue w s then wait_queue_del q w s else Some s)"

section \<open>Semaphores\<close>

definition upd_sem :: "nat \<Rightarrow> (int \<Rightarrow> int) \<Rightarrow> kstate \<Rightarrow> kstate" where
  "upd_sem q f s = s\<lparr>sem_value := (sem_value s)(q := f (sem_value s q))\<rparr>"

definition sem_init :: "nat \<Rightarrow> int \<Rightarrow> kstate \<Rightarrow> kstate" where
  "sem_init q v s = wait_queue_init q (upd_sem q (\<lambda>_. v) s)"

definition up_wait_state :: "sched_class \<Rightarrow> nat \<Rightarrow> 32 word \<Rightarrow> kstate \<Rightarrow> kstate option" where
  "up_wait_state sc q ws s =
    (case wait_queue_first q s of
       None \<Rightarrow> Some (upd_sem q (\<lambda>v. v + 1) s)
     | Some w \<Rightarrow> do {
         p \<leftarrow> w_proc (waits s w);
         assert_k (wait_state (procs s p) = ws);
         wakeup_wait sc q w ws True s })"

text \<open>The result says whether the semaphore was taken at once; otherwise \<open>schedule\<close> is called next.\<close>

definition down_enter_wait_state ::
    "nat \<Rightarrow> nat \<Rightarrow> 32 word \<Rightarrow> kstate \<Rightarrow> (kstate \<times> bool) option" where
  "down_enter_wait_state q w ws s =
    (if 0 < sem_value s q then Some (upd_sem q (\<lambda>v. v - 1) s, True)
     else do {
       s \<leftarrow> wait_current_set q w ws s;
       Some (s, False) })"

definition down_resume_wait_state :: "nat \<Rightarrow> nat \<Rightarrow> 32 word \<Rightarrow> kstate \<Rightarrow> (kstate \<times> 32 word) option" where
  "down_resume_wait_state q w ws s = do {
     s \<leftarrow> wait_current_del q w s;
     Some (s, if wakeup_flags (waits s w) \<noteq> ws then wakeup_flags (waits s w) else 0) }"

definition up :: "sched_class \<Rightarrow> nat \<Rightarrow> kstate \<Rightarrow> kstate option" where
  "up sc q s = up_wait_state sc q WT_KSEM s"

definition down_enter :: "nat \<Rightarrow> nat \<Rightarrow> kstate \<Rightarrow> (kstate \<times> bool) option" where
  "down_enter q w s = down_enter_wait_state q w WT_KSEM s"

definition down_resume :: "nat \<Rightarrow> nat \<Rightarrow> kstate \<Rightarrow> kstate option" where
  "down_resume q w s = do {
     (s, flags) \<leftarrow> down_resume_wait_state q w WT_KSEM s;
     assert_k (flags = 0);
     Some s }"

definition try_down :: "nat \<Rightarrow> kstate \<Rightarrow> kstate \<times> bool" where
  "try_down q s = (if 0 < sem_value s q then (upd_sem q (\<lambda>v. v - 1) s, True) else (s, False))"

section \<open>The wait queue as a queue\<close>

lemma upd_wait_simps [simp]:
  "waits (upd_wait w f s) = (waits s)(w := f (waits s w))"
  "wait_links (upd_wait w f s) = wait_links s" "procs (upd_wait w f s) = procs s"
  "current (upd_wait w f s) = current s" "idleproc (upd_wait w f s) = idleproc s"
  "sem_value (upd_wait w f s) = sem_value s" "run_links (upd_wait w f s) = run_links s"
  "proc_num (upd_wait w f s) = proc_num s" "max_time_slice (upd_wait w f s) = max_time_slice s"
  by (simp_all add: upd_wait_def)

lemma upd_sem_simps [simp]:
  "waits (upd_sem q g s) = waits s" "wait_links (upd_sem q g s) = wait_links s"
  "procs (upd_sem q g s) = procs s" "current (upd_sem q g s) = current s"
  "idleproc (upd_sem q g s) = idleproc s"
  "sem_value (upd_sem q g s) = (sem_value s)(q := g (sem_value s q))"
  "run_links (upd_sem q g s) = run_links s"
  "proc_num (upd_sem q g s) = proc_num s" "max_time_slice (upd_sem q g s) = max_time_slice s"
  by (simp_all add: upd_sem_def)

definition wq_ok :: "nat \<Rightarrow> kstate \<Rightarrow> nat list \<Rightarrow> bool" where
  "wq_ok q s ws \<longleftrightarrow>
     ring (wait_links s) (WaitHead q) (map WaitLink ws) \<and>
     (\<forall>w\<in>set ws. wait_queue (waits s w) = q \<and> w_proc (waits s w) \<noteq> None)"

lemma wq_ok_distinct: "wq_ok q s ws \<Longrightarrow> distinct ws"
  by (auto simp: wq_ok_def distinct_map dest: ring_distinct)

lemma wait_queue_first_eq: "wq_ok q s ws \<Longrightarrow> wait_queue_first q s = (case ws of [] \<Rightarrow> None | w # _ \<Rightarrow> Some w)"
  using ring_first [of "wait_links s" "WaitHead q" "map WaitLink ws"]
  by (auto simp: wait_queue_first_def wq_ok_def list_next_def wait_of_def split: list.split)

lemma wait_queue_last_eq: "wq_ok q s ws \<Longrightarrow> wait_queue_last q s = (if ws = [] then None else Some (last ws))"
  using ring_last [of "wait_links s" "WaitHead q" "map WaitLink ws"]
  by (auto simp: wait_queue_last_def wq_ok_def list_prev_def wait_of_def last_map)

lemma wait_queue_add_ok:
  assumes ok: "wq_ok q s ws" and w: "w_proc (waits s w) \<noteq> None"
    and e: "list_empty (WaitLink w) (wait_links s)"
  shows "\<exists>s'. wait_queue_add q w s = Some s' \<and> wq_ok q s' (ws @ [w]) \<and>
    s' = s\<lparr>waits := (waits s)(w := (waits s w)\<lparr>wait_queue := q\<rparr>),
           wait_links := list_add_before (WaitHead q) (WaitLink w) (wait_links s)\<rparr>"
proof -
  have r: "ring (wait_links s) (WaitHead q) (map WaitLink ws)" using ok by (simp add: wq_ok_def)
  have "WaitLink w \<notin> set (WaitHead q # map WaitLink ws)" using ring_unlinked [OF r e] by simp
  from ring_list_add_before_head [OF r this]
  have "ring (list_add_before (WaitHead q) (WaitLink w) (wait_links s)) (WaitHead q) (map WaitLink (ws @ [w]))"
    by simp
  then show ?thesis using ok w e by (auto simp: wait_queue_add_def upd_wait_def wq_ok_def)
qed

lemma wait_queue_del_ok:
  assumes ok: "wq_ok q s (us @ w # vs)"
  shows "wait_queue_del q w s = Some (s\<lparr>wait_links := list_del_init (WaitLink w) (wait_links s)\<rparr>)"
    and "wq_ok q (s\<lparr>wait_links := list_del_init (WaitLink w) (wait_links s)\<rparr>) (us @ vs)"
proof -
  have r: "ring (wait_links s) (WaitHead q) (map WaitLink us @ WaitLink w # map WaitLink vs)"
    using ok by (simp add: wq_ok_def)
  show "wait_queue_del q w s = Some (s\<lparr>wait_links := list_del_init (WaitLink w) (wait_links s)\<rparr>)"
    using ring_member_next [OF r, of "WaitLink w"] ok by (simp add: wait_queue_del_def wq_ok_def)
  show "wq_ok q (s\<lparr>wait_links := list_del_init (WaitLink w) (wait_links s)\<rparr>) (us @ vs)"
    using ring_list_del_init [OF r] ok by (simp add: wq_ok_def)
qed

interpretation wait_fifo:
  fifo_queue "wq_ok q" "\<lambda>w s. w_proc (waits s w) \<noteq> None \<and> list_empty (WaitLink w) (wait_links s)"
    "\<lambda>w s. the (wait_queue_add q w s)" "\<lambda>w s. the (wait_queue_del q w s)" "wait_queue_first q" for q
proof unfold_locales
  fix s xs e assume "wq_ok q s xs" "e \<notin> set xs"
    "w_proc (waits s e) \<noteq> None \<and> list_empty (WaitLink e) (wait_links s)"
  then show "wq_ok q (the (wait_queue_add q e s)) (xs @ [e])" using wait_queue_add_ok by fastforce
next
  fix s ys e zs assume "wq_ok q s (ys @ e # zs)"
  then show "wq_ok q (the (wait_queue_del q e s)) (ys @ zs)" using wait_queue_del_ok by fastforce
next
  fix s xs assume "wq_ok q s xs"
  then show "wait_queue_first q s = (case xs of [] \<Rightarrow> None | x # _ \<Rightarrow> Some x)"
    by (rule wait_queue_first_eq)
next
  fix s :: kstate and xs e d
  assume ok: "wq_ok q s xs" and e: "w_proc (waits s e) \<noteq> None \<and> list_empty (WaitLink e) (wait_links s)"
    and d: "w_proc (waits s d) \<noteq> None \<and> list_empty (WaitLink d) (wait_links s)" "e \<notin> set (d # xs)"
  have r: "ring (wait_links s) (WaitHead q) (map WaitLink xs)" using ok by (simp add: wq_ok_def)
  have "WaitLink e \<notin> set (WaitHead q # WaitLink d # map WaitLink xs)" using d(2) by auto
  from list_empty_add_before [OF r this]
  show "w_proc (waits (the (wait_queue_add q d s)) e) \<noteq> None \<and>
      list_empty (WaitLink e) (wait_links (the (wait_queue_add q d s)))"
    using e d by (simp add: wait_queue_add_def)
qed

section \<open>What the semaphore operations do\<close>

definition sem_ok :: "nat \<Rightarrow> kstate \<Rightarrow> nat list \<Rightarrow> bool" where
  "sem_ok q s ws \<longleftrightarrow> wq_ok q s ws \<and> 0 \<le> sem_value s q \<and> (0 < sem_value s q \<longrightarrow> ws = []) \<and>
     (\<forall>w\<in>set ws. \<exists>p. w_proc (waits s w) = Some p \<and> state (procs s p) = PROC_SLEEPING \<and>
        wait_state (procs s p) = WT_KSEM) \<and>
     distinct (map (\<lambda>w. w_proc (waits s w)) ws)"

lemma sem_ok_init: "0 \<le> v \<Longrightarrow> sem_ok q (sem_init q v s) []"
  by (simp add: sem_ok_def sem_init_def wait_queue_init_def wq_ok_def ring_list_init upd_sem_def)

lemma wq_ok_cong:
  "wq_ok q s ws \<Longrightarrow> wait_links s' = wait_links s \<Longrightarrow>
   \<forall>w\<in>set ws. wait_queue (waits s' w) = wait_queue (waits s w) \<and> w_proc (waits s' w) = w_proc (waits s w) \<Longrightarrow>
   wq_ok q s' ws"
  by (simp add: wq_ok_def)

lemma wq_ok_disjoint: "wq_ok q s ws \<Longrightarrow> wq_ok r s us \<Longrightarrow> q \<noteq> r \<Longrightarrow> set ws \<inter> set us = {}"
  by (auto simp: wq_ok_def)

lemma wq_ok_del_other:
  assumes "wq_ok q s (us @ w # vs)" and "wq_ok r s xs" and "q \<noteq> r"
  shows "wq_ok r (s\<lparr>wait_links := list_del_init (WaitLink w) (wait_links s)\<rparr>) xs"
proof -
  have d: "set (us @ w # vs) \<inter> set xs = {}" by (rule wq_ok_disjoint [OF assms])
  have r: "ring (wait_links s) (WaitHead q) (map WaitLink us @ WaitLink w # map WaitLink vs)"
    and r': "ring (wait_links s) (WaitHead r) (map WaitLink xs)" using assms by (auto simp: wq_ok_def)
  have "ring (list_del (WaitLink w) (wait_links s)) (WaitHead r) (map WaitLink xs)"
    using d assms(3) by (intro ring_list_del_other [OF r r']) auto
  then have "ring (list_del_init (WaitLink w) (wait_links s)) (WaitHead r) (map WaitLink xs)"
    unfolding list_del_init_def using d by (intro ring_list_init_other) auto
  then show ?thesis using assms(2) by (simp add: wq_ok_def)
qed

lemma WT_KSEM_nonzero [simp]: "WT_KSEM \<noteq> 0" "WT_INTERRUPTED \<noteq> WT_KSEM"
  by (simp_all add: WT_KSEM_def WT_INTERRUPTED_def)

context sched_laws
begin

lemma up_empty:
  assumes "sem_ok q s []" and "sched_ok rel s"
  shows "\<exists>s'. up sc q s = Some s' \<and> sem_value s' q = sem_value s q + 1 \<and> sem_ok q s' [] \<and> sched_ok rel s'"
proof -
  have "wait_queue_first q s = None" using assms(1) wait_queue_first_eq [of q s "[]"] by (simp add: sem_ok_def)
  then have "up sc q s = Some (upd_sem q (\<lambda>v. v + 1) s)" by (simp add: up_def up_wait_state_def)
  moreover have "sched_ok rel (upd_sem q (\<lambda>v. v + 1) s)"
    by (rule sched_ok_cong [OF assms(2)]) (simp_all add: same_rq_def)
  ultimately show ?thesis using assms(1) by (simp add: sem_ok_def wq_ok_def)
qed

lemma up_wakes:
  assumes ok: "sem_ok q s (w # vs)" and sch: "sched_ok rel s" and p: "w_proc (waits s w) = Some p"
  shows "\<exists>s'. up sc q s = Some s' \<and> sem_value s' = sem_value s \<and> sem_ok q s' vs \<and> sched_ok rel s' \<and>
    state (procs s' p) = PROC_RUNNABLE \<and> wakeup_flags (waits s' w) = WT_KSEM \<and> \<not> wait_in_queue w s' \<and>
    (\<forall>r xs. r \<noteq> q \<and> wq_ok r s xs \<longrightarrow> wq_ok r s' xs)"
proof -
  have wq: "wq_ok q s ([] @ w # vs)" and st: "state (procs s p) = PROC_SLEEPING" "wait_state (procs s p) = WT_KSEM"
    using ok p by (auto simp: sem_ok_def)
  have first: "wait_queue_first q s = Some w" using wait_queue_first_eq [OF wq] by simp
  let ?s1 = "s\<lparr>wait_links := list_del_init (WaitLink w) (wait_links s)\<rparr>"
  let ?s2 = "upd_wait w (\<lambda>x. x\<lparr>wakeup_flags := WT_KSEM\<rparr>) ?s1"
  have del: "wait_queue_del q w s = Some ?s1" and wq1: "wq_ok q ?s1 vs"
    using wait_queue_del_ok [OF wq] by simp_all
  have sch2: "sched_ok rel ?s2" by (rule sched_ok_cong [OF sch]) (simp_all add: same_rq_def)
  have "state (procs ?s2 p) \<noteq> PROC_ZOMBIE" using st by simp
  from wakeup_ok [OF sch2 this] obtain s' where s': "wakeup_proc sc p ?s2 = Some s'" "sched_ok rel s'"
    "state (procs s' p) = PROC_RUNNABLE"
    "\<forall>x. x \<noteq> p \<longrightarrow> state (procs s' x) = state (procs ?s2 x) \<and> wait_state (procs s' x) = wait_state (procs ?s2 x)"
    "waits s' = waits ?s2" "wait_links s' = wait_links ?s2" "sem_value s' = sem_value ?s2" by metis
  have "up sc q s = Some s'"
    using first p st del s'(1) by (simp add: up_def up_wait_state_def wakeup_wait_def)
  moreover have "sem_ok q s' vs"
  proof -
    have nw: "w \<notin> set vs" using wq_ok_distinct [OF wq] by simp
    have "wq_ok q s' vs" using wq_ok_cong [OF wq1, of s'] s'(5,6) nw by simp
    moreover have np: "\<forall>v\<in>set vs. w_proc (waits s v) \<noteq> Some p"
      using ok p by (force simp: sem_ok_def image_iff)
    moreover have "\<forall>v\<in>set vs. \<exists>x. w_proc (waits s' v) = Some x \<and> state (procs s' x) = PROC_SLEEPING \<and>
        wait_state (procs s' x) = WT_KSEM"
    proof
      fix v assume v: "v \<in> set vs"
      then obtain x where x: "w_proc (waits s v) = Some x" "state (procs s x) = PROC_SLEEPING"
        "wait_state (procs s x) = WT_KSEM" using ok by (auto simp: sem_ok_def)
      then have "x \<noteq> p" using np v by auto
      then show "\<exists>x. w_proc (waits s' v) = Some x \<and> state (procs s' x) = PROC_SLEEPING \<and>
        wait_state (procs s' x) = WT_KSEM" using x s'(4,5) v nw by auto
    qed
    moreover have "0 \<le> sem_value s q \<and> \<not> 0 < sem_value s q" using ok by (simp add: sem_ok_def)
    moreover have "distinct (map (\<lambda>w. w_proc (waits s' w)) vs)"
      using ok s'(5) distinct_map_cong [of vs "\<lambda>w. w_proc (waits s' w)" "\<lambda>w. w_proc (waits s w)"]
      by (simp add: sem_ok_def)
    ultimately show ?thesis using s'(7) unfolding sem_ok_def by simp
  qed
  moreover have "\<not> wait_in_queue w s'" using s'(6) by (simp add: wait_in_queue_def list_del_init_empty)
  moreover have "\<forall>r xs. r \<noteq> q \<and> wq_ok r s xs \<longrightarrow> wq_ok r s' xs"
  proof (intro allI impI)
    fix r xs assume r: "r \<noteq> q \<and> wq_ok r s xs"
    have "w \<notin> set xs" using wq_ok_disjoint [OF wq] r by auto
    moreover have "wq_ok r ?s1 xs" using wq_ok_del_other [OF wq] r by auto
    ultimately show "wq_ok r s' xs" using wq_ok_cong [of r ?s1 xs s'] s'(5,6) by simp
  qed
  ultimately show ?thesis using s' by simp
qed

lemma down_takes:
  assumes "sem_ok q s ws" and "sched_ok rel s" and "0 < sem_value s q"
  shows "\<exists>s'. down_enter q w s = Some (s', True) \<and> sem_value s' q = sem_value s q - 1 \<and>
    sem_ok q s' [] \<and> sched_ok rel s' \<and> current s' = current s"
proof -
  have "sched_ok rel (upd_sem q (\<lambda>v. v - 1) s)"
    by (rule sched_ok_cong [OF assms(2)]) (simp_all add: same_rq_def)
  then show ?thesis using assms
    by (auto simp: down_enter_def down_enter_wait_state_def sem_ok_def wq_ok_def)
qed

lemma down_blocks:
  assumes ok: "sem_ok q s ws" and sch: "sched_ok rel s" and v: "\<not> 0 < sem_value s q"
    and c: "current s = Some c" "state (procs s c) = PROC_RUNNABLE" and w: "w \<notin> set ws"
  shows "\<exists>s'. down_enter q w s = Some (s', False) \<and> sem_value s' = sem_value s \<and>
    sem_ok q s' (ws @ [w]) \<and> sched_ok rel s' \<and> w_proc (waits s' w) = Some c \<and>
    state (procs s' c) = PROC_SLEEPING \<and> current s' = Some c"
proof -
  define s1 where "s1 = upd_proc c (\<lambda>x. x\<lparr>state := PROC_SLEEPING, wait_state := WT_KSEM\<rparr>) (wait_init w c s)"
  have f: "waits s1 = (waits s)(w := (waits s w)\<lparr>w_proc := Some c, wakeup_flags := WT_INTERRUPTED\<rparr>)"
    "wait_links s1 = list_init (WaitLink w) (wait_links s)" "sem_value s1 = sem_value s"
    "procs s1 = (procs s)(c := (procs s c)\<lparr>state := PROC_SLEEPING, wait_state := WT_KSEM\<rparr>)"
    "current s1 = current s" "idleproc s1 = idleproc s"
    by (simp_all add: s1_def wait_init_def Let_def)
  have r: "ring (wait_links s) (WaitHead q) (map WaitLink ws)" using ok by (simp add: sem_ok_def wq_ok_def)
  have "ring (wait_links s1) (WaitHead q) (map WaitLink ws)"
    unfolding f using w by (intro ring_list_init_other [OF r]) auto
  then have wq1: "wq_ok q s1 ws" using ok w by (auto simp: sem_ok_def wq_ok_def f)
  have "list_empty (WaitLink w) (wait_links s1)" by (simp add: f list_init_def list_empty_def)
  then obtain s2 where s2: "wait_queue_add q w s1 = Some s2" "wq_ok q s2 (ws @ [w])"
    "s2 = s1\<lparr>waits := (waits s1)(w := (waits s1 w)\<lparr>wait_queue := q\<rparr>),
           wait_links := list_add_before (WaitHead q) (WaitLink w) (wait_links s1)\<rparr>"
    using wait_queue_add_ok [OF wq1, of w] by (auto simp: f)
  have set_ok: "wait_current_set q w WT_KSEM s = Some s2"
    using c s2(1) by (simp add: wait_current_set_def s1_def)
  have sch1: "sched_ok rel s1"
    by (rule sched_ok_cong [OF sch]) (auto simp: same_rq_def s1_def wait_init_def Let_def c)
  have sch2: "sched_ok rel s2" by (rule sched_ok_cong [OF sch1]) (auto simp: same_rq_def s2(3))
  have p2: "procs s2 = procs s1" "sem_value s2 = sem_value s" "current s2 = Some c" using s2(3) f c by simp_all
  have sleep: "state (procs s2 c) = PROC_SLEEPING" "wait_state (procs s2 c) = WT_KSEM" by (simp_all add: p2(1) f)
  have "sem_ok q s2 (ws @ [w])"
    unfolding sem_ok_def
  proof (intro conjI)
    show "wq_ok q s2 (ws @ [w])" by (rule s2(2))
    have wait': "w_proc (waits s2 w) = Some c" "\<forall>v\<in>set ws. w_proc (waits s2 v) = w_proc (waits s v)"
      using w by (auto simp: s2(3) f)
    have other: "\<forall>v\<in>set ws. \<exists>p. w_proc (waits s v) = Some p \<and> p \<noteq> c \<and>
      state (procs s p) = PROC_SLEEPING \<and> wait_state (procs s p) = WT_KSEM"
      using ok c(2) by (fastforce simp: sem_ok_def)
    then show "\<forall>v\<in>set (ws @ [w]). \<exists>p. w_proc (waits s2 v) = Some p \<and>
        state (procs s2 p) = PROC_SLEEPING \<and> wait_state (procs s2 p) = WT_KSEM"
      using wait' sleep p2(1) by (fastforce simp: f)
    have "distinct (map (\<lambda>v. w_proc (waits s2 v)) ws) = distinct (map (\<lambda>v. w_proc (waits s v)) ws)"
      by (rule distinct_map_cong [OF wait'(2)])
    moreover have "Some c \<notin> set (map (\<lambda>v. w_proc (waits s v)) ws)" using other by fastforce
    ultimately show "distinct (map (\<lambda>v. w_proc (waits s2 v)) (ws @ [w]))"
      using ok wait' by (auto simp: sem_ok_def)
  qed (use ok v p2(2) in \<open>auto simp: sem_ok_def\<close>)
  moreover have "down_enter q w s = Some (s2, False)"
    using v set_ok by (simp add: down_enter_def down_enter_wait_state_def)
  moreover have "w_proc (waits s2 w) = Some c" by (simp add: s2(3) f)
  ultimately show ?thesis using sch2 sleep p2 by auto
qed

end

section \<open>Waking a whole queue\<close>

context sched_laws
begin

lemma wakeup_wait_del_ok:
  assumes wq: "wq_ok q s (w # vs)" and sch: "sched_ok rel s"
    and p: "w_proc (waits s w) = Some p" "state (procs s p) \<noteq> PROC_ZOMBIE"
  shows "\<exists>s'. wakeup_wait sc q w fl True s = Some s' \<and> wq_ok q s' vs \<and> sched_ok rel s' \<and>
    state (procs s' p) = PROC_RUNNABLE \<and> wakeup_flags (waits s' w) = fl \<and>
    (\<forall>x. x \<noteq> p \<longrightarrow> state (procs s' x) = state (procs s x)) \<and>
    (\<forall>x. x \<noteq> w \<longrightarrow> waits s' x = waits s x) \<and> w_proc (waits s' w) = Some p \<and>
    \<not> wait_in_queue w s' \<and> (\<forall>x. \<not> wait_in_queue x s \<longrightarrow> \<not> wait_in_queue x s')"
proof -
  have wq': "wq_ok q s ([] @ w # vs)" using wq by simp
  let ?s1 = "s\<lparr>wait_links := list_del_init (WaitLink w) (wait_links s)\<rparr>"
  let ?s2 = "upd_wait w (\<lambda>x. x\<lparr>wakeup_flags := fl\<rparr>) ?s1"
  have del: "wait_queue_del q w s = Some ?s1" and wq1: "wq_ok q ?s1 vs"
    using wait_queue_del_ok [OF wq'] by simp_all
  have sch2: "sched_ok rel ?s2" by (rule sched_ok_cong [OF sch]) (simp_all add: same_rq_def)
  have "state (procs ?s2 p) \<noteq> PROC_ZOMBIE" using p by simp
  from wakeup_ok [OF sch2 this] obtain s' where s': "wakeup_proc sc p ?s2 = Some s'" "sched_ok rel s'"
    "state (procs s' p) = PROC_RUNNABLE" "\<forall>x. x \<noteq> p \<longrightarrow> state (procs s' x) = state (procs ?s2 x)"
    "waits s' = waits ?s2" "wait_links s' = wait_links ?s2" by metis
  have "w \<notin> set vs" using wq_ok_distinct [OF wq] by simp
  then have "wq_ok q s' vs" using wq_ok_cong [OF wq1, of s'] s'(5,6) by simp
  moreover have "l_prev (wait_links s) (WaitLink w) = WaitHead q"
    using ring_step(2) [of "wait_links s" "WaitHead q" "[]" "WaitLink w" "map WaitLink vs"] wq by (simp add: wq_ok_def)
  then have "\<not> wait_in_queue w s' \<and> (\<forall>x. \<not> wait_in_queue x s \<longrightarrow> \<not> wait_in_queue x s')"
    using s'(6) by (auto simp: wait_in_queue_def list_ops)
  ultimately show ?thesis using p del s' by (simp add: wakeup_wait_def)
qed

lemma wakeup_queue_del_ok:
  assumes "wq_ok q s (w # vs)" and "sched_ok rel s"
    and "\<forall>v\<in>set (w # vs). \<exists>p. w_proc (waits s v) = Some p \<and> state (procs s p) \<noteq> PROC_ZOMBIE"
  shows "\<exists>s'. wakeup_queue_del_loop sc q w fl s = Some s' \<and> wq_ok q s' [] \<and> sched_ok rel s' \<and>
    (\<forall>v\<in>set (w # vs). \<forall>p. w_proc (waits s v) = Some p \<longrightarrow> state (procs s' p) = PROC_RUNNABLE) \<and>
    (\<forall>v\<in>set (w # vs). wakeup_flags (waits s' v) = fl) \<and>
    (\<forall>x. x \<notin> set (w # vs) \<longrightarrow> waits s' x = waits s x) \<and>
    (\<forall>x. state (procs s x) = PROC_RUNNABLE \<longrightarrow> state (procs s' x) = PROC_RUNNABLE) \<and>
    (\<forall>v\<in>set (w # vs). \<not> wait_in_queue v s') \<and> (\<forall>x. \<not> wait_in_queue x s \<longrightarrow> \<not> wait_in_queue x s')"
  using assms
proof (induction vs arbitrary: w s)
  case Nil
  obtain p where p: "w_proc (waits s w) = Some p" "state (procs s p) \<noteq> PROC_ZOMBIE" using Nil.prems by auto
  obtain s' where s': "wakeup_wait sc q w fl True s = Some s'" "wq_ok q s' []" "sched_ok rel s'"
    "state (procs s' p) = PROC_RUNNABLE" "wakeup_flags (waits s' w) = fl"
    "\<forall>x. x \<noteq> p \<longrightarrow> state (procs s' x) = state (procs s x)" "\<forall>x. x \<noteq> w \<longrightarrow> waits s' x = waits s x"
    "\<not> wait_in_queue w s'" "\<forall>x. \<not> wait_in_queue x s \<longrightarrow> \<not> wait_in_queue x s'"
    using wakeup_wait_del_ok [OF Nil.prems(1,2) p] by blast
  have "wakeup_queue_del_loop sc q w fl s = Some s'"
    using s'(1) wait_queue_first_eq [OF s'(2)] by (subst wakeup_queue_del_loop.simps) simp
  then show ?case using s' p by auto
next
  case (Cons v vs)
  obtain p where p: "w_proc (waits s w) = Some p" "state (procs s p) \<noteq> PROC_ZOMBIE" using Cons.prems by auto
  obtain s1 where s1: "wakeup_wait sc q w fl True s = Some s1" "wq_ok q s1 (v # vs)" "sched_ok rel s1"
    "state (procs s1 p) = PROC_RUNNABLE" "wakeup_flags (waits s1 w) = fl"
    "\<forall>x. x \<noteq> p \<longrightarrow> state (procs s1 x) = state (procs s x)" "\<forall>x. x \<noteq> w \<longrightarrow> waits s1 x = waits s x"
    "\<not> wait_in_queue w s1" "\<forall>x. \<not> wait_in_queue x s \<longrightarrow> \<not> wait_in_queue x s1"
    using wakeup_wait_del_ok [OF Cons.prems(1,2) p] by blast
  have nw: "w \<notin> set (v # vs)" using wq_ok_distinct [OF Cons.prems(1)] by simp
  have "\<forall>u\<in>set (v # vs). \<exists>p. w_proc (waits s1 u) = Some p \<and> state (procs s1 p) \<noteq> PROC_ZOMBIE"
  proof
    fix u assume u: "u \<in> set (v # vs)"
    then obtain x where x: "w_proc (waits s u) = Some x" "state (procs s x) \<noteq> PROC_ZOMBIE"
      using Cons.prems(3) by auto
    have "w_proc (waits s1 u) = Some x" using x(1) s1(7) nw u by auto
    moreover have "state (procs s1 x) \<noteq> PROC_ZOMBIE" using x(2) s1(4,6) by (cases "x = p") auto
    ultimately show "\<exists>p. w_proc (waits s1 u) = Some p \<and> state (procs s1 p) \<noteq> PROC_ZOMBIE" by blast
  qed
  from Cons.IH [OF s1(2,3) this] obtain s' where IH: "wakeup_queue_del_loop sc q v fl s1 = Some s'"
    "wq_ok q s' []" "sched_ok rel s'"
    "\<forall>u\<in>set (v # vs). \<forall>p. w_proc (waits s1 u) = Some p \<longrightarrow> state (procs s' p) = PROC_RUNNABLE"
    "\<forall>u\<in>set (v # vs). wakeup_flags (waits s' u) = fl"
    "\<forall>x. x \<notin> set (v # vs) \<longrightarrow> waits s' x = waits s1 x"
    "\<forall>x. state (procs s1 x) = PROC_RUNNABLE \<longrightarrow> state (procs s' x) = PROC_RUNNABLE"
    "\<forall>u\<in>set (v # vs). \<not> wait_in_queue u s'" "\<forall>x. \<not> wait_in_queue x s1 \<longrightarrow> \<not> wait_in_queue x s'" by blast
  have "wakeup_queue_del_loop sc q w fl s = Some s'"
    using s1(1) wait_queue_first_eq [OF s1(2)] IH(1) by (subst wakeup_queue_del_loop.simps) simp
  moreover have "\<forall>x. state (procs s x) = PROC_RUNNABLE \<longrightarrow> state (procs s' x) = PROC_RUNNABLE"
    using IH(7) s1(4,6) by metis
  moreover have "\<forall>u\<in>set (w # v # vs). \<forall>p. w_proc (waits s u) = Some p \<longrightarrow> state (procs s' p) = PROC_RUNNABLE"
  proof (intro ballI allI impI)
    fix u x assume u: "u \<in> set (w # v # vs)" "w_proc (waits s u) = Some x"
    show "state (procs s' x) = PROC_RUNNABLE"
    proof (cases "u = w")
      case True
      then show ?thesis using u p s1(4) IH(7) by simp
    next
      case False
      then have "u \<in> set (v # vs)" "w_proc (waits s1 u) = Some x" using u s1(7) by auto
      then show ?thesis using IH(4) by blast
    qed
  qed
  moreover have "\<forall>u\<in>set (w # v # vs). wakeup_flags (waits s' u) = fl"
    using IH(5,6) s1(5) nw by auto
  moreover have "\<forall>x. x \<notin> set (w # v # vs) \<longrightarrow> waits s' x = waits s x" using IH(6) s1(7) by auto
  moreover have "\<forall>u\<in>set (w # v # vs). \<not> wait_in_queue u s'" "\<forall>x. \<not> wait_in_queue x s \<longrightarrow> \<not> wait_in_queue x s'"
    using IH(8,9) s1(8,9) by auto
  ultimately show ?case using IH(2,3) by blast
qed

end

section \<open>Properties\<close>

text \<open>C14. \<open>up\<close>.  Without waiters it adds one to the value and changes nothing else.  With waiters
  it hands the permit over: the first waiter is unlinked and its process made runnable with the
  wakeup flags \<open>WT_KSEM\<close>, the value stays, the other waiters keep their order, and no other wait
  queue is touched; the rest of the woken process' \<open>down\<close> then returns.\<close>

theorem up_hands_over:
  assumes "sem_ok q s ws" and "sched_ok rr_rel s"
  shows "case ws of
    [] \<Rightarrow> up RR_class q s = Some (s\<lparr>sem_value := (sem_value s)(q := sem_value s q + 1)\<rparr>) \<and>
      sem_ok q (s\<lparr>sem_value := (sem_value s)(q := sem_value s q + 1)\<rparr>) []
  | w # vs \<Rightarrow> (\<exists>p s'. w_proc (waits s w) = Some p \<and> up RR_class q s = Some s' \<and> sem_value s' = sem_value s \<and>
      sem_ok q s' vs \<and> sched_ok rr_rel s' \<and> state (procs s' p) = PROC_RUNNABLE \<and> down_resume q w s' = Some s' \<and>
      (\<forall>r xs. r \<noteq> q \<and> wq_ok r s xs \<longrightarrow> wq_ok r s' xs))"
proof (cases ws)
  case Nil
  then have "wait_queue_first q s = None"
    using assms(1) wait_queue_first_eq [of q s "[]"] by (simp add: sem_ok_def)
  then show ?thesis using assms(1) Nil
    by (simp add: up_def up_wait_state_def upd_sem_def sem_ok_def wq_ok_def)
next
  case (Cons w vs)
  then obtain p where p: "w_proc (waits s w) = Some p" using assms(1) by (auto simp: sem_ok_def)
  obtain s' where s': "up RR_class q s = Some s'" "sem_value s' = sem_value s" "sem_ok q s' vs"
    "sched_ok rr_rel s'" "state (procs s' p) = PROC_RUNNABLE" "wakeup_flags (waits s' w) = WT_KSEM"
    "\<not> wait_in_queue w s'" "\<forall>r xs. r \<noteq> q \<and> wq_ok r s xs \<longrightarrow> wq_ok r s' xs"
    using rr.up_wakes [OF assms(1) [unfolded Cons] assms(2) p] by blast
  then have "down_resume q w s' = Some s'"
    by (simp add: down_resume_def down_resume_wait_state_def wait_current_del_def)
  then show ?thesis using p s' unfolding Cons list.case by blast
qed

text \<open>\<open>down\<close>, up to its call of \<open>schedule\<close>: with a positive value it takes a permit at once; otherwise
  the calling process is asleep as the last waiter.  The number of permits minus the number of
  waiters falls by one in both cases.\<close>

theorem down_takes_or_sleeps:
  assumes "sem_ok q s ws" and "sched_ok rr_rel s" and "current s = Some c"
    and "state (procs s c) = PROC_RUNNABLE" and "w \<notin> set ws"
  shows "\<exists>s' b ws'. down_enter q w s = Some (s', b) \<and> sem_ok q s' ws' \<and> sched_ok rr_rel s' \<and>
    sem_value s' q - int (length ws') = sem_value s q - int (length ws) - 1 \<and>
    (b \<longleftrightarrow> 0 < sem_value s q) \<and> current s' = Some c \<and>
    (if b then ws' = []
     else ws' = ws @ [w] \<and> w_proc (waits s' w) = Some c \<and> state (procs s' c) = PROC_SLEEPING)"
proof (cases "0 < sem_value s q")
  case True
  then have "ws = []" using assms(1) by (simp add: sem_ok_def)
  then show ?thesis using rr.down_takes [OF assms(1,2) True, of w] True assms(3) by auto
next
  case False
  then show ?thesis using rr.down_blocks [OF assms(1,2) False assms(3,4,5)] by auto
qed

text \<open>Wait queues are first in, first out: after waits have been queued in some order and
  the first ones removed, \<open>wait_queue_first\<close> is the next one in that order.\<close>

theorem wait_queue_is_fifo:
  assumes "wq_ok q s []" and "distinct (xs @ y # ys)"
    and "\<forall>w\<in>set (xs @ y # ys). w_proc (waits s w) \<noteq> None \<and> list_empty (WaitLink w) (wait_links s)"
  shows "wait_queue_first q (fold (\<lambda>w s. the (wait_queue_del q w s)) xs
    (fold (\<lambda>w s. the (wait_queue_add q w s)) (xs @ y # ys) s)) = Some y"
  using assms by (rule wait_fifo.first_in_first_out)

text \<open>\<open>wakeup_queue\<close> with deletion empties the queue and makes every waiting process runnable
  with the given flags; the loop ends.\<close>

theorem wakeup_queue_wakes_all:
  assumes "wq_ok q s ws" and "sched_ok rr_rel s"
    and "\<forall>v\<in>set ws. \<exists>p. w_proc (waits s v) = Some p \<and> state (procs s p) \<noteq> PROC_ZOMBIE"
  shows "\<exists>s'. wakeup_queue RR_class q fl True s = Some s' \<and> wq_ok q s' [] \<and> sched_ok rr_rel s' \<and>
    (\<forall>v\<in>set ws. wakeup_flags (waits s' v) = fl \<and>
      (\<forall>p. w_proc (waits s v) = Some p \<longrightarrow> state (procs s' p) = PROC_RUNNABLE))"
proof (cases ws)
  case Nil
  then show ?thesis using assms wait_queue_first_eq [OF assms(1)] by (simp add: wakeup_queue_def)
next
  case (Cons w vs)
  then show ?thesis
    using rr.wakeup_queue_del_ok [of q s w vs fl] assms wait_queue_first_eq [OF assms(1)]
    by (auto simp: wakeup_queue_def)
qed

subsection \<open>The properties at work\<close>

text \<open>Process 1 runs; process 3 waits for semaphore 0 with the wait entry 7.\<close>

definition sem_sample :: kstate where
  "sem_sample = rr_sample\<lparr>
     procs := (procs rr_sample)(3 := (sample_proc PROC_SLEEPING False)\<lparr>wait_state := WT_KSEM\<rparr>),
     waits := (\<lambda>_. \<lparr>w_proc = Some 5, wakeup_flags = 0, wait_queue = 9\<rparr>)
       (7 := \<lparr>w_proc = Some 3, wakeup_flags = WT_INTERRUPTED, wait_queue = 0\<rparr>),
     wait_links := list_add_before (WaitHead 0) (WaitLink 7)
       (list_init (WaitLink 7) (list_init (WaitHead 0) \<lparr>l_next = id, l_prev = id\<rparr>))\<rparr>"

lemma sem_sample_fields:
  "procs sem_sample = (procs rr_sample)(3 := (sample_proc PROC_SLEEPING False)\<lparr>wait_state := WT_KSEM\<rparr>)"
  "current sem_sample = Some 0" "idleproc sem_sample = 0" "sem_value sem_sample = (\<lambda>_. 0)"
  "waits sem_sample = (\<lambda>_. \<lparr>w_proc = Some 5, wakeup_flags = 0, wait_queue = 9\<rparr>)
       (7 := \<lparr>w_proc = Some 3, wakeup_flags = WT_INTERRUPTED, wait_queue = 0\<rparr>)"
  by (simp_all add: sem_sample_def) (simp add: rr_sample_def)

lemma sem_sample_wq: "wq_ok 0 sem_sample [7]"
  by (simp add: wq_ok_def sem_sample_def ring_def next_ring_def list_ops)

lemma sem_sample_ok: "sem_ok 0 sem_sample [7]"
  using sem_sample_wq by (simp add: sem_ok_def sem_sample_fields)

lemma sem_sample_sched: "sched_ok rr_rel sem_sample"
  by (rule rr.sched_ok_cong [OF rr_sample_sched]) (auto simp: same_rq_def sem_sample_def)

lemma up_hands_over_witness:
  "\<exists>s'. up RR_class 0 sem_sample = Some s' \<and> sem_value s' 0 = 0 \<and> sem_ok 0 s' [] \<and>
     state (procs s' 3) = PROC_RUNNABLE \<and> down_resume 0 7 s' = Some s'"
  using up_hands_over [OF sem_sample_ok sem_sample_sched] by (auto simp: sem_sample_fields)

text \<open>Process 1 has taken over from the idle process.\<close>

lemma sem_sample_running:
  obtains s0 where "schedule_with proc_run_lab5 RR_class sem_sample = Some s0" "sched_ok rr_rel s0" "current s0 = Some 1"
    "idleproc s0 = 0"
    "\<forall>p. state (procs s0 p) = state (procs sem_sample p) \<and> wait_state (procs s0 p) = wait_state (procs sem_sample p)"
    "waits s0 = waits sem_sample" "wait_links s0 = wait_links sem_sample" "sem_value s0 = sem_value sem_sample"
proof -
  obtain s0 n where s0: "schedule_with proc_run_lab5 RR_class sem_sample = Some s0" "sched_ok rr_rel s0" "current s0 = Some n"
    "idleproc s0 = idleproc sem_sample"
    "\<forall>p. state (procs s0 p) = state (procs sem_sample p) \<and> wait_state (procs s0 p) = wait_state (procs sem_sample p)"
    "waits s0 = waits sem_sample" "wait_links s0 = wait_links sem_sample" "sem_value s0 = sem_value sem_sample"
    by (rule rr.schedule_lab5_ok [OF sem_sample_sched, of 0]) (auto simp: sem_sample_fields)
  have "rr_ok sem_sample [1, 2]" using rr_sample_ok rr_ok_same [of rr_sample "[1, 2]" sem_sample]
    by (auto simp: same_rq_def sem_sample_def)
  from rr_schedule_step [OF this, of 0] s0(1,3) have "n = 1"
    by (auto simp: sem_sample_fields contenders_def proc_run_lab5_def)
  then show ?thesis using that s0 by (simp add: sem_sample_fields)
qed

lemma down_takes_or_sleeps_witness:
  "\<exists>s0 s' b ws'. schedule_with proc_run_lab5 RR_class sem_sample = Some s0 \<and> current s0 = Some 1 \<and>
     down_enter 0 8 s0 = Some (s', b) \<and> \<not> b \<and> ws' = [7, 8] \<and> sem_ok 0 s' ws' \<and>
     sem_value s' 0 = 0"
proof -
  obtain s0 where s0: "schedule_with proc_run_lab5 RR_class sem_sample = Some s0" "sched_ok rr_rel s0" "current s0 = Some 1"
    "idleproc s0 = 0"
    "\<forall>p. state (procs s0 p) = state (procs sem_sample p) \<and> wait_state (procs s0 p) = wait_state (procs sem_sample p)"
    "waits s0 = waits sem_sample" "wait_links s0 = wait_links sem_sample" "sem_value s0 = sem_value sem_sample"
    by (rule sem_sample_running)
  have "sem_ok 0 s0 [7]" using sem_sample_ok s0(5-8) by (auto simp: sem_ok_def wq_ok_def)
  moreover have "state (procs s0 1) = PROC_RUNNABLE" using s0(5) by (simp add: sem_sample_fields)
  ultimately show ?thesis
    using down_takes_or_sleeps [of 0 s0 "[7]" 1 8] s0 by (auto simp: sem_sample_fields)
qed

lemma wait_queue_is_fifo_witness:
  "wait_queue_first 4 (fold (\<lambda>w s. the (wait_queue_del 4 w s)) [1]
    (fold (\<lambda>w s. the (wait_queue_add 4 w s)) [1, 2] sem_sample)) = Some 2"
  using wait_queue_is_fifo [of 4 sem_sample "[1]" 2 "[]"]
  by (simp add: wq_ok_def sem_sample_def ring_def next_ring_def list_ops)

lemma wakeup_queue_wakes_all_witness:
  "\<exists>s'. wakeup_queue RR_class 0 5 True sem_sample = Some s' \<and> wq_ok 0 s' [] \<and>
     state (procs s' 3) = PROC_RUNNABLE"
  using wakeup_queue_wakes_all [OF sem_sample_wq sem_sample_sched, of 5] by (auto simp: sem_sample_fields)

end
