(* ===== verification/Philosophers.thy ===== *)
theory Philosophers
  imports Kernel_Prelude
begin

text \<open>
  The dining philosophers of \<open>kern/sync/check_sync.c\<close> (semaphore version).  Every
  philosopher is a thread; the steps of the threads interleave in any order, one statement
  at a time, and a \<open>down\<close> is possible while the value of the semaphore is positive (the
  contract of \<open>Semaphore\<close>).  \<open>phil_next i\<close> is the next statement of thread \<open>i\<close>, \<open>phil_step\<close>
  the interleaving.  Shown by rule induction over the reachable states: neighbours never
  eat together, the critical section has one thread, and the system never deadlocks.
\<close>

section \<open>The program\<close>

definition N_phil :: nat where "N_phil = 5"
definition TIMES :: nat where "TIMES = 4"

definition left_of :: "nat \<Rightarrow> nat" where "left_of i = (i + N_phil - 1) mod N_phil"
definition right_of :: "nat \<Rightarrow> nat" where "right_of i = (i + 1) mod N_phil"

datatype phil = THINKING | HUNGRY | EATING

datatype label =
    Loop | Sleep_thinking
  | Take_down | Take_hungry | Take_test | Take_up | Take_wait
  | Sleep_eating
  | Put_down | Put_thinking | Put_left | Put_right | Put_up
  | Quit

record dp =
  state_sema :: "nat \<Rightarrow> phil"
  mutex :: int
  sem :: "nat \<Rightarrow> int"
  iter :: "nat \<Rightarrow> nat"
  label :: "nat \<Rightarrow> label"

definition phi_test_sema :: "nat \<Rightarrow> dp \<Rightarrow> dp" where
  "phi_test_sema i st =
    (if state_sema st i = HUNGRY \<and> state_sema st (left_of i) \<noteq> EATING \<and>
        state_sema st (right_of i) \<noteq> EATING
     then st\<lparr>state_sema := (state_sema st)(i := EATING), sem := (sem st)(i := sem st i + 1)\<rparr>
     else st)"

definition goto :: "nat \<Rightarrow> label \<Rightarrow> dp \<Rightarrow> dp" where
  "goto i l st = st\<lparr>label := (label st)(i := l)\<rparr>"

definition phi_take_forks_sema :: "nat \<Rightarrow> dp \<Rightarrow> dp option" where
  "phi_take_forks_sema i st =
    (case label st i of
       Take_down \<Rightarrow>
         if 0 < mutex st then Some (goto i Take_hungry (st\<lparr>mutex := mutex st - 1\<rparr>)) else None
     | Take_hungry \<Rightarrow>
         Some (goto i Take_test (st\<lparr>state_sema := (state_sema st)(i := HUNGRY)\<rparr>))
     | Take_test \<Rightarrow> Some (goto i Take_up (phi_test_sema i st))
     | Take_up \<Rightarrow> Some (goto i Take_wait (st\<lparr>mutex := mutex st + 1\<rparr>))
     | Take_wait \<Rightarrow>
         if 0 < sem st i
         then Some (goto i Sleep_eating (st\<lparr>sem := (sem st)(i := sem st i - 1)\<rparr>)) else None
     | _ \<Rightarrow> None)"

definition phi_put_forks_sema :: "nat \<Rightarrow> dp \<Rightarrow> dp option" where
  "phi_put_forks_sema i st =
    (case label st i of
       Put_down \<Rightarrow>
         if 0 < mutex st then Some (goto i Put_thinking (st\<lparr>mutex := mutex st - 1\<rparr>)) else None
     | Put_thinking \<Rightarrow>
         Some (goto i Put_left (st\<lparr>state_sema := (state_sema st)(i := THINKING)\<rparr>))
     | Put_left \<Rightarrow> Some (goto i Put_right (phi_test_sema (left_of i) st))
     | Put_right \<Rightarrow> Some (goto i Put_up (phi_test_sema (right_of i) st))
     | Put_up \<Rightarrow> Some (goto i Loop (st\<lparr>mutex := mutex st + 1\<rparr>))
     | _ \<Rightarrow> None)"

definition philosopher_using_semaphore :: "nat \<Rightarrow> dp \<Rightarrow> dp option" where
  "philosopher_using_semaphore i st =
    (case label st i of
       Loop \<Rightarrow>
         Some (goto i (if iter st i < TIMES then Sleep_thinking else Quit)
                 (st\<lparr>iter := (iter st)(i := iter st i + 1)\<rparr>))
     | Sleep_thinking \<Rightarrow> Some (goto i Take_down st)
     | Sleep_eating \<Rightarrow> Some (goto i Put_down st)
     | Quit \<Rightarrow> None
     | Take_down \<Rightarrow> phi_take_forks_sema i st
     | Take_hungry \<Rightarrow> phi_take_forks_sema i st
     | Take_test \<Rightarrow> phi_take_forks_sema i st
     | Take_up \<Rightarrow> phi_take_forks_sema i st
     | Take_wait \<Rightarrow> phi_take_forks_sema i st
     | _ \<Rightarrow> phi_put_forks_sema i st)"

definition check_sync_init :: dp where
  "check_sync_init = \<lparr>state_sema = (\<lambda>_. THINKING), mutex = 1, sem = (\<lambda>_. 0), iter = (\<lambda>_. 0),
     label = (\<lambda>_. Loop)\<rparr>"

inductive phil_step :: "dp \<Rightarrow> dp \<Rightarrow> bool" where
  phil_stepI: "i < N_phil \<Longrightarrow> philosopher_using_semaphore i st = Some st' \<Longrightarrow> phil_step st st'"

inductive phil_reachable :: "dp \<Rightarrow> bool" where
  reach_init: "phil_reachable check_sync_init"
| reach_step: "phil_reachable st \<Longrightarrow> phil_step st st' \<Longrightarrow> phil_reachable st'"

inductive_cases phil_stepE: "phil_step st st'"

section \<open>The table\<close>

lemma N_phil_simps [simp]: "0 < N_phil" by (simp add: N_phil_def)

lemma neighbours [simp]:
  "left_of i < N_phil" "right_of i < N_phil"
  by (simp_all add: left_of_def right_of_def)

lemma below_five: "i < N_phil \<longleftrightarrow> i = 0 \<or> i = 1 \<or> i = 2 \<or> i = 3 \<or> i = 4"
  by (auto simp: N_phil_def)

lemma table:
  assumes "i < N_phil"
  shows "left_of (right_of i) = i" "right_of (left_of i) = i" "left_of i \<noteq> i" "right_of i \<noteq> i"
    "left_of i \<noteq> right_of i"
  using assms [unfolded below_five]
  by (elim disjE; simp add: left_of_def right_of_def N_phil_def)+

section \<open>The invariant\<close>

definition in_cs :: "label \<Rightarrow> bool" where
  "in_cs l \<longleftrightarrow> l \<in> {Take_hungry, Take_test, Take_up, Put_thinking, Put_left, Put_right, Put_up}"

text \<open>What a philosopher's own state and semaphore are at each of its statements.\<close>

definition local_ok :: "phil \<Rightarrow> int \<Rightarrow> label \<Rightarrow> bool" where
  "local_ok p v l \<longleftrightarrow>
    (case l of
       Take_test \<Rightarrow> p = HUNGRY \<and> v = 0
     | Take_up \<Rightarrow> p = HUNGRY \<and> v = 0 \<or> p = EATING \<and> v = 1
     | Take_wait \<Rightarrow> p = HUNGRY \<and> v = 0 \<or> p = EATING \<and> v = 1
     | Sleep_eating \<Rightarrow> p = EATING \<and> v = 0
     | Put_down \<Rightarrow> p = EATING \<and> v = 0
     | Put_thinking \<Rightarrow> p = EATING \<and> v = 0
     | _ \<Rightarrow> p = THINKING \<and> v = 0)"

definition locals_ok :: "dp \<Rightarrow> bool" where
  "locals_ok st \<longleftrightarrow> (\<forall>i<N_phil. local_ok (state_sema st i) (sem st i) (label st i))"

definition apart :: "dp \<Rightarrow> bool" where
  "apart st \<longleftrightarrow> (\<forall>i<N_phil. \<not> (state_sema st i = EATING \<and> state_sema st (right_of i) = EATING))"

definition exclusive :: "dp \<Rightarrow> bool" where
  "exclusive st \<longleftrightarrow>
     (mutex st = 1 \<and> (\<forall>i<N_phil. \<not> in_cs (label st i))) \<or>
     (mutex st = 0 \<and> (\<exists>!i. i < N_phil \<and> in_cs (label st i)))"

text \<open>A hungry philosopher that has tested has a reason to wait: an eating neighbour, or one
  that is about to test it.\<close>

definition excused :: "dp \<Rightarrow> nat \<Rightarrow> bool" where
  "excused st i \<longleftrightarrow>
     state_sema st (left_of i) = EATING \<or> state_sema st (right_of i) = EATING \<or>
     label st (right_of i) = Put_left \<or> label st (left_of i) \<in> {Put_left, Put_right}"

definition waits_excused :: "dp \<Rightarrow> bool" where
  "waits_excused st \<longleftrightarrow>
     (\<forall>i<N_phil. state_sema st i = HUNGRY \<and> label st i \<in> {Take_up, Take_wait} \<longrightarrow> excused st i)"

definition phil_inv :: "dp \<Rightarrow> bool" where
  "phil_inv st \<longleftrightarrow> locals_ok st \<and> apart st \<and> exclusive st \<and> waits_excused st"

lemma phil_inv_init: "phil_inv check_sync_init"
  by (simp add: phil_inv_def locals_ok_def local_ok_def apart_def exclusive_def in_cs_def
      waits_excused_def check_sync_init_def)

lemma dp_simps [simp]:
  "state_sema (goto i l st) = state_sema st" "sem (goto i l st) = sem st"
  "mutex (goto i l st) = mutex st" "label (goto i l st) = (label st)(i := l)"
  "label (phi_test_sema i st) = label st" "mutex (phi_test_sema i st) = mutex st"
  by (simp_all add: goto_def phi_test_sema_def)

subsection \<open>Mutual exclusion\<close>

lemma exclusive_same:
  assumes "exclusive st" and "mutex st' = mutex st" and "label st' = (label st)(i := l)"
    and "in_cs l = in_cs (label st i)"
  shows "exclusive st'"
proof -
  have "in_cs (label st' j) = in_cs (label st j)" for j using assms(3,4) by simp
  then show ?thesis using assms(1,2) by (simp add: exclusive_def)
qed

lemma exclusive_enter:
  "exclusive st \<Longrightarrow> 0 < mutex st \<Longrightarrow> i < N_phil \<Longrightarrow> mutex st' = mutex st - 1 \<Longrightarrow>
   label st' = (label st)(i := l) \<Longrightarrow> in_cs l \<Longrightarrow> exclusive st'"
  unfolding exclusive_def by (auto intro!: ex1I [of _ i] split: if_splits)

lemma exclusive_leave:
  assumes "exclusive st" and "i < N_phil" and "in_cs (label st i)" and "mutex st' = mutex st + 1"
    and "label st' = (label st)(i := l)" and "\<not> in_cs l"
  shows "exclusive st'"
proof -
  have m: "mutex st = 0" and u: "\<exists>!i. i < N_phil \<and> in_cs (label st i)"
    using assms(1-3) by (auto simp: exclusive_def)
  then have "\<forall>j<N_phil. j \<noteq> i \<longrightarrow> \<not> in_cs (label st j)" using assms(2,3) by blast
  then show ?thesis using assms(4-6) m by (auto simp: exclusive_def)
qed

lemma exclusive_only:
  "exclusive st \<Longrightarrow> i < N_phil \<Longrightarrow> in_cs (label st i) \<Longrightarrow> j < N_phil \<Longrightarrow> j \<noteq> i \<Longrightarrow> \<not> in_cs (label st j)"
  unfolding exclusive_def by blast

lemma phil_step_exclusive:
  assumes ex: "exclusive st" and i: "i < N_phil" and st: "philosopher_using_semaphore i st = Some st'"
  shows "exclusive st'"
proof (cases "label st i")
  case Take_down
  then show ?thesis using st exclusive_enter [OF ex _ i, of st' Take_hungry]
    by (auto simp: philosopher_using_semaphore_def phi_take_forks_sema_def in_cs_def split: if_splits)
next
  case Put_down
  then show ?thesis using st exclusive_enter [OF ex _ i, of st' Put_thinking]
    by (auto simp: philosopher_using_semaphore_def phi_put_forks_sema_def in_cs_def split: if_splits)
next
  case Take_up
  then show ?thesis using st exclusive_leave [OF ex i, of st' Take_wait]
    by (auto simp: philosopher_using_semaphore_def phi_take_forks_sema_def in_cs_def)
next
  case Put_up
  then show ?thesis using st exclusive_leave [OF ex i, of st' Loop]
    by (auto simp: philosopher_using_semaphore_def phi_put_forks_sema_def in_cs_def)
next
  case Loop
  show ?thesis
    by (rule exclusive_same [OF ex, of st' i "label st' i"])
      (use st Loop in \<open>auto simp: philosopher_using_semaphore_def in_cs_def goto_def split: if_splits\<close>)
qed (rule exclusive_same [OF ex, of st' i "label st' i"],
     (use st in \<open>auto simp: philosopher_using_semaphore_def phi_take_forks_sema_def
       phi_put_forks_sema_def in_cs_def split: if_splits\<close>)[3])+

subsection \<open>The test\<close>

lemma left_eq: "i < N_phil \<Longrightarrow> k < N_phil \<Longrightarrow> left_of k = i \<longleftrightarrow> k = right_of i"
  using table(1,2) by metis

lemma right_eq: "i < N_phil \<Longrightarrow> k < N_phil \<Longrightarrow> right_of k = i \<longleftrightarrow> k = left_of i"
  using table(1,2) by metis

definition may_eat :: "dp \<Rightarrow> nat \<Rightarrow> bool" where
  "may_eat st j \<longleftrightarrow> state_sema st j = HUNGRY \<and> state_sema st (left_of j) \<noteq> EATING \<and>
     state_sema st (right_of j) \<noteq> EATING"

lemma test_fields:
  "state_sema (phi_test_sema j st) = (if may_eat st j then (state_sema st)(j := EATING) else state_sema st)"
  "sem (phi_test_sema j st) = (if may_eat st j then (sem st)(j := sem st j + 1) else sem st)"
  by (simp_all add: phi_test_sema_def may_eat_def)

lemma test_apart:
  assumes "apart st" and "j < N_phil"
  shows "apart (phi_test_sema j st)"
  unfolding apart_def
proof (intro allI impI)
  fix i assume i: "i < N_phil"
  have "\<not> (state_sema st i = EATING \<and> state_sema st (right_of i) = EATING)"
    using assms(1) i by (simp add: apart_def)
  moreover have "right_of i = j \<longleftrightarrow> i = left_of j" using right_eq assms(2) i by simp
  moreover have "right_of i \<noteq> i" using table(4) i by simp
  ultimately show "\<not> (state_sema (phi_test_sema j st) i = EATING \<and>
      state_sema (phi_test_sema j st) (right_of i) = EATING)"
    by (auto simp: test_fields may_eat_def)
qed

lemma test_excused: "excused st k \<Longrightarrow> excused (phi_test_sema j st) k"
  by (auto simp: excused_def test_fields)

lemma test_hungry: "state_sema (phi_test_sema j st) k = HUNGRY \<Longrightarrow> state_sema st k = HUNGRY"
  by (auto simp: test_fields split: if_splits)

lemma test_settles:
  "j < N_phil \<Longrightarrow> state_sema (phi_test_sema j st) j = HUNGRY \<Longrightarrow>
     state_sema st (left_of j) = EATING \<or> state_sema st (right_of j) = EATING"
  by (auto simp: test_fields may_eat_def split: if_splits)

text \<open>A hungry philosopher outside the critical section waits for its semaphore.\<close>

lemma hungry_waits:
  "local_ok HUNGRY v l \<Longrightarrow> \<not> in_cs l \<Longrightarrow> l = Take_wait \<and> v = 0"
  by (cases l) (auto simp: local_ok_def in_cs_def)

lemma test_locals:
  assumes l: "locals_ok st" and j: "j < N_phil" and out: "\<not> in_cs (label st j)"
  shows "locals_ok (phi_test_sema j st)"
  unfolding locals_ok_def
proof (intro allI impI)
  fix k assume k: "k < N_phil"
  have lk: "local_ok (state_sema st k) (sem st k) (label st k)"
    and lj: "local_ok (state_sema st j) (sem st j) (label st j)"
    using l k j by (auto simp: locals_ok_def)
  show "local_ok (state_sema (phi_test_sema j st) k) (sem (phi_test_sema j st) k) (label (phi_test_sema j st) k)"
  proof (cases "may_eat st j \<and> k = j")
    case True
    then have "local_ok HUNGRY (sem st j) (label st j)" using lj by (simp add: may_eat_def)
    from hungry_waits [OF this out] show ?thesis using True by (simp add: test_fields local_ok_def)
  next
    case False
    then show ?thesis using lk by (auto simp: test_fields)
  qed
qed

lemma locals_change:
  "locals_ok st \<Longrightarrow>
   \<forall>k. k \<noteq> i \<longrightarrow> state_sema st' k = state_sema st k \<and> sem st' k = sem st k \<and> label st' k = label st k \<Longrightarrow>
   local_ok (state_sema st' i) (sem st' i) (label st' i) \<Longrightarrow> locals_ok st'"
  unfolding locals_ok_def by metis

lemma locals_goto:
  "locals_ok st \<Longrightarrow> local_ok (state_sema st i) (sem st i) l \<Longrightarrow> locals_ok (goto i l st)"
  by (simp add: locals_ok_def)

lemma apart_goto [simp]: "apart (goto i l st) = apart st"
  by (simp add: apart_def)

text \<open>Moving a thread on that does not stand for anybody's excuse.\<close>

lemma excused_goto:
  assumes "excused st k" and "label st i \<notin> {Put_left, Put_right}"
  shows "excused (goto i l st) k"
  using assms by (auto simp: excused_def)

lemma waits_goto:
  assumes "waits_excused st" and "label st i \<notin> {Put_left, Put_right}"
    and "l \<in> {Take_up, Take_wait} \<Longrightarrow> label st i \<in> {Take_up, Take_wait}"
  shows "waits_excused (goto i l st)"
  unfolding waits_excused_def
proof (intro allI impI)
  fix k assume "k < N_phil" "state_sema (goto i l st) k = HUNGRY \<and> label (goto i l st) k \<in> {Take_up, Take_wait}"
  then have "excused st k" using assms(1,3) by (auto simp: waits_excused_def split: if_splits)
  then show "excused (goto i l st) k" by (rule excused_goto [OF _ assms(2)])
qed

lemma waits_same:
  "waits_excused st \<Longrightarrow> state_sema st' = state_sema st \<Longrightarrow> label st' = label st \<Longrightarrow> waits_excused st'"
  by (simp add: waits_excused_def excused_def)

subsection \<open>Every step keeps the invariant\<close>

lemma phil_inv_goto:
  assumes "phil_inv st" and "local_ok (state_sema st i) (sem st i) l"
    and "label st i \<notin> {Put_left, Put_right}"
    and "l \<in> {Take_up, Take_wait} \<Longrightarrow> label st i \<in> {Take_up, Take_wait}"
    and "exclusive (goto i l (st\<lparr>mutex := m\<rparr>))"
  shows "phil_inv (goto i l (st\<lparr>mutex := m\<rparr>))"
proof -
  have "waits_excused (goto i l st)" by (rule waits_goto [OF _ assms(3,4)]) (use assms(1) in \<open>simp add: phil_inv_def\<close>)
  then have "waits_excused (goto i l (st\<lparr>mutex := m\<rparr>))" by (rule waits_same) (simp_all add: goto_def)
  moreover have "locals_ok (goto i l (st\<lparr>mutex := m\<rparr>))"
    using assms(1,2) by (intro locals_goto) (simp_all add: phil_inv_def locals_ok_def)
  moreover have "apart (goto i l (st\<lparr>mutex := m\<rparr>))" using assms(1) by (simp add: phil_inv_def apart_def)
  ultimately show ?thesis using assms(5) by (simp add: phil_inv_def)
qed

lemma step_take_hungry:
  assumes inv: "phil_inv st" and i: "i < N_phil" and l: "label st i = Take_hungry"
    and ex: "exclusive (goto i Take_test (st\<lparr>state_sema := (state_sema st)(i := HUNGRY)\<rparr>))"
  shows "phil_inv (goto i Take_test (st\<lparr>state_sema := (state_sema st)(i := HUNGRY)\<rparr>))"
proof -
  have loc: "state_sema st i = THINKING" "sem st i = 0"
    using inv i l by (auto simp: phil_inv_def locals_ok_def local_ok_def dest!: spec [of _ i])
  have "waits_excused (goto i Take_test (st\<lparr>state_sema := (state_sema st)(i := HUNGRY)\<rparr>))"
    using inv loc l by (fastforce simp: phil_inv_def waits_excused_def excused_def)
  then show ?thesis using inv i l loc ex
    by (auto simp: phil_inv_def locals_ok_def local_ok_def apart_def)
qed

lemma step_take_wait:
  assumes inv: "phil_inv st" and i: "i < N_phil" and l: "label st i = Take_wait" and s: "0 < sem st i"
    and ex: "exclusive (goto i Sleep_eating (st\<lparr>sem := (sem st)(i := sem st i - 1)\<rparr>))"
  shows "phil_inv (goto i Sleep_eating (st\<lparr>sem := (sem st)(i := sem st i - 1)\<rparr>))"
proof -
  have loc: "state_sema st i = EATING" "sem st i = 1"
    using inv i l s by (auto simp: phil_inv_def locals_ok_def local_ok_def dest!: spec [of _ i])
  have "waits_excused (goto i Sleep_eating (st\<lparr>sem := (sem st)(i := sem st i - 1)\<rparr>))"
    using inv loc l by (fastforce simp: phil_inv_def waits_excused_def excused_def)
  then show ?thesis using inv i l loc ex
    by (auto simp: phil_inv_def locals_ok_def local_ok_def apart_def)
qed

lemma step_put_thinking:
  assumes inv: "phil_inv st" and i: "i < N_phil" and l: "label st i = Put_thinking"
    and ex: "exclusive (goto i Put_left (st\<lparr>state_sema := (state_sema st)(i := THINKING)\<rparr>))"
  shows "phil_inv (goto i Put_left (st\<lparr>state_sema := (state_sema st)(i := THINKING)\<rparr>))"
proof -
  have loc: "state_sema st i = EATING" "sem st i = 0"
    using inv i l by (auto simp: phil_inv_def locals_ok_def local_ok_def dest!: spec [of _ i])
  have "waits_excused (goto i Put_left (st\<lparr>state_sema := (state_sema st)(i := THINKING)\<rparr>))"
    using inv l i by (fastforce simp: phil_inv_def waits_excused_def excused_def left_eq right_eq)
  then show ?thesis using inv i l loc ex
    by (auto simp: phil_inv_def locals_ok_def local_ok_def apart_def)
qed

lemma step_take_test:
  assumes inv: "phil_inv st" and i: "i < N_phil" and l: "label st i = Take_test"
    and ex: "exclusive (goto i Take_up (phi_test_sema i st))"
  shows "phil_inv (goto i Take_up (phi_test_sema i st))"
proof -
  have we: "waits_excused st" using inv by (simp add: phil_inv_def)
  have loc: "state_sema st i = HUNGRY" "sem st i = 0"
    using inv i l by (auto simp: phil_inv_def locals_ok_def local_ok_def dest!: spec [of _ i])
  have "locals_ok (goto i Take_up (phi_test_sema i st))"
  proof (rule locals_change [of st i])
    show "locals_ok st" using inv by (simp add: phil_inv_def)
  qed (simp_all add: test_fields local_ok_def loc)
  moreover have "waits_excused (goto i Take_up (phi_test_sema i st))"
    unfolding waits_excused_def
  proof (intro allI impI)
    fix k assume k: "k < N_phil" and h: "state_sema (goto i Take_up (phi_test_sema i st)) k = HUNGRY \<and>
      label (goto i Take_up (phi_test_sema i st)) k \<in> {Take_up, Take_wait}"
    show "excused (goto i Take_up (phi_test_sema i st)) k"
    proof (cases "k = i")
      case True
      then have "state_sema st (left_of i) = EATING \<or> state_sema st (right_of i) = EATING"
        using test_settles [OF i] h by simp
      then show ?thesis using True by (auto simp: excused_def test_fields)
    next
      case False
      then have "label st k \<in> {Take_up, Take_wait}" using h by simp
      then have "excused st k" using test_hungry [of i st k] h k we by (auto simp: waits_excused_def)
      then show ?thesis using l by (intro excused_goto test_excused) simp_all
    qed
  qed
  ultimately show ?thesis using inv i ex test_apart by (simp add: phil_inv_def)
qed

lemma step_put_test:
  assumes inv: "phil_inv st" and i: "i < N_phil"
    and l: "label st i = Put_left \<and> j = left_of i \<and> l' = Put_right \<or>
            label st i = Put_right \<and> j = right_of i \<and> l' = Put_up"
    and ex: "exclusive (goto i l' (phi_test_sema j st))"
  shows "phil_inv (goto i l' (phi_test_sema j st))"
proof -
  have we: "waits_excused st" using inv by (simp add: phil_inv_def)
  have j: "j < N_phil" "j \<noteq> i" using l table(3,4) [OF i] by auto
  have cs: "in_cs (label st i)" using l by (auto simp: in_cs_def)
  have "local_ok (state_sema st i) (sem st i) (label st i)" using inv i by (simp add: phil_inv_def locals_ok_def)
  then have loc: "state_sema st i = THINKING" "sem st i = 0" using l by (auto simp: local_ok_def)
  have "\<not> in_cs (label st j)" using exclusive_only [OF _ i cs j] inv by (simp add: phil_inv_def)
  then have "locals_ok (phi_test_sema j st)" using test_locals j(1) inv by (simp add: phil_inv_def)
  moreover have "local_ok (state_sema (phi_test_sema j st) i) (sem (phi_test_sema j st) i) l'"
    using loc j(2) l by (auto simp: test_fields local_ok_def)
  ultimately have "locals_ok (goto i l' (phi_test_sema j st))" by (rule locals_goto)
  moreover have "waits_excused (goto i l' (phi_test_sema j st))"
    unfolding waits_excused_def
  proof (intro allI impI)
    fix k assume k: "k < N_phil" and h: "state_sema (goto i l' (phi_test_sema j st)) k = HUNGRY \<and>
      label (goto i l' (phi_test_sema j st)) k \<in> {Take_up, Take_wait}"
    have ki: "k \<noteq> i" using h l by auto
    show "excused (goto i l' (phi_test_sema j st)) k"
    proof (cases "k = j")
      case True
      then have "state_sema st (left_of j) = EATING \<or> state_sema st (right_of j) = EATING"
        using test_settles [OF j(1)] h by simp
      then show ?thesis using True by (auto simp: excused_def test_fields)
    next
      case False
      have "label st k \<in> {Take_up, Take_wait}" using h ki by simp
      then have "excused st k" using test_hungry [of j st k] h k we by (auto simp: waits_excused_def)
      then have "excused (phi_test_sema j st) k" by (rule test_excused)
      then show ?thesis using l k i False ki by (auto simp: excused_def left_eq right_eq table(1,2) [OF i])
    qed
  qed
  ultimately show ?thesis using inv ex test_apart [OF _ j(1)] by (simp add: phil_inv_def)
qed

lemma step_loop:
  assumes inv: "phil_inv st" and i: "i < N_phil" and l: "label st i = Loop" and l': "l' \<in> {Sleep_thinking, Quit}"
    and ex: "exclusive (goto i l' (st\<lparr>iter := f\<rparr>))"
  shows "phil_inv (goto i l' (st\<lparr>iter := f\<rparr>))"
proof -
  have loc: "state_sema st i = THINKING" "sem st i = 0"
    using inv i l by (auto simp: phil_inv_def locals_ok_def local_ok_def dest!: spec [of _ i])
  have "waits_excused (goto i l' (st\<lparr>iter := f\<rparr>))"
    using inv loc l l' by (fastforce simp: phil_inv_def waits_excused_def excused_def)
  then show ?thesis using inv i l' loc ex
    by (auto simp: phil_inv_def locals_ok_def local_ok_def apart_def)
qed

lemma mutex_same: "st\<lparr>mutex := mutex st\<rparr> = st"
  by (cases st) simp

lemma local_at: "phil_inv st \<Longrightarrow> i < N_phil \<Longrightarrow> local_ok (state_sema st i) (sem st i) (label st i)"
  by (simp add: phil_inv_def locals_ok_def)

lemma phil_inv_step:
  assumes inv: "phil_inv st" and i: "i < N_phil" and s: "philosopher_using_semaphore i st = Some st'"
  shows "phil_inv st'"
proof -
  have ex: "exclusive st'" using phil_step_exclusive [OF _ i s] inv by (simp add: phil_inv_def)
  note unf = philosopher_using_semaphore_def phi_take_forks_sema_def phi_put_forks_sema_def
  note lo = local_at [OF inv i]
  show ?thesis
  proof (cases "label st i")
    case Loop
    then have eq: "st' = goto i (if iter st i < TIMES then Sleep_thinking else Quit)
        (st\<lparr>iter := (iter st)(i := iter st i + 1)\<rparr>)" using s by (simp add: unf)
    show ?thesis unfolding eq by (rule step_loop [OF inv i Loop]) (use ex eq in auto)
  next
    case Sleep_thinking
    then have eq: "st' = goto i Take_down (st\<lparr>mutex := mutex st\<rparr>)" using s by (simp add: unf mutex_same)
    show ?thesis unfolding eq
      by (rule phil_inv_goto [OF inv]) (use lo Sleep_thinking ex eq in \<open>auto simp: local_ok_def\<close>)
  next
    case Take_down
    then have eq: "st' = goto i Take_hungry (st\<lparr>mutex := mutex st - 1\<rparr>)"
      using s by (simp add: unf split: if_splits)
    show ?thesis unfolding eq
      by (rule phil_inv_goto [OF inv]) (use lo Take_down ex eq in \<open>auto simp: local_ok_def\<close>)
  next
    case Take_hungry
    then have eq: "st' = goto i Take_test (st\<lparr>state_sema := (state_sema st)(i := HUNGRY)\<rparr>)"
      using s by (simp add: unf)
    show ?thesis unfolding eq by (rule step_take_hungry [OF inv i Take_hungry]) (use ex eq in simp)
  next
    case Take_test
    then have eq: "st' = goto i Take_up (phi_test_sema i st)" using s by (simp add: unf)
    show ?thesis unfolding eq by (rule step_take_test [OF inv i Take_test]) (use ex eq in simp)
  next
    case Take_up
    then have eq: "st' = goto i Take_wait (st\<lparr>mutex := mutex st + 1\<rparr>)" using s by (simp add: unf)
    show ?thesis unfolding eq
      by (rule phil_inv_goto [OF inv]) (use lo Take_up ex eq in \<open>auto simp: local_ok_def\<close>)
  next
    case Take_wait
    then have eq: "st' = goto i Sleep_eating (st\<lparr>sem := (sem st)(i := sem st i - 1)\<rparr>)" and "0 < sem st i"
      using s by (simp_all add: unf split: if_splits)
    then show ?thesis using step_take_wait [OF inv i Take_wait] ex by simp
  next
    case Sleep_eating
    then have eq: "st' = goto i Put_down (st\<lparr>mutex := mutex st\<rparr>)" using s by (simp add: unf mutex_same)
    show ?thesis unfolding eq
      by (rule phil_inv_goto [OF inv]) (use lo Sleep_eating ex eq in \<open>auto simp: local_ok_def\<close>)
  next
    case Put_down
    then have eq: "st' = goto i Put_thinking (st\<lparr>mutex := mutex st - 1\<rparr>)"
      using s by (simp add: unf split: if_splits)
    show ?thesis unfolding eq
      by (rule phil_inv_goto [OF inv]) (use lo Put_down ex eq in \<open>auto simp: local_ok_def\<close>)
  next
    case Put_thinking
    then have eq: "st' = goto i Put_left (st\<lparr>state_sema := (state_sema st)(i := THINKING)\<rparr>)"
      using s by (simp add: unf)
    show ?thesis unfolding eq by (rule step_put_thinking [OF inv i Put_thinking]) (use ex eq in simp)
  next
    case Put_left
    then have eq: "st' = goto i Put_right (phi_test_sema (left_of i) st)" using s by (simp add: unf)
    show ?thesis unfolding eq by (rule step_put_test [OF inv i]) (use Put_left ex eq in auto)
  next
    case Put_right
    then have eq: "st' = goto i Put_up (phi_test_sema (right_of i) st)" using s by (simp add: unf)
    show ?thesis unfolding eq by (rule step_put_test [OF inv i]) (use Put_right ex eq in auto)
  next
    case Put_up
    then have eq: "st' = goto i Loop (st\<lparr>mutex := mutex st + 1\<rparr>)" using s by (simp add: unf)
    show ?thesis unfolding eq
      by (rule phil_inv_goto [OF inv]) (use lo Put_up ex eq in \<open>auto simp: local_ok_def\<close>)
  next
    case Quit
    then show ?thesis using s by (simp add: unf)
  qed
qed

lemma reachable_inv: "phil_reachable st \<Longrightarrow> phil_inv st"
proof (induction rule: phil_reachable.induct)
  case reach_init
  show ?case by (rule phil_inv_init)
next
  case (reach_step st st')
  from reach_step(2,3) show ?case by (auto elim!: phil_stepE intro: phil_inv_step)
qed

section \<open>No deadlock\<close>

lemma enabled_unless_blocked:
  assumes "label st i \<noteq> Quit" and "label st i \<in> {Take_down, Put_down} \<Longrightarrow> 0 < mutex st"
    and "label st i = Take_wait \<Longrightarrow> 0 < sem st i"
  shows "\<exists>st'. philosopher_using_semaphore i st = Some st'"
  using assms
  by (cases "label st i")
    (simp_all add: philosopher_using_semaphore_def phi_take_forks_sema_def phi_put_forks_sema_def)

lemma some_enabled:
  assumes inv: "phil_inv st" and i: "i < N_phil" and run: "label st i \<noteq> Quit"
  shows "\<exists>j<N_phil. \<exists>st'. philosopher_using_semaphore j st = Some st'"
proof (cases "mutex st = 0")
  case True
  then obtain j where j: "j < N_phil" "in_cs (label st j)"
    using inv by (auto simp: phil_inv_def exclusive_def)
  then have "\<exists>st'. philosopher_using_semaphore j st = Some st'"
    by (intro enabled_unless_blocked) (auto simp: in_cs_def)
  then show ?thesis using j(1) by blast
next
  case False
  then have m: "0 < mutex st" and out: "\<forall>k<N_phil. \<not> in_cs (label st k)"
    using inv by (auto simp: phil_inv_def exclusive_def)
  have en: "\<exists>st'. philosopher_using_semaphore k st = Some st'"
    if "k < N_phil" "label st k \<noteq> Quit" "label st k = Take_wait \<Longrightarrow> state_sema st k = EATING" for k
    using that m local_at [OF inv that(1)] by (intro enabled_unless_blocked) (auto simp: local_ok_def)
  show ?thesis
  proof (cases "label st i = Take_wait \<and> state_sema st i \<noteq> EATING")
    case False
    then show ?thesis using en [OF i run] i by blast
  next
    case True
    then have "state_sema st i = HUNGRY" using local_at [OF inv i] by (auto simp: local_ok_def)
    then have "excused st i" using True i inv by (simp add: phil_inv_def waits_excused_def)
    then obtain k where k: "k < N_phil" "state_sema st k = EATING"
      using out neighbours [of i] unfolding excused_def in_cs_def by blast
    then have "label st k \<noteq> Quit" using local_at [OF inv k(1)] by (auto simp: local_ok_def)
    then show ?thesis using en [OF k(1)] k by blast
  qed
qed

section \<open>Properties\<close>

text \<open>C15. In every reachable state no two neighbouring philosophers are eating, at most one
  thread is in the critical section, and \<open>mutex\<close> is 0 or 1.\<close>

theorem philosophers_safe:
  assumes "phil_reachable st" and "i < N_phil"
  shows "\<not> (state_sema st i = EATING \<and> state_sema st (right_of i) = EATING) \<and>
    mutex st \<in> {0, 1} \<and>
    (\<forall>j<N_phil. in_cs (label st i) \<and> in_cs (label st j) \<longrightarrow> j = i)"
  using reachable_inv [OF assms(1)] assms(2)
  by (auto simp: phil_inv_def apart_def exclusive_def)

text \<open>C17. The philosophers never deadlock: in every reachable state in which some philosopher
  has not finished, some thread can take a step.\<close>

theorem philosophers_no_deadlock:
  assumes "phil_reachable st" and "i < N_phil" and "label st i \<noteq> Quit"
  shows "\<exists>st'. phil_step st st'"
  using some_enabled [OF reachable_inv [OF assms(1)] assms(2,3)] phil_step.intros by blast

subsection \<open>The properties at work\<close>

text \<open>A run of philosopher 0 alone up to the meal.\<close>

fun run_alone :: "nat \<Rightarrow> nat \<Rightarrow> dp \<Rightarrow> dp option" where
  "run_alone i 0 st = Some st"
| "run_alone i (Suc k) st = do { st \<leftarrow> philosopher_using_semaphore i st; run_alone i k st }"

lemma run_alone_reachable:
  "run_alone i k st = Some st' \<Longrightarrow> i < N_phil \<Longrightarrow> phil_reachable st \<Longrightarrow> phil_reachable st'"
proof (induction k arbitrary: st)
  case (Suc k)
  then obtain y where y: "philosopher_using_semaphore i st = Some y" "run_alone i k y = Some st'"
    by (auto simp: bind_eq_Some_conv)
  have "phil_reachable y" by (rule reach_step [OF Suc.prems(3) phil_stepI [OF Suc.prems(2) y(1)]])
  then show ?case using Suc.IH [OF y(2) Suc.prems(2)] by simp
qed simp

definition dp_sample :: dp where
  "dp_sample = the (run_alone 0 (Suc (Suc (Suc (Suc (Suc (Suc (Suc 0))))))) check_sync_init)"

lemmas phil_eval = philosopher_using_semaphore_def phi_take_forks_sema_def check_sync_init_def
  TIMES_def goto_def phi_test_sema_def left_of_def right_of_def N_phil_def

lemma dp_sample_run:
  "run_alone 0 (Suc (Suc (Suc (Suc (Suc (Suc (Suc 0))))))) check_sync_init = Some dp_sample \<and>
   state_sema dp_sample 0 = EATING \<and> label dp_sample 0 = Sleep_eating"
  by (simp add: dp_sample_def phil_eval)

lemma dp_sample_reachable: "phil_reachable dp_sample"
  using run_alone_reachable [OF _ _ reach_init] dp_sample_run by (metis N_phil_simps)

lemma philosophers_safe_witness:
  "phil_reachable dp_sample \<and> state_sema dp_sample 0 = EATING \<and> state_sema dp_sample (right_of 0) \<noteq> EATING"
  using philosophers_safe [OF dp_sample_reachable, of 0] dp_sample_reachable dp_sample_run by simp

lemma philosophers_no_deadlock_witness: "\<exists>st'. phil_step dp_sample st'"
  using philosophers_no_deadlock [OF dp_sample_reachable, of 0] dp_sample_run by simp

end
