(* ===== verification/Vfs.thy ===== *)
theory Vfs
  imports Kernel_Prelude
begin

text \<open>
  The virtual file system layer: reference counting of inodes (\<open>fs/vfs/inode.c\<close>), the
  device list (\<open>vfsdev.c\<close>), path lookup (\<open>vfslookup.c\<close>, \<open>vfspath.c\<close>, \<open>vfs.c\<close>) and opening
  and closing (\<open>vfsfile.c\<close>).  An inode, like a mounted file system, is a number.  The
  operations of the file systems are function pointers in the source; here they are the
  records \<open>inode_ops\<close> and \<open>fs_ops\<close> in the argument \<open>L\<close>, where a missing pointer is \<open>None\<close>.
  Their own state is the field \<open>fsw\<close>.  The semaphores that protect the layer are not
  contended in a single thread of control and are left out.
\<close>

section \<open>State\<close>

record iobuf =
  io_base :: nat
  io_offset :: int
  io_len :: nat
  io_resid :: nat

record stat =
  st_mode :: nat
  st_nlinks :: nat
  st_blocks :: nat
  st_size :: nat

record vfs_dev =
  devname :: string
  devnode :: "nat option"
  dev_fs :: "nat option"
  mountable :: bool

record 'w vfs =
  ref_count :: "nat \<Rightarrow> int"
  open_count :: "nat \<Rightarrow> int"
  in_fs :: "nat \<Rightarrow> nat option"
  is_device :: "nat \<Rightarrow> bool"
  pwd :: "nat option"
  bootfs_node :: "nat option"
  vdev_list :: "vfs_dev list"
  fsw :: 'w

record 'w inode_ops =
  op_open :: "(nat \<Rightarrow> 32 word \<Rightarrow> 'w vfs \<Rightarrow> ('w vfs \<times> int) option) option"
  op_close :: "(nat \<Rightarrow> 'w vfs \<Rightarrow> ('w vfs \<times> int) option) option"
  op_read :: "(nat \<Rightarrow> iobuf \<Rightarrow> 'w vfs \<Rightarrow> ('w vfs \<times> iobuf \<times> int) option) option"
  op_write :: "(nat \<Rightarrow> iobuf \<Rightarrow> 'w vfs \<Rightarrow> ('w vfs \<times> iobuf \<times> int) option) option"
  op_fstat :: "(nat \<Rightarrow> 'w vfs \<Rightarrow> ('w vfs \<times> stat \<times> int) option) option"
  op_fsync :: "(nat \<Rightarrow> 'w vfs \<Rightarrow> ('w vfs \<times> int) option) option"
  op_namefile :: "(nat \<Rightarrow> iobuf \<Rightarrow> 'w vfs \<Rightarrow> ('w vfs \<times> iobuf \<times> int) option) option"
  op_getdirentry :: "(nat \<Rightarrow> iobuf \<Rightarrow> 'w vfs \<Rightarrow> ('w vfs \<times> iobuf \<times> int) option) option"
  op_reclaim :: "(nat \<Rightarrow> 'w vfs \<Rightarrow> ('w vfs \<times> int) option) option"
  op_gettype :: "(nat \<Rightarrow> 'w vfs \<Rightarrow> ('w vfs \<times> nat \<times> int) option) option"
  op_tryseek :: "(nat \<Rightarrow> int \<Rightarrow> 'w vfs \<Rightarrow> ('w vfs \<times> int) option) option"
  op_truncate :: "(nat \<Rightarrow> int \<Rightarrow> 'w vfs \<Rightarrow> ('w vfs \<times> int) option) option"
  op_create :: "(nat \<Rightarrow> string \<Rightarrow> bool \<Rightarrow> 'w vfs \<Rightarrow> ('w vfs \<times> nat option \<times> int) option) option"
  op_lookup :: "(nat \<Rightarrow> string \<Rightarrow> 'w vfs \<Rightarrow> ('w vfs \<times> nat option \<times> int) option) option"

record 'w fs_ops =
  fs_sync :: "nat \<Rightarrow> 'w vfs \<Rightarrow> ('w vfs \<times> int) option"
  fs_get_root :: "nat \<Rightarrow> 'w vfs \<Rightarrow> ('w vfs \<times> nat option) option"
  fs_unmount :: "nat \<Rightarrow> 'w vfs \<Rightarrow> ('w vfs \<times> int) option"
  fs_cleanup :: "nat \<Rightarrow> 'w vfs \<Rightarrow> 'w vfs option"

record 'w layer =
  in_ops :: "nat \<Rightarrow> 'w inode_ops option"
  fs_calls :: "'w fs_ops"

section \<open>Inodes\<close>

definition MAX_INODE_COUNT :: int where "MAX_INODE_COUNT = 0x10000"

definition inode_check :: "nat \<Rightarrow> 'w vfs \<Rightarrow> bool" where
  "inode_check n s \<longleftrightarrow>
     open_count s n \<le> ref_count s n \<and> 0 \<le> open_count s n \<and>
     ref_count s n < MAX_INODE_COUNT \<and> open_count s n < MAX_INODE_COUNT"

text \<open>\<open>__vop_op\<close>: the operation must exist, and \<open>inode_check\<close> must hold.\<close>

definition vop_op :: "'w layer \<Rightarrow> ('w inode_ops \<Rightarrow> 'f option) \<Rightarrow> nat \<Rightarrow> 'w vfs \<Rightarrow> 'f option" where
  "vop_op L sel n s = do {
     ops \<leftarrow> in_ops L n;
     f \<leftarrow> sel ops;
     assert_k (inode_check n s);
     Some f }"

definition set_ref :: "nat \<Rightarrow> int \<Rightarrow> 'w vfs \<Rightarrow> 'w vfs" where
  "set_ref n v s = s\<lparr>ref_count := (ref_count s)(n := v)\<rparr>"

definition set_open :: "nat \<Rightarrow> int \<Rightarrow> 'w vfs \<Rightarrow> 'w vfs" where
  "set_open n v s = s\<lparr>open_count := (open_count s)(n := v)\<rparr>"

definition inode_ref_inc :: "nat \<Rightarrow> 'w vfs \<Rightarrow> 'w vfs" where
  "inode_ref_inc n s = set_ref n (ref_count s n + 1) s"

definition inode_init :: "nat \<Rightarrow> nat option \<Rightarrow> 'w vfs \<Rightarrow> 'w vfs" where
  "inode_init n fs s =
    (let s = set_open n 0 (set_ref n 0 s)
     in inode_ref_inc n (s\<lparr>in_fs := (in_fs s)(n := fs)\<rparr>))"

definition inode_kill :: "nat \<Rightarrow> 'w vfs \<Rightarrow> 'w vfs option" where
  "inode_kill n s = do {
     assert_k (ref_count s n = 0);
     assert_k (open_count s n = 0);
     Some s }"

definition inode_ref_dec :: "'w layer \<Rightarrow> nat \<Rightarrow> 'w vfs \<Rightarrow> ('w vfs \<times> int) option" where
  "inode_ref_dec L n s = do {
     assert_k (0 < ref_count s n);
     let s = set_ref n (ref_count s n - 1) s;
     let rc = ref_count s n;
     s \<leftarrow> (if rc = 0 then do {
            f \<leftarrow> vop_op L op_reclaim n s;
            (s, _) \<leftarrow> f n s;
            Some s } else Some s);
     Some (s, rc) }"

definition inode_open_inc :: "nat \<Rightarrow> 'w vfs \<Rightarrow> 'w vfs" where
  "inode_open_inc n s = set_open n (open_count s n + 1) s"

definition inode_open_dec :: "'w layer \<Rightarrow> nat \<Rightarrow> 'w vfs \<Rightarrow> ('w vfs \<times> int) option" where
  "inode_open_dec L n s = do {
     assert_k (0 < open_count s n);
     let s = set_open n (open_count s n - 1) s;
     let oc = open_count s n;
     s \<leftarrow> (if oc = 0 then do {
            f \<leftarrow> vop_op L op_close n s;
            (s, _) \<leftarrow> f n s;
            Some s } else Some s);
     Some (s, oc) }"

section \<open>The device list\<close>

definition vfs_devlist_init :: "'w vfs \<Rightarrow> 'w vfs" where
  "vfs_devlist_init s = s\<lparr>vdev_list := []\<rparr>"

fun cleanup_loop :: "'w layer \<Rightarrow> vfs_dev list \<Rightarrow> 'w vfs \<Rightarrow> 'w vfs option" where
  "cleanup_loop L [] s = Some s"
| "cleanup_loop L (d # ds) s = do {
     s \<leftarrow> (case dev_fs d of Some fs \<Rightarrow> fs_cleanup (fs_calls L) fs s | None \<Rightarrow> Some s);
     cleanup_loop L ds s }"

definition vfs_cleanup :: "'w layer \<Rightarrow> 'w vfs \<Rightarrow> 'w vfs option" where
  "vfs_cleanup L s = cleanup_loop L (vdev_list s) s"

fun get_root_loop :: "'w layer \<Rightarrow> string \<Rightarrow> vfs_dev list \<Rightarrow> 'w vfs \<Rightarrow> ('w vfs \<times> (int + nat)) option" where
  "get_root_loop L name [] s = Some (s, Inl (- E_NO_DEV))"
| "get_root_loop L name (d # ds) s =
    (if name = devname d
     then do {
       (s, found) \<leftarrow>
         (case dev_fs d of
            Some fs \<Rightarrow> fs_get_root (fs_calls L) fs s
          | None \<Rightarrow>
              if \<not> mountable d
              then (case devnode d of
                      None \<Rightarrow> None
                    | Some n \<Rightarrow> Some (inode_ref_inc n s, Some n))
              else Some (s, None));
       Some (s, case found of Some n \<Rightarrow> Inr n | None \<Rightarrow> Inl (- E_NA_DEV)) }
     else get_root_loop L name ds s)"

definition vfs_get_root :: "'w layer \<Rightarrow> string \<Rightarrow> 'w vfs \<Rightarrow> ('w vfs \<times> (int + nat)) option" where
  "vfs_get_root L name s = get_root_loop L name (vdev_list s) s"

definition vfs_get_devname :: "nat \<Rightarrow> 'w vfs \<Rightarrow> string option" where
  "vfs_get_devname fs s = map_option devname (List.find (\<lambda>d. dev_fs d = Some fs) (vdev_list s))"

definition check_devname_conflict :: "string \<Rightarrow> 'w vfs \<Rightarrow> bool" where
  "check_devname_conflict name s \<longleftrightarrow> List.find (\<lambda>d. devname d = name) (vdev_list s) = None"

definition FS_MAX_DNAME_LEN :: nat where "FS_MAX_DNAME_LEN = 31"

text \<open>The two booleans are the outcomes of \<open>strdup\<close> and of \<open>kmalloc\<close>.\<close>

definition vfs_do_add ::
    "string \<Rightarrow> nat option \<Rightarrow> nat option \<Rightarrow> bool \<Rightarrow> bool \<Rightarrow> bool \<Rightarrow> 'w vfs \<Rightarrow> ('w vfs \<times> int) option" where
  "vfs_do_add name node fs mnt name_ok vdev_ok s = do {
     assert_k ((node = None \<and> \<not> mnt) \<or> (case node of Some n \<Rightarrow> is_device s n | None \<Rightarrow> False));
     if FS_MAX_DNAME_LEN < length name then Some (s, - E_TOO_BIG)
     else if \<not> name_ok then Some (s, - E_NO_MEM)
     else if \<not> vdev_ok then Some (s, - E_NO_MEM)
     else if \<not> check_devname_conflict name s then Some (s, - E_EXISTS)
     else Some (s\<lparr>vdev_list :=
            \<lparr>devname = name, devnode = node, dev_fs = fs, mountable = mnt\<rparr> # vdev_list s\<rparr>, 0) }"

definition vfs_add_fs :: "string \<Rightarrow> nat \<Rightarrow> bool \<Rightarrow> bool \<Rightarrow> 'w vfs \<Rightarrow> ('w vfs \<times> int) option" where
  "vfs_add_fs name fs name_ok vdev_ok s = vfs_do_add name None (Some fs) False name_ok vdev_ok s"

definition vfs_add_dev :: "string \<Rightarrow> nat option \<Rightarrow> bool \<Rightarrow> bool \<Rightarrow> bool \<Rightarrow> 'w vfs \<Rightarrow> ('w vfs \<times> int) option" where
  "vfs_add_dev name node mnt name_ok vdev_ok s = vfs_do_add name node None mnt name_ok vdev_ok s"

text \<open>\<open>find_mount\<close> hands back the entry, here its position in the list.\<close>

fun find_mount :: "string \<Rightarrow> vfs_dev list \<Rightarrow> nat option" where
  "find_mount name [] = None"
| "find_mount name (d # ds) =
    (if mountable d \<and> devname d = name then Some 0 else map_option Suc (find_mount name ds))"

definition set_dev_fs :: "nat \<Rightarrow> nat option \<Rightarrow> 'w vfs \<Rightarrow> 'w vfs" where
  "set_dev_fs i fs s = s\<lparr>vdev_list := (vdev_list s)[i := (vdev_list s ! i)\<lparr>dev_fs := fs\<rparr>]\<rparr>"

definition vfs_mount ::
    "string \<Rightarrow> (nat \<Rightarrow> 'w vfs \<Rightarrow> ('w vfs \<times> nat option \<times> int) option) \<Rightarrow> 'w vfs \<Rightarrow> ('w vfs \<times> int) option" where
  "vfs_mount name mountfunc s =
    (case find_mount name (vdev_list s) of
       None \<Rightarrow> Some (s, - E_NO_DEV)
     | Some i \<Rightarrow>
         if dev_fs (vdev_list s ! i) \<noteq> None then Some (s, - E_BUSY)
         else do {
           n \<leftarrow> devnode (vdev_list s ! i);
           assert_k (is_device s n);
           (s, fs, ret) \<leftarrow> mountfunc n s;
           let s = set_dev_fs i fs s;
           assert_k (ret = 0 \<longrightarrow> fs \<noteq> None);
           Some (s, ret) })"

definition vfs_unmount :: "'w layer \<Rightarrow> string \<Rightarrow> 'w vfs \<Rightarrow> ('w vfs \<times> int) option" where
  "vfs_unmount L name s =
    (case find_mount name (vdev_list s) of
       None \<Rightarrow> Some (s, - E_NO_DEV)
     | Some i \<Rightarrow>
         (case dev_fs (vdev_list s ! i) of
            None \<Rightarrow> Some (s, - E_INVAL)
          | Some fs \<Rightarrow> do {
              (s, ret) \<leftarrow> fs_sync (fs_calls L) fs s;
              if ret \<noteq> 0 then Some (s, ret)
              else do {
                (s, ret) \<leftarrow> fs_unmount (fs_calls L) fs s;
                Some (if ret = 0 then set_dev_fs i None s else s, ret) } }))"

fun unmount_all_loop :: "'w layer \<Rightarrow> nat \<Rightarrow> nat \<Rightarrow> 'w vfs \<Rightarrow> 'w vfs option" where
  "unmount_all_loop L 0 i s = Some s"
| "unmount_all_loop L (Suc k) i s =
    (case (mountable (vdev_list s ! i), dev_fs (vdev_list s ! i)) of
       (True, Some fs) \<Rightarrow> do {
         (s, ret) \<leftarrow> fs_sync (fs_calls L) fs s;
         if ret \<noteq> 0 then unmount_all_loop L k (i + 1) s
         else do {
           (s, ret) \<leftarrow> fs_unmount (fs_calls L) fs s;
           unmount_all_loop L k (i + 1) (if ret = 0 then set_dev_fs i None s else s) } }
     | _ \<Rightarrow> unmount_all_loop L k (i + 1) s)"

definition vfs_unmount_all :: "'w layer \<Rightarrow> 'w vfs \<Rightarrow> ('w vfs \<times> int) option" where
  "vfs_unmount_all L s = do {
     s \<leftarrow> unmount_all_loop L (length (vdev_list s)) 0 s;
     Some (s, 0) }"

section \<open>Current directory and boot file system\<close>

definition vfs_get_curdir :: "'w vfs \<Rightarrow> 'w vfs \<times> (int + nat)" where
  "vfs_get_curdir s =
    (case pwd s of Some n \<Rightarrow> (inode_ref_inc n s, Inr n) | None \<Rightarrow> (s, Inl (- E_NOENT)))"

definition S_IFMT :: nat where "S_IFMT = 0x7000"
definition S_IFDIR :: nat where "S_IFDIR = 0x2000"

definition S_ISDIR :: "nat \<Rightarrow> bool" where
  "S_ISDIR mode \<longleftrightarrow> and mode S_IFMT = S_IFDIR"

definition vfs_set_curdir :: "'w layer \<Rightarrow> nat option \<Rightarrow> 'w vfs \<Rightarrow> ('w vfs \<times> int) option" where
  "vfs_set_curdir L dir s =
    (let old_dir = pwd s in
     if old_dir \<noteq> dir then do {
       (s, ret) \<leftarrow>
         (case dir of
            None \<Rightarrow> Some (s, 0)
          | Some d \<Rightarrow> do {
              f \<leftarrow> vop_op L op_gettype d s;
              (s, type, ret) \<leftarrow> f d s;
              if ret \<noteq> 0 then Some (s, ret)
              else if \<not> S_ISDIR type then Some (s, - E_NOTDIR)
              else Some (inode_ref_inc d s, 0) });
       if ret \<noteq> 0 then Some (s, ret)
       else do {
         let s = s\<lparr>pwd := dir\<rparr>;
         s \<leftarrow> (case old_dir of
                None \<Rightarrow> Some s
              | Some d \<Rightarrow> do { (s, _) \<leftarrow> inode_ref_dec L d s; Some s });
         Some (s, 0) } }
     else Some (s, 0))"

definition vfs_get_bootfs :: "'w vfs \<Rightarrow> 'w vfs \<times> (int + nat)" where
  "vfs_get_bootfs s =
    (case bootfs_node s of Some n \<Rightarrow> (inode_ref_inc n s, Inr n) | None \<Rightarrow> (s, Inl (- E_NOENT)))"

definition change_bootfs :: "'w layer \<Rightarrow> nat option \<Rightarrow> 'w vfs \<Rightarrow> 'w vfs option" where
  "change_bootfs L node s =
    (let old = bootfs_node s; s = s\<lparr>bootfs_node := node\<rparr>
     in case old of None \<Rightarrow> Some s | Some n \<Rightarrow> do { (s, _) \<leftarrow> inode_ref_dec L n s; Some s })"

section \<open>Path lookup\<close>

text \<open>The scan for the first colon or slash: positions of the slash and of the colon.\<close>

fun scan_device :: "nat \<Rightarrow> string \<Rightarrow> int \<times> int" where
  "scan_device i [] = (-1, -1)"
| "scan_device i (c # cs) =
    (if c = CHR '':'' then (-1, int i)
     else if c = CHR ''/'' then (int i, -1)
     else scan_device (i + 1) cs)"

definition skip_slashes :: "string \<Rightarrow> string" where
  "skip_slashes path = dropWhile (\<lambda>c. c = CHR ''/'') path"

definition get_device :: "'w layer \<Rightarrow> string \<Rightarrow> 'w vfs \<Rightarrow> ('w vfs \<times> (int + string \<times> nat)) option" where
  "get_device L path s =
    (let (slash, colon) = scan_device 0 path in
     if colon < 0 \<and> slash \<noteq> 0 then
       (let (s, r) = vfs_get_curdir s in Some (s, map_sum id (\<lambda>n. (path, n)) r))
     else if 0 < colon then do {
       (s, r) \<leftarrow> vfs_get_root L (take (nat colon) path) s;
       Some (s, map_sum id (\<lambda>n. (skip_slashes (drop (nat colon + 1) path), n)) r) }
     else if path \<noteq> [] \<and> hd path = CHR ''/'' then
       (let (s, r) = vfs_get_bootfs s in Some (s, map_sum id (\<lambda>n. (skip_slashes (tl path), n)) r))
     else do {
       assert_k (path \<noteq> [] \<and> hd path = CHR '':'');
       (let (s, r) = vfs_get_curdir s in
        case r of
          Inl e \<Rightarrow> Some (s, Inl e)
        | Inr n \<Rightarrow> do {
            fs \<leftarrow> in_fs s n;
            (s, root) \<leftarrow> fs_get_root (fs_calls L) fs s;
            (s, _) \<leftarrow> inode_ref_dec L n s;
            root \<leftarrow> root;
            Some (s, Inr (skip_slashes (tl path), root)) }) })"

definition vfs_lookup :: "'w layer \<Rightarrow> string \<Rightarrow> 'w vfs \<Rightarrow> ('w vfs \<times> (int + nat)) option" where
  "vfs_lookup L path s = do {
     (s, r) \<leftarrow> get_device L path s;
     (case r of
        Inl e \<Rightarrow> Some (s, Inl e)
      | Inr (path, node) \<Rightarrow>
          if path \<noteq> [] then do {
            f \<leftarrow> vop_op L op_lookup node s;
            (s, found, ret) \<leftarrow> f node path s;
            (s, _) \<leftarrow> inode_ref_dec L node s;
            if ret \<noteq> 0 then Some (s, Inl ret) else do { n \<leftarrow> found; Some (s, Inr n) } }
          else Some (s, Inr node)) }"

definition vfs_lookup_parent :: "'w layer \<Rightarrow> string \<Rightarrow> 'w vfs \<Rightarrow> ('w vfs \<times> (int + nat \<times> string)) option" where
  "vfs_lookup_parent L path s = do {
     (s, r) \<leftarrow> get_device L path s;
     Some (s, map_sum id (\<lambda>(path, node). (node, path)) r) }"

definition vfs_chdir :: "'w layer \<Rightarrow> string \<Rightarrow> 'w vfs \<Rightarrow> ('w vfs \<times> int) option" where
  "vfs_chdir L path s = do {
     (s, r) \<leftarrow> vfs_lookup L path s;
     (case r of
        Inl e \<Rightarrow> Some (s, e)
      | Inr node \<Rightarrow> do {
          (s, ret) \<leftarrow> vfs_set_curdir L (Some node) s;
          (s, _) \<leftarrow> inode_ref_dec L node s;
          Some (s, ret) }) }"

text \<open>\<open>vfs_set_bootfs\<close>: the name must end with its first colon.\<close>

definition vfs_set_bootfs :: "'w layer \<Rightarrow> string option \<Rightarrow> 'w vfs \<Rightarrow> ('w vfs \<times> int) option" where
  "vfs_set_bootfs L fsname s =
    (case fsname of
       None \<Rightarrow> do { s \<leftarrow> change_bootfs L None s; Some (s, 0) }
     | Some name \<Rightarrow>
         if dropWhile (\<lambda>c. c \<noteq> CHR '':'') name \<noteq> [CHR '':''] then Some (s, - E_INVAL)
         else do {
           (s, ret) \<leftarrow> vfs_chdir L name s;
           if ret \<noteq> 0 then Some (s, ret)
           else (let (s, r) = vfs_get_curdir s in
             case r of
               Inl e \<Rightarrow> Some (s, e)
             | Inr n \<Rightarrow> do { s \<leftarrow> change_bootfs L (Some n) s; Some (s, 0) }) })"

section \<open>Opening and closing\<close>

definition O_RDONLY :: "32 word" where "O_RDONLY = 0"
definition O_WRONLY :: "32 word" where "O_WRONLY = 1"
definition O_RDWR :: "32 word" where "O_RDWR = 2"
definition O_CREAT :: "32 word" where "O_CREAT = 0x4"
definition O_EXCL :: "32 word" where "O_EXCL = 0x8"
definition O_TRUNC :: "32 word" where "O_TRUNC = 0x10"
definition O_APPEND :: "32 word" where "O_APPEND = 0x20"
definition O_ACCMODE :: "32 word" where "O_ACCMODE = 3"

lemmas open_flags = O_RDONLY_def O_WRONLY_def O_RDWR_def O_CREAT_def O_EXCL_def O_TRUNC_def
  O_APPEND_def O_ACCMODE_def

text \<open>\<open>vfs_open\<close> after the inode has been found.\<close>

definition vfs_open_node :: "'w layer \<Rightarrow> nat \<Rightarrow> 32 word \<Rightarrow> bool \<Rightarrow> 'w vfs \<Rightarrow> ('w vfs \<times> (int + nat)) option" where
  "vfs_open_node L node fl create s = do {
     f \<leftarrow> vop_op L op_open node s;
     (s, ret) \<leftarrow> f node fl s;
     if ret \<noteq> 0 then do { (s, _) \<leftarrow> inode_ref_dec L node s; Some (s, Inl ret) }
     else do {
       let s = inode_open_inc node s;
       if and fl O_TRUNC \<noteq> 0 \<or> create then do {
         f \<leftarrow> vop_op L op_truncate node s;
         (s, ret) \<leftarrow> f node 0 s;
         if ret \<noteq> 0 then do {
           (s, _) \<leftarrow> inode_open_dec L node s;
           (s, _) \<leftarrow> inode_ref_dec L node s;
           Some (s, Inl ret) }
         else Some (s, Inr node) }
       else Some (s, Inr node) } }"

text \<open>The return value of \<open>vop_create\<close> is not tested: without an inode the assertion stops
  the kernel (\<open>node\<close> is then not even initialised).\<close>

definition vfs_open :: "'w layer \<Rightarrow> string \<Rightarrow> 32 word \<Rightarrow> 'w vfs \<Rightarrow> ('w vfs \<times> (int + nat)) option" where
  "vfs_open L path fl s =
    (let acc = and fl O_ACCMODE;
         can_write = (acc = O_WRONLY \<or> acc = O_RDWR);
         excl = (and fl O_EXCL \<noteq> 0);
         create = (and fl O_CREAT \<noteq> 0)
     in if acc \<noteq> O_RDONLY \<and> acc \<noteq> O_WRONLY \<and> acc \<noteq> O_RDWR then Some (s, Inl (- E_INVAL))
        else if and fl O_TRUNC \<noteq> 0 \<and> \<not> can_write then Some (s, Inl (- E_INVAL))
        else do {
          (s, r) \<leftarrow> vfs_lookup L path s;
          (case r of
             Inl ret \<Rightarrow>
               if ret = -16 \<and> create then do {
                 (s, p) \<leftarrow> vfs_lookup_parent L path s;
                 (case p of
                    Inl e \<Rightarrow> Some (s, Inl e)
                  | Inr (dir, name) \<Rightarrow> do {
                      f \<leftarrow> vop_op L op_create dir s;
                      (s, node, ret) \<leftarrow> f dir name excl s;
                      node \<leftarrow> node;
                      vfs_open_node L node fl create s }) }
               else Some (s, Inl ret)
           | Inr node \<Rightarrow>
               if excl \<and> create then Some (s, Inl (- E_EXISTS))
               else vfs_open_node L node fl create s) })"

definition vfs_close :: "'w layer \<Rightarrow> nat \<Rightarrow> 'w vfs \<Rightarrow> ('w vfs \<times> int) option" where
  "vfs_close L node s = do {
     (s, _) \<leftarrow> inode_open_dec L node s;
     (s, _) \<leftarrow> inode_ref_dec L node s;
     Some (s, 0) }"

section \<open>Lemmas\<close>

lemma vfs_fields [simp]:
  "ref_count (set_ref n v s) = (ref_count s)(n := v)" "open_count (set_ref n v s) = open_count s"
  "ref_count (set_open n v s) = ref_count s" "open_count (set_open n v s) = (open_count s)(n := v)"
  "in_fs (set_ref n v s) = in_fs s" "pwd (set_ref n v s) = pwd s"
  "bootfs_node (set_ref n v s) = bootfs_node s" "vdev_list (set_ref n v s) = vdev_list s"
  "vdev_list (set_open n v s) = vdev_list s"
  by (simp_all add: set_ref_def set_open_def)

lemma inode_inc_fields [simp]:
  "ref_count (inode_ref_inc n s) = (ref_count s)(n := ref_count s n + 1)"
  "open_count (inode_ref_inc n s) = open_count s" "vdev_list (inode_ref_inc n s) = vdev_list s"
  "open_count (inode_open_inc n s) = (open_count s)(n := open_count s n + 1)"
  "ref_count (inode_open_inc n s) = ref_count s"
  by (simp_all add: inode_ref_inc_def inode_open_inc_def)

definition plain :: "string \<Rightarrow> bool" where
  "plain cs \<longleftrightarrow> CHR '':'' \<notin> set cs \<and> CHR ''/'' \<notin> set cs"

lemma scan_device_plain: "plain cs \<Longrightarrow> scan_device i (cs @ ds) = scan_device (i + length cs) ds"
  by (induction cs arbitrary: i) (auto simp: plain_def)

lemma scan_device_bounds:
  "scan_device i cs = (a, b) \<Longrightarrow> (a = -1 \<or> int i \<le> a) \<and> (b = -1 \<or> int i \<le> b)"
  by (induction i cs rule: scan_device.induct) (auto split: if_splits)

lemma get_root_loop_find:
  "List.find (\<lambda>d. devname d = name) ds = Some d \<Longrightarrow> dev_fs d = None \<Longrightarrow> \<not> mountable d \<Longrightarrow>
   devnode d = Some n \<Longrightarrow> get_root_loop L name ds s = Some (inode_ref_inc n s, Inr n)"
  by (induction ds) (auto split: if_splits)

lemma get_root_loop_none:
  "List.find (\<lambda>d. devname d = name) ds = None \<Longrightarrow> get_root_loop L name ds s = Some (s, Inl (- E_NO_DEV))"
  by (induction ds) (auto split: if_splits)

lemma get_device_colon:
  assumes "plain name" and "name \<noteq> []"
  shows "get_device L (name @ CHR '':'' # rest) s =
    do { (s, r) \<leftarrow> vfs_get_root L name s; Some (s, map_sum id (\<lambda>n. (skip_slashes rest, n)) r) }"
proof -
  have "scan_device 0 (name @ CHR '':'' # rest) = (-1, int (length name))"
    using scan_device_plain [OF assms(1), of 0 "CHR '':'' # rest"] by simp
  then show ?thesis using assms(2) by (simp add: get_device_def Let_def nat_add_distrib)
qed

lemma get_device_relative:
  assumes "plain name" and "name \<noteq> []" and "rest = [] \<or> hd rest = CHR ''/''"
  shows "get_device L (name @ rest) s =
    (let (s, r) = vfs_get_curdir s in Some (s, map_sum id (\<lambda>n. (name @ rest, n)) r))"
proof -
  obtain slash where "scan_device 0 (name @ rest) = (slash, -1)" "slash \<noteq> 0"
    using scan_device_plain [OF assms(1), of 0 rest] assms(2,3) by (cases rest) auto
  then show ?thesis by (simp add: get_device_def)
qed

lemma get_device_slash:
  "get_device L (CHR ''/'' # rest) s =
    (let (s, r) = vfs_get_bootfs s in Some (s, map_sum id (\<lambda>n. (skip_slashes rest, n)) r))"
  by (simp add: get_device_def)

section \<open>Properties\<close>

text \<open>How a path picks its starting point: \<open>dev:rest\<close> starts at the root of the device's file
  system and skips the slashes after the colon, a path with a leading slash starts at the
  boot file system, and a path whose first component is a plain name starts at the
  current directory and is looked up as a whole.\<close>

theorem get_device_dispatch:
  assumes "plain name" and "name \<noteq> []"
  shows "get_device L (name @ CHR '':'' # rest) s =
      do { (s, r) \<leftarrow> vfs_get_root L name s; Some (s, map_sum id (\<lambda>n. (skip_slashes rest, n)) r) } \<and>
    get_device L (CHR ''/'' # rest) s =
      (let (s, r) = vfs_get_bootfs s in Some (s, map_sum id (\<lambda>n. (skip_slashes rest, n)) r)) \<and>
    get_device L (name @ CHR ''/'' # rest) s =
      (let (s, r) = vfs_get_curdir s in Some (s, map_sum id (\<lambda>n. (name @ CHR ''/'' # rest, n)) r)) \<and>
    get_device L name s =
      (let (s, r) = vfs_get_curdir s in Some (s, map_sum id (\<lambda>n. (name, n)) r))"
  using get_device_colon [OF assms, of L rest s] get_device_slash [of L rest s]
    get_device_relative [OF assms, of "CHR ''/'' # rest" L s] get_device_relative [OF assms, of "[]" L s]
  by simp

text \<open>A failing exclusive open leaks a reference: opening an existing device by name with
  \<open>O_CREAT\<close> and \<open>O_EXCL\<close> returns \<open>- E_EXISTS\<close>, but the reference taken by the lookup is not
  given back.\<close>

theorem exclusive_open_leaks:
  assumes "plain name" and "name \<noteq> []"
    and "List.find (\<lambda>d. devname d = name) (vdev_list s) = Some d"
    and "dev_fs d = None" and "\<not> mountable d" and "devnode d = Some n"
    and "and fl O_ACCMODE \<in> {O_RDONLY, O_WRONLY, O_RDWR}" and "and fl O_TRUNC = 0"
    and "and fl O_CREAT \<noteq> 0" and "and fl O_EXCL \<noteq> 0"
  shows "\<exists>s'. vfs_open L (name @ '':'') fl s = Some (s', Inl (- E_EXISTS)) \<and>
    ref_count s' n = ref_count s n + 1 \<and> open_count s' n = open_count s n"
proof -
  have "get_device L (name @ '':'') s = Some (inode_ref_inc n s, Inr ([], n))"
    using get_device_colon [OF assms(1,2), of L "[]" s] get_root_loop_find [OF assms(3-6), of L s]
    by (simp add: vfs_get_root_def skip_slashes_def)
  then have "vfs_lookup L (name @ '':'') s = Some (inode_ref_inc n s, Inr n)"
    by (simp add: vfs_lookup_def)
  then have "vfs_open L (name @ '':'') fl s = Some (inode_ref_inc n s, Inl (- E_EXISTS))"
    using assms(7-10) by (auto simp: vfs_open_def Let_def)
  then show ?thesis by simp
qed

text \<open>\<open>O_CREAT\<close> alone truncates: when the path exists and the file system's \<open>vop_open\<close> and
  \<open>vop_truncate\<close> succeed, \<open>vfs_open\<close> with \<open>O_CREAT\<close> has cut the file to length 0, whether or not
  \<open>O_TRUNC\<close> is given and even when the file is opened for reading only.\<close>

theorem creat_truncates_existing:
  assumes "vfs_lookup L path s = Some (s1, Inr n)"
    and "and fl O_ACCMODE \<in> {O_RDONLY, O_WRONLY, O_RDWR}" and "and fl O_TRUNC = 0"
    and "and fl O_CREAT \<noteq> 0" and "and fl O_EXCL = 0"
    and "vop_op L op_open n s1 = Some f" and "f n fl s1 = Some (s2, 0)"
    and "vop_op L op_truncate n (inode_open_inc n s2) = Some g"
    and "g n 0 (inode_open_inc n s2) = Some (s3, 0)"
  shows "vfs_open L path fl s = Some (s3, Inr n)"
  using assms by (auto simp: vfs_open_def vfs_open_node_def Let_def)

subsection \<open>The properties at work\<close>

text \<open>A layer whose only inode is 3, the device \<open>con\<close>: opening and truncating succeed, the
  number of truncations is the state.\<close>

definition con_ops :: "nat inode_ops" where
  "con_ops = \<lparr>op_open = Some (\<lambda>n fl s. Some (s, 0)), op_close = Some (\<lambda>n s. Some (s, 0)),
     op_read = None, op_write = None, op_fstat = None, op_fsync = None, op_namefile = None,
     op_getdirentry = None, op_reclaim = Some (\<lambda>n s. Some (s, 0)), op_gettype = None,
     op_tryseek = None, op_truncate = Some (\<lambda>n len s. Some (s\<lparr>fsw := fsw s + 1\<rparr>, 0)),
     op_create = None, op_lookup = None\<rparr>"

definition con_layer :: "nat layer" where
  "con_layer = \<lparr>in_ops = (\<lambda>n. if n = 3 then Some con_ops else None),
     fs_calls = \<lparr>fs_sync = (\<lambda>_ s. Some (s, 0)), fs_get_root = (\<lambda>_ s. Some (s, None)),
       fs_unmount = (\<lambda>_ s. Some (s, 0)), fs_cleanup = (\<lambda>_ s. Some s)\<rparr>\<rparr>"

definition con_state :: "nat vfs" where
  "con_state = \<lparr>ref_count = (\<lambda>_. 0)(3 := 1), open_count = (\<lambda>_. 0), in_fs = (\<lambda>_. None),
     is_device = (\<lambda>_. True), pwd = Some 3, bootfs_node = None,
     vdev_list = [\<lparr>devname = ''con'', devnode = Some 3, dev_fs = None, mountable = False\<rparr>], fsw = 0\<rparr>"

lemma get_device_dispatch_witness:
  "get_device con_layer ''con:'' con_state = Some (inode_ref_inc 3 con_state, Inr ([], 3)) \<and>
   get_device con_layer ''a/b'' con_state = Some (inode_ref_inc 3 con_state, Inr (''a/b'', 3))"
  using get_device_dispatch [of "''con''" con_layer "[]" con_state]
    get_device_dispatch [of "''a''" con_layer "''b''" con_state]
  by (simp add: plain_def vfs_get_root_def con_state_def skip_slashes_def vfs_get_curdir_def)

lemma exclusive_open_leaks_witness:
  "\<exists>s'. vfs_open con_layer (''con'' @ '':'') 12 con_state = Some (s', Inl (- E_EXISTS)) \<and>
     ref_count s' 3 = 2"
  using exclusive_open_leaks [of "''con''" con_state _ 3 12 con_layer]
  by (auto simp: plain_def con_state_def open_flags)

lemma creat_truncates_existing_witness:
  "\<exists>s'. vfs_open con_layer (''con'' @ '':'') 4 con_state = Some (s', Inr 3) \<and> fsw s' = 1"
proof -
  let ?s1 = "inode_ref_inc 3 con_state"
  have l: "vfs_lookup con_layer (''con'' @ '':'') con_state = Some (?s1, Inr 3)"
    using get_device_colon [of "''con''" con_layer "[]" con_state]
    by (simp add: vfs_lookup_def plain_def vfs_get_root_def con_state_def skip_slashes_def)
  let ?s2 = "inode_open_inc 3 ?s1"
  have ok: "inode_check 3 ?s1" "inode_check 3 ?s2"
    by (simp_all add: inode_check_def con_state_def MAX_INODE_COUNT_def)
  have f: "vop_op con_layer op_open 3 ?s1 = Some (\<lambda>n fl s. Some (s, 0))"
    and g: "vop_op con_layer op_truncate 3 ?s2 = Some (\<lambda>n len s. Some (s\<lparr>fsw := fsw s + 1\<rparr>, 0))"
    using ok by (simp_all add: vop_op_def con_layer_def con_ops_def)
  have "vfs_open con_layer (''con'' @ '':'') 4 con_state = Some (?s2\<lparr>fsw := fsw ?s2 + 1\<rparr>, Inr 3)"
    by (rule creat_truncates_existing [OF l _ _ _ _ f _ g]) (simp_all add: open_flags)
  moreover have "fsw ?s2 = 0"
    by (simp add: inode_open_inc_def inode_ref_inc_def set_open_def set_ref_def con_state_def)
  ultimately show ?thesis by simp
qed

end
