(* ===== verification/File_Table.thy ===== *)
theory File_Table
  imports Vfs
begin

text \<open>
  The open-file table of a process: \<open>fs/file.c\<close> and the table functions of \<open>fs/fs.c\<close>.  A
  \<open>struct file *\<close> is its index in \<open>fd_array\<close>.  \<open>table_ok\<close> is the invariant of the table:
  every entry knows its own descriptor, and the open count is positive exactly while the
  entry is open.  The buffers of \<open>read\<close> and \<open>write\<close> live in the state of the file systems.
\<close>

section \<open>State\<close>

datatype fd_status = FD_NONE | FD_INIT | FD_OPENED | FD_CLOSED

record open_file =
  f_status :: fd_status
  f_readable :: bool
  f_writable :: bool
  f_fd :: int
  f_pos :: int
  f_node :: "nat option"
  f_open :: int

record 'w files_struct =
  fd_array :: "open_file list"
  files_count :: int
  fvfs :: "'w vfs"

text \<open>\<open>sizeof(struct files_struct)\<close> is 48 and \<open>sizeof(struct file)\<close> is 56 on this machine
  (\<open>bool\<close> is a \<open>long long\<close>), so a page holds 72 entries.\<close>

definition FILES_STRUCT_NENTRY :: nat where
  "FILES_STRUCT_NENTRY = (4096 - 48) div 56"

definition NO_FD :: int where "NO_FD = -0x9527"

definition testfd :: "int \<Rightarrow> bool" where
  "testfd fd \<longleftrightarrow> 0 \<le> fd \<and> fd < int FILES_STRUCT_NENTRY"

definition upd_file :: "nat \<Rightarrow> (open_file \<Rightarrow> open_file) \<Rightarrow> 'w files_struct \<Rightarrow> 'w files_struct" where
  "upd_file i f s = s\<lparr>fd_array := (fd_array s)[i := f (fd_array s ! i)]\<rparr>"

abbreviation file_at :: "'w files_struct \<Rightarrow> nat \<Rightarrow> open_file" where
  "file_at s i \<equiv> fd_array s ! i"

section \<open>Entries\<close>

definition get_fd_array :: "'w files_struct \<Rightarrow> unit option" where
  "get_fd_array s = assert_k (0 < files_count s)"

fun fd_array_init_loop :: "nat \<Rightarrow> nat \<Rightarrow> open_file list \<Rightarrow> open_file list" where
  "fd_array_init_loop 0 fd fs = fs"
| "fd_array_init_loop (Suc k) fd fs =
    fd_array_init_loop k (fd + 1)
      (fs[fd := (fs ! fd)\<lparr>f_open := 0, f_status := FD_NONE, f_fd := int fd\<rparr>])"

definition fd_array_init :: "open_file list \<Rightarrow> open_file list" where
  "fd_array_init fs = fd_array_init_loop FILES_STRUCT_NENTRY 0 fs"

fun first_none :: "nat \<Rightarrow> nat \<Rightarrow> open_file list \<Rightarrow> nat option" where
  "first_none 0 fd fs = None"
| "first_none (Suc k) fd fs =
    (if f_status (fs ! fd) = FD_NONE then Some fd else first_none k (fd + 1) fs)"

definition fd_array_alloc :: "int \<Rightarrow> 'w files_struct \<Rightarrow> ('w files_struct \<times> (int + nat)) option" where
  "fd_array_alloc fd s = do {
     get_fd_array s;
     let r = (if fd = NO_FD
              then (case first_none FILES_STRUCT_NENTRY 0 (fd_array s) of
                      Some i \<Rightarrow> Inr i | None \<Rightarrow> Inl (- E_MAX_OPEN))
              else if testfd fd
              then (if f_status (file_at s (nat fd)) = FD_NONE then Inr (nat fd) else Inl (- E_BUSY))
              else Inl (- E_INVAL));
     (case r of
        Inl e \<Rightarrow> Some (s, Inl e)
      | Inr i \<Rightarrow> do {
          assert_k (f_open (file_at s i) = 0);
          Some (upd_file i (\<lambda>f. f\<lparr>f_status := FD_INIT, f_node := None\<rparr>) s, Inr i) }) }"

definition fd_array_free :: "'w layer \<Rightarrow> nat \<Rightarrow> 'w files_struct \<Rightarrow> 'w files_struct option" where
  "fd_array_free L i s = do {
     assert_k (f_status (file_at s i) = FD_INIT \<or> f_status (file_at s i) = FD_CLOSED);
     assert_k (f_open (file_at s i) = 0);
     s \<leftarrow> (if f_status (file_at s i) = FD_CLOSED then do {
            n \<leftarrow> f_node (file_at s i);
            (v, _) \<leftarrow> vfs_close L n (fvfs s);
            Some (s\<lparr>fvfs := v\<rparr>) } else Some s);
     Some (upd_file i (\<lambda>f. f\<lparr>f_status := FD_NONE\<rparr>) s) }"

definition fd_array_acquire :: "nat \<Rightarrow> 'w files_struct \<Rightarrow> 'w files_struct option" where
  "fd_array_acquire i s = do {
     assert_k (f_status (file_at s i) = FD_OPENED);
     Some (upd_file i (\<lambda>f. f\<lparr>f_open := f_open f + 1\<rparr>) s) }"

definition fd_array_release :: "'w layer \<Rightarrow> nat \<Rightarrow> 'w files_struct \<Rightarrow> 'w files_struct option" where
  "fd_array_release L i s = do {
     assert_k (f_status (file_at s i) = FD_OPENED \<or> f_status (file_at s i) = FD_CLOSED);
     assert_k (0 < f_open (file_at s i));
     let s = upd_file i (\<lambda>f. f\<lparr>f_open := f_open f - 1\<rparr>) s;
     if f_open (file_at s i) = 0 then fd_array_free L i s else Some s }"

definition fd_array_open :: "nat \<Rightarrow> 'w files_struct \<Rightarrow> 'w files_struct option" where
  "fd_array_open i s = do {
     assert_k (f_status (file_at s i) = FD_INIT \<and> f_node (file_at s i) \<noteq> None);
     Some (upd_file i (\<lambda>f. f\<lparr>f_status := FD_OPENED, f_open := f_open f + 1\<rparr>) s) }"

definition fd_array_close :: "'w layer \<Rightarrow> nat \<Rightarrow> 'w files_struct \<Rightarrow> 'w files_struct option" where
  "fd_array_close L i s = do {
     assert_k (f_status (file_at s i) = FD_OPENED);
     assert_k (0 < f_open (file_at s i));
     let s = upd_file i (\<lambda>f. f\<lparr>f_status := FD_CLOSED, f_open := f_open f - 1\<rparr>) s;
     if f_open (file_at s i) = 0 then fd_array_free L i s else Some s }"

text \<open>\<open>fd_array_dup\<close> within one table (\<open>file_dup\<close>).\<close>

definition fd_array_dup :: "nat \<Rightarrow> nat \<Rightarrow> 'w files_struct \<Rightarrow> 'w files_struct option" where
  "fd_array_dup dst src s = do {
     assert_k (f_status (file_at s dst) = FD_INIT \<and> f_status (file_at s src) = FD_OPENED);
     let from = file_at s src;
     let s = upd_file dst (\<lambda>f. f\<lparr>f_pos := f_pos from, f_readable := f_readable from,
               f_writable := f_writable from\<rparr>) s;
     n \<leftarrow> f_node from;
     let s = s\<lparr>fvfs := inode_open_inc n (inode_ref_inc n (fvfs s))\<rparr>;
     let s = upd_file dst (\<lambda>f. f\<lparr>f_node := Some n\<rparr>) s;
     fd_array_open dst s }"

definition fd2file :: "int \<Rightarrow> 'w files_struct \<Rightarrow> (int + nat) option" where
  "fd2file fd s =
    (if testfd fd then do {
       get_fd_array s;
       Some (if f_status (file_at s (nat fd)) = FD_OPENED \<and> f_fd (file_at s (nat fd)) = fd
             then Inr (nat fd) else Inl (- E_INVAL)) }
     else Some (Inl (- E_INVAL)))"

section \<open>The system calls on files\<close>

definition file_testfd :: "int \<Rightarrow> bool \<Rightarrow> bool \<Rightarrow> 'w files_struct \<Rightarrow> bool option" where
  "file_testfd fd readable writable s = do {
     r \<leftarrow> fd2file fd s;
     Some (case r of
        Inl _ \<Rightarrow> False
      | Inr i \<Rightarrow> (readable \<longrightarrow> f_readable (file_at s i)) \<and> (writable \<longrightarrow> f_writable (file_at s i))) }"

definition file_open :: "'w layer \<Rightarrow> string \<Rightarrow> 32 word \<Rightarrow> 'w files_struct \<Rightarrow> ('w files_struct \<times> int) option" where
  "file_open L path fl s =
    (let acc = and fl O_ACCMODE;
         readable = (acc = O_RDONLY \<or> acc = O_RDWR);
         writable = (acc = O_WRONLY \<or> acc = O_RDWR)
     in if \<not> readable \<and> \<not> writable then Some (s, - E_INVAL)
        else do {
          (s, r) \<leftarrow> fd_array_alloc NO_FD s;
          (case r of
             Inl e \<Rightarrow> Some (s, e)
           | Inr i \<Rightarrow> do {
               (v, r) \<leftarrow> vfs_open L path fl (fvfs s);
               let s = s\<lparr>fvfs := v\<rparr>;
               (case r of
                  Inl e \<Rightarrow> do { s \<leftarrow> fd_array_free L i s; Some (s, e) }
                | Inr node \<Rightarrow> do {
                    let s = upd_file i (\<lambda>f. f\<lparr>f_pos := 0\<rparr>) s;
                    (s, ret) \<leftarrow>
                      (if and fl O_APPEND \<noteq> 0 then do {
                         f \<leftarrow> vop_op L op_fstat node (fvfs s);
                         (v, st, ret) \<leftarrow> f node (fvfs s);
                         let s = s\<lparr>fvfs := v\<rparr>;
                         if ret \<noteq> 0 then do {
                           (v, _) \<leftarrow> vfs_close L node (fvfs s);
                           s \<leftarrow> fd_array_free L i (s\<lparr>fvfs := v\<rparr>);
                           Some (s, ret) }
                         else Some (upd_file i (\<lambda>f. f\<lparr>f_pos := int (st_size st)\<rparr>) s, 0) }
                       else Some (s, 0));
                    if ret \<noteq> 0 then Some (s, ret)
                    else do {
                      let s = upd_file i (\<lambda>f. f\<lparr>f_node := Some node, f_readable := readable,
                                f_writable := writable\<rparr>) s;
                      s \<leftarrow> fd_array_open i s;
                      Some (s, f_fd (file_at s i)) } }) }) })"

definition file_close :: "'w layer \<Rightarrow> int \<Rightarrow> 'w files_struct \<Rightarrow> ('w files_struct \<times> int) option" where
  "file_close L fd s = do {
     r \<leftarrow> fd2file fd s;
     (case r of
        Inl e \<Rightarrow> Some (s, e)
      | Inr i \<Rightarrow> do { s \<leftarrow> fd_array_close L i s; Some (s, 0) }) }"

definition iobuf_init :: "nat \<Rightarrow> nat \<Rightarrow> int \<Rightarrow> iobuf" where
  "iobuf_init base len off = \<lparr>io_base = base, io_offset = off, io_len = len, io_resid = len\<rparr>"

definition iobuf_used :: "iobuf \<Rightarrow> nat" where
  "iobuf_used iob = u64 (io_len iob + (2 ^ 64 - u64 (io_resid iob)))"

text \<open>The result of \<open>file_read\<close> and \<open>file_write\<close> is the number of bytes copied and the return
  value.\<close>

definition file_read ::
    "'w layer \<Rightarrow> int \<Rightarrow> nat \<Rightarrow> nat \<Rightarrow> 'w files_struct \<Rightarrow> ('w files_struct \<times> nat \<times> int) option" where
  "file_read L fd base len s = do {
     r \<leftarrow> fd2file fd s;
     (case r of
        Inl e \<Rightarrow> Some (s, 0, e)
      | Inr i \<Rightarrow>
          if \<not> f_readable (file_at s i) then Some (s, 0, - E_INVAL)
          else do {
            s \<leftarrow> fd_array_acquire i s;
            n \<leftarrow> f_node (file_at s i);
            f \<leftarrow> vop_op L op_read n (fvfs s);
            (v, iob, ret) \<leftarrow> f n (iobuf_init base len (f_pos (file_at s i))) (fvfs s);
            let s = s\<lparr>fvfs := v\<rparr>;
            let copied = iobuf_used iob;
            let s = (if f_status (file_at s i) = FD_OPENED
                     then upd_file i (\<lambda>f. f\<lparr>f_pos := f_pos f + int copied\<rparr>) s else s);
            s \<leftarrow> fd_array_release L i s;
            Some (s, copied, ret) }) }"

definition file_write ::
    "'w layer \<Rightarrow> int \<Rightarrow> nat \<Rightarrow> nat \<Rightarrow> 'w files_struct \<Rightarrow> ('w files_struct \<times> nat \<times> int) option" where
  "file_write L fd base len s = do {
     r \<leftarrow> fd2file fd s;
     (case r of
        Inl e \<Rightarrow> Some (s, 0, e)
      | Inr i \<Rightarrow>
          if \<not> f_writable (file_at s i) then Some (s, 0, - E_INVAL)
          else do {
            s \<leftarrow> fd_array_acquire i s;
            n \<leftarrow> f_node (file_at s i);
            f \<leftarrow> vop_op L op_write n (fvfs s);
            (v, iob, ret) \<leftarrow> f n (iobuf_init base len (f_pos (file_at s i))) (fvfs s);
            let s = s\<lparr>fvfs := v\<rparr>;
            let copied = iobuf_used iob;
            let s = (if f_status (file_at s i) = FD_OPENED
                     then upd_file i (\<lambda>f. f\<lparr>f_pos := f_pos f + int copied\<rparr>) s else s);
            s \<leftarrow> fd_array_release L i s;
            Some (s, copied, ret) }) }"

definition file_seek :: "'w layer \<Rightarrow> int \<Rightarrow> int \<Rightarrow> int \<Rightarrow> 'w files_struct \<Rightarrow> ('w files_struct \<times> int) option" where
  "file_seek L fd pos whence s = do {
     r \<leftarrow> fd2file fd s;
     (case r of
        Inl e \<Rightarrow> Some (s, e)
      | Inr i \<Rightarrow> do {
          s \<leftarrow> fd_array_acquire i s;
          n \<leftarrow> f_node (file_at s i);
          (s, pos, ret) \<leftarrow>
            (if whence = 0 then Some (s, pos, 0)
             else if whence = 1 then Some (s, pos + f_pos (file_at s i), 0)
             else if whence = 2 then do {
               f \<leftarrow> vop_op L op_fstat n (fvfs s);
               (v, st, ret) \<leftarrow> f n (fvfs s);
               Some (s\<lparr>fvfs := v\<rparr>, if ret = 0 then pos + int (st_size st) else pos, ret) }
             else Some (s, pos, - E_INVAL));
          (s, ret) \<leftarrow>
            (if ret = 0 then do {
               f \<leftarrow> vop_op L op_tryseek n (fvfs s);
               (v, ret) \<leftarrow> f n pos (fvfs s);
               let s = s\<lparr>fvfs := v\<rparr>;
               Some (if ret = 0 then upd_file i (\<lambda>f. f\<lparr>f_pos := pos\<rparr>) s else s, ret) }
             else Some (s, ret));
          s \<leftarrow> fd_array_release L i s;
          Some (s, ret) }) }"

definition file_fstat :: "'w layer \<Rightarrow> int \<Rightarrow> 'w files_struct \<Rightarrow> ('w files_struct \<times> stat option \<times> int) option" where
  "file_fstat L fd s = do {
     r \<leftarrow> fd2file fd s;
     (case r of
        Inl e \<Rightarrow> Some (s, None, e)
      | Inr i \<Rightarrow> do {
          s \<leftarrow> fd_array_acquire i s;
          n \<leftarrow> f_node (file_at s i);
          f \<leftarrow> vop_op L op_fstat n (fvfs s);
          (v, st, ret) \<leftarrow> f n (fvfs s);
          s \<leftarrow> fd_array_release L i (s\<lparr>fvfs := v\<rparr>);
          Some (s, Some st, ret) }) }"

definition file_fsync :: "'w layer \<Rightarrow> int \<Rightarrow> 'w files_struct \<Rightarrow> ('w files_struct \<times> int) option" where
  "file_fsync L fd s = do {
     r \<leftarrow> fd2file fd s;
     (case r of
        Inl e \<Rightarrow> Some (s, e)
      | Inr i \<Rightarrow> do {
          s \<leftarrow> fd_array_acquire i s;
          n \<leftarrow> f_node (file_at s i);
          f \<leftarrow> vop_op L op_fsync n (fvfs s);
          (v, ret) \<leftarrow> f n (fvfs s);
          s \<leftarrow> fd_array_release L i (s\<lparr>fvfs := v\<rparr>);
          Some (s, ret) }) }"

text \<open>\<open>file_getdirentry\<close>: the offset of the \<open>struct dirent\<close> goes in and comes out; the name
  buffer has 256 bytes.\<close>

definition file_getdirentry ::
    "'w layer \<Rightarrow> int \<Rightarrow> nat \<Rightarrow> int \<Rightarrow> 'w files_struct \<Rightarrow> ('w files_struct \<times> int \<times> int) option" where
  "file_getdirentry L fd name offset s = do {
     r \<leftarrow> fd2file fd s;
     (case r of
        Inl e \<Rightarrow> Some (s, offset, e)
      | Inr i \<Rightarrow> do {
          s \<leftarrow> fd_array_acquire i s;
          n \<leftarrow> f_node (file_at s i);
          f \<leftarrow> vop_op L op_getdirentry n (fvfs s);
          (v, iob, ret) \<leftarrow> f n (iobuf_init name 256 offset) (fvfs s);
          let offset = (if ret = 0 then offset + int (iobuf_used iob) else offset);
          s \<leftarrow> fd_array_release L i (s\<lparr>fvfs := v\<rparr>);
          Some (s, offset, ret) }) }"

definition file_dup :: "int \<Rightarrow> int \<Rightarrow> 'w files_struct \<Rightarrow> ('w files_struct \<times> int) option" where
  "file_dup fd1 fd2 s = do {
     r \<leftarrow> fd2file fd1 s;
     (case r of
        Inl e \<Rightarrow> Some (s, e)
      | Inr i \<Rightarrow> do {
          (s, r) \<leftarrow> fd_array_alloc fd2 s;
          (case r of
             Inl e \<Rightarrow> Some (s, e)
           | Inr j \<Rightarrow> do { s \<leftarrow> fd_array_dup j i s; Some (s, f_fd (file_at s j)) }) }) }"

section \<open>Whole tables\<close>

text \<open>\<open>files_create\<close> with a successful \<open>kmalloc\<close>; \<open>fs\<close> is what the new page held before.\<close>

definition files_create :: "open_file list \<Rightarrow> 'w vfs \<Rightarrow> 'w files_struct" where
  "files_create fs v = \<lparr>fd_array = fd_array_init fs, files_count = 0, fvfs = v\<lparr>pwd := None\<rparr>\<rparr>"

fun files_close_loop :: "'w layer \<Rightarrow> bool \<Rightarrow> nat \<Rightarrow> nat \<Rightarrow> 'w files_struct \<Rightarrow> 'w files_struct option" where
  "files_close_loop L check 0 i s = Some s"
| "files_close_loop L check (Suc k) i s = do {
     s \<leftarrow> (if f_status (file_at s i) = FD_OPENED then fd_array_close L i s else Some s);
     assert_k (check \<longrightarrow> f_status (file_at s i) = FD_NONE);
     files_close_loop L check k (i + 1) s }"

definition files_destroy :: "'w layer \<Rightarrow> 'w files_struct \<Rightarrow> 'w vfs option" where
  "files_destroy L s = do {
     assert_k (files_count s = 0);
     s \<leftarrow> (case pwd (fvfs s) of
            None \<Rightarrow> Some s
          | Some n \<Rightarrow> do { (v, _) \<leftarrow> inode_ref_dec L n (fvfs s); Some (s\<lparr>fvfs := v\<rparr>) });
     s \<leftarrow> files_close_loop L True FILES_STRUCT_NENTRY 0 s;
     Some (fvfs s) }"

definition files_closeall :: "'w layer \<Rightarrow> 'w files_struct \<Rightarrow> 'w files_struct option" where
  "files_closeall L s = do {
     assert_k (0 < files_count s);
     files_close_loop L False (FILES_STRUCT_NENTRY - 2) 2 s }"

text \<open>\<open>dup_files\<close>: from the table \<open>from\<close> into the fresh table \<open>to\<close>, entry by entry.\<close>

definition dup_entry :: "open_file \<Rightarrow> open_file \<Rightarrow> 'w vfs \<Rightarrow> (open_file \<times> 'w vfs) option" where
  "dup_entry to from v =
    (if f_status from = FD_OPENED then do {
       n \<leftarrow> f_node from;
       let v = inode_open_inc n (inode_ref_inc n v);
       Some (to\<lparr>f_status := FD_OPENED, f_pos := f_pos from, f_readable := f_readable from,
               f_writable := f_writable from, f_node := Some n, f_open := f_open to + 1\<rparr>, v) }
     else Some (to, v))"

fun dup_files_loop :: "nat \<Rightarrow> nat \<Rightarrow> open_file list \<Rightarrow> open_file list \<Rightarrow> 'w vfs \<Rightarrow> (open_file list \<times> 'w vfs) option" where
  "dup_files_loop 0 i to from v = Some (to, v)"
| "dup_files_loop (Suc k) i to from v = do {
     (f, v) \<leftarrow> dup_entry (to ! i) (from ! i) v;
     dup_files_loop k (i + 1) (to[i := f]) from v }"

definition dup_files :: "open_file list \<Rightarrow> int \<Rightarrow> 'w files_struct \<Rightarrow> (open_file list \<times> 'w vfs \<times> int) option" where
  "dup_files to to_count from = do {
     assert_k (to_count = 0 \<and> 0 < files_count from);
     let v = (case pwd (fvfs from) of None \<Rightarrow> fvfs from | Some n \<Rightarrow> inode_ref_inc n (fvfs from));
     (to, v) \<leftarrow> dup_files_loop FILES_STRUCT_NENTRY 0 to (fd_array from) v;
     Some (to, v, 0) }"

section \<open>The table invariant\<close>

definition entry_ok :: "nat \<Rightarrow> open_file \<Rightarrow> bool" where
  "entry_ok i f \<longleftrightarrow> f_fd f = int i \<and>
     (case f_status f of
        FD_NONE \<Rightarrow> f_open f = 0
      | FD_INIT \<Rightarrow> f_open f = 0
      | FD_OPENED \<Rightarrow> 0 < f_open f \<and> f_node f \<noteq> None
      | FD_CLOSED \<Rightarrow> 0 < f_open f \<and> f_node f \<noteq> None)"

definition table_ok :: "'w files_struct \<Rightarrow> bool" where
  "table_ok s \<longleftrightarrow> length (fd_array s) = FILES_STRUCT_NENTRY \<and> 0 < files_count s \<and>
     (\<forall>i<FILES_STRUCT_NENTRY. entry_ok i (file_at s i))"

lemma NENTRY [simp]: "FILES_STRUCT_NENTRY = 72"
  by (simp add: FILES_STRUCT_NENTRY_def)

lemma upd_file_fields [simp]:
  "fvfs (upd_file i f s) = fvfs s" "files_count (upd_file i f s) = files_count s"
  "length (fd_array (upd_file i f s)) = length (fd_array s)"
  by (simp_all add: upd_file_def)

lemma upd_file_nth [simp]:
  "i < length (fd_array s) \<Longrightarrow> file_at (upd_file i f s) j = (if j = i then f (file_at s i) else file_at s j)"
  by (simp add: upd_file_def nth_list_update)

text \<open>Updates of an entry compose, and commute with those of the file systems.\<close>

lemma upd_file_upd [simp]:
  "i < length (fd_array s) \<Longrightarrow> upd_file i g (upd_file i f s) = upd_file i (\<lambda>x. g (f x)) s"
  by (simp add: upd_file_def)

lemma upd_file_vfs [simp]: "upd_file i f (s\<lparr>fvfs := v\<rparr>) = (upd_file i f s)\<lparr>fvfs := v\<rparr>"
  by (simp add: upd_file_def)

lemma upd_file_cong: "f (file_at s i) = g (file_at s i) \<Longrightarrow> upd_file i f s = upd_file i g s"
  by (simp add: upd_file_def)

lemma table_ok_length: "table_ok s \<Longrightarrow> length (fd_array s) = 72"
  by (simp add: table_ok_def)

lemma table_ok_upd:
  "table_ok s \<Longrightarrow> i < 72 \<Longrightarrow> entry_ok i (f (file_at s i)) \<Longrightarrow> table_ok (upd_file i f s)"
  by (simp add: table_ok_def)

lemma table_ok_vfs [simp]: "table_ok (s\<lparr>fvfs := v\<rparr>) = table_ok s"
  by (simp add: table_ok_def)

lemma table_entry: "table_ok s \<Longrightarrow> i < 72 \<Longrightarrow> entry_ok i (file_at s i)"
  by (simp add: table_ok_def)

lemma first_none_Some:
  "first_none k i fs = Some j \<longleftrightarrow>
     i \<le> j \<and> j < i + k \<and> f_status (fs ! j) = FD_NONE \<and> (\<forall>l. i \<le> l \<and> l < j \<longrightarrow> f_status (fs ! l) \<noteq> FD_NONE)"
proof (induction k arbitrary: i)
  case (Suc k)
  show ?case
  proof (cases "f_status (fs ! i) = FD_NONE")
    case True
    then show ?thesis using le_neq_implies_less by auto
  next
    case False
    have "(i \<le> j \<and> j < i + Suc k \<and> f_status (fs ! j) = FD_NONE \<and> (\<forall>l. i \<le> l \<and> l < j \<longrightarrow> f_status (fs ! l) \<noteq> FD_NONE)) \<longleftrightarrow>
        (Suc i \<le> j \<and> j < Suc i + k \<and> f_status (fs ! j) = FD_NONE \<and> (\<forall>l. Suc i \<le> l \<and> l < j \<longrightarrow> f_status (fs ! l) \<noteq> FD_NONE))"
      using False by (auto simp: Suc_le_eq) (metis le_neq_implies_less)+
    then show ?thesis using False Suc.IH [of "Suc i"] by simp
  qed
qed simp

lemma fd_array_alloc_first:
  assumes ok: "table_ok s" and i: "i < 72" "f_status (file_at s i) = FD_NONE"
    and low: "\<forall>j<i. f_status (file_at s j) \<noteq> FD_NONE"
  shows "fd_array_alloc NO_FD s =
    Some (upd_file i (\<lambda>f. f\<lparr>f_status := FD_INIT, f_node := None\<rparr>) s, Inr i)"
proof -
  have "first_none 72 0 (fd_array s) = Some i" using i low by (simp add: first_none_Some)
  moreover have "f_open (file_at s i) = 0" using table_entry [OF ok i(1)] i(2) by (simp add: entry_ok_def)
  ultimately show ?thesis using ok by (simp add: fd_array_alloc_def get_fd_array_def table_ok_def)
qed

lemma fd2file_open:
  assumes "table_ok s" and "i < 72" and "f_status (file_at s i) = FD_OPENED"
  shows "fd2file (int i) s = Some (Inr i)"
  using assms table_entry [OF assms(1,2)]
  by (simp add: fd2file_def testfd_def get_fd_array_def table_ok_def entry_ok_def)

lemma fd2file_closed:
  assumes "table_ok s" and "i < 72" and "f_status (file_at s i) \<noteq> FD_OPENED"
  shows "fd2file (int i) s = Some (Inl (- E_INVAL))"
  using assms by (simp add: fd2file_def testfd_def get_fd_array_def table_ok_def)

text \<open>Acquiring an entry and releasing it again gives the old open count.\<close>

lemma acquire_release:
  assumes ok: "table_ok s" and i: "i < 72" and o: "f_status (file_at s i) = FD_OPENED"
  shows "fd_array_acquire i s = Some (upd_file i (\<lambda>f. f\<lparr>f_open := f_open f + 1\<rparr>) s)"
    and "\<And>v g. (\<And>f. f_open (g f) = f_open f) \<Longrightarrow> (\<And>f. f_status (g f) = f_status f) \<Longrightarrow>
      fd_array_release L i (upd_file i g ((upd_file i (\<lambda>f. f\<lparr>f_open := f_open f + 1\<rparr>) s)\<lparr>fvfs := v\<rparr>)) =
      Some (upd_file i (\<lambda>f. (g (f\<lparr>f_open := f_open f + 1\<rparr>))\<lparr>f_open := f_open f\<rparr>) (s\<lparr>fvfs := v\<rparr>))"
proof -
  have len: "i < length (fd_array s)" using ok i by (simp add: table_ok_def)
  have pos: "0 < f_open (file_at s i)" using table_entry [OF ok i] o by (simp add: entry_ok_def)
  show "fd_array_acquire i s = Some (upd_file i (\<lambda>f. f\<lparr>f_open := f_open f + 1\<rparr>) s)"
    using o by (simp add: fd_array_acquire_def)
  fix v and g :: "open_file \<Rightarrow> open_file"
  assume g: "\<And>f. f_open (g f) = f_open f" "\<And>f. f_status (g f) = f_status f"
  show "fd_array_release L i (upd_file i g ((upd_file i (\<lambda>f. f\<lparr>f_open := f_open f + 1\<rparr>) s)\<lparr>fvfs := v\<rparr>)) =
      Some (upd_file i (\<lambda>f. (g (f\<lparr>f_open := f_open f + 1\<rparr>))\<lparr>f_open := f_open f\<rparr>) (s\<lparr>fvfs := v\<rparr>))"
    using len pos o g by (simp add: fd_array_release_def)
qed

section \<open>Properties\<close>

text \<open>C18. \<open>file_open\<close> hands out the lowest free descriptor: when the virtual file system opens
  the path, the entry becomes open with the access the flags ask for, at position 0, or, with
  \<open>O_APPEND\<close>, at the size that \<open>vop_fstat\<close> reports; all other entries stay, and the table
  invariant is kept.\<close>

theorem file_open_lowest:
  assumes "table_ok s" and "i < 72" and "f_status (file_at s i) = FD_NONE"
    and "\<forall>j<i. f_status (file_at s j) \<noteq> FD_NONE"
    and "and fl O_ACCMODE \<in> {O_RDONLY, O_WRONLY, O_RDWR}"
    and "vfs_open L path fl (fvfs s) = Some (v, Inr node)"
    and "and fl O_APPEND \<noteq> 0 \<longrightarrow> vop_op L op_fstat node v = Some f \<and> f node v = Some (v', st, 0)"
  shows "\<exists>s'. file_open L path fl s = Some (s', int i) \<and> table_ok s' \<and>
    fvfs s' = (if and fl O_APPEND = 0 then v else v') \<and> fd2file (int i) s' = Some (Inr i) \<and>
    f_pos (file_at s' i) = (if and fl O_APPEND = 0 then 0 else int (st_size st)) \<and> f_node (file_at s' i) = Some node \<and>
    f_readable (file_at s' i) = (and fl O_ACCMODE \<noteq> O_WRONLY) \<and>
    f_writable (file_at s' i) = (and fl O_ACCMODE \<noteq> O_RDONLY) \<and>
    (\<forall>j. j \<noteq> i \<longrightarrow> file_at s' j = file_at s j)"
proof -
  have len: "i < length (fd_array s)" using assms(1,2) by (simp add: table_ok_def)
  have ent: "f_fd (file_at s i) = int i" "f_open (file_at s i) = 0"
    using table_entry [OF assms(1,2)] assms(3) by (simp_all add: entry_ok_def)
  let ?r = "and fl O_ACCMODE = O_RDONLY \<or> and fl O_ACCMODE = O_RDWR"
  let ?w = "and fl O_ACCMODE = O_WRONLY \<or> and fl O_ACCMODE = O_RDWR"
  let ?pos = "if and fl O_APPEND = 0 then 0 else int (st_size st)"
  let ?F = "\<lambda>f. f\<lparr>f_status := FD_INIT, f_node := None, f_pos := ?pos, f_node := Some node,
      f_readable := ?r, f_writable := ?w, f_status := FD_OPENED, f_open := f_open f + 1\<rparr>"
  let ?s' = "(upd_file i ?F s)\<lparr>fvfs := if and fl O_APPEND = 0 then v else v'\<rparr>"
  have acc: "\<not> (\<not> ?r \<and> \<not> ?w)" using assms(5) by auto
  have "file_open L path fl s = Some (?s', int i)"
    using assms(6,7) acc len ent
    by (cases "and fl O_APPEND = 0")
      (auto simp add: file_open_def fd_array_alloc_first [OF assms(1-4)] fd_array_open_def Let_def)
  moreover have ok': "table_ok ?s'"
    using table_ok_upd [OF assms(1,2)] ent by (simp add: entry_ok_def)
  moreover have "fd2file (int i) ?s' = Some (Inr i)"
    using fd2file_open [OF ok' assms(2)] len by simp
  ultimately show ?thesis using len assms(5) by (auto simp: open_flags)
qed

text \<open>\<open>file_close\<close> on the last use of a descriptor closes the inode, frees the entry, and makes
  the descriptor invalid; no other entry changes.  While the entry is still in use it
  stays occupied in the state closed, but the descriptor is invalid at once.\<close>

theorem file_close_invalidates:
  assumes "table_ok s" and "i < 72" and "f_status (file_at s i) = FD_OPENED"
    and "f_node (file_at s i) = Some n" and "vfs_close L n (fvfs s) = Some (v, 0)"
  shows "\<exists>s'. file_close L (int i) s = Some (s', 0) \<and> table_ok s' \<and>
    fd2file (int i) s' = Some (Inl (- E_INVAL)) \<and>
    (if f_open (file_at s i) = 1 then f_status (file_at s' i) = FD_NONE \<and> fvfs s' = v
     else f_status (file_at s' i) = FD_CLOSED \<and> fvfs s' = fvfs s) \<and>
    (\<forall>j. j \<noteq> i \<longrightarrow> file_at s' j = file_at s j)"
proof -
  have len: "i < length (fd_array s)" using assms(1,2) by (simp add: table_ok_def)
  have ent: "f_fd (file_at s i) = int i" "0 < f_open (file_at s i)"
    using table_entry [OF assms(1,2)] assms(3) by (simp_all add: entry_ok_def)
  show ?thesis
  proof (cases "f_open (file_at s i) = 1")
    case True
    let ?s' = "(upd_file i (\<lambda>f. f\<lparr>f_status := FD_CLOSED, f_open := f_open f - 1, f_status := FD_NONE\<rparr>) s)\<lparr>fvfs := v\<rparr>"
    have "file_close L (int i) s = Some (?s', 0)"
      using True len assms(3-5) by (simp add: file_close_def fd2file_open [OF assms(1-3)]
          fd_array_close_def fd_array_free_def)
    moreover have ok': "table_ok ?s'" using table_ok_upd [OF assms(1,2)] ent True by (simp add: entry_ok_def)
    moreover have "fd2file (int i) ?s' = Some (Inl (- E_INVAL))"
      using fd2file_closed [OF ok' assms(2)] len by simp
    ultimately show ?thesis using True len by auto
  next
    case False
    let ?s' = "upd_file i (\<lambda>f. f\<lparr>f_status := FD_CLOSED, f_open := f_open f - 1\<rparr>) s"
    have "file_close L (int i) s = Some (?s', 0)"
      using False len ent(2) assms(3-5) by (simp add: file_close_def fd2file_open [OF assms(1-3)]
          fd_array_close_def)
    moreover have ok': "table_ok ?s'"
      using table_ok_upd [OF assms(1,2)] ent assms(4) False by (simp add: entry_ok_def)
    moreover have "fd2file (int i) ?s' = Some (Inl (- E_INVAL))"
      using fd2file_closed [OF ok' assms(2)] len by simp
    ultimately show ?thesis using False len by auto
  qed
qed

text \<open>\<open>file_read\<close> on an open, readable descriptor advances the position by exactly the bytes
  the inode reports, and leaves the open count and all other entries as they were; but if
  the inode has no \<open>vop_read\<close> (a directory has none) the kernel stops.\<close>

theorem file_read_advances:
  assumes "table_ok s" and "i < 72" and "f_status (file_at s i) = FD_OPENED"
    and "f_readable (file_at s i)" and "f_node (file_at s i) = Some n" and "in_ops L n = Some ops"
  shows "case op_read ops of
      None \<Rightarrow> file_read L (int i) base len s = None
    | Some f \<Rightarrow>
        (case f n (iobuf_init base len (f_pos (file_at s i))) (fvfs s) of
           None \<Rightarrow> file_read L (int i) base len s = None
         | Some (v, iob, ret) \<Rightarrow> inode_check n (fvfs s) \<longrightarrow>
             (\<exists>s'. file_read L (int i) base len s = Some (s', iobuf_used iob, ret) \<and> table_ok s' \<and>
               fvfs s' = v \<and>
               file_at s' i = (file_at s i)\<lparr>f_pos := f_pos (file_at s i) + int (iobuf_used iob)\<rparr> \<and>
               (\<forall>j. j \<noteq> i \<longrightarrow> file_at s' j = file_at s j)))"
proof (cases "op_read ops")
  case None
  then show ?thesis
    using assms acquire_release(1) [OF assms(1-3)] table_ok_length [OF assms(1)]
    by (simp add: file_read_def fd2file_open vop_op_def)
next
  case f: (Some f)
  have len: "i < length (fd_array s)" using assms(1,2) by (simp add: table_ok_def)
  show ?thesis
  proof (cases "f n (iobuf_init base len (f_pos (file_at s i))) (fvfs s)")
    case None
    then show ?thesis
      using assms f len acquire_release(1) [OF assms(1-3)]
      by (simp add: file_read_def fd2file_open vop_op_def)
  next
    case (Some r)
    obtain v iob ret where r: "r = (v, iob, ret)" by (cases r)
    let ?g = "\<lambda>f. f\<lparr>f_pos := f_pos f + int (iobuf_used iob)\<rparr>"
    let ?s' = "upd_file i (\<lambda>f. (?g (f\<lparr>f_open := f_open f + 1\<rparr>))\<lparr>f_open := f_open f\<rparr>) (s\<lparr>fvfs := v\<rparr>)"
    have rel: "fd_array_release L i (upd_file i ?g ((upd_file i (\<lambda>f. f\<lparr>f_open := f_open f + 1\<rparr>) s)\<lparr>fvfs := v\<rparr>)) = Some ?s'"
      by (rule acquire_release(2) [OF assms(1-3)]) simp_all
    have run: "file_read L (int i) base len s = Some (?s', iobuf_used iob, ret)" if "inode_check n (fvfs s)"
      using that assms f Some r len acquire_release(1) [OF assms(1-3)] rel
      by (simp add: file_read_def fd2file_open vop_op_def Let_def)
    have "table_ok ?s'"
      using table_ok_upd [OF assms(1,2), of "\<lambda>f. f\<lparr>f_pos := f_pos f + int (iobuf_used iob)\<rparr>"]
        table_entry [OF assms(1,2)] assms(1,2,3)
      by (simp add: entry_ok_def)
    then show ?thesis using run f Some r len by auto
  qed
qed

text \<open>\<open>file_dup\<close> opens a second descriptor on the same inode: the reference and the open count
  of the inode go up by one, position and access are copied, the first descriptor is
  unchanged; an occupied target is refused with \<open>- E_BUSY\<close> and nothing changes.\<close>

theorem file_dup_shares:
  assumes "table_ok s" and "i < 72" and "f_status (file_at s i) = FD_OPENED"
    and "f_node (file_at s i) = Some n" and "j < 72"
  shows "if f_status (file_at s j) = FD_NONE
    then \<exists>s'. file_dup (int i) (int j) s = Some (s', int j) \<and> table_ok s' \<and>
      file_at s' j = (file_at s i)\<lparr>f_fd := int j, f_open := 1\<rparr> \<and>
      (\<forall>k. k \<noteq> j \<longrightarrow> file_at s' k = file_at s k) \<and>
      ref_count (fvfs s') n = ref_count (fvfs s) n + 1 \<and> open_count (fvfs s') n = open_count (fvfs s) n + 1
    else file_dup (int i) (int j) s = Some (s, - E_BUSY)"
proof -
  have len: "i < length (fd_array s)" "j < length (fd_array s)" using assms by (simp_all add: table_ok_def)
  have nofd: "int j \<noteq> NO_FD" "testfd (int j)" using assms(5) by (simp_all add: NO_FD_def testfd_def)
  have g: "get_fd_array s = Some ()" using assms(1) by (simp add: get_fd_array_def table_ok_def)
  show ?thesis
  proof (cases "f_status (file_at s j) = FD_NONE")
    case True
    have ne: "i \<noteq> j" using True assms(3) by auto
    have ej: "f_fd (file_at s j) = int j" "f_open (file_at s j) = 0"
      using table_entry [OF assms(1,5)] True by (simp_all add: entry_ok_def)
    let ?s' = "(upd_file j (\<lambda>f. f\<lparr>f_status := FD_INIT, f_node := None, f_pos := f_pos (file_at s i),
        f_readable := f_readable (file_at s i), f_writable := f_writable (file_at s i),
        f_node := Some n, f_status := FD_OPENED, f_open := f_open f + 1\<rparr>) s)
      \<lparr>fvfs := inode_open_inc n (inode_ref_inc n (fvfs s))\<rparr>"
    have "file_dup (int i) (int j) s = Some (?s', int j)"
      using True ne len ej nofd g assms(3,4)
      by (simp add: file_dup_def fd2file_open [OF assms(1-3)] fd_array_alloc_def fd_array_dup_def
          fd_array_open_def Let_def)
    moreover have "table_ok ?s'" using table_ok_upd [OF assms(1,5)] ej by (simp add: entry_ok_def)
    moreover have "file_at ?s' j = (file_at s i)\<lparr>f_fd := int j, f_open := 1\<rparr>"
      using len ej assms(3,4) by (cases "file_at s i"; cases "file_at s j") simp
    ultimately show ?thesis using True len by auto
  next
    case False
    then show ?thesis
      using nofd g by (simp add: file_dup_def fd2file_open [OF assms(1-3)] fd_array_alloc_def)
  qed
qed

subsection \<open>The properties at work\<close>

text \<open>A table with the descriptor 0 open for reading on the inode 3 of the sample layer.\<close>

definition closed_file :: "nat \<Rightarrow> open_file" where
  "closed_file i = \<lparr>f_status = FD_NONE, f_readable = False, f_writable = False, f_fd = int i,
     f_pos = 0, f_node = None, f_open = 0\<rparr>"

definition table_sample :: "nat files_struct" where
  "table_sample = \<lparr>fd_array = (map closed_file [0..<72])[0 := \<lparr>f_status = FD_OPENED, f_readable = True,
       f_writable = False, f_fd = 0, f_pos = 5, f_node = Some 3, f_open = 1\<rparr>],
     files_count = 1, fvfs = con_state\<lparr>ref_count := (\<lambda>_. 0)(3 := 2), open_count := (\<lambda>_. 0)(3 := 1)\<rparr>\<rparr>"

lemma table_sample_at:
  "file_at table_sample 0 = \<lparr>f_status = FD_OPENED, f_readable = True,
       f_writable = False, f_fd = 0, f_pos = 5, f_node = Some 3, f_open = 1\<rparr>"
  "0 < i \<Longrightarrow> i < 72 \<Longrightarrow> file_at table_sample i = closed_file i"
  by (simp_all add: table_sample_def)

lemma table_sample_ok: "table_ok table_sample"
proof -
  have "entry_ok i (file_at table_sample i)" if "i < 72" for i
    using that table_sample_at by (cases "i = 0") (simp_all add: entry_ok_def closed_file_def)
  then show ?thesis by (simp add: table_ok_def table_sample_def)
qed

lemma file_open_lowest_witness:
  "\<exists>s'. file_open con_layer (''con'' @ '':'') 4 table_sample = Some (s', 1) \<and> table_ok s' \<and>
     f_node (file_at s' 1) = Some 3"
proof -
  have "\<exists>v. vfs_open con_layer (''con'' @ '':'') 4 (fvfs table_sample) = Some (v, Inr 3)"
    using get_device_colon [of "''con''" con_layer "[]" "fvfs table_sample"]
    by (simp add: vfs_open_def Let_def open_flags vfs_lookup_def plain_def vfs_get_root_def
        table_sample_def con_state_def skip_slashes_def vfs_open_node_def vop_op_def con_layer_def
        con_ops_def inode_check_def MAX_INODE_COUNT_def)
  then obtain v where v: "vfs_open con_layer (''con'' @ '':'') 4 (fvfs table_sample) = Some (v, Inr 3)" ..
  have "f_status (file_at table_sample 1) = FD_NONE" "f_status (file_at table_sample 0) \<noteq> FD_NONE"
    using table_sample_at by (simp_all add: closed_file_def)
  then show ?thesis
    using file_open_lowest [OF table_sample_ok, of 1 4, OF _ _ _ _ v] by (auto simp: open_flags)
qed

lemma file_close_invalidates_witness:
  "\<exists>s'. file_close con_layer 0 table_sample = Some (s', 0) \<and> table_ok s' \<and>
     fd2file 0 s' = Some (Inl (- E_INVAL)) \<and> f_status (file_at s' 0) = FD_NONE"
proof -
  have "\<exists>v. vfs_close con_layer 3 (fvfs table_sample) = Some (v, 0)"
    by (simp add: vfs_close_def inode_open_dec_def inode_ref_dec_def table_sample_def con_state_def
        vop_op_def con_layer_def con_ops_def inode_check_def MAX_INODE_COUNT_def)
  then obtain v where "vfs_close con_layer 3 (fvfs table_sample) = Some (v, 0)" ..
  then show ?thesis
    using file_close_invalidates [OF table_sample_ok, of 0 3 con_layer v] table_sample_at(1) by auto
qed

lemma file_read_advances_witness: "file_read con_layer 0 100 10 table_sample = None"
  using file_read_advances [OF table_sample_ok, of 0 3 con_layer con_ops 100 10] table_sample_at(1)
  by (simp add: con_layer_def con_ops_def)

lemma file_dup_shares_witness:
  "\<exists>s'. file_dup 0 7 table_sample = Some (s', 7) \<and> table_ok s' \<and> f_pos (file_at s' 7) = 5 \<and>
     ref_count (fvfs s') 3 = 3"
proof -
  have "ref_count (fvfs table_sample) 3 = 2" by (simp add: table_sample_def)
  then show ?thesis
    using file_dup_shares [OF table_sample_ok, of 0 3 7] table_sample_at
    by (auto simp: closed_file_def)
qed

end
