(* ===== verification/Page_Table.thy ===== *)
theory Page_Table
  imports First_Fit
begin

unbundle bit_operations_syntax

text \<open>
  The three-level page tables of \<open>kern/mm/pmm.c\<close> over the first-fit manager.  Physical
  memory is \<open>frames\<close>: for each physical page number the 512 words of the page.  The kernel
  address of a page stands for its page number, a \<open>pte_t *\<close> is a page number and an index,
  a \<open>struct Page *\<close> is an index of \<open>pages\<close>.  \<open>table_at\<close> finds the table behind a key in
  the tree of tables and \<open>pte_of\<close> the entry of a virtual page; \<open>tree_ok\<close> says that no two
  keys share a table and that no table is a free page.
\<close>

section \<open>Memory\<close>

record machine =
  pm :: free_area
  frames :: "nat \<Rightarrow> nat \<Rightarrow> 64 word"
  swap_init_ok :: bool

definition PGSIZE :: nat where "PGSIZE = 4096"
definition NPTEENTRY :: nat where "NPTEENTRY = 512"
definition PTSIZE :: nat where "PTSIZE = PGSIZE * NPTEENTRY"
definition PDSIZE :: nat where "PDSIZE = PTSIZE * 512"
definition USERTOP :: nat where "USERTOP = 0x80000000"
definition USERBASE :: nat where "USERBASE = 0x00200000"

text \<open>\<open>DRAM_BASE / PGSIZE\<close>, and what \<open>page_init\<close> computes from \<open>PHYSICAL_MEMORY_END\<close>.\<close>

definition nbase :: nat where "nbase = 0x80000000 div PGSIZE"
definition npage :: nat where "npage = 0x88000000 div PGSIZE"

definition USER_ACCESS :: "nat \<Rightarrow> nat \<Rightarrow> bool" where
  "USER_ACCESS start end \<longleftrightarrow> USERBASE \<le> start \<and> start < end \<and> end \<le> USERTOP"

definition ROUNDDOWN :: "nat \<Rightarrow> nat \<Rightarrow> nat" where
  "ROUNDDOWN a n = a - a mod n"

definition PDX1 :: "nat \<Rightarrow> nat" where "PDX1 la = la div 2 ^ 30 mod 512"
definition PDX0 :: "nat \<Rightarrow> nat" where "PDX0 la = la div 2 ^ 21 mod 512"
definition PTX :: "nat \<Rightarrow> nat" where "PTX la = la div 2 ^ 12 mod 512"

definition PTE_V :: "64 word" where "PTE_V = 0x001"
definition PTE_R :: "64 word" where "PTE_R = 0x002"
definition PTE_W :: "64 word" where "PTE_W = 0x004"
definition PTE_X :: "64 word" where "PTE_X = 0x008"
definition PTE_U :: "64 word" where "PTE_U = 0x010"
definition PTE_USER :: "64 word" where "PTE_USER = PTE_R OR PTE_W OR PTE_X OR PTE_U OR PTE_V"

definition PTE_ADDR :: "64 word \<Rightarrow> 64 word" where
  "PTE_ADDR pte = push_bit 2 (pte AND NOT 0x3FF)"

definition PPN :: "64 word \<Rightarrow> nat" where
  "PPN pa = unat (drop_bit 12 pa)"

definition KADDR :: "64 word \<Rightarrow> nat option" where
  "KADDR pa = do { assert_k (PPN pa < npage); Some (PPN pa) }"

definition page2ppn :: "nat \<Rightarrow> nat" where "page2ppn p = p + nbase"

definition page2pa :: "nat \<Rightarrow> 64 word" where "page2pa p = push_bit 12 (of_nat (page2ppn p))"

definition page2kva :: "nat \<Rightarrow> nat option" where "page2kva p = KADDR (page2pa p)"

text \<open>A page number below \<open>nbase\<close> would give a pointer in front of the array \<open>pages\<close>.\<close>

definition pa2page :: "64 word \<Rightarrow> nat option" where
  "pa2page pa = do { assert_k (PPN pa < npage); assert_k (nbase \<le> PPN pa); Some (PPN pa - nbase) }"

definition pte2page :: "64 word \<Rightarrow> nat option" where
  "pte2page pte = do { assert_k (pte AND PTE_V \<noteq> 0); pa2page (PTE_ADDR pte) }"

definition pde2page :: "64 word \<Rightarrow> nat option" where
  "pde2page pde = pa2page (PTE_ADDR pde)"

definition pte_create :: "nat \<Rightarrow> 64 word \<Rightarrow> 64 word" where
  "pte_create ppn type = push_bit 10 (of_nat ppn) OR PTE_V OR type"

section \<open>Allocating pages\<close>

text \<open>
  When there is no page, one page is asked for and swapping is on, \<open>swap_out\<close> is called
  with \<open>check_mm_struct\<close>, which is a null pointer after the self-tests: its dereference
  stops the kernel.
\<close>

definition alloc_pages :: "nat \<Rightarrow> machine \<Rightarrow> (machine \<times> nat option) option" where
  "alloc_pages n s = do {
     (a, r) \<leftarrow> default_alloc_pages n (pm s);
     assert_k (r \<noteq> None \<or> 1 < n \<or> \<not> swap_init_ok s);
     Some (s\<lparr>pm := a\<rparr>, r) }"

definition free_pages :: "nat \<Rightarrow> nat \<Rightarrow> machine \<Rightarrow> machine option" where
  "free_pages base n s = do { a \<leftarrow> default_free_pages base n (pm s); Some (s\<lparr>pm := a\<rparr>) }"

definition nr_free_pages :: "machine \<Rightarrow> nat" where
  "nr_free_pages s = default_nr_free_pages (pm s)"

abbreviation alloc_page :: "machine \<Rightarrow> (machine \<times> nat option) option" where
  "alloc_page \<equiv> alloc_pages 1"

abbreviation free_page :: "nat \<Rightarrow> machine \<Rightarrow> machine option" where
  "free_page p \<equiv> free_pages p 1"

definition page_ref :: "nat \<Rightarrow> machine \<Rightarrow> int" where
  "page_ref p s = p_ref (fa_pages (pm s) p)"

definition set_page_ref :: "nat \<Rightarrow> int \<Rightarrow> machine \<Rightarrow> machine" where
  "set_page_ref p v s = s\<lparr>pm := upd_page p (\<lambda>q. q\<lparr>p_ref := v\<rparr>) (pm s)\<rparr>"

definition page_ref_inc :: "nat \<Rightarrow> machine \<Rightarrow> machine" where
  "page_ref_inc p s = set_page_ref p (page_ref p s + 1) s"

definition page_ref_dec :: "nat \<Rightarrow> machine \<Rightarrow> machine" where
  "page_ref_dec p s = set_page_ref p (page_ref p s - 1) s"

definition set_entry :: "nat \<times> nat \<Rightarrow> 64 word \<Rightarrow> machine \<Rightarrow> machine" where
  "set_entry x v s =
    s\<lparr>frames := (frames s)(fst x := (frames s (fst x))(snd x := v))\<rparr>"

definition clear_frame :: "nat \<Rightarrow> machine \<Rightarrow> machine" where
  "clear_frame f s = s\<lparr>frames := (frames s)(f := \<lambda>_. 0)\<rparr>"

definition copy_frame :: "nat \<Rightarrow> nat \<Rightarrow> machine \<Rightarrow> machine" where
  "copy_frame dst src s = s\<lparr>frames := (frames s)(dst := frames s src)\<rparr>"

section \<open>Walking the tables\<close>

text \<open>One level of \<open>get_pte\<close>: the table behind entry \<open>i\<close> of the table \<open>f\<close>, created on demand.\<close>

definition get_table :: "nat \<Rightarrow> nat \<Rightarrow> bool \<Rightarrow> machine \<Rightarrow> (machine \<times> nat option) option" where
  "get_table f i create s = do {
     (s, ok) \<leftarrow>
       (if frames s f i AND PTE_V = 0
        then if \<not> create then Some (s, False)
        else do {
          (s, r) \<leftarrow> alloc_page s;
          (case r of
             None \<Rightarrow> Some (s, False)
           | Some page \<Rightarrow> do {
               let s = set_page_ref page 1 s;
               k \<leftarrow> KADDR (page2pa page);
               let s = clear_frame k s;
               Some (set_entry (f, i) (pte_create (page2ppn page) (PTE_U OR PTE_V)) s, True) }) }
        else Some (s, True));
     if ok then do { k \<leftarrow> KADDR (PTE_ADDR (frames s f i)); Some (s, Some k) }
     else Some (s, None) }"

definition get_pte :: "nat \<Rightarrow> nat \<Rightarrow> bool \<Rightarrow> machine \<Rightarrow> (machine \<times> (nat \<times> nat) option) option" where
  "get_pte pgdir la create s = do {
     (s, r) \<leftarrow> get_table pgdir (PDX1 la) create s;
     (case r of
        None \<Rightarrow> Some (s, None)
      | Some pd0 \<Rightarrow> do {
          (s, r) \<leftarrow> get_table pd0 (PDX0 la) create s;
          (case r of
             None \<Rightarrow> Some (s, None)
           | Some pt \<Rightarrow> Some (s, Some (pt, PTX la))) }) }"

definition entry_at :: "nat \<times> nat \<Rightarrow> machine \<Rightarrow> 64 word" where
  "entry_at x s = frames s (fst x) (snd x)"

definition get_page :: "nat \<Rightarrow> nat \<Rightarrow> machine \<Rightarrow> (nat option \<times> (nat \<times> nat) option) option" where
  "get_page pgdir la s = do {
     (s, ptep) \<leftarrow> get_pte pgdir la False s;
     (case ptep of
        None \<Rightarrow> Some (None, ptep)
      | Some x \<Rightarrow>
          if entry_at x s AND PTE_V \<noteq> 0 then do { p \<leftarrow> pte2page (entry_at x s); Some (Some p, ptep) }
          else Some (None, ptep)) }"

definition page_remove_pte :: "nat \<times> nat \<Rightarrow> machine \<Rightarrow> machine option" where
  "page_remove_pte x s =
    (if entry_at x s AND PTE_V \<noteq> 0 then do {
       page \<leftarrow> pte2page (entry_at x s);
       let s = page_ref_dec page s;
       s \<leftarrow> (if page_ref page s = 0 then free_page page s else Some s);
       Some (set_entry x 0 s) }
     else Some s)"

definition page_remove :: "nat \<Rightarrow> nat \<Rightarrow> machine \<Rightarrow> machine option" where
  "page_remove pgdir la s = do {
     (s, ptep) \<leftarrow> get_pte pgdir la False s;
     (case ptep of None \<Rightarrow> Some s | Some x \<Rightarrow> page_remove_pte x s) }"

definition page_insert :: "nat \<Rightarrow> nat \<Rightarrow> nat \<Rightarrow> 64 word \<Rightarrow> machine \<Rightarrow> (machine \<times> int) option" where
  "page_insert pgdir page la perm s = do {
     (s, ptep) \<leftarrow> get_pte pgdir la True s;
     (case ptep of
        None \<Rightarrow> Some (s, - E_NO_MEM)
      | Some x \<Rightarrow> do {
          let s = page_ref_inc page s;
          s \<leftarrow> (if entry_at x s AND PTE_V \<noteq> 0 then do {
                 p \<leftarrow> pte2page (entry_at x s);
                 if p = page then Some (page_ref_dec page s) else page_remove_pte x s }
                else Some s);
          Some (set_entry x (pte_create (page2ppn page) (PTE_V OR perm)) s, 0) }) }"

text \<open>\<open>check_mm_struct\<close> is a null pointer, so that the page is not made swappable.\<close>

definition pgdir_alloc_page :: "nat \<Rightarrow> nat \<Rightarrow> 64 word \<Rightarrow> machine \<Rightarrow> (machine \<times> nat option) option" where
  "pgdir_alloc_page pgdir la perm s = do {
     (s, r) \<leftarrow> alloc_page s;
     (case r of
        None \<Rightarrow> Some (s, None)
      | Some page \<Rightarrow> do {
          (s, ret) \<leftarrow> page_insert pgdir page la perm s;
          if ret \<noteq> 0 then do { s \<leftarrow> free_page page s; Some (s, None) }
          else Some (s, Some page) }) }"

section \<open>Ranges\<close>

text \<open>The bodies of \<open>do ... while\<close> loops; a \<open>continue\<close> goes to the condition at the end.\<close>

definition next_start :: "(nat \<times> nat) option \<Rightarrow> nat \<Rightarrow> nat" where
  "next_start ptep start =
    (case ptep of None \<Rightarrow> ROUNDDOWN (u64 (start + PTSIZE)) PTSIZE | Some _ \<Rightarrow> u64 (start + PGSIZE))"

definition unmap_one :: "nat \<Rightarrow> nat \<Rightarrow> machine \<Rightarrow> (machine \<times> nat) option" where
  "unmap_one pgdir start s = do {
     (s, ptep) \<leftarrow> get_pte pgdir start False s;
     (case ptep of
        None \<Rightarrow> Some (s, next_start ptep start)
      | Some x \<Rightarrow> do {
          s \<leftarrow> (if entry_at x s \<noteq> 0 then page_remove_pte x s else Some s);
          Some (s, next_start ptep start) }) }"

partial_function (option) unmap_loop :: "nat \<Rightarrow> nat \<Rightarrow> nat \<Rightarrow> machine \<Rightarrow> machine option" where
  "unmap_loop pgdir start end s = do {
     (s, start) \<leftarrow> unmap_one pgdir start s;
     if start \<noteq> 0 \<and> start < end then unmap_loop pgdir start end s else Some s }"

definition unmap_range :: "nat \<Rightarrow> nat \<Rightarrow> nat \<Rightarrow> machine \<Rightarrow> machine option" where
  "unmap_range pgdir start end s = do {
     assert_k (start mod PGSIZE = 0 \<and> end mod PGSIZE = 0);
     assert_k (USER_ACCESS start end);
     unmap_loop pgdir start end s }"

fun free_pt_loop :: "nat \<Rightarrow> nat \<Rightarrow> nat \<Rightarrow> machine \<Rightarrow> bool" where
  "free_pt_loop 0 i pt s = True"
| "free_pt_loop (Suc k) i pt s =
    (if frames s pt i AND PTE_V \<noteq> 0 then False else free_pt_loop k (i + 1) pt s)"

definition exit_entry :: "nat \<Rightarrow> nat \<Rightarrow> bool \<Rightarrow> machine \<Rightarrow> (machine \<times> bool) option" where
  "exit_entry pd0 d0start free_pd0 s =
    (let pde0 = frames s pd0 (PDX0 d0start)
     in if pde0 AND PTE_V \<noteq> 0 then do {
          p \<leftarrow> pde2page pde0;
          pt \<leftarrow> page2kva p;
          s \<leftarrow> (if free_pt_loop NPTEENTRY 0 pt s
                then do { s \<leftarrow> free_page p s; Some (set_entry (pd0, PDX0 d0start) 0 s) }
                else Some s);
          Some (s, free_pd0) }
        else Some (s, False))"

partial_function (option) exit_inner ::
    "nat \<Rightarrow> nat \<Rightarrow> nat \<Rightarrow> nat \<Rightarrow> bool \<Rightarrow> machine \<Rightarrow> (machine \<times> bool) option" where
  "exit_inner pd0 d1start d0start end free_pd0 s = do {
     (s, free_pd0) \<leftarrow> exit_entry pd0 d0start free_pd0 s;
     let d0start = u64 (d0start + PTSIZE);
     if d0start \<noteq> 0 \<and> d0start < u64 (d1start + PDSIZE) \<and> d0start < end
     then exit_inner pd0 d1start d0start end free_pd0 s
     else Some (s, free_pd0) }"

partial_function (option) exit_loop :: "nat \<Rightarrow> nat \<Rightarrow> nat \<Rightarrow> nat \<Rightarrow> machine \<Rightarrow> machine option" where
  "exit_loop pgdir d1start d0start end s = do {
     let pde1 = frames s pgdir (PDX1 d1start);
     s \<leftarrow> (if pde1 AND PTE_V \<noteq> 0 then do {
            p \<leftarrow> pde2page pde1;
            pd0 \<leftarrow> page2kva p;
            (s, free_pd0) \<leftarrow> exit_inner pd0 d1start d0start end True s;
            if free_pd0
            then do { s \<leftarrow> free_page p s; Some (set_entry (pgdir, PDX1 d1start) 0 s) }
            else Some s }
          else Some s);
     let d1start = u64 (d1start + PDSIZE);
     if d1start \<noteq> 0 \<and> d1start < end then exit_loop pgdir d1start d1start end s else Some s }"

definition exit_range :: "nat \<Rightarrow> nat \<Rightarrow> nat \<Rightarrow> machine \<Rightarrow> machine option" where
  "exit_range pgdir start end s = do {
     assert_k (start mod PGSIZE = 0 \<and> end mod PGSIZE = 0);
     assert_k (USER_ACCESS start end);
     exit_loop pgdir (ROUNDDOWN start PDSIZE) (ROUNDDOWN start PTSIZE) end s }"

text \<open>
  \<open>copy_range\<close>, where \<open>Inl\<close> is an early return.  Without \<open>share\<close> the assertion
  \<open>assert(npage = NULL)\<close> assigns the null pointer, and fails.
\<close>

definition copy_one :: "nat \<Rightarrow> nat \<Rightarrow> nat \<Rightarrow> bool \<Rightarrow> machine \<Rightarrow> (machine \<times> (int + nat)) option" where
  "copy_one to from start share s = do {
     (s, ptep) \<leftarrow> get_pte from start False s;
     (case ptep of
        None \<Rightarrow> Some (s, Inr (next_start ptep start))
      | Some x \<Rightarrow>
          if entry_at x s AND PTE_V \<noteq> 0 then do {
            (s, nptep) \<leftarrow> get_pte to start True s;
            (case nptep of
               None \<Rightarrow> Some (s, Inl (- E_NO_MEM))
             | Some _ \<Rightarrow> do {
                 let perm = entry_at x s AND PTE_USER;
                 page \<leftarrow> pte2page (entry_at x s);
                 (s, r) \<leftarrow> alloc_page s;
                 assert_k (r \<noteq> None);
                 if share then do {
                   (s, _) \<leftarrow> page_insert from page start (perm AND NOT PTE_W) s;
                   (s, ret) \<leftarrow> page_insert to page start (perm AND NOT PTE_W) s;
                   assert_k (ret = 0);
                   Some (s, Inr (next_start ptep start)) }
                 else None }) }
          else Some (s, Inr (next_start ptep start))) }"

partial_function (option) copy_loop ::
    "nat \<Rightarrow> nat \<Rightarrow> nat \<Rightarrow> nat \<Rightarrow> bool \<Rightarrow> machine \<Rightarrow> (machine \<times> int) option" where
  "copy_loop to from start end share s = do {
     (s, r) \<leftarrow> copy_one to from start share s;
     (case r of
        Inl e \<Rightarrow> Some (s, e)
      | Inr start \<Rightarrow>
          if start \<noteq> 0 \<and> start < end then copy_loop to from start end share s else Some (s, 0)) }"

definition copy_range :: "nat \<Rightarrow> nat \<Rightarrow> nat \<Rightarrow> nat \<Rightarrow> bool \<Rightarrow> machine \<Rightarrow> (machine \<times> int) option" where
  "copy_range to from start end share s = do {
     assert_k (start mod PGSIZE = 0 \<and> end mod PGSIZE = 0);
     assert_k (USER_ACCESS start end);
     copy_loop to from start end share s }"

section \<open>Entries\<close>

definition entry_ppn :: "64 word \<Rightarrow> nat" where
  "entry_ppn e = PPN (PTE_ADDR e)"

definition valid :: "64 word \<Rightarrow> bool" where
  "valid e \<longleftrightarrow> e AND PTE_V \<noteq> 0"

lemma valid_bit: "valid e \<longleftrightarrow> bit e 0"
  by (simp add: valid_def PTE_V_def and_one_eq bit_0 odd_iff_mod_2_eq_one)

lemma valid_iffs [simp]:
  "(e AND PTE_V \<noteq> 0) = valid e" "(e AND PTE_V = 0) = (\<not> valid e)"
  by (simp_all add: valid_def)

lemma valid_zero [simp]: "\<not> valid 0"
  by (simp add: valid_bit)

lemma valid_pte_create [simp]: "valid (pte_create n t)"
  by (simp add: valid_bit pte_create_def PTE_V_def bit_simps)

lemma bit_PTE_ADDR: "bit (PTE_ADDR e) k \<longleftrightarrow> k < 64 \<and> 12 \<le> k \<and> bit e (k - 2)"
proof -
  have e: "(0x3FF :: 64 word) = mask 10" by (simp add: mask_eq_exp_minus_1)
  show ?thesis unfolding PTE_ADDR_def e
    by (auto simp: bit_push_bit_iff bit_and_iff bit_not_iff bit_mask_iff)
qed

text \<open>The permissions are in the ten bits below the page number.\<close>

definition perm_ok :: "64 word \<Rightarrow> bool" where
  "perm_ok t \<longleftrightarrow> t AND NOT 0x3FF = 0"

lemma entry_ppn_create:
  assumes "n < 2 ^ 44" and "perm_ok t"
  shows "entry_ppn (pte_create n t) = n"
proof -
  have t: "\<not> bit t k" if "10 \<le> k" for k
  proof -
    have "\<not> bit (t AND NOT (mask 10)) k" using assms(2) by (simp add: perm_ok_def mask_eq_exp_minus_1)
    then show ?thesis using that by (auto simp: bit_simps dest: bit_imp_le_length)
  qed
  have n: "\<not> bit n k" if "44 \<le> k" for k
    using assms(1) that by (metis bit_take_bit_iff linorder_not_le take_bit_nat_eq_self_iff)
  have e: "drop_bit 12 (PTE_ADDR (pte_create n t)) = (of_nat n :: 64 word)"
  proof (rule bit_eqI)
    fix k assume "possible_bit TYPE(64 word) k"
    then have k: "k < 64" by simp
    show "bit (drop_bit 12 (PTE_ADDR (pte_create n t))) k = bit (of_nat n :: 64 word) k"
      using k t [of "k + 10"] n [of k]
      by (cases "44 \<le> k") (auto simp: bit_drop_bit_eq bit_PTE_ADDR pte_create_def bit_simps PTE_V_def add.commute)
  qed
  have "n < 2 ^ 64" using assms(1) by simp
  then show ?thesis unfolding entry_ppn_def PPN_def e by (simp add: unsigned_of_nat take_bit_nat_eq_self)
qed

lemma PPN_page2pa: "page2ppn p < 2 ^ 44 \<Longrightarrow> PPN (page2pa p) = page2ppn p"
proof -
  assume a: "page2ppn p < 2 ^ 44"
  have n: "\<not> bit (page2ppn p) k" if "44 \<le> k" for k
    using a that by (metis bit_take_bit_iff linorder_not_le take_bit_nat_eq_self_iff)
  have e: "drop_bit 12 (page2pa p) = (of_nat (page2ppn p) :: 64 word)"
  proof (rule bit_eqI)
    fix k assume "possible_bit TYPE(64 word) k"
    then show "bit (drop_bit 12 (page2pa p)) k = bit (of_nat (page2ppn p) :: 64 word) k"
      using n [of k] by (cases "44 \<le> k") (auto simp: page2pa_def bit_simps)
  qed
  have "page2ppn p < 2 ^ 64" using a by simp
  then show ?thesis unfolding PPN_def e by (simp add: unsigned_of_nat take_bit_nat_eq_self)
qed

lemma nbase_npage [simp]: "nbase = 524288" "npage = 557056"
  by (simp_all add: nbase_def npage_def PGSIZE_def)

section \<open>The manager underneath\<close>

text \<open>What allocating and releasing one page leave alone.\<close>

lemma ff_inv_ref [simp]: "ff_inv N (upd_page p (\<lambda>q. q\<lparr>p_ref := v\<rparr>) a) F = ff_inv N a F"
proof -
  have "prop_of (upd_page p (\<lambda>q. q\<lparr>p_ref := v\<rparr>) a) = prop_of a"
    by (auto simp: prop_of_def fun_eq_iff)
  moreover have "PageProperty (fa_pages (upd_page p (\<lambda>q. q\<lparr>p_ref := v\<rparr>) a) x) = PageProperty (fa_pages a x)" for x
    by simp
  ultimately show ?thesis unfolding ff_inv_def ff_ok_def free_set_def by simp
qed

lemma default_alloc_one:
  assumes "ff_inv N a F"
  obtains (none) "F = {}" "default_alloc_pages 1 a = Some (a, None)"
  | (some) b p where "default_alloc_pages 1 a = Some (b, Some p)" "p \<in> F" "ff_inv N b (F - {p})"
      "\<And>q. p_ref (fa_pages b q) = p_ref (fa_pages a q)"
      "\<And>q. q \<notin> F \<Longrightarrow> fa_pages b q = fa_pages a q"
      "\<And>q. PageReserved (fa_pages b q) = PageReserved (fa_pages a q)"
      "\<not> PageProperty (fa_pages b p)"
proof -
  obtain xs where xs: "ff_ok N a xs" "F = free_set a xs" using assms by (auto simp: ff_inv_def)
  have one: "(0 :: nat) < 1" by simp
  from xs(1) one show ?thesis
  proof (cases rule: default_alloc_cases)
    case none
    have "xs = []"
      using none(2) xs(1) by (cases xs) (auto simp: ff_ok_def blocks_ordered_Cons)
    then show ?thesis using none(1) xs(2) that(1) by (simp add: free_set_def)
  next
    case (some ys x zs)
    have inv: "{x..<x + 1} \<subseteq> F" "ff_inv N (take_block 1 x a) (F - {x..<x + 1})"
      using default_alloc_inv [OF assms some(4)] by auto
    have rest: "1 < prop_of a x \<Longrightarrow> x + 1 \<in> F"
      using xs(2) some(1) by (force simp: free_set_def)
    show ?thesis
    proof (rule that(2) [OF some(4)])
      show "x \<in> F" "ff_inv N (take_block 1 x a) (F - {x})"
        using inv by simp_all
      fix q
      show "p_ref (fa_pages (take_block 1 x a) q) = p_ref (fa_pages a q)"
        by (simp add: take_block_pages Let_def)
      show "q \<notin> F \<Longrightarrow> fa_pages (take_block 1 x a) q = fa_pages a q"
        using rest inv(1) by (auto simp: take_block_pages Let_def)
      show "PageReserved (fa_pages (take_block 1 x a) q) = PageReserved (fa_pages a q)"
        by (simp add: take_block_pages Let_def)
      show "\<not> PageProperty (fa_pages (take_block 1 x a) x)"
        by (simp add: take_block_pages Let_def)
    qed
  qed
qed

lemma default_free_one:
  assumes "ff_inv N a F" and "can_free N p 1 a F" and "p \<notin> F"
  obtains b where "default_free_pages p 1 a = Some b" "ff_inv N b (insert p F)"
    "\<And>q. p_ref (fa_pages b q) = (if q = p then 0 else p_ref (fa_pages a q))"
    "\<And>q. PageReserved (fa_pages b q) = (q \<noteq> p \<and> PageReserved (fa_pages a q))"
    "\<And>q. q \<noteq> p \<Longrightarrow> PageProperty (fa_pages b q) \<Longrightarrow> PageProperty (fa_pages a q)"
proof -
  have ins: "F \<union> {p..<p + 1} = insert p F" by auto
  obtain b where b: "default_free_pages p 1 a = Some b" "ff_inv N b (insert p F)"
    using first_fit.release_ok [OF assms(1,2)] assms(3) ins by auto
  have f: "freeable N p 1 a" using assms(2) by (simp add: can_free_def)
  obtain h c where h: "b = merge_next c (fst (merge_prev p ((released p 1 a)\<lparr>fa_links := h\<rparr>)))"
    using b(1) unfolding default_free_eq [OF f]
    by (auto simp: Let_def case_prod_beta split: option.splits)
  define s1 where "s1 = (released p 1 a)\<lparr>fa_links := h\<rparr>"
  define s2 where "s2 = fst (merge_prev p s1)"
  have s1: "fa_pages s1 q = (if q = p then SetPageProperty ((released_page (fa_pages a p))\<lparr>p_property := u32 1\<rparr>)
      else fa_pages a q)" for q
    by (simp add: s1_def released_def)
  have s2: "p_ref (fa_pages s2 q) = p_ref (fa_pages s1 q) \<and>
      PageReserved (fa_pages s2 q) = PageReserved (fa_pages s1 q) \<and>
      (PageProperty (fa_pages s2 q) \<longrightarrow> PageProperty (fa_pages s1 q))" for q
    unfolding s2_def merge_prev_def by (auto simp: Let_def split: node.split)
  have b': "p_ref (fa_pages b q) = p_ref (fa_pages s2 q) \<and>
      PageReserved (fa_pages b q) = PageReserved (fa_pages s2 q) \<and>
      (PageProperty (fa_pages b q) \<longrightarrow> PageProperty (fa_pages s2 q))" for q
    unfolding h s2_def [symmetric] s1_def [symmetric] merge_next_def
    by (auto simp: Let_def split: node.split)
  show ?thesis
  proof (rule that [OF b])
    fix q
    show "p_ref (fa_pages b q) = (if q = p then 0 else p_ref (fa_pages a q))"
      using s1 s2 b' by (simp add: released_page_def)
    show "PageReserved (fa_pages b q) = (q \<noteq> p \<and> PageReserved (fa_pages a q))"
      using s1 s2 b' by (simp add: released_page_def)
    show "q \<noteq> p \<Longrightarrow> PageProperty (fa_pages b q) \<Longrightarrow> PageProperty (fa_pages a q)"
      using s1 [of q] s2 [of q] b' [of q] by simp
  qed
qed

section \<open>The tree of tables\<close>

datatype tkey = Root nat | Dir nat nat | Tab nat nat nat

definition below :: "machine \<Rightarrow> nat \<Rightarrow> nat \<Rightarrow> nat option" where
  "below s f i = (if valid (frames s f i) then Some (entry_ppn (frames s f i)) else None)"

fun table_at :: "machine \<Rightarrow> tkey \<Rightarrow> nat option" where
  "table_at s (Root d) = Some d"
| "table_at s (Dir d i) = below s d i"
| "table_at s (Tab d i j) = (case below s d i of None \<Rightarrow> None | Some f \<Rightarrow> below s f j)"

definition user_keys :: "nat set \<Rightarrow> tkey set" where
  "user_keys D = Root ` D \<union> {Dir d i |d i. d \<in> D \<and> i < 2} \<union> {Tab d i j |d i j. d \<in> D \<and> i < 2 \<and> j < 512}"

definition in_mem :: "nat \<Rightarrow> bool" where
  "in_mem f \<longleftrightarrow> nbase \<le> f \<and> f < npage"

definition tree_ok :: "machine \<Rightarrow> nat set \<Rightarrow> nat set \<Rightarrow> bool" where
  "tree_ok s D F \<longleftrightarrow>
     (\<forall>k\<in>user_keys D. \<forall>f. table_at s k = Some f \<longrightarrow> in_mem f \<and> f - nbase \<notin> F) \<and>
     (\<forall>k\<in>user_keys D. \<forall>k'\<in>user_keys D. \<forall>f. table_at s k = Some f \<and> table_at s k' = Some f \<longrightarrow> k = k')"

definition is_table :: "machine \<Rightarrow> nat set \<Rightarrow> nat \<Rightarrow> bool" where
  "is_table s D f \<longleftrightarrow> (\<exists>k\<in>user_keys D. table_at s k = Some f)"

definition pte_of :: "machine \<Rightarrow> nat \<Rightarrow> nat \<Rightarrow> 64 word" where
  "pte_of s d la =
    (case table_at s (Tab d (PDX1 la) (PDX0 la)) of None \<Rightarrow> 0 | Some f \<Rightarrow> frames s f (PTX la))"

lemma user_key_simps [simp]:
  "Root d \<in> user_keys D \<longleftrightarrow> d \<in> D"
  "Dir d i \<in> user_keys D \<longleftrightarrow> d \<in> D \<and> i < 2"
  "Tab d i j \<in> user_keys D \<longleftrightarrow> d \<in> D \<and> i < 2 \<and> j < 512"
  by (auto simp: user_keys_def)

lemma PD_bounds [simp]: "la < USERTOP \<Longrightarrow> PDX1 la < 2" "PDX0 la < 512" "PTX la < 512"
  by (auto simp: PDX1_def PDX0_def PTX_def USERTOP_def)

text \<open>The three indices determine the virtual page.\<close>

lemma index_inj:
  assumes "la < USERTOP" and "la' < USERTOP"
    and "PDX1 la = PDX1 la'" "PDX0 la = PDX0 la'" "PTX la = PTX la'"
  shows "la div PGSIZE = la' div PGSIZE"
proof -
  have e: "x div 4096 = PDX1 x * 2 ^ 18 + PDX0 x * 512 + PTX x" if "x < USERTOP" for x
  proof -
    have a: "PDX1 x = x div 2 ^ 30" using that by (simp add: PDX1_def USERTOP_def)
    have b: "x div 2 ^ 21 = x div 2 ^ 30 * 512 + PDX0 x"
      using div_mult_mod_eq [of "x div 2 ^ 21" 512] by (simp add: PDX0_def div_mult2_eq [symmetric])
    have c: "x div 4096 = x div 2 ^ 21 * 512 + PTX x"
      using div_mult_mod_eq [of "x div 2 ^ 12" 512] by (simp add: PTX_def div_mult2_eq [symmetric])
    show ?thesis using a b c by simp
  qed
  show ?thesis using e [OF assms(1)] e [OF assms(2)] assms(3-5) by (simp add: PGSIZE_def)
qed

lemma index_of_vpn:
  "PDX1 la = la div PGSIZE div 2 ^ 18 mod 512"
  "PDX0 la = la div PGSIZE div 2 ^ 9 mod 512"
  "PTX la = la div PGSIZE mod 512"
  by (simp_all add: PDX1_def PDX0_def PTX_def PGSIZE_def div_mult2_eq [symmetric])

lemma pte_of_page:
  assumes "la div PGSIZE = la' div PGSIZE"
  shows "pte_of s d la = pte_of s d la'"
  unfolding pte_of_def index_of_vpn assms ..

section \<open>The invariant\<close>

definition NPAGES :: nat where "NPAGES = npage - nbase"

definition clean :: "nat \<Rightarrow> machine \<Rightarrow> bool" where
  "clean p s \<longleftrightarrow> \<not> PageReserved (fa_pages (pm s) p) \<and> \<not> PageProperty (fa_pages (pm s) p)"

text \<open>The virtual pages that are mapped to a page, over all address spaces.\<close>

definition mappers :: "machine \<Rightarrow> nat set \<Rightarrow> nat \<Rightarrow> (nat \<times> nat) set" where
  "mappers s D p = {(d, v). d \<in> D \<and> v < USERTOP div PGSIZE \<and>
     valid (pte_of s d (v * PGSIZE)) \<and> entry_ppn (pte_of s d (v * PGSIZE)) = page2ppn p}"

definition leaf_ok :: "machine \<Rightarrow> nat set \<Rightarrow> nat set \<Rightarrow> nat \<Rightarrow> bool" where
  "leaf_ok s D F f \<longleftrightarrow> in_mem f \<and> f - nbase \<notin> F \<and> \<not> is_table s D f \<and> clean (f - nbase) s"

definition pages_ok :: "machine \<Rightarrow> nat set \<Rightarrow> nat set \<Rightarrow> bool" where
  "pages_ok s D F \<longleftrightarrow>
     (\<forall>d\<in>D. \<forall>la<USERTOP. valid (pte_of s d la) \<longrightarrow> leaf_ok s D F (entry_ppn (pte_of s d la))) \<and>
     (\<forall>p<NPAGES. \<not> is_table s D (page2ppn p) \<longrightarrow> page_ref p s = int (card (mappers s D p))) \<and>
     (\<forall>p\<in>F. \<not> PageReserved (fa_pages (pm s) p))"

definition pt_ok :: "machine \<Rightarrow> nat set \<Rightarrow> nat set \<Rightarrow> bool" where
  "pt_ok s D F \<longleftrightarrow> ff_inv NPAGES (pm s) F \<and> finite D \<and> tree_ok s D F \<and> pages_ok s D F"

text \<open>What creating tables does: free pages become tables, and no entry of a page changes.\<close>

definition grown :: "machine \<Rightarrow> machine \<Rightarrow> nat set \<Rightarrow> nat set \<Rightarrow> nat set \<Rightarrow> bool" where
  "grown s s' D F F' \<longleftrightarrow> F' \<subseteq> F \<and>
     (\<forall>d\<in>D. \<forall>la<USERTOP. pte_of s' d la = pte_of s d la) \<and>
     (\<forall>k\<in>user_keys D. table_at s k \<noteq> None \<longrightarrow> table_at s' k = table_at s k) \<and>
     (\<forall>h. \<not> is_table s' D h \<longrightarrow> frames s' h = frames s h) \<and>
     (\<forall>h. is_table s' D h \<longrightarrow> is_table s D h \<or> h - nbase \<in> F) \<and>
     (\<forall>q. q \<notin> F \<longrightarrow> fa_pages (pm s') q = fa_pages (pm s) q) \<and>
     swap_init_ok s' = swap_init_ok s"

lemma grown_refl: "grown s s D F F"
  by (simp add: grown_def)

lemma grown_is_table: "grown s s' D F F' \<Longrightarrow> is_table s D h \<Longrightarrow> is_table s' D h"
  unfolding grown_def is_table_def by (metis option.distinct(1))

lemma grown_trans:
  assumes "grown s s1 D F F1" and "grown s1 s2 D F1 F2"
  shows "grown s s2 D F F2"
proof -
  have "frames s2 h = frames s h" if "\<not> is_table s2 D h" for h
    using that assms grown_is_table [OF assms(2)] unfolding grown_def by metis
  moreover have "table_at s2 k = table_at s k" if "k \<in> user_keys D" "table_at s k \<noteq> None" for k
    using that assms unfolding grown_def by metis
  moreover have "fa_pages (pm s2) q = fa_pages (pm s) q" if "q \<notin> F" for q
    using that assms unfolding grown_def by (metis subset_iff)
  moreover have "is_table s D h \<or> h - nbase \<in> F" if "is_table s2 D h" for h
    using that assms unfolding grown_def by (metis subset_iff)
  ultimately show ?thesis using assms unfolding grown_def by auto
qed

lemma NPAGES_eq [simp]: "NPAGES = 32768"
  by (simp add: NPAGES_def)

lemma page2ppn_minus [simp]: "page2ppn p - 524288 = p"
  by (simp add: page2ppn_def)

lemma page2ppn_inj [simp]: "page2ppn p = page2ppn q \<longleftrightarrow> p = q"
  by (simp add: page2ppn_def)

lemma in_mem_page [simp]: "in_mem (page2ppn p) \<longleftrightarrow> p < 32768"
  by (auto simp: in_mem_def page2ppn_def)

lemma in_memE: "in_mem f \<Longrightarrow> \<exists>p<32768. f = page2ppn p"
  by (rule exI [of _ "f - nbase"]) (auto simp: in_mem_def page2ppn_def)

lemma ff_inv_subset: "ff_inv N a F \<Longrightarrow> F \<subseteq> {0..<N}"
  using ff_ok_subset by (auto simp: ff_inv_def)

lemma finite_mappers: "finite D \<Longrightarrow> finite (mappers s D p)"
  by (rule finite_subset [of _ "D \<times> {..<USERTOP div PGSIZE}"]) (auto simp: mappers_def)

lemma page_addr: "v < USERTOP div PGSIZE \<Longrightarrow> v * PGSIZE < USERTOP"
  by (simp add: USERTOP_def PGSIZE_def)

lemma mappers_cong:
  "(\<And>d la. d \<in> D \<Longrightarrow> la < USERTOP \<Longrightarrow> pte_of s' d la = pte_of s d la) \<Longrightarrow> mappers s' D p = mappers s D p"
  using page_addr by (auto simp: mappers_def)

lemma table_not_free:
  "tree_ok s D F \<Longrightarrow> is_table s D f \<Longrightarrow> in_mem f \<and> f - nbase \<notin> F"
  unfolding tree_ok_def is_table_def by blast

lemma free_not_table: "tree_ok s D F \<Longrightarrow> p \<in> F \<Longrightarrow> \<not> is_table s D (page2ppn p)"
  using table_not_free by fastforce

lemma table_at_is_table: "k \<in> user_keys D \<Longrightarrow> table_at s k = Some f \<Longrightarrow> is_table s D f"
  by (auto simp: is_table_def)

lemma tree_inj:
  "tree_ok s D F \<Longrightarrow> k \<in> user_keys D \<Longrightarrow> k' \<in> user_keys D \<Longrightarrow>
     table_at s k = Some f \<Longrightarrow> table_at s k' = Some f \<Longrightarrow> k = k'"
  unfolding tree_ok_def by blast

section \<open>Creating tables\<close>

lemma grow:
  assumes t: "tree_ok s D F" and g: "pages_ok s D F"
    and k: "k \<in> user_keys D" "table_at s k = Some f" "\<And>d i j. k \<noteq> Tab d i j"
    and c: "c \<in> user_keys D" "table_at s c = None" and p: "p \<in> F" "p < 32768"
    and tat: "\<And>k'. k' \<in> user_keys D \<Longrightarrow> table_at s' k' = (if k' = c then Some (page2ppn p) else table_at s k')"
    and fr: "\<And>h. h \<noteq> f \<Longrightarrow> h \<noteq> page2ppn p \<Longrightarrow> frames s' h = frames s h" "frames s' (page2ppn p) = (\<lambda>_. 0)"
    and pg: "\<And>q. q \<notin> F \<Longrightarrow> fa_pages (pm s') q = fa_pages (pm s) q"
      "\<And>q. page_ref q s' = (if q = p then 1 else page_ref q s)"
      "\<And>q. PageReserved (fa_pages (pm s') q) = PageReserved (fa_pages (pm s) q)"
    and sw: "swap_init_ok s' = swap_init_ok s"
  shows "tree_ok s' D (F - {p})" and "pages_ok s' D (F - {p})" and "grown s s' D F (F - {p})"
proof -
  have np: "\<not> is_table s D (page2ppn p)" by (rule free_not_table [OF t p(1)])
  have tab: "is_table s' D h \<longleftrightarrow> is_table s D h \<or> h = page2ppn p" for h
    using tat c unfolding is_table_def by (metis option.inject option.distinct(1))
  show T: "tree_ok s' D (F - {p})"
    unfolding tree_ok_def
  proof (intro conjI ballI allI impI)
    fix k1 h assume k1: "k1 \<in> user_keys D" "table_at s' k1 = Some h"
    show "in_mem h" "h - nbase \<notin> F - {p}"
      using k1 tat p table_not_free [OF t] table_at_is_table [OF k1(1), of s h] by (auto split: if_splits)
  next
    fix k1 k2 h assume k1: "k1 \<in> user_keys D" "k2 \<in> user_keys D" "table_at s' k1 = Some h \<and> table_at s' k2 = Some h"
    show "k1 = k2"
      using k1 tat np table_at_is_table tree_inj [OF t k1(1,2)] by (auto split: if_splits)
  qed
  have pte: "pte_of s' d la = pte_of s d la" if "d \<in> D" "la < USERTOP" for d la
  proof -
    let ?t = "Tab d (PDX1 la) (PDX0 la)"
    have key: "?t \<in> user_keys D" using that by simp
    show ?thesis
    proof (cases "?t = c")
      case True
      then show ?thesis using tat [OF key] c(2) fr(2) by (simp add: pte_of_def del: table_at.simps)
    next
      case False
      show ?thesis
      proof (cases "table_at s ?t")
        case None
        then show ?thesis using tat [OF key] False by (simp add: pte_of_def del: table_at.simps)
      next
        case (Some h)
        have "h \<noteq> f" using tree_inj [OF t k(1) key] k(2,3) Some by blast
        moreover have "h \<noteq> page2ppn p" using np table_at_is_table [OF key Some] by auto
        ultimately show ?thesis
          using tat [OF key] False Some fr(1) by (simp add: pte_of_def del: table_at.simps)
      qed
    qed
  qed
  have map: "mappers s' D q = mappers s D q" for q by (rule mappers_cong) (rule pte)
  show "pages_ok s' D (F - {p})"
    unfolding pages_ok_def
  proof (intro conjI ballI allI impI)
    fix d la assume d: "d \<in> D" "la < USERTOP" "valid (pte_of s' d la)"
    let ?f = "entry_ppn (pte_of s d la)"
    have l: "leaf_ok s D F ?f" using d g pte by (simp add: pages_ok_def)
    then have "?f - nbase \<notin> F" by (simp add: leaf_ok_def)
    then have "clean (?f - nbase) s'" "?f \<noteq> page2ppn p"
      using l pg(1) p(1) by (auto simp: leaf_ok_def clean_def)
    then show "leaf_ok s' D (F - {p}) (entry_ppn (pte_of s' d la))"
      using l pte d tab by (simp add: leaf_ok_def)
  next
    fix q assume "q < NPAGES" "\<not> is_table s' D (page2ppn q)"
    then show "page_ref q s' = int (card (mappers s' D q))"
      using g tab pg(2) map by (simp add: pages_ok_def)
  next
    fix q assume "q \<in> F - {p}"
    then show "\<not> PageReserved (fa_pages (pm s') q)" using g pg(3) by (simp add: pages_ok_def)
  qed
  show "grown s s' D F (F - {p})"
    unfolding grown_def
  proof (intro conjI ballI allI impI)
    fix h assume "\<not> is_table s' D h"
    then show "frames s' h = frames s h" using fr(1) tab table_at_is_table [OF k(1,2)] by metis
  next
    fix h assume "is_table s' D h"
    then show "is_table s D h \<or> h - nbase \<in> F" using tab p(1) by auto
  qed (use pte tat c pg(1) sw in auto)
qed

lemma alloc_page_cases:
  assumes "ff_inv NPAGES (pm s) F"
  obtains (none) "F = {}" "alloc_page s = (if swap_init_ok s then None else Some (s, None))"
  | (some) b p where "alloc_page s = Some (s\<lparr>pm := b\<rparr>, Some p)" "p \<in> F" "p < 32768" "ff_inv NPAGES b (F - {p})"
      "\<And>q. p_ref (fa_pages b q) = p_ref (fa_pages (pm s) q)"
      "\<And>q. q \<notin> F \<Longrightarrow> fa_pages b q = fa_pages (pm s) q"
      "\<And>q. PageReserved (fa_pages b q) = PageReserved (fa_pages (pm s) q)"
      "\<not> PageProperty (fa_pages b p)"
  using assms
proof (cases rule: default_alloc_one)
  case none
  then show ?thesis using that(1) by (simp add: alloc_pages_def)
next
  case (some b p)
  have "p < 32768" using ff_inv_subset [OF assms] some(2) by auto
  then show ?thesis using that(2) [OF _ some(2) _ some(3-7)] some(1) by (simp add: alloc_pages_def)
qed

definition new_table :: "nat \<Rightarrow> nat \<Rightarrow> nat \<Rightarrow> machine \<Rightarrow> machine" where
  "new_table f i p s = set_entry (f, i) (pte_create (page2ppn p) (PTE_U OR PTE_V))
     (clear_frame (page2ppn p) (set_page_ref p 1 s))"

lemma page_ppn_small: "p < 32768 \<Longrightarrow> page2ppn p < 557056" "p < 32768 \<Longrightarrow> page2ppn p < 2 ^ 44"
  by (simp_all add: page2ppn_def)

lemma perm_ok_or: "perm_ok a \<Longrightarrow> perm_ok b \<Longrightarrow> perm_ok (a OR b)"
  by (simp only: perm_ok_def bit.conj_disj_distrib2 or.right_neutral)

lemma perm_ok_and: "perm_ok b \<Longrightarrow> perm_ok (a AND b)" "perm_ok a \<Longrightarrow> perm_ok (a AND b)"
proof -
  show "perm_ok (a AND b)" if "perm_ok b"
    using that by (simp only: perm_ok_def and.assoc bit.conj_zero_right)
  show "perm_ok (a AND b)" if "perm_ok a"
  proof -
    have "(a AND b) AND NOT 0x3FF = b AND (a AND NOT 0x3FF)" by (simp only: and.assoc and.left_commute)
    then show ?thesis using that by (simp only: perm_ok_def bit.conj_zero_right)
  qed
qed

lemma perm_bits [simp]:
  "perm_ok PTE_V" "perm_ok (PTE_U OR PTE_V)" "perm_ok PTE_USER"
  by (simp_all add: perm_ok_def PTE_U_def PTE_V_def PTE_USER_def PTE_R_def PTE_W_def PTE_X_def)

lemma new_table_below:
  assumes "p < 32768" and "f \<noteq> page2ppn p"
  shows "below (new_table f i p s) h j =
    (if h = f \<and> j = i then Some (page2ppn p) else if h = page2ppn p then None else below s h j)"
  using assms entry_ppn_create [OF page_ppn_small(2) [OF assms(1)] perm_bits(2)]
  by (simp add: below_def new_table_def set_entry_def clear_frame_def set_page_ref_def)

lemma get_table_present:
  "below s f i = Some g \<Longrightarrow> g < 557056 \<Longrightarrow> get_table f i create s = Some (s, Some g)"
  by (auto simp: get_table_def below_def KADDR_def entry_ppn_def split: if_splits)

lemma get_table_absent: "below s f i = None \<Longrightarrow> get_table f i False s = Some (s, None)"
  by (auto simp: get_table_def below_def split: if_splits)

lemma get_table_new:
  assumes "below s f i = None" and "alloc_page s = Some (s1, Some p)" and "frames s1 = frames s"
    and "p < 32768" and "f \<noteq> page2ppn p"
  shows "get_table f i True s = Some (new_table f i p s1, Some (page2ppn p))"
proof -
  have a: "\<not> valid (frames s f i)" using assms(1) by (auto simp: below_def split: if_splits)
  have k: "KADDR (page2pa p) = Some (page2ppn p)"
    using page_ppn_small [OF assms(4)] by (simp add: KADDR_def PPN_page2pa)
  have "frames (new_table f i p s1) f i = pte_create (page2ppn p) (PTE_U OR PTE_V)"
    by (simp add: new_table_def set_entry_def)
  then have "KADDR (PTE_ADDR (frames (new_table f i p s1) f i)) = Some (page2ppn p)"
    using entry_ppn_create [OF page_ppn_small(2) [OF assms(4)] perm_bits(2)] page_ppn_small(1) [OF assms(4)]
    by (simp add: KADDR_def entry_ppn_def)
  then show ?thesis using a k assms(2) by (simp add: get_table_def new_table_def Let_def)
qed

lemma get_table_oom:
  "below s f i = None \<Longrightarrow> alloc_page s = Some (s, None) \<Longrightarrow> get_table f i True s = Some (s, None)"
  by (auto simp: get_table_def below_def split: if_splits)

text \<open>\<open>child k i\<close> is the key of the table behind entry \<open>i\<close> of the table of \<open>k\<close>.\<close>

fun child :: "tkey \<Rightarrow> nat \<Rightarrow> tkey" where
  "child (Root d) i = Dir d i"
| "child (Dir d j) i = Tab d j i"
| "child (Tab d j l) i = Tab d j l"

lemma table_at_child: "table_at s k = Some f \<Longrightarrow> \<forall>d i j. k \<noteq> Tab d i j \<Longrightarrow> table_at s (child k i) = below s f i"
  by (cases k) auto

lemma new_table_at:
  assumes t: "tree_ok s D F" and k: "k \<in> user_keys D" "table_at s k = Some f" "\<forall>d i j. k \<noteq> Tab d i j"
    and c: "child k i \<in> user_keys D" "below s f i = None" and p: "p \<in> F" "p < 32768"
    and s1: "frames s1 = frames s" and k': "k' \<in> user_keys D"
  shows "table_at (new_table f i p s1) k' = (if k' = child k i then Some (page2ppn p) else table_at s k')"
proof -
  have np: "\<not> is_table s D (page2ppn p)" by (rule free_not_table [OF t p(1)])
  have fp: "f \<noteq> page2ppn p" using np table_at_is_table [OF k(1,2)] by auto
  have b1: "below s1 = below s" using s1 by (simp add: below_def fun_eq_iff)
  note nb = new_table_below [OF p(2) fp, of i s1, unfolded b1]
  have inj: "k1 = k" if "k1 \<in> user_keys D" "table_at s k1 = Some f" for k1
    using tree_inj [OF t that(1) k(1) that(2) k(2)] .
  have nt: "h \<noteq> page2ppn p" if "k1 \<in> user_keys D" "table_at s k1 = Some h" for k1 h
    using np table_at_is_table [OF that] by auto
  show ?thesis
  proof (cases k')
    case (Root d)
    then show ?thesis using k(3) by (cases k) auto
  next
    case (Dir d j)
    have d: "d \<noteq> page2ppn p" using nt [of "Root d" d] k' Dir by simp
    have "d = f \<longleftrightarrow> k = Root d" using inj [of "Root d"] k(2) k' Dir by auto
    then show ?thesis using Dir nb d c(2) k(2,3) by (cases k) auto
  next
    case (Tab d j l)
    have key: "Root d \<in> user_keys D" "Dir d j \<in> user_keys D" using k' Tab by auto
    have d: "d \<noteq> page2ppn p" using nt [of "Root d" d] key by simp
    have df: "d = f \<longleftrightarrow> k = Root d" using inj [of "Root d"] k(2) key by auto
    show ?thesis
    proof (cases "below s d j")
      case None
      have "k \<noteq> Dir d j" using None k(2) by auto
      then show ?thesis using Tab None nb d df k(3) by (cases k) auto
    next
      case (Some h)
      have h: "h \<noteq> page2ppn p" using nt [of "Dir d j" h] key Some by simp
      have hf: "h = f \<longleftrightarrow> k = Dir d j" using inj [of "Dir d j"] k(2) key Some by auto
      have "\<not> (d = f \<and> j = i)" using Some c(2) by auto
      then show ?thesis using Tab Some nb d h df hf k(3) by (cases k) auto
    qed
  qed
qed

lemma new_table_fields [simp]:
  "pm (new_table f i p s) = upd_page p (\<lambda>q. q\<lparr>p_ref := 1\<rparr>) (pm s)"
  "swap_init_ok (new_table f i p s) = swap_init_ok s"
  by (simp_all add: new_table_def set_entry_def clear_frame_def set_page_ref_def)

lemma get_table_create:
  assumes ok: "pt_ok s D F" and k: "k \<in> user_keys D" "table_at s k = Some f" "\<forall>d i j. k \<noteq> Tab d i j"
    and c: "child k i \<in> user_keys D" and F: "F \<noteq> {}"
  obtains s' g F' where "get_table f i True s = Some (s', Some g)" "pt_ok s' D F'" "grown s s' D F F'"
    "table_at s' (child k i) = Some g" "card F \<le> card F' + 1"
proof (cases "below s f i")
  case (Some g)
  have t: "tree_ok s D F" using ok by (simp add: pt_ok_def)
  have at: "table_at s (child k i) = Some g" using table_at_child [OF k(2,3)] Some by simp
  have "g < 557056" using table_not_free [OF t table_at_is_table [OF c at]] by (simp add: in_mem_def)
  then show ?thesis using that [OF get_table_present [OF Some] ok grown_refl at] by simp
next
  case None
  have ff: "ff_inv NPAGES (pm s) F" and t: "tree_ok s D F" and g: "pages_ok s D F" and fD: "finite D"
    using ok by (simp_all add: pt_ok_def)
  from ff show ?thesis
  proof (cases rule: alloc_page_cases)
    case none
    then show ?thesis using F by simp
  next
    case (some b p)
    let ?s1 = "s\<lparr>pm := b\<rparr>" and ?s' = "new_table f i p (s\<lparr>pm := b\<rparr>)"
    have fp: "f \<noteq> page2ppn p"
      using free_not_table [OF t some(2)] table_at_is_table [OF k(1,2)] by auto
    have get: "get_table f i True s = Some (?s', Some (page2ppn p))"
      by (rule get_table_new [OF None some(1) _ some(3) fp]) simp
    have tat: "table_at ?s' k' = (if k' = child k i then Some (page2ppn p) else table_at s k')"
      if "k' \<in> user_keys D" for k'
      by (rule new_table_at [OF t k c None some(2,3) _ that]) simp
    have cn: "table_at s (child k i) = None" using table_at_child [OF k(2,3)] None by simp
    have fr: "frames ?s' h = frames s h" if "h \<noteq> f" "h \<noteq> page2ppn p" for h
      using that by (simp add: new_table_def set_entry_def clear_frame_def set_page_ref_def)
    have fr0: "frames ?s' (page2ppn p) = (\<lambda>_. 0)"
      using fp by (simp add: new_table_def set_entry_def clear_frame_def set_page_ref_def)
    note G = grow [OF t g k(1,2) _ c cn some(2,3) tat fr fr0]
    have res: "tree_ok ?s' D (F - {p})" "pages_ok ?s' D (F - {p})" "grown s ?s' D F (F - {p})"
      by (rule G; use some k(3) in \<open>auto simp: page_ref_def\<close>)+
    have "pt_ok ?s' D (F - {p})" using res some(4) fD by (simp add: pt_ok_def)
    moreover have "table_at ?s' (child k i) = Some (page2ppn p)" using tat c by simp
    moreover have "card F \<le> card (F - {p}) + 1"
      using some(2) finite_subset [OF ff_inv_subset [OF ff]] by (simp add: card_Diff_singleton_if)
    ultimately show ?thesis using that [OF get] res(3) by blast
  qed
qed

lemma get_pte_False:
  assumes t: "tree_ok s D F" and d: "d \<in> D" "la < USERTOP"
  shows "get_pte d la False s =
    Some (s, map_option (\<lambda>f. (f, PTX la)) (table_at s (Tab d (PDX1 la) (PDX0 la))))"
proof (cases "below s d (PDX1 la)")
  case None
  then show ?thesis by (simp add: get_pte_def get_table_absent)
next
  case (Some f)
  have k: "Dir d (PDX1 la) \<in> user_keys D" "table_at s (Dir d (PDX1 la)) = Some f" using d Some by simp_all
  have f: "f < 557056" using table_not_free [OF t table_at_is_table [OF k]] by (simp add: in_mem_def)
  show ?thesis
  proof (cases "below s f (PDX0 la)")
    case None
    then show ?thesis using Some f by (simp add: get_pte_def get_table_absent get_table_present)
  next
    case (Some g)
    have k2: "Tab d (PDX1 la) (PDX0 la) \<in> user_keys D" "table_at s (Tab d (PDX1 la) (PDX0 la)) = Some g"
      using d k Some by simp_all
    have "g < 557056" using table_not_free [OF t table_at_is_table [OF k2]] by (simp add: in_mem_def)
    then show ?thesis
      using Some f k(2) by (simp add: get_pte_def get_table_present)
  qed
qed

lemma get_pte_found:
  assumes t: "tree_ok s D F" and d: "d \<in> D" "la < USERTOP"
    and g: "table_at s (Tab d (PDX1 la) (PDX0 la)) = Some g"
  shows "get_pte d la create s = Some (s, Some (g, PTX la))"
proof -
  obtain f where f: "below s d (PDX1 la) = Some f" "below s f (PDX0 la) = Some g"
    using g by (auto split: option.splits)
  have k: "Dir d (PDX1 la) \<in> user_keys D" "table_at s (Dir d (PDX1 la)) = Some f"
    "Tab d (PDX1 la) (PDX0 la) \<in> user_keys D" using d f by simp_all
  have "f < 557056" "g < 557056"
    using table_not_free [OF t table_at_is_table [OF k(1,2)]] table_not_free [OF t table_at_is_table [OF k(3) g]]
    by (simp_all add: in_mem_def)
  then show ?thesis using f by (simp add: get_pte_def get_table_present)
qed

lemma get_pte_True:
  assumes ok: "pt_ok s D F" and d: "d \<in> D" "la < USERTOP" and F: "2 \<le> card F"
  obtains s' g F' where "get_pte d la True s = Some (s', Some (g, PTX la))" "pt_ok s' D F'"
    "grown s s' D F F'" "table_at s' (Tab d (PDX1 la) (PDX0 la)) = Some g" "card F \<le> card F' + 2"
proof -
  have F1: "F \<noteq> {}" using F by auto
  have r: "Root d \<in> user_keys D" "table_at s (Root d) = Some d" "\<forall>e i j. Root d \<noteq> Tab e i j"
    "child (Root d) (PDX1 la) \<in> user_keys D" using d by simp_all
  obtain s1 f F1 where 1: "get_table d (PDX1 la) True s = Some (s1, Some f)" "pt_ok s1 D F1"
    "grown s s1 D F F1" "table_at s1 (child (Root d) (PDX1 la)) = Some f" "card F \<le> card F1 + 1"
    using get_table_create [OF ok r F1] .
  have F2: "F1 \<noteq> {}" using 1(5) F by auto
  have r2: "Dir d (PDX1 la) \<in> user_keys D" "table_at s1 (Dir d (PDX1 la)) = Some f"
    "\<forall>e i j. Dir d (PDX1 la) \<noteq> Tab e i j" "child (Dir d (PDX1 la)) (PDX0 la) \<in> user_keys D"
    using d 1(4) by simp_all
  obtain s2 g F2 where 2: "get_table f (PDX0 la) True s1 = Some (s2, Some g)" "pt_ok s2 D F2"
    "grown s1 s2 D F1 F2" "table_at s2 (child (Dir d (PDX1 la)) (PDX0 la)) = Some g" "card F1 \<le> card F2 + 1"
    using get_table_create [OF 1(2) r2 F2] .
  show ?thesis
  proof (rule that)
    show "get_pte d la True s = Some (s2, Some (g, PTX la))"
      using 1(1) 2(1) by (simp add: get_pte_def)
    show "grown s s2 D F F2" by (rule grown_trans [OF 1(3) 2(3)])
    show "table_at s2 (Tab d (PDX1 la) (PDX0 la)) = Some g" using 2(4) by simp
    show "card F \<le> card F2 + 2" using 1(5) 2(5) by simp
  qed (rule 2(2))
qed

section \<open>Changing an entry\<close>

lemma set_leaf:
  assumes t: "tree_ok s D F" and d: "d \<in> D" "la < USERTOP"
    and g: "table_at s (Tab d (PDX1 la) (PDX0 la)) = Some g"
    and fr: "frames s' = frames (set_entry (g, PTX la) v s)"
  shows "k \<in> user_keys D \<Longrightarrow> table_at s' k = table_at s k"
    and "is_table s' D h = is_table s D h"
    and "tree_ok s' D F"
    and "d' \<in> D \<Longrightarrow> la' < USERTOP \<Longrightarrow>
      pte_of s' d' la' = (if d' = d \<and> la' div PGSIZE = la div PGSIZE then v else pte_of s d' la')"
proof -
  let ?t = "Tab d (PDX1 la) (PDX0 la)"
  have key: "?t \<in> user_keys D" using d by simp
  have fr': "frames s' h = (if h = g then (frames s g)(PTX la := v) else frames s h)" for h
    using fr by (simp add: set_entry_def)
  have inj: "k1 = ?t" if "k1 \<in> user_keys D" "table_at s k1 = Some g" for k1
    using tree_inj [OF t that(1) key that(2) g] .
  have b: "below s' d1 i = below s d1 i" if "d1 \<in> D" for d1 i
    using inj [of "Root d1"] that fr' by (auto simp: below_def)
  have b2: "below s' f j = below s f j" if "d1 \<in> D" "i < 2" "below s d1 i = Some f" for d1 i f j
    using inj [of "Dir d1 i"] that fr' by (auto simp: below_def)
  show at: "table_at s' k = table_at s k" if "k \<in> user_keys D" for k
    using that b b2 by (cases k) (auto split: option.split)
  show "is_table s' D h = is_table s D h" for h
    using at by (auto simp: is_table_def)
  show "tree_ok s' D F"
    using t at unfolding tree_ok_def by auto
  show "pte_of s' d' la' = (if d' = d \<and> la' div PGSIZE = la div PGSIZE then v else pte_of s d' la')"
    if d': "d' \<in> D" "la' < USERTOP"
  proof -
    let ?t' = "Tab d' (PDX1 la') (PDX0 la')"
    have key': "?t' \<in> user_keys D" using d' by simp
    note atk = at [OF key']
    show ?thesis
    proof (cases "d' = d \<and> la' div PGSIZE = la div PGSIZE")
      case True
      then have "?t' = ?t" "PTX la' = PTX la" by (simp_all add: index_of_vpn)
      then show ?thesis using True atk g fr' by (simp add: pte_of_def del: table_at.simps)
    next
      case False
      have n: "?t' \<noteq> ?t \<or> PTX la' \<noteq> PTX la" using False index_inj [OF d'(2) d(2)] by auto
      show ?thesis
      proof (cases "table_at s ?t'")
        case None
        then show ?thesis using False atk by (auto simp: pte_of_def simp del: table_at.simps)
      next
        case (Some h)
        have "h = g \<Longrightarrow> ?t' = ?t" using inj [OF key'] Some by simp
        then show ?thesis using False Some atk n fr' by (auto simp: pte_of_def simp del: table_at.simps)
      qed
    qed
  qed
qed

lemma vpn_of_page: "v * PGSIZE div PGSIZE = v"
  by (simp add: PGSIZE_def)

lemma vpn_bound: "la < USERTOP \<Longrightarrow> la div PGSIZE < USERTOP div PGSIZE"
  by (auto simp: USERTOP_def PGSIZE_def)

lemma mappers_update:
  assumes d: "d \<in> D" "la < USERTOP"
    and pte: "\<And>d' la'. d' \<in> D \<Longrightarrow> la' < USERTOP \<Longrightarrow>
      pte_of s' d' la' = (if d' = d \<and> la' div PGSIZE = la div PGSIZE then v else pte_of s d' la')"
  shows "mappers s' D q =
    (if valid v \<and> entry_ppn v = page2ppn q then insert (d, la div PGSIZE) (mappers s D q)
     else mappers s D q - {(d, la div PGSIZE)})"
  using d vpn_bound [OF d(2)] by (auto simp: mappers_def pte page_addr vpn_of_page split: if_splits)

lemma mapper_iff:
  assumes "d \<in> D" and "la < USERTOP"
  shows "(d, la div PGSIZE) \<in> mappers s D q \<longleftrightarrow> valid (pte_of s d la) \<and> entry_ppn (pte_of s d la) = page2ppn q"
proof -
  have "pte_of s d (la div PGSIZE * PGSIZE) = pte_of s d la"
    by (rule pte_of_page) (rule vpn_of_page)
  then show ?thesis using assms vpn_bound [OF assms(2)] by (simp add: mappers_def)
qed

definition remapped :: "machine \<Rightarrow> machine \<Rightarrow> nat set \<Rightarrow> nat \<Rightarrow> nat \<Rightarrow> 64 word \<Rightarrow> bool" where
  "remapped s s' D d la v \<longleftrightarrow>
     (\<forall>d'\<in>D. \<forall>la'<USERTOP. pte_of s' d' la' =
        (if d' = d \<and> la' div PGSIZE = la div PGSIZE then v else pte_of s d' la')) \<and>
     (\<forall>k\<in>user_keys D. table_at s' k = table_at s k)"

lemma remap:
  assumes ok: "pt_ok s D F" and d: "d \<in> D" "la < USERTOP"
    and g: "table_at s (Tab d (PDX1 la) (PDX0 la)) = Some g"
    and fr: "frames s' = frames (set_entry (g, PTX la) v s)"
    and ff: "ff_inv NPAGES (pm s') F'"
    and F': "\<And>q. q \<in> F' \<Longrightarrow> q \<in> F \<or> mappers s' D q = {} \<and> \<not> is_table s D (page2ppn q)"
    and refs: "\<And>q. q < 32768 \<Longrightarrow> \<not> is_table s D (page2ppn q) \<Longrightarrow> page_ref q s' = page_ref q s
      - of_bool (valid (pte_of s d la) \<and> entry_ppn (pte_of s d la) = page2ppn q)
      + of_bool (valid v \<and> entry_ppn v = page2ppn q)"
    and cl: "\<And>q. clean q s \<Longrightarrow> q \<notin> F' \<Longrightarrow> clean q s'"
    and res: "\<And>q. q \<in> F' \<Longrightarrow> \<not> PageReserved (fa_pages (pm s') q)"
    and v: "valid v \<Longrightarrow> in_mem (entry_ppn v) \<and> entry_ppn v - nbase \<notin> F' \<and> \<not> is_table s D (entry_ppn v) \<and>
      clean (entry_ppn v - nbase) s"
  shows "pt_ok s' D F' \<and> remapped s s' D d la v"
proof -
  have t: "tree_ok s D F" and pg: "pages_ok s D F" and fD: "finite D" using ok by (simp_all add: pt_ok_def)
  note L = set_leaf [OF t d g fr]
  have pte: "pte_of s' d' la' = (if d' = d \<and> la' div PGSIZE = la div PGSIZE then v else pte_of s d' la')"
    if "d' \<in> D" "la' < USERTOP" for d' la' using L(4) [OF that] .
  have at: "table_at s' k = table_at s k" if "k \<in> user_keys D" for k using L(1) [OF that] .
  have M: "mappers s' D q = (if valid v \<and> entry_ppn v = page2ppn q then insert (d, la div PGSIZE) (mappers s D q)
     else mappers s D q - {(d, la div PGSIZE)})" for q
    by (rule mappers_update [OF d]) (rule pte)
  have "tree_ok s' D F'"
    unfolding tree_ok_def
  proof (intro conjI ballI allI impI)
    fix k f assume k: "k \<in> user_keys D" "table_at s' k = Some f"
    have f: "table_at s k = Some f" using at [OF k(1)] k(2) by simp
    have tb: "is_table s D f" by (rule table_at_is_table [OF k(1) f])
    show m: "in_mem f" using table_not_free [OF t tb] by simp
    show "f - nbase \<notin> F'"
      using F' [of "f - nbase"] table_not_free [OF t tb] tb in_memE [OF m] by auto
  next
    fix k k' f assume "k \<in> user_keys D" "k' \<in> user_keys D" "table_at s' k = Some f \<and> table_at s' k' = Some f"
    then show "k = k'" using at tree_inj [OF t] by simp
  qed
  moreover have "pages_ok s' D F'"
    unfolding pages_ok_def
  proof (intro conjI ballI allI impI)
    fix d' la' assume d': "d' \<in> D" "la' < USERTOP" "valid (pte_of s' d' la')"
    let ?f = "entry_ppn (pte_of s' d' la')"
    have l: "in_mem ?f \<and> \<not> is_table s D ?f \<and> clean (?f - nbase) s \<and> ?f - nbase \<notin> F'"
    proof (cases "d' = d \<and> la' div PGSIZE = la div PGSIZE")
      case True
      then have "pte_of s' d' la' = v" using pte d' by simp
      then show ?thesis using v d'(3) by simp
    next
      case False
      then have e: "pte_of s' d' la' = pte_of s d' la'" using pte [OF d'(1,2)] by argo
      have l: "leaf_ok s D F ?f" using pg d' e by (simp add: pages_ok_def)
      obtain q where q: "?f = page2ppn q" using l in_memE by (auto simp: leaf_ok_def)
      have "(d', la' div PGSIZE) \<in> mappers s' D q" using mapper_iff [OF d'(1,2)] d'(3) q by simp
      then have "q \<notin> F'" using F' [of q] l q by (auto simp: leaf_ok_def)
      then show ?thesis using l q by (simp add: leaf_ok_def)
    qed
    then show "leaf_ok s' D F' ?f" using cl L(2) by (simp add: leaf_ok_def)
  next
    fix q assume q: "q < NPAGES" "\<not> is_table s' D (page2ppn q)"
    have r: "page_ref q s = int (card (mappers s D q))" using pg q L(2) by (simp add: pages_ok_def)
    have fin: "finite (mappers s D q)" using finite_mappers [OF fD] .
    show "page_ref q s' = int (card (mappers s' D q))"
      using refs [of q] q L(2) r fin mapper_iff [OF d, of s q] card_gt_0_iff [of "mappers s D q"]
      unfolding M by (auto simp: card_Diff_singleton_if card_insert_if of_nat_diff)
  qed (rule res)
  ultimately have "pt_ok s' D F'" using ff fD by (simp add: pt_ok_def)
  moreover have "remapped s s' D d la v" unfolding remapped_def using pte at by blast
  ultimately show ?thesis ..
qed

text \<open>The pages that lose their last mapping between two machines.\<close>

definition dropped :: "machine \<Rightarrow> machine \<Rightarrow> nat set \<Rightarrow> nat set" where
  "dropped s s' D = {q. mappers s D q \<noteq> {} \<and> mappers s' D q = {}}"

lemma dropped_refl [simp]: "dropped s s D = {}"
  by (simp add: dropped_def)

section \<open>Removing a mapping\<close>

lemma page_ref_simps [simp]:
  "page_ref q (set_page_ref p v s) = (if q = p then v else page_ref q s)"
  "page_ref q (set_entry x w s) = page_ref q s"
  "frames (set_page_ref p v s) = frames s"
  "pm (set_entry x w s) = pm s"
  "swap_init_ok (set_page_ref p v s) = swap_init_ok s" "swap_init_ok (set_entry x w s) = swap_init_ok s"
  "clean q (set_page_ref p v s) = clean q s" "clean q (set_entry x w s) = clean q s"
  "ff_inv N (pm (set_page_ref p v s)) F = ff_inv N (pm s) F"
  "PageReserved (fa_pages (pm (set_page_ref p v s)) q) = PageReserved (fa_pages (pm s) q)"
  "PageProperty (fa_pages (pm (set_page_ref p v s)) q) = PageProperty (fa_pages (pm s) q)"
  by (simp_all add: page_ref_def set_page_ref_def set_entry_def clean_def)

lemma frames_set_entry [simp]:
  "frames (set_entry x w s) = (frames s)(fst x := (frames s (fst x))(snd x := w))"
  by (simp add: set_entry_def)

lemma entry_at_leaf:
  "table_at s (Tab d (PDX1 la) (PDX0 la)) = Some g \<Longrightarrow> entry_at (g, PTX la) s = pte_of s d la"
  by (simp add: entry_at_def pte_of_def del: table_at.simps)

lemma pte2page_leaf:
  assumes "valid e" and "entry_ppn e = page2ppn p" and "p < 32768"
  shows "pte2page e = Some p"
  using assms page_ppn_small(1) [OF assms(3)]
  by (simp add: pte2page_def pa2page_def entry_ppn_def page2ppn_def)

lemma leafE:
  assumes "pt_ok s D F" and "d \<in> D" "la < USERTOP" and "valid (pte_of s d la)"
  obtains p where "entry_ppn (pte_of s d la) = page2ppn p" "p < 32768" "p \<notin> F"
    "\<not> is_table s D (page2ppn p)" "clean p s" "page_ref p s = int (card (mappers s D p))"
    "(d, la div PGSIZE) \<in> mappers s D p" "pte2page (pte_of s d la) = Some p"
proof -
  have l: "leaf_ok s D F (entry_ppn (pte_of s d la))" using assms by (simp add: pt_ok_def pages_ok_def)
  obtain p where p: "p < 32768" "entry_ppn (pte_of s d la) = page2ppn p"
    using l in_memE by (auto simp: leaf_ok_def)
  show ?thesis
  proof (rule that [OF p(2,1)])
    show "p \<notin> F" "\<not> is_table s D (page2ppn p)" "clean p s" using l p by (simp_all add: leaf_ok_def)
    then show "page_ref p s = int (card (mappers s D p))"
      using assms(1) p(1) by (simp add: pt_ok_def pages_ok_def)
    show "(d, la div PGSIZE) \<in> mappers s D p" using mapper_iff [OF assms(2,3)] assms(4) p(2) by simp
    show "pte2page (pte_of s d la) = Some p" by (rule pte2page_leaf [OF assms(4) p(2,1)])
  qed
qed

lemma sole_mapper:
  assumes ok: "pt_ok s D F" and d: "d \<in> D" "la < USERTOP"
  shows "mappers s D q = {(d, la div PGSIZE)} \<longleftrightarrow>
    valid (pte_of s d la) \<and> entry_ppn (pte_of s d la) = page2ppn q \<and> page_ref q s = 1"
proof
  assume m: "mappers s D q = {(d, la div PGSIZE)}"
  then have e: "valid (pte_of s d la)" "entry_ppn (pte_of s d la) = page2ppn q"
    using mapper_iff [OF d, of s q] by simp_all
  from leafE [OF ok d e(1)] have "page_ref q s = int (card (mappers s D q))"
    using e(2) by (metis page2ppn_inj)
  then show "valid (pte_of s d la) \<and> entry_ppn (pte_of s d la) = page2ppn q \<and> page_ref q s = 1"
    using m e by simp
next
  assume e: "valid (pte_of s d la) \<and> entry_ppn (pte_of s d la) = page2ppn q \<and> page_ref q s = 1"
  then have "valid (pte_of s d la)" by simp
  from leafE [OF ok d this] have "int (card (mappers s D q)) = 1" "(d, la div PGSIZE) \<in> mappers s D q"
    using e by (metis page2ppn_inj)+
  then show "mappers s D q = {(d, la div PGSIZE)}" by (auto simp: card_1_singleton_iff)
qed

lemma dropped_remapped:
  assumes ok: "pt_ok s D F" and d: "d \<in> D" "la < USERTOP" and R: "remapped s s' D d la v"
  shows "dropped s s' D = {q. valid (pte_of s d la) \<and> entry_ppn (pte_of s d la) = page2ppn q \<and>
    page_ref q s = 1 \<and> \<not> (valid v \<and> entry_ppn v = page2ppn q)}"
proof -
  have M: "mappers s' D q = (if valid v \<and> entry_ppn v = page2ppn q then insert (d, la div PGSIZE) (mappers s D q)
     else mappers s D q - {(d, la div PGSIZE)})" for q
    by (rule mappers_update [OF d]) (use R in \<open>simp add: remapped_def\<close>)
  have "q \<in> dropped s s' D \<longleftrightarrow>
      mappers s D q = {(d, la div PGSIZE)} \<and> \<not> (valid v \<and> entry_ppn v = page2ppn q)" for q
    unfolding dropped_def mem_Collect_eq M by auto
  then show ?thesis unfolding sole_mapper [OF ok d] by blast
qed

lemma page_remove_pte_ok:
  assumes ok: "pt_ok s D F" and d: "d \<in> D" "la < USERTOP"
    and g: "table_at s (Tab d (PDX1 la) (PDX0 la)) = Some g"
    and above: "\<exists>x\<in>F. entry_ppn (pte_of s d la) < page2ppn x"
  obtains s' F' where "page_remove_pte (g, PTX la) s = Some s'" "pt_ok s' D F'" "F \<subseteq> F'"
    "\<And>d' la'. d' \<in> D \<Longrightarrow> la' < USERTOP \<Longrightarrow> pte_of s' d' la' =
      (if d' = d \<and> la' div PGSIZE = la div PGSIZE \<and> valid (pte_of s d la) then 0 else pte_of s d' la')"
    "\<And>k. k \<in> user_keys D \<Longrightarrow> table_at s' k = table_at s k" "F' = F \<union> dropped s s' D"
proof (cases "valid (pte_of s d la)")
  case False
  then show ?thesis
    using that [of s F] ok entry_at_leaf [OF g] by (simp add: page_remove_pte_def)
next
  case True
  obtain p where p: "entry_ppn (pte_of s d la) = page2ppn p" "p < 32768" "p \<notin> F"
    "\<not> is_table s D (page2ppn p)" "clean p s" "page_ref p s = int (card (mappers s D p))"
    "(d, la div PGSIZE) \<in> mappers s D p" "pte2page (pte_of s d la) = Some p"
    using leafE [OF ok d True] .
  let ?s1 = "page_ref_dec p s"
  have ff: "ff_inv NPAGES (pm ?s1) F" and res: "\<forall>q\<in>F. \<not> PageReserved (fa_pages (pm s) q)"
    using ok by (simp_all add: pt_ok_def pages_ok_def page_ref_dec_def)
  have r1: "page_ref p ?s1 = page_ref p s - 1" by (simp add: page_ref_dec_def)
  show ?thesis
  proof (cases "page_ref p s = 1")
    case False
    let ?s' = "set_entry (g, PTX la) 0 ?s1"
    have run: "page_remove_pte (g, PTX la) s = Some ?s'"
      using False True p(8) r1 by (simp add: page_remove_pte_def entry_at_leaf [OF g] Let_def)
    have fr: "frames ?s' = frames (set_entry (g, PTX la) 0 s)" by (simp add: set_entry_def page_ref_dec_def)
    have R: "pt_ok ?s' D F \<and> remapped s ?s' D d la 0"
      by (rule remap [OF ok d g fr]) (use ff res p(1) True in \<open>simp_all add: page_ref_dec_def\<close>)
    have dr: "dropped s ?s' D = {}"
      unfolding dropped_remapped [OF ok d R [THEN conjunct2]] using p(1) False by auto
    show ?thesis
      by (rule that [OF run, of F])
        (use R True dr in \<open>auto simp: remapped_def simp del: table_at.simps\<close>)
  next
    case one: True
    have cf: "can_free NPAGES p 1 (pm ?s1) F"
      using above p(1,2,5) by (auto simp: can_free_def freeable_def clean_def page_ref_dec_def page2ppn_def)
    obtain b where b: "default_free_pages p 1 (pm ?s1) = Some b" "ff_inv NPAGES b (insert p F)"
      "\<And>q. p_ref (fa_pages b q) = (if q = p then 0 else p_ref (fa_pages (pm ?s1) q))"
      "\<And>q. PageReserved (fa_pages b q) = (q \<noteq> p \<and> PageReserved (fa_pages (pm ?s1) q))"
      "\<And>q. q \<noteq> p \<Longrightarrow> PageProperty (fa_pages b q) \<Longrightarrow> PageProperty (fa_pages (pm ?s1) q)"
      using default_free_one [OF ff cf p(3)] by blast
    let ?s' = "set_entry (g, PTX la) 0 (?s1\<lparr>pm := b\<rparr>)"
    have run: "page_remove_pte (g, PTX la) s = Some ?s'"
      using one True p(8) r1 b(1)
      by (simp add: page_remove_pte_def entry_at_leaf [OF g] Let_def free_pages_def)
    have fr: "frames ?s' = frames (set_entry (g, PTX la) 0 s)"
      by (simp add: set_entry_def page_ref_dec_def set_page_ref_def)
    have "finite (mappers s D p)" using ok finite_mappers by (simp add: pt_ok_def)
    moreover have "card (mappers s D p) = 1" using one p(6) by simp
    ultimately have m1: "mappers s D p = {(d, la div PGSIZE)}" using p(7) by (metis card_1_singletonE singletonD)
    have t: "tree_ok s D F" using ok by (simp add: pt_ok_def)
    have pte: "pte_of ?s' d' la' = (if d' = d \<and> la' div PGSIZE = la div PGSIZE then 0 else pte_of s d' la')"
      if "d' \<in> D" "la' < USERTOP" for d' la' by (rule set_leaf(4) [OF t d g fr that])
    have m: "mappers ?s' D p = {}" using mappers_update [OF d pte] m1 by simp
    have pr: "page_ref q ?s' = (if q = p then 0 else page_ref q s)" for q
      using b(3) by (simp add: page_ref_def set_entry_def page_ref_dec_def set_page_ref_def)
    have R: "pt_ok ?s' D (insert p F) \<and> remapped s ?s' D d la 0"
      by (rule remap [OF ok d g fr])
        (use b res p(1,4) m pr True one in \<open>auto simp: clean_def page_ref_dec_def\<close>)
    have dr: "dropped s ?s' D = {p}"
      unfolding dropped_remapped [OF ok d R [THEN conjunct2]] using p(1) one True by auto
    show ?thesis
      by (rule that [OF run, of "insert p F"])
        (use R True dr in \<open>auto simp: remapped_def simp del: table_at.simps\<close>)
  qed
qed

section \<open>Walking over a range\<close>

lemma PTSIZE_eq: "PTSIZE = 2097152" "PDSIZE = 1073741824"
  by (simp_all add: PTSIZE_def PDSIZE_def PGSIZE_def NPTEENTRY_def)

lemma next_start_some [simp]:
  "start < USERTOP \<Longrightarrow> next_start (Some x) start = start + PGSIZE"
  by (simp add: next_start_def PGSIZE_def USERTOP_def)

lemma next_start_none:
  "start < USERTOP \<Longrightarrow> next_start None start = (start div PTSIZE + 1) * PTSIZE"
proof -
  assume a: "start < USERTOP"
  have e: "start = start div 2097152 * 2097152 + start mod 2097152" by simp
  have "next_start None start = start + 2097152 - start mod 2097152"
    using a by (simp add: next_start_def PTSIZE_eq USERTOP_def ROUNDDOWN_def)
  also have "\<dots> = (start div 2097152 + 1) * 2097152" using e by (simp only: distrib_right)
  finally show ?thesis by (simp only: PTSIZE_eq)
qed

lemma next_start_bounds:
  assumes "start < USERTOP" and "start mod PGSIZE = 0"
  shows "start < next_start r start" and "next_start r start mod PGSIZE = 0"
proof -
  have "start < (start div PTSIZE + 1) * PTSIZE"
    using div_mult_mod_eq [of start PTSIZE] mod_less_divisor [of PTSIZE start] by (simp add: PTSIZE_eq)
  then show "start < next_start r start"
    using assms by (cases r) (simp_all add: next_start_none PGSIZE_def)
  have "(start div PTSIZE + 1) * PTSIZE mod PGSIZE = 0" by (simp add: PTSIZE_def)
  then show "next_start r start mod PGSIZE = 0"
    using assms by (cases r) (simp_all only: next_start_none next_start_some mod_add_self2)
qed

lemma next_start_page:
  assumes "start mod PGSIZE = 0" and "start \<le> la" and "la < start + PGSIZE"
  shows "la div PGSIZE = start div PGSIZE"
proof -
  obtain k where k: "start = PGSIZE * k" using assms(1) by auto
  have p: "0 < PGSIZE" by (simp add: PGSIZE_def)
  have "la div PGSIZE = k" by (rule div_nat_eqI) (use assms k p in auto)
  then show ?thesis using k p by simp
qed

lemma page_range:
  assumes "start mod PGSIZE = 0"
  shows "la div PGSIZE = start div PGSIZE \<longleftrightarrow> la \<in> {start..<start + PGSIZE}"
proof
  assume "la \<in> {start..<start + PGSIZE}"
  then show "la div PGSIZE = start div PGSIZE" using next_start_page [OF assms, of la] by (simp only: atLeastLessThan_iff)
next
  assume a: "la div PGSIZE = start div PGSIZE"
  have "la = start div PGSIZE * PGSIZE + la mod PGSIZE" using div_mult_mod_eq [of la PGSIZE] unfolding a by (rule sym)
  moreover have "start = start div PGSIZE * PGSIZE" using div_mult_mod_eq [of start PGSIZE] unfolding assms by simp
  moreover have "la mod PGSIZE < PGSIZE" by (simp add: PGSIZE_def)
  ultimately have "start \<le> la" "la < start + PGSIZE" by linarith+
  then show "la \<in> {start..<start + PGSIZE}" by simp
qed

lemma next_start_table:
  assumes "start \<le> la" and "la < (start div PTSIZE + 1) * PTSIZE"
  shows "PDX1 la = PDX1 start" and "PDX0 la = PDX0 start"
proof -
  have "start div PTSIZE * PTSIZE \<le> start" by simp
  then have e: "la div 2 ^ 21 = start div 2 ^ 21"
    using assms unfolding PTSIZE_eq
    by (intro div_nat_eqI) (auto simp: algebra_simps)
  have d: "x div 2 ^ 30 = x div 2 ^ 21 div 2 ^ 9" for x :: nat by (simp add: div_mult2_eq [symmetric])
  show "PDX1 la = PDX1 start" "PDX0 la = PDX0 start" unfolding PDX1_def PDX0_def d e by simp_all
qed

text \<open>No page is mapped where there is no table.\<close>

lemma no_table_no_pte:
  assumes "table_at s (Tab d (PDX1 start) (PDX0 start)) = None"
    and "start < USERTOP" and "start \<le> la" and "la < next_start None start"
  shows "pte_of s d la = 0"
proof -
  have "la < (start div PTSIZE + 1) * PTSIZE" using assms(2,4) by (simp add: next_start_none)
  note i = next_start_table [OF assms(3) this]
  show ?thesis using assms(1) i by (simp add: pte_of_def del: table_at.simps)
qed

definition unmapped :: "machine \<Rightarrow> machine \<Rightarrow> nat set \<Rightarrow> nat \<Rightarrow> nat set \<Rightarrow> bool" where
  "unmapped s s' D d A \<longleftrightarrow> (\<forall>d'\<in>D. \<forall>la<USERTOP. pte_of s' d' la =
     (if d' = d \<and> la \<in> A \<and> valid (pte_of s d la) then 0 else pte_of s d' la))"

lemma unmapped_trans:
  "unmapped s s1 D d A \<Longrightarrow> unmapped s1 s2 D d B \<Longrightarrow> unmapped s s2 D d (A \<union> B)"
  unfolding unmapped_def by (metis Un_iff valid_zero)

lemma unmapped_cong:
  "unmapped s s' D d A \<Longrightarrow> (\<And>la. la < USERTOP \<Longrightarrow> valid (pte_of s d la) \<Longrightarrow> la \<in> A \<longleftrightarrow> la \<in> B) \<Longrightarrow>
     unmapped s s' D d B"
  unfolding unmapped_def by (auto split: if_splits)

lemma unmapped_mappers: "unmapped s s' D d A \<Longrightarrow> mappers s' D q \<subseteq> mappers s D q"
  unfolding unmapped_def mappers_def by clarify (metis page_addr valid_zero)

lemma dropped_trans:
  assumes "mappers s1 D \<le> mappers s D" and "mappers s2 D \<le> mappers s1 D"
  shows "dropped s s1 D \<union> dropped s1 s2 D = dropped s s2 D"
  by (rule set_eqI) (use assms in \<open>simp add: dropped_def le_fun_def, metis subset_empty\<close>)

text \<open>A free page above all mapped pages: then every release meets the contract.\<close>

definition top_free :: "machine \<Rightarrow> nat set \<Rightarrow> nat set \<Rightarrow> bool" where
  "top_free s D F \<longleftrightarrow> (\<exists>x\<in>F. \<forall>d\<in>D. \<forall>la<USERTOP. valid (pte_of s d la) \<longrightarrow> entry_ppn (pte_of s d la) < page2ppn x)"

lemma top_free_mono:
  "top_free s D F \<Longrightarrow> F \<subseteq> F' \<Longrightarrow> unmapped s s' D d A \<Longrightarrow> top_free s' D F'"
  unfolding top_free_def unmapped_def by (metis subsetD valid_zero)

lemma unmap_one_ok:
  assumes ok: "pt_ok s D F" and d: "d \<in> D" "start < USERTOP" "start mod PGSIZE = 0" and top: "top_free s D F"
  obtains s' n F' where "unmap_one d start s = Some (s', n)" "pt_ok s' D F'" "F \<subseteq> F'"
    "unmapped s s' D d {start..<n}" "start < n" "n mod PGSIZE = 0"
    "n = start + PGSIZE \<or> (\<forall>la. start \<le> la \<and> la < n \<longrightarrow> \<not> valid (pte_of s d la))"
    "\<forall>k\<in>user_keys D. table_at s' k = table_at s k" "F' = F \<union> dropped s s' D"
proof -
  have t: "tree_ok s D F" using ok by (simp add: pt_ok_def)
  note get = get_pte_False [OF t d(1,2)]
  show ?thesis
  proof (cases "table_at s (Tab d (PDX1 start) (PDX0 start))")
    case None
    have "unmapped s s D d {start..<next_start None start}"
      using no_table_no_pte [OF None d(2)] by (auto simp: unmapped_def)
    moreover have "unmap_one d start s = Some (s, next_start None start)"
      using get None by (simp add: unmap_one_def)
    ultimately show ?thesis
      using that [of s "next_start None start" F] ok next_start_bounds [OF d(2,3)] no_table_no_pte [OF None d(2)]
      by simp
  next
    case (Some g)
    let ?x = "(g, PTX start)"
    have e: "entry_at ?x s = pte_of s d start" by (rule entry_at_leaf [OF Some])
    have run: "unmap_one d start s =
        (case (if pte_of s d start \<noteq> 0 then page_remove_pte ?x s else Some s) of
           None \<Rightarrow> None | Some s' \<Rightarrow> Some (s', next_start (Some ?x) start))"
      using get Some e by (simp add: unmap_one_def split: option.split)
    have n: "next_start (Some ?x) start = start + PGSIZE" using d(2) by simp
    show ?thesis
    proof (cases "valid (pte_of s d start)")
      case True
      have "\<exists>x\<in>F. entry_ppn (pte_of s d start) < page2ppn x" using top d True unfolding top_free_def by blast
      from page_remove_pte_ok [OF ok d(1,2) Some this] obtain s' F' where R:
        "page_remove_pte ?x s = Some s'" "pt_ok s' D F'" "F \<subseteq> F'"
        "\<And>d' la'. d' \<in> D \<Longrightarrow> la' < USERTOP \<Longrightarrow> pte_of s' d' la' =
          (if d' = d \<and> la' div PGSIZE = start div PGSIZE \<and> valid (pte_of s d start) then 0 else pte_of s d' la')"
        "\<And>k. k \<in> user_keys D \<Longrightarrow> table_at s' k = table_at s k" "F' = F \<union> dropped s s' D" by blast
      have nz: "pte_of s d start \<noteq> 0" using True by auto
      have run': "unmap_one d start s = Some (s', next_start (Some ?x) start)" using run nz R(1) by simp
      have pg: "la div PGSIZE = start div PGSIZE \<longleftrightarrow> la \<in> {start..<start + PGSIZE}" for la
        by (rule page_range [OF d(3)])
      have "unmapped s s' D d {start..<next_start (Some ?x) start}"
        unfolding unmapped_def n pg [symmetric]
      proof (intro ballI allI impI)
        fix d' la assume a: "d' \<in> D" "la < USERTOP"
        have "valid (pte_of s d la)" if "la div PGSIZE = start div PGSIZE"
          unfolding pte_of_page [OF that] by (rule True)
        then show "pte_of s' d' la =
          (if d' = d \<and> la div PGSIZE = start div PGSIZE \<and> valid (pte_of s d la) then 0 else pte_of s d' la)"
          unfolding R(4) [OF a] using True by argo
      qed
      then show ?thesis
        by (rule that [OF run' R(2,3) _ next_start_bounds [OF d(2,3)] disjI1 [OF n] _ R(6)]) (use R(5) in blast)
    next
      case False
      have R: "page_remove_pte ?x s = Some s" using False e by (simp add: page_remove_pte_def)
      have run': "unmap_one d start s = Some (s, next_start (Some ?x) start)" using run R by simp
      have "\<not> valid (pte_of s d la)" if "la \<in> {start..<start + PGSIZE}" for la
      proof -
        have "start \<le> la" "la < start + PGSIZE" using that by simp_all
        from pte_of_page [OF next_start_page [OF d(3) this], of s d] False show ?thesis by argo
      qed
      then have "unmapped s s D d {start..<next_start (Some ?x) start}"
        unfolding n by (auto simp: unmapped_def)
      then show ?thesis
        by (rule that [OF run' ok subset_refl _ next_start_bounds [OF d(2,3)] disjI1 [OF n]]) simp_all
    qed
  qed
qed

lemma unmap_loop_ok:
  assumes "pt_ok s D F" and "d \<in> D" and "start mod PGSIZE = 0" and "end mod PGSIZE = 0"
    and "start < end" and "end \<le> USERTOP" and "top_free s D F"
  shows "\<exists>s'. unmap_loop d start end s = Some s' \<and> pt_ok s' D (F \<union> dropped s s' D) \<and>
    unmapped s s' D d {start..<end} \<and> (\<forall>k\<in>user_keys D. table_at s' k = table_at s k)"
  using assms(1,3,5,7)
proof (induction "end - start" arbitrary: s F start rule: less_induct)
  case less
  have st: "start < USERTOP" using less.prems(3) assms(6) by simp
  obtain s1 n F1 where 1: "unmap_one d start s = Some (s1, n)" "pt_ok s1 D F1" "F \<subseteq> F1"
    "unmapped s s1 D d {start..<n}" "start < n" "n mod PGSIZE = 0"
    "n = start + PGSIZE \<or> (\<forall>la. start \<le> la \<and> la < n \<longrightarrow> \<not> valid (pte_of s d la))"
    "\<forall>k\<in>user_keys D. table_at s1 k = table_at s k" "F1 = F \<union> dropped s s1 D"
    using unmap_one_ok [OF less.prems(1) assms(2) st less.prems(2,4)] .
  show ?case
  proof (cases "n < end")
    case True
    have "end - n < end - start" using 1(5) less.prems(3) by simp
    from less.hyps [OF this 1(2,6) True top_free_mono [OF less.prems(4) 1(3,4)]]
    obtain s2 where 2: "unmap_loop d n end s1 = Some s2" "pt_ok s2 D (F1 \<union> dropped s1 s2 D)"
      "unmapped s1 s2 D d {n..<end}" "\<forall>k\<in>user_keys D. table_at s2 k = table_at s1 k" by blast
    have "unmap_loop d start end s = Some s2"
      using 1(1,5) 2(1) True by (subst unmap_loop.simps) simp
    moreover have "{start..<n} \<union> {n..<end} = {start..<end}" using 1(5) True by auto
    moreover have "F1 \<union> dropped s1 s2 D = F \<union> dropped s s2 D"
      using dropped_trans [of s1 D s s2] unmapped_mappers [OF 1(4)] unmapped_mappers [OF 2(3)] 1(9)
      by (auto simp: le_fun_def)
    moreover have "\<forall>k\<in>user_keys D. table_at s2 k = table_at s k" using 1(8) 2(4) by simp
    ultimately show ?thesis using unmapped_trans [OF 1(4) 2(3)] 2(2) by metis
  next
    case False
    have run: "unmap_loop d start end s = Some s1"
      using 1(1) False by (subst unmap_loop.simps) simp
    have "start + PGSIZE \<le> end"
    proof -
      obtain a b where "start = PGSIZE * a" "end = PGSIZE * b"
        using less.prems(2) assms(4) by (metis mod_0_imp_dvd dvdE)
      then show ?thesis using less.prems(3) by (auto simp: PGSIZE_def)
    qed
    then have "unmapped s s1 D d {start..<end}"
      using unmapped_cong [OF 1(4), of "{start..<end}"] 1(4,7) False by fastforce
    then show ?thesis using run 1(2,8,9) by blast
  qed
qed

section \<open>Inserting a mapping\<close>

lemma entry_ppn_page:
  "p < 32768 \<Longrightarrow> perm_ok perm \<Longrightarrow> entry_ppn (pte_create (page2ppn p) (PTE_V OR perm)) = page2ppn p"
  by (rule entry_ppn_create [OF page_ppn_small(2)]) (simp_all add: perm_ok_or)

lemma grown_pte: "grown s s' D F F' \<Longrightarrow> d \<in> D \<Longrightarrow> la < USERTOP \<Longrightarrow> pte_of s' d la = pte_of s d la"
  by (simp add: grown_def)

lemma grown_page:
  assumes "grown s s' D F F'" and "p \<notin> F" and "\<not> is_table s D (page2ppn p)"
  shows "p \<notin> F'" and "\<not> is_table s' D (page2ppn p)" and "clean p s' = clean p s" and "page_ref p s' = page_ref p s"
  using assms unfolding grown_def by (auto simp: clean_def page_ref_def)

text \<open>With the tables in place: nothing mapped there yet, the same page, or one with other users.\<close>

lemma page_insert_mapped:
  assumes ok: "pt_ok s D F" and d: "d \<in> D" "la < USERTOP"
    and g: "table_at s (Tab d (PDX1 la) (PDX0 la)) = Some g"
    and p: "p < 32768" "p \<notin> F" "\<not> is_table s D (page2ppn p)" "clean p s"
    and perm: "perm_ok perm"
    and old: "\<not> valid (pte_of s d la) \<or> entry_ppn (pte_of s d la) = page2ppn p \<or>
      1 < page_ref (entry_ppn (pte_of s d la) - nbase) s"
  defines "e \<equiv> pte_create (page2ppn p) (PTE_V OR perm)" and "x \<equiv> (g, PTX la)"
  shows "\<exists>s'. (do { let s = page_ref_inc p s;
          s \<leftarrow> (if entry_at x s AND PTE_V \<noteq> 0 then do {
                 q \<leftarrow> pte2page (entry_at x s);
                 if q = p then Some (page_ref_dec p s) else page_remove_pte x s }
                else Some s);
          Some (set_entry x e s, 0) }) = Some (s', 0 :: int) \<and>
      pt_ok s' D F \<and> remapped s s' D d la e"
proof -
  have ff: "ff_inv NPAGES (pm s) F" and res: "\<forall>q\<in>F. \<not> PageReserved (fa_pages (pm s) q)"
    using ok by (simp_all add: pt_ok_def pages_ok_def)
  let ?e = "pte_of s d la" and ?s1 = "page_ref_inc p s"
  have at: "entry_at x s = ?e" unfolding x_def by (rule entry_at_leaf [OF g])
  have at1: "entry_at x ?s1 = ?e" using at by (simp add: entry_at_def page_ref_inc_def)
  have ev: "valid e" "entry_ppn e = page2ppn p" using entry_ppn_page [OF p(1) perm] by (simp_all add: e_def)
  have v: "in_mem (entry_ppn e) \<and> entry_ppn e - nbase \<notin> F \<and> \<not> is_table s D (entry_ppn e) \<and> clean (entry_ppn e - nbase) s"
    using ev p by simp
  consider (new) "\<not> valid ?e" | (same) "valid ?e" "entry_ppn ?e = page2ppn p"
    | (other) "valid ?e" "entry_ppn ?e \<noteq> page2ppn p" by blast
  then show ?thesis
  proof cases
    case new
    let ?s' = "set_entry x e ?s1"
    have "pt_ok ?s' D F \<and> remapped s ?s' D d la e"
      by (rule remap [OF ok d g _ _ _ _ _ _ v])
        (use ff res new ev in \<open>auto simp: x_def page_ref_inc_def\<close>)
    then show ?thesis using new at1 by simp
  next
    case same
    have pp: "pte2page ?e = Some p" by (rule pte2page_leaf [OF same p(1)])
    let ?s' = "set_entry x e (page_ref_dec p ?s1)"
    have "pt_ok ?s' D F \<and> remapped s ?s' D d la e"
      by (rule remap [OF ok d g _ _ _ _ _ _ v])
        (use ff res same ev in \<open>auto simp: x_def page_ref_inc_def page_ref_dec_def\<close>)
    then show ?thesis using same at1 pp by simp
  next
    case other
    obtain q where q: "entry_ppn ?e = page2ppn q" "q < 32768" "pte2page ?e = Some q"
      using leafE [OF ok d other(1)] by blast
    have qp: "q \<noteq> p" and r: "1 < page_ref q s" using other q old by auto
    let ?s2 = "set_entry x 0 (page_ref_dec q ?s1)" let ?s' = "set_entry x e ?s2"
    have rem: "page_remove_pte x ?s1 = Some ?s2"
      using other(1) at1 q(3) r qp by (simp add: page_remove_pte_def Let_def page_ref_dec_def page_ref_inc_def)
    have "pt_ok ?s' D F \<and> remapped s ?s' D d la e"
      by (rule remap [OF ok d g _ _ _ _ _ _ v])
        (use ff res other ev q qp in \<open>auto simp: x_def page_ref_inc_def page_ref_dec_def\<close>)
    then show ?thesis using other at1 q(3) qp rem by simp
  qed
qed

lemma page_insert_ok:
  assumes ok: "pt_ok s D F" and d: "d \<in> D" "la < USERTOP" and F: "2 \<le> card F"
    and p: "p < 32768" "p \<notin> F" "\<not> is_table s D (page2ppn p)" "clean p s"
    and perm: "perm_ok perm"
    and old: "\<not> valid (pte_of s d la) \<or> entry_ppn (pte_of s d la) = page2ppn p \<or>
      1 < page_ref (entry_ppn (pte_of s d la) - nbase) s"
  obtains s' F' where "page_insert d p la perm s = Some (s', 0)" "pt_ok s' D F'" "F' \<subseteq> F" "card F \<le> card F' + 2"
    "\<forall>d'\<in>D. \<forall>la'<USERTOP. pte_of s' d' la' =
      (if d' = d \<and> la' div PGSIZE = la div PGSIZE then pte_create (page2ppn p) (PTE_V OR perm) else pte_of s d' la')"
proof -
  obtain s1 g F1 where 1: "get_pte d la True s = Some (s1, Some (g, PTX la))" "pt_ok s1 D F1"
    "grown s s1 D F F1" "table_at s1 (Tab d (PDX1 la) (PDX0 la)) = Some g" "card F \<le> card F1 + 2"
    using get_pte_True [OF ok d F] .
  note gp = grown_page [OF 1(3) p(2,3)]
  have pte: "pte_of s1 d la = pte_of s d la" using grown_pte [OF 1(3) d] .
  have old1: "\<not> valid (pte_of s1 d la) \<or> entry_ppn (pte_of s1 d la) = page2ppn p \<or>
      1 < page_ref (entry_ppn (pte_of s1 d la) - nbase) s1"
  proof (cases "valid (pte_of s d la)")
    case True
    obtain q where q: "entry_ppn (pte_of s d la) = page2ppn q" "q \<notin> F" "\<not> is_table s D (page2ppn q)"
      using leafE [OF ok d True] by blast
    then show ?thesis using old pte grown_page(4) [OF 1(3) q(2,3)] by auto
  qed (use pte in simp)
  have cl: "clean p s1" using gp p(4) by simp
  obtain s' where s': "page_insert d p la perm s = Some (s', 0)" "pt_ok s' D F1"
    "remapped s1 s' D d la (pte_create (page2ppn p) (PTE_V OR perm))"
    using page_insert_mapped [OF 1(2) d 1(4) p(1) gp(1,2) cl perm old1] 1(1) by (auto simp: page_insert_def)
  show ?thesis
  proof (rule that [OF s'(1,2) _ 1(5)])
    show "F1 \<subseteq> F" using 1(3) by (simp add: grown_def)
    show "\<forall>d'\<in>D. \<forall>la'<USERTOP. pte_of s' d' la' =
      (if d' = d \<and> la' div PGSIZE = la div PGSIZE then pte_create (page2ppn p) (PTE_V OR perm) else pte_of s d' la')"
      using s'(3) grown_pte [OF 1(3)] by (simp add: remapped_def)
  qed
qed

text \<open>With the tables in place, and another page with no other users: it is given back.\<close>

lemma page_insert_drops:
  assumes ok: "pt_ok s D F" and d: "d \<in> D" "la < USERTOP"
    and g: "table_at s (Tab d (PDX1 la) (PDX0 la)) = Some g"
    and p: "p < 32768" "p \<notin> F" "\<not> is_table s D (page2ppn p)" "clean p s"
    and perm: "perm_ok perm"
    and old: "valid (pte_of s d la)" "entry_ppn (pte_of s d la) = page2ppn q" "q \<noteq> p" "page_ref q s = 1" "\<exists>x\<in>F. q < x"
  defines "e \<equiv> pte_create (page2ppn p) (PTE_V OR perm)" and "x \<equiv> (g, PTX la)"
  shows "\<exists>s'. (do { let s = page_ref_inc p s;
          s \<leftarrow> (if entry_at x s AND PTE_V \<noteq> 0 then do {
                 q \<leftarrow> pte2page (entry_at x s);
                 if q = p then Some (page_ref_dec p s) else page_remove_pte x s }
                else Some s);
          Some (set_entry x e s, 0) }) = Some (s', 0 :: int) \<and>
      pt_ok s' D (insert q F) \<and> remapped s s' D d la e"
proof -
  have q': "q < 32768" "q \<notin> F" "\<not> is_table s D (page2ppn q)" "clean q s" "pte2page (pte_of s d la) = Some q"
    by (rule leafE [OF ok d old(1)], use old(2) in simp)+
  let ?s1 = "page_ref_inc p s" let ?s2 = "page_ref_dec q ?s1"
  have at1: "entry_at x ?s1 = pte_of s d la"
    using entry_at_leaf [OF g] by (simp add: x_def entry_at_def page_ref_inc_def)
  have ev: "valid e" "entry_ppn e = page2ppn p" using entry_ppn_page [OF p(1) perm] by (simp_all add: e_def)
  have ff: "ff_inv NPAGES (pm ?s2) F" and res: "\<forall>q\<in>F. \<not> PageReserved (fa_pages (pm s) q)"
    using ok by (simp_all add: pt_ok_def pages_ok_def page_ref_dec_def page_ref_inc_def)
  have r: "page_ref q ?s2 = 0" using old(3,4) by (simp add: page_ref_dec_def page_ref_inc_def)
  have cf: "can_free NPAGES q 1 (pm ?s2) F"
    using old(5) q'(1,4) by (auto simp: can_free_def freeable_def clean_def page_ref_dec_def page_ref_inc_def)
  obtain b where b: "default_free_pages q 1 (pm ?s2) = Some b" "ff_inv NPAGES b (insert q F)"
    "\<And>k. p_ref (fa_pages b k) = (if k = q then 0 else p_ref (fa_pages (pm ?s2) k))"
    "\<And>k. PageReserved (fa_pages b k) = (k \<noteq> q \<and> PageReserved (fa_pages (pm ?s2) k))"
    "\<And>k. k \<noteq> q \<Longrightarrow> PageProperty (fa_pages b k) \<Longrightarrow> PageProperty (fa_pages (pm ?s2) k)"
    using default_free_one [OF ff cf q'(2)] by blast
  let ?s' = "set_entry x e (set_entry x 0 (?s2\<lparr>pm := b\<rparr>))"
  have run: "page_remove_pte x ?s1 = Some (set_entry x 0 (?s2\<lparr>pm := b\<rparr>))"
    using old(1) at1 q'(5) r b(1) by (simp add: page_remove_pte_def Let_def free_pages_def)
  have fr: "frames ?s' = frames (set_entry (g, PTX la) e s)"
    by (simp add: x_def set_entry_def page_ref_dec_def page_ref_inc_def set_page_ref_def)
  have m1: "mappers s D q = {(d, la div PGSIZE)}" using sole_mapper [OF ok d] old by blast
  have t: "tree_ok s D F" using ok by (simp add: pt_ok_def)
  have m: "mappers ?s' D q = {}"
    using mappers_update [OF d set_leaf(4) [OF t d g fr]] m1 ev old(3) by simp
  have pr: "page_ref k ?s' = (if k = q then 0 else page_ref k ?s1)" for k
    using b(3) by (simp add: page_ref_def set_entry_def page_ref_dec_def set_page_ref_def)
  have pr1: "page_ref k ?s1 = page_ref k s + of_bool (k = p)" for k by (simp add: page_ref_inc_def)
  have "pt_ok ?s' D (insert q F) \<and> remapped s ?s' D d la e"
    by (rule remap [OF ok d g fr])
      (use b res q'(3) m pr pr1 old ev p in \<open>auto simp: clean_def page_ref_dec_def page_ref_inc_def\<close>)
  then show ?thesis using old(1,3) at1 q'(5) run by simp
qed

section \<open>Freeing the tables\<close>

lemma free_pt_loop_iff: "free_pt_loop k i pt s \<longleftrightarrow> (\<forall>j. i \<le> j \<and> j < i + k \<longrightarrow> \<not> valid (frames s pt j))"
proof (induction k arbitrary: i)
  case (Suc k)
  have "(\<forall>j. i \<le> j \<and> j < i + Suc k \<longrightarrow> \<not> valid (frames s pt j)) \<longleftrightarrow>
      \<not> valid (frames s pt i) \<and> (\<forall>j. i + 1 \<le> j \<and> j < i + 1 + k \<longrightarrow> \<not> valid (frames s pt j))"
    by (auto simp: Suc_le_eq dest: le_neq_implies_less)
  then show ?case using Suc by simp
qed auto

lemma table_page:
  assumes "tree_ok s D F" and "k \<in> user_keys D" and "table_at s k = Some f"
  obtains p where "f = page2ppn p" "p < 32768" "p \<notin> F"
proof -
  have "in_mem f \<and> f - nbase \<notin> F" using table_not_free [OF assms(1) table_at_is_table [OF assms(2,3)]] .
  then show ?thesis using in_memE [of f] that by auto
qed

lemma below_page:
  assumes "below s f i = Some (page2ppn p)" and "p < 32768"
  shows "valid (frames s f i)" and "pde2page (frames s f i) = Some p" and "page2kva p = Some (page2ppn p)"
proof -
  show "valid (frames s f i)" using assms(1) by (simp add: below_def split: if_splits)
  have "entry_ppn (frames s f i) = page2ppn p" using assms(1) by (simp add: below_def split: if_splits)
  then show "pde2page (frames s f i) = Some p"
    using page_ppn_small(1) [OF assms(2)] by (simp add: pde2page_def pa2page_def entry_ppn_def page2ppn_def)
  show "page2kva p = Some (page2ppn p)"
    using page_ppn_small [OF assms(2)] by (simp add: page2kva_def KADDR_def PPN_page2pa)
qed

lemma free_page_ok:
  assumes "ff_inv NPAGES (pm s) F" and "clean p s" and "p < 32768" and "p \<notin> F" and "\<exists>x\<in>F. p < x"
  obtains b where "free_page p s = Some (s\<lparr>pm := b\<rparr>)" "ff_inv NPAGES b (insert p F)"
    "\<And>q. q \<noteq> p \<Longrightarrow> clean q s \<Longrightarrow> clean q (s\<lparr>pm := b\<rparr>)"
proof -
  have cf: "can_free NPAGES p 1 (pm s) F"
    using assms by (auto simp: can_free_def freeable_def clean_def)
  from assms(1) cf assms(4) show ?thesis
  proof (rule default_free_one)
    fix b
    assume b: "default_free_pages p 1 (pm s) = Some b" "ff_inv NPAGES b (insert p F)"
      "\<And>q. PageReserved (fa_pages b q) = (q \<noteq> p \<and> PageReserved (fa_pages (pm s) q))"
      "\<And>q. q \<noteq> p \<Longrightarrow> PageProperty (fa_pages b q) \<Longrightarrow> PageProperty (fa_pages (pm s) q)"
    show ?thesis by (rule that [OF _ b(2)]) (use b in \<open>auto simp: free_pages_def clean_def\<close>)
  qed
qed

lemma rounddown_table: "ROUNDDOWN a PTSIZE = a div PTSIZE * PTSIZE" "ROUNDDOWN a PDSIZE = a div PDSIZE * PDSIZE"
  by (simp_all add: ROUNDDOWN_def minus_mod_eq_div_mult)

lemma exit_range_one:
  assumes acc: "start mod PGSIZE = 0" "end mod PGSIZE = 0" "USER_ACCESS start end"
    and one: "end \<le> (start div PTSIZE + 1) * PTSIZE"
    and f: "below s d (PDX1 start) = Some (page2ppn f)" "f < 32768"
    and g: "below s (page2ppn f) (PDX0 start) = Some (page2ppn g)" "g < 32768"
    and e: "\<forall>k<512. \<not> valid (frames s (page2ppn g) k)"
    and run: "free_page g s = Some s1" "free_page f (set_entry (page2ppn f, PDX0 start) 0 s1) = Some s2"
    and fr: "frames s1 = frames s"
  shows "exit_range d start end s = Some (set_entry (d, PDX1 start) 0 s2)"
proof -
  let ?d1 = "ROUNDDOWN start PDSIZE" and ?d0 = "ROUNDDOWN start PTSIZE"
  have lt: "start < USERTOP" "end \<le> USERTOP" using acc(3) by (auto simp: USER_ACCESS_def)
  have q: "start div PDSIZE = start div PTSIZE div 512" by (simp add: PTSIZE_eq div_mult2_eq [symmetric])
  have i1: "PDX1 ?d1 = PDX1 start" unfolding rounddown_table by (simp add: PDX1_def PTSIZE_eq)
  have i0: "PDX0 ?d0 = PDX0 start" unfolding rounddown_table by (simp add: PDX0_def PTSIZE_eq)
  have e0: "end \<le> ?d0 + PTSIZE" using one by (simp add: rounddown_table)
  have "start div PTSIZE + 1 \<le> start div PTSIZE div 512 * 512 + 512"
    using div_mult_mod_eq [of "start div PTSIZE" 512] mod_less_divisor [of 512 "start div PTSIZE"] by simp
  then have "(start div PTSIZE + 1) * PTSIZE \<le> (start div PTSIZE div 512 * 512 + 512) * PTSIZE"
    by (rule mult_le_mono1)
  also have "\<dots> = ?d1 + PDSIZE" unfolding rounddown_table q by (simp add: PDSIZE_def algebra_simps)
  finally have e1: "end \<le> ?d1 + PDSIZE" using one by simp
  have le: "?d0 \<le> start" "?d1 \<le> start" by (simp_all add: rounddown_table)
  have u0: "u64 (?d0 + PTSIZE) = ?d0 + PTSIZE" "u64 (?d1 + PDSIZE) = ?d1 + PDSIZE"
    using le lt by (simp_all add: PTSIZE_eq USERTOP_def)
  note bf = below_page [OF f] and bg = below_page [OF g]
  have pt: "free_pt_loop NPTEENTRY 0 (page2ppn g) s" using e by (simp add: free_pt_loop_iff NPTEENTRY_def)
  have "exit_entry (page2ppn f) ?d0 True s = Some (set_entry (page2ppn f, PDX0 start) 0 s1, True)"
    using bg pt run(1) by (simp add: exit_entry_def i0 Let_def)
  then have "exit_inner (page2ppn f) ?d1 ?d0 end True s = Some (set_entry (page2ppn f, PDX0 start) 0 s1, True)"
    using e0 u0 by (subst exit_inner.simps) (simp add: Let_def)
  then have "exit_loop d ?d1 ?d0 end s = Some (set_entry (d, PDX1 start) 0 s2)"
    using bf run(2) e1 u0 by (subst exit_loop.simps) (simp add: i1 Let_def)
  then show ?thesis using acc by (simp add: exit_range_def)
qed

section \<open>Properties\<close>

text \<open>\<open>get_pte\<close> with \<open>create\<close> and two free pages finds the entry of an address: it makes at
  most two free pages into tables, changes the entry of no page in any address space, and a
  later \<open>get_pte\<close> without \<open>create\<close> finds the same entry.\<close>

theorem get_pte_creates:
  assumes "pt_ok s D F" and "d \<in> D" and "la < USERTOP" and "2 \<le> card F"
  shows "\<exists>s' g F'. get_pte d la True s = Some (s', Some (g, PTX la)) \<and> pt_ok s' D F' \<and>
    F' \<subseteq> F \<and> card F \<le> card F' + 2 \<and>
    get_pte d la False s' = Some (s', Some (g, PTX la)) \<and>
    (\<forall>d'\<in>D. \<forall>la'<USERTOP. pte_of s' d' la' = pte_of s d' la')"
proof -
  obtain s' g F' where 1: "get_pte d la True s = Some (s', Some (g, PTX la))" "pt_ok s' D F'"
    "grown s s' D F F'" "table_at s' (Tab d (PDX1 la) (PDX0 la)) = Some g" "card F \<le> card F' + 2"
    using get_pte_True [OF assms(1-4)] .
  have "get_pte d la False s' = Some (s', Some (g, PTX la))"
    using get_pte_False [OF _ assms(2,3), of s' F'] 1(2,4) by (simp add: pt_ok_def)
  then show ?thesis using 1 by (auto simp: grown_def)
qed

text \<open>C21. With two free pages, \<open>page_insert\<close> maps the virtual page to the given page with the
  given permissions, changes no other mapping, and takes at most two free pages (for tables).
  A page that was mapped there before loses this mapping: it becomes free exactly when it was
  its last one and it is not the page now mapped, and no other page becomes free; the reference
  counts stay the numbers of mappings.  A page given back that way must lie below a free one,
  which keeps the insertion into the free list regular.\<close>

theorem page_insert_maps:
  assumes "pt_ok s D F" and "d \<in> D" and "la < USERTOP" and "2 \<le> card F"
    and "p < NPAGES" and "p \<notin> F" and "\<not> is_table s D (page2ppn p)" and "clean p s" and "perm_ok perm"
    and "\<And>q. valid (pte_of s d la) \<Longrightarrow> entry_ppn (pte_of s d la) = page2ppn q \<Longrightarrow> q \<noteq> p \<Longrightarrow>
      page_ref q s = 1 \<Longrightarrow> \<exists>x\<in>F. q < x"
  shows "\<exists>s' F'. page_insert d p la perm s = Some (s', 0) \<and>
    F' \<subseteq> F \<and> card F \<le> card F' + 2 \<and>
    pt_ok s' D (F' \<union> {q. valid (pte_of s d la) \<and> entry_ppn (pte_of s d la) = page2ppn q \<and>
      mappers s D q = {(d, la div PGSIZE)} \<and> q \<noteq> p}) \<and>
    (\<forall>d'\<in>D. \<forall>la'<USERTOP. pte_of s' d' la' =
      (if d' = d \<and> la' div PGSIZE = la div PGSIZE then pte_create (page2ppn p) (PTE_V OR perm)
       else pte_of s d' la'))"
proof (cases "\<exists>q. valid (pte_of s d la) \<and> entry_ppn (pte_of s d la) = page2ppn q \<and> q \<noteq> p \<and> page_ref q s = 1")
  case True
  then obtain q where q: "valid (pte_of s d la)" "entry_ppn (pte_of s d la) = page2ppn q" "q \<noteq> p" "page_ref q s = 1"
    by blast
  obtain g where g: "table_at s (Tab d (PDX1 la) (PDX0 la)) = Some g"
    using q(1) by (auto simp: pte_of_def simp del: table_at.simps split: option.splits)
  have t: "tree_ok s D F" using assms(1) by (simp add: pt_ok_def)
  note get = get_pte_found [OF t assms(2,3) g]
  have p: "p < 32768" using assms(5) by simp
  obtain s' where s': "page_insert d p la perm s = Some (s', 0)" "pt_ok s' D (insert q F)"
    "remapped s s' D d la (pte_create (page2ppn p) (PTE_V OR perm))"
    using page_insert_drops [OF assms(1-3) g p assms(6-9) q assms(10) [OF q]] get by (auto simp: page_insert_def)
  have "{k. valid (pte_of s d la) \<and> entry_ppn (pte_of s d la) = page2ppn k \<and>
      mappers s D k = {(d, la div PGSIZE)} \<and> k \<noteq> p} = {q}"
    using q sole_mapper [OF assms(1-3)] by auto
  then show ?thesis using s' by (intro exI [of _ s'] exI [of _ F]) (simp add: remapped_def)
next
  case False
  have old: "\<not> valid (pte_of s d la) \<or> entry_ppn (pte_of s d la) = page2ppn p \<or>
      1 < page_ref (entry_ppn (pte_of s d la) - nbase) s"
  proof (cases "valid (pte_of s d la)")
    case True
    obtain q where q: "entry_ppn (pte_of s d la) = page2ppn q" "page_ref q s = int (card (mappers s D q))"
      "(d, la div PGSIZE) \<in> mappers s D q"
      using leafE [OF assms(1-3) True] by blast
    have "card (mappers s D q) \<noteq> 0"
      using q(3) finite_mappers [of D s q] assms(1) by (auto simp: pt_ok_def)
    then show ?thesis using False True q(1,2) by auto
  qed simp
  have none: "{k. valid (pte_of s d la) \<and> entry_ppn (pte_of s d la) = page2ppn k \<and>
      mappers s D k = {(d, la div PGSIZE)} \<and> k \<noteq> p} = {}"
    using False sole_mapper [OF assms(1-3)] by auto
  have "p < 32768" using assms(5) by simp
  from page_insert_ok [OF assms(1-4) this assms(6-9) old] show ?thesis unfolding none Un_empty_right by metis
qed

text \<open>C22. When a free page lies above all mapped ones (so that every insertion into the free list
  is regular), \<open>unmap_range\<close> returns, removes exactly the mappings of the range in this address
  space, whatever tables exist, and gives back exactly the pages that lost their last mapping:
  they and the pages free before are the free pages afterwards, and the reference counts of all
  others are again their numbers of mappings.\<close>

theorem unmap_range_clears:
  assumes "pt_ok s D F" and "d \<in> D" and "start mod PGSIZE = 0" and "end mod PGSIZE = 0"
    and "USER_ACCESS start end" and "top_free s D F"
  shows "\<exists>s'. unmap_range d start end s = Some s' \<and>
    pt_ok s' D (F \<union> {q. mappers s D q \<noteq> {} \<and> mappers s' D q = {}}) \<and>
    (\<forall>d'\<in>D. \<forall>la<USERTOP. pte_of s' d' la =
      (if d' = d \<and> start \<le> la \<and> la < end \<and> valid (pte_of s d la) then 0 else pte_of s d' la))"
proof -
  have "start < end" "end \<le> USERTOP" using assms(5) by (simp_all add: USER_ACCESS_def)
  from unmap_loop_ok [OF assms(1-4) this assms(6)] obtain s' where
    1: "unmap_loop d start end s = Some s'" "pt_ok s' D (F \<union> dropped s s' D)" "unmapped s s' D d {start..<end}"
    by blast
  have "unmap_range d start end s = Some s'" using assms(3-5) 1(1) by (simp add: unmap_range_def)
  then show ?thesis using 1(2,3) unfolding unmapped_def dropped_def by (auto 0 3)
qed

text \<open>\<open>exit_range\<close> on a range whose only page table is empty frees this table, and with it the
  whole level-0 directory, although the directory still holds the table of another range:
  that table is neither free nor reachable any more.\<close>

theorem exit_range_loses_tables:
  assumes "pt_ok s D F" and "d \<in> D" and "start mod PGSIZE = 0" and "end mod PGSIZE = 0"
    and "USER_ACCESS start end" and "end \<le> (start div PTSIZE + 1) * PTSIZE"
    and "table_at s (Dir d (PDX1 start)) = Some (page2ppn f)"
    and "table_at s (Tab d (PDX1 start) (PDX0 start)) = Some (page2ppn g)"
    and "\<forall>k<512. \<not> valid (frames s (page2ppn g) k)"
    and "j < 512" and "j \<noteq> PDX0 start" and "table_at s (Tab d (PDX1 start) j) = Some (page2ppn h)"
    and "clean f s" and "clean g s" and "x \<in> F" and "f < x" and "g < x"
  shows "\<exists>s'. exit_range d start end s = Some s' \<and> ff_inv NPAGES (pm s') (F \<union> {f, g}) \<and>
    table_at s' (Dir d (PDX1 start)) = None \<and> h \<notin> F \<union> {f, g} \<and> \<not> is_table s' D (page2ppn h)"
proof -
  have t: "tree_ok s D F" and ff: "ff_inv NPAGES (pm s) F" using assms(1) by (simp_all add: pt_ok_def)
  have st: "start < USERTOP" using assms(5) by (simp add: USER_ACCESS_def)
  have keys: "Dir d (PDX1 start) \<in> user_keys D" "Tab d (PDX1 start) (PDX0 start) \<in> user_keys D"
    "Tab d (PDX1 start) j \<in> user_keys D" using assms(2,10) st by simp_all
  have f: "f < 32768" "f \<notin> F" using table_page [OF t keys(1) assms(7)] by auto
  have g: "g < 32768" "g \<notin> F" using table_page [OF t keys(2) assms(8)] by auto
  have h: "h \<notin> F" using table_page [OF t keys(3) assms(12)] by auto
  have ne: "f \<noteq> g" "h \<noteq> f" "h \<noteq> g"
    using tree_inj [OF t keys(1,2) assms(7)] tree_inj [OF t keys(1,3) assms(7)]
      tree_inj [OF t keys(2,3) assms(8)] assms(8,11,12) by auto
  have bf: "below s d (PDX1 start) = Some (page2ppn f)" and bg: "below s (page2ppn f) (PDX0 start) = Some (page2ppn g)"
    using assms(7,8) by simp_all
  have xg: "\<exists>x\<in>F. g < x" "\<exists>x\<in>insert g F. f < x" using assms(15-17) by blast+
  from ff assms(14) g xg(1) show ?thesis
  proof (rule free_page_ok)
    fix b assume b: "free_page g s = Some (s\<lparr>pm := b\<rparr>)" "ff_inv NPAGES b (insert g F)"
      "\<And>q. q \<noteq> g \<Longrightarrow> clean q s \<Longrightarrow> clean q (s\<lparr>pm := b\<rparr>)"
    let ?s1 = "set_entry (page2ppn f, PDX0 start) 0 (s\<lparr>pm := b\<rparr>)"
    have "ff_inv NPAGES (pm ?s1) (insert g F)" "clean f ?s1" "f \<notin> insert g F" using b ne f assms(13) by auto
    from this(1,2) f(1) this(3) xg(2) show ?thesis
    proof (rule free_page_ok)
      fix c assume c: "free_page f ?s1 = Some (?s1\<lparr>pm := c\<rparr>)" "ff_inv NPAGES c (insert f (insert g F))"
      let ?s' = "set_entry (d, PDX1 start) 0 (?s1\<lparr>pm := c\<rparr>)"
      have run: "exit_range d start end s = Some ?s'"
        by (rule exit_range_one [OF assms(3-6) bf f(1) bg g(1) assms(9) b(1) c(1)]) simp
      have fr: "frames ?s' a = (if a = d then (frames ?s1 d)(PDX1 start := 0) else frames ?s1 a)" for a
        by (simp add: set_entry_def)
      have bel: "below s' a i = Some y \<Longrightarrow> below s a i = Some y" if "s' = ?s'" for s' a i y
        unfolding that by (auto simp: below_def set_entry_def split: if_splits)
      have none: "below ?s' d (PDX1 start) = None" by (simp add: below_def set_entry_def)
      have "\<not> is_table ?s' D (page2ppn h)"
      proof
        assume "is_table ?s' D (page2ppn h)"
        then obtain k where k: "k \<in> user_keys D" "table_at ?s' k = Some (page2ppn h)" by (auto simp: is_table_def)
        have "table_at s k = Some (page2ppn h)"
          using k(2) by (cases k) (auto split: option.splits dest!: bel [OF refl])
        then have "k = Tab d (PDX1 start) j" using tree_inj [OF t k(1) keys(3) _ assms(12)] by simp
        then show False using k(2) none by simp
      qed
      moreover have "F \<union> {f, g} = insert f (insert g F)" by auto
      ultimately show ?thesis using run c(2) none h ne by (intro exI [of _ ?s']) (simp add: set_entry_def)
    qed
  qed
qed

subsection \<open>The properties at work\<close>

text \<open>Page 10 is a page directory, 11 the directory below it, 12 an empty page table and 13 one
  that maps the virtual page 1024 to page 5; the pages 20 to 29 are free.\<close>

definition pt_area :: free_area where
  "pt_area = \<lparr>fa_pages = (\<lambda>_. \<lparr>p_ref = 0, p_flags = 0, p_property = 0\<rparr>)
       (5 := \<lparr>p_ref = 1, p_flags = 0, p_property = 0\<rparr>,
        20 := SetPageProperty \<lparr>p_ref = 0, p_flags = 0, p_property = 10\<rparr>),
     fa_links = list_add FreeList (PageLink 20) (list_init FreeList \<lparr>l_next = id, l_prev = id\<rparr>),
     fa_nr_free = 10\<rparr>"

definition pt_sample :: machine where
  "pt_sample = \<lparr>pm = pt_area,
     frames = (\<lambda>f i.
       if f = page2ppn 10 \<and> i = 0 then pte_create (page2ppn 11) (PTE_U OR PTE_V)
       else if f = page2ppn 11 \<and> i = 1 then pte_create (page2ppn 12) (PTE_U OR PTE_V)
       else if f = page2ppn 11 \<and> i = 2 then pte_create (page2ppn 13) (PTE_U OR PTE_V)
       else if f = page2ppn 13 \<and> i = 0 then pte_create (page2ppn 5) (PTE_V OR PTE_USER)
       else 0),
     swap_init_ok = False\<rparr>"

abbreviation sample_dir :: nat where "sample_dir \<equiv> page2ppn 10"

lemma sample_frames:
  "frames pt_sample f i =
    (if f = page2ppn 10 \<and> i = 0 then pte_create (page2ppn 11) (PTE_U OR PTE_V)
     else if f = page2ppn 11 \<and> i = 1 then pte_create (page2ppn 12) (PTE_U OR PTE_V)
     else if f = page2ppn 11 \<and> i = 2 then pte_create (page2ppn 13) (PTE_U OR PTE_V)
     else if f = page2ppn 13 \<and> i = 0 then pte_create (page2ppn 5) (PTE_V OR PTE_USER)
     else 0)"
  by (simp add: pt_sample_def)

lemma sample_below:
  "below pt_sample f i =
    (if f = page2ppn 10 \<and> i = 0 then Some (page2ppn 11)
     else if f = page2ppn 11 \<and> i = 1 then Some (page2ppn 12)
     else if f = page2ppn 11 \<and> i = 2 then Some (page2ppn 13)
     else if f = page2ppn 13 \<and> i = 0 then Some (page2ppn 5) else None)"
proof -
  have "entry_ppn (pte_create (page2ppn q) t) = page2ppn q" if "q < 32768" "perm_ok t" for q t
    by (rule entry_ppn_create [OF page_ppn_small(2) [OF that(1)] that(2)])
  then show ?thesis by (simp add: below_def sample_frames perm_ok_or)
qed

lemma sample_table_at:
  "k \<in> user_keys {sample_dir} \<Longrightarrow> table_at pt_sample k = Some f \<longleftrightarrow>
     (k = Root sample_dir \<and> f = page2ppn 10) \<or> (k = Dir sample_dir 0 \<and> f = page2ppn 11) \<or>
     (k = Tab sample_dir 0 1 \<and> f = page2ppn 12) \<or> (k = Tab sample_dir 0 2 \<and> f = page2ppn 13)"
  by (cases k) (auto simp: sample_below split: if_splits)

lemma sample_ff: "ff_inv NPAGES pt_area {20..<30}"
proof -
  have "ff_ok NPAGES pt_area [20]"
    using ring_list_add_head [OF ring_list_init, of "PageLink 20" FreeList "\<lparr>l_next = id, l_prev = id\<rparr>"]
    by (simp add: ff_ok_def pt_area_def prop_of_def)
  moreover have "free_set pt_area [20] = {20..<30}" by (simp add: free_set_def prop_of_def pt_area_def)
  ultimately show ?thesis unfolding ff_inv_def by (intro exI [of _ "[20]"]) simp
qed

lemma sample_pte:
  assumes "la < USERTOP"
  shows "pte_of pt_sample sample_dir la =
    (if la div PGSIZE = 1024 then pte_create (page2ppn 5) (PTE_V OR PTE_USER) else 0)"
proof -
  have i: "PDX1 la = 0 \<and> PDX0 la = 2 \<and> PTX la = 0 \<longleftrightarrow> la div PGSIZE = 1024"
  proof
    assume a: "PDX1 la = 0 \<and> PDX0 la = 2 \<and> PTX la = 0"
    have "PDX1 0x400000 = 0" "PDX0 0x400000 = 2" "PTX 0x400000 = 0"
      by (simp_all add: PDX1_def PDX0_def PTX_def)
    then have "la div PGSIZE = 0x400000 div PGSIZE"
      using a by (intro index_inj [OF assms]) (simp_all add: USERTOP_def)
    then show "la div PGSIZE = 1024" by (simp add: PGSIZE_def)
  next
    assume "la div PGSIZE = 1024"
    then show "PDX1 la = 0 \<and> PDX0 la = 2 \<and> PTX la = 0" by (simp add: index_of_vpn)
  qed
  show ?thesis
    using i by (auto simp: pte_of_def sample_below sample_frames)
qed

lemma sample_ok: "pt_ok pt_sample {sample_dir} {20..<30}"
proof -
  have tree: "tree_ok pt_sample {sample_dir} {20..<30}"
    unfolding tree_ok_def by (auto simp: sample_table_at simp del: table_at.simps nbase_npage) (auto simp: nbase_npage)
  have tab: "is_table pt_sample {sample_dir} (page2ppn q) \<longleftrightarrow> q \<in> {10, 11, 12, 13}" for q
  proof -
    have "is_table pt_sample {sample_dir} (page2ppn q) \<longleftrightarrow>
        (\<exists>k\<in>user_keys {sample_dir}. (k = Root sample_dir \<and> q = 10) \<or> (k = Dir sample_dir 0 \<and> q = 11) \<or>
          (k = Tab sample_dir 0 1 \<and> q = 12) \<or> (k = Tab sample_dir 0 2 \<and> q = 13))"
      unfolding is_table_def by (rule bex_cong) (simp_all add: sample_table_at del: table_at.simps)
    moreover have "Root sample_dir \<in> user_keys {sample_dir}" "Dir sample_dir 0 \<in> user_keys {sample_dir}"
      "Tab sample_dir 0 1 \<in> user_keys {sample_dir}" "Tab sample_dir 0 2 \<in> user_keys {sample_dir}" by simp_all
    ultimately show ?thesis unfolding insert_iff empty_iff by blast
  qed
  have e5: "entry_ppn (pte_create (page2ppn 5) (PTE_V OR PTE_USER)) = page2ppn 5"
    by (rule entry_ppn_page) simp_all
  have b: "v * PGSIZE < USERTOP" "v * PGSIZE div PGSIZE = v" if "v < USERTOP div PGSIZE" for v
    using that page_addr vpn_of_page by simp_all
  have "1024 < USERTOP div PGSIZE" by (simp add: USERTOP_def PGSIZE_def)
  then have m: "mappers pt_sample {sample_dir} q = (if q = 5 then {(sample_dir, 1024)} else {})" for q
    unfolding mappers_def using sample_pte [OF b(1)] e5 by (auto simp: b(2) vpn_of_page split: if_splits)
  have "pages_ok pt_sample {sample_dir} {20..<30}"
    unfolding pages_ok_def
  proof (intro conjI ballI allI impI)
    fix d la assume a: "d \<in> {sample_dir}" "la < USERTOP" "valid (pte_of pt_sample d la)"
    then have "pte_of pt_sample d la = pte_create (page2ppn 5) (PTE_V OR PTE_USER)"
      by (simp add: sample_pte split: if_splits)
    then show "leaf_ok pt_sample {sample_dir} {20..<30} (entry_ppn (pte_of pt_sample d la))"
      using e5 tab by (simp add: leaf_ok_def clean_def pt_sample_def pt_area_def PageReserved_def PageProperty_def)
  next
    fix q assume "q < NPAGES" "\<not> is_table pt_sample {sample_dir} (page2ppn q)"
    show "page_ref q pt_sample = int (card (mappers pt_sample {sample_dir} q))"
      unfolding m by (simp add: page_ref_def pt_sample_def pt_area_def SetPageProperty_def)
  next
    fix q :: nat assume "q \<in> {20..<30}"
    show "\<not> PageReserved (fa_pages (pm pt_sample) q)"
      by (simp add: pt_sample_def pt_area_def PageReserved_def SetPageProperty_def PG_reserved_def PG_property_def bit_set_bit_iff)
  qed
  then show ?thesis using tree sample_ff by (simp add: pt_ok_def pt_sample_def)
qed

lemma sample_clean: "q \<noteq> 20 \<Longrightarrow> clean q pt_sample"
  by (simp add: clean_def pt_sample_def pt_area_def PageReserved_def PageProperty_def)

lemma sample_not_table: "q \<notin> {10, 11, 12, 13} \<Longrightarrow> \<not> is_table pt_sample {sample_dir} (page2ppn q)"
  by (auto simp: is_table_def sample_table_at simp del: table_at.simps)

lemma sample_index: "PDX1 0x200000 = 0" "PDX0 0x200000 = 1" "0x200000 < USERTOP" "(0x200000 :: nat) div PGSIZE = 512"
  by (simp_all add: PDX1_def PDX0_def USERTOP_def PGSIZE_def)

lemma get_pte_creates_witness:
  "\<exists>s' g. get_pte sample_dir 0x40000000 True pt_sample = Some (s', Some (g, 0))"
proof -
  have "0x40000000 < USERTOP" "PTX 0x40000000 = 0" by (simp_all add: USERTOP_def PTX_def)
  then show ?thesis using get_pte_creates [OF sample_ok, of sample_dir "0x40000000"] by auto
qed

lemma page_insert_maps_witness:
  "\<exists>s' F'. page_insert sample_dir 6 0x400000 PTE_USER pt_sample = Some (s', 0) \<and>
     pte_of s' sample_dir 0x400000 = pte_create (page2ppn 6) (PTE_V OR PTE_USER) \<and>
     pt_ok s' {sample_dir} (insert 5 F') \<and> F' \<subseteq> {20..<30}"
proof -
  have u: "0x400000 < USERTOP" "(0x400000 :: nat) div PGSIZE = 1024" by (simp_all add: USERTOP_def PGSIZE_def)
  have e: "valid (pte_of pt_sample sample_dir 0x400000)"
    "entry_ppn (pte_of pt_sample sample_dir 0x400000) = page2ppn 5"
    using entry_ppn_page [of 5 PTE_USER] u by (simp_all add: sample_pte)
  have r: "page_ref 5 pt_sample = 1" by (simp add: page_ref_def pt_sample_def pt_area_def)
  have m: "mappers pt_sample {sample_dir} 5 = {(sample_dir, 0x400000 div PGSIZE)}"
    using sole_mapper [OF sample_ok _ u(1), of sample_dir 5] e r by simp
  have "{q. valid (pte_of pt_sample sample_dir 0x400000) \<and>
      entry_ppn (pte_of pt_sample sample_dir 0x400000) = page2ppn q \<and>
      mappers pt_sample {sample_dir} q = {(sample_dir, 0x400000 div PGSIZE)} \<and> q \<noteq> 6} = {5}"
    using e m by auto
  moreover have "\<exists>x\<in>{20..<30}. q < x" if "entry_ppn (pte_of pt_sample sample_dir 0x400000) = page2ppn q" for q :: nat
    using that e(2) by (intro bexI [of _ 29]) simp_all
  ultimately show ?thesis
    using page_insert_maps [OF sample_ok _ u(1), where d = sample_dir and p = 6 and perm = PTE_USER]
      sample_not_table [of 6] sample_clean [of 6] u(1) by fastforce
qed

lemma unmap_range_clears_witness:
  "\<exists>s' F'. unmap_range sample_dir 0x400000 0x401000 pt_sample = Some s' \<and>
     pte_of s' sample_dir 0x400000 = 0 \<and> pt_ok s' {sample_dir} F' \<and> 5 \<in> F'"
proof -
  have u: "0x400000 < USERTOP" "USER_ACCESS 0x400000 0x401000" "(0x400000 :: nat) mod PGSIZE = 0"
    "(0x401000 :: nat) mod PGSIZE = 0"
    by (simp_all add: USERTOP_def USER_ACCESS_def USERBASE_def PGSIZE_def)
  have e5: "entry_ppn (pte_create (page2ppn 5) (PTE_V OR PTE_USER)) = page2ppn 5"
    by (rule entry_ppn_page) simp_all
  have "top_free pt_sample {sample_dir} {20..<30}"
    unfolding top_free_def
  proof (intro bexI [of _ 29] ballI allI impI)
    fix d la assume "d \<in> {sample_dir}" "la < USERTOP" "valid (pte_of pt_sample d la)"
    then have "pte_of pt_sample d la = pte_create (page2ppn 5) (PTE_V OR PTE_USER)"
      by (simp add: sample_pte split: if_splits)
    then show "entry_ppn (pte_of pt_sample d la) < page2ppn 29" using e5 by (simp add: page2ppn_def)
  qed simp
  then obtain s' where s': "unmap_range sample_dir 0x400000 0x401000 pt_sample = Some s'"
    "pt_ok s' {sample_dir} ({20..<30} \<union> {q. mappers pt_sample {sample_dir} q \<noteq> {} \<and> mappers s' {sample_dir} q = {}})"
    "\<And>d la. d \<in> {sample_dir} \<Longrightarrow> la < USERTOP \<Longrightarrow> pte_of s' d la =
      (if d = sample_dir \<and> 0x400000 \<le> la \<and> la < 0x401000 \<and> valid (pte_of pt_sample sample_dir la) then 0
       else pte_of pt_sample d la)"
    using unmap_range_clears [OF sample_ok _ u(3,4,2), of sample_dir] by auto
  have z: "pte_of s' sample_dir la = 0" if "la < USERTOP" for la
  proof (cases "la div PGSIZE = 1024")
    case True
    then have "0x400000 \<le> la" "la < 0x401000" by (simp_all add: PGSIZE_def)
    then show ?thesis using s'(3) [of sample_dir la] that True by (simp add: sample_pte)
  next
    case False
    then show ?thesis using s'(3) [of sample_dir la] that by (simp add: sample_pte split: if_splits)
  qed
  have m: "mappers s' {sample_dir} 5 = {}" using z page_addr by (auto simp: mappers_def)
  have "(sample_dir, 0x400000 div PGSIZE) \<in> mappers pt_sample {sample_dir} 5"
    using mapper_iff [of sample_dir "{sample_dir}", OF _ u(1), of pt_sample 5] e5 u(1)
    by (simp add: sample_pte PGSIZE_def)
  then have "5 \<in> {q. mappers pt_sample {sample_dir} q \<noteq> {} \<and> mappers s' {sample_dir} q = {}}" using m by blast
  then show ?thesis using s'(1,2) z [OF u(1)] by blast
qed

lemma exit_range_loses_tables_witness:
  "\<exists>s'. exit_range sample_dir 0x200000 0x201000 pt_sample = Some s' \<and>
     \<not> is_table s' {sample_dir} (page2ppn 13)"
proof -
  have u: "USER_ACCESS 0x200000 0x201000" "(0x200000 :: nat) mod PGSIZE = 0" "(0x201000 :: nat) mod PGSIZE = 0"
    "0x201000 \<le> (0x200000 div PTSIZE + 1) * PTSIZE"
    by (simp_all add: USERTOP_def USER_ACCESS_def USERBASE_def PGSIZE_def PTSIZE_eq)
  have z: "\<forall>k<512. \<not> valid (frames pt_sample (page2ppn 12) k)" by (simp add: sample_frames)
  show ?thesis
    using exit_range_loses_tables [OF sample_ok _ u(2,3,1,4) _ _ z, of sample_dir 11 2 13 29]
      sample_index(1,2) sample_clean [of 11] sample_clean [of 12] by (auto simp: sample_below)
qed

end
