(* ===== verification/Cow.thy ===== *)
theory Cow
  imports Page_Table
begin

unbundle bit_operations_syntax

text \<open>
  Copy on write, \<open>kern/mm/cow.c\<close> of lab 5: sharing a range of pages between two address
  spaces without write permission, and the handler that gives the writer a copy of its own.
  The lemmas follow the walk over a range as in \<open>Page_Table\<close>.
\<close>

section \<open>The operations\<close>

definition cow_one :: "nat \<Rightarrow> nat \<Rightarrow> nat \<Rightarrow> machine \<Rightarrow> (machine \<times> nat) option" where
  "cow_one to from start s = do {
     (s, ptep) \<leftarrow> get_pte from start False s;
     (case ptep of
        None \<Rightarrow> Some (s, next_start ptep start)
      | Some x \<Rightarrow>
          if entry_at x s AND PTE_V \<noteq> 0 then do {
            let s = set_entry x (entry_at x s AND NOT PTE_W) s;
            let perm = entry_at x s AND PTE_USER AND NOT PTE_W;
            page \<leftarrow> pte2page (entry_at x s);
            (s, ret) \<leftarrow> page_insert to page start perm s;
            assert_k (ret = 0);
            Some (s, next_start ptep start) }
          else Some (s, next_start ptep start)) }"

partial_function (option) cow_copy_loop ::
    "nat \<Rightarrow> nat \<Rightarrow> nat \<Rightarrow> nat \<Rightarrow> machine \<Rightarrow> (machine \<times> int) option" where
  "cow_copy_loop to from start end s = do {
     (s, start) \<leftarrow> cow_one to from start s;
     if start \<noteq> 0 \<and> start < end then cow_copy_loop to from start end s else Some (s, 0) }"

definition cow_copy_range :: "nat \<Rightarrow> nat \<Rightarrow> nat \<Rightarrow> nat \<Rightarrow> machine \<Rightarrow> (machine \<times> int) option" where
  "cow_copy_range to from start end s = do {
     assert_k (start mod PGSIZE = 0 \<and> end mod PGSIZE = 0);
     assert_k (USER_ACCESS start end);
     cow_copy_loop to from start end s }"

text \<open>The argument \<open>pgdir\<close> is \<open>mm->pgdir\<close>; the error code is not used.\<close>

definition cow_pgfault :: "nat \<Rightarrow> nat \<Rightarrow> machine \<Rightarrow> (machine \<times> int) option" where
  "cow_pgfault pgdir addr s = do {
     (s, ptep) \<leftarrow> get_pte pgdir addr False s;
     x \<leftarrow> ptep;
     let perm = (entry_at x s AND PTE_USER) OR PTE_W;
     page \<leftarrow> pte2page (entry_at x s);
     (s, r) \<leftarrow> alloc_page s;
     new \<leftarrow> r;
     src \<leftarrow> page2kva page;
     dst \<leftarrow> page2kva new;
     let s = copy_frame dst src s;
     let s = set_entry x 0 s;
     (s, ret) \<leftarrow> page_insert pgdir new (ROUNDDOWN addr PGSIZE) perm s;
     (s, ptep) \<leftarrow> get_pte pgdir addr False s;
     Some (s, ret) }"

section \<open>Sharing one page\<close>

definition read_only :: "64 word \<Rightarrow> 64 word" where
  "read_only e = e AND NOT PTE_W"

definition cow_entry :: "64 word \<Rightarrow> 64 word" where
  "cow_entry e = pte_create (entry_ppn e) (PTE_V OR (read_only e AND PTE_USER AND NOT PTE_W))"

lemma bit_PTE_W: "bit PTE_W k \<longleftrightarrow> k = 2"
proof -
  have w: "PTE_W = 2 ^ 2" by (simp add: PTE_W_def)
  show ?thesis unfolding w bit_exp_iff by auto
qed

lemma bit_read_only: "bit (read_only e) k \<longleftrightarrow> bit e k \<and> k \<noteq> 2"
  by (auto simp: read_only_def bit_and_iff bit_not_iff bit_PTE_W dest: bit_imp_le_length)

lemma valid_read_only [simp]: "valid (read_only e) = valid e"
  by (simp add: valid_bit bit_read_only)

lemma entry_ppn_read_only [simp]: "entry_ppn (read_only e) = entry_ppn e"
proof -
  have "PTE_ADDR (read_only e) = PTE_ADDR e"
    by (rule bit_eqI) (auto simp: bit_PTE_ADDR bit_read_only)
  then show ?thesis by (simp add: entry_ppn_def)
qed

lemma not_writable_read_only: "read_only e AND PTE_W = 0"
  by (simp add: read_only_def and.assoc)

definition cow_shared ::
    "machine \<Rightarrow> machine \<Rightarrow> nat set \<Rightarrow> nat \<Rightarrow> nat \<Rightarrow> nat set \<Rightarrow> bool" where
  "cow_shared s s' D to from A \<longleftrightarrow> (\<forall>d\<in>D. \<forall>la<USERTOP. pte_of s' d la =
     (if la \<in> A \<and> valid (pte_of s from la)
      then (if d = from then read_only (pte_of s from la)
            else if d = to then cow_entry (pte_of s from la) else pte_of s d la)
      else pte_of s d la))"

lemma cow_shared_trans:
  assumes "cow_shared s s1 D to from A" and "cow_shared s1 s2 D to from B" and "A \<inter> B = {}"
    and "from \<in> D"
  shows "cow_shared s s2 D to from (A \<union> B)"
  unfolding cow_shared_def
proof (intro ballI allI impI)
  fix d la assume d: "d \<in> D" "la < USERTOP"
  have f: "la \<notin> A \<Longrightarrow> pte_of s1 from la = pte_of s from la" "la \<notin> A \<Longrightarrow> pte_of s1 d la = pte_of s d la"
    using assms(1,4) d unfolding cow_shared_def by metis+
  have 2: "la \<notin> B \<Longrightarrow> pte_of s2 d la = pte_of s1 d la"
    using assms(2) d unfolding cow_shared_def by metis
  show "pte_of s2 d la =
     (if la \<in> A \<union> B \<and> valid (pte_of s from la)
      then (if d = from then read_only (pte_of s from la)
            else if d = to then cow_entry (pte_of s from la) else pte_of s d la)
      else pte_of s d la)"
  proof (cases "la \<in> B")
    case True
    then have "la \<notin> A" using assms(3) by blast
    then show ?thesis using True assms(2) d f unfolding cow_shared_def by simp
  next
    case False
    then show ?thesis using 2 assms(1) d unfolding cow_shared_def by simp
  qed
qed

lemma cow_shared_cong:
  "cow_shared s s' D to from A \<Longrightarrow>
     (\<And>la. la < USERTOP \<Longrightarrow> valid (pte_of s from la) \<Longrightarrow> la \<in> A \<longleftrightarrow> la \<in> B) \<Longrightarrow> cow_shared s s' D to from B"
  unfolding cow_shared_def by metis

lemma cow_one_page:
  assumes ok: "pt_ok s D F" and D: "from \<in> D" "to \<in> D" "to \<noteq> from"
    and st: "start < USERTOP" "start mod PGSIZE = 0"
    and g: "table_at s (Tab from (PDX1 start) (PDX0 start)) = Some g"
    and v: "valid (pte_of s from start)" and fresh: "\<not> valid (pte_of s to start)" and F: "2 \<le> card F"
  obtains s' F' where "cow_one to from start s = Some (s', start + PGSIZE)" "pt_ok s' D F'" "F' \<subseteq> F"
    "card F \<le> card F' + 2" "cow_shared s s' D to from {start..<start + PGSIZE}"
proof -
  have t: "tree_ok s D F" using ok by (simp add: pt_ok_def)
  let ?x = "(g, PTX start)" let ?e = "pte_of s from start"
  have at: "entry_at ?x s = ?e" by (rule entry_at_leaf [OF g])
  obtain p where p: "entry_ppn ?e = page2ppn p" "p < 32768" "p \<notin> F" "\<not> is_table s D (page2ppn p)" "clean p s"
    using leafE [OF ok D(1) st(1) v] .
  let ?s1 = "set_entry ?x (read_only ?e) s"
  have R: "pt_ok ?s1 D F \<and> remapped s ?s1 D from start (read_only ?e)"
    by (rule remap [OF ok D(1) st(1) g]) (use ok p v in \<open>auto simp: pt_ok_def pages_ok_def\<close>)
  have e1: "entry_at ?x ?s1 = read_only ?e" by (simp add: entry_at_def set_entry_def)
  have pp: "pte2page (read_only ?e) = Some p" by (rule pte2page_leaf) (use v p in simp_all)
  have p1: "\<not> is_table ?s1 D (page2ppn p)" "clean p ?s1"
    using p(4,5) R by (simp_all add: is_table_def remapped_def)
  have fresh1: "\<not> valid (pte_of ?s1 to start)" using R D st fresh by (simp add: remapped_def)
  let ?perm = "read_only ?e AND PTE_USER AND NOT PTE_W"
  have perm: "perm_ok ?perm" by (intro perm_ok_and(1) perm_ok_and(2)) simp
  obtain s' F' where s': "page_insert to p start ?perm ?s1 = Some (s', 0)" "pt_ok s' D F'" "F' \<subseteq> F" "card F \<le> card F' + 2"
    "\<forall>d'\<in>D. \<forall>la'<USERTOP. pte_of s' d' la' =
      (if d' = to \<and> la' div PGSIZE = start div PGSIZE then pte_create (page2ppn p) (PTE_V OR ?perm)
       else pte_of ?s1 d' la')"
    using page_insert_ok [OF R [THEN conjunct1] D(2) st(1) F p(2,3) p1 perm disjI1 [OF fresh1]] .
  have run: "cow_one to from start s = Some (s', start + PGSIZE)"
    using get_pte_False [OF t D(1) st(1)] g v at e1 pp s'(1) st(1)
    by (simp add: cow_one_def Let_def read_only_def)
  have pg: "la div PGSIZE = start div PGSIZE \<longleftrightarrow> la \<in> {start..<start + PGSIZE}" for la
    by (rule page_range [OF st(2)])
  have "cow_shared s s' D to from {start..<start + PGSIZE}"
    unfolding cow_shared_def pg [symmetric]
  proof (intro ballI allI impI)
    fix d la assume d: "d \<in> D" "la < USERTOP"
    have e: "pte_of s from la = ?e" if "la div PGSIZE = start div PGSIZE" by (rule pte_of_page [OF that])
    have 1: "pte_of ?s1 d la = (if d = from \<and> la div PGSIZE = start div PGSIZE then read_only ?e else pte_of s d la)"
      using R d by (simp add: remapped_def)
    show "pte_of s' d la =
      (if la div PGSIZE = start div PGSIZE \<and> valid (pte_of s from la)
       then (if d = from then read_only (pte_of s from la)
             else if d = to then cow_entry (pte_of s from la) else pte_of s d la)
       else pte_of s d la)"
    proof (cases "la div PGSIZE = start div PGSIZE")
      case True
      then show ?thesis using s'(5) d 1 e v D(3) p(1) by (cases "d = from") (simp_all add: cow_entry_def)
    next
      case False
      then show ?thesis using s'(5) d 1 by simp
    qed
  qed
  with run s' that show ?thesis by blast
qed

lemma cow_one_ok:
  assumes ok: "pt_ok s D F" and D: "from \<in> D" "to \<in> D" "to \<noteq> from"
    and st: "start < USERTOP" "start mod PGSIZE = 0"
    and fresh: "\<not> valid (pte_of s to start)" and F: "2 \<le> card F"
  obtains s' n F' where "cow_one to from start s = Some (s', n)" "pt_ok s' D F'" "F' \<subseteq> F" "card F \<le> card F' + 2"
    "cow_shared s s' D to from {start..<n}" "start < n" "n mod PGSIZE = 0"
    "n = start + PGSIZE \<or> (\<forall>la. start \<le> la \<and> la < n \<longrightarrow> \<not> valid (pte_of s from la))"
proof -
  note result = that
  have t: "tree_ok s D F" using ok by (simp add: pt_ok_def)
  note get = get_pte_False [OF t D(1) st(1)]
  have same: "cow_shared s s D to from A" if "\<forall>la\<in>A. \<not> valid (pte_of s from la)" for A
    using that by (auto simp: cow_shared_def)
  have quiet: ?thesis
    if "cow_one to from start s = Some (s, n)" "\<forall>la\<in>{start..<n}. \<not> valid (pte_of s from la)" "start < n" "n mod PGSIZE = 0" for n
    by (rule result [OF that(1) ok _ _ same [OF that(2)] that(3,4)]) (use that(2) in auto)
  show ?thesis
  proof (cases "table_at s (Tab from (PDX1 start) (PDX0 start))")
    case None
    have "cow_one to from start s = Some (s, next_start None start)" using get None by (simp add: cow_one_def)
    moreover have "\<forall>la\<in>{start..<next_start None start}. \<not> valid (pte_of s from la)"
      using no_table_no_pte [OF None st(1)] by simp
    ultimately show ?thesis by (rule quiet [OF _ _ next_start_bounds [OF st]])
  next
    case (Some g)
    show ?thesis
    proof (cases "valid (pte_of s from start)")
      case True
      obtain s' F' where one: "cow_one to from start s = Some (s', start + PGSIZE)" "pt_ok s' D F'" "F' \<subseteq> F"
        "card F \<le> card F' + 2" "cow_shared s s' D to from {start..<start + PGSIZE}"
        using cow_one_page [OF ok D st Some True fresh F] .
      have "start < start + PGSIZE" "(start + PGSIZE) mod PGSIZE = 0"
        using st(2) by (simp_all add: PGSIZE_def)
      from result [OF one this disjI1 [OF refl]] show ?thesis .
    next
      case False
      have "cow_one to from start s = Some (s, start + PGSIZE)"
        using get Some False st(1) entry_at_leaf [OF Some] by (simp add: cow_one_def)
      moreover have "\<forall>la\<in>{start..<start + PGSIZE}. \<not> valid (pte_of s from la)"
      proof
        fix la assume "la \<in> {start..<start + PGSIZE}"
        then have "pte_of s from la = pte_of s from start" using page_range [OF st(2), of la] pte_of_page by blast
        then show "\<not> valid (pte_of s from la)" using False by simp
      qed
      moreover have "start < start + PGSIZE" "(start + PGSIZE) mod PGSIZE = 0"
        using st(2) by (simp_all add: PGSIZE_def)
      ultimately show ?thesis by (rule quiet)
    qed
  qed
qed

lemma cow_copy_loop_ok:
  assumes "pt_ok s D F" and "from \<in> D" "to \<in> D" "to \<noteq> from" and "start mod PGSIZE = 0" and "end mod PGSIZE = 0"
    and "start < end" and "end \<le> USERTOP"
    and "\<forall>la. start \<le> la \<and> la < end \<longrightarrow> \<not> valid (pte_of s to la)"
    and "(end - start) div PGSIZE * 2 \<le> card F"
  shows "\<exists>s' F'. cow_copy_loop to from start end s = Some (s', 0) \<and> pt_ok s' D F' \<and> F' \<subseteq> F \<and>
    cow_shared s s' D to from {start..<end}"
  using assms(1,5,7,9,10)
proof (induction "end - start" arbitrary: s F start rule: less_induct)
  case less
  have st: "start < USERTOP" using less.prems(3) assms(8) by simp
  have step: "start + PGSIZE \<le> end"
  proof -
    obtain a b where "start = PGSIZE * a" "end = PGSIZE * b"
      using less.prems(2) assms(6) by (metis mod_0_imp_dvd dvdE)
    then show ?thesis using less.prems(3) by (auto simp: PGSIZE_def)
  qed
  have "1 \<le> (end - start) div PGSIZE" using step by (simp add: PGSIZE_def div_greater_zero_iff)
  then have F: "2 \<le> card F" using less.prems(5) by linarith
  have fr: "\<not> valid (pte_of s to start)" using less.prems(3,4) by blast
  obtain s1 n F1 where 1: "cow_one to from start s = Some (s1, n)" "pt_ok s1 D F1" "F1 \<subseteq> F" "card F \<le> card F1 + 2"
    "cow_shared s s1 D to from {start..<n}" "start < n" "n mod PGSIZE = 0"
    "n = start + PGSIZE \<or> (\<forall>la. start \<le> la \<and> la < n \<longrightarrow> \<not> valid (pte_of s from la))"
    using cow_one_ok [OF less.prems(1) assms(2,3,4) st less.prems(2) fr F] .
  show ?case
  proof (cases "n < end")
    case True
    have n: "start + PGSIZE \<le> n"
    proof -
      obtain a b where "start = PGSIZE * a" "n = PGSIZE * b" using less.prems(2) 1(7) by (metis mod_0_imp_dvd dvdE)
      then show ?thesis using 1(6) by (auto simp: PGSIZE_def)
    qed
    have fresh: "\<forall>la. n \<le> la \<and> la < end \<longrightarrow> \<not> valid (pte_of s1 to la)"
    proof (intro allI impI)
      fix la assume la: "n \<le> la \<and> la < end"
      then have "pte_of s1 to la = pte_of s to la" using 1(5) assms(3,8) by (simp add: cow_shared_def)
      then show "\<not> valid (pte_of s1 to la)" using less.prems(4) la 1(6) by simp
    qed
    have "(end - n) div PGSIZE + 1 \<le> (end - start) div PGSIZE"
    proof -
      have "(end - n + PGSIZE) div PGSIZE \<le> (end - start) div PGSIZE"
        by (rule div_le_mono) (use n True in linarith)
      moreover have "(end - n + PGSIZE) div PGSIZE = (end - n) div PGSIZE + 1" by (simp add: PGSIZE_def)
      ultimately show ?thesis by simp
    qed
    then have cap: "(end - n) div PGSIZE * 2 \<le> card F1" using less.prems(5) 1(4) by linarith
    have "end - n < end - start" using 1(6) less.prems(3) by simp
    from less.hyps [OF this 1(2,7) True fresh cap]
    obtain s2 F2 where 2: "cow_copy_loop to from n end s1 = Some (s2, 0)" "pt_ok s2 D F2" "F2 \<subseteq> F1"
      "cow_shared s1 s2 D to from {n..<end}" by blast
    have "cow_copy_loop to from start end s = Some (s2, 0)"
      using 1(1,6) 2(1) True by (subst cow_copy_loop.simps) simp
    moreover have "{start..<n} \<union> {n..<end} = {start..<end}" "{start..<n} \<inter> {n..<end} = {}" using 1(6) True by auto
    moreover have "F2 \<subseteq> F" using 1(3) 2(3) by blast
    ultimately show ?thesis using cow_shared_trans [OF 1(5) 2(4) _ assms(2)] 2(2) by metis
  next
    case False
    have run: "cow_copy_loop to from start end s = Some (s1, 0)"
      using 1(1) False by (subst cow_copy_loop.simps) simp
    have "cow_shared s s1 D to from {start..<end}"
      using cow_shared_cong [OF 1(5), of "{start..<end}"] 1(5,8) False step by fastforce
    then show ?thesis using run 1(2,3) by blast
  qed
qed

section \<open>The fault handler\<close>

lemma get_pte_present:
  assumes t: "tree_ok s D F" and d: "d \<in> D" "la < USERTOP"
    and g: "table_at s (Tab d (PDX1 la) (PDX0 la)) = Some g"
  shows "get_pte d la create s = Some (s, Some (g, PTX la))"
proof -
  obtain f where f: "below s d (PDX1 la) = Some f" "below s f (PDX0 la) = Some g"
    using g by (auto split: option.splits)
  have k: "Dir d (PDX1 la) \<in> user_keys D" "table_at s (Dir d (PDX1 la)) = Some f"
    "Tab d (PDX1 la) (PDX0 la) \<in> user_keys D" using d f by simp_all
  have "f < 557056" "g < 557056"
    using table_not_free [OF t table_at_is_table [OF k(1,2)]] table_not_free [OF t table_at_is_table [OF k(3) g]]
    by (simp_all add: in_mem_def)
  then show ?thesis using f by (simp add: get_pte_def get_table_present)
qed

text \<open>Only the frames of tables matter for the walk.\<close>

lemma same_tables:
  assumes "\<And>h. is_table s D h \<Longrightarrow> frames s' h = frames s h"
  shows "k \<in> user_keys D \<Longrightarrow> table_at s' k = table_at s k"
    and "is_table s' D h = is_table s D h"
    and "tree_ok s' D F = tree_ok s D F"
    and "d \<in> D \<Longrightarrow> la < USERTOP \<Longrightarrow> pte_of s' d la = pte_of s d la"
proof -
  have b: "below s' d i = below s d i" if "d \<in> D" for d i
    using assms [of d] that table_at_is_table [of "Root d" D s d] by (simp add: below_def)
  have b2: "below s' f j = below s f j" if "d \<in> D" "i < 2" "below s d i = Some f" for d i f j
    using assms [of f] that table_at_is_table [of "Dir d i" D s f] by (simp add: below_def)
  show at: "table_at s' k = table_at s k" if "k \<in> user_keys D" for k
    using that b b2 by (cases k) (auto split: option.split)
  show "is_table s' D h = is_table s D h" for h using at by (auto simp: is_table_def)
  show "tree_ok s' D F = tree_ok s D F" using at unfolding tree_ok_def by auto
  show "pte_of s' d la = pte_of s d la" if d: "d \<in> D" "la < USERTOP"
  proof -
    let ?t = "Tab d (PDX1 la) (PDX0 la)"
    have key: "?t \<in> user_keys D" using d by simp
    have "frames s' g = frames s g" if "table_at s ?t = Some g" for g
      by (rule assms [OF table_at_is_table [OF key that]])
    then show ?thesis using at [OF key] by (simp add: pte_of_def del: table_at.simps split: option.split)
  qed
qed

lemma page2kva_ok: "p < 32768 \<Longrightarrow> page2kva p = Some (page2ppn p)"
  using page_ppn_small [of p] by (simp add: page2kva_def KADDR_def PPN_page2pa)

section \<open>Properties\<close>

text \<open>C23. Sharing a range copy on write: afterwards both address spaces map the same pages, neither
  with write permission, every other mapping is unchanged, and the reference counts are
  again the numbers of mappings.  There must be memory for the page tables.\<close>

theorem cow_copy_range_shares:
  assumes "pt_ok s D F" and "from \<in> D" "to \<in> D" "to \<noteq> from"
    and "start mod PGSIZE = 0" "end mod PGSIZE = 0" "USER_ACCESS start end"
    and "\<forall>la. start \<le> la \<and> la < end \<longrightarrow> \<not> valid (pte_of s to la)"
    and "(end - start) div PGSIZE * 2 \<le> card F"
  shows "\<exists>s' F'. cow_copy_range to from start end s = Some (s', 0) \<and> pt_ok s' D F' \<and> F' \<subseteq> F \<and>
    (\<forall>d\<in>D. \<forall>la<USERTOP. pte_of s' d la =
       (if start \<le> la \<and> la < end \<and> valid (pte_of s from la)
        then (if d = from then read_only (pte_of s from la)
              else if d = to then cow_entry (pte_of s from la) else pte_of s d la)
        else pte_of s d la))"
proof -
  have "start < end" "end \<le> USERTOP" using assms(7) by (simp_all add: USER_ACCESS_def)
  from cow_copy_loop_ok [OF assms(1-6) this assms(8,9)] obtain s' F' where
    1: "cow_copy_loop to from start end s = Some (s', 0)" "pt_ok s' D F'" "F' \<subseteq> F"
      "cow_shared s s' D to from {start..<end}" by blast
  have "cow_copy_range to from start end s = Some (s', 0)"
    using assms(5-7) 1(1) by (simp add: cow_copy_range_def)
  then show ?thesis
    using 1(2-4) unfolding cow_shared_def atLeastLessThan_iff conj_assoc by blast
qed

text \<open>C24. The copy-on-write fault handler gives the address a page of its own with the same content
  and write permission, but it clears the old entry without giving up its reference: the
  reference count of the shared page stays one above the number of its mappings, so that
  the page is never freed.\<close>

theorem cow_pgfault_leaks:
  assumes "pt_ok s D F" and "d \<in> D" and "addr < USERTOP" and "valid (pte_of s d addr)" and "F \<noteq> {}"
    and "entry_ppn (pte_of s d addr) = page2ppn p"
  shows "\<exists>s' q. cow_pgfault d addr s = Some (s', 0) \<and> q \<in> F \<and>
    pte_of s' d addr = pte_create (page2ppn q) (PTE_V OR ((pte_of s d addr AND PTE_USER) OR PTE_W)) \<and>
    frames s' (page2ppn q) = frames s (page2ppn p) \<and>
    page_ref p s' = int (card (mappers s' D p)) + 1"
proof -
  have t: "tree_ok s D F" and ff: "ff_inv NPAGES (pm s) F" and fD: "finite D" using assms(1) by (simp_all add: pt_ok_def)
  let ?e = "pte_of s d addr" let ?t = "Tab d (PDX1 addr) (PDX0 addr)"
  obtain g where g: "table_at s ?t = Some g"
    using assms(4) by (auto simp: pte_of_def simp del: table_at.simps split: option.splits)
  obtain p' where "entry_ppn ?e = page2ppn p'" "p' < 32768" "p' \<notin> F" "\<not> is_table s D (page2ppn p')"
    "page_ref p' s = int (card (mappers s D p'))" "(d, addr div PGSIZE) \<in> mappers s D p'" "pte2page ?e = Some p'"
    using leafE [OF assms(1-4)] by blast
  then have p: "p < 32768" "p \<notin> F" "\<not> is_table s D (page2ppn p)" "page_ref p s = int (card (mappers s D p))"
    "(d, addr div PGSIZE) \<in> mappers s D p" "pte2page ?e = Some p" using assms(6) by simp_all
  from ff show ?thesis
  proof (cases rule: alloc_page_cases)
    case none
    then show ?thesis using assms(5) by simp
  next
    case (some b q)
    have nq: "\<not> is_table s D (page2ppn q)" by (rule free_not_table [OF t some(2)])
    have pq: "q \<noteq> p" using some(2) p(2) by auto
    let ?x = "(g, PTX addr)" let ?start = "ROUNDDOWN addr PGSIZE" let ?perm = "(?e AND PTE_USER) OR PTE_W"
    let ?v = "pte_create (page2ppn q) (PTE_V OR ?perm)"
    define s1 where "s1 = copy_frame (page2ppn q) (page2ppn p) (s\<lparr>pm := b\<rparr>)"
    define s2 where "s2 = set_entry ?x 0 s1"
    define s3 where "s3 = set_entry ?x ?v (page_ref_inc q s2)"
    have f1: "frames s1 h = frames s h" if "is_table s D h" for h
      using that nq by (auto simp: s1_def copy_frame_def)
    have "tree_ok s1 D F = tree_ok s D F" by (rule same_tables(3)) (rule f1)
    then have t1: "tree_ok s1 D F" using t by simp
    have key: "?t \<in> user_keys D" using assms(2,3) by simp
    have g1: "table_at s1 ?t = Some g" using same_tables(1) [OF f1 key] g by (simp del: table_at.simps)
    have pte1: "pte_of s1 d' la' = pte_of s d' la'" if "d' \<in> D" "la' < USERTOP" for d' la'
      by (rule same_tables(4) [OF f1 that])
    have fr2: "frames s2 = frames (set_entry ?x 0 s1)" by (simp add: s2_def)
    note S2 = set_leaf [OF t1 assms(2,3) g1 fr2]
    have g2: "table_at s2 ?t = Some g" using S2(1) [where k = ?t] g1 assms(2,3) by (simp del: table_at.simps)
    have fr3: "frames s3 = frames (set_entry ?x ?v s1)" by (simp add: s3_def s2_def page_ref_inc_def)
    note S3 = set_leaf [OF t1 assms(2,3) g1 fr3]
    have vp: "?start div PGSIZE = addr div PGSIZE"
      by (simp add: ROUNDDOWN_def minus_mod_eq_div_mult vpn_of_page)
    then have ix: "PDX1 ?start = PDX1 addr" "PDX0 ?start = PDX0 addr" "PTX ?start = PTX addr"
      by (simp_all add: index_of_vpn)
    have sb: "?start < USERTOP" using assms(3) by (simp add: ROUNDDOWN_def)
    have get2: "get_pte d ?start True s2 = Some (s2, Some ?x)"
      using get_pte_present [OF S2(3) assms(2) sb, of g True] g2 ix by simp
    have e2: "entry_at ?x s2 = 0" by (simp add: entry_at_def s2_def)
    have e2': "entry_at ?x (page_ref_inc q s2) = 0" using e2 by (simp add: entry_at_def page_ref_inc_def)
    have ins: "page_insert d q ?start ?perm s2 = Some (s3, 0)"
      using get2 e2' by (simp add: page_insert_def s3_def Let_def)
    have g3: "table_at s3 ?t = Some g" using S3(1) [where k = ?t] g1 assms(2,3) by (simp del: table_at.simps)
    have get3: "get_pte d addr False s3 = Some (s3, Some ?x)"
      by (rule get_pte_present [OF S3(3) assms(2,3) g3])
    have run: "cow_pgfault d addr s = Some (s3, 0)"
      using get_pte_present [OF t assms(2,3) g] entry_at_leaf [OF g] p(6) some(1) page2kva_ok [OF p(1)]
        page2kva_ok [OF some(3)] ins get3
      by (simp add: cow_pgfault_def Let_def s1_def s2_def)
    have pte: "pte_of s3 d' la' = (if d' = d \<and> la' div PGSIZE = addr div PGSIZE then ?v else pte_of s d' la')"
      if "d' \<in> D" "la' < USERTOP" for d' la'
      using S3(4) [OF that] pte1 [OF that] by simp
    have perm: "perm_ok ?perm" by (intro perm_ok_or perm_ok_and(1)) (simp_all add: perm_ok_def PTE_W_def PTE_USER_def PTE_R_def PTE_X_def PTE_U_def PTE_V_def)
    have ev: "entry_ppn ?v = page2ppn q" by (rule entry_ppn_page [OF some(3) perm])
    have m: "mappers s3 D p = mappers s D p - {(d, addr div PGSIZE)}"
      using mappers_update [OF assms(2,3) pte, of p] ev pq by simp
    have "card (mappers s D p) = card (mappers s3 D p) + 1"
      using m p(5) finite_mappers [OF fD, of s p] by (metis Suc_eq_plus1 card_Suc_Diff1)
    moreover have "page_ref p s3 = page_ref p s"
      using pq some(5) by (simp add: s3_def s2_def s1_def page_ref_inc_def copy_frame_def page_ref_def [of p "s\<lparr>pm := b, frames := _\<rparr>"]) (simp add: page_ref_def)
    moreover have "frames s3 (page2ppn q) = frames s (page2ppn p)"
    proof -
      have "page2ppn q \<noteq> g" using nq table_at_is_table [OF _ g, of D] assms(2,3) by auto
      then show ?thesis by (simp add: fr3 s1_def copy_frame_def)
    qed
    ultimately show ?thesis
      using run some(2) pte [OF assms(2,3)] p(4) by (intro exI [of _ s3] exI [of _ q]) simp
  qed
qed

subsection \<open>The properties at work\<close>

text \<open>A page directory whose user half is empty can join the address spaces.\<close>

lemma pt_ok_new_dir:
  assumes ok: "pt_ok s D F" and p: "p < 32768" "p \<notin> F" "\<not> is_table s D (page2ppn p)" "page_ref p s = 0"
    and e: "\<forall>i<2. \<not> valid (frames s (page2ppn p) i)"
  shows "pt_ok s (insert (page2ppn p) D) F"
    and "\<forall>la<USERTOP. pte_of s (page2ppn p) la = 0"
proof -
  let ?d = "page2ppn p" let ?D = "insert ?d D"
  have t: "tree_ok s D F" and pg: "pages_ok s D F" and fD: "finite D" using ok by (simp_all add: pt_ok_def)
  have b: "below s ?d i = None" if "i < 2" for i using e that by (simp add: below_def)
  have at: "table_at s k = Some f \<longleftrightarrow> (k = Root ?d \<and> f = ?d) \<or> (k \<in> user_keys D \<and> table_at s k = Some f)"
    if "k \<in> user_keys ?D" for k f
    using that b p(3) by (cases k) (auto simp: is_table_def)
  have tab: "is_table s ?D f \<longleftrightarrow> f = ?d \<or> is_table s D f" for f
  proof -
    have "user_keys D \<subseteq> user_keys ?D" by (auto simp: user_keys_def)
    then show ?thesis unfolding is_table_def using at by (metis insertI1 subsetD table_at.simps(1) user_key_simps(1))
  qed
  have tree: "tree_ok s ?D F"
    unfolding tree_ok_def
  proof (intro conjI ballI allI impI)
    fix k f assume k: "k \<in> user_keys ?D" "table_at s k = Some f"
    then have "f = ?d \<or> is_table s D f" using at [OF k(1)] by (auto simp: is_table_def)
    then show "in_mem f" "f - nbase \<notin> F" using table_not_free [OF t, of f] p(1,2) by auto
  next
    fix k k' f assume k: "k \<in> user_keys ?D" "k' \<in> user_keys ?D" "table_at s k = Some f \<and> table_at s k' = Some f"
    show "k = k'"
      using k at [OF k(1), of f] at [OF k(2), of f] tree_inj [OF t, of k k' f] p(3) table_at_is_table
      by metis
  qed
  show pte: "\<forall>la<USERTOP. pte_of s ?d la = 0" using b by (auto simp: pte_of_def)
  have m: "mappers s ?D q = mappers s D q" for q
    using pte page_addr by (auto simp: mappers_def)
  have dis: "?d \<notin> D" using p(3) table_at_is_table [of "Root ?d" D s ?d] by auto
  have no_leaf: "entry_ppn (pte_of s d la) \<noteq> ?d" if "d \<in> D" "la < USERTOP" "valid (pte_of s d la)" for d la
  proof
    assume a: "entry_ppn (pte_of s d la) = ?d"
    have "page_ref p s = int (card (mappers s D p))" using pg p by (simp add: pages_ok_def)
    moreover have "(d, la div PGSIZE) \<in> mappers s D p" using mapper_iff [OF that(1,2)] that(3) a by simp
    ultimately show False using p(4) finite_mappers [OF fD, of s p] by auto
  qed
  have "pages_ok s ?D F"
    unfolding pages_ok_def
  proof (intro conjI ballI allI impI)
    fix d la assume d: "d \<in> ?D" "la < USERTOP" "valid (pte_of s d la)"
    then have "d \<in> D" using pte by auto
    then show "leaf_ok s ?D F (entry_ppn (pte_of s d la))"
      using pg d(2,3) no_leaf tab by (auto simp: pages_ok_def leaf_ok_def)
  next
    fix q assume "q < NPAGES" "\<not> is_table s ?D (page2ppn q)"
    then show "page_ref q s = int (card (mappers s ?D q))" using pg tab m by (simp add: pages_ok_def)
  next
    fix q assume "q \<in> F"
    then show "\<not> PageReserved (fa_pages (pm s) q)" using pg by (simp add: pages_ok_def)
  qed
  then show "pt_ok s ?D F" using ok tree by (simp add: pt_ok_def)
qed

lemma sample_two_dirs:
  "pt_ok pt_sample {page2ppn 14, sample_dir} {20..<30}"
  "\<forall>la<USERTOP. pte_of pt_sample (page2ppn 14) la = 0"
proof -
  have "page_ref 14 pt_sample = 0" by (simp add: page_ref_def pt_sample_def pt_area_def)
  moreover have "\<forall>i<2. \<not> valid (frames pt_sample (page2ppn 14) i)" by (simp add: sample_frames)
  ultimately show "pt_ok pt_sample {page2ppn 14, sample_dir} {20..<30}"
    "\<forall>la<USERTOP. pte_of pt_sample (page2ppn 14) la = 0"
    using pt_ok_new_dir [OF sample_ok, of 14] sample_not_table [of 14] by simp_all
qed

lemma sample_shared_page:
  "0x400000 < USERTOP" "valid (pte_of pt_sample sample_dir 0x400000)"
  "entry_ppn (pte_of pt_sample sample_dir 0x400000) = page2ppn 5"
proof -
  have u: "0x400000 < USERTOP" "(0x400000 :: nat) div PGSIZE = 1024" by (simp_all add: USERTOP_def PGSIZE_def)
  then show "0x400000 < USERTOP" by simp
  have "entry_ppn (pte_create (page2ppn 5) (PTE_V OR PTE_USER)) = page2ppn 5" by (rule entry_ppn_page) simp_all
  then show "valid (pte_of pt_sample sample_dir 0x400000)"
    "entry_ppn (pte_of pt_sample sample_dir 0x400000) = page2ppn 5" using u by (simp_all add: sample_pte)
qed

lemma cow_copy_range_shares_witness:
  "\<exists>s'. cow_copy_range (page2ppn 14) sample_dir 0x400000 0x401000 pt_sample = Some (s', 0) \<and>
     entry_ppn (pte_of s' sample_dir 0x400000) = page2ppn 5 \<and>
     pte_of s' sample_dir 0x400000 AND PTE_W = 0 \<and> valid (pte_of s' (page2ppn 14) 0x400000)"
proof -
  have u: "USER_ACCESS 0x400000 0x401000" "(0x400000 :: nat) mod PGSIZE = 0" "(0x401000 :: nat) mod PGSIZE = 0"
    "((0x401000 :: nat) - 0x400000) div PGSIZE * 2 \<le> card {20..<30 :: nat}"
    by (simp_all add: USERTOP_def USER_ACCESS_def USERBASE_def PGSIZE_def)
  have fresh: "\<forall>la. 0x400000 \<le> la \<and> la < 0x401000 \<longrightarrow> \<not> valid (pte_of pt_sample (page2ppn 14) la)"
    using sample_two_dirs(2) by (simp add: USERTOP_def)
  have "sample_dir \<noteq> page2ppn 14" by simp
  with cow_copy_range_shares [OF sample_two_dirs(1) _ _ _ u(2,3,1) fresh u(4), of sample_dir]
  show ?thesis
    using sample_shared_page not_writable_read_only by (fastforce simp: cow_entry_def)
qed

lemma cow_pgfault_leaks_witness:
  "\<exists>s'. cow_pgfault sample_dir 0x400000 pt_sample = Some (s', 0) \<and>
     page_ref 5 s' = int (card (mappers s' {sample_dir} 5)) + 1"
  using cow_pgfault_leaks [OF sample_ok _ sample_shared_page(1,2) _ sample_shared_page(3)] by auto

end
