(* ===== verification/Vmm.thy ===== *)
theory Vmm
  imports Cow
begin

unbundle bit_operations_syntax

text \<open>
  Address spaces: \<open>kern/mm/vmm.c\<close> and the rest of \<open>kern/mm/cow.c\<close>.  A \<open>struct mm_struct *\<close>
  and a \<open>struct vma_struct *\<close> are numbers; the areas of an address space form a ring with
  the head \<open>Mmap m\<close>.  What \<open>kmalloc\<close> returns is an argument, and \<open>kfree\<close> adds to the log
  \<open>kfreed\<close>.  \<open>vm_ok m vs s\<close> says that \<open>vs\<close> are the areas of \<open>m\<close> in address order, disjoint
  and not empty; the lemmas compare every operation with this list.
\<close>

section \<open>State\<close>

record vma_struct =
  vm_mm :: nat
  vm_start :: nat
  vm_end :: nat
  vm_flags :: "32 word"

record mm_struct =
  mmap_cache :: "nat option"
  pgdir_of :: "nat option"
  map_count :: int
  mm_count :: int

datatype vnode = Mmap nat | VmaLink nat

record vmm =
  vm_links :: "vnode links"
  vmas :: "nat \<Rightarrow> vma_struct"
  mms :: "nat \<Rightarrow> mm_struct"
  kfreed :: "vnode list"
  mach :: machine

definition VM_READ :: "32 word" where "VM_READ = 0x1"
definition VM_WRITE :: "32 word" where "VM_WRITE = 0x2"
definition VM_STACK :: "32 word" where "VM_STACK = 0x8"

definition upd_mm :: "nat \<Rightarrow> (mm_struct \<Rightarrow> mm_struct) \<Rightarrow> vmm \<Rightarrow> vmm" where
  "upd_mm m f s = s\<lparr>mms := (mms s)(m := f (mms s m))\<rparr>"

definition upd_vma :: "nat \<Rightarrow> (vma_struct \<Rightarrow> vma_struct) \<Rightarrow> vmm \<Rightarrow> vmm" where
  "upd_vma v f s = s\<lparr>vmas := (vmas s)(v := f (vmas s v))\<rparr>"

abbreviation start_of :: "vmm \<Rightarrow> nat \<Rightarrow> nat" where "start_of s v \<equiv> vm_start (vmas s v)"
abbreviation end_of :: "vmm \<Rightarrow> nat \<Rightarrow> nat" where "end_of s v \<equiv> vm_end (vmas s v)"

section \<open>The operations\<close>

definition mm_create :: "nat option \<Rightarrow> vmm \<Rightarrow> vmm \<times> nat option" where
  "mm_create new s =
    (case new of
       None \<Rightarrow> (s, None)
     | Some m \<Rightarrow>
         (upd_mm m (\<lambda>_. \<lparr>mmap_cache = None, pgdir_of = None, map_count = 0, mm_count = 0\<rparr>)
            (s\<lparr>vm_links := list_init (Mmap m) (vm_links s)\<rparr>), Some m))"

definition vma_create :: "nat option \<Rightarrow> nat \<Rightarrow> nat \<Rightarrow> 32 word \<Rightarrow> vmm \<Rightarrow> vmm \<times> nat option" where
  "vma_create new start end flags s =
    (case new of
       None \<Rightarrow> (s, None)
     | Some v \<Rightarrow> (upd_vma v (\<lambda>x. x\<lparr>vm_start := start, vm_end := end, vm_flags := flags\<rparr>) s, Some v))"

definition in_vma :: "vmm \<Rightarrow> nat \<Rightarrow> nat \<Rightarrow> bool" where
  "in_vma s v addr \<longleftrightarrow> start_of s v \<le> addr \<and> addr < end_of s v"

partial_function (option) find_vma_loop :: "nat \<Rightarrow> vnode \<Rightarrow> vmm \<Rightarrow> nat option option" where
  "find_vma_loop addr le s =
    (case list_next le (vm_links s) of
       Mmap _ \<Rightarrow> Some None
     | VmaLink v \<Rightarrow> if in_vma s v addr then Some (Some v) else find_vma_loop addr (VmaLink v) s)"

definition find_vma :: "nat option \<Rightarrow> nat \<Rightarrow> vmm \<Rightarrow> (vmm \<times> nat option) option" where
  "find_vma mm addr s =
    (case mm of
       None \<Rightarrow> Some (s, None)
     | Some m \<Rightarrow> do {
         r \<leftarrow> (case mmap_cache (mms s m) of
                 Some v \<Rightarrow> if in_vma s v addr then Some (Some v) else find_vma_loop addr (Mmap m) s
               | None \<Rightarrow> find_vma_loop addr (Mmap m) s);
         Some (case r of
                 None \<Rightarrow> (s, None)
               | Some v \<Rightarrow> (upd_mm m (\<lambda>x. x\<lparr>mmap_cache := Some v\<rparr>) s, Some v)) })"

definition check_vma_overlap :: "nat \<Rightarrow> nat \<Rightarrow> vmm \<Rightarrow> unit option" where
  "check_vma_overlap prev nxt s = do {
     assert_k (start_of s prev < end_of s prev);
     assert_k (end_of s prev \<le> start_of s nxt);
     assert_k (start_of s nxt < end_of s nxt) }"

partial_function (option) insert_vma_loop :: "nat \<Rightarrow> vnode \<Rightarrow> vnode \<Rightarrow> vmm \<Rightarrow> vnode option" where
  "insert_vma_loop v le_prev le s =
    (case list_next le (vm_links s) of
       Mmap _ \<Rightarrow> Some le_prev
     | VmaLink u \<Rightarrow>
         if start_of s v < start_of s u then Some le_prev
         else insert_vma_loop v (VmaLink u) (VmaLink u) s)"

definition insert_vma_struct :: "nat \<Rightarrow> nat \<Rightarrow> vmm \<Rightarrow> vmm option" where
  "insert_vma_struct m v s = do {
     assert_k (start_of s v < end_of s v);
     le_prev \<leftarrow> insert_vma_loop v (Mmap m) (Mmap m) s;
     let le_next = list_next le_prev (vm_links s);
     (case le_prev of Mmap _ \<Rightarrow> Some () | VmaLink u \<Rightarrow> check_vma_overlap u v s);
     (case le_next of Mmap _ \<Rightarrow> Some () | VmaLink u \<Rightarrow> check_vma_overlap v u s);
     let s = upd_vma v (\<lambda>x. x\<lparr>vm_mm := m\<rparr>) s;
     let s = s\<lparr>vm_links := list_add_after le_prev (VmaLink v) (vm_links s)\<rparr>;
     Some (upd_mm m (\<lambda>x. x\<lparr>map_count := map_count x + 1\<rparr>) s) }"

definition kfree_log :: "vnode \<Rightarrow> vmm \<Rightarrow> vmm" where
  "kfree_log x s = s\<lparr>kfreed := kfreed s @ [x]\<rparr>"

partial_function (option) mm_destroy_loop :: "nat \<Rightarrow> vmm \<Rightarrow> vmm option" where
  "mm_destroy_loop m s =
    (let le = list_next (Mmap m) (vm_links s)
     in case le of
          Mmap _ \<Rightarrow> Some s
        | VmaLink v \<Rightarrow>
            mm_destroy_loop m (kfree_log (VmaLink v) (s\<lparr>vm_links := list_del le (vm_links s)\<rparr>)))"

definition mm_destroy :: "nat \<Rightarrow> vmm \<Rightarrow> vmm option" where
  "mm_destroy m s = do {
     assert_k (mm_count (mms s m) = 0);
     s \<leftarrow> mm_destroy_loop m s;
     Some (kfree_log (Mmap m) s) }"

definition ROUNDUP :: "nat \<Rightarrow> nat \<Rightarrow> nat" where
  "ROUNDUP a n = ROUNDDOWN (u64 (a + n - 1)) n"

text \<open>The result is the return value and what is stored through \<open>vma_store\<close>.\<close>

definition mm_map ::
    "nat \<Rightarrow> nat \<Rightarrow> nat \<Rightarrow> 32 word \<Rightarrow> nat option \<Rightarrow> vmm \<Rightarrow> (vmm \<times> int \<times> nat option) option" where
  "mm_map m addr len flags new s =
    (let start = ROUNDDOWN addr PGSIZE; end = ROUNDUP (u64 (addr + len)) PGSIZE
     in if \<not> USER_ACCESS start end then Some (s, - E_INVAL, None)
        else do {
          (s, r) \<leftarrow> find_vma (Some m) start s;
          if (case r of Some v \<Rightarrow> start_of s v < end | None \<Rightarrow> False) then Some (s, - E_INVAL, None)
          else (case vma_create new start end flags s of
                  (s, None) \<Rightarrow> Some (s, - E_NO_MEM, None)
                | (s, Some v) \<Rightarrow> do { s \<leftarrow> insert_vma_struct m v s; Some (s, 0, Some v) }) })"

text \<open>
  \<open>dup_mmap\<close> and \<open>cow_copy_mmap\<close> differ in the function that copies a range; \<open>new v\<close> is the
  result of the \<open>kmalloc\<close> for the copy of \<open>v\<close>.
\<close>

type_synonym range_copier = "nat \<Rightarrow> nat \<Rightarrow> nat \<Rightarrow> nat \<Rightarrow> machine \<Rightarrow> (machine \<times> int) option"

partial_function (option) dup_mmap_loop ::
    "range_copier \<Rightarrow> (nat \<Rightarrow> nat option) \<Rightarrow> nat \<Rightarrow> nat \<Rightarrow> vnode \<Rightarrow> vmm \<Rightarrow> (vmm \<times> int) option" where
  "dup_mmap_loop cp new to from le s =
    (case list_prev le (vm_links s) of
       Mmap _ \<Rightarrow> Some (s, 0)
     | VmaLink v \<Rightarrow>
         (case vma_create (new v) (start_of s v) (end_of s v) (vm_flags (vmas s v)) s of
            (s, None) \<Rightarrow> Some (s, - E_NO_MEM)
          | (s, Some nv) \<Rightarrow> do {
              s \<leftarrow> insert_vma_struct to nv s;
              d \<leftarrow> pgdir_of (mms s to);
              e \<leftarrow> pgdir_of (mms s from);
              (h, ret) \<leftarrow> cp d e (start_of s v) (end_of s v) (mach s);
              let s = s\<lparr>mach := h\<rparr>;
              if ret \<noteq> 0 then Some (s, - E_NO_MEM)
              else dup_mmap_loop cp new to from (VmaLink v) s }))"

definition dup_mmap :: "(nat \<Rightarrow> nat option) \<Rightarrow> nat \<Rightarrow> nat \<Rightarrow> vmm \<Rightarrow> (vmm \<times> int) option" where
  "dup_mmap new to from s =
    dup_mmap_loop (\<lambda>d e start end. copy_range d e start end True) new to from (Mmap from) s"

definition cow_copy_mmap :: "(nat \<Rightarrow> nat option) \<Rightarrow> nat \<Rightarrow> nat \<Rightarrow> vmm \<Rightarrow> (vmm \<times> int) option" where
  "cow_copy_mmap new to from s = dup_mmap_loop cow_copy_range new to from (Mmap from) s"

partial_function (option) exit_mmap_loop ::
    "(nat \<Rightarrow> nat \<Rightarrow> nat \<Rightarrow> machine \<Rightarrow> machine option) \<Rightarrow> nat \<Rightarrow> vnode \<Rightarrow> vmm \<Rightarrow> vmm option" where
  "exit_mmap_loop f pgdir le s =
    (case list_next le (vm_links s) of
       Mmap _ \<Rightarrow> Some s
     | VmaLink v \<Rightarrow> do {
         h \<leftarrow> f pgdir (start_of s v) (end_of s v) (mach s);
         exit_mmap_loop f pgdir (VmaLink v) (s\<lparr>mach := h\<rparr>) })"

definition exit_mmap :: "nat \<Rightarrow> vmm \<Rightarrow> vmm option" where
  "exit_mmap m s = do {
     assert_k (mm_count (mms s m) = 0);
     d \<leftarrow> pgdir_of (mms s m);
     s \<leftarrow> exit_mmap_loop unmap_range d (Mmap m) s;
     exit_mmap_loop exit_range d (Mmap m) s }"

text \<open>\<open>boot\<close> is the page number of \<open>boot_pgdir\<close>.\<close>

definition setup_pgdir :: "nat \<Rightarrow> nat \<Rightarrow> vmm \<Rightarrow> (vmm \<times> int) option" where
  "setup_pgdir boot m s = do {
     (h, r) \<leftarrow> alloc_page (mach s);
     (case r of
        None \<Rightarrow> Some (s\<lparr>mach := h\<rparr>, - E_NO_MEM)
      | Some p \<Rightarrow> do {
          d \<leftarrow> page2kva p;
          Some (upd_mm m (\<lambda>x. x\<lparr>pgdir_of := Some d\<rparr>) (s\<lparr>mach := copy_frame d boot h\<rparr>), 0) }) }"

definition put_pgdir :: "nat \<Rightarrow> vmm \<Rightarrow> vmm option" where
  "put_pgdir m s = do {
     d \<leftarrow> pgdir_of (mms s m);
     h \<leftarrow> free_page (d - nbase) (mach s);
     Some (s\<lparr>mach := h\<rparr>) }"

text \<open>
  \<open>cow_copy_mm\<close>: \<open>old\<close> is \<open>current->mm\<close>; the result carries the new \<open>mm\<close> of the process.
  \<open>lock_mm\<close> and \<open>unlock_mm\<close> are left out.
\<close>

definition cow_copy_mm ::
    "nat option \<Rightarrow> (nat \<Rightarrow> nat option) \<Rightarrow> nat \<Rightarrow> nat option \<Rightarrow> vmm \<Rightarrow> (vmm \<times> int \<times> nat option) option" where
  "cow_copy_mm new_mm new boot old s =
    (case old of
       None \<Rightarrow> Some (s, 0, None)
     | Some oldmm \<Rightarrow>
         (case mm_create new_mm s of
            (s, None) \<Rightarrow> Some (s, 0, None)
          | (s, Some m) \<Rightarrow> do {
              (s, ret) \<leftarrow> setup_pgdir boot m s;
              if ret \<noteq> 0 then do { s \<leftarrow> mm_destroy m s; Some (s, 0, None) }
              else do {
                (s, ret) \<leftarrow> cow_copy_mmap new m oldmm s;
                if ret \<noteq> 0 then do {
                  s \<leftarrow> exit_mmap m s;
                  s \<leftarrow> put_pgdir m s;
                  s \<leftarrow> mm_destroy m s;
                  Some (s, ret, None) }
                else Some (upd_mm m (\<lambda>x. x\<lparr>mm_count := mm_count x + 1\<rparr>) s, 0, Some m) } }))"

definition KERNBASE :: nat where "KERNBASE = 0xFFFFFFFFC0200000"
definition KERNTOP :: nat where "KERNTOP = KERNBASE + 0x7E00000"

definition va_pa_offset :: nat where "va_pa_offset = KERNBASE - 0x80200000"

text \<open>The kernel address of a page frame.\<close>

definition kva :: "nat \<Rightarrow> nat" where "kva d = d * PGSIZE + va_pa_offset"

definition KERN_ACCESS :: "nat \<Rightarrow> nat \<Rightarrow> bool" where
  "KERN_ACCESS start end \<longleftrightarrow> KERNBASE \<le> start \<and> start < end \<and> end \<le> KERNTOP"

partial_function (option) user_mem_loop ::
    "nat \<Rightarrow> nat \<Rightarrow> nat \<Rightarrow> bool \<Rightarrow> vmm \<Rightarrow> (vmm \<times> bool) option" where
  "user_mem_loop m start end wr s =
    (if start < end then do {
       (s, r) \<leftarrow> find_vma (Some m) start s;
       (case r of
          None \<Rightarrow> Some (s, False)
        | Some v \<Rightarrow>
            if start < start_of s v then Some (s, False)
            else if vm_flags (vmas s v) AND (if wr then VM_WRITE else VM_READ) = 0 then Some (s, False)
            else if wr \<and> vm_flags (vmas s v) AND VM_STACK \<noteq> 0 \<and> start < u64 (start_of s v + PGSIZE)
            then Some (s, False)
            else user_mem_loop m (end_of s v) end wr s) }
     else Some (s, True))"

definition user_mem_check :: "nat option \<Rightarrow> nat \<Rightarrow> nat \<Rightarrow> bool \<Rightarrow> vmm \<Rightarrow> (vmm \<times> bool) option" where
  "user_mem_check mm addr len wr s =
    (case mm of
       Some m \<Rightarrow>
         if \<not> USER_ACCESS addr (u64 (addr + len)) then Some (s, False)
         else user_mem_loop m addr (u64 (addr + len)) wr s
     | None \<Rightarrow> Some (s, KERN_ACCESS addr (u64 (addr + len))))"

section \<open>The list of areas\<close>

definition vm_ok :: "nat \<Rightarrow> nat list \<Rightarrow> vmm \<Rightarrow> bool" where
  "vm_ok m vs s \<longleftrightarrow> ring (vm_links s) (Mmap m) (map VmaLink vs) \<and>
     (\<forall>v\<in>set vs. start_of s v < end_of s v \<and> end_of s v \<le> USERTOP \<and> vm_mm (vmas s v) = m) \<and>
     sorted_wrt (\<lambda>u v. end_of s u \<le> start_of s v) vs \<and>
     map_count (mms s m) = int (length vs) \<and>
     (\<forall>v. mmap_cache (mms s m) = Some v \<longrightarrow> v \<in> set vs)"

lemma upd_mm_simps [simp]:
  "vm_links (upd_mm m f s) = vm_links s" "vmas (upd_mm m f s) = vmas s" "kfreed (upd_mm m f s) = kfreed s"
  "mach (upd_mm m f s) = mach s" "mms (upd_mm m f s) k = (if k = m then f (mms s m) else mms s k)"
  by (simp_all add: upd_mm_def)

lemma upd_vma_simps [simp]:
  "vm_links (upd_vma v f s) = vm_links s" "mms (upd_vma v f s) = mms s" "kfreed (upd_vma v f s) = kfreed s"
  "mach (upd_vma v f s) = mach s" "vmas (upd_vma v f s) k = (if k = v then f (vmas s v) else vmas s k)"
  by (simp_all add: upd_vma_def)

lemma in_vma_mm [simp]: "in_vma (upd_mm m f s) v a = in_vma s v a"
  by (simp add: in_vma_def)

lemma vm_ok_cache: "vm_ok m vs s \<Longrightarrow> v \<in> set vs \<Longrightarrow> vm_ok m vs (upd_mm m (\<lambda>x. x\<lparr>mmap_cache := Some v\<rparr>) s)"
  by (simp add: vm_ok_def)

lemma ring_next_head: "ring h a xs \<Longrightarrow> list_next a h = hd (xs @ [a])"
  by (simp add: list_next_def ring_first)

lemma ring_next_at:
  "ring h a (ys @ x # zs) \<Longrightarrow> list_next x h = hd (zs @ [a])"
  using ring_step(1) [of h a ys x zs] by (simp add: list_next_def)

lemma vm_ring_next:
  assumes "ring (vm_links s) (Mmap m) (map VmaLink (us @ v # ws))"
  shows "list_next (VmaLink v) (vm_links s) = hd (map VmaLink ws @ [Mmap m])"
  by (rule ring_next_at [of _ _ "map VmaLink us"]) (use assms in simp)

lemma vm_next_last:
  assumes "ring (vm_links s) (Mmap m) (map VmaLink us)"
  shows "list_next (last (Mmap m # map VmaLink us)) (vm_links s) = Mmap m"
proof (cases us rule: rev_cases)
  case Nil
  then show ?thesis using ring_next_head [of "vm_links s" "Mmap m" "[]"] assms by simp
next
  case (snoc ys y)
  then show ?thesis using vm_ring_next [of s m ys y "[]"] assms by simp
qed

lemma find_vma_loop_eq:
  assumes "ring (vm_links s) (Mmap m) (map VmaLink (us @ ws))"
  shows "find_vma_loop addr (last (Mmap m # map VmaLink us)) s = Some (List.find (\<lambda>v. in_vma s v addr) ws)"
  using assms
proof (induction ws arbitrary: us)
  case Nil
  have "list_next (last (Mmap m # map VmaLink us)) (vm_links s) = Mmap m"
    using vm_next_last [of s m us] Nil.prems by simp
  then show ?case by (subst find_vma_loop.simps) simp
next
  case (Cons w ws)
  have "list_next (last (Mmap m # map VmaLink us)) (vm_links s) = VmaLink w"
    using ring_step(3) [of "vm_links s" "Mmap m" "map VmaLink us" "VmaLink w" "map VmaLink ws"] Cons.prems
    by (simp add: list_next_def)
  then show ?case
    using Cons.IH [of "us @ [w]"] Cons.prems by (subst find_vma_loop.simps) simp
qed

text \<open>Areas are disjoint, so that the cached area is the one the search finds.\<close>

lemma vm_ok_disjoint:
  assumes "vm_ok m vs s" and "u \<in> set vs" "v \<in> set vs" and "in_vma s u a" "in_vma s v a"
  shows "u = v"
proof (rule ccontr)
  assume ne: "u \<noteq> v"
  have w: "sorted_wrt (\<lambda>u v. end_of s u \<le> start_of s v) vs" using assms(1) by (simp add: vm_ok_def)
  obtain i j where ij: "i < length vs" "vs ! i = u" "j < length vs" "vs ! j = v"
    using assms(2,3) unfolding in_set_conv_nth by blast
  then have "i \<noteq> j" using ne by blast
  then consider "i < j" | "j < i" by linarith
  then show False
  proof cases
    case 1
    then show False using sorted_wrt_nth_less [OF w 1 ij(3)] ij assms(4,5) by (simp add: in_vma_def)
  next
    case 2
    then show False using sorted_wrt_nth_less [OF w 2 ij(1)] ij assms(4,5) by (simp add: in_vma_def)
  qed
qed

lemma find_unique:
  assumes "v \<in> set vs" and "P v" and "\<And>u. u \<in> set vs \<Longrightarrow> P u \<Longrightarrow> u = v"
  shows "List.find P vs = Some v"
proof (cases "List.find P vs")
  case None
  then show ?thesis using assms(1,2) unfolding find_None_iff by blast
next
  case (Some u)
  then obtain ys zs where "vs = ys @ u # zs" and "P u" using find_Some_split [OF Some] by blast
  then have "u = v" by (intro assms(3)) simp_all
  then show ?thesis using Some by simp
qed

lemma find_vma_ok:
  assumes ok: "vm_ok m vs s"
  shows "\<exists>s'. find_vma (Some m) addr s = Some (s', List.find (\<lambda>v. in_vma s v addr) vs) \<and> vm_ok m vs s' \<and>
    vmas s' = vmas s \<and> vm_links s' = vm_links s \<and> mach s' = mach s \<and> kfreed s' = kfreed s"
proof -
  let ?r = "List.find (\<lambda>v. in_vma s v addr) vs"
  have loop: "find_vma_loop addr (Mmap m) s = Some ?r"
    using find_vma_loop_eq [of s m "[]" vs addr] ok by (simp add: vm_ok_def)
  have cache: "?r = Some v" if "mmap_cache (mms s m) = Some v" "in_vma s v addr" for v
  proof -
    have v: "v \<in> set vs" using ok that(1) by (simp add: vm_ok_def)
    show ?thesis
      by (rule find_unique [where P = "\<lambda>v. in_vma s v addr", OF v that(2)])
        (use vm_ok_disjoint [OF ok] v that(2) in blast)
  qed
  have "find_vma (Some m) addr s = Some (case ?r of None \<Rightarrow> (s, None)
      | Some v \<Rightarrow> (upd_mm m (\<lambda>x. x\<lparr>mmap_cache := Some v\<rparr>) s, Some v))"
  proof (cases "mmap_cache (mms s m)")
    case None
    then show ?thesis using loop by (simp add: find_vma_def)
  next
    case (Some v)
    then show ?thesis using loop cache [OF Some] by (simp add: find_vma_def)
  qed
  moreover have "vm_ok m vs (upd_mm m (\<lambda>x. x\<lparr>mmap_cache := Some v\<rparr>) s)" if "?r = Some v" for v
    using vm_ok_cache [OF ok] find_Some_split [OF that] by auto
  ultimately show ?thesis using ok by (cases ?r) auto
qed

section \<open>Inserting an area\<close>

definition apart :: "vmm \<Rightarrow> nat \<Rightarrow> nat \<Rightarrow> bool" where
  "apart s u v \<longleftrightarrow> end_of s u \<le> start_of s v \<or> end_of s v \<le> start_of s u"

lemma insert_vma_loop_eq:
  assumes "ring (vm_links s) (Mmap m) (map VmaLink (us @ ws))"
  shows "insert_vma_loop v (last (Mmap m # map VmaLink us)) (last (Mmap m # map VmaLink us)) s =
    Some (last (Mmap m # map VmaLink (us @ takeWhile (\<lambda>u. start_of s u \<le> start_of s v) ws)))"
  using assms
proof (induction ws arbitrary: us)
  case Nil
  have "list_next (last (Mmap m # map VmaLink us)) (vm_links s) = Mmap m"
    using vm_next_last [of s m us] Nil.prems by simp
  then show ?case by (subst insert_vma_loop.simps) simp
next
  case (Cons w ws)
  have *: "list_next (last (Mmap m # map VmaLink us)) (vm_links s) = VmaLink w"
    using ring_step(3) [of "vm_links s" "Mmap m" "map VmaLink us" "VmaLink w" "map VmaLink ws"] Cons.prems
    by (simp add: list_next_def)
  show ?case
  proof (cases "start_of s v < start_of s w")
    case True
    then show ?thesis using * by (subst insert_vma_loop.simps) simp
  next
    case False
    then show ?thesis
      using * Cons.IH [of "us @ [w]"] Cons.prems by (subst insert_vma_loop.simps) simp
  qed
qed

lemma vm_next_split:
  assumes "ring (vm_links s) (Mmap m) (map VmaLink (us @ ws))"
  shows "list_next (last (Mmap m # map VmaLink us)) (vm_links s) = hd (map VmaLink ws @ [Mmap m])"
proof (cases ws)
  case Nil
  then show ?thesis using vm_next_last [of s m us] assms by simp
next
  case (Cons w ws')
  then show ?thesis
    using ring_step(3) [of "vm_links s" "Mmap m" "map VmaLink us" "VmaLink w" "map VmaLink ws'"] assms
    by (simp add: list_next_def)
qed

text \<open>The two neighbours decide whether the new area is apart from all areas.\<close>

lemma apart_before:
  assumes w: "sorted_wrt (\<lambda>u v. end_of s u \<le> start_of s v) ys"
    and ne: "\<forall>u\<in>set ys. start_of s u < end_of s u \<and> start_of s u \<le> start_of s v" and "start_of s v < end_of s v"
  shows "(ys = [] \<or> end_of s (last ys) \<le> start_of s v) \<longleftrightarrow> (\<forall>u\<in>set ys. apart s u v)"
    and "(\<forall>u\<in>set ys. apart s u v) \<longrightarrow> (\<forall>u\<in>set ys. end_of s u \<le> start_of s v)"
proof -
  have le: "end_of s u \<le> start_of s v" if "ys \<noteq> []" "end_of s (last ys) \<le> start_of s v" "u \<in> set ys" for u
  proof (cases "u = last ys")
    case False
    obtain zs z where ys: "ys = zs @ [z]" using \<open>ys \<noteq> []\<close> by (meson rev_exhaust)
    have "end_of s u \<le> start_of s z" using w False that(3) by (auto simp: ys sorted_wrt_append)
    moreover have "start_of s z < end_of s z" using ne ys by simp
    ultimately show ?thesis using that(2) ys by simp
  qed (use that in simp)
  show *: "(\<forall>u\<in>set ys. apart s u v) \<longrightarrow> (\<forall>u\<in>set ys. end_of s u \<le> start_of s v)"
    using ne assms(3) by (fastforce simp: apart_def)
  show "(ys = [] \<or> end_of s (last ys) \<le> start_of s v) \<longleftrightarrow> (\<forall>u\<in>set ys. apart s u v)"
  proof (cases "ys = []")
    case False
    show ?thesis
    proof
      assume "ys = [] \<or> end_of s (last ys) \<le> start_of s v"
      then show "\<forall>u\<in>set ys. apart s u v" using le False by (simp add: apart_def)
    next
      assume "\<forall>u\<in>set ys. apart s u v"
      then show "ys = [] \<or> end_of s (last ys) \<le> start_of s v" using * last_in_set [OF False] by blast
    qed
  qed simp
qed

lemma apart_after:
  assumes w: "sorted_wrt (\<lambda>u v. end_of s u \<le> start_of s v) zs"
    and ne: "\<forall>u\<in>set zs. start_of s u < end_of s u" and lt: "zs \<noteq> [] \<longrightarrow> start_of s v < start_of s (hd zs)"
  shows "(zs = [] \<or> end_of s v \<le> start_of s (hd zs)) \<longleftrightarrow> (\<forall>u\<in>set zs. apart s u v)"
    and "(\<forall>u\<in>set zs. apart s u v) \<longrightarrow> (\<forall>u\<in>set zs. end_of s v \<le> start_of s u)"
proof -
  have hd_le: "start_of s (hd zs) \<le> start_of s u" if "u \<in> set zs" for u
    using w ne that by (cases zs) fastforce+
  show *: "(\<forall>u\<in>set zs. apart s u v) \<longrightarrow> (\<forall>u\<in>set zs. end_of s v \<le> start_of s u)"
  proof (intro impI ballI)
    fix u assume ap: "\<forall>u\<in>set zs. apart s u v" and u: "u \<in> set zs"
    have "start_of s v < start_of s u" using hd_le [OF u] lt u by (cases zs) auto
    then show "end_of s v \<le> start_of s u" using ap ne u by (fastforce simp: apart_def)
  qed
  show "(zs = [] \<or> end_of s v \<le> start_of s (hd zs)) \<longleftrightarrow> (\<forall>u\<in>set zs. apart s u v)"
  proof (cases "zs = []")
    case False
    then show ?thesis using * hd_le by (fastforce simp: apart_def)
  qed simp
qed

definition before :: "nat \<Rightarrow> nat list \<Rightarrow> vmm \<Rightarrow> nat list" where
  "before v vs s = takeWhile (\<lambda>u. start_of s u \<le> start_of s v) vs"

definition after :: "nat \<Rightarrow> nat list \<Rightarrow> vmm \<Rightarrow> nat list" where
  "after v vs s = dropWhile (\<lambda>u. start_of s u \<le> start_of s v) vs"

lemma before_after: "before v vs s @ after v vs s = vs"
  by (simp add: before_def after_def)

lemma before_starts: "\<forall>u\<in>set (before v vs s). start_of s u \<le> start_of s v"
  unfolding before_def by (metis set_takeWhileD)

lemma after_hd: "after v vs s \<noteq> [] \<longrightarrow> start_of s v < start_of s (hd (after v vs s))"
  unfolding after_def by (metis hd_dropWhile not_less)

definition inserted :: "nat \<Rightarrow> nat \<Rightarrow> nat list \<Rightarrow> vmm \<Rightarrow> vmm" where
  "inserted m v vs s = upd_mm m (\<lambda>x. x\<lparr>map_count := map_count x + 1\<rparr>)
     ((upd_vma v (\<lambda>x. x\<lparr>vm_mm := m\<rparr>) s)
       \<lparr>vm_links := list_add_after (last (Mmap m # map VmaLink (before v vs s))) (VmaLink v) (vm_links s)\<rparr>)"

lemma vm_ok_split:
  assumes ok: "vm_ok m vs s"
  shows "ring (vm_links s) (Mmap m) (map VmaLink (before v vs s @ after v vs s))"
    and "sorted_wrt (\<lambda>u v. end_of s u \<le> start_of s v) (before v vs s)"
    and "sorted_wrt (\<lambda>u v. end_of s u \<le> start_of s v) (after v vs s)"
    and "\<forall>u\<in>set (before v vs s). start_of s u < end_of s u \<and> start_of s u \<le> start_of s v"
    and "\<forall>u\<in>set (after v vs s). start_of s u < end_of s u"
proof -
  have sub: "set (before v vs s) \<subseteq> set vs" "set (after v vs s) \<subseteq> set vs"
    unfolding before_def after_def by (auto dest: set_takeWhileD set_dropWhileD)
  show "ring (vm_links s) (Mmap m) (map VmaLink (before v vs s @ after v vs s))"
    using ok unfolding vm_ok_def before_after by simp
  have "sorted_wrt (\<lambda>u v. end_of s u \<le> start_of s v) (before v vs s @ after v vs s)"
    using ok unfolding vm_ok_def before_after by simp
  then show "sorted_wrt (\<lambda>u v. end_of s u \<le> start_of s v) (before v vs s)"
    "sorted_wrt (\<lambda>u v. end_of s u \<le> start_of s v) (after v vs s)"
    unfolding sorted_wrt_append by blast+
  have ne: "start_of s u < end_of s u" if "u \<in> set vs" for u using ok that by (simp add: vm_ok_def)
  show "\<forall>u\<in>set (before v vs s). start_of s u < end_of s u \<and> start_of s u \<le> start_of s v"
    using ne sub(1) before_starts [of v vs s] by (meson subsetD)
  show "\<forall>u\<in>set (after v vs s). start_of s u < end_of s u"
    using ne sub(2) by (meson subsetD)
qed

lemma insert_vma_struct_eq:
  assumes ok: "vm_ok m vs s" and lt: "start_of s v < end_of s v"
  shows "insert_vma_struct m v s = (if \<forall>u\<in>set vs. apart s u v then Some (inserted m v vs s) else None)"
proof -
  let ?b = "before v vs s" and ?a = "after v vs s"
  note sp = vm_ok_split [OF ok, of v]
  have loop: "insert_vma_loop v (Mmap m) (Mmap m) s = Some (last (Mmap m # map VmaLink ?b))"
    using insert_vma_loop_eq [of s m "[]" vs v] ok by (simp add: vm_ok_def before_def)
  have nxt: "list_next (last (Mmap m # map VmaLink ?b)) (vm_links s) = hd (map VmaLink ?a @ [Mmap m])"
    by (rule vm_next_split [OF sp(1)])
  note ab = apart_before [OF sp(2,4) lt] and aa = apart_after [OF sp(3,5) after_hd]
  have c1: "(case last (Mmap m # map VmaLink ?b) of Mmap _ \<Rightarrow> Some () | VmaLink u \<Rightarrow> check_vma_overlap u v s) =
      assert_k (\<forall>u\<in>set ?b. apart s u v)"
  proof (cases "?b = []")
    case False
    then have "(case last (Mmap m # map VmaLink ?b) of Mmap _ \<Rightarrow> Some () | VmaLink u \<Rightarrow> check_vma_overlap u v s) =
        check_vma_overlap (last ?b) v s" by (simp add: last_map)
    moreover have "start_of s (last ?b) < end_of s (last ?b)" using sp(4) False by simp
    ultimately show ?thesis using ab(1) False lt by (simp add: check_vma_overlap_def)
  qed simp
  have c2: "(case hd (map VmaLink ?a @ [Mmap m]) of Mmap _ \<Rightarrow> Some () | VmaLink u \<Rightarrow> check_vma_overlap v u s) =
      assert_k (\<forall>u\<in>set ?a. apart s u v)"
  proof (cases "?a = []")
    case False
    then have "(case hd (map VmaLink ?a @ [Mmap m]) of Mmap _ \<Rightarrow> Some () | VmaLink u \<Rightarrow> check_vma_overlap v u s) =
        check_vma_overlap v (hd ?a) s" by (simp add: hd_append hd_map)
    moreover have "start_of s (hd ?a) < end_of s (hd ?a)" using sp(5) False by simp
    ultimately show ?thesis using aa(1) False lt by (simp add: check_vma_overlap_def)
  qed simp
  have all: "(\<forall>u\<in>set vs. apart s u v) \<longleftrightarrow> (\<forall>u\<in>set ?b. apart s u v) \<and> (\<forall>u\<in>set ?a. apart s u v)"
    using set_append [of ?b ?a] unfolding before_after by blast
  define P where "P = last (Mmap m # map VmaLink ?b)"
  define Q where "Q = hd (map VmaLink ?a @ [Mmap m])"
  have ins: "inserted m v vs s = upd_mm m (\<lambda>x. x\<lparr>map_count := map_count x + 1\<rparr>)
     ((upd_vma v (\<lambda>x. x\<lparr>vm_mm := m\<rparr>) s)\<lparr>vm_links := list_add_after P (VmaLink v) (vm_links s)\<rparr>)"
    by (simp only: inserted_def P_def)
  show ?thesis
    unfolding insert_vma_struct_def all ins
    using loop nxt c1 c2 lt unfolding P_def [symmetric] Q_def [symmetric] by simp
qed

lemma vm_ok_inserted:
  assumes ok: "vm_ok m vs s" and lt: "start_of s v < end_of s v" and top: "end_of s v \<le> USERTOP"
    and new: "v \<notin> set vs" and ap: "\<forall>u\<in>set vs. apart s u v"
  shows "vm_ok m (before v vs s @ v # after v vs s) (inserted m v vs s)"
proof -
  let ?b = "before v vs s" and ?a = "after v vs s" and ?t = "inserted m v vs s"
  note sp = vm_ok_split [OF ok, of v]
  have sub: "u \<in> set vs \<longleftrightarrow> u \<in> set ?b \<or> u \<in> set ?a" for u
    using set_append [of ?b ?a] unfolding before_after by blast
  have eqs: "start_of ?t u = start_of s u" "end_of ?t u = end_of s u" "vm_mm (vmas ?t u) = (if u = v then m else vm_mm (vmas s u))"
    "map_count (mms ?t m) = map_count (mms s m) + 1" "mmap_cache (mms ?t m) = mmap_cache (mms s m)" for u
    by (auto simp: inserted_def)
  have bsep: "\<forall>u\<in>set ?b. end_of s u \<le> start_of s v"
    using apart_before(2) [OF sp(2,4) lt] ap sub by blast
  have asep: "\<forall>u\<in>set ?a. end_of s v \<le> start_of s u"
    using apart_after(2) [OF sp(3,5) after_hd] ap sub by blast
  have "sorted_wrt (\<lambda>u v. end_of s u \<le> start_of s v) (?b @ ?a)"
    using ok unfolding vm_ok_def before_after by simp
  then have srt: "sorted_wrt (\<lambda>u v. end_of s u \<le> start_of s v) (?b @ v # ?a)"
    using bsep asep by (simp add: sorted_wrt_append)
  have "VmaLink v \<notin> set (Mmap m # map VmaLink ?b @ map VmaLink ?a)"
    using new sub by auto
  then have ring: "ring (vm_links ?t) (Mmap m) (map VmaLink (?b @ v # ?a))"
    using ring_list_add_after_prefix [of "vm_links s" "Mmap m" "map VmaLink ?b" "map VmaLink ?a" "VmaLink v"] sp(1)
    unfolding inserted_def by (simp add: list_add_def)
  have "length vs = length ?b + length ?a"
    using length_append [of ?b ?a] unfolding before_after by simp
  then show ?thesis
    using ok ring srt lt top unfolding vm_ok_def eqs by (auto simp: sub)
qed

section \<open>Mapping a range\<close>

type_synonym area = "nat \<times> nat \<times> 32 word"

definition area :: "vmm \<Rightarrow> nat \<Rightarrow> area" where
  "area s v = (start_of s v, end_of s v, vm_flags (vmas s v))"

text \<open>
  The specification of \<open>mm_map\<close> on the list of areas: \<open>mem\<close> says that \<open>kmalloc\<close> succeeds.
  \<open>None\<close> is the failed assertion of \<open>check_vma_overlap\<close>.
\<close>

definition area_map :: "area list \<Rightarrow> nat \<Rightarrow> nat \<Rightarrow> 32 word \<Rightarrow> bool \<Rightarrow> (area list \<times> int) option" where
  "area_map as start end flags mem =
    (if \<not> USER_ACCESS start end \<or> list_ex (\<lambda>(b, e, _). b \<le> start \<and> start < e) as then Some (as, - E_INVAL)
     else if \<not> mem then Some (as, - E_NO_MEM)
     else if list_ex (\<lambda>(b, e, _). b < end \<and> start < e) as then None
     else Some (takeWhile (\<lambda>(b, _). b \<le> start) as @ (start, end, flags) # dropWhile (\<lambda>(b, _). b \<le> start) as, 0))"

lemma vm_ok_set_vma: "vm_ok m vs s \<Longrightarrow> v \<notin> set vs \<Longrightarrow> vm_ok m vs (upd_vma v f s)"
  by (auto simp: vm_ok_def intro: sorted_wrt_mono_rel [rotated])

lemma map_area_cong: "vmas t = vmas s \<Longrightarrow> map (area t) vs = map (area s) vs"
  by (simp add: area_def)

lemma find_vma_cases:
  assumes ok: "vm_ok m vs s"
  obtains (found) s' v where "find_vma (Some m) addr s = Some (s', Some v)" "v \<in> set vs" "in_vma s v addr"
      "vm_ok m vs s'" "vmas s' = vmas s" "mach s' = mach s" "vm_links s' = vm_links s" "kfreed s' = kfreed s"
    | (missing) s' where "find_vma (Some m) addr s = Some (s', None)" "\<forall>v\<in>set vs. \<not> in_vma s v addr"
      "vm_ok m vs s'" "vmas s' = vmas s" "mach s' = mach s" "vm_links s' = vm_links s" "kfreed s' = kfreed s"
proof (cases "List.find (\<lambda>v. in_vma s v addr) vs")
  case None
  then have "\<forall>v\<in>set vs. \<not> in_vma s v addr" unfolding find_None_iff by blast
  then show thesis using find_vma_ok [OF ok, of addr] missing unfolding None by blast
next
  case (Some v)
  have "v \<in> set vs" "in_vma s v addr" using find_Some_split [OF Some] by auto
  then show thesis using find_vma_ok [OF ok, of addr] found unfolding Some by blast
qed

lemma insert_areas:
  assumes "start_of s v = start" "end_of s v = end" "vm_flags (vmas s v) = flags"
  shows "map (area (inserted m v vs s)) (before v vs s @ v # after v vs s) =
    takeWhile (\<lambda>(b, _). b \<le> start) (map (area s) vs) @ (start, end, flags) #
    dropWhile (\<lambda>(b, _). b \<le> start) (map (area s) vs)"
proof -
  have "area (inserted m v vs s) u = area s u" for u by (simp add: area_def inserted_def)
  moreover have "(\<lambda>(b, _). b \<le> start) \<circ> area s = (\<lambda>u. start_of s u \<le> start)"
    by (simp add: fun_eq_iff area_def)
  ultimately show ?thesis
    using assms by (simp add: before_def after_def takeWhile_map dropWhile_map) (simp add: area_def)
qed

text \<open>\<open>mm_map\<close> when no area holds the first address and there is memory.\<close>

lemma mm_map_fresh:
  assumes ok: "vm_ok m vs s1" and nv: "v \<notin> set vs" and acc: "USER_ACCESS start fin"
    and run: "mm_map m addr len flags (Some v) s = do {
      s \<leftarrow> insert_vma_struct m v (upd_vma v (\<lambda>x. x\<lparr>vm_start := start, vm_end := fin, vm_flags := flags\<rparr>) s1);
      Some (s, 0, Some v) }"
    and nohit: "\<not> list_ex (\<lambda>(b, e, _). b \<le> start \<and> start < e) (map (area s1) vs)"
  shows "case area_map (map (area s1) vs) start fin flags True of
      None \<Rightarrow> mm_map m addr len flags (Some v) s = None
    | Some (as, r) \<Rightarrow> \<exists>s' vs'. mm_map m addr len flags (Some v) s = Some (s', r, if r = 0 then Some v else None) \<and>
        vm_ok m vs' s' \<and> map (area s') vs' = as \<and> mach s' = mach s1 \<and> set vs' \<subseteq> insert v (set vs)"
proof -
  define s2 where "s2 = upd_vma v (\<lambda>x. x\<lparr>vm_start := start, vm_end := fin, vm_flags := flags\<rparr>) s1"
  have lt: "start < fin" and top: "fin \<le> USERTOP" using acc by (simp_all add: USER_ACCESS_def)
  have ok2: "vm_ok m vs s2" unfolding s2_def by (rule vm_ok_set_vma [OF ok nv])
  have v2: "start_of s2 v = start" "end_of s2 v = fin" "vm_flags (vmas s2 v) = flags" by (simp_all add: s2_def)
  have "\<forall>u\<in>set vs. area s2 u = area s1 u" using nv by (auto simp: s2_def area_def)
  then have areas: "map (area s2) vs = map (area s1) vs" by simp
  have res: "mm_map m addr len flags (Some v) s =
      (if \<forall>u\<in>set vs. apart s2 u v then Some (inserted m v vs s2, 0, Some v) else None)"
    using run insert_vma_struct_eq [OF ok2, of v] lt v2 by (simp add: s2_def [symmetric])
  have clash: "list_ex (\<lambda>(b, e, _). b < fin \<and> start < e) (map (area s1) vs) \<longleftrightarrow> \<not> (\<forall>u\<in>set vs. apart s2 u v)"
    unfolding areas [symmetric] by (auto simp: list_ex_iff area_def apart_def v2 not_le)
  show ?thesis
  proof (cases "\<forall>u\<in>set vs. apart s2 u v")
    case True
    have "vm_ok m (before v vs s2 @ v # after v vs s2) (inserted m v vs s2)"
      using vm_ok_inserted [OF ok2, of v] lt top v2 nv True by simp
    moreover have "mach (inserted m v vs s2) = mach s1" by (simp add: inserted_def s2_def)
    moreover have "set (before v vs s2 @ v # after v vs s2) \<subseteq> insert v (set vs)"
      using set_append [of "before v vs s2" "after v vs s2"] unfolding before_after by auto
    moreover have "area_map (map (area s1) vs) start fin flags True =
        Some (map (area (inserted m v vs s2)) (before v vs s2 @ v # after v vs s2), 0)"
      using acc nohit clash True insert_areas [OF v2, of m vs] areas unfolding area_map_def by simp
    ultimately show ?thesis using res True by (auto intro!: exI [of _ "before v vs s2 @ v # after v vs s2"])
  next
    case False
    then show ?thesis using acc nohit clash res unfolding area_map_def by auto
  qed
qed

text \<open>The specification is met; the new area is the only one that joins the list.\<close>

lemma mm_map_spec:
  assumes ok: "vm_ok m vs s" and new: "\<forall>v. new = Some v \<longrightarrow> v \<notin> set vs"
  shows "case area_map (map (area s) vs) (ROUNDDOWN addr PGSIZE) (ROUNDUP (u64 (addr + len)) PGSIZE) flags (new \<noteq> None) of
      None \<Rightarrow> mm_map m addr len flags new s = None
    | Some (as, r) \<Rightarrow> \<exists>s' vs'. mm_map m addr len flags new s = Some (s', r, if r = 0 then new else None) \<and>
        vm_ok m vs' s' \<and> map (area s') vs' = as \<and> mach s' = mach s \<and> set vs' \<subseteq> set vs \<union> set_option new"
proof -
  define start where "start = ROUNDDOWN addr PGSIZE"
  define fin where "fin = ROUNDUP (u64 (addr + len)) PGSIZE"
  note mm = mm_map_def [of m addr len flags new s, folded start_def fin_def, unfolded Let_def]
  have hit: "list_ex (\<lambda>(b, e, _). b \<le> start \<and> start < e) (map (area s) vs) \<longleftrightarrow> (\<exists>v\<in>set vs. in_vma s v start)"
    by (simp add: list_ex_iff area_def in_vma_def)
  consider "\<not> USER_ACCESS start fin" | "USER_ACCESS start fin" by blast
  then show ?thesis unfolding start_def [symmetric] fin_def [symmetric]
  proof cases
    case 1
    then show "case area_map (map (area s) vs) start fin flags (new \<noteq> None) of
        None \<Rightarrow> mm_map m addr len flags new s = None
      | Some (as, r) \<Rightarrow> \<exists>s' vs'. mm_map m addr len flags new s = Some (s', r, if r = 0 then new else None) \<and>
          vm_ok m vs' s' \<and> map (area s') vs' = as \<and> mach s' = mach s \<and> set vs' \<subseteq> set vs \<union> set_option new"
      using ok by (auto simp: mm area_map_def E_INVAL_def)
  next
    case 2
    then have lt: "start < fin" and top: "fin \<le> USERTOP" by (simp_all add: USER_ACCESS_def)
    show "case area_map (map (area s) vs) start fin flags (new \<noteq> None) of
        None \<Rightarrow> mm_map m addr len flags new s = None
      | Some (as, r) \<Rightarrow> \<exists>s' vs'. mm_map m addr len flags new s = Some (s', r, if r = 0 then new else None) \<and>
          vm_ok m vs' s' \<and> map (area s') vs' = as \<and> mach s' = mach s \<and> set vs' \<subseteq> set vs \<union> set_option new"
      using ok
    proof (cases rule: find_vma_cases [where addr = start])
      case (found s' v)
      have "start_of s' v < fin" using found(3,5) lt by (simp add: in_vma_def)
      then have "mm_map m addr len flags new s = Some (s', - E_INVAL, None)"
        using 2 found(1) by (simp add: mm)
      moreover have "area_map (map (area s) vs) start fin flags (new \<noteq> None) = Some (map (area s) vs, - E_INVAL)"
        using found(2,3) hit unfolding area_map_def by auto
      ultimately show ?thesis
        using found(4,6) map_area_cong [OF found(5), of vs] by (auto simp: E_INVAL_def)
    next
      case (missing s1)
      have nohit: "\<not> list_ex (\<lambda>(b, e, _). b \<le> start \<and> start < e) (map (area s) vs)"
        using missing(2) hit by blast
      show ?thesis
      proof (cases new)
        case None
        then have "mm_map m addr len flags new s = Some (s1, - E_NO_MEM, None)"
          unfolding mm using 2 missing(1) by (simp add: vma_create_def)
        moreover have "area_map (map (area s) vs) start fin flags (new \<noteq> None) = Some (map (area s) vs, - E_NO_MEM)"
          using 2 nohit None unfolding area_map_def by auto
        ultimately show ?thesis
          using missing(3,5) map_area_cong [OF missing(4), of vs] by (auto simp: E_NO_MEM_def)
      next
        case (Some v)
        have nv: "v \<notin> set vs" using new Some by simp
        have run: "mm_map m addr len flags (Some v) s = do {
            s \<leftarrow> insert_vma_struct m v (upd_vma v (\<lambda>x. x\<lparr>vm_start := start, vm_end := fin, vm_flags := flags\<rparr>) s1);
            Some (s, 0, Some v) }"
          using mm Some 2 missing(1) by (simp add: vma_create_def)
        have areas: "map (area s1) vs = map (area s) vs" by (rule map_area_cong [OF missing(4)])
        have so: "set vs \<union> set_option (Some v) = insert v (set vs)" by simp
        show ?thesis
          unfolding Some so using mm_map_fresh [OF missing(3) nv 2 run, unfolded areas missing(5), OF nohit] by simp
      qed
    qed
  qed
qed

text \<open>C26.
  \<open>mm_map\<close> refines the specification \<open>area_map\<close> on the list of areas.  It returns
  \<open>-E_INVAL\<close> for a range outside the user part of memory and when an area holds the first
  address, \<open>-E_NO_MEM\<close> when there is no memory for the area, and otherwise inserts the area
  in address order; a range that begins free but runs into a later area stops the kernel.
  Page tables are never touched.\<close>
theorem mm_map_refines:
  assumes ok: "vm_ok m vs s" and new: "\<forall>v. new = Some v \<longrightarrow> v \<notin> set vs"
  shows "case area_map (map (area s) vs) (ROUNDDOWN addr PGSIZE) (ROUNDUP (u64 (addr + len)) PGSIZE) flags (new \<noteq> None) of
      None \<Rightarrow> mm_map m addr len flags new s = None
    | Some (as, r) \<Rightarrow> \<exists>s' vs'. mm_map m addr len flags new s = Some (s', r, if r = 0 then new else None) \<and>
        vm_ok m vs' s' \<and> map (area s') vs' = as \<and> mach s' = mach s"
  using mm_map_spec [OF assms, of addr len flags] by (auto split: option.splits)

lemma mm_map_mm:
  "mm_map m addr len flags new s = Some (s', r, w) \<Longrightarrow>
    pgdir_of (mms s' q) = pgdir_of (mms s q) \<and> mm_count (mms s' q) = mm_count (mms s q)"
  by (auto simp: mm_map_def find_vma_def vma_create_def insert_vma_struct_def Let_def upd_mm_def upd_vma_def
    split: option.splits Option.bind_splits if_splits prod.splits)

section \<open>Looking up and checking user memory\<close>

text \<open>C25.
  \<open>find_vma\<close>, which asks the cached area first, returns the same area as a linear search:
  the area that holds the address, or none.  It changes the cache only.\<close>
theorem find_vma_exact:
  assumes "vm_ok m vs s"
  shows "\<exists>s' r. find_vma (Some m) addr s = Some (s', r) \<and> r = List.find (\<lambda>v. in_vma s v addr) vs \<and>
    (\<forall>v. r = Some v \<longleftrightarrow> v \<in> set vs \<and> in_vma s v addr) \<and>
    vm_ok m vs s' \<and> vmas s' = vmas s \<and> vm_links s' = vm_links s \<and> mach s' = mach s"
proof -
  let ?r = "List.find (\<lambda>v. in_vma s v addr) vs"
  have "?r = Some v \<longleftrightarrow> v \<in> set vs \<and> in_vma s v addr" for v
  proof
    assume "?r = Some v"
    from find_Some_split [OF this] show "v \<in> set vs \<and> in_vma s v addr" by auto
  next
    assume v: "v \<in> set vs \<and> in_vma s v addr"
    show "?r = Some v"
      by (rule find_unique [where P = "\<lambda>v. in_vma s v addr"]) (use v vm_ok_disjoint [OF assms] in blast)+
  qed
  then show ?thesis using find_vma_ok [OF assms, of addr] by blast
qed

text \<open>What \<open>user_mem_check\<close> asks of every single address.\<close>

definition user_ok :: "vmm \<Rightarrow> nat list \<Rightarrow> bool \<Rightarrow> nat \<Rightarrow> bool" where
  "user_ok s vs wr a \<longleftrightarrow> (\<exists>v\<in>set vs. in_vma s v a \<and>
     vm_flags (vmas s v) AND (if wr then VM_WRITE else VM_READ) \<noteq> 0 \<and>
     (wr \<and> vm_flags (vmas s v) AND VM_STACK \<noteq> 0 \<longrightarrow> start_of s v + PGSIZE \<le> a))"

lemma user_ok_cong: "vmas t = vmas s \<Longrightarrow> user_ok t vs wr a = user_ok s vs wr a"
  by (simp add: user_ok_def in_vma_def)

lemma user_mem_loop_ok:
  assumes "vm_ok m vs s"
  shows "\<exists>s'. user_mem_loop m start end wr s = Some (s', \<forall>a. start \<le> a \<and> a < end \<longrightarrow> user_ok s vs wr a) \<and>
    vm_ok m vs s' \<and> vmas s' = vmas s \<and> mach s' = mach s"
  using assms
proof (induction "end - start" arbitrary: start s rule: less_induct)
  case less
  show ?case
  proof (cases "start < end")
    case False
    then have "user_mem_loop m start end wr s = Some (s, True)" by (subst user_mem_loop.simps) simp
    then show ?thesis using less.prems False by auto
  next
    case lt: True
    show ?thesis
      using less.prems
    proof (cases rule: find_vma_cases [where addr = start])
      case (missing s')
      then have "user_mem_loop m start end wr s = Some (s', False)"
        using lt by (subst user_mem_loop.simps) simp
      moreover have "\<not> user_ok s vs wr start" using missing(2) by (auto simp: user_ok_def)
      then have "(\<forall>a. start \<le> a \<and> a < end \<longrightarrow> user_ok s vs wr a) = False" using lt by blast
      ultimately show ?thesis using missing by simp
    next
      case (found s' v)
      have iv: "start_of s v \<le> start" "start < end_of s v" using found(3) by (auto simp: in_vma_def)
      have u: "u64 (start_of s v + PGSIZE) = start_of s v + PGSIZE"
        using less.prems found(2) iv by (intro u64_id) (fastforce simp: vm_ok_def USERTOP_def PGSIZE_def)
      have same: "user_ok s vs wr a \<longleftrightarrow> vm_flags (vmas s v) AND (if wr then VM_WRITE else VM_READ) \<noteq> 0 \<and>
          (wr \<and> vm_flags (vmas s v) AND VM_STACK \<noteq> 0 \<longrightarrow> start_of s v + PGSIZE \<le> a)"
        if "in_vma s v a" for a
        using vm_ok_disjoint [OF less.prems _ found(2) _ that] found(2) that unfolding user_ok_def by blast
      have step: "user_mem_loop m start end wr s =
          (if user_ok s vs wr start then user_mem_loop m (end_of s v) end wr s' else Some (s', False))"
        using lt found(1,5) iv same [OF found(3)] u by (subst user_mem_loop.simps) auto
      show ?thesis
      proof (cases "user_ok s vs wr start")
        case False
        then have "(\<forall>a. start \<le> a \<and> a < end \<longrightarrow> user_ok s vs wr a) = False" using lt by blast
        then show ?thesis using step False found(4,5,6) by simp
      next
        case True
        have here: "user_ok s vs wr a" if "start \<le> a" "a < end_of s v" for a
        proof -
          have "in_vma s v a" using that iv by (simp add: in_vma_def)
          from same [OF this] same [OF found(3)] show ?thesis using True that(1) by fastforce
        qed
        have split: "(\<forall>a. start \<le> a \<and> a < end \<longrightarrow> user_ok s vs wr a) \<longleftrightarrow>
            (\<forall>a. end_of s v \<le> a \<and> a < end \<longrightarrow> user_ok s' vs wr a)"
          unfolding user_ok_cong [OF found(5)] using here iv(2) by (meson le_less_trans less_imp_le not_less order_trans)
        have "end - end_of s v < end - start" using iv lt by simp
        from less.hyps [OF this found(4)] show ?thesis
          unfolding split step using True found(5,6) by auto
      qed
    qed
  qed
qed

text \<open>C27.
  \<open>user_mem_check\<close> returns, and says yes exactly when the range lies in user memory and
  every address of it is in an area with the wanted permission, where a write to a stack area
  must stay above its guard page.  The page-sized jumps of its loop skip no address.\<close>
theorem user_mem_check_exact:
  assumes "vm_ok m vs s"
  shows "\<exists>s'. user_mem_check (Some m) addr len wr s = Some (s', USER_ACCESS addr (u64 (addr + len)) \<and>
      (\<forall>a. addr \<le> a \<and> a < u64 (addr + len) \<longrightarrow> user_ok s vs wr a)) \<and>
    vm_ok m vs s' \<and> vmas s' = vmas s \<and> mach s' = mach s"
proof (cases "USER_ACCESS addr (u64 (addr + len))")
  case True
  then show ?thesis
    using user_mem_loop_ok [OF assms, of addr "u64 (addr + len)" wr] by (simp add: user_mem_check_def)
next
  case False
  then show ?thesis using assms by (simp add: user_mem_check_def)
qed

section \<open>Releasing an address space\<close>

lemma mm_destroy_loop_eq:
  "ring (vm_links s) (Mmap m) (map VmaLink vs) \<Longrightarrow>
    \<exists>h. mm_destroy_loop m s = Some (s\<lparr>vm_links := h, kfreed := kfreed s @ map VmaLink vs\<rparr>) \<and> ring h (Mmap m) []"
proof (induction vs arbitrary: s)
  case Nil
  then have "list_next (Mmap m) (vm_links s) = Mmap m" using ring_next_head by fastforce
  then have "mm_destroy_loop m s = Some s" by (subst mm_destroy_loop.simps) simp
  then show ?case using Nil by (intro exI [of _ "vm_links s"]) simp
next
  case (Cons v vs)
  have nxt: "list_next (Mmap m) (vm_links s) = VmaLink v" using ring_next_head [OF Cons.prems] by simp
  let ?t = "kfree_log (VmaLink v) (s\<lparr>vm_links := list_del (VmaLink v) (vm_links s)\<rparr>)"
  have "ring (vm_links ?t) (Mmap m) (map VmaLink vs)"
    using ring_list_del [of "vm_links s" "Mmap m" "[]" "VmaLink v" "map VmaLink vs"] Cons.prems
    by (simp add: kfree_log_def)
  from Cons.IH [OF this] show ?case
    using nxt by (subst mm_destroy_loop.simps) (auto simp: kfree_log_def)
qed

text \<open>\<open>mm_destroy\<close> of an address space that no process uses returns; it frees every area once,
  in address order, and then the \<open>mm_struct\<close>, and touches no page.  With users left it stops
  the kernel.\<close>
theorem mm_destroy_frees:
  assumes "vm_ok m vs s"
  shows "if mm_count (mms s m) = 0
    then \<exists>s'. mm_destroy m s = Some s' \<and> kfreed s' = kfreed s @ map VmaLink vs @ [Mmap m] \<and> distinct (map VmaLink vs @ [Mmap m]) \<and>
      list_empty (Mmap m) (vm_links s') \<and> mach s' = mach s
    else mm_destroy m s = None"
proof (cases "mm_count (mms s m) = 0")
  case True
  have r: "ring (vm_links s) (Mmap m) (map VmaLink vs)" using assms by (simp add: vm_ok_def)
  obtain h where h: "mm_destroy_loop m s = Some (s\<lparr>vm_links := h, kfreed := kfreed s @ map VmaLink vs\<rparr>)" "ring h (Mmap m) []"
    using mm_destroy_loop_eq [OF r] by blast
  have "mm_destroy m s = Some (kfree_log (Mmap m) (s\<lparr>vm_links := h, kfreed := kfreed s @ map VmaLink vs\<rparr>))"
    using True h(1) by (simp add: mm_destroy_def)
  then show ?thesis
    using True ring_distinct [OF r] ring_empty_iff [OF h(2)] by (auto simp: kfree_log_def)
qed (simp add: mm_destroy_def)

section \<open>An example\<close>

definition vm_sample :: vmm where
  "vm_sample =
    \<lparr>vm_links = list_add_before (Mmap 0) (VmaLink 1) (list_add_before (Mmap 0) (VmaLink 0)
        (list_init (Mmap 0) \<lparr>l_next = id, l_prev = id\<rparr>)),
     vmas = (\<lambda>v. if v = 0 then \<lparr>vm_mm = 0, vm_start = 0x200000, vm_end = 0x203000, vm_flags = 0x3\<rparr>
                 else \<lparr>vm_mm = 0, vm_start = 0x400000, vm_end = 0x402000, vm_flags = 0xB\<rparr>),
     mms = (\<lambda>_. \<lparr>mmap_cache = None, pgdir_of = None, map_count = 2, mm_count = 0\<rparr>),
     kfreed = [], mach = pt_sample\<rparr>"

lemma vm_sample_ok: "vm_ok 0 [0, 1] vm_sample"
proof -
  have "ring (list_init (Mmap 0) \<lparr>l_next = id, l_prev = id\<rparr>) (Mmap 0) []" by (rule ring_list_init)
  from ring_list_add_before_head [OF this, of "VmaLink 0"]
  have "ring (list_add_before (Mmap 0) (VmaLink 0) (list_init (Mmap 0) \<lparr>l_next = id, l_prev = id\<rparr>))
      (Mmap 0) [VmaLink 0]" by simp
  from ring_list_add_before_head [OF this, of "VmaLink 1"]
  have "ring (vm_links vm_sample) (Mmap 0) [VmaLink 0, VmaLink 1]" by (simp add: vm_sample_def)
  then show ?thesis by (simp add: vm_ok_def vm_sample_def USERTOP_def)
qed

lemma find_vma_exact_witness:
  "\<exists>s'. find_vma (Some 0) 0x401000 vm_sample = Some (s', Some 1) \<and> vm_ok 0 [0, 1] s'"
  using find_vma_exact [OF vm_sample_ok, of "0x401000"] by (auto simp: vm_sample_def in_vma_def)

lemma mm_map_refines_witness:
  "\<exists>s' vs'. mm_map 0 0x300010 0x1000 0x3 (Some 2) vm_sample = Some (s', 0, Some 2) \<and> vm_ok 0 vs' s' \<and>
     map (area s') vs' = [(0x200000, 0x203000, 0x3), (0x300000, 0x302000, 0x3), (0x400000, 0x402000, 0xB)]"
proof -
  have v: "area_map (map (area vm_sample) [0, 1]) (ROUNDDOWN 0x300010 PGSIZE)
      (ROUNDUP (u64 (0x300010 + 0x1000)) PGSIZE) 0x3 (Some (2::nat) \<noteq> None) =
    Some ([(0x200000, 0x203000, 0x3), (0x300000, 0x302000, 0x3), (0x400000, 0x402000, 0xB)], 0)"
    by (simp add: area_map_def area_def vm_sample_def ROUNDUP_def ROUNDDOWN_def PGSIZE_def USER_ACCESS_def
        USERBASE_def USERTOP_def)
  have "\<forall>v. Some 2 = Some v \<longrightarrow> v \<notin> set [0, 1 :: nat]" by simp
  from mm_map_refines [OF vm_sample_ok this, of "0x300010" "0x1000" "0x3"] show ?thesis
    unfolding v option.case prod.case if_True simp_thms by (elim exE conjE) (intro exI conjI)
qed

lemma user_mem_check_exact_witness:
  "\<exists>s'. user_mem_check (Some 0) 0x400000 0x10 True vm_sample = Some (s', False)"
proof -
  have no: "\<not> user_ok vm_sample [0, 1] True 0x400000"
    by (simp add: user_ok_def vm_sample_def in_vma_def VM_WRITE_def VM_STACK_def PGSIZE_def)
  have "(\<forall>a. 0x400000 \<le> a \<and> a < u64 (0x400000 + 0x10) \<longrightarrow> user_ok vm_sample [0, 1] True a) = False"
    using no by (auto intro!: exI [of _ "0x400000"])
  then show ?thesis
    using user_mem_check_exact [OF vm_sample_ok, of "0x400000" "0x10" True] by auto
qed

lemma mm_destroy_frees_witness:
  "\<exists>s'. mm_destroy 0 vm_sample = Some s' \<and> kfreed s' = [VmaLink 0, VmaLink 1, Mmap 0]"
  using mm_destroy_frees [OF vm_sample_ok] by (auto simp: vm_sample_def)

end
