(* ===== verification/Process.thy ===== *)
theory Process
  imports Vmm Sched
begin

unbundle bit_operations_syntax

text \<open>
  Process management of lab 5: \<open>kern/process/proc.c\<close>, the scheduler that walks the process
  list, \<open>kern/schedule/sched.c\<close>, and \<open>hash32\<close>.  A \<open>struct proc_struct *\<close> is a number.  The
  process list and the 1024 hash chains are rings over one pair of link maps; the family
  pointers \<open>parent\<close>, \<open>cptr\<close>, \<open>yptr\<close>, \<open>optr\<close> are fields.  Address spaces are those of \<open>Vmm\<close>.
  Results of \<open>kmalloc\<close> are arguments, \<open>kfree\<close> adds to the log \<open>freed\<close>.

  A kernel stack and a page directory are named by the number of their first page frame,
  \<open>kva\<close> gives the address.  The register switch of \<open>switch_to\<close> is assembly; \<open>p_current\<close> and
  \<open>cr3_reg\<close> are what is left of a switch.  Interrupts are off where the source disables them,
  so that every operation is one step.
\<close>

section \<open>State\<close>

datatype code_entry = NoEntry | Forkret | KernelThreadEntry | UserEntry nat

record trapframe =
  tf_gpr :: "nat \<Rightarrow> 64 word"
  tf_status :: "64 word"
  tf_epc :: code_entry

record pcb =
  pr_state :: proc_state
  pr_pid :: int
  pr_runs :: int
  pr_kstack :: nat
  pr_need_resched :: bool
  pr_parent :: "nat option"
  pr_mm :: "nat option"
  pr_ctx_ra :: code_entry
  pr_ctx_sp :: nat
  pr_tf :: nat
  pr_frame :: trapframe
  pr_cr3 :: nat
  pr_flags :: "32 word"
  pr_exit_code :: int
  pr_wait :: "32 word"
  cptr :: "nat option"
  yptr :: "nat option"
  optr :: "nat option"

datatype pnode = ProcList | PLink nat | HashHead nat | HLink nat

record pstate =
  p_links :: "pnode links"
  pcbs :: "nat \<Rightarrow> pcb"
  p_current :: "nat option"
  p_idle :: "nat option"
  p_init :: "nat option"
  nr_process :: int
  next_safe :: int
  last_pid :: int
  cr3_reg :: nat
  boot_pgdir :: nat
  freed :: "nat list"
  space :: vmm

definition MAX_PROCESS :: int where "MAX_PROCESS = 4096"
definition MAX_PID :: int where "MAX_PID = MAX_PROCESS * 2"
definition HASH_LIST_SIZE :: nat where "HASH_LIST_SIZE = 2 ^ 10"
definition PF_EXITING :: "32 word" where "PF_EXITING = 0x1"
definition CLONE_VM :: "32 word" where "CLONE_VM = 0x100"
definition KSTACKPAGE :: nat where "KSTACKPAGE = 2"
definition KSTACKSIZE :: nat where "KSTACKSIZE = KSTACKPAGE * PGSIZE"

definition upd_pcb :: "nat \<Rightarrow> (pcb \<Rightarrow> pcb) \<Rightarrow> pstate \<Rightarrow> pstate" where
  "upd_pcb p f s = s\<lparr>pcbs := (pcbs s)(p := f (pcbs s p))\<rparr>"

definition hash32 :: "32 word \<Rightarrow> nat \<Rightarrow> 32 word" where
  "hash32 val bits = drop_bit (32 - bits) (val * 0x9e370001)"

definition pid_hashfn :: "int \<Rightarrow> nat" where
  "pid_hashfn pid = unat (hash32 (word_of_int pid) 10)"

section \<open>Process control blocks and links\<close>

definition alloc_proc :: "nat option \<Rightarrow> pstate \<Rightarrow> pstate \<times> nat option" where
  "alloc_proc new s =
    (case new of
       None \<Rightarrow> (s, None)
     | Some p \<Rightarrow>
         (upd_pcb p (\<lambda>q. q\<lparr>pr_state := PROC_UNINIT, pr_pid := -1, pr_runs := 0, pr_kstack := 0,
              pr_need_resched := False, pr_parent := None, pr_mm := None, pr_ctx_ra := NoEntry,
              pr_ctx_sp := 0, pr_tf := 0, pr_cr3 := boot_pgdir s, pr_flags := 0, pr_wait := 0,
              cptr := None, optr := None, yptr := None\<rparr>) s, Some p))"

definition set_links :: "nat \<Rightarrow> pstate \<Rightarrow> pstate option" where
  "set_links p s = do {
     let s = s\<lparr>p_links := list_add ProcList (PLink p) (p_links s)\<rparr>;
     let s = upd_pcb p (\<lambda>q. q\<lparr>yptr := None\<rparr>) s;
     par \<leftarrow> pr_parent (pcbs s p);
     let s = upd_pcb p (\<lambda>q. q\<lparr>optr := cptr (pcbs s par)\<rparr>) s;
     let s = (case optr (pcbs s p) of None \<Rightarrow> s | Some older \<Rightarrow> upd_pcb older (\<lambda>q. q\<lparr>yptr := Some p\<rparr>) s);
     let s = upd_pcb par (\<lambda>q. q\<lparr>cptr := Some p\<rparr>) s;
     Some (s\<lparr>nr_process := nr_process s + 1\<rparr>) }"

definition remove_links :: "nat \<Rightarrow> pstate \<Rightarrow> pstate option" where
  "remove_links p s = do {
     let s = s\<lparr>p_links := list_del (PLink p) (p_links s)\<rparr>;
     let s = (case optr (pcbs s p) of
                None \<Rightarrow> s
              | Some older \<Rightarrow> upd_pcb older (\<lambda>q. q\<lparr>yptr := yptr (pcbs s p)\<rparr>) s);
     s \<leftarrow> (case yptr (pcbs s p) of
             Some younger \<Rightarrow> Some (upd_pcb younger (\<lambda>q. q\<lparr>optr := optr (pcbs s p)\<rparr>) s)
           | None \<Rightarrow> do { par \<leftarrow> pr_parent (pcbs s p); Some (upd_pcb par (\<lambda>q. q\<lparr>cptr := optr (pcbs s p)\<rparr>) s) });
     Some (s\<lparr>nr_process := nr_process s - 1\<rparr>) }"

text \<open>The scan of \<open>get_pid\<close>: \<open>goto repeat\<close> starts again at the head of the list.\<close>

partial_function (option) pid_scan :: "pnode \<Rightarrow> int \<Rightarrow> int \<Rightarrow> pstate \<Rightarrow> (int \<times> int) option" where
  "pid_scan le cand safe s =
    (case list_next le (p_links s) of
       PLink q \<Rightarrow>
         (let pid = pr_pid (pcbs s q)
          in if pid = cand then
               if cand + 1 \<ge> safe
               then pid_scan ProcList (if cand + 1 \<ge> MAX_PID then 1 else cand + 1) MAX_PID s
               else pid_scan (PLink q) (cand + 1) safe s
             else if pid > cand \<and> safe > pid then pid_scan (PLink q) cand pid s
             else pid_scan (PLink q) cand safe s)
     | _ \<Rightarrow> Some (cand, safe))"

definition get_pid :: "pstate \<Rightarrow> (pstate \<times> int) option" where
  "get_pid s = do {
     let cand = last_pid s + 1;
     (cand, safe) \<leftarrow>
       (if cand \<ge> MAX_PID then pid_scan ProcList 1 MAX_PID s
        else if cand \<ge> next_safe s then pid_scan ProcList cand MAX_PID s
        else Some (cand, next_safe s));
     Some (s\<lparr>last_pid := cand, next_safe := safe\<rparr>, cand) }"

definition hash_proc :: "nat \<Rightarrow> pstate \<Rightarrow> pstate" where
  "hash_proc p s = s\<lparr>p_links := list_add (HashHead (pid_hashfn (pr_pid (pcbs s p)))) (HLink p) (p_links s)\<rparr>"

definition unhash_proc :: "nat \<Rightarrow> pstate \<Rightarrow> pstate" where
  "unhash_proc p s = s\<lparr>p_links := list_del (HLink p) (p_links s)\<rparr>"

partial_function (option) find_proc_loop :: "int \<Rightarrow> pnode \<Rightarrow> pstate \<Rightarrow> nat option option" where
  "find_proc_loop pid le s =
    (case list_next le (p_links s) of
       HLink q \<Rightarrow> if pr_pid (pcbs s q) = pid then Some (Some q) else find_proc_loop pid (HLink q) s
     | _ \<Rightarrow> Some None)"

definition find_proc :: "int \<Rightarrow> pstate \<Rightarrow> nat option option" where
  "find_proc pid s =
    (if 0 < pid \<and> pid < MAX_PID then find_proc_loop pid (HashHead (pid_hashfn pid)) s else Some None)"

section \<open>Scheduling\<close>

definition wakeup_proc5 :: "nat \<Rightarrow> pstate \<Rightarrow> pstate option" where
  "wakeup_proc5 p s = do {
     assert_k (pr_state (pcbs s p) \<noteq> PROC_ZOMBIE);
     Some (if pr_state (pcbs s p) \<noteq> PROC_RUNNABLE
           then upd_pcb p (\<lambda>q. q\<lparr>pr_state := PROC_RUNNABLE, pr_wait := 0\<rparr>) s else s) }"

definition proc_run5 :: "nat \<Rightarrow> pstate \<Rightarrow> pstate" where
  "proc_run5 p s =
    (if Some p \<noteq> p_current s then s\<lparr>p_current := Some p, cr3_reg := pr_cr3 (pcbs s p)\<rparr> else s)"

text \<open>The result is the last value of \<open>next\<close>.\<close>

partial_function (option) schedule_loop :: "pnode \<Rightarrow> pnode \<Rightarrow> nat option \<Rightarrow> pstate \<Rightarrow> nat option option" where
  "schedule_loop stop le nxt s =
    (let le = list_next le (p_links s)
     in case le of
          PLink q \<Rightarrow>
            if pr_state (pcbs s q) = PROC_RUNNABLE then Some (Some q)
            else if le \<noteq> stop then schedule_loop stop le (Some q) s else Some (Some q)
        | _ \<Rightarrow> if le \<noteq> stop then schedule_loop stop le nxt s else Some nxt)"

definition schedule5 :: "pstate \<Rightarrow> pstate option" where
  "schedule5 s = do {
     c \<leftarrow> p_current s;
     i \<leftarrow> p_idle s;
     let s = upd_pcb c (\<lambda>q. q\<lparr>pr_need_resched := False\<rparr>) s;
     let stop = (if c = i then ProcList else PLink c);
     r \<leftarrow> schedule_loop stop stop None s;
     let next = (case r of
                   None \<Rightarrow> i
                 | Some n \<Rightarrow> if pr_state (pcbs s n) \<noteq> PROC_RUNNABLE then i else n);
     let s = upd_pcb next (\<lambda>q. q\<lparr>pr_runs := pr_runs q + 1\<rparr>) s;
     Some (if next \<noteq> c then proc_run5 next s else s) }"

definition do_yield5 :: "pstate \<Rightarrow> (pstate \<times> int) option" where
  "do_yield5 s = do { c \<leftarrow> p_current s; Some (upd_pcb c (\<lambda>q. q\<lparr>pr_need_resched := True\<rparr>) s, 0) }"

section \<open>Creating a process\<close>

definition on_space :: "(vmm \<Rightarrow> vmm option) \<Rightarrow> pstate \<Rightarrow> pstate option" where
  "on_space f s = do { v \<leftarrow> f (space s); Some (s\<lparr>space := v\<rparr>) }"

definition on_machine :: "(machine \<Rightarrow> machine option) \<Rightarrow> pstate \<Rightarrow> pstate option" where
  "on_machine f s = on_space (\<lambda>v. do { h \<leftarrow> f (mach v); Some (v\<lparr>mach := h\<rparr>) }) s"

definition setup_kstack :: "nat \<Rightarrow> pstate \<Rightarrow> (pstate \<times> int) option" where
  "setup_kstack p s = do {
     (h, r) \<leftarrow> alloc_pages KSTACKPAGE (mach (space s));
     let s = s\<lparr>space := (space s)\<lparr>mach := h\<rparr>\<rparr>;
     (case r of
        None \<Rightarrow> Some (s, - E_NO_MEM)
      | Some page \<Rightarrow> do { k \<leftarrow> page2kva page; Some (upd_pcb p (\<lambda>q. q\<lparr>pr_kstack := k\<rparr>) s, 0) }) }"

definition put_kstack :: "nat \<Rightarrow> pstate \<Rightarrow> pstate option" where
  "put_kstack p s = on_machine (free_pages (pr_kstack (pcbs s p) - nbase) KSTACKPAGE) s"

definition mm_count_inc :: "nat \<Rightarrow> vmm \<Rightarrow> vmm" where
  "mm_count_inc m v = upd_mm m (\<lambda>x. x\<lparr>mm_count := mm_count x + 1\<rparr>) v"

definition mm_count_dec :: "nat \<Rightarrow> vmm \<Rightarrow> vmm" where
  "mm_count_dec m v = upd_mm m (\<lambda>x. x\<lparr>mm_count := mm_count x - 1\<rparr>) v"

definition adopt_mm :: "nat \<Rightarrow> nat \<Rightarrow> pstate \<Rightarrow> (pstate \<times> int) option" where
  "adopt_mm p m s = do {
     let v = mm_count_inc m (space s);
     d \<leftarrow> pgdir_of (mms v m);
     Some (upd_pcb p (\<lambda>q. q\<lparr>pr_mm := Some m, pr_cr3 := d\<rparr>) (s\<lparr>space := v\<rparr>), 0) }"

definition copy_mm :: "32 word \<Rightarrow> nat option \<Rightarrow> (nat \<Rightarrow> nat option) \<Rightarrow> nat \<Rightarrow> pstate \<Rightarrow> (pstate \<times> int) option" where
  "copy_mm clone_flags new_mm new p s = do {
     c \<leftarrow> p_current s;
     (case pr_mm (pcbs s c) of
        None \<Rightarrow> Some (s, 0)
      | Some oldmm \<Rightarrow>
          if clone_flags AND CLONE_VM \<noteq> 0 then adopt_mm p oldmm s
          else (case mm_create new_mm (space s) of
                  (v, None) \<Rightarrow> Some (s\<lparr>space := v\<rparr>, - E_NO_MEM)
                | (v, Some m) \<Rightarrow> do {
                    (v, ret) \<leftarrow> setup_pgdir (boot_pgdir s) m v;
                    if ret \<noteq> 0 then do { v \<leftarrow> mm_destroy m v; Some (s\<lparr>space := v\<rparr>, - E_NO_MEM) }
                    else do {
                      (v, ret) \<leftarrow> dup_mmap new m oldmm v;
                      if ret \<noteq> 0 then do {
                        v \<leftarrow> exit_mmap m v;
                        v \<leftarrow> put_pgdir m v;
                        v \<leftarrow> mm_destroy m v;
                        Some (s\<lparr>space := v\<rparr>, ret) }
                      else adopt_mm p m (s\<lparr>space := v\<rparr>) } })) }"

text \<open>The trap frame has 36 words; \<open>a0\<close> is register 10 and \<open>sp\<close> register 2.\<close>

definition copy_thread :: "nat \<Rightarrow> 64 word \<Rightarrow> trapframe \<Rightarrow> pstate \<Rightarrow> pstate" where
  "copy_thread p esp tf s =
    (let addr = kva (pr_kstack (pcbs s p)) + KSTACKSIZE - 36 * 8;
         sp = (if esp = 0 then of_nat addr - 4 else esp);
         frame = tf\<lparr>tf_gpr := (tf_gpr tf)(10 := 0, 2 := sp)\<rparr>
     in upd_pcb p (\<lambda>q. q\<lparr>pr_tf := addr, pr_frame := frame, pr_ctx_ra := Forkret, pr_ctx_sp := addr\<rparr>) s)"

definition do_fork ::
    "32 word \<Rightarrow> 64 word \<Rightarrow> trapframe \<Rightarrow> nat option \<Rightarrow> nat option \<Rightarrow> (nat \<Rightarrow> nat option) \<Rightarrow> pstate \<Rightarrow> (pstate \<times> int) option" where
  "do_fork clone_flags stack tf new_proc new_mm new_vma s =
    (if nr_process s \<ge> MAX_PROCESS then Some (s, - E_NO_FREE_PROC)
     else (case alloc_proc new_proc s of
             (s, None) \<Rightarrow> Some (s, - E_NO_MEM)
           | (s, Some p) \<Rightarrow> do {
               c \<leftarrow> p_current s;
               let s = upd_pcb p (\<lambda>q. q\<lparr>pr_parent := Some c\<rparr>) s;
               assert_k (pr_wait (pcbs s c) = 0);
               (s, ret) \<leftarrow> setup_kstack p s;
               if ret \<noteq> 0 then Some (s\<lparr>freed := freed s @ [p]\<rparr>, - E_NO_MEM)
               else do {
                 (s, ret) \<leftarrow> copy_mm clone_flags new_mm new_vma p s;
                 if ret \<noteq> 0 then do {
                   s \<leftarrow> put_kstack p s;
                   Some (s\<lparr>freed := freed s @ [p]\<rparr>, - E_NO_MEM) }
                 else do {
                   let s = copy_thread p stack tf s;
                   (s, pid) \<leftarrow> get_pid s;
                   let s = upd_pcb p (\<lambda>q. q\<lparr>pr_pid := pid\<rparr>) s;
                   let s = hash_proc p s;
                   s \<leftarrow> set_links p s;
                   s \<leftarrow> wakeup_proc5 p s;
                   Some (s, pr_pid (pcbs s p)) } } }))"

text \<open>\<open>status\<close> is the value of the register \<open>sstatus\<close>.\<close>

definition kernel_thread ::
    "64 word \<Rightarrow> 64 word \<Rightarrow> 32 word \<Rightarrow> 64 word \<Rightarrow> nat option \<Rightarrow> pstate \<Rightarrow> (pstate \<times> int) option" where
  "kernel_thread fn arg clone_flags status new_proc s =
    do_fork (clone_flags OR CLONE_VM) 0
      \<lparr>tf_gpr = (\<lambda>_. 0)(8 := fn, 9 := arg),
       tf_status = (status OR 0x100 OR 0x20) AND NOT 0x2, tf_epc = KernelThreadEntry\<rparr>
      new_proc None (\<lambda>_. None) s"

section \<open>The end of a process\<close>

definition leave_mm :: "nat \<Rightarrow> pstate \<Rightarrow> pstate option" where
  "leave_mm c s =
    (case pr_mm (pcbs s c) of
       None \<Rightarrow> Some s
     | Some m \<Rightarrow> do {
         let s = s\<lparr>cr3_reg := boot_pgdir s\<rparr>;
         let v = mm_count_dec m (space s);
         v \<leftarrow> (if mm_count (mms v m) = 0
               then do { v \<leftarrow> exit_mmap m v; v \<leftarrow> put_pgdir m v; mm_destroy m v }
               else Some v);
         Some (upd_pcb c (\<lambda>q. q\<lparr>pr_mm := None\<rparr>) (s\<lparr>space := v\<rparr>)) })"

text \<open>One round of the loop of \<open>do_exit\<close>: the child \<open>p\<close> of \<open>c\<close> goes to \<open>initproc\<close>.\<close>

definition reparent_one :: "nat \<Rightarrow> nat \<Rightarrow> nat \<Rightarrow> pstate \<Rightarrow> pstate option" where
  "reparent_one c i p s = do {
     let s = upd_pcb c (\<lambda>q. q\<lparr>cptr := optr (pcbs s p)\<rparr>) s;
     let s = upd_pcb p (\<lambda>q. q\<lparr>yptr := None\<rparr>) s;
     let s = upd_pcb p (\<lambda>q. q\<lparr>optr := cptr (pcbs s i)\<rparr>) s;
     s \<leftarrow> (case optr (pcbs s p) of
             None \<Rightarrow> Some s
           | Some _ \<Rightarrow> do { first \<leftarrow> cptr (pcbs s i); Some (upd_pcb first (\<lambda>q. q\<lparr>yptr := Some p\<rparr>) s) });
     let s = upd_pcb p (\<lambda>q. q\<lparr>pr_parent := Some i\<rparr>) s;
     let s = upd_pcb i (\<lambda>q. q\<lparr>cptr := Some p\<rparr>) s;
     if pr_state (pcbs s p) = PROC_ZOMBIE \<and> pr_wait (pcbs s i) = WT_CHILD then wakeup_proc5 i s else Some s }"

partial_function (option) reparent_loop :: "nat \<Rightarrow> pstate \<Rightarrow> pstate option" where
  "reparent_loop c s =
    (case cptr (pcbs s c) of
       None \<Rightarrow> Some s
     | Some p \<Rightarrow> do {
         i \<leftarrow> p_init s;
         s \<leftarrow> reparent_one c i p s;
         reparent_loop c s })"

text \<open>\<open>do_exit\<close> up to the call of \<open>schedule\<close>, which does not come back to a zombie.\<close>

definition exit_steps :: "int \<Rightarrow> nat \<Rightarrow> pstate \<Rightarrow> pstate option" where
  "exit_steps error_code c s = do {
     assert_k (Some c \<noteq> p_idle s);
     assert_k (Some c \<noteq> p_init s);
     s \<leftarrow> leave_mm c s;
     let s = upd_pcb c (\<lambda>q. q\<lparr>pr_state := PROC_ZOMBIE, pr_exit_code := error_code\<rparr>) s;
     par \<leftarrow> pr_parent (pcbs s c);
     s \<leftarrow> (if pr_wait (pcbs s par) = WT_CHILD then wakeup_proc5 par s else Some s);
     reparent_loop c s }"

definition do_exit :: "int \<Rightarrow> pstate \<Rightarrow> pstate option" where
  "do_exit error_code s = do {
     c \<leftarrow> p_current s;
     s \<leftarrow> exit_steps error_code c s;
     schedule5 s }"

section \<open>Waiting for a child, killing\<close>

text \<open>The loop over the children: \<open>haskid\<close> and the zombie found.\<close>

partial_function (option) child_loop :: "nat option \<Rightarrow> bool \<Rightarrow> pstate \<Rightarrow> (bool \<times> nat option) option" where
  "child_loop p haskid s =
    (case p of
       None \<Rightarrow> Some (haskid, None)
     | Some q \<Rightarrow> if pr_state (pcbs s q) = PROC_ZOMBIE then Some (True, Some q)
                 else child_loop (optr (pcbs s q)) True s)"

definition find_zombie :: "int \<Rightarrow> nat \<Rightarrow> pstate \<Rightarrow> (bool \<times> nat option) option" where
  "find_zombie pid c s =
    (if pid \<noteq> 0 then do {
       r \<leftarrow> find_proc pid s;
       (case r of
          None \<Rightarrow> Some (False, None)
        | Some p \<Rightarrow>
            if pr_parent (pcbs s p) = Some c
            then Some (True, if pr_state (pcbs s p) = PROC_ZOMBIE then Some p else None)
            else Some (False, None)) }
     else child_loop (cptr (pcbs s c)) False s)"

definition reap :: "nat \<Rightarrow> pstate \<Rightarrow> pstate option" where
  "reap p s = do {
     assert_k (Some p \<noteq> p_idle s \<and> Some p \<noteq> p_init s);
     let s = unhash_proc p s;
     s \<leftarrow> remove_links p s;
     s \<leftarrow> put_kstack p s;
     Some (s\<lparr>freed := freed s @ [p]\<rparr>) }"

text \<open>
  \<open>do_wait\<close> returns, or it sleeps: then another process has been chosen, and the caller
  goes on with \<open>do_wait_resume\<close> when it is run again.  \<open>Returned r w\<close> has the return value
  and the exit code stored through \<open>code_store\<close>.
\<close>

datatype wait_result = Returned int "int option" | Sleeping | Exited

definition do_wait_repeat :: "int \<Rightarrow> bool \<Rightarrow> pstate \<Rightarrow> (pstate \<times> wait_result) option" where
  "do_wait_repeat pid store s = do {
     c \<leftarrow> p_current s;
     (haskid, found) \<leftarrow> find_zombie pid c s;
     (case found of
        Some p \<Rightarrow> do {
          let w = (if store then Some (pr_exit_code (pcbs s p)) else None);
          s \<leftarrow> reap p s;
          Some (s, Returned 0 w) }
      | None \<Rightarrow>
          if haskid then do {
            let s = upd_pcb c (\<lambda>q. q\<lparr>pr_state := PROC_SLEEPING, pr_wait := WT_CHILD\<rparr>) s;
            s \<leftarrow> schedule5 s;
            Some (s, Sleeping) }
          else Some (s, Returned (- E_BAD_PROC) None)) }"

definition do_wait :: "int \<Rightarrow> nat option \<Rightarrow> pstate \<Rightarrow> (pstate \<times> wait_result) option" where
  "do_wait pid code_store s = do {
     c \<leftarrow> p_current s;
     (s, ok) \<leftarrow>
       (case code_store of
          None \<Rightarrow> Some (s, True)
        | Some a \<Rightarrow> do {
            (v, ok) \<leftarrow> user_mem_check (pr_mm (pcbs s c)) a 4 True (space s);
            Some (s\<lparr>space := v\<rparr>, ok) });
     if \<not> ok then Some (s, Returned (- E_INVAL) None)
     else do_wait_repeat pid (code_store \<noteq> None) s }"

definition do_wait_resume :: "int \<Rightarrow> bool \<Rightarrow> pstate \<Rightarrow> (pstate \<times> wait_result) option" where
  "do_wait_resume pid store s = do {
     c \<leftarrow> p_current s;
     if pr_flags (pcbs s c) AND PF_EXITING \<noteq> 0
     then do { s \<leftarrow> do_exit (- E_KILLED) s; Some (s, Exited) }
     else do_wait_repeat pid store s }"

definition do_kill :: "int \<Rightarrow> pstate \<Rightarrow> (pstate \<times> int) option" where
  "do_kill pid s = do {
     r \<leftarrow> find_proc pid s;
     (case r of
        None \<Rightarrow> Some (s, - E_INVAL)
      | Some p \<Rightarrow>
          if pr_flags (pcbs s p) AND PF_EXITING = 0 then do {
            let s = upd_pcb p (\<lambda>q. q\<lparr>pr_flags := pr_flags q OR PF_EXITING\<rparr>) s;
            s \<leftarrow> (if pr_wait (pcbs s p) AND WT_INTERRUPTED \<noteq> 0 then wakeup_proc5 p s else Some s);
            Some (s, 0) }
          else Some (s, - E_KILLED)) }"

section \<open>Starting up\<close>

text \<open>\<open>stack\<close> is the frame of \<open>bootstack\<close>; \<open>init_main\<close> is the code address of the first thread.\<close>

definition proc_init :: "nat \<Rightarrow> 64 word \<Rightarrow> 64 word \<Rightarrow> nat option \<Rightarrow> nat option \<Rightarrow> pstate \<Rightarrow> pstate option" where
  "proc_init stack init_main status new_idle new_init s = do {
     let s = s\<lparr>p_links := list_init ProcList (p_links s)\<rparr>;
     let s = s\<lparr>p_links := fold (\<lambda>i. list_init (HashHead i)) [0..<HASH_LIST_SIZE] (p_links s)\<rparr>;
     let (s, idle) = alloc_proc new_idle s;
     let s = s\<lparr>p_idle := idle\<rparr>;
     i \<leftarrow> idle;
     let s = upd_pcb i (\<lambda>q. q\<lparr>pr_pid := 0, pr_state := PROC_RUNNABLE, pr_kstack := stack, pr_need_resched := True\<rparr>) s;
     let s = s\<lparr>nr_process := nr_process s + 1\<rparr>;
     let s = s\<lparr>p_current := idle\<rparr>;
     (s, pid) \<leftarrow> kernel_thread init_main 0 0 status new_init s;
     assert_k (pid > 0);
     r \<leftarrow> find_proc pid s;
     let s = s\<lparr>p_init := r\<rparr>;
     p \<leftarrow> r;
     assert_k (pr_pid (pcbs s p) = 1);
     Some s }"

end
