(* ===== verification/Process_Lists.thy ===== *)
theory Process_Lists
  imports Process
begin

text \<open>
  The process list and the hash chains of \<open>Process\<close>: pids are unique, \<open>get_pid\<close> finds a free
  one, \<open>find_proc\<close> is a search of the process list, and the scheduler of lab 5 takes the next
  runnable process in the order of that list.
\<close>

section \<open>Walking the process list\<close>

abbreviation pid_of :: "pstate \<Rightarrow> nat \<Rightarrow> int" where "pid_of s p \<equiv> pr_pid (pcbs s p)"

definition listed :: "nat list \<Rightarrow> pstate \<Rightarrow> bool" where
  "listed ps s \<longleftrightarrow> ring (p_links s) ProcList (map PLink ps)"

text \<open>The entry before the suffix \<open>ws\<close> in a ring with head \<open>h\<close>.\<close>

lemma ring_next_split:
  assumes "ring l h (us @ ws)"
  shows "list_next (last (h # us)) l = hd (ws @ [h])"
proof (cases ws)
  case (Cons w ws')
  then show ?thesis using ring_step(3) [of l h us w ws'] assms by (simp add: list_next_def)
next
  case Nil
  show ?thesis
  proof (cases us rule: rev_cases)
    case Nil
    then show ?thesis using \<open>ws = []\<close> ring_first [OF assms] by (simp add: list_next_def)
  next
    case (snoc us' u)
    then show ?thesis using \<open>ws = []\<close> ring_step(1) [of l h us' u "[]"] assms by (simp add: list_next_def)
  qed
qed

lemma listed_next:
  "listed (us @ ws) s \<Longrightarrow> list_next (last (ProcList # map PLink us)) (p_links s) = hd (map PLink ws @ [ProcList])"
  using ring_next_split [of "p_links s" ProcList "map PLink us" "map PLink ws"] by (simp add: listed_def)

lemma last_snoc_link: "last (ProcList # map PLink (us @ [q])) = PLink q"
  by simp

section \<open>Allocating a pid\<close>

text \<open>Between the candidate and \<open>safe\<close> no process of \<open>us\<close> has a pid.\<close>

definition window :: "nat list \<Rightarrow> int \<Rightarrow> int \<Rightarrow> pstate \<Rightarrow> bool" where
  "window us cand safe s \<longleftrightarrow> 1 \<le> cand \<and> cand < safe \<and> safe \<le> MAX_PID \<and>
     (\<forall>q\<in>set us. pid_of s q \<noteq> cand \<and> (cand < pid_of s q \<longrightarrow> safe \<le> pid_of s q))"

lemma window_Nil [simp]: "window [] cand safe s \<longleftrightarrow> 1 \<le> cand \<and> cand < safe \<and> safe \<le> MAX_PID"
  by (simp add: window_def)

text \<open>How far the search still has to go to the free pid \<open>f\<close>, around the end of the range.\<close>

definition pid_gap :: "int \<Rightarrow> int \<Rightarrow> nat" where
  "pid_gap f cand = nat (if cand \<le> f then f - cand else f - cand + (MAX_PID - 1))"

definition next_pid :: "int \<Rightarrow> int" where
  "next_pid cand = (if cand + 1 \<ge> MAX_PID then 1 else cand + 1)"

lemma MAX_PID_eq: "MAX_PID = 8192"
  by (simp add: MAX_PID_def MAX_PROCESS_def)

lemma pid_gap_next:
  assumes "1 \<le> f" "f < MAX_PID" "1 \<le> cand" "cand < MAX_PID" "cand \<noteq> f"
  shows "pid_gap f (next_pid cand) < pid_gap f cand"
  using assms unfolding pid_gap_def next_pid_def MAX_PID_eq by (auto split: if_splits)

lemma pid_scan_ok:
  assumes "listed ps s" and "ps = us @ ws" and "window us cand safe s"
    and f: "1 \<le> f" "f < MAX_PID" "\<forall>q\<in>set ps. pid_of s q \<noteq> f"
  shows "\<exists>c n. pid_scan (last (ProcList # map PLink us)) cand safe s = Some (c, n) \<and> window ps c n s"
  using assms(2,3)
proof (induction "pid_gap f cand * Suc (length ps) + length ws" arbitrary: us ws cand safe rule: less_induct)
  case less
  note nxt = listed_next [OF assms(1) [unfolded less.prems(1)]]
  show ?case
  proof (cases ws)
    case Nil
    then have "pid_scan (last (ProcList # map PLink us)) cand safe s = Some (cand, safe)"
      using nxt by (subst pid_scan.simps) simp
    then show ?thesis using less.prems Nil by simp
  next
    case (Cons q vs)
    have w: "1 \<le> cand" "cand < safe" "safe \<le> MAX_PID" using less.prems(2) by (auto simp: window_def)
    have q: "q \<in> set ps" using less.prems(1) Cons by simp
    have step: "pid_scan (last (ProcList # map PLink us)) cand safe s =
        (if pid_of s q = cand then
           if cand + 1 \<ge> safe then pid_scan ProcList (next_pid cand) MAX_PID s
           else pid_scan (PLink q) (cand + 1) safe s
         else if pid_of s q > cand \<and> safe > pid_of s q then pid_scan (PLink q) cand (pid_of s q) s
         else pid_scan (PLink q) cand safe s)"
      using nxt Cons by (subst pid_scan.simps) (simp add: next_pid_def Let_def)
    have ps: "ps = (us @ [q]) @ vs" using less.prems(1) Cons by simp
    have same: "pid_gap f cand * Suc (length ps) + length vs < pid_gap f cand * Suc (length ps) + length ws"
      using Cons by simp
    show ?thesis
    proof (cases "pid_of s q = cand")
      case True
      then have "cand \<noteq> f" using f(3) q by blast
      then have gap: "pid_gap f (next_pid cand) < pid_gap f cand"
        using pid_gap_next [OF f(1,2), of cand] w by linarith
      have dec: "pid_gap f (next_pid cand) * Suc (length ps) + length zs <
          pid_gap f cand * Suc (length ps) + length ws" if "length zs \<le> length ps" for zs :: "nat list"
      proof -
        have "Suc (pid_gap f (next_pid cand)) * Suc (length ps) \<le> pid_gap f cand * Suc (length ps)"
          using gap by (intro mult_le_mono1) simp
        then show ?thesis using that by simp
      qed
      show ?thesis
      proof (cases "cand + 1 \<ge> safe")
        case wrap: True
        have w0: "window [] (next_pid cand) MAX_PID s" using w by (auto simp: next_pid_def MAX_PID_eq)
        from less.hyps [OF dec [OF le_refl] _ w0] show ?thesis
          using step True wrap by simp
      next
        case False
        then have eq: "next_pid cand = cand + 1" using w by (simp add: next_pid_def)
        have "window (us @ [q]) (cand + 1) safe s"
          using less.prems(2) False True w by (fastforce simp: window_def)
        moreover have "length vs \<le> length ps" using less.prems(1) Cons by simp
        ultimately have "\<exists>c n. pid_scan (last (ProcList # map PLink (us @ [q]))) (cand + 1) safe s = Some (c, n) \<and> window ps c n s"
          using less.hyps [OF dec [of vs, unfolded eq] ps] by blast
        then show ?thesis
          using step True False ps last_snoc_link [of us q] by (simp del: map_append last.simps)
      qed
    next
      case False
      show ?thesis
      proof (cases "pid_of s q > cand \<and> safe > pid_of s q")
        case True
        have "window (us @ [q]) cand (pid_of s q) s"
          using less.prems(2) True w by (fastforce simp: window_def)
        from less.hyps [OF same ps this] show ?thesis
          using step False True last_snoc_link [of us q] by (simp del: map_append last.simps)
      next
        case other: False
        have "window (us @ [q]) cand safe s"
          using less.prems(2) False other by (auto simp: window_def)
        from less.hyps [OF same ps this] show ?thesis
          using step False other last_snoc_link [of us q] by (simp del: map_append last.simps)
      qed
    qed
  qed
qed

definition pid_inv :: "nat list \<Rightarrow> pstate \<Rightarrow> bool" where
  "pid_inv ps s \<longleftrightarrow> 0 \<le> last_pid s \<and> next_safe s \<le> MAX_PID \<and>
     (\<forall>q\<in>set ps. last_pid s < pid_of s q \<longrightarrow> next_safe s \<le> pid_of s q)"

lemma free_pid_exists:
  assumes "length ps < nat MAX_PID - 1"
  shows "\<exists>f. 1 \<le> f \<and> f < MAX_PID \<and> (\<forall>q\<in>set ps. pid_of s q \<noteq> f)"
proof (rule ccontr)
  assume "\<not> ?thesis"
  then have "{1..<MAX_PID} \<subseteq> pid_of s ` set ps" by auto
  then have "card {1..<MAX_PID} \<le> length ps"
    using card_mono [of "pid_of s ` set ps"] card_image_le [of "set ps" "pid_of s"] card_length [of ps]
    by (meson List.finite_set finite_imageI le_trans)
  then show False using assms by (simp add: MAX_PID_eq)
qed

lemma get_pid_ok:
  assumes "listed ps s" and "pid_inv ps s" and "length ps < nat MAX_PID - 1"
  shows "\<exists>pid n. get_pid s = Some (s\<lparr>last_pid := pid, next_safe := n\<rparr>, pid) \<and> 1 \<le> pid \<and> pid < MAX_PID \<and>
    (\<forall>q\<in>set ps. pid_of s q \<noteq> pid) \<and> window ps pid n s"
proof -
  obtain f where f: "1 \<le> f" "f < MAX_PID" "\<forall>q\<in>set ps. pid_of s q \<noteq> f"
    using free_pid_exists [OF assms(3)] by blast
  let ?next = "last_pid s + 1"
  have scan: "\<exists>c n. pid_scan ProcList cand MAX_PID s = Some (c, n) \<and> window ps c n s"
    if "1 \<le> cand" "cand < MAX_PID" for cand
    using pid_scan_ok [OF assms(1) append_Nil [symmetric] _ f, of cand MAX_PID] that by simp
  obtain c n where cn: "(if ?next \<ge> MAX_PID then pid_scan ProcList 1 MAX_PID s
       else if ?next \<ge> next_safe s then pid_scan ProcList ?next MAX_PID s
       else Some (?next, next_safe s)) = Some (c, n)" "window ps c n s"
  proof -
    consider "?next \<ge> MAX_PID" | "\<not> ?next \<ge> MAX_PID" "?next \<ge> next_safe s" | "\<not> ?next \<ge> MAX_PID" "\<not> ?next \<ge> next_safe s"
      by blast
    then show thesis
    proof cases
      case 1
      then show thesis using scan [of 1] that by (auto simp: MAX_PID_eq)
    next
      case 2
      then show thesis using scan [of ?next] assms(2) that by (auto simp: pid_inv_def)
    next
      case 3
      have "window ps ?next (next_safe s) s"
        using assms(2) 3 by (fastforce simp: pid_inv_def window_def)
      then show thesis using 3 that [of ?next "next_safe s"] by simp
    qed
  qed
  have "get_pid s = Some (s\<lparr>last_pid := c, next_safe := n\<rparr>, c)" using cn(1) by (simp add: get_pid_def Let_def)
  then show ?thesis using cn(2) by (auto simp: window_def)
qed

text \<open>C8.
  \<open>get_pid\<close> terminates and returns a pid between 1 and \<open>MAX_PID - 1\<close> that no process has,
  as long as there are fewer processes than pids; the restarts of its scan come to an end
  even when the search wraps around.  The window it remembers stays free of pids, so that
  the next call may skip the scan.\<close>
theorem get_pid_unique:
  assumes "listed ps s" and "pid_inv ps s" and "length ps < nat MAX_PID - 1"
  shows "\<exists>pid n. get_pid s = Some (s\<lparr>last_pid := pid, next_safe := n\<rparr>, pid) \<and> 1 \<le> pid \<and> pid < MAX_PID \<and>
    (\<forall>q\<in>set ps. pid_of s q \<noteq> pid) \<and> window ps pid n s"
  using assms by (rule get_pid_ok)

section \<open>Finding a process\<close>

definition hashed :: "nat list \<Rightarrow> pstate \<Rightarrow> bool" where
  "hashed ps s \<longleftrightarrow> (\<forall>b<HASH_LIST_SIZE.
     ring (p_links s) (HashHead b) (map HLink (filter (\<lambda>p. pid_hashfn (pid_of s p) = b) ps)))"

lemma pid_hashfn_bound: "pid_hashfn pid < HASH_LIST_SIZE"
proof -
  have *: "unat (drop_bit 22 x) < 2 ^ 10" for x :: "32 word"
  proof -
    have "unat x < 2 ^ 32" using unsigned_less [of x, where ?'a = nat] by simp
    then have "unat x div 2 ^ 22 < 2 ^ 10" by (simp add: less_mult_imp_div_less)
    then show ?thesis by (subst unat_drop_bit_eq) (simp only: drop_bit_eq_div)
  qed
  show ?thesis
    unfolding pid_hashfn_def hash32_def HASH_LIST_SIZE_def using * [of "word_of_int pid * 0x9e370001"] by simp
qed

lemma find_proc_loop_eq:
  assumes "ring (p_links s) (HashHead b) (map HLink (us @ ws))"
  shows "find_proc_loop pid (last (HashHead b # map HLink us)) s = Some (List.find (\<lambda>p. pid_of s p = pid) ws)"
  using assms
proof (induction ws arbitrary: us)
  case Nil
  have "list_next (last (HashHead b # map HLink us)) (p_links s) = HashHead b"
    using ring_next_split [of "p_links s" "HashHead b" "map HLink us" "[]"] Nil.prems by simp
  then show ?case by (subst find_proc_loop.simps) simp
next
  case (Cons w ws)
  have "list_next (last (HashHead b # map HLink us)) (p_links s) = HLink w"
    using ring_next_split [of "p_links s" "HashHead b" "map HLink us" "map HLink (w # ws)"] Cons.prems by simp
  then show ?case using Cons.IH [of "us @ [w]"] Cons.prems by (subst find_proc_loop.simps) simp
qed

lemma find_filter: "\<forall>x. P x \<longrightarrow> Q x \<Longrightarrow> List.find P (filter Q xs) = List.find P xs"
  by (induction xs) auto

lemma find_proc_ok:
  assumes "hashed ps s" and "\<forall>p\<in>set ps. 0 < pid_of s p \<and> pid_of s p < MAX_PID"
  shows "find_proc pid s = Some (List.find (\<lambda>p. pid_of s p = pid) ps)"
proof (cases "0 < pid \<and> pid < MAX_PID")
  case True
  let ?b = "pid_hashfn pid" and ?P = "\<lambda>p. pid_of s p = pid"
  let ?chain = "filter (\<lambda>p. pid_hashfn (pid_of s p) = ?b) ps"
  have "ring (p_links s) (HashHead ?b) (map HLink ([] @ ?chain))"
    using assms(1) pid_hashfn_bound by (simp add: hashed_def)
  from find_proc_loop_eq [OF this, of pid] show ?thesis
    using True find_filter [of ?P "\<lambda>p. pid_hashfn (pid_of s p) = ?b" ps] by (simp add: find_proc_def)
next
  case False
  then have "List.find (\<lambda>p. pid_of s p = pid) ps = None"
    using assms(2) unfolding find_None_iff by fastforce
  then show ?thesis by (simp only: find_proc_def False if_False)
qed

text \<open>\<open>find_proc\<close>, a search of one hash chain, returns what a search of all processes returns:
  the process with that pid, or nothing, also for a pid out of range.\<close>
theorem find_proc_exact:
  assumes "hashed ps s" and "\<forall>p\<in>set ps. 0 < pid_of s p \<and> pid_of s p < MAX_PID"
  shows "find_proc pid s = Some (List.find (\<lambda>p. pid_of s p = pid) ps)"
  using assms by (rule find_proc_ok)

lemma find_append: "List.find P (xs @ ys) = (case List.find P xs of Some x \<Rightarrow> Some x | None \<Rightarrow> List.find P ys)"
  by (induction xs) auto

section \<open>Choosing the next process\<close>

abbreviation runnable :: "pstate \<Rightarrow> nat \<Rightarrow> bool" where
  "runnable s p \<equiv> pr_state (pcbs s p) = PROC_RUNNABLE"

text \<open>The walk over the suffix \<open>ws\<close> of the list, when \<open>stop\<close> is not in it.\<close>

lemma schedule_walk:
  assumes "listed (us @ ws) s" and "stop \<notin> set (map PLink ws)"
  shows "\<exists>n'. schedule_loop stop (last (ProcList # map PLink us)) nxt s =
    (case List.find (runnable s) ws of
       Some q \<Rightarrow> Some (Some q)
     | None \<Rightarrow> if stop = ProcList then Some n' else schedule_loop stop ProcList n' s) \<and>
    (n' = nxt \<or> (\<exists>q. n' = Some q \<and> \<not> runnable s q) \<or> List.find (runnable s) ws \<noteq> None)"
  using assms
proof (induction ws arbitrary: us nxt)
  case Nil
  note nxt = listed_next [OF Nil.prems(1)]
  have "schedule_loop stop (last (ProcList # map PLink us)) nxt s =
      (if stop = ProcList then Some nxt else schedule_loop stop ProcList nxt s)"
    using nxt by (subst schedule_loop.simps) (simp add: Let_def)
  then show ?case by auto
next
  case (Cons w ws)
  have ps: "listed ((us @ [w]) @ ws) s" using Cons.prems by simp
  note nxt = listed_next [OF Cons.prems(1)]
  have step: "schedule_loop stop (last (ProcList # map PLink us)) nxt s =
      (if runnable s w then Some (Some w) else schedule_loop stop (PLink w) (Some w) s)"
    using nxt Cons.prems(2) by (subst schedule_loop.simps) (auto simp: Let_def)
  show ?case
  proof (cases "runnable s w")
    case True
    then show ?thesis using step by auto
  next
    case False
    obtain n' where n': "schedule_loop stop (PLink w) (Some w) s =
        (case List.find (runnable s) ws of
           Some q \<Rightarrow> Some (Some q)
         | None \<Rightarrow> if stop = ProcList then Some n' else schedule_loop stop ProcList n' s)"
        "n' = Some w \<or> (\<exists>q. n' = Some q \<and> \<not> runnable s q) \<or> List.find (runnable s) ws \<noteq> None"
      using Cons.IH [OF ps, of "Some w"] Cons.prems(2) unfolding last_snoc_link by auto
    then show ?thesis using step False by (intro exI [of _ n']) auto
  qed
qed

text \<open>The walk that ends at the entry \<open>stop\<close>.\<close>

lemma schedule_to_stop:
  assumes "listed (vs @ us @ c # ws) s" and "c \<notin> set us"
  shows "\<exists>r. schedule_loop (PLink c) (last (ProcList # map PLink vs)) nxt s = Some r \<and>
    (case List.find (runnable s) (us @ [c]) of
       Some q \<Rightarrow> r = Some q | None \<Rightarrow> (\<forall>q. r = Some q \<longrightarrow> \<not> runnable s q))"
  using assms
proof (induction us arbitrary: vs nxt)
  case Nil
  have "listed (vs @ c # ws) s" using Nil.prems by simp
  note nxt = listed_next [OF this]
  show ?case using nxt by (subst schedule_loop.simps) (auto simp: Let_def)
next
  case (Cons u us)
  have ps: "listed ((vs @ [u]) @ us @ c # ws) s" using Cons.prems by simp
  note nxt = listed_next [OF Cons.prems(1)]
  have step: "schedule_loop (PLink c) (last (ProcList # map PLink vs)) nxt s =
      (if runnable s u then Some (Some u) else schedule_loop (PLink c) (PLink u) (Some u) s)"
    using nxt Cons.prems(2) by (subst schedule_loop.simps) (auto simp: Let_def)
  show ?case
    using step Cons.IH [OF ps, of "Some u"] Cons.prems(2) unfolding last_snoc_link by auto
qed

text \<open>The order in which the scheduler looks: from the current process on, around the list.\<close>

definition rotation :: "nat list \<Rightarrow> nat \<Rightarrow> nat \<Rightarrow> nat list" where
  "rotation ps i c =
    (if c = i then ps else tl (dropWhile (\<lambda>q. q \<noteq> c) ps) @ takeWhile (\<lambda>q. q \<noteq> c) ps @ [c])"

lemma rotation_split: "c \<noteq> i \<Longrightarrow> c \<notin> set us \<Longrightarrow> rotation (us @ c # ws) i c = ws @ us @ [c]"
proof -
  assume c: "c \<noteq> i" "c \<notin> set us"
  have "takeWhile (\<lambda>q. q \<noteq> c) (us @ c # ws) = us" "dropWhile (\<lambda>q. q \<noteq> c) (us @ c # ws) = c # ws"
    using c(2) by (induction us) auto
  then show ?thesis using c(1) by (simp add: rotation_def)
qed

lemma schedule_loop_ok:
  assumes ps: "listed ps s" and c: "c = i \<or> c \<in> set ps"
  defines "stop \<equiv> (if c = i then ProcList else PLink c)"
  shows "\<exists>r. schedule_loop stop stop None s = Some r \<and>
    (case List.find (runnable s) (rotation ps i c) of
       Some q \<Rightarrow> r = Some q
     | None \<Rightarrow> (\<forall>q. r = Some q \<longrightarrow> \<not> runnable s q))"
proof (cases "c = i")
  case True
  then show ?thesis
    using schedule_walk [of "[]" ps s stop None] ps
    by (fastforce simp: stop_def rotation_def split: option.splits)
next
  case False
  then obtain us ws where split: "ps = us @ c # ws" "c \<notin> set us" using c by (meson split_list_first)
  have dist: "c \<notin> set ws" using ring_distinct [OF ps [unfolded listed_def]] by (auto simp: split(1))
  have st: "stop = PLink c" using False by (simp add: stop_def)
  have ps1: "listed ((us @ [c]) @ ws) s" using ps by (simp add: split(1))
  obtain n1 where n1: "schedule_loop stop stop None s =
      (case List.find (runnable s) ws of
         Some q \<Rightarrow> Some (Some q) | None \<Rightarrow> schedule_loop stop ProcList n1 s)"
  proof -
    have "stop \<notin> set (map PLink ws)" using dist by (auto simp: st)
    from schedule_walk [OF ps1 this, of None] show thesis
      using that unfolding last_snoc_link st by auto
  qed
  have ps2: "listed ([] @ us @ c # ws) s" using ps by (simp add: split(1))
  have "\<exists>r. schedule_loop stop ProcList n1 s = Some r \<and>
      (case List.find (runnable s) (us @ [c]) of
         Some q \<Rightarrow> r = Some q | None \<Rightarrow> (\<forall>q. r = Some q \<longrightarrow> \<not> runnable s q))"
    using schedule_to_stop [OF ps2 split(2), of n1] by (simp add: st)
  then show ?thesis
    using n1 False split by (auto simp: rotation_split find_append split: option.splits)
qed

lemma schedule5_ok:
  assumes "listed ps s" and "p_current s = Some c" "p_idle s = Some i" and "c = i \<or> c \<in> set ps"
  shows "\<exists>s' n. schedule5 s = Some s' \<and> p_current s' = Some n \<and>
    n = (case List.find (runnable s) (rotation ps i c) of Some q \<Rightarrow> q | None \<Rightarrow> i) \<and>
    p_links s' = p_links s \<and> space s' = space s \<and> nr_process s' = nr_process s \<and>
    (last_pid s' = last_pid s \<and> next_safe s' = next_safe s \<and> p_idle s' = p_idle s) \<and>
    (n \<noteq> c \<longrightarrow> cr3_reg s' = pr_cr3 (pcbs s n)) \<and>
    (\<forall>p. pcbs s' p = (pcbs s p)\<lparr>pr_need_resched := (pr_need_resched (pcbs s p) \<and> p \<noteq> c),
       pr_runs := pr_runs (pcbs s p) + (if p = n then 1 else 0)\<rparr>)"
proof -
  define s1 where "s1 = upd_pcb c (\<lambda>q. q\<lparr>pr_need_resched := False\<rparr>) s"
  define stop where "stop = (if c = i then ProcList else PLink c)"
  have st: "pr_state (pcbs s1 p) = pr_state (pcbs s p)" for p by (simp add: s1_def upd_pcb_def)
  have "listed ps s1" using assms(1) by (simp add: listed_def s1_def upd_pcb_def)
  from schedule_loop_ok [OF this assms(4), folded stop_def, unfolded st]
  obtain r where *: "schedule_loop stop stop None s1 = Some r \<and>
    (case List.find (runnable s) (rotation ps i c) of
       Some q \<Rightarrow> r = Some q | None \<Rightarrow> (\<forall>q. r = Some q \<longrightarrow> \<not> runnable s q))" by (rule exE)
  note r = conjunct1 [OF *] conjunct2 [OF *]
  define n where "n = (case List.find (runnable s) (rotation ps i c) of Some q \<Rightarrow> q | None \<Rightarrow> i)"
  have run: "runnable s q" if "List.find (runnable s) (rotation ps i c) = Some q" for q
    using find_Some_split [OF that] by auto
  have pick: "(case r of None \<Rightarrow> i | Some n \<Rightarrow> if \<not> runnable s1 n then i else n) = n"
    using r(2) run unfolding st n_def by (cases "List.find (runnable s) (rotation ps i c)") (auto split: option.splits)
  define s2 where "s2 = upd_pcb n (\<lambda>q. q\<lparr>pr_runs := pr_runs q + 1\<rparr>) s1"
  have "schedule5 s = Some (if n \<noteq> c then proc_run5 n s2 else s2)"
    by (simp only: schedule5_def assms(2,3) Option.bind.simps Let_def s1_def [symmetric]
        stop_def [symmetric] r(1) pick s2_def)
  then show ?thesis
    using assms(2) unfolding n_def [symmetric]
    by (intro exI [of _ "if n \<noteq> c then proc_run5 n s2 else s2"] exI [of _ n])
      (auto simp: proc_run5_def s2_def s1_def upd_pcb_def)
qed

text \<open>\<open>schedule\<close> of lab 5 terminates and runs the first runnable process that follows the current
  one on the process list, coming back to the current one last; with no runnable process it
  runs the idle process.  Nothing else changes but the run count, the flag \<open>need_resched\<close> of the
  current process and the page table register.\<close>
theorem schedule5_next:
  assumes "listed ps s" and "p_current s = Some c" "p_idle s = Some i" and "c = i \<or> c \<in> set ps"
  shows "\<exists>s' n. schedule5 s = Some s' \<and> p_current s' = Some n \<and>
    n = (case List.find (runnable s) (rotation ps i c) of Some q \<Rightarrow> q | None \<Rightarrow> i) \<and>
    p_links s' = p_links s \<and> space s' = space s \<and> nr_process s' = nr_process s \<and>
    (last_pid s' = last_pid s \<and> next_safe s' = next_safe s \<and> p_idle s' = p_idle s) \<and>
    (n \<noteq> c \<longrightarrow> cr3_reg s' = pr_cr3 (pcbs s n)) \<and>
    (\<forall>p. pcbs s' p = (pcbs s p)\<lparr>pr_need_resched := (pr_need_resched (pcbs s p) \<and> p \<noteq> c),
       pr_runs := pr_runs (pcbs s p) + (if p = n then 1 else 0)\<rparr>)"
  using assms by (rule schedule5_ok)

section \<open>Linking and unlinking a process\<close>

definition chains :: "pnode links \<Rightarrow> (nat \<Rightarrow> nat) \<Rightarrow> nat list \<Rightarrow> bool" where
  "chains l hf ps \<longleftrightarrow> (\<forall>b<HASH_LIST_SIZE. ring l (HashHead b) (map HLink (filter (\<lambda>p. hf p = b) ps)))"

lemma hashed_chains: "hashed ps s = chains (p_links s) (\<lambda>p. pid_hashfn (pid_of s p)) ps"
  by (simp add: hashed_def chains_def)

lemma ring_remove_other:
  assumes "ring l h (map f xs)" and "x \<in> set xs" and "ring l b us"
    and "set (h # map f xs) \<inter> set (b # us) = {}"
  shows "ring (list_del (f x) l) b us"
proof -
  obtain ys zs where xs: "xs = ys @ x # zs" using assms(2) by (meson split_list)
  show ?thesis
    by (rule ring_list_del_other [of l h "map f ys" "f x" "map f zs"]) (use assms in \<open>simp_all add: xs\<close>)
qed

lemma inj_links: "inj PLink" "inj HLink"
  by (simp_all add: inj_def)

lemma filter_remove1_other: "\<not> P x \<Longrightarrow> filter P (remove1 x xs) = filter P xs"
  by (induction xs) auto

lemma unhash_links:
  assumes l: "ring l ProcList (map PLink ps)" and ch: "chains l hf qs" and p: "p \<in> set qs" "hf p < HASH_LIST_SIZE"
  shows "ring (list_del (HLink p) l) ProcList (map PLink ps) \<and> chains (list_del (HLink p) l) hf (remove1 p qs)"
proof
  let ?own = "filter (\<lambda>q. hf q = hf p) qs"
  have own: "ring l (HashHead (hf p)) (map HLink ?own)" "p \<in> set ?own" using ch p by (simp_all add: chains_def)
  show "ring (list_del (HLink p) l) ProcList (map PLink ps)"
    by (rule ring_remove_other [OF own l]) auto
  show "chains (list_del (HLink p) l) hf (remove1 p qs)"
    unfolding chains_def
  proof (intro allI impI)
    fix b assume b: "b < HASH_LIST_SIZE"
    show "ring (list_del (HLink p) l) (HashHead b) (map HLink (filter (\<lambda>q. hf q = b) (remove1 p qs)))"
    proof (cases "b = hf p")
      case True
      then show ?thesis using ring_remove [OF own inj_links(2)] by (simp add: filter_remove1)
    next
      case False
      have "ring l (HashHead b) (map HLink (filter (\<lambda>q. hf q = b) qs))" using ch b by (simp add: chains_def)
      from ring_remove_other [OF own this] show ?thesis using False by (auto simp: filter_remove1_other)
    qed
  qed
qed

lemma unlist_links:
  assumes l: "ring l ProcList (map PLink ps)" and ch: "chains l hf qs" and p: "p \<in> set ps"
  shows "ring (list_del (PLink p) l) ProcList (map PLink (remove1 p ps)) \<and> chains (list_del (PLink p) l) hf qs"
proof
  show "ring (list_del (PLink p) l) ProcList (map PLink (remove1 p ps))"
    by (rule ring_remove [OF l p inj_links(1)])
  show "chains (list_del (PLink p) l) hf qs"
    using ch unfolding chains_def by (auto intro!: ring_remove_other [OF l p])
qed

lemma hash_links:
  assumes l: "ring l ProcList (map PLink ps)" and ch: "chains l hf qs" and p: "p \<notin> set qs" "hf p < HASH_LIST_SIZE"
  shows "ring (list_add (HashHead (hf p)) (HLink p) l) ProcList (map PLink ps) \<and>
    chains (list_add (HashHead (hf p)) (HLink p) l) hf (p # qs)"
proof
  let ?own = "filter (\<lambda>q. hf q = hf p) qs"
  have own: "ring l (HashHead (hf p)) (map HLink ?own)" using ch p by (simp add: chains_def)
  show "ring (list_add (HashHead (hf p)) (HLink p) l) ProcList (map PLink ps)"
    by (rule ring_list_add_head_other [OF own l]) auto
  show "chains (list_add (HashHead (hf p)) (HLink p) l) hf (p # qs)"
    unfolding chains_def
  proof (intro allI impI)
    fix b assume b: "b < HASH_LIST_SIZE"
    show "ring (list_add (HashHead (hf p)) (HLink p) l) (HashHead b) (map HLink (filter (\<lambda>q. hf q = b) (p # qs)))"
    proof (cases "b = hf p")
      case True
      then show ?thesis using ring_list_add_head [OF own, of "HLink p"] p by auto
    next
      case False
      have "ring l (HashHead b) (map HLink (filter (\<lambda>q. hf q = b) qs))" using ch b by (simp add: chains_def)
      from ring_list_add_head_other [OF own this, of "HLink p"] show ?thesis using False p by auto
    qed
  qed
qed

lemma list_links:
  assumes l: "ring l ProcList (map PLink ps)" and ch: "chains l hf qs" and p: "p \<notin> set ps"
  shows "ring (list_add ProcList (PLink p) l) ProcList (map PLink (p # ps)) \<and> chains (list_add ProcList (PLink p) l) hf qs"
proof
  show "ring (list_add ProcList (PLink p) l) ProcList (map PLink (p # ps))"
    using ring_list_add_head [OF l, of "PLink p"] p by auto
  show "chains (list_add ProcList (PLink p) l) hf qs"
    using ch unfolding chains_def by (auto intro!: ring_list_add_head_other [OF l])
qed

end
