(* ===== verification/Process_Family.thy ===== *)
theory Process_Family
  imports Process_Lists
begin

unbundle bit_operations_syntax

text \<open>
  The family pointers of \<open>Process\<close>: \<open>kids_ok f p cs\<close> says that \<open>cs\<close> are the children of \<open>p\<close>
  from the youngest to the oldest, doubly linked by \<open>yptr\<close> and \<open>optr\<close>.  The invariant
  \<open>procs_ok\<close> puts the process list, the hash chains, the pids and the families together;
  creating, ending and reaping a process keep it.
\<close>

section \<open>Lists of children\<close>

definition first_of :: "nat list \<Rightarrow> nat option \<Rightarrow> nat option" where
  "first_of cs e = (case cs of [] \<Rightarrow> e | c # _ \<Rightarrow> Some c)"

lemma first_of_simps [simp]: "first_of [] e = e" "first_of (c # cs) e = Some c"
  by (simp_all add: first_of_def)

fun sibs :: "(nat \<Rightarrow> pcb) \<Rightarrow> nat \<Rightarrow> nat option \<Rightarrow> nat list \<Rightarrow> nat option \<Rightarrow> bool" where
  "sibs f p y [] e = True"
| "sibs f p y (c # cs) e =
    (pr_parent (f c) = Some p \<and> yptr (f c) = y \<and> optr (f c) = first_of cs e \<and> sibs f p (Some c) cs e)"

definition kids_ok :: "(nat \<Rightarrow> pcb) \<Rightarrow> nat \<Rightarrow> nat list \<Rightarrow> bool" where
  "kids_ok f p cs \<longleftrightarrow> cptr (f p) = first_of cs None \<and> distinct cs \<and> sibs f p None cs None"

lemma sibs_cong:
  "\<forall>c\<in>set cs. pr_parent (g c) = pr_parent (f c) \<and> yptr (g c) = yptr (f c) \<and> optr (g c) = optr (f c) \<Longrightarrow>
    sibs g p y cs e = sibs f p y cs e"
  by (induction cs arbitrary: y) auto

lemma sibs_head:
  assumes "sibs f p y cs e" and "cs \<noteq> [] \<longrightarrow> yptr (g (hd cs)) = y'"
    and "\<forall>c\<in>set cs. pr_parent (g c) = pr_parent (f c) \<and> optr (g c) = optr (f c)"
    and "\<forall>c\<in>set (tl cs). yptr (g c) = yptr (f c)"
  shows "sibs g p y' cs e"
proof (cases cs)
  case (Cons c ds)
  have "sibs g p (Some c) ds e = sibs f p (Some c) ds e"
    by (rule sibs_cong) (use assms(3,4) Cons in simp)
  then show ?thesis using assms Cons by simp
qed simp

lemma sibs_append:
  "sibs f p y (xs @ ys) e \<longleftrightarrow> sibs f p y xs (first_of ys e) \<and> sibs f p (if xs = [] then y else Some (last xs)) ys e"
proof (induction xs arbitrary: y)
  case (Cons x xs)
  then show ?case by (cases xs) auto
qed simp

lemma sibs_last:
  assumes "sibs f p y cs e" and "distinct cs" and "cs \<noteq> [] \<longrightarrow> optr (g (last cs)) = e'"
    and "\<forall>c\<in>set cs. pr_parent (g c) = pr_parent (f c) \<and> yptr (g c) = yptr (f c)"
    and "\<forall>c\<in>set cs. c \<noteq> last cs \<longrightarrow> optr (g c) = optr (f c)"
  shows "sibs g p y cs e'"
  using assms
proof (induction cs arbitrary: y)
  case (Cons c cs)
  show ?case
  proof (cases cs)
    case Nil
    then show ?thesis using Cons.prems by simp
  next
    case (Cons d ds)
    then have ne: "cs \<noteq> []" by simp
    then have l: "last (c # cs) = last cs" "last cs \<in> set cs" by simp_all
    have "sibs g p (Some c) cs e'"
      using Cons.IH [of "Some c"] Cons.prems ne l by (simp add: Cons)
    moreover have "c \<noteq> last cs" using Cons.prems(2) l(2) by auto
    ultimately show ?thesis using Cons.prems l by (simp add: Cons)
  qed
qed simp

lemma sibs_parent: "sibs f p y cs e \<Longrightarrow> c \<in> set cs \<Longrightarrow> pr_parent (f c) = Some p"
  by (induction cs arbitrary: y) auto

lemma kids_ok_cong:
  assumes "cptr (g p) = cptr (f p)"
    and "\<forall>c\<in>set cs. pr_parent (g c) = pr_parent (f c) \<and> yptr (g c) = yptr (f c) \<and> optr (g c) = optr (f c)"
  shows "kids_ok g p cs = kids_ok f p cs"
  using assms sibs_cong [OF assms(2)] by (simp add: kids_ok_def)

text \<open>A child put in front, and a child taken out.\<close>

lemma kids_ok_push:
  assumes "kids_ok f p cs" and "c \<notin> set cs"
    and "cptr (g p) = Some c" "pr_parent (g c) = Some p" "yptr (g c) = None" "optr (g c) = cptr (f p)"
    and "cs \<noteq> [] \<longrightarrow> yptr (g (hd cs)) = Some c"
    and "\<forall>d\<in>set cs. pr_parent (g d) = pr_parent (f d) \<and> optr (g d) = optr (f d)"
    and "\<forall>d\<in>set (tl cs). yptr (g d) = yptr (f d)"
  shows "kids_ok g p (c # cs)"
  using assms sibs_head [of f p None cs None g "Some c"] by (simp add: kids_ok_def)

lemma sibs_at:
  assumes "sibs f p y (xs @ c # ys) e"
  shows "pr_parent (f c) = Some p" and "yptr (f c) = (if xs = [] then y else Some (last xs))"
    and "optr (f c) = first_of ys e"
  using assms by (simp_all add: sibs_append)

lemma kids_ok_pop:
  assumes ok: "kids_ok f p (xs @ c # ys)"
    and par: "cptr (g p) = (if xs = [] then optr (f c) else cptr (f p))"
    and pa: "\<forall>d\<in>set (xs @ ys). pr_parent (g d) = pr_parent (f d)"
    and yp: "\<forall>d\<in>set (xs @ ys). yptr (g d) = (if optr (f c) = Some d then yptr (f c) else yptr (f d))"
    and op: "\<forall>d\<in>set (xs @ ys). optr (g d) = (if yptr (f c) = Some d then optr (f c) else optr (f d))"
  shows "kids_ok g p (xs @ ys)"
proof -
  have d: "distinct (xs @ c # ys)" and s: "sibs f p None (xs @ c # ys) None" and h: "cptr (f p) = first_of (xs @ c # ys) None"
    using ok by (auto simp: kids_ok_def)
  note at = sibs_at [OF s]
  have sx: "sibs f p None xs (Some c)" and sy: "sibs f p (Some c) ys None"
    using s by (simp_all add: sibs_append)
  have gx: "sibs g p None xs (first_of ys None)"
  proof (rule sibs_last [OF sx])
    show "distinct xs" using d by simp
    show "xs \<noteq> [] \<longrightarrow> optr (g (last xs)) = first_of ys None" using op at by simp
    show "\<forall>d\<in>set xs. pr_parent (g d) = pr_parent (f d) \<and> yptr (g d) = yptr (f d)"
      using pa yp at(3) d by (cases ys) auto
    show "\<forall>d\<in>set xs. d \<noteq> last xs \<longrightarrow> optr (g d) = optr (f d)" using op at(2) by auto
  qed
  have gy: "sibs g p (if xs = [] then None else Some (last xs)) ys None"
  proof (rule sibs_head [OF sy])
    show "ys \<noteq> [] \<longrightarrow> yptr (g (hd ys)) = (if xs = [] then None else Some (last xs))"
      using yp at(2,3) by (cases ys) auto
    have "xs \<noteq> [] \<longrightarrow> last xs \<notin> set ys"
      using d by (metis IntI distinct.simps(2) distinct_append empty_iff last_in_set list.set_intros(2))
    then have "\<forall>d\<in>set ys. yptr (f c) \<noteq> Some d" using at(2) by auto
    then show "\<forall>d\<in>set ys. pr_parent (g d) = pr_parent (f d) \<and> optr (g d) = optr (f d)" using pa op by simp
    show "\<forall>d\<in>set (tl ys). yptr (g d) = yptr (f d)" using yp at(3) d by (cases ys) auto
  qed
  have "cptr (g p) = first_of (xs @ ys) None" using par h at(3) by (cases xs) auto
  then show ?thesis using gx gy d by (simp add: kids_ok_def sibs_append)
qed

section \<open>The invariant\<close>

definition family :: "(nat \<Rightarrow> pcb) \<Rightarrow> nat \<Rightarrow> nat list \<Rightarrow> (nat \<Rightarrow> nat list) \<Rightarrow> bool" where
  "family f i ps kids \<longleftrightarrow>
     (\<forall>p\<in>insert i (set ps). kids_ok f p (kids p) \<and> set (kids p) = {c \<in> set ps. pr_parent (f c) = Some p}) \<and>
     (\<forall>c\<in>set ps. \<exists>p\<in>insert i (set ps). pr_parent (f c) = Some p \<and> p \<noteq> c)"

text \<open>What the states of the processes promise about waiting and about zombies.\<close>

definition waits_ok :: "(nat \<Rightarrow> pcb) \<Rightarrow> nat \<Rightarrow> nat list \<Rightarrow> (nat \<Rightarrow> nat list) \<Rightarrow> bool" where
  "waits_ok f i ps kids \<longleftrightarrow>
     (\<forall>p\<in>insert i (set ps). (pr_wait (f p) = WT_CHILD \<longrightarrow> pr_state (f p) = PROC_SLEEPING) \<and>
        (pr_state (f p) = PROC_ZOMBIE \<longrightarrow> kids p = []))"

definition lists_ok :: "nat list \<Rightarrow> pstate \<Rightarrow> bool" where
  "lists_ok ps s \<longleftrightarrow> listed ps s \<and> hashed ps s \<and> pid_inv ps s \<and>
     distinct (map (pid_of s) ps) \<and> (\<forall>p\<in>set ps. 0 < pid_of s p \<and> pid_of s p < MAX_PID) \<and>
     nr_process s = int (length ps) + 1"

definition procs_ok :: "nat \<Rightarrow> nat list \<Rightarrow> (nat \<Rightarrow> nat list) \<Rightarrow> pstate \<Rightarrow> bool" where
  "procs_ok i ps kids s \<longleftrightarrow> lists_ok ps s \<and> p_idle s = Some i \<and> i \<notin> set ps \<and>
     family (pcbs s) i ps kids \<and> waits_ok (pcbs s) i ps kids"

lemma listed_distinct: "listed ps s \<Longrightarrow> distinct ps"
  using ring_distinct by (fastforce simp: listed_def distinct_map)

lemma familyD:
  assumes "family f i ps kids" and "p \<in> insert i (set ps)"
  shows "kids_ok f p (kids p)" and "set (kids p) = {c \<in> set ps. pr_parent (f c) = Some p}"
  using assms unfolding family_def by blast+

lemma family_parent:
  assumes "family f i ps kids" and "c \<in> set ps"
  obtains p where "p \<in> insert i (set ps)" "pr_parent (f c) = Some p" "p \<noteq> c" "c \<in> set (kids p)"
  using assms familyD(2) [OF assms(1)] unfolding family_def by blast

text \<open>A change of fields that are not family pointers.\<close>

definition same_links :: "(nat \<Rightarrow> pcb) \<Rightarrow> (nat \<Rightarrow> pcb) \<Rightarrow> bool" where
  "same_links f g \<longleftrightarrow> (\<forall>p. pr_parent (g p) = pr_parent (f p) \<and> cptr (g p) = cptr (f p) \<and>
     yptr (g p) = yptr (f p) \<and> optr (g p) = optr (f p))"

lemma same_linksD:
  "same_links f g \<Longrightarrow> pr_parent (g p) = pr_parent (f p) \<and> cptr (g p) = cptr (f p) \<and>
     yptr (g p) = yptr (f p) \<and> optr (g p) = optr (f p)"
  by (simp add: same_links_def)

lemma kids_ok_same: "same_links f g \<Longrightarrow> kids_ok g p cs = kids_ok f p cs"
  by (rule kids_ok_cong) (simp_all add: same_linksD)

lemma family_same: "same_links f g \<Longrightarrow> family g i ps kids = family f i ps kids"
  by (simp add: family_def kids_ok_same same_linksD)

text \<open>A new child \<open>c\<close> of \<open>p\<close>.\<close>

lemma family_add:
  assumes fam: "family f i ps kids" and c: "c \<notin> set ps" "c \<noteq> i" and p: "p \<in> insert i (set ps)"
    and c_cptr: "cptr (f c) = None"
    and g: "cptr (g p) = Some c" "pr_parent (g c) = Some p" "yptr (g c) = None" "optr (g c) = cptr (f p)" "cptr (g c) = None"
    and older: "\<And>d. cptr (f p) = Some d \<Longrightarrow> yptr (g d) = Some c"
    and same_c: "\<And>q. q \<noteq> p \<Longrightarrow> cptr (g q) = cptr (f q)"
    and same: "\<And>q. q \<noteq> c \<Longrightarrow> pr_parent (g q) = pr_parent (f q) \<and> optr (g q) = optr (f q)"
    and same_y: "\<And>q. q \<noteq> c \<Longrightarrow> cptr (f p) \<noteq> Some q \<Longrightarrow> yptr (g q) = yptr (f q)"
  shows "family g i (c # ps) (kids(p := c # kids p, c := []))"
proof -
  have pc: "p \<noteq> c" using p c by auto
  note kp = familyD [OF fam p]
  have hd: "cptr (f p) = first_of (kids p) None" using kp(1) by (simp add: kids_ok_def)
  have dist: "distinct (kids p)" using kp(1) by (simp add: kids_ok_def)
  have kc: "c \<notin> set (kids q)" if "q \<in> insert i (set ps)" for q using familyD(2) [OF fam that] c by auto
  have new: "kids_ok g p (c # kids p)"
  proof (rule kids_ok_push [OF kp(1) kc [OF p] g(1-4)])
    show "kids p \<noteq> [] \<longrightarrow> yptr (g (hd (kids p))) = Some c" using older hd by (cases "kids p") auto
    show "\<forall>d\<in>set (kids p). pr_parent (g d) = pr_parent (f d) \<and> optr (g d) = optr (f d)"
      using same kc [OF p] by metis
    show "\<forall>d\<in>set (tl (kids p)). yptr (g d) = yptr (f d)"
    proof
      fix d assume d: "d \<in> set (tl (kids p))"
      then have "d \<in> set (kids p)" by (cases "kids p") auto
      then have "d \<noteq> c" using kc [OF p] by auto
      moreover have "cptr (f p) \<noteq> Some d" using hd dist d by (cases "kids p") auto
      ultimately show "yptr (g d) = yptr (f d)" by (rule same_y)
    qed
  qed
  have others: "kids_ok g q (kids q)" if q: "q \<in> insert i (set ps)" "q \<noteq> p" for q
  proof -
    have "kids_ok g q (kids q) = kids_ok f q (kids q)"
    proof (rule kids_ok_cong, rule same_c [OF q(2)], intro ballI)
      fix d assume d: "d \<in> set (kids q)"
      then have "pr_parent (f d) = Some q" using familyD(2) [OF fam q(1)] by auto
      then have "d \<notin> set (kids p)" using kp(2) q(2) by auto
      then have "cptr (f p) \<noteq> Some d" using hd by (cases "kids p") auto
      moreover have "d \<noteq> c" using d kc [OF q(1)] by auto
      ultimately show "pr_parent (g d) = pr_parent (f d) \<and> yptr (g d) = yptr (f d) \<and> optr (g d) = optr (f d)"
        using same same_y by blast
    qed
    then show ?thesis using familyD(1) [OF fam q(1)] by simp
  qed
  have par: "pr_parent (g d) = Some q \<longleftrightarrow> (d = c \<and> q = p) \<or> (d \<noteq> c \<and> pr_parent (f d) = Some q)" for d q
    using g(2) same by (cases "d = c") auto
  have sets: "set ((kids(p := c # kids p, c := [])) q) = {d \<in> set (c # ps). pr_parent (g d) = Some q}"
    if "q \<in> insert i (set (c # ps))" for q
  proof (cases "q = c")
    case True
    have "pr_parent (f d) \<noteq> Some c" if d: "d \<in> set ps" for d
    proof -
      obtain q where "q \<in> insert i (set ps)" "pr_parent (f d) = Some q" using family_parent [OF fam d] by metis
      then show ?thesis using c by auto
    qed
    then show ?thesis using True pc c par by auto
  next
    case False
    then have q: "q \<in> insert i (set ps)" using that by auto
    show ?thesis
      using False familyD(2) [OF fam q] c par pc by (cases "q = p") auto
  qed
  have "\<exists>q\<in>insert i (set (c # ps)). pr_parent (g d) = Some q \<and> q \<noteq> d" if d: "d \<in> set (c # ps)" for d
  proof (cases "d = c")
    case True
    then show ?thesis using g(2) p pc by auto
  next
    case False
    then have "d \<in> set ps" using d by simp
    then obtain q where "q \<in> insert i (set ps)" "pr_parent (f d) = Some q" "q \<noteq> d"
      using family_parent [OF fam] by metis
    then show ?thesis using par [of d q] False by (intro bexI [of _ q]) auto
  qed
  moreover have "kids_ok g c []" using g(5) by (simp add: kids_ok_def)
  ultimately show ?thesis
    unfolding family_def using sets new others pc by auto
qed

text \<open>A child \<open>c\<close> without children of its own leaves.\<close>

lemma family_remove:
  assumes fam: "family f i ps kids" and dist: "distinct ps" and i: "i \<notin> set ps"
    and c: "c \<in> set ps" "pr_parent (f c) = Some p" "kids c = []"
    and pa: "\<And>q. pr_parent (g q) = pr_parent (f q)"
    and yp: "\<And>q. yptr (g q) = (if optr (f c) = Some q then yptr (f c) else yptr (f q))"
    and op: "\<And>q. optr (g q) = (if yptr (f c) = Some q then optr (f c) else optr (f q))"
    and cp: "\<And>q. cptr (g q) = (if yptr (f c) = None \<and> q = p then optr (f c) else cptr (f q))"
  shows "family g i (remove1 c ps) (kids(p := remove1 c (kids p)))"
proof -
  have set_ps: "set (remove1 c ps) = set ps - {c}" using dist by simp
  obtain p' where p': "p' \<in> insert i (set ps)" "pr_parent (f c) = Some p'" "p' \<noteq> c" "c \<in> set (kids p')"
    using family_parent [OF fam c(1)] by metis
  then have p: "p \<in> insert i (set ps)" "p \<noteq> c" "c \<in> set (kids p)" using c(2) by auto
  note kp = familyD [OF fam p(1)]
  obtain xs ys where xy: "kids p = xs @ c # ys" using p(3) by (meson split_list)
  have dp: "distinct (kids p)" using kp(1) by (simp add: kids_ok_def)
  then have rem: "remove1 c (kids p) = xs @ ys" by (simp add: xy remove1_append)
  have at: "yptr (f c) = (if xs = [] then None else Some (last xs))" "optr (f c) = first_of ys None"
    using sibs_at [of f p None xs c ys None] kp(1) by (simp_all add: kids_ok_def xy)
  have nb: "d \<in> set (kids p)" if "yptr (f c) = Some d \<or> optr (f c) = Some d" for d
    using that at by (cases ys) (auto simp: xy split: if_splits)
  have new: "kids_ok g p (xs @ ys)"
    by (rule kids_ok_pop [of f p xs c ys]) (use kp(1) at pa yp op cp in \<open>auto simp: xy\<close>)
  have others: "kids_ok g q (kids q)" if q: "q \<in> insert i (set ps)" "q \<noteq> p" for q
  proof -
    have "kids_ok g q (kids q) = kids_ok f q (kids q)"
    proof (rule kids_ok_cong)
      show "cptr (g q) = cptr (f q)" using cp q(2) by simp
      show "\<forall>d\<in>set (kids q). pr_parent (g d) = pr_parent (f d) \<and> yptr (g d) = yptr (f d) \<and> optr (g d) = optr (f d)"
      proof
        fix d assume "d \<in> set (kids q)"
        then have "pr_parent (f d) = Some q" using familyD(2) [OF fam q(1)] by auto
        then have "d \<notin> set (kids p)" using kp(2) q(2) by auto
        then have "yptr (f c) \<noteq> Some d" "optr (f c) \<noteq> Some d" using nb by blast+
        then show "pr_parent (g d) = pr_parent (f d) \<and> yptr (g d) = yptr (f d) \<and> optr (g d) = optr (f d)"
          using pa yp op by simp
      qed
    qed
    then show ?thesis using familyD(1) [OF fam q(1)] by simp
  qed
  have nopar: "pr_parent (f d) \<noteq> Some c" if "d \<in> set ps" for d
    using familyD(2) [OF fam, of c] c(1,3) that by auto
  have sets: "set ((kids(p := remove1 c (kids p))) q) = {d \<in> set (remove1 c ps). pr_parent (g d) = Some q}"
    if "q \<in> insert i (set ps)" for q
  proof (cases "q = p")
    case True
    then show ?thesis using kp(2) dp unfolding set_ps pa by auto
  next
    case False
    then show ?thesis using familyD(2) [OF fam that] c(2) unfolding set_ps pa by auto
  qed
  have parents: "\<exists>q\<in>insert i (set (remove1 c ps)). pr_parent (g d) = Some q \<and> q \<noteq> d"
    if d: "d \<in> set (remove1 c ps)" for d
  proof -
    have dps: "d \<in> set ps" using d set_ps by auto
    obtain q where "q \<in> insert i (set ps)" "pr_parent (f d) = Some q" "q \<noteq> d"
      using family_parent [OF fam dps] by metis
    moreover have "q \<noteq> c" using nopar [OF dps] calculation(2) by auto
    ultimately show ?thesis unfolding set_ps pa by auto
  qed
  have sub: "q \<in> insert i (set ps)" if "q \<in> insert i (set (remove1 c ps))" for q using that set_ps by auto
  show ?thesis
    unfolding family_def
  proof (intro conjI ballI)
    fix q assume q: "q \<in> insert i (set (remove1 c ps))"
    show "kids_ok g q ((kids(p := remove1 c (kids p))) q)"
      using new rem others [OF sub [OF q]] by auto
    show "set ((kids(p := remove1 c (kids p))) q) = {d \<in> set (remove1 c ps). pr_parent (g d) = Some q}"
      by (rule sets [OF sub [OF q]])
  next
    fix d assume "d \<in> set (remove1 c ps)"
    then show "\<exists>q\<in>insert i (set (remove1 c ps)). pr_parent (g d) = Some q \<and> q \<noteq> d" by (rule parents)
  qed
qed

section \<open>Moving children to init\<close>

text \<open>
  In the loop of \<open>do_exit\<close> the first child of \<open>c\<close> may still point to the child moved before
  it; \<open>half_kids\<close> leaves the younger sibling of the first child open.
\<close>

definition half_kids :: "(nat \<Rightarrow> pcb) \<Rightarrow> nat \<Rightarrow> nat list \<Rightarrow> bool" where
  "half_kids f c cs \<longleftrightarrow> cptr (f c) = first_of cs None \<and> distinct cs \<and> (\<exists>y. sibs f c y cs None)"

lemma wakeup5_ok:
  "pr_state (pcbs s p) \<noteq> PROC_ZOMBIE \<Longrightarrow> wakeup_proc5 p s = Some (if runnable s p then s
     else upd_pcb p (\<lambda>q. q\<lparr>pr_state := PROC_RUNNABLE, pr_wait := 0\<rparr>) s)"
  by (simp add: wakeup_proc5_def)

lemma upd_pcb_simps [simp]:
  "p_links (upd_pcb p f s) = p_links s" "p_current (upd_pcb p f s) = p_current s" "p_idle (upd_pcb p f s) = p_idle s"
  "p_init (upd_pcb p f s) = p_init s" "nr_process (upd_pcb p f s) = nr_process s" "next_safe (upd_pcb p f s) = next_safe s"
  "last_pid (upd_pcb p f s) = last_pid s" "cr3_reg (upd_pcb p f s) = cr3_reg s" "boot_pgdir (upd_pcb p f s) = boot_pgdir s"
  "freed (upd_pcb p f s) = freed s" "space (upd_pcb p f s) = space s"
  "pcbs (upd_pcb p f s) k = (if k = p then f (pcbs s p) else pcbs s k)"
  by (simp_all add: upd_pcb_def)

text \<open>What \<open>reparent_one\<close> leaves alone, and the only process it may wake.\<close>

definition reparented :: "nat \<Rightarrow> nat \<Rightarrow> pstate \<Rightarrow> pstate \<Rightarrow> bool" where
  "reparented c i s t \<longleftrightarrow> (\<exists>f. t = s\<lparr>pcbs := f\<rparr>) \<and>
     (\<forall>q. pr_pid (pcbs t q) = pr_pid (pcbs s q) \<and> pr_kstack (pcbs t q) = pr_kstack (pcbs s q) \<and>
        pr_exit_code (pcbs t q) = pr_exit_code (pcbs s q)) \<and>
     (\<forall>q. q \<noteq> i \<longrightarrow> pr_state (pcbs t q) = pr_state (pcbs s q) \<and> pr_wait (pcbs t q) = pr_wait (pcbs s q)) \<and>
     (pr_state (pcbs t i) = pr_state (pcbs s i) \<and> pr_wait (pcbs t i) = pr_wait (pcbs s i) \<or>
      pr_wait (pcbs s i) = WT_CHILD \<and> pr_state (pcbs t i) = PROC_RUNNABLE \<and> pr_wait (pcbs t i) = 0) \<and>
     (\<forall>q. q \<noteq> c \<and> q \<noteq> i \<longrightarrow> cptr (pcbs t q) = cptr (pcbs s q))"

lemma reparent_one_eq:
  assumes "c \<noteq> i" "p \<noteq> i" "p \<noteq> c" and "cptr (pcbs s i) \<noteq> Some p" and "pr_state (pcbs s i) \<noteq> PROC_ZOMBIE"
  shows "\<exists>t. reparent_one c i p s = Some t \<and> reparented c i s t \<and>
    (\<forall>q. cptr (pcbs t q) = (if q = i then Some p else if q = c then optr (pcbs s p) else cptr (pcbs s q))) \<and>
    (\<forall>q. yptr (pcbs t q) = (if q = p then None else if cptr (pcbs s i) = Some q then Some p else yptr (pcbs s q))) \<and>
    (\<forall>q. optr (pcbs t q) = (if q = p then cptr (pcbs s i) else optr (pcbs s q))) \<and>
    (pr_state (pcbs s p) = PROC_ZOMBIE \<and> pr_wait (pcbs s i) = WT_CHILD \<longrightarrow> runnable t i) \<and>
    (\<forall>q. pr_parent (pcbs t q) = (if q = p then Some i else pr_parent (pcbs s q)))"
proof -
  define s1 where "s1 = upd_pcb p (\<lambda>q. q\<lparr>optr := cptr (pcbs s i)\<rparr>)
      (upd_pcb p (\<lambda>q. q\<lparr>yptr := None\<rparr>) (upd_pcb c (\<lambda>q. q\<lparr>cptr := optr (pcbs s p)\<rparr>) s))"
  define s2 where "s2 = (case cptr (pcbs s i) of None \<Rightarrow> s1 | Some d \<Rightarrow> upd_pcb d (\<lambda>q. q\<lparr>yptr := Some p\<rparr>) s1)"
  define s3 where "s3 = upd_pcb i (\<lambda>q. q\<lparr>cptr := Some p\<rparr>) (upd_pcb p (\<lambda>q. q\<lparr>pr_parent := Some i\<rparr>) s2)"
  define t where "t = (if pr_state (pcbs s p) = PROC_ZOMBIE \<and> pr_wait (pcbs s i) = WT_CHILD \<and> \<not> runnable s i
      then upd_pcb i (\<lambda>q. q\<lparr>pr_state := PROC_RUNNABLE, pr_wait := 0\<rparr>) s3 else s3)"
  have s3: "pr_state (pcbs s3 q) = pr_state (pcbs s q)" "pr_wait (pcbs s3 q) = pr_wait (pcbs s q)"
    "pr_pid (pcbs s3 q) = pr_pid (pcbs s q)" "pr_kstack (pcbs s3 q) = pr_kstack (pcbs s q)"
    "pr_exit_code (pcbs s3 q) = pr_exit_code (pcbs s q)"
    "cptr (pcbs s3 q) = (if q = i then Some p else if q = c then optr (pcbs s p) else cptr (pcbs s q))"
    "yptr (pcbs s3 q) = (if q = p then None else if cptr (pcbs s i) = Some q then Some p else yptr (pcbs s q))"
    "optr (pcbs s3 q) = (if q = p then cptr (pcbs s i) else optr (pcbs s q))"
    "pr_parent (pcbs s3 q) = (if q = p then Some i else pr_parent (pcbs s q))" for q
    using assms(1-4) by (auto simp: s3_def s2_def s1_def split: option.splits)
  have upd: "\<exists>f. s3 = s\<lparr>pcbs := f\<rparr>"
    by (cases "cptr (pcbs s i)") (auto simp: s3_def s2_def s1_def upd_pcb_def)
  have wake: "(if pr_state (pcbs s3 p) = PROC_ZOMBIE \<and> pr_wait (pcbs s3 i) = WT_CHILD then wakeup_proc5 i s3 else Some s3) = Some t"
    using assms(5) by (simp add: t_def s3 wakeup5_ok)
  have "reparent_one c i p s =
      (if pr_state (pcbs s3 p) = PROC_ZOMBIE \<and> pr_wait (pcbs s3 i) = WT_CHILD then wakeup_proc5 i s3 else Some s3)"
    using assms(1-4) unfolding reparent_one_def s3_def s2_def s1_def
    by (cases "cptr (pcbs s i)") (simp_all add: Let_def)
  then have run: "reparent_one c i p s = Some t" using wake by simp
  have "reparented c i s t"
    using upd unfolding reparented_def by (auto simp: t_def s3) (auto simp: upd_pcb_def)
  moreover have "cptr (pcbs t q) = cptr (pcbs s3 q)" "yptr (pcbs t q) = yptr (pcbs s3 q)" "optr (pcbs t q) = optr (pcbs s3 q)"
    "pr_parent (pcbs t q) = pr_parent (pcbs s3 q)" for q by (auto simp: t_def)
  moreover have "pr_state (pcbs s p) = PROC_ZOMBIE \<and> pr_wait (pcbs s i) = WT_CHILD \<longrightarrow> runnable t i"
    by (auto simp: t_def s3)
  ultimately show ?thesis using run s3 by simp
qed

lemma reparented_trans:
  assumes "reparented c i s t" and "reparented c i t u"
  shows "reparented c i s u"
proof -
  obtain f g where "t = s\<lparr>pcbs := f\<rparr>" "u = t\<lparr>pcbs := g\<rparr>" using assms unfolding reparented_def by blast
  then have "\<exists>g. u = s\<lparr>pcbs := g\<rparr>" by auto
  then show ?thesis using assms unfolding reparented_def by metis
qed

lemma reparented_refl: "reparented c i s s"
proof -
  have "s = s\<lparr>pcbs := pcbs s\<rparr>" by simp
  then show ?thesis unfolding reparented_def by blast
qed

lemma reparented_rest:
  assumes "reparented c i s t"
  shows "p_links t = p_links s" "p_current t = p_current s" "p_idle t = p_idle s" "p_init t = p_init s"
    "nr_process t = nr_process s" "last_pid t = last_pid s" "next_safe t = next_safe s" "space t = space s" "freed t = freed s"
  using assms by (auto simp: reparented_def)

lemma reparent_loop_ok:
  assumes "p_init s = Some i" "c \<noteq> i" and "half_kids (pcbs s) c cs" and "kids_ok (pcbs s) i ks"
    and "set cs \<inter> set ks = {}" "c \<notin> set cs" "i \<notin> set cs" "i \<notin> set ks" and "pr_state (pcbs s i) \<noteq> PROC_ZOMBIE"
  shows "\<exists>t. reparent_loop c s = Some t \<and> reparented c i s t \<and> cptr (pcbs t c) = None \<and>
    kids_ok (pcbs t) i (rev cs @ ks) \<and>
    ((\<exists>p\<in>set cs. pr_state (pcbs s p) = PROC_ZOMBIE) \<and> pr_wait (pcbs s i) = WT_CHILD \<longrightarrow> runnable t i) \<and>
    (\<forall>q. pr_parent (pcbs t q) = (if q \<in> set cs then Some i else pr_parent (pcbs s q))) \<and>
    (\<forall>q. q \<notin> set cs \<union> set ks \<longrightarrow> yptr (pcbs t q) = yptr (pcbs s q) \<and> optr (pcbs t q) = optr (pcbs s q))"
  using assms
proof (induction cs arbitrary: s ks)
  case Nil
  have "cptr (pcbs s c) = None" using Nil.prems(3) by (simp add: half_kids_def)
  then have "reparent_loop c s = Some s" by (subst reparent_loop.simps) simp
  then show ?case using Nil.prems reparented_refl \<open>cptr (pcbs s c) = None\<close> by simp
next
  case (Cons p cs)
  have hk: "cptr (pcbs s c) = Some p" "optr (pcbs s p) = first_of cs None" "distinct (p # cs)"
    "sibs (pcbs s) c (Some p) cs None"
    using Cons.prems(3) by (auto simp: half_kids_def)
  have hi: "cptr (pcbs s i) = first_of ks None" "distinct ks" using Cons.prems(4) by (simp_all add: kids_ok_def)
  have ne: "p \<noteq> i" "p \<noteq> c" "p \<notin> set ks" using Cons.prems by auto
  have older: "cptr (pcbs s i) \<noteq> Some q" if "q \<notin> set ks" for q using hi(1) that by (cases ks) auto
  obtain t where t: "reparent_one c i p s = Some t" "reparented c i s t"
    "\<forall>q. cptr (pcbs t q) = (if q = i then Some p else if q = c then optr (pcbs s p) else cptr (pcbs s q))"
    "\<forall>q. yptr (pcbs t q) = (if q = p then None else if cptr (pcbs s i) = Some q then Some p else yptr (pcbs s q))"
    "\<forall>q. optr (pcbs t q) = (if q = p then cptr (pcbs s i) else optr (pcbs s q))"
    "pr_state (pcbs s p) = PROC_ZOMBIE \<and> pr_wait (pcbs s i) = WT_CHILD \<longrightarrow> runnable t i"
    "\<forall>q. pr_parent (pcbs t q) = (if q = p then Some i else pr_parent (pcbs s q))"
    using reparent_one_eq [OF Cons.prems(2) ne(1,2) older [OF ne(3)] Cons.prems(9)] by blast
  have "sibs (pcbs t) c (Some p) cs None = sibs (pcbs s) c (Some p) cs None"
  proof (rule sibs_cong, intro ballI)
    fix q assume "q \<in> set cs"
    then have "q \<noteq> p" "q \<notin> set ks" using hk(3) Cons.prems(5) by auto
    then show "pr_parent (pcbs t q) = pr_parent (pcbs s q) \<and> yptr (pcbs t q) = yptr (pcbs s q) \<and> optr (pcbs t q) = optr (pcbs s q)"
      using t(4,5,7) older by simp
  qed
  then have half: "half_kids (pcbs t) c cs"
    using hk t(3) Cons.prems(2) by (auto simp: half_kids_def)
  have push: "kids_ok (pcbs t) i (p # ks)"
  proof (rule kids_ok_push [OF Cons.prems(4) ne(3)])
    show "cptr (pcbs t i) = Some p" "pr_parent (pcbs t p) = Some i" "yptr (pcbs t p) = None"
      "optr (pcbs t p) = cptr (pcbs s i)" using t by simp_all
    show "ks \<noteq> [] \<longrightarrow> yptr (pcbs t (hd ks)) = Some p" using t(4) hi(1) ne(3) by (cases ks) auto
    show "\<forall>d\<in>set ks. pr_parent (pcbs t d) = pr_parent (pcbs s d) \<and> optr (pcbs t d) = optr (pcbs s d)"
      using t(5,7) ne(3) by auto
    show "\<forall>d\<in>set (tl ks). yptr (pcbs t d) = yptr (pcbs s d)" using t(4) hi ne(3) by (cases ks) auto
  qed
  have "pr_state (pcbs t i) \<noteq> PROC_ZOMBIE" using t(2) Cons.prems(9) unfolding reparented_def by auto
  then obtain u where u: "reparent_loop c t = Some u" "reparented c i t u" "cptr (pcbs u c) = None"
    "kids_ok (pcbs u) i (rev cs @ p # ks)"
    "(\<exists>p\<in>set cs. pr_state (pcbs t p) = PROC_ZOMBIE) \<and> pr_wait (pcbs t i) = WT_CHILD \<longrightarrow> runnable u i"
    "\<forall>q. pr_parent (pcbs u q) = (if q \<in> set cs then Some i else pr_parent (pcbs t q))"
    "\<forall>q. q \<notin> set cs \<union> set (p # ks) \<longrightarrow> yptr (pcbs u q) = yptr (pcbs t q) \<and> optr (pcbs u q) = optr (pcbs t q)"
    using Cons.IH [OF _ Cons.prems(2) half push] Cons.prems hk(3) ne reparented_rest(4) [OF t(2)] by auto
  have "reparent_loop c s = Some u"
    using hk(1) Cons.prems(1) t(1) u(1) by (subst reparent_loop.simps) simp
  moreover have "pr_parent (pcbs u q) = (if q \<in> set (p # cs) then Some i else pr_parent (pcbs s q))" for q
    using u(6) t(7) by simp
  moreover have "yptr (pcbs u q) = yptr (pcbs s q) \<and> optr (pcbs u q) = optr (pcbs s q)"
    if "q \<notin> set (p # cs) \<union> set ks" for q
    using u(7) t(4,5) older that by simp
  moreover have "runnable u i"
    if z: "\<exists>q\<in>set (p # cs). pr_state (pcbs s q) = PROC_ZOMBIE" and w: "pr_wait (pcbs s i) = WT_CHILD"
  proof -
    have stay: "runnable t i \<Longrightarrow> runnable u i" using u(2) unfolding reparented_def by auto
    show ?thesis
    proof (cases "runnable t i")
      case False
      then have "pr_wait (pcbs t i) = WT_CHILD" using t(2) w unfolding reparented_def by auto
      moreover obtain q where "q \<in> set cs" "pr_state (pcbs s q) = PROC_ZOMBIE" using z t(6) w False by auto
      moreover have "pr_state (pcbs t q) = pr_state (pcbs s q)"
        using t(2) calculation(2) Cons.prems(7) unfolding reparented_def by auto
      ultimately show ?thesis using u(5) by auto
    qed (rule stay)
  qed
  ultimately show ?case
    using u(3,4) reparented_trans [OF t(2) u(2)] by auto
qed

section \<open>The end of a process\<close>

lemma lists_ok_cong:
  assumes "p_links t = p_links s" "last_pid t = last_pid s" "next_safe t = next_safe s" "nr_process t = nr_process s"
    and "\<And>q. pid_of t q = pid_of s q"
  shows "lists_ok ps t = lists_ok ps s"
  using assms by (simp add: lists_ok_def listed_def hashed_def pid_inv_def)

lemma leave_mm_same:
  assumes "leave_mm c s = Some t"
  shows "p_links t = p_links s \<and> p_current t = p_current s \<and> p_idle t = p_idle s \<and> p_init t = p_init s \<and>
    nr_process t = nr_process s \<and> last_pid t = last_pid s \<and> next_safe t = next_safe s \<and> freed t = freed s \<and>
    (\<exists>m. pcbs t = (pcbs s)(c := (pcbs s c)\<lparr>pr_mm := m\<rparr>))"
proof -
  consider "pr_mm (pcbs s c) = None" "t = s"
    | v where "t = upd_pcb c (\<lambda>q. q\<lparr>pr_mm := None\<rparr>) (s\<lparr>cr3_reg := boot_pgdir s, space := v\<rparr>)"
    using assms by (auto simp: leave_mm_def Let_def split: option.splits Option.bind_splits if_splits)
  then show ?thesis
  proof cases
    case 1
    have "pcbs s = (pcbs s)(c := (pcbs s c)\<lparr>pr_mm := None\<rparr>)" using 1(1) by (cases "pcbs s c") (auto simp: fun_eq_iff)
    then show ?thesis using 1(2) by blast
  qed (auto simp: upd_pcb_def)
qed

text \<open>The families after the loop.\<close>

lemma family_reparent:
  assumes fam: "family f i ps kids" and c: "c \<in> set ps" "c \<noteq> ini" and ini: "ini \<in> set ps" "pr_parent (f ini) = Some i"
    and i: "i \<notin> set ps"
    and g: "cptr (g c) = None" "kids_ok g ini (rev (kids c) @ kids ini)"
    and cp: "\<And>q. q \<noteq> c \<Longrightarrow> q \<noteq> ini \<Longrightarrow> cptr (g q) = cptr (f q)"
    and pa: "\<And>q. pr_parent (g q) = (if q \<in> set (kids c) then Some ini else pr_parent (f q))"
    and yo: "\<And>q. q \<notin> set (kids c) \<union> set (kids ini) \<Longrightarrow> yptr (g q) = yptr (f q) \<and> optr (g q) = optr (f q)"
  shows "family g i ps (kids(c := [], ini := rev (kids c) @ kids ini))"
proof -
  note kc = familyD(2) [OF fam, of c] and ki = familyD(2) [OF fam, of ini]
  have sc: "set (kids c) = {d \<in> set ps. pr_parent (f d) = Some c}" using kc c by simp
  have si: "set (kids ini) = {d \<in> set ps. pr_parent (f d) = Some ini}" using ki ini by simp
  have ci: "c \<noteq> i" using c i by auto
  have "kids_ok g q ((kids(c := [], ini := rev (kids c) @ kids ini)) q) \<and>
      set ((kids(c := [], ini := rev (kids c) @ kids ini)) q) = {d \<in> set ps. pr_parent (g d) = Some q}"
    if q: "q \<in> insert i (set ps)" for q
  proof -
    consider "q = ini" | "q = c" "q \<noteq> ini" | "q \<noteq> c" "q \<noteq> ini" by blast
    then show ?thesis
    proof cases
      case 1
      then show ?thesis using g(2) sc si pa by auto
    next
      case 2
      then show ?thesis using g(1) c sc by (auto simp: kids_ok_def pa)
    next
      case 3
      note kq = familyD [OF fam q]
      have "kids_ok g q (kids q) = kids_ok f q (kids q)"
      proof (rule kids_ok_cong)
        show "cptr (g q) = cptr (f q)" by (rule cp [OF 3])
        show "\<forall>d\<in>set (kids q). pr_parent (g d) = pr_parent (f d) \<and> yptr (g d) = yptr (f d) \<and> optr (g d) = optr (f d)"
        proof
          fix d assume "d \<in> set (kids q)"
          then have "d \<notin> set (kids c)" "d \<notin> set (kids ini)" using kq(2) sc si 3 by auto
          then show "pr_parent (g d) = pr_parent (f d) \<and> yptr (g d) = yptr (f d) \<and> optr (g d) = optr (f d)"
            using pa yo by simp
        qed
      qed
      then show ?thesis using 3 kq sc by (auto simp: pa)
    qed
  qed
  moreover have "\<exists>q\<in>insert i (set ps). pr_parent (g d) = Some q \<and> q \<noteq> d" if d: "d \<in> set ps" for d
  proof (cases "d \<in> set (kids c)")
    case True
    then have "d \<noteq> ini" using sc ini(2) ci by auto
    then show ?thesis using True ini(1) by (auto simp: pa)
  next
    case False
    then show ?thesis using family_parent [OF fam d] by (metis pa)
  qed
  ultimately show ?thesis unfolding family_def by blast
qed

text \<open>The loop on the families of all processes.\<close>

lemma family_reparent_loop:
  assumes fam: "family (pcbs s) i ps kids" and "p_init s = Some ini"
    and ini: "ini \<in> set ps" "pr_parent (pcbs s ini) = Some i" "pr_state (pcbs s ini) \<noteq> PROC_ZOMBIE"
    and c: "c \<in> set ps" "c \<noteq> ini" and i: "i \<notin> set ps"
  shows "\<exists>t. reparent_loop c s = Some t \<and> reparented c ini s t \<and>
    family (pcbs t) i ps (kids(c := [], ini := rev (kids c) @ kids ini)) \<and>
    ((\<exists>p\<in>set (kids c). pr_state (pcbs s p) = PROC_ZOMBIE) \<and> pr_wait (pcbs s ini) = WT_CHILD \<longrightarrow> runnable t ini)"
proof -
  have kc: "kids_ok (pcbs s) c (kids c)" "set (kids c) = {d \<in> set ps. pr_parent (pcbs s d) = Some c}"
    using familyD [OF fam, of c] c(1) by auto
  have ki: "kids_ok (pcbs s) ini (kids ini)" "set (kids ini) = {d \<in> set ps. pr_parent (pcbs s d) = Some ini}"
    using familyD [OF fam, of ini] ini(1) by auto
  have self: "pr_parent (pcbs s q) \<noteq> Some q" if "q \<in> set ps" for q
    using family_parent [OF fam that] by (metis option.inject)
  have half: "half_kids (pcbs s) c (kids c)" using kc(1) by (auto simp: half_kids_def kids_ok_def)
  have apart: "set (kids c) \<inter> set (kids ini) = {}" "c \<notin> set (kids c)" "ini \<notin> set (kids c)" "ini \<notin> set (kids ini)"
    using kc(2) ki(2) c self [OF c(1)] self [OF ini(1)] ini(2) i by auto
  obtain t where t: "reparent_loop c s = Some t" "reparented c ini s t" "cptr (pcbs t c) = None"
    "kids_ok (pcbs t) ini (rev (kids c) @ kids ini)"
    "(\<exists>p\<in>set (kids c). pr_state (pcbs s p) = PROC_ZOMBIE) \<and> pr_wait (pcbs s ini) = WT_CHILD \<longrightarrow> runnable t ini"
    "\<forall>q. pr_parent (pcbs t q) = (if q \<in> set (kids c) then Some ini else pr_parent (pcbs s q))"
    "\<forall>q. q \<notin> set (kids c) \<union> set (kids ini) \<longrightarrow> yptr (pcbs t q) = yptr (pcbs s q) \<and> optr (pcbs t q) = optr (pcbs s q)"
    using reparent_loop_ok [OF assms(2) c(2) half ki(1) apart ini(3)] by metis
  have "family (pcbs t) i ps (kids(c := [], ini := rev (kids c) @ kids ini))"
  proof (rule family_reparent [OF fam c(1,2) ini(1,2) i t(3,4)])
    show "cptr (pcbs t q) = cptr (pcbs s q)" if "q \<noteq> c" "q \<noteq> ini" for q
      using t(2) that unfolding reparented_def by blast
    show "pr_parent (pcbs t q) = (if q \<in> set (kids c) then Some ini else pr_parent (pcbs s q))" for q using t(6) by blast
    show "yptr (pcbs t q) = yptr (pcbs s q) \<and> optr (pcbs t q) = optr (pcbs s q)"
      if "q \<notin> set (kids c) \<union> set (kids ini)" for q using t(7) that by blast
  qed
  then show ?thesis using t(1,2,5) by blast
qed

text \<open>The state before the loop: the process is a zombie and a waiting parent is awake.\<close>

definition dying :: "int \<Rightarrow> nat \<Rightarrow> nat \<Rightarrow> pstate \<Rightarrow> pstate" where
  "dying code c par s =
    (let s = upd_pcb c (\<lambda>q. q\<lparr>pr_state := PROC_ZOMBIE, pr_exit_code := code\<rparr>) s
     in if pr_wait (pcbs s par) = WT_CHILD then upd_pcb par (\<lambda>q. q\<lparr>pr_state := PROC_RUNNABLE, pr_wait := 0\<rparr>) s else s)"

lemma dying_fields:
  assumes mm: "leave_mm c s = Some s1" and par: "par \<noteq> c"
  shows "pr_state (pcbs (dying code c par s1) q) = (if q = c then PROC_ZOMBIE
      else if q = par \<and> pr_wait (pcbs s par) = WT_CHILD then PROC_RUNNABLE else pr_state (pcbs s q))"
    "pr_wait (pcbs (dying code c par s1) q) =
      (if q = par \<and> pr_wait (pcbs s par) = WT_CHILD then 0 else pr_wait (pcbs s q))"
    "pr_exit_code (pcbs (dying code c par s1) q) = (if q = c then code else pr_exit_code (pcbs s q))"
    "pid_of (dying code c par s1) q = pid_of s q"
    "same_links (pcbs s) (pcbs (dying code c par s1))"
proof -
  obtain m where m: "pcbs s1 = (pcbs s)(c := (pcbs s c)\<lparr>pr_mm := m\<rparr>)" using leave_mm_same [OF mm] by blast
  show "pr_state (pcbs (dying code c par s1) q) = (if q = c then PROC_ZOMBIE
      else if q = par \<and> pr_wait (pcbs s par) = WT_CHILD then PROC_RUNNABLE else pr_state (pcbs s q))"
    "pr_wait (pcbs (dying code c par s1) q) =
      (if q = par \<and> pr_wait (pcbs s par) = WT_CHILD then 0 else pr_wait (pcbs s q))"
    "pr_exit_code (pcbs (dying code c par s1) q) = (if q = c then code else pr_exit_code (pcbs s q))"
    "pid_of (dying code c par s1) q = pid_of s q"
    using par by (simp_all add: dying_def Let_def m)
  show "same_links (pcbs s) (pcbs (dying code c par s1))" by (simp add: same_links_def dying_def Let_def m)
qed

lemma dying_rest:
  assumes "leave_mm c s = Some s1"
  shows "p_links (dying code c par s1) = p_links s" "p_idle (dying code c par s1) = p_idle s"
    "p_init (dying code c par s1) = p_init s" "nr_process (dying code c par s1) = nr_process s"
    "last_pid (dying code c par s1) = last_pid s" "next_safe (dying code c par s1) = next_safe s"
    "space (dying code c par s1) = space s1"
  using leave_mm_same [OF assms] by (simp_all add: dying_def Let_def)

lemma exit_steps_dying:
  assumes mm: "leave_mm c s = Some s1" and par: "pr_parent (pcbs s c) = Some par" "par \<noteq> c"
    and "Some c \<noteq> p_idle s" "Some c \<noteq> p_init s"
    and "pr_wait (pcbs s par) = WT_CHILD \<longrightarrow> pr_state (pcbs s par) = PROC_SLEEPING"
  shows "exit_steps code c s = reparent_loop c (dying code c par s1)"
proof -
  obtain m where "pcbs s1 = (pcbs s)(c := (pcbs s c)\<lparr>pr_mm := m\<rparr>)" using leave_mm_same [OF mm] by blast
  then show ?thesis using assms by (auto simp: exit_steps_def dying_def Let_def wakeup5_ok)
qed

text \<open>The promises about waiting and zombies after the loop.\<close>

lemma exit_waits:
  assumes wt: "waits_ok (pcbs s) i ps kids" and mm: "leave_mm c s = Some s1" and par: "par \<noteq> c"
    and c: "c \<noteq> ini" "runnable s c" and ini: "pr_state (pcbs s ini) \<noteq> PROC_ZOMBIE"
    and t: "reparented c ini (dying code c par s1) t"
  shows "waits_ok (pcbs t) i ps (kids(c := [], ini := rev (kids c) @ kids ini))"
  unfolding waits_ok_def
proof (intro ballI conjI impI)
  fix q assume q: "q \<in> insert i (set ps)"
  note d = dying_fields [OF mm par, where code = code]
  have old: "pr_wait (pcbs s q) = WT_CHILD \<longrightarrow> pr_state (pcbs s q) = PROC_SLEEPING"
    "pr_state (pcbs s q) = PROC_ZOMBIE \<longrightarrow> kids q = []" using wt q unfolding waits_ok_def by blast+
  have w0: "(0 :: 32 word) \<noteq> WT_CHILD" by (simp add: WT_CHILD_def)
  have sq: "pr_state (pcbs t q) = pr_state (pcbs (dying code c par s1) q) \<and>
        pr_wait (pcbs t q) = pr_wait (pcbs (dying code c par s1) q) \<or>
      q = ini \<and> runnable t q \<and> pr_wait (pcbs t q) = 0"
    using t unfolding reparented_def by metis
  show "pr_state (pcbs t q) = PROC_SLEEPING" if "pr_wait (pcbs t q) = WT_CHILD"
    using that sq w0 old(1) c(2) by (auto simp: d(1,2) split: if_splits)
  show "(kids(c := [], ini := rev (kids c) @ kids ini)) q = []" if "pr_state (pcbs t q) = PROC_ZOMBIE"
  proof (cases "q = c")
    case False
    have "q \<noteq> ini" using sq that ini c(1) by (auto simp: d(1) split: if_splits)
    then show ?thesis using False that sq old(2) by (auto simp: d(1) split: if_splits)
  qed (use c(1) in simp)
qed

text \<open>C11.
  A process that ends hands its children over: each child of the process is moved to the
  children of \<open>initproc\<close>, with sibling and parent pointers rebuilt, the process is a zombie with
  its exit code and no children, a parent waiting for a child is woken, and so is \<open>initproc\<close>
  when it waits and inherits a zombie.  \<open>leave_mm\<close>, the release of the address space, is taken to
  return.\<close>
theorem exit_reparents:
  assumes ok: "procs_ok i ps kids s" and ini: "p_init s = Some ini" "ini \<in> set ps" "pr_parent (pcbs s ini) = Some i"
      "pr_state (pcbs s ini) \<noteq> PROC_ZOMBIE"
    and c: "c \<in> set ps" "c \<noteq> ini" "runnable s c" and mm: "leave_mm c s = Some s1"
  shows "\<exists>t. exit_steps code c s = Some t \<and>
    procs_ok i ps (kids(c := [], ini := rev (kids c) @ kids ini)) t \<and>
    pr_state (pcbs t c) = PROC_ZOMBIE \<and> pr_exit_code (pcbs t c) = code \<and>
    (\<forall>par. pr_parent (pcbs s c) = Some par \<and> pr_wait (pcbs s par) = WT_CHILD \<longrightarrow> runnable t par) \<and>
    ((\<exists>p\<in>set (kids c). pr_state (pcbs s p) = PROC_ZOMBIE) \<and> pr_wait (pcbs s ini) = WT_CHILD \<longrightarrow> runnable t ini) \<and>
    space t = space s1"
proof -
  have lists: "lists_ok ps s" and idle: "p_idle s = Some i" and i: "i \<notin> set ps"
    and fam: "family (pcbs s) i ps kids" and wt: "waits_ok (pcbs s) i ps kids"
    using ok by (auto simp: procs_ok_def)
  obtain par where par: "par \<in> insert i (set ps)" "pr_parent (pcbs s c) = Some par" "par \<noteq> c"
    using family_parent [OF fam c(1)] by metis
  define s3 where "s3 = dying code c par s1"
  note d = dying_fields [OF mm par(3), where code = code, folded s3_def]
    and rest = dying_rest [OF mm, of code par, folded s3_def]
  have fam3: "family (pcbs s3) i ps kids" using fam d(5) by (simp add: family_same)
  have step: "exit_steps code c s = reparent_loop c s3"
    unfolding s3_def by (rule exit_steps_dying [OF mm par(2,3)])
      (use wt par(1) c i idle ini(1) in \<open>auto simp: waits_ok_def\<close>)
  have pini: "pr_parent (pcbs s3 ini) = Some i" using ini(3) same_linksD [OF d(5)] by simp
  have ini3: "pr_state (pcbs s3 ini) \<noteq> PROC_ZOMBIE" using ini(4) c(2) by (simp add: d(1))
  obtain t where t: "reparent_loop c s3 = Some t" "reparented c ini s3 t"
    "family (pcbs t) i ps (kids(c := [], ini := rev (kids c) @ kids ini))"
    "(\<exists>p\<in>set (kids c). pr_state (pcbs s3 p) = PROC_ZOMBIE) \<and> pr_wait (pcbs s3 ini) = WT_CHILD \<longrightarrow> runnable t ini"
    using family_reparent_loop [OF fam3 _ ini(2) pini ini3 c(1,2) i] rest(3) ini(1) by auto
  note re = t(2) [unfolded reparented_def] and rr = reparented_rest [OF t(2)]
  have "lists_ok ps t" using lists lists_ok_cong [of t s ps] rr rest re d(4) by simp
  moreover have "waits_ok (pcbs t) i ps (kids(c := [], ini := rev (kids c) @ kids ini))"
    by (rule exit_waits [OF wt mm par(3) c(2,3) ini(4) t(2) [unfolded s3_def]])
  ultimately have ok_t: "procs_ok i ps (kids(c := [], ini := rev (kids c) @ kids ini)) t"
    using rr(3) rest(2) idle i t(3) by (simp add: procs_ok_def)
  have woken: "runnable t p" if "pr_parent (pcbs s c) = Some p" "pr_wait (pcbs s p) = WT_CHILD" for p
  proof -
    have "runnable s3 p" using that par by (simp add: d(1))
    then show ?thesis using re by metis
  qed
  have "runnable t ini" if z: "\<exists>p\<in>set (kids c). pr_state (pcbs s p) = PROC_ZOMBIE" "pr_wait (pcbs s ini) = WT_CHILD"
  proof (cases "par = ini")
    case False
    obtain p where p: "p \<in> set (kids c)" "pr_state (pcbs s p) = PROC_ZOMBIE" using z(1) by blast
    have "pr_state (pcbs s3 p) = PROC_ZOMBIE" using p wt par(1) by (auto simp: d(1) waits_ok_def)
    then show ?thesis using t(4) p(1) z(2) False c(2) by (auto simp: d(2))
  qed (use woken par(2) z(2) in simp)
  moreover have "pr_state (pcbs t c) = PROC_ZOMBIE" "pr_exit_code (pcbs t c) = code"
    using re c(2) par(3) by (auto simp: d(1,3))
  ultimately show ?thesis using step t(1) ok_t woken rr(8) rest(7) by auto
qed

end
