(* ===== verification/Process_Life.thy ===== *)
theory Process_Life
  imports Process_Family
begin

unbundle bit_operations_syntax

text \<open>
  Reaping, waiting and creating: \<open>do_wait\<close> and \<open>do_fork\<close> of \<open>Process\<close> under the invariant
  \<open>procs_ok\<close> of \<open>Process_Family\<close>, and an example with four processes.
\<close>

section \<open>Reaping a zombie\<close>

lemma remove_links_eq:
  assumes "pr_parent (pcbs s p) = Some par" and "optr (pcbs s p) \<noteq> Some p" "yptr (pcbs s p) \<noteq> Some p"
  shows "\<exists>f. remove_links p s =
      Some (s\<lparr>p_links := list_del (PLink p) (p_links s), pcbs := f, nr_process := nr_process s - 1\<rparr>) \<and>
    (\<forall>q. pr_parent (f q) = pr_parent (pcbs s q) \<and> pr_state (f q) = pr_state (pcbs s q) \<and> pr_wait (f q) = pr_wait (pcbs s q) \<and>
       pr_pid (f q) = pr_pid (pcbs s q) \<and> pr_kstack (f q) = pr_kstack (pcbs s q)) \<and>
    (\<forall>q. yptr (f q) = (if optr (pcbs s p) = Some q then yptr (pcbs s p) else yptr (pcbs s q))) \<and>
    (\<forall>q. optr (f q) = (if yptr (pcbs s p) = Some q then optr (pcbs s p) else optr (pcbs s q))) \<and>
    (\<forall>q. cptr (f q) = (if yptr (pcbs s p) = None \<and> q = par then optr (pcbs s p) else cptr (pcbs s q)))"
proof -
  define s1 where "s1 = (case optr (pcbs s p) of None \<Rightarrow> s
      | Some older \<Rightarrow> upd_pcb older (\<lambda>q. q\<lparr>yptr := yptr (pcbs s p)\<rparr>) s)"
  define s2 where "s2 = (case yptr (pcbs s p) of
      Some younger \<Rightarrow> upd_pcb younger (\<lambda>q. q\<lparr>optr := optr (pcbs s p)\<rparr>) s1
    | None \<Rightarrow> upd_pcb par (\<lambda>q. q\<lparr>cptr := optr (pcbs s p)\<rparr>) s1)"
  have run: "remove_links p s =
      Some (s\<lparr>p_links := list_del (PLink p) (p_links s), pcbs := pcbs s2, nr_process := nr_process s - 1\<rparr>)"
    using assms unfolding s2_def s1_def
    by (cases "optr (pcbs s p)"; cases "yptr (pcbs s p)") (auto simp: remove_links_def Let_def upd_pcb_def)
  show ?thesis
    by (rule exI [of _ "pcbs s2"], rule conjI [OF run])
      (auto simp: s2_def s1_def split: option.splits)
qed

lemma reap_ok:
  assumes ok: "procs_ok i ps kids s" and p: "p \<in> set ps" "pr_state (pcbs s p) = PROC_ZOMBIE" "p_init s \<noteq> Some p"
    and par: "pr_parent (pcbs s p) = Some c"
    and fp: "free_pages (pr_kstack (pcbs s p) - nbase) KSTACKPAGE (mach (space s)) = Some h"
  shows "\<exists>t. reap p s = Some t \<and> procs_ok i (remove1 p ps) (kids(c := remove1 p (kids c))) t \<and>
    freed t = freed s @ [p] \<and> space t = (space s)\<lparr>mach := h\<rparr> \<and> p_current t = p_current s"
proof -
  have lists: "lists_ok ps s" and idle: "p_idle s = Some i" and i: "i \<notin> set ps"
    and fam: "family (pcbs s) i ps kids" and wt: "waits_ok (pcbs s) i ps kids"
    using ok by (auto simp: procs_ok_def)
  have dist: "distinct ps" using lists by (auto simp: lists_ok_def intro: listed_distinct)
  have nokids: "kids p = []" using wt p by (simp add: waits_ok_def)
  obtain c' where c': "c' \<in> insert i (set ps)" "pr_parent (pcbs s p) = Some c'" "p \<in> set (kids c')"
    using family_parent [OF fam p(1)] by metis
  have pk: "p \<in> set (kids c)" and cin: "c \<in> insert i (set ps)" using c' par by auto
  obtain xs ys where xy: "kids c = xs @ p # ys" using pk by (meson split_list)
  have kc: "kids_ok (pcbs s) c (xs @ p # ys)" using familyD(1) [OF fam cin] xy by simp
  then have "yptr (pcbs s p) = (if xs = [] then None else Some (last xs))" "optr (pcbs s p) = first_of ys None"
    "distinct (xs @ p # ys)"
    using sibs_at [of "pcbs s" c None xs p ys None] by (simp_all add: kids_ok_def)
  then have ne: "optr (pcbs s p) \<noteq> Some p" "yptr (pcbs s p) \<noteq> Some p" by (cases ys; auto)+
  let ?s1 = "unhash_proc p s"
  have s1: "pcbs ?s1 = pcbs s" by (simp add: unhash_proc_def)
  obtain f where f: "remove_links p ?s1 =
      Some (?s1\<lparr>p_links := list_del (PLink p) (p_links ?s1), pcbs := f, nr_process := nr_process ?s1 - 1\<rparr>)"
    and same: "\<forall>q. pr_parent (f q) = pr_parent (pcbs s q) \<and> pr_state (f q) = pr_state (pcbs s q) \<and>
       pr_wait (f q) = pr_wait (pcbs s q) \<and> pr_pid (f q) = pr_pid (pcbs s q) \<and> pr_kstack (f q) = pr_kstack (pcbs s q)"
    and yp: "\<forall>q. yptr (f q) = (if optr (pcbs s p) = Some q then yptr (pcbs s p) else yptr (pcbs s q))"
    and op: "\<forall>q. optr (f q) = (if yptr (pcbs s p) = Some q then optr (pcbs s p) else optr (pcbs s q))"
    and cp: "\<forall>q. cptr (f q) = (if yptr (pcbs s p) = None \<and> q = c then optr (pcbs s p) else cptr (pcbs s q))"
    using remove_links_eq [of ?s1 p c] par ne unfolding s1 by blast
  define t where "t = s\<lparr>p_links := list_del (PLink p) (list_del (HLink p) (p_links s)), pcbs := f,
      nr_process := nr_process s - 1, space := (space s)\<lparr>mach := h\<rparr>, freed := freed s @ [p]\<rparr>"
  have "p_idle s \<noteq> Some p" using idle p(1) i by auto
  then have run: "reap p s = Some t"
    using p(3) f fp same
    by (simp add: reap_def t_def unhash_proc_def put_kstack_def on_machine_def on_space_def Let_def)
  have fam_t: "family f i (remove1 p ps) (kids(c := remove1 p (kids c)))"
    by (rule family_remove [OF fam dist i p(1) par nokids]) (use same yp op cp in simp_all)
  have set_ps: "set (remove1 p ps) = set ps - {p}" using dist by simp
  have "ring (p_links s) ProcList (map PLink ps)" "chains (p_links s) (\<lambda>q. pid_hashfn (pid_of s q)) ps"
    using lists by (simp_all add: lists_ok_def listed_def hashed_chains)
  note un = unhash_links [OF this p(1) pid_hashfn_bound]
  have links: "listed (remove1 p ps) t" "hashed (remove1 p ps) t"
    using unlist_links [OF conjunct1 [OF un] conjunct2 [OF un] p(1)] same
    by (simp_all add: listed_def hashed_chains t_def)
  have len: "length ps = Suc (length (remove1 p ps))"
    using p(1) length_pos_if_in_set [OF p(1)] by (simp add: length_remove1)
  have nr: "nr_process t = int (length (remove1 p ps)) + 1" using lists len by (simp add: lists_ok_def t_def)
  have "distinct (map (pid_of t) (remove1 p ps))"
    using lists dist same by (auto simp: lists_ok_def distinct_map t_def intro: inj_on_subset)
  then have lists_t: "lists_ok (remove1 p ps) t"
    using links nr lists same set_ps by (simp add: lists_ok_def pid_inv_def) (simp add: t_def)
  have "waits_ok f i (remove1 p ps) (kids(c := remove1 p (kids c)))"
    using wt same set_ps by (fastforce simp: waits_ok_def)
  then have "procs_ok i (remove1 p ps) (kids(c := remove1 p (kids c))) t"
    using lists_t fam_t idle i set_ps by (simp add: procs_ok_def) (simp add: t_def)
  then show ?thesis using run by (auto simp: t_def)
qed

section \<open>Waiting for a child\<close>

abbreviation zombie :: "pstate \<Rightarrow> nat \<Rightarrow> bool" where
  "zombie s p \<equiv> pr_state (pcbs s p) = PROC_ZOMBIE"

lemma child_loop_eq:
  "sibs (pcbs s) c y cs None \<Longrightarrow>
    child_loop (first_of cs None) b s = Some (b \<or> cs \<noteq> [], List.find (zombie s) cs)"
proof (induction cs arbitrary: y b)
  case Nil
  show ?case by (subst child_loop.simps) simp
next
  case (Cons d cs)
  then show ?case by (subst child_loop.simps) auto
qed

text \<open>The children a call of \<open>do_wait\<close> asks for.\<close>

definition awaited :: "int \<Rightarrow> nat list \<Rightarrow> pstate \<Rightarrow> nat list" where
  "awaited pid cs s = (if pid = 0 then cs else filter (\<lambda>p. pid_of s p = pid) cs)"

lemma filter_unique:
  assumes "distinct xs" and "p \<in> set xs" and "\<And>q. q \<in> set xs \<Longrightarrow> P q \<longleftrightarrow> q = p"
  shows "filter P xs = [p]"
proof -
  have "filter P xs = filter (\<lambda>q. q = p) xs" using assms(3) by (intro filter_cong) auto
  also have "\<dots> = [p]" using assms(1,2) by (induction xs) (auto simp: filter_empty_conv)
  finally show ?thesis .
qed

lemma find_zombie_eq:
  assumes ok: "procs_ok i ps kids s" and c: "c \<in> insert i (set ps)"
  shows "find_zombie pid c s = Some (awaited pid (kids c) s \<noteq> [], List.find (zombie s) (awaited pid (kids c) s))"
proof (cases "pid = 0")
  case True
  have "kids_ok (pcbs s) c (kids c)" using familyD(1) c ok by (auto simp: procs_ok_def)
  then show ?thesis
    using True child_loop_eq [of s c None "kids c" False] by (simp add: find_zombie_def awaited_def kids_ok_def)
next
  case False
  have lists: "lists_ok ps s" and fam: "family (pcbs s) i ps kids" using ok by (simp_all add: procs_ok_def)
  have fp: "find_proc pid s = Some (List.find (\<lambda>p. pid_of s p = pid) ps)"
    by (rule find_proc_ok) (use lists in \<open>simp_all add: lists_ok_def\<close>)
  have kc: "set (kids c) = {d \<in> set ps. pr_parent (pcbs s d) = Some c}" "distinct (kids c)"
    using familyD [OF fam c] by (auto simp: kids_ok_def)
  show ?thesis
  proof (cases "List.find (\<lambda>p. pid_of s p = pid) ps")
    case None
    then have "\<forall>p\<in>set ps. pid_of s p \<noteq> pid" unfolding find_None_iff by blast
    then have "awaited pid (kids c) s = []" using False kc(1) by (auto simp: awaited_def filter_empty_conv)
    then show ?thesis using False fp None by (simp add: find_zombie_def)
  next
    case (Some p)
    then have p: "p \<in> set ps" "pid_of s p = pid" using find_Some_split [OF Some] by auto
    have uniq: "pid_of s q = pid \<longleftrightarrow> q = p" if "q \<in> set ps" for q
      using lists p that by (auto simp: lists_ok_def distinct_map dest: inj_onD)
    show ?thesis
    proof (cases "pr_parent (pcbs s p) = Some c")
      case True
      have "filter (\<lambda>q. pid_of s q = pid) (kids c) = [p]"
        by (rule filter_unique) (use kc uniq True p(1) in auto)
      then have "awaited pid (kids c) s = [p]" using False by (simp add: awaited_def)
      then show ?thesis using False fp Some True by (simp add: find_zombie_def)
    next
      case other: False
      then have "awaited pid (kids c) s = []" using False kc(1) uniq by (auto simp: awaited_def filter_empty_conv)
      then show ?thesis using False fp Some other by (simp add: find_zombie_def)
    qed
  qed
qed

text \<open>A change of state and of bookkeeping fields that keeps the invariant.\<close>

lemma procs_ok_state:
  assumes ok: "procs_ok i ps kids s" and t: "lists_ok ps t = lists_ok ps s" "p_idle t = p_idle s"
    and same: "same_links (pcbs s) (pcbs t)"
    and w: "\<And>p. p \<in> insert i (set ps) \<Longrightarrow>
      (pr_wait (pcbs t p) = WT_CHILD \<longrightarrow> pr_state (pcbs t p) = PROC_SLEEPING) \<and> (zombie t p \<longrightarrow> kids p = [])"
  shows "procs_ok i ps kids t"
  using ok t family_same [OF same] w by (simp add: procs_ok_def waits_ok_def)

text \<open>C12.
  \<open>do_wait\<close>, once its arguments are checked.  With a zombie among the children asked for, it
  reaps the first one: the zombie leaves the process list, its hash chain and its family, its
  stack and its control block are freed, and the invariant of all processes holds for the rest;
  the result is its exit code.  With children but no zombie, the caller sleeps with \<open>WT_CHILD\<close> and
  another process runs.  Without such a child it returns \<open>-E_BAD_PROC\<close> and changes nothing.\<close>
theorem do_wait_cases:
  assumes ok: "procs_ok i ps kids s" and c: "p_current s = Some c" "c \<in> insert i (set ps)" "c \<noteq> i"
    and ini: "\<forall>p. p_init s = Some p \<longrightarrow> \<not> zombie s p"
    and stacks: "\<forall>p\<in>set ps. zombie s p \<longrightarrow>
      free_pages (pr_kstack (pcbs s p) - nbase) KSTACKPAGE (mach (space s)) \<noteq> None"
  shows "case List.find (zombie s) (awaited pid (kids c) s) of
      Some p \<Rightarrow> \<exists>t. do_wait_repeat pid store s = Some (t, Returned 0 (if store then Some (pr_exit_code (pcbs s p)) else None)) \<and>
        p \<in> set ps \<and> procs_ok i (remove1 p ps) (kids(c := remove1 p (kids c))) t \<and> freed t = freed s @ [p]
    | None \<Rightarrow>
        if awaited pid (kids c) s = [] then do_wait_repeat pid store s = Some (s, Returned (- E_BAD_PROC) None)
        else \<exists>t n. do_wait_repeat pid store s = Some (t, Sleeping) \<and> procs_ok i ps kids t \<and>
          pr_state (pcbs t c) = PROC_SLEEPING \<and> pr_wait (pcbs t c) = WT_CHILD \<and> p_current t = Some n \<and> n \<noteq> c"
proof -
  have fz: "find_zombie pid c s = Some (awaited pid (kids c) s \<noteq> [], List.find (zombie s) (awaited pid (kids c) s))"
    by (rule find_zombie_eq [OF ok c(2)])
  have kc: "set (kids c) = {d \<in> set ps. pr_parent (pcbs s d) = Some c}"
    using familyD(2) [of "pcbs s" i ps kids c] ok c(2) by (simp add: procs_ok_def)
  show ?thesis
  proof (cases "List.find (zombie s) (awaited pid (kids c) s)")
    case (Some p)
    have "p \<in> set (awaited pid (kids c) s)" "zombie s p" using find_Some_split [OF Some] by auto
    then have p: "p \<in> set ps" "zombie s p" "pr_parent (pcbs s p) = Some c" using kc by (auto simp: awaited_def split: if_splits)
    obtain h where h: "free_pages (pr_kstack (pcbs s p) - nbase) KSTACKPAGE (mach (space s)) = Some h"
      using stacks p by blast
    have "p_init s \<noteq> Some p" using ini p(2) by blast
    from reap_ok [OF ok p(1,2) this p(3) h] show ?thesis
      using c(1) fz Some p(1) by (auto simp: do_wait_repeat_def)
  next
    case None
    show ?thesis
    proof (cases "awaited pid (kids c) s = []")
      case True
      then show ?thesis using c(1) fz None by (simp add: do_wait_repeat_def)
    next
      case False
      define s1 where "s1 = upd_pcb c (\<lambda>q. q\<lparr>pr_state := PROC_SLEEPING, pr_wait := WT_CHILD\<rparr>) s"
      have "listed ps s1" "p_current s1 = Some c" "p_idle s1 = Some i" "c = i \<or> c \<in> set ps"
        using ok c by (auto simp: procs_ok_def lists_ok_def listed_def s1_def)
      from schedule5_ok [OF this] obtain t n where t: "schedule5 s1 = Some t" "p_current t = Some n"
        "n = (case List.find (runnable s1) (rotation ps i c) of Some q \<Rightarrow> q | None \<Rightarrow> i)"
        "p_links t = p_links s1" "nr_process t = nr_process s1" "last_pid t = last_pid s1 \<and> next_safe t = next_safe s1 \<and> p_idle t = p_idle s1"
        "\<forall>p. pcbs t p = (pcbs s1 p)\<lparr>pr_need_resched := (pr_need_resched (pcbs s1 p) \<and> p \<noteq> c),
           pr_runs := pr_runs (pcbs s1 p) + (if p = n then 1 else 0)\<rparr>" by blast
      have "n \<noteq> c"
      proof (cases "List.find (runnable s1) (rotation ps i c)")
        case (Some q)
        from find_Some_split [OF Some] have "runnable s1 q" by auto
        moreover have "\<not> runnable s1 c" by (simp add: s1_def)
        ultimately show ?thesis using t(3) Some by auto
      qed (use t(3) c(3) in simp)
      moreover have "procs_ok i ps kids t"
      proof (rule procs_ok_state [OF ok])
        show "lists_ok ps t = lists_ok ps s" by (rule lists_ok_cong) (use t in \<open>simp_all add: s1_def\<close>)
        show "p_idle t = p_idle s" using t(6) by (simp add: s1_def)
        show "same_links (pcbs s) (pcbs t)" using t(7) by (simp add: same_links_def s1_def)
        show "(pr_wait (pcbs t p) = WT_CHILD \<longrightarrow> pr_state (pcbs t p) = PROC_SLEEPING) \<and> (zombie t p \<longrightarrow> kids p = [])"
          if "p \<in> insert i (set ps)" for p
          using t(7) ok that by (auto simp: procs_ok_def waits_ok_def s1_def)
      qed
      ultimately show ?thesis
        using c(1) fz None False t(1,2,7) by (auto simp: do_wait_repeat_def s1_def [symmetric]) (auto simp: s1_def)
    qed
  qed
qed

section \<open>Creating a process\<close>

text \<open>\<open>off p s t\<close>: nothing but the control block of \<open>p\<close> and the memory differs.\<close>

definition off :: "nat \<Rightarrow> pstate \<Rightarrow> pstate \<Rightarrow> bool" where
  "off p s t \<longleftrightarrow> p_links t = p_links s \<and> p_current t = p_current s \<and> p_idle t = p_idle s \<and> p_init t = p_init s \<and>
     nr_process t = nr_process s \<and> last_pid t = last_pid s \<and> next_safe t = next_safe s \<and> freed t = freed s \<and>
     (\<forall>q. q \<noteq> p \<longrightarrow> pcbs t q = pcbs s q)"

lemma procs_ok_off:
  assumes ok: "procs_ok i ps kids s" and p: "p \<notin> insert i (set ps)" and t: "off p s t"
  shows "procs_ok i ps kids t"
proof -
  have same: "pcbs t q = pcbs s q" if "q \<in> insert i (set ps)" for q using t p that by (auto simp: off_def)
  have fam: "family (pcbs s) i ps kids" and lists: "lists_ok ps s" using ok by (simp_all add: procs_ok_def)
  have kids_t: "kids_ok (pcbs t) q (kids q)" if q: "q \<in> insert i (set ps)" for q
  proof -
    have "kids_ok (pcbs t) q (kids q) = kids_ok (pcbs s) q (kids q)"
      by (rule kids_ok_cong) (use same [OF q] same familyD(2) [OF fam q] in auto)
    then show ?thesis using familyD(1) [OF fam q] by simp
  qed
  have "family (pcbs t) i ps kids"
    using kids_t fam same unfolding family_def by auto
  moreover have "filter (\<lambda>q. pid_hashfn (pid_of t q) = b) ps = filter (\<lambda>q. pid_hashfn (pid_of s q) = b) ps" for b
    using same by (intro filter_cong) simp_all
  then have "hashed ps t" using lists t by (simp add: lists_ok_def hashed_def off_def)
  moreover have "distinct (map (pid_of t) ps)"
  proof -
    have "map (pid_of t) ps = map (pid_of s) ps" using same by simp
    then show ?thesis using lists unfolding lists_ok_def by argo
  qed
  ultimately show ?thesis
    using ok t same by (simp add: procs_ok_def lists_ok_def listed_def pid_inv_def waits_ok_def off_def)
qed

lemma set_links_eq:
  assumes "pr_parent (pcbs s p) = Some par" and "p \<noteq> par" and "cptr (pcbs s par) \<noteq> Some p"
  shows "\<exists>f. set_links p s =
      Some (s\<lparr>p_links := list_add ProcList (PLink p) (p_links s), pcbs := f, nr_process := nr_process s + 1\<rparr>) \<and>
    (\<forall>q. pr_parent (f q) = pr_parent (pcbs s q) \<and> pr_state (f q) = pr_state (pcbs s q) \<and> pr_wait (f q) = pr_wait (pcbs s q) \<and>
       pr_pid (f q) = pr_pid (pcbs s q) \<and> pr_ctx_ra (f q) = pr_ctx_ra (pcbs s q) \<and> pr_frame (f q) = pr_frame (pcbs s q) \<and>
       pr_mm (f q) = pr_mm (pcbs s q) \<and> pr_kstack (f q) = pr_kstack (pcbs s q)) \<and>
    (\<forall>q. yptr (f q) = (if q = p then None else if cptr (pcbs s par) = Some q then Some p else yptr (pcbs s q))) \<and>
    (\<forall>q. optr (f q) = (if q = p then cptr (pcbs s par) else optr (pcbs s q))) \<and>
    (\<forall>q. cptr (f q) = (if q = par then Some p else cptr (pcbs s q)))"
proof -
  define s1 where "s1 = upd_pcb p (\<lambda>q. q\<lparr>optr := cptr (pcbs s par)\<rparr>) (upd_pcb p (\<lambda>q. q\<lparr>yptr := None\<rparr>) s)"
  define s2 where "s2 = (case cptr (pcbs s par) of None \<Rightarrow> s1 | Some older \<Rightarrow> upd_pcb older (\<lambda>q. q\<lparr>yptr := Some p\<rparr>) s1)"
  define s3 where "s3 = upd_pcb par (\<lambda>q. q\<lparr>cptr := Some p\<rparr>) s2"
  have run: "set_links p s =
      Some (s\<lparr>p_links := list_add ProcList (PLink p) (p_links s), pcbs := pcbs s3, nr_process := nr_process s + 1\<rparr>)"
    using assms unfolding s3_def s2_def s1_def
    by (cases "cptr (pcbs s par)") (auto simp: set_links_def Let_def upd_pcb_def)
  show ?thesis
    by (rule exI [of _ "pcbs s3"], rule conjI [OF run])
      (use assms in \<open>auto simp: s3_def s2_def s1_def split: option.splits\<close>)
qed

text \<open>The second half of \<open>do_fork\<close>: the new process gets a pid and its links.\<close>

definition fork_finish :: "nat \<Rightarrow> pstate \<Rightarrow> (pstate \<times> int) option" where
  "fork_finish p s = do {
     (s, pid) \<leftarrow> get_pid s;
     let s = upd_pcb p (\<lambda>q. q\<lparr>pr_pid := pid\<rparr>) s;
     let s = hash_proc p s;
     s \<leftarrow> set_links p s;
     s \<leftarrow> wakeup_proc5 p s;
     Some (s, pr_pid (pcbs s p)) }"

lemma fork_finish_ok:
  assumes ok: "procs_ok i ps kids s" and p: "p \<notin> insert i (set ps)" and c: "c \<in> insert i (set ps)" "\<not> zombie s c"
    and bound: "nr_process s < MAX_PROCESS"
    and new: "pr_parent (pcbs s p) = Some c" "cptr (pcbs s p) = None" "pr_state (pcbs s p) = PROC_UNINIT" "pr_wait (pcbs s p) = 0"
  shows "\<exists>t pid. fork_finish p s = Some (t, pid) \<and> procs_ok i (p # ps) (kids(c := p # kids c, p := [])) t \<and>
    0 < pid \<and> pid < MAX_PID \<and> (\<forall>q\<in>set ps. pid_of s q \<noteq> pid) \<and> pid_of t p = pid \<and> runnable t p \<and>
    pr_parent (pcbs t p) = Some c \<and> pr_frame (pcbs t p) = pr_frame (pcbs s p) \<and> pr_ctx_ra (pcbs t p) = pr_ctx_ra (pcbs s p) \<and>
    pr_mm (pcbs t p) = pr_mm (pcbs s p) \<and> pr_kstack (pcbs t p) = pr_kstack (pcbs s p) \<and> space t = space s"
proof -
  have lists: "lists_ok ps s" and idle: "p_idle s = Some i" and i: "i \<notin> set ps"
    and fam: "family (pcbs s) i ps kids" and wt: "waits_ok (pcbs s) i ps kids"
    using ok by (auto simp: procs_ok_def)
  have len: "length ps < nat MAX_PID - 1"
    using bound lists by (simp add: lists_ok_def MAX_PROCESS_def MAX_PID_def)
  obtain pid n where pid: "get_pid s = Some (s\<lparr>last_pid := pid, next_safe := n\<rparr>, pid)" "1 \<le> pid" "pid < MAX_PID"
    "\<forall>q\<in>set ps. pid_of s q \<noteq> pid" "window ps pid n s"
    using get_pid_ok [OF _ _ len, of s] lists by (auto simp: lists_ok_def)
  define s1 where "s1 = hash_proc p (upd_pcb p (\<lambda>q. q\<lparr>pr_pid := pid\<rparr>) (s\<lparr>last_pid := pid, next_safe := n\<rparr>))"
  have sp1: "space s1 = space s" by (simp add: s1_def hash_proc_def upd_pcb_def)
  have s1: "pcbs s1 = (pcbs s)(p := (pcbs s p)\<lparr>pr_pid := pid\<rparr>)" "nr_process s1 = nr_process s" "p_idle s1 = p_idle s"
    "last_pid s1 = pid" "next_safe s1 = n" "p_links s1 = list_add (HashHead (pid_hashfn pid)) (HLink p) (p_links s)"
    by (auto simp: s1_def hash_proc_def upd_pcb_def)
  have pc: "p \<noteq> c" using p c by auto
  note kc = familyD [OF fam c(1)]
  have hd_c: "cptr (pcbs s c) = first_of (kids c) None" using kc(1) by (simp add: kids_ok_def)
  have older: "cptr (pcbs s c) \<noteq> Some p" using hd_c kc(2) p by (cases "kids c") auto
  obtain f where f: "set_links p s1 =
      Some (s1\<lparr>p_links := list_add ProcList (PLink p) (p_links s1), pcbs := f, nr_process := nr_process s1 + 1\<rparr>)"
    and same: "\<forall>q. pr_parent (f q) = pr_parent (pcbs s1 q) \<and> pr_state (f q) = pr_state (pcbs s1 q) \<and>
       pr_wait (f q) = pr_wait (pcbs s1 q) \<and> pr_pid (f q) = pr_pid (pcbs s1 q) \<and>
       pr_ctx_ra (f q) = pr_ctx_ra (pcbs s1 q) \<and> pr_frame (f q) = pr_frame (pcbs s1 q) \<and>
       pr_mm (f q) = pr_mm (pcbs s1 q) \<and> pr_kstack (f q) = pr_kstack (pcbs s1 q)"
    and yp: "\<forall>q. yptr (f q) = (if q = p then None else if cptr (pcbs s1 c) = Some q then Some p else yptr (pcbs s1 q))"
    and op: "\<forall>q. optr (f q) = (if q = p then cptr (pcbs s1 c) else optr (pcbs s1 q))"
    and cp: "\<forall>q. cptr (f q) = (if q = c then Some p else cptr (pcbs s1 q))"
    using set_links_eq [of s1 p c] pc new(1) older unfolding s1(1) by auto
  define t where "t = upd_pcb p (\<lambda>q. q\<lparr>pr_state := PROC_RUNNABLE, pr_wait := 0\<rparr>)
      (s1\<lparr>p_links := list_add ProcList (PLink p) (p_links s1), pcbs := f, nr_process := nr_process s1 + 1\<rparr>)"
  have run: "fork_finish p s = Some (t, pid)"
    using pid(1) f same new(3) by (simp add: fork_finish_def s1_def [symmetric] Let_def wakeup5_ok t_def s1)
  have fam_f: "family f i (p # ps) (kids(c := p # kids c, p := []))"
    by (rule family_add [OF fam _ _ c(1) new(2)])
      (use p pc new same yp op cp older in \<open>auto simp: s1(1)\<close>)
  have "same_links f (pcbs t)" by (simp add: same_links_def t_def)
  then have fam_t: "family (pcbs t) i (p # ps) (kids(c := p # kids c, p := []))" using fam_f by (simp add: family_same)
  have "ring (p_links s) ProcList (map PLink ps)" "chains (p_links s) (\<lambda>q. pid_hashfn (pid_of s q)) ps"
    using lists by (simp_all add: lists_ok_def listed_def hashed_chains)
  moreover have "filter (\<lambda>q. pid_hashfn (pid_of t q) = b) ps = filter (\<lambda>q. pid_hashfn (pid_of s q) = b) ps" for b
    using p same by (intro filter_cong) (auto simp: t_def s1)
  ultimately have rings: "ring (p_links s) ProcList (map PLink ps)" "chains (p_links s) (\<lambda>q. pid_hashfn (pid_of t q)) ps"
    by (simp_all add: chains_def)
  have pid_t: "pid_of t p = pid" using same by (simp add: t_def s1)
  have pid_o: "pid_of t q = pid_of s q" if "q \<noteq> p" for q using same that by (simp add: t_def s1)
  have ha: "ring (p_links s1) ProcList (map PLink ps)" "chains (p_links s1) (\<lambda>q. pid_hashfn (pid_of t q)) (p # ps)"
    using hash_links [OF rings, of p] p pid_hashfn_bound pid_t by (simp_all add: s1(6))
  have links: "listed (p # ps) t" "hashed (p # ps) t"
    using list_links [OF ha, of p] p by (simp_all add: listed_def hashed_chains t_def)
  have lists_t: "lists_ok (p # ps) t"
  proof -
    have lt: "last_pid t = pid" "next_safe t = n" by (simp_all add: t_def s1)
    have "\<forall>q\<in>set ps. pid < pid_of t q \<longrightarrow> n \<le> pid_of t q"
    proof
      fix q assume q: "q \<in> set ps"
      then have "q \<noteq> p" using p by auto
      then show "pid < pid_of t q \<longrightarrow> n \<le> pid_of t q" using pid(5) q pid_o by (simp add: window_def)
    qed
    then have "pid_inv (p # ps) t"
      using pid(2,5) pid_t unfolding pid_inv_def lt by (simp add: window_def)
    moreover have "distinct (map (pid_of t) (p # ps))"
    proof -
      have eq: "map (pid_of t) ps = map (pid_of s) ps"
      proof (intro map_cong refl)
        fix q assume "q \<in> set ps"
        then show "pid_of t q = pid_of s q" using p by (intro pid_o) auto
      qed
      have "pid \<notin> set (map (pid_of s) ps)" using pid(4) by auto
      then show ?thesis using lists unfolding lists_ok_def list.map(2) distinct.simps(2) eq pid_t by argo
    qed
    moreover have "\<forall>q\<in>set (p # ps). 0 < pid_of t q \<and> pid_of t q < MAX_PID"
    proof
      fix q assume q: "q \<in> set (p # ps)"
      show "0 < pid_of t q \<and> pid_of t q < MAX_PID"
        using q lists pid(2,3) pid_t pid_o by (cases "q = p") (simp_all add: lists_ok_def)
    qed
    moreover have "nr_process t = int (length (p # ps)) + 1" using lists by (simp add: lists_ok_def t_def s1)
    ultimately show ?thesis using links by (simp add: lists_ok_def)
  qed
  have st: "pr_state (pcbs t q) = (if q = p then PROC_RUNNABLE else pr_state (pcbs s q))"
    "pr_wait (pcbs t q) = (if q = p then 0 else pr_wait (pcbs s q))" for q
    using same by (simp_all add: t_def s1)
  have "waits_ok (pcbs t) i (p # ps) (kids(c := p # kids c, p := []))"
    using wt c(2) p by (auto simp: waits_ok_def st WT_CHILD_def)
  then have "procs_ok i (p # ps) (kids(c := p # kids c, p := [])) t"
    using lists_t fam_t idle i p by (simp add: procs_ok_def) (simp add: t_def s1)
  moreover have "pr_parent (pcbs t p) = Some c" "pr_frame (pcbs t p) = pr_frame (pcbs s p)" "pr_ctx_ra (pcbs t p) = pr_ctx_ra (pcbs s p)"
    "pr_mm (pcbs t p) = pr_mm (pcbs s p)" "pr_kstack (pcbs t p) = pr_kstack (pcbs s p)" "space t = space s"
    using same new(1) by (simp_all add: t_def s1 sp1)
  ultimately show ?thesis using run pid pid_t st(1) [of p] by auto
qed

text \<open>What \<open>copy_mm\<close> does depends on the memory and on the creator only; it changes the memory and
  the address space of the new process.\<close>

definition with_space :: "pcb \<Rightarrow> pcb \<Rightarrow> pcb" where
  "with_space q r = q\<lparr>pr_mm := pr_mm r, pr_cr3 := pr_cr3 r\<rparr>"

lemma copy_mm_frame:
  assumes "p_current s = Some c" and "p_current s' = Some c" and "pr_mm (pcbs s' c) = pr_mm (pcbs s c)"
    and "space s' = space s" and "boot_pgdir s' = boot_pgdir s"
  shows "copy_mm clone_flags new_mm new p s' =
    (case copy_mm clone_flags new_mm new p s of
       None \<Rightarrow> None
     | Some (u, ret) \<Rightarrow> Some (upd_pcb p
         (\<lambda>q. if pr_mm (pcbs s c) = None \<or> ret \<noteq> 0 then q else with_space q (pcbs u p)) (s'\<lparr>space := space u\<rparr>), ret))"
proof (cases "pr_mm (pcbs s c)")
  case None
  then show ?thesis using assms by (simp add: copy_mm_def upd_pcb_def)
next
  case (Some m)
  have adopt: "adopt_mm p k (s'\<lparr>space := v\<rparr>) = (case adopt_mm p k (s\<lparr>space := v\<rparr>) of
      None \<Rightarrow> None
    | Some (u, ret) \<Rightarrow> Some (upd_pcb p (\<lambda>q. if ret \<noteq> 0 then q else with_space q (pcbs u p)) (s'\<lparr>space := space u\<rparr>), ret))"
    for k v
    by (cases "pgdir_of (mms (mm_count_inc k v) k)") (simp_all add: adopt_mm_def Let_def upd_pcb_def with_space_def)
  have id: "s\<lparr>space := space s\<rparr> = s" "s'\<lparr>space := space s\<rparr> = s'" using assms(4) by simp_all
  show ?thesis
  proof (cases "clone_flags AND CLONE_VM = 0")
    case False
    then show ?thesis using assms(1-3) Some adopt [of m "space s"] unfolding id
      by (simp add: copy_mm_def split: option.split)
  next
    case True
    have nz: "E_NO_MEM \<noteq> 0" by (simp add: E_NO_MEM_def)
    obtain v0 k where mc: "mm_create new_mm (space s) = (v0, k)" by (cases "mm_create new_mm (space s)")
    note eqs = copy_mm_def True assms(1-5) Some mc
    show ?thesis
    proof (cases k)
      case None
      then show ?thesis using nz by (simp add: eqs upd_pcb_def)
    next
      case (Some m')
      note eqs = eqs Some
      show ?thesis
      proof (cases "setup_pgdir (boot_pgdir s) m' v0")
        case None
        then show ?thesis by (simp add: eqs)
      next
        case (Some w)
        obtain v1 r1 where w: "w = (v1, r1)" by (cases w)
        note eqs = eqs Some w
        show ?thesis
        proof (cases "r1 = 0")
          case False
          then show ?thesis using nz by (cases "mm_destroy m' v1") (simp_all add: eqs upd_pcb_def)
        next
          case True
          note eqs = eqs True
          show ?thesis
          proof (cases "dup_mmap new m' m v1")
            case None
            then show ?thesis by (simp add: eqs)
          next
            case (Some w)
            obtain v2 r2 where w: "w = (v2, r2)" by (cases w)
            note eqs = eqs Some w
            show ?thesis
            proof (cases "r2 = 0")
              case False
              then show ?thesis
                by (cases "exit_mmap m' v2"; cases "put_pgdir m' (the (exit_mmap m' v2))";
                    cases "mm_destroy m' (the (put_pgdir m' (the (exit_mmap m' v2))))")
                  (simp_all add: eqs upd_pcb_def)
            next
              case True
              then show ?thesis by (simp add: eqs adopt split: option.split)
            qed
          qed
        qed
      qed
    qed
  qed
qed

lemma do_fork_front:
  assumes c: "p_current s = Some c" "pr_wait (pcbs s c) = 0" "p \<noteq> c" and bound: "nr_process s < MAX_PROCESS"
    and alloc: "alloc_pages KSTACKPAGE (mach (space s)) = Some (h, r)" "\<And>pg. r = Some pg \<Longrightarrow> pg < 32768"
  shows "case r of
      None \<Rightarrow> \<exists>t. do_fork clone_flags stack tf (Some p) new_mm new_vma s = Some (t\<lparr>freed := freed t @ [p]\<rparr>, - E_NO_MEM) \<and>
        off p s t \<and> space t = (space s)\<lparr>mach := h\<rparr>
    | Some pg \<Rightarrow>
        (case copy_mm clone_flags new_mm new_vma p (s\<lparr>space := (space s)\<lparr>mach := h\<rparr>\<rparr>) of
           None \<Rightarrow> do_fork clone_flags stack tf (Some p) new_mm new_vma s = None
         | Some (u, ret) \<Rightarrow>
             if ret \<noteq> 0
             then \<exists>t. off p s t \<and> do_fork clone_flags stack tf (Some p) new_mm new_vma s =
               (case free_pages pg KSTACKPAGE (mach (space u)) of
                  None \<Rightarrow> None
                | Some k \<Rightarrow> Some (t\<lparr>space := (space u)\<lparr>mach := k\<rparr>, freed := freed t @ [p]\<rparr>, - E_NO_MEM))
             else \<exists>t. do_fork clone_flags stack tf (Some p) new_mm new_vma s = fork_finish p t \<and> off p s t \<and>
               pr_parent (pcbs t p) = Some c \<and> cptr (pcbs t p) = None \<and> pr_state (pcbs t p) = PROC_UNINIT \<and>
               pr_wait (pcbs t p) = 0 \<and> pr_ctx_ra (pcbs t p) = Forkret \<and>
               pr_frame (pcbs t p) = tf\<lparr>tf_gpr := (tf_gpr tf)(10 := 0,
                 2 := if stack = 0 then of_nat (kva (page2ppn pg) + KSTACKSIZE - 36 * 8) - 4 else stack)\<rparr> \<and>
               pr_kstack (pcbs t p) = page2ppn pg \<and> space t = space u \<and>
               pr_mm (pcbs t p) = (if pr_mm (pcbs s c) = None then None else pr_mm (pcbs u p)))"
proof -
  obtain s0 where s0: "alloc_proc (Some p) s = (s0, Some p)" "off p s s0" "space s0 = space s" "boot_pgdir s0 = boot_pgdir s"
    "cptr (pcbs s0 p) = None" "pr_state (pcbs s0 p) = PROC_UNINIT" "pr_wait (pcbs s0 p) = 0" "pr_mm (pcbs s0 p) = None"
    by (auto simp: alloc_proc_def off_def)
  define s1 where "s1 = (upd_pcb p (\<lambda>q. q\<lparr>pr_parent := Some c\<rparr>) s0)\<lparr>space := (space s)\<lparr>mach := h\<rparr>\<rparr>"
  have s1: "off p s s1" "pr_parent (pcbs s1 p) = Some c" "cptr (pcbs s1 p) = None" "pr_state (pcbs s1 p) = PROC_UNINIT"
    "pr_wait (pcbs s1 p) = 0" "space s1 = (space s)\<lparr>mach := h\<rparr>" "boot_pgdir s1 = boot_pgdir s" "pr_mm (pcbs s1 p) = None"
    using s0 by (auto simp: s1_def off_def)
  have same_c: "pcbs s0 c = pcbs s c" "pcbs s1 c = pcbs s c" "p_current s0 = Some c" "p_current s1 = Some c"
    using s0(2) s1(1) c(1,3) by (simp_all add: off_def)
  have start: "do_fork clone_flags stack tf (Some p) new_mm new_vma s = do {
      (s, ret) \<leftarrow> setup_kstack p (upd_pcb p (\<lambda>q. q\<lparr>pr_parent := Some c\<rparr>) s0);
      if ret \<noteq> 0 then Some (s\<lparr>freed := freed s @ [p]\<rparr>, - E_NO_MEM)
      else do {
        (s, ret) \<leftarrow> copy_mm clone_flags new_mm new_vma p s;
        if ret \<noteq> 0 then do {
          s \<leftarrow> put_kstack p s;
          Some (s\<lparr>freed := freed s @ [p]\<rparr>, - E_NO_MEM) }
        else fork_finish p (copy_thread p stack tf s) } }"
    unfolding do_fork_def Let_def fork_finish_def using bound s0(1) same_c c(2,3) by simp
  show ?thesis
  proof (cases r)
    case None
    have "setup_kstack p (upd_pcb p (\<lambda>q. q\<lparr>pr_parent := Some c\<rparr>) s0) = Some (s1, - E_NO_MEM)"
      using alloc s0(3) None by (simp add: setup_kstack_def s1_def)
    then show ?thesis using start None s1(1,6) by (auto simp: E_NO_MEM_def)
  next
    case (Some pg)
    have k: "page2kva pg = Some (page2ppn pg)" by (rule page2kva_ok [OF alloc(2) [OF Some]])
    define s2 where "s2 = upd_pcb p (\<lambda>q. q\<lparr>pr_kstack := page2ppn pg\<rparr>) s1"
    have st: "setup_kstack p (upd_pcb p (\<lambda>q. q\<lparr>pr_parent := Some c\<rparr>) s0) = Some (s2, 0)"
      using alloc s0(3) Some k by (simp add: setup_kstack_def s1_def s2_def)
    let ?s = "s\<lparr>space := (space s)\<lparr>mach := h\<rparr>\<rparr>"
    have s2: "p_current s2 = Some c" "pr_mm (pcbs s2 c) = pr_mm (pcbs ?s c)" "space s2 = space ?s"
      "boot_pgdir s2 = boot_pgdir ?s" "p_current ?s = Some c" "off p s s2"
      using same_c c(1,3) s1(1,6,7) by (simp_all add: s2_def off_def)
    note copy = copy_mm_frame [OF s2(5,1-4), of clone_flags new_mm new_vma p]
    show ?thesis
    proof (cases "copy_mm clone_flags new_mm new_vma p ?s")
      case None
      then show ?thesis using start st copy Some by simp
    next
      case (Some w)
      obtain u ret where w: "w = (u, ret)" by (cases w)
      let ?g = "\<lambda>q. if pr_mm (pcbs ?s c) = None \<or> ret \<noteq> 0 then q else with_space q (pcbs u p)"
      let ?s3 = "upd_pcb p ?g (s2\<lparr>space := space u\<rparr>)"
      have run: "copy_mm clone_flags new_mm new_vma p s2 = Some (?s3, ret)" using copy Some w by simp
      have off3: "off p s ?s3" using s2(6) by (simp add: off_def)
      show ?thesis
      proof (cases "ret = 0")
        case False
        have "put_kstack p ?s3 = (case free_pages pg KSTACKPAGE (mach (space u)) of
            None \<Rightarrow> None | Some k \<Rightarrow> Some (?s3\<lparr>space := (space u)\<lparr>mach := k\<rparr>\<rparr>))"
          using False by (simp add: put_kstack_def on_machine_def on_space_def s2_def split: Option.bind_split option.split)
        then show ?thesis using False start st run \<open>r = Some pg\<close> Some w off3
          by (auto intro!: exI [of _ ?s3] split: option.split)
      next
        case True
        then show ?thesis using start st run \<open>r = Some pg\<close> Some w off3 s1
          by (auto intro!: exI [of _ "copy_thread p stack tf ?s3"]
              simp: copy_thread_def Let_def off_def s2_def with_space_def)
      qed
    qed
  qed
qed

text \<open>\<open>copy_mm\<close> as \<open>do_fork\<close> calls it, after the kernel stack was taken from the free pages.\<close>

definition fork_copy ::
    "32 word \<Rightarrow> nat option \<Rightarrow> (nat \<Rightarrow> nat option) \<Rightarrow> machine \<Rightarrow> pstate \<Rightarrow> nat \<Rightarrow> (pstate \<times> int) option" where
  "fork_copy clone_flags new_mm new_vma h s p =
    copy_mm clone_flags new_mm new_vma p (s\<lparr>space := (space s)\<lparr>mach := h\<rparr>\<rparr>)"


section \<open>An example\<close>

text \<open>
  The idle process 0, \<open>initproc\<close> 1, which waits for a child, its child 2, which runs, and a
  zombie 3, the child of 2; the pids are the same numbers.
\<close>

definition life_pcb :: "nat \<Rightarrow> pcb" where
  "life_pcb p = \<lparr>pr_state = (if p = 1 then PROC_SLEEPING else if p = 3 then PROC_ZOMBIE else PROC_RUNNABLE),
     pr_pid = int p, pr_runs = 0, pr_kstack = (if p = 3 then page2ppn 7 else 0), pr_need_resched = False,
     pr_parent = (if p = 0 then None else Some (p - 1)), pr_mm = None, pr_ctx_ra = NoEntry, pr_ctx_sp = 0, pr_tf = 0,
     pr_frame = \<lparr>tf_gpr = (\<lambda>_. 0), tf_status = 0, tf_epc = NoEntry\<rparr>, pr_cr3 = 0, pr_flags = 0,
     pr_exit_code = 7, pr_wait = (if p = 1 then WT_CHILD else 0),
     cptr = (if p \<le> 2 then Some (p + 1) else None), yptr = None, optr = None\<rparr>"

definition life_heads :: "pnode links" where
  "life_heads = fold (\<lambda>b. list_init (HashHead b)) [0..<HASH_LIST_SIZE] (list_init ProcList \<lparr>l_next = id, l_prev = id\<rparr>)"

definition life_link :: "nat \<Rightarrow> pnode links \<Rightarrow> pnode links" where
  "life_link p l = list_add ProcList (PLink p) (list_add (HashHead (pid_hashfn (int p))) (HLink p) l)"

definition life_sample :: pstate where
  "life_sample = \<lparr>p_links = life_link 3 (life_link 2 (life_link 1 life_heads)), pcbs = life_pcb,
     p_current = Some 2, p_idle = Some 0, p_init = Some 1, nr_process = 4, next_safe = MAX_PID, last_pid = 3,
     cr3_reg = 0, boot_pgdir = 0, freed = [], space = vm_sample\<rparr>"

definition life_kids :: "nat \<Rightarrow> nat list" where
  "life_kids = (\<lambda>_. [])(0 := [1], 1 := [2], 2 := [3])"

lemma life_heads_ok: "ring life_heads ProcList (map PLink [])" "chains life_heads hf []"
proof -
  define l0 where "l0 = list_init ProcList \<lparr>l_next = id, l_prev = id\<rparr>"
  have heads: "ring (fold (\<lambda>b. list_init (HashHead b)) bs l) ProcList []" if "ring l ProcList []" for bs l
    using that
  proof (induction bs arbitrary: l)
    case (Cons b bs)
    from Cons.IH [OF ring_list_init_other [OF Cons.prems, of "HashHead b"]] show ?case by simp
  qed simp
  show "ring life_heads ProcList (map PLink [])"
    using heads [of l0] ring_list_init [of ProcList] by (simp add: life_heads_def l0_def)
  have keep: "ring (fold (\<lambda>b. list_init (HashHead b)) bs l) (HashHead a) []" if "ring l (HashHead a) []" "a \<notin> set bs" for a bs l
    using that
  proof (induction bs arbitrary: l)
    case (Cons b bs)
    have "ring (list_init (HashHead b) l) (HashHead a) []"
      by (rule ring_list_init_other [OF Cons.prems(1)]) (use Cons.prems(2) in auto)
    then show ?case using Cons by simp
  qed simp
  have chain: "ring (fold (\<lambda>b. list_init (HashHead b)) bs l) (HashHead a) []" if "a \<in> set bs" "distinct bs" for a bs l
    using that
  proof (induction bs arbitrary: l)
    case (Cons b bs)
    show ?case
    proof (cases "a = b")
      case True
      then show ?thesis using keep [OF ring_list_init, of a bs] Cons.prems by simp
    next
      case False
      then show ?thesis using Cons by simp
    qed
  qed simp
  show "chains life_heads hf []" by (simp add: chains_def life_heads_def chain)
qed

lemma life_link_ok:
  assumes "ring l ProcList (map PLink ps)" "chains l (\<lambda>q. pid_hashfn (int q)) ps" "p \<notin> set ps"
  shows "ring (life_link p l) ProcList (map PLink (p # ps))" "chains (life_link p l) (\<lambda>q. pid_hashfn (int q)) (p # ps)"
  using hash_links [OF assms pid_hashfn_bound] list_links assms(3) unfolding life_link_def by metis+

lemma life_sample_ok: "procs_ok 0 [3, 2, 1] life_kids life_sample"
proof -
  note l1 = life_link_ok [OF life_heads_ok, of 1]
  have l2: "ring (life_link 2 (life_link 1 life_heads)) ProcList (map PLink [2, 1])"
    "chains (life_link 2 (life_link 1 life_heads)) (\<lambda>q. pid_hashfn (int q)) [2, 1]"
    using life_link_ok [OF l1, of 2] by simp_all
  have l3: "ring (p_links life_sample) ProcList (map PLink [3, 2, 1])"
    "chains (p_links life_sample) (\<lambda>q. pid_hashfn (int q)) [3, 2, 1]"
    using life_link_ok [OF l2, of 3] by (simp_all add: life_sample_def)
  have pid: "pid_of life_sample p = int p" for p by (simp add: life_sample_def life_pcb_def)
  have "lists_ok [3, 2, 1] life_sample"
    using l3 unfolding lists_ok_def listed_def hashed_chains pid_inv_def pid
    by (simp add: life_sample_def MAX_PID_eq)
  moreover have "family life_pcb 0 [3, 2, 1] life_kids"
    by (auto simp: family_def kids_ok_def life_kids_def life_pcb_def)
  moreover have "waits_ok life_pcb 0 [3, 2, 1] life_kids"
    by (simp add: waits_ok_def life_kids_def life_pcb_def WT_CHILD_def)
  ultimately show ?thesis by (simp add: procs_ok_def life_sample_def)
qed

lemma life_lists: "listed [3, 2, 1] life_sample" "hashed [3, 2, 1] life_sample" "pid_inv [3, 2, 1] life_sample"
  using life_sample_ok by (simp_all add: procs_ok_def lists_ok_def)

lemma life_alloc:
  "\<exists>h r. alloc_pages KSTACKPAGE (mach (space life_sample)) = Some (h, r) \<and> (\<forall>pg. r = Some pg \<longrightarrow> pg < NPAGES)"
proof -
  obtain a r where ar: "default_alloc_pages KSTACKPAGE pt_area = Some (a, r)"
    using first_fit.alloc_total [OF sample_ff, of KSTACKPAGE] by (auto simp: KSTACKPAGE_def)
  have "pg < NPAGES" if "r = Some pg" for pg
  proof -
    have "{pg..<pg + KSTACKPAGE} \<subseteq> {20..<30}" using first_fit.alloc_some [OF sample_ff] ar that by blast
    then have "pg < 30" by (auto simp: KSTACKPAGE_def)
    then show ?thesis by simp
  qed
  then show ?thesis
    using ar by (auto simp: alloc_pages_def KSTACKPAGE_def life_sample_def vm_sample_def pt_sample_def)
qed

lemma get_pid_unique_witness:
  "\<exists>pid n. get_pid life_sample = Some (life_sample\<lparr>last_pid := pid, next_safe := n\<rparr>, pid) \<and> pid \<notin> {1, 2, 3}"
  using get_pid_unique [OF life_lists(1,3)] by (auto simp: MAX_PID_eq life_sample_def life_pcb_def)

lemma find_proc_exact_witness: "find_proc 2 life_sample = Some (Some 2) \<and> find_proc 9 life_sample = Some None"
  using find_proc_exact [OF life_lists(2), of 2] find_proc_exact [OF life_lists(2), of 9]
  by (simp add: MAX_PID_eq life_sample_def life_pcb_def)

lemma schedule5_next_witness: "\<exists>s'. schedule5 life_sample = Some s' \<and> p_current s' = Some 2"
proof -
  have "rotation [3, 2, 1] 0 2 = [1, 3, 2]" by (simp add: rotation_def)
  then show ?thesis
    using schedule5_next [OF life_lists(1), of 2 0] by (auto simp: life_sample_def life_pcb_def)
qed

lemma exit_reparents_witness:
  "\<exists>t. exit_steps 5 2 life_sample = Some t \<and> procs_ok 0 [3, 2, 1] (life_kids(2 := [], 1 := [3, 2])) t \<and> runnable t 1"
proof -
  have "leave_mm 2 life_sample = Some life_sample" by (simp add: leave_mm_def life_sample_def life_pcb_def)
  from exit_reparents [OF life_sample_ok _ _ _ _ _ _ _ this, of 1 5] show ?thesis
    by (simp add: life_sample_def life_pcb_def life_kids_def) blast
qed

lemma do_wait_cases_witness:
  "\<exists>t. do_wait_repeat 0 True life_sample = Some (t, Returned 0 (Some 7)) \<and> procs_ok 0 [2, 1] (life_kids(2 := [])) t"
proof -
  have cf: "can_free NPAGES 7 2 pt_area {20..<30}"
    by (auto simp: can_free_def freeable_def pt_area_def PageReserved_def PageProperty_def)
  obtain a where "default_free_pages 7 2 pt_area = Some a"
    using first_fit.release_ok [OF sample_ff cf] by auto
  then have free: "free_pages (pr_kstack (life_pcb 3) - nbase) KSTACKPAGE pt_sample \<noteq> None"
    by (simp add: free_pages_def KSTACKPAGE_def life_pcb_def page2ppn_def pt_sample_def)
  have "\<forall>p\<in>set [3, 2, 1]. zombie life_sample p \<longrightarrow>
      free_pages (pr_kstack (pcbs life_sample p) - nbase) KSTACKPAGE (mach (space life_sample)) \<noteq> None"
    using free by (simp add: life_sample_def vm_sample_def) (simp add: life_pcb_def)
  from do_wait_cases [OF life_sample_ok _ _ _ _ this, of 2 0 True] show ?thesis
    by (auto simp: life_sample_def awaited_def life_kids_def life_pcb_def)
qed

definition life_tf :: trapframe where
  "life_tf = \<lparr>tf_gpr = (\<lambda>_. 0), tf_status = 0, tf_epc = NoEntry\<rparr>"


end
