(* ===== verification/Kmalloc.thy ===== *)
theory Kmalloc
  imports Vmm
begin

unbundle bit_operations_syntax

text \<open>
  The kernel heap \<open>kern/mm/kmalloc.c\<close> of labs 5 to 8: the SLOB allocator.  A heap address is
  counted in units of \<open>SLOB_UNIT\<close>, 16 bytes; \<open>blocks\<close> is the memory seen as \<open>slob_t\<close> headers.
  A \<open>bigblock_t\<close> lies in memory that was allocated for it, its fields are the map \<open>bigs\<close>.  The
  static block \<open>arena\<close> has an address outside all pages.
\<close>

section \<open>State\<close>

record slob_block =
  sb_units :: int
  sb_next :: nat

record bigblock =
  bb_order :: nat
  bb_pages :: nat
  bb_next :: "nat option"

record heap =
  blocks :: "nat \<Rightarrow> slob_block"
  slobfree :: nat
  bigs :: "nat \<Rightarrow> bigblock"
  bigblocks :: "nat option"
  hmach :: machine

definition SLOB_UNIT :: nat where "SLOB_UNIT = 16"
definition SLOB_UNITS :: "nat \<Rightarrow> nat" where "SLOB_UNITS sz = u64 (sz + SLOB_UNIT - 1) div SLOB_UNIT"
definition BIGBLOCK_SIZE :: nat where "BIGBLOCK_SIZE = 24"

definition ALIGN :: "nat \<Rightarrow> nat \<Rightarrow> nat" where
  "ALIGN addr sz = unat ((of_nat addr + of_nat sz - 1 :: 64 word) AND NOT (of_nat sz - 1))"

abbreviation units_of :: "heap \<Rightarrow> nat \<Rightarrow> int" where "units_of s b \<equiv> sb_units (blocks s b)"
abbreviation next_of :: "heap \<Rightarrow> nat \<Rightarrow> nat" where "next_of s b \<equiv> sb_next (blocks s b)"

definition upd_block :: "nat \<Rightarrow> (slob_block \<Rightarrow> slob_block) \<Rightarrow> heap \<Rightarrow> heap" where
  "upd_block b f s = s\<lparr>blocks := (blocks s)(b := f (blocks s b))\<rparr>"

definition set_units :: "nat \<Rightarrow> int \<Rightarrow> heap \<Rightarrow> heap" where
  "set_units b n = upd_block b (\<lambda>x. x\<lparr>sb_units := n\<rparr>)"

definition set_next :: "nat \<Rightarrow> nat \<Rightarrow> heap \<Rightarrow> heap" where
  "set_next b n = upd_block b (\<lambda>x. x\<lparr>sb_next := n\<rparr>)"

section \<open>Pages\<close>

text \<open>\<open>page_unit d\<close> is the heap address of the page frame \<open>d\<close>.\<close>

definition page_unit :: "nat \<Rightarrow> nat" where "page_unit d = kva d div SLOB_UNIT"

definition slob_get_free_pages :: "nat \<Rightarrow> heap \<Rightarrow> (heap \<times> nat option) option" where
  "slob_get_free_pages order s = do {
     (h, r) \<leftarrow> alloc_pages (2 ^ order) (hmach s);
     let s = s\<lparr>hmach := h\<rparr>;
     (case r of
        None \<Rightarrow> Some (s, None)
      | Some page \<Rightarrow> do { d \<leftarrow> page2kva page; Some (s, Some (page_unit d)) }) }"

definition kva2page :: "nat \<Rightarrow> nat option" where
  "kva2page b = do {
     assert_k (KERNBASE \<le> b * SLOB_UNIT);
     pa2page (of_nat (b * SLOB_UNIT - va_pa_offset)) }"

definition slob_free_pages :: "nat \<Rightarrow> nat \<Rightarrow> heap \<Rightarrow> heap option" where
  "slob_free_pages b order s = do {
     p \<leftarrow> kva2page b;
     h \<leftarrow> free_pages p (2 ^ order) (hmach s);
     Some (s\<lparr>hmach := h\<rparr>) }"

section \<open>Freeing a block\<close>

text \<open>The search for the place of \<open>b\<close>; \<open>cur\<close> is the block before it.\<close>

partial_function (option) insertion_point :: "nat \<Rightarrow> nat \<Rightarrow> heap \<Rightarrow> nat option" where
  "insertion_point b cur s =
    (let nxt = next_of s cur
     in if cur < b \<and> b < nxt then Some cur
        else if nxt \<le> cur \<and> (cur < b \<or> b < nxt) then Some cur
        else insertion_point b nxt s)"

text \<open>\<open>b + b->units\<close> is pointer arithmetic.\<close>

definition join_next :: "nat \<Rightarrow> nat \<Rightarrow> heap \<Rightarrow> heap" where
  "join_next b cur s =
    (let nxt = next_of s cur
     in if int b + units_of s b = int nxt
        then set_next b (next_of s nxt) (set_units b (units_of s b + units_of s nxt) s)
        else set_next b nxt s)"

definition join_prev :: "nat \<Rightarrow> nat \<Rightarrow> heap \<Rightarrow> heap" where
  "join_prev b cur s =
    (if int cur + units_of s cur = int b
     then set_next cur (next_of s b) (set_units cur (units_of s cur + units_of s b) s)
     else set_next cur b s)"

definition slob_free :: "nat option \<Rightarrow> nat \<Rightarrow> heap \<Rightarrow> heap option" where
  "slob_free block sz s =
    (case block of
       None \<Rightarrow> Some s
     | Some b \<Rightarrow> do {
         let s = (if sz \<noteq> 0 then set_units b (int (SLOB_UNITS sz)) s else s);
         cur \<leftarrow> insertion_point b (slobfree s) s;
         let s = join_next b cur s;
         let s = join_prev b cur s;
         Some (s\<lparr>slobfree := cur\<rparr>) })"

section \<open>Allocating a block\<close>

text \<open>What is done with the block \<open>cur\<close> after \<open>prev\<close> that has room.\<close>

definition slob_take :: "nat \<Rightarrow> nat \<Rightarrow> nat \<Rightarrow> int \<Rightarrow> nat \<Rightarrow> heap \<Rightarrow> heap \<times> nat" where
  "slob_take prev cur aligned delta units s =
    (let (s, prev, cur) =
       (if delta \<noteq> 0
        then (set_units cur delta (set_next cur aligned
               (set_next aligned (next_of s cur) (set_units aligned (units_of s cur - delta) s))), cur, aligned)
        else (s, prev, cur));
         s = (if units_of s cur = int units then set_next prev (next_of s cur) s
              else let rest = cur + units;
                       s = set_next prev rest s;
                       s = set_units rest (units_of s cur - int units) s;
                       s = set_next rest (next_of s cur) s
                   in set_units cur (int units) s)
     in (s\<lparr>slobfree := prev\<rparr>, cur))"

partial_function (option) slob_loop ::
    "nat \<Rightarrow> nat \<Rightarrow> nat \<Rightarrow> nat \<Rightarrow> nat \<Rightarrow> heap \<Rightarrow> (heap \<times> nat option) option" where
  "slob_loop sz units align prev cur s =
    (let aligned = (if align \<noteq> 0 then ALIGN (cur * SLOB_UNIT) align div SLOB_UNIT else 0);
         delta = (if align \<noteq> 0 then int aligned - int cur else 0)
     in if units_of s cur \<ge> int units + delta then
          (let (s, b) = slob_take prev cur aligned delta units s in Some (s, Some b))
        else if cur = slobfree s then
          if sz = PGSIZE then Some (s, None)
          else do {
            (s, r) \<leftarrow> slob_get_free_pages 0 s;
            (case r of
               None \<Rightarrow> Some (s, None)
             | Some page \<Rightarrow> do {
                 s \<leftarrow> slob_free (Some page) PGSIZE s;
                 slob_loop sz units align (slobfree s) (next_of s (slobfree s)) s }) }
        else slob_loop sz units align cur (next_of s cur) s)"

definition slob_alloc :: "nat \<Rightarrow> nat \<Rightarrow> heap \<Rightarrow> (heap \<times> nat option) option" where
  "slob_alloc sz align s = do {
     assert_k (u64 (sz + SLOB_UNIT) < PGSIZE);
     slob_loop sz (SLOB_UNITS sz) align (slobfree s) (next_of s (slobfree s)) s }"

section \<open>kmalloc and kfree\<close>

text \<open>The argument of \<open>find_order\<close> is an \<open>int\<close>: a \<open>size_t\<close> keeps its low 32 bits, with a sign.\<close>

definition to_int32 :: "nat \<Rightarrow> int" where
  "to_int32 n = sint (of_nat n :: 32 word)"

function find_order :: "int \<Rightarrow> nat" where
  "find_order sz = (if sz > 4096 then Suc (find_order (sz div 2)) else 0)"
  by pat_completeness auto
termination by (relation "measure nat") auto

definition kmalloc :: "nat \<Rightarrow> heap \<Rightarrow> (heap \<times> nat option) option" where
  "kmalloc sz s =
    (if sz < PGSIZE - SLOB_UNIT then do {
       (s, m) \<leftarrow> slob_alloc (sz + SLOB_UNIT) 0 s;
       Some (s, map_option (\<lambda>b. b + 1) m) }
     else do {
       (s, r) \<leftarrow> slob_alloc BIGBLOCK_SIZE 0 s;
       (case r of
          None \<Rightarrow> Some (s, None)
        | Some bb \<Rightarrow> do {
            let order = find_order (to_int32 sz);
            (s, pages) \<leftarrow> slob_get_free_pages order s;
            (case pages of
               Some b \<Rightarrow>
                 Some (s\<lparr>bigs := (bigs s)(bb := \<lparr>bb_order = order, bb_pages = b, bb_next = bigblocks s\<rparr>),
                         bigblocks := Some bb\<rparr>, Some b)
             | None \<Rightarrow> do { s \<leftarrow> slob_free (Some bb) BIGBLOCK_SIZE s; Some (s, None) }) }) })"

text \<open>The big blocks from \<open>bb\<close> on: the one that holds \<open>block\<close> with the link to it.\<close>

partial_function (option) find_big :: "nat \<Rightarrow> nat option \<Rightarrow> nat option \<Rightarrow> heap \<Rightarrow> (nat option \<times> nat) option option" where
  "find_big block lst bb s =
    (case bb of
       None \<Rightarrow> Some None
     | Some b \<Rightarrow>
         if bb_pages (bigs s b) = block then Some (Some (lst, b))
         else find_big block (Some b) (bb_next (bigs s b)) s)"

definition page_aligned :: "nat \<Rightarrow> bool" where
  "page_aligned b \<longleftrightarrow> b * SLOB_UNIT mod PGSIZE = 0"

definition kfree :: "nat option \<Rightarrow> heap \<Rightarrow> heap option" where
  "kfree block s =
    (case block of
       None \<Rightarrow> Some s
     | Some b \<Rightarrow> do {
         found \<leftarrow> (if page_aligned b then find_big b None (bigblocks s) s else Some None);
         (case found of
            Some (lst, bb) \<Rightarrow> do {
              let nxt = bb_next (bigs s bb);
              let s = (case lst of
                         None \<Rightarrow> s\<lparr>bigblocks := nxt\<rparr>
                       | Some l \<Rightarrow> s\<lparr>bigs := (bigs s)(l := (bigs s l)\<lparr>bb_next := nxt\<rparr>)\<rparr>);
              s \<leftarrow> slob_free_pages b (bb_order (bigs s bb)) s;
              slob_free (Some bb) BIGBLOCK_SIZE s }
          | None \<Rightarrow> slob_free (Some (b - 1)) 0 s) })"

definition ksize :: "nat option \<Rightarrow> heap \<Rightarrow> int option" where
  "ksize block s =
    (case block of
       None \<Rightarrow> Some 0
     | Some b \<Rightarrow> do {
         found \<leftarrow> (if page_aligned b then find_big b None (bigblocks s) s else Some None);
         (case found of
            Some (_, bb) \<Rightarrow> Some (int (u32 (PGSIZE * 2 ^ bb_order (bigs s bb))))
          | None \<Rightarrow> Some (int (u32 (nat (units_of s (b - 1) * int SLOB_UNIT))))) })"

section \<open>Requests of whole pages\<close>

lemma find_order_small [simp]: "sz \<le> 4096 \<Longrightarrow> find_order sz = 0"
  by simp

lemma find_order_large: "4096 < sz \<Longrightarrow> find_order sz = Suc (find_order (sz div 2))"
  by simp

declare find_order.simps [simp del]

lemma find_order_bounds:
  "0 \<le> n \<Longrightarrow> n div 2 ^ find_order n \<le> 4096 \<and> (4096 < n \<longrightarrow> 2048 \<le> n div 2 ^ find_order n)"
proof (induction n rule: find_order.induct)
  case (1 n)
  show ?case
  proof (cases "4096 < n")
    case True
    have "n div 2 ^ Suc (find_order (n div 2)) = n div 2 div 2 ^ find_order (n div 2)"
      by (simp add: zdiv_zmult2_eq)
    moreover have "4096 \<ge> n div 2 \<longrightarrow> find_order (n div 2) = 0 \<and> 2048 \<le> n div 2" using True by auto
    ultimately show ?thesis using 1 True find_order_large [OF True] by fastforce
  qed simp
qed

lemma to_int32_small: "n < 2 ^ 31 \<Longrightarrow> to_int32 n = int n"
  by (simp add: to_int32_def signed_of_nat signed_take_bit_int_eq_self)

section \<open>The free list\<close>

text \<open>\<open>linked f xs e\<close>: the pointers lead through \<open>xs\<close> to \<open>e\<close>.\<close>

fun linked :: "(nat \<Rightarrow> nat) \<Rightarrow> nat list \<Rightarrow> nat \<Rightarrow> bool" where
  "linked f [] e = True"
| "linked f (x # xs) e = (f x = hd (xs @ [e]) \<and> linked f xs e)"

definition in_order :: "(nat \<Rightarrow> int) \<Rightarrow> nat list \<Rightarrow> bool" where
  "in_order u bs \<longleftrightarrow> sorted_wrt (\<lambda>a b. int a + u a \<le> int b) bs \<and> (\<forall>b\<in>set bs. 0 < u b)"

definition span :: "(nat \<Rightarrow> int) \<Rightarrow> nat list \<Rightarrow> int set" where
  "span u bs = (\<Union>b\<in>set bs. {int b..<int b + u b})"

text \<open>The free list is a circle through its blocks in address order.\<close>

definition heap_ok :: "heap \<Rightarrow> nat list \<Rightarrow> bool" where
  "heap_ok s bs \<longleftrightarrow> bs \<noteq> [] \<and> in_order (units_of s) bs \<and> linked (next_of s) bs (hd bs) \<and> slobfree s \<in> set bs"

lemma linked_append: "linked f (xs @ ys) e \<longleftrightarrow> linked f xs (hd (ys @ [e])) \<and> linked f ys e"
proof (induction xs)
  case (Cons x xs)
  then show ?case by (cases xs) auto
qed simp

lemma linked_cong: "\<forall>x\<in>set xs. f x = g x \<Longrightarrow> linked f xs e = linked g xs e"
  by (induction xs) auto

lemma linked_end: "linked f xs e \<Longrightarrow> xs \<noteq> [] \<Longrightarrow> f (last xs) = e"
  by (induction xs) auto

lemma linked_last:
  assumes "linked f xs e" "xs \<noteq> []" "distinct xs" "g (last xs) = e'" "\<forall>x\<in>set xs. x \<noteq> last xs \<longrightarrow> g x = f x"
  shows "linked g xs e'"
proof -
  obtain ys y where xs: "xs = ys @ [y]" using assms(2) by (meson rev_exhaust)
  have "linked g ys y = linked f ys y" by (rule linked_cong) (use assms(3,5) xs in auto)
  then show ?thesis using assms xs by (simp add: linked_append)
qed

lemma in_order_append:
  "in_order u (xs @ ys) \<longleftrightarrow> in_order u xs \<and> in_order u ys \<and> (\<forall>x\<in>set xs. \<forall>y\<in>set ys. int x + u x \<le> int y)"
  by (auto simp: in_order_def sorted_wrt_append)

lemma in_order_Cons:
  "in_order u (x # xs) \<longleftrightarrow> 0 < u x \<and> in_order u xs \<and> (\<forall>y\<in>set xs. int x + u x \<le> int y)"
  by (auto simp: in_order_def)

lemma in_order_less: "in_order u (xs @ x # ys) \<Longrightarrow> (\<forall>y\<in>set ys. x < y) \<and> (\<forall>y\<in>set xs. y < x)"
proof -
  assume "in_order u (xs @ x # ys)"
  then have "\<forall>y\<in>set ys. int x + u x \<le> int y" "0 < u x" "\<forall>y\<in>set xs. int y + u y \<le> int x \<and> 0 < u y"
    by (auto simp: in_order_append in_order_Cons) (auto simp: in_order_def)
  then show ?thesis by fastforce
qed

lemma in_order_distinct: "in_order u bs \<Longrightarrow> distinct bs"
proof (induction bs)
  case (Cons b bs)
  then show ?case using in_order_less [of u "[]" b bs] by (auto simp: in_order_Cons)
qed simp

lemma in_order_pair:
  "in_order u bs \<Longrightarrow> a \<in> set bs \<Longrightarrow> b \<in> set bs \<Longrightarrow> a \<noteq> b \<Longrightarrow> int b + u b \<le> int a \<or> int a + u a \<le> int b"
  by (induction bs) (auto simp: in_order_Cons)

lemma in_order_cong: "\<forall>b\<in>set bs. u b = v b \<Longrightarrow> in_order u bs = in_order v bs"
  by (induction bs) (auto simp: in_order_Cons, simp add: in_order_def, simp add: in_order_def)

section \<open>The place of a freed block\<close>

text \<open>The blocks below and above \<open>b\<close>.\<close>

definition lower :: "nat \<Rightarrow> nat list \<Rightarrow> nat list" where "lower b bs = takeWhile (\<lambda>x. x < b) bs"
definition upper :: "nat \<Rightarrow> nat list \<Rightarrow> nat list" where "upper b bs = dropWhile (\<lambda>x. x < b) bs"

definition place :: "nat \<Rightarrow> nat list \<Rightarrow> nat" where
  "place b bs = (if lower b bs = [] then last bs else last (lower b bs))"

lemma lower_upper: "lower b bs @ upper b bs = bs"
  by (simp add: lower_def upper_def)

lemma lower_less: "\<forall>x\<in>set (lower b bs). x < b"
  unfolding lower_def by (metis set_takeWhileD)

lemma upper_greater:
  assumes "in_order u bs" and "b \<notin> set bs"
  shows "\<forall>x\<in>set (upper b bs). b < x"
proof (cases "upper b bs")
  case (Cons y ys)
  then have "\<not> y < b" using hd_dropWhile [of "\<lambda>x. x < b" bs] unfolding upper_def by auto
  moreover have bs: "bs = lower b bs @ y # ys" using lower_upper [of b bs] Cons by simp
  then have "y \<noteq> b" using assms(2) by (metis in_set_conv_decomp)
  moreover have "\<forall>x\<in>set ys. y < x" using in_order_less [of u "lower b bs" y ys] assms(1) bs by metis
  ultimately show ?thesis using Cons by fastforce
qed simp

text \<open>The test of the loop holds at the block before \<open>b\<close>, and at no other.\<close>

lemma place_test:
  assumes ord: "in_order u bs" and lk: "linked f bs (hd bs)" and b: "b \<notin> set bs" and cur: "cur \<in> set bs"
  shows "(cur < b \<and> b < f cur) \<or> (f cur \<le> cur \<and> (cur < b \<or> b < f cur)) \<longleftrightarrow> cur = place b bs"
proof -
  obtain us ws where bs: "bs = us @ cur # ws" using cur by (meson split_list)
  have f: "f cur = hd (ws @ [hd bs])" using lk by (simp add: bs linked_append)
  have less: "\<forall>y\<in>set ws. cur < y" "\<forall>y\<in>set us. y < cur" using in_order_less ord bs by metis+
  have cb: "cur \<noteq> b" using b cur by auto
  show ?thesis
  proof (cases ws)
    case (Cons w ws')
    have fw: "f cur = w" "cur < w" using f less(1) Cons by simp_all
    have wb: "w \<noteq> b" using b bs Cons by auto
    have w': "\<forall>y\<in>set ws'. w < y" using in_order_less [of u "us @ [cur]" w ws'] ord bs Cons by simp
    show ?thesis
    proof
      assume "(cur < b \<and> b < f cur) \<or> (f cur \<le> cur \<and> (cur < b \<or> b < f cur))"
      then have "cur < b" "b < w" using fw by auto
      then have "lower b bs = us @ [cur]"
        using less(2) unfolding lower_def bs Cons by (auto simp: takeWhile_append)
      then show "cur = place b bs" by (simp add: place_def)
    next
      assume p: "cur = place b bs"
      have "cur \<noteq> last bs" using less(1) Cons last_in_set [of ws] by (auto simp: bs)
      then have ne: "lower b bs \<noteq> []" and l: "cur = last (lower b bs)" using p by (auto simp: place_def split: if_splits)
      then have c: "cur < b" using lower_less [of b bs] last_in_set [OF ne] by metis
      have "b < w"
      proof (rule ccontr)
        assume "\<not> b < w"
        then have "w < b" using wb by simp
        then have "lower b bs = us @ cur # w # takeWhile (\<lambda>x. x < b) ws'"
          using less(2) c unfolding lower_def bs Cons by (auto simp: takeWhile_append)
        then have "last (lower b bs) \<in> set (w # ws')" by (auto dest: set_takeWhileD last_in_set split: if_splits)
        then show False using l less(1) Cons by auto
      qed
      then show "(cur < b \<and> b < f cur) \<or> (f cur \<le> cur \<and> (cur < b \<or> b < f cur))" using c fw by simp
    qed
  next
    case Nil
    then have last: "cur = last bs" and fh: "f cur = hd bs" using f bs by simp_all
    have hd_le: "hd bs \<le> cur" using less(2) bs Nil by (cases us) auto
    have hb: "hd bs \<noteq> b" using b bs by (metis append_is_Nil_conv hd_in_set list.distinct(1))
    have le: "lower b bs = [] \<longleftrightarrow> \<not> hd bs < b" unfolding lower_def using cur by (cases bs) auto
    have "lower b bs \<noteq> [] \<and> cur = last (lower b bs) \<longleftrightarrow> cur < b"
    proof
      assume "lower b bs \<noteq> [] \<and> cur = last (lower b bs)"
      then show "cur < b" using lower_less [of b bs] last_in_set by metis
    next
      assume "cur < b"
      then have "lower b bs = bs" using less(2) unfolding lower_def by (auto simp: bs Nil takeWhile_eq_all_conv)
      moreover have "bs \<noteq> []" using cur by auto
      ultimately show "lower b bs \<noteq> [] \<and> cur = last (lower b bs)" using last by simp
    qed
    moreover have "cur = place b bs \<longleftrightarrow> lower b bs = [] \<or> lower b bs \<noteq> [] \<and> cur = last (lower b bs)"
      using last by (simp add: place_def)
    ultimately show ?thesis using fh hd_le hb le by auto
  qed
qed

lemma place_in: "bs \<noteq> [] \<Longrightarrow> place b bs \<in> set bs"
  unfolding place_def lower_def by (metis last_in_set set_takeWhileD)

lemma insertion_walk:
  assumes ord: "in_order (units_of s) bs" and lk: "linked (next_of s) bs (hd bs)" and b: "b \<notin> set bs"
  shows "bs = us @ cur # ws \<Longrightarrow> insertion_point b cur s =
    (if place b bs \<in> set (cur # ws) then Some (place b bs) else insertion_point b (hd bs) s)"
proof (induction ws arbitrary: us cur)
  case Nil
  have "next_of s cur = hd bs" using lk Nil by (simp add: linked_append)
  then show ?case using place_test [OF ord lk b, of cur] Nil by (subst insertion_point.simps) (auto simp: Let_def)
next
  case (Cons w ws)
  have n: "next_of s cur = w" using lk Cons.prems by (simp add: linked_append)
  have IH: "insertion_point b w s = (if place b bs \<in> set (w # ws) then Some (place b bs) else insertion_point b (hd bs) s)"
    by (rule Cons.IH [of "us @ [cur]"]) (use Cons.prems in simp)
  show ?case
    using place_test [OF ord lk b, of cur] Cons.prems IH n by (subst insertion_point.simps) (auto simp: Let_def)
qed

lemma insertion_point_ok:
  assumes "heap_ok s bs" and "b \<notin> set bs"
  shows "insertion_point b (slobfree s) s = Some (place b bs)"
proof -
  have h: "in_order (units_of s) bs" "linked (next_of s) bs (hd bs)" "bs \<noteq> []" "slobfree s \<in> set bs"
    using assms(1) by (simp_all add: heap_ok_def)
  have hd: "insertion_point b (hd bs) s = Some (place b bs)"
    using insertion_walk [OF h(1,2) assms(2), of "[]" "hd bs" "tl bs"] h(3) place_in [OF h(3), of b] by simp
  obtain us ws where "bs = us @ slobfree s # ws" using h(4) by (meson split_list)
  from insertion_walk [OF h(1,2) assms(2) this] show ?thesis using hd by simp
qed

section \<open>Joining a freed block with its neighbours\<close>

text \<open>
  The effect of \<open>slob_free\<close> on the units and the links of a free list \<open>lo @ hi\<close>, where \<open>b\<close>, of
  \<open>n\<close> units, goes between \<open>lo\<close> and \<open>hi\<close> and \<open>p\<close> is the block before it on the circle.
\<close>

definition freed_rest :: "(nat \<Rightarrow> int) \<Rightarrow> nat \<Rightarrow> int \<Rightarrow> nat list \<Rightarrow> nat list" where
  "freed_rest u b n hi = (case hi of [] \<Rightarrow> [] | x # xs \<Rightarrow> if int b + n = int x then xs else hi)"

definition freed_units :: "(nat \<Rightarrow> int) \<Rightarrow> nat \<Rightarrow> int \<Rightarrow> nat list \<Rightarrow> int" where
  "freed_units u b n hi = (case hi of [] \<Rightarrow> n | x # xs \<Rightarrow> if int b + n = int x then n + u x else n)"

definition touches :: "(nat \<Rightarrow> int) \<Rightarrow> nat \<Rightarrow> nat list \<Rightarrow> bool" where
  "touches u b lo \<longleftrightarrow> lo \<noteq> [] \<and> int (last lo) + u (last lo) = int b"

definition freed_list :: "(nat \<Rightarrow> int) \<Rightarrow> nat \<Rightarrow> int \<Rightarrow> nat list \<Rightarrow> nat list \<Rightarrow> nat list" where
  "freed_list u b n lo hi = lo @ (if touches u b lo then [] else [b]) @ freed_rest u b n hi"

definition freed_size :: "(nat \<Rightarrow> int) \<Rightarrow> nat \<Rightarrow> int \<Rightarrow> nat list \<Rightarrow> nat list \<Rightarrow> nat \<Rightarrow> int" where
  "freed_size u b n lo hi = (\<lambda>x. if x = b then freed_units u b n hi
     else if touches u b lo \<and> x = last lo then u x + freed_units u b n hi else u x)"

text \<open>\<open>b\<close> and its units lie between the two parts.\<close>

definition fits :: "(nat \<Rightarrow> int) \<Rightarrow> nat \<Rightarrow> int \<Rightarrow> nat list \<Rightarrow> nat list \<Rightarrow> bool" where
  "fits u b n lo hi \<longleftrightarrow> 0 < n \<and> in_order u (lo @ hi) \<and> b \<notin> set (lo @ hi) \<and>
     (\<forall>x\<in>set lo. int x + u x \<le> int b) \<and> (\<forall>x\<in>set hi. int b + n \<le> int x)"

lemma fits_mid:
  assumes "fits u b n lo hi"
  shows "in_order (\<lambda>x. if x = b then freed_units u b n hi else u x) (b # freed_rest u b n hi)"
    and "span (\<lambda>x. if x = b then freed_units u b n hi else u x) (b # freed_rest u b n hi) = span u hi \<union> {int b..<int b + n}"
proof -
  have b: "b \<notin> set hi" and ord: "in_order u hi" and gt: "\<forall>x\<in>set hi. int b + n \<le> int x" and n: "0 < n"
    using assms by (auto simp: fits_def in_order_append)
  have same: "in_order (\<lambda>x. if x = b then k else u x) xs = in_order u xs"
    "span (\<lambda>x. if x = b then k else u x) xs = span u xs" if "b \<notin> set xs" for xs k
    using that by (intro in_order_cong, auto simp: span_def split: if_splits)
  have "in_order (\<lambda>x. if x = b then freed_units u b n hi else u x) (b # freed_rest u b n hi) \<and>
      span (\<lambda>x. if x = b then freed_units u b n hi else u x) (b # freed_rest u b n hi) = span u hi \<union> {int b..<int b + n}"
  proof (cases hi)
    case Nil
    then show ?thesis using n by (auto simp: freed_rest_def freed_units_def in_order_Cons span_def) (simp add: in_order_def)
  next
    case (Cons x xs)
    then have ux: "0 < u x" "in_order u xs" "\<forall>y\<in>set xs. int x + u x \<le> int y" using ord by (simp_all add: in_order_Cons)
    have bx: "b \<notin> set xs" using b Cons by simp
    show ?thesis
    proof (cases "int b + n = int x")
      case True
      have "{int b..<int b + (n + u x)} = {int b..<int b + n} \<union> {int x..<int x + u x}" using True ux(1) n by auto
      then have "span (\<lambda>y. if y = b then n + u x else u y) (b # xs) = span u (x # xs) \<union> {int b..<int b + n}"
        using same(2) [OF bx, of "n + u x"] by (auto simp: span_def)
      moreover have "\<forall>y\<in>set xs. int b + (n + u x) \<le> int y" using True ux(3) by auto
      moreover have fu: "freed_units u b n hi = n + u x" "freed_rest u b n hi = xs"
        using True Cons by (simp_all add: freed_units_def freed_rest_def)
      ultimately show ?thesis
        unfolding fu using True Cons ux n same(1) [OF bx, of "n + u x"] by (simp add: in_order_Cons)
    next
      case False
      have "span (\<lambda>y. if y = b then n else u y) (b # hi) = span u hi \<union> {int b..<int b + n}"
        using same(2) [OF b, of n] by (auto simp: span_def)
      moreover have fu: "freed_units u b n hi = n" "freed_rest u b n hi = hi"
        using False Cons by (simp_all add: freed_units_def freed_rest_def)
      ultimately show ?thesis
        unfolding fu using n gt same(1) [OF b, of n] ord by (simp add: in_order_Cons)
    qed
  qed
  then show "in_order (\<lambda>x. if x = b then freed_units u b n hi else u x) (b # freed_rest u b n hi)"
    "span (\<lambda>x. if x = b then freed_units u b n hi else u x) (b # freed_rest u b n hi) = span u hi \<union> {int b..<int b + n}"
    by simp_all
qed

lemma freed_rest_sub: "set (freed_rest u b n hi) \<subseteq> set hi"
  by (cases hi) (auto simp: freed_rest_def)

lemma span_append: "span u (xs @ ys) = span u xs \<union> span u ys"
  by (auto simp: span_def)

lemma span_cong: "\<forall>x\<in>set xs. u x = v x \<Longrightarrow> span u xs = span v xs"
  by (simp add: span_def)

text \<open>The free list stays in order and covers exactly the units of \<open>b\<close> more.\<close>

lemma freed_list_ok:
  assumes fit: "fits u b n lo hi"
  shows "in_order (freed_size u b n lo hi) (freed_list u b n lo hi)"
    and "span (freed_size u b n lo hi) (freed_list u b n lo hi) = span u (lo @ hi) \<union> {int b..<int b + n}"
proof -
  let ?v = "\<lambda>x. if x = b then freed_units u b n hi else u x" and ?w = "freed_size u b n lo hi"
  let ?r = "freed_rest u b n hi"
  note mid = fits_mid [OF fit]
  have lo: "in_order u lo" "b \<notin> set lo" "\<forall>x\<in>set lo. int x + u x \<le> int b" and bh: "b \<notin> set hi"
    and dis: "set lo \<inter> set hi = {}"
    using fit in_order_distinct [of u "lo @ hi"] by (auto simp: fits_def in_order_append)
  have pos: "0 < freed_units u b n hi" using mid(1) by (simp add: in_order_Cons)
  have rv: "in_order ?v ?r" "\<forall>y\<in>set ?r. int b + freed_units u b n hi \<le> int y" using mid(1) by (simp_all add: in_order_Cons)
  have "in_order ?w (freed_list u b n lo hi) \<and> span ?w (freed_list u b n lo hi) = span u (lo @ hi) \<union> {int b..<int b + n}"
  proof (cases "touches u b lo")
    case False
    have w: "?w = ?v" using False by (auto simp: freed_size_def fun_eq_iff)
    have lv: "in_order ?v lo" "span ?v lo = span u lo"
      using lo in_order_cong [of lo u ?v] span_cong [of lo u ?v] by auto
    have "\<forall>y\<in>set (b # ?r). int b \<le> int y" using rv(2) pos by auto
    then have "\<forall>x\<in>set lo. \<forall>y\<in>set (b # ?r). int x + ?v x \<le> int y" using lo(2,3) by fastforce
    then show ?thesis
      using False w lv mid unfolding freed_list_def by (auto simp: in_order_append span_append)
  next
    case True
    then obtain ls l where ls: "lo = ls @ [l]" "int l + u l = int b" by (auto simp: touches_def) (metis append_butlast_last_id)
    have l: "l \<noteq> b" "l \<notin> set ls" "l \<notin> set ?r" using lo(2) dis freed_rest_sub [of u b n hi] in_order_distinct [OF lo(1)] ls by auto
    have w: "?w l = u l + freed_units u b n hi" "\<forall>x\<in>set ls. ?w x = u x" "\<forall>x\<in>set ?r. ?w x = ?v x"
      using True l ls lo(2) by (auto simp: freed_size_def)
    have "0 < u l" using lo(1) ls by (simp add: in_order_append in_order_Cons)
    then have wl: "{int l..<int l + ?w l} = {int l..<int l + u l} \<union> {int b..<int b + freed_units u b n hi}"
      using ls(2) pos w(1) by auto
    have bnr: "b \<notin> set ?r" using bh freed_rest_sub [of u b n hi] by auto
    have "span ?w (freed_list u b n lo hi) = span u ls \<union> {int l..<int l + ?w l} \<union> span ?v ?r"
      using True ls(1) span_cong [OF w(2)] span_cong [OF w(3)] by (simp add: freed_list_def span_append) (auto simp: span_def)
    also have "\<dots> = span u lo \<union> span ?v (b # ?r)" unfolding wl by (auto simp: span_def ls(1) split: if_splits)
    finally have sp: "span ?w (freed_list u b n lo hi) = span u (lo @ hi) \<union> {int b..<int b + n}"
      using mid(2) by (auto simp: span_append)
    have lsu: "in_order u ls" "\<forall>x\<in>set ls. int x + u x \<le> int l" using lo(1) ls(1) by (simp_all add: in_order_append)
    then have lw: "in_order ?w ls" using in_order_cong [OF w(2)] by simp
    have rw: "in_order ?w ?r" using in_order_cong [OF w(3)] rv(1) by simp
    have lb: "\<forall>y\<in>set ?r. int l + ?w l \<le> int y" using rv(2) w(1) ls(2) by auto
    then have "\<forall>x\<in>set ls. \<forall>y\<in>set ?r. int x + ?w x \<le> int y"
      using lsu(2) w(2) ls(2) pos \<open>0 < u l\<close> w(1) by fastforce
    then have "in_order ?w (ls @ l # ?r)"
      using lw rw lb lsu(2) w(1,2) pos \<open>0 < u l\<close> by (simp add: in_order_append in_order_Cons)
    then show ?thesis using sp True ls(1) by (simp add: freed_list_def)
  qed
  then show "in_order ?w (freed_list u b n lo hi)"
    "span ?w (freed_list u b n lo hi) = span u (lo @ hi) \<union> {int b..<int b + n}" by simp_all
qed

lemma upd_block_simps [simp]:
  "slobfree (upd_block b f s) = slobfree s" "bigs (upd_block b f s) = bigs s" "bigblocks (upd_block b f s) = bigblocks s"
  "hmach (upd_block b f s) = hmach s" "blocks (upd_block b f s) x = (if x = b then f (blocks s b) else blocks s x)"
  by (simp_all add: upd_block_def)

lemma set_block_simps [simp]:
  "units_of (set_units b n s) x = (if x = b then n else units_of s x)" "next_of (set_units b n s) x = next_of s x"
  "units_of (set_next b k s) x = units_of s x" "next_of (set_next b k s) x = (if x = b then k else next_of s x)"
  "slobfree (set_units b n s) = slobfree s" "slobfree (set_next b k s) = slobfree s"
  "hmach (set_units b n s) = hmach s" "hmach (set_next b k s) = hmach s"
  "bigs (set_units b n s) = bigs s" "bigs (set_next b k s) = bigs s"
  "bigblocks (set_units b n s) = bigblocks s" "bigblocks (set_next b k s) = bigblocks s"
  by (simp_all add: set_units_def set_next_def)

lemma join_fields:
  fixes b p :: nat and s :: heap
  defines "nxt \<equiv> next_of s p" and "t \<equiv> join_prev b p (join_next b p s)"
  defines "C1 \<equiv> int b + units_of s b = int nxt" and "C2 \<equiv> int p + units_of s p = int b"
  assumes "b \<noteq> p"
  shows "units_of t x = (if x = b then units_of s b + (if C1 then units_of s nxt else 0)
      else if x = p \<and> C2 then units_of s p + (units_of s b + (if C1 then units_of s nxt else 0)) else units_of s x)"
    "next_of t x = (if x = b then (if C1 then next_of s nxt else nxt)
      else if x = p then (if C2 then (if C1 then next_of s nxt else nxt) else b) else next_of s x)"
    "hmach t = hmach s" "bigs t = bigs s" "bigblocks t = bigblocks s"
  using assms(5) unfolding t_def C1_def C2_def nxt_def by (simp_all add: join_prev_def join_next_def Let_def)

lemma freed_linked:
  assumes fit: "fits u b n lo hi" and lk: "linked f (lo @ hi) (hd (lo @ hi))" and ne: "lo @ hi \<noteq> []"
    and p: "p = (if lo = [] then last (lo @ hi) else last lo)"
    and keep: "\<exists>a\<in>set (lo @ hi). int a + u a \<noteq> int b \<and> int b + n \<noteq> int a"
    and g: "\<And>x. g x = (if x = b then (if int b + n = int (f p) then f (f p) else f p)
      else if x = p then (if touches u b lo then (if int b + n = int (f p) then f (f p) else f p) else b) else f x)"
  shows "linked g (freed_list u b n lo hi) (hd (freed_list u b n lo hi))" and "p \<in> set (freed_list u b n lo hi)"
    and "int b + n = int (f p) \<longleftrightarrow> hi \<noteq> [] \<and> int b + n = int (hd hi)"
proof -
  have b: "b \<notin> set lo" "b \<notin> set hi" and gt: "\<forall>x\<in>set hi. int b + n \<le> int x" and n: "0 < n"
    and le: "\<forall>x\<in>set lo. int x + u x \<le> int b" and ord: "in_order u (lo @ hi)"
    using fit by (auto simp: fits_def)
  have dist: "distinct (lo @ hi)" by (rule in_order_distinct [OF ord])
  have flo: "linked f lo (hd (hi @ [hd (lo @ hi)]))" and fhi: "linked f hi (hd (lo @ hi))"
    using lk by (simp_all add: linked_append)
  have fp: "f p = hd (hi @ [hd (lo @ hi)])"
  proof (cases "lo = []")
    case True
    then have "hi \<noteq> []" "p = last hi" using ne p by simp_all
    then show ?thesis using linked_end [OF fhi] True by simp
  next
    case False
    then show ?thesis using linked_end [OF flo False] p by simp
  qed
  show C1: "int b + n = int (f p) \<longleftrightarrow> hi \<noteq> [] \<and> int b + n = int (hd hi)"
  proof (cases hi)
    case Nil
    then have "lo \<noteq> []" using ne by simp
    then have "int (hd lo) + u (hd lo) \<le> int b \<and> 0 < u (hd lo)"
      using le ord hd_in_set [of lo] by (auto simp: in_order_append) (auto simp: in_order_def)
    then show ?thesis using Nil fp n \<open>lo \<noteq> []\<close> by auto
  qed (use fp in simp)
  let ?r = "freed_rest u b n hi"
  have r: "?r = (if int b + n = int (f p) then tl hi else hi)"
    unfolding C1 by (cases hi) (auto simp: freed_rest_def)
  define h where "h = hd (freed_list u b n lo hi)"
  have lo_h: "lo \<noteq> [] \<Longrightarrow> h = hd lo" by (simp add: h_def freed_list_def)
  have nb: "(if int b + n = int (f p) then f (f p) else f p) = hd (?r @ [if lo = [] then hd hi else hd lo])"
  proof (cases "int b + n = int (f p)")
    case True
    then obtain x xs where hi: "hi = x # xs" "f p = x" using C1 fp by (cases hi) auto
    have "f x = hd (xs @ [hd (lo @ hi)])" using fhi hi by simp
    then show ?thesis using True hi r by (cases "lo = []") simp_all
  next
    case False
    then show ?thesis using r fp ne by (cases hi; cases "lo = []") auto
  qed
  have one: "?r \<noteq> [] \<and> last ?r = last hi" if "lo = []"
  proof (cases "int b + n = int (f p)")
    case True
    then obtain x xs where hi: "hi = x # xs" "f p = x" using C1 fp by (cases hi) auto
    then have "xs \<noteq> []" using keep that True by auto
    then show ?thesis using r True hi by simp
  next
    case False
    then show ?thesis using r ne that by simp
  qed
  have tl_hi: "linked f ?r (hd (lo @ hi))"
    using fhi unfolding r by (cases hi) auto
  have nt: "\<not> touches u b lo" if "lo = []" using that by (simp add: touches_def)
  have "linked g (freed_list u b n lo hi) h \<and> p \<in> set (freed_list u b n lo hi)"
  proof (cases "lo = []")
    case True
    have "p = last (lo @ hi)" using p True by (metis append_Nil)
    then have pl1: "p = last ?r" using one [OF True] True by (simp only: append_Nil)
    have pl: "p = last ?r" "p \<in> set ?r"
      using pl1 one [OF True] last_in_set [of ?r] by metis+
    have bp: "b \<noteq> p" using pl(2) b freed_rest_sub [of u b n hi] by auto
    have dr: "distinct ?r" using dist r True by (cases hi) auto
    have gp: "g p = b" using g [of p] bp nt [OF True] by simp
    have gx: "g x = f x" if "x \<in> set ?r" "x \<noteq> p" for x
      using g [of x] that b freed_rest_sub [of u b n hi] by auto
    have "linked g ?r b"
      by (rule linked_last [OF tl_hi conjunct1 [OF one [OF True]] dr])
        (simp_all only: pl1 [symmetric] gp gx ball_simps, use gx in blast)
    moreover have "hd (?r @ [hd hi]) = hd (?r @ [b])" using one [OF True] by simp
    ultimately show ?thesis
      using True nt pl(2) g nb by (simp add: freed_list_def h_def)
  next
    case False
    have pl: "p = last lo" "p \<in> set lo" using p False by auto
    have bp: "b \<noteq> p" using pl b by auto
    have hl: "hd (lo @ hi) = hd lo" "h = hd lo" using False lo_h by simp_all
    have gr: "linked g ?r (hd lo)"
    proof -
      have "\<forall>x\<in>set ?r. g x = f x"
        using g b pl(2) dist freed_rest_sub [of u b n hi] by auto
      then show ?thesis using tl_hi hl linked_cong [of ?r g f "hd lo"] by simp
    qed
    have gl: "linked g lo (g p)"
      by (rule linked_last [OF flo False]) (use dist pl b g in auto)
    show ?thesis
    proof (cases "touches u b lo")
      case True
      then have "g p = hd (?r @ [hd lo])" using g bp nb False by simp
      then show ?thesis using True gl gr pl(2) hl by (simp add: freed_list_def linked_append)
    next
      case nt: False
      then have "g p = b" "g b = hd (?r @ [hd lo])" using g bp nb False by simp_all
      then show ?thesis using nt gl gr pl(2) hl by (simp add: freed_list_def linked_append)
    qed
  qed
  then show "linked g (freed_list u b n lo hi) (hd (freed_list u b n lo hi))" "p \<in> set (freed_list u b n lo hi)"
    by (simp_all add: h_def)
qed

lemma place_touches:
  assumes "in_order u bs" and "b \<notin> set bs" and "bs \<noteq> []"
  shows "int (place b bs) + u (place b bs) = int b \<longleftrightarrow> touches u b (lower b bs)"
proof (cases "lower b bs = []")
  case True
  have p: "place b bs \<in> set bs" by (rule place_in [OF assms(3)])
  have "upper b bs = bs" using True lower_upper [of b bs] by simp
  then have "b < place b bs" using p upper_greater [OF assms(1,2)] by simp
  moreover have "0 < u (place b bs)" using assms(1) p by (simp add: in_order_def)
  ultimately show ?thesis using True by (simp add: touches_def)
qed (simp add: place_def touches_def)

lemma fits_lower_upper:
  assumes ord: "in_order u bs" and b: "b \<notin> set bs" and n: "0 < n"
    and apart: "\<forall>x\<in>set bs. int x + u x \<le> int b \<or> int b + n \<le> int x"
  shows "fits u b n (lower b bs) (upper b bs)"
  unfolding fits_def lower_upper
proof (intro conjI ballI n ord b)
  fix x
  show "int x + u x \<le> int b" if x: "x \<in> set (lower b bs)"
  proof -
    have "x \<in> set bs" using x lower_upper [of b bs] by (metis Un_iff set_append)
    moreover have "x < b" using lower_less x by blast
    ultimately show ?thesis using apart n by fastforce
  qed
  show "int b + n \<le> int x" if x: "x \<in> set (upper b bs)"
  proof -
    have "x \<in> set bs" using x lower_upper [of b bs] by (metis Un_iff set_append)
    moreover have "b < x" using upper_greater [OF ord b] x by simp
    moreover have "0 < u x" using ord calculation(1) by (simp add: in_order_def)
    ultimately show ?thesis using apart by fastforce
  qed
qed

lemma freed_cong:
  assumes "\<forall>x\<in>set (lo @ hi). u x = v x"
  shows "touches u b lo = touches v b lo" and "freed_list u b n lo hi = freed_list v b n lo hi"
    and "span u (lo @ hi) = span v (lo @ hi)"
  using assms last_in_set [of lo] by (auto simp: touches_def freed_list_def freed_rest_def span_def)

text \<open>The two joins, with the fields of the block already set.\<close>

lemma joined:
  fixes s :: heap
  defines "u \<equiv> units_of s"
  assumes ok: "heap_ok s bs" and b: "b \<notin> set bs" and fit: "fits u b (u b) (lower b bs) (upper b bs)"
    and keep: "\<exists>a\<in>set bs. int a + u a \<noteq> int b \<and> int b + u b \<noteq> int a"
  defines "t \<equiv> join_prev b (place b bs) (join_next b (place b bs) s)"
  shows "heap_ok (t\<lparr>slobfree := place b bs\<rparr>) (freed_list u b (u b) (lower b bs) (upper b bs))"
    and "units_of t = freed_size u b (u b) (lower b bs) (upper b bs)" and "hmach t = hmach s"
proof -
  let ?lo = "lower b bs" and ?hi = "upper b bs" and ?p = "place b bs"
  have h: "bs \<noteq> []" "in_order u bs" "linked (next_of s) bs (hd bs)" using ok by (simp_all add: heap_ok_def u_def)
  have bp: "b \<noteq> ?p" using b place_in [OF h(1), of b] by auto
  have us: "units_of s x = u x" for x by (simp add: u_def)
  note jf = join_fields [OF bp, of s, folded t_def, unfolded us]
  note pu = place_touches [OF h(2) b h(1)]
  have g: "next_of t x = (if x = b then (if int b + u b = int (next_of s ?p) then next_of s (next_of s ?p) else next_of s ?p)
      else if x = ?p then (if touches u b ?lo then (if int b + u b = int (next_of s ?p) then next_of s (next_of s ?p)
        else next_of s ?p) else b) else next_of s x)" for x
    unfolding jf(2) pu [symmetric] by (rule if_cong [OF refl refl if_cong]) auto
  have p: "?p = (if ?lo = [] then last (?lo @ ?hi) else last ?lo)" by (simp only: place_def lower_upper)
  note fl = freed_linked [OF fit _ _ p, unfolded lower_upper, OF h(3,1) keep g]
  have fu: "u b + (if int b + u b = int (next_of s ?p) then u (next_of s ?p) else 0) = freed_units u b (u b) ?hi"
    using fl(3) by (cases ?hi) (auto simp: freed_units_def)
  have C2: "x = ?p \<and> int ?p + u ?p = int b \<longleftrightarrow> touches u b ?lo \<and> x = last ?lo" for x
    using pu by (auto simp: touches_def place_def)
  show "units_of t = freed_size u b (u b) ?lo ?hi"
  proof
    fix x
    show "units_of t x = freed_size u b (u b) ?lo ?hi x"
    proof (cases "touches u b ?lo \<and> x = last ?lo")
      case True
      then have "x = ?p" using C2 [of x] by (simp only: simp_thms)
      then show ?thesis unfolding jf(1) freed_size_def C2 fu using True by simp
    next
      case nt: False
      show ?thesis unfolding jf(1) freed_size_def C2 if_not_P [OF nt] fu by simp
    qed
  qed
  then show "heap_ok (t\<lparr>slobfree := ?p\<rparr>) (freed_list u b (u b) ?lo ?hi)"
    using freed_list_ok(1) [OF fit] fl(1,2) by (auto simp: heap_ok_def)
  show "hmach t = hmach s" by (rule jf(3))
qed

lemma slob_free_ok:
  assumes ok: "heap_ok s bs" and n: "n = (if sz = 0 then units_of s b else int (SLOB_UNITS sz))" "0 < n"
    and apart: "b \<notin> set bs" "\<forall>x\<in>set bs. int x + units_of s x \<le> int b \<or> int b + n \<le> int x"
    and keep: "\<exists>a\<in>set bs. int a + units_of s a \<noteq> int b \<and> int b + n \<noteq> int a"
  shows "\<exists>s' bs'. slob_free (Some b) sz s = Some s' \<and> heap_ok s' bs' \<and>
    span (units_of s') bs' = span (units_of s) bs \<union> {int b..<int b + n} \<and>
    bs' = freed_list (units_of s) b n (lower b bs) (upper b bs) \<and> hmach s' = hmach s"
proof -
  let ?u = "units_of s" and ?lo = "lower b bs" and ?hi = "upper b bs" and ?p = "place b bs"
  define s0 where "s0 = (if sz \<noteq> 0 then set_units b (int (SLOB_UNITS sz)) s else s)"
  have s0: "next_of s0 x = next_of s x" "units_of s0 x = (if x = b then n else ?u x)" "slobfree s0 = slobfree s"
    "hmach s0 = hmach s" for x
    using n(1) by (auto simp: s0_def)
  have same: "\<forall>x\<in>set bs. units_of s0 x = ?u x" using apart(1) s0(2) by auto
  have ok0: "heap_ok s0 bs"
    using ok s0 in_order_cong [OF same] linked_cong [of bs "next_of s0" "next_of s"] by (simp add: heap_ok_def)
  have "fits (units_of s0) b n ?lo ?hi"
    by (rule fits_lower_upper) (use ok0 apart n(2) same in \<open>auto simp: heap_ok_def\<close>)
  then have fit: "fits (units_of s0) b (units_of s0 b) ?lo ?hi" by (simp add: s0(2))
  have keep0: "\<exists>a\<in>set bs. int a + units_of s0 a \<noteq> int b \<and> int b + units_of s0 b \<noteq> int a"
    using keep same s0(2) [of b] by auto
  define t where "t = join_prev b ?p (join_next b ?p s0)"
  have "slob_free (Some b) sz s = (insertion_point b (slobfree s0) s0 \<bind>
      (\<lambda>cur. Some (join_prev b cur (join_next b cur s0)\<lparr>slobfree := cur\<rparr>)))"
    unfolding slob_free_def option.case Let_def s0_def [symmetric] by (rule refl)
  then have run: "slob_free (Some b) sz s = Some (t\<lparr>slobfree := ?p\<rparr>)"
    using insertion_point_ok [OF ok0 apart(1)] by (simp add: t_def)
  note j = joined [OF ok0 apart(1) fit keep0, folded t_def]
  have sb: "units_of s0 b = n" by (simp add: s0(2))
  note c = freed_cong [of ?lo ?hi "units_of s0" ?u, unfolded lower_upper, OF same]
  have "span (units_of t) (freed_list ?u b n ?lo ?hi) = span ?u bs \<union> {int b..<int b + n}"
    using freed_list_ok(2) [OF fit] c(3) unfolding j(2) sb lower_upper c(2) by simp
  moreover have "heap_ok (t\<lparr>slobfree := ?p\<rparr>) (freed_list ?u b n ?lo ?hi)" using j(1) unfolding sb c(2) .
  ultimately show ?thesis
    using j(3) s0(4) run by (intro exI [of _ "t\<lparr>slobfree := ?p\<rparr>"] exI [of _ "freed_list ?u b n ?lo ?hi"]) simp
qed

text \<open>\<open>slob_free\<close> terminates and returns the block to the heap: its units join the free units and no
  others do, the free list stays a circle in address order of blocks that do not overlap, the
  block is merged with its neighbours where it touches them, and the next search starts before
  it.  The list must keep a block, as \<open>arena\<close> is, that the freed one does not touch.\<close>
theorem slob_free_inserts:
  assumes ok: "heap_ok s bs" and n: "n = (if sz = 0 then units_of s b else int (SLOB_UNITS sz))" "0 < n"
    and apart: "b \<notin> set bs" "\<forall>x\<in>set bs. int x + units_of s x \<le> int b \<or> int b + n \<le> int x"
    and keep: "\<exists>a\<in>set bs. int a + units_of s a \<noteq> int b \<and> int b + n \<noteq> int a"
  shows "\<exists>s' bs'. slob_free (Some b) sz s = Some s' \<and> heap_ok s' bs' \<and>
    span (units_of s') bs' = span (units_of s) bs \<union> {int b..<int b + n} \<and>
    bs' = freed_list (units_of s) b n (lower b bs) (upper b bs) \<and> hmach s' = hmach s"
  by (rule slob_free_ok [OF assms])

section \<open>Taking a block from the free list\<close>

text \<open>\<open>room\<close>: the first block of the walk that has room; the list after it was taken.\<close>

fun room :: "(nat \<Rightarrow> int) \<Rightarrow> int \<Rightarrow> nat list \<Rightarrow> nat option" where
  "room u n [] = None"
| "room u n (b # bs) = (if n \<le> u b then Some b else room u n bs)"

fun taken_list :: "(nat \<Rightarrow> int) \<Rightarrow> nat \<Rightarrow> nat \<Rightarrow> nat list \<Rightarrow> nat list" where
  "taken_list u b n [] = []"
| "taken_list u b n (x # xs) = (if x = b then (if u b = int n then xs else (b + n) # xs) else x # taken_list u b n xs)"

lemma room_some: "room u n bs = Some b \<Longrightarrow> b \<in> set bs \<and> n \<le> u b"
  by (induction bs) (auto split: if_splits)

lemma room_none: "room u n bs = None \<longleftrightarrow> (\<forall>b\<in>set bs. u b < n)"
  by (induction bs) auto

lemma taken_list_split:
  "b \<notin> set us \<Longrightarrow> taken_list u b n (us @ b # vs) = us @ (if u b = int n then vs else (b + n) # vs)"
  by (induction us) auto

text \<open>The walk from the block after \<open>slobfree\<close>.\<close>

lemma slob_loop_step:
  assumes "cur \<noteq> slobfree s \<or> int n \<le> units_of s cur"
  shows "slob_loop sz n 0 prev cur s =
    (if int n \<le> units_of s cur then Some (apsnd Some (slob_take prev cur 0 0 n s))
     else slob_loop sz n 0 cur (next_of s cur) s)"
  using assms by (subst slob_loop.simps) (auto simp: Let_def case_prod_beta apsnd_def map_prod_def)

lemma slob_loop_walk:
  assumes "linked (next_of s) (cur # ws) e" and "last (cur # ws) = slobfree s" and "distinct (cur # ws)"
    and "room (units_of s) (int n) (cur # ws) = Some b" and "next_of s prev = cur"
  shows "\<exists>q\<in>set (prev # cur # ws). next_of s q = b \<and>
    slob_loop sz n 0 prev cur s = Some (apsnd Some (slob_take q b 0 0 n s))"
  using assms
proof (induction ws arbitrary: prev cur)
  case Nil
  then have "int n \<le> units_of s cur" "cur = b" by (auto split: if_splits)
  then show ?case using Nil(5) by (intro bexI [of _ prev]) (simp_all add: slob_loop_step)
next
  case (Cons w ws)
  show ?case
  proof (cases "int n \<le> units_of s cur")
    case True
    then have "cur = b" using Cons.prems(4) by simp
    then show ?thesis using Cons.prems(5) True by (intro bexI [of _ prev]) (simp_all add: slob_loop_step)
  next
    case False
    have "cur \<noteq> slobfree s" using Cons.prems(2,3) last_in_set [of "w # ws"] by fastforce
    then have step: "slob_loop sz n 0 prev cur s = slob_loop sz n 0 cur (next_of s cur) s"
      using False by (simp add: slob_loop_step)
    have w: "next_of s cur = w" using Cons.prems(1) by simp
    have r: "linked (next_of s) (w # ws) e" "last (w # ws) = slobfree s" "distinct (w # ws)"
      "room (units_of s) (int n) (w # ws) = Some b"
      using Cons.prems(1-4) False by simp_all
    obtain q where "q \<in> set (cur # w # ws)" "next_of s q = b"
      "slob_loop sz n 0 cur w s = Some (apsnd Some (slob_take q b 0 0 n s))"
      using Cons.IH [OF r w] by blast
    then show ?thesis unfolding step w by (intro bexI [of _ q]) auto
  qed
qed

lemma linked_rotate: "linked f (xs @ ys) (hd (xs @ ys)) = linked f (ys @ xs) (hd (ys @ xs))"
proof (cases "xs = [] \<or> ys = []")
  case False
  then have "hd (ys @ [hd xs]) = hd ys" "hd (xs @ [hd ys]) = hd xs" by simp_all
  then show ?thesis using False unfolding linked_append by auto
qed auto

lemma linked_pred:
  assumes "linked f (c # cs) c" and "distinct (c # cs)" and "q \<in> set (c # cs)" and "f q = c"
  shows "q = last (c # cs)"
proof -
  obtain xs ys where s: "c # cs = xs @ q # ys" using assms(3) by (meson split_list)
  show ?thesis
  proof (cases ys)
    case (Cons y zs)
    then have "f q = y" using assms(1) unfolding s by (simp add: linked_append)
    then have "c \<in> set (tl (xs @ q # ys))" using assms(4) Cons by (cases xs) auto
    then show ?thesis using assms(2) unfolding s [symmetric] by simp
  qed (use s in simp)
qed

text \<open>The links and the units after a block was taken from a circle.\<close>

lemma slob_take_fields:
  fixes s :: heap and n q b :: nat
  assumes "q \<noteq> b"
  defines "t \<equiv> fst (slob_take q b 0 0 n s)" and "ex \<equiv> units_of s b = int n"
  shows "snd (slob_take q b 0 0 n s) = b" "slobfree t = q" "hmach t = hmach s" "bigs t = bigs s" "bigblocks t = bigblocks s"
    "0 < n \<Longrightarrow> units_of t x = (if x = b then int n else if x = b + n \<and> \<not> ex then units_of s b - int n else units_of s x)"
    "0 < n \<Longrightarrow> next_of t x = (if ex then (if x = q then next_of s b else next_of s x)
       else if x = b + n then next_of s b else if x = q then b + n else next_of s x)"
  using assms by (auto simp: slob_take_def Let_def t_def ex_def)

text \<open>The blocks in the order of the search: from the one after \<open>slobfree\<close> round to it.\<close>

definition walk :: "heap \<Rightarrow> nat list \<Rightarrow> nat list" where
  "walk s bs = tl (dropWhile (\<lambda>x. x \<noteq> slobfree s) bs) @ takeWhile (\<lambda>x. x \<noteq> slobfree s) bs @ [slobfree s]"

lemma walk_split: "bs = us @ slobfree s # vs \<Longrightarrow> slobfree s \<notin> set us \<Longrightarrow> walk s bs = vs @ us @ [slobfree s]"
  by (auto simp: walk_def takeWhile_append dropWhile_append)

lemma walk_props:
  assumes ok: "heap_ok s bs"
  obtains w ws where "walk s bs = w # ws" "linked (next_of s) (w # ws) w" "last (w # ws) = slobfree s"
    "distinct (w # ws)" "set (w # ws) = set bs" "next_of s (slobfree s) = w"
proof -
  have h: "slobfree s \<in> set bs" "linked (next_of s) bs (hd bs)" "distinct bs"
    using ok in_order_distinct by (auto simp: heap_ok_def)
  obtain us vs where bs: "bs = us @ slobfree s # vs" "slobfree s \<notin> set us" using h(1) by (meson split_list_first)
  have w: "walk s bs = vs @ (us @ [slobfree s])" using walk_split [OF bs] by simp
  obtain w ws where c: "walk s bs = w # ws" unfolding w by (cases vs; cases us) auto
  have "linked (next_of s) ((us @ [slobfree s]) @ vs) (hd ((us @ [slobfree s]) @ vs))" using h(2) bs(1) by simp
  then have l: "linked (next_of s) (w # ws) w"
    unfolding linked_rotate [of _ "us @ [slobfree s]"] using c w by simp
  have e: "last (w # ws) = slobfree s" unfolding c [symmetric] w by simp
  have "set (w # ws) = set bs" "distinct (w # ws)" unfolding c [symmetric] w using bs h(3) by auto
  moreover have "next_of s (slobfree s) = w" using linked_end [OF l] e by simp
  ultimately show ?thesis using that c l e by blast
qed

lemma slob_take_ok:
  assumes ok: "heap_ok s bs" and two: "2 \<le> length bs" and n: "0 < n" and q: "q \<in> set bs" "next_of s q = b"
    and b: "b \<in> set bs" "int n \<le> units_of s b"
  defines "t \<equiv> fst (slob_take q b 0 0 n s)"
  shows "heap_ok t (taken_list (units_of s) b n bs)" and "units_of t b = int n"
    and "span (units_of t) (taken_list (units_of s) b n bs) = span (units_of s) bs - {int b..<int b + int n}"
    and "snd (slob_take q b 0 0 n s) = b" and "hmach t = hmach s" and "bigs t = bigs s" and "bigblocks t = bigblocks s"
    and "\<forall>x\<in>set bs - {b}. x \<in> set (taken_list (units_of s) b n bs) \<and> units_of t x = units_of s x"
proof -
  let ?u = "units_of s" and ?f = "next_of s"
  have h: "in_order ?u bs" "linked ?f bs (hd bs)" "distinct bs" using ok in_order_distinct by (auto simp: heap_ok_def)
  obtain us vs where bs: "bs = us @ b # vs" using b(1) by (meson split_list)
  let ?rs = "vs @ us"
  have rs: "?rs \<noteq> []" using two bs by auto
  have d: "distinct (b # ?rs)" using h(3) bs by auto
  have circ: "linked ?f (b # ?rs) b" using h(2) linked_rotate [of ?f us "b # vs"] bs by simp
  have fb: "?f b = hd ?rs" using circ hd_append2 [OF rs, of "[b]"] by simp
  have "q = last (b # ?rs)" by (rule linked_pred [OF circ d]) (use q bs in auto)
  then have ql: "q = last ?rs" and qb: "q \<noteq> b" using rs d last_in_set [of ?rs] by auto
  have lt: "\<forall>y\<in>set vs. int b + ?u b \<le> int y" "\<forall>y\<in>set us. y < b" "0 < ?u b"
    using h(1) in_order_less [of ?u us b vs] unfolding bs by (auto simp: in_order_append in_order_Cons)
  have new: "b + n \<notin> set ?rs" if "?u b \<noteq> int n" using lt that b(2) n by fastforce
  note tf = slob_take_fields [OF qb, of n s, folded t_def]
  show "snd (slob_take q b 0 0 n s) = b" "hmach t = hmach s" "bigs t = bigs s" "bigblocks t = bigblocks s"
    "units_of t b = int n"
    using tf(1,3-5) tf(6) [OF n, of b] by simp_all
  let ?new = "if ?u b = int n then [] else [b + n]" and ?l = "taken_list ?u b n bs"
  have l: "?l = us @ ?new @ vs" using d unfolding bs by (simp add: taken_list_split)
  have ut: "units_of t x = ?u x" if "x \<in> set ?rs" for x
    using tf(6) [OF n, of x] that d new by auto
  show "\<forall>x\<in>set bs - {b}. x \<in> set ?l \<and> units_of t x = ?u x" unfolding l using ut bs by auto
  have cl: "linked (next_of t) ?rs (hd (?new @ ?rs)) \<and> (\<forall>x\<in>set ?new. next_of t x = hd ?rs)"
  proof
    have ft: "next_of t x = ?f x" if "x \<in> set ?rs" "x \<noteq> q" for x
      using tf(7) [OF n, of x] that d new by auto
    have fq: "next_of t q = hd (?new @ ?rs)"
      using tf(7) [OF n, of q] fb new ql last_in_set [OF rs] by auto
    show "linked (next_of t) ?rs (hd (?new @ ?rs))"
      by (rule linked_last [of ?f _ b]) (use circ rs d ql ft fq in auto)
    show "\<forall>x\<in>set ?new. next_of t x = hd ?rs"
      using tf(7) [OF n, of "b + n"] fb by auto
  qed
  have "linked (next_of t) (?new @ vs @ us) (hd (?new @ vs @ us))"
    using cl hd_append2 [OF rs, of "[b + n]"] by (cases "?u b = int n") simp_all
  then have lk: "linked (next_of t) ?l (hd ?l)"
    unfolding l linked_rotate [of _ us "?new @ vs"] by simp
  have un: "units_of t x = ?u b - int n" if "x \<in> set ?new" for x
    using tf(6) [OF n, of x] that n by (cases "?u b = int n") auto
  have ou: "in_order ?u us" "in_order ?u vs" "\<forall>x\<in>set us. int x + ?u x \<le> int b" "\<forall>x\<in>set us. \<forall>y\<in>set vs. int x + ?u x \<le> int y"
    using h(1) unfolding bs by (simp_all add: in_order_append in_order_Cons)
  have "in_order (units_of t) us" "in_order (units_of t) vs"
    using ou in_order_cong [of us "units_of t" ?u] in_order_cong [of vs "units_of t" ?u] ut by simp_all
  moreover have "in_order (units_of t) ?new"
    using un b(2) by (auto simp: in_order_def)
  ultimately have io: "in_order (units_of t) ?l"
    unfolding l using ou(3,4) lt(1) ut un by (fastforce simp: in_order_append)
  show "heap_ok t ?l" using io lk tf(2) q(1) qb bs l by (auto simp: heap_ok_def)
  have "span (units_of t) us = span ?u us" "span (units_of t) vs = span ?u vs"
    using span_cong [of us "units_of t" ?u] span_cong [of vs "units_of t" ?u] ut by simp_all
  moreover have "span (units_of t) ?new = {int b..<int b + ?u b} - {int b..<int b + int n}"
    using un b(2) by (auto simp: span_def)
  moreover have "span ?u us \<inter> {int b..<int b + int n} = {}" "span ?u vs \<inter> {int b..<int b + int n} = {}"
    using ou(3) lt(1) b(2) by (fastforce simp: span_def)+
  moreover have "span ?u bs = span ?u us \<union> {int b..<int b + ?u b} \<union> span ?u vs"
    unfolding bs by (auto simp: span_def)
  ultimately show "span (units_of t) ?l = span ?u bs - {int b..<int b + int n}"
    unfolding l span_append by blast
qed

lemma slob_alloc_ok:
  assumes ok: "heap_ok s bs" and two: "2 \<le> length bs" and sz: "0 < sz" "sz + SLOB_UNIT < PGSIZE"
    and room: "room (units_of s) (int (SLOB_UNITS sz)) (walk s bs) = Some b"
  shows "\<exists>t. slob_alloc sz 0 s = Some (t, Some b) \<and> heap_ok t (taken_list (units_of s) b (SLOB_UNITS sz) bs) \<and>
    units_of t b = int (SLOB_UNITS sz) \<and>
    span (units_of t) (taken_list (units_of s) b (SLOB_UNITS sz) bs) = span (units_of s) bs - {int b..<int b + int (SLOB_UNITS sz)} \<and>
    (\<forall>x\<in>set bs - {b}. x \<in> set (taken_list (units_of s) b (SLOB_UNITS sz) bs) \<and> units_of t x = units_of s x) \<and>
    hmach t = hmach s \<and> bigs t = bigs s \<and> bigblocks t = bigblocks s"
proof -
  let ?n = "SLOB_UNITS sz"
  have n: "0 < ?n" and gd: "u64 (sz + SLOB_UNIT) < PGSIZE"
    using sz by (simp_all add: SLOB_UNITS_def SLOB_UNIT_def PGSIZE_def u64_def)
  from ok obtain w ws where w: "walk s bs = w # ws" "linked (next_of s) (w # ws) w" "last (w # ws) = slobfree s"
    "distinct (w # ws)" "set (w # ws) = set bs" "next_of s (slobfree s) = w" by (rule walk_props)
  have sf: "slobfree s \<in> set bs" using ok by (simp add: heap_ok_def)
  obtain q where q: "q \<in> set (slobfree s # w # ws)" "next_of s q = b"
    "slob_loop sz ?n 0 (slobfree s) w s = Some (apsnd Some (slob_take q b 0 0 ?n s))"
    using slob_loop_walk [OF w(2,3,4) room [unfolded w(1)] w(6)] by blast
  have "q \<in> set bs" using q(1) sf w(5) by auto
  moreover have "b \<in> set bs" "int ?n \<le> units_of s b" using room_some [OF room] w(1,5) by auto
  ultimately have tk: "heap_ok (fst (slob_take q b 0 0 ?n s)) (taken_list (units_of s) b ?n bs)"
    "units_of (fst (slob_take q b 0 0 ?n s)) b = int ?n"
    "span (units_of (fst (slob_take q b 0 0 ?n s))) (taken_list (units_of s) b ?n bs) = span (units_of s) bs - {int b..<int b + int ?n}"
    "snd (slob_take q b 0 0 ?n s) = b" "hmach (fst (slob_take q b 0 0 ?n s)) = hmach s"
    "bigs (fst (slob_take q b 0 0 ?n s)) = bigs s" "bigblocks (fst (slob_take q b 0 0 ?n s)) = bigblocks s"
    "\<forall>x\<in>set bs - {b}. x \<in> set (taken_list (units_of s) b ?n bs) \<and> units_of (fst (slob_take q b 0 0 ?n s)) x = units_of s x"
    using slob_take_ok [OF ok two n _ q(2)] by simp_all
  have "slob_alloc sz 0 s = Some (fst (slob_take q b 0 0 ?n s), Some b)"
    using gd q(3) w(6) tk(4) by (simp add: slob_alloc_def assert_k_def apsnd_def map_prod_def case_prod_beta)
  then show ?thesis using tk by blast
qed

lemma span_apart:
  assumes "in_order u bs" and "span u bs \<inter> {int b..<int b + n} = {}" and "0 < n"
  shows "b \<notin> set bs" and "\<forall>x\<in>set bs. int x + u x \<le> int b \<or> int b + n \<le> int x"
proof -
  have d: "{int x..<int x + u x} \<inter> {int b..<int b + n} = {}" "0 < u x" if "x \<in> set bs" for x
    using that assms(1,2) unfolding span_def in_order_def by blast+
  then show "b \<notin> set bs" using assms(3) by fastforce
  show "\<forall>x\<in>set bs. int x + u x \<le> int b \<or> int b + n \<le> int x"
  proof (rule ballI, rule ccontr)
    fix x
    assume x: "x \<in> set bs" and "\<not> (int x + u x \<le> int b \<or> int b + n \<le> int x)"
    then have "max (int x) (int b) \<in> {int x..<int x + u x} \<inter> {int b..<int b + n}" using d(2) [OF x] assms(3) by auto
    then show False using d(1) [OF x] by simp
  qed
qed

text \<open>C29.
  \<open>kmalloc\<close> of a small size, in a heap whose free list has room, takes the first block with room
  after \<open>slobfree\<close>, and \<open>kfree\<close> of the pointer returns exactly the units that were taken: both
  terminate, the list stays a circle in address order and the set of free units is what it was.\<close>
theorem kmalloc_kfree:
  assumes ok: "heap_ok s bs" and two: "2 \<le> length bs" and sz: "sz + 2 * SLOB_UNIT < PGSIZE" and big: "bigblocks s = None"
    and room: "room (units_of s) (int (SLOB_UNITS (sz + SLOB_UNIT))) (walk s bs) = Some b"
    and keep: "\<exists>a\<in>set bs. a \<noteq> b \<and> int a + units_of s a \<noteq> int b \<and> int b + units_of s b \<noteq> int a"
  shows "\<exists>t t' bs'. kmalloc sz s = Some (t, Some (b + 1)) \<and>
    span (units_of t) (taken_list (units_of s) b (SLOB_UNITS (sz + SLOB_UNIT)) bs)
      = span (units_of s) bs - {int b..<int b + int (SLOB_UNITS (sz + SLOB_UNIT))} \<and>
    kfree (Some (b + 1)) t = Some t' \<and> heap_ok t' bs' \<and> span (units_of t') bs' = span (units_of s) bs"
proof -
  let ?n = "SLOB_UNITS (sz + SLOB_UNIT)" and ?u = "units_of s"
  let ?l = "taken_list ?u b ?n bs"
  have s1: "0 < sz + SLOB_UNIT" "sz + SLOB_UNIT + SLOB_UNIT < PGSIZE" "sz < PGSIZE - SLOB_UNIT" and n: "0 < int ?n"
    using sz by (simp_all add: SLOB_UNIT_def SLOB_UNITS_def PGSIZE_def)
  obtain t where t: "slob_alloc (sz + SLOB_UNIT) 0 s = Some (t, Some b)" "heap_ok t ?l" "units_of t b = int ?n"
    "span (units_of t) ?l = span ?u bs - {int b..<int b + int ?n}" "bigblocks t = bigblocks s"
    "\<forall>x\<in>set bs - {b}. x \<in> set ?l \<and> units_of t x = ?u x"
    using slob_alloc_ok [OF ok two s1(1,2) room] by blast
  have b: "b \<in> set bs" "int ?n \<le> ?u b"
  proof -
    from ok obtain w ws where "walk s bs = w # ws" "set (w # ws) = set bs" by (rule walk_props)
    then show "b \<in> set bs" "int ?n \<le> ?u b" using room_some [OF room] by simp_all
  qed
  then have in_bs: "{int b..<int b + int ?n} \<subseteq> span ?u bs" by (force simp: span_def)
  have "in_order (units_of t) ?l" using t(2) by (simp add: heap_ok_def)
  moreover have "span (units_of t) ?l \<inter> {int b..<int b + int ?n} = {}" unfolding t(4) by blast
  ultimately have ap: "b \<notin> set ?l" "\<forall>x\<in>set ?l. int x + units_of t x \<le> int b \<or> int b + int ?n \<le> int x"
    using span_apart [OF _ _ n] by blast+
  obtain a where a: "a \<in> set bs" "a \<noteq> b" "int a + ?u a \<noteq> int b" "int b + ?u b \<noteq> int a" using keep by blast
  have al: "a \<in> set ?l" "units_of t a = ?u a" using t(6) a(1,2) by auto
  have "int b + int ?n \<noteq> int a"
  proof
    assume e: "int b + int ?n = int a"
    have "in_order ?u bs" "0 < ?u a"
      using ok a(1) by (simp_all add: heap_ok_def in_order_def)
    then have "int b + ?u b \<le> int a \<or> int a + ?u a \<le> int b"
      using a(1,2) b(1) in_order_pair by metis
    then show False using e a(4) b(2) \<open>0 < ?u a\<close> n by linarith
  qed
  then have kp: "\<exists>a\<in>set ?l. int a + units_of t a \<noteq> int b \<and> int b + int ?n \<noteq> int a"
    using al a(3) by (intro bexI [of _ a]) simp_all
  have ns: "int ?n = (if 0 = (0::nat) then units_of t b else int (SLOB_UNITS 0))" using t(3) by simp
  obtain t' bs' where f: "slob_free (Some b) 0 t = Some t'" "heap_ok t' bs'"
    "span (units_of t') bs' = span (units_of t) ?l \<union> {int b..<int b + int ?n}"
    using slob_free_ok [OF t(2) ns n ap kp] by blast
  have "kmalloc sz s = Some (t, Some (b + 1))" using s1(3) t(1) by (simp add: kmalloc_def)
  moreover have "kfree (Some (b + 1)) t = Some t'"
    using f(1) big t(5) by (simp add: kfree_def find_big.simps)
  ultimately show ?thesis using f(2,3) t(4) in_bs by blast
qed

section \<open>The edges of kmalloc\<close>

text \<open>The static heap: \<open>arena\<close> is a block of one unit linked to itself.\<close>

definition heap_init :: "nat \<Rightarrow> (nat \<Rightarrow> slob_block) \<Rightarrow> (nat \<Rightarrow> bigblock) \<Rightarrow> machine \<Rightarrow> heap" where
  "heap_init arena mem bm h = \<lparr>blocks = mem(arena := \<lparr>sb_units = 1, sb_next = arena\<rparr>), slobfree = arena,
     bigs = bm, bigblocks = None, hmach = h\<rparr>"

text \<open>On the heap as the kernel starts with it, \<open>kmalloc\<close> of no bytes hands out \<open>arena\<close> itself, whose
  single unit is the header: the heap does not change, so the arena stays free and every further
  request of no bytes gets the same pointer.\<close>
theorem kmalloc_zero_arena:
  "kmalloc 0 (heap_init arena mem bm h) = Some (heap_init arena mem bm h, Some (arena + 1))"
proof -
  let ?s = "heap_init arena mem bm h"
  have "slob_take arena arena 0 0 1 ?s = (?s, arena)"
    by (simp add: slob_take_def heap_init_def set_next_def upd_block_def)
  then have "slob_loop 16 1 0 arena arena ?s = Some (?s, Some arena)"
    by (subst slob_loop.simps) (simp add: heap_init_def)
  then show ?thesis
    by (simp add: kmalloc_def slob_alloc_def SLOB_UNIT_def SLOB_UNITS_def PGSIZE_def u64_def heap_init_def)
qed

text \<open>\<open>kmalloc\<close> sends every size below 4080 to \<open>slob_alloc\<close>, whose assertion needs the size with the
  header and one unit more to stay below a page: from 4064 to 4079 bytes the assertion fails and
  the kernel stops, whatever the heap holds.\<close>
theorem kmalloc_stops:
  assumes "4064 \<le> sz" and "sz < 4080"
  shows "kmalloc sz s = None"
  using assms by (simp add: kmalloc_def slob_alloc_def SLOB_UNIT_def PGSIZE_def u64_def)

lemma page_unit_aligned: "page_aligned (page_unit d)"
proof -
  have "page_unit d * 16 = d * 4096 + 0xFFFFFFFF40000000"
    by (simp add: page_unit_def kva_def va_pa_offset_def KERNBASE_def SLOB_UNIT_def PGSIZE_def)
  then show ?thesis by (simp add: page_aligned_def SLOB_UNIT_def PGSIZE_def)
qed

lemma page_unit_get: "slob_get_free_pages k s = Some (t, Some b) \<Longrightarrow> page_aligned b"
  by (auto simp: slob_get_free_pages_def Let_def page_unit_aligned split: option.splits Option.bind_splits prod.splits)

text \<open>The rounding of \<open>find_order\<close>.\<close>

lemma find_order_enough:
  assumes "0 \<le> n"
  shows "4096 * 2 ^ find_order n < n \<longleftrightarrow> n div 2 ^ find_order n = 4096 \<and> n mod 2 ^ find_order n \<noteq> 0"
proof -
  let ?p = "2 ^ find_order n :: int"
  have n: "n = n div ?p * ?p + n mod ?p" "0 \<le> n mod ?p" "n div ?p \<le> 4096"
    using find_order_bounds [OF assms] by (simp_all only: div_mult_mod_eq pos_mod_sign zero_less_power zero_less_numeral)
  show ?thesis
  proof (cases "n div ?p = 4096")
    case True
    have "4096 * ?p < n \<longleftrightarrow> n mod ?p \<noteq> 0" using n(1,2) unfolding True by (intro iffI) linarith+
    then show ?thesis using True by simp
  next
    case False
    have "n mod ?p < ?p" by simp
    then have "n < (n div ?p + 1) * ?p" using n(1) unfolding distrib_right by linarith
    also have "\<dots> \<le> 4096 * ?p" using False n(3) by (intro mult_right_mono) auto
    finally show ?thesis using False by simp
  qed
qed

lemma find_order_le: "0 \<le> n \<Longrightarrow> n < 2 ^ (12 + k) \<Longrightarrow> find_order n \<le> k"
proof (induction k arbitrary: n)
  case (Suc k)
  have "n div 2 < 2 ^ (12 + k)" using Suc.prems(2) by (simp add: power_add)
  then have "find_order (n div 2) \<le> k" using Suc by simp
  then show ?case using find_order_large [of n] by (cases "4096 < n") (simp_all add: not_less)
qed simp

text \<open>A block of whole pages has the \<open>2 ^ order\<close> pages of \<open>find_order\<close>, and \<open>ksize\<close> says so; as the
  order is found with a division that drops the remainder, the block is shorter than the size
  asked for exactly when the size shifted right by the order is 4096 with a remainder, as 8193
  bytes are, which get 8192.\<close>
theorem kmalloc_big_block:
  assumes k: "kmalloc sz s = Some (t, Some b)" and sz: "4080 \<le> sz" "sz < 2 ^ 31"
  shows "let order = find_order (int sz) in ksize (Some b) t = Some (4096 * 2 ^ order) \<and>
    (4096 * 2 ^ order < sz \<longleftrightarrow> sz div 2 ^ order = 4096 \<and> sz mod 2 ^ order \<noteq> 0)"
proof -
  define k where "k = find_order (int sz)"
  obtain bb s' s'' where b: "slob_get_free_pages k s' = Some (s'', Some b)" "bigblocks t = Some bb"
    "bigs t bb = \<lparr>bb_order = k, bb_pages = b, bb_next = bigblocks s''\<rparr>"
    using k sz unfolding kmalloc_def k_def
    by (auto simp: to_int32_small Let_def SLOB_UNIT_def PGSIZE_def split: option.splits Option.bind_splits prod.splits)
  have "find_order (int sz) \<le> 19" by (rule find_order_le) (use sz in simp_all)
  then have k19: "k \<le> 19" by (simp add: k_def)
  then have "4096 * 2 ^ k \<le> (4096 * 2 ^ 19 :: nat)" by (intro mult_left_mono power_increasing) auto
  then have "ksize (Some b) t = Some (4096 * 2 ^ k)"
    using b page_unit_get [OF b(1)] by (simp add: ksize_def find_big.simps PGSIZE_def u32_def)
  moreover have "(4096 * 2 ^ k < int sz) = (int sz div 2 ^ k = 4096 \<and> int sz mod 2 ^ k \<noteq> 0)"
    using find_order_enough [of "int sz"] by (simp add: k_def)
  moreover have "int sz div 2 ^ k = int (sz div 2 ^ k)" "int sz mod 2 ^ k = int (sz mod 2 ^ k)"
    "4096 * 2 ^ k < int sz \<longleftrightarrow> int (4096 * 2 ^ k) < int sz"
    by (simp_all add: zdiv_int zmod_int)
  ultimately show ?thesis unfolding Let_def k_def [symmetric] by linarith
qed

section \<open>The properties at work\<close>

text \<open>The arena and a page of free units behind it.\<close>

definition heap_sample :: heap where
  "heap_sample = \<lparr>blocks = (\<lambda>_. \<lparr>sb_units = 0, sb_next = 0\<rparr>)(100 := \<lparr>sb_units = 1, sb_next = 256\<rparr>,
       256 := \<lparr>sb_units = 256, sb_next = 100\<rparr>), slobfree = 100, bigs = (\<lambda>_. \<lparr>bb_order = 0, bb_pages = 0, bb_next = None\<rparr>),
     bigblocks = None, hmach = pt_sample\<rparr>"

lemma heap_sample_ok: "heap_ok heap_sample [100, 256]"
  by (simp add: heap_ok_def heap_sample_def in_order_def)

theorem kmalloc_kfree_witness:
  "\<exists>t t'. kmalloc 100 heap_sample = Some (t, Some 257) \<and> kfree (Some 257) t = Some t'"
proof -
  have "SLOB_UNITS (100 + SLOB_UNIT) = 8" by (simp add: SLOB_UNITS_def SLOB_UNIT_def u64_def)
  then show ?thesis
    using kmalloc_kfree [OF heap_sample_ok, of 100 256]
    by (auto simp: heap_sample_def walk_def SLOB_UNIT_def PGSIZE_def)
qed

theorem slob_free_inserts_witness:
  "\<exists>s' bs'. slob_free (Some 512) 4096 heap_sample = Some s' \<and> heap_ok s' bs' \<and> bs' = [100, 256]"
  using slob_free_inserts [OF heap_sample_ok, of 256 4096 512]
  by (auto simp: heap_sample_def SLOB_UNITS_def SLOB_UNIT_def u64_def lower_def upper_def freed_list_def touches_def freed_rest_def)

theorem kmalloc_stops_witness: "kmalloc 4070 heap_sample = None"
  using kmalloc_stops [of 4070 heap_sample] by simp

lemma sample_two_pages: "default_alloc_pages 2 pt_area = Some (take_block 2 20 pt_area, Some 20)"
proof -
  have "ff_ok NPAGES pt_area [20]"
    using ring_list_add_head [OF ring_list_init, of "PageLink 20" FreeList "\<lparr>l_next = id, l_prev = id\<rparr>"]
    by (simp add: ff_ok_def pt_area_def prop_of_def)
  from default_alloc_eq [OF this, of 2] show ?thesis by (simp add: pt_area_def prop_of_def)
qed

theorem kmalloc_big_block_witness:
  "\<exists>t b. kmalloc 8193 heap_sample = Some (t, Some b) \<and> ksize (Some b) t = Some 8192"
proof -
  have fo: "find_order 8193 = 1" using find_order_large [of 8193] by simp
  have "room (units_of heap_sample) (int (SLOB_UNITS BIGBLOCK_SIZE)) (walk heap_sample [100, 256]) = Some 256"
    by (simp add: walk_def heap_sample_def SLOB_UNITS_def SLOB_UNIT_def BIGBLOCK_SIZE_def u64_def)
  then obtain t where t: "slob_alloc BIGBLOCK_SIZE 0 heap_sample = Some (t, Some 256)" "hmach t = pt_sample"
    using slob_alloc_ok [OF heap_sample_ok, of BIGBLOCK_SIZE 256]
    by (auto simp: BIGBLOCK_SIZE_def SLOB_UNIT_def PGSIZE_def heap_sample_def)
  have "page2kva 20 \<noteq> None" using page_ppn_small [of 20] by (simp add: page2kva_def KADDR_def PPN_page2pa)
  then obtain t' b where "slob_get_free_pages 1 t = Some (t', Some b)"
    using sample_two_pages by (auto simp: slob_get_free_pages_def t(2) alloc_pages_def pt_sample_def Let_def)
  then obtain u where k: "kmalloc 8193 heap_sample = Some (u, Some b)"
    using t fo by (auto simp: kmalloc_def to_int32_small SLOB_UNIT_def PGSIZE_def Let_def)
  then show ?thesis using kmalloc_big_block [OF k] fo by (auto simp: Let_def)
qed

end
