(* ===== verification/Bitmap.thy ===== *)
theory Bitmap
  imports Kernel_Prelude
begin

unbundle bit_operations_syntax

text \<open>
  The bitmap of free disk blocks, \<open>kern/fs/sfs/bitmap.c\<close>: an array of 32-bit words in which a bit
  is one while its index is free.  \<open>free_bits\<close> is the set the bitmap stands for, \<open>bitmap_ok\<close> its
  invariant: the words are there and no bit behind \<open>nbits\<close> is free.  Every operation is shown as
  an operation on that set.  The results of \<open>kmalloc\<close> are arguments.
\<close>

section \<open>The operations\<close>

definition WORD_BITS :: nat where "WORD_BITS = 32"

record bitmap =
  bm_nbits :: nat
  bm_nwords :: nat
  bm_map :: "32 word list"

definition ROUNDUP_DIV :: "nat \<Rightarrow> nat \<Rightarrow> nat" where
  "ROUNDUP_DIV a n = u32 (u64 (a + n - 1) div n)"

fun clear_overbits :: "nat \<Rightarrow> nat \<Rightarrow> 32 word list \<Rightarrow> 32 word list" where
  "clear_overbits 0 ix ws = ws"
| "clear_overbits (Suc k) ix ws = clear_overbits k ix (ws[ix := ws ! ix XOR push_bit (WORD_BITS - Suc k) 1])"

text \<open>The loop over \<open>overbits\<close> is \<open>clear_overbits\<close> with the number of bits that are left.  The
  result is \<open>None\<close> inside when there is no memory for the structure or for its words.\<close>

definition bitmap_create :: "bool \<Rightarrow> bool \<Rightarrow> nat \<Rightarrow> bitmap option option" where
  "bitmap_create mem mem2 nbits = do {
     assert_k (nbits \<noteq> 0 \<and> u64 (nbits + WORD_BITS) > nbits);
     if \<not> mem then Some None
     else let nwords = ROUNDUP_DIV nbits WORD_BITS in
       if \<not> mem2 then Some None
       else let ws = replicate nwords (- 1) in
         if nbits \<noteq> nwords * WORD_BITS
         then do {
           let ix = nwords - 1;
           let overbits = nbits - ix * WORD_BITS;
           assert_k (nbits div WORD_BITS = ix);
           assert_k (0 < overbits \<and> overbits < WORD_BITS);
           Some (Some \<lparr>bm_nbits = nbits, bm_nwords = nwords, bm_map = clear_overbits (WORD_BITS - overbits) ix ws\<rparr>) }
         else Some (Some \<lparr>bm_nbits = nbits, bm_nwords = nwords, bm_map = ws\<rparr>) }"

function find_offset :: "nat \<Rightarrow> 32 word \<Rightarrow> nat option" where
  "find_offset offset w =
    (if offset < WORD_BITS
     then if w AND push_bit offset 1 \<noteq> 0 then Some offset else find_offset (offset + 1) w
     else None)"
  by pat_completeness auto
termination by (relation "measure (\<lambda>(k, _). WORD_BITS - k)") auto

text \<open>The first word with a free bit; \<open>assert(0)\<close> is the \<open>None\<close> of \<open>find_offset\<close>.\<close>

function alloc_loop :: "nat \<Rightarrow> bitmap \<Rightarrow> (bitmap \<times> (int + nat)) option" where
  "alloc_loop ix b =
    (if ix < bm_nwords b then
       if bm_map b ! ix \<noteq> 0 then do {
         offset \<leftarrow> find_offset 0 (bm_map b ! ix);
         Some (b\<lparr>bm_map := (bm_map b)[ix := bm_map b ! ix XOR push_bit offset 1]\<rparr>, Inr (u32 (ix * WORD_BITS + offset))) }
       else alloc_loop (ix + 1) b
     else Some (b, Inl (- E_NO_MEM)))"
  by pat_completeness auto
termination by (relation "measure (\<lambda>(ix, b). bm_nwords b - ix)") auto

definition bitmap_alloc :: "bitmap \<Rightarrow> (bitmap \<times> (int + nat)) option" where
  "bitmap_alloc b = alloc_loop 0 b"

definition bitmap_translate :: "bitmap \<Rightarrow> nat \<Rightarrow> (nat \<times> 32 word) option" where
  "bitmap_translate b index = do {
     assert_k (index < bm_nbits b);
     Some (index div WORD_BITS, push_bit (index mod WORD_BITS) 1) }"

definition bitmap_test :: "bitmap \<Rightarrow> nat \<Rightarrow> bool option" where
  "bitmap_test b index = do {
     (ix, mask) \<leftarrow> bitmap_translate b index;
     Some (bm_map b ! ix AND mask \<noteq> 0) }"

definition bitmap_free :: "bitmap \<Rightarrow> nat \<Rightarrow> bitmap option" where
  "bitmap_free b index = do {
     (ix, mask) \<leftarrow> bitmap_translate b index;
     assert_k (bm_map b ! ix AND mask = 0);
     Some (b\<lparr>bm_map := (bm_map b)[ix := bm_map b ! ix OR mask]\<rparr>) }"

text \<open>\<open>bitmap_getdata\<close>: the words and their length in bytes.\<close>

definition bitmap_getdata :: "bitmap \<Rightarrow> 32 word list \<times> nat" where
  "bitmap_getdata b = (bm_map b, 4 * bm_nwords b)"

section \<open>The set of free indices\<close>

definition free_bits :: "bitmap \<Rightarrow> nat set" where
  "free_bits b = {i. i < WORD_BITS * bm_nwords b \<and> bit (bm_map b ! (i div WORD_BITS)) (i mod WORD_BITS)}"

definition bitmap_ok :: "bitmap \<Rightarrow> bool" where
  "bitmap_ok b \<longleftrightarrow> length (bm_map b) = bm_nwords b \<and> bm_nbits b \<le> WORD_BITS * bm_nwords b \<and>
     WORD_BITS * bm_nwords b < 2 ^ 32 \<and> free_bits b \<subseteq> {..<bm_nbits b}"

declare push_bit_of_1 [simp del]

lemma and_mask [simp]: "(w :: 32 word) AND push_bit k 1 \<noteq> 0 \<longleftrightarrow> k < 32 \<and> bit w k"
proof -
  have "w AND push_bit k 1 \<noteq> 0 \<longleftrightarrow> (\<exists>n. bit (w AND push_bit k 1) n)" using bit_imp_le_length by (fastforce simp: bit_eq_iff)
  also have "\<dots> \<longleftrightarrow> k < 32 \<and> bit w k"
    by (auto simp: bit_simps)
  finally show ?thesis .
qed

lemma bit_xor_mask: "n < 32 \<Longrightarrow> bit ((w :: 32 word) XOR push_bit k 1) n \<longleftrightarrow> bit w n \<noteq> (n = k)"
  by (auto simp: bit_simps)

lemma bit_or_mask: "n < 32 \<Longrightarrow> bit ((w :: 32 word) OR push_bit k 1) n \<longleftrightarrow> bit w n \<or> n = k"
  by (auto simp: bit_simps)

text \<open>Changing one bit of one word.\<close>

lemma word_index: "i = ix * WORD_BITS + k \<and> k < WORD_BITS \<longleftrightarrow> i div WORD_BITS = ix \<and> i mod WORD_BITS = k"
  by (auto simp: WORD_BITS_def)

lemma Collect_set_bit: "(c :: nat) < m \<Longrightarrow> {i. i < m \<and> (if i = c then v else B i)}
    = (if v then insert c {i. i < m \<and> B i} else {i. i < m \<and> B i} - {c})"
  by (auto split: if_splits)

lemma free_bits_upd:
  assumes len: "length (bm_map b) = bm_nwords b" and ix: "ix < bm_nwords b" and k: "k < WORD_BITS"
    and w: "\<And>n. n < 32 \<Longrightarrow> bit w n \<longleftrightarrow> (if n = k then v else bit (bm_map b ! ix) n)"
  shows "free_bits (b\<lparr>bm_map := (bm_map b)[ix := w]\<rparr>)
    = (if v then insert (ix * WORD_BITS + k) (free_bits b) else free_bits b - {ix * WORD_BITS + k})"
proof -
  have lt: "ix * WORD_BITS + k < WORD_BITS * bm_nwords b"
  proof -
    have "ix * WORD_BITS + k < (ix + 1) * WORD_BITS" using k by simp
    also have "\<dots> \<le> bm_nwords b * WORD_BITS" using ix by (intro mult_right_mono) auto
    finally show ?thesis by (simp add: mult.commute)
  qed
  have "bit ((bm_map b)[ix := w] ! (i div WORD_BITS)) (i mod WORD_BITS) \<longleftrightarrow>
      (if i = ix * WORD_BITS + k then v else bit (bm_map b ! (i div WORD_BITS)) (i mod WORD_BITS))"
    if "i < WORD_BITS * bm_nwords b" for i
  proof -
    have "i div WORD_BITS < length (bm_map b)" using that len by (simp add: less_mult_imp_div_less mult.commute)
    moreover have "i mod WORD_BITS < 32" by (simp add: WORD_BITS_def)
    moreover have "i = ix * WORD_BITS + k \<longleftrightarrow> i div WORD_BITS = ix \<and> i mod WORD_BITS = k"
      using word_index [of i ix k] k by blast
    ultimately show ?thesis using w [of "i mod WORD_BITS"] by (cases "i div WORD_BITS = ix") (simp_all add: nth_list_update)
  qed
  then have "free_bits (b\<lparr>bm_map := (bm_map b)[ix := w]\<rparr>) = {i. i < WORD_BITS * bm_nwords b \<and>
      (if i = ix * WORD_BITS + k then v else bit (bm_map b ! (i div WORD_BITS)) (i mod WORD_BITS))}"
    unfolding free_bits_def by (intro Collect_cong) (simp cong: conj_cong)
  also have "\<dots> = (if v then insert (ix * WORD_BITS + k) (free_bits b) else free_bits b - {ix * WORD_BITS + k})"
    unfolding free_bits_def by (rule Collect_set_bit [OF lt])
  finally show ?thesis .
qed

declare find_offset.simps [simp del] alloc_loop.simps [simp del]

lemma find_offset_ok:
  "find_offset k w = (if \<exists>n. k \<le> n \<and> n < 32 \<and> bit w n then Some (LEAST n. k \<le> n \<and> n < 32 \<and> bit w n) else None)"
proof (induction k w rule: find_offset.induct)
  case (1 k w)
  show ?case
  proof (cases "k < 32")
    case True
    show ?thesis
    proof (cases "bit w k")
      case b: True
      then have "(LEAST n. k \<le> n \<and> n < 32 \<and> bit w n) = k" using True by (intro Least_equality) auto
      then show ?thesis using True b by (subst find_offset.simps) (auto simp: WORD_BITS_def)
    next
      case False
      have "k \<le> n \<and> n < 32 \<and> bit w n \<longleftrightarrow> k + 1 \<le> n \<and> n < 32 \<and> bit w n" for n
        using False by (cases "n = k") auto
      moreover have "find_offset k w = find_offset (k + 1) w"
        using True False by (subst find_offset.simps) (simp add: WORD_BITS_def)
      moreover have "find_offset (k + 1) w = (if \<exists>n. k + 1 \<le> n \<and> n < 32 \<and> bit w n
          then Some (LEAST n. k + 1 \<le> n \<and> n < 32 \<and> bit w n) else None)"
        by (rule 1) (use True False in \<open>simp_all add: WORD_BITS_def\<close>)
      ultimately show ?thesis by (simp only:)
    qed
  next
    case False
    then show ?thesis by (subst find_offset.simps) (auto simp: WORD_BITS_def)
  qed
qed

lemma alloc_loop_ok:
  assumes "length (bm_map b) = bm_nwords b" and "WORD_BITS * bm_nwords b < 2 ^ 32"
    and "\<forall>i\<in>free_bits b. ix \<le> i div WORD_BITS"
  shows "if free_bits b = {} then alloc_loop ix b = Some (b, Inl (- E_NO_MEM))
    else \<exists>b'. alloc_loop ix b = Some (b', Inr (Min (free_bits b))) \<and> free_bits b' = free_bits b - {Min (free_bits b)} \<and>
      length (bm_map b') = bm_nwords b' \<and> bm_nwords b' = bm_nwords b \<and> bm_nbits b' = bm_nbits b"
  using assms
proof (induction ix b rule: alloc_loop.induct)
  case (1 ix b)
  note len = "1.prems"(1) and small = "1.prems"(2) and low = "1.prems"(3)
  consider (out) "\<not> ix < bm_nwords b" | (none) "ix < bm_nwords b" "bm_map b ! ix = 0"
    | (some) "ix < bm_nwords b" "bm_map b ! ix \<noteq> 0" by blast
  then show ?case
  proof cases
    case out
    have "i \<notin> free_bits b" for i
      using out low less_mult_imp_div_less [of i "bm_nwords b" WORD_BITS] by (fastforce simp: free_bits_def mult.commute)
    then have "free_bits b = {}" by blast
    then show ?thesis using out by (subst alloc_loop.simps) simp
  next
    case none
    have "ix + 1 \<le> i div WORD_BITS" if "i \<in> free_bits b" for i
      using low that none(2) by (cases "i div WORD_BITS = ix") (auto simp: free_bits_def le_less_Suc_eq order_le_less)
    then have "\<forall>i\<in>free_bits b. ix + 1 \<le> i div WORD_BITS" by blast
    note ih = "1.IH" [OF none(1) _ len small this]
    have step: "alloc_loop ix b = alloc_loop (ix + 1) b" using none by (subst alloc_loop.simps) simp
    show ?thesis unfolding step by (rule ih) (use none(2) in simp)
  next
    case some
    let ?w = "bm_map b ! ix" and ?P = "\<lambda>n. 0 \<le> n \<and> n < 32 \<and> bit (bm_map b ! ix) n"
    have ex: "\<exists>n. ?P n" using some(2) bit_imp_le_length by (auto simp: bit_eq_iff)
    define k where "k = (LEAST n. ?P n)"
    have k: "k < 32" "bit ?w k" using LeastI_ex [OF ex] by (simp_all add: k_def)
    have km: "k \<le> n" if "n < 32" "bit ?w n" for n unfolding k_def by (rule Least_le) (use that in simp)
    have fo: "find_offset 0 ?w = Some k" using ex by (simp add: find_offset_ok k_def)
    let ?i = "ix * WORD_BITS + k"
    have di: "?i div WORD_BITS = ix" "?i mod WORD_BITS = k" using k(1) by (simp_all add: WORD_BITS_def)
    have "?i < WORD_BITS * bm_nwords b" using some(1) k(1) by (simp add: WORD_BITS_def)
    then have inf: "?i \<in> free_bits b" "?i < 2 ^ 32" using k(2) di small by (simp_all add: free_bits_def)
    have "?i \<le> j" if "j \<in> free_bits b" for j
    proof -
      define d r where "d = j div WORD_BITS" and "r = j mod WORD_BITS"
      have "j = d * 32 + r" by (simp add: d_def r_def WORD_BITS_def)
      moreover have "d = ix \<Longrightarrow> k \<le> r" using that km [of r] by (auto simp: free_bits_def WORD_BITS_def d_def r_def)
      moreover have "ix \<le> d" using low that d_def by blast
      ultimately show ?thesis using k(1) by (cases "d = ix") (auto simp: WORD_BITS_def)
    qed
    moreover have "finite (free_bits b)" by (simp add: free_bits_def)
    ultimately have mi: "Min (free_bits b) = ?i" using inf(1) by (intro Min_eqI) auto
    define b' where "b' = b\<lparr>bm_map := (bm_map b)[ix := ?w XOR push_bit k 1]\<rparr>"
    have "free_bits b' = free_bits b - {?i}"
      unfolding b'_def by (subst free_bits_upd [OF len some(1), of k _ False]) (use k in \<open>auto simp: bit_xor_mask WORD_BITS_def\<close>)
    moreover have "alloc_loop ix b = Some (b', Inr ?i)"
      using some fo inf(2) by (subst alloc_loop.simps) (simp add: b'_def)
    ultimately show ?thesis using inf(1) len mi by (auto simp: b'_def)
  qed
qed

lemma bitmap_alloc_cases:
  assumes "bitmap_ok b"
  obtains (full) "free_bits b = {}" "bitmap_alloc b = Some (b, Inl (- E_NO_MEM))"
  | (free) b' where "free_bits b \<noteq> {}" "bitmap_alloc b = Some (b', Inr (Min (free_bits b)))"
      "free_bits b' = free_bits b - {Min (free_bits b)}" "bitmap_ok b'" "bm_nbits b' = bm_nbits b" "bm_nwords b' = bm_nwords b"
proof (cases "free_bits b = {}")
  case True
  then show ?thesis using full alloc_loop_ok [of b 0] assms by (simp add: bitmap_alloc_def bitmap_ok_def)
next
  case False
  then obtain b' where "alloc_loop 0 b = Some (b', Inr (Min (free_bits b)))" "free_bits b' = free_bits b - {Min (free_bits b)}"
    "length (bm_map b') = bm_nwords b'" "bm_nwords b' = bm_nwords b" "bm_nbits b' = bm_nbits b"
    using alloc_loop_ok [of b 0] assms by (auto simp: bitmap_ok_def)
  then show ?thesis using free [of b'] False assms by (auto simp: bitmap_ok_def bitmap_alloc_def)
qed

lemma mask_bit: "length (bm_map b) = bm_nwords b \<Longrightarrow> i < WORD_BITS * bm_nwords b \<Longrightarrow>
    bm_map b ! (i div WORD_BITS) AND push_bit (i mod WORD_BITS) 1 \<noteq> 0 \<longleftrightarrow> i \<in> free_bits b"
  by (simp add: free_bits_def) (simp add: WORD_BITS_def)

lemma bitmap_test_ok:
  "bitmap_ok b \<Longrightarrow> bitmap_test b i = (if i < bm_nbits b then Some (i \<in> free_bits b) else None)"
  using mask_bit [of b i] by (auto simp: bitmap_test_def bitmap_translate_def bitmap_ok_def simp del: and_mask)

lemma bitmap_free_cases:
  assumes ok: "bitmap_ok b"
  shows "if i < bm_nbits b \<and> i \<notin> free_bits b
    then \<exists>b'. bitmap_free b i = Some b' \<and> free_bits b' = insert i (free_bits b) \<and> bitmap_ok b' \<and>
      bm_nbits b' = bm_nbits b \<and> bm_nwords b' = bm_nwords b
    else bitmap_free b i = None"
proof (cases "i < bm_nbits b")
  case True
  have w: "length (bm_map b) = bm_nwords b" "i < WORD_BITS * bm_nwords b" using ok True by (simp_all add: bitmap_ok_def)
  note m = mask_bit [OF w]
  show ?thesis
  proof (cases "i \<in> free_bits b")
    case False
    let ?ix = "i div WORD_BITS" and ?k = "i mod WORD_BITS"
    define b' where "b' = b\<lparr>bm_map := (bm_map b)[?ix := bm_map b ! ?ix OR push_bit ?k 1]\<rparr>"
    have ix: "?ix < bm_nwords b" "?k < WORD_BITS"
      using w(2) less_mult_imp_div_less [of i "bm_nwords b" WORD_BITS] by (simp_all add: mult.commute WORD_BITS_def)
    have "free_bits b' = insert i (free_bits b)"
      unfolding b'_def by (subst free_bits_upd [OF w(1) ix, of _ True]) (auto simp: bit_or_mask)
    moreover have "bitmap_free b i = Some b'"
      using True False m by (auto simp: bitmap_free_def bitmap_translate_def b'_def simp del: and_mask)
    ultimately show ?thesis using True False ok by (auto simp: bitmap_ok_def b'_def)
  qed (use m in \<open>auto simp: bitmap_free_def bitmap_translate_def simp del: and_mask\<close>)
qed (simp add: bitmap_free_def bitmap_translate_def)

section \<open>The contract of the free map\<close>

text \<open>What the file system relies on: a pool of free indices below a bound.\<close>

locale index_pool =
  fixes ok :: "'b \<Rightarrow> bool" and free :: "'b \<Rightarrow> nat set" and bound :: "'b \<Rightarrow> nat"
    and alloc :: "'b \<Rightarrow> ('b \<times> (int + nat)) option" and release :: "'b \<Rightarrow> nat \<Rightarrow> 'b option"
    and test :: "'b \<Rightarrow> nat \<Rightarrow> bool option"
  assumes free_bound: "ok b \<Longrightarrow> free b \<subseteq> {..<bound b}"
    and alloc_full: "ok b \<Longrightarrow> free b = {} \<Longrightarrow> alloc b = Some (b, Inl (- E_NO_MEM))"
    and alloc_least: "ok b \<Longrightarrow> free b \<noteq> {} \<Longrightarrow> \<exists>b'. alloc b = Some (b', Inr (Min (free b))) \<and> ok b' \<and>
      free b' = free b - {Min (free b)} \<and> bound b' = bound b"
    and release_used: "ok b \<Longrightarrow> i < bound b \<Longrightarrow> i \<notin> free b \<Longrightarrow>
      \<exists>b'. release b i = Some b' \<and> ok b' \<and> free b' = insert i (free b) \<and> bound b' = bound b"
    and release_bad: "ok b \<Longrightarrow> \<not> (i < bound b \<and> i \<notin> free b) \<Longrightarrow> release b i = None"
    and test_free: "ok b \<Longrightarrow> test b i = (if i < bound b then Some (i \<in> free b) else None)"
begin

lemma finite_free: "ok b \<Longrightarrow> finite (free b)"
  using free_bound finite_subset by blast

lemma alloc_release:
  assumes "ok b" and "alloc b = Some (b1, Inr i)"
  shows "i \<in> free b \<and> (\<exists>b2. release b1 i = Some b2 \<and> ok b2 \<and> free b2 = free b \<and> bound b2 = bound b)"
proof -
  have ne: "free b \<noteq> {}" using assms alloc_full [of b] by auto
  obtain b' where b': "alloc b = Some (b', Inr (Min (free b)))" "ok b'" "free b' = free b - {Min (free b)}" "bound b' = bound b"
    using alloc_least [OF assms(1) ne] by blast
  have eq: "b1 = b'" "i = Min (free b)" using assms(2) b'(1) by simp_all
  have i: "i \<in> free b" using Min_in [OF finite_free [OF assms(1)] ne] eq(2) by simp
  have "i < bound b'" "i \<notin> free b'" using i free_bound [OF assms(1)] b' eq by auto
  then obtain b2 where "release b' i = Some b2" "ok b2" "free b2 = insert i (free b')" "bound b2 = bound b'"
    using release_used [OF b'(2)] by blast
  then show ?thesis using i b' eq by auto
qed

lemma release_alloc_again:
  assumes "ok b" and "release b i = Some b'" and "alloc b' = Some (b2, Inr j)"
  shows "j = Min (insert i (free b)) \<and> free b2 = insert i (free b) - {j}"
proof -
  have "i < bound b \<and> i \<notin> free b" using release_bad [OF assms(1), of i] assms(2) by auto
  then have b': "ok b'" "free b' = insert i (free b)" using release_used [OF assms(1), of i] assms(2) by auto
  then obtain b3 where "alloc b' = Some (b3, Inr (Min (free b')))" "free b3 = free b' - {Min (free b')}"
    using alloc_least [OF b'(1)] by blast
  then show ?thesis using assms(3) b'(2) by simp
qed

end

interpretation bm: index_pool bitmap_ok free_bits bm_nbits bitmap_alloc bitmap_free bitmap_test
proof
  fix b :: bitmap and i
  assume ok: "bitmap_ok b"
  show "free_bits b \<subseteq> {..<bm_nbits b}" using ok by (simp add: bitmap_ok_def)
  show "bitmap_test b i = (if i < bm_nbits b then Some (i \<in> free_bits b) else None)" by (rule bitmap_test_ok [OF ok])
  show "bitmap_alloc b = Some (b, Inl (- E_NO_MEM))" if "free_bits b = {}"
    using ok that by (cases rule: bitmap_alloc_cases) auto
  show "\<exists>b'. bitmap_alloc b = Some (b', Inr (Min (free_bits b))) \<and> bitmap_ok b' \<and>
      free_bits b' = free_bits b - {Min (free_bits b)} \<and> bm_nbits b' = bm_nbits b" if "free_bits b \<noteq> {}"
    using ok that by (cases rule: bitmap_alloc_cases) auto
  show "\<exists>b'. bitmap_free b i = Some b' \<and> bitmap_ok b' \<and> free_bits b' = insert i (free_bits b) \<and> bm_nbits b' = bm_nbits b"
    if "i < bm_nbits b" "i \<notin> free_bits b"
    using bitmap_free_cases [OF ok, of i] that by auto
  show "bitmap_free b i = None" if "\<not> (i < bm_nbits b \<and> i \<notin> free_bits b)"
    using bitmap_free_cases [OF ok, of i] that by (simp only: if_False)
qed

section \<open>Creation\<close>

lemma clear_overbits_ok:
  assumes "ix < length ws" and "k \<le> WORD_BITS"
  shows "length (clear_overbits k ix ws) = length ws \<and> (\<forall>j. j \<noteq> ix \<longrightarrow> clear_overbits k ix ws ! j = ws ! j) \<and>
    (\<forall>n<32. bit (clear_overbits k ix ws ! ix) n \<longleftrightarrow> bit (ws ! ix) n \<noteq> (WORD_BITS - k \<le> n))"
  using assms
proof (induction k ix ws rule: clear_overbits.induct)
  case (2 k ix ws)
  have "WORD_BITS - k \<le> n \<longleftrightarrow> WORD_BITS - Suc k \<le> n \<and> n \<noteq> WORD_BITS - Suc k" for n
    using "2.prems"(2) by auto
  then show ?case using 2 by (auto simp: bit_xor_mask)
qed (simp add: WORD_BITS_def)

lemma bitmap_create_ok:
  assumes "0 < nbits" and "nbits + 64 < 2 ^ 32"
  shows "\<exists>b. bitmap_create True True nbits = Some (Some b) \<and> bitmap_ok b \<and> bm_nbits b = nbits \<and> free_bits b = {..<nbits}"
proof -
  define nw where "nw = (nbits + 31) div 32"
  have nw: "ROUNDUP_DIV nbits WORD_BITS = nw" "nbits \<le> 32 * nw" "32 * nw < 2 ^ 32" "0 < nw"
    using assms by (simp_all add: ROUNDUP_DIV_def WORD_BITS_def u32_def u64_def nw_def)
  let ?ws = "replicate nw (- 1 :: 32 word)"
  have ones: "bit (- 1 :: 32 word) n \<longleftrightarrow> n < 32" for n by simp
  show ?thesis
  proof (cases "nbits = nw * WORD_BITS")
    case True
    define b where "b = \<lparr>bm_nbits = nbits, bm_nwords = nw, bm_map = ?ws\<rparr>"
    have "free_bits b = {..<nbits}"
      using True less_mult_imp_div_less [of _ nw 32] by (auto simp: free_bits_def b_def WORD_BITS_def mult.commute)
    moreover have "bitmap_create True True nbits = Some (Some b)"
      using assms True nw(1) by (simp add: bitmap_create_def b_def u64_def WORD_BITS_def)
    ultimately show ?thesis using nw True by (auto simp: bitmap_ok_def b_def WORD_BITS_def)
  next
    case False
    define ix ov where "ix = nw - 1" and "ov = nbits - ix * 32"
    have ix: "nw = ix + 1" "nbits = ix * 32 + ov" "0 < ov" "ov < 32" "nbits div 32 = ix"
      using False nw(2,4) assms(1) unfolding ix_def ov_def nw_def WORD_BITS_def by auto
    define b where "b = \<lparr>bm_nbits = nbits, bm_nwords = nw, bm_map = clear_overbits (WORD_BITS - ov) ix ?ws\<rparr>"
    have c: "length (bm_map b) = nw" "\<And>j. j < nw \<Longrightarrow> j \<noteq> ix \<Longrightarrow> bm_map b ! j = - 1"
      "\<And>n. n < 32 \<Longrightarrow> bit (bm_map b ! ix) n \<longleftrightarrow> n < ov"
    proof -
      have ixl: "ix < length ?ws" using ix(1) by simp
      have co: "WORD_BITS - (WORD_BITS - ov) = ov" using ix(4) by (simp add: WORD_BITS_def)
      have w: "?ws ! j = - 1" if "j < nw" for j using that by simp
      note cl = clear_overbits_ok [OF ixl diff_le_self, of ov, unfolded co]
      show "length (bm_map b) = nw" using cl by (simp add: b_def)
      show "bm_map b ! j = - 1" if "j < nw" "j \<noteq> ix" for j using cl w [OF that(1)] that(2) by (simp add: b_def)
      show "bit (bm_map b ! ix) n \<longleftrightarrow> n < ov" if "n < 32" for n
        using cl w [of ix] ixl that by (simp add: b_def not_le)
    qed
    have "i \<in> free_bits b \<longleftrightarrow> i < nbits" for i
    proof -
      define d r where "d = i div 32" and "r = i mod 32"
      have dr: "i = d * 32 + r" "r < 32" by (simp_all add: d_def r_def)
      have mem: "i \<in> free_bits b \<longleftrightarrow> i < 32 * nw \<and> bit (bm_map b ! d) r"
        by (simp add: free_bits_def WORD_BITS_def b_def d_def r_def)
      consider "d < ix" | "d = ix" | "ix < d" by linarith
      then show ?thesis
      proof cases
        case 1
        then show ?thesis unfolding mem using c(2) [of d] ix dr by auto
      next
        case 2
        then show ?thesis unfolding mem using c(3) [OF dr(2)] ix dr by auto
      next
        case 3
        then show ?thesis unfolding mem using ix dr by auto
      qed
    qed
    then have fb: "free_bits b = {..<nbits}" by auto
    have "bitmap_create True True nbits = Some (Some b)"
    proof -
      have g: "nbits \<noteq> 0 \<and> u64 (nbits + WORD_BITS) > nbits" using assms by (simp add: u64_def WORD_BITS_def)
      have a: "nbits - (nw - 1) * WORD_BITS = ov" "nbits div WORD_BITS = nw - 1" "0 < ov \<and> ov < WORD_BITS"
        using ix(3-5) by (simp_all add: ix_def ov_def WORD_BITS_def)
      show ?thesis
        unfolding bitmap_create_def nw(1) Let_def a(1) using g a(2,3) False by (simp add: b_def ix_def)
    qed
    then show ?thesis using nw fb c(1) by (auto simp: bitmap_ok_def b_def WORD_BITS_def)
  qed
qed

text \<open>\<open>bitmap_create\<close> returns a bitmap in which exactly the indices below \<open>nbits\<close> are free, the bits
  of the last word that are left over being in use; the assertions on the way hold.\<close>
theorem bitmap_create_free:
  assumes "0 < nbits" and "nbits + 64 < 2 ^ 32"
  shows "\<exists>b. bitmap_create True True nbits = Some (Some b) \<and> bitmap_ok b \<and> bm_nbits b = nbits \<and> free_bits b = {..<nbits}"
  by (rule bitmap_create_ok [OF assms])

text \<open>C33.
  The bitmap is a pool of free indices: \<open>bitmap_alloc\<close> takes the least free index or reports
  \<open>-E_NO_MEM\<close> on an empty pool; \<open>bitmap_free\<close> gives an index back, and stops on one that is free
  already or out of range; \<open>bitmap_test\<close> says whether an index is free.\<close>
theorem bitmap_pool:
  assumes "bitmap_ok b"
  shows "(if free_bits b = {} then bitmap_alloc b = Some (b, Inl (- E_NO_MEM))
      else \<exists>b'. bitmap_alloc b = Some (b', Inr (Min (free_bits b))) \<and> bitmap_ok b' \<and> free_bits b' = free_bits b - {Min (free_bits b)}) \<and>
    (if i < bm_nbits b \<and> i \<notin> free_bits b
     then \<exists>b'. bitmap_free b i = Some b' \<and> bitmap_ok b' \<and> free_bits b' = insert i (free_bits b)
     else bitmap_free b i = None) \<and>
    bitmap_test b i = (if i < bm_nbits b then Some (i \<in> free_bits b) else None)"
proof (intro conjI)
  show "if free_bits b = {} then bitmap_alloc b = Some (b, Inl (- E_NO_MEM))
      else \<exists>b'. bitmap_alloc b = Some (b', Inr (Min (free_bits b))) \<and> bitmap_ok b' \<and> free_bits b' = free_bits b - {Min (free_bits b)}"
    using bm.alloc_full [OF assms] bm.alloc_least [OF assms] by meson
  show "if i < bm_nbits b \<and> i \<notin> free_bits b
     then \<exists>b'. bitmap_free b i = Some b' \<and> bitmap_ok b' \<and> free_bits b' = insert i (free_bits b)
     else bitmap_free b i = None"
    using bm.release_used [OF assms, of i] bm.release_bad [OF assms, of i] by meson
qed (rule bm.test_free [OF assms])

theorem bitmap_create_free_witness:
  "\<exists>b. bitmap_create True True 40 = Some (Some b) \<and> free_bits b = {..<40}"
  using bitmap_create_free [of 40] by auto

theorem bitmap_pool_witness:
  "\<exists>b b'. bitmap_create True True 40 = Some (Some b) \<and> bitmap_alloc b = Some (b', Inr 0) \<and> bitmap_free b 7 = None"
proof -
  obtain b where b: "bitmap_create True True 40 = Some (Some b)" "bitmap_ok b" "bm_nbits b = 40" "free_bits b = {..<40}"
    using bitmap_create_ok [of 40] by auto
  have "Min (free_bits b) = 0" unfolding b(4) by (intro Min_eqI) auto
  moreover have m: "7 \<in> free_bits b" unfolding b(4) by simp
  moreover from m have "free_bits b \<noteq> {}" by blast
  ultimately show ?thesis using bitmap_pool [OF b(2), of 7] b(1) by auto
qed

end
