(* ===== verification/Disk.thy ===== *)
theory Disk
  imports Kernel_Prelude
begin

text \<open>
  The disk of lab 8 and the contract of a block device.  A buffer in memory is a list of bytes;
  an operation that fills a buffer returns it.  \<open>dev_ops\<close> is \<open>struct device\<close> of \<open>fs/devs/dev.h\<close>;
  the ramdisk (\<open>driver/ramdisk.c\<close>, \<open>driver/ide.c\<close>) and the device \<open>disk0\<close> (\<open>fs/devs/dev_disk0.c\<close>)
  are one instance.  The locale \<open>block_device\<close> says what a file system relies on: one block is
  read or written at a time, and the other blocks keep their contents.
\<close>

section \<open>Devices\<close>

type_synonym byte = "8 word"

record 'd dev_ops =
  d_blocks :: nat
  d_blocksize :: nat
  d_io :: "bool \<Rightarrow> int \<Rightarrow> byte list \<Rightarrow> 'd \<Rightarrow> ('d \<times> byte list \<times> int) option"

definition BLKSIZE :: nat where "BLKSIZE = 4096"

section \<open>The ramdisk\<close>

text \<open>\<open>rd_size\<close> counts sectors; \<open>disk0_buffer\<close> is the buffer all transfers go through.\<close>

record ramdisk =
  rd_valid :: bool
  rd_size :: nat
  rd_bytes :: "nat \<Rightarrow> byte"
  disk0_buffer :: "byte list"

definition SECTSIZE :: nat where "SECTSIZE = 512"
definition MAX_NSECS :: nat where "MAX_NSECS = 128"
definition MAX_DISK_NSECS :: nat where "MAX_DISK_NSECS = 0x10000000"
definition DISK0_BLK_NSECT :: nat where "DISK0_BLK_NSECT = BLKSIZE div SECTSIZE"
definition DISK0_BUFSIZE :: nat where "DISK0_BUFSIZE = 4 * BLKSIZE"

text \<open>\<open>memcpy\<close> of \<open>xs\<close> to the front of a buffer.\<close>

definition overlay :: "byte list \<Rightarrow> byte list \<Rightarrow> byte list" where
  "overlay xs buf = xs @ drop (length xs) buf"

definition bytes_at :: "nat \<Rightarrow> nat \<Rightarrow> ramdisk \<Rightarrow> byte list" where
  "bytes_at a n d = map (rd_bytes d) [a..<a + n]"

definition put_bytes :: "nat \<Rightarrow> byte list \<Rightarrow> ramdisk \<Rightarrow> ramdisk" where
  "put_bytes a xs d =
    d\<lparr>rd_bytes := (\<lambda>i. if a \<le> i \<and> i < a + length xs then xs ! (i - a) else rd_bytes d i)\<rparr>"

text \<open>The test \<open>nsecs < 0\<close> is never true of a \<open>size_t\<close>.\<close>

definition ramdisk_read :: "nat \<Rightarrow> nat \<Rightarrow> ramdisk \<Rightarrow> ramdisk \<times> int" where
  "ramdisk_read secno nsecs d =
    (let nsecs = min nsecs (u64 (rd_size d + 2 ^ 64 - secno))
     in (d\<lparr>disk0_buffer := overlay (bytes_at (secno * SECTSIZE) (nsecs * SECTSIZE) d) (disk0_buffer d)\<rparr>, 0))"

definition ramdisk_write :: "nat \<Rightarrow> nat \<Rightarrow> ramdisk \<Rightarrow> ramdisk \<times> int" where
  "ramdisk_write secno nsecs d =
    (let nsecs = min nsecs (u64 (rd_size d + 2 ^ 64 - secno))
     in (put_bytes (secno * SECTSIZE) (take (nsecs * SECTSIZE) (disk0_buffer d)) d, 0))"

definition ide_read_secs :: "nat \<Rightarrow> nat \<Rightarrow> ramdisk \<Rightarrow> (ramdisk \<times> int) option" where
  "ide_read_secs secno nsecs d = do {
     assert_k (nsecs \<le> MAX_NSECS \<and> rd_valid d);
     assert_k (secno < MAX_DISK_NSECS \<and> secno + nsecs \<le> MAX_DISK_NSECS);
     Some (ramdisk_read secno nsecs d) }"

definition ide_write_secs :: "nat \<Rightarrow> nat \<Rightarrow> ramdisk \<Rightarrow> (ramdisk \<times> int) option" where
  "ide_write_secs secno nsecs d = do {
     assert_k (nsecs \<le> MAX_NSECS \<and> rd_valid d);
     assert_k (secno < MAX_DISK_NSECS \<and> secno + nsecs \<le> MAX_DISK_NSECS);
     Some (ramdisk_write secno nsecs d) }"

section \<open>The device disk0\<close>

definition disk0_read_blks_nolock :: "nat \<Rightarrow> nat \<Rightarrow> ramdisk \<Rightarrow> ramdisk option" where
  "disk0_read_blks_nolock blkno nblks d = do {
     (d, ret) \<leftarrow> ide_read_secs (u32 (blkno * DISK0_BLK_NSECT)) (u32 (nblks * DISK0_BLK_NSECT)) d;
     assert_k (ret = 0);
     Some d }"

definition disk0_write_blks_nolock :: "nat \<Rightarrow> nat \<Rightarrow> ramdisk \<Rightarrow> ramdisk option" where
  "disk0_write_blks_nolock blkno nblks d = do {
     (d, ret) \<leftarrow> ide_write_secs (u32 (blkno * DISK0_BLK_NSECT)) (u32 (nblks * DISK0_BLK_NSECT)) d;
     assert_k (ret = 0);
     Some d }"

text \<open>The two branches of the transfer loop of \<open>disk0_io\<close>.  \<open>buf\<close> is what is left of the memory
  the \<open>iobuf\<close> describes, \<open>iobuf_move\<close> copies its front.\<close>

function disk0_write_loop :: "nat \<Rightarrow> byte list \<Rightarrow> ramdisk \<Rightarrow> ramdisk option" where
  "disk0_write_loop blkno buf d =
    (if length buf = 0 then Some d
     else do {
       let copied = min (length buf) DISK0_BUFSIZE;
       let d = d\<lparr>disk0_buffer := overlay (take copied buf) (disk0_buffer d)\<rparr>;
       assert_k (copied \<noteq> 0 \<and> copied mod BLKSIZE = 0);
       let nblks = copied div BLKSIZE;
       d \<leftarrow> disk0_write_blks_nolock blkno nblks d;
       disk0_write_loop (u32 (blkno + nblks)) (drop copied buf) d })"
  by pat_completeness auto
termination by (relation "measure (\<lambda>(_, buf, _). length buf)") (auto simp: DISK0_BUFSIZE_def BLKSIZE_def)

function disk0_read_loop :: "nat \<Rightarrow> nat \<Rightarrow> ramdisk \<Rightarrow> (ramdisk \<times> byte list) option" where
  "disk0_read_loop blkno resid d =
    (if resid = 0 then Some (d, [])
     else do {
       let alen = min resid DISK0_BUFSIZE;
       let nblks = alen div BLKSIZE;
       d \<leftarrow> disk0_read_blks_nolock blkno nblks d;
       assert_k (alen mod BLKSIZE = 0);
       (d', xs) \<leftarrow> disk0_read_loop (u32 (blkno + nblks)) (resid - alen) d;
       Some (d', take alen (disk0_buffer d) @ xs) })"
  by pat_completeness auto
termination by (relation "measure (\<lambda>(_, resid, _). resid)") (auto simp: DISK0_BUFSIZE_def BLKSIZE_def)

definition disk0_blocks :: "ramdisk \<Rightarrow> nat" where
  "disk0_blocks d = rd_size d div DISK0_BLK_NSECT"

definition disk0_io :: "nat \<Rightarrow> bool \<Rightarrow> int \<Rightarrow> byte list \<Rightarrow> ramdisk \<Rightarrow> (ramdisk \<times> byte list \<times> int) option" where
  "disk0_io nr write offset buf d =
    (let blkno = nat ((offset div int BLKSIZE) mod 2 ^ 32);
         nblks = u32 (length buf div BLKSIZE)
     in if offset mod int BLKSIZE \<noteq> 0 \<or> length buf mod BLKSIZE \<noteq> 0 then Some (d, buf, - E_INVAL)
        else if nr < u32 (blkno + nblks) then Some (d, buf, - E_INVAL)
        else if nblks = 0 then Some (d, buf, 0)
        else if write then do { d \<leftarrow> disk0_write_loop blkno buf d; Some (d, buf, 0) }
        else do { (d, xs) \<leftarrow> disk0_read_loop blkno (length buf) d; Some (d, xs, 0) })"

text \<open>\<open>disk0_device_init\<close>: the number of blocks is taken from the drive once.\<close>

definition disk0 :: "nat \<Rightarrow> ramdisk dev_ops" where
  "disk0 nr = \<lparr>d_blocks = nr, d_blocksize = BLKSIZE, d_io = disk0_io nr\<rparr>"

definition disk0_device_init :: "ramdisk \<Rightarrow> ramdisk dev_ops option" where
  "disk0_device_init d = do { assert_k (rd_valid d); Some (disk0 (disk0_blocks d)) }"

section \<open>Whole transfers\<close>

text \<open>A drive of fewer than \<open>2 ^ 23\<close> sectors, as \<open>ramdisk_init\<close> makes it: its size in bytes is an
  \<open>unsigned int\<close>.\<close>

definition drive_ok :: "ramdisk \<Rightarrow> bool" where
  "drive_ok d \<longleftrightarrow> rd_valid d \<and> rd_size d < 2 ^ 23 \<and> length (disk0_buffer d) = DISK0_BUFSIZE"

lemma length_bytes_at [simp]: "length (bytes_at a n d) = n"
  by (simp add: bytes_at_def)

lemma bytes_at_add: "bytes_at a (m + n) d = bytes_at a m d @ bytes_at (a + m) n d"
  unfolding bytes_at_def map_append [symmetric] using upt_add_eq_append [of a "a + m" n] by (simp add: add.assoc)

lemma bytes_at_cong: "rd_bytes d = rd_bytes d' \<Longrightarrow> bytes_at a n d = bytes_at a n d'"
  by (simp add: bytes_at_def)

lemma put_bytes_simps [simp]:
  "rd_valid (put_bytes a xs d) = rd_valid d" "rd_size (put_bytes a xs d) = rd_size d"
  "disk0_buffer (put_bytes a xs d) = disk0_buffer d"
  by (simp_all add: put_bytes_def)

lemma u64_sub: "x \<le> r \<Longrightarrow> r < 2 ^ 64 \<Longrightarrow> u64 (r + 2 ^ 64 - x) = r - x"
proof -
  assume "x \<le> r" "r < 2 ^ 64"
  moreover from this have "r + 2 ^ 64 - x = (r - x) + 2 ^ 64" by simp
  ultimately show ?thesis by (simp only: u64_def mod_add_self2) simp
qed

lemma sectors:
  assumes "drive_ok d" and "blkno + nblks \<le> disk0_blocks d" and "nblks \<le> 4"
  shows "min (nblks * 8) (u64 (rd_size d + 2 ^ 64 - blkno * 8)) = nblks * 8" "u32 (blkno * 8) = blkno * 8"
    "u32 (nblks * 8) = nblks * 8" "nblks * 8 \<le> MAX_NSECS" "blkno * 8 < MAX_DISK_NSECS \<and> blkno * 8 + nblks * 8 \<le> MAX_DISK_NSECS"
proof -
  have b: "blkno * 8 + nblks * 8 \<le> rd_size d" "rd_size d < 2 ^ 23"
    using assms(1,2) by (simp_all add: disk0_blocks_def drive_ok_def DISK0_BLK_NSECT_def BLKSIZE_def SECTSIZE_def)
  then have "u64 (rd_size d + 2 ^ 64 - blkno * 8) = rd_size d - blkno * 8" by (intro u64_sub) simp_all
  then show "min (nblks * 8) (u64 (rd_size d + 2 ^ 64 - blkno * 8)) = nblks * 8" using b(1) by simp
  show "u32 (blkno * 8) = blkno * 8" "u32 (nblks * 8) = nblks * 8" "nblks * 8 \<le> MAX_NSECS"
    "blkno * 8 < MAX_DISK_NSECS \<and> blkno * 8 + nblks * 8 \<le> MAX_DISK_NSECS"
    using b assms(3) by (simp_all add: u32_def MAX_NSECS_def MAX_DISK_NSECS_def)
qed

lemma blocks_small: "drive_ok d \<Longrightarrow> disk0_blocks d < 2 ^ 20"
  by (simp add: drive_ok_def disk0_blocks_def DISK0_BLK_NSECT_def BLKSIZE_def SECTSIZE_def less_mult_imp_div_less)

lemma sects: "DISK0_BLK_NSECT = 8" "k * 8 * SECTSIZE = k * BLKSIZE"
  by (simp_all add: DISK0_BLK_NSECT_def BLKSIZE_def SECTSIZE_def)

lemma read_blks:
  assumes "drive_ok d" and "blkno + nblks \<le> disk0_blocks d" and "nblks \<le> 4"
  shows "disk0_read_blks_nolock blkno nblks d
    = Some (d\<lparr>disk0_buffer := overlay (bytes_at (blkno * BLKSIZE) (nblks * BLKSIZE) d) (disk0_buffer d)\<rparr>)"
  using assms(1) sectors [OF assms]
  by (simp add: disk0_read_blks_nolock_def ide_read_secs_def ramdisk_read_def drive_ok_def sects)

lemma write_blks:
  assumes "drive_ok d" and "blkno + nblks \<le> disk0_blocks d" and "nblks \<le> 4"
  shows "disk0_write_blks_nolock blkno nblks d
    = Some (put_bytes (blkno * BLKSIZE) (take (nblks * BLKSIZE) (disk0_buffer d)) d)"
  using assms(1) sectors [OF assms]
  by (simp add: disk0_write_blks_nolock_def ide_write_secs_def ramdisk_write_def drive_ok_def sects)

declare disk0_read_loop.simps [simp del] disk0_write_loop.simps [simp del]

lemma overlay_props: "length xs \<le> length buf \<Longrightarrow> length (overlay xs buf) = length buf" "take (length xs) (overlay xs buf) = xs"
  by (simp_all add: overlay_def)

lemma read_loop_ok:
  assumes "drive_ok d" and "blkno + k \<le> disk0_blocks d"
  shows "\<exists>d'. disk0_read_loop blkno (k * BLKSIZE) d = Some (d', bytes_at (blkno * BLKSIZE) (k * BLKSIZE) d) \<and>
    drive_ok d' \<and> rd_bytes d' = rd_bytes d \<and> rd_size d' = rd_size d"
  using assms
proof (induction k arbitrary: blkno d rule: less_induct)
  case (less k)
  show ?case
  proof (cases "k = 0")
    case True
    then show ?thesis using less.prems(1) by (subst disk0_read_loop.simps) (simp add: bytes_at_def)
  next
    case False
    define n where "n = min k 4"
    have n: "0 < n" "n \<le> k" "n \<le> 4" "min (k * BLKSIZE) DISK0_BUFSIZE = n * BLKSIZE" "k * BLKSIZE - n * BLKSIZE = (k - n) * BLKSIZE"
      using False by (auto simp: n_def DISK0_BUFSIZE_def BLKSIZE_def min_def)
    let ?xs = "bytes_at (blkno * BLKSIZE) (n * BLKSIZE) d"
    define d1 where "d1 = d\<lparr>disk0_buffer := overlay ?xs (disk0_buffer d)\<rparr>"
    have r: "disk0_read_blks_nolock blkno n d = Some d1"
      unfolding d1_def by (rule read_blks [OF less.prems(1) _ n(3)]) (use less.prems(2) n(2) in simp)
    have d1: "drive_ok d1" "rd_bytes d1 = rd_bytes d" "rd_size d1 = rd_size d" "disk0_blocks d1 = disk0_blocks d"
      "take (n * BLKSIZE) (disk0_buffer d1) = ?xs"
      using less.prems(1) n(3) overlay_props [of ?xs "disk0_buffer d"]
      by (auto simp: d1_def drive_ok_def disk0_blocks_def DISK0_BUFSIZE_def BLKSIZE_def)
    have "blkno + n < 2 ^ 32"
      using blocks_small [OF less.prems(1)] less.prems(2) n(2) by simp
    then have u: "u32 (blkno + n) = blkno + n" by (simp add: u32_def)
    obtain d' where d': "disk0_read_loop (blkno + n) ((k - n) * BLKSIZE) d1
        = Some (d', bytes_at ((blkno + n) * BLKSIZE) ((k - n) * BLKSIZE) d1)"
      "drive_ok d'" "rd_bytes d' = rd_bytes d1" "rd_size d' = rd_size d1"
      using less.IH [of "k - n" d1 "blkno + n"] n(1,2) d1(1,4) less.prems(2) by auto
    have ap: "?xs @ bytes_at ((blkno + n) * BLKSIZE) ((k - n) * BLKSIZE) d1 = bytes_at (blkno * BLKSIZE) (k * BLKSIZE) d"
      using bytes_at_add [of "blkno * BLKSIZE" "n * BLKSIZE" "(k - n) * BLKSIZE" d] n(2) bytes_at_cong [OF d1(2)]
      by (simp add: add_mult_distrib [symmetric])
    have "k * BLKSIZE \<noteq> 0" "n * BLKSIZE div BLKSIZE = n" "n * BLKSIZE mod BLKSIZE = 0" using False by (simp_all add: BLKSIZE_def)
    then have "disk0_read_loop blkno (k * BLKSIZE) d = Some (d', bytes_at (blkno * BLKSIZE) (k * BLKSIZE) d)"
      unfolding ap [symmetric] by (subst disk0_read_loop.simps) (simp add: n(4,5) r u d' d1(5))
    then show ?thesis using d' d1 by simp
  qed
qed

lemma put_bytes_append:
  "rd_bytes (put_bytes (a + length xs) ys d) = rd_bytes (put_bytes a (xs @ ys) d0)"
  if "rd_bytes d = rd_bytes (put_bytes a xs d0)"
  using that by (auto simp: put_bytes_def nth_append fun_eq_iff)

lemma write_loop_ok:
  assumes "drive_ok d" and "blkno + k \<le> disk0_blocks d" and "length buf = k * BLKSIZE"
  shows "\<exists>d'. disk0_write_loop blkno buf d = Some d' \<and> drive_ok d' \<and> rd_size d' = rd_size d \<and>
    rd_bytes d' = rd_bytes (put_bytes (blkno * BLKSIZE) buf d)"
  using assms
proof (induction k arbitrary: blkno d buf rule: less_induct)
  case (less k)
  show ?case
  proof (cases "k = 0")
    case True
    then show ?thesis using less.prems by (subst disk0_write_loop.simps) (auto simp: put_bytes_def fun_eq_iff)
  next
    case False
    define n where "n = min k 4"
    have n: "0 < n" "n \<le> k" "n \<le> 4" "min (length buf) DISK0_BUFSIZE = n * BLKSIZE"
      using False less.prems(3) by (auto simp: n_def DISK0_BUFSIZE_def BLKSIZE_def min_def)
    define xs ys where "xs = take (n * BLKSIZE) buf" and "ys = drop (n * BLKSIZE) buf"
    have xy: "buf = xs @ ys" "length xs = n * BLKSIZE" "length ys = (k - n) * BLKSIZE"
      using n(2) less.prems(3) by (simp_all add: xs_def ys_def diff_mult_distrib)
    define d1 where "d1 = d\<lparr>disk0_buffer := overlay xs (disk0_buffer d)\<rparr>"
    have d1: "drive_ok d1" "rd_bytes d1 = rd_bytes d" "rd_size d1 = rd_size d" "disk0_blocks d1 = disk0_blocks d"
      "take (n * BLKSIZE) (disk0_buffer d1) = xs"
      using less.prems(1) n(3) xy(2) overlay_props [of xs "disk0_buffer d"]
      by (auto simp: d1_def drive_ok_def disk0_blocks_def DISK0_BUFSIZE_def BLKSIZE_def)
    define d2 where "d2 = put_bytes (blkno * BLKSIZE) xs d1"
    have w: "disk0_write_blks_nolock blkno n d1 = Some d2"
      using write_blks [OF d1(1) _ n(3), of blkno] less.prems(2) n(2) d1(4,5) by (simp add: d2_def)
    have d2: "drive_ok d2" "rd_size d2 = rd_size d" "disk0_blocks d2 = disk0_blocks d"
      using d1 by (simp_all add: d2_def drive_ok_def disk0_blocks_def)
    have u: "u32 (blkno + n) = blkno + n"
      using blocks_small [OF less.prems(1)] less.prems(2) n(2) by (simp add: u32_def)
    obtain d' where d': "disk0_write_loop (blkno + n) ys d2 = Some d'" "drive_ok d'" "rd_size d' = rd_size d2"
      "rd_bytes d' = rd_bytes (put_bytes ((blkno + n) * BLKSIZE) ys d2)"
      using less.IH [of "k - n" d2 "blkno + n" ys] n(1,2) d2 less.prems(2) xy(3) by auto
    have "rd_bytes d2 = rd_bytes (put_bytes (blkno * BLKSIZE) xs d)" using d1(2) by (simp add: d2_def put_bytes_def fun_eq_iff)
    from put_bytes_append [OF this, of ys] have rb: "rd_bytes d' = rd_bytes (put_bytes (blkno * BLKSIZE) buf d)"
      using d'(4) xy by (simp add: add_mult_distrib)
    have "length buf \<noteq> 0" "n * BLKSIZE div BLKSIZE = n" "n * BLKSIZE mod BLKSIZE = 0" "n * BLKSIZE \<noteq> 0"
      using False less.prems(3) n(1) by (simp_all add: BLKSIZE_def)
    then have "disk0_write_loop blkno buf d = Some d'"
      by (subst disk0_write_loop.simps) (simp add: n(4) w u d'(1) d1_def [symmetric] xs_def [symmetric] ys_def [symmetric])
    then show ?thesis using d' d2 rb by simp
  qed
qed

lemma disk0_io_unfold:
  assumes "length buf = k * BLKSIZE" and "blkno + k < 2 ^ 32"
  shows "disk0_io nr wr (int (blkno * BLKSIZE)) buf d =
    (if nr < blkno + k then Some (d, buf, - E_INVAL)
     else if k = 0 then Some (d, buf, 0)
     else if wr then do { d \<leftarrow> disk0_write_loop blkno buf d; Some (d, buf, 0) }
     else do { (d, xs) \<leftarrow> disk0_read_loop blkno (k * BLKSIZE) d; Some (d, xs, 0) })"
proof -
  have "int (blkno * BLKSIZE) div int BLKSIZE = int blkno" "int (blkno * BLKSIZE) mod int BLKSIZE = 0"
    by (simp_all add: BLKSIZE_def)
  moreover have "nat (int blkno mod 2 ^ 32) = blkno" using assms(2) by simp
  moreover have "length buf div BLKSIZE = k" "length buf mod BLKSIZE = 0" using assms(1) by (simp_all add: BLKSIZE_def)
  moreover have "u32 k = k" "u32 (blkno + k) = blkno + k" using assms(2) by (simp_all add: u32_def)
  ultimately show ?thesis using assms(1) unfolding disk0_io_def Let_def by (simp only: simp_thms if_False)
qed

lemma disk0_io_read:
  assumes ok: "drive_ok d" and "length buf = k * BLKSIZE" and "blkno + k \<le> disk0_blocks d"
  shows "\<exists>d'. disk0_io (disk0_blocks d) False (int (blkno * BLKSIZE)) buf d
    = Some (d', bytes_at (blkno * BLKSIZE) (k * BLKSIZE) d, 0) \<and> drive_ok d' \<and> rd_bytes d' = rd_bytes d \<and> rd_size d' = rd_size d"
proof -
  have "blkno + k < 2 ^ 32" using blocks_small [OF ok] assms(3) by simp
  note u = disk0_io_unfold [OF assms(2) this, of "disk0_blocks d" False d]
  show ?thesis unfolding u using read_loop_ok [OF ok assms(3)] assms(2,3) ok
    by (cases "k = 0") (auto simp: bytes_at_def)
qed

lemma disk0_io_write:
  assumes ok: "drive_ok d" and "length buf = k * BLKSIZE" and "blkno + k \<le> disk0_blocks d"
  shows "\<exists>d'. disk0_io (disk0_blocks d) True (int (blkno * BLKSIZE)) buf d = Some (d', buf, 0) \<and> drive_ok d' \<and>
    rd_bytes d' = rd_bytes (put_bytes (blkno * BLKSIZE) buf d) \<and> rd_size d' = rd_size d"
proof -
  have "blkno + k < 2 ^ 32" using blocks_small [OF ok] assms(3) by simp
  note u = disk0_io_unfold [OF assms(2) this, of "disk0_blocks d" True d]
  show ?thesis unfolding u using write_loop_ok [OF ok assms(3,2)] assms(2,3) ok
    by (cases "k = 0") (auto simp: put_bytes_def fun_eq_iff)
qed

text \<open>A request of \<open>k\<close> whole blocks inside the drive, split by \<open>disk0_io\<close> into pieces of four blocks,
  is carried out completely: reading fills the memory with exactly these bytes and leaves the
  drive alone, writing replaces exactly these bytes.  A request that is not aligned or ends behind
  the drive is refused with \<open>-E_INVAL\<close> and changes nothing.\<close>
theorem disk0_io_whole:
  assumes "drive_ok d" and "length buf = k * BLKSIZE"
  shows "(blkno + k \<le> disk0_blocks d \<longrightarrow>
      (\<exists>d'. disk0_io (disk0_blocks d) False (int (blkno * BLKSIZE)) buf d
          = Some (d', bytes_at (blkno * BLKSIZE) (k * BLKSIZE) d, 0) \<and> drive_ok d' \<and> rd_bytes d' = rd_bytes d) \<and>
      (\<exists>d'. disk0_io (disk0_blocks d) True (int (blkno * BLKSIZE)) buf d = Some (d', buf, 0) \<and> drive_ok d' \<and>
          rd_bytes d' = rd_bytes (put_bytes (blkno * BLKSIZE) buf d))) \<and>
    (disk0_blocks d < blkno + k \<longrightarrow> blkno + k < 2 ^ 32 \<longrightarrow> disk0_io (disk0_blocks d) wr (int (blkno * BLKSIZE)) buf d = Some (d, buf, - E_INVAL)) \<and>
    (off mod int BLKSIZE \<noteq> 0 \<longrightarrow> disk0_io (disk0_blocks d) wr off buf d = Some (d, buf, - E_INVAL))"
proof (intro conjI impI)
  assume le: "blkno + k \<le> disk0_blocks d"
  show "\<exists>d'. disk0_io (disk0_blocks d) False (int (blkno * BLKSIZE)) buf d
      = Some (d', bytes_at (blkno * BLKSIZE) (k * BLKSIZE) d, 0) \<and> drive_ok d' \<and> rd_bytes d' = rd_bytes d"
    using disk0_io_read [OF assms le] by blast
  show "\<exists>d'. disk0_io (disk0_blocks d) True (int (blkno * BLKSIZE)) buf d = Some (d', buf, 0) \<and> drive_ok d' \<and>
      rd_bytes d' = rd_bytes (put_bytes (blkno * BLKSIZE) buf d)"
    using disk0_io_write [OF assms le] by blast
next
  assume "disk0_blocks d < blkno + k" "blkno + k < 2 ^ 32"
  then show "disk0_io (disk0_blocks d) wr (int (blkno * BLKSIZE)) buf d = Some (d, buf, - E_INVAL)"
    using disk0_io_unfold [OF assms(2)] by simp
next
  assume "off mod int BLKSIZE \<noteq> 0"
  then show "disk0_io (disk0_blocks d) wr off buf d = Some (d, buf, - E_INVAL)" by (simp add: disk0_io_def)
qed

section \<open>The contract of a block device\<close>

text \<open>A device whose number of blocks is fixed, used one block at a time: \<open>block d b\<close> is the
  contents of block \<open>b\<close>.\<close>

locale block_device =
  fixes D :: "'d dev_ops" and ok :: "'d \<Rightarrow> bool" and block :: "'d \<Rightarrow> nat \<Rightarrow> byte list"
  assumes blocks_bound: "ok d \<Longrightarrow> d_blocks D < 2 ^ 20"
    and block_length: "ok d \<Longrightarrow> length (block d b) = BLKSIZE"
    and read_block: "ok d \<Longrightarrow> b < d_blocks D \<Longrightarrow> length buf = BLKSIZE \<Longrightarrow>
      \<exists>d'. d_io D False (int (b * BLKSIZE)) buf d = Some (d', block d b, 0) \<and> ok d' \<and> block d' = block d"
    and write_block: "ok d \<Longrightarrow> b < d_blocks D \<Longrightarrow> length buf = BLKSIZE \<Longrightarrow>
      \<exists>d'. d_io D True (int (b * BLKSIZE)) buf d = Some (d', buf, 0) \<and> ok d' \<and> block d' = (block d)(b := buf)"
begin

lemma write_read:
  assumes "ok d" and "b < d_blocks D" "c < d_blocks D" and "length buf = BLKSIZE" "length buf2 = BLKSIZE"
    and "d_io D True (int (b * BLKSIZE)) buf d = Some (d1, r1, e1)"
  shows "\<exists>d2. d_io D False (int (c * BLKSIZE)) buf2 d1 = Some (d2, if c = b then buf else block d c, 0) \<and> ok d2"
proof -
  have "ok d1" "block d1 = (block d)(b := buf)" using write_block [OF assms(1,2,4)] assms(6) by auto
  then show ?thesis using read_block [of d1 c buf2] assms(3,5) by auto
qed

end

definition disk0_block :: "ramdisk \<Rightarrow> nat \<Rightarrow> byte list" where
  "disk0_block d b = bytes_at (b * BLKSIZE) BLKSIZE d"

lemma disk0_block_put:
  "length buf = BLKSIZE \<Longrightarrow> rd_bytes d' = rd_bytes (put_bytes (b * BLKSIZE) buf d) \<Longrightarrow>
    disk0_block d' = (disk0_block d)(b := buf)"
proof
  fix c
  assume len: "length buf = BLKSIZE" and rb: "rd_bytes d' = rd_bytes (put_bytes (b * BLKSIZE) buf d)"
  have out: "\<not> (b * BLKSIZE \<le> c * BLKSIZE + i \<and> c * BLKSIZE + i < b * BLKSIZE + BLKSIZE)" if "c \<noteq> b" "i < BLKSIZE" for i
  proof
    assume "b * BLKSIZE \<le> c * BLKSIZE + i \<and> c * BLKSIZE + i < b * BLKSIZE + BLKSIZE"
    then have "(c * BLKSIZE + i) div BLKSIZE = b" by (intro div_nat_eqI) (simp_all add: mult.commute)
    then show False using that by simp
  qed
  show "disk0_block d' c = ((disk0_block d)(b := buf)) c"
    unfolding disk0_block_def bytes_at_def rb
    using len out by (intro nth_equalityI) (auto simp: put_bytes_def)
qed

interpretation d0: block_device "disk0 nr" "\<lambda>d. drive_ok d \<and> disk0_blocks d = nr" disk0_block
  for nr
proof
  fix d b buf
  assume ok: "drive_ok d \<and> disk0_blocks d = nr"
  show "d_blocks (disk0 nr) < 2 ^ 20" using ok blocks_small by (auto simp: disk0_def)
  show "length (disk0_block d b) = BLKSIZE" by (simp add: disk0_block_def)
  assume b: "b < d_blocks (disk0 nr)" and len: "length (buf :: byte list) = BLKSIZE"
  have le: "b + 1 \<le> disk0_blocks d" and l1: "length buf = 1 * BLKSIZE" using b ok len by (simp_all add: disk0_def)
  obtain d1 where d1: "disk0_io (disk0_blocks d) False (int (b * BLKSIZE)) buf d = Some (d1, bytes_at (b * BLKSIZE) (1 * BLKSIZE) d, 0)"
    "drive_ok d1" "rd_bytes d1 = rd_bytes d" "rd_size d1 = rd_size d"
    using disk0_io_read [OF _ l1 le] ok by blast
  have "disk0_block d1 = disk0_block d" using bytes_at_cong [OF d1(3)] by (simp add: disk0_block_def fun_eq_iff)
  then show "\<exists>d'. d_io (disk0 nr) False (int (b * BLKSIZE)) buf d = Some (d', disk0_block d b, 0) \<and>
      (drive_ok d' \<and> disk0_blocks d' = nr) \<and> disk0_block d' = disk0_block d"
    using d1 ok by (auto simp: disk0_def disk0_block_def disk0_blocks_def)
  obtain d2 where d2: "disk0_io (disk0_blocks d) True (int (b * BLKSIZE)) buf d = Some (d2, buf, 0)" "drive_ok d2"
    "rd_bytes d2 = rd_bytes (put_bytes (b * BLKSIZE) buf d)" "rd_size d2 = rd_size d"
    using disk0_io_write [OF _ l1 le] ok by blast
  then show "\<exists>d'. d_io (disk0 nr) True (int (b * BLKSIZE)) buf d = Some (d', buf, 0) \<and>
      (drive_ok d' \<and> disk0_blocks d' = nr) \<and> disk0_block d' = (disk0_block d)(b := buf)"
    using disk0_block_put [OF len d2(3)] ok by (auto simp: disk0_def disk0_blocks_def)
qed

section \<open>The properties at work\<close>

definition drive_sample :: ramdisk where
  "drive_sample = \<lparr>rd_valid = True, rd_size = 128, rd_bytes = (\<lambda>i. of_nat i), disk0_buffer = replicate 16384 0\<rparr>"

lemma drive_sample_ok: "drive_ok drive_sample" "disk0_blocks drive_sample = 16"
  by (simp_all add: drive_ok_def drive_sample_def disk0_blocks_def DISK0_BUFSIZE_def DISK0_BLK_NSECT_def BLKSIZE_def SECTSIZE_def)

theorem disk0_io_whole_witness:
  "\<exists>d'. disk0_io 16 True (int (3 * BLKSIZE)) (replicate (6 * BLKSIZE) 7) drive_sample = Some (d', replicate (6 * BLKSIZE) 7, 0) \<and>
     rd_bytes d' = rd_bytes (put_bytes (3 * BLKSIZE) (replicate (6 * BLKSIZE) 7) drive_sample)"
  using disk0_io_whole [OF drive_sample_ok(1), of "replicate (6 * BLKSIZE) 7" 6 3] drive_sample_ok(2) by auto

end
