(* ===== verification/Sfs_Blocks.thy ===== *)
theory Sfs_Blocks
  imports Bitmap Disk
begin

text \<open>
  The Simple File System below the level of files: block input and output (\<open>fs/sfs/sfs_io.c\<close>),
  allocation of disk blocks and the block map of an inode (\<open>fs/sfs/sfs_inode.c\<close>).  The device is
  a record of function pointers and an argument of every operation, \<open>D\<close>; the lemmas hold for
  every device that meets the contract \<open>block_device\<close>, \<open>disk0\<close> among them.  Data on the disk are
  bytes, numbers are stored with the low byte first.  An inode in memory is passed to the
  operations and returned updated.
  The semaphores of the file system are left out: one operation runs at a time.

  \<open>fs_ok\<close> is the invariant of the mounted file system and \<open>file_ok\<close> that of the block map of one
  inode; the lemmas give every operation on every branch.
\<close>

section \<open>Data\<close>

fun le :: "nat \<Rightarrow> nat \<Rightarrow> byte list" where
  "le 0 x = []"
| "le (Suc n) x = of_nat x # le n (x div 256)"

fun unle :: "byte list \<Rightarrow> nat" where
  "unle [] = 0"
| "unle (b # bs) = unat b + 256 * unle bs"

record sfs_super =
  su_magic :: nat
  su_blocks :: nat
  su_unused :: nat
  su_info :: "byte list"

record disk_inode =
  di_size :: nat
  di_type :: nat
  di_nlinks :: nat
  di_blocks :: nat
  di_direct :: "nat list"
  di_indirect :: nat

record sfs_inode =
  si_din :: disk_inode
  si_ino :: nat
  si_dirty :: bool
  si_reclaim :: int

record 'd sfs_fs =
  super :: sfs_super
  sfs_dev :: 'd
  freemap :: bitmap
  super_dirty :: bool
  sfs_buffer :: "byte list"

definition SFS_NDIRECT :: nat where "SFS_NDIRECT = 12"
definition SFS_BLKN_SUPER :: nat where "SFS_BLKN_SUPER = 0"
definition SFS_BLKN_FREEMAP :: nat where "SFS_BLKN_FREEMAP = 2"
definition SFS_BLKBITS :: nat where "SFS_BLKBITS = BLKSIZE * 8"
definition SFS_BLK_NENTRY :: nat where "SFS_BLK_NENTRY = BLKSIZE div 4"

definition encode_super :: "sfs_super \<Rightarrow> byte list" where
  "encode_super su = le 4 (su_magic su) @ le 4 (su_blocks su) @ le 4 (su_unused su) @ su_info su"

definition encode_inode :: "disk_inode \<Rightarrow> byte list" where
  "encode_inode di = le 4 (di_size di) @ le 2 (di_type di) @ le 2 (di_nlinks di) @ le 4 (di_blocks di) @
     concat (map (le 4) (di_direct di)) @ le 4 (di_indirect di)"

text \<open>\<open>memcpy\<close> of \<open>xs\<close> into a block at an offset.\<close>

definition patch :: "nat \<Rightarrow> byte list \<Rightarrow> byte list \<Rightarrow> byte list" where
  "patch off xs b = take off b @ xs @ drop (off + length xs) b"

section \<open>Block input and output\<close>

definition sfs_rwblock_nolock :: "'d dev_ops \<Rightarrow> byte list \<Rightarrow> nat \<Rightarrow> bool \<Rightarrow> bool \<Rightarrow> 'd sfs_fs \<Rightarrow>
    ('d sfs_fs \<times> byte list \<times> int) option" where
  "sfs_rwblock_nolock D buf blkno write check s = do {
     assert_k ((blkno \<noteq> 0 \<or> \<not> check) \<and> blkno < su_blocks (super s));
     (d, buf, ret) \<leftarrow> d_io D write (int (u32 (blkno * BLKSIZE))) buf (sfs_dev s);
     Some (s\<lparr>sfs_dev := d\<rparr>, buf, ret) }"

fun sfs_rwblock :: "'d dev_ops \<Rightarrow> byte list \<Rightarrow> nat \<Rightarrow> nat \<Rightarrow> bool \<Rightarrow> 'd sfs_fs \<Rightarrow>
    ('d sfs_fs \<times> byte list \<times> int) option" where
  "sfs_rwblock D buf blkno 0 write s = Some (s, buf, 0)"
| "sfs_rwblock D buf blkno (Suc nblks) write s = do {
     (s, b, ret) \<leftarrow> sfs_rwblock_nolock D (take BLKSIZE buf) blkno write True s;
     if ret \<noteq> 0 then Some (s, b @ drop BLKSIZE buf, ret)
     else do {
       (s, bs, ret) \<leftarrow> sfs_rwblock D (drop BLKSIZE buf) (u32 (blkno + 1)) nblks write s;
       Some (s, b @ bs, ret) } }"

definition sfs_rblock :: "'d dev_ops \<Rightarrow> byte list \<Rightarrow> nat \<Rightarrow> nat \<Rightarrow> 'd sfs_fs \<Rightarrow> ('d sfs_fs \<times> byte list \<times> int) option" where
  "sfs_rblock D buf blkno nblks s = sfs_rwblock D buf blkno nblks False s"

definition sfs_wblock :: "'d dev_ops \<Rightarrow> byte list \<Rightarrow> nat \<Rightarrow> nat \<Rightarrow> 'd sfs_fs \<Rightarrow> ('d sfs_fs \<times> byte list \<times> int) option" where
  "sfs_wblock D buf blkno nblks s = sfs_rwblock D buf blkno nblks True s"

definition sfs_rbuf :: "'d dev_ops \<Rightarrow> nat \<Rightarrow> nat \<Rightarrow> nat \<Rightarrow> 'd sfs_fs \<Rightarrow> ('d sfs_fs \<times> (int + byte list)) option" where
  "sfs_rbuf D len blkno offset s = do {
     assert_k (offset < BLKSIZE \<and> offset + len \<le> BLKSIZE);
     (s, b, ret) \<leftarrow> sfs_rwblock_nolock D (sfs_buffer s) blkno False True s;
     Some (s\<lparr>sfs_buffer := b\<rparr>, if ret = 0 then Inr (take len (drop offset b)) else Inl ret) }"

definition sfs_wbuf :: "'d dev_ops \<Rightarrow> byte list \<Rightarrow> nat \<Rightarrow> nat \<Rightarrow> 'd sfs_fs \<Rightarrow> ('d sfs_fs \<times> int) option" where
  "sfs_wbuf D buf blkno offset s = do {
     assert_k (offset < BLKSIZE \<and> offset + length buf \<le> BLKSIZE);
     (s, b, ret) \<leftarrow> sfs_rwblock_nolock D (sfs_buffer s) blkno False True s;
     let s = s\<lparr>sfs_buffer := b\<rparr>;
     if ret \<noteq> 0 then Some (s, ret)
     else do {
       let s = s\<lparr>sfs_buffer := patch offset buf b\<rparr>;
       (s, b, ret) \<leftarrow> sfs_rwblock_nolock D (sfs_buffer s) blkno True True s;
       Some (s\<lparr>sfs_buffer := b\<rparr>, ret) } }"

definition sfs_sync_super :: "'d dev_ops \<Rightarrow> 'd sfs_fs \<Rightarrow> ('d sfs_fs \<times> int) option" where
  "sfs_sync_super D s = do {
     let s = s\<lparr>sfs_buffer := overlay (encode_super (super s)) (replicate BLKSIZE 0)\<rparr>;
     (s, b, ret) \<leftarrow> sfs_rwblock_nolock D (sfs_buffer s) SFS_BLKN_SUPER True False s;
     Some (s\<lparr>sfs_buffer := b\<rparr>, ret) }"

text \<open>The words of the bitmap as they lie in memory.\<close>

definition map_bytes :: "bitmap \<Rightarrow> byte list" where
  "map_bytes b = concat (map (\<lambda>w. le 4 (unat w)) (bm_map b))"

definition sfs_sync_freemap :: "'d dev_ops \<Rightarrow> 'd sfs_fs \<Rightarrow> ('d sfs_fs \<times> int) option" where
  "sfs_sync_freemap D s = do {
     let nblks = ROUNDUP_DIV (su_blocks (super s)) SFS_BLKBITS;
     (s, _, ret) \<leftarrow> sfs_wblock D (map_bytes (freemap s)) SFS_BLKN_FREEMAP nblks s;
     Some (s, ret) }"

fun sfs_clear_loop :: "'d dev_ops \<Rightarrow> nat \<Rightarrow> nat \<Rightarrow> 'd sfs_fs \<Rightarrow> ('d sfs_fs \<times> int) option" where
  "sfs_clear_loop D blkno 0 s = Some (s, 0)"
| "sfs_clear_loop D blkno (Suc nblks) s = do {
     (s, b, ret) \<leftarrow> sfs_rwblock_nolock D (sfs_buffer s) blkno True True s;
     let s = s\<lparr>sfs_buffer := b\<rparr>;
     if ret \<noteq> 0 then Some (s, ret) else sfs_clear_loop D (u32 (blkno + 1)) nblks s }"

text \<open>For no blocks the result is a variable that was never set.\<close>

definition sfs_clear_block :: "'d dev_ops \<Rightarrow> nat \<Rightarrow> nat \<Rightarrow> 'd sfs_fs \<Rightarrow> ('d sfs_fs \<times> int) option" where
  "sfs_clear_block D blkno nblks s = do {
     assert_k (nblks \<noteq> 0);
     sfs_clear_loop D blkno nblks (s\<lparr>sfs_buffer := replicate BLKSIZE 0\<rparr>) }"

section \<open>Allocation of blocks\<close>

definition sfs_block_inuse :: "nat \<Rightarrow> 'd sfs_fs \<Rightarrow> bool option" where
  "sfs_block_inuse ino s = do {
     assert_k (ino \<noteq> 0 \<and> ino < su_blocks (super s));
     t \<leftarrow> bitmap_test (freemap s) ino;
     Some (\<not> t) }"

definition sfs_block_alloc :: "'d dev_ops \<Rightarrow> 'd sfs_fs \<Rightarrow> ('d sfs_fs \<times> (int + nat)) option" where
  "sfs_block_alloc D s = do {
     (b, r) \<leftarrow> bitmap_alloc (freemap s);
     let s = s\<lparr>freemap := b\<rparr>;
     (case r of
        Inl ret \<Rightarrow> Some (s, Inl ret)
      | Inr ino \<Rightarrow> do {
          assert_k (0 < su_unused (super s));
          let s = s\<lparr>super := (super s)\<lparr>su_unused := su_unused (super s) - 1\<rparr>, super_dirty := True\<rparr>;
          u \<leftarrow> sfs_block_inuse ino s;
          assert_k u;
          (s, ret) \<leftarrow> sfs_clear_block D ino 1 s;
          Some (s, if ret = 0 then Inr ino else Inl ret) }) }"

definition sfs_block_free :: "nat \<Rightarrow> 'd sfs_fs \<Rightarrow> 'd sfs_fs option" where
  "sfs_block_free ino s = do {
     u \<leftarrow> sfs_block_inuse ino s;
     assert_k u;
     b \<leftarrow> bitmap_free (freemap s) ino;
     Some (s\<lparr>freemap := b, super := (super s)\<lparr>su_unused := u32 (su_unused (super s) + 1)\<rparr>, super_dirty := True\<rparr>) }"

section \<open>The block map of an inode\<close>

text \<open>The end of \<open>sfs_bmap_get_sub_nolock\<close>: a new block, recorded in the entry block \<open>ent\<close>; \<open>old\<close>
  is what the caller had as entry block.\<close>

definition bmap_cleanup :: "nat \<Rightarrow> nat \<Rightarrow> int \<Rightarrow> 'd sfs_fs \<Rightarrow> ('d sfs_fs \<times> nat \<times> (int + nat)) option" where
  "bmap_cleanup old ent ret s = do {
     s \<leftarrow> (if ent \<noteq> old then sfs_block_free ent s else Some s);
     Some (s, old, Inl ret) }"

definition bmap_new :: "'d dev_ops \<Rightarrow> nat \<Rightarrow> nat \<Rightarrow> nat \<Rightarrow> 'd sfs_fs \<Rightarrow> ('d sfs_fs \<times> nat \<times> (int + nat)) option" where
  "bmap_new D old ent offset s = do {
     (s, r) \<leftarrow> sfs_block_alloc D s;
     (case r of
        Inl ret \<Rightarrow> bmap_cleanup old ent ret s
      | Inr ino \<Rightarrow> do {
          (s, ret) \<leftarrow> sfs_wbuf D (le 4 ino) ent offset s;
          if ret \<noteq> 0 then do { s \<leftarrow> sfs_block_free ino s; bmap_cleanup old ent ret s }
          else Some (s, ent, Inr ino) }) }"

definition sfs_bmap_get_sub_nolock :: "'d dev_ops \<Rightarrow> nat \<Rightarrow> nat \<Rightarrow> bool \<Rightarrow> 'd sfs_fs \<Rightarrow>
    ('d sfs_fs \<times> nat \<times> (int + nat)) option" where
  "sfs_bmap_get_sub_nolock D ent index create s = do {
     assert_k (index < SFS_BLK_NENTRY);
     let offset = index * 4;
     if ent \<noteq> 0 then do {
       (s, r) \<leftarrow> sfs_rbuf D 4 ent offset s;
       (case r of
          Inl ret \<Rightarrow> Some (s, ent, Inl ret)
        | Inr bs \<Rightarrow> if unle bs \<noteq> 0 \<or> \<not> create then Some (s, ent, Inr (unle bs)) else bmap_new D ent ent offset s) }
     else if \<not> create then Some (s, ent, Inr 0)
     else do {
       (s, r) \<leftarrow> sfs_block_alloc D s;
       (case r of Inl ret \<Rightarrow> Some (s, 0, Inl ret) | Inr ent' \<Rightarrow> bmap_new D 0 ent' offset s) } }"

definition upd_din :: "(disk_inode \<Rightarrow> disk_inode) \<Rightarrow> sfs_inode \<Rightarrow> sfs_inode" where
  "upd_din f sin = sin\<lparr>si_din := f (si_din sin)\<rparr>"

definition bmap_result :: "'d sfs_fs \<Rightarrow> sfs_inode \<Rightarrow> nat \<Rightarrow> ('d sfs_fs \<times> sfs_inode \<times> (int + nat)) option" where
  "bmap_result s sin ino = do {
     (if ino = 0 then Some () else do { u \<leftarrow> sfs_block_inuse ino s; assert_k u });
     Some (s, sin, Inr ino) }"

definition sfs_bmap_get_nolock :: "'d dev_ops \<Rightarrow> sfs_inode \<Rightarrow> nat \<Rightarrow> bool \<Rightarrow> 'd sfs_fs \<Rightarrow>
    ('d sfs_fs \<times> sfs_inode \<times> (int + nat)) option" where
  "sfs_bmap_get_nolock D sin index create s =
    (if index < SFS_NDIRECT then
       (let ino = di_direct (si_din sin) ! index
        in if ino = 0 \<and> create then do {
             (s, r) \<leftarrow> sfs_block_alloc D s;
             (case r of
                Inl ret \<Rightarrow> Some (s, sin, Inl ret)
              | Inr ino \<Rightarrow>
                  bmap_result s ((upd_din (\<lambda>d. d\<lparr>di_direct := (di_direct d)[index := ino]\<rparr>) sin)\<lparr>si_dirty := True\<rparr>) ino) }
           else bmap_result s sin ino)
     else if index - SFS_NDIRECT < SFS_BLK_NENTRY then do {
       (s, ent, r) \<leftarrow> sfs_bmap_get_sub_nolock D (di_indirect (si_din sin)) (index - SFS_NDIRECT) create s;
       (case r of
          Inl ret \<Rightarrow> Some (s, sin, Inl ret)
        | Inr ino \<Rightarrow> do {
            assert_k (ent = di_indirect (si_din sin) \<or> di_indirect (si_din sin) = 0);
            let sin = (if ent \<noteq> di_indirect (si_din sin)
                       then (upd_din (\<lambda>d. d\<lparr>di_indirect := ent\<rparr>) sin)\<lparr>si_dirty := True\<rparr> else sin);
            bmap_result s sin ino }) }
     else None)"

definition sfs_bmap_free_sub_nolock :: "'d dev_ops \<Rightarrow> nat \<Rightarrow> nat \<Rightarrow> 'd sfs_fs \<Rightarrow> ('d sfs_fs \<times> int) option" where
  "sfs_bmap_free_sub_nolock D ent index s = do {
     u \<leftarrow> sfs_block_inuse ent s;
     assert_k (u \<and> index < SFS_BLK_NENTRY);
     let offset = index * 4;
     (s, r) \<leftarrow> sfs_rbuf D 4 ent offset s;
     (case r of
        Inl ret \<Rightarrow> Some (s, ret)
      | Inr bs \<Rightarrow>
          if unle bs \<noteq> 0 then do {
            (s, ret) \<leftarrow> sfs_wbuf D (le 4 0) ent offset s;
            if ret \<noteq> 0 then Some (s, ret)
            else do { s \<leftarrow> sfs_block_free (unle bs) s; Some (s, 0) } }
          else Some (s, 0)) }"

definition sfs_bmap_free_nolock :: "'d dev_ops \<Rightarrow> sfs_inode \<Rightarrow> nat \<Rightarrow> 'd sfs_fs \<Rightarrow> ('d sfs_fs \<times> sfs_inode \<times> int) option" where
  "sfs_bmap_free_nolock D sin index s =
    (if index < SFS_NDIRECT then
       (let ino = di_direct (si_din sin) ! index
        in if ino \<noteq> 0 then do {
             s \<leftarrow> sfs_block_free ino s;
             Some (s, (upd_din (\<lambda>d. d\<lparr>di_direct := (di_direct d)[index := 0]\<rparr>) sin)\<lparr>si_dirty := True\<rparr>, 0) }
           else Some (s, sin, 0))
     else if index - SFS_NDIRECT < SFS_BLK_NENTRY \<and> di_indirect (si_din sin) \<noteq> 0 then do {
       (s, ret) \<leftarrow> sfs_bmap_free_sub_nolock D (di_indirect (si_din sin)) (index - SFS_NDIRECT) s;
       Some (s, sin, ret) }
     else Some (s, sin, 0))"

definition sfs_bmap_load_nolock :: "'d dev_ops \<Rightarrow> sfs_inode \<Rightarrow> nat \<Rightarrow> 'd sfs_fs \<Rightarrow>
    ('d sfs_fs \<times> sfs_inode \<times> (int + nat)) option" where
  "sfs_bmap_load_nolock D sin index s = do {
     assert_k (index \<le> di_blocks (si_din sin));
     let create = (index = di_blocks (si_din sin));
     (s, sin, r) \<leftarrow> sfs_bmap_get_nolock D sin index create s;
     (case r of
        Inl ret \<Rightarrow> Some (s, sin, Inl ret)
      | Inr ino \<Rightarrow> do {
          u \<leftarrow> sfs_block_inuse ino s;
          assert_k u;
          Some (s, if create then upd_din (\<lambda>d. d\<lparr>di_blocks := u32 (di_blocks d + 1)\<rparr>) sin else sin, Inr ino) }) }"

definition sfs_bmap_truncate_nolock :: "'d dev_ops \<Rightarrow> sfs_inode \<Rightarrow> 'd sfs_fs \<Rightarrow> ('d sfs_fs \<times> sfs_inode \<times> int) option" where
  "sfs_bmap_truncate_nolock D sin s = do {
     assert_k (di_blocks (si_din sin) \<noteq> 0);
     (s, sin, ret) \<leftarrow> sfs_bmap_free_nolock D sin (di_blocks (si_din sin) - 1) s;
     if ret \<noteq> 0 then Some (s, sin, ret)
     else Some (s, (upd_din (\<lambda>d. d\<lparr>di_blocks := di_blocks d - 1\<rparr>) sin)\<lparr>si_dirty := True\<rparr>, 0) }"

section \<open>Numbers on the disk\<close>

lemma length_le [simp]: "length (le n x) = n"
  by (induction n arbitrary: x) auto

lemma unle_le: "x < 256 ^ n \<Longrightarrow> unle (le n x) = x"
proof (induction n arbitrary: x)
  case (Suc n)
  then have "x div 256 < 256 ^ n" by (simp add: less_mult_imp_div_less mult.commute)
  then show ?case using Suc.IH by (simp add: unat_of_nat)
qed simp

lemma le_unle: "le (length bs) (unle bs) = bs"
proof (induction bs)
  case (Cons b bs)
  have "unat b < 256" using unsigned_less [of b] by simp
  then have "(unat b + 256 * unle bs) div 256 = unle bs" by simp
  moreover have "of_nat (unat b + 256 * unle bs) = b"
  proof -
    have "(of_nat (256 * unle bs) :: byte) = 0" by (simp only: word_of_nat_eq_0_iff) simp
    then have "of_nat (unat b + 256 * unle bs) = (of_nat (unat b) :: byte)" by (simp only: of_nat_add add_0_right)
    then show ?thesis by simp
  qed
  ultimately show ?case using Cons by (simp only: unle.simps list.size(4) le.simps add_0_right add_Suc_right)
qed simp

lemma unle_bound: "unle bs < 256 ^ length bs"
proof (induction bs)
  case (Cons b bs)
  have "unat b < 256" using unsigned_less [of b] by simp
  then have "unat b + 256 * unle bs < 256 * (unle bs + 1)" by simp
  also have "\<dots> \<le> 256 * 256 ^ length bs" using Cons by (intro mult_left_mono) auto
  finally show ?case by simp
qed simp

section \<open>The invariant of the file system\<close>

abbreviation free_blocks :: "'d sfs_fs \<Rightarrow> nat set" where "free_blocks s \<equiv> free_bits (freemap s)"
abbreviation nr_blocks :: "'d sfs_fs \<Rightarrow> nat" where "nr_blocks s \<equiv> su_blocks (super s)"

definition fs_ok :: "'d dev_ops \<Rightarrow> ('d \<Rightarrow> bool) \<Rightarrow> 'd sfs_fs \<Rightarrow> bool" where
  "fs_ok D ok s \<longleftrightarrow> ok (sfs_dev s) \<and> length (sfs_buffer s) = BLKSIZE \<and> bitmap_ok (freemap s) \<and>
     nr_blocks s \<le> d_blocks D \<and> nr_blocks s \<le> bm_nbits (freemap s) \<and> free_blocks s \<subseteq> {0<..<nr_blocks s} \<and>
     su_unused (super s) = card (free_blocks s)"

definition used_blocks :: "'d sfs_fs \<Rightarrow> nat set" where
  "used_blocks s = {0<..<nr_blocks s} - free_blocks s"

text \<open>\<open>s'\<close> differs from \<open>s\<close> at most in the contents of the device and in the buffer.\<close>

definition same_map :: "'d sfs_fs \<Rightarrow> 'd sfs_fs \<Rightarrow> bool" where
  "same_map s s' \<longleftrightarrow> super s' = super s \<and> freemap s' = freemap s \<and> super_dirty s' = super_dirty s"

context block_device
begin

lemma rw_read:
  assumes "fs_ok D ok s" and "b < nr_blocks s" and "length buf = BLKSIZE" and "b \<noteq> 0 \<or> \<not> chk"
  shows "\<exists>d. sfs_rwblock_nolock D buf b False chk s = Some (s\<lparr>sfs_dev := d\<rparr>, block (sfs_dev s) b, 0) \<and> ok d \<and>
    block d = block (sfs_dev s)"
proof -
  have o: "ok (sfs_dev s)" and b: "b < d_blocks D" using assms by (auto simp: fs_ok_def)
  have "b * BLKSIZE < 2 ^ 32" using b blocks_bound [OF o] by (simp add: BLKSIZE_def)
  then have u: "u32 (b * BLKSIZE) = b * BLKSIZE" by (simp add: u32_def)
  show ?thesis using read_block [OF o b assms(3)] assms(2,4) by (auto simp: sfs_rwblock_nolock_def u)
qed

lemma rw_write:
  assumes "fs_ok D ok s" and "b < nr_blocks s" and "length buf = BLKSIZE" and "b \<noteq> 0 \<or> \<not> chk"
  shows "\<exists>d. sfs_rwblock_nolock D buf b True chk s = Some (s\<lparr>sfs_dev := d\<rparr>, buf, 0) \<and> ok d \<and>
    block d = (block (sfs_dev s))(b := buf)"
proof -
  have o: "ok (sfs_dev s)" and b: "b < d_blocks D" using assms by (auto simp: fs_ok_def)
  have "b * BLKSIZE < 2 ^ 32" using b blocks_bound [OF o] by (simp add: BLKSIZE_def)
  then have u: "u32 (b * BLKSIZE) = b * BLKSIZE" by (simp add: u32_def)
  show ?thesis using write_block [OF o b assms(3)] assms(2,4) by (auto simp: sfs_rwblock_nolock_def u)
qed

lemma fs_ok_dev: "fs_ok D ok s \<Longrightarrow> ok d \<Longrightarrow> fs_ok D ok (s\<lparr>sfs_dev := d\<rparr>)"
  "fs_ok D ok s \<Longrightarrow> length b = BLKSIZE \<Longrightarrow> fs_ok D ok (s\<lparr>sfs_buffer := b\<rparr>)"
  by (simp_all add: fs_ok_def)

lemma dev_ok: "fs_ok D ok s \<Longrightarrow> ok (sfs_dev s)"
  by (simp add: fs_ok_def)

lemma rbuf_ok:
  assumes ok: "fs_ok D ok s" and b: "0 < b" "b < nr_blocks s" and len: "off < BLKSIZE" "off + len \<le> BLKSIZE"
  shows "\<exists>s'. sfs_rbuf D len b off s = Some (s', Inr (take len (drop off (block (sfs_dev s) b)))) \<and> fs_ok D ok s' \<and>
    same_map s s' \<and> block (sfs_dev s') = block (sfs_dev s)"
proof -
  have l: "length (sfs_buffer s) = BLKSIZE" using ok by (simp add: fs_ok_def)
  obtain d where d: "sfs_rwblock_nolock D (sfs_buffer s) b False True s = Some (s\<lparr>sfs_dev := d\<rparr>, block (sfs_dev s) b, 0)"
    "ok d" "block d = block (sfs_dev s)"
    using rw_read [OF ok b(2) l, of True] b(1) by auto
  then show ?thesis
    using len fs_ok_dev(2) [OF fs_ok_dev(1) [OF ok d(2)], of "block (sfs_dev s) b"] block_length [OF dev_ok [OF ok]]
    by (auto simp: sfs_rbuf_def same_map_def)
qed

lemma wbuf_ok:
  assumes ok: "fs_ok D ok s" and b: "0 < b" "b < nr_blocks s" and len: "off < BLKSIZE" "off + length xs \<le> BLKSIZE"
  shows "\<exists>s'. sfs_wbuf D xs b off s = Some (s', 0) \<and> fs_ok D ok s' \<and> same_map s s' \<and>
    block (sfs_dev s') = (block (sfs_dev s))(b := patch off xs (block (sfs_dev s) b))"
proof -
  let ?c = "block (sfs_dev s) b"
  have l: "length (sfs_buffer s) = BLKSIZE" using ok by (simp add: fs_ok_def)
  obtain d where d: "sfs_rwblock_nolock D (sfs_buffer s) b False True s = Some (s\<lparr>sfs_dev := d\<rparr>, ?c, 0)"
    "ok d" "block d = block (sfs_dev s)"
    using rw_read [OF ok b(2) l, of True] b(1) by auto
  define s1 where "s1 = s\<lparr>sfs_dev := d, sfs_buffer := patch off xs ?c\<rparr>"
  have lc: "length ?c = BLKSIZE" by (rule block_length [OF dev_ok [OF ok]])
  then have ls: "length (patch off xs ?c) = BLKSIZE" using len by (simp add: patch_def)
  then have ok1: "fs_ok D ok s1" using ok d(2) by (simp add: fs_ok_def s1_def)
  have b1: "b < nr_blocks s1" using b by (simp add: s1_def)
  obtain d' where d': "sfs_rwblock_nolock D (patch off xs ?c) b True True s1 = Some (s1\<lparr>sfs_dev := d'\<rparr>, patch off xs ?c, 0)"
    "ok d'" "block d' = (block (sfs_dev s1))(b := patch off xs ?c)"
    using rw_write [OF ok1 b1 ls, of True] b(1) by auto
  have "sfs_wbuf D xs b off s = Some (s1\<lparr>sfs_dev := d', sfs_buffer := patch off xs ?c\<rparr>, 0)"
    using d(1) d'(1) len by (simp add: sfs_wbuf_def s1_def)
  moreover have "fs_ok D ok (s1\<lparr>sfs_dev := d', sfs_buffer := patch off xs ?c\<rparr>)"
    using ok1 d'(2) ls by (simp add: fs_ok_def)
  ultimately show ?thesis using d'(3) d(3) by (simp add: s1_def same_map_def)
qed

lemma clear_ok:
  assumes ok: "fs_ok D ok s" and b: "0 < b" "b < nr_blocks s"
  shows "\<exists>s'. sfs_clear_block D b 1 s = Some (s', 0) \<and> fs_ok D ok s' \<and> same_map s s' \<and>
    block (sfs_dev s') = (block (sfs_dev s))(b := replicate BLKSIZE 0)"
proof -
  define s1 where "s1 = s\<lparr>sfs_buffer := replicate BLKSIZE 0\<rparr>"
  have ok1: "fs_ok D ok s1" using fs_ok_dev(2) [OF ok] by (simp add: s1_def)
  obtain d where "sfs_rwblock_nolock D (replicate BLKSIZE 0) b True True s1 = Some (s1\<lparr>sfs_dev := d\<rparr>, replicate BLKSIZE 0, 0)"
    "ok d" "block d = (block (sfs_dev s1))(b := replicate BLKSIZE 0)"
    using rw_write [OF ok1, of b "replicate BLKSIZE 0" True] b by (auto simp: s1_def)
  then show ?thesis
    using fs_ok_dev(2) [OF fs_ok_dev(1) [OF ok1], of d "replicate BLKSIZE 0"]
    by (simp add: sfs_clear_block_def s1_def same_map_def)
qed

lemma finite_free_blocks: "fs_ok D ok s \<Longrightarrow> finite (free_blocks s)"
  using bm.finite_free by (auto simp: fs_ok_def)

lemma card_free_blocks: "fs_ok D ok s \<Longrightarrow> card (free_blocks s) < 2 ^ 20"
proof -
  assume ok: "fs_ok D ok s"
  have "card (free_blocks s) \<le> card {0<..<nr_blocks s}" using ok by (intro card_mono) (auto simp: fs_ok_def)
  also have "\<dots> \<le> nr_blocks s" by simp
  also have "\<dots> < 2 ^ 20" using ok blocks_bound [OF dev_ok [OF ok]] by (auto simp: fs_ok_def)
  finally show ?thesis .
qed

lemma inuse_ok:
  "fs_ok D ok s \<Longrightarrow> sfs_block_inuse b s = (if b \<noteq> 0 \<and> b < nr_blocks s then Some (b \<notin> free_blocks s) else None)"
  using bm.test_free [of "freemap s" b] by (auto simp: sfs_block_inuse_def fs_ok_def)

lemma alloc_none: "fs_ok D ok s \<Longrightarrow> free_blocks s = {} \<Longrightarrow> sfs_block_alloc D s = Some (s, Inl (- E_NO_MEM))"
  using bm.alloc_full [of "freemap s"] by (simp add: sfs_block_alloc_def fs_ok_def)

lemma alloc_some:
  assumes ok: "fs_ok D ok s" and ne: "free_blocks s \<noteq> {}"
  shows "\<exists>s'. sfs_block_alloc D s = Some (s', Inr (Min (free_blocks s))) \<and> fs_ok D ok s' \<and>
    free_blocks s' = free_blocks s - {Min (free_blocks s)} \<and> nr_blocks s' = nr_blocks s \<and>
    block (sfs_dev s') = (block (sfs_dev s))(Min (free_blocks s) := replicate BLKSIZE 0)"
proof -
  let ?m = "Min (free_blocks s)"
  have bo: "bitmap_ok (freemap s)" using ok by (simp add: fs_ok_def)
  obtain b where b: "bitmap_alloc (freemap s) = Some (b, Inr ?m)" "bitmap_ok b" "free_bits b = free_blocks s - {?m}"
    "bm_nbits b = bm_nbits (freemap s)"
    using bm.alloc_least [OF bo ne] by blast
  have m: "?m \<in> free_blocks s" using Min_in [OF finite_free_blocks [OF ok] ne] .
  then have mr: "0 < ?m" "?m < nr_blocks s" using ok by (auto simp: fs_ok_def)
  have c: "card (free_blocks s) = Suc (card (free_blocks s - {?m}))"
    using card.remove [OF finite_free_blocks [OF ok] m] by simp
  define s1 where "s1 = s\<lparr>freemap := b, super := (super s)\<lparr>su_unused := su_unused (super s) - 1\<rparr>, super_dirty := True\<rparr>"
  have ok1: "fs_ok D ok s1" using ok b c by (auto simp: fs_ok_def s1_def)
  have iu: "sfs_block_inuse ?m s1 = Some True" using inuse_ok [OF ok1, of ?m] mr b(3) by (simp add: s1_def)
  obtain s' where s': "sfs_clear_block D ?m 1 s1 = Some (s', 0)" "fs_ok D ok s'" "same_map s1 s'"
    "block (sfs_dev s') = (block (sfs_dev s1))(?m := replicate BLKSIZE 0)"
    using clear_ok [OF ok1, of ?m] mr by (auto simp: s1_def)
  have "0 < su_unused (super s)" using ok c by (simp add: fs_ok_def)
  then have "sfs_block_alloc D s = Some (s', Inr ?m)"
    using b(1) iu s'(1) by (simp add: sfs_block_alloc_def s1_def)
  then show ?thesis using s' b(3) by (auto simp: same_map_def s1_def)
qed

lemma free_ok:
  assumes ok: "fs_ok D ok s" and b: "b \<in> used_blocks s"
  shows "\<exists>s'. sfs_block_free b s = Some s' \<and> fs_ok D ok s' \<and> free_blocks s' = insert b (free_blocks s) \<and>
    nr_blocks s' = nr_blocks s \<and> sfs_dev s' = sfs_dev s"
proof -
  have bb: "0 < b" "b < nr_blocks s" "b \<notin> free_blocks s" using b by (auto simp: used_blocks_def)
  have "bitmap_ok (freemap s)" "b < bm_nbits (freemap s)" using ok bb(2) by (auto simp: fs_ok_def)
  from bm.release_used [OF this bb(3)] obtain m where m: "bitmap_free (freemap s) b = Some m" "bitmap_ok m"
    "free_bits m = insert b (free_blocks s)" "bm_nbits m = bm_nbits (freemap s)" by blast
  have "u32 (card (free_blocks s) + 1) = card (insert b (free_blocks s))"
    using card_free_blocks [OF ok] bb(3) finite_free_blocks [OF ok] by (simp add: u32_def)
  then have "fs_ok D ok (s\<lparr>freemap := m, super := (super s)\<lparr>su_unused := u32 (su_unused (super s) + 1)\<rparr>, super_dirty := True\<rparr>)"
    using ok m bb by (auto simp: fs_ok_def)
  then show ?thesis using m inuse_ok [OF ok, of b] bb by (simp add: sfs_block_free_def)
qed

lemma free_bad: "fs_ok D ok s \<Longrightarrow> b \<notin> used_blocks s \<Longrightarrow> sfs_block_free b s = None"
  by (auto simp: sfs_block_free_def inuse_ok used_blocks_def)

end

section \<open>The blocks of a file\<close>

text \<open>\<open>blkmap\<close>: the disk block behind each index of an inode, 0 when there is none.\<close>

definition entry :: "byte list \<Rightarrow> nat \<Rightarrow> nat" where
  "entry b k = unle (take 4 (drop (k * 4) b))"

definition blkmap :: "(nat \<Rightarrow> byte list) \<Rightarrow> disk_inode \<Rightarrow> nat \<Rightarrow> nat" where
  "blkmap bl di i = (if i < SFS_NDIRECT then di_direct di ! i
     else if di_indirect di = 0 then 0 else entry (bl (di_indirect di)) (i - SFS_NDIRECT))"

definition MAX_BLOCKS :: nat where "MAX_BLOCKS = SFS_NDIRECT + SFS_BLK_NENTRY"

definition file_ok :: "(nat \<Rightarrow> byte list) \<Rightarrow> nat set \<Rightarrow> disk_inode \<Rightarrow> bool" where
  "file_ok bl U di \<longleftrightarrow> length (di_direct di) = SFS_NDIRECT \<and> di_blocks di \<le> MAX_BLOCKS \<and>
     (\<forall>i<MAX_BLOCKS. blkmap bl di i \<noteq> 0 \<longleftrightarrow> i < di_blocks di) \<and>
     blkmap bl di ` {..<di_blocks di} \<subseteq> U \<and> inj_on (blkmap bl di) {..<di_blocks di} \<and>
     (di_indirect di \<noteq> 0 \<longrightarrow> di_indirect di \<in> U \<and> di_indirect di \<notin> blkmap bl di ` {..<di_blocks di})"

lemma sizes: "SFS_NDIRECT = 12" "SFS_BLK_NENTRY = 1024" "MAX_BLOCKS = 1036" "BLKSIZE = 4096"
  by (simp_all add: SFS_NDIRECT_def SFS_BLK_NENTRY_def MAX_BLOCKS_def BLKSIZE_def)

lemma entry_patch:
  assumes "length b = BLKSIZE" and "k < SFS_BLK_NENTRY" and "j < SFS_BLK_NENTRY" and "x < 2 ^ 32"
  shows "entry (patch (k * 4) (le 4 x) b) j = (if j = k then x else entry b j)"
proof -
  have len: "length (take (k * 4) b) = k * 4" using assms(1,2) by (simp add: sizes)
  consider "j < k" | "j = k" | "k < j" by linarith
  then show ?thesis
  proof cases
    case 1
    then have g: "4 \<le> k * 4 - j * 4" "j * 4 - k * 4 = 0" by simp_all
    have "drop (j * 4) (patch (k * 4) (le 4 x) b) = take (k * 4 - j * 4) (drop (j * 4) b) @ le 4 x @ drop (k * 4 + 4) b"
      using len g(2) by (simp add: patch_def drop_take)
    moreover have "length (take (k * 4 - j * 4) (drop (j * 4) b)) = k * 4 - j * 4" using len by simp
    ultimately have "take 4 (drop (j * 4) (patch (k * 4) (le 4 x) b)) = take 4 (drop (j * 4) b)"
      using g(1) by (simp add: min_absorb1)
    then show ?thesis using 1 by (simp add: entry_def)
  next
    case 2
    have "take 4 (drop (k * 4) (patch (k * 4) (le 4 x) b)) = le 4 x" using len by (simp add: patch_def)
    then show ?thesis using 2 assms(4) unle_le [of x 4] by (simp add: entry_def)
  next
    case 3
    then have "drop (j * 4) (patch (k * 4) (le 4 x) b) = drop (j * 4) b"
      using len by (simp add: patch_def add.commute)
    then show ?thesis using 3 by (simp add: entry_def)
  qed
qed

lemma unle_zeros: "unle (replicate n 0) = 0"
  by (induction n) auto

lemma entry_zeros: "entry (replicate BLKSIZE 0) k = 0"
  by (simp add: entry_def take_replicate drop_replicate unle_zeros)

lemma patch_length: "off + length xs \<le> length b \<Longrightarrow> length (patch off xs b) = length b"
  by (simp add: patch_def)

text \<open>\<open>grown\<close>: the file of \<open>sin\<close> gets the block \<open>b\<close>, which was free and holds zeros, behind its last
  one; its other blocks and all other used blocks keep their contents.\<close>

definition grown :: "'d dev_ops \<Rightarrow> ('d \<Rightarrow> bool) \<Rightarrow> ('d \<Rightarrow> nat \<Rightarrow> byte list) \<Rightarrow> 'd sfs_fs \<Rightarrow> sfs_inode \<Rightarrow> 'd sfs_fs \<Rightarrow> sfs_inode \<Rightarrow> nat \<Rightarrow> bool" where
  "grown D ok block s sin s' sin' b \<longleftrightarrow> fs_ok D ok s' \<and> nr_blocks s' = nr_blocks s \<and>
     file_ok (block (sfs_dev s')) (used_blocks s') (si_din sin') \<and>
     di_blocks (si_din sin') = di_blocks (si_din sin) + 1 \<and> di_size (si_din sin') = di_size (si_din sin) \<and>
     di_type (si_din sin') = di_type (si_din sin) \<and> di_nlinks (si_din sin') = di_nlinks (si_din sin) \<and>
     si_ino sin' = si_ino sin \<and> si_reclaim sin' = si_reclaim sin \<and>
     (di_indirect (si_din sin') = di_indirect (si_din sin) \<or> di_indirect (si_din sin) = 0 \<and>
        SFS_NDIRECT \<le> di_blocks (si_din sin) \<and> di_indirect (si_din sin') \<in> free_blocks s) \<and>
     (\<forall>j < di_blocks (si_din sin). blkmap (block (sfs_dev s')) (si_din sin') j = blkmap (block (sfs_dev s)) (si_din sin) j) \<and>
     blkmap (block (sfs_dev s')) (si_din sin') (di_blocks (si_din sin)) = b \<and>
     block (sfs_dev s') b = replicate BLKSIZE 0 \<and> b \<in> free_blocks s \<and> free_blocks s' \<subseteq> free_blocks s - {b} \<and>
     (\<forall>c. c \<notin> free_blocks s \<and> c \<noteq> di_indirect (si_din sin) \<longrightarrow> block (sfs_dev s') c = block (sfs_dev s) c)"

lemma at_end: "file_ok bl U di \<Longrightarrow> di_blocks di < MAX_BLOCKS \<Longrightarrow> blkmap bl di (di_blocks di) = 0"
  unfolding file_ok_def by (metis less_irrefl)

context block_device
begin

lemma entry_off: "k < SFS_BLK_NENTRY \<Longrightarrow> k * 4 < BLKSIZE \<and> k * 4 + 4 \<le> BLKSIZE"
  by (simp add: sizes)

lemma used_range: "b \<in> used_blocks s \<Longrightarrow> 0 < b \<and> b < nr_blocks s"
  by (simp add: used_blocks_def)

lemma block_small: "fs_ok D ok s \<Longrightarrow> b < nr_blocks s \<Longrightarrow> b < 2 ^ 32"
  using blocks_bound [OF dev_ok, of s] by (auto simp: fs_ok_def)

lemma new_ok:
  assumes ok: "fs_ok D ok s" and ent: "ent \<in> used_blocks s" and k: "k < SFS_BLK_NENTRY" and ne: "free_blocks s \<noteq> {}"
  shows "\<exists>s'. bmap_new D old ent (k * 4) s = Some (s', ent, Inr (Min (free_blocks s))) \<and> fs_ok D ok s' \<and>
    free_blocks s' = free_blocks s - {Min (free_blocks s)} \<and> nr_blocks s' = nr_blocks s \<and>
    block (sfs_dev s') = (block (sfs_dev s))(Min (free_blocks s) := replicate BLKSIZE 0,
      ent := patch (k * 4) (le 4 (Min (free_blocks s))) (block (sfs_dev s) ent))"
proof -
  let ?m = "Min (free_blocks s)"
  obtain s1 where s1: "sfs_block_alloc D s = Some (s1, Inr ?m)" "fs_ok D ok s1" "free_blocks s1 = free_blocks s - {?m}"
    "nr_blocks s1 = nr_blocks s" "block (sfs_dev s1) = (block (sfs_dev s))(?m := replicate BLKSIZE 0)"
    using alloc_some [OF ok ne] by blast
  have "?m \<in> free_blocks s" using Min_in [OF finite_free_blocks [OF ok] ne] .
  then have em: "ent \<noteq> ?m" using ent by (auto simp: used_blocks_def)
  obtain s2 where s2: "sfs_wbuf D (le 4 ?m) ent (k * 4) s1 = Some (s2, 0)" "fs_ok D ok s2" "same_map s1 s2"
    "block (sfs_dev s2) = (block (sfs_dev s1))(ent := patch (k * 4) (le 4 ?m) (block (sfs_dev s1) ent))"
    using wbuf_ok [OF s1(2), of ent "k * 4" "le 4 ?m"] used_range [OF ent] entry_off [OF k] s1(4) by auto
  have "bmap_new D old ent (k * 4) s = Some (s2, ent, Inr ?m)" using s1(1) s2(1) by (simp add: bmap_new_def)
  then show ?thesis using s1 s2 em by (auto simp: same_map_def)
qed

lemma new_full:
  assumes ok: "fs_ok D ok s" and ent: "ent \<in> used_blocks s" and full: "free_blocks s = {}"
  shows "\<exists>s'. bmap_new D old ent off s = Some (s', old, Inl (- E_NO_MEM)) \<and> fs_ok D ok s' \<and>
    free_blocks s' = (if ent = old then {} else {ent}) \<and> nr_blocks s' = nr_blocks s \<and> sfs_dev s' = sfs_dev s"
  using free_ok [OF ok ent] alloc_none [OF ok full] ok full by (auto simp: bmap_new_def bmap_cleanup_def)

text \<open>Reading the map.\<close>

lemma get_sub_read:
  assumes ok: "fs_ok D ok s" and ent: "ent \<in> used_blocks s" and k: "k < SFS_BLK_NENTRY"
    and go: "entry (block (sfs_dev s) ent) k \<noteq> 0 \<or> \<not> create"
  shows "\<exists>s'. sfs_bmap_get_sub_nolock D ent k create s = Some (s', ent, Inr (entry (block (sfs_dev s) ent) k)) \<and>
    fs_ok D ok s' \<and> same_map s s' \<and> block (sfs_dev s') = block (sfs_dev s)"
  using rbuf_ok [OF ok, of ent "k * 4" 4] used_range [OF ent] entry_off [OF k] k go
  by (auto simp: sfs_bmap_get_sub_nolock_def entry_def)

lemma same_map_used: "same_map s s' \<Longrightarrow> used_blocks s' = used_blocks s"
  by (simp add: same_map_def used_blocks_def)

lemma result_ok: "fs_ok D ok s \<Longrightarrow> ino \<in> used_blocks s \<Longrightarrow> bmap_result s sin ino = Some (s, sin, Inr ino)"
  by (auto simp: bmap_result_def inuse_ok used_blocks_def)

lemma get_existing:
  assumes ok: "fs_ok D ok s" and fo: "file_ok (block (sfs_dev s)) (used_blocks s) (si_din sin)"
    and i: "i < di_blocks (si_din sin)"
  shows "\<exists>s'. sfs_bmap_get_nolock D sin i create s = Some (s', sin, Inr (blkmap (block (sfs_dev s)) (si_din sin) i)) \<and>
    fs_ok D ok s' \<and> same_map s s' \<and> block (sfs_dev s') = block (sfs_dev s)"
proof -
  let ?di = "si_din sin" and ?bl = "block (sfs_dev s)"
  let ?b = "blkmap ?bl ?di i"
  have im: "i < MAX_BLOCKS" and b: "?b \<noteq> 0" "?b \<in> used_blocks s" using fo i by (auto simp: file_ok_def)
  show ?thesis
  proof (cases "i < SFS_NDIRECT")
    case True
    then have "?b = di_direct ?di ! i" by (simp add: blkmap_def)
    then show ?thesis
      using True b result_ok [OF ok b(2)] ok by (auto simp: sfs_bmap_get_nolock_def same_map_def)
  next
    case False
    then have ind: "di_indirect ?di \<noteq> 0" "?b = entry (?bl (di_indirect ?di)) (i - SFS_NDIRECT)"
      using b(1) by (auto simp: blkmap_def split: if_splits)
    have k: "i - SFS_NDIRECT < SFS_BLK_NENTRY" using im False by (simp add: sizes)
    have ent: "di_indirect ?di \<in> used_blocks s" using fo ind(1) by (auto simp: file_ok_def)
    obtain s' where s': "sfs_bmap_get_sub_nolock D (di_indirect ?di) (i - SFS_NDIRECT) create s = Some (s', di_indirect ?di, Inr ?b)"
      "fs_ok D ok s'" "same_map s s'" "block (sfs_dev s') = ?bl"
      using get_sub_read [OF ok ent k, of create] b(1) ind(2) by auto
    have "bmap_result s' sin ?b = Some (s', sin, Inr ?b)"
      using result_ok [OF s'(2)] b(2) same_map_used [OF s'(3)] by simp
    then show ?thesis using s' False k by (auto simp: sfs_bmap_get_nolock_def)
  qed
qed

lemma load_existing:
  assumes ok: "fs_ok D ok s" and fo: "file_ok (block (sfs_dev s)) (used_blocks s) (si_din sin)"
    and i: "i < di_blocks (si_din sin)"
  shows "\<exists>s'. sfs_bmap_load_nolock D sin i s = Some (s', sin, Inr (blkmap (block (sfs_dev s)) (si_din sin) i)) \<and>
    fs_ok D ok s' \<and> same_map s s' \<and> block (sfs_dev s') = block (sfs_dev s)"
proof -
  let ?b = "blkmap (block (sfs_dev s)) (si_din sin) i"
  have b: "?b \<in> used_blocks s" using fo i by (auto simp: file_ok_def)
  obtain s' where s': "sfs_bmap_get_nolock D sin i False s = Some (s', sin, Inr ?b)" "fs_ok D ok s'" "same_map s s'"
    "block (sfs_dev s') = block (sfs_dev s)"
    using get_existing [OF assms, of False] by blast
  have "sfs_block_inuse ?b s' = Some True"
    using inuse_ok [OF s'(2)] b same_map_used [OF s'(3)] by (auto simp: used_blocks_def)
  then show ?thesis using s' i by (auto simp: sfs_bmap_load_nolock_def)
qed

text \<open>A file that gets the block \<open>b\<close> behind its last one.\<close>

lemma file_grow:
  assumes fo: "file_ok bl U di" and n: "di_blocks di < MAX_BLOCKS" and d: "length (di_direct di') = SFS_NDIRECT"
    and n': "di_blocks di' = di_blocks di + 1"
    and m: "\<And>j. j < MAX_BLOCKS \<Longrightarrow> blkmap bl' di' j = (if j = di_blocks di then b else blkmap bl di j)"
    and b: "b \<noteq> 0" "b \<in> U'" "b \<notin> U" and U: "U \<subseteq> U'"
    and e: "di_indirect di' \<noteq> 0 \<Longrightarrow> di_indirect di' \<in> U' \<and> di_indirect di' \<noteq> b \<and>
      (di_indirect di' = di_indirect di \<or> di_indirect di' \<notin> U)"
  shows "file_ok bl' U' di'"
proof -
  let ?n = "di_blocks di"
  have old: "blkmap bl' di' j = blkmap bl di j" "blkmap bl di j \<in> U" if "j < ?n" for j
    using m [of j] that n fo by (auto simp: file_ok_def)
  have new: "blkmap bl' di' ?n = b" using m [of ?n] n by simp
  have "inj_on (blkmap bl di) {..<?n}" using fo by (simp add: file_ok_def)
  then have "inj_on (blkmap bl' di') {..<Suc ?n}"
    unfolding lessThan_Suc inj_on_insert using old new b(3) by (auto simp: inj_on_def)
  moreover have "blkmap bl' di' ` {..<Suc ?n} \<subseteq> U'" using old new b(2) U by (auto simp: lessThan_Suc)
  moreover have "blkmap bl' di' j \<noteq> 0 \<longleftrightarrow> j < Suc ?n" if "j < MAX_BLOCKS" for j
    using m [OF that] fo b(1) that by (auto simp: file_ok_def)
  moreover have "di_indirect di' \<notin> blkmap bl' di' ` {..<Suc ?n}" if "di_indirect di' \<noteq> 0"
    using e [OF that] that old new fo by (auto simp: file_ok_def lessThan_Suc)
  ultimately show ?thesis using d n n' e by (auto simp: file_ok_def)
qed

lemma used_after_alloc:
  "free_blocks s' = free_blocks s - {b} \<Longrightarrow> nr_blocks s' = nr_blocks s \<Longrightarrow> b \<in> free_blocks s \<Longrightarrow> fs_ok D ok s \<Longrightarrow>
    used_blocks s' = insert b (used_blocks s) \<and> b \<notin> used_blocks s \<and> b \<noteq> 0"
  by (auto simp: used_blocks_def fs_ok_def)

lemma grow_direct:
  assumes ok: "fs_ok D ok s" and fo: "file_ok (block (sfs_dev s)) (used_blocks s) (si_din sin)"
    and i: "di_blocks (si_din sin) < SFS_NDIRECT" and ne: "free_blocks s \<noteq> {}"
  shows "\<exists>s' sin'. sfs_bmap_load_nolock D sin (di_blocks (si_din sin)) s = Some (s', sin', Inr (Min (free_blocks s))) \<and>
    grown D ok block s sin s' sin' (Min (free_blocks s)) \<and> free_blocks s' = free_blocks s - {Min (free_blocks s)} \<and> si_dirty sin'"
proof -
  let ?di = "si_din sin" and ?m = "Min (free_blocks s)" and ?bl = "block (sfs_dev s)"
  let ?n = "di_blocks ?di"
  obtain s' where s': "sfs_block_alloc D s = Some (s', Inr ?m)" "fs_ok D ok s'" "free_blocks s' = free_blocks s - {?m}"
    "nr_blocks s' = nr_blocks s" "block (sfs_dev s') = ?bl(?m := replicate BLKSIZE 0)"
    using alloc_some [OF ok ne] by blast
  have mf: "?m \<in> free_blocks s" using Min_in [OF finite_free_blocks [OF ok] ne] .
  have us: "used_blocks s' = insert ?m (used_blocks s)" "?m \<notin> used_blocks s" "?m \<noteq> 0"
    using used_after_alloc [OF s'(3,4) mf ok] by simp_all
  have nz: "di_direct ?di ! ?n = 0"
    using at_end [OF fo] i by (simp add: blkmap_def sizes)
  define sin1 where "sin1 = (upd_din (\<lambda>d. d\<lparr>di_direct := (di_direct d)[?n := ?m]\<rparr>) sin)\<lparr>si_dirty := True\<rparr>"
  define sin' where "sin' = upd_din (\<lambda>d. d\<lparr>di_blocks := u32 (di_blocks d + 1)\<rparr>) sin1"
  have lt: "?n < MAX_BLOCKS" "u32 (?n + 1) = ?n + 1" using i by (simp_all add: sizes u32_def)
  have di: "di_indirect (si_din sin') = di_indirect ?di" "di_blocks (si_din sin') = ?n + 1"
    "di_direct (si_din sin') = (di_direct ?di)[?n := ?m]" "length (di_direct ?di) = SFS_NDIRECT"
    using fo lt(2) by (simp_all add: sin'_def sin1_def upd_din_def file_ok_def)
  have ie: "di_indirect ?di \<noteq> 0 \<Longrightarrow> di_indirect ?di \<in> used_blocks s" using fo by (simp add: file_ok_def)
  have bm: "blkmap (block (sfs_dev s')) (si_din sin') j = (if j = ?n then ?m else blkmap ?bl ?di j)" for j
    using di i ie us(2) s'(5) by (auto simp: blkmap_def)
  have "file_ok (block (sfs_dev s')) (used_blocks s') (si_din sin')"
    by (rule file_grow [OF fo lt(1) _ di(2) bm us(3)]) (use di us ie in auto)
  moreover have "sfs_bmap_load_nolock D sin ?n s = Some (s', sin', Inr ?m)"
  proof -
    have iu: "sfs_block_inuse ?m s' = Some True" using inuse_ok [OF s'(2), of ?m] us by (auto simp: used_blocks_def)
    have "di_blocks (si_din sin1) = ?n" by (simp add: sin1_def upd_din_def)
    then show ?thesis
      using s'(1) iu i nz us(3) by (simp add: sfs_bmap_load_nolock_def sfs_bmap_get_nolock_def bmap_result_def sin1_def [symmetric] sin'_def)
  qed
  ultimately show ?thesis
    using s' bm di mf by (intro exI [of _ s'] exI [of _ sin']) (auto simp: grown_def sin'_def sin1_def upd_din_def)
qed

text \<open>A new entry in the block \<open>ent\<close>, in the state \<open>s1\<close> in which \<open>ent\<close> is the entry block: either it was
  before or it has just been allocated.\<close>

lemma grow_entry:
  assumes ok: "fs_ok D ok s" and fo: "file_ok (block (sfs_dev s)) (used_blocks s) (si_din sin)"
    and n: "SFS_NDIRECT \<le> di_blocks (si_din sin)" "di_blocks (si_din sin) < MAX_BLOCKS"
    and s1: "fs_ok D ok s1" "nr_blocks s1 = nr_blocks s" "ent \<in> used_blocks s1" "free_blocks s1 \<subseteq> free_blocks s"
      "\<forall>c. c \<notin> free_blocks s \<longrightarrow> block (sfs_dev s1) c = block (sfs_dev s) c" "free_blocks s1 \<noteq> {}"
    and map1: "\<forall>j<MAX_BLOCKS. blkmap (block (sfs_dev s1)) (si_din sin\<lparr>di_indirect := ent\<rparr>) j = blkmap (block (sfs_dev s)) (si_din sin) j"
    and ent: "ent = di_indirect (si_din sin) \<or> di_indirect (si_din sin) = 0 \<and> ent \<in> free_blocks s"
    and sin': "si_din sin' = si_din sin\<lparr>di_indirect := ent, di_blocks := di_blocks (si_din sin) + 1\<rparr>"
      "si_ino sin' = si_ino sin" "si_reclaim sin' = si_reclaim sin"
  shows "\<exists>s'. bmap_new D old ent ((di_blocks (si_din sin) - SFS_NDIRECT) * 4) s1 = Some (s', ent, Inr (Min (free_blocks s1))) \<and>
    grown D ok block s sin s' sin' (Min (free_blocks s1)) \<and> free_blocks s' = free_blocks s1 - {Min (free_blocks s1)}"
proof -
  let ?di = "si_din sin" and ?m = "Min (free_blocks s1)" and ?bl = "block (sfs_dev s)"
  let ?n = "di_blocks ?di"
  have k: "?n - SFS_NDIRECT < SFS_BLK_NENTRY" using n by (simp add: sizes)
  obtain s' where s': "bmap_new D old ent ((?n - SFS_NDIRECT) * 4) s1 = Some (s', ent, Inr ?m)" "fs_ok D ok s'"
    "free_blocks s' = free_blocks s1 - {?m}" "nr_blocks s' = nr_blocks s1"
    "block (sfs_dev s') = (block (sfs_dev s1))(?m := replicate BLKSIZE 0,
      ent := patch ((?n - SFS_NDIRECT) * 4) (le 4 ?m) (block (sfs_dev s1) ent))"
    using new_ok [OF s1(1,3) k s1(6)] by blast
  have m1: "?m \<in> free_blocks s1" using Min_in [OF finite_free_blocks [OF s1(1)] s1(6)] .
  then have m: "?m \<in> free_blocks s" "?m \<noteq> ent" "?m < 2 ^ 32"
    using s1(3,4) block_small [OF s1(1), of ?m] s1(1) by (auto simp: used_blocks_def fs_ok_def)
  have e0: "ent \<noteq> 0" using used_range [OF s1(3)] by simp
  have us1: "used_blocks s \<subseteq> used_blocks s1" using s1(2,4) by (auto simp: used_blocks_def)
  have us: "used_blocks s' = insert ?m (used_blocks s1)" "?m \<notin> used_blocks s1" "?m \<noteq> 0"
    using used_after_alloc [OF s'(3,4) m1 s1(1)] by simp_all
  have bm: "blkmap (block (sfs_dev s')) (si_din sin') j = (if j = ?n then ?m else blkmap ?bl ?di j)" if j: "j < MAX_BLOCKS" for j
  proof (cases "j < SFS_NDIRECT")
    case True
    then show ?thesis using n(1) sin'(1) by (simp add: blkmap_def)
  next
    case False
    have "entry (block (sfs_dev s1) ent) (j - SFS_NDIRECT) = blkmap ?bl ?di j"
      using map1 [rule_format, OF j] False e0 by (simp add: blkmap_def)
    moreover have "j - SFS_NDIRECT < SFS_BLK_NENTRY" using j False by (simp add: sizes)
    from entry_patch [OF block_length [OF dev_ok [OF s1(1)]] k this m(3)]
    have "entry (block (sfs_dev s') ent) (j - SFS_NDIRECT)
        = (if j - SFS_NDIRECT = ?n - SFS_NDIRECT then ?m else entry (block (sfs_dev s1) ent) (j - SFS_NDIRECT))"
      using s'(5) by simp
    moreover have "j - SFS_NDIRECT = ?n - SFS_NDIRECT \<longleftrightarrow> j = ?n" using False n(1) by auto
    ultimately show ?thesis using False e0 sin'(1) by (simp add: blkmap_def)
  qed
  have u0: "?m \<notin> used_blocks s" using m(1) by (simp add: used_blocks_def)
  have "file_ok (block (sfs_dev s')) (used_blocks s') (si_din sin')"
    by (rule file_grow [OF fo n(2) _ _ bm us(3) _ u0])
      (use us us1 s1(3) ent m sin'(1) fo in \<open>auto simp: used_blocks_def file_ok_def\<close>)
  moreover have "block (sfs_dev s') c = ?bl c" if "c \<notin> free_blocks s" "c \<noteq> di_indirect ?di" for c
    using s'(5) s1(5) that m(1) ent by auto
  ultimately have "grown D ok block s sin s' sin' ?m"
    using s' bm n sin' s1(2,4) m ent unfolding grown_def by auto
  then show ?thesis using s' by blast
qed

lemma load_of_get:
  assumes "sfs_bmap_get_nolock D sin (di_blocks (si_din sin)) True s = Some (s', sin1, Inr b)"
    and "b \<in> used_blocks s'" and "fs_ok D ok s'"
  shows "sfs_bmap_load_nolock D sin (di_blocks (si_din sin)) s =
    Some (s', upd_din (\<lambda>d. d\<lparr>di_blocks := u32 (di_blocks d + 1)\<rparr>) sin1, Inr b)"
proof -
  have "sfs_block_inuse b s' = Some True" using inuse_ok [OF assms(3), of b] assms(2) by (auto simp: used_blocks_def)
  then show ?thesis using assms(1) by (simp add: sfs_bmap_load_nolock_def)
qed

lemma grown_used:
  assumes "grown D ok block s sin s' sin' b" and "fs_ok D ok s"
  shows "b \<in> used_blocks s'" and "fs_ok D ok s'"
proof -
  have "b \<in> free_blocks s" "free_blocks s' \<subseteq> free_blocks s - {b}" "nr_blocks s' = nr_blocks s"
    using assms(1) by (simp_all add: grown_def)
  moreover have "free_blocks s \<subseteq> {0<..<nr_blocks s}" using assms(2) by (simp add: fs_ok_def)
  ultimately show "b \<in> used_blocks s'" unfolding used_blocks_def by auto
  show "fs_ok D ok s'" using assms(1) by (simp add: grown_def)
qed

lemma grow_indirect:
  assumes ok: "fs_ok D ok s" and fo: "file_ok (block (sfs_dev s)) (used_blocks s) (si_din sin)"
    and n: "SFS_NDIRECT \<le> di_blocks (si_din sin)" "di_blocks (si_din sin) < MAX_BLOCKS"
    and ind: "di_indirect (si_din sin) \<noteq> 0" and ne: "free_blocks s \<noteq> {}"
  shows "\<exists>s' sin'. sfs_bmap_load_nolock D sin (di_blocks (si_din sin)) s = Some (s', sin', Inr (Min (free_blocks s))) \<and>
    grown D ok block s sin s' sin' (Min (free_blocks s)) \<and> free_blocks s' = free_blocks s - {Min (free_blocks s)}"
proof -
  let ?di = "si_din sin" and ?bl = "block (sfs_dev s)" and ?m = "Min (free_blocks s)"
  let ?n = "di_blocks ?di" and ?e = "di_indirect ?di"
  have k: "?n - SFS_NDIRECT < SFS_BLK_NENTRY" using n by (simp add: sizes)
  have e: "?e \<in> used_blocks s" using fo ind by (simp add: file_ok_def)
  have z: "entry (?bl ?e) (?n - SFS_NDIRECT) = 0" using at_end [OF fo n(2)] n(1) ind by (simp add: blkmap_def)
  obtain s1 where s1: "sfs_rbuf D 4 ?e ((?n - SFS_NDIRECT) * 4) s = Some (s1, Inr (take 4 (drop ((?n - SFS_NDIRECT) * 4) (?bl ?e))))"
    "fs_ok D ok s1" "same_map s s1" "block (sfs_dev s1) = ?bl"
    using rbuf_ok [OF ok, of ?e "(?n - SFS_NDIRECT) * 4" 4] used_range [OF e] entry_off [OF k] by auto
  have fs: "free_blocks s1 = free_blocks s" "nr_blocks s1 = nr_blocks s" using s1(3) by (simp_all add: same_map_def)
  define sin' where "sin' = upd_din (\<lambda>d. d\<lparr>di_blocks := u32 (di_blocks d + 1)\<rparr>) sin"
  have u: "u32 (?n + 1) = ?n + 1" using n(2) by (simp add: sizes u32_def)
  obtain s' where s': "bmap_new D ?e ?e ((?n - SFS_NDIRECT) * 4) s1 = Some (s', ?e, Inr ?m)"
    "grown D ok block s sin s' sin' ?m" "free_blocks s' = free_blocks s - {?m}"
    using grow_entry [OF ok fo n s1(2), of ?e sin' ?e] e fs s1(3,4) ne u same_map_used [OF s1(3)]
    by (auto simp: sin'_def upd_din_def)
  note b = grown_used [OF s'(2) ok]
  have "sfs_bmap_get_nolock D sin ?n True s = Some (s', sin, Inr ?m)"
    using n(1) k s1(1) z s'(1) ind result_ok [OF b(2,1)]
    by (simp add: sfs_bmap_get_nolock_def sfs_bmap_get_sub_nolock_def entry_def)
  from load_of_get [OF this b] show ?thesis using s'(2,3) unfolding sin'_def by blast
qed

lemma grow_first_indirect:
  assumes ok: "fs_ok D ok s" and fo: "file_ok (block (sfs_dev s)) (used_blocks s) (si_din sin)"
    and n: "di_blocks (si_din sin) = SFS_NDIRECT" and ind: "di_indirect (si_din sin) = 0" and two: "2 \<le> card (free_blocks s)"
  shows "\<exists>s' sin' b. sfs_bmap_load_nolock D sin (di_blocks (si_din sin)) s = Some (s', sin', Inr b) \<and>
    grown D ok block s sin s' sin' b \<and> free_blocks s' = free_blocks s - {b, di_indirect (si_din sin')} \<and>
    di_indirect (si_din sin') = Min (free_blocks s) \<and> si_dirty sin'"
proof -
  let ?di = "si_din sin" and ?bl = "block (sfs_dev s)" and ?e = "Min (free_blocks s)"
  let ?n = "di_blocks ?di"
  have ne: "free_blocks s \<noteq> {}" using two by auto
  have k: "?n - SFS_NDIRECT < SFS_BLK_NENTRY" "SFS_NDIRECT \<le> ?n" "?n < MAX_BLOCKS" using n by (simp_all add: sizes)
  obtain s1 where s1: "sfs_block_alloc D s = Some (s1, Inr ?e)" "fs_ok D ok s1" "free_blocks s1 = free_blocks s - {?e}"
    "nr_blocks s1 = nr_blocks s" "block (sfs_dev s1) = ?bl(?e := replicate BLKSIZE 0)"
    using alloc_some [OF ok ne] by blast
  have ef: "?e \<in> free_blocks s" using Min_in [OF finite_free_blocks [OF ok] ne] .
  have e1: "?e \<in> used_blocks s1" "?e \<noteq> 0" using used_after_alloc [OF s1(3,4) ef ok] by simp_all
  have "card (free_blocks s1) = card (free_blocks s) - 1"
    using s1(3) ef finite_free_blocks [OF ok] by simp
  then have ne1: "free_blocks s1 \<noteq> {}" using two by auto
  define sin1 where "sin1 = (upd_din (\<lambda>d. d\<lparr>di_indirect := ?e\<rparr>) sin)\<lparr>si_dirty := True\<rparr>"
  define sin' where "sin' = upd_din (\<lambda>d. d\<lparr>di_blocks := u32 (di_blocks d + 1)\<rparr>) sin1"
  have u: "u32 (?n + 1) = ?n + 1" using n by (simp add: sizes u32_def)
  have map1: "\<forall>j<MAX_BLOCKS. blkmap (block (sfs_dev s1)) (?di\<lparr>di_indirect := ?e\<rparr>) j = blkmap ?bl ?di j"
    using ind s1(5) e1(2) by (auto simp: blkmap_def entry_zeros)
  have sub: "free_blocks s1 \<subseteq> free_blocks s" using s1(3) by auto
  have fr: "\<forall>c. c \<notin> free_blocks s \<longrightarrow> block (sfs_dev s1) c = ?bl c" using s1(5) ef by auto
  have sd: "si_din sin' = ?di\<lparr>di_indirect := ?e, di_blocks := ?n + 1\<rparr>" "si_ino sin' = si_ino sin" "si_reclaim sin' = si_reclaim sin"
    using u by (simp_all add: sin'_def sin1_def upd_din_def)
  obtain s' where s': "bmap_new D 0 ?e ((?n - SFS_NDIRECT) * 4) s1 = Some (s', ?e, Inr (Min (free_blocks s1)))"
    "grown D ok block s sin s' sin' (Min (free_blocks s1))" "free_blocks s' = free_blocks s1 - {Min (free_blocks s1)}"
    using grow_entry [OF ok fo k(2,3) s1(2,4) e1(1) sub fr ne1 map1 disjI2 [OF conjI [OF ind ef]] sd] by blast
  note b = grown_used [OF s'(2) ok]
  have "sfs_bmap_get_nolock D sin ?n True s = Some (s', sin1, Inr (Min (free_blocks s1)))"
    using n k s1(1) s'(1) ind e1(2) result_ok [OF b(2,1)]
    by (simp add: sfs_bmap_get_nolock_def sfs_bmap_get_sub_nolock_def sin1_def)
  from load_of_get [OF this b] have "sfs_bmap_load_nolock D sin ?n s = Some (s', sin', Inr (Min (free_blocks s1)))"
    by (simp add: sin'_def)
  moreover have "di_indirect (si_din sin') = ?e" "si_dirty sin'" by (simp_all add: sin'_def sin1_def upd_din_def)
  ultimately show ?thesis using s'(2,3) s1(3) by (intro exI [of _ s'] exI [of _ sin'] exI [of _ "Min (free_blocks s1)"]) auto
qed

text \<open>The number of blocks an extension takes: the first entry of the indirect block needs that block too.\<close>

definition blocks_needed :: "disk_inode \<Rightarrow> nat" where
  "blocks_needed di = (if di_blocks di < SFS_NDIRECT \<or> di_indirect di \<noteq> 0 then 1 else 2)"

lemma first_indirect:
  "file_ok bl U di \<Longrightarrow> 0 \<notin> U \<Longrightarrow> di_indirect di = 0 \<Longrightarrow> di_blocks di \<le> SFS_NDIRECT"
proof (rule ccontr)
  assume fo: "file_ok bl U di" and z: "di_indirect di = 0" "0 \<notin> U" and "\<not> di_blocks di \<le> SFS_NDIRECT"
  then have "SFS_NDIRECT < di_blocks di" by simp
  then have "blkmap bl di SFS_NDIRECT \<in> U" using fo by (auto simp: file_ok_def)
  then show False using z by (simp add: blkmap_def)
qed

lemma load_grows:
  assumes ok: "fs_ok D ok s" and fo: "file_ok (block (sfs_dev s)) (used_blocks s) (si_din sin)"
    and n: "di_blocks (si_din sin) < MAX_BLOCKS" and room: "blocks_needed (si_din sin) \<le> card (free_blocks s)"
  shows "\<exists>s' sin' b. sfs_bmap_load_nolock D sin (di_blocks (si_din sin)) s = Some (s', sin', Inr b) \<and>
    grown D ok block s sin s' sin' b \<and> card (free_blocks s') + blocks_needed (si_din sin) = card (free_blocks s)"
proof -
  let ?di = "si_din sin" and ?m = "Min (free_blocks s)"
  have fin: "finite (free_blocks s)" by (rule finite_free_blocks [OF ok])
  have "1 \<le> blocks_needed ?di" by (simp add: blocks_needed_def)
  then have ne: "free_blocks s \<noteq> {}" using room by auto
  have mf: "?m \<in> free_blocks s" by (rule Min_in [OF fin ne])
  have c1: "card (free_blocks s - {?m}) + 1 = card (free_blocks s)" using card.remove [OF fin mf] by simp
  have u0: "0 \<notin> used_blocks s" by (simp add: used_blocks_def)
  consider (direct) "di_blocks ?di < SFS_NDIRECT" | (ind) "SFS_NDIRECT \<le> di_blocks ?di" "di_indirect ?di \<noteq> 0"
    | (first) "di_blocks ?di = SFS_NDIRECT" "di_indirect ?di = 0"
    using first_indirect [OF fo u0] by linarith
  then show ?thesis
  proof cases
    case direct
    then show ?thesis using grow_direct [OF ok fo direct ne] c1 by (auto simp: blocks_needed_def)
  next
    case ind
    then show ?thesis using grow_indirect [OF ok fo ind(1) n ind(2) ne] c1 by (auto simp: blocks_needed_def)
  next
    case first
    then have two: "2 \<le> card (free_blocks s)" "blocks_needed ?di = 2" using room by (simp_all add: blocks_needed_def)
    obtain s' sin' b where g: "sfs_bmap_load_nolock D sin (di_blocks ?di) s = Some (s', sin', Inr b)"
      "grown D ok block s sin s' sin' b" "free_blocks s' = free_blocks s - {b, di_indirect (si_din sin')}"
      "di_indirect (si_din sin') = ?m"
      using grow_first_indirect [OF ok fo first two(1)] by blast
    have b: "b \<in> free_blocks s" and f: "file_ok (block (sfs_dev s')) (used_blocks s') (si_din sin')"
      "blkmap (block (sfs_dev s')) (si_din sin') (di_blocks ?di) = b" "di_blocks (si_din sin') = di_blocks ?di + 1"
      using g(2) by (simp_all add: grown_def)
    have "?m \<noteq> 0" using mf ok by (auto simp: fs_ok_def)
    then have "?m \<notin> blkmap (block (sfs_dev s')) (si_din sin') ` {..<di_blocks ?di + 1}"
      using f(1,3) g(4) by (simp add: file_ok_def)
    then have "?m \<noteq> b" using f(2) by auto
    then have "card (free_blocks s') = card (free_blocks s) - 2"
      using b mf fin unfolding g(3,4) by (simp add: card_Diff_subset)
    then show ?thesis using g(1,2) two by auto
  qed
qed

lemma load_full:
  assumes ok: "fs_ok D ok s" and fo: "file_ok (block (sfs_dev s)) (used_blocks s) (si_din sin)"
    and n: "di_blocks (si_din sin) < MAX_BLOCKS" and full: "card (free_blocks s) < blocks_needed (si_din sin)"
  shows "\<exists>s'. sfs_bmap_load_nolock D sin (di_blocks (si_din sin)) s = Some (s', sin, Inl (- E_NO_MEM)) \<and> fs_ok D ok s' \<and>
    free_blocks s' = free_blocks s \<and> nr_blocks s' = nr_blocks s \<and>
    (\<forall>c. c \<notin> free_blocks s \<longrightarrow> block (sfs_dev s') c = block (sfs_dev s) c)"
proof -
  let ?di = "si_din sin" and ?m = "Min (free_blocks s)" and ?n = "di_blocks (si_din sin)" and ?e = "di_indirect (si_din sin)"
  have fin: "finite (free_blocks s)" by (rule finite_free_blocks [OF ok])
  have u0: "0 \<notin> used_blocks s" by (simp add: used_blocks_def)
  consider (direct) "?n < SFS_NDIRECT" | (ind) "SFS_NDIRECT \<le> ?n" "?e \<noteq> 0" | (first) "?n = SFS_NDIRECT" "?e = 0"
    using first_indirect [OF fo u0] by linarith
  then show ?thesis
  proof cases
    case direct
    then have none: "free_blocks s = {}" using full fin by (simp add: blocks_needed_def)
    have "di_direct ?di ! ?n = 0" using at_end [OF fo n] direct by (simp add: blkmap_def)
    then show ?thesis
      using alloc_none [OF ok none] ok direct by (simp add: sfs_bmap_load_nolock_def sfs_bmap_get_nolock_def)
  next
    case ind
    then have none: "free_blocks s = {}" using full fin by (simp add: blocks_needed_def)
    have k: "?n - SFS_NDIRECT < SFS_BLK_NENTRY" using n ind(1) by (simp add: sizes)
    have e: "?e \<in> used_blocks s" using fo ind by (simp add: file_ok_def)
    have z: "entry (block (sfs_dev s) ?e) (?n - SFS_NDIRECT) = 0" using at_end [OF fo n] ind by (simp add: blkmap_def)
    obtain s1 where s1: "sfs_rbuf D 4 ?e ((?n - SFS_NDIRECT) * 4) s
        = Some (s1, Inr (take 4 (drop ((?n - SFS_NDIRECT) * 4) (block (sfs_dev s) ?e))))"
      "fs_ok D ok s1" "same_map s s1" "block (sfs_dev s1) = block (sfs_dev s)"
      using rbuf_ok [OF ok, of ?e "(?n - SFS_NDIRECT) * 4" 4] used_range [OF e] entry_off [OF k] by auto
    have e1: "?e \<in> used_blocks s1" and none1: "free_blocks s1 = {}" "nr_blocks s1 = nr_blocks s"
      using e same_map_used [OF s1(3)] none s1(3) by (simp_all add: same_map_def)
    obtain s2 where s2: "bmap_new D ?e ?e ((?n - SFS_NDIRECT) * 4) s1 = Some (s2, ?e, Inl (- E_NO_MEM))" "fs_ok D ok s2"
      "free_blocks s2 = {}" "nr_blocks s2 = nr_blocks s1" "sfs_dev s2 = sfs_dev s1"
      using new_full [OF s1(2) e1 none1(1), of ?e "(?n - SFS_NDIRECT) * 4"] by auto
    have "sfs_bmap_load_nolock D sin ?n s = Some (s2, sin, Inl (- E_NO_MEM))"
      using ind k s1(1) z s2(1)
      by (simp add: sfs_bmap_load_nolock_def sfs_bmap_get_nolock_def sfs_bmap_get_sub_nolock_def entry_def)
    then show ?thesis using s2 s1(4) none none1 by auto
  next
    case first
    have k: "?n - SFS_NDIRECT < SFS_BLK_NENTRY" using first by (simp add: sizes)
    show ?thesis
    proof (cases "free_blocks s = {}")
      case True
      then show ?thesis using alloc_none [OF ok True] ok first k
        by (simp add: sfs_bmap_load_nolock_def sfs_bmap_get_nolock_def sfs_bmap_get_sub_nolock_def)
    next
      case False
      have mf: "?m \<in> free_blocks s" by (rule Min_in [OF fin False])
      obtain s1 where s1: "sfs_block_alloc D s = Some (s1, Inr ?m)" "fs_ok D ok s1" "free_blocks s1 = free_blocks s - {?m}"
        "nr_blocks s1 = nr_blocks s" "block (sfs_dev s1) = (block (sfs_dev s))(?m := replicate BLKSIZE 0)"
        using alloc_some [OF ok False] by blast
      have m1: "?m \<in> used_blocks s1" "?m \<noteq> 0" using used_after_alloc [OF s1(3,4) mf ok] by simp_all
      have "0 < card (free_blocks s)" "card (free_blocks s) < 2"
        using False fin full first by (simp_all add: card_gt_0_iff blocks_needed_def)
      then have "card (free_blocks s) = 1" by linarith
      then have one: "free_blocks s = {?m}" using mf by (metis card_1_singletonE singletonD)
      then have none1: "free_blocks s1 = {}" using s1(3) by auto
      obtain s2 where s2: "bmap_new D 0 ?m ((?n - SFS_NDIRECT) * 4) s1 = Some (s2, 0, Inl (- E_NO_MEM))" "fs_ok D ok s2"
        "free_blocks s2 = {?m}" "nr_blocks s2 = nr_blocks s1" "sfs_dev s2 = sfs_dev s1"
        using new_full [OF s1(2) m1(1) none1, of 0 "(?n - SFS_NDIRECT) * 4"] m1(2) by auto
      have "sfs_bmap_load_nolock D sin ?n s = Some (s2, sin, Inl (- E_NO_MEM))"
        using first k s1(1) s2(1) by (simp add: sfs_bmap_load_nolock_def sfs_bmap_get_nolock_def sfs_bmap_get_sub_nolock_def)
      moreover have "block (sfs_dev s2) c = block (sfs_dev s) c" if "c \<notin> free_blocks s" for c
        using that mf s2(5) s1(5) by auto
      ultimately show ?thesis using s2 s1(4) one by auto
    qed
  qed
qed

text \<open>A file that loses its last block.\<close>

lemma file_shrink:
  assumes fo: "file_ok bl U di" and n: "di_blocks di = Suc k" and d: "length (di_direct di') = SFS_NDIRECT"
    and n': "di_blocks di' = k" and e: "di_indirect di' = di_indirect di"
    and m: "\<And>j. j < MAX_BLOCKS \<Longrightarrow> blkmap bl' di' j = (if j = k then 0 else blkmap bl di j)"
    and U: "U' = U - {blkmap bl di k}"
  shows "file_ok bl' U' di'"
proof -
  have fo': "Suc k \<le> MAX_BLOCKS" "blkmap bl di ` {..<Suc k} \<subseteq> U" "inj_on (blkmap bl di) {..<Suc k}"
    "di_indirect di \<noteq> 0 \<longrightarrow> di_indirect di \<in> U \<and> di_indirect di \<notin> blkmap bl di ` {..<Suc k}"
    "\<forall>i<MAX_BLOCKS. blkmap bl di i \<noteq> 0 \<longleftrightarrow> i < Suc k"
    using fo n by (simp_all add: file_ok_def)
  have old: "blkmap bl' di' j = blkmap bl di j" if "j < k" for j using m [of j] that fo'(1) by simp
  then have im: "blkmap bl' di' ` {..<k} = blkmap bl di ` {..<k}" by (intro image_cong) auto
  have "inj_on (blkmap bl di) {..<k}" using fo'(3) by (rule inj_on_subset) auto
  then have "inj_on (blkmap bl' di') {..<k}" using old by (auto simp: inj_on_def)
  moreover have "blkmap bl di j \<noteq> blkmap bl di k" if "j < k" for j
    using inj_onD [OF fo'(3), of j k] that by auto
  then have "blkmap bl' di' ` {..<k} \<subseteq> U'" unfolding im U using fo'(2) by auto
  moreover have "blkmap bl' di' j \<noteq> 0 \<longleftrightarrow> j < k" if "j < MAX_BLOCKS" for j
    using m [OF that] fo'(5) that by auto
  moreover have "di_indirect di' \<in> U' \<and> di_indirect di' \<notin> blkmap bl' di' ` {..<k}" if "di_indirect di' \<noteq> 0"
    using fo'(4) that unfolding im U e by auto
  ultimately show ?thesis using d n' fo'(1) by (auto simp: file_ok_def)
qed

definition shrunk :: "'d sfs_fs \<Rightarrow> sfs_inode \<Rightarrow> 'd sfs_fs \<Rightarrow> sfs_inode \<Rightarrow> bool" where
  "shrunk s sin s' sin' \<longleftrightarrow> fs_ok D ok s' \<and> nr_blocks s' = nr_blocks s \<and>
     file_ok (block (sfs_dev s')) (used_blocks s') (si_din sin') \<and>
     di_blocks (si_din sin') = di_blocks (si_din sin) - 1 \<and> di_size (si_din sin') = di_size (si_din sin) \<and>
     di_type (si_din sin') = di_type (si_din sin) \<and> di_nlinks (si_din sin') = di_nlinks (si_din sin) \<and>
     di_indirect (si_din sin') = di_indirect (si_din sin) \<and>
     si_ino sin' = si_ino sin \<and> si_reclaim sin' = si_reclaim sin \<and> si_dirty sin' \<and>
     (\<forall>j < di_blocks (si_din sin'). blkmap (block (sfs_dev s')) (si_din sin') j = blkmap (block (sfs_dev s)) (si_din sin) j) \<and>
     free_blocks s' = insert (blkmap (block (sfs_dev s)) (si_din sin) (di_blocks (si_din sin) - 1)) (free_blocks s) \<and>
     (\<forall>c. c \<noteq> di_indirect (si_din sin) \<longrightarrow> block (sfs_dev s') c = block (sfs_dev s) c)"

lemma used_after_free: "free_blocks s' = insert b (free_blocks s) \<Longrightarrow> nr_blocks s' = nr_blocks s \<Longrightarrow>
    used_blocks s' = used_blocks s - {b}"
  by (auto simp: used_blocks_def)

lemma truncate_ok:
  assumes ok: "fs_ok D ok s" and fo: "file_ok (block (sfs_dev s)) (used_blocks s) (si_din sin)"
    and n: "di_blocks (si_din sin) = Suc k"
  shows "\<exists>s' sin'. sfs_bmap_truncate_nolock D sin s = Some (s', sin', 0) \<and> shrunk s sin s' sin'"
proof -
  let ?di = "si_din sin" and ?bl = "block (sfs_dev s)" and ?e = "di_indirect (si_din sin)"
  let ?b = "blkmap ?bl ?di k"
  have km: "k < MAX_BLOCKS" and len: "length (di_direct ?di) = SFS_NDIRECT" using fo n by (auto simp: file_ok_def)
  have b: "?b \<in> used_blocks s" "?b \<noteq> 0" using fo n km by (auto simp: file_ok_def)
  show ?thesis
  proof (cases "k < SFS_NDIRECT")
    case True
    then have dk: "?b = di_direct ?di ! k" by (simp add: blkmap_def)
    obtain s' where s': "sfs_block_free ?b s = Some s'" "fs_ok D ok s'" "free_blocks s' = insert ?b (free_blocks s)"
      "nr_blocks s' = nr_blocks s" "sfs_dev s' = sfs_dev s"
      using free_ok [OF ok b(1)] by blast
    define sin' where "sin' = (upd_din (\<lambda>d. d\<lparr>di_direct := (di_direct d)[k := 0], di_blocks := di_blocks d - 1\<rparr>) sin)\<lparr>si_dirty := True\<rparr>"
    have bm: "blkmap ?bl (si_din sin') j = (if j = k then 0 else blkmap ?bl ?di j)" for j
      using True len by (auto simp: blkmap_def sin'_def upd_din_def)
    have "file_ok ?bl (used_blocks s') (si_din sin')"
      by (rule file_shrink [OF fo n _ _ _ bm used_after_free [OF s'(3,4)]])
        (use len n in \<open>simp_all add: sin'_def upd_din_def\<close>)
    moreover have "sfs_bmap_truncate_nolock D sin s = Some (s', sin', 0)"
      using s'(1) b(2) True n dk by (simp add: sfs_bmap_truncate_nolock_def sfs_bmap_free_nolock_def sin'_def upd_din_def)
    ultimately show ?thesis
      using s' bm n by (intro exI [of _ s'] exI [of _ sin']) (auto simp: shrunk_def sin'_def upd_din_def)
  next
    case False
    then have ind: "?e \<noteq> 0" "?b = entry (?bl ?e) (k - SFS_NDIRECT)"
      using b(2) by (auto simp: blkmap_def split: if_splits)
    have kk: "k - SFS_NDIRECT < SFS_BLK_NENTRY" using km False by (simp add: sizes)
    have "?b \<in> blkmap ?bl ?di ` {..<Suc k}" by simp
    then have e: "?e \<in> used_blocks s" "?b \<noteq> ?e" using fo ind(1) n unfolding file_ok_def by (blast, metis)
    obtain s1 where s1: "sfs_rbuf D 4 ?e ((k - SFS_NDIRECT) * 4) s = Some (s1, Inr (take 4 (drop ((k - SFS_NDIRECT) * 4) (?bl ?e))))"
      "fs_ok D ok s1" "same_map s s1" "block (sfs_dev s1) = ?bl"
      using rbuf_ok [OF ok, of ?e "(k - SFS_NDIRECT) * 4" 4] used_range [OF e(1)] entry_off [OF kk] by auto
    obtain s2 where s2: "sfs_wbuf D (le 4 0) ?e ((k - SFS_NDIRECT) * 4) s1 = Some (s2, 0)" "fs_ok D ok s2" "same_map s1 s2"
      "block (sfs_dev s2) = ?bl(?e := patch ((k - SFS_NDIRECT) * 4) (le 4 0) (?bl ?e))"
      using wbuf_ok [OF s1(2), of ?e "(k - SFS_NDIRECT) * 4" "le 4 0"] used_range [OF e(1)] entry_off [OF kk] s1(3,4)
      by (auto simp: same_map_def)
    have b2: "?b \<in> used_blocks s2" using b(1) same_map_used [OF s1(3)] same_map_used [OF s2(3)] by simp
    obtain s' where s': "sfs_block_free ?b s2 = Some s'" "fs_ok D ok s'" "free_blocks s' = insert ?b (free_blocks s2)"
      "nr_blocks s' = nr_blocks s2" "sfs_dev s' = sfs_dev s2"
      using free_ok [OF s2(2) b2] by blast
    have same: "free_blocks s2 = free_blocks s" "nr_blocks s2 = nr_blocks s" using s1(3) s2(3) by (simp_all add: same_map_def)
    define sin' where "sin' = (upd_din (\<lambda>d. d\<lparr>di_blocks := di_blocks d - 1\<rparr>) sin)\<lparr>si_dirty := True\<rparr>"
    have bm: "blkmap (block (sfs_dev s')) (si_din sin') j = (if j = k then 0 else blkmap ?bl ?di j)" if j: "j < MAX_BLOCKS" for j
    proof (cases "j < SFS_NDIRECT")
      case True
      then show ?thesis using False by (auto simp: blkmap_def sin'_def upd_din_def)
    next
      case jd: False
      have "j - SFS_NDIRECT < SFS_BLK_NENTRY" using j jd by (simp add: sizes)
      from entry_patch [OF block_length [OF dev_ok [OF ok]] kk this, of 0 "?e"]
      have "entry (block (sfs_dev s') ?e) (j - SFS_NDIRECT) = (if j - SFS_NDIRECT = k - SFS_NDIRECT then 0 else entry (?bl ?e) (j - SFS_NDIRECT))"
        using s'(5) s2(4) by simp
      moreover have "j - SFS_NDIRECT = k - SFS_NDIRECT \<longleftrightarrow> j = k" using jd False by auto
      ultimately show ?thesis using jd ind(1) by (simp add: blkmap_def sin'_def upd_din_def)
    qed
    have "file_ok (block (sfs_dev s')) (used_blocks s') (si_din sin')"
      by (rule file_shrink [OF fo n _ _ _ bm])
        (use len n used_after_free [of s' ?b s] s'(3,4) same in \<open>simp_all add: sin'_def upd_din_def\<close>)
    moreover have "sfs_bmap_truncate_nolock D sin s = Some (s', sin', 0)"
    proof -
      have "sfs_block_inuse ?e s = Some True" using inuse_ok [OF ok, of ?e] e(1) by (auto simp: used_blocks_def)
      then show ?thesis
        using s1(1) s2(1) s'(1) ind b(2) False n kk by (simp add: sfs_bmap_truncate_nolock_def sfs_bmap_free_nolock_def
          sfs_bmap_free_sub_nolock_def sin'_def upd_din_def entry_def)
    qed
    ultimately show ?thesis
      using s' same s2(4) bm n km by (intro exI [of _ s'] exI [of _ sin']) (auto simp: shrunk_def sin'_def upd_din_def)
  qed
qed

end

end
