(* ===== verification/Sfs_Inode.thy ===== *)
theory Sfs_Inode
  imports Sfs_Blocks Vfs
begin

text \<open>
  The operations of the Simple File System on files and directories, \<open>fs/sfs/sfs_inode.c\<close>, over
  the block map of \<open>Sfs_Blocks\<close>: directory entries, one to a block, their search, the size of a
  file, and the operations the virtual file system calls.  A file name is a list of bytes without
  the terminating zero.  The result of \<open>kmalloc\<close> is an argument.
\<close>

section \<open>Directory entries\<close>

definition SFS_TYPE_FILE :: nat where "SFS_TYPE_FILE = 1"
definition SFS_TYPE_DIR :: nat where "SFS_TYPE_DIR = 2"
definition SFS_TYPE_LINK :: nat where "SFS_TYPE_LINK = 3"
definition SFS_MAX_FNAME_LEN :: nat where "SFS_MAX_FNAME_LEN = 255"
definition SFS_MAX_FILE_SIZE :: int where "SFS_MAX_FILE_SIZE = 1024 * 1024 * 128"
definition sfs_dentry_size :: nat where "sfs_dentry_size = SFS_MAX_FNAME_LEN + 1"

record disk_entry =
  de_ino :: nat
  de_name :: "byte list"

definition cstr :: "byte list \<Rightarrow> byte list" where
  "cstr = takeWhile (\<lambda>c. c \<noteq> 0)"

text \<open>The bytes of \<open>struct sfs_disk_entry\<close> as a value, the last byte of the name set to zero.\<close>

definition decode_entry :: "byte list \<Rightarrow> disk_entry" where
  "decode_entry bs = \<lparr>de_ino = unle (take 4 bs), de_name = (drop 4 bs)[SFS_MAX_FNAME_LEN := 0]\<rparr>"

definition sfs_dirent_read_nolock :: "'d dev_ops \<Rightarrow> nat \<Rightarrow> sfs_inode \<Rightarrow> 'd sfs_fs \<Rightarrow>
    ('d sfs_fs \<times> sfs_inode \<times> (int + disk_entry)) option" where
  "sfs_dirent_read_nolock D slot sin s = do {
     assert_k (di_type (si_din sin) = SFS_TYPE_DIR \<and> slot < di_blocks (si_din sin));
     (s, sin, r) \<leftarrow> sfs_bmap_load_nolock D sin slot s;
     (case r of
        Inl ret \<Rightarrow> Some (s, sin, Inl ret)
      | Inr ino \<Rightarrow> do {
          u \<leftarrow> sfs_block_inuse ino s;
          assert_k u;
          (s, r) \<leftarrow> sfs_rbuf D (4 + sfs_dentry_size) ino 0 s;
          (case r of
             Inl ret \<Rightarrow> Some (s, sin, Inl ret)
           | Inr bs \<Rightarrow> Some (s, sin, Inr (decode_entry bs))) }) }"

text \<open>The loop of the search: \<open>k\<close> slots from \<open>i\<close> on are left.  The result is the error number,
  the inode number and slot that were found, and the last empty slot.\<close>

fun dirent_search_loop :: "'d dev_ops \<Rightarrow> byte list \<Rightarrow> nat \<Rightarrow> nat \<Rightarrow> nat \<Rightarrow> sfs_inode \<Rightarrow> 'd sfs_fs \<Rightarrow>
    ('d sfs_fs \<times> sfs_inode \<times> int \<times> (nat \<times> nat) option \<times> nat) option" where
  "dirent_search_loop D name i 0 esl sin s = Some (s, sin, - E_NOENT, None, esl)"
| "dirent_search_loop D name i (Suc k) esl sin s = do {
     (s, sin, r) \<leftarrow> sfs_dirent_read_nolock D i sin s;
     (case r of
        Inl ret \<Rightarrow> Some (s, sin, ret, None, esl)
      | Inr e \<Rightarrow>
          if de_ino e = 0 then dirent_search_loop D name (i + 1) k i sin s
          else if name = cstr (de_name e) then Some (s, sin, 0, Some (de_ino e, i), esl)
          else dirent_search_loop D name (i + 1) k esl sin s) }"

text \<open>\<open>empty_slot\<close> is not set when there is no memory.\<close>

definition sfs_dirent_search_nolock :: "'d dev_ops \<Rightarrow> bool \<Rightarrow> byte list \<Rightarrow> sfs_inode \<Rightarrow> 'd sfs_fs \<Rightarrow>
    ('d sfs_fs \<times> sfs_inode \<times> int \<times> (nat \<times> nat) option \<times> nat option) option" where
  "sfs_dirent_search_nolock D mem name sin s = do {
     assert_k (length name \<le> SFS_MAX_FNAME_LEN);
     if \<not> mem then Some (s, sin, - E_NO_MEM, None, None)
     else do {
       let nslots = di_blocks (si_din sin);
       (s, sin, ret, found, esl) \<leftarrow> dirent_search_loop D name 0 nslots nslots sin s;
       Some (s, sin, ret, found, Some esl) } }"

fun dirent_findino_loop :: "'d dev_ops \<Rightarrow> nat \<Rightarrow> nat \<Rightarrow> nat \<Rightarrow> sfs_inode \<Rightarrow> 'd sfs_fs \<Rightarrow>
    ('d sfs_fs \<times> sfs_inode \<times> (int + disk_entry)) option" where
  "dirent_findino_loop D ino i 0 sin s = Some (s, sin, Inl (- E_NOENT))"
| "dirent_findino_loop D ino i (Suc k) sin s = do {
     (s, sin, r) \<leftarrow> sfs_dirent_read_nolock D i sin s;
     (case r of
        Inl ret \<Rightarrow> Some (s, sin, Inl ret)
      | Inr e \<Rightarrow> if de_ino e = ino then Some (s, sin, Inr e) else dirent_findino_loop D ino (i + 1) k sin s) }"

definition sfs_dirent_findino_nolock :: "'d dev_ops \<Rightarrow> nat \<Rightarrow> sfs_inode \<Rightarrow> 'd sfs_fs \<Rightarrow>
    ('d sfs_fs \<times> sfs_inode \<times> (int + disk_entry)) option" where
  "sfs_dirent_findino_nolock D ino sin s = dirent_findino_loop D ino 0 (di_blocks (si_din sin)) sin s"

fun getdirentry_loop :: "'d dev_ops \<Rightarrow> nat \<Rightarrow> nat \<Rightarrow> nat \<Rightarrow> sfs_inode \<Rightarrow> 'd sfs_fs \<Rightarrow>
    ('d sfs_fs \<times> sfs_inode \<times> (int + disk_entry)) option" where
  "getdirentry_loop D slot i 0 sin s = Some (s, sin, Inl (- E_NOENT))"
| "getdirentry_loop D slot i (Suc k) sin s = do {
     (s, sin, r) \<leftarrow> sfs_dirent_read_nolock D i sin s;
     (case r of
        Inl ret \<Rightarrow> Some (s, sin, Inl ret)
      | Inr e \<Rightarrow>
          if de_ino e \<noteq> 0
          then if slot = 0 then Some (s, sin, Inr e) else getdirentry_loop D (slot - 1) (i + 1) k sin s
          else getdirentry_loop D slot (i + 1) k sin s) }"

definition sfs_getdirentry_sub_nolock :: "'d dev_ops \<Rightarrow> nat \<Rightarrow> sfs_inode \<Rightarrow> 'd sfs_fs \<Rightarrow>
    ('d sfs_fs \<times> sfs_inode \<times> (int + disk_entry)) option" where
  "sfs_getdirentry_sub_nolock D slot sin s = getdirentry_loop D slot 0 (di_blocks (si_din sin)) sin s"

text \<open>\<open>sfs_getdirentry\<close>; \<open>iobuf_move\<close> copies the name as far as the buffer of \<open>resid\<close> bytes goes
  and fails when that is less than the whole name.\<close>

definition iobuf_move_out :: "byte list \<Rightarrow> nat \<Rightarrow> byte list \<times> int" where
  "iobuf_move_out xs resid = (take resid xs, if length xs \<le> resid then 0 else - E_NO_MEM)"

definition sfs_getdirentry :: "'d dev_ops \<Rightarrow> bool \<Rightarrow> int \<Rightarrow> nat \<Rightarrow> sfs_inode \<Rightarrow> 'd sfs_fs \<Rightarrow>
    ('d sfs_fs \<times> sfs_inode \<times> byte list \<times> int) option" where
  "sfs_getdirentry D mem offset resid sin s =
    (if \<not> mem then Some (s, sin, [], - E_NO_MEM)
     else if offset < 0 \<or> offset mod int sfs_dentry_size \<noteq> 0 then Some (s, sin, [], - E_INVAL)
     else let slot = u32 (nat (offset div int sfs_dentry_size))
       in if di_blocks (si_din sin) < slot then Some (s, sin, [], - E_NOENT)
          else do {
            (s, sin, r) \<leftarrow> sfs_getdirentry_sub_nolock D slot sin s;
            (case r of
               Inl ret \<Rightarrow> Some (s, sin, [], ret)
             | Inr e \<Rightarrow> (let (bs, ret) = iobuf_move_out (de_name e) resid in Some (s, sin, bs, ret))) })"

section \<open>Inodes\<close>

definition sfs_opendir :: "32 word \<Rightarrow> int" where
  "sfs_opendir fl =
    (if and fl O_ACCMODE \<noteq> O_RDONLY then - E_ISDIR
     else if and fl O_APPEND \<noteq> 0 then - E_ISDIR else 0)"

definition sfs_openfile :: "32 word \<Rightarrow> int" where "sfs_openfile fl = 0"

definition sfs_gettype :: "sfs_inode \<Rightarrow> nat option" where
  "sfs_gettype sin =
    (if di_type (si_din sin) = SFS_TYPE_DIR then Some 0x2000
     else if di_type (si_din sin) = SFS_TYPE_FILE then Some 0x1000
     else if di_type (si_din sin) = SFS_TYPE_LINK then Some 0x3000
     else None)"

definition sfs_fstat :: "sfs_inode \<Rightarrow> stat option" where
  "sfs_fstat sin = do {
     t \<leftarrow> sfs_gettype sin;
     Some \<lparr>st_mode = t, st_nlinks = di_nlinks (si_din sin), st_blocks = di_blocks (si_din sin),
       st_size = di_size (si_din sin)\<rparr> }"

definition sfs_fsync :: "'d dev_ops \<Rightarrow> sfs_inode \<Rightarrow> 'd sfs_fs \<Rightarrow> ('d sfs_fs \<times> sfs_inode \<times> int) option" where
  "sfs_fsync D sin s =
    (if si_dirty sin then do {
       let sin = sin\<lparr>si_dirty := False\<rparr>;
       (s, ret) \<leftarrow> sfs_wbuf D (encode_inode (si_din sin)) (si_ino sin) 0 s;
       Some (s, if ret \<noteq> 0 then sin\<lparr>si_dirty := True\<rparr> else sin, ret) }
     else Some (s, sin, 0))"

definition sfs_close :: "'d dev_ops \<Rightarrow> sfs_inode \<Rightarrow> 'd sfs_fs \<Rightarrow> ('d sfs_fs \<times> sfs_inode \<times> int) option" where
  "sfs_close D sin s = sfs_fsync D sin s"

section \<open>The size of a file\<close>

fun truncate_grow :: "'d dev_ops \<Rightarrow> nat \<Rightarrow> nat \<Rightarrow> sfs_inode \<Rightarrow> 'd sfs_fs \<Rightarrow> ('d sfs_fs \<times> sfs_inode \<times> int) option" where
  "truncate_grow D nblks 0 sin s = Some (s, sin, 0)"
| "truncate_grow D nblks (Suc k) sin s = do {
     (s, sin, r) \<leftarrow> sfs_bmap_load_nolock D sin nblks s;
     (case r of Inl ret \<Rightarrow> Some (s, sin, ret) | Inr _ \<Rightarrow> truncate_grow D (nblks + 1) k sin s) }"

fun truncate_shrink :: "'d dev_ops \<Rightarrow> nat \<Rightarrow> sfs_inode \<Rightarrow> 'd sfs_fs \<Rightarrow> ('d sfs_fs \<times> sfs_inode \<times> int) option" where
  "truncate_shrink D 0 sin s = Some (s, sin, 0)"
| "truncate_shrink D (Suc k) sin s = do {
     (s, sin, ret) \<leftarrow> sfs_bmap_truncate_nolock D sin s;
     if ret \<noteq> 0 then Some (s, sin, ret) else truncate_shrink D k sin s }"

text \<open>A loop that stops early returns an error, and the size stays.\<close>

definition sfs_truncfile :: "'d dev_ops \<Rightarrow> int \<Rightarrow> sfs_inode \<Rightarrow> 'd sfs_fs \<Rightarrow> ('d sfs_fs \<times> sfs_inode \<times> int) option" where
  "sfs_truncfile D len sin s =
    (if len < 0 \<or> SFS_MAX_FILE_SIZE < len then Some (s, sin, - E_INVAL)
     else let tblks = ROUNDUP_DIV (nat len) BLKSIZE; nblks = di_blocks (si_din sin)
       in if int (di_size (si_din sin)) = len then do { assert_k (tblks = nblks); Some (s, sin, 0) }
          else do {
            (s, sin, ret) \<leftarrow>
              (if nblks < tblks then truncate_grow D nblks (tblks - nblks) sin s
               else truncate_shrink D (nblks - tblks) sin s);
            if ret \<noteq> 0 then Some (s, sin, ret)
            else do {
              assert_k (di_blocks (si_din sin) = tblks);
              Some (s, (upd_din (\<lambda>d. d\<lparr>di_size := nat len\<rparr>) sin)\<lparr>si_dirty := True\<rparr>, 0) } })"

definition sfs_tryseek :: "'d dev_ops \<Rightarrow> int \<Rightarrow> sfs_inode \<Rightarrow> 'd sfs_fs \<Rightarrow> ('d sfs_fs \<times> sfs_inode \<times> int) option" where
  "sfs_tryseek D pos sin s =
    (if pos < 0 \<or> SFS_MAX_FILE_SIZE \<le> pos then Some (s, sin, - E_INVAL)
     else if int (di_size (si_din sin)) < pos then sfs_truncfile D pos sin s
     else Some (s, sin, 0))"

text \<open>\<open>sfs_io_nolock\<close> as it stands in the repository: the transfer itself is an exercise that was
  not filled in, so that no byte is moved.  The second result is the length \<open>*alenp\<close>.\<close>

definition sfs_io_nolock :: "int \<Rightarrow> nat \<Rightarrow> bool \<Rightarrow> sfs_inode \<Rightarrow> (sfs_inode \<times> nat \<times> int) option" where
  "sfs_io_nolock offset alen write sin = do {
     assert_k (di_type (si_din sin) \<noteq> SFS_TYPE_DIR);
     let endpos = sint (word_of_int (offset + int alen) :: 64 word);
     if offset < 0 \<or> SFS_MAX_FILE_SIZE \<le> offset \<or> endpos < offset then Some (sin, 0, - E_INVAL)
     else if offset = endpos then Some (sin, 0, 0)
     else if \<not> write \<and> int (di_size (si_din sin)) \<le> offset then Some (sin, 0, 0)
     else Some (if int (di_size (si_din sin)) < offset
                then (upd_din (\<lambda>d. d\<lparr>di_size := nat offset\<rparr>) sin)\<lparr>si_dirty := True\<rparr> else sin, 0, 0) }"

definition iobuf_skip :: "nat \<Rightarrow> iobuf \<Rightarrow> iobuf option" where
  "iobuf_skip n iob = do {
     assert_k (n \<le> io_resid iob);
     Some (iob\<lparr>io_base := io_base iob + n, io_offset := io_offset iob + int n, io_resid := io_resid iob - n\<rparr>) }"

definition sfs_io :: "iobuf \<Rightarrow> bool \<Rightarrow> sfs_inode \<Rightarrow> (sfs_inode \<times> iobuf \<times> int) option" where
  "sfs_io iob write sin = do {
     (sin, alen, ret) \<leftarrow> sfs_io_nolock (io_offset iob) (io_resid iob) write sin;
     iob \<leftarrow> (if alen \<noteq> 0 then iobuf_skip alen iob else Some iob);
     Some (sin, iob, ret) }"

definition sfs_read :: "iobuf \<Rightarrow> sfs_inode \<Rightarrow> (sfs_inode \<times> iobuf \<times> int) option" where
  "sfs_read iob sin = sfs_io iob False sin"

definition sfs_write :: "iobuf \<Rightarrow> sfs_inode \<Rightarrow> (sfs_inode \<times> iobuf \<times> int) option" where
  "sfs_write iob sin = sfs_io iob True sin"

text \<open>Neither reading nor writing a file moves the buffer.\<close>

lemma sfs_io_moves_nothing: "sfs_io iob write sin = Some (sin', iob', ret) \<Longrightarrow> iob' = iob"
  by (auto simp: sfs_io_def sfs_io_nolock_def Let_def split: if_splits Option.bind_splits)

section \<open>Searching a directory\<close>

definition dirent :: "('d \<Rightarrow> nat \<Rightarrow> byte list) \<Rightarrow> 'd sfs_fs \<Rightarrow> sfs_inode \<Rightarrow> nat \<Rightarrow> disk_entry" where
  "dirent block s sin i =
    decode_entry (take (4 + sfs_dentry_size) (block (sfs_dev s) (blkmap (block (sfs_dev s)) (si_din sin) i)))"

text \<open>The first slot that satisfies \<open>P\<close>, and the last empty slot before the search ends.\<close>

definition first_slot :: "(nat \<Rightarrow> bool) \<Rightarrow> nat \<Rightarrow> nat \<Rightarrow> nat option" where
  "first_slot P i n = List.find P [i..<n]"

definition last_empty :: "(nat \<Rightarrow> disk_entry) \<Rightarrow> nat \<Rightarrow> nat \<Rightarrow> nat \<Rightarrow> nat" where
  "last_empty e esl i n = last (esl # filter (\<lambda>j. de_ino (e j) = 0) [i..<n])"

definition names :: "(nat \<Rightarrow> disk_entry) \<Rightarrow> byte list \<Rightarrow> nat \<Rightarrow> bool" where
  "names e name i \<longleftrightarrow> de_ino (e i) \<noteq> 0 \<and> cstr (de_name (e i)) = name"

lemma first_slot_step: "i < n \<Longrightarrow> first_slot P i n = (if P i then Some i else first_slot P (Suc i) n)"
  by (simp add: first_slot_def upt_conv_Cons)

lemma first_slot_stop: "first_slot P n n = None"
  by (simp add: first_slot_def)

lemma first_slot_ge: "first_slot P i n = Some j \<Longrightarrow> i \<le> j \<and> j < n"
  by (auto simp: first_slot_def find_Some_iff)

lemma last_empty_step: "i < n \<Longrightarrow> last_empty e esl i n = last_empty e (if de_ino (e i) = 0 then i else esl) (Suc i) n"
  by (simp add: last_empty_def upt_conv_Cons)

lemma last_empty_stop: "n \<le> i \<Longrightarrow> last_empty e esl i n = esl"
  by (simp add: last_empty_def)

context block_device
begin

lemma dirent_read_ok:
  assumes ok: "fs_ok D ok s" and fo: "file_ok (block (sfs_dev s)) (used_blocks s) (si_din sin)"
    and d: "di_type (si_din sin) = SFS_TYPE_DIR" and i: "i < di_blocks (si_din sin)"
  shows "\<exists>s'. sfs_dirent_read_nolock D i sin s = Some (s', sin, Inr (dirent block s sin i)) \<and> fs_ok D ok s' \<and>
    same_map s s' \<and> block (sfs_dev s') = block (sfs_dev s)"
proof -
  let ?b = "blkmap (block (sfs_dev s)) (si_din sin) i"
  obtain s1 where s1: "sfs_bmap_load_nolock D sin i s = Some (s1, sin, Inr ?b)" "fs_ok D ok s1" "same_map s s1"
    "block (sfs_dev s1) = block (sfs_dev s)"
    using load_existing [OF ok fo i] by blast
  have "?b \<in> used_blocks s" using fo i by (auto simp: file_ok_def)
  then have b: "?b \<in> used_blocks s1" by (simp add: same_map_used [OF s1(3)])
  have iu: "sfs_block_inuse ?b s1 = Some True" using inuse_ok [OF s1(2)] b by (auto simp: used_blocks_def)
  obtain s2 where s2: "sfs_rbuf D (4 + sfs_dentry_size) ?b 0 s1 = Some (s2, Inr (take (4 + sfs_dentry_size) (block (sfs_dev s) ?b)))"
    "fs_ok D ok s2" "same_map s1 s2" "block (sfs_dev s2) = block (sfs_dev s)"
    using rbuf_ok [OF s1(2), of ?b 0 "4 + sfs_dentry_size"] used_range [OF b] s1(4)
    by (auto simp: sfs_dentry_size_def SFS_MAX_FNAME_LEN_def BLKSIZE_def)
  have "sfs_dirent_read_nolock D i sin s = Some (s2, sin, Inr (dirent block s sin i))"
    using s1(1) iu s2(1) d i by (simp add: sfs_dirent_read_nolock_def dirent_def)
  moreover have "same_map s s2" using s1(3) s2(3) by (simp add: same_map_def)
  ultimately show ?thesis using s2 by blast
qed

lemma same_file:
  assumes "same_map s s'" and "block (sfs_dev s') = block (sfs_dev s)"
  shows "used_blocks s' = used_blocks s" and "dirent block s' sin = dirent block s sin"
  using same_map_used [OF assms(1)] by (simp, simp add: dirent_def assms(2) fun_eq_iff [where g = "dirent block s sin"])

lemma search_loop_ok:
  assumes "fs_ok D ok s" and "file_ok (block (sfs_dev s)) (used_blocks s) (si_din sin)"
    and "di_type (si_din sin) = SFS_TYPE_DIR" and "i + k = di_blocks (si_din sin)"
  shows "\<exists>s'. dirent_search_loop D name i k esl sin s = Some (s', sin,
      (case first_slot (names (dirent block s sin) name) i (i + k) of
         None \<Rightarrow> (- E_NOENT, None, last_empty (dirent block s sin) esl i (i + k))
       | Some j \<Rightarrow> (0, Some (de_ino (dirent block s sin j), j), last_empty (dirent block s sin) esl i j))) \<and>
    fs_ok D ok s' \<and> same_map s s' \<and> block (sfs_dev s') = block (sfs_dev s)"
  using assms
proof (induction k arbitrary: i esl s)
  case 0
  then show ?case by (simp add: first_slot_stop last_empty_stop same_map_def)
next
  case (Suc k)
  let ?e = "dirent block s sin"
  have i: "i < di_blocks (si_din sin)" "i < i + Suc k" using Suc.prems(4) by simp_all
  obtain s1 where s1: "sfs_dirent_read_nolock D i sin s = Some (s1, sin, Inr (?e i))" "fs_ok D ok s1"
    "same_map s s1" "block (sfs_dev s1) = block (sfs_dev s)"
    using dirent_read_ok [OF Suc.prems(1-3) i(1)] by blast
  note sf = same_file [OF s1(3,4)]
  have prems: "file_ok (block (sfs_dev s1)) (used_blocks s1) (si_din sin)" "Suc i + k = di_blocks (si_din sin)"
    using Suc.prems(2,4) s1(4) sf(1) by simp_all
  show ?case
  proof (cases "names ?e name i")
    case True
    then have "dirent_search_loop D name i (Suc k) esl sin s = Some (s1, sin, 0, Some (de_ino (?e i), i), esl)"
      using s1(1) by (auto simp: names_def)
    then show ?thesis using True s1(2-4) first_slot_step [OF i(2)] by (simp add: last_empty_stop)
  next
    case False
    let ?esl = "if de_ino (?e i) = 0 then i else esl"
    obtain s' where s': "dirent_search_loop D name (Suc i) k ?esl sin s1 = Some (s', sin,
        (case first_slot (names ?e name) (Suc i) (Suc i + k) of
           None \<Rightarrow> (- E_NOENT, None, last_empty ?e ?esl (Suc i) (Suc i + k))
         | Some j \<Rightarrow> (0, Some (de_ino (?e j), j), last_empty ?e ?esl (Suc i) j)))"
      "fs_ok D ok s'" "same_map s1 s'" "block (sfs_dev s') = block (sfs_dev s1)"
      using Suc.IH [OF s1(2) prems(1) Suc.prems(3) prems(2), of ?esl] unfolding sf(2) by blast
    have "dirent_search_loop D name i (Suc k) esl sin s = dirent_search_loop D name (Suc i) k ?esl sin s1"
      using s1(1) False by (auto simp: names_def)
    moreover have "same_map s s'" using s1(3) s'(3) by (simp add: same_map_def)
    moreover have "last_empty ?e esl i (i + Suc k) = last_empty ?e ?esl (Suc i) (Suc i + k)"
      using last_empty_step [OF i(2)] by simp
    moreover have "last_empty ?e esl i j = last_empty ?e ?esl (Suc i) j" if "first_slot (names ?e name) (Suc i) (Suc i + k) = Some j" for j
      using last_empty_step [of i j] first_slot_ge [OF that] by simp
    moreover have "first_slot (names ?e name) i (i + Suc k) = first_slot (names ?e name) (Suc i) (Suc i + k)"
      using first_slot_step [OF i(2)] False by simp
    ultimately show ?thesis using s'(1,2,4) s1(4) by (auto split: option.splits)
  qed
qed

end

section \<open>Growing and shrinking a file\<close>

text \<open>\<open>extended\<close>: the file has \<open>k\<close> blocks more, which were free and hold zeros; everything else that
  was in use keeps its contents.\<close>

definition extended :: "'d dev_ops \<Rightarrow> ('d \<Rightarrow> bool) \<Rightarrow> ('d \<Rightarrow> nat \<Rightarrow> byte list) \<Rightarrow> 'd sfs_fs \<Rightarrow> sfs_inode \<Rightarrow> nat \<Rightarrow> 'd sfs_fs \<Rightarrow> sfs_inode \<Rightarrow> bool" where
  "extended D ok block s sin k s' sin' \<longleftrightarrow> fs_ok D ok s' \<and> nr_blocks s' = nr_blocks s \<and>
     file_ok (block (sfs_dev s')) (used_blocks s') (si_din sin') \<and>
     di_blocks (si_din sin') = di_blocks (si_din sin) + k \<and> di_size (si_din sin') = di_size (si_din sin) \<and>
     di_type (si_din sin') = di_type (si_din sin) \<and> di_nlinks (si_din sin') = di_nlinks (si_din sin) \<and>
     si_ino sin' = si_ino sin \<and> si_reclaim sin' = si_reclaim sin \<and>
     (\<forall>j < di_blocks (si_din sin). blkmap (block (sfs_dev s')) (si_din sin') j = blkmap (block (sfs_dev s)) (si_din sin) j) \<and>
     (\<forall>j. di_blocks (si_din sin) \<le> j \<and> j < di_blocks (si_din sin) + k \<longrightarrow>
        blkmap (block (sfs_dev s')) (si_din sin') j \<in> free_blocks s \<and>
        block (sfs_dev s') (blkmap (block (sfs_dev s')) (si_din sin') j) = replicate BLKSIZE 0) \<and>
     free_blocks s' \<subseteq> free_blocks s \<and>
     (di_indirect (si_din sin') = di_indirect (si_din sin) \<or> di_indirect (si_din sin) = 0 \<and> di_indirect (si_din sin') \<in> free_blocks s) \<and>
     (\<forall>c. c \<notin> free_blocks s \<and> c \<noteq> di_indirect (si_din sin) \<longrightarrow> block (sfs_dev s') c = block (sfs_dev s) c)"

text \<open>\<open>shortened\<close>: the file keeps its first \<open>n\<close> blocks, the others are free again.\<close>

definition shortened :: "'d dev_ops \<Rightarrow> ('d \<Rightarrow> bool) \<Rightarrow> ('d \<Rightarrow> nat \<Rightarrow> byte list) \<Rightarrow> 'd sfs_fs \<Rightarrow> sfs_inode \<Rightarrow> nat \<Rightarrow> 'd sfs_fs \<Rightarrow> sfs_inode \<Rightarrow> bool" where
  "shortened D ok block s sin n s' sin' \<longleftrightarrow> fs_ok D ok s' \<and> nr_blocks s' = nr_blocks s \<and>
     file_ok (block (sfs_dev s')) (used_blocks s') (si_din sin') \<and>
     di_blocks (si_din sin') = n \<and> di_size (si_din sin') = di_size (si_din sin) \<and>
     di_type (si_din sin') = di_type (si_din sin) \<and> di_nlinks (si_din sin') = di_nlinks (si_din sin) \<and>
     di_indirect (si_din sin') = di_indirect (si_din sin) \<and>
     si_ino sin' = si_ino sin \<and> si_reclaim sin' = si_reclaim sin \<and>
     (\<forall>j<n. blkmap (block (sfs_dev s')) (si_din sin') j = blkmap (block (sfs_dev s)) (si_din sin) j) \<and>
     free_blocks s' = free_blocks s \<union> blkmap (block (sfs_dev s)) (si_din sin) ` {n..<di_blocks (si_din sin)} \<and>
     (\<forall>c. c \<noteq> di_indirect (si_din sin) \<longrightarrow> block (sfs_dev s') c = block (sfs_dev s) c)"

text \<open>The inode with its new size.\<close>

definition set_size :: "nat \<Rightarrow> sfs_inode \<Rightarrow> sfs_inode" where
  "set_size n sin = (upd_din (\<lambda>d. d\<lparr>di_size := n\<rparr>) sin)\<lparr>si_dirty := True\<rparr>"

text \<open>The blocks a file occupies.\<close>

definition owned :: "(nat \<Rightarrow> byte list) \<Rightarrow> disk_inode \<Rightarrow> nat set" where
  "owned bl di = blkmap bl di ` {..<di_blocks di} \<union> (if di_indirect di = 0 then {} else {di_indirect di})"

text \<open>How many free blocks \<open>k\<close> more blocks take: one each, and one for a new indirect block.\<close>

definition total_needed :: "disk_inode \<Rightarrow> nat \<Rightarrow> nat" where
  "total_needed di k = k + (if di_indirect di = 0 \<and> SFS_NDIRECT < di_blocks di + k then 1 else 0)"

context block_device
begin

lemma extended_refl:
  "fs_ok D ok s \<Longrightarrow> file_ok (block (sfs_dev s)) (used_blocks s) (si_din sin) \<Longrightarrow> extended D ok block s sin 0 s sin"
  by (simp add: extended_def) linarith

lemma extended_step:
  assumes g: "grown D ok block s sin s1 sin1 b" and e: "extended D ok block s1 sin1 k s' sin'" and ok: "fs_ok D ok s"
    and fo: "file_ok (block (sfs_dev s)) (used_blocks s) (si_din sin)"
  shows "extended D ok block s sin (Suc k) s' sin'"
proof -
  let ?n = "di_blocks (si_din sin)" and ?bl = "\<lambda>s. block (sfs_dev s)"
  have n1: "di_blocks (si_din sin1) = ?n + 1" and b: "b \<in> free_blocks s" "?bl s1 b = replicate BLKSIZE 0"
    and bm1: "blkmap (?bl s1) (si_din sin1) ?n = b" and sub1: "free_blocks s1 \<subseteq> free_blocks s - {b}"
    and f1: "file_ok (?bl s1) (used_blocks s1) (si_din sin1)"
    and i1: "di_indirect (si_din sin1) = di_indirect (si_din sin) \<or> di_indirect (si_din sin) = 0 \<and> di_indirect (si_din sin1) \<in> free_blocks s"
    and fr1: "\<forall>c. c \<notin> free_blocks s \<and> c \<noteq> di_indirect (si_din sin) \<longrightarrow> ?bl s1 c = ?bl s c"
    using g by (auto simp: grown_def)
  have fr': "\<forall>c. c \<notin> free_blocks s1 \<and> c \<noteq> di_indirect (si_din sin1) \<longrightarrow> ?bl s' c = ?bl s1 c"
    and bm': "\<forall>j<?n + 1. blkmap (?bl s') (si_din sin') j = blkmap (?bl s1) (si_din sin1) j"
    and new': "\<forall>j. ?n + 1 \<le> j \<and> j < ?n + 1 + k \<longrightarrow> blkmap (?bl s') (si_din sin') j \<in> free_blocks s1 \<and>
        ?bl s' (blkmap (?bl s') (si_din sin') j) = replicate BLKSIZE 0"
    and sub': "free_blocks s' \<subseteq> free_blocks s1"
    and i': "di_indirect (si_din sin') = di_indirect (si_din sin1) \<or> di_indirect (si_din sin1) = 0 \<and> di_indirect (si_din sin') \<in> free_blocks s1"
    using e n1 by (auto simp: extended_def)
  have bi: "b \<noteq> di_indirect (si_din sin1)"
  proof
    assume bi: "b = di_indirect (si_din sin1)"
    have "b \<noteq> 0" using b(1) ok by (auto simp: fs_ok_def)
    then have "b \<notin> blkmap (?bl s1) (si_din sin1) ` {..<?n + 1}" using f1 bi n1 by (simp add: file_ok_def)
    then show False using bm1 by auto
  qed
  have "b \<notin> free_blocks s1" using sub1 by auto
  then have zb: "?bl s' b = replicate BLKSIZE 0" using fr' b(2) bi by simp
  have new: "blkmap (?bl s') (si_din sin') j \<in> free_blocks s \<and> ?bl s' (blkmap (?bl s') (si_din sin') j) = replicate BLKSIZE 0"
    if "?n \<le> j" "j < ?n + Suc k" for j
  proof (cases "j = ?n")
    case True
    then show ?thesis using bm' bm1 b(1) zb by simp
  next
    case False
    then have "?n + 1 \<le> j" "j < ?n + 1 + k" using that by simp_all
    then show ?thesis using new' sub1 by blast
  qed
  have fr: "?bl s' c = ?bl s c" if c: "c \<notin> free_blocks s" "c \<noteq> di_indirect (si_din sin)" for c
  proof -
    have "c \<notin> free_blocks s1" "c \<noteq> di_indirect (si_din sin1)" using c sub1 i1 by auto
    then show ?thesis using fr' fr1 c by simp
  qed
  have ind: "di_indirect (si_din sin') = di_indirect (si_din sin) \<or> di_indirect (si_din sin) = 0 \<and> di_indirect (si_din sin') \<in> free_blocks s"
    using i1 i' sub1 by auto
  have "free_blocks s' \<subseteq> free_blocks s" using sub' sub1 by blast
  moreover have "\<forall>j < ?n. blkmap (?bl s') (si_din sin') j = blkmap (?bl s) (si_din sin) j"
    using bm' g by (simp add: grown_def)
  ultimately show ?thesis using e g new fr ind by (simp add: extended_def grown_def)
qed

lemma file_same_used:
  assumes fo: "file_ok (block (sfs_dev s)) (used_blocks s) di" and free: "free_blocks s' = free_blocks s" "nr_blocks s' = nr_blocks s"
    and same: "\<forall>c. c \<notin> free_blocks s \<longrightarrow> block (sfs_dev s') c = block (sfs_dev s) c"
  shows "file_ok (block (sfs_dev s')) (used_blocks s') di" and "blkmap (block (sfs_dev s')) di = blkmap (block (sfs_dev s)) di"
proof -
  have "di_indirect di \<noteq> 0 \<Longrightarrow> di_indirect di \<notin> free_blocks s" using fo by (auto simp: file_ok_def used_blocks_def)
  then show bm: "blkmap (block (sfs_dev s')) di = blkmap (block (sfs_dev s)) di"
    using same by (auto simp: blkmap_def fun_eq_iff)
  have "used_blocks s' = used_blocks s" using free by (simp add: used_blocks_def)
  then show "file_ok (block (sfs_dev s')) (used_blocks s') di" using fo unfolding file_ok_def bm by simp
qed

lemma extended_same:
  assumes e: "extended D ok block s sin k s1 sin1" and ok: "fs_ok D ok s'"
    and free: "free_blocks s' = free_blocks s1" "nr_blocks s' = nr_blocks s1"
    and same: "\<forall>c. c \<notin> free_blocks s1 \<longrightarrow> block (sfs_dev s') c = block (sfs_dev s1) c"
  shows "extended D ok block s sin k s' sin1"
proof -
  have fo: "file_ok (block (sfs_dev s1)) (used_blocks s1) (si_din sin1)" and sub: "free_blocks s1 \<subseteq> free_blocks s"
    using e by (simp_all add: extended_def)
  note f = file_same_used [OF fo free same]
  have "block (sfs_dev s') c = block (sfs_dev s) c" if "c \<notin> free_blocks s" "c \<noteq> di_indirect (si_din sin)" for c
    using e same sub that by (auto simp: extended_def)
  moreover have "block (sfs_dev s') (blkmap (block (sfs_dev s1)) (si_din sin1) j) =
      block (sfs_dev s1) (blkmap (block (sfs_dev s1)) (si_din sin1) j)" if "j < di_blocks (si_din sin1)" for j
    using fo that same by (auto simp: file_ok_def used_blocks_def)
  ultimately show ?thesis using e f ok free unfolding extended_def f(2) by auto
qed

lemma needed_step:
  assumes g: "grown D ok block s sin s1 sin1 b" and fo: "file_ok (block (sfs_dev s)) (used_blocks s) (si_din sin)"
    and ok: "fs_ok D ok s"
  shows "total_needed (si_din sin) (Suc k) = blocks_needed (si_din sin) + total_needed (si_din sin1) k"
proof -
  let ?di = "si_din sin" and ?di1 = "si_din sin1"
  have n1: "di_blocks ?di1 = di_blocks ?di + 1" and bm: "blkmap (block (sfs_dev s1)) ?di1 (di_blocks ?di) = b"
    and b: "b \<in> free_blocks s"
    and i: "di_indirect ?di1 = di_indirect ?di \<or> di_indirect ?di = 0 \<and> SFS_NDIRECT \<le> di_blocks ?di"
    using g by (auto simp: grown_def)
  have b0: "b \<noteq> 0" using b ok by (auto simp: fs_ok_def)
  have u0: "0 \<notin> used_blocks s" by (simp add: used_blocks_def)
  consider (direct) "di_blocks ?di < SFS_NDIRECT" | (ind) "di_indirect ?di \<noteq> 0"
    | (first) "di_blocks ?di = SFS_NDIRECT" "di_indirect ?di = 0"
    using first_indirect [OF fo u0] by linarith
  then show ?thesis
  proof cases
    case direct
    then have "di_indirect ?di1 = di_indirect ?di" using i by simp
    then show ?thesis using direct n1 by (simp add: total_needed_def blocks_needed_def)
  next
    case ind
    then have "di_indirect ?di1 = di_indirect ?di" using i by simp
    then show ?thesis using ind n1 by (simp add: total_needed_def blocks_needed_def)
  next
    case first
    then have "di_indirect ?di1 \<noteq> 0" using bm b0 by (auto simp: blkmap_def split: if_splits)
    then show ?thesis using first n1 by (simp add: total_needed_def blocks_needed_def)
  qed
qed

lemma needed_first: "blocks_needed di \<le> total_needed di (Suc k)"
  by (simp add: blocks_needed_def total_needed_def)

lemma truncate_grow_ok:
  assumes "fs_ok D ok s" and "file_ok (block (sfs_dev s)) (used_blocks s) (si_din sin)"
    and "di_blocks (si_din sin) + k \<le> MAX_BLOCKS"
  shows "\<exists>s' sin' i. truncate_grow D (di_blocks (si_din sin)) k sin s =
      Some (s', sin', if total_needed (si_din sin) k \<le> card (free_blocks s) then 0 else - E_NO_MEM) \<and>
    extended D ok block s sin i s' sin' \<and> i \<le> k \<and> (i = k \<longleftrightarrow> total_needed (si_din sin) k \<le> card (free_blocks s))"
  using assms
proof (induction k arbitrary: s sin)
  case 0
  have "\<not> (di_indirect (si_din sin) = 0 \<and> SFS_NDIRECT < di_blocks (si_din sin))"
    using first_indirect [OF 0(2)] by (auto simp: used_blocks_def)
  then show ?case using extended_refl [OF 0(1,2)] by (auto simp: total_needed_def)
next
  case (Suc k)
  let ?n = "di_blocks (si_din sin)"
  have n: "?n < MAX_BLOCKS" using Suc.prems(3) by simp
  show ?case
  proof (cases "blocks_needed (si_din sin) \<le> card (free_blocks s)")
    case True
    obtain s1 sin1 b where l: "sfs_bmap_load_nolock D sin ?n s = Some (s1, sin1, Inr b)" "grown D ok block s sin s1 sin1 b"
      "card (free_blocks s1) + blocks_needed (si_din sin) = card (free_blocks s)"
      using load_grows [OF Suc.prems(1,2) n True] by blast
    have p: "fs_ok D ok s1" "file_ok (block (sfs_dev s1)) (used_blocks s1) (si_din sin1)" "di_blocks (si_din sin1) = ?n + 1"
      using l(2) by (simp_all add: grown_def)
    have fits: "total_needed (si_din sin1) k \<le> card (free_blocks s1) \<longleftrightarrow> total_needed (si_din sin) (Suc k) \<le> card (free_blocks s)"
      using needed_step [OF l(2) Suc.prems(2,1), of k] l(3) by linarith
    have "di_blocks (si_din sin1) + k \<le> MAX_BLOCKS" using p(3) Suc.prems(3) by simp
    from Suc.IH [OF p(1,2) this] obtain s' sin' i where r: "truncate_grow D (?n + 1) k sin1 s1 =
        Some (s', sin', if total_needed (si_din sin) (Suc k) \<le> card (free_blocks s) then 0 else - E_NO_MEM)"
      "extended D ok block s1 sin1 i s' sin'" "i \<le> k" "i = k \<longleftrightarrow> total_needed (si_din sin) (Suc k) \<le> card (free_blocks s)"
      unfolding fits p(3) by blast
    have "truncate_grow D ?n (Suc k) sin s = truncate_grow D (?n + 1) k sin1 s1" using l(1) by simp
    then show ?thesis using r(1,3,4) extended_step [OF l(2) r(2) Suc.prems(1,2)] by (metis Suc_le_mono nat.inject)
  next
    case False
    then obtain s1 where l: "sfs_bmap_load_nolock D sin ?n s = Some (s1, sin, Inl (- E_NO_MEM))" "fs_ok D ok s1"
      "free_blocks s1 = free_blocks s" "nr_blocks s1 = nr_blocks s"
      "\<forall>c. c \<notin> free_blocks s \<longrightarrow> block (sfs_dev s1) c = block (sfs_dev s) c"
      using load_full [OF Suc.prems(1,2) n] by auto
    have "\<not> total_needed (si_din sin) (Suc k) \<le> card (free_blocks s)" using False needed_first [of "si_din sin" k] by linarith
    moreover have "extended D ok block s sin 0 s1 sin"
      by (rule extended_same [OF extended_refl [OF Suc.prems(1,2)] l(2-5)])
    moreover have "truncate_grow D ?n (Suc k) sin s = Some (s1, sin, - E_NO_MEM)" using l(1) by simp
    ultimately show ?thesis by auto
  qed
qed

text \<open>The map of an inode has \<open>MAX_BLOCKS\<close> places.\<close>

lemma truncate_grow_stops:
  assumes "fs_ok D ok s" and "file_ok (block (sfs_dev s)) (used_blocks s) (si_din sin)"
    and "MAX_BLOCKS < di_blocks (si_din sin) + k"
    and "total_needed (si_din sin) (MAX_BLOCKS - di_blocks (si_din sin)) \<le> card (free_blocks s)"
  shows "truncate_grow D (di_blocks (si_din sin)) k sin s = None"
  using assms
proof (induction k arbitrary: s sin)
  case 0
  then show ?case by (simp add: file_ok_def)
next
  case (Suc k)
  let ?n = "di_blocks (si_din sin)"
  show ?case
  proof (cases "?n = MAX_BLOCKS")
    case True
    then show ?thesis by (simp add: sfs_bmap_load_nolock_def sfs_bmap_get_nolock_def sizes)
  next
    case False
    then have n: "?n < MAX_BLOCKS" using Suc.prems(2) by (simp add: file_ok_def)
    then have left: "MAX_BLOCKS - ?n = Suc (MAX_BLOCKS - (?n + 1))" by simp
    then have "blocks_needed (si_din sin) \<le> card (free_blocks s)"
      using Suc.prems(4) needed_first [of "si_din sin" "MAX_BLOCKS - (?n + 1)"] by simp
    then obtain s1 sin1 b where l: "sfs_bmap_load_nolock D sin ?n s = Some (s1, sin1, Inr b)" "grown D ok block s sin s1 sin1 b"
      "card (free_blocks s1) + blocks_needed (si_din sin) = card (free_blocks s)"
      using load_grows [OF Suc.prems(1,2) n] by blast
    have p: "fs_ok D ok s1" "file_ok (block (sfs_dev s1)) (used_blocks s1) (si_din sin1)" "di_blocks (si_din sin1) = ?n + 1"
      using l(2) by (simp_all add: grown_def)
    have "total_needed (si_din sin1) (MAX_BLOCKS - (?n + 1)) \<le> card (free_blocks s1)"
      using needed_step [OF l(2) Suc.prems(2,1), of "MAX_BLOCKS - (?n + 1)"] l(3) Suc.prems(4) left by simp
    then have "truncate_grow D (?n + 1) k sin1 s1 = None" using Suc.IH [OF p(1,2)] Suc.prems(3) p(3) by simp
    then show ?thesis using l(1) by simp
  qed
qed

lemma shortened_step:
  assumes g: "shrunk s sin s1 sin1" and n: "di_blocks (si_din sin) = Suc m" "n \<le> m" and c: "shortened D ok block s1 sin1 n s' sin'"
  shows "shortened D ok block s sin n s' sin'"
proof -
  let ?f = "blkmap (block (sfs_dev s)) (si_din sin)" and ?f1 = "blkmap (block (sfs_dev s1)) (si_din sin1)"
  have f1: "\<forall>j<m. ?f1 j = ?f j" and n1: "di_blocks (si_din sin1) = m" and fr1: "free_blocks s1 = insert (?f m) (free_blocks s)"
    using g n(1) by (simp_all add: shrunk_def)
  have "?f1 ` {n..<m} = ?f ` {n..<m}" using f1 by (intro image_cong) auto
  moreover have "{n..<Suc m} = insert m {n..<m}" using n(2) by auto
  ultimately have "free_blocks s' = free_blocks s \<union> ?f ` {n..<Suc m}" using c fr1 n1 by (auto simp: shortened_def)
  moreover have "\<forall>j<n. blkmap (block (sfs_dev s')) (si_din sin') j = ?f j" using c f1 n(2) by (simp add: shortened_def)
  ultimately show ?thesis using c g n(1) by (simp add: shortened_def shrunk_def)
qed

lemma truncate_shrink_ok:
  assumes "fs_ok D ok s" and "file_ok (block (sfs_dev s)) (used_blocks s) (si_din sin)" and "di_blocks (si_din sin) = n + k"
  shows "\<exists>s' sin'. truncate_shrink D k sin s = Some (s', sin', 0) \<and> shortened D ok block s sin n s' sin'"
  using assms
proof (induction k arbitrary: s sin)
  case 0
  then show ?case by (simp add: shortened_def)
next
  case (Suc k)
  have m: "di_blocks (si_din sin) = Suc (n + k)" using Suc.prems(3) by simp
  obtain s1 sin1 where t: "sfs_bmap_truncate_nolock D sin s = Some (s1, sin1, 0)" "shrunk s sin s1 sin1"
    using truncate_ok [OF Suc.prems(1,2) m] by blast
  have p: "fs_ok D ok s1" "file_ok (block (sfs_dev s1)) (used_blocks s1) (si_din sin1)" "di_blocks (si_din sin1) = n + k"
    using t(2) m by (simp_all add: shrunk_def)
  obtain s' sin' where r: "truncate_shrink D k sin1 s1 = Some (s', sin', 0)" "shortened D ok block s1 sin1 n s' sin'"
    using Suc.IH [OF p] by blast
  have "truncate_shrink D (Suc k) sin s = Some (s', sin', 0)" using t(1) r(1) by simp
  moreover have "shortened D ok block s sin n s' sin'" by (rule shortened_step [OF t(2) m _ r(2)]) simp
  ultimately show ?case by blast
qed

lemma roundup_blocks: "len \<le> SFS_MAX_FILE_SIZE \<Longrightarrow> ROUNDUP_DIV (nat len) BLKSIZE = (nat len + 4095) div 4096"
proof -
  assume "len \<le> SFS_MAX_FILE_SIZE"
  then have n: "nat len \<le> 134217728" by (simp add: SFS_MAX_FILE_SIZE_def)
  then have "(nat len + 4095) div 4096 \<le> 134221823 div 4096" by (intro div_le_mono) simp
  then show ?thesis using n by (simp add: ROUNDUP_DIV_def sizes u32_def u64_def)
qed

lemma truncfile_grows:
  assumes ok: "fs_ok D ok s" and fo: "file_ok (block (sfs_dev s)) (used_blocks s) (si_din sin)"
    and len: "0 \<le> len" "len \<noteq> int (di_size (si_din sin))" "len \<le> SFS_MAX_FILE_SIZE"
    and t: "t = ROUNDUP_DIV (nat len) BLKSIZE" "di_blocks (si_din sin) < t" "t \<le> MAX_BLOCKS"
  shows "\<exists>s' sin' i. i \<le> t - di_blocks (si_din sin) \<and> extended D ok block s sin i s' sin' \<and>
    sfs_truncfile D len sin s =
      (if total_needed (si_din sin) (t - di_blocks (si_din sin)) \<le> card (free_blocks s)
       then Some (s', set_size (nat len) sin', 0) else Some (s', sin', - E_NO_MEM)) \<and>
    (i = t - di_blocks (si_din sin) \<longleftrightarrow> total_needed (si_din sin) (t - di_blocks (si_din sin)) \<le> card (free_blocks s))"
proof -
  let ?n = "di_blocks (si_din sin)"
  have small: "\<not> SFS_MAX_FILE_SIZE < len" using len(3) by simp
  have "?n + (t - ?n) \<le> MAX_BLOCKS" using t by simp
  from truncate_grow_ok [OF ok fo this] obtain s' sin' i where r:
    "truncate_grow D ?n (t - ?n) sin s = Some (s', sin', if total_needed (si_din sin) (t - ?n) \<le> card (free_blocks s) then 0 else - E_NO_MEM)"
    "extended D ok block s sin i s' sin'" "i \<le> t - ?n" "i = t - ?n \<longleftrightarrow> total_needed (si_din sin) (t - ?n) \<le> card (free_blocks s)"
    by blast
  show ?thesis
  proof (cases "total_needed (si_din sin) (t - ?n) \<le> card (free_blocks s)")
    case True
    then have "i = t - ?n" using r(4) by blast
    then have "di_blocks (si_din sin') = t" using r(2) t(2) by (simp add: extended_def)
    then have "sfs_truncfile D len sin s = Some (s', set_size (nat len) sin', 0)"
      using True r(1) len small t(2) unfolding t(1) [symmetric] sfs_truncfile_def by (simp add: set_size_def Let_def flip: t(1))
    then show ?thesis using True r by auto
  next
    case False
    then have "sfs_truncfile D len sin s = Some (s', sin', - E_NO_MEM)"
      using r(1) len small t(2) by (simp add: sfs_truncfile_def Let_def E_NO_MEM_def flip: t(1))
    then show ?thesis using False r by auto
  qed
qed

lemma truncfile_shrinks:
  assumes ok: "fs_ok D ok s" and fo: "file_ok (block (sfs_dev s)) (used_blocks s) (si_din sin)"
    and len: "0 \<le> len" "len \<noteq> int (di_size (si_din sin))" "len \<le> SFS_MAX_FILE_SIZE"
    and t: "t = ROUNDUP_DIV (nat len) BLKSIZE" "t \<le> di_blocks (si_din sin)"
  shows "\<exists>s' sin'. sfs_truncfile D len sin s = Some (s', set_size (nat len) sin', 0) \<and> shortened D ok block s sin t s' sin'"
proof -
  let ?n = "di_blocks (si_din sin)"
  have nm: "?n \<le> MAX_BLOCKS" using fo by (simp add: file_ok_def)
  have small: "\<not> SFS_MAX_FILE_SIZE < len" using len(3) by simp
  have "?n = t + (?n - t)" using t(2) by simp
  from truncate_shrink_ok [OF ok fo this] obtain s' sin' where r:
    "truncate_shrink D (?n - t) sin s = Some (s', sin', 0)" "shortened D ok block s sin t s' sin'" by blast
  have "di_blocks (si_din sin') = t" using r(2) by (simp add: shortened_def)
  then have "sfs_truncfile D len sin s = Some (s', set_size (nat len) sin', 0)"
    using r(1) len small t(2) by (simp add: sfs_truncfile_def set_size_def Let_def flip: t(1))
  then show ?thesis using r(2) by blast
qed

lemma truncfile_stops:
  assumes ok: "fs_ok D ok s" and fo: "file_ok (block (sfs_dev s)) (used_blocks s) (si_din sin)"
    and len: "len \<noteq> int (di_size (si_din sin))" "int (MAX_BLOCKS * BLKSIZE) < len" "len \<le> SFS_MAX_FILE_SIZE"
    and room: "total_needed (si_din sin) (MAX_BLOCKS - di_blocks (si_din sin)) \<le> card (free_blocks s)"
  shows "sfs_truncfile D len sin s = None"
proof -
  let ?n = "di_blocks (si_din sin)" and ?t = "ROUNDUP_DIV (nat len) BLKSIZE"
  have nm: "?n \<le> MAX_BLOCKS" using fo by (simp add: file_ok_def)
  have t: "MAX_BLOCKS < ?t" using len(2,3) roundup_blocks [OF len(3)] by (simp add: sizes)
  then have "truncate_grow D ?n (?t - ?n) sin s = None"
    using truncate_grow_stops [OF ok fo _ room, of "?t - ?n"] nm by simp
  moreover have "\<not> len < 0" using len(2) unfolding sizes by linarith
  moreover have "\<not> SFS_MAX_FILE_SIZE < len" "int (di_size (si_din sin)) \<noteq> len" "?n < ?t"
    using len t nm by simp_all
  ultimately show ?thesis by (simp add: sfs_truncfile_def Let_def)
qed

text \<open>Whatever the length, the blocks are as after growing or cutting.\<close>

lemma truncate_grow_result:
  assumes "fs_ok D ok s" and "file_ok (block (sfs_dev s)) (used_blocks s) (si_din sin)"
    and "truncate_grow D (di_blocks (si_din sin)) k sin s = Some (s', sin', r)"
  shows "\<exists>i. extended D ok block s sin i s' sin'"
  using assms
proof (induction k arbitrary: s sin)
  case 0
  then show ?case using extended_refl [OF 0(1,2)] by auto
next
  case (Suc k)
  let ?n = "di_blocks (si_din sin)"
  have "?n \<noteq> MAX_BLOCKS"
    using Suc.prems(3) by (auto simp: sfs_bmap_load_nolock_def sfs_bmap_get_nolock_def sizes)
  then have n: "?n < MAX_BLOCKS" using Suc.prems(2) by (simp add: file_ok_def)
  show ?case
  proof (cases "blocks_needed (si_din sin) \<le> card (free_blocks s)")
    case True
    then obtain s1 sin1 b where l: "sfs_bmap_load_nolock D sin ?n s = Some (s1, sin1, Inr b)" "grown D ok block s sin s1 sin1 b"
      using load_grows [OF Suc.prems(1,2) n] by blast
    have p: "fs_ok D ok s1" "file_ok (block (sfs_dev s1)) (used_blocks s1) (si_din sin1)" "di_blocks (si_din sin1) = ?n + 1"
      using l(2) by (simp_all add: grown_def)
    have "truncate_grow D (di_blocks (si_din sin1)) k sin1 s1 = Some (s', sin', r)"
      using Suc.prems(3) l(1) p(3) by simp
    then show ?thesis using Suc.IH [OF p(1,2)] extended_step [OF l(2) _ Suc.prems(1,2)] by blast
  next
    case False
    then obtain s1 where l: "sfs_bmap_load_nolock D sin ?n s = Some (s1, sin, Inl (- E_NO_MEM))" "fs_ok D ok s1"
      "free_blocks s1 = free_blocks s" "nr_blocks s1 = nr_blocks s"
      "\<forall>c. c \<notin> free_blocks s \<longrightarrow> block (sfs_dev s1) c = block (sfs_dev s) c"
      using load_full [OF Suc.prems(1,2) n] by auto
    have "extended D ok block s sin 0 s1 sin"
      by (rule extended_same [OF extended_refl [OF Suc.prems(1,2)] l(2-5)])
    then show ?thesis using Suc.prems(3) l(1) by auto
  qed
qed

lemma truncfile_result:
  assumes ok: "fs_ok D ok s" and fo: "file_ok (block (sfs_dev s)) (used_blocks s) (si_din sin)"
    and t: "sfs_truncfile D len sin s = Some (s', sin', r)"
  shows "\<exists>sin0. (sin' = sin0 \<or> sin' = set_size (nat len) sin0) \<and>
    ((\<exists>i. extended D ok block s sin i s' sin0) \<or> (\<exists>n \<le> di_blocks (si_din sin). shortened D ok block s sin n s' sin0))"
proof -
  let ?n = "di_blocks (si_din sin)" and ?t = "ROUNDUP_DIV (nat len) BLKSIZE"
  consider (same) "s' = s" "sin' = sin"
    | (grow) s1 sin1 r1 where "truncate_grow D ?n (?t - ?n) sin s = Some (s1, sin1, r1)" "s' = s1"
        "sin' = sin1 \<or> sin' = set_size (nat len) sin1"
    | (shrink) s1 sin1 r1 where "?t \<le> ?n" "truncate_shrink D (?n - ?t) sin s = Some (s1, sin1, r1)" "s' = s1"
        "sin' = sin1 \<or> sin' = set_size (nat len) sin1"
    using t unfolding sfs_truncfile_def Let_def set_size_def [symmetric]
    by (cases "?n < ?t") (auto split: if_splits bind_splits prod.splits)
  then show ?thesis
  proof cases
    case same
    then show ?thesis using extended_refl [OF ok fo] by blast
  next
    case grow
    then show ?thesis using truncate_grow_result [OF ok fo] by blast
  next
    case shrink
    have "?n = ?t + (?n - ?t)" using shrink(1) by simp
    then show ?thesis using truncate_shrink_ok [OF ok fo] shrink by (metis Pair_inject option.inject)
  qed
qed

lemma owned_used:
  "file_ok bl U di \<Longrightarrow> owned bl di \<subseteq> U"
  by (auto simp: owned_def file_ok_def)

lemma isolated:
  assumes fb: "file_ok (block (sfs_dev s)) (used_blocks s) db"
    and same: "\<And>c. c \<in> owned (block (sfs_dev s)) db \<Longrightarrow> block (sfs_dev s') c = block (sfs_dev s) c"
    and used: "owned (block (sfs_dev s)) db \<subseteq> used_blocks s'"
    and mine: "owned (block (sfs_dev s')) da' \<subseteq> owned (block (sfs_dev s)) da \<union> free_blocks s"
    and dis: "owned (block (sfs_dev s)) da \<inter> owned (block (sfs_dev s)) db = {}"
  shows "file_ok (block (sfs_dev s')) (used_blocks s') db" and "owned (block (sfs_dev s')) db = owned (block (sfs_dev s)) db"
    and "owned (block (sfs_dev s')) da' \<inter> owned (block (sfs_dev s')) db = {}"
    and "blkmap (block (sfs_dev s')) db = blkmap (block (sfs_dev s)) db"
proof -
  have "di_indirect db \<noteq> 0 \<Longrightarrow> block (sfs_dev s') (di_indirect db) = block (sfs_dev s) (di_indirect db)"
    by (rule same) (simp add: owned_def)
  then show bm: "blkmap (block (sfs_dev s')) db = blkmap (block (sfs_dev s)) db"
    by (auto simp: blkmap_def fun_eq_iff)
  then show ow: "owned (block (sfs_dev s')) db = owned (block (sfs_dev s)) db" by (simp add: owned_def)
  show "file_ok (block (sfs_dev s')) (used_blocks s') db"
    using fb used unfolding file_ok_def bm by (auto simp: owned_def)
  show "owned (block (sfs_dev s')) da' \<inter> owned (block (sfs_dev s')) db = {}"
    using mine dis owned_used [OF fb] unfolding ow by (fastforce simp: used_blocks_def)
qed

lemma extended_owned:
  assumes e: "extended D ok block s sin i s' sin'"
  shows "owned (block (sfs_dev s')) (si_din sin') \<subseteq> owned (block (sfs_dev s)) (si_din sin) \<union> free_blocks s"
proof -
  let ?n = "di_blocks (si_din sin)"
  have "blkmap (block (sfs_dev s')) (si_din sin') j \<in> blkmap (block (sfs_dev s)) (si_din sin) ` {..<?n} \<union> free_blocks s"
    if "j < ?n + i" for j
    using e that by (cases "j < ?n") (simp_all add: extended_def)
  then show ?thesis using e by (auto simp: owned_def extended_def)
qed

lemma extended_isolated:
  assumes e: "extended D ok block s sin i s' sin'" and fb: "file_ok (block (sfs_dev s)) (used_blocks s) db"
    and dis: "owned (block (sfs_dev s)) (si_din sin) \<inter> owned (block (sfs_dev s)) db = {}"
  shows "\<forall>c \<in> owned (block (sfs_dev s)) db. block (sfs_dev s') c = block (sfs_dev s) c"
    and "owned (block (sfs_dev s)) db \<subseteq> used_blocks s'"
proof -
  have u: "owned (block (sfs_dev s)) db \<subseteq> used_blocks s" by (rule owned_used [OF fb])
  have "c \<noteq> di_indirect (si_din sin)" if "c \<in> owned (block (sfs_dev s)) db" for c
    using u that dis by (cases "c = 0") (auto simp: owned_def used_blocks_def)
  then show "\<forall>c \<in> owned (block (sfs_dev s)) db. block (sfs_dev s') c = block (sfs_dev s) c"
    using e u by (auto simp: extended_def used_blocks_def)
  show "owned (block (sfs_dev s)) db \<subseteq> used_blocks s'" using e u by (auto simp: extended_def used_blocks_def)
qed

lemma shortened_isolated:
  assumes e: "shortened D ok block s sin n s' sin'" and le: "n \<le> di_blocks (si_din sin)"
    and fb: "file_ok (block (sfs_dev s)) (used_blocks s) db"
    and dis: "owned (block (sfs_dev s)) (si_din sin) \<inter> owned (block (sfs_dev s)) db = {}"
  shows "\<forall>c \<in> owned (block (sfs_dev s)) db. block (sfs_dev s') c = block (sfs_dev s) c"
    and "owned (block (sfs_dev s)) db \<subseteq> used_blocks s'"
    and "owned (block (sfs_dev s')) (si_din sin') \<subseteq> owned (block (sfs_dev s)) (si_din sin) \<union> free_blocks s"
proof -
  have u: "owned (block (sfs_dev s)) db \<subseteq> used_blocks s" by (rule owned_used [OF fb])
  have "c \<noteq> di_indirect (si_din sin)" if "c \<in> owned (block (sfs_dev s)) db" for c
    using u that dis by (cases "c = 0") (auto simp: owned_def used_blocks_def)
  then show "\<forall>c \<in> owned (block (sfs_dev s)) db. block (sfs_dev s') c = block (sfs_dev s) c"
    using e by (auto simp: shortened_def)
  have "free_blocks s' \<subseteq> free_blocks s \<union> owned (block (sfs_dev s)) (si_din sin)" "nr_blocks s' = nr_blocks s"
    using e by (auto simp: shortened_def owned_def)
  then show "owned (block (sfs_dev s)) db \<subseteq> used_blocks s'" using u dis by (fastforce simp: used_blocks_def)
  have "blkmap (block (sfs_dev s')) (si_din sin') ` {..<n} \<subseteq> blkmap (block (sfs_dev s)) (si_din sin) ` {..<di_blocks (si_din sin)}"
    using e le by (fastforce simp: shortened_def)
  then show "owned (block (sfs_dev s')) (si_din sin') \<subseteq> owned (block (sfs_dev s)) (si_din sin) \<union> free_blocks s"
    using e by (auto simp: owned_def shortened_def)
qed

end

section \<open>The file system on disk0\<close>

abbreviation drive_of :: "nat \<Rightarrow> ramdisk \<Rightarrow> bool" where
  "drive_of nr \<equiv> \<lambda>d. drive_ok d \<and> disk0_blocks d = nr"

abbreviation sfs_ok :: "nat \<Rightarrow> ramdisk sfs_fs \<Rightarrow> bool" where
  "sfs_ok nr s \<equiv> fs_ok (disk0 nr) (drive_of nr) s"

abbreviation contents :: "ramdisk sfs_fs \<Rightarrow> nat \<Rightarrow> byte list" where
  "contents s \<equiv> disk0_block (sfs_dev s)"

abbreviation file_in :: "ramdisk sfs_fs \<Rightarrow> sfs_inode \<Rightarrow> bool" where
  "file_in s sin \<equiv> file_ok (contents s) (used_blocks s) (si_din sin)"

abbreviation blocks_of :: "ramdisk sfs_fs \<Rightarrow> sfs_inode \<Rightarrow> nat set" where
  "blocks_of s sin \<equiv> owned (contents s) (si_din sin)"

lemma set_size_map [simp]: "blkmap bl (si_din (set_size n sin)) = blkmap bl (si_din sin)"
  by (simp add: fun_eq_iff blkmap_def set_size_def upd_din_def)

lemma set_size_blocks [simp]:
  "owned bl (si_din (set_size n sin)) = owned bl (si_din sin)"
  "file_ok bl U (si_din (set_size n sin)) = file_ok bl U (si_din sin)"
  unfolding owned_def file_ok_def set_size_map by (simp_all add: set_size_def upd_din_def)

text \<open>C34.
  Files do not touch each other: if two inodes own disjoint sets of blocks (data blocks and
  indirect block), then changing the length of one of them, whatever the length and whatever the
  result, keeps the file system and both inodes well formed and their blocks disjoint, and every
  block of the other file keeps its place and its contents.\<close>
theorem truncfile_isolates:
  assumes "sfs_ok nr s" and "file_in s sa" and "file_in s sb" and "blocks_of s sa \<inter> blocks_of s sb = {}"
    and "sfs_truncfile (disk0 nr) len sa s = Some (s', sa', r)"
  shows "sfs_ok nr s' \<and> file_in s' sa' \<and> file_in s' sb \<and> blocks_of s' sa' \<inter> blocks_of s' sb = {} \<and>
    blkmap (contents s') (si_din sb) = blkmap (contents s) (si_din sb) \<and>
    (\<forall>c \<in> blocks_of s sb. contents s' c = contents s c)"
proof -
  obtain sin0 where z: "sa' = sin0 \<or> sa' = set_size (nat len) sin0"
    and c: "(\<exists>i. extended (disk0 nr) (drive_of nr) disk0_block s sa i s' sin0) \<or>
      (\<exists>n \<le> di_blocks (si_din sa). shortened (disk0 nr) (drive_of nr) disk0_block s sa n s' sin0)"
    using d0.truncfile_result [OF assms(1,2,5)] by blast
  have i: "\<forall>c \<in> blocks_of s sb. contents s' c = contents s c" "blocks_of s sb \<subseteq> used_blocks s'"
      "blocks_of s' sin0 \<subseteq> blocks_of s sa \<union> free_blocks s" "sfs_ok nr s'" "file_in s' sin0"
    if e: "extended (disk0 nr) (drive_of nr) disk0_block s sa i s' sin0" for i
    using d0.extended_isolated [OF e assms(3,4)] d0.extended_owned [OF e] e by (simp_all add: extended_def)
  moreover have i': "\<forall>c \<in> blocks_of s sb. contents s' c = contents s c" "blocks_of s sb \<subseteq> used_blocks s'"
      "blocks_of s' sin0 \<subseteq> blocks_of s sa \<union> free_blocks s" "sfs_ok nr s'" "file_in s' sin0"
    if e: "shortened (disk0 nr) (drive_of nr) disk0_block s sa n s' sin0" "n \<le> di_blocks (si_din sa)" for n
    using d0.shortened_isolated [OF e assms(3,4)] e by (simp_all add: shortened_def)
  ultimately have i: "\<forall>c \<in> blocks_of s sb. contents s' c = contents s c" "blocks_of s sb \<subseteq> used_blocks s'"
      "blocks_of s' sin0 \<subseteq> blocks_of s sa \<union> free_blocks s" "sfs_ok nr s'" "file_in s' sin0"
    using c by blast+
  note b = d0.isolated [OF assms(3) _ i(2,3) assms(4)]
  have "file_in s' sa'" "blocks_of s' sa' = blocks_of s' sin0" using z i(5) by auto
  then show ?thesis using i(1,4) b by auto
qed

text \<open>Growing a file: if the free blocks are enough for the new data blocks, and for the indirect
  block when the file gets its thirteenth block, \<open>sfs_truncfile\<close> succeeds with the new size, the old
  blocks stay in place and the new ones were free and hold zeros; otherwise it returns
  \<open>-E_NO_MEM\<close> with the old size and whatever blocks there were, and the file stays well formed.\<close>
theorem truncfile_extends:
  assumes "sfs_ok nr s" and "file_in s sin" and "0 \<le> len" "len \<noteq> int (di_size (si_din sin))" "len \<le> SFS_MAX_FILE_SIZE"
    and "t = ROUNDUP_DIV (nat len) BLKSIZE" "di_blocks (si_din sin) < t" "t \<le> MAX_BLOCKS"
  shows "\<exists>s' sin' i. i \<le> t - di_blocks (si_din sin) \<and> extended (disk0 nr) (drive_of nr) disk0_block s sin i s' sin' \<and>
    sfs_truncfile (disk0 nr) len sin s =
      (if total_needed (si_din sin) (t - di_blocks (si_din sin)) \<le> card (free_blocks s)
       then Some (s', set_size (nat len) sin', 0) else Some (s', sin', - E_NO_MEM)) \<and>
    (i = t - di_blocks (si_din sin) \<longleftrightarrow> total_needed (si_din sin) (t - di_blocks (si_din sin)) \<le> card (free_blocks s))"
  by (rule d0.truncfile_grows [OF assms])

text \<open>Shrinking a file always succeeds: exactly the blocks behind the new end become free, the blocks
  before it stay in place with their contents.\<close>
theorem truncfile_cuts:
  assumes "sfs_ok nr s" and "file_in s sin" and "0 \<le> len" "len \<noteq> int (di_size (si_din sin))" "len \<le> SFS_MAX_FILE_SIZE"
    and "t = ROUNDUP_DIV (nat len) BLKSIZE" "t \<le> di_blocks (si_din sin)"
  shows "\<exists>s' sin'. sfs_truncfile (disk0 nr) len sin s = Some (s', set_size (nat len) sin', 0) \<and>
    shortened (disk0 nr) (drive_of nr) disk0_block s sin t s' sin'"
  by (rule d0.truncfile_shrinks [OF assms])

text \<open>A length that is allowed by \<open>SFS_MAX_FILE_SIZE\<close> (128 MB) but needs more than the 1036 blocks an
  inode can address stops the kernel, unless the disk is full before: there is no error return.\<close>
theorem truncfile_too_long:
  assumes "sfs_ok nr s" and "file_in s sin" and "len \<noteq> int (di_size (si_din sin))"
    and "int (MAX_BLOCKS * BLKSIZE) < len" "len \<le> SFS_MAX_FILE_SIZE"
    and "total_needed (si_din sin) (MAX_BLOCKS - di_blocks (si_din sin)) \<le> card (free_blocks s)"
  shows "sfs_truncfile (disk0 nr) len sin s = None"
  by (rule d0.truncfile_stops [OF assms])

text \<open>\<open>sfs_dirent_search_nolock\<close> finds the first slot whose entry is in use and has the name, with its
  inode number, and returns \<open>-E_NOENT\<close> when there is none; the empty slot it reports is the last one
  before the place where the search ended, the number of slots if there was none.  The disk is
  only read.\<close>
theorem dirent_search_first:
  assumes "sfs_ok nr s" and "file_in s sin" and "di_type (si_din sin) = SFS_TYPE_DIR" and "length name \<le> SFS_MAX_FNAME_LEN"
  shows "\<exists>s'. sfs_dirent_search_nolock (disk0 nr) True name sin s = Some (s', sin,
      (let e = dirent disk0_block s sin; n = di_blocks (si_din sin)
       in case List.find (\<lambda>i. de_ino (e i) \<noteq> 0 \<and> cstr (de_name (e i)) = name) [0..<n] of
            None \<Rightarrow> (- E_NOENT, None, Some (last_empty e n 0 n))
          | Some j \<Rightarrow> (0, Some (de_ino (e j), j), Some (last_empty e n 0 j)))) \<and>
    same_map s s' \<and> contents s' = contents s"
proof -
  let ?e = "dirent disk0_block s sin" and ?n = "di_blocks (si_din sin)"
  have n: "(\<lambda>i. de_ino (?e i) \<noteq> 0 \<and> cstr (de_name (?e i)) = name) = names ?e name" by (simp add: names_def fun_eq_iff)
  obtain s' where "dirent_search_loop (disk0 nr) name 0 ?n ?n sin s = Some (s', sin,
      (case first_slot (names ?e name) 0 (0 + ?n) of
         None \<Rightarrow> (- E_NOENT, None, last_empty ?e ?n 0 (0 + ?n))
       | Some j \<Rightarrow> (0, Some (de_ino (?e j), j), last_empty ?e ?n 0 j)))" "same_map s s'" "contents s' = contents s"
    using d0.search_loop_ok [OF assms(1-3), of 0 ?n name ?n] by auto
  then show ?thesis unfolding Let_def n using assms(4)
    by (cases "List.find (names ?e name) [0..<?n]") (auto simp: sfs_dirent_search_nolock_def first_slot_def Let_def)
qed

section \<open>The properties at work\<close>

text \<open>A drive of 2048 blocks, the first five in use.  Block 4 holds the entry of a file \<open>a\<close> with inode 9.\<close>

definition sfs_sample :: "ramdisk sfs_fs" where
  "sfs_sample = \<lparr>super = \<lparr>su_magic = 0x2f8dbe2a, su_blocks = 2048, su_unused = 2043, su_info = replicate 32 0\<rparr>,
     sfs_dev = \<lparr>rd_valid = True, rd_size = 16384,
       rd_bytes = (\<lambda>i. if i = 4 * 4096 then 9 else if i = 4 * 4096 + 4 then 97 else 0), disk0_buffer = replicate 16384 0\<rparr>,
     freemap = \<lparr>bm_nbits = 32768, bm_nwords = 1024, bm_map = NOT (mask 5) # replicate 63 (- 1) @ replicate 960 0\<rparr>,
     super_dirty = False, sfs_buffer = replicate BLKSIZE 0\<rparr>"

definition inode_sample :: "nat \<Rightarrow> nat list \<Rightarrow> sfs_inode" where
  "inode_sample ty bs = \<lparr>si_din = \<lparr>di_size = length bs * BLKSIZE, di_type = ty, di_nlinks = 1, di_blocks = length bs,
     di_direct = bs @ replicate (12 - length bs) 0, di_indirect = 0\<rparr>, si_ino = 1, si_dirty = False, si_reclaim = 1\<rparr>"

lemma fs_sample_free: "free_blocks sfs_sample = {5..<2048}"
proof -
  have "i < 32768 \<and> bit ((NOT (mask 5) # replicate 63 (- 1) @ replicate 960 0 :: 32 word list) ! (i div 32)) (i mod 32)
      \<longleftrightarrow> 5 \<le> i \<and> i < 2048" for i :: nat
  proof -
    consider "i < 32" | "32 \<le> i" "i < 2048" | "2048 \<le> i" "i < 32768" | "32768 \<le> i" by linarith
    then show ?thesis
    proof cases
      case 1
      then show ?thesis by (auto simp: bit_simps)
    next
      case 2
      then have "0 < i div 32" "i div 32 < 64" by (auto simp: div_greater_zero_iff less_mult_imp_div_less)
      then show ?thesis using 2 by (simp add: nth_Cons' nth_append bit_simps)
    next
      case 3
      then have "64 \<le> i div 32" "i div 32 < 1024" by (auto simp: less_eq_div_iff_mult_less_eq less_mult_imp_div_less)
      then show ?thesis using 3 by (simp add: nth_Cons' nth_append)
    qed simp
  qed
  moreover have "bm_map (freemap sfs_sample) = NOT (mask 5) # replicate 63 (- 1) @ replicate 960 0" "bm_nwords (freemap sfs_sample) = 1024"
    by (simp_all only: sfs_sample_def sfs_fs.simps bitmap.simps)
  moreover have "WORD_BITS * 1024 = 32768" "WORD_BITS = 32" by (simp_all add: WORD_BITS_def)
  ultimately show ?thesis by (simp only: free_bits_def set_eq_iff mem_Collect_eq atLeastLessThan_iff simp_thms)
qed

lemma fs_sample_ok: "sfs_ok 2048 sfs_sample"
  using fs_sample_free
  by (auto simp: fs_ok_def bitmap_ok_def)
    (simp_all add: sfs_sample_def drive_ok_def disk0_blocks_def disk0_def DISK0_BUFSIZE_def DISK0_BLK_NSECT_def BLKSIZE_def
      SECTSIZE_def WORD_BITS_def)

lemma fs_sample_used: "used_blocks sfs_sample = {1, 2, 3, 4}"
  unfolding used_blocks_def fs_sample_free by (auto simp: sfs_sample_def)

lemma fs_sample_map:
  "length bs \<le> 12 \<Longrightarrow> blkmap bl (si_din (inode_sample ty bs)) i = (if i < length bs then bs ! i else 0)"
  by (simp add: blkmap_def inode_sample_def nth_append sizes)

lemma fs_sample_file:
  assumes "length bs \<le> 12" "distinct bs" "set bs \<subseteq> {1, 2, 3, 4}"
  shows "file_in sfs_sample (inode_sample ty bs)"
    and "blocks_of sfs_sample (inode_sample ty bs) = set bs"
proof -
  let ?di = "si_din (inode_sample ty bs)" and ?m = "blkmap (contents sfs_sample) (si_din (inode_sample ty bs))"
  have d: "length (di_direct ?di) = 12" "di_blocks ?di = length bs" "di_indirect ?di = 0"
    using assms(1) by (simp_all add: inode_sample_def)
  have m: "?m i = (if i < length bs then bs ! i else 0)" for i by (rule fs_sample_map [OF assms(1)])
  have im: "?m ` {..<length bs} = set bs" by (auto simp: m in_set_conv_nth)
  have nz: "bs ! i \<noteq> 0" if "i < length bs" for i using nth_mem [OF that] assms(3) by auto
  have "?m i \<noteq> 0 \<longleftrightarrow> i < length bs" for i using nz by (simp add: m)
  moreover have "inj_on ?m {..<length bs}" using assms(2) by (auto simp: inj_on_def m nth_eq_iff_index_eq)
  ultimately show "file_in sfs_sample (inode_sample ty bs)"
    using assms(1,3) by (simp add: file_ok_def d im fs_sample_used sizes)
  show "blocks_of sfs_sample (inode_sample ty bs) = set bs" by (simp add: owned_def d im)
qed

theorem truncfile_extends_witness:
  "\<exists>s' sin'. sfs_truncfile (disk0 2048) 60000 (inode_sample SFS_TYPE_FILE [3]) sfs_sample = Some (s', set_size 60000 sin', 0) \<and>
     di_blocks (si_din sin') = 15"
proof -
  have t: "ROUNDUP_DIV (nat 60000) BLKSIZE = 15" by (simp add: ROUNDUP_DIV_def BLKSIZE_def)
  have d: "di_blocks (si_din (inode_sample SFS_TYPE_FILE [3])) = 1" "di_size (si_din (inode_sample SFS_TYPE_FILE [3])) = 4096"
    by (simp_all add: inode_sample_def BLKSIZE_def)
  have n: "total_needed (si_din (inode_sample SFS_TYPE_FILE [3])) 14 = 15"
    by (simp add: total_needed_def inode_sample_def sizes)
  have fo: "file_in sfs_sample (inode_sample SFS_TYPE_FILE [3])" by (rule fs_sample_file) simp_all
  show ?thesis
    using truncfile_extends [OF fs_sample_ok fo, of 60000 15] t d n fs_sample_free
    by (auto simp: SFS_MAX_FILE_SIZE_def sizes extended_def)
qed

theorem truncfile_cuts_witness:
  "\<exists>s' sin'. sfs_truncfile (disk0 2048) 100 (inode_sample SFS_TYPE_FILE [3, 4]) sfs_sample = Some (s', set_size 100 sin', 0) \<and>
     free_blocks s' = insert 4 {5..<2048}"
proof -
  let ?i = "inode_sample SFS_TYPE_FILE [3, 4]"
  have t: "ROUNDUP_DIV (nat 100) BLKSIZE = 1" by (simp add: ROUNDUP_DIV_def BLKSIZE_def)
  have d: "di_blocks (si_din ?i) = 2" "di_size (si_din ?i) = 8192" by (simp_all add: inode_sample_def BLKSIZE_def)
  have fo: "file_in sfs_sample ?i" by (rule fs_sample_file) simp_all
  obtain s' sin' where r: "sfs_truncfile (disk0 2048) 100 ?i sfs_sample = Some (s', set_size (nat 100) sin', 0)"
    "shortened (disk0 2048) (drive_of 2048) disk0_block sfs_sample ?i 1 s' sin'"
    using truncfile_cuts [OF fs_sample_ok fo, of 100 1] t d by (auto simp: SFS_MAX_FILE_SIZE_def)
  have "{1..<2::nat} = {1}" by auto
  then have "free_blocks s' = insert 4 {5..<2048}"
    using r(2) d(1) fs_sample_map [of "[3, 4]" "contents sfs_sample" SFS_TYPE_FILE 1] by (simp add: shortened_def fs_sample_free)
  then show ?thesis using r(1) by auto
qed

theorem truncfile_too_long_witness:
  "sfs_truncfile (disk0 2048) 5000000 (inode_sample SFS_TYPE_FILE [3]) sfs_sample = None"
proof -
  have fo: "file_in sfs_sample (inode_sample SFS_TYPE_FILE [3])" by (rule fs_sample_file) simp_all
  show ?thesis
    by (rule truncfile_too_long [OF fs_sample_ok fo])
      (simp_all add: inode_sample_def sizes SFS_MAX_FILE_SIZE_def total_needed_def fs_sample_free)
qed

theorem truncfile_isolates_witness:
  "\<exists>s' sa'. sfs_truncfile (disk0 2048) 100 (inode_sample SFS_TYPE_FILE [4]) sfs_sample = Some (s', sa', 0) \<and>
     contents s' 3 = contents sfs_sample 3"
proof -
  let ?a = "inode_sample SFS_TYPE_FILE [4]" and ?b = "inode_sample SFS_TYPE_FILE [3]"
  have fa: "file_in sfs_sample ?a" "file_in sfs_sample ?b" by (rule fs_sample_file; simp)+
  have o: "blocks_of sfs_sample ?a = {4}" "blocks_of sfs_sample ?b = {3}"
    using fs_sample_file(2) [of "[4]"] fs_sample_file(2) [of "[3]"] by simp_all
  have t: "ROUNDUP_DIV (nat 100) BLKSIZE = 1" by (simp add: ROUNDUP_DIV_def BLKSIZE_def)
  have d: "di_blocks (si_din ?a) = 1" "di_size (si_din ?a) = 4096" by (simp_all add: inode_sample_def BLKSIZE_def)
  obtain s' sin' where r: "sfs_truncfile (disk0 2048) 100 ?a sfs_sample = Some (s', set_size (nat 100) sin', 0)"
    using d0.truncfile_shrinks [OF fs_sample_ok fa(1), of 100 1] t d by (auto simp: SFS_MAX_FILE_SIZE_def)
  show ?thesis using truncfile_isolates [OF fs_sample_ok fa _ r] r o by auto
qed

lemma fs_sample_entries:
  "dirent disk0_block sfs_sample (inode_sample SFS_TYPE_DIR [3, 4]) 0 = \<lparr>de_ino = 0, de_name = replicate 256 0\<rparr>"
  "dirent disk0_block sfs_sample (inode_sample SFS_TYPE_DIR [3, 4]) 1 = \<lparr>de_ino = 9, de_name = 97 # replicate 255 0\<rparr>"
proof -
  have b: "blkmap (contents sfs_sample) (si_din (inode_sample SFS_TYPE_DIR [3, 4])) 0 = 3"
    "blkmap (contents sfs_sample) (si_din (inode_sample SFS_TYPE_DIR [3, 4])) 1 = 4"
    using fs_sample_map [of "[3, 4]"] by simp_all
  have c: "contents sfs_sample b ! i = (if b = 4 \<and> i = 0 then 9 else if b = 4 \<and> i = 4 then 97 else 0)" if "i < BLKSIZE" for b i
  proof -
    have "contents sfs_sample b ! i = rd_bytes (sfs_dev sfs_sample) (b * BLKSIZE + i)"
      using that by (simp add: disk0_block_def bytes_at_def)
    then have v: "contents sfs_sample b ! i = (if b * 4096 + i = 4 * 4096 then 9 else if b * 4096 + i = 4 * 4096 + 4 then 97 else 0)"
      by (simp add: sfs_sample_def BLKSIZE_def)
    consider "b \<le> 3" | "b = 4" | "5 \<le> b" by linarith
    then show ?thesis unfolding v using that by cases (auto simp: BLKSIZE_def)
  qed
  have l: "length (contents sfs_sample b) = 4096" for b by (simp add: disk0_block_def BLKSIZE_def)
  have h: "take 4 (contents sfs_sample b) = [if b = 4 then 9 else 0, 0, 0, 0]" for b
    by (rule nth_equalityI) (auto simp: l c BLKSIZE_def nth_Cons')
  have n: "(drop 4 (take (4 + sfs_dentry_size) (contents sfs_sample b)))[SFS_MAX_FNAME_LEN := 0]
      = (if b = 4 then 97 else 0) # replicate 255 0" for b
    by (rule nth_equalityI) (auto simp: l c BLKSIZE_def nth_Cons' sfs_dentry_size_def SFS_MAX_FNAME_LEN_def nth_list_update)
  have t: "take 4 (take (4 + sfs_dentry_size) (contents sfs_sample b)) = take 4 (contents sfs_sample b)" for b by simp
  have r: "replicate 256 0 = (0 :: byte) # replicate 255 0" by (simp flip: replicate_Suc)
  show "dirent disk0_block sfs_sample (inode_sample SFS_TYPE_DIR [3, 4]) 0 = \<lparr>de_ino = 0, de_name = replicate 256 0\<rparr>"
    "dirent disk0_block sfs_sample (inode_sample SFS_TYPE_DIR [3, 4]) 1 = \<lparr>de_ino = 9, de_name = 97 # replicate 255 0\<rparr>"
    unfolding dirent_def decode_entry_def b t h n r by simp_all
qed

theorem dirent_search_first_witness:
  "\<exists>s'. sfs_dirent_search_nolock (disk0 2048) True [97] (inode_sample SFS_TYPE_DIR [3, 4]) sfs_sample
     = Some (s', inode_sample SFS_TYPE_DIR [3, 4], 0, Some (9, 1), Some 0)"
proof -
  let ?i = "inode_sample SFS_TYPE_DIR [3, 4]"
  have fo: "file_in sfs_sample ?i" by (rule fs_sample_file) simp_all
  have d: "di_type (si_din ?i) = SFS_TYPE_DIR" "di_blocks (si_din ?i) = 2" by (simp_all add: inode_sample_def)
  have u: "[0..<2] = [0, 1]" "[0..<1] = [0::nat]" by (simp_all add: upt_conv_Cons)
  show ?thesis
    using dirent_search_first [OF fs_sample_ok fo d(1), of "[97]"]
    by (auto simp: d(2) u Let_def fs_sample_entries [unfolded One_nat_def] fs_sample_entries cstr_def last_empty_def SFS_MAX_FNAME_LEN_def)
qed

end
