(* ===== verification/Sfs_Mount.thy ===== *)
theory Sfs_Mount
  imports Sfs_Inode Process
begin

text \<open>
  The Simple File System as a whole: the inodes in memory, their list and hash table, loading,
  reclaiming and looking up an inode (\<open>fs/sfs/sfs_inode.c\<close>), mounting, synchronising and
  unmounting (\<open>fs/sfs/sfs_fs.c\<close>).  A \<open>struct inode *\<close> is a number; the two linked lists of inodes
  are lists of such numbers.  The results of \<open>kmalloc\<close> are arguments: a truth value, or the number of
  the new inode.
\<close>

section \<open>The mounted file system\<close>

datatype sfs_ops = sfs_node_dirops | sfs_node_fileops

record sfs_node =
  nd_sin :: sfs_inode
  nd_ops :: sfs_ops
  nd_ref :: int
  nd_open :: int

record 'd sfs_mount =
  mt_fs :: "'d sfs_fs"
  mt_nodes :: "nat \<Rightarrow> sfs_node option"
  mt_list :: "nat list"
  mt_hash :: "nat \<Rightarrow> nat list"

definition SFS_MAGIC :: nat where "SFS_MAGIC = 0x2f8dbe2a"
definition SFS_BLKN_ROOT :: nat where "SFS_BLKN_ROOT = 1"

definition sin_hashfn :: "nat \<Rightarrow> nat" where
  "sin_hashfn ino = unat (hash32 (of_nat ino) 10)"

text \<open>The structures of \<open>sfs.h\<close> read from the disk; an inode takes 64 bytes, the super block 44.\<close>

definition decode_inode :: "byte list \<Rightarrow> disk_inode" where
  "decode_inode bs = \<lparr>di_size = unle (take 4 bs), di_type = unle (take 2 (drop 4 bs)), di_nlinks = unle (take 2 (drop 6 bs)),
     di_blocks = unle (take 4 (drop 8 bs)), di_direct = map (\<lambda>k. unle (take 4 (drop (12 + 4 * k) bs))) [0..<SFS_NDIRECT],
     di_indirect = unle (take 4 (drop 60 bs))\<rparr>"

definition decode_super :: "byte list \<Rightarrow> sfs_super" where
  "decode_super bs = \<lparr>su_magic = unle (take 4 bs), su_blocks = unle (take 4 (drop 4 bs)), su_unused = unle (take 4 (drop 8 bs)),
     su_info = take 32 (drop 12 bs)\<rparr>"

text \<open>An operation on one inode and the file system.\<close>

definition on_file :: "nat \<Rightarrow> (sfs_inode \<Rightarrow> 'd sfs_fs \<Rightarrow> ('d sfs_fs \<times> sfs_inode \<times> 'r) option) \<Rightarrow> 'd sfs_mount \<Rightarrow>
    ('d sfs_mount \<times> 'r) option" where
  "on_file a f m = do {
     n \<leftarrow> mt_nodes m a;
     (s, sin, r) \<leftarrow> f (nd_sin n) (mt_fs m);
     Some (m\<lparr>mt_fs := s, mt_nodes := (mt_nodes m)(a \<mapsto> n\<lparr>nd_sin := sin\<rparr>)\<rparr>, r) }"

section \<open>Inodes in memory\<close>

definition sfs_get_ops :: "nat \<Rightarrow> sfs_ops option" where
  "sfs_get_ops ty =
    (if ty = SFS_TYPE_DIR then Some sfs_node_dirops
     else if ty = SFS_TYPE_FILE then Some sfs_node_fileops else None)"

definition sfs_set_links :: "nat \<Rightarrow> nat \<Rightarrow> 'd sfs_mount \<Rightarrow> 'd sfs_mount" where
  "sfs_set_links a ino m =
    m\<lparr>mt_list := a # mt_list m, mt_hash := (mt_hash m)(sin_hashfn ino := a # mt_hash m (sin_hashfn ino))\<rparr>"

definition sfs_remove_links :: "nat \<Rightarrow> nat \<Rightarrow> 'd sfs_mount \<Rightarrow> 'd sfs_mount" where
  "sfs_remove_links a ino m =
    m\<lparr>mt_list := remove1 a (mt_list m), mt_hash := (mt_hash m)(sin_hashfn ino := remove1 a (mt_hash m (sin_hashfn ino)))\<rparr>"

definition sfs_create_inode :: "nat option \<Rightarrow> disk_inode \<Rightarrow> nat \<Rightarrow> 'd sfs_mount \<Rightarrow> ('d sfs_mount \<times> (int + nat)) option" where
  "sfs_create_inode addr din ino m =
    (case addr of
       None \<Rightarrow> Some (m, Inl (- E_NO_MEM))
     | Some a \<Rightarrow> do {
         ops \<leftarrow> sfs_get_ops (di_type din);
         Some (m\<lparr>mt_nodes := (mt_nodes m)(a \<mapsto>
           \<lparr>nd_sin = \<lparr>si_din = din, si_ino = ino, si_dirty = False, si_reclaim = 1\<rparr>, nd_ops = ops, nd_ref = 1, nd_open = 0\<rparr>)\<rparr>,
           Inr a) })"

fun lookup_loop :: "nat \<Rightarrow> nat list \<Rightarrow> 'd sfs_mount \<Rightarrow> nat option option" where
  "lookup_loop ino [] m = Some None"
| "lookup_loop ino (a # as) m = do {
     n \<leftarrow> mt_nodes m a;
     if si_ino (nd_sin n) = ino then Some (Some a) else lookup_loop ino as m }"

definition lookup_sfs_nolock :: "nat \<Rightarrow> 'd sfs_mount \<Rightarrow> ('d sfs_mount \<times> nat option) option" where
  "lookup_sfs_nolock ino m = do {
     r \<leftarrow> lookup_loop ino (mt_hash m (sin_hashfn ino)) m;
     (case r of
        None \<Rightarrow> Some (m, None)
      | Some a \<Rightarrow> do {
          n \<leftarrow> mt_nodes m a;
          let n = n\<lparr>nd_ref := nd_ref n + 1\<rparr>;
          let n = (if nd_ref n = 1 then n\<lparr>nd_sin := (nd_sin n)\<lparr>si_reclaim := si_reclaim (nd_sin n) + 1\<rparr>\<rparr> else n);
          Some (m\<lparr>mt_nodes := (mt_nodes m)(a \<mapsto> n)\<rparr>, Some a) }) }"

definition sfs_load_inode :: "'d dev_ops \<Rightarrow> bool \<Rightarrow> nat option \<Rightarrow> nat \<Rightarrow> 'd sfs_mount \<Rightarrow> ('d sfs_mount \<times> (int + nat)) option" where
  "sfs_load_inode D mem addr ino m = do {
     (m, r) \<leftarrow> lookup_sfs_nolock ino m;
     (case r of
        Some a \<Rightarrow> Some (m, Inr a)
      | None \<Rightarrow>
          if \<not> mem then Some (m, Inl (- E_NO_MEM))
          else do {
            u \<leftarrow> sfs_block_inuse ino (mt_fs m);
            assert_k u;
            (s, r) \<leftarrow> sfs_rbuf D 64 ino 0 (mt_fs m);
            let m = m\<lparr>mt_fs := s\<rparr>;
            (case r of
               Inl ret \<Rightarrow> Some (m, Inl ret)
             | Inr bs \<Rightarrow> do {
                 assert_k (di_nlinks (decode_inode bs) \<noteq> 0);
                 (m, r) \<leftarrow> sfs_create_inode addr (decode_inode bs) ino m;
                 (case r of
                    Inl ret \<Rightarrow> Some (m, Inl ret)
                  | Inr a \<Rightarrow> Some (sfs_set_links a ino m, Inr a)) }) }) }"

text \<open>The end of \<open>sfs_reclaim\<close>: the inode is unlinked, its blocks are freed when no name refers to
  it, and \<open>inode_kill\<close> checks the counts.\<close>

definition reclaim_done :: "nat \<Rightarrow> sfs_node \<Rightarrow> 'd sfs_mount \<Rightarrow> ('d sfs_mount \<times> int) option" where
  "reclaim_done a n m = do {
     let m = sfs_remove_links a (si_ino (nd_sin n)) m;
     let din = si_din (nd_sin n);
     s \<leftarrow> (if di_nlinks din = 0 then do {
            s \<leftarrow> sfs_block_free (si_ino (nd_sin n)) (mt_fs m);
            if di_indirect din \<noteq> 0 then sfs_block_free (di_indirect din) s else Some s }
          else Some (mt_fs m));
     assert_k (nd_ref n = 0);
     assert_k (nd_open n = 0);
     Some (m\<lparr>mt_fs := s, mt_nodes := (mt_nodes m)(a := None)\<rparr>, 0) }"

definition sfs_reclaim :: "'d dev_ops \<Rightarrow> nat \<Rightarrow> 'd sfs_mount \<Rightarrow> ('d sfs_mount \<times> int) option" where
  "sfs_reclaim D a m = do {
     n \<leftarrow> mt_nodes m a;
     assert_k (0 < si_reclaim (nd_sin n));
     let n = n\<lparr>nd_sin := (nd_sin n)\<lparr>si_reclaim := si_reclaim (nd_sin n) - 1\<rparr>\<rparr>;
     let m = m\<lparr>mt_nodes := (mt_nodes m)(a \<mapsto> n)\<rparr>;
     if si_reclaim (nd_sin n) \<noteq> 0 \<or> nd_ref n \<noteq> 0 then Some (m, - E_BUSY)
     else do {
       (m, ret) \<leftarrow>
         (if di_nlinks (si_din (nd_sin n)) = 0 then do {
            assert_k (nd_ops n = sfs_node_fileops);
            on_file a (sfs_truncfile D 0) m }
          else Some (m, 0));
       if ret \<noteq> 0 then Some (m, ret)
       else do {
         n \<leftarrow> mt_nodes m a;
         (m, ret) \<leftarrow> (if si_dirty (nd_sin n) then on_file a (sfs_fsync D) m else Some (m, 0));
         if ret \<noteq> 0 then Some (m, ret)
         else do { n \<leftarrow> mt_nodes m a; reclaim_done a n m } } } }"

text \<open>\<open>vop_ref_inc\<close> and \<open>vop_ref_dec\<close> on an inode of this file system.\<close>

definition node_ref_inc :: "nat \<Rightarrow> 'd sfs_mount \<Rightarrow> 'd sfs_mount option" where
  "node_ref_inc a m = do {
     n \<leftarrow> mt_nodes m a;
     Some (m\<lparr>mt_nodes := (mt_nodes m)(a \<mapsto> n\<lparr>nd_ref := nd_ref n + 1\<rparr>)\<rparr>) }"

definition node_ref_dec :: "'d dev_ops \<Rightarrow> nat \<Rightarrow> 'd sfs_mount \<Rightarrow> 'd sfs_mount option" where
  "node_ref_dec D a m = do {
     n \<leftarrow> mt_nodes m a;
     assert_k (0 < nd_ref n);
     let m = m\<lparr>mt_nodes := (mt_nodes m)(a \<mapsto> n\<lparr>nd_ref := nd_ref n - 1\<rparr>)\<rparr>;
     if nd_ref n - 1 = 0 then do { (m, _) \<leftarrow> sfs_reclaim D a m; Some m } else Some m }"

section \<open>Looking up names\<close>

definition sfs_lookup_once :: "'d dev_ops \<Rightarrow> bool \<times> bool \<times> nat option \<Rightarrow> nat \<Rightarrow> byte list \<Rightarrow> 'd sfs_mount \<Rightarrow>
    ('d sfs_mount \<times> (int + nat)) option" where
  "sfs_lookup_once D mem a name m = do {
     (m, ret, found, _) \<leftarrow> on_file a (sfs_dirent_search_nolock D (fst mem) name) m;
     if ret = 0 then (case found of
        None \<Rightarrow> None
      | Some (ino, _) \<Rightarrow> sfs_load_inode D (fst (snd mem)) (snd (snd mem)) ino m)
     else Some (m, Inl ret) }"

definition sfs_lookup :: "'d dev_ops \<Rightarrow> bool \<times> bool \<times> nat option \<Rightarrow> nat \<Rightarrow> byte list \<Rightarrow> 'd sfs_mount \<Rightarrow>
    ('d sfs_mount \<times> (int + nat)) option" where
  "sfs_lookup D mem a path m = do {
     assert_k (path \<noteq> [] \<and> hd path \<noteq> 47);
     m \<leftarrow> node_ref_inc a m;
     n \<leftarrow> mt_nodes m a;
     if di_type (si_din (nd_sin n)) \<noteq> SFS_TYPE_DIR then do { m \<leftarrow> node_ref_dec D a m; Some (m, Inl (- E_NOTDIR)) }
     else do {
       (m, r) \<leftarrow> sfs_lookup_once D mem a path m;
       m \<leftarrow> node_ref_dec D a m;
       Some (m, r) } }"

text \<open>\<open>sfs_namefile\<close> climbs to the root; \<open>mems\<close> are the results of \<open>kmalloc\<close> in each round, \<open>out\<close> the
  part of the path that is written already, from the end of the buffer.  On a directory tree with a
  cycle the loop does not end.\<close>

partial_function (option) namefile_loop :: "'d dev_ops \<Rightarrow> (nat \<Rightarrow> bool \<times> bool \<times> nat option) \<Rightarrow> nat \<Rightarrow> nat \<Rightarrow> nat \<Rightarrow> byte list \<Rightarrow>
    'd sfs_mount \<Rightarrow> ('d sfs_mount \<times> (int + byte list)) option" where
  "namefile_loop D mems k a resid out m =
     Option.bind (sfs_lookup_once D (mems k) a [46, 46] m) (\<lambda>(m, r).
       case r of
         Inl ret \<Rightarrow> Option.bind (node_ref_dec D a m) (\<lambda>m. Some (m, Inl ret))
       | Inr parent \<Rightarrow>
           Option.bind (mt_nodes m a) (\<lambda>n.
           Option.bind (node_ref_dec D a m) (\<lambda>m.
             if a = parent then Option.bind (node_ref_dec D a m) (\<lambda>m. Some (m, Inr out))
             else
               Option.bind (mt_nodes m parent) (\<lambda>p.
                 if si_ino (nd_sin n) \<noteq> si_ino (nd_sin p) \<and> di_type (si_din (nd_sin p)) = SFS_TYPE_DIR
                 then Option.bind (on_file parent (sfs_dirent_findino_nolock D (si_ino (nd_sin n))) m) (\<lambda>(m, e).
                   case e of
                     Inl ret \<Rightarrow> Option.bind (node_ref_dec D parent m) (\<lambda>m. Some (m, Inl ret))
                   | Inr e \<Rightarrow>
                       if resid < length (cstr (de_name e)) + 1
                       then Option.bind (node_ref_dec D parent m) (\<lambda>m. Some (m, Inl (- E_NO_MEM)))
                       else namefile_loop D mems (k + 1) parent (resid - (length (cstr (de_name e)) + 1)) (cstr (de_name e) @ 47 # out) m)
                 else None))))"

definition sfs_namefile :: "'d dev_ops \<Rightarrow> bool \<Rightarrow> (nat \<Rightarrow> bool \<times> bool \<times> nat option) \<Rightarrow> nat \<Rightarrow> nat \<Rightarrow> 'd sfs_mount \<Rightarrow>
    ('d sfs_mount \<times> (int + byte list)) option" where
  "sfs_namefile D mem mems a resid m =
    (if resid \<le> 2 \<or> \<not> mem then Some (m, Inl (- E_NO_MEM))
     else do {
       m \<leftarrow> node_ref_inc a m;
       (m, r) \<leftarrow> namefile_loop D mems 0 a (resid - 2) [] m;
       Some (m, map_sum id (\<lambda>out. 47 # out @ [0]) r) })"

section \<open>Synchronising and mounting\<close>

text \<open>The result of \<open>vop_fsync\<close> is not looked at.\<close>

fun sync_nodes :: "'d dev_ops \<Rightarrow> nat list \<Rightarrow> 'd sfs_mount \<Rightarrow> 'd sfs_mount option" where
  "sync_nodes D [] m = Some m"
| "sync_nodes D (a # as) m = do {
     (m, _) \<leftarrow> on_file a (sfs_fsync D) m;
     sync_nodes D as m }"

definition sfs_sync :: "'d dev_ops \<Rightarrow> 'd sfs_mount \<Rightarrow> ('d sfs_mount \<times> int) option" where
  "sfs_sync D m = do {
     m \<leftarrow> sync_nodes D (mt_list m) m;
     if super_dirty (mt_fs m) then do {
       (s, ret) \<leftarrow> sfs_sync_super D ((mt_fs m)\<lparr>super_dirty := False\<rparr>);
       if ret \<noteq> 0 then Some (m\<lparr>mt_fs := s\<lparr>super_dirty := True\<rparr>\<rparr>, ret)
       else do {
         (s, ret) \<leftarrow> sfs_sync_freemap D s;
         if ret \<noteq> 0 then Some (m\<lparr>mt_fs := s\<lparr>super_dirty := True\<rparr>\<rparr>, ret)
         else Some (m\<lparr>mt_fs := s\<rparr>, 0) } }
     else Some (m, 0) }"

definition sfs_get_root :: "'d dev_ops \<Rightarrow> bool \<Rightarrow> nat option \<Rightarrow> 'd sfs_mount \<Rightarrow> ('d sfs_mount \<times> nat) option" where
  "sfs_get_root D mem addr m = do {
     (m, r) \<leftarrow> sfs_load_inode D mem addr SFS_BLKN_ROOT m;
     (case r of Inl _ \<Rightarrow> None | Inr a \<Rightarrow> Some (m, a)) }"

definition sfs_unmount :: "'d sfs_mount \<Rightarrow> int option" where
  "sfs_unmount m =
    (if mt_list m \<noteq> [] then Some (- E_BUSY)
     else do { assert_k (\<not> super_dirty (mt_fs m)); Some 0 })"

text \<open>At most 32 attempts; the result is only printed.\<close>

fun cleanup_sync :: "'d dev_ops \<Rightarrow> nat \<Rightarrow> 'd sfs_mount \<Rightarrow> 'd sfs_mount option" where
  "cleanup_sync D 0 m = Some m"
| "cleanup_sync D (Suc k) m = do {
     (m, ret) \<leftarrow> sfs_sync D m;
     if ret = 0 then Some m else cleanup_sync D k m }"

definition sfs_cleanup :: "'d dev_ops \<Rightarrow> 'd sfs_mount \<Rightarrow> 'd sfs_mount option" where
  "sfs_cleanup D m = cleanup_sync D 32 m"

definition sfs_freemap_bits :: "sfs_super \<Rightarrow> nat" where
  "sfs_freemap_bits su = (let a = u64 (su_blocks su + SFS_BLKBITS - 1) in u32 (a - a mod SFS_BLKBITS))"

definition sfs_freemap_blocks :: "sfs_super \<Rightarrow> nat" where
  "sfs_freemap_blocks su = ROUNDUP_DIV (su_blocks su) SFS_BLKBITS"

definition sfs_init_read :: "'d dev_ops \<Rightarrow> nat \<Rightarrow> byte list \<Rightarrow> 'd \<Rightarrow> ('d \<times> byte list \<times> int) option" where
  "sfs_init_read D blkno buf d = d_io D False (int (u32 (blkno * BLKSIZE))) buf d"

fun init_freemap_loop :: "'d dev_ops \<Rightarrow> nat \<Rightarrow> nat \<Rightarrow> byte list \<Rightarrow> 'd \<Rightarrow> ('d \<times> byte list \<times> int) option" where
  "init_freemap_loop D blkno 0 data d = Some (d, data, 0)"
| "init_freemap_loop D blkno (Suc nblks) data d = do {
     (d, b, ret) \<leftarrow> sfs_init_read D blkno (take BLKSIZE data) d;
     if ret \<noteq> 0 then Some (d, b @ drop BLKSIZE data, ret)
     else do {
       (d, bs, ret) \<leftarrow> init_freemap_loop D (u32 (blkno + 1)) nblks (drop BLKSIZE data) d;
       Some (d, b @ bs, ret) } }"

definition words_of :: "byte list \<Rightarrow> 32 word list" where
  "words_of bs = map (\<lambda>k. of_nat (unle (take 4 (drop (4 * k) bs)))) [0..<length bs div 4]"

definition sfs_init_freemap :: "'d dev_ops \<Rightarrow> bitmap \<Rightarrow> nat \<Rightarrow> nat \<Rightarrow> 'd \<Rightarrow> ('d \<times> bitmap \<times> int) option" where
  "sfs_init_freemap D bmp blkno nblks d = do {
     assert_k (snd (bitmap_getdata bmp) = nblks * BLKSIZE);
     (d, bs, ret) \<leftarrow> init_freemap_loop D blkno nblks (map_bytes bmp) d;
     Some (d, bmp\<lparr>bm_map := words_of bs\<rparr>, ret) }"

fun count_loop :: "bitmap \<Rightarrow> nat \<Rightarrow> nat \<Rightarrow> nat \<Rightarrow> nat option" where
  "count_loop bmp i 0 n = Some n"
| "count_loop bmp i (Suc k) n = do {
     t \<leftarrow> bitmap_test bmp i;
     count_loop bmp (i + 1) k (if t then u32 (n + 1) else n) }"

text \<open>\<open>mem i\<close> says whether the \<open>i\<close>-th allocation succeeds: the file system, its buffer, the hash lists
  and the two of the bitmap; \<open>junk\<close> is what the new buffer holds.\<close>

definition sfs_do_mount :: "'d dev_ops \<Rightarrow> (nat \<Rightarrow> bool) \<Rightarrow> byte list \<Rightarrow> 'd \<Rightarrow> ('d \<times> (int + 'd sfs_mount)) option" where
  "sfs_do_mount D mem junk d =
    (if d_blocksize D \<noteq> BLKSIZE then Some (d, Inl (- E_NA_DEV))
     else if \<not> mem 0 \<or> \<not> mem 1 then Some (d, Inl (- E_NO_MEM))
     else do {
       (d, buf, ret) \<leftarrow> sfs_init_read D SFS_BLKN_SUPER junk d;
       if ret \<noteq> 0 then Some (d, Inl ret)
       else do {
         let su = decode_super buf;
         if su_magic su \<noteq> SFS_MAGIC \<or> d_blocks D < su_blocks su then Some (d, Inl (- E_INVAL))
         else do {
           let buf = buf[43 := 0];
           let su = decode_super buf;
           if \<not> mem 2 then Some (d, Inl (- E_NO_MEM))
           else do {
             fm \<leftarrow> bitmap_create (mem 3) (mem 4) (sfs_freemap_bits su);
             (case fm of
                None \<Rightarrow> Some (d, Inl (- E_NO_MEM))
              | Some bmp \<Rightarrow> do {
                  (d, bmp, ret) \<leftarrow> sfs_init_freemap D bmp SFS_BLKN_FREEMAP (sfs_freemap_blocks su) d;
                  if ret \<noteq> 0 then Some (d, Inl ret)
                  else do {
                    unused \<leftarrow> count_loop bmp 0 (sfs_freemap_bits su) 0;
                    assert_k (unused = su_unused su);
                    Some (d, Inr \<lparr>mt_fs = \<lparr>super = su, sfs_dev = d, freemap = bmp, super_dirty = False, sfs_buffer = buf\<rparr>,
                      mt_nodes = (\<lambda>_. None), mt_list = [], mt_hash = (\<lambda>_. [])\<rparr>) } }) } } } })"

section \<open>The structures on the disk\<close>

definition din_ok :: "disk_inode \<Rightarrow> bool" where
  "din_ok di \<longleftrightarrow> di_size di < 2 ^ 32 \<and> di_type di < 2 ^ 16 \<and> di_nlinks di < 2 ^ 16 \<and> di_blocks di < 2 ^ 32 \<and>
     length (di_direct di) = SFS_NDIRECT \<and> (\<forall>b \<in> set (di_direct di). b < 2 ^ 32) \<and> di_indirect di < 2 ^ 32"

definition super_ok :: "sfs_super \<Rightarrow> bool" where
  "super_ok su \<longleftrightarrow> su_magic su < 2 ^ 32 \<and> su_blocks su < 2 ^ 32 \<and> su_unused su < 2 ^ 32 \<and> length (su_info su) = 32 \<and> su_info su ! 31 = 0"

lemma le_numbers: "unle (le 4 x) = x \<longleftrightarrow> x < 2 ^ 32" "unle (le 2 x) = x \<longleftrightarrow> x < 2 ^ 16"
  using unle_bound [of "le 4 x"] unle_bound [of "le 2 x"] unle_le [of x 4] unle_le [of x 2] by auto

lemma take_drop_concat:
  "k < length xs \<Longrightarrow> take 4 (drop (4 * k) (concat (map (le 4) xs) @ ys)) = le 4 (xs ! k)"
proof (induction xs arbitrary: k)
  case (Cons x xs)
  then show ?case by (cases k) simp_all
qed simp

lemma concat_take_drop: "concat (map (\<lambda>k. take c (drop (c * k) xs)) [0..<n]) = take (c * n) xs"
proof (induction n)
  case (Suc n)
  have "take (c * n + c) xs = take (c * n) xs @ take c (drop (c * n) xs)" by (rule take_add)
  moreover have "c * Suc n = c * n + c" by simp
  ultimately show ?case using Suc by (simp only: upt_Suc_append map_append concat_append) simp
qed simp

lemma length_concat_le: "length (concat (map (le n) xs)) = n * length xs"
  by (induction xs) simp_all

lemma length_encode: "din_ok di \<Longrightarrow> length (encode_inode di) = 64"
  by (simp add: encode_inode_def length_concat_le din_ok_def SFS_NDIRECT_def)

lemma drop_field: "length xs = k \<Longrightarrow> drop (k + j) (xs @ ys) = drop j ys" "length xs = k \<Longrightarrow> take k (xs @ ys) = xs"
  by simp_all

lemma decode_encode:
  assumes "din_ok di"
  shows "decode_inode (encode_inode di @ rest) = di"
proof -
  let ?c = "concat (map (le 4) (di_direct di))"
  have c: "length ?c = 48" "length (di_direct di) = 12" using assms by (simp_all add: length_concat_le din_ok_def SFS_NDIRECT_def)
  have e: "encode_inode di @ rest = le 4 (di_size di) @ le 2 (di_type di) @ le 2 (di_nlinks di) @ le 4 (di_blocks di) @ ?c @
      le 4 (di_indirect di) @ rest" by (simp add: encode_inode_def)
  have d: "map (\<lambda>k. unle (take 4 (drop (12 + 4 * k) (encode_inode di @ rest)))) [0..<12] = di_direct di"
  proof (rule nth_equalityI)
    fix k
    assume "k < length (map (\<lambda>k. unle (take 4 (drop (12 + 4 * k) (encode_inode di @ rest)))) [0..<12])"
    then have k: "k < 12" by simp
    have "drop (12 + 4 * k) (encode_inode di @ rest) = drop (4 * k) (?c @ le 4 (di_indirect di) @ rest)"
      unfolding e by simp
    moreover have "unle (le 4 (di_direct di ! k)) = di_direct di ! k"
      using assms k c(2) by (simp add: le_numbers din_ok_def)
    ultimately have "unle (take 4 (drop (12 + 4 * k) (encode_inode di @ rest))) = di_direct di ! k"
      using take_drop_concat [of k "di_direct di"] k c(2) by (simp only:)
    then show "map (\<lambda>k. unle (take 4 (drop (12 + 4 * k) (encode_inode di @ rest)))) [0..<12] ! k = di_direct di ! k"
      using k by simp
  qed (simp add: c(2))
  have f: "take 4 (encode_inode di @ rest) = le 4 (di_size di)" "take 2 (drop 4 (encode_inode di @ rest)) = le 2 (di_type di)"
    "take 2 (drop 6 (encode_inode di @ rest)) = le 2 (di_nlinks di)" "take 4 (drop 8 (encode_inode di @ rest)) = le 4 (di_blocks di)"
    "take 4 (drop 60 (encode_inode di @ rest)) = le 4 (di_indirect di)"
    unfolding e using c(1) by simp_all
  have v: "unle (le 4 (di_size di)) = di_size di" "unle (le 2 (di_type di)) = di_type di" "unle (le 2 (di_nlinks di)) = di_nlinks di"
    "unle (le 4 (di_blocks di)) = di_blocks di" "unle (le 4 (di_indirect di)) = di_indirect di"
    using assms by (simp_all add: le_numbers din_ok_def)
  show ?thesis unfolding decode_inode_def SFS_NDIRECT_def d f v by simp
qed

lemma unle_take: "unle (take n bs) < 256 ^ n"
  using unle_bound [of "take n bs"] power_increasing [of "length (take n bs)" n "256 :: nat"] by (simp add: less_le_trans)

lemma decode_ok: "din_ok (decode_inode bs)"
  using unle_take [of 4] unle_take [of 2] by (auto simp: din_ok_def decode_inode_def)

lemma le_unle_take: "n \<le> length bs \<Longrightarrow> le n (unle (take n bs)) = take n bs"
  using le_unle [of "take n bs"] by simp

lemma encode_decode:
  assumes len: "length bs = 64"
  shows "encode_inode (decode_inode bs) = bs"
proof -
  have "map (le 4) (map (\<lambda>k. unle (take 4 (drop (12 + 4 * k) bs))) [0..<12]) = map (\<lambda>k. take 4 (drop (4 * k) (drop 12 bs))) [0..<12]"
    using len by (simp add: le_unle_take add.commute)
  then have d: "concat (map (le 4) (map (\<lambda>k. unle (take 4 (drop (12 + 4 * k) bs))) [0..<12])) = take 48 (drop 12 bs)"
    using concat_take_drop [of 4 "drop 12 bs" 12] by (simp only:) simp
  have l: "le 4 (unle (drop 60 bs)) = drop 60 bs" using le_unle [of "drop 60 bs"] len by simp
  have "encode_inode (decode_inode bs) = take 4 bs @ take 2 (drop 4 bs) @ take 2 (drop 6 bs) @ take 4 (drop 8 bs) @ take 48 (drop 12 bs) @ take 4 (drop 60 bs)"
    unfolding encode_inode_def decode_inode_def disk_inode.simps SFS_NDIRECT_def d using len by (simp add: le_unle_take l)
  also have "\<dots> = take (4 + 2 + 2 + 4 + 48 + 4) bs"
    unfolding take_add by (simp add: drop_drop)
  finally show ?thesis using len by simp
qed

section \<open>The table of inodes\<close>

definition node_ino :: "'d sfs_mount \<Rightarrow> nat \<Rightarrow> nat" where
  "node_ino m a = si_ino (nd_sin (the (mt_nodes m a)))"

definition table_ok :: "'d sfs_mount \<Rightarrow> bool" where
  "table_ok m \<longleftrightarrow> distinct (mt_list m) \<and> set (mt_list m) = dom (mt_nodes m) \<and> inj_on (node_ino m) (dom (mt_nodes m)) \<and>
     (\<forall>h. mt_hash m h = filter (\<lambda>a. sin_hashfn (node_ino m a) = h) (mt_list m))"

text \<open>An inode that is not dirty is on the disk as it is in memory.\<close>

definition node_ok :: "('d \<Rightarrow> nat \<Rightarrow> byte list) \<Rightarrow> 'd sfs_fs \<Rightarrow> sfs_node \<Rightarrow> bool" where
  "node_ok block s n \<longleftrightarrow> din_ok (si_din (nd_sin n)) \<and> si_ino (nd_sin n) \<in> used_blocks s \<and>
     sfs_get_ops (di_type (si_din (nd_sin n))) = Some (nd_ops n) \<and>
     (\<not> si_dirty (nd_sin n) \<longrightarrow> take 64 (block (sfs_dev s) (si_ino (nd_sin n))) = encode_inode (si_din (nd_sin n)))"

definition mount_ok :: "'d dev_ops \<Rightarrow> ('d \<Rightarrow> bool) \<Rightarrow> ('d \<Rightarrow> nat \<Rightarrow> byte list) \<Rightarrow> 'd sfs_mount \<Rightarrow> bool" where
  "mount_ok D ok block m \<longleftrightarrow> fs_ok D ok (mt_fs m) \<and> table_ok m \<and>
     (\<forall>a n. mt_nodes m a = Some n \<longrightarrow> node_ok block (mt_fs m) n)"

text \<open>The node after \<open>lookup_sfs_nolock\<close> has found it.\<close>

definition referenced :: "sfs_node \<Rightarrow> sfs_node" where
  "referenced n = (let n = n\<lparr>nd_ref := nd_ref n + 1\<rparr>
     in if nd_ref n = 1 then n\<lparr>nd_sin := (nd_sin n)\<lparr>si_reclaim := si_reclaim (nd_sin n) + 1\<rparr>\<rparr> else n)"

definition fresh_node :: "disk_inode \<Rightarrow> nat \<Rightarrow> sfs_ops \<Rightarrow> sfs_node" where
  "fresh_node din ino ops = \<lparr>nd_sin = \<lparr>si_din = din, si_ino = ino, si_dirty = False, si_reclaim = 1\<rparr>,
     nd_ops = ops, nd_ref = 1, nd_open = 0\<rparr>"

definition same_node :: "sfs_node \<Rightarrow> sfs_node \<Rightarrow> bool" where
  "same_node n n' \<longleftrightarrow> si_din (nd_sin n') = si_din (nd_sin n) \<and> si_ino (nd_sin n') = si_ino (nd_sin n) \<and>
     si_dirty (nd_sin n') = si_dirty (nd_sin n) \<and> nd_ops n' = nd_ops n"

text \<open>The table after the inode is gone, and an inode after it is written back.\<close>

definition unlinked :: "nat \<Rightarrow> nat \<Rightarrow> 'd sfs_fs \<Rightarrow> 'd sfs_mount \<Rightarrow> 'd sfs_mount" where
  "unlinked a ino s m = (sfs_remove_links a ino m)\<lparr>mt_fs := s, mt_nodes := (mt_nodes m)(a := None)\<rparr>"

definition cleaned :: "sfs_node \<Rightarrow> sfs_node" where
  "cleaned n = n\<lparr>nd_sin := (nd_sin n)\<lparr>si_dirty := False\<rparr>\<rparr>"

lemma same_referenced: "same_node n (referenced n)"
  by (simp add: same_node_def referenced_def Let_def)

lemma find_filter_imp: "(\<And>x. P x \<Longrightarrow> Q x) \<Longrightarrow> List.find P (filter Q xs) = List.find P xs"
  by (induction xs) auto

lemma find_filter_only:
  "a \<in> set xs \<Longrightarrow> P a \<Longrightarrow> (\<And>b. b \<in> set xs \<Longrightarrow> P b \<Longrightarrow> b = a) \<Longrightarrow> List.find P xs = Some a"
proof (induction xs)
  case (Cons x xs)
  show ?case
  proof (cases "P x")
    case True
    then show ?thesis using Cons.prems(3) [of x] by simp
  next
    case False
    then have "a \<in> set xs" using Cons.prems(1,2) by auto
    then have "List.find P xs = Some a" using Cons.prems(2,3) by (intro Cons.IH) simp_all
    then show ?thesis using False by simp
  qed
qed simp

lemma lookup_loop_find:
  "set as \<subseteq> dom (mt_nodes m) \<Longrightarrow> lookup_loop ino as m = Some (List.find (\<lambda>a. node_ino m a = ino) as)"
  by (induction as) (auto simp: node_ino_def)

lemma lookup_loop_table:
  assumes t: "table_ok m"
  shows "lookup_loop ino (mt_hash m (sin_hashfn ino)) m = Some (List.find (\<lambda>a. node_ino m a = ino) (mt_list m))"
proof -
  have h: "mt_hash m (sin_hashfn ino) = filter (\<lambda>a. sin_hashfn (node_ino m a) = sin_hashfn ino) (mt_list m)"
    and d: "set (mt_list m) = dom (mt_nodes m)" using t by (simp_all add: table_ok_def)
  have "set (mt_hash m (sin_hashfn ino)) \<subseteq> dom (mt_nodes m)" unfolding h using d by auto
  moreover have "List.find (\<lambda>a. node_ino m a = ino) (mt_hash m (sin_hashfn ino)) = List.find (\<lambda>a. node_ino m a = ino) (mt_list m)"
    unfolding h by (rule find_filter_imp) simp
  ultimately show ?thesis by (simp only: lookup_loop_find)
qed

lemma find_present:
  assumes "table_ok m" and "mt_nodes m a = Some n"
  shows "List.find (\<lambda>b. node_ino m b = si_ino (nd_sin n)) (mt_list m) = Some a"
proof (rule find_filter_only)
  show "a \<in> set (mt_list m)" using assms by (auto simp: table_ok_def)
  show "node_ino m a = si_ino (nd_sin n)" using assms(2) by (simp add: node_ino_def)
  show "b = a" if "b \<in> set (mt_list m)" "node_ino m b = si_ino (nd_sin n)" for b
  proof (rule inj_onD)
    show "inj_on (node_ino m) (dom (mt_nodes m))" "b \<in> dom (mt_nodes m)" "a \<in> dom (mt_nodes m)"
      using assms that by (auto simp: table_ok_def)
    show "node_ino m b = node_ino m a" using assms(2) that(2) by (simp add: node_ino_def)
  qed
qed

lemma find_absent:
  "table_ok m \<Longrightarrow> ino \<notin> node_ino m ` dom (mt_nodes m) \<Longrightarrow> List.find (\<lambda>b. node_ino m b = ino) (mt_list m) = None"
  by (auto simp: find_None_iff table_ok_def)

lemma table_ok_same:
  assumes "table_ok m" and "mt_nodes m a = Some n" and "si_ino (nd_sin n') = si_ino (nd_sin n)"
  shows "table_ok (m\<lparr>mt_fs := s, mt_nodes := (mt_nodes m)(a \<mapsto> n')\<rparr>)"
proof -
  have i: "node_ino (m\<lparr>mt_fs := s, mt_nodes := (mt_nodes m)(a \<mapsto> n')\<rparr>) = node_ino m"
    using assms(2,3) by (auto simp: node_ino_def fun_eq_iff)
  have "insert a (dom (mt_nodes m)) = dom (mt_nodes m)" using assms(2) by auto
  then show ?thesis using assms(1) by (simp add: table_ok_def i)
qed

lemma table_ok_new:
  assumes t: "table_ok m" and new: "mt_nodes m a = None" and ino: "ino \<notin> node_ino m ` dom (mt_nodes m)" "si_ino (nd_sin n) = ino"
  shows "table_ok (sfs_set_links a ino (m\<lparr>mt_fs := s, mt_nodes := (mt_nodes m)(a \<mapsto> n)\<rparr>))" (is "table_ok ?m")
proof -
  have i: "node_ino ?m b = (if b = a then ino else node_ino m b)" for b
    using ino(2) by (simp add: node_ino_def sfs_set_links_def)
  have al: "a \<notin> dom (mt_nodes m)" "a \<notin> set (mt_list m)" using t new by (auto simp: table_ok_def)
  have l: "mt_list ?m = a # mt_list m" "dom (mt_nodes ?m) = insert a (dom (mt_nodes m))"
    "mt_hash ?m h = (if h = sin_hashfn ino then a # mt_hash m h else mt_hash m h)" for h
    by (simp_all add: sfs_set_links_def)
  have "inj_on (node_ino ?m) (dom (mt_nodes m))" using t al by (auto simp: table_ok_def inj_on_def i)
  moreover have "node_ino ?m a \<notin> node_ino ?m ` dom (mt_nodes m)" using ino(1) al by (auto simp: i)
  ultimately have "inj_on (node_ino ?m) (dom (mt_nodes ?m))" using al unfolding l(2) by (simp add: insert_absorb)
  moreover have "filter (\<lambda>b. sin_hashfn (node_ino ?m b) = h) (mt_list m) = filter (\<lambda>b. sin_hashfn (node_ino m b) = h) (mt_list m)" for h
    using al by (intro filter_cong) (auto simp: i)
  then have "mt_hash ?m h = filter (\<lambda>b. sin_hashfn (node_ino ?m b) = h) (mt_list ?m)" for h
    using t unfolding l by (auto simp: i table_ok_def)
  ultimately show ?thesis using t al(2) unfolding table_ok_def l(1,2) by simp
qed

lemma table_ok_removed:
  assumes t: "table_ok m" and n: "mt_nodes m a = Some n"
  shows "table_ok ((sfs_remove_links a (si_ino (nd_sin n)) m)\<lparr>mt_fs := s, mt_nodes := (mt_nodes m)(a := None)\<rparr>)" (is "table_ok ?m")
proof -
  have i: "node_ino ?m b = node_ino m b" if "b \<noteq> a" for b using that by (simp add: node_ino_def)
  have l: "mt_list ?m = remove1 a (mt_list m)" "dom (mt_nodes ?m) = dom (mt_nodes m) - {a}"
    "mt_hash ?m h = (if h = sin_hashfn (node_ino m a) then remove1 a (mt_hash m h) else mt_hash m h)" for h
    using n by (simp_all add: sfs_remove_links_def node_ino_def)
  have d: "distinct (mt_list m)" and h: "mt_hash m h = filter (\<lambda>b. sin_hashfn (node_ino m b) = h) (mt_list m)" for h
    using t by (simp_all add: table_ok_def)
  have "inj_on (node_ino ?m) (dom (mt_nodes ?m))" using t unfolding l(2) by (auto simp: table_ok_def inj_on_def i)
  moreover have "mt_hash ?m h = filter (\<lambda>b. sin_hashfn (node_ino ?m b) = h) (mt_list ?m)" for h
  proof -
    have "filter (\<lambda>b. sin_hashfn (node_ino ?m b) = h) (remove1 a (mt_list m)) = filter (\<lambda>b. sin_hashfn (node_ino m b) = h) (remove1 a (mt_list m))"
      using d by (intro filter_cong) (auto simp: i)
    then show ?thesis unfolding l using d by (auto simp: h distinct_remove1_removeAll removeAll_filter_not_eq filter_filter intro: filter_cong)
  qed
  ultimately show ?thesis using t d unfolding table_ok_def l(1,2) by simp
qed

section \<open>Loading an inode\<close>

lemma load_present:
  assumes "table_ok m" and "mt_nodes m a = Some n"
  shows "sfs_load_inode D mem addr (si_ino (nd_sin n)) m = Some (m\<lparr>mt_nodes := (mt_nodes m)(a \<mapsto> referenced n)\<rparr>, Inr a)"
  using lookup_loop_table [OF assms(1)] find_present [OF assms] assms(2)
  by (simp add: sfs_load_inode_def lookup_sfs_nolock_def referenced_def Let_def)

lemma node_ok_same: "same_node n n' \<Longrightarrow> node_ok block s n' = node_ok block s n"
  by (simp add: node_ok_def same_node_def)

lemma node_ok_fs:
  "used_blocks s' = used_blocks s \<Longrightarrow> block (sfs_dev s') = block (sfs_dev s) \<Longrightarrow> node_ok block s' n = node_ok block s n"
  by (simp add: node_ok_def)

lemma mount_ok_node:
  assumes "mount_ok D ok block m" and "mt_nodes m a = Some n" and "same_node n n'"
  shows "mount_ok D ok block (m\<lparr>mt_nodes := (mt_nodes m)(a \<mapsto> n')\<rparr>)"
proof -
  have "table_ok (m\<lparr>mt_fs := mt_fs m, mt_nodes := (mt_nodes m)(a \<mapsto> n')\<rparr>)"
    using assms by (intro table_ok_same) (auto simp: mount_ok_def same_node_def)
  then show ?thesis using assms node_ok_same [OF assms(3)] by (auto simp: mount_ok_def)
qed

context block_device
begin

lemma read_inode:
  assumes ok: "fs_ok D ok s" and ino: "ino \<in> used_blocks s"
  shows "\<exists>s'. sfs_rbuf D 64 ino 0 s = Some (s', Inr (take 64 (block (sfs_dev s) ino))) \<and> fs_ok D ok s' \<and>
    same_map s s' \<and> block (sfs_dev s') = block (sfs_dev s)"
  using rbuf_ok [OF ok, of ino 0 64] used_range [OF ino] by (auto simp: BLKSIZE_def)

lemma load_absent:
  assumes mo: "mount_ok D ok block m" and ino: "ino \<notin> node_ino m ` dom (mt_nodes m)" "ino \<in> used_blocks (mt_fs m)"
    and din: "din = decode_inode (take 64 (block (sfs_dev (mt_fs m)) ino))" "di_nlinks din \<noteq> 0" "sfs_get_ops (di_type din) = Some ops"
    and new: "mt_nodes m a = None"
  shows "\<exists>m'. sfs_load_inode D True (Some a) ino m = Some (m', Inr a) \<and> mount_ok D ok block m' \<and>
    mt_nodes m' = (mt_nodes m)(a \<mapsto> fresh_node din ino ops) \<and> mt_list m' = a # mt_list m \<and>
    same_map (mt_fs m) (mt_fs m') \<and> block (sfs_dev (mt_fs m')) = block (sfs_dev (mt_fs m))"
proof -
  have ok: "fs_ok D ok (mt_fs m)" and t: "table_ok m" using mo by (simp_all add: mount_ok_def)
  obtain s' where s': "sfs_rbuf D 64 ino 0 (mt_fs m) = Some (s', Inr (take 64 (block (sfs_dev (mt_fs m)) ino)))" "fs_ok D ok s'"
    "same_map (mt_fs m) s'" "block (sfs_dev s') = block (sfs_dev (mt_fs m))"
    using read_inode [OF ok ino(2)] by blast
  define m' where "m' = sfs_set_links a ino (m\<lparr>mt_fs := s', mt_nodes := (mt_nodes m)(a \<mapsto> fresh_node din ino ops)\<rparr>)"
  have iu: "sfs_block_inuse ino (mt_fs m) = Some True" using inuse_ok [OF ok] ino(2) by (auto simp: used_blocks_def)
  have lk: "lookup_sfs_nolock ino m = Some (m, None)"
    using lookup_loop_table [OF t] find_absent [OF t ino(1)] by (simp add: lookup_sfs_nolock_def)
  have "sfs_load_inode D True (Some a) ino m = Some (m', Inr a)"
    using lk iu s'(1) din by (simp add: sfs_load_inode_def sfs_create_inode_def m'_def fresh_node_def)
  moreover have "table_ok m'" unfolding m'_def using t new ino(1) by (rule table_ok_new) (simp add: fresh_node_def)
  moreover have "length (take 64 (block (sfs_dev (mt_fs m)) ino)) = 64"
    using block_length [OF dev_ok [OF ok]] by (simp add: BLKSIZE_def)
  then have "encode_inode din = take 64 (block (sfs_dev (mt_fs m)) ino)" unfolding din(1) by (rule encode_decode)
  then have "node_ok block s' (fresh_node din ino ops)"
    using din ino(2) s'(4) same_map_used [OF s'(3)] decode_ok by (simp add: node_ok_def fresh_node_def)
  moreover have "node_ok block s' n" if "node_ok block (mt_fs m) n" for n
    using that node_ok_fs [OF same_map_used [OF s'(3)], of block n] s'(4) by simp
  ultimately show ?thesis using mo s' by (auto simp: mount_ok_def m'_def sfs_set_links_def)
qed

text \<open>Writing an inode back.\<close>

lemma patch_take: "take (length xs) (patch 0 xs b) = xs"
  by (simp add: patch_def)

lemma fsync_ok:
  assumes ok: "fs_ok D ok s" and ino: "si_ino sin \<in> used_blocks s" and din: "din_ok (si_din sin)"
    and saved: "\<not> si_dirty sin \<Longrightarrow> take 64 (block (sfs_dev s) (si_ino sin)) = encode_inode (si_din sin)"
  shows "\<exists>s'. sfs_fsync D sin s = Some (s', sin\<lparr>si_dirty := False\<rparr>, 0) \<and> fs_ok D ok s' \<and> same_map s s' \<and>
    take 64 (block (sfs_dev s') (si_ino sin)) = encode_inode (si_din sin) \<and>
    (\<forall>c. c \<noteq> si_ino sin \<longrightarrow> block (sfs_dev s') c = block (sfs_dev s) c)"
proof (cases "si_dirty sin")
  case True
  obtain s' where s': "sfs_wbuf D (encode_inode (si_din sin)) (si_ino sin) 0 s = Some (s', 0)" "fs_ok D ok s'" "same_map s s'"
    "block (sfs_dev s') = (block (sfs_dev s))(si_ino sin := patch 0 (encode_inode (si_din sin)) (block (sfs_dev s) (si_ino sin)))"
    using wbuf_ok [OF ok, of "si_ino sin" 0 "encode_inode (si_din sin)"] used_range [OF ino] length_encode [OF din]
    by (auto simp: BLKSIZE_def)
  then show ?thesis using True patch_take [of "encode_inode (si_din sin)"] length_encode [OF din]
    by (auto simp: sfs_fsync_def)
next
  case False
  then have "sin\<lparr>si_dirty := False\<rparr> = sin" by simp
  then show ?thesis using False ok saved by (simp add: sfs_fsync_def same_map_def)
qed

text \<open>The last reference to an inode that has names is given up.\<close>

lemma unlinked_fields:
  "mt_fs (unlinked a ino s m) = s" "mt_nodes (unlinked a ino s m) = (mt_nodes m)(a := None)"
  by (simp_all add: unlinked_def)

lemma other_ino:
  assumes "table_ok m" and "mt_nodes m a = Some n" and "mt_nodes m b = Some n'" and "b \<noteq> a"
  shows "si_ino (nd_sin n') \<noteq> si_ino (nd_sin n)"
proof
  assume "si_ino (nd_sin n') = si_ino (nd_sin n)"
  then have "node_ino m b = node_ino m a" using assms(2,3) by (simp add: node_ino_def)
  then show False using assms by (auto simp: table_ok_def inj_on_def)
qed

lemma unlinked_ok:
  assumes mo: "mount_ok D ok block m" and n: "mt_nodes m a = Some n" "ino = si_ino (nd_sin n)" and s: "fs_ok D ok s"
    and others: "\<And>b n'. mt_nodes m b = Some n' \<Longrightarrow> b \<noteq> a \<Longrightarrow> si_ino (nd_sin n') \<noteq> ino \<Longrightarrow>
      si_ino (nd_sin n') \<in> used_blocks s \<and> block (sfs_dev s) (si_ino (nd_sin n')) = block (sfs_dev (mt_fs m)) (si_ino (nd_sin n'))"
  shows "mount_ok D ok block (unlinked a ino s m)"
proof -
  have t: "table_ok m" using mo by (simp add: mount_ok_def)
  have "table_ok (unlinked a ino s m)" unfolding unlinked_def n(2) using t n(1) by (rule table_ok_removed)
  moreover have "node_ok block s n'" if b: "mt_nodes m b = Some n'" "b \<noteq> a" for b n'
  proof -
    have "si_ino (nd_sin n') \<noteq> ino" unfolding n(2) by (rule other_ino [OF t n(1) b])
    then show ?thesis using others [OF b] b(1) mo by (auto simp: mount_ok_def node_ok_def)
  qed
  ultimately show ?thesis using s unfolding mount_ok_def unlinked_fields by auto
qed

lemma reclaim_keeps:
  assumes mo: "mount_ok D ok block m" and n: "mt_nodes m a = Some n"
    and cnt: "nd_ref n = 1" "si_reclaim (nd_sin n) = 1" "nd_open n = 0" and links: "di_nlinks (si_din (nd_sin n)) \<noteq> 0"
  shows "\<exists>m'. node_ref_dec D a m = Some m' \<and> mount_ok D ok block m' \<and> mt_nodes m' = (mt_nodes m)(a := None) \<and>
    same_map (mt_fs m) (mt_fs m') \<and> take 64 (block (sfs_dev (mt_fs m')) (si_ino (nd_sin n))) = encode_inode (si_din (nd_sin n)) \<and>
    (\<forall>c. c \<noteq> si_ino (nd_sin n) \<longrightarrow> block (sfs_dev (mt_fs m')) c = block (sfs_dev (mt_fs m)) c)"
proof -
  let ?sin = "(nd_sin n)\<lparr>si_reclaim := 0\<rparr>" and ?ino = "si_ino (nd_sin n)"
  have ok: "fs_ok D ok (mt_fs m)" and no: "node_ok block (mt_fs m) n" using mo n by (auto simp: mount_ok_def)
  obtain s where s: "sfs_fsync D ?sin (mt_fs m) = Some (s, ?sin\<lparr>si_dirty := False\<rparr>, 0)" "fs_ok D ok s" "same_map (mt_fs m) s"
    "take 64 (block (sfs_dev s) ?ino) = encode_inode (si_din (nd_sin n))"
    "\<forall>c. c \<noteq> ?ino \<longrightarrow> block (sfs_dev s) c = block (sfs_dev (mt_fs m)) c"
    using fsync_ok [OF ok, of ?sin] no by (auto simp: node_ok_def)
  have "node_ref_dec D a m = Some (unlinked a ?ino s m)"
  proof (cases "si_dirty (nd_sin n)")
    case True
    then show ?thesis using n cnt links s(1)
      by (simp add: node_ref_dec_def sfs_reclaim_def on_file_def reclaim_done_def unlinked_def sfs_remove_links_def)
  next
    case False
    then have "s = mt_fs m" using s(1) by (simp add: sfs_fsync_def)
    then show ?thesis using False n cnt links
      by (simp add: node_ref_dec_def sfs_reclaim_def on_file_def reclaim_done_def unlinked_def sfs_remove_links_def)
  qed
  moreover have "mount_ok D ok block (unlinked a ?ino s m)"
    using mo n refl s(2)
  proof (rule unlinked_ok)
    fix b n'
    assume "mt_nodes m b = Some n'" "si_ino (nd_sin n') \<noteq> ?ino"
    then show "si_ino (nd_sin n') \<in> used_blocks s \<and> block (sfs_dev s) (si_ino (nd_sin n')) = block (sfs_dev (mt_fs m)) (si_ino (nd_sin n'))"
      using mo s(5) same_map_used [OF s(3)] by (auto simp: mount_ok_def node_ok_def)
  qed
  ultimately show ?thesis using s(3-5) by (auto simp: unlinked_fields)
qed

lemma reload:
  assumes mo: "mount_ok D ok block m" and n: "mt_nodes m a = Some n"
    and cnt: "nd_ref n = 1" "si_reclaim (nd_sin n) = 1" "nd_open n = 0" and links: "di_nlinks (si_din (nd_sin n)) \<noteq> 0"
    and new: "a' = a \<or> mt_nodes m a' = None"
  shows "\<exists>m1 m2. node_ref_dec D a m = Some m1 \<and> mt_nodes m1 = (mt_nodes m)(a := None) \<and>
    sfs_load_inode D True (Some a') (si_ino (nd_sin n)) m1 = Some (m2, Inr a') \<and> mount_ok D ok block m2 \<and>
    mt_nodes m2 = (mt_nodes m)(a := None, a' \<mapsto> fresh_node (si_din (nd_sin n)) (si_ino (nd_sin n)) (nd_ops n))"
proof -
  let ?ino = "si_ino (nd_sin n)"
  have no: "node_ok block (mt_fs m) n" and t: "table_ok m" using mo n by (auto simp: mount_ok_def)
  obtain m1 where m1: "node_ref_dec D a m = Some m1" "mount_ok D ok block m1" "mt_nodes m1 = (mt_nodes m)(a := None)"
    "same_map (mt_fs m) (mt_fs m1)" "take 64 (block (sfs_dev (mt_fs m1)) ?ino) = encode_inode (si_din (nd_sin n))"
    using reclaim_keeps [OF mo n cnt links] by blast
  have d: "decode_inode (take 64 (block (sfs_dev (mt_fs m1)) ?ino)) = si_din (nd_sin n)"
    using m1(5) decode_encode [of "si_din (nd_sin n)" "[]"] no by (simp add: node_ok_def)
  have "?ino \<notin> node_ino m1 ` dom (mt_nodes m1)"
  proof
    assume "?ino \<in> node_ino m1 ` dom (mt_nodes m1)"
    then obtain b where b: "b \<in> dom (mt_nodes m1)" "node_ino m1 b = ?ino" by (metis imageE)
    then have "b \<noteq> a" "b \<in> dom (mt_nodes m)" by (simp_all add: m1(3))
    then show False using other_ino [OF t n] b(2) by (auto simp: m1(3) node_ino_def)
  qed
  moreover have "?ino \<in> used_blocks (mt_fs m1)" using no same_map_used [OF m1(4)] by (simp add: node_ok_def)
  moreover have "sfs_get_ops (di_type (si_din (nd_sin n))) = Some (nd_ops n)" using no by (simp add: node_ok_def)
  moreover have "mt_nodes m1 a' = None" using new m1(3) by auto
  ultimately show ?thesis using load_absent [OF m1(2) _ _ d [symmetric] links] m1(1,3) by metis
qed

text \<open>The last reference to a file without names is given up: all its blocks are free again.\<close>

lemma shortened_din_ok:
  assumes d: "din_ok (si_din sin)" and sh: "shortened D ok block s sin 0 s' sin'"
  shows "din_ok (si_din (set_size 0 sin'))" and "di_direct (si_din sin') = replicate SFS_NDIRECT 0"
proof -
  have fo: "file_ok (block (sfs_dev s')) (used_blocks s') (si_din sin')" and b: "di_blocks (si_din sin') = 0"
    using sh by (simp_all add: shortened_def)
  have z: "di_direct (si_din sin') ! i = 0" if "i < SFS_NDIRECT" for i
  proof -
    have "i < MAX_BLOCKS" using that by (simp add: sizes)
    then have "blkmap (block (sfs_dev s')) (si_din sin') i = 0" using fo b by (simp add: file_ok_def)
    then show ?thesis using that by (simp add: blkmap_def)
  qed
  show r: "di_direct (si_din sin') = replicate SFS_NDIRECT 0"
    using z fo by (intro nth_equalityI) (simp_all add: file_ok_def)
  show "din_ok (si_din (set_size 0 sin'))"
    using d sh by (simp add: din_ok_def set_size_def upd_din_def shortened_def r)
qed

lemma truncate_zero:
  assumes ok: "fs_ok D ok s" and fo: "file_ok (block (sfs_dev s)) (used_blocks s) (si_din sin)" and d: "din_ok (si_din sin)"
    and e: "di_size (si_din sin) = 0 \<Longrightarrow> di_blocks (si_din sin) = 0"
  shows "\<exists>s' sin'. sfs_truncfile D 0 sin s = Some (s', sin', 0) \<and> fs_ok D ok s' \<and> nr_blocks s' = nr_blocks s \<and>
    free_blocks s' = free_blocks s \<union> blkmap (block (sfs_dev s)) (si_din sin) ` {..<di_blocks (si_din sin)} \<and>
    (\<forall>c. c \<noteq> di_indirect (si_din sin) \<longrightarrow> block (sfs_dev s') c = block (sfs_dev s) c) \<and>
    din_ok (si_din sin') \<and> di_indirect (si_din sin') = di_indirect (si_din sin) \<and> di_nlinks (si_din sin') = di_nlinks (si_din sin) \<and>
    si_ino sin' = si_ino sin \<and> si_reclaim sin' = si_reclaim sin \<and> (si_dirty sin' \<or> s' = s \<and> sin' = sin)"
proof (cases "di_size (si_din sin) = 0")
  case True
  then have "sfs_truncfile D 0 sin s = Some (s, sin, 0)" "di_blocks (si_din sin) = 0"
    using e by (simp_all add: sfs_truncfile_def SFS_MAX_FILE_SIZE_def ROUNDUP_DIV_def BLKSIZE_def)
  then show ?thesis using ok d by auto
next
  case False
  then obtain s' sin' where t: "sfs_truncfile D 0 sin s = Some (s', set_size 0 sin', 0)" "shortened D ok block s sin 0 s' sin'"
    using truncfile_shrinks [OF ok fo, of 0 0] by (auto simp: SFS_MAX_FILE_SIZE_def ROUNDUP_DIV_def BLKSIZE_def)
  have "{..<di_blocks (si_din sin)} = {0..<di_blocks (si_din sin)}" by auto
  then show ?thesis using t shortened_din_ok(1) [OF d t(2)]
    by (intro exI [of _ s'] exI [of _ "set_size 0 sin'"]) (auto simp: shortened_def set_size_def upd_din_def)
qed

lemma reclaim_deletes:
  assumes mo: "mount_ok D ok block m" and n: "mt_nodes m a = Some n"
    and cnt: "nd_ref n = 1" "si_reclaim (nd_sin n) = 1" "nd_open n = 0" and links: "di_nlinks (si_din (nd_sin n)) = 0"
    and fops: "nd_ops n = sfs_node_fileops" and fo: "file_ok (block (sfs_dev (mt_fs m))) (used_blocks (mt_fs m)) (si_din (nd_sin n))"
    and e: "di_size (si_din (nd_sin n)) = 0 \<Longrightarrow> di_blocks (si_din (nd_sin n)) = 0"
    and inos: "\<And>b n'. mt_nodes m b = Some n' \<Longrightarrow> si_ino (nd_sin n') \<notin> owned (block (sfs_dev (mt_fs m))) (si_din (nd_sin n))"
  shows "\<exists>m'. node_ref_dec D a m = Some m' \<and> mount_ok D ok block m' \<and> mt_nodes m' = (mt_nodes m)(a := None) \<and>
    free_blocks (mt_fs m') = free_blocks (mt_fs m) \<union> owned (block (sfs_dev (mt_fs m))) (si_din (nd_sin n)) \<union> {si_ino (nd_sin n)}"
proof -
  let ?sin = "(nd_sin n)\<lparr>si_reclaim := 0\<rparr>" and ?ino = "si_ino (nd_sin n)" and ?e = "di_indirect (si_din (nd_sin n))"
  let ?bl = "block (sfs_dev (mt_fs m))" and ?di = "si_din (nd_sin n)"
  let ?data = "blkmap ?bl ?di ` {..<di_blocks ?di}"
  have ok: "fs_ok D ok (mt_fs m)" and no: "node_ok block (mt_fs m) n" using mo n by (auto simp: mount_ok_def)
  have ino: "?ino \<in> used_blocks (mt_fs m)" "?ino \<notin> ?data" "?ino \<noteq> ?e \<or> ?e = 0" and din: "din_ok ?di"
    using no inos [OF n] by (auto simp: node_ok_def owned_def)
  have i0: "?ino \<noteq> 0" using ino(1) by (auto simp: used_blocks_def)
  obtain s1 sin1 where t: "sfs_truncfile D 0 ?sin (mt_fs m) = Some (s1, sin1, 0)" "fs_ok D ok s1" "nr_blocks s1 = nr_blocks (mt_fs m)"
    "free_blocks s1 = free_blocks (mt_fs m) \<union> ?data" "\<forall>c. c \<noteq> ?e \<longrightarrow> block (sfs_dev s1) c = ?bl c"
    "din_ok (si_din sin1)" "di_indirect (si_din sin1) = ?e" "di_nlinks (si_din sin1) = 0" "si_ino sin1 = ?ino"
    "si_reclaim sin1 = 0" "si_dirty sin1 \<or> s1 = mt_fs m \<and> sin1 = ?sin"
    using truncate_zero [OF ok, of ?sin] fo din e links by auto
  have u1: "used_blocks s1 = used_blocks (mt_fs m) - ?data" using t(3,4) by (auto simp: used_blocks_def)
  obtain s2 where s2: "sfs_fsync D sin1 s1 = Some (s2, sin1\<lparr>si_dirty := False\<rparr>, 0)" "fs_ok D ok s2" "same_map s1 s2"
    "\<forall>c. c \<noteq> ?ino \<longrightarrow> block (sfs_dev s2) c = block (sfs_dev s1) c"
    using fsync_ok [OF t(2) _ t(6)] ino u1 t(9,11) no by (auto simp: node_ok_def)
  have u2: "used_blocks s2 = used_blocks (mt_fs m) - ?data" using same_map_used [OF s2(3)] u1 by simp
  obtain s3 where s3: "sfs_block_free ?ino s2 = Some s3" "fs_ok D ok s3" "free_blocks s3 = insert ?ino (free_blocks s2)"
    "nr_blocks s3 = nr_blocks s2" "sfs_dev s3 = sfs_dev s2"
    using free_ok [OF s2(2), of ?ino] u2 ino by auto
  have u3: "used_blocks s3 = used_blocks (mt_fs m) - ?data - {?ino}" using used_after_free [OF s3(3,4)] u2 by simp
  obtain s4 where s4: "(if ?e \<noteq> 0 then sfs_block_free ?e s3 else Some s3) = Some s4" "fs_ok D ok s4"
    "free_blocks s4 = free_blocks (mt_fs m) \<union> owned ?bl ?di \<union> {?ino}" "used_blocks s4 = used_blocks (mt_fs m) - owned ?bl ?di - {?ino}"
    "sfs_dev s4 = sfs_dev s2"
  proof (cases "?e = 0")
    case True
    then show thesis using that [of s3] s3 u3 t(4) s2(3) by (auto simp: owned_def same_map_def)
  next
    case False
    then have "?e \<in> used_blocks s3" using fo ino(3) u3 by (auto simp: file_ok_def)
    from free_ok [OF s3(2) this] obtain s4 where s4: "sfs_block_free ?e s3 = Some s4" "fs_ok D ok s4"
      "free_blocks s4 = insert ?e (free_blocks s3)" "nr_blocks s4 = nr_blocks s3" "sfs_dev s4 = sfs_dev s3" by blast
    show thesis using that [of s4] False s4 s3 t(4) s2(3) u3 used_after_free [OF s4(3,4)] by (auto simp: owned_def same_map_def)
  qed
  have "node_ref_dec D a m = Some (unlinked a ?ino s4 m)"
  proof (cases "si_dirty sin1")
    case True
    then show ?thesis using n cnt links fops t(1,7-10) s2(1) s3(1) s4(1)
      by (cases "?e = 0") (simp_all add: node_ref_dec_def sfs_reclaim_def on_file_def reclaim_done_def unlinked_def sfs_remove_links_def)
  next
    case False
    then have "s2 = s1" using s2(1) by (simp add: sfs_fsync_def)
    then show ?thesis using False n cnt links fops t(1,7-10) s3(1) s4(1)
      by (cases "?e = 0") (simp_all add: node_ref_dec_def sfs_reclaim_def on_file_def reclaim_done_def unlinked_def sfs_remove_links_def)
  qed
  moreover have "mount_ok D ok block (unlinked a ?ino s4 m)"
    using mo n refl s4(2)
  proof (rule unlinked_ok)
    fix b n'
    assume b: "mt_nodes m b = Some n'" "si_ino (nd_sin n') \<noteq> ?ino"
    have "si_ino (nd_sin n') \<in> used_blocks (mt_fs m)" using mo b(1) by (auto simp: mount_ok_def node_ok_def)
    moreover have "si_ino (nd_sin n') \<noteq> ?e"
      using inos [OF b(1)] calculation by (cases "?e = 0") (auto simp: owned_def used_blocks_def)
    ultimately show "si_ino (nd_sin n') \<in> used_blocks s4 \<and> block (sfs_dev s4) (si_ino (nd_sin n')) = ?bl (si_ino (nd_sin n'))"
      using inos [OF b(1)] b(2) s4(4,5) s2(4) t(5) by simp
  qed
  ultimately show ?thesis using s4(3) by (auto simp: unlinked_fields)
qed

end

section \<open>Synchronising and mounting again\<close>

text \<open>The shape \<open>sfs_do_mount\<close> expects: the super block, the size of the bitmap, and its blocks in
  use.\<close>

definition layout_ok :: "'d sfs_fs \<Rightarrow> bool" where
  "layout_ok s \<longleftrightarrow> super_ok (super s) \<and> su_magic (super s) = SFS_MAGIC \<and> 0 < nr_blocks s \<and>
     2 + sfs_freemap_blocks (super s) \<le> nr_blocks s \<and>
     bm_nbits (freemap s) = sfs_freemap_bits (super s) \<and> 32 * bm_nwords (freemap s) = bm_nbits (freemap s)"

text \<open>The super block and the bitmap on the disk are those in memory.\<close>

definition super_saved :: "('d \<Rightarrow> nat \<Rightarrow> byte list) \<Rightarrow> 'd sfs_fs \<Rightarrow> bool" where
  "super_saved block s \<longleftrightarrow> decode_super (block (sfs_dev s) 0) = super s \<and>
     (\<forall>k < sfs_freemap_blocks (super s). block (sfs_dev s) (2 + k) = take BLKSIZE (drop (BLKSIZE * k) (map_bytes (freemap s))))"

definition reserved :: "sfs_super \<Rightarrow> nat set" where
  "reserved su = insert 0 {2..<2 + sfs_freemap_blocks su}"

lemma map_upt_shift: "map f [a..<a + n] = map (\<lambda>k. f (a + k)) [0..<n]"
  by (induction n) simp_all

lemma decode_encode_super:
  assumes "super_ok su"
  shows "decode_super (encode_super su @ rest) = su"
proof -
  have e: "encode_super su @ rest = le 4 (su_magic su) @ le 4 (su_blocks su) @ le 4 (su_unused su) @ su_info su @ rest"
    by (simp add: encode_super_def)
  have "unle (le 4 (su_magic su)) = su_magic su" "unle (le 4 (su_blocks su)) = su_blocks su" "unle (le 4 (su_unused su)) = su_unused su"
    using assms by (simp_all add: le_numbers super_ok_def)
  then show ?thesis using assms unfolding e decode_super_def by (simp add: super_ok_def)
qed

lemma words_map_bytes: "words_of (map_bytes b) = bm_map b"
proof (rule nth_equalityI)
  have c: "map_bytes b = concat (map (le 4) (map unat (bm_map b))) @ []" by (simp add: map_bytes_def comp_def)
  have l: "length (map_bytes b) = 4 * length (bm_map b)" unfolding c by (simp only: length_append length_concat_le) simp
  show "length (words_of (map_bytes b)) = length (bm_map b)" by (simp add: words_of_def l)
  fix k
  assume "k < length (words_of (map_bytes b))"
  then have k: "k < length (bm_map b)" by (simp add: words_of_def l)
  have "take 4 (drop (4 * k) (map_bytes b)) = le 4 (unat (bm_map b ! k))"
    unfolding c using take_drop_concat [of k "map unat (bm_map b)" "[]"] k by simp
  moreover have "unat (bm_map b ! k) < 2 ^ 32" using unsigned_less [of "bm_map b ! k"] by simp
  then have "unle (le 4 (unat (bm_map b ! k))) = unat (bm_map b ! k)" by (simp only: le_numbers)
  ultimately show "words_of (map_bytes b) ! k = bm_map b ! k"
    using k by (simp add: words_of_def l)
qed

lemma length_map_bytes: "length (map_bytes b) = 4 * length (bm_map b)"
  using length_concat_le [of 4 "map unat (bm_map b)"] by (simp add: map_bytes_def comp_def)

lemma freemap_sizes:
  assumes "0 < su_blocks su" and "su_blocks su < 2 ^ 20"
  shows "sfs_freemap_bits su = 32768 * sfs_freemap_blocks su" and "0 < sfs_freemap_blocks su" and "sfs_freemap_blocks su \<le> 32"
    and "su_blocks su \<le> sfs_freemap_bits su"
proof -
  define n where "n = su_blocks su"
  define q where "q = (n + 32767) div 32768"
  have n: "0 < n" "n < 1048576" using assms by (simp_all add: n_def)
  have q: "q \<le> 32" "0 < q" "n \<le> 32768 * q" using n unfolding q_def by linarith+
  have "sfs_freemap_blocks su = q"
    using n q by (simp add: sfs_freemap_blocks_def ROUNDUP_DIV_def SFS_BLKBITS_def BLKSIZE_def n_def [symmetric] q_def)
  moreover have "32767 + n - (32767 + n) mod 32768 = 32768 * q" unfolding q_def by (simp add: minus_mod_eq_mult_div add.commute)
  then have "sfs_freemap_bits su = 32768 * q"
    using n q by (simp add: sfs_freemap_bits_def SFS_BLKBITS_def BLKSIZE_def n_def [symmetric] Let_def)
  ultimately show "sfs_freemap_bits su = 32768 * sfs_freemap_blocks su" "0 < sfs_freemap_blocks su" "sfs_freemap_blocks su \<le> 32"
    "su_blocks su \<le> sfs_freemap_bits su" using q by (simp_all add: n_def)
qed

lemma create_whole_words:
  assumes "0 < nw" and "32 * nw + 64 < 2 ^ 32"
  shows "bitmap_create True True (32 * nw) = Some (Some \<lparr>bm_nbits = 32 * nw, bm_nwords = nw, bm_map = replicate nw (- 1)\<rparr>)"
  using assms by (simp add: bitmap_create_def ROUNDUP_DIV_def WORD_BITS_def u32_def u64_def)

lemma count_loop_ok:
  "bitmap_ok b \<Longrightarrow> i + k \<le> bm_nbits b \<Longrightarrow> n + k < 2 ^ 32 \<Longrightarrow>
    count_loop b i k n = Some (n + card (free_bits b \<inter> {i..<i + k}))"
proof (induction k arbitrary: i n)
  case (Suc k)
  have t: "bitmap_test b i = Some (i \<in> free_bits b)" using bm.test_free [OF Suc.prems(1), of i] Suc.prems(2) by simp
  have "{i..<i + Suc k} = insert i {Suc i..<Suc i + k}" by auto
  then have "free_bits b \<inter> {i..<i + Suc k} = (if i \<in> free_bits b then insert i (free_bits b \<inter> {Suc i..<Suc i + k}) else free_bits b \<inter> {Suc i..<Suc i + k})"
    by auto
  then have c: "card (free_bits b \<inter> {i..<i + Suc k}) = (if i \<in> free_bits b then 1 else 0) + card (free_bits b \<inter> {Suc i..<Suc i + k})"
    by simp
  show ?case unfolding c using t Suc.IH [OF Suc.prems(1), of "Suc i" n] Suc.IH [OF Suc.prems(1), of "Suc i" "Suc n"] Suc.prems(2,3) by simp
qed simp

context block_device
begin

lemma fs_blocks_small: "fs_ok D ok s \<Longrightarrow> nr_blocks s < 2 ^ 20"
  using blocks_bound [OF dev_ok, of s] by (auto simp: fs_ok_def)

lemma wblocks_ok:
  assumes "fs_ok D ok s" and "0 < b" "b + n \<le> nr_blocks s" and "length buf = n * BLKSIZE"
  shows "\<exists>s'. sfs_rwblock D buf b n True s = Some (s', buf, 0) \<and> fs_ok D ok s' \<and> same_map s s' \<and>
    (\<forall>c. block (sfs_dev s') c = (if b \<le> c \<and> c < b + n then take BLKSIZE (drop (BLKSIZE * (c - b)) buf) else block (sfs_dev s) c))"
  using assms
proof (induction n arbitrary: b s buf)
  case 0
  then show ?case by (auto simp: same_map_def)
next
  case (Suc n)
  have l: "length (take BLKSIZE buf) = BLKSIZE" "length (drop BLKSIZE buf) = n * BLKSIZE" using Suc.prems(4) by simp_all
  have b: "b < nr_blocks s" using Suc.prems(3) by simp
  obtain d where d: "sfs_rwblock_nolock D (take BLKSIZE buf) b True True s = Some (s\<lparr>sfs_dev := d\<rparr>, take BLKSIZE buf, 0)" "ok d"
    "block d = (block (sfs_dev s))(b := take BLKSIZE buf)"
    using rw_write [OF Suc.prems(1) b l(1), of True] Suc.prems(2) by auto
  have ok1: "fs_ok D ok (s\<lparr>sfs_dev := d\<rparr>)" using fs_ok_dev(1) [OF Suc.prems(1) d(2)] .
  have u: "u32 (b + 1) = b + 1" using b fs_blocks_small [OF Suc.prems(1)] by (simp add: u32_def)
  obtain s' where s': "sfs_rwblock D (drop BLKSIZE buf) (b + 1) n True (s\<lparr>sfs_dev := d\<rparr>) = Some (s', drop BLKSIZE buf, 0)"
    "fs_ok D ok s'" "same_map (s\<lparr>sfs_dev := d\<rparr>) s'"
    "\<forall>c. block (sfs_dev s') c = (if b + 1 \<le> c \<and> c < b + 1 + n then take BLKSIZE (drop (BLKSIZE * (c - (b + 1))) (drop BLKSIZE buf)) else block d c)"
    using Suc.IH [OF ok1 _ _ l(2), of "b + 1"] Suc.prems(3) by auto
  have "block (sfs_dev s') c = (if b \<le> c \<and> c < b + Suc n then take BLKSIZE (drop (BLKSIZE * (c - b)) buf) else block (sfs_dev s) c)" for c
  proof -
    consider "c = b" | "b + 1 \<le> c" | "c < b" by linarith
    then show ?thesis
    proof cases
      case 2
      then obtain e where e: "c = b + 1 + e" by (metis le_iff_add)
      have "BLKSIZE * e + BLKSIZE = BLKSIZE * (c - b)" using e by simp
      then show ?thesis using e s'(4) d(3) by (simp add: add.commute)
    qed (use s'(4) d(3) in simp_all)
  qed
  moreover have "sfs_rwblock D buf b (Suc n) True s = Some (s', buf, 0)" using d(1) u s'(1) by simp
  moreover have "same_map s s'" using s'(3) by (simp add: same_map_def)
  ultimately show ?case using s'(2) by blast
qed

lemma init_read_ok:
  assumes "ok d" and "b < d_blocks D" and "length buf = BLKSIZE"
  shows "\<exists>d'. sfs_init_read D b buf d = Some (d', block d b, 0) \<and> ok d' \<and> block d' = block d"
proof -
  have "b * BLKSIZE < 2 ^ 32" using assms(2) blocks_bound [OF assms(1)] by (simp add: BLKSIZE_def)
  then show ?thesis using read_block [OF assms] by (simp add: sfs_init_read_def u32_def)
qed

lemma init_loop_ok:
  assumes "ok d" and "b + n \<le> d_blocks D" and "length data = n * BLKSIZE"
  shows "\<exists>d'. init_freemap_loop D b n data d = Some (d', concat (map (block d) [b..<b + n]), 0) \<and> ok d' \<and> block d' = block d"
  using assms
proof (induction n arbitrary: b d data)
  case 0
  then show ?case by simp
next
  case (Suc n)
  have l: "length (take BLKSIZE data) = BLKSIZE" "length (drop BLKSIZE data) = n * BLKSIZE" using Suc.prems(3) by simp_all
  obtain d1 where d1: "sfs_init_read D b (take BLKSIZE data) d = Some (d1, block d b, 0)" "ok d1" "block d1 = block d"
    using init_read_ok [OF Suc.prems(1) _ l(1), of b] Suc.prems(2) by auto
  have u: "u32 (b + 1) = b + 1" using Suc.prems(2) blocks_bound [OF Suc.prems(1)] by (simp add: u32_def)
  obtain d' where d': "init_freemap_loop D (b + 1) n (drop BLKSIZE data) d1 = Some (d', concat (map (block d1) [b + 1..<b + 1 + n]), 0)"
    "ok d'" "block d' = block d1"
    using Suc.IH [OF d1(2) _ l(2), of "b + 1"] Suc.prems(2) by auto
  have "[b..<b + Suc n] = b # [b + 1..<b + 1 + n]" by (simp add: upt_conv_Cons)
  then show ?case using d1(1,3) d' u by simp
qed

lemma sync_nodes_ok:
  assumes "mount_ok D ok block m" and "set as \<subseteq> dom (mt_nodes m)"
  shows "\<exists>m'. sync_nodes D as m = Some m' \<and> mount_ok D ok block m' \<and> same_map (mt_fs m) (mt_fs m') \<and> mt_list m' = mt_list m \<and>
    mt_nodes m' = (\<lambda>b. if b \<in> set as then map_option cleaned (mt_nodes m b) else mt_nodes m b) \<and>
    (\<forall>c. c \<notin> node_ino m ` set as \<longrightarrow> block (sfs_dev (mt_fs m')) c = block (sfs_dev (mt_fs m)) c)"
  using assms
proof (induction as arbitrary: m)
  case Nil
  then show ?case by (simp add: same_map_def)
next
  case (Cons a as)
  obtain n where n: "mt_nodes m a = Some n" using Cons.prems(2) by auto
  let ?ino = "si_ino (nd_sin n)"
  have ok: "fs_ok D ok (mt_fs m)" and t: "table_ok m" and no: "node_ok block (mt_fs m) n" using Cons.prems(1) n by (auto simp: mount_ok_def)
  obtain s where s: "sfs_fsync D (nd_sin n) (mt_fs m) = Some (s, (nd_sin n)\<lparr>si_dirty := False\<rparr>, 0)" "fs_ok D ok s" "same_map (mt_fs m) s"
    "take 64 (block (sfs_dev s) ?ino) = encode_inode (si_din (nd_sin n))"
    "\<forall>c. c \<noteq> ?ino \<longrightarrow> block (sfs_dev s) c = block (sfs_dev (mt_fs m)) c"
    using fsync_ok [OF ok, of "nd_sin n"] no by (auto simp: node_ok_def)
  define m1 where "m1 = m\<lparr>mt_fs := s, mt_nodes := (mt_nodes m)(a \<mapsto> cleaned n)\<rparr>"
  have f1: "mt_fs m1 = s" "mt_list m1 = mt_list m" "mt_nodes m1 = (mt_nodes m)(a \<mapsto> cleaned n)" by (simp_all add: m1_def)
  have i1: "node_ino m1 b = node_ino m b" for b using n by (simp add: node_ino_def f1 cleaned_def)
  have "table_ok m1" unfolding m1_def using t n by (rule table_ok_same) (simp add: cleaned_def)
  moreover have "node_ok block s (cleaned n)"
    using no s(4) same_map_used [OF s(3)] by (simp add: node_ok_def cleaned_def)
  moreover have "node_ok block s n'" if b: "mt_nodes m b = Some n'" "b \<noteq> a" for b n'
    using Cons.prems(1) b other_ino [OF t n b] s(5) same_map_used [OF s(3)] by (auto simp: mount_ok_def node_ok_def)
  ultimately have mo1: "mount_ok D ok block m1" using s(2) unfolding mount_ok_def f1 by auto
  have "set as \<subseteq> dom (mt_nodes m1)" using Cons.prems(2) by (auto simp: f1)
  from Cons.IH [OF mo1 this] obtain m' where m': "sync_nodes D as m1 = Some m'" "mount_ok D ok block m'"
    "same_map (mt_fs m1) (mt_fs m')" "mt_list m' = mt_list m1"
    "mt_nodes m' = (\<lambda>b. if b \<in> set as then map_option cleaned (mt_nodes m1 b) else mt_nodes m1 b)"
    "\<forall>c. c \<notin> node_ino m1 ` set as \<longrightarrow> block (sfs_dev (mt_fs m')) c = block (sfs_dev (mt_fs m1)) c" by blast
  have "sync_nodes D (a # as) m = Some m'" using n s(1) m'(1) by (simp add: on_file_def m1_def cleaned_def)
  moreover have "same_map (mt_fs m) (mt_fs m')" using s(3) m'(3) by (simp add: same_map_def f1)
  moreover have "mt_nodes m' = (\<lambda>b. if b \<in> set (a # as) then map_option cleaned (mt_nodes m b) else mt_nodes m b)"
    unfolding m'(5) f1 using n by (auto simp: fun_eq_iff cleaned_def)
  moreover have "block (sfs_dev (mt_fs m')) c = block (sfs_dev (mt_fs m)) c" if "c \<notin> node_ino m ` set (a # as)" for c
  proof -
    have "node_ino m1 ` set as = node_ino m ` set as" by (simp add: i1)
    then have "block (sfs_dev (mt_fs m')) c = block (sfs_dev s) c" using that m'(6) by (simp add: f1)
    moreover have "c \<noteq> si_ino (nd_sin n)" using that n by (auto simp: node_ino_def)
    ultimately show ?thesis using s(5) by simp
  qed
  ultimately show ?case using m'(2,4) f1(2) by auto
qed

lemma sync_super_ok:
  assumes ok: "fs_ok D ok s" and n: "0 < nr_blocks s" and su: "super_ok (super s)"
  shows "\<exists>s'. sfs_sync_super D s = Some (s', 0) \<and> fs_ok D ok s' \<and> same_map s s' \<and>
    block (sfs_dev s') = (block (sfs_dev s))(0 := overlay (encode_super (super s)) (replicate BLKSIZE 0))"
proof -
  let ?b = "overlay (encode_super (super s)) (replicate BLKSIZE 0)"
  have "length (encode_super (super s)) = 44" using su by (simp add: encode_super_def super_ok_def)
  then have l: "length ?b = BLKSIZE" by (simp add: overlay_def BLKSIZE_def)
  have ok1: "fs_ok D ok (s\<lparr>sfs_buffer := ?b\<rparr>)" by (rule fs_ok_dev(2) [OF ok l])
  obtain d where d: "sfs_rwblock_nolock D ?b 0 True False (s\<lparr>sfs_buffer := ?b\<rparr>) = Some (s\<lparr>sfs_buffer := ?b, sfs_dev := d\<rparr>, ?b, 0)"
    "ok d" "block d = (block (sfs_dev s))(0 := ?b)"
    using rw_write [OF ok1 _ l, of 0 False] n by auto
  have "sfs_sync_super D s = Some (s\<lparr>sfs_buffer := ?b, sfs_dev := d\<rparr>, 0)"
    using d(1) by (simp add: sfs_sync_super_def SFS_BLKN_SUPER_def)
  moreover have "fs_ok D ok (s\<lparr>sfs_buffer := ?b, sfs_dev := d\<rparr>)" using fs_ok_dev(1) [OF ok1 d(2)] by simp
  ultimately show ?thesis using d(3) by (auto simp: same_map_def)
qed

lemma layout_sizes:
  assumes ok: "fs_ok D ok s" and lo: "layout_ok s"
  shows "bm_nwords (freemap s) = 1024 * sfs_freemap_blocks (super s)" and "length (map_bytes (freemap s)) = sfs_freemap_blocks (super s) * BLKSIZE"
    and "0 < sfs_freemap_blocks (super s)" "sfs_freemap_blocks (super s) \<le> 32"
proof -
  have n: "0 < nr_blocks s" using lo by (simp add: layout_ok_def)
  note f = freemap_sizes [OF n fs_blocks_small [OF ok]]
  show w: "bm_nwords (freemap s) = 1024 * sfs_freemap_blocks (super s)" using lo f(1) by (simp add: layout_ok_def)
  have "length (bm_map (freemap s)) = bm_nwords (freemap s)" using ok by (simp add: fs_ok_def bitmap_ok_def)
  then show "length (map_bytes (freemap s)) = sfs_freemap_blocks (super s) * BLKSIZE" using w by (simp add: length_map_bytes BLKSIZE_def)
  show "0 < sfs_freemap_blocks (super s)" "sfs_freemap_blocks (super s) \<le> 32" by (rule f(2,3))+
qed

lemma sync_freemap_ok:
  assumes ok: "fs_ok D ok s" and lo: "layout_ok s"
  shows "\<exists>s'. sfs_sync_freemap D s = Some (s', 0) \<and> fs_ok D ok s' \<and> same_map s s' \<and>
    (\<forall>k < sfs_freemap_blocks (super s). block (sfs_dev s') (2 + k) = take BLKSIZE (drop (BLKSIZE * k) (map_bytes (freemap s)))) \<and>
    (\<forall>c. c \<notin> {2..<2 + sfs_freemap_blocks (super s)} \<longrightarrow> block (sfs_dev s') c = block (sfs_dev s) c)"
proof -
  let ?n = "sfs_freemap_blocks (super s)"
  have n: "2 + ?n \<le> nr_blocks s" using lo by (simp add: layout_ok_def)
  obtain s' where s': "sfs_rwblock D (map_bytes (freemap s)) 2 ?n True s = Some (s', map_bytes (freemap s), 0)" "fs_ok D ok s'" "same_map s s'"
    "\<forall>c. block (sfs_dev s') c = (if 2 \<le> c \<and> c < 2 + ?n then take BLKSIZE (drop (BLKSIZE * (c - 2)) (map_bytes (freemap s))) else block (sfs_dev s) c)"
    using wblocks_ok [OF ok _ n layout_sizes(2) [OF ok lo]] by auto
  have "sfs_sync_freemap D s = Some (s', 0)"
    using s'(1) by (simp add: sfs_sync_freemap_def sfs_wblock_def SFS_BLKN_FREEMAP_def sfs_freemap_blocks_def)
  then show ?thesis using s' by (intro exI [of _ s']) auto
qed

lemma super_saved_cong:
  assumes "super_saved block s" and "super s' = super s" "freemap s' = freemap s"
    and "\<And>c. c \<in> reserved (super s) \<Longrightarrow> block (sfs_dev s') c = block (sfs_dev s) c"
  shows "super_saved block s'"
  using assms by (simp add: super_saved_def reserved_def)

lemma mount_ok_fs:
  assumes mo: "mount_ok D ok block m" and s: "fs_ok D ok s" "used_blocks s = used_blocks (mt_fs m)"
    and same: "\<And>a n. mt_nodes m a = Some n \<Longrightarrow> block (sfs_dev s) (si_ino (nd_sin n)) = block (sfs_dev (mt_fs m)) (si_ino (nd_sin n))"
  shows "mount_ok D ok block (m\<lparr>mt_fs := s\<rparr>)"
proof -
  have i: "node_ino (m\<lparr>mt_fs := s\<rparr>) = node_ino m" by (simp add: node_ino_def fun_eq_iff)
  have "table_ok m" using mo by (simp add: mount_ok_def)
  then have "table_ok (m\<lparr>mt_fs := s\<rparr>)" unfolding table_ok_def i by simp
  then show ?thesis using mo s same by (auto simp: mount_ok_def node_ok_def)
qed

lemma sync_saved:
  assumes mo: "mount_ok D ok block m" and lo: "layout_ok (mt_fs m)" and sv: "super_dirty (mt_fs m) \<or> super_saved block (mt_fs m)"
    and inos: "\<forall>a n. mt_nodes m a = Some n \<longrightarrow> si_ino (nd_sin n) \<notin> reserved (super (mt_fs m))"
  shows "\<exists>m'. sfs_sync D m = Some (m', 0) \<and> mount_ok D ok block m' \<and> super (mt_fs m') = super (mt_fs m) \<and>
    freemap (mt_fs m') = freemap (mt_fs m) \<and> super_saved block (mt_fs m') \<and> mt_nodes m' = (\<lambda>b. map_option cleaned (mt_nodes m b))"
proof -
  let ?su = "super (mt_fs m)"
  have t: "set (mt_list m) = dom (mt_nodes m)" using mo by (simp add: mount_ok_def table_ok_def)
  obtain m1 where m1: "sync_nodes D (mt_list m) m = Some m1" "mount_ok D ok block m1" "same_map (mt_fs m) (mt_fs m1)"
    "mt_nodes m1 = (\<lambda>b. if b \<in> set (mt_list m) then map_option cleaned (mt_nodes m b) else mt_nodes m b)"
    "\<forall>c. c \<notin> node_ino m ` set (mt_list m) \<longrightarrow> block (sfs_dev (mt_fs m1)) c = block (sfs_dev (mt_fs m)) c"
    using sync_nodes_ok [OF mo, of "mt_list m"] t by auto
  have nodes: "mt_nodes m1 = (\<lambda>b. map_option cleaned (mt_nodes m b))" proof
    show "mt_nodes m1 b = map_option cleaned (mt_nodes m b)" for b
      unfolding m1(4) t by (cases "mt_nodes m b") auto
  qed
  have sm: "super (mt_fs m1) = ?su" "freemap (mt_fs m1) = freemap (mt_fs m)" "super_dirty (mt_fs m1) = super_dirty (mt_fs m)"
    using m1(3) by (simp_all add: same_map_def)
  have ok1: "fs_ok D ok (mt_fs m1)" and lo1: "layout_ok (mt_fs m1)" using m1(2) lo sm by (simp_all add: mount_ok_def layout_ok_def)
  have ino1: "si_ino (nd_sin n) \<notin> reserved ?su" if "mt_nodes m1 a = Some n" for a n
    using that inos by (auto simp: nodes cleaned_def)
  show ?thesis
  proof (cases "super_dirty (mt_fs m)")
    case False
    have sv0: "super_saved block (mt_fs m)" using sv False by simp
    have kept: "block (sfs_dev (mt_fs m1)) c = block (sfs_dev (mt_fs m)) c" if "c \<in> reserved ?su" for c
    proof -
      have "c \<notin> node_ino m ` set (mt_list m)" using that inos t by (auto simp: node_ino_def)
      then show ?thesis using m1(5) by simp
    qed
    have "super_saved block (mt_fs m1)" by (rule super_saved_cong [OF sv0 sm(1,2) kept])
    moreover have "sfs_sync D m = Some (m1, 0)" using m1(1) False sm(3) by (simp add: sfs_sync_def)
    ultimately show ?thesis using m1(2) sm nodes by blast
  next
    case True
    let ?s0 = "(mt_fs m1)\<lparr>super_dirty := False\<rparr>"
    have ok0: "fs_ok D ok ?s0" and lo0: "layout_ok ?s0" using ok1 lo1 by (simp_all add: fs_ok_def layout_ok_def)
    obtain s1 where s1: "sfs_sync_super D ?s0 = Some (s1, 0)" "fs_ok D ok s1" "same_map ?s0 s1"
      "block (sfs_dev s1) = (block (sfs_dev ?s0))(0 := overlay (encode_super (super ?s0)) (replicate BLKSIZE 0))"
      using sync_super_ok [OF ok0] lo0 by (auto simp: layout_ok_def)
    have lo1': "layout_ok s1" using lo0 s1(3) by (simp add: same_map_def layout_ok_def)
    obtain s2 where s2: "sfs_sync_freemap D s1 = Some (s2, 0)" "fs_ok D ok s2" "same_map s1 s2"
      "\<forall>k < sfs_freemap_blocks (super s1). block (sfs_dev s2) (2 + k) = take BLKSIZE (drop (BLKSIZE * k) (map_bytes (freemap s1)))"
      "\<forall>c. c \<notin> {2..<2 + sfs_freemap_blocks (super s1)} \<longrightarrow> block (sfs_dev s2) c = block (sfs_dev s1) c"
      using sync_freemap_ok [OF s1(2) lo1'] by blast
    have f2: "super s2 = ?su" "freemap s2 = freemap (mt_fs m)" "super s1 = ?su" "freemap s1 = freemap (mt_fs m)"
      using s1(3) s2(3) sm by (simp_all add: same_map_def)
    have so: "super_ok ?su" using lo by (simp add: layout_ok_def)
    have "block (sfs_dev s2) 0 = encode_super ?su @ drop 44 (replicate BLKSIZE 0)"
    proof -
      have "length (encode_super ?su) = 44" using so by (simp add: encode_super_def super_ok_def)
      then show ?thesis using s2(5) s1(4) sm(1) by (simp add: overlay_def)
    qed
    then have "super_saved block s2" using decode_encode_super [OF so] s2(4) f2 by (simp add: super_saved_def)
    moreover have "mount_ok D ok block (m1\<lparr>mt_fs := s2\<rparr>)"
    proof (rule mount_ok_fs [OF m1(2) s2(2)])
      show "used_blocks s2 = used_blocks (mt_fs m1)" using f2 sm by (simp add: used_blocks_def)
      fix a n
      assume "mt_nodes m1 a = Some n"
      then have "si_ino (nd_sin n) \<notin> reserved ?su" by (rule ino1)
      then show "block (sfs_dev s2) (si_ino (nd_sin n)) = block (sfs_dev (mt_fs m1)) (si_ino (nd_sin n))"
        using s2(5) s1(4) f2(3) by (auto simp: reserved_def)
    qed
    moreover have "sfs_sync D m = Some (m1\<lparr>mt_fs := s2\<rparr>, 0)"
      using m1(1) True sm(3) s1(1) s2(1) by (simp add: sfs_sync_def)
    ultimately show ?thesis using f2 nodes by (intro exI [of _ "m1\<lparr>mt_fs := s2\<rparr>"]) simp
  qed
qed

lemma freemap_read:
  assumes ok: "fs_ok D ok s" and lo: "layout_ok s" and sv: "super_saved block s"
  shows "concat (map (block (sfs_dev s)) [2..<2 + sfs_freemap_blocks (super s)]) = map_bytes (freemap s)"
proof -
  let ?n = "sfs_freemap_blocks (super s)" and ?x = "map_bytes (freemap s)"
  have "map (block (sfs_dev s)) [2..<2 + ?n] = map (\<lambda>k. block (sfs_dev s) (2 + k)) [0..<?n]"
    by (rule map_upt_shift)
  also have "\<dots> = map (\<lambda>k. take BLKSIZE (drop (BLKSIZE * k) ?x)) [0..<?n]" using sv by (simp add: super_saved_def)
  finally show ?thesis using concat_take_drop [of BLKSIZE ?x ?n] layout_sizes(2) [OF ok lo] by (simp only:) (simp add: mult.commute)
qed

lemma mount_saved:
  assumes ok: "fs_ok D ok s" and lo: "layout_ok s" and sv: "super_saved block s"
    and size: "d_blocksize D = BLKSIZE" and junk: "length junk = BLKSIZE"
  shows "\<exists>d m. sfs_do_mount D (\<lambda>_. True) junk (sfs_dev s) = Some (d, Inr m) \<and> mount_ok D ok block m \<and>
    super (mt_fs m) = super s \<and> freemap (mt_fs m) = freemap s \<and> block (sfs_dev (mt_fs m)) = block (sfs_dev s) \<and>
    mt_nodes m = (\<lambda>_. None)"
proof -
  let ?su = "super s" and ?n = "sfs_freemap_blocks (super s)" and ?buf = "block (sfs_dev s) 0"
  have okd: "ok (sfs_dev s)" by (rule dev_ok [OF ok])
  have nb: "0 < su_blocks ?su" "2 + ?n \<le> su_blocks ?su" "su_blocks ?su \<le> d_blocks D" "su_magic ?su = SFS_MAGIC"
    using lo ok by (simp_all add: layout_ok_def fs_ok_def)
  note fsz = freemap_sizes [OF nb(1) fs_blocks_small [OF ok]]
  note ls = layout_sizes [OF ok lo]
  obtain d1 where d1: "sfs_init_read D 0 junk (sfs_dev s) = Some (d1, ?buf, 0)" "ok d1" "block d1 = block (sfs_dev s)"
    using init_read_ok [OF okd _ junk, of 0] nb by auto
  have dec: "decode_super ?buf = ?su" using sv by (simp add: super_saved_def)
  have lb: "length ?buf = BLKSIZE" by (rule block_length [OF okd])
  have "su_info ?su ! 31 = ?buf ! 43" unfolding dec [symmetric] using lb by (simp add: decode_super_def BLKSIZE_def)
  then have "?buf[43 := 0] = ?buf" using lo list_update_id [of ?buf 43] by (simp add: layout_ok_def super_ok_def)
  note upd = this
  define b0 where "b0 = \<lparr>bm_nbits = 32 * (1024 * ?n), bm_nwords = 1024 * ?n, bm_map = replicate (1024 * ?n) (- 1 :: 32 word)\<rparr>"
  have bits: "sfs_freemap_bits ?su = 32 * (1024 * ?n)" using fsz(1) by simp
  have "bitmap_create True True (32 * (1024 * ?n)) = Some (Some b0)"
    unfolding b0_def using fsz(2,3) by (intro create_whole_words) simp_all
  then have create: "bitmap_create True True (sfs_freemap_bits ?su) = Some (Some b0)" unfolding bits .
  have l0: "length (map_bytes b0) = ?n * BLKSIZE" by (simp add: length_map_bytes b0_def BLKSIZE_def)
  obtain d2 where d2: "init_freemap_loop D 2 ?n (map_bytes b0) d1 = Some (d2, map_bytes (freemap s), 0)" "ok d2" "block d2 = block d1"
    using init_loop_ok [OF d1(2) _ l0, of 2] nb freemap_read [OF ok lo sv] d1(3) by auto
  have fm: "b0\<lparr>bm_map := words_of (map_bytes (freemap s))\<rparr> = freemap s"
  proof -
    have "bm_nbits (freemap s) = 32 * (1024 * ?n)" using lo bits by (simp only: layout_ok_def)
    then show ?thesis using ls(1) by (cases "freemap s") (simp add: words_map_bytes b0_def)
  qed
  have init: "sfs_init_freemap D b0 SFS_BLKN_FREEMAP ?n d1 = Some (d2, freemap s, 0)"
    using d2(1) fm by (simp add: sfs_init_freemap_def SFS_BLKN_FREEMAP_def bitmap_getdata_def b0_def BLKSIZE_def)
  have bo: "bitmap_ok (freemap s)" and un: "su_unused ?su = card (free_blocks s)" using ok by (simp_all add: fs_ok_def)
  have "free_blocks s \<inter> {0..<0 + sfs_freemap_bits ?su} = free_blocks s" using bo lo by (auto simp: bitmap_ok_def layout_ok_def)
  then have cnt: "count_loop (freemap s) 0 (sfs_freemap_bits ?su) 0 = Some (su_unused ?su)"
    using count_loop_ok [OF bo, of 0 "sfs_freemap_bits ?su" 0] lo un fsz(3) by (simp add: layout_ok_def bits)
  define m where "m = \<lparr>mt_fs = \<lparr>super = ?su, sfs_dev = d2, freemap = freemap s, super_dirty = False, sfs_buffer = ?buf\<rparr>,
      mt_nodes = (\<lambda>_. None), mt_list = [], mt_hash = (\<lambda>_. [])\<rparr>"
  have "sfs_do_mount D (\<lambda>_. True) junk (sfs_dev s) = Some (d2, Inr m)"
    using size d1(1) nb(3,4) create init cnt
    by (simp add: sfs_do_mount_def SFS_BLKN_SUPER_def dec upd Let_def m_def)
  moreover have "mount_ok D ok block m"
    using ok d2(2) lb by (simp add: mount_ok_def table_ok_def m_def fs_ok_def)
  ultimately show ?thesis using d2(3) d1(3) by (auto simp: m_def)
qed

lemma remount:
  assumes mo: "mount_ok D ok block m" and lo: "layout_ok (mt_fs m)" and sv: "super_dirty (mt_fs m) \<or> super_saved block (mt_fs m)"
    and inos: "\<forall>a n. mt_nodes m a = Some n \<longrightarrow> si_ino (nd_sin n) \<notin> reserved (super (mt_fs m))"
    and size: "d_blocksize D = BLKSIZE" and junk: "length junk = BLKSIZE"
  shows "\<exists>m1 d m2. sfs_sync D m = Some (m1, 0) \<and> sfs_do_mount D (\<lambda>_. True) junk (sfs_dev (mt_fs m1)) = Some (d, Inr m2) \<and>
    mount_ok D ok block m2 \<and> super (mt_fs m2) = super (mt_fs m) \<and> freemap (mt_fs m2) = freemap (mt_fs m) \<and> mt_nodes m2 = (\<lambda>_. None) \<and>
    (\<forall>a n a'. mt_nodes m a = Some n \<longrightarrow> di_nlinks (si_din (nd_sin n)) \<noteq> 0 \<longrightarrow>
       (\<exists>m3. sfs_load_inode D True (Some a') (si_ino (nd_sin n)) m2 = Some (m3, Inr a') \<and>
          mt_nodes m3 a' = Some (fresh_node (si_din (nd_sin n)) (si_ino (nd_sin n)) (nd_ops n))))"
proof -
  obtain m1 where m1: "sfs_sync D m = Some (m1, 0)" "mount_ok D ok block m1" "super (mt_fs m1) = super (mt_fs m)"
    "freemap (mt_fs m1) = freemap (mt_fs m)" "super_saved block (mt_fs m1)" "mt_nodes m1 = (\<lambda>b. map_option cleaned (mt_nodes m b))"
    using sync_saved [OF mo lo sv inos] by blast
  have ok1: "fs_ok D ok (mt_fs m1)" using m1(2) by (simp add: mount_ok_def)
  have lo1: "layout_ok (mt_fs m1)" using lo m1(3,4) by (simp add: layout_ok_def)
  obtain d m2 where m2: "sfs_do_mount D (\<lambda>_. True) junk (sfs_dev (mt_fs m1)) = Some (d, Inr m2)" "mount_ok D ok block m2"
    "super (mt_fs m2) = super (mt_fs m1)" "freemap (mt_fs m2) = freemap (mt_fs m1)"
    "block (sfs_dev (mt_fs m2)) = block (sfs_dev (mt_fs m1))" "mt_nodes m2 = (\<lambda>_. None)"
    using mount_saved [OF ok1 lo1 m1(5) size junk] by blast
  have "\<exists>m3. sfs_load_inode D True (Some a') (si_ino (nd_sin n)) m2 = Some (m3, Inr a') \<and>
      mt_nodes m3 a' = Some (fresh_node (si_din (nd_sin n)) (si_ino (nd_sin n)) (nd_ops n))"
    if n: "mt_nodes m a = Some n" and l: "di_nlinks (si_din (nd_sin n)) \<noteq> 0" for a n a'
  proof -
    have c: "mt_nodes m1 a = Some (cleaned n)" using n by (simp add: m1(6))
    then have no: "node_ok block (mt_fs m1) (cleaned n)" using m1(2) by (auto simp: mount_ok_def)
    then have "take 64 (block (sfs_dev (mt_fs m2)) (si_ino (nd_sin n))) = encode_inode (si_din (nd_sin n))" "din_ok (si_din (nd_sin n))"
      using m2(5) by (simp_all add: node_ok_def cleaned_def)
    then have d: "si_din (nd_sin n) = decode_inode (take 64 (block (sfs_dev (mt_fs m2)) (si_ino (nd_sin n))))"
      using decode_encode [of "si_din (nd_sin n)" "[]"] by simp
    have "si_ino (nd_sin n) \<in> used_blocks (mt_fs m2)" "sfs_get_ops (di_type (si_din (nd_sin n))) = Some (nd_ops n)"
      using no m2(3,4) by (simp_all add: node_ok_def cleaned_def used_blocks_def)
    then show ?thesis using load_absent [OF m2(2) _ _ d l, of "nd_ops n" a'] m2(6) by auto
  qed
  then show ?thesis using m1(1,3,4) m2 by auto
qed

end

section \<open>The file system on disk0\<close>

abbreviation mounted :: "nat \<Rightarrow> ramdisk sfs_mount \<Rightarrow> bool" where
  "mounted nr m \<equiv> mount_ok (disk0 nr) (drive_of nr) disk0_block m"

text \<open>C35.
  What is synchronised survives: after \<open>sfs_sync\<close>, mounting the same device again succeeds with the
  super block and the bitmap as they were in memory, and \<open>sfs_load_inode\<close> of every inode that was in
  memory and has a name brings back its contents; all assertions on the way hold.\<close>
theorem sync_remounts:
  assumes "mounted nr m" and "layout_ok (mt_fs m)" and "super_dirty (mt_fs m) \<or> super_saved disk0_block (mt_fs m)"
    and "\<forall>a n. mt_nodes m a = Some n \<longrightarrow> si_ino (nd_sin n) \<notin> reserved (super (mt_fs m))"
    and "length junk = BLKSIZE"
  shows "\<exists>m1 d m2. sfs_sync (disk0 nr) m = Some (m1, 0) \<and>
    sfs_do_mount (disk0 nr) (\<lambda>_. True) junk (sfs_dev (mt_fs m1)) = Some (d, Inr m2) \<and> mounted nr m2 \<and>
    super (mt_fs m2) = super (mt_fs m) \<and> freemap (mt_fs m2) = freemap (mt_fs m) \<and> mt_nodes m2 = (\<lambda>_. None) \<and>
    (\<forall>a n a'. mt_nodes m a = Some n \<longrightarrow> di_nlinks (si_din (nd_sin n)) \<noteq> 0 \<longrightarrow>
       (\<exists>m3. sfs_load_inode (disk0 nr) True (Some a') (si_ino (nd_sin n)) m2 = Some (m3, Inr a') \<and>
          mt_nodes m3 a' = Some (fresh_node (si_din (nd_sin n)) (si_ino (nd_sin n)) (nd_ops n))))"
  by (rule d0.remount [OF assms(1-4) _ assms(5)]) (simp add: disk0_def)

text \<open>C36.
  Giving up the last reference to an inode that has a name writes it back when it is dirty and takes
  it out of the table; loading the same inode number later gives an inode with the same contents and
  one reference.  The table stays well formed: the list, the hash lists and the inodes agree, no
  inode number occurs twice.\<close>
theorem reclaim_reload:
  assumes "mounted nr m" and "mt_nodes m a = Some n"
    and "nd_ref n = 1" "si_reclaim (nd_sin n) = 1" "nd_open n = 0" "di_nlinks (si_din (nd_sin n)) \<noteq> 0"
    and "a' = a \<or> mt_nodes m a' = None"
  shows "\<exists>m1 m2. node_ref_dec (disk0 nr) a m = Some m1 \<and> mt_nodes m1 = (mt_nodes m)(a := None) \<and>
    sfs_load_inode (disk0 nr) True (Some a') (si_ino (nd_sin n)) m1 = Some (m2, Inr a') \<and> mounted nr m2 \<and>
    mt_nodes m2 = (mt_nodes m)(a := None, a' \<mapsto> fresh_node (si_din (nd_sin n)) (si_ino (nd_sin n)) (nd_ops n))"
  by (rule d0.reload [OF assms])

text \<open>C37.
  Giving up the last reference to a file without names deletes it: exactly its data blocks, its
  indirect block and the block of the inode become free, the inode leaves the table, and every other
  inode stays as it is, in memory and on the disk.\<close>
theorem reclaim_deletes_file:
  assumes "mounted nr m" and "mt_nodes m a = Some n"
    and "nd_ref n = 1" "si_reclaim (nd_sin n) = 1" "nd_open n = 0" "di_nlinks (si_din (nd_sin n)) = 0"
    and "nd_ops n = sfs_node_fileops" and "file_in (mt_fs m) (nd_sin n)"
    and "di_size (si_din (nd_sin n)) = 0 \<longrightarrow> di_blocks (si_din (nd_sin n)) = 0"
    and "\<forall>b n'. mt_nodes m b = Some n' \<longrightarrow> si_ino (nd_sin n') \<notin> blocks_of (mt_fs m) (nd_sin n)"
  shows "\<exists>m'. node_ref_dec (disk0 nr) a m = Some m' \<and> mounted nr m' \<and> mt_nodes m' = (mt_nodes m)(a := None) \<and>
    free_blocks (mt_fs m') = free_blocks (mt_fs m) \<union> blocks_of (mt_fs m) (nd_sin n) \<union> {si_ino (nd_sin n)}"
  using d0.reclaim_deletes [OF assms(1-8)] assms(9,10) by blast

text \<open>An inode number is loaded once: a second load finds the inode in the hash table, counts the
  reference and does not touch the disk.\<close>
theorem load_inode_shared:
  assumes "mounted nr m" and "mt_nodes m a = Some n"
  shows "sfs_load_inode (disk0 nr) mem addr (si_ino (nd_sin n)) m = Some (m\<lparr>mt_nodes := (mt_nodes m)(a \<mapsto> referenced n)\<rparr>, Inr a) \<and>
    mounted nr (m\<lparr>mt_nodes := (mt_nodes m)(a \<mapsto> referenced n)\<rparr>)"
  using load_present [OF _ assms(2)] mount_ok_node [OF assms same_referenced] assms(1) by (simp add: mount_ok_def)

section \<open>The properties at work\<close>

text \<open>The sample file system with one inode in memory, of a file with the block 4.\<close>

definition mount_sample :: "nat \<Rightarrow> ramdisk sfs_mount" where
  "mount_sample links = \<lparr>mt_fs = sfs_sample\<lparr>super_dirty := True\<rparr>,
     mt_nodes = [100 \<mapsto> \<lparr>nd_sin = (upd_din (\<lambda>d. d\<lparr>di_nlinks := links\<rparr>) (inode_sample SFS_TYPE_FILE [4]))\<lparr>si_dirty := True\<rparr>,
       nd_ops = sfs_node_fileops, nd_ref = 1, nd_open = 0\<rparr>],
     mt_list = [100], mt_hash = (\<lambda>h. if h = sin_hashfn 1 then [100] else [])\<rparr>"

lemma mount_sample_node:
  "mt_nodes (mount_sample links) a = Some n \<longleftrightarrow> a = 100 \<and>
     n = \<lparr>nd_sin = (upd_din (\<lambda>d. d\<lparr>di_nlinks := links\<rparr>) (inode_sample SFS_TYPE_FILE [4]))\<lparr>si_dirty := True\<rparr>,
       nd_ops = sfs_node_fileops, nd_ref = 1, nd_open = 0\<rparr>"
  by (auto simp: mount_sample_def)

lemma mount_sample_ok:
  assumes "links < 2 ^ 16"
  shows "mounted 2048 (mount_sample links)"
proof -
  have "sfs_ok 2048 (sfs_sample\<lparr>super_dirty := True\<rparr>)" using fs_sample_ok by (simp add: fs_ok_def)
  moreover have "table_ok (mount_sample links)"
    by (simp add: table_ok_def mount_sample_def node_ino_def inode_sample_def upd_din_def)
  moreover have "node_ok disk0_block (sfs_sample\<lparr>super_dirty := True\<rparr>) n" if "mt_nodes (mount_sample links) a = Some n" for a n
  proof -
    have "used_blocks (sfs_sample\<lparr>super_dirty := True\<rparr>) = used_blocks sfs_sample" by (simp add: used_blocks_def)
    then show ?thesis using that assms unfolding mount_sample_node
      by (simp add: node_ok_def din_ok_def inode_sample_def upd_din_def fs_sample_used sfs_get_ops_def SFS_TYPE_FILE_def SFS_TYPE_DIR_def
        SFS_NDIRECT_def BLKSIZE_def)
  qed
  ultimately show ?thesis by (auto simp: mount_ok_def mount_sample_def)
qed

theorem sync_remounts_witness:
  "\<exists>m1 d m2 m3. sfs_sync (disk0 2048) (mount_sample 1) = Some (m1, 0) \<and>
    sfs_do_mount (disk0 2048) (\<lambda>_. True) (replicate BLKSIZE 9) (sfs_dev (mt_fs m1)) = Some (d, Inr m2) \<and>
    sfs_load_inode (disk0 2048) True (Some 7) 1 m2 = Some (m3, Inr 7)"
proof -
  have lo: "layout_ok (mt_fs (mount_sample 1))"
    by (simp add: layout_ok_def mount_sample_def sfs_sample_def super_ok_def SFS_MAGIC_def sfs_freemap_blocks_def sfs_freemap_bits_def
      ROUNDUP_DIV_def SFS_BLKBITS_def BLKSIZE_def Let_def nth_replicate)
  have di: "super_dirty (mt_fs (mount_sample 1)) \<or> super_saved disk0_block (mt_fs (mount_sample 1))" by (simp add: mount_sample_def)
  have r: "reserved (super (mt_fs (mount_sample 1))) = {0, 2}"
    by (auto simp: reserved_def mount_sample_def sfs_sample_def sfs_freemap_blocks_def ROUNDUP_DIV_def SFS_BLKBITS_def BLKSIZE_def)
  have i: "\<forall>a n. mt_nodes (mount_sample 1) a = Some n \<longrightarrow> si_ino (nd_sin n) \<notin> reserved (super (mt_fs (mount_sample 1)))"
    unfolding mount_sample_node r by (simp add: inode_sample_def upd_din_def)
  obtain n where n0: "mt_nodes (mount_sample 1) 100 = Some n" by (simp add: mount_sample_def)
  then have n: "mt_nodes (mount_sample 1) 100 = Some n" "si_ino (nd_sin n) = 1" "di_nlinks (si_din (nd_sin n)) \<noteq> 0"
    using mount_sample_node [of 1 100 n] by (simp_all add: inode_sample_def upd_din_def)
  have l: "length (replicate BLKSIZE (9 :: byte)) = BLKSIZE" by simp
  show ?thesis using sync_remounts [OF mount_sample_ok lo di i l] n by fastforce
qed

theorem reclaim_reload_witness:
  "\<exists>m1 m2. node_ref_dec (disk0 2048) 100 (mount_sample 1) = Some m1 \<and>
    sfs_load_inode (disk0 2048) True (Some 100) 1 m1 = Some (m2, Inr 100)"
proof -
  obtain n where n0: "mt_nodes (mount_sample 1) 100 = Some n" by (simp add: mount_sample_def)
  then have n: "mt_nodes (mount_sample 1) 100 = Some n" "si_ino (nd_sin n) = 1" "di_nlinks (si_din (nd_sin n)) \<noteq> 0"
    "nd_ref n = 1" "si_reclaim (nd_sin n) = 1" "nd_open n = 0"
    using mount_sample_node [of 1 100 n] by (simp_all add: inode_sample_def upd_din_def)
  show ?thesis using reclaim_reload [OF mount_sample_ok n(1,4-6,3), of 100] n(2) by auto
qed

theorem reclaim_deletes_file_witness:
  "\<exists>m'. node_ref_dec (disk0 2048) 100 (mount_sample 0) = Some m' \<and> free_blocks (mt_fs m') = {5..<2048} \<union> {4} \<union> {1}"
proof -
  let ?s = "mt_fs (mount_sample 0)" and ?i = "inode_sample SFS_TYPE_FILE [4]"
  obtain n where n0: "mt_nodes (mount_sample 0) 100 = Some n" by (simp add: mount_sample_def)
  then have n: "mt_nodes (mount_sample 0) 100 = Some n" "si_ino (nd_sin n) = 1" "di_nlinks (si_din (nd_sin n)) = 0"
    "nd_ref n = 1" "si_reclaim (nd_sin n) = 1" "nd_open n = 0" "nd_ops n = sfs_node_fileops" "di_size (si_din (nd_sin n)) \<noteq> 0"
    "si_din (nd_sin n) = (si_din ?i)\<lparr>di_nlinks := 0\<rparr>"
    using mount_sample_node [of 0 100 n] by (simp_all add: inode_sample_def upd_din_def BLKSIZE_def)
  have f: "free_blocks ?s = {5..<2048}" "contents ?s = contents sfs_sample" "used_blocks ?s = used_blocks sfs_sample"
    using fs_sample_free by (simp_all add: mount_sample_def used_blocks_def)
  have m: "blkmap (contents ?s) (si_din (nd_sin n)) = blkmap (contents sfs_sample) (si_din ?i)"
    unfolding n(9) f(2) by (simp add: blkmap_def fun_eq_iff)
  have fo: "file_in ?s (nd_sin n)"
    using fs_sample_file(1) [of "[4]" SFS_TYPE_FILE] unfolding file_ok_def m f(3) by (simp add: n(9))
  have o: "blocks_of ?s (nd_sin n) = {4}"
    using fs_sample_file(2) [of "[4]" SFS_TYPE_FILE] unfolding owned_def m by (simp add: n(9) split: if_splits)
  have i: "\<forall>b n'. mt_nodes (mount_sample 0) b = Some n' \<longrightarrow> si_ino (nd_sin n') \<notin> blocks_of ?s (nd_sin n)"
    unfolding o mount_sample_node by (simp add: inode_sample_def upd_din_def)
  show ?thesis using reclaim_deletes_file [OF mount_sample_ok n(1,4-6,3,7) fo _ i] n(2,8) o f(1) by auto
qed

end
