(* ===== verification/Page_Fault.thy ===== *)
theory Page_Fault
  imports Vmm
begin

unbundle bit_operations_syntax

text \<open>
  The page-fault handler \<open>do_pgfault\<close> of \<open>kern/mm/vmm.c\<close> and \<open>pgfault_handler\<close> of
  \<open>kern/trap/trap.c\<close>, as they are in the last laboratory: the area of the address is
  looked up, the tables are completed and a page is mapped on first use.  The lemmas join
  the area list of \<open>Vmm\<close> with the page tables of \<open>Page_Table\<close>.
\<close>

section \<open>The handlers\<close>

record fault_state =
  pf_vm :: vmm
  pgfault_num :: nat

definition READ_WRITE :: "64 word" where "READ_WRITE = PTE_R OR PTE_W OR PTE_V"

definition vma_perm :: "vma_struct \<Rightarrow> 64 word" where
  "vma_perm v = (if vm_flags v AND VM_WRITE \<noteq> 0 then PTE_U OR READ_WRITE else PTE_U)"

text \<open>
  With swapping on, an entry that is not zero leads to \<open>page->pra_vaddr = addr\<close> with the
  null pointer \<open>page\<close>, because the calls before it are commented out: the kernel stops.
\<close>

definition fault_in :: "nat \<Rightarrow> nat \<Rightarrow> 64 word \<Rightarrow> machine \<Rightarrow> (machine \<times> int) option" where
  "fault_in pgdir addr perm s = do {
     (s, ptep) \<leftarrow> get_pte pgdir addr True s;
     (case ptep of
        None \<Rightarrow> Some (s, - E_NO_MEM)
      | Some x \<Rightarrow>
          if entry_at x s = 0 then do {
            (s, r) \<leftarrow> pgdir_alloc_page pgdir addr perm s;
            Some (s, if r = None then - E_NO_MEM else 0) }
          else do { assert_k (\<not> swap_init_ok s); Some (s, - E_NO_MEM) }) }"

definition do_pgfault :: "nat option \<Rightarrow> 64 word \<Rightarrow> nat \<Rightarrow> fault_state \<Rightarrow> (fault_state \<times> int) option" where
  "do_pgfault mm error_code addr s = do {
     (v, vma) \<leftarrow> find_vma mm addr (pf_vm s);
     let s = s\<lparr>pf_vm := v, pgfault_num := u32 (pgfault_num s + 1)\<rparr>;
     (case (mm, vma) of
        (Some m, Some a) \<Rightarrow>
          if addr < start_of v a then Some (s, - E_INVAL)
          else do {
            pgdir \<leftarrow> pgdir_of (mms v m);
            (k, ret) \<leftarrow> fault_in pgdir (ROUNDDOWN addr PGSIZE) (vma_perm (vmas v a)) (mach v);
            Some (s\<lparr>pf_vm := v\<lparr>mach := k\<rparr>\<rparr>, ret) }
      | _ \<Rightarrow> Some (s, - E_INVAL)) }"

text \<open>\<open>check_mm_struct\<close>, \<open>current\<close> and \<open>idleproc\<close> are arguments, as is the \<open>mm\<close> of a process.\<close>

definition pgfault_handler ::
    "nat option \<Rightarrow> nat option \<Rightarrow> nat \<Rightarrow> (nat \<Rightarrow> nat option) \<Rightarrow> 64 word \<Rightarrow> nat \<Rightarrow>
      fault_state \<Rightarrow> (fault_state \<times> int) option" where
  "pgfault_handler check_mm cur idle mm_of cause tval s = do {
     mm \<leftarrow> (case check_mm of
              Some m \<Rightarrow> do { assert_k (cur = Some idle); Some (Some m) }
            | None \<Rightarrow> (case cur of None \<Rightarrow> None | Some p \<Rightarrow> Some (mm_of p)));
     do_pgfault mm cause tval s }"

section \<open>Taking a page\<close>

lemma alloc_page_ok:
  assumes ok: "pt_ok s D F" and F: "F \<noteq> {}"
  obtains b p where "alloc_page s = Some (s\<lparr>pm := b\<rparr>, Some p)" "p \<in> F" "p < 32768"
    "pt_ok (s\<lparr>pm := b\<rparr>) D (F - {p})" "clean p (s\<lparr>pm := b\<rparr>)" "\<not> is_table (s\<lparr>pm := b\<rparr>) D (page2ppn p)"
    "\<forall>k. table_at (s\<lparr>pm := b\<rparr>) k = table_at s k" "\<forall>d la. pte_of (s\<lparr>pm := b\<rparr>) d la = pte_of s d la"
proof -
  have ff: "ff_inv NPAGES (pm s) F" and t: "tree_ok s D F" and g: "pages_ok s D F" and fD: "finite D"
    using ok by (simp_all add: pt_ok_def)
  from ff show ?thesis
  proof (cases rule: alloc_page_cases)
    case none
    then show ?thesis using F by simp
  next
    case (some b p)
    let ?s = "s\<lparr>pm := b\<rparr>"
    have at: "table_at ?s k = table_at s k" for k by (cases k) (simp_all add: below_def)
    have tb: "is_table ?s D h = is_table s D h" for h by (simp add: is_table_def at)
    have pte: "pte_of ?s d la = pte_of s d la" for d la
      by (simp add: pte_of_def at del: table_at.simps split: option.split)
    have mp: "mappers ?s D q = mappers s D q" for q by (simp add: mappers_def pte)
    have pages: "q \<notin> F \<Longrightarrow> fa_pages b q = fa_pages (pm s) q" for q by (rule some(6))
    have "tree_ok ?s D (F - {p})" using t by (auto simp: tree_ok_def at simp del: table_at.simps)
    moreover have "pages_ok ?s D (F - {p})"
      unfolding pages_ok_def pte tb mp
    proof (intro conjI ballI allI impI)
      fix d la assume "d \<in> D" "la < USERTOP" "valid (pte_of s d la)"
      then have "leaf_ok s D F (entry_ppn (pte_of s d la))" using g by (simp add: pages_ok_def)
      then show "leaf_ok ?s D (F - {p}) (entry_ppn (pte_of s d la))"
        using pages by (simp add: leaf_ok_def tb clean_def)
    next
      fix q assume "q < NPAGES" "\<not> is_table s D (page2ppn q)"
      then show "page_ref q ?s = int (card (mappers s D q))"
        using g some(5) by (simp add: pages_ok_def page_ref_def)
    next
      fix q assume "q \<in> F - {p}"
      then show "\<not> PageReserved (fa_pages (pm ?s) q)" using g some(7) by (simp add: pages_ok_def)
    qed
    ultimately have "pt_ok ?s D (F - {p})" using some(4) fD by (simp add: pt_ok_def)
    moreover have "clean p ?s" using g some(2,7,8) by (simp add: clean_def pages_ok_def)
    moreover have "\<not> is_table ?s D (page2ppn p)" using free_not_table [OF t some(2)] tb by simp
    ultimately show ?thesis using that [OF some(1-3)] at pte by blast
  qed
qed

text \<open>Mapping an address whose table exists and whose entry is not valid.\<close>

lemma page_insert_fresh:
  assumes ok: "pt_ok s D F" and d: "d \<in> D" "la < USERTOP"
    and g: "table_at s (Tab d (PDX1 la) (PDX0 la)) = Some g" and z: "\<not> valid (pte_of s d la)"
    and p: "p < 32768" "p \<notin> F" "\<not> is_table s D (page2ppn p)" "clean p s" and perm: "perm_ok perm"
  obtains s' where "page_insert d p la perm s = Some (s', 0)" "pt_ok s' D F"
    "remapped s s' D d la (pte_create (page2ppn p) (PTE_V OR perm))"
    "frames s' (page2ppn p) = frames s (page2ppn p)"
    "\<forall>h. \<not> is_table s D h \<longrightarrow> frames s' h = frames s h"
proof -
  have t: "tree_ok s D F" using ok by (simp add: pt_ok_def)
  let ?x = "(g, PTX la)" let ?e = "pte_create (page2ppn p) (PTE_V OR perm)"
  let ?s' = "set_entry ?x ?e (page_ref_inc p s)"
  have z1: "\<not> valid (entry_at ?x (page_ref_inc p s))"
    using entry_at_leaf [OF g] z by (simp add: entry_at_def page_ref_inc_def)
  have run: "page_insert d p la perm s = Some (?s', 0)"
    using get_pte_present [OF t d g, of True] z1 by (simp add: page_insert_def Let_def)
  have "pt_ok ?s' D F \<and> remapped s ?s' D d la ?e"
    using page_insert_mapped [OF ok d g p perm] z z1 by (auto simp: Let_def)
  moreover have "is_table s D g" using table_at_is_table [OF _ g, of D] d by auto
  ultimately show ?thesis using p(3) by (intro that [OF run]) (auto simp: page_ref_inc_def)
qed

lemma pgdir_alloc_page_zero:
  assumes ok: "pt_ok s D F" and F: "F \<noteq> {}" and d: "d \<in> D" "la < USERTOP"
    and g: "table_at s (Tab d (PDX1 la) (PDX0 la)) = Some g" and z: "pte_of s d la = 0"
    and perm: "perm_ok perm"
  obtains s' p where "pgdir_alloc_page d la perm s = Some (s', Some p)" "p \<in> F" "pt_ok s' D (F - {p})"
    "remapped s s' D d la (pte_create (page2ppn p) (PTE_V OR perm))"
    "frames s' (page2ppn p) = frames s (page2ppn p)"
proof -
  obtain b p where b: "alloc_page s = Some (s\<lparr>pm := b\<rparr>, Some p)" "p \<in> F" "p < 32768"
    "pt_ok (s\<lparr>pm := b\<rparr>) D (F - {p})" "clean p (s\<lparr>pm := b\<rparr>)" "\<not> is_table (s\<lparr>pm := b\<rparr>) D (page2ppn p)"
    "\<forall>k. table_at (s\<lparr>pm := b\<rparr>) k = table_at s k" "\<forall>d la. pte_of (s\<lparr>pm := b\<rparr>) d la = pte_of s d la"
    using alloc_page_ok [OF ok F] .
  obtain s' where s': "page_insert d p la perm (s\<lparr>pm := b\<rparr>) = Some (s', 0)" "pt_ok s' D (F - {p})"
    "remapped (s\<lparr>pm := b\<rparr>) s' D d la (pte_create (page2ppn p) (PTE_V OR perm))"
    "frames s' (page2ppn p) = frames (s\<lparr>pm := b\<rparr>) (page2ppn p)"
    by (rule page_insert_fresh [OF b(4) d _ _ b(3) _ b(6,5) perm, of g]) (use g z b(7,8) in \<open>simp_all del: table_at.simps\<close>)
  have "pgdir_alloc_page d la perm s = Some (s', Some p)"
    using b(1) s'(1) by (simp add: pgdir_alloc_page_def)
  moreover have "remapped s s' D d la (pte_create (page2ppn p) (PTE_V OR perm))"
    using s'(3) by (simp add: remapped_def b(7,8) del: table_at.simps)
  ultimately show ?thesis using that b(2) s'(2,4) by simp
qed

lemma fault_in_zero:
  assumes ok: "pt_ok s D F" and d: "d \<in> D" "la < USERTOP" and z: "pte_of s d la = 0"
    and F: "3 \<le> card F" and perm: "perm_ok perm"
  obtains s' F' p where "fault_in d la perm s = Some (s', 0)" "p \<in> F" "p \<notin> F'" "F' \<subseteq> F" "pt_ok s' D F'"
    "\<forall>d'\<in>D. \<forall>la'<USERTOP. pte_of s' d' la' =
       (if d' = d \<and> la' div PGSIZE = la div PGSIZE then pte_create (page2ppn p) (PTE_V OR perm) else pte_of s d' la')"
    "frames s' (page2ppn p) = frames s (page2ppn p)"
proof -
  have F2: "2 \<le> card F" using F by simp
  obtain s1 g F1 where 1: "get_pte d la True s = Some (s1, Some (g, PTX la))" "pt_ok s1 D F1"
    "grown s s1 D F F1" "table_at s1 (Tab d (PDX1 la) (PDX0 la)) = Some g" "card F \<le> card F1 + 2"
    using get_pte_True [OF ok d F2] .
  have F1: "F1 \<noteq> {}" using 1(5) F by auto
  have z1: "pte_of s1 d la = 0" using grown_pte [OF 1(3) d] z by simp
  obtain s' p where s': "pgdir_alloc_page d la perm s1 = Some (s', Some p)" "p \<in> F1" "pt_ok s' D (F1 - {p})"
    "remapped s1 s' D d la (pte_create (page2ppn p) (PTE_V OR perm))"
    "frames s' (page2ppn p) = frames s1 (page2ppn p)"
    using pgdir_alloc_page_zero [OF 1(2) F1 d 1(4) z1 perm] .
  have run: "fault_in d la perm s = Some (s', 0)"
    using 1(1) s'(1) z1 entry_at_leaf [OF 1(4)] by (simp add: fault_in_def)
  have sub: "F1 \<subseteq> F" using 1(3) by (simp add: grown_def)
  have "tree_ok s1 D F1" using 1(2) by (simp add: pt_ok_def)
  then have "\<not> is_table s1 D (page2ppn p)" using s'(2) by (rule free_not_table)
  then have "frames s1 (page2ppn p) = frames s (page2ppn p)" using 1(3) by (simp add: grown_def)
  moreover have "\<forall>d'\<in>D. \<forall>la'<USERTOP. pte_of s' d' la' =
      (if d' = d \<and> la' div PGSIZE = la div PGSIZE then pte_create (page2ppn p) (PTE_V OR perm) else pte_of s d' la')"
    using s'(4) grown_pte [OF 1(3)] by (simp add: remapped_def)
  ultimately show ?thesis using that [OF run, of p "F1 - {p}"] s'(2,3,5) sub by auto
qed

section \<open>Looking up the area\<close>

lemma find_vma_pgdir: "find_vma mm addr s = Some (s', r) \<Longrightarrow> pgdir_of (mms s' m) = pgdir_of (mms s m)"
  by (auto simp: find_vma_def split: option.splits Option.bind_splits if_splits)

lemma find_vma_hit:
  assumes ok: "vm_ok m vs s" and v: "v \<in> set vs" "in_vma s v addr"
  obtains s' where "find_vma (Some m) addr s = Some (s', Some v)" "vm_ok m vs s'" "vmas s' = vmas s"
    "mach s' = mach s" "pgdir_of (mms s' m) = pgdir_of (mms s m)"
proof -
  have "List.find (\<lambda>v. in_vma s v addr) vs = Some v"
    by (rule find_unique [where P = "\<lambda>v. in_vma s v addr"]) (use v vm_ok_disjoint [OF ok] in blast)+
  then show ?thesis using that find_vma_ok [OF ok, of addr] find_vma_pgdir by metis
qed

lemma find_vma_miss:
  assumes ok: "vm_ok m vs s" and v: "\<forall>v\<in>set vs. \<not> in_vma s v addr"
  obtains s' where "find_vma (Some m) addr s = Some (s', None)" "vm_ok m vs s'" "mach s' = mach s"
proof -
  have "List.find (\<lambda>v. in_vma s v addr) vs = None" using v by (simp add: find_None_iff)
  then show ?thesis using that find_vma_ok [OF ok, of addr] by metis
qed

lemma vm_ok_mach: "vm_ok m vs (s\<lparr>mach := k\<rparr>) = vm_ok m vs s"
  by (simp add: vm_ok_def)

lemma vma_below_top: "vm_ok m vs s \<Longrightarrow> v \<in> set vs \<Longrightarrow> in_vma s v addr \<Longrightarrow> addr < USERTOP"
  by (auto simp: vm_ok_def in_vma_def dest: bspec)

lemma page_of_rounddown: "ROUNDDOWN addr PGSIZE div PGSIZE = addr div PGSIZE"
  by (simp add: ROUNDDOWN_def minus_mod_eq_div_mult vpn_of_page)

lemma do_pgfault_hit:
  assumes ok: "vm_ok m vs (pf_vm s)" and v: "v \<in> set vs" "in_vma (pf_vm s) v addr"
    and d: "pgdir_of (mms (pf_vm s) m) = Some d"
  obtains u where "vm_ok m vs u" "mach u = mach (pf_vm s)"
    "do_pgfault (Some m) code addr s =
       (case fault_in d (ROUNDDOWN addr PGSIZE) (vma_perm (vmas (pf_vm s) v)) (mach (pf_vm s)) of
          None \<Rightarrow> None
        | Some (k, ret) \<Rightarrow> Some (\<lparr>pf_vm = u\<lparr>mach := k\<rparr>, pgfault_num = u32 (pgfault_num s + 1)\<rparr>, ret))"
proof -
  obtain u where u: "find_vma (Some m) addr (pf_vm s) = Some (u, Some v)" "vm_ok m vs u"
    "vmas u = vmas (pf_vm s)" "mach u = mach (pf_vm s)" "pgdir_of (mms u m) = Some d"
    using find_vma_hit [OF ok v] d by metis
  have "\<not> addr < start_of u v" using v(2) u(3) by (simp add: in_vma_def)
  then show ?thesis
    using that [OF u(2,4)] u by (simp add: do_pgfault_def Let_def split: option.split prod.split)
qed

lemma do_pgfault_snd:
  "map_option snd (case r of None \<Rightarrow> None | Some (k, ret) \<Rightarrow> Some (g k, ret)) = map_option snd r"
  by (auto split: option.split)

lemma do_pgfault_outcome:
  assumes "vm_ok m vs (pf_vm s)" and "v \<in> set vs" "in_vma (pf_vm s) v addr"
    and "pgdir_of (mms (pf_vm s) m) = Some d"
  shows "map_option snd (do_pgfault (Some m) code addr s) =
    map_option snd (fault_in d (ROUNDDOWN addr PGSIZE) (vma_perm (vmas (pf_vm s) v)) (mach (pf_vm s)))"
  by (rule do_pgfault_hit [OF assms, of code]) (simp only: do_pgfault_snd)

text \<open>The other ways through the handler.\<close>

lemma fault_in_mapped:
  assumes ok: "pt_ok s D F" and d: "d \<in> D" "la < USERTOP" and z: "pte_of s d la \<noteq> 0"
  shows "map_option snd (fault_in d la perm s) = (if swap_init_ok s then None else Some (- E_NO_MEM))"
proof -
  have t: "tree_ok s D F" using ok by (simp add: pt_ok_def)
  obtain g where g: "table_at s (Tab d (PDX1 la) (PDX0 la)) = Some g"
    using z by (auto simp: pte_of_def simp del: table_at.simps split: option.splits)
  show ?thesis
    using get_pte_present [OF t d g, of True] entry_at_leaf [OF g] z by (simp add: fault_in_def)
qed

lemma fault_in_oom:
  assumes ok: "pt_ok s D {}" and d: "d \<in> D" "la < USERTOP" and sw: "\<not> swap_init_ok s"
  shows "map_option snd (fault_in d la perm s) = Some (- E_NO_MEM)"
proof -
  have t: "tree_ok s D {}" and ff: "ff_inv NPAGES (pm s) {}" using ok by (simp_all add: pt_ok_def)
  have none: "alloc_page s = Some (s, None)" using ff sw by (cases rule: alloc_page_cases) auto
  let ?t = "table_at s (Tab d (PDX1 la) (PDX0 la))"
  show ?thesis
  proof (cases ?t)
    case (Some g)
    then show ?thesis
      using get_pte_present [OF t d Some, of True] none sw
      by (simp add: fault_in_def pgdir_alloc_page_def)
  next
    case None
    have "get_pte d la True s = Some (s, None)"
    proof (cases "below s d (PDX1 la)")
      case (Some f)
      then have k: "Dir d (PDX1 la) \<in> user_keys D" "table_at s (Dir d (PDX1 la)) = Some f" using d by simp_all
      have "f < 557056" using table_not_free [OF t table_at_is_table [OF k]] by (simp add: in_mem_def)
      then show ?thesis using Some None get_table_oom [OF _ none] by (simp add: get_pte_def get_table_present)
    qed (use get_table_oom [OF _ none] in \<open>simp add: get_pte_def\<close>)
    then show ?thesis by (simp add: fault_in_def)
  qed
qed

section \<open>Permissions\<close>

lemma perm_ok_vma [simp]: "perm_ok (vma_perm v)"
  by (simp add: vma_perm_def READ_WRITE_def perm_ok_def PTE_U_def PTE_V_def PTE_R_def PTE_W_def)

lemma pte_create_perm:
  "pte_create n t AND (PTE_R OR PTE_W OR PTE_X) = t AND (PTE_R OR PTE_W OR PTE_X)"
proof -
  have "push_bit 10 x AND 14 = (0 :: 64 word)" for x :: "64 word"
  proof -
    have "push_bit 10 x AND 14 = take_bit 10 (push_bit 10 x) AND 14"
      by (simp add: take_bit_eq_mask mask_eq_exp_minus_1 and.assoc)
    also have "\<dots> = 0" by (simp add: take_bit_push_bit del: take_bit_eq_mask)
    finally show ?thesis .
  qed
  then show ?thesis
    by (simp add: pte_create_def PTE_R_def PTE_W_def PTE_X_def PTE_V_def bit.conj_disj_distrib2)
qed

lemma vma_entry_leaf:
  "pte_create n (PTE_V OR vma_perm v) AND (PTE_R OR PTE_W OR PTE_X) = 0 \<longleftrightarrow> vm_flags v AND VM_WRITE = 0"
  unfolding pte_create_perm
  by (simp add: vma_perm_def READ_WRITE_def PTE_V_def PTE_U_def PTE_R_def PTE_W_def PTE_X_def)

section \<open>Properties\<close>

text \<open>C28. The first access to a page of an area: the fault handler returns 0, exactly the faulting page
  of this address space is mapped, to a page that was free, and areas, tables and reference
  counts stay consistent.  The content of the page is what its last owner left there, and
  in an area without write permission the entry has none of the bits R, W and X, which the
  hardware reads as a pointer to a further table.\<close>

theorem do_pgfault_maps:
  assumes "pt_ok (mach (pf_vm s)) D F" and "vm_ok m vs (pf_vm s)"
    and "pgdir_of (mms (pf_vm s) m) = Some d" and "d \<in> D" and "v \<in> set vs" and "in_vma (pf_vm s) v addr"
    and "pte_of (mach (pf_vm s)) d addr = 0" and "3 \<le> card F"
  shows "\<exists>s' F' p e. do_pgfault (Some m) code addr s = Some (s', 0) \<and> p \<in> F \<and> p \<notin> F' \<and> F' \<subseteq> F \<and>
    pt_ok (mach (pf_vm s')) D F' \<and> vm_ok m vs (pf_vm s') \<and>
    e = pte_create (page2ppn p) (PTE_V OR vma_perm (vmas (pf_vm s) v)) \<and>
    (\<forall>d'\<in>D. \<forall>la<USERTOP. pte_of (mach (pf_vm s')) d' la =
       (if d' = d \<and> la div PGSIZE = addr div PGSIZE then e else pte_of (mach (pf_vm s)) d' la)) \<and>
    (e AND (PTE_R OR PTE_W OR PTE_X) = 0 \<longleftrightarrow> vm_flags (vmas (pf_vm s) v) AND VM_WRITE = 0) \<and>
    frames (mach (pf_vm s')) (page2ppn p) = frames (mach (pf_vm s)) (page2ppn p)"
proof -
  let ?k = "mach (pf_vm s)" let ?a = "ROUNDDOWN addr PGSIZE" let ?perm = "vma_perm (vmas (pf_vm s) v)"
  have a: "?a < USERTOP" using vma_below_top [OF assms(2,5,6)] by (simp add: ROUNDDOWN_def)
  have z: "pte_of ?k d ?a = 0" using pte_of_page [OF page_of_rounddown] assms(7) by simp
  obtain k F' p where k: "fault_in d ?a ?perm ?k = Some (k, 0)" "p \<in> F" "p \<notin> F'" "F' \<subseteq> F" "pt_ok k D F'"
    "\<forall>d'\<in>D. \<forall>la<USERTOP. pte_of k d' la = (if d' = d \<and> la div PGSIZE = ?a div PGSIZE
       then pte_create (page2ppn p) (PTE_V OR ?perm) else pte_of ?k d' la)"
    "frames k (page2ppn p) = frames ?k (page2ppn p)"
    using fault_in_zero [OF assms(1,4) a z assms(8) perm_ok_vma] .
  obtain u where u: "vm_ok m vs u" "do_pgfault (Some m) code addr s =
      Some (\<lparr>pf_vm = u\<lparr>mach := k\<rparr>, pgfault_num = u32 (pgfault_num s + 1)\<rparr>, 0)"
    using do_pgfault_hit [OF assms(2,5,6,3), of code] k(1) by (auto split: option.splits)
  show ?thesis
    by (intro exI [of _ "\<lparr>pf_vm = u\<lparr>mach := k\<rparr>, pgfault_num = u32 (pgfault_num s + 1)\<rparr>"] exI [of _ F'] exI [of _ p]
        exI [of _ "pte_create (page2ppn p) (PTE_V OR ?perm)"] conjI u(2) k(2-4))
      (use u(1) k(5-7) vma_entry_leaf in \<open>simp_all add: page_of_rounddown vm_ok_mach\<close>)
qed

text \<open>The other outcomes.  An address outside every area gives \<open>-E_INVAL\<close> and changes no table.  When
  the page has an entry already, such as a page the process may not write, the handler
  fails with \<open>-E_NO_MEM\<close> only if swapping is off; with swapping on it writes through a null
  pointer.  When memory is exhausted and swapping is off the result is \<open>-E_NO_MEM\<close>.\<close>

theorem do_pgfault_fails:
  assumes "pt_ok (mach (pf_vm s)) D F" and "vm_ok m vs (pf_vm s)"
    and "pgdir_of (mms (pf_vm s) m) = Some d" and "d \<in> D"
  shows "((\<forall>v\<in>set vs. \<not> in_vma (pf_vm s) v addr) \<longrightarrow>
      (\<exists>s'. do_pgfault (Some m) code addr s = Some (s', - E_INVAL) \<and> mach (pf_vm s') = mach (pf_vm s) \<and>
         vm_ok m vs (pf_vm s'))) \<and>
    ((\<exists>v\<in>set vs. in_vma (pf_vm s) v addr) \<and> pte_of (mach (pf_vm s)) d addr \<noteq> 0 \<longrightarrow>
      map_option snd (do_pgfault (Some m) code addr s) =
        (if swap_init_ok (mach (pf_vm s)) then None else Some (- E_NO_MEM))) \<and>
    ((\<exists>v\<in>set vs. in_vma (pf_vm s) v addr) \<and> F = {} \<and> \<not> swap_init_ok (mach (pf_vm s)) \<longrightarrow>
      map_option snd (do_pgfault (Some m) code addr s) = Some (- E_NO_MEM))"
proof (intro conjI impI)
  assume "\<forall>v\<in>set vs. \<not> in_vma (pf_vm s) v addr"
  then show "\<exists>s'. do_pgfault (Some m) code addr s = Some (s', - E_INVAL) \<and> mach (pf_vm s') = mach (pf_vm s) \<and>
      vm_ok m vs (pf_vm s')"
    using find_vma_miss [OF assms(2)] by (fastforce simp: do_pgfault_def)
next
  let ?k = "mach (pf_vm s)" let ?a = "ROUNDDOWN addr PGSIZE"
  assume h: "(\<exists>v\<in>set vs. in_vma (pf_vm s) v addr) \<and> pte_of ?k d addr \<noteq> 0"
  then obtain v where v: "v \<in> set vs" "in_vma (pf_vm s) v addr" by blast
  have a: "?a < USERTOP" using vma_below_top [OF assms(2) v] by (simp add: ROUNDDOWN_def)
  have nz: "pte_of ?k d ?a \<noteq> 0" using pte_of_page [OF page_of_rounddown] h by simp
  then have "map_option snd (fault_in d ?a (vma_perm (vmas (pf_vm s) v)) ?k) =
      (if swap_init_ok ?k then None else Some (- E_NO_MEM))"
    by (rule fault_in_mapped [OF assms(1,4) a])
  then show "map_option snd (do_pgfault (Some m) code addr s) = (if swap_init_ok ?k then None else Some (- E_NO_MEM))"
    using do_pgfault_outcome [OF assms(2) v assms(3), of code] by simp
next
  let ?k = "mach (pf_vm s)" let ?a = "ROUNDDOWN addr PGSIZE"
  assume h: "(\<exists>v\<in>set vs. in_vma (pf_vm s) v addr) \<and> F = {} \<and> \<not> swap_init_ok ?k"
  then obtain v where v: "v \<in> set vs" "in_vma (pf_vm s) v addr" by blast
  have a: "?a < USERTOP" using vma_below_top [OF assms(2) v] by (simp add: ROUNDDOWN_def)
  have "map_option snd (fault_in d ?a (vma_perm (vmas (pf_vm s) v)) ?k) = Some (- E_NO_MEM)"
    by (rule fault_in_oom [OF _ assms(4) a]) (use assms(1) h in auto)
  then show "map_option snd (do_pgfault (Some m) code addr s) = Some (- E_NO_MEM)"
    using do_pgfault_outcome [OF assms(2) v assms(3), of code] by simp
qed

subsection \<open>The properties at work\<close>

text \<open>The areas of \<open>vm_sample\<close> over the tables of \<open>pt_sample\<close>, with swapping on.\<close>

definition fault_sample :: fault_state where
  "fault_sample = \<lparr>pf_vm = upd_mm 0 (\<lambda>x. x\<lparr>pgdir_of := Some sample_dir\<rparr>)
     (vm_sample\<lparr>mach := pt_sample\<lparr>swap_init_ok := True\<rparr>\<rparr>), pgfault_num = 0\<rparr>"

lemma pt_ok_swap: "pt_ok (s\<lparr>swap_init_ok := b\<rparr>) D F = pt_ok s D F"
proof -
  let ?s = "s\<lparr>swap_init_ok := b\<rparr>"
  have at: "table_at ?s k = table_at s k" for k by (cases k) (simp_all add: below_def)
  have pte: "pte_of ?s d la = pte_of s d la" for d la
    by (simp add: pte_of_def at del: table_at.simps split: option.split)
  have "is_table ?s D h = is_table s D h" for h by (simp add: is_table_def at)
  moreover have "clean p ?s = clean p s" "page_ref p ?s = page_ref p s" for p
    by (simp_all add: clean_def page_ref_def)
  moreover have "mappers ?s D q = mappers s D q" for q by (simp add: mappers_def pte)
  ultimately show ?thesis
    by (simp add: pt_ok_def tree_ok_def pages_ok_def leaf_ok_def at pte)
qed

lemma fault_sample_ok:
  "pt_ok (mach (pf_vm fault_sample)) {sample_dir} {20..<30}" "vm_ok 0 [0, 1] (pf_vm fault_sample)"
  "pgdir_of (mms (pf_vm fault_sample) 0) = Some sample_dir" "swap_init_ok (mach (pf_vm fault_sample))"
proof -
  show "pt_ok (mach (pf_vm fault_sample)) {sample_dir} {20..<30}"
    using sample_ok by (simp add: fault_sample_def pt_ok_swap)
  show "vm_ok 0 [0, 1] (pf_vm fault_sample)"
    using vm_sample_ok by (simp add: fault_sample_def vm_ok_def)
qed (simp_all add: fault_sample_def)

lemma fault_sample_areas:
  "in_vma (pf_vm fault_sample) v a \<longleftrightarrow> (if v = 0 then 0x200000 \<le> a \<and> a < 0x203000 else 0x400000 \<le> a \<and> a < 0x402000)"
  by (simp add: fault_sample_def in_vma_def vm_sample_def)

lemma fault_sample_pte:
  assumes "la < USERTOP"
  shows "pte_of (mach (pf_vm fault_sample)) sample_dir la =
    (if la div PGSIZE = 1024 then pte_create (page2ppn 5) (PTE_V OR PTE_USER) else 0)"
proof -
  have at: "table_at (s\<lparr>swap_init_ok := b\<rparr>) k = table_at s k" for s b k by (cases k) (simp_all add: below_def)
  have "pte_of (mach (pf_vm fault_sample)) sample_dir la = pte_of pt_sample sample_dir la"
    by (simp add: fault_sample_def pte_of_def at del: table_at.simps split: option.split)
  then show ?thesis using sample_pte [OF assms] by simp
qed

lemma do_pgfault_maps_witness:
  "\<exists>s' p. do_pgfault (Some 0) 15 0x201004 fault_sample = Some (s', 0) \<and> p \<in> {20..<30} \<and>
     pte_of (mach (pf_vm s')) sample_dir 0x201000 = pte_create (page2ppn p) (PTE_V OR (PTE_U OR READ_WRITE))"
proof -
  have z: "pte_of (mach (pf_vm fault_sample)) sample_dir 0x201004 = 0"
    by (subst fault_sample_pte) (simp_all add: USERTOP_def PGSIZE_def)
  have f: "vma_perm (vmas (pf_vm fault_sample) 0) = PTE_U OR READ_WRITE"
    by (simp add: vma_perm_def fault_sample_def vm_sample_def VM_WRITE_def)
  have u: "0x201000 < USERTOP" "(0x201000 :: nat) div PGSIZE = 0x201004 div PGSIZE"
    by (simp_all add: USERTOP_def PGSIZE_def)
  show ?thesis
    using do_pgfault_maps [OF fault_sample_ok(1-3) _ _ _ z, of 0 15] u f
    by (auto simp: fault_sample_areas)
qed

lemma do_pgfault_fails_witness:
  "do_pgfault (Some 0) 15 0x400008 fault_sample = None \<and>
   (\<exists>s'. do_pgfault (Some 0) 15 0x300000 fault_sample = Some (s', - E_INVAL))"
proof -
  have "0x400008 < USERTOP" "(0x400008 :: nat) div PGSIZE = 1024" by (simp_all add: USERTOP_def PGSIZE_def)
  then have "valid (pte_of (mach (pf_vm fault_sample)) sample_dir 0x400008)" by (simp add: fault_sample_pte)
  then have z: "pte_of (mach (pf_vm fault_sample)) sample_dir 0x400008 \<noteq> 0" by auto
  show ?thesis
    using do_pgfault_fails [OF fault_sample_ok(1-3), of "0x400008" 15] z fault_sample_ok(4)
      do_pgfault_fails [OF fault_sample_ok(1-3), of "0x300000" 15]
    by (auto simp: fault_sample_areas)
qed

end
