(* ===== verification/Swap_Manager.thy ===== *)
theory Swap_Manager
  imports List_Ring
begin

text \<open>
  The page-replacement classes \<open>swap_fifo.c\<close>, \<open>swap_clock.c\<close> and \<open>swap_lru.c\<close> behind
  \<open>struct swap_manager\<close>.  A page is linked through \<open>PraLink\<close> to the list whose head
  \<open>pra_list_head\<close> is \<open>PraHead\<close>; \<open>visited\<close> also has a value at the head, the memory word
  that \<open>le2page(head)->visited\<close> reads.  A victim is a list entry, or the null pointer; the
  entry \<open>PraHead\<close> stands for the page that \<open>le2page\<close> makes out of the head.

  The contract \<open>swap_policy\<close> is what \<open>swap_out\<close> relies on: pages that are made swappable
  join a list without repetition, and a victim is a member that leaves it.  The two FIFO
  classes and the clock meet it; the LRU class does not.
\<close>

section \<open>State\<close>

datatype pra_node = PraHead | PraLink nat

record pra =
  pra_links :: "pra_node links"
  visited :: "pra_node \<Rightarrow> nat"
  curr_ptr :: pra_node
  sm_priv :: "nat \<Rightarrow> pra_node option"

text \<open>The operations that take part; \<open>init\<close>, \<open>tick_event\<close> and \<open>set_unswappable\<close> return 0.\<close>

record swap_manager =
  sm_init_mm :: "nat \<Rightarrow> pra \<Rightarrow> pra"
  sm_map_swappable :: "nat option \<Rightarrow> nat \<Rightarrow> pra \<Rightarrow> pra option"
  sm_swap_out_victim :: "nat \<Rightarrow> bool \<Rightarrow> pra \<Rightarrow> (pra \<times> pra_node option) option"

definition le2page :: "pra_node \<Rightarrow> nat option" where
  "le2page le = (case le of PraHead \<Rightarrow> None | PraLink p \<Rightarrow> Some p)"

section \<open>First in, first out\<close>

definition fifo_init_mm :: "nat \<Rightarrow> pra \<Rightarrow> pra" where
  "fifo_init_mm m s = s\<lparr>pra_links := list_init PraHead (pra_links s), sm_priv := (sm_priv s)(m := Some PraHead)\<rparr>"

definition fifo_map_swappable :: "nat option \<Rightarrow> nat \<Rightarrow> pra \<Rightarrow> pra option" where
  "fifo_map_swappable mm page s = do {
     m \<leftarrow> mm;
     head \<leftarrow> sm_priv s m;
     Some (s\<lparr>pra_links := list_add head (PraLink page) (pra_links s)\<rparr>) }"

definition fifo_swap_out_victim :: "nat \<Rightarrow> bool \<Rightarrow> pra \<Rightarrow> (pra \<times> pra_node option) option" where
  "fifo_swap_out_victim m in_tick s = do {
     head \<leftarrow> sm_priv s m;
     assert_k (\<not> in_tick);
     let entry = list_prev head (pra_links s);
     if entry \<noteq> head then Some (s\<lparr>pra_links := list_del entry (pra_links s)\<rparr>, Some entry)
     else Some (s, None) }"

definition swap_manager_fifo :: swap_manager where
  "swap_manager_fifo = \<lparr>sm_init_mm = fifo_init_mm, sm_map_swappable = fifo_map_swappable,
     sm_swap_out_victim = fifo_swap_out_victim\<rparr>"

text \<open>From laboratory 4 on the queue runs the other way and an empty queue is not noticed.\<close>

definition fifo4_map_swappable :: "nat option \<Rightarrow> nat \<Rightarrow> pra \<Rightarrow> pra option" where
  "fifo4_map_swappable mm page s = do {
     m \<leftarrow> mm;
     head \<leftarrow> sm_priv s m;
     Some (s\<lparr>pra_links := list_add_before head (PraLink page) (pra_links s)\<rparr>) }"

definition fifo4_swap_out_victim :: "nat \<Rightarrow> bool \<Rightarrow> pra \<Rightarrow> (pra \<times> pra_node option) option" where
  "fifo4_swap_out_victim m in_tick s = do {
     head \<leftarrow> sm_priv s m;
     assert_k (\<not> in_tick);
     let entry = list_next head (pra_links s);
     Some (s\<lparr>pra_links := list_del entry (pra_links s)\<rparr>, Some entry) }"

definition swap_manager_fifo4 :: swap_manager where
  "swap_manager_fifo4 = \<lparr>sm_init_mm = fifo_init_mm, sm_map_swappable = fifo4_map_swappable,
     sm_swap_out_victim = fifo4_swap_out_victim\<rparr>"

section \<open>The clock\<close>

definition clock_init_mm :: "nat \<Rightarrow> pra \<Rightarrow> pra" where
  "clock_init_mm m s = s\<lparr>pra_links := list_init PraHead (pra_links s), curr_ptr := PraHead,
     sm_priv := (sm_priv s)(m := Some PraHead)\<rparr>"

definition clock_map_swappable :: "nat option \<Rightarrow> nat \<Rightarrow> pra \<Rightarrow> pra option" where
  "clock_map_swappable mm page s =
    (let s = s\<lparr>pra_links := list_add PraHead (PraLink page) (pra_links s)\<rparr>
     in Some (s\<lparr>visited := (visited s)(PraLink page := 1)\<rparr>))"

partial_function (option) clock_loop :: "pra_node \<Rightarrow> pra \<Rightarrow> (pra \<times> pra_node) option" where
  "clock_loop temp s =
    (let cur = list_prev temp (pra_links s)
     in if visited s cur = 0
        then Some (s\<lparr>pra_links := list_del cur (pra_links s)\<rparr>, cur)
        else clock_loop cur (if visited s cur = 1 then s\<lparr>visited := (visited s)(cur := 0)\<rparr> else s))"

definition clock_swap_out_victim :: "nat \<Rightarrow> bool \<Rightarrow> pra \<Rightarrow> (pra \<times> pra_node option) option" where
  "clock_swap_out_victim m in_tick s = do {
     head \<leftarrow> sm_priv s m;
     assert_k (\<not> in_tick);
     (s, page) \<leftarrow> clock_loop head s;
     Some (s, Some page) }"

definition swap_manager_clock :: swap_manager where
  "swap_manager_clock = \<lparr>sm_init_mm = clock_init_mm, sm_map_swappable = clock_map_swappable,
     sm_swap_out_victim = clock_swap_out_victim\<rparr>"

section \<open>Least recently used\<close>

definition lru_init_mm :: "nat \<Rightarrow> pra \<Rightarrow> pra" where
  "lru_init_mm m s = s\<lparr>pra_links := list_init PraHead (pra_links s), sm_priv := (sm_priv s)(m := Some PraHead)\<rparr>"

definition lru_map_swappable :: "nat option \<Rightarrow> nat \<Rightarrow> pra \<Rightarrow> pra option" where
  "lru_map_swappable mm page s = do {
     m \<leftarrow> mm;
     head \<leftarrow> sm_priv s m;
     let s = s\<lparr>pra_links := list_del (PraLink page) (pra_links s)\<rparr>;
     Some (s\<lparr>pra_links := list_add_before head (PraLink page) (pra_links s)\<rparr>) }"

definition lru_swap_out_victim :: "nat \<Rightarrow> bool \<Rightarrow> pra \<Rightarrow> (pra \<times> pra_node option) option" where
  "lru_swap_out_victim m in_tick s = do {
     head \<leftarrow> sm_priv s m;
     assert_k (\<not> in_tick);
     let entry = list_next head (pra_links s);
     if entry \<noteq> head then Some (s\<lparr>pra_links := list_del entry (pra_links s)\<rparr>, Some entry)
     else Some (s, None) }"

definition swap_manager_lru :: swap_manager where
  "swap_manager_lru = \<lparr>sm_init_mm = lru_init_mm, sm_map_swappable = lru_map_swappable,
     sm_swap_out_victim = lru_swap_out_victim\<rparr>"

lemmas swap_managers = swap_manager_fifo_def swap_manager_fifo4_def swap_manager_clock_def
  swap_manager_lru_def

section \<open>The contract\<close>

text \<open>\<open>rel s m xs\<close>: the pages \<open>xs\<close> are swappable in the address space \<open>m\<close>, the oldest first.\<close>

locale swap_policy =
  fixes sm :: swap_manager and rel :: "pra \<Rightarrow> nat \<Rightarrow> nat list \<Rightarrow> bool"
  assumes map_rel: "rel s m xs \<Longrightarrow> p \<notin> set xs \<Longrightarrow> \<exists>s'. sm_map_swappable sm (Some m) p s = Some s' \<and> rel s' m (xs @ [p])"
    and victim_rel: "rel s m xs \<Longrightarrow> xs \<noteq> [] \<Longrightarrow>
      \<exists>s' ys p zs. sm_swap_out_victim sm m False s = Some (s', Some (PraLink p)) \<and> xs = ys @ p # zs \<and> rel s' m (ys @ zs)"
    and distinct_rel: "rel s m xs \<Longrightarrow> distinct xs"

definition tail_rel :: "pra \<Rightarrow> nat \<Rightarrow> nat list \<Rightarrow> bool" where
  "tail_rel s m xs \<longleftrightarrow> sm_priv s m = Some PraHead \<and> ring (pra_links s) PraHead (map PraLink (rev xs))"

definition front_rel :: "pra \<Rightarrow> nat \<Rightarrow> nat list \<Rightarrow> bool" where
  "front_rel s m xs \<longleftrightarrow> sm_priv s m = Some PraHead \<and> ring (pra_links s) PraHead (map PraLink xs)"

lemma rel_distinct: "ring h PraHead (map PraLink xs) \<Longrightarrow> distinct xs"
  by (drule ring_distinct) (simp add: distinct_map)

lemma rel_distinct_rev: "ring h PraHead (map PraLink (rev xs)) \<Longrightarrow> distinct xs"
  using rel_distinct [of h "rev xs"] by simp

lemma fifo_map_rel:
  "tail_rel s m xs \<Longrightarrow> p \<notin> set xs \<Longrightarrow> \<exists>s'. fifo_map_swappable (Some m) p s = Some s' \<and> tail_rel s' m (xs @ [p])"
  using ring_list_add_head [of "pra_links s" PraHead "map PraLink (rev xs)" "PraLink p"]
  by (auto simp: fifo_map_swappable_def tail_rel_def)

lemma fifo_victim_rel:
  assumes "tail_rel s m (p # xs)"
  shows "\<exists>s'. fifo_swap_out_victim m False s = Some (s', Some (PraLink p)) \<and> tail_rel s' m xs"
proof -
  have r: "ring (pra_links s) PraHead (map PraLink (rev xs) @ PraLink p # [])" and h: "sm_priv s m = Some PraHead"
    using assms by (simp_all add: tail_rel_def)
  have "list_prev PraHead (pra_links s) = PraLink p" using ring_last [OF r] by (simp add: list_prev_def)
  then show ?thesis using h ring_list_del [OF r] by (simp add: fifo_swap_out_victim_def Let_def tail_rel_def)
qed

interpretation fifo: swap_policy swap_manager_fifo tail_rel
proof unfold_locales
  show "\<exists>s'. sm_map_swappable swap_manager_fifo (Some m) p s = Some s' \<and> tail_rel s' m (xs @ [p])"
    if "tail_rel s m xs" "p \<notin> set xs" for s m xs p
    using fifo_map_rel [OF that] by (simp add: swap_managers)
  show "\<exists>s' ys p zs. sm_swap_out_victim swap_manager_fifo m False s = Some (s', Some (PraLink p)) \<and>
      xs = ys @ p # zs \<and> tail_rel s' m (ys @ zs)" if r: "tail_rel s m xs" and ne: "xs \<noteq> []" for s m xs
  proof -
    obtain p zs where xs: "xs = p # zs" using ne by (cases xs) auto
    obtain s' where "fifo_swap_out_victim m False s = Some (s', Some (PraLink p))" "tail_rel s' m zs"
      using fifo_victim_rel r xs by blast
    then show ?thesis using xs by (intro exI [of _ s'] exI [of _ "[]"] exI [of _ p] exI [of _ zs]) (simp add: swap_managers)
  qed
  show "distinct xs" if "tail_rel s m xs" for s m xs
    using rel_distinct_rev that by (auto simp: tail_rel_def)
qed

lemma fifo4_victim_rel:
  assumes "front_rel s m (p # xs)"
  shows "\<exists>s'. fifo4_swap_out_victim m False s = Some (s', Some (PraLink p)) \<and> front_rel s' m xs"
proof -
  have r: "ring (pra_links s) PraHead ([] @ PraLink p # map PraLink xs)" and h: "sm_priv s m = Some PraHead"
    using assms by (simp_all add: front_rel_def)
  have "list_next PraHead (pra_links s) = PraLink p" using ring_first [OF r] by (simp add: list_next_def)
  then show ?thesis using h ring_list_del [OF r] by (simp add: fifo4_swap_out_victim_def Let_def front_rel_def)
qed

interpretation fifo4: swap_policy swap_manager_fifo4 front_rel
proof unfold_locales
  show "\<exists>s'. sm_map_swappable swap_manager_fifo4 (Some m) p s = Some s' \<and> front_rel s' m (xs @ [p])"
    if "front_rel s m xs" "p \<notin> set xs" for s m xs p
    using that ring_list_add_before_head [of "pra_links s" PraHead "map PraLink xs" "PraLink p"]
    by (auto simp: swap_managers fifo4_map_swappable_def front_rel_def)
  show "\<exists>s' ys p zs. sm_swap_out_victim swap_manager_fifo4 m False s = Some (s', Some (PraLink p)) \<and>
      xs = ys @ p # zs \<and> front_rel s' m (ys @ zs)" if r: "front_rel s m xs" and ne: "xs \<noteq> []" for s m xs
  proof -
    obtain p zs where xs: "xs = p # zs" using ne by (cases xs) auto
    obtain s' where "fifo4_swap_out_victim m False s = Some (s', Some (PraLink p))" "front_rel s' m zs"
      using fifo4_victim_rel r xs by blast
    then show ?thesis using xs by (intro exI [of _ s'] exI [of _ "[]"] exI [of _ p] exI [of _ zs]) (simp add: swap_managers)
  qed
  show "distinct xs" if "front_rel s m xs" for s m xs
    using that by (auto simp: front_rel_def dest: rel_distinct)
qed

text \<open>A class whose victim is always the oldest page.\<close>

fun map_all :: "swap_manager \<Rightarrow> nat \<Rightarrow> nat list \<Rightarrow> pra \<Rightarrow> pra option" where
  "map_all sm m [] s = Some s"
| "map_all sm m (p # ps) s = do { s \<leftarrow> sm_map_swappable sm (Some m) p s; map_all sm m ps s }"

fun victims :: "swap_manager \<Rightarrow> nat \<Rightarrow> nat \<Rightarrow> pra \<Rightarrow> (pra \<times> pra_node option list) option" where
  "victims sm m 0 s = Some (s, [])"
| "victims sm m (Suc k) s = do {
     (s, v) \<leftarrow> sm_swap_out_victim sm m False s;
     (s, vs) \<leftarrow> victims sm m k s;
     Some (s, v # vs) }"

locale fifo_policy = swap_policy +
  assumes init_rel: "rel (sm_init_mm sm m s) m []"
    and oldest_first: "rel s m (p # xs) \<Longrightarrow>
      \<exists>s'. sm_swap_out_victim sm m False s = Some (s', Some (PraLink p)) \<and> rel s' m xs"
begin

lemma map_all_rel: "rel s m xs \<Longrightarrow> distinct (xs @ ps) \<Longrightarrow> \<exists>s'. map_all sm m ps s = Some s' \<and> rel s' m (xs @ ps)"
proof (induction ps arbitrary: s xs)
  case (Cons p ps)
  then obtain s1 where "sm_map_swappable sm (Some m) p s = Some s1" "rel s1 m (xs @ [p])"
    using map_rel [OF Cons.prems(1), of p] by auto
  then show ?case using Cons.IH [of s1 "xs @ [p]"] Cons.prems(2) by simp
qed simp

lemma victims_in_order: "rel s m xs \<Longrightarrow>
    \<exists>s'. victims sm m (length xs) s = Some (s', map (\<lambda>p. Some (PraLink p)) xs) \<and> rel s' m []"
proof (induction xs arbitrary: s)
  case (Cons p xs)
  then obtain s1 where "sm_swap_out_victim sm m False s = Some (s1, Some (PraLink p))" "rel s1 m xs"
    using oldest_first [OF Cons.prems] by blast
  then show ?case using Cons.IH [of s1] by auto
qed simp

lemma in_order:
  assumes "distinct ps"
  shows "\<exists>s1 s2. map_all sm m ps (sm_init_mm sm m s) = Some s1 \<and>
    victims sm m (length ps) s1 = Some (s2, map (\<lambda>p. Some (PraLink p)) ps) \<and> rel s2 m []"
  using map_all_rel [OF init_rel, of ps m s] assms victims_in_order [of _ m ps] by fastforce

end

lemma fifo_init_rel: "tail_rel (fifo_init_mm m s) m []" "front_rel (fifo_init_mm m s) m []"
  by (simp_all add: fifo_init_mm_def tail_rel_def front_rel_def ring_list_init)

interpretation fifo_order: fifo_policy swap_manager_fifo tail_rel
  by unfold_locales (simp_all add: swap_managers fifo_victim_rel fifo_init_rel)

interpretation fifo4_order: fifo_policy swap_manager_fifo4 front_rel
  by unfold_locales (simp_all add: swap_managers fifo4_victim_rel fifo_init_rel)

section \<open>The clock hand\<close>

text \<open>
  A sweep over the pages \<open>qs\<close>, the oldest first, from the entry behind them: unvisited pages end
  it, visited ones lose their mark.
\<close>

lemma prev_step:
  assumes "ring h PraHead (map PraLink (rev (ds @ q # qs)))"
  shows "list_prev (last (PraHead # map PraLink ds)) h = PraLink q"
proof -
  have "chain (l_prev h) PraHead (map PraLink ds @ PraLink q # map PraLink qs) PraHead"
    using assms by (simp add: ring_def rev_map)
  then have "chain (l_prev h) PraHead (map PraLink ds) (PraLink q)" by (simp only: chain_append)
  then show ?thesis using chain_last by (fastforce simp: list_prev_def)
qed

lemma clock_sweep:
  assumes "ring (pra_links s) PraHead (map PraLink (rev (ds @ qs @ v # zs)))"
    and "\<forall>q\<in>set qs. visited s (PraLink q) = 1" and "visited s (PraLink v) = 0"
    and "t = last (PraHead # map PraLink ds)"
  shows "clock_loop t s =
    Some (s\<lparr>pra_links := list_del (PraLink v) (pra_links s),
      visited := \<lambda>x. if x \<in> PraLink ` set qs then 0 else visited s x\<rparr>, PraLink v)"
  using assms
proof (induction qs arbitrary: s ds t)
  case Nil
  then have "list_prev t (pra_links s) = PraLink v"
    using prev_step [of "pra_links s" ds v zs] by simp
  then show ?case using Nil(3) by (subst clock_loop.simps) (simp add: Let_def)
next
  case (Cons q qs)
  have p: "list_prev t (pra_links s) = PraLink q"
    using prev_step [of "pra_links s" ds q "qs @ v # zs"] Cons.prems(1,4) by simp
  have "distinct (ds @ q # qs @ v # zs)" using rel_distinct_rev [OF Cons.prems(1)] by auto
  then have d: "q \<notin> set qs" "q \<noteq> v" by auto
  let ?s = "s\<lparr>visited := (visited s)(PraLink q := 0)\<rparr>"
  have "clock_loop (PraLink q) ?s =
      Some (?s\<lparr>pra_links := list_del (PraLink v) (pra_links ?s),
        visited := \<lambda>x. if x \<in> PraLink ` set qs then 0 else visited ?s x\<rparr>, PraLink v)"
    by (rule Cons.IH [of _ "ds @ [q]"]) (use Cons.prems d in auto)
  moreover have "(\<lambda>x. if x \<in> PraLink ` set qs then 0 else visited ?s x) =
      (\<lambda>x. if x \<in> PraLink ` set (q # qs) then 0 else visited s x)" by auto
  ultimately show ?case using p Cons.prems(2) by (subst clock_loop.simps) (simp add: Let_def)
qed

lemma clock_pass:
  assumes "ring (pra_links s) PraHead (map PraLink (rev (ds @ qs)))"
    and "\<forall>q\<in>set qs. visited s (PraLink q) = 1"
    and "t = last (PraHead # map PraLink ds)" and "u = last (PraHead # map PraLink (ds @ qs))"
  shows "clock_loop t s =
    clock_loop u (s\<lparr>visited := \<lambda>x. if x \<in> PraLink ` set qs then 0 else visited s x\<rparr>)"
  using assms
proof (induction qs arbitrary: s ds t)
  case (Cons q qs)
  have p: "list_prev t (pra_links s) = PraLink q"
    using prev_step [of "pra_links s" ds q qs] Cons.prems(1,3) by simp
  have "distinct (ds @ q # qs)" using rel_distinct_rev [OF Cons.prems(1)] by auto
  then have d: "q \<notin> set qs" by auto
  let ?s = "s\<lparr>visited := (visited s)(PraLink q := 0)\<rparr>"
  have "clock_loop (PraLink q) ?s =
      clock_loop u (?s\<lparr>visited := \<lambda>x. if x \<in> PraLink ` set qs then 0 else visited ?s x\<rparr>)"
    by (rule Cons.IH [of _ "ds @ [q]"]) (use Cons.prems d in auto)
  moreover have "(\<lambda>x. if x \<in> PraLink ` set qs then 0 else visited ?s x) =
      (\<lambda>x. if x \<in> PraLink ` set (q # qs) then 0 else visited s x)" by auto
  ultimately show ?case using p Cons.prems(2)
    by (subst clock_loop.simps) (simp add: Let_def)
qed simp

text \<open>At the end of a pass the hand reads the head as if it were a page.\<close>

lemma clock_at_head:
  assumes "ring (pra_links s) PraHead (map PraLink (rev xs))"
  shows "clock_loop (last (PraHead # map PraLink xs)) s =
    (if visited s PraHead = 0 then Some (s\<lparr>pra_links := list_del PraHead (pra_links s)\<rparr>, PraHead)
     else clock_loop PraHead (if visited s PraHead = 1 then s\<lparr>visited := (visited s)(PraHead := 0)\<rparr> else s))"
proof -
  have "chain (l_prev (pra_links s)) PraHead (map PraLink xs) PraHead"
    using assms by (simp add: ring_def rev_map)
  then have "list_prev (last (PraHead # map PraLink xs)) (pra_links s) = PraHead"
    using chain_last by (fastforce simp: list_prev_def)
  then show ?thesis by (subst clock_loop.simps) (simp add: Let_def)
qed

text \<open>The page the hand stops at, and the marks it leaves.\<close>

definition clock_choice :: "(nat \<Rightarrow> nat) \<Rightarrow> nat list \<Rightarrow> nat" where
  "clock_choice vis xs = (case List.find (\<lambda>q. vis q = 0) xs of Some q \<Rightarrow> q | None \<Rightarrow> hd xs)"

definition clock_marks :: "(nat \<Rightarrow> nat) \<Rightarrow> nat list \<Rightarrow> nat \<Rightarrow> nat" where
  "clock_marks vis xs q = (if q \<in> set (takeWhile (\<lambda>q. vis q \<noteq> 0) xs) then 0 else vis q)"

abbreviation marks :: "pra \<Rightarrow> nat \<Rightarrow> nat" where "marks s q \<equiv> visited s (PraLink q)"

lemma clock_first_zero:
  assumes r: "ring (pra_links s) PraHead (map PraLink (rev xs))" and one: "\<forall>q\<in>set xs. marks s q \<le> 1"
    and z: "\<exists>q\<in>set xs. marks s q = 0"
  obtains s' ys zs where "clock_loop PraHead s = Some (s', PraLink (clock_choice (marks s) xs))"
    "xs = ys @ clock_choice (marks s) xs # zs" "ring (pra_links s') PraHead (map PraLink (rev (ys @ zs)))"
    "\<forall>q. marks s' q = clock_marks (marks s) xs q" "sm_priv s' = sm_priv s" "visited s' PraHead = visited s PraHead"
proof -
  obtain ys v zs where xs: "xs = ys @ v # zs" and v: "marks s v = 0" and ys: "\<forall>q\<in>set ys. marks s q \<noteq> 0"
    using split_list_first_prop [OF z] by blast
  have ys1: "\<forall>q\<in>set ys. marks s q = 1"
  proof
    fix q assume q: "q \<in> set ys"
    have "marks s q \<le> 1" "marks s q \<noteq> 0" using bspec [OF one, of q] bspec [OF ys q] q xs by simp_all
    then show "marks s q = 1" by linarith
  qed
  have "List.find (\<lambda>q. marks s q = 0) (ys @ v # zs) = Some v" using ys v by (subst find_append_not) auto
  then have c: "clock_choice (marks s) xs = v" by (simp add: clock_choice_def xs)
  have tw: "takeWhile (\<lambda>q. marks s q \<noteq> 0) xs = ys" using ys v by (simp add: xs takeWhile_tail)
  let ?s = "s\<lparr>pra_links := list_del (PraLink v) (pra_links s),
    visited := \<lambda>x. if x \<in> PraLink ` set ys then 0 else visited s x\<rparr>"
  have run: "clock_loop PraHead s = Some (?s, PraLink v)"
    by (rule clock_sweep [of s "[]" ys v zs]) (use r xs ys1 v in simp_all)
  have "ring (pra_links s) PraHead (map PraLink (rev zs) @ PraLink v # map PraLink (rev ys))"
    using r by (simp add: xs)
  then have "ring (list_del (PraLink v) (pra_links s)) PraHead (map PraLink (rev (ys @ zs)))"
    using ring_list_del by fastforce
  then show ?thesis
    by (intro that [of ?s ys zs]) (use run c xs tw in \<open>auto simp: clock_marks_def\<close>)
qed

text \<open>All pages visited: after one pass the oldest page is taken.\<close>

lemma clock_all_visited:
  assumes r: "ring (pra_links s) PraHead (map PraLink (rev xs))" and one: "\<forall>q\<in>set xs. marks s q = 1"
  shows "clock_loop PraHead s =
    (let s = s\<lparr>visited := \<lambda>x. if x \<in> PraLink ` set xs then 0 else visited s x\<rparr>
     in if visited s PraHead = 0 then Some (s\<lparr>pra_links := list_del PraHead (pra_links s)\<rparr>, PraHead)
        else clock_loop PraHead (if visited s PraHead = 1 then s\<lparr>visited := (visited s)(PraHead := 0)\<rparr> else s))"
proof -
  let ?s = "s\<lparr>visited := \<lambda>x. if x \<in> PraLink ` set xs then 0 else visited s x\<rparr>"
  have "clock_loop PraHead s = clock_loop (last (PraHead # map PraLink xs)) ?s"
    by (rule clock_pass [of s "[]" xs]) (use r one in simp_all)
  then show ?thesis using clock_at_head [of ?s xs] r by (simp add: Let_def del: last.simps)
qed

lemma clock_choice_ex: "xs \<noteq> [] \<Longrightarrow> clock_choice f xs \<in> set xs"
  by (auto simp: clock_choice_def find_Some_iff split: option.split)

lemma clock_victim:
  assumes t: "tail_rel s m xs" and ne: "xs \<noteq> []" and one: "\<forall>q\<in>set xs. marks s q \<le> 1"
    and h: "visited s PraHead \<noteq> 0 \<or> (\<exists>q\<in>set xs. marks s q = 0)"
  obtains s' ys zs where "clock_swap_out_victim m False s = Some (s', Some (PraLink (clock_choice (marks s) xs)))"
    "xs = ys @ clock_choice (marks s) xs # zs" "tail_rel s' m (ys @ zs)"
    "\<forall>q. marks s' q = clock_marks (marks s) xs q"
    "2 \<le> visited s PraHead \<Longrightarrow> visited s' PraHead = visited s PraHead"
proof (cases "\<exists>q\<in>set xs. marks s q = 0")
  case True
  have r: "ring (pra_links s) PraHead (map PraLink (rev xs))" and p: "sm_priv s m = Some PraHead"
    using t by (simp_all add: tail_rel_def)
  obtain s' ys zs where 1: "clock_loop PraHead s = Some (s', PraLink (clock_choice (marks s) xs))"
    "xs = ys @ clock_choice (marks s) xs # zs" "ring (pra_links s') PraHead (map PraLink (rev (ys @ zs)))"
    "\<forall>q. marks s' q = clock_marks (marks s) xs q" "sm_priv s' = sm_priv s" "visited s' PraHead = visited s PraHead"
    using clock_first_zero [OF r one True] .
  show ?thesis
    by (rule that [OF _ 1(2) _ 1(4)]) (use 1 p in \<open>simp_all add: clock_swap_out_victim_def tail_rel_def\<close>)
next
  case False
  have r: "ring (pra_links s) PraHead (map PraLink (rev xs))" and p: "sm_priv s m = Some PraHead"
    using t by (simp_all add: tail_rel_def)
  have all: "\<forall>q\<in>set xs. marks s q = 1"
    using one False by (metis le_neq_implies_less less_one)
  define s1 where "s1 = s\<lparr>visited := \<lambda>x. if x \<in> PraLink ` set xs then 0 else if x = PraHead \<and> visited s x = 1 then 0 else visited s x\<rparr>"
  have run: "clock_loop PraHead s = clock_loop PraHead s1"
  proof -
    have e: "(\<lambda>x. if x \<in> PraLink ` set xs then 0 else visited s x)(PraHead := 0) =
        (\<lambda>x. if x \<in> PraLink ` set xs then 0 else if x = PraHead \<and> visited s x = 1 then 0 else visited s x)"
      if "visited s PraHead = 1" using that by auto
    have e': "(\<lambda>x. if x \<in> PraLink ` set xs then 0 else visited s x) =
        (\<lambda>x. if x \<in> PraLink ` set xs then 0 else if x = PraHead \<and> visited s x = 1 then 0 else visited s x)"
      if "visited s PraHead \<noteq> 1" using that by auto
    show ?thesis
      using clock_all_visited [OF r all] h False e e' by (cases "visited s PraHead = 1") (auto simp: Let_def s1_def)
  qed
  have r1: "ring (pra_links s1) PraHead (map PraLink (rev xs))" using r by (simp add: s1_def)
  have z1: "\<forall>q\<in>set xs. marks s1 q = 0" by (simp add: s1_def)
  obtain s' ys zs where 1: "clock_loop PraHead s1 = Some (s', PraLink (clock_choice (marks s1) xs))"
    "xs = ys @ clock_choice (marks s1) xs # zs" "ring (pra_links s') PraHead (map PraLink (rev (ys @ zs)))"
    "\<forall>q. marks s' q = clock_marks (marks s1) xs q" "sm_priv s' = sm_priv s1" "visited s' PraHead = visited s1 PraHead"
    by (rule clock_first_zero [OF r1]) (use z1 ne in \<open>auto simp: neq_Nil_conv\<close>)
  have c: "clock_choice (marks s1) xs = clock_choice (marks s) xs"
  proof -
    obtain x ws where xs: "xs = x # ws" using ne by (cases xs) auto
    have "List.find (\<lambda>q. marks s q = 0) xs = None" using False by (auto simp: find_None_iff)
    moreover have "List.find (\<lambda>q. marks s1 q = 0) xs = Some x" using z1 xs by simp
    ultimately show ?thesis using xs by (simp add: clock_choice_def)
  qed
  have t0: "takeWhile (\<lambda>q. marks s q \<noteq> 0) xs = xs" using False by (simp add: takeWhile_eq_all_conv)
  have t1: "takeWhile (\<lambda>q. marks s1 q \<noteq> 0) xs = []" using z1 by (cases xs) auto
  have m1: "marks s1 q = (if q \<in> set xs then 0 else marks s q)" for q by (auto simp: s1_def)
  have m: "marks s' q = clock_marks (marks s) xs q" for q
    using 1(4) unfolding clock_marks_def t0 t1 by (simp add: m1)
  show ?thesis
    by (rule that [of s' ys zs]) (use 1 c m run p in \<open>auto simp: clock_swap_out_victim_def tail_rel_def s1_def\<close>)
qed

text \<open>The clock as a policy, when the word at the head is neither 0 nor 1.\<close>

definition clock_rel :: "pra \<Rightarrow> nat \<Rightarrow> nat list \<Rightarrow> bool" where
  "clock_rel s m xs \<longleftrightarrow> tail_rel s m xs \<and> (\<forall>q\<in>set xs. marks s q \<le> 1) \<and> 2 \<le> visited s PraHead"

interpretation clock: swap_policy swap_manager_clock clock_rel
proof unfold_locales
  fix s m xs p assume c: "clock_rel s m xs" "p \<notin> set xs"
  then have "ring (list_add PraHead (PraLink p) (pra_links s)) PraHead (PraLink p # map PraLink (rev xs))"
    by (intro ring_list_add_head) (auto simp: clock_rel_def tail_rel_def)
  then show "\<exists>s'. sm_map_swappable swap_manager_clock (Some m) p s = Some s' \<and> clock_rel s' m (xs @ [p])"
    using c by (simp add: swap_managers clock_map_swappable_def clock_rel_def tail_rel_def Let_def)
next
  fix s m xs assume c: "clock_rel s m xs" and ne: "xs \<noteq> []"
  then have h: "2 \<le> visited s PraHead" "\<forall>q\<in>set xs. marks s q \<le> 1" "tail_rel s m xs" by (simp_all add: clock_rel_def)
  obtain s' ys zs where 1: "clock_swap_out_victim m False s = Some (s', Some (PraLink (clock_choice (marks s) xs)))"
    "xs = ys @ clock_choice (marks s) xs # zs" "tail_rel s' m (ys @ zs)"
    "\<forall>q. marks s' q = clock_marks (marks s) xs q" "visited s' PraHead = visited s PraHead"
    using clock_victim [OF h(3) ne h(2)] h(1) by (metis not_numeral_le_zero)
  have "marks s' q \<le> 1" if "q \<in> set (ys @ zs)" for q
  proof -
    have "q \<in> set xs" using that by (subst 1(2)) auto
    then show ?thesis using 1(4) h(2) by (simp add: clock_marks_def)
  qed
  then have "clock_rel s' m (ys @ zs)" using 1(3,5) h(1) by (simp add: clock_rel_def)
  then show "\<exists>s' ys p zs. sm_swap_out_victim swap_manager_clock m False s = Some (s', Some (PraLink p)) \<and>
      xs = ys @ p # zs \<and> clock_rel s' m (ys @ zs)"
    using 1(1,2) by (intro exI [of _ s'] exI [of _ ys] exI [of _ "clock_choice (marks s) xs"] exI [of _ zs])
      (simp add: swap_managers)
next
  fix s m xs assume "clock_rel s m xs"
  then show "distinct xs" by (auto simp: clock_rel_def tail_rel_def dest: rel_distinct_rev)
qed

section \<open>Properties\<close>

text \<open>The FIFO classes: pages made swappable become victims in the order in which they came.  When no
  page is left, the class of laboratory 3 answers with the null pointer, the class of the
  later laboratories with the list head, which is no page.\<close>

theorem fifo_victims_in_order:
  "distinct ps \<longrightarrow> (\<exists>s1 s2. map_all swap_manager_fifo m ps (fifo_init_mm m s) = Some s1 \<and>
      victims swap_manager_fifo m (length ps) s1 = Some (s2, map (\<lambda>p. Some (PraLink p)) ps) \<and>
      fifo_swap_out_victim m False s2 = Some (s2, None)) \<and>
    (\<exists>s1 s2 s3. map_all swap_manager_fifo4 m ps (fifo_init_mm m s) = Some s1 \<and>
      victims swap_manager_fifo4 m (length ps) s1 = Some (s2, map (\<lambda>p. Some (PraLink p)) ps) \<and>
      fifo4_swap_out_victim m False s2 = Some (s3, Some PraHead))"
proof (intro impI conjI)
  assume d: "distinct ps"
  obtain s1 s2 where 1: "map_all swap_manager_fifo m ps (fifo_init_mm m s) = Some s1"
    "victims swap_manager_fifo m (length ps) s1 = Some (s2, map (\<lambda>p. Some (PraLink p)) ps)" "tail_rel s2 m []"
    using fifo_order.in_order [OF d, of m s] by (auto simp: swap_managers)
  have "fifo_swap_out_victim m False s2 = Some (s2, None)"
    using 1(3) ring_last [of "pra_links s2" PraHead "[]"]
    by (simp add: fifo_swap_out_victim_def tail_rel_def list_prev_def Let_def)
  with 1 show "\<exists>s1 s2. map_all swap_manager_fifo m ps (fifo_init_mm m s) = Some s1 \<and>
      victims swap_manager_fifo m (length ps) s1 = Some (s2, map (\<lambda>p. Some (PraLink p)) ps) \<and>
      fifo_swap_out_victim m False s2 = Some (s2, None)" by blast
next
  assume d: "distinct ps"
  obtain s1 s2 where 1: "map_all swap_manager_fifo4 m ps (fifo_init_mm m s) = Some s1"
    "victims swap_manager_fifo4 m (length ps) s1 = Some (s2, map (\<lambda>p. Some (PraLink p)) ps)" "front_rel s2 m []"
    using fifo4_order.in_order [OF d, of m s] by (auto simp: swap_managers)
  have "\<exists>s3. fifo4_swap_out_victim m False s2 = Some (s3, Some PraHead)"
    using 1(3) ring_first [of "pra_links s2" PraHead "[]"]
    by (simp add: fifo4_swap_out_victim_def front_rel_def list_next_def Let_def)
  with 1 show "\<exists>s1 s2 s3. map_all swap_manager_fifo4 m ps (fifo_init_mm m s) = Some s1 \<and>
      victims swap_manager_fifo4 m (length ps) s1 = Some (s2, map (\<lambda>p. Some (PraLink p)) ps) \<and>
      fifo4_swap_out_victim m False s2 = Some (s3, Some PraHead)" by blast
qed

text \<open>The hand treats the list head as a page.  When all pages are marked and the word at the head is
  zero, the victim is the head: it is unlinked, and the pages stay in memory unmarked.  On
  an empty list with a word above 1 at the head, the hand turns for ever; a 1 is cleared and
  then found.\<close>

theorem clock_takes_head:
  assumes "tail_rel s m xs" and "\<forall>q\<in>set xs. marks s q = 1"
  shows "(visited s PraHead = 0 \<longrightarrow> (\<exists>s'. clock_swap_out_victim m False s = Some (s', Some PraHead) \<and>
      pra_links s' = list_del PraHead (pra_links s) \<and> (\<forall>q\<in>set xs. marks s' q = 0))) \<and>
    (xs = [] \<and> visited s PraHead = 1 \<longrightarrow> (\<exists>s'. clock_swap_out_victim m False s = Some (s', Some PraHead))) \<and>
    (xs = [] \<and> 2 \<le> visited s PraHead \<longrightarrow> clock_swap_out_victim m False s = None)"
proof (intro conjI impI)
  have r: "ring (pra_links s) PraHead (map PraLink (rev xs))" and p: "sm_priv s m = Some PraHead"
    using assms(1) by (simp_all add: tail_rel_def)
  assume "visited s PraHead = 0"
  then show "\<exists>s'. clock_swap_out_victim m False s = Some (s', Some PraHead) \<and>
      pra_links s' = list_del PraHead (pra_links s) \<and> (\<forall>q\<in>set xs. marks s' q = 0)"
    using clock_all_visited [OF r assms(2)] p by (auto simp: clock_swap_out_victim_def Let_def)
next
  assume h: "xs = [] \<and> visited s PraHead = 1"
  then have "list_prev PraHead (pra_links s) = PraHead" and p: "sm_priv s m = Some PraHead"
    using assms(1) ring_last [of "pra_links s" PraHead "[]"] by (simp_all add: tail_rel_def list_prev_def)
  then have "\<exists>s'. clock_loop PraHead s = Some (s', PraHead)"
    using h by (subst clock_loop.simps, subst clock_loop.simps) (simp add: Let_def)
  then show "\<exists>s'. clock_swap_out_victim m False s = Some (s', Some PraHead)"
    using p by (auto simp: clock_swap_out_victim_def)
next
  assume h: "xs = [] \<and> 2 \<le> visited s PraHead"
  then have r: "list_prev PraHead (pra_links s) = PraHead" and p: "sm_priv s m = Some PraHead"
    using assms(1) ring_last [of "pra_links s" PraHead "[]"] by (simp_all add: tail_rel_def list_prev_def)
  have never: "\<not> (t = PraHead \<and> u = s)" if "clock_loop t u = Some w" for t u w
  proof (rule clock_loop.raw_induct [where P = "\<lambda>t u w. \<not> (t = PraHead \<and> u = s)", OF _ that])
    fix loop t u w
    assume ih: "\<And>t u w. loop t u = Some w \<Longrightarrow> \<not> (t = PraHead \<and> u = s)"
      and run: "(let cur = list_prev t (pra_links u)
        in if visited u cur = 0 then Some (u\<lparr>pra_links := list_del cur (pra_links u)\<rparr>, cur)
           else loop cur (if visited u cur = 1 then u\<lparr>visited := (visited u)(cur := 0)\<rparr> else u)) = Some w"
    show "\<not> (t = PraHead \<and> u = s)"
    proof
      assume "t = PraHead \<and> u = s"
      then have "loop PraHead s = Some w" using run r h by (simp add: Let_def)
      then show False using ih by blast
    qed
  qed
  have "clock_loop PraHead s = None" using never [of PraHead s] by (cases "clock_loop PraHead s") auto
  then show "clock_swap_out_victim m False s = None" using p by (simp add: clock_swap_out_victim_def)
qed

text \<open>C32. The clock hand over marked and unmarked pages.  It gives every marked page a second chance:
  the victim is the oldest page without a mark, or the oldest page when all are marked; the
  pages passed on the way lose their marks, and the list keeps its order.  This holds when
  some page is unmarked, or when there is a page and the word the hand reads at the list
  head, as if it were a page, is not zero.  In the other cases the hand takes the list head
  itself, after clearing all marks, when that word is 0 (or 1, on an empty list), and
  turns for ever on an empty list when it is above 1.\<close>

theorem clock_second_chance:
  assumes "tail_rel s m xs" and "\<forall>q\<in>set xs. marks s q \<le> 1"
  shows "if (\<exists>q\<in>set xs. marks s q = 0) \<or> xs \<noteq> [] \<and> visited s PraHead \<noteq> 0
    then \<exists>s' ys zs. clock_swap_out_victim m False s = Some (s', Some (PraLink (clock_choice (marks s) xs))) \<and>
      xs = ys @ clock_choice (marks s) xs # zs \<and> tail_rel s' m (ys @ zs) \<and>
      (\<forall>q. marks s' q = clock_marks (marks s) xs q)
    else if visited s PraHead = 0
    then \<exists>s'. clock_swap_out_victim m False s = Some (s', Some PraHead) \<and>
      pra_links s' = list_del PraHead (pra_links s) \<and> (\<forall>q\<in>set xs. marks s' q = 0)
    else if visited s PraHead = 1
    then \<exists>s'. clock_swap_out_victim m False s = Some (s', Some PraHead)
    else clock_swap_out_victim m False s = None"
proof (cases "(\<exists>q\<in>set xs. marks s q = 0) \<or> xs \<noteq> [] \<and> visited s PraHead \<noteq> 0")
  case True
  then have "xs \<noteq> []" "visited s PraHead \<noteq> 0 \<or> (\<exists>q\<in>set xs. marks s q = 0)" by auto
  from clock_victim [OF assms(1) this(1) assms(2) this(2)] True show ?thesis by (simp only: if_True) metis
next
  case False
  then have "\<forall>q\<in>set xs. marks s q = 1" using assms(2) by (metis One_nat_def le_Suc_eq le_zero_eq)
  note head = clock_takes_head [OF assms(1) this]
  show ?thesis using head False by (auto split: if_splits)
qed

text \<open>LRU: a swappable page that is used again moves to the end of the queue.  But the class unlinks
  the page it makes swappable even when it is not linked, as after a page was swapped out
  and came back: the stale pointers put a page that left meanwhile back into the queue, and
  it is the next victim although it is not in memory.\<close>

theorem lru_resurrects:
  assumes "front_rel s m (p # q # ps)" and "ps \<noteq> []"
  shows "(\<exists>s'. lru_map_swappable (Some m) q s = Some s' \<and> front_rel s' m (p # ps @ [q])) \<and>
    (\<exists>s1 s2 s3 s4. lru_swap_out_victim m False s = Some (s1, Some (PraLink p)) \<and>
      lru_swap_out_victim m False s1 = Some (s2, Some (PraLink q)) \<and> front_rel s2 m ps \<and>
      lru_map_swappable (Some m) p s2 = Some s3 \<and>
      lru_swap_out_victim m False s3 = Some (s4, Some (PraLink q)))"
proof (intro conjI)
  have r: "ring (pra_links s) PraHead (map PraLink (p # q # ps))" and h: "sm_priv s m = Some PraHead"
    using assms(1) by (simp_all add: front_rel_def)
  have d: "distinct (p # q # ps)" by (rule rel_distinct [OF r])
  have r1: "ring (list_del (PraLink q) (pra_links s)) PraHead (map PraLink (p # ps))"
    using ring_list_del [of "pra_links s" PraHead "[PraLink p]" "PraLink q" "map PraLink ps"] r by simp
  have "ring (list_add_before PraHead (PraLink q) (list_del (PraLink q) (pra_links s))) PraHead (map PraLink (p # ps) @ [PraLink q])"
    by (rule ring_list_add_before_head [OF r1]) (use d in auto)
  then show "\<exists>s'. lru_map_swappable (Some m) q s = Some s' \<and> front_rel s' m (p # ps @ [q])"
    using h by (simp add: lru_map_swappable_def front_rel_def Let_def)
next
  have r: "ring (pra_links s) PraHead ([] @ PraLink p # PraLink q # map PraLink ps)" and h: "sm_priv s m = Some PraHead"
    using assms(1) by (simp_all add: front_rel_def)
  have d: "distinct (p # q # ps)" using rel_distinct [of "pra_links s" "p # q # ps"] r by simp
  have n: "l_next (pra_links s) PraHead = PraLink p" "l_next (pra_links s) (PraLink p) = PraLink q"
    "l_prev (pra_links s) (PraLink p) = PraHead" "l_next (pra_links s) (PraLink q) = hd (map PraLink ps @ [PraHead])"
    using ring_first [OF r] ring_step(1,2) [OF r]
      ring_step(1) [of "pra_links s" PraHead "[PraLink p]" "PraLink q" "map PraLink ps"] r by simp_all
  let ?h1 = "list_del (PraLink p) (pra_links s)" let ?h2 = "list_del (PraLink q) ?h1"
  have r1: "ring ?h1 PraHead ([] @ PraLink q # map PraLink ps)" using ring_list_del [OF r] by simp
  have r2: "ring ?h2 PraHead (map PraLink ps)" using ring_list_del [OF r1] by simp
  have n1: "l_next ?h1 PraHead = PraLink q" "l_prev ?h1 (PraLink q) = PraHead" "l_next ?h1 (PraLink q) = hd (map PraLink ps @ [PraHead])"
    using ring_first [OF r1] ring_step(1,2) [OF r1] by simp_all
  have hp: "hd (map PraLink ps @ [PraHead]) \<noteq> PraLink p" using d by (cases ps) auto
  have n2: "l_next ?h2 (PraLink p) = PraLink q" "l_prev ?h2 (PraLink p) = PraHead"
    using n n1 d hp by (auto simp: list_del_def list_del_raw_def Let_def)
  let ?h3 = "list_del (PraLink p) ?h2" let ?h4 = "list_add_before PraHead (PraLink p) ?h3"
  have n3: "l_next ?h3 PraHead = PraLink q" "l_prev ?h3 PraHead = l_prev ?h2 PraHead"
    using n2 by (simp_all add: list_del_def list_del_raw_def Let_def)
  have "l_prev ?h2 PraHead \<noteq> PraHead" using ring_last [OF r2] assms(2) by (cases ps rule: rev_cases) auto
  then have n4: "l_next ?h4 PraHead = PraLink q"
    using n3 by (simp add: list_add_before_def list_add_raw_def Let_def)
  let ?s = "\<lambda>h. s\<lparr>pra_links := h\<rparr>"
  have "lru_swap_out_victim m False s = Some (?s ?h1, Some (PraLink p))"
    "lru_swap_out_victim m False (?s ?h1) = Some (?s ?h2, Some (PraLink q))"
    "lru_map_swappable (Some m) p (?s ?h2) = Some (?s ?h4)"
    "lru_swap_out_victim m False (?s ?h4) = Some (?s (list_del (PraLink q) ?h4), Some (PraLink q))"
    using h n(1) n1(1) n4 by (simp_all add: lru_swap_out_victim_def lru_map_swappable_def list_next_def Let_def)
  moreover have "front_rel (?s ?h2) m ps" using r2 h by (simp add: front_rel_def)
  ultimately show "\<exists>s1 s2 s3 s4. lru_swap_out_victim m False s = Some (s1, Some (PraLink p)) \<and>
      lru_swap_out_victim m False s1 = Some (s2, Some (PraLink q)) \<and> front_rel s2 m ps \<and>
      lru_map_swappable (Some m) p s2 = Some s3 \<and>
      lru_swap_out_victim m False s3 = Some (s4, Some (PraLink q))" by blast
qed

subsection \<open>The properties at work\<close>

definition pra_sample :: pra where
  "pra_sample = \<lparr>pra_links = list_add_before PraHead (PraLink 3) (list_add_before PraHead (PraLink 2)
       (list_add_before PraHead (PraLink 1) (list_init PraHead \<lparr>l_next = id, l_prev = id\<rparr>))),
     visited = (\<lambda>x. if x = PraLink 2 then 0 else if x = PraHead then 7 else 1), curr_ptr = PraHead,
     sm_priv = (\<lambda>_. Some PraHead)\<rparr>"

lemma pra_sample_ring: "ring (pra_links pra_sample) PraHead [PraLink 1, PraLink 2, PraLink 3]"
proof -
  have "ring (list_init PraHead \<lparr>l_next = id, l_prev = id\<rparr>) PraHead []" by (rule ring_list_init)
  from ring_list_add_before_head [OF this, of "PraLink 1"]
  have "ring (list_add_before PraHead (PraLink 1) (list_init PraHead \<lparr>l_next = id, l_prev = id\<rparr>)) PraHead [PraLink 1]" by simp
  from ring_list_add_before_head [OF this, of "PraLink 2"]
  have "ring (list_add_before PraHead (PraLink 2) (list_add_before PraHead (PraLink 1)
      (list_init PraHead \<lparr>l_next = id, l_prev = id\<rparr>))) PraHead [PraLink 1, PraLink 2]" by simp
  from ring_list_add_before_head [OF this, of "PraLink 3"] show ?thesis by (simp add: pra_sample_def)
qed

lemma pra_sample_rel: "front_rel pra_sample m [1, 2, 3]" "tail_rel pra_sample m [3, 2, 1]"
  using pra_sample_ring by (simp_all add: front_rel_def tail_rel_def) (simp_all add: pra_sample_def)

lemma fifo_victims_in_order_witness:
  "\<exists>s1 s2. map_all swap_manager_fifo 0 [4, 2, 9] (fifo_init_mm 0 pra_sample) = Some s1 \<and>
     victims swap_manager_fifo 0 3 s1 = Some (s2, [Some (PraLink 4), Some (PraLink 2), Some (PraLink 9)])"
  using fifo_victims_in_order [of "[4, 2, 9]" 0 pra_sample] by (auto simp: numeral_3_eq_3)

lemma clock_second_chance_witness:
  "\<exists>s'. clock_swap_out_victim 0 False pra_sample = Some (s', Some (PraLink 2)) \<and> tail_rel s' 0 [3, 1] \<and>
     marks s' 3 = 0 \<and> marks s' 1 = 1"
proof -
  have c: "clock_choice (marks pra_sample) [3, 2, 1] = 2" by (simp add: clock_choice_def pra_sample_def)
  have e: "ys @ zs = [3, 1]" if "[3, 2, 1 :: nat] = ys @ 2 # zs" for ys zs
    using that by (cases ys; cases "tl ys"; cases "tl (tl ys)") auto
  have p: "\<forall>q\<in>set [3, 2, 1]. marks pra_sample q \<le> 1"
    "(\<exists>q\<in>set [3, 2, 1]. marks pra_sample q = 0) \<or> [3, 2, 1 :: nat] \<noteq> [] \<and> visited pra_sample PraHead \<noteq> 0"
    by (simp_all add: pra_sample_def)
  obtain s' ys zs where 1: "clock_swap_out_victim 0 False pra_sample = Some (s', Some (PraLink 2))"
    "[3, 2, 1] = ys @ 2 # zs" "tail_rel s' 0 (ys @ zs)" "\<forall>q. marks s' q = clock_marks (marks pra_sample) [3, 2, 1] q"
    using clock_second_chance [OF pra_sample_rel(2) p(1)] unfolding c if_P [OF p(2)] by blast
  have "marks s' 3 = 0" "marks s' 1 = 1" using 1(4) by (simp_all add: clock_marks_def pra_sample_def)
  then show ?thesis using 1(1,3) e [OF 1(2)] by (intro exI [of _ s']) simp
qed

lemma clock_takes_head_witness:
  "\<exists>s'. clock_swap_out_victim 0 False (pra_sample\<lparr>visited := \<lambda>x. if x = PraHead then 0 else 1\<rparr>) = Some (s', Some PraHead)"
proof -
  let ?s = "pra_sample\<lparr>visited := \<lambda>x. if x = PraHead then 0 else 1\<rparr>"
  have "tail_rel ?s 0 [3, 2, 1]" using pra_sample_rel(2) by (simp add: tail_rel_def)
  from clock_takes_head [OF this] show ?thesis by auto
qed

lemma lru_resurrects_witness:
  "\<exists>s1 s2 s3 s4. lru_swap_out_victim 0 False pra_sample = Some (s1, Some (PraLink 1)) \<and>
     lru_swap_out_victim 0 False s1 = Some (s2, Some (PraLink 2)) \<and> lru_map_swappable (Some 0) 1 s2 = Some s3 \<and>
     lru_swap_out_victim 0 False s3 = Some (s4, Some (PraLink 2))"
  using lru_resurrects [OF pra_sample_rel(1), of 0] by auto

end
