(* ===== verification/Swap.thy ===== *)
theory Swap
  imports Page_Fault Swap_Manager
begin

unbundle bit_operations_syntax

text \<open>
  Swapping in laboratory 3: \<open>kern/mm/swap.c\<close>, \<open>kern/fs/swapfs.c\<close>, \<open>kern/driver/ide.c\<close>, and
  the parts of \<open>pmm.c\<close> and \<open>vmm.c\<close> that differ from the later laboratories because a page
  that is missing is made by swapping another one out.  The swap area is an array of
  64-bit words; the slot of a page is its virtual page number plus one.  Every operation
  takes the \<open>swap_manager\<close> in use; the lemmas hold for any that meets \<open>swap_policy\<close>.
\<close>

section \<open>State\<close>

record swap_state =
  sw_vm :: vmm
  sw_pra :: pra
  pra_vaddr :: "nat \<Rightarrow> nat"
  swap_disk :: "nat \<Rightarrow> 64 word"
  max_swap_offset :: nat
  check_mm_struct :: "nat option"
  sw_faults :: nat

abbreviation mem :: "swap_state \<Rightarrow> machine" where "mem s \<equiv> mach (sw_vm s)"

definition set_mem :: "machine \<Rightarrow> swap_state \<Rightarrow> swap_state" where
  "set_mem k s = s\<lparr>sw_vm := (sw_vm s)\<lparr>mach := k\<rparr>\<rparr>"

section \<open>The swap area\<close>

text \<open>Sectors of 512 bytes are 64 words.  A transfer beyond the array would overwrite other memory.\<close>

definition SECT_WORDS :: nat where "SECT_WORDS = 64"
definition PAGE_NSECT :: nat where "PAGE_NSECT = 8"
definition SWAP_NSECS :: nat where "SWAP_NSECS = 56"

definition swap_ide_read :: "nat \<Rightarrow> nat \<Rightarrow> (nat \<Rightarrow> 64 word) \<Rightarrow> (nat \<Rightarrow> 64 word) \<Rightarrow> (nat \<Rightarrow> 64 word) option" where
  "swap_ide_read secno nsecs dst disk = do {
     assert_k (secno + nsecs \<le> SWAP_NSECS);
     let iobase = secno * SECT_WORDS;
     Some (\<lambda>i. if i < nsecs * SECT_WORDS then disk (iobase + i) else dst i) }"

definition swap_ide_write :: "nat \<Rightarrow> nat \<Rightarrow> (nat \<Rightarrow> 64 word) \<Rightarrow> (nat \<Rightarrow> 64 word) \<Rightarrow> (nat \<Rightarrow> 64 word) option" where
  "swap_ide_write secno nsecs src disk = do {
     assert_k (secno + nsecs \<le> SWAP_NSECS);
     let iobase = secno * SECT_WORDS;
     Some (\<lambda>i. if iobase \<le> i \<and> i < iobase + nsecs * SECT_WORDS then src (i - iobase) else disk i) }"

definition swapfs_init :: "swap_state \<Rightarrow> swap_state" where
  "swapfs_init s = s\<lparr>max_swap_offset := SWAP_NSECS div PAGE_NSECT\<rparr>"

definition swap_offset :: "64 word \<Rightarrow> swap_state \<Rightarrow> nat option" where
  "swap_offset entry s = do {
     let off = unat (drop_bit 8 entry);
     assert_k (0 < off \<and> off < max_swap_offset s);
     Some off }"

definition swapfs_read :: "64 word \<Rightarrow> nat \<Rightarrow> swap_state \<Rightarrow> (swap_state \<times> int) option" where
  "swapfs_read entry page s = do {
     off \<leftarrow> swap_offset entry s;
     kva \<leftarrow> page2kva page;
     w \<leftarrow> swap_ide_read (off * PAGE_NSECT) PAGE_NSECT (frames (mem s) kva) (swap_disk s);
     Some (set_mem ((mem s)\<lparr>frames := (frames (mem s))(kva := w)\<rparr>) s, 0) }"

definition swapfs_write :: "64 word \<Rightarrow> nat \<Rightarrow> swap_state \<Rightarrow> (swap_state \<times> int) option" where
  "swapfs_write entry page s = do {
     off \<leftarrow> swap_offset entry s;
     kva \<leftarrow> page2kva page;
     w \<leftarrow> swap_ide_write (off * PAGE_NSECT) PAGE_NSECT (frames (mem s) kva) (swap_disk s);
     Some (s\<lparr>swap_disk := w\<rparr>, 0) }"

definition swap_entry :: "nat \<Rightarrow> 64 word" where
  "swap_entry v = push_bit 8 (of_nat (v div PGSIZE + 1))"

section \<open>Swapping out and in\<close>

definition swap_init :: "swap_state \<Rightarrow> swap_state option" where
  "swap_init s = do {
     let s = swapfs_init s;
     assert_k (7 \<le> max_swap_offset s \<and> max_swap_offset s < 2 ^ 24);
     Some (set_mem ((mem s)\<lparr>swap_init_ok := True\<rparr>) s) }"

definition swap_init_mm :: "swap_manager \<Rightarrow> nat \<Rightarrow> swap_state \<Rightarrow> swap_state" where
  "swap_init_mm sm m s = s\<lparr>sw_pra := sm_init_mm sm m (sw_pra s)\<rparr>"

definition swap_map_swappable :: "swap_manager \<Rightarrow> nat option \<Rightarrow> nat \<Rightarrow> swap_state \<Rightarrow> swap_state option" where
  "swap_map_swappable sm mm page s = do {
     q \<leftarrow> sm_map_swappable sm mm page (sw_pra s);
     Some (s\<lparr>sw_pra := q\<rparr>) }"

text \<open>A victim that is no page, or an address without a table, is an access through a wrong pointer.\<close>

definition swap_out_one :: "swap_manager \<Rightarrow> nat \<Rightarrow> bool \<Rightarrow> swap_state \<Rightarrow> swap_state option" where
  "swap_out_one sm m in_tick s = do {
     (q, victim) \<leftarrow> sm_swap_out_victim sm m in_tick (sw_pra s);
     let s = s\<lparr>sw_pra := q\<rparr>;
     le \<leftarrow> victim;
     page \<leftarrow> le2page le;
     let v = pra_vaddr s page;
     d \<leftarrow> pgdir_of (mms (sw_vm s) m);
     (_, ptep) \<leftarrow> get_pte d v False (mem s);
     x \<leftarrow> ptep;
     assert_k (entry_at x (mem s) AND PTE_V \<noteq> 0);
     (s, r) \<leftarrow> swapfs_write (swap_entry v) page s;
     if r \<noteq> 0 then swap_map_swappable sm (Some m) page s
     else do {
       let s = set_mem (set_entry x (swap_entry v) (mem s)) s;
       k \<leftarrow> free_page page (mem s);
       Some (set_mem k s) } }"

fun swap_out :: "swap_manager \<Rightarrow> nat \<Rightarrow> nat \<Rightarrow> bool \<Rightarrow> swap_state \<Rightarrow> swap_state option" where
  "swap_out sm m 0 in_tick s = Some s"
| "swap_out sm m (Suc n) in_tick s = do {
     s \<leftarrow> swap_out_one sm m in_tick s;
     swap_out sm m n in_tick s }"

partial_function (option) alloc_pages3 ::
    "swap_manager \<Rightarrow> nat \<Rightarrow> swap_state \<Rightarrow> (swap_state \<times> nat option) option" where
  "alloc_pages3 sm n s = do {
     (a, r) \<leftarrow> default_alloc_pages n (pm (mem s));
     let s = set_mem ((mem s)\<lparr>pm := a\<rparr>) s;
     if r \<noteq> None \<or> 1 < n \<or> \<not> swap_init_ok (mem s) then Some (s, r)
     else do {
       m \<leftarrow> check_mm_struct s;
       s \<leftarrow> swap_out sm m n False s;
       alloc_pages3 sm n s } }"

definition swap_in :: "swap_manager \<Rightarrow> nat \<Rightarrow> nat \<Rightarrow> swap_state \<Rightarrow> (swap_state \<times> nat \<times> int) option" where
  "swap_in sm m addr s = do {
     (s, r) \<leftarrow> alloc_pages3 sm 1 s;
     result \<leftarrow> r;
     d \<leftarrow> pgdir_of (mms (sw_vm s) m);
     (_, ptep) \<leftarrow> get_pte d addr False (mem s);
     x \<leftarrow> ptep;
     (s, _) \<leftarrow> swapfs_read (entry_at x (mem s)) result s;
     Some (s, result, 0) }"

section \<open>Page tables and faults over the swapping allocator\<close>

definition get_table3 :: "swap_manager \<Rightarrow> nat \<Rightarrow> nat \<Rightarrow> bool \<Rightarrow> swap_state \<Rightarrow> (swap_state \<times> nat option) option" where
  "get_table3 sm f i create s = do {
     (s, ok) \<leftarrow>
       (if frames (mem s) f i AND PTE_V = 0
        then if \<not> create then Some (s, False)
        else do {
          (s, r) \<leftarrow> alloc_pages3 sm 1 s;
          (case r of
             None \<Rightarrow> Some (s, False)
           | Some page \<Rightarrow> do {
               let s = set_mem (set_page_ref page 1 (mem s)) s;
               k \<leftarrow> KADDR (page2pa page);
               let s = set_mem (clear_frame k (mem s)) s;
               Some (set_mem (set_entry (f, i) (pte_create (page2ppn page) (PTE_U OR PTE_V)) (mem s)) s, True) }) }
        else Some (s, True));
     if ok then do { k \<leftarrow> KADDR (PTE_ADDR (frames (mem s) f i)); Some (s, Some k) }
     else Some (s, None) }"

definition get_pte3 :: "swap_manager \<Rightarrow> nat \<Rightarrow> nat \<Rightarrow> bool \<Rightarrow> swap_state \<Rightarrow> (swap_state \<times> (nat \<times> nat) option) option" where
  "get_pte3 sm pgdir la create s = do {
     (s, r) \<leftarrow> get_table3 sm pgdir (PDX1 la) create s;
     (case r of
        None \<Rightarrow> Some (s, None)
      | Some pd0 \<Rightarrow> do {
          (s, r) \<leftarrow> get_table3 sm pd0 (PDX0 la) create s;
          (case r of
             None \<Rightarrow> Some (s, None)
           | Some pt \<Rightarrow> Some (s, Some (pt, PTX la))) }) }"

definition page_insert3 ::
    "swap_manager \<Rightarrow> nat \<Rightarrow> nat \<Rightarrow> nat \<Rightarrow> 64 word \<Rightarrow> swap_state \<Rightarrow> (swap_state \<times> int) option" where
  "page_insert3 sm pgdir page la perm s = do {
     (s, ptep) \<leftarrow> get_pte3 sm pgdir la True s;
     (case ptep of
        None \<Rightarrow> Some (s, - E_NO_MEM)
      | Some x \<Rightarrow> do {
          let k = page_ref_inc page (mem s);
          k \<leftarrow> (if entry_at x k AND PTE_V \<noteq> 0 then do {
                 p \<leftarrow> pte2page (entry_at x k);
                 if p = page then Some (page_ref_dec page k) else page_remove_pte x k }
                else Some k);
          Some (set_mem (set_entry x (pte_create (page2ppn page) (PTE_V OR perm)) k) s, 0) }) }"

definition pgdir_alloc_page3 ::
    "swap_manager \<Rightarrow> nat \<Rightarrow> nat \<Rightarrow> 64 word \<Rightarrow> swap_state \<Rightarrow> (swap_state \<times> nat option) option" where
  "pgdir_alloc_page3 sm pgdir la perm s = do {
     (s, r) \<leftarrow> alloc_pages3 sm 1 s;
     (case r of
        None \<Rightarrow> Some (s, None)
      | Some page \<Rightarrow> do {
          (s, ret) \<leftarrow> page_insert3 sm pgdir page la perm s;
          if ret \<noteq> 0 then do { k \<leftarrow> free_page page (mem s); Some (set_mem k s, None) }
          else if swap_init_ok (mem s) then do {
            s \<leftarrow> swap_map_swappable sm (check_mm_struct s) page s;
            let s = s\<lparr>pra_vaddr := (pra_vaddr s)(page := la)\<rparr>;
            assert_k (page_ref page (mem s) = 1);
            Some (s, Some page) }
          else Some (s, Some page) }) }"

definition vma_perm3 :: "vma_struct \<Rightarrow> 64 word" where
  "vma_perm3 v = (if vm_flags v AND VM_WRITE \<noteq> 0 then PTE_U OR (PTE_R OR PTE_W) else PTE_U)"

definition do_pgfault3 :: "swap_manager \<Rightarrow> nat option \<Rightarrow> 64 word \<Rightarrow> nat \<Rightarrow> swap_state \<Rightarrow> (swap_state \<times> int) option" where
  "do_pgfault3 sm mm error_code addr s = do {
     (v, vma) \<leftarrow> find_vma mm addr (sw_vm s);
     let s = s\<lparr>sw_vm := v, sw_faults := u32 (sw_faults s + 1)\<rparr>;
     (case (mm, vma) of
        (Some m, Some a) \<Rightarrow>
          if addr < start_of v a then Some (s, - E_INVAL)
          else do {
            let perm = vma_perm3 (vmas v a);
            let addr = ROUNDDOWN addr PGSIZE;
            pgdir \<leftarrow> pgdir_of (mms v m);
            (s, ptep) \<leftarrow> get_pte3 sm pgdir addr True s;
            x \<leftarrow> ptep;
            if entry_at x (mem s) = 0 then do {
              (s, r) \<leftarrow> pgdir_alloc_page3 sm pgdir addr perm s;
              Some (s, if r = None then - E_NO_MEM else 0) }
            else if swap_init_ok (mem s) then do {
              (s, page, ret) \<leftarrow> swap_in sm m addr s;
              if ret \<noteq> 0 then Some (s, - E_NO_MEM)
              else do {
                (s, ret) \<leftarrow> page_insert3 sm pgdir page addr perm s;
                if ret \<noteq> 0 then do { k \<leftarrow> free_page page (mem s); Some (set_mem k s, - E_NO_MEM) }
                else do {
                  s \<leftarrow> swap_map_swappable sm mm page s;
                  Some (s\<lparr>pra_vaddr := (pra_vaddr s)(page := addr)\<rparr>, 0) } } }
            else Some (s, - E_NO_MEM) }
      | _ \<Rightarrow> Some (s, - E_INVAL)) }"

section \<open>The swap area keeps pages\<close>

lemma set_mem_simps [simp]:
  "mem (set_mem k s) = k" "sw_pra (set_mem k s) = sw_pra s" "pra_vaddr (set_mem k s) = pra_vaddr s"
  "swap_disk (set_mem k s) = swap_disk s" "max_swap_offset (set_mem k s) = max_swap_offset s"
  "check_mm_struct (set_mem k s) = check_mm_struct s" "mms (sw_vm (set_mem k s)) = mms (sw_vm s)"
  "vmas (sw_vm (set_mem k s)) = vmas (sw_vm s)"
  by (simp_all add: set_mem_def)

lemma set_mem_mem [simp]: "set_mem (mem s) s = s"
  by (simp add: set_mem_def)

lemma swap_entry_offset:
  assumes "v < USERTOP"
  shows "unat (drop_bit 8 (swap_entry v)) = v div PGSIZE + 1"
proof -
  let ?n = "v div PGSIZE + 1"
  have n: "?n < 2 ^ 20" using vpn_bound [OF assms] by (simp add: USERTOP_def PGSIZE_def)
  have "swap_entry v = of_nat (push_bit 8 ?n)" unfolding swap_entry_def by (rule push_bit_of_nat)
  moreover have "push_bit 8 ?n < 2 ^ 64" using n by (simp add: push_bit_eq_mult)
  ultimately have "unat (swap_entry v) = push_bit 8 ?n" by (simp add: unat_of_nat take_bit_nat_eq_self)
  then have "unat (drop_bit 8 (swap_entry v)) = drop_bit 8 (push_bit 8 ?n)" by (simp only: unat_drop_bit_eq)
  moreover have "drop_bit 8 (push_bit 8 n) = n" for n :: nat by (simp add: drop_bit_eq_div push_bit_eq_mult)
  ultimately show ?thesis by simp
qed

lemma swap_entry_invalid [simp]: "\<not> valid (swap_entry v)"
  by (simp add: valid_bit swap_entry_def bit_push_bit_iff)

lemma swap_entry_nonzero: "v < USERTOP \<Longrightarrow> swap_entry v \<noteq> 0"
  using swap_entry_offset [of v] by auto

text \<open>\<open>slot_ok s v\<close>: the page of \<open>v\<close> has a slot.\<close>

definition slot_ok :: "swap_state \<Rightarrow> nat \<Rightarrow> bool" where
  "slot_ok s v \<longleftrightarrow> v < USERTOP \<and> v div PGSIZE + 1 < max_swap_offset s \<and> max_swap_offset s \<le> 7"

definition slot :: "swap_state \<Rightarrow> nat \<Rightarrow> nat \<Rightarrow> 64 word" where
  "slot s v i = swap_disk s ((v div PGSIZE + 1) * 512 + i)"

lemma swap_offset_entry: "slot_ok s v \<Longrightarrow> swap_offset (swap_entry v) s = Some (v div PGSIZE + 1)"
  by (simp add: swap_offset_def swap_entry_offset slot_ok_def Let_def)

lemma swapfs_write_ok:
  assumes "slot_ok s v" and "p < 32768"
  shows "\<exists>w. swapfs_write (swap_entry v) p s = Some (s\<lparr>swap_disk := w\<rparr>, 0) \<and>
    (\<forall>i<512. w ((v div PGSIZE + 1) * 512 + i) = frames (mem s) (page2ppn p) i) \<and>
    (\<forall>u. u div PGSIZE \<noteq> v div PGSIZE \<longrightarrow> (\<forall>i<512. w ((u div PGSIZE + 1) * 512 + i) = slot s u i))"
proof -
  define n where "n = v div PGSIZE + 1"
  have n: "n < 7" using assms(1) by (simp add: slot_ok_def n_def)
  have off: "swap_offset (swap_entry v) s = Some n" unfolding n_def by (rule swap_offset_entry [OF assms(1)])
  let ?w = "\<lambda>i. if n * 512 \<le> i \<and> i < n * 512 + 512 then frames (mem s) (page2ppn p) (i - n * 512) else swap_disk s i"
  have "swapfs_write (swap_entry v) p s = Some (s\<lparr>swap_disk := ?w\<rparr>, 0)"
    using off page2kva_ok [OF assms(2)] n
    by (simp add: swapfs_write_def swap_ide_write_def Let_def SWAP_NSECS_def PAGE_NSECT_def SECT_WORDS_def mult.commute)
  moreover have "\<forall>i<512. ?w (n * 512 + i) = frames (mem s) (page2ppn p) i" by simp
  moreover have "?w ((u div PGSIZE + 1) * 512 + i) = slot s u i"
    if "u div PGSIZE \<noteq> v div PGSIZE" "i < 512" for u i
  proof -
    define k where "k = u div PGSIZE + 1"
    have "k \<noteq> n" using that(1) by (simp add: k_def n_def)
    then have "k < n \<or> n < k" by linarith
    then have "\<not> (n * 512 \<le> k * 512 + i \<and> k * 512 + i < n * 512 + 512)" using that(2) by linarith
    then show ?thesis unfolding slot_def k_def [symmetric] by (simp only: if_False)
  qed
  ultimately show ?thesis unfolding n_def [symmetric] by (intro exI [of _ ?w]) blast
qed

lemma swapfs_read_ok:
  assumes "slot_ok s v" and "p < 32768"
  shows "\<exists>w. swapfs_read (swap_entry v) p s =
      Some (set_mem ((mem s)\<lparr>frames := (frames (mem s))(page2ppn p := w)\<rparr>) s, 0) \<and>
    (\<forall>i<512. w i = slot s v i)"
proof -
  define n where "n = v div PGSIZE + 1"
  have n: "n < 7" using assms(1) by (simp add: slot_ok_def n_def)
  have off: "swap_offset (swap_entry v) s = Some n" unfolding n_def by (rule swap_offset_entry [OF assms(1)])
  let ?w = "\<lambda>i. if i < 512 then swap_disk s (n * 512 + i) else frames (mem s) (page2ppn p) i"
  have "swapfs_read (swap_entry v) p s =
      Some (set_mem ((mem s)\<lparr>frames := (frames (mem s))(page2ppn p := ?w)\<rparr>) s, 0)"
    using off page2kva_ok [OF assms(2)] n
    by (simp add: swapfs_read_def swap_ide_read_def Let_def SWAP_NSECS_def PAGE_NSECT_def SECT_WORDS_def mult.commute)
  moreover have "\<forall>i<512. ?w i = slot s v i" by (simp add: slot_def n_def)
  ultimately show ?thesis by blast
qed

section \<open>Swapping a page out\<close>

text \<open>\<open>resident s D F d p\<close>: the page is mapped once, at its recorded address, and can be freed.\<close>

definition resident :: "swap_state \<Rightarrow> nat set \<Rightarrow> nat set \<Rightarrow> nat \<Rightarrow> nat \<Rightarrow> bool" where
  "resident s D F d p \<longleftrightarrow> slot_ok s (pra_vaddr s p) \<and> valid (pte_of (mem s) d (pra_vaddr s p)) \<and>
     entry_ppn (pte_of (mem s) d (pra_vaddr s p)) = page2ppn p \<and> page_ref p (mem s) = 1 \<and>
     (F = {} \<or> (\<exists>x\<in>F. p < x))"

lemma evict_page:
  assumes ok: "pt_ok s D F" and d: "d \<in> D" "v < USERTOP" and val: "valid (pte_of s d v)"
    and p: "entry_ppn (pte_of s d v) = page2ppn p" and one: "page_ref p s = 1" and above: "F = {} \<or> (\<exists>x\<in>F. p < x)"
    and e: "\<not> valid e"
  obtains x s' where "get_pte d v False s = Some (s, Some x)" "entry_at x s = pte_of s d v"
    "free_page p (set_entry x e s) = Some s'" "p < 32768" "p \<notin> F" "pt_ok s' D (insert p F)" "remapped s s' D d v e"
    "swap_init_ok s' = swap_init_ok s" "\<forall>h. \<not> is_table s D h \<longrightarrow> frames s' h = frames s h"
proof -
  obtain p' where "entry_ppn (pte_of s d v) = page2ppn p'" "p' < 32768" "p' \<notin> F" "\<not> is_table s D (page2ppn p')"
    "clean p' s" "page_ref p' s = int (card (mappers s D p'))" "(d, v div PGSIZE) \<in> mappers s D p'"
    using leafE [OF ok d val] by blast
  then have lf: "p < 32768" "p \<notin> F" "\<not> is_table s D (page2ppn p)" "clean p s"
    "page_ref p s = int (card (mappers s D p))" "(d, v div PGSIZE) \<in> mappers s D p" using p by simp_all
  obtain g where g: "table_at s (Tab d (PDX1 v) (PDX0 v)) = Some g"
    using val by (auto simp: pte_of_def simp del: table_at.simps split: option.splits)
  let ?x = "(g, PTX v)" let ?s1 = "set_entry ?x e s"
  have t: "tree_ok s D F" and fD: "finite D" using ok by (simp_all add: pt_ok_def)
  have ff: "ff_inv NPAGES (pm ?s1) F" and res: "\<forall>q\<in>F. \<not> PageReserved (fa_pages (pm s) q)"
    using ok by (simp_all add: pt_ok_def pages_ok_def)
  have cf: "can_free NPAGES p 1 (pm ?s1) F"
    using above lf(1,4) by (auto simp: can_free_def freeable_def clean_def)
  obtain b where b: "default_free_pages p 1 (pm ?s1) = Some b" "ff_inv NPAGES b (insert p F)"
    "\<And>q. p_ref (fa_pages b q) = (if q = p then 0 else p_ref (fa_pages (pm ?s1) q))"
    "\<And>q. PageReserved (fa_pages b q) = (q \<noteq> p \<and> PageReserved (fa_pages (pm ?s1) q))"
    "\<And>q. q \<noteq> p \<Longrightarrow> PageProperty (fa_pages b q) \<Longrightarrow> PageProperty (fa_pages (pm ?s1) q)"
    using default_free_one [OF ff cf lf(2)] by blast
  let ?s' = "?s1\<lparr>pm := b\<rparr>"
  have fr: "frames ?s' = frames (set_entry ?x e s)" by (simp add: set_entry_def)
  have tg: "is_table s D g" using table_at_is_table [OF _ g, of D] d by auto
  have m1: "mappers s D p = {(d, v div PGSIZE)}"
    using lf(5,6) one finite_mappers [OF fD] by (metis card_1_singletonE of_nat_eq_1_iff singletonD)
  have pte: "pte_of ?s' d' la' = (if d' = d \<and> la' div PGSIZE = v div PGSIZE then e else pte_of s d' la')"
    if "d' \<in> D" "la' < USERTOP" for d' la' by (rule set_leaf(4) [OF t d g fr that])
  have m: "mappers ?s' D p = {}" using mappers_update [OF d pte] m1 e by simp
  have pr: "page_ref q ?s' = (if q = p then 0 else page_ref q s)" for q
    using b(3) by (simp add: page_ref_def set_entry_def)
  have R: "pt_ok ?s' D (insert p F) \<and> remapped s ?s' D d v e"
    by (rule remap [OF ok d g fr]) (use b res lf p m pr val one e in \<open>auto simp: clean_def\<close>)
  show ?thesis
  proof (rule that [of ?x ?s'])
    show "get_pte d v False s = Some (s, Some ?x)" using get_pte_False [OF t d] g by simp
    show "free_page p ?s1 = Some ?s'" using b(1) by (simp add: free_pages_def)
    show "\<forall>h. \<not> is_table s D h \<longrightarrow> frames ?s' h = frames s h" using fr tg by auto
  qed (use R lf entry_at_leaf [OF g] in simp_all)
qed

context swap_policy
begin

lemma swap_out_ok:
  assumes r: "rel (sw_pra s) m xs" and ne: "xs \<noteq> []" and ok: "pt_ok (mem s) D F"
    and d: "pgdir_of (mms (sw_vm s) m) = Some d" "d \<in> D" and res: "\<forall>p\<in>set xs. resident s D F d p"
  obtains s' ys p zs where "swap_out sm m 1 False s = Some s'" "xs = ys @ p # zs" "rel (sw_pra s') m (ys @ zs)"
    "p < 32768" "p \<notin> F" "pt_ok (mem s') D (insert p F)"
    "remapped (mem s) (mem s') D d (pra_vaddr s p) (swap_entry (pra_vaddr s p))"
    "\<forall>i<512. slot s' (pra_vaddr s p) i = frames (mem s) (page2ppn p) i"
    "\<forall>u. u div PGSIZE \<noteq> pra_vaddr s p div PGSIZE \<longrightarrow> (\<forall>i<512. slot s' u i = slot s u i)"
    "sw_vm s' = (sw_vm s)\<lparr>mach := mem s'\<rparr>" "max_swap_offset s' = max_swap_offset s"
    "check_mm_struct s' = check_mm_struct s" "pra_vaddr s' = pra_vaddr s" "swap_init_ok (mem s') = swap_init_ok (mem s)"
    "\<forall>h. \<not> is_table (mem s) D h \<longrightarrow> frames (mem s') h = frames (mem s) h"
proof -
  obtain q ys p zs where v: "sm_swap_out_victim sm m False (sw_pra s) = Some (q, Some (PraLink p))"
    "xs = ys @ p # zs" "rel q m (ys @ zs)"
    using victim_rel [OF r ne] by blast
  let ?v = "pra_vaddr s p"
  have rp: "slot_ok s ?v" "valid (pte_of (mem s) d ?v)" "entry_ppn (pte_of (mem s) d ?v) = page2ppn p"
    "page_ref p (mem s) = 1" "F = {} \<or> (\<exists>x\<in>F. p < x)"
    using res v(2) by (simp_all add: resident_def)
  have u: "?v < USERTOP" using rp(1) by (simp add: slot_ok_def)
  obtain x k where k: "get_pte d ?v False (mem s) = Some (mem s, Some x)" "entry_at x (mem s) = pte_of (mem s) d ?v"
    "free_page p (set_entry x (swap_entry ?v) (mem s)) = Some k" "p < 32768" "p \<notin> F" "pt_ok k D (insert p F)"
    "remapped (mem s) k D d ?v (swap_entry ?v)" "swap_init_ok k = swap_init_ok (mem s)"
    "\<forall>h. \<not> is_table (mem s) D h \<longrightarrow> frames k h = frames (mem s) h"
    using evict_page [OF ok d(2) u rp(2-5) swap_entry_invalid] .
  let ?s = "s\<lparr>sw_pra := q\<rparr>"
  obtain w where w: "swapfs_write (swap_entry ?v) p ?s = Some (?s\<lparr>swap_disk := w\<rparr>, 0)"
    "\<forall>i<512. w ((?v div PGSIZE + 1) * 512 + i) = frames (mem s) (page2ppn p) i"
    "\<forall>u. u div PGSIZE \<noteq> ?v div PGSIZE \<longrightarrow> (\<forall>i<512. w ((u div PGSIZE + 1) * 512 + i) = slot s u i)"
    using swapfs_write_ok [of ?s ?v p] rp(1) k(4) by (auto simp: slot_ok_def slot_def)
  let ?s' = "set_mem k (set_mem (set_entry x (swap_entry ?v) (mem s)) (?s\<lparr>swap_disk := w\<rparr>))"
  have run: "swap_out sm m 1 False s = Some ?s'"
    using v(1) k(1,2,3) w(1) d(1) rp(2)
    by (simp add: swap_out_one_def le2page_def Let_def)
  show ?thesis
    by (rule that [OF run v(2), of])
      (use v(3) k w in \<open>simp_all add: slot_def set_mem_def\<close>)
qed

end

section \<open>Swapping a page in\<close>

lemma frame_write:
  fixes w :: "nat \<Rightarrow> 64 word"
  assumes ok: "pt_ok s D F" and h: "\<not> is_table s D h"
  defines "s' \<equiv> s\<lparr>frames := (frames s)(h := w)\<rparr>"
  shows "pt_ok s' D F" and "k \<in> user_keys D \<Longrightarrow> table_at s' k = table_at s k" and "is_table s' D g = is_table s D g"
    and "d \<in> D \<Longrightarrow> la < USERTOP \<Longrightarrow> pte_of s' d la = pte_of s d la" and "clean p s' = clean p s"
proof -
  have f: "\<And>g. is_table s D g \<Longrightarrow> frames s' g = frames s g" using h by (auto simp: s'_def)
  show at: "table_at s' k = table_at s k" if "k \<in> user_keys D" for k using same_tables(1) [OF f that] .
  show tb: "is_table s' D g = is_table s D g" for g using same_tables(2) [OF f] .
  have t: "tree_ok s' D F = tree_ok s D F" using same_tables(3) [OF f] .
  show pte: "pte_of s' d la = pte_of s d la" if "d \<in> D" "la < USERTOP" for d la using same_tables(4) [OF f that] .
  show cl: "clean p s' = clean p s" for p by (simp add: s'_def clean_def)
  have "mappers s' D q = mappers s D q" for q using pte page_addr by (auto simp: mappers_def)
  moreover have "page_ref q s' = page_ref q s" "pm s' = pm s" for q by (simp_all add: s'_def page_ref_def)
  ultimately show "pt_ok s' D F"
    using ok t tb cl pte by (simp add: pt_ok_def pages_ok_def leaf_ok_def)
qed

lemma get_table3_present:
  "below (mem s) f i = Some g \<Longrightarrow> g < 557056 \<Longrightarrow> get_table3 sm f i create s = Some (s, Some g)"
  by (auto simp: get_table3_def below_def KADDR_def entry_ppn_def split: if_splits)

lemma get_pte3_present:
  assumes t: "tree_ok (mem s) D F" and d: "d \<in> D" "la < USERTOP"
    and g: "table_at (mem s) (Tab d (PDX1 la) (PDX0 la)) = Some g"
  shows "get_pte3 sm d la create s = Some (s, Some (g, PTX la))"
proof -
  obtain f where f: "below (mem s) d (PDX1 la) = Some f" "below (mem s) f (PDX0 la) = Some g"
    using g by (auto split: option.splits)
  have k: "Dir d (PDX1 la) \<in> user_keys D" "table_at (mem s) (Dir d (PDX1 la)) = Some f"
    "Tab d (PDX1 la) (PDX0 la) \<in> user_keys D" using d f by simp_all
  have "f < 557056" "g < 557056"
    using table_not_free [OF t table_at_is_table [OF k(1,2)]] table_not_free [OF t table_at_is_table [OF k(3) g]]
    by (simp_all add: in_mem_def)
  then show ?thesis using f by (simp add: get_pte3_def get_table3_present)
qed

lemma alloc_pages3_free:
  "alloc_page (mem s) = Some ((mem s)\<lparr>pm := b\<rparr>, Some p) \<Longrightarrow>
     alloc_pages3 sm 1 s = Some (set_mem ((mem s)\<lparr>pm := b\<rparr>) s, Some p)"
  by (subst alloc_pages3.simps)
    (auto simp: alloc_pages_def Let_def split: Option.bind_splits if_splits)

lemma page_insert3_present:
  assumes "tree_ok (mem s) D F" and "d \<in> D" "la < USERTOP"
    and "table_at (mem s) (Tab d (PDX1 la) (PDX0 la)) = Some g"
    and "page_insert d p la perm (mem s) = Some (k, r)"
  shows "page_insert3 sm d p la perm s = Some (set_mem k s, r)"
  using get_pte3_present [OF assms(1-4), of sm True] get_pte_present [OF assms(1-4), of True] assms(5)
  by (auto simp: page_insert3_def page_insert_def Let_def split: Option.bind_splits)

lemma perm_ok_vma3 [simp]: "perm_ok (vma_perm3 v)"
  by (simp add: vma_perm3_def perm_ok_def PTE_U_def PTE_R_def PTE_W_def)

text \<open>Reading the page of an entry into a fresh page and mapping it.\<close>

lemma load_page:
  assumes ok: "pt_ok (mem s) D F" and F: "F \<noteq> {}" and d: "pgdir_of (mms (sw_vm s) m) = Some d" "d \<in> D" "la < USERTOP"
    and e: "pte_of (mem s) d la = swap_entry u" and sl: "slot_ok s u" and perm: "perm_ok perm"
  obtains s1 s2 q where "swap_in sm m la s = Some (s1, q, 0)" "page_insert3 sm d q la perm s1 = Some (s2, 0)" "q \<in> F"
    "pt_ok (mem s2) D (F - {q})" "remapped (mem s) (mem s2) D d la (pte_create (page2ppn q) (PTE_V OR perm))"
    "\<forall>i<512. frames (mem s2) (page2ppn q) i = slot s u i" "s2 = set_mem (mem s2) s"
    "\<forall>h. \<not> is_table (mem s) D h \<and> h \<noteq> page2ppn q \<longrightarrow> frames (mem s2) h = frames (mem s) h"
proof -
  obtain b q where b: "alloc_page (mem s) = Some ((mem s)\<lparr>pm := b\<rparr>, Some q)" "q \<in> F" "q < 32768"
    "pt_ok ((mem s)\<lparr>pm := b\<rparr>) D (F - {q})" "clean q ((mem s)\<lparr>pm := b\<rparr>)"
    "\<not> is_table ((mem s)\<lparr>pm := b\<rparr>) D (page2ppn q)"
    "\<forall>k. table_at ((mem s)\<lparr>pm := b\<rparr>) k = table_at (mem s) k"
    "\<forall>d la. pte_of ((mem s)\<lparr>pm := b\<rparr>) d la = pte_of (mem s) d la"
    using alloc_page_ok [OF ok F] .
  let ?k = "(mem s)\<lparr>pm := b\<rparr>"
  have nz: "swap_entry u \<noteq> 0" using swap_entry_nonzero sl by (simp add: slot_ok_def)
  obtain g where g: "table_at (mem s) (Tab d (PDX1 la) (PDX0 la)) = Some g"
    using nz e by (auto simp: pte_of_def simp del: table_at.simps split: option.splits)
  have gk: "table_at ?k (Tab d (PDX1 la) (PDX0 la)) = Some g" using b(7) g by (simp del: table_at.simps)
  have tk: "tree_ok ?k D (F - {q})" using b(4) by (simp add: pt_ok_def)
  have get: "get_pte d la False ?k = Some (?k, Some (g, PTX la))"
    by (rule get_pte_present [OF tk d(2,3) gk])
  have at: "entry_at (g, PTX la) ?k = swap_entry u" using entry_at_leaf [OF gk] b(8) e by simp
  have sl': "slot_ok (set_mem ?k s) u" using sl by (simp add: slot_ok_def)
  obtain w where w: "swapfs_read (swap_entry u) q (set_mem ?k s) =
      Some (set_mem (?k\<lparr>frames := (frames ?k)(page2ppn q := w)\<rparr>) (set_mem ?k s), 0)" "\<forall>i<512. w i = slot s u i"
    using swapfs_read_ok [OF sl' b(3)] by (auto simp: slot_def)
  let ?k1 = "?k\<lparr>frames := (frames ?k)(page2ppn q := w)\<rparr>"
  let ?s1 = "set_mem ?k1 s"
  have run1: "swap_in sm m la s = Some (?s1, q, 0)"
    using alloc_pages3_free [OF b(1)] d(1) get at w(1) by (simp add: swap_in_def set_mem_def)
  note W = frame_write [OF b(4,6), where w = w]
  have k1: "pt_ok ?k1 D (F - {q})" "clean q ?k1" "\<not> is_table ?k1 D (page2ppn q)" using W(1,3,5) b(5,6) by simp_all
  have tab: "table_at ?k1 k = table_at (mem s) k" if "k \<in> user_keys D" for k using W(2) [OF that] b(7) by simp
  have pte: "pte_of ?k1 d' la' = pte_of (mem s) d' la'" if "d' \<in> D" "la' < USERTOP" for d' la' using W(4) [OF that] b(8) by simp
  have g1: "table_at ?k1 (Tab d (PDX1 la) (PDX0 la)) = Some g" using tab g d(2,3) by (simp del: table_at.simps)
  have inv1: "\<not> valid (pte_of ?k1 d la)" using pte [OF d(2,3)] e by simp
  obtain k2 where k2: "page_insert d q la perm ?k1 = Some (k2, 0)" "pt_ok k2 D (F - {q})"
    "remapped ?k1 k2 D d la (pte_create (page2ppn q) (PTE_V OR perm))" "frames k2 (page2ppn q) = frames ?k1 (page2ppn q)"
    "\<forall>h. \<not> is_table ?k1 D h \<longrightarrow> frames k2 h = frames ?k1 h"
    by (rule page_insert_fresh [OF k1(1) d(2,3) g1 inv1 b(3) _ k1(3,2) perm]) simp_all
  have t1: "tree_ok (mem ?s1) D (F - {q})" using k1(1) by (simp add: pt_ok_def)
  have run2: "page_insert3 sm d q la perm ?s1 = Some (set_mem k2 ?s1, 0)"
    by (rule page_insert3_present [OF t1 d(2,3), of g]) (use g1 k2(1) in \<open>simp_all del: table_at.simps\<close>)
  show ?thesis
  proof (rule that [OF run1 run2 b(2)])
    show "pt_ok (mem (set_mem k2 ?s1)) D (F - {q})" using k2(2) by simp
    show "remapped (mem s) (mem (set_mem k2 ?s1)) D d la (pte_create (page2ppn q) (PTE_V OR perm))"
      using k2(3) tab pte by (simp add: remapped_def del: table_at.simps)
    show "\<forall>i<512. frames (mem (set_mem k2 ?s1)) (page2ppn q) i = slot s u i" using k2(4) w(2) by simp
    show "set_mem k2 ?s1 = set_mem (mem (set_mem k2 ?s1)) s" by (simp add: set_mem_def)
    have "is_table ?k1 D h = is_table (mem s) D h" for h using tab by (simp add: is_table_def del: table_at.simps)
    then show "\<forall>h. \<not> is_table (mem s) D h \<and> h \<noteq> page2ppn q \<longrightarrow> frames (mem (set_mem k2 ?s1)) h = frames (mem s) h"
      using k2(5) by simp
  qed
qed

lemma pte_of_div: "la div PGSIZE = la' div PGSIZE \<Longrightarrow> slot s la i = slot s la' i"
  by (simp add: slot_def)

context swap_policy
begin

lemma fault_swapped:
  assumes r: "rel (sw_pra s) m xs" and ok: "pt_ok (mem s) D F" and F: "F \<noteq> {}" "set xs \<inter> F = {}"
    and vm: "vm_ok m vs (sw_vm s)" "a \<in> set vs" "in_vma (sw_vm s) a addr"
    and d: "pgdir_of (mms (sw_vm s) m) = Some d" "d \<in> D"
    and e: "pte_of (mem s) d addr = swap_entry u" and sl: "slot_ok s u" and sw: "swap_init_ok (mem s)"
  obtains s' q where "do_pgfault3 sm (Some m) code addr s = Some (s', 0)" "q \<in> F" "rel (sw_pra s') m (xs @ [q])"
    "pt_ok (mem s') D (F - {q})"
    "remapped (mem s) (mem s') D d addr (pte_create (page2ppn q) (PTE_V OR vma_perm3 (vmas (sw_vm s) a)))"
    "\<forall>i<512. frames (mem s') (page2ppn q) i = slot s u i"
    "pra_vaddr s' = (pra_vaddr s)(q := ROUNDDOWN addr PGSIZE)" "vm_ok m vs (sw_vm s')"
    "swap_disk s' = swap_disk s"
    "\<forall>h. \<not> is_table (mem s) D h \<and> h \<noteq> page2ppn q \<longrightarrow> frames (mem s') h = frames (mem s) h"
proof -
  let ?a = "ROUNDDOWN addr PGSIZE" let ?perm = "vma_perm3 (vmas (sw_vm s) a)"
  obtain v where v: "find_vma (Some m) addr (sw_vm s) = Some (v, Some a)" "vm_ok m vs v" "vmas v = vmas (sw_vm s)"
    "mach v = mem s" "pgdir_of (mms v m) = Some d"
    using find_vma_hit [OF vm] d(1) by metis
  define s0 where "s0 = s\<lparr>sw_vm := v, sw_faults := u32 (sw_faults s + 1)\<rparr>"
  have s0: "mem s0 = mem s" "sw_pra s0 = sw_pra s" "pgdir_of (mms (sw_vm s0) m) = Some d" "slot_ok s0 u"
    "slot s0 u = slot s u" "pra_vaddr s0 = pra_vaddr s"
    using v sl by (auto simp: s0_def slot_ok_def slot_def)
  have a: "?a < USERTOP" using vma_below_top [OF vm] by (simp add: ROUNDDOWN_def)
  have ea: "pte_of (mem s0) d ?a = swap_entry u" using pte_of_page [OF page_of_rounddown] e s0(1) by simp
  have ok0: "pt_ok (mem s0) D F" using ok s0(1) by simp
  obtain s1 s2 q where L: "swap_in sm m ?a s0 = Some (s1, q, 0)" "page_insert3 sm d q ?a ?perm s1 = Some (s2, 0)" "q \<in> F"
    "pt_ok (mem s2) D (F - {q})" "remapped (mem s0) (mem s2) D d ?a (pte_create (page2ppn q) (PTE_V OR ?perm))"
    "\<forall>i<512. frames (mem s2) (page2ppn q) i = slot s0 u i" "s2 = set_mem (mem s2) s0"
    "\<forall>h. \<not> is_table (mem s0) D h \<and> h \<noteq> page2ppn q \<longrightarrow> frames (mem s2) h = frames (mem s0) h"
    using load_page [OF ok0 F(1) s0(3) d(2) a ea s0(4) perm_ok_vma3] .
  define k2 where "k2 = mem s2"
  have s2: "s2 = set_mem k2 s0" using L(7) by (simp only: k2_def)
  have p2: "sw_pra s2 = sw_pra s" "pra_vaddr s2 = pra_vaddr s" "sw_vm s2 = v\<lparr>mach := mem s2\<rparr>"
    "swap_disk s2 = swap_disk s" unfolding s2 by (simp_all add: s0_def set_mem_def)
  have "q \<notin> set xs" using F(2) L(3) by auto
  then obtain qa where qa: "sm_map_swappable sm (Some m) q (sw_pra s) = Some qa" "rel qa m (xs @ [q])"
    using map_rel [OF r] by blast
  obtain g where g: "table_at (mem s0) (Tab d (PDX1 ?a) (PDX0 ?a)) = Some g"
    using ea swap_entry_nonzero [of u] sl
    by (auto simp: pte_of_def slot_ok_def simp del: table_at.simps split: option.splits)
  have t0: "tree_ok (mem s0) D F" using ok0 by (simp add: pt_ok_def)
  have get: "get_pte3 sm d ?a True s0 = Some (s0, Some (g, PTX ?a))" by (rule get_pte3_present [OF t0 d(2) a g])
  have at: "entry_at (g, PTX ?a) (mem s0) = swap_entry u" using entry_at_leaf [OF g] ea by simp
  have nz: "swap_entry u \<noteq> 0" using swap_entry_nonzero sl by (simp add: slot_ok_def)
  let ?s' = "s2\<lparr>sw_pra := qa, pra_vaddr := (pra_vaddr s)(q := ?a)\<rparr>"
  have "\<not> addr < start_of v a" using vm(3) v(3) by (simp add: in_vma_def)
  then have run: "do_pgfault3 sm (Some m) code addr s = Some (?s', 0)"
    using v(1,3,5) get at nz sw s0(1) L(1,2) qa(1) p2(1,2)
    by (simp add: do_pgfault3_def Let_def s0_def [symmetric, simplified] swap_map_swappable_def)
  have rm: "remapped (mem s) (mem ?s') D d addr (pte_create (page2ppn q) (PTE_V OR ?perm))"
    using L(5) s0(1) by (simp add: remapped_def page_of_rounddown)
  have vm2: "vm_ok m vs (sw_vm s2)" by (subst p2(3)) (simp add: vm_ok_mach v(2))
  show ?thesis
    by (rule that [OF run L(3)]) (use qa(2) L(4,6,8) rm s0(1,5) vm2 p2(4) in simp_all)
qed

lemma resident_not_free:
  assumes "pt_ok (mem s) D F" and "d \<in> D" and "resident s D F d p"
  shows "p \<notin> F"
  using assms leafE [OF assms(1,2), of "pra_vaddr s p"] by (auto simp: resident_def slot_ok_def)

lemma evict_and_return:
  assumes r: "rel (sw_pra s) m xs" and ne: "xs \<noteq> []" and ok: "pt_ok (mem s) D F" and vm: "vm_ok m vs (sw_vm s)"
    and d: "pgdir_of (mms (sw_vm s) m) = Some d" "d \<in> D" and sw: "swap_init_ok (mem s)"
    and res: "\<forall>p\<in>set xs. resident s D F d p \<and> (\<exists>a\<in>set vs. in_vma (sw_vm s) a (pra_vaddr s p))"
  shows "\<exists>p\<in>set xs. \<exists>s1 s2 q. swap_out sm m 1 False s = Some s1 \<and>
    pt_ok (mem s1) D (insert p F) \<and> p \<notin> F \<and> \<not> valid (pte_of (mem s1) d (pra_vaddr s p)) \<and>
    do_pgfault3 sm (Some m) code (pra_vaddr s p) s1 = Some (s2, 0) \<and> q \<in> insert p F \<and>
    pt_ok (mem s2) D (insert p F - {q}) \<and> rel (sw_pra s2) m (remove1 p xs @ [q]) \<and>
    valid (pte_of (mem s2) d (pra_vaddr s p)) \<and> entry_ppn (pte_of (mem s2) d (pra_vaddr s p)) = page2ppn q \<and>
    (\<exists>a\<in>set vs. in_vma (sw_vm s) a (pra_vaddr s p) \<and> pte_of (mem s2) d (pra_vaddr s p) =
       pte_create (page2ppn q) (PTE_V OR vma_perm3 (vmas (sw_vm s) a))) \<and>
    (\<forall>i<512. frames (mem s2) (page2ppn q) i = frames (mem s) (page2ppn p) i) \<and>
    pra_vaddr s2 = (pra_vaddr s)(q := ROUNDDOWN (pra_vaddr s p) PGSIZE) \<and>
    (\<forall>d'\<in>D. \<forall>la<USERTOP. (d', la div PGSIZE) \<noteq> (d, pra_vaddr s p div PGSIZE) \<longrightarrow>
       pte_of (mem s2) d' la = pte_of (mem s) d' la) \<and>
    (\<forall>h. \<not> is_table (mem s) D h \<and> h \<noteq> page2ppn q \<longrightarrow> frames (mem s2) h = frames (mem s) h) \<and>
    (\<forall>u. u div PGSIZE \<noteq> pra_vaddr s p div PGSIZE \<longrightarrow> (\<forall>i<512. slot s2 u i = slot s u i))"
proof -
  have res': "\<forall>p\<in>set xs. resident s D F d p" using res by blast
  obtain s1 ys p zs where 1: "swap_out sm m 1 False s = Some s1" "xs = ys @ p # zs" "rel (sw_pra s1) m (ys @ zs)"
    "p < 32768" "p \<notin> F" "pt_ok (mem s1) D (insert p F)"
    "remapped (mem s) (mem s1) D d (pra_vaddr s p) (swap_entry (pra_vaddr s p))"
    "\<forall>i<512. slot s1 (pra_vaddr s p) i = frames (mem s) (page2ppn p) i"
    "\<forall>u. u div PGSIZE \<noteq> pra_vaddr s p div PGSIZE \<longrightarrow> (\<forall>i<512. slot s1 u i = slot s u i)"
    "sw_vm s1 = (sw_vm s)\<lparr>mach := mem s1\<rparr>" "max_swap_offset s1 = max_swap_offset s"
    "check_mm_struct s1 = check_mm_struct s" "pra_vaddr s1 = pra_vaddr s" "swap_init_ok (mem s1) = swap_init_ok (mem s)"
    "\<forall>h. \<not> is_table (mem s) D h \<longrightarrow> frames (mem s1) h = frames (mem s) h"
    using swap_out_ok [OF r ne ok d res'] .
  let ?v = "pra_vaddr s p"
  have p: "p \<in> set xs" using 1(2) by simp
  obtain a where a: "a \<in> set vs" "in_vma (sw_vm s) a ?v" using res p by blast
  have sl: "slot_ok s1 ?v" using res' p 1(11) by (simp add: resident_def slot_ok_def)
  have u: "?v < USERTOP" using sl by (simp add: slot_ok_def)
  have vm1: "vm_ok m vs (sw_vm s1)" by (subst 1(10)) (simp add: vm_ok_mach vm)
  have a1: "in_vma (sw_vm s1) a ?v" using a(2) by (subst 1(10)) (simp add: in_vma_def)
  have d1: "pgdir_of (mms (sw_vm s1) m) = Some d" by (subst 1(10)) (simp add: d(1))
  have e1: "pte_of (mem s1) d ?v = swap_entry ?v" using 1(7) d(2) u by (simp add: remapped_def)
  have dis: "set (ys @ zs) \<inter> insert p F = {}"
    using distinct_rel [OF r] resident_not_free [OF ok d(2)] res' 1(2) by auto
  have sw1: "swap_init_ok (mem s1)" using sw 1(14) by simp
  obtain s2 q where 2: "do_pgfault3 sm (Some m) code ?v s1 = Some (s2, 0)" "q \<in> insert p F"
    "rel (sw_pra s2) m ((ys @ zs) @ [q])" "pt_ok (mem s2) D (insert p F - {q})"
    "remapped (mem s1) (mem s2) D d ?v (pte_create (page2ppn q) (PTE_V OR vma_perm3 (vmas (sw_vm s1) a)))"
    "\<forall>i<512. frames (mem s2) (page2ppn q) i = slot s1 ?v i"
    "pra_vaddr s2 = (pra_vaddr s1)(q := ROUNDDOWN ?v PGSIZE)" "swap_disk s2 = swap_disk s1"
    "\<forall>h. \<not> is_table (mem s1) D h \<and> h \<noteq> page2ppn q \<longrightarrow> frames (mem s2) h = frames (mem s1) h"
    using fault_swapped [OF 1(3,6) _ dis vm1 a(1) a1 d1 d(2) e1 sl sw1] by (metis insert_not_empty)
  have "q < 32768" using 2(2) 1(4) ok ff_inv_subset by (fastforce simp: pt_ok_def)
  then have ppn: "entry_ppn (pte_of (mem s2) d ?v) = page2ppn q" "valid (pte_of (mem s2) d ?v)"
    using 2(5) d(2) u entry_ppn_page by (simp_all add: remapped_def)
  have rem: "remove1 p xs = ys @ zs" using distinct_rel [OF r] 1(2) by (simp add: remove1_append)
  have other: "\<forall>d'\<in>D. \<forall>la<USERTOP. (d', la div PGSIZE) \<noteq> (d, ?v div PGSIZE) \<longrightarrow> pte_of (mem s2) d' la = pte_of (mem s) d' la"
    using 1(7) 2(5) by (simp add: remapped_def)
  have "is_table (mem s1) D h = is_table (mem s) D h" for h using 1(7) by (simp add: is_table_def remapped_def)
  then have frame: "\<forall>h. \<not> is_table (mem s) D h \<and> h \<noteq> page2ppn q \<longrightarrow> frames (mem s2) h = frames (mem s) h"
    using 1(15) 2(9) by simp
  have slots: "\<forall>u. u div PGSIZE \<noteq> ?v div PGSIZE \<longrightarrow> (\<forall>i<512. slot s2 u i = slot s u i)"
    using 1(9) 2(8) by (simp add: slot_def)
  have vas: "vmas (sw_vm s1) = vmas (sw_vm s)" by (subst 1(10)) simp
  have perm: "\<exists>a\<in>set vs. in_vma (sw_vm s) a ?v \<and>
      pte_of (mem s2) d ?v = pte_create (page2ppn q) (PTE_V OR vma_perm3 (vmas (sw_vm s) a))"
    using a 2(5) d(2) u by (auto simp: remapped_def vas)
  show ?thesis
    by (rule bexI [OF _ p], rule exI [of _ s1], rule exI [of _ s2], rule exI [of _ q])
      (use 1(1,5,6,8,13) 2(1-4,6,7) e1 ppn rem other frame slots perm in simp)
qed

end

section \<open>Properties\<close>

text \<open>C30. A page that is swapped out and faulted in again keeps its content, under the FIFO classes
  and under the clock.  Every swappable page of the address space is mapped exactly once, at the
  address recorded for it, which lies in an area and has one of the seven slots of the swap
  space, and can be freed regularly (a free page lies above it, or none is free).  The clock
  needs besides that the word before the list head, which its hand reads like the mark of a
  page, is neither 0 nor 1 (\<open>clock_rel\<close>).  Then \<open>swap_out\<close> picks one of the pages, writes it to
  its slot and frees it; an access to its address makes the fault handler return 0 with the
  address mapped, with the permissions of its area, to a page that holds the same 512 words,
  recorded with this address at the end of the queue.  No other mapping of any address space
  changed, no other swap slot, and no page but the new one and the page tables.\<close>

theorem swap_round_trip:
  assumes "(sm, rel) = (swap_manager_clock, clock_rel) \<or> (sm, rel) = (swap_manager_fifo, tail_rel) \<or>
      (sm, rel) = (swap_manager_fifo4, front_rel)"
    and "rel (sw_pra s) m xs" and "xs \<noteq> []" and "pt_ok (mem s) D F" and "vm_ok m vs (sw_vm s)"
    and "pgdir_of (mms (sw_vm s) m) = Some d" and "d \<in> D" and "swap_init_ok (mem s)"
    and "\<forall>p\<in>set xs. resident s D F d p \<and> (\<exists>a\<in>set vs. in_vma (sw_vm s) a (pra_vaddr s p))"
  shows "\<exists>p\<in>set xs. \<exists>s1 s2 q. swap_out sm m 1 False s = Some s1 \<and>
    pt_ok (mem s1) D (insert p F) \<and> p \<notin> F \<and> \<not> valid (pte_of (mem s1) d (pra_vaddr s p)) \<and>
    do_pgfault3 sm (Some m) code (pra_vaddr s p) s1 = Some (s2, 0) \<and> q \<in> insert p F \<and>
    pt_ok (mem s2) D (insert p F - {q}) \<and> rel (sw_pra s2) m (remove1 p xs @ [q]) \<and>
    valid (pte_of (mem s2) d (pra_vaddr s p)) \<and> entry_ppn (pte_of (mem s2) d (pra_vaddr s p)) = page2ppn q \<and>
    (\<exists>a\<in>set vs. in_vma (sw_vm s) a (pra_vaddr s p) \<and> pte_of (mem s2) d (pra_vaddr s p) =
       pte_create (page2ppn q) (PTE_V OR vma_perm3 (vmas (sw_vm s) a))) \<and>
    (\<forall>i<512. frames (mem s2) (page2ppn q) i = frames (mem s) (page2ppn p) i) \<and>
    pra_vaddr s2 = (pra_vaddr s)(q := ROUNDDOWN (pra_vaddr s p) PGSIZE) \<and>
    (\<forall>d'\<in>D. \<forall>la<USERTOP. (d', la div PGSIZE) \<noteq> (d, pra_vaddr s p div PGSIZE) \<longrightarrow>
       pte_of (mem s2) d' la = pte_of (mem s) d' la) \<and>
    (\<forall>h. \<not> is_table (mem s) D h \<and> h \<noteq> page2ppn q \<longrightarrow> frames (mem s2) h = frames (mem s) h) \<and>
    (\<forall>u. u div PGSIZE \<noteq> pra_vaddr s p div PGSIZE \<longrightarrow> (\<forall>i<512. slot s2 u i = slot s u i))"
proof -
  have policy: "swap_policy sm rel"
    using assms(1) clock.swap_policy_axioms fifo.swap_policy_axioms fifo4.swap_policy_axioms by auto
  show ?thesis by (rule swap_policy.evict_and_return [where rel = rel, OF policy assms(2-9)])
qed

subsection \<open>The property at work\<close>

text \<open>Page 6 mapped at 0x1000, in an area from 0x1000 to 0x6000, alone in the queue of the clock.\<close>

definition swap_machine :: machine where
  "swap_machine = fst (the (page_insert sample_dir 6 0x1000 PTE_USER pt_sample))\<lparr>swap_init_ok := True\<rparr>"

definition swap_sample :: swap_state where
  "swap_sample = \<lparr>
     sw_vm = \<lparr>vm_links = list_add_before (Mmap 0) (VmaLink 0) (list_init (Mmap 0) \<lparr>l_next = id, l_prev = id\<rparr>),
       vmas = (\<lambda>_. \<lparr>vm_mm = 0, vm_start = 0x1000, vm_end = 0x6000, vm_flags = 0x3\<rparr>),
       mms = (\<lambda>_. \<lparr>mmap_cache = None, pgdir_of = Some sample_dir, map_count = 1, mm_count = 0\<rparr>),
       kfreed = [], mach = swap_machine\<rparr>,
     sw_pra = \<lparr>pra_links = list_add PraHead (PraLink 6) (list_init PraHead \<lparr>l_next = id, l_prev = id\<rparr>),
       visited = (\<lambda>x. if x = PraHead then 7 else 1), curr_ptr = PraHead, sm_priv = (\<lambda>_. Some PraHead)\<rparr>,
     pra_vaddr = (\<lambda>_. 0x1000), swap_disk = (\<lambda>_. 0), max_swap_offset = 7, check_mm_struct = Some 0, sw_faults = 0\<rparr>"

lemma pte_of_swap: "pte_of (s\<lparr>swap_init_ok := b\<rparr>) d la = pte_of s d la"
proof -
  have at: "table_at (s\<lparr>swap_init_ok := b\<rparr>) k = table_at s k" for k by (cases k) (simp_all add: below_def)
  show ?thesis by (simp add: pte_of_def at del: table_at.simps split: option.split)
qed

lemma swap_machine_ok:
  obtains F where "pt_ok swap_machine {sample_dir} F" "F \<noteq> {}" "F \<subseteq> {20..<30}"
    "\<forall>la<USERTOP. pte_of swap_machine sample_dir la =
       (if la div PGSIZE = 1 then pte_create (page2ppn 6) (PTE_V OR PTE_USER) else pte_of pt_sample sample_dir la)"
proof -
  have u: "(0x1000 :: nat) < USERTOP" "(0x1000 :: nat) div PGSIZE = 1" by (simp_all add: USERTOP_def PGSIZE_def)
  have "\<not> valid (pte_of pt_sample sample_dir 0x1000)" using u by (simp add: sample_pte)
  then obtain s' F' where s': "page_insert sample_dir 6 0x1000 PTE_USER pt_sample = Some (s', 0)" "pt_ok s' {sample_dir} F'"
    "F' \<subseteq> {20..<30}" "card {20..<30 :: nat} \<le> card F' + 2"
    "\<forall>d'\<in>{sample_dir}. \<forall>la'<USERTOP. pte_of s' d' la' = (if d' = sample_dir \<and> la' div PGSIZE = 0x1000 div PGSIZE
       then pte_create (page2ppn 6) (PTE_V OR PTE_USER) else pte_of pt_sample d' la')"
    using page_insert_ok [OF sample_ok _ u(1), of sample_dir 6 PTE_USER] sample_not_table [of 6] sample_clean [of 6] by auto
  have m: "swap_machine = s'\<lparr>swap_init_ok := True\<rparr>" using s'(1) by (simp add: swap_machine_def)
  show ?thesis
    by (rule that [of F']) (use s' u in \<open>auto simp: m pt_ok_swap pte_of_swap\<close>)
qed

lemma swap_sample_resident:
  assumes "pt_ok swap_machine {sample_dir} F" "F \<subseteq> {20..<30}" "F \<noteq> {}"
    and pte: "\<forall>la<USERTOP. pte_of swap_machine sample_dir la =
       (if la div PGSIZE = 1 then pte_create (page2ppn 6) (PTE_V OR PTE_USER) else pte_of pt_sample sample_dir la)"
  shows "resident swap_sample {sample_dir} F sample_dir 6"
proof -
  have u: "(0x1000 :: nat) < USERTOP" "(0x1000 :: nat) div PGSIZE = 1" by (simp_all add: USERTOP_def PGSIZE_def)
  have e6: "entry_ppn (pte_create (page2ppn 6) (PTE_V OR PTE_USER)) = page2ppn 6"
    and e5: "entry_ppn (pte_create (page2ppn 5) (PTE_V OR PTE_USER)) = page2ppn 5"
    by (rule entry_ppn_page; simp)+
  have p1: "pte_of swap_machine sample_dir 0x1000 = pte_create (page2ppn 6) (PTE_V OR PTE_USER)" using pte u by simp
  have b: "v * PGSIZE < USERTOP" "v * PGSIZE div PGSIZE = v" if "v < USERTOP div PGSIZE" for v
    using that page_addr vpn_of_page by simp_all
  have at: "pte_of swap_machine sample_dir (v * PGSIZE) =
      (if v = 1 then pte_create (page2ppn 6) (PTE_V OR PTE_USER)
       else if v = 1024 then pte_create (page2ppn 5) (PTE_V OR PTE_USER) else 0)" if "v < USERTOP div PGSIZE" for v
    using pte b [OF that] sample_pte [OF b(1) [OF that]] by (simp only: simp_thms split: if_split)
  have "1 < USERTOP div PGSIZE" by (simp add: USERTOP_def PGSIZE_def)
  then have m: "mappers swap_machine {sample_dir} 6 = {(sample_dir, 1)}"
    unfolding mappers_def using at at [of 1] e6 e5 by (auto split: if_splits)
  obtain q where "entry_ppn (pte_of swap_machine sample_dir 0x1000) = page2ppn q" "page_ref q swap_machine = int (card (mappers swap_machine {sample_dir} q))"
    using leafE [OF assms(1), of sample_dir "0x1000"] u p1 by auto
  then have "page_ref 6 swap_machine = 1" using m e6 p1 by simp
  moreover have "\<exists>x\<in>F. 6 < x" using assms(2,3) by fastforce
  ultimately show ?thesis
    using p1 e6 u by (simp add: resident_def slot_ok_def swap_sample_def)
qed

lemma swap_round_trip_witness:
  "\<exists>s1 s2 q. swap_out swap_manager_clock 0 1 False swap_sample = Some s1 \<and>
     \<not> valid (pte_of (mem s1) sample_dir 0x1000) \<and> do_pgfault3 swap_manager_clock (Some 0) 15 0x1000 s1 = Some (s2, 0) \<and>
     (\<forall>i<512. frames (mem s2) (page2ppn q) i = frames swap_machine (page2ppn 6) i)"
proof -
  have "ring (list_add PraHead (PraLink 6) (list_init PraHead \<lparr>l_next = id, l_prev = id\<rparr>)) PraHead [PraLink 6]"
    using ring_list_add_head [OF ring_list_init, of "PraLink 6" PraHead "\<lparr>l_next = id, l_prev = id\<rparr>"] by simp
  then have r: "clock_rel (sw_pra swap_sample) 0 [6]" by (simp add: clock_rel_def tail_rel_def swap_sample_def)
  have "ring (list_add_before (Mmap 0) (VmaLink 0) (list_init (Mmap 0) \<lparr>l_next = id, l_prev = id\<rparr>)) (Mmap 0) [VmaLink 0]"
    using ring_list_add_before_head [OF ring_list_init, of "VmaLink 0" "Mmap 0" "\<lparr>l_next = id, l_prev = id\<rparr>"] by simp
  then have vm: "vm_ok 0 [0] (sw_vm swap_sample)" by (simp add: vm_ok_def swap_sample_def USERTOP_def)
  obtain F where F: "pt_ok swap_machine {sample_dir} F" "F \<noteq> {}" "F \<subseteq> {20..<30}"
    "\<forall>la<USERTOP. pte_of swap_machine sample_dir la =
       (if la div PGSIZE = 1 then pte_create (page2ppn 6) (PTE_V OR PTE_USER) else pte_of pt_sample sample_dir la)"
    using swap_machine_ok .
  have f: "pt_ok (mem swap_sample) {sample_dir} F" "pgdir_of (mms (sw_vm swap_sample) 0) = Some sample_dir"
    "swap_init_ok (mem swap_sample)" "pra_vaddr swap_sample 6 = 0x1000" "mem swap_sample = swap_machine"
    using F(1) by (simp_all add: swap_sample_def swap_machine_def)
  have res: "\<forall>p\<in>set [6]. resident swap_sample {sample_dir} F sample_dir p \<and>
      (\<exists>a\<in>set [0]. in_vma (sw_vm swap_sample) a (pra_vaddr swap_sample p))"
    using swap_sample_resident [OF F(1,3,2,4)] by (simp add: in_vma_def swap_sample_def)
  from swap_round_trip [OF disjI1 [OF refl] r _ f(1) vm f(2) _ f(3) res, of 15] show ?thesis
    unfolding f(5) by (auto simp: f(4))
qed

end
