(* ===== verification/Skew_Heap.thy ===== *)
theory Skew_Heap
  imports Kernel_Prelude "HOL-Library.Tree" "HOL-Library.Word"
begin

text \<open>
  The skew heap \<open>libs/skew_heap.h\<close> of the stride scheduler, and the comparison
  \<open>proc_stride_comp_f\<close> of \<open>default_sched_stride.c\<close> it is used with.  The three pointers of
  all entries are maps; \<open>heap_at h a t\<close> says that the entries reachable from \<open>a\<close> form the
  tree \<open>t\<close> with correct parent pointers below its root.  The pointer routines are compared
  with functions on trees, on which order and contents are proved.
\<close>

section \<open>The operations\<close>

record 'a skew =
  sk_parent :: "'a \<Rightarrow> 'a option"
  sk_left :: "'a \<Rightarrow> 'a option"
  sk_right :: "'a \<Rightarrow> 'a option"

definition skew_heap_init :: "'a \<Rightarrow> 'a skew \<Rightarrow> 'a skew" where
  "skew_heap_init a h =
    (let h = h\<lparr>sk_parent := (sk_parent h)(a := None)\<rparr>;
         h = h\<lparr>sk_right := (sk_right h)(a := None)\<rparr>
     in h\<lparr>sk_left := (sk_left h)(a := None)\<rparr>)"

definition set_children :: "'a \<Rightarrow> 'a option \<Rightarrow> 'a option \<Rightarrow> 'a skew \<Rightarrow> 'a skew" where
  "set_children x l r h =
    (let h = h\<lparr>sk_left := (sk_left h)(x := l)\<rparr>;
         h = h\<lparr>sk_right := (sk_right h)(x := r)\<rparr>
     in (case l of None \<Rightarrow> h | Some z \<Rightarrow> h\<lparr>sk_parent := (sk_parent h)(z := Some x)\<rparr>))"

partial_function (option) skew_heap_merge ::
    "('a \<Rightarrow> 'a \<Rightarrow> int) \<Rightarrow> 'a option \<Rightarrow> 'a option \<Rightarrow> 'a skew \<Rightarrow> ('a skew \<times> 'a option) option" where
  "skew_heap_merge cmp a b h =
    (case a of
       None \<Rightarrow> Some (h, b)
     | Some x \<Rightarrow>
         (case b of
            None \<Rightarrow> Some (h, a)
          | Some y \<Rightarrow>
              if cmp x y = -1 then do {
                let r = sk_left h x;
                (h, l) \<leftarrow> skew_heap_merge cmp (sk_right h x) (Some y) h;
                Some (set_children x l r h, Some x) }
              else do {
                let r = sk_left h y;
                (h, l) \<leftarrow> skew_heap_merge cmp (Some x) (sk_right h y) h;
                Some (set_children y l r h, Some y) }))"

definition skew_heap_insert ::
    "('a \<Rightarrow> 'a \<Rightarrow> int) \<Rightarrow> 'a option \<Rightarrow> 'a \<Rightarrow> 'a skew \<Rightarrow> ('a skew \<times> 'a option) option" where
  "skew_heap_insert cmp a b h = skew_heap_merge cmp a (Some b) (skew_heap_init b h)"

definition skew_heap_remove ::
    "('a \<Rightarrow> 'a \<Rightarrow> int) \<Rightarrow> 'a option \<Rightarrow> 'a \<Rightarrow> 'a skew \<Rightarrow> ('a skew \<times> 'a option) option" where
  "skew_heap_remove cmp a b h = do {
     let p = sk_parent h b;
     (h, rep) \<leftarrow> skew_heap_merge cmp (sk_left h b) (sk_right h b) h;
     let h = (case rep of None \<Rightarrow> h | Some z \<Rightarrow> h\<lparr>sk_parent := (sk_parent h)(z := p)\<rparr>);
     (case p of
        Some q \<Rightarrow>
          Some (if sk_left h q = Some b then h\<lparr>sk_left := (sk_left h)(q := rep)\<rparr>
                else h\<lparr>sk_right := (sk_right h)(q := rep)\<rparr>, a)
      | None \<Rightarrow> Some (h, rep)) }"

text \<open>\<open>int32_t c = p->lab6_stride - q->lab6_stride\<close> for unsigned 32-bit strides.\<close>

definition proc_stride_comp_f :: "('a \<Rightarrow> 32 word) \<Rightarrow> 'a \<Rightarrow> 'a \<Rightarrow> int" where
  "proc_stride_comp_f stride p q =
    (let c = sint (stride p - stride q) in if 0 < c then 1 else if c = 0 then 0 else -1)"

section \<open>Trees\<close>

fun tree_merge :: "('a \<Rightarrow> 'a \<Rightarrow> int) \<Rightarrow> 'a tree \<Rightarrow> 'a tree \<Rightarrow> 'a tree" where
  "tree_merge cmp Leaf t = t"
| "tree_merge cmp t Leaf = t"
| "tree_merge cmp (Node l1 x r1) (Node l2 y r2) =
    (if cmp x y = -1 then Node (tree_merge cmp r1 (Node l2 y r2)) x l1
     else Node (tree_merge cmp (Node l1 x r1) r2) y l2)"

fun tree_remove :: "('a \<Rightarrow> 'a \<Rightarrow> int) \<Rightarrow> 'a \<Rightarrow> 'a tree \<Rightarrow> 'a tree" where
  "tree_remove cmp b Leaf = Leaf"
| "tree_remove cmp b (Node l x r) =
    (if x = b then tree_merge cmp l r
     else if b \<in> set_tree l then Node (tree_remove cmp b l) x r
     else Node l x (tree_remove cmp b r))"

lemma tree_merge_Leaf [simp]: "tree_merge cmp t Leaf = t"
  by (cases t) simp_all

lemma set_tree_merge [simp]: "set_tree (tree_merge cmp s t) = set_tree s \<union> set_tree t"
  by (induction cmp s t rule: tree_merge.induct) auto

fun distinct_tree :: "'a tree \<Rightarrow> bool" where
  "distinct_tree Leaf = True"
| "distinct_tree (Node l x r) \<longleftrightarrow> distinct_tree l \<and> distinct_tree r \<and>
     x \<notin> set_tree l \<union> set_tree r \<and> set_tree l \<inter> set_tree r = {}"

lemma distinct_tree_merge [simp]:
  "distinct_tree s \<Longrightarrow> distinct_tree t \<Longrightarrow> set_tree s \<inter> set_tree t = {} \<Longrightarrow> distinct_tree (tree_merge cmp s t)"
  by (induction cmp s t rule: tree_merge.induct) auto

lemma tree_remove_absent: "b \<notin> set_tree t \<Longrightarrow> tree_remove cmp b t = t"
  by (induction t) auto

lemma set_tree_remove: "distinct_tree t \<Longrightarrow> set_tree (tree_remove cmp b t) = set_tree t - {b}"
  by (induction t) (auto simp: tree_remove_absent)

lemma distinct_tree_remove: "distinct_tree t \<Longrightarrow> distinct_tree (tree_remove cmp b t)"
  by (induction t) (auto simp: set_tree_remove)

section \<open>The pointer structure of a tree\<close>

definition parent_is :: "'a skew \<Rightarrow> 'a option \<Rightarrow> 'a option \<Rightarrow> bool" where
  "parent_is h a p \<longleftrightarrow> (\<forall>z. a = Some z \<longrightarrow> sk_parent h z = p)"

lemma parent_is_simps [simp]: "parent_is h None p" "parent_is h (Some z) p \<longleftrightarrow> sk_parent h z = p"
  by (simp_all add: parent_is_def)

fun heap_at :: "'a skew \<Rightarrow> 'a option \<Rightarrow> 'a tree \<Rightarrow> bool" where
  "heap_at h a Leaf \<longleftrightarrow> a = None"
| "heap_at h a (Node l x r) \<longleftrightarrow> a = Some x \<and>
     heap_at h (sk_left h x) l \<and> parent_is h (sk_left h x) (Some x) \<and>
     heap_at h (sk_right h x) r \<and> parent_is h (sk_right h x) (Some x)"

text \<open>\<open>agree h h' A\<close>: no pointer of the entries in \<open>A\<close> differs.\<close>

definition agree :: "'a skew \<Rightarrow> 'a skew \<Rightarrow> 'a set \<Rightarrow> bool" where
  "agree h h' A \<longleftrightarrow> (\<forall>u\<in>A. sk_left h' u = sk_left h u \<and> sk_right h' u = sk_right h u \<and> sk_parent h' u = sk_parent h u)"

lemma agree_mono: "agree h h' A \<Longrightarrow> B \<subseteq> A \<Longrightarrow> agree h h' B"
  by (auto simp: agree_def)

lemma heap_at_root: "heap_at h (Some x) t \<Longrightarrow> x \<in> set_tree t"
  by (cases t) auto

lemma heap_at_None [simp]: "heap_at h None t \<longleftrightarrow> t = Leaf"
  by (cases t) auto

lemma heap_at_cong: "heap_at h a t \<Longrightarrow> agree h h' (set_tree t) \<Longrightarrow> heap_at h' a t"
proof (induction t arbitrary: a)
  case (Node l x r)
  have "agree h h' (set_tree l)" "agree h h' (set_tree r)" using Node.prems(2) by (auto simp: agree_def)
  moreover have "parent_is h' (sk_left h x) (Some x)" "parent_is h' (sk_right h x) (Some x)"
    using Node.prems heap_at_root by (fastforce simp: parent_is_def agree_def)+
  ultimately show ?case using Node by (auto simp: agree_def)
qed simp

lemma heap_at_join:
  assumes l: "heap_at h l s" "parent_is h' l (Some x)" and r: "heap_at h r t" "parent_is h' r (Some x)"
    and x: "sk_left h' x = l" "sk_right h' x = r"
    and sl: "\<forall>u\<in>set_tree s. sk_left h' u = sk_left h u \<and> sk_right h' u = sk_right h u \<and> (Some u \<noteq> l \<longrightarrow> sk_parent h' u = sk_parent h u)"
    and sr: "\<forall>u\<in>set_tree t. sk_left h' u = sk_left h u \<and> sk_right h' u = sk_right h u \<and> (Some u \<noteq> r \<longrightarrow> sk_parent h' u = sk_parent h u)"
    and d: "distinct_tree s" "distinct_tree t"
  shows "heap_at h' (Some x) (Node s x t)"
proof -
  have sub: "heap_at h' a t" if "heap_at h a t" "distinct_tree t"
    "\<forall>u\<in>set_tree t. sk_left h' u = sk_left h u \<and> sk_right h' u = sk_right h u \<and> (Some u \<noteq> a \<longrightarrow> sk_parent h' u = sk_parent h u)"
    for a t
  proof (cases t)
    case (Node v z u)
    have a: "a = Some z" "heap_at h (sk_left h z) v" "heap_at h (sk_right h z) u" using that(1) Node by auto
    have "agree h h' (set_tree v)" "agree h h' (set_tree u)" using that(2,3) Node a(1) by (auto simp: agree_def)
    then have "heap_at h' (sk_left h z) v" "heap_at h' (sk_right h z) u" using heap_at_cong a(2,3) by blast+
    moreover have "parent_is h' (sk_left h z) (Some z)" "parent_is h' (sk_right h z) (Some z)"
      using that Node heap_at_root a by (fastforce simp: parent_is_def)+
    ultimately show ?thesis using that(3) Node a(1) by simp
  qed (use that in simp)
  show ?thesis using sub [OF l(1) d(1) sl] sub [OF r(1) d(2) sr] l(2) r(2) x by simp
qed

section \<open>The routines on trees\<close>

lemma set_children_simps [simp]:
  "sk_left (set_children x l r h) = (sk_left h)(x := l)" "sk_right (set_children x l r h) = (sk_right h)(x := r)"
  "sk_parent (set_children x l r h) = (case l of None \<Rightarrow> sk_parent h | Some z \<Rightarrow> (sk_parent h)(z := Some x))"
  by (simp_all add: set_children_def Let_def split: option.split)

text \<open>One step of a merge: \<open>c\<close> is the merged rest \<open>t\<close>, which becomes the left child of \<open>x\<close>.\<close>

lemma set_children_ok:
  assumes c: "heap_at h c s" and r: "heap_at h r t" "parent_is h r (Some x)"
    and d: "distinct_tree (Node s x t)"
  shows "heap_at (set_children x c r h) (Some x) (Node s x t)"
proof (rule heap_at_join [OF c _ r(1)])
  show "parent_is (set_children x c r h) c (Some x)" by (cases c) simp_all
  have "c \<noteq> r \<or> r = None" using c r(1) d heap_at_root by (cases r) fastforce+
  then show "parent_is (set_children x c r h) r (Some x)" using r(2) by (cases c; cases r) auto
  show "\<forall>u\<in>set_tree s. sk_left (set_children x c r h) u = sk_left h u \<and> sk_right (set_children x c r h) u = sk_right h u \<and>
      (Some u \<noteq> c \<longrightarrow> sk_parent (set_children x c r h) u = sk_parent h u)" using d by (cases c) auto
  have "\<forall>z. c = Some z \<longrightarrow> z \<notin> set_tree t" using c d heap_at_root by fastforce
  then show "\<forall>u\<in>set_tree t. sk_left (set_children x c r h) u = sk_left h u \<and> sk_right (set_children x c r h) u = sk_right h u \<and>
      (Some u \<noteq> r \<longrightarrow> sk_parent (set_children x c r h) u = sk_parent h u)" using d by (cases c) auto
qed (use d in simp_all)

lemma merge_ok:
  assumes "heap_at h a s" and "heap_at h b t" and "distinct_tree s" "distinct_tree t" and "set_tree s \<inter> set_tree t = {}"
  shows "\<exists>h' c. skew_heap_merge cmp a b h = Some (h', c) \<and> heap_at h' c (tree_merge cmp s t) \<and>
    agree h h' (- (set_tree s \<union> set_tree t)) \<and> (\<forall>z. c = Some z \<longrightarrow> sk_parent h' z = sk_parent h z)"
  using assms
proof (induction cmp s t arbitrary: a b h rule: tree_merge.induct)
  case (1 cmp t)
  then show ?case by (subst skew_heap_merge.simps) (auto simp: agree_def)
next
  case (2 cmp l x r)
  then show ?case by (subst skew_heap_merge.simps) (auto simp: agree_def)
next
  case (3 cmp l1 x r1 l2 y r2)
  let ?s = "Node l1 x r1" and ?t = "Node l2 y r2"
  have ab: "a = Some x" "b = Some y" using 3(3,4) by simp_all
  show ?case
  proof (cases "cmp x y = -1")
    case True
    have "heap_at h (sk_right h x) r1" "heap_at h (Some y) ?t" "distinct_tree r1" "distinct_tree ?t"
      "set_tree r1 \<inter> set_tree ?t = {}" using 3(3-7) ab by auto
    from 3(1) [OF True this] obtain h1 c where 1: "skew_heap_merge cmp (sk_right h x) (Some y) h = Some (h1, c)"
      "heap_at h1 c (tree_merge cmp r1 ?t)" "agree h h1 (- (set_tree r1 \<union> set_tree ?t))"
      "\<forall>z. c = Some z \<longrightarrow> sk_parent h1 z = sk_parent h z" by blast
    let ?h = "set_children x c (sk_left h x) h1"
    have run: "skew_heap_merge cmp a b h = Some (?h, Some x)"
      using 1(1) True ab by (subst skew_heap_merge.simps) simp
    have l1: "set_tree l1 \<subseteq> - (set_tree r1 \<union> set_tree ?t)" "x \<in> - (set_tree r1 \<union> set_tree ?t)" using 3(5,7) by auto
    have "heap_at h (sk_left h x) l1" "parent_is h (sk_left h x) (Some x)" using 3(3) by simp_all
    then have "heap_at h1 (sk_left h x) l1" "parent_is h1 (sk_left h x) (Some x)"
      using agree_mono [OF 1(3) l1(1)] heap_at_cong heap_at_root by (blast, fastforce simp: parent_is_def agree_def)
    moreover have "distinct_tree (tree_merge cmp r1 ?t)" by (rule distinct_tree_merge) (use 3(5-7) in auto)
    then have "distinct_tree (Node (tree_merge cmp r1 ?t) x l1)" using 3(5,7) by auto
    ultimately have "heap_at ?h (Some x) (Node (tree_merge cmp r1 ?t) x l1)" by (rule set_children_ok [OF 1(2)])
    moreover have "agree h ?h (- (set_tree ?s \<union> set_tree ?t))"
      using 1(2,3) heap_at_root [of h1 _ "tree_merge cmp r1 ?t"] by (cases c) (auto simp: agree_def)
    moreover have "sk_parent ?h x = sk_parent h x"
      using 1(2,3) l1(2) heap_at_root [of h1 _ "tree_merge cmp r1 ?t"] by (cases c) (auto simp: agree_def)
    ultimately show ?thesis using run True by auto
  next
    case False
    have "heap_at h (Some x) ?s" "heap_at h (sk_right h y) r2" "distinct_tree ?s" "distinct_tree r2"
      "set_tree ?s \<inter> set_tree r2 = {}" using 3(3-7) ab by auto
    from 3(2) [OF False this] obtain h1 c where 1: "skew_heap_merge cmp (Some x) (sk_right h y) h = Some (h1, c)"
      "heap_at h1 c (tree_merge cmp ?s r2)" "agree h h1 (- (set_tree ?s \<union> set_tree r2))"
      "\<forall>z. c = Some z \<longrightarrow> sk_parent h1 z = sk_parent h z" by blast
    let ?h = "set_children y c (sk_left h y) h1"
    have run: "skew_heap_merge cmp a b h = Some (?h, Some y)"
      using 1(1) False ab by (subst skew_heap_merge.simps) simp
    have l2: "set_tree l2 \<subseteq> - (set_tree ?s \<union> set_tree r2)" "y \<in> - (set_tree ?s \<union> set_tree r2)" using 3(6,7) by auto
    have "heap_at h (sk_left h y) l2" "parent_is h (sk_left h y) (Some y)" using 3(4) by simp_all
    then have "heap_at h1 (sk_left h y) l2" "parent_is h1 (sk_left h y) (Some y)"
      using agree_mono [OF 1(3) l2(1)] heap_at_cong heap_at_root by (blast, fastforce simp: parent_is_def agree_def)
    moreover have "distinct_tree (tree_merge cmp ?s r2)" by (rule distinct_tree_merge) (use 3(5-7) in auto)
    then have "distinct_tree (Node (tree_merge cmp ?s r2) y l2)" using 3(6,7) by auto
    ultimately have "heap_at ?h (Some y) (Node (tree_merge cmp ?s r2) y l2)" by (rule set_children_ok [OF 1(2)])
    moreover have "agree h ?h (- (set_tree ?s \<union> set_tree ?t))"
      using 1(2,3) heap_at_root [of h1 _ "tree_merge cmp ?s r2"] by (cases c) (auto simp: agree_def)
    moreover have "sk_parent ?h y = sk_parent h y"
      using 1(2,3) l2(2) heap_at_root [of h1 _ "tree_merge cmp ?s r2"] by (cases c) (auto simp: agree_def)
    ultimately show ?thesis using run False by auto
  qed
qed

text \<open>\<open>queue_at h a t\<close>: a heap whose root has no parent.\<close>

definition queue_at :: "'a skew \<Rightarrow> 'a option \<Rightarrow> 'a tree \<Rightarrow> bool" where
  "queue_at h a t \<longleftrightarrow> heap_at h a t \<and> parent_is h a None \<and> distinct_tree t"

lemma merge_root: "heap_at h' c (tree_merge cmp s t) \<Longrightarrow> heap_at h a s \<Longrightarrow> heap_at h b t \<Longrightarrow> c = a \<or> c = b"
  by (cases s; cases t) (auto split: if_splits)

lemma insert_ok:
  assumes "queue_at h a t" and "b \<notin> set_tree t"
  shows "\<exists>h' c. skew_heap_insert cmp a b h = Some (h', c) \<and> queue_at h' c (tree_merge cmp t (Node Leaf b Leaf))"
proof -
  let ?h = "skew_heap_init b h" let ?b = "Node Leaf b Leaf"
  have i: "sk_parent ?h = (sk_parent h)(b := None)" "sk_left ?h = (sk_left h)(b := None)" "sk_right ?h = (sk_right h)(b := None)"
    by (simp_all add: skew_heap_init_def Let_def)
  have "agree h ?h (set_tree t)" using assms(2) by (auto simp: agree_def i)
  then have at: "heap_at ?h a t" "heap_at ?h (Some b) ?b"
    using assms(1) heap_at_cong by (auto simp: queue_at_def i)
  have d: "distinct_tree t" "distinct_tree ?b" "set_tree t \<inter> set_tree ?b = {}" using assms by (auto simp: queue_at_def)
  obtain h' c where 1: "skew_heap_merge cmp a (Some b) ?h = Some (h', c)"
    "heap_at h' c (tree_merge cmp t ?b)" "\<forall>z. c = Some z \<longrightarrow> sk_parent h' z = sk_parent ?h z"
    using merge_ok [OF at d] by blast
  have "c = a \<or> c = Some b" by (rule merge_root [OF 1(2) at])
  then have "parent_is h' c None" using 1(3) assms(1) by (auto simp: parent_is_def queue_at_def i)
  then show ?thesis using 1(1,2) d by (auto simp: skew_heap_insert_def queue_at_def)
qed

text \<open>Taking out the entry \<open>b\<close>: \<open>h\<close> with \<open>rep\<close> in the place of \<open>b\<close> below its parent \<open>q\<close>.\<close>

lemma heap_at_parent:
  "heap_at h a t \<Longrightarrow> distinct_tree t \<Longrightarrow> b \<in> set_tree t \<Longrightarrow> a \<noteq> Some b \<Longrightarrow>
     \<exists>q\<in>set_tree t. sk_parent h b = Some q \<and> (sk_left h q = Some b \<or> sk_right h q = Some b)"
proof (induction t arbitrary: a)
  case (Node l x r)
  show ?case
  proof (cases "b \<in> set_tree l")
    case True
    then show ?thesis using Node.IH(1) [of "sk_left h x"] Node.prems by (cases "sk_left h x = Some b") auto
  next
    case False
    then have "b \<in> set_tree r" using Node.prems by auto
    then show ?thesis using Node.IH(2) [of "sk_right h x"] Node.prems by (cases "sk_right h x = Some b") auto
  qed
qed simp

lemma subtree_at:
  "heap_at h a t \<Longrightarrow> b \<in> set_tree t \<Longrightarrow> distinct_tree t \<Longrightarrow>
     \<exists>l r. heap_at h (Some b) (Node l b r) \<and> set_tree (Node l b r) \<subseteq> set_tree t \<and> distinct_tree (Node l b r)"
proof (induction t arbitrary: a)
  case (Node l x r)
  consider "b = x" | "b \<in> set_tree l" | "b \<in> set_tree r" using Node.prems by auto
  then show ?case
  proof cases
    case 1
    then show ?thesis using Node.prems by (intro exI [of _ l] exI [of _ r]) simp
  next
    case 2
    then show ?thesis using Node.IH(1) [of "sk_left h x"] Node.prems by fastforce
  next
    case 3
    then show ?thesis using Node.IH(2) [of "sk_right h x"] Node.prems by fastforce
  qed
qed simp

lemma child_in:
  "heap_at h c u \<Longrightarrow> p \<in> set_tree u \<Longrightarrow> sk_left h p = Some b \<or> sk_right h p = Some b \<Longrightarrow> b \<in> set_tree u"
proof (induction u arbitrary: c)
  case (Node l x r)
  show ?case
  proof (cases "p = x")
    case True
    then show ?thesis using Node.prems heap_at_root by fastforce
  next
    case False
    then show ?thesis using Node.prems Node.IH by auto
  qed
qed simp

lemma heap_at_unique: "heap_at h a t \<Longrightarrow> heap_at h a t' \<Longrightarrow> t = t'"
proof (induction t arbitrary: a t')
  case (Node l x r)
  then show ?case by (cases t') auto
qed simp

lemma subtree_below:
  assumes "heap_at h a t" "b \<in> set_tree t" "distinct_tree t" and "heap_at h (Some b) (Node l b r)"
  shows "set_tree (Node l b r) \<subseteq> set_tree t" and "distinct_tree (Node l b r)"
    and "a = Some z \<Longrightarrow> z \<noteq> b \<Longrightarrow> z \<notin> set_tree (Node l b r)"
proof -
  obtain l' r' where 1: "heap_at h (Some b) (Node l' b r')" "set_tree (Node l' b r') \<subseteq> set_tree t"
    "distinct_tree (Node l' b r')" using subtree_at [OF assms(1-3)] by blast
  have e: "Node l' b r' = Node l b r" using heap_at_unique [OF 1(1) assms(4)] .
  show "set_tree (Node l b r) \<subseteq> set_tree t" "distinct_tree (Node l b r)" using 1(2,3) e by simp_all
  show "z \<notin> set_tree (Node l b r)" if za: "a = Some z" "z \<noteq> b"
  proof -
    obtain v w where t: "t = Node v z w" "heap_at h (sk_left h z) v" "heap_at h (sk_right h z) w"
      using assms(1) za(1) by (cases t) auto
    then have "b \<in> set_tree v \<or> b \<in> set_tree w" using assms(2) za(2) by auto
    then have "\<exists>l' r'. heap_at h (Some b) (Node l' b r') \<and> set_tree (Node l' b r') \<subseteq> set_tree v \<union> set_tree w"
    proof
      assume "b \<in> set_tree v"
      moreover have "distinct_tree v" using assms(3) t(1) by simp
      ultimately show ?thesis using subtree_at [OF t(2)] by blast
    next
      assume "b \<in> set_tree w"
      moreover have "distinct_tree w" using assms(3) t(1) by simp
      ultimately show ?thesis using subtree_at [OF t(3)] by blast
    qed
    then have "set_tree (Node l b r) \<subseteq> set_tree v \<union> set_tree w" using heap_at_unique assms(4) by metis
    then show ?thesis using assms(3) t(1) by auto
  qed
qed

text \<open>\<open>h3\<close> is \<open>h\<close> with the tree below \<open>b\<close> rebuilt under \<open>rep\<close> and linked to the parent of \<open>b\<close>.\<close>

lemma replace_ok:
  assumes b: "heap_at h (Some b) (Node l b r)" "sk_parent h b = Some q"
    and rep: "heap_at h3 rep (tree_merge cmp l r)" "parent_is h3 rep (Some q)"
    and out: "\<forall>u. u \<notin> set_tree l \<union> set_tree r \<longrightarrow> sk_parent h3 u = sk_parent h u \<and>
      sk_left h3 u = (if u = q \<and> sk_left h q = Some b then rep else sk_left h u) \<and>
      sk_right h3 u = (if u = q \<and> sk_left h q \<noteq> Some b then rep else sk_right h u)"
  shows "heap_at h a t \<Longrightarrow> distinct_tree t \<Longrightarrow> b \<in> set_tree t \<Longrightarrow> a \<noteq> Some b \<Longrightarrow> heap_at h3 a (tree_remove cmp b t)"
proof (induction t arbitrary: a)
  case (Node v x w)
  let ?S = "set_tree l \<union> set_tree r"
  have a: "a = Some x" "x \<noteq> b" "heap_at h (sk_left h x) v" "heap_at h (sk_right h x) w"
    "parent_is h (sk_left h x) (Some x)" "parent_is h (sk_right h x) (Some x)" using Node.prems by auto
  have d: "distinct_tree v" "distinct_tree w" "x \<notin> set_tree v" "x \<notin> set_tree w" "set_tree v \<inter> set_tree w = {}"
    using Node.prems(2) by auto
  have xS: "x \<notin> ?S" using subtree_below(3) [OF Node.prems(1,3,2) b(1) a(1,2)] by simp
  have far: "heap_at h3 c u \<and> parent_is h3 c (Some x)"
    if "heap_at h c u" "parent_is h c (Some x)" "set_tree u \<inter> ?S = {}" "q \<notin> set_tree u" for c u
  proof
    have "agree h h3 (set_tree u)" using out that(3,4) by (auto simp: agree_def)
    then show "heap_at h3 c u" by (rule heap_at_cong [OF that(1)])
    show "parent_is h3 c (Some x)" using that out heap_at_root by (fastforce simp: parent_is_def)
  qed
  have near: "parent_is h3 c (Some x)" if "heap_at h c u" "parent_is h c (Some x)" "b \<in> set_tree u" "distinct_tree u" "c \<noteq> Some b" for c u
    using that subtree_below(3) [OF that(1,3,4) b(1)] out by (auto simp: parent_is_def)
  show ?case
  proof (cases "b \<in> set_tree v")
    case True
    have S: "?S \<subseteq> set_tree v" using subtree_below(1) [OF a(3) True d(1) b(1)] by auto
    show ?thesis
    proof (cases "sk_left h x = Some b")
      case l: True
      have q: "q = x" using a(5) l b(2) by simp
      have v: "v = Node l b r" using heap_at_unique [OF a(3)] l b(1) by simp
      have "sk_left h3 x = rep" "sk_right h3 x = sk_right h x" using out xS q l by simp_all
      moreover have "heap_at h3 (sk_right h x) w \<and> parent_is h3 (sk_right h x) (Some x)"
        by (rule far [OF a(4,6)]) (use S d q in auto)
      ultimately show ?thesis using a(1,2) rep q v True by simp
    next
      case l: False
      obtain q' where "q' \<in> set_tree v" "sk_parent h b = Some q'" using heap_at_parent [OF a(3) d(1) True l] by blast
      then have q: "q \<in> set_tree v" using b(2) by simp
      have "x \<noteq> q" using q d by auto
      then have "sk_left h3 x = sk_left h x" "sk_right h3 x = sk_right h x" using out xS by simp_all
      moreover have "heap_at h3 (sk_right h x) w \<and> parent_is h3 (sk_right h x) (Some x)"
        by (rule far [OF a(4,6)]) (use S d q in auto)
      moreover have "heap_at h3 (sk_left h x) (tree_remove cmp b v)" by (rule Node.IH(1) [OF a(3) d(1) True l])
      moreover have "parent_is h3 (sk_left h x) (Some x)" by (rule near [OF a(3,5) True d(1) l])
      ultimately show ?thesis using a(1,2) True by simp
    qed
  next
    case nv: False
    then have True: "b \<in> set_tree w" using Node.prems(3) a(2) by auto
    have S: "?S \<subseteq> set_tree w" using subtree_below(1) [OF a(4) True d(2) b(1)] by auto
    have ll: "sk_left h x \<noteq> Some b" using nv a(3) heap_at_root by fastforce
    show ?thesis
    proof (cases "sk_right h x = Some b")
      case l: True
      have q: "q = x" using a(6) l b(2) by simp
      have w: "w = Node l b r" using heap_at_unique [OF a(4)] l b(1) by simp
      have "sk_right h3 x = rep" "sk_left h3 x = sk_left h x" using out xS q ll by simp_all
      moreover have "heap_at h3 (sk_left h x) v \<and> parent_is h3 (sk_left h x) (Some x)"
        by (rule far [OF a(3,5)]) (use S d q in auto)
      ultimately show ?thesis using a(1,2) rep q w nv by simp
    next
      case l: False
      obtain q' where "q' \<in> set_tree w" "sk_parent h b = Some q'" using heap_at_parent [OF a(4) d(2) True l] by blast
      then have q: "q \<in> set_tree w" using b(2) by simp
      have "x \<noteq> q" using q d by auto
      then have "sk_left h3 x = sk_left h x" "sk_right h3 x = sk_right h x" using out xS by simp_all
      moreover have "heap_at h3 (sk_left h x) v \<and> parent_is h3 (sk_left h x) (Some x)"
        by (rule far [OF a(3,5)]) (use S d q in auto)
      moreover have "heap_at h3 (sk_right h x) (tree_remove cmp b w)" by (rule Node.IH(2) [OF a(4) d(2) True l])
      moreover have "parent_is h3 (sk_right h x) (Some x)" by (rule near [OF a(4,6) True d(2) l])
      ultimately show ?thesis using a(1,2) nv by simp
    qed
  qed
qed simp

lemma remove_ok:
  assumes q: "queue_at h a t" and bt: "b \<in> set_tree t"
  shows "\<exists>h' c. skew_heap_remove cmp a b h = Some (h', c) \<and> queue_at h' c (tree_remove cmp b t)"
proof -
  have t: "heap_at h a t" "parent_is h a None" "distinct_tree t" using q by (simp_all add: queue_at_def)
  obtain l r where b: "heap_at h (Some b) (Node l b r)" "distinct_tree (Node l b r)"
    using subtree_at [OF t(1) bt t(3)] by blast
  have lr: "heap_at h (sk_left h b) l" "heap_at h (sk_right h b) r" "distinct_tree l" "distinct_tree r"
    "set_tree l \<inter> set_tree r = {}" using b by auto
  obtain h1 rep where 1: "skew_heap_merge cmp (sk_left h b) (sk_right h b) h = Some (h1, rep)"
    "heap_at h1 rep (tree_merge cmp l r)" "agree h h1 (- (set_tree l \<union> set_tree r))"
    using merge_ok [OF lr] by blast
  have dm: "distinct_tree (tree_merge cmp l r)" using lr by simp
  have rS: "z \<in> set_tree l \<union> set_tree r" if "rep = Some z" for z using 1(2) that heap_at_root by fastforce
  let ?h2 = "case rep of None \<Rightarrow> h1 | Some z \<Rightarrow> h1\<lparr>sk_parent := (sk_parent h1)(z := sk_parent h b)\<rparr>"
  have lr2: "sk_left ?h2 = sk_left h1" "sk_right ?h2 = sk_right h1" by (simp_all split: option.split)
  have p2: "parent_is ?h2 rep (sk_parent h b)" by (cases rep) simp_all
  have p2': "sk_parent ?h2 u = sk_parent h1 u" if "rep \<noteq> Some u" for u using that by (cases rep) auto
  have at2: "heap_at h' rep (tree_merge cmp l r)"
    if "\<forall>u\<in>set_tree l \<union> set_tree r. sk_left h' u = sk_left h1 u \<and> sk_right h' u = sk_right h1 u \<and> sk_parent h' u = sk_parent ?h2 u" for h'
  proof (cases "tree_merge cmp l r")
    case (Node v z w)
    have z: "rep = Some z" "heap_at h1 (sk_left h1 z) v" "heap_at h1 (sk_right h1 z) w"
      "parent_is h1 (sk_left h1 z) (Some z)" "parent_is h1 (sk_right h1 z) (Some z)" using 1(2) Node by auto
    have S: "set_tree l \<union> set_tree r = set_tree v \<union> {z} \<union> set_tree w"
      using arg_cong [OF Node, of set_tree] by auto
    have dz: "z \<notin> set_tree v" "z \<notin> set_tree w" using dm Node by auto
    have "agree h1 h' (set_tree v)" "agree h1 h' (set_tree w)" using that S dz p2' z(1) by (auto simp: agree_def)
    then have "heap_at h' (sk_left h1 z) v" "heap_at h' (sk_right h1 z) w"
      "parent_is h' (sk_left h1 z) (Some z)" "parent_is h' (sk_right h1 z) (Some z)"
      using z heap_at_cong heap_at_root by (blast, blast, fastforce simp: parent_is_def agree_def, fastforce simp: parent_is_def agree_def)
    then show ?thesis using Node z(1) that S by simp
  qed (use 1(2) in simp)
  show ?thesis
  proof (cases "a = Some b")
    case True
    have tt: "t = Node l b r" using heap_at_unique [OF t(1)] b(1) True by simp
    have pb: "sk_parent h b = None" using t(2) True by simp
    have "skew_heap_remove cmp a b h = Some (?h2, rep)"
      using 1(1) pb by (cases rep) (simp_all add: skew_heap_remove_def Let_def)
    moreover have "heap_at ?h2 rep (tree_merge cmp l r)" by (rule at2) (simp add: lr2)
    ultimately show ?thesis using tt p2 pb dm by (auto simp: queue_at_def)
  next
    case False
    obtain p where p: "p \<in> set_tree t" "sk_parent h b = Some p" "sk_left h p = Some b \<or> sk_right h p = Some b"
      using heap_at_parent [OF t(1,3) bt False] by blast
    have pS: "p \<notin> set_tree l \<union> set_tree r"
      using child_in [OF lr(1) _ p(3)] child_in [OF lr(2) _ p(3)] b(2) by auto
    let ?h3 = "if sk_left ?h2 p = Some b then ?h2\<lparr>sk_left := (sk_left ?h2)(p := rep)\<rparr>
      else ?h2\<lparr>sk_right := (sk_right ?h2)(p := rep)\<rparr>"
    have run: "skew_heap_remove cmp a b h = Some (?h3, a)"
      using 1(1) p(2) by (cases rep) (simp_all add: skew_heap_remove_def Let_def)
    have out: "sk_left h1 u = sk_left h u" "sk_right h1 u = sk_right h u" "sk_parent ?h2 u = sk_parent h u"
      if u: "u \<notin> set_tree l \<union> set_tree r" for u
    proof -
      have "rep \<noteq> Some u" using rS u by auto
      then show "sk_left h1 u = sk_left h u" "sk_right h1 u = sk_right h u" "sk_parent ?h2 u = sk_parent h u"
        using 1(3) u p2' by (simp_all add: agree_def)
    qed
    have par3: "sk_parent ?h3 = sk_parent ?h2" by simp
    have "heap_at ?h3 rep (tree_merge cmp l r)" by (rule at2) (use pS lr2 in auto)
    moreover have "parent_is ?h3 rep (Some p)" using p2 p(2) par3 by (simp add: parent_is_def)
    moreover have "\<forall>u. u \<notin> set_tree l \<union> set_tree r \<longrightarrow> sk_parent ?h3 u = sk_parent h u \<and>
        sk_left ?h3 u = (if u = p \<and> sk_left h p = Some b then rep else sk_left h u) \<and>
        sk_right ?h3 u = (if u = p \<and> sk_left h p \<noteq> Some b then rep else sk_right h u)"
      using out pS lr2 par3 by simp
    ultimately have "heap_at ?h3 a (tree_remove cmp b t)"
      by (rule replace_ok [OF b(1) p(2) _ _ _ t(1,3) bt False])
    moreover have "parent_is ?h3 a None"
      unfolding parent_is_def par3
    proof (intro allI impI)
      fix z assume z: "a = Some z"
      then have "z \<notin> set_tree (Node l b r)" using subtree_below(3) [OF t(1) bt t(3) b(1)] False by simp
      then have "sk_parent ?h2 z = sk_parent h z" by (intro out(3)) simp
      then show "sk_parent ?h2 z = None" using t(2) z by (simp only: parent_is_simps)
    qed
    ultimately show ?thesis using run distinct_tree_remove [OF t(3)] by (auto simp: queue_at_def)
  qed
qed

section \<open>Order\<close>

text \<open>What the comparison must satisfy on the entries \<open>S\<close> of a heap.\<close>

locale comparison =
  fixes cmp :: "'a \<Rightarrow> 'a \<Rightarrow> int" and S :: "'a set"
  assumes three: "x \<in> S \<Longrightarrow> y \<in> S \<Longrightarrow> cmp x y \<in> {-1, 0, 1}"
    and antisym: "x \<in> S \<Longrightarrow> y \<in> S \<Longrightarrow> cmp y x = - cmp x y"
    and trans: "x \<in> S \<Longrightarrow> y \<in> S \<Longrightarrow> z \<in> S \<Longrightarrow> cmp x y \<noteq> 1 \<Longrightarrow> cmp y z \<noteq> 1 \<Longrightarrow> cmp x z \<noteq> 1"

fun heap_ordered :: "('a \<Rightarrow> 'a \<Rightarrow> int) \<Rightarrow> 'a tree \<Rightarrow> bool" where
  "heap_ordered cmp Leaf = True"
| "heap_ordered cmp (Node l x r) \<longleftrightarrow> (\<forall>y\<in>set_tree l \<union> set_tree r. cmp x y \<noteq> 1) \<and>
     heap_ordered cmp l \<and> heap_ordered cmp r"

text \<open>
  \<open>pq cmp S h a A\<close>: from \<open>a\<close> hangs a well-formed heap of the entries \<open>A\<close>, in order.
\<close>

definition pq :: "('a \<Rightarrow> 'a \<Rightarrow> int) \<Rightarrow> 'a set \<Rightarrow> 'a skew \<Rightarrow> 'a option \<Rightarrow> 'a set \<Rightarrow> bool" where
  "pq cmp S h a A \<longleftrightarrow> A \<subseteq> S \<and> (\<exists>t. queue_at h a t \<and> heap_ordered cmp t \<and> set_tree t = A)"

context comparison
begin

lemma merge_ordered_aux:
  "c = cmp \<Longrightarrow> set_tree s \<union> set_tree t \<subseteq> S \<Longrightarrow> heap_ordered cmp s \<Longrightarrow> heap_ordered cmp t \<Longrightarrow>
     heap_ordered cmp (tree_merge c s t)"
proof (induction c s t rule: tree_merge.induct)
  case (3 c l1 x r1 l2 y r2)
  have x: "x \<in> S" and y: "y \<in> S" and S: "set_tree l1 \<union> set_tree r1 \<subseteq> S" "set_tree l2 \<union> set_tree r2 \<subseteq> S"
    using 3(4) by auto
  have c: "c = cmp" by (rule 3(3))
  show ?case
  proof (cases "cmp x y = -1")
    case True
    then have "cmp x z \<noteq> 1" if "z \<in> insert y (set_tree l2 \<union> set_tree r2)" for z
      using that trans [OF x y, of z] 3(6) S by auto
    then have "\<forall>z\<in>set_tree (tree_merge cmp r1 (Node l2 y r2)) \<union> set_tree l1. cmp x z \<noteq> 1" using 3(5) by auto
    moreover have "heap_ordered cmp (tree_merge cmp r1 (Node l2 y r2))" using 3(1) True 3(4-6) c by auto
    ultimately show ?thesis using True c 3(5) by simp
  next
    case False
    then have yx: "cmp y x \<noteq> 1" using three [OF x y] antisym [OF x y] by auto
    then have "cmp y z \<noteq> 1" if "z \<in> insert x (set_tree l1 \<union> set_tree r1)" for z
      using that trans [OF y x, of z] 3(5) S by auto
    then have "\<forall>z\<in>set_tree (tree_merge cmp (Node l1 x r1) r2) \<union> set_tree l2. cmp y z \<noteq> 1" using 3(6) by auto
    moreover have "heap_ordered cmp (tree_merge cmp (Node l1 x r1) r2)" using 3(2) False 3(4-6) c by auto
    ultimately show ?thesis using False c 3(6) by simp
  qed
qed simp_all

lemma merge_ordered:
  "set_tree s \<union> set_tree t \<subseteq> S \<Longrightarrow> heap_ordered cmp s \<Longrightarrow> heap_ordered cmp t \<Longrightarrow> heap_ordered cmp (tree_merge cmp s t)"
  by (rule merge_ordered_aux) simp_all

lemma remove_ordered:
  "set_tree t \<subseteq> S \<Longrightarrow> distinct_tree t \<Longrightarrow> heap_ordered cmp t \<Longrightarrow> heap_ordered cmp (tree_remove cmp b t)"
proof (induction t)
  case (Node l x r)
  then show ?case using merge_ordered [of l r] by (auto simp: set_tree_remove)
qed simp

lemma cmp_refl: "x \<in> S \<Longrightarrow> cmp x x = 0"
  using antisym [of x x] by simp

lemma root_least:
  assumes "heap_ordered cmp t" "set_tree t \<subseteq> S" "heap_at h (Some x) t" "y \<in> set_tree t"
  shows "cmp x y \<noteq> 1"
proof (cases t)
  case Leaf
  then show ?thesis using assms by simp
next
  case (Node l z r)
  then show ?thesis using assms cmp_refl [of x] by auto
qed

lemma pq_insert: "pq cmp S h a A \<Longrightarrow> b \<in> S \<Longrightarrow> b \<notin> A \<Longrightarrow>
    \<exists>h' c. skew_heap_insert cmp a b h = Some (h', c) \<and> pq cmp S h' c (insert b A)"
proof -
  assume p: "pq cmp S h a A" and b: "b \<in> S" "b \<notin> A"
  then obtain t where t: "queue_at h a t" "heap_ordered cmp t" "set_tree t = A" "A \<subseteq> S" by (auto simp: pq_def)
  have "b \<notin> set_tree t" using b(2) t(3) by simp
  then obtain h' c where "skew_heap_insert cmp a b h = Some (h', c)" "queue_at h' c (tree_merge cmp t (Node Leaf b Leaf))"
    using insert_ok [OF t(1)] by blast
  moreover have "heap_ordered cmp (tree_merge cmp t (Node Leaf b Leaf))"
    by (rule merge_ordered) (use t b in auto)
  ultimately show ?thesis using t b unfolding pq_def by fastforce
qed

lemma pq_remove: "pq cmp S h a A \<Longrightarrow> b \<in> A \<Longrightarrow>
    \<exists>h' c. skew_heap_remove cmp a b h = Some (h', c) \<and> pq cmp S h' c (A - {b})"
proof -
  assume p: "pq cmp S h a A" and b: "b \<in> A"
  then obtain t where t: "queue_at h a t" "heap_ordered cmp t" "set_tree t = A" "A \<subseteq> S" by (auto simp: pq_def)
  have d: "distinct_tree t" using t(1) by (simp add: queue_at_def)
  obtain h' c where "skew_heap_remove cmp a b h = Some (h', c)" "queue_at h' c (tree_remove cmp b t)"
    using remove_ok [OF t(1)] t(3) b by blast
  moreover have "heap_ordered cmp (tree_remove cmp b t)" by (rule remove_ordered) (use t d in auto)
  moreover have "set_tree (tree_remove cmp b t) = A - {b}" using set_tree_remove [OF d] t(3) by simp
  ultimately show ?thesis using t(4) unfolding pq_def by blast
qed

lemma pq_least: "pq cmp S h a A \<Longrightarrow> (a = None \<longleftrightarrow> A = {}) \<and> (\<forall>x. a = Some x \<longrightarrow> x \<in> A \<and> (\<forall>y\<in>A. cmp x y \<noteq> 1))"
proof -
  assume "pq cmp S h a A"
  then obtain t where t: "heap_at h a t" "heap_ordered cmp t" "set_tree t = A" "A \<subseteq> S" by (auto simp: pq_def queue_at_def)
  have "a = None \<longleftrightarrow> A = {}" using t(1,3) by (cases t) auto
  moreover have "x \<in> A \<and> (\<forall>y\<in>A. cmp x y \<noteq> 1)" if "a = Some x" for x
  proof -
    have x: "heap_at h (Some x) t" using t(1) that by simp
    have "x \<in> A" using heap_at_root [OF x] t(3) by simp
    moreover have "\<forall>y\<in>A. cmp x y \<noteq> 1" using root_least [OF t(2) _ x] t(3,4) by simp
    ultimately show ?thesis by blast
  qed
  ultimately show ?thesis by blast
qed

end

section \<open>Strides\<close>

text \<open>Strides are compared modulo \<open>2 ^ 32\<close>.  \<open>window stride lo\<close>: the processes at most \<open>2 ^ 31 - 1\<close> above \<open>lo\<close>.\<close>

definition window :: "('a \<Rightarrow> 32 word) \<Rightarrow> 32 word \<Rightarrow> 'a set" where
  "window stride lo = {p. uint (stride p - lo) < 2 ^ 31}"

lemma stride_difference:
  assumes "p \<in> window stride lo" and "q \<in> window stride lo"
  shows "sint (stride p - stride q) = uint (stride p - lo) - uint (stride q - lo)"
proof -
  let ?a = "stride p - lo" and ?b = "stride q - lo"
  have "sint (word_of_int (uint ?a - uint ?b) :: 32 word) = signed_take_bit 31 (uint ?a - uint ?b)"
    by (simp only: sint_sbintrunc') simp
  moreover have "(word_of_int (uint ?a - uint ?b) :: 32 word) = stride p - stride q" by simp
  moreover have "signed_take_bit 31 (uint ?a - uint ?b) = uint ?a - uint ?b"
  proof (rule signed_take_bit_int_eq_self)
    have "uint ?a < 2 ^ 31" "uint ?b < 2 ^ 31" using assms by (simp_all only: window_def mem_Collect_eq)
    moreover have "0 \<le> uint ?a" "0 \<le> uint ?b" by simp_all
    ultimately show "- (2 ^ 31) \<le> uint ?a - uint ?b" "uint ?a - uint ?b < 2 ^ 31" by linarith+
  qed
  ultimately show ?thesis by simp
qed

lemma stride_comp_window:
  "p \<in> window stride lo \<Longrightarrow> q \<in> window stride lo \<Longrightarrow>
     proc_stride_comp_f stride p q = sgn (uint (stride p - lo) - uint (stride q - lo))"
  by (simp add: proc_stride_comp_f_def stride_difference Let_def sgn_if)

interpretation stride: comparison "proc_stride_comp_f stride" "window stride lo" for stride :: "'a \<Rightarrow> 32 word" and lo
  by unfold_locales (auto simp: stride_comp_window sgn_if split: if_splits)

section \<open>Properties\<close>

text \<open>\<open>skew_heap_merge\<close> refines the merge of trees: on two heaps that share no entry it returns,
  the root it returns carries the merged tree with correct parent pointers, no entry outside
  the two heaps is written, and the parent of the new root is what it was.\<close>

theorem skew_merge_refines:
  assumes "heap_at h a s" and "heap_at h b t" and "distinct_tree s" and "distinct_tree t"
    and "set_tree s \<inter> set_tree t = {}"
  shows "\<exists>h' c. skew_heap_merge cmp a b h = Some (h', c) \<and> heap_at h' c (tree_merge cmp s t) \<and>
    agree h h' (- (set_tree s \<union> set_tree t)) \<and> (\<forall>z. c = Some z \<longrightarrow> sk_parent h' z = sk_parent h z)"
  by (rule merge_ok [OF assms])

text \<open>C31.
  The stride queue is a priority queue while all strides lie in a window of half the range of
  \<open>uint32_t\<close>: \<open>skew_heap_insert\<close> of an entry that is not queued and \<open>skew_heap_remove\<close> of one
  that is (not only of the root) return a well-formed, ordered heap of exactly the expected
  entries, with parent pointers that allow the next removal.\<close>

theorem stride_queue_operations:
  assumes q: "pq (proc_stride_comp_f stride) (window stride lo) h a A"
  shows "(\<forall>b. b \<in> window stride lo \<and> b \<notin> A \<longrightarrow>
      (\<exists>h' c. skew_heap_insert (proc_stride_comp_f stride) a b h = Some (h', c) \<and>
        pq (proc_stride_comp_f stride) (window stride lo) h' c (insert b A))) \<and>
    (\<forall>b\<in>A. \<exists>h' c. skew_heap_remove (proc_stride_comp_f stride) a b h = Some (h', c) \<and>
        pq (proc_stride_comp_f stride) (window stride lo) h' c (A - {b}))"
  using stride.pq_insert [OF q] stride.pq_remove [OF q] by blast

text \<open>
  The root of the stride queue has the least stride, counted from the bottom of the window,
  so across the wrap-around of \<open>uint32_t\<close>; two strides a half range apart are each below the
  other, and three strides a third of the range apart are in a cycle.\<close>

theorem stride_root_least:
  "(pq (proc_stride_comp_f stride) (window stride lo) h (Some x) A \<longrightarrow>
      x \<in> A \<and> (\<forall>y\<in>A. uint (stride x - lo) \<le> uint (stride y - lo))) \<and>
   (stride y = stride x + 0x80000000 \<longrightarrow>
      proc_stride_comp_f stride x y = -1 \<and> proc_stride_comp_f stride y x = -1) \<and>
   (stride y = stride x + 0x55555555 \<and> stride z = stride y + 0x55555555 \<longrightarrow>
      proc_stride_comp_f stride x y = -1 \<and> proc_stride_comp_f stride y z = -1 \<and> proc_stride_comp_f stride z x = -1)"
  (is "?least \<and> ?half \<and> ?cycle")
proof (intro conjI)
  show ?least
  proof
    assume q: "pq (proc_stride_comp_f stride) (window stride lo) h (Some x) A"
    then have "x \<in> A" and le: "\<forall>y\<in>A. proc_stride_comp_f stride x y \<noteq> 1" and A: "A \<subseteq> window stride lo"
      using stride.pq_least [OF q] by (auto simp: pq_def)
    moreover have "uint (stride x - lo) \<le> uint (stride y - lo)" if "y \<in> A" for y
    proof -
      have w: "x \<in> window stride lo" "y \<in> window stride lo" using A \<open>x \<in> A\<close> that by blast+
      have "proc_stride_comp_f stride x y \<noteq> 1" using le that by blast
      then show ?thesis using stride_comp_window [OF w] by (simp add: sgn_if split: if_splits)
    qed
    ultimately show "x \<in> A \<and> (\<forall>y\<in>A. uint (stride x - lo) \<le> uint (stride y - lo))" by blast
  qed
  show ?half by (auto simp: proc_stride_comp_f_def Let_def)
  show ?cycle by (auto simp: proc_stride_comp_f_def Let_def)
qed

text \<open>
  An instance: entry 1 with stride \<open>2 ^ 32 - 6\<close> above entry 2 with stride 3, beside the single
  entry 3 with stride 0.
\<close>

definition sample_heap :: "nat skew" where
  "sample_heap = \<lparr>sk_parent = (\<lambda>_. None)(2 := Some 1), sk_left = (\<lambda>_. None)(1 := Some 2), sk_right = \<lambda>_. None\<rparr>"

definition sample_stride :: "nat \<Rightarrow> 32 word" where
  "sample_stride = (\<lambda>_. 0)(1 := 4294967290, 2 := 3)"

theorem skew_merge_refines_witness:
  "\<exists>h' c. skew_heap_merge (proc_stride_comp_f sample_stride) (Some 1) (Some 3) sample_heap = Some (h', c) \<and>
    heap_at h' c (Node (Node Leaf 3 Leaf) 1 (Node Leaf 2 Leaf))"
proof -
  have "tree_merge (proc_stride_comp_f sample_stride) (Node (Node Leaf 2 Leaf) 1 Leaf) (Node Leaf 3 Leaf) =
      Node (Node Leaf 3 Leaf) 1 (Node Leaf 2 Leaf)"
    by (simp add: proc_stride_comp_f_def sample_stride_def)
  then show ?thesis
    using skew_merge_refines [of sample_heap "Some 1" "Node (Node Leaf 2 Leaf) 1 Leaf" "Some 3" "Node Leaf 3 Leaf"
        "proc_stride_comp_f sample_stride"] by (auto simp: sample_heap_def)
qed

lemma sample_pq:
  "pq (proc_stride_comp_f sample_stride) (window sample_stride 4294967290) sample_heap (Some 1) {1, 2}"
  unfolding pq_def queue_at_def
  by (intro conjI exI [of _ "Node (Node Leaf 2 Leaf) 1 Leaf"])
    (auto simp: window_def sample_heap_def sample_stride_def proc_stride_comp_f_def)

theorem stride_queue_operations_witness:
  "(\<exists>h' c. skew_heap_insert (proc_stride_comp_f sample_stride) (Some 1) 3 sample_heap = Some (h', c) \<and>
      pq (proc_stride_comp_f sample_stride) (window sample_stride 4294967290) h' c {1, 2, 3}) \<and>
   (\<exists>h' c. skew_heap_remove (proc_stride_comp_f sample_stride) (Some 1) 1 sample_heap = Some (h', c) \<and>
      pq (proc_stride_comp_f sample_stride) (window sample_stride 4294967290) h' c {2})"
proof -
  have "3 \<in> window sample_stride 4294967290" by (simp add: window_def sample_stride_def)
  moreover have "insert 3 {1, 2} = {1, 2, 3 :: nat}" "{1, 2} - {1} = {2 :: nat}" by auto
  ultimately show ?thesis
    using stride_queue_operations [OF sample_pq] by (metis insert_iff numeral_eq_iff one_eq_numeral_iff semiring_norm(85,86,87,88) singletonD)
qed

theorem stride_root_least_witness:
  "uint (sample_stride 1 - 4294967290) \<le> uint (sample_stride 2 - 4294967290) \<and>
   proc_stride_comp_f (\<lambda>p :: nat. word_of_nat p) 0 0x80000000 = -1 \<and>
   proc_stride_comp_f (\<lambda>p :: nat. word_of_nat p) 0x80000000 0 = -1 \<and>
   proc_stride_comp_f (\<lambda>p :: nat. word_of_nat p) 0xAAAAAAAA 0 = -1"
proof -
  have "proc_stride_comp_f (\<lambda>p :: nat. word_of_nat p) 0 0x80000000 = -1 \<and>
    proc_stride_comp_f (\<lambda>p :: nat. word_of_nat p) 0x80000000 0 = -1"
    using stride_root_least [where stride = "\<lambda>p :: nat. word_of_nat p" and x = 0 and y = "0x80000000"] by simp
  moreover have "proc_stride_comp_f (\<lambda>p :: nat. word_of_nat p) 0xAAAAAAAA 0 = -1"
    using stride_root_least [where stride = "\<lambda>p :: nat. word_of_nat p" and x = 0 and y = "0x55555555" and z = "0xAAAAAAAA"] by simp
  moreover have "\<forall>y\<in>{1, 2}. uint (sample_stride 1 - 4294967290) \<le> uint (sample_stride y - 4294967290)"
    using stride_root_least [where stride = sample_stride and lo = 4294967290 and h = sample_heap and x = 1 and A = "{1, 2}"]
      sample_pq by blast
  ultimately show ?thesis by simp
qed

end
