(* ===== verification/Strings.thy ===== *)
theory Strings
  imports Kernel_Prelude "HOL-Library.List_Lexorder"
begin

text \<open>
  The string functions of \<open>libs/string.c\<close>.  A \<open>char\<close> is an unsigned byte (as it is on RISC-V), a
  pointer the number of a byte, memory a function; a loop that runs along a string without end
  is \<open>None\<close>.  The generic C bodies are modelled, the build defines none of the
  \<open>__HAVE_ARCH_*\<close> alternatives.  \<open>cstr m p cs\<close> says that the string \<open>cs\<close> starts at \<open>p\<close>.
\<close>

section \<open>The functions\<close>

type_synonym mem = "nat \<Rightarrow> 8 word"

partial_function (option) strlen_loop :: "mem \<Rightarrow> nat \<Rightarrow> nat \<Rightarrow> nat option" where
  "strlen_loop m s cnt = (if m s \<noteq> 0 then strlen_loop m (s + 1) (cnt + 1) else Some cnt)"

definition strlen :: "mem \<Rightarrow> nat \<Rightarrow> nat option" where
  "strlen m s = strlen_loop m s 0"

function strnlen_loop :: "mem \<Rightarrow> nat \<Rightarrow> nat \<Rightarrow> nat \<Rightarrow> nat" where
  "strnlen_loop m s len cnt = (if cnt < len \<and> m s \<noteq> 0 then strnlen_loop m (s + 1) len (cnt + 1) else cnt)"
  by pat_completeness auto
termination by (relation "measure (\<lambda>(m, s, len, cnt). len - cnt)") auto

declare strnlen_loop.simps [simp del]

definition strnlen :: "mem \<Rightarrow> nat \<Rightarrow> nat \<Rightarrow> nat" where
  "strnlen m s len = strnlen_loop m s len 0"

partial_function (option) strcpy_loop :: "nat \<Rightarrow> nat \<Rightarrow> mem \<Rightarrow> mem option" where
  "strcpy_loop p src m =
    (let m = m(p := m src) in if m p \<noteq> 0 then strcpy_loop (p + 1) (src + 1) m else Some m)"

definition strcpy :: "nat \<Rightarrow> nat \<Rightarrow> mem \<Rightarrow> (mem \<times> nat) option" where
  "strcpy dst src m = do { m \<leftarrow> strcpy_loop dst src m; Some (m, dst) }"

fun strncpy_loop :: "nat \<Rightarrow> nat \<Rightarrow> nat \<Rightarrow> mem \<Rightarrow> mem" where
  "strncpy_loop p src 0 m = m"
| "strncpy_loop p src (Suc len) m =
    (let m = m(p := m src); src = (if m p \<noteq> 0 then src + 1 else src) in strncpy_loop (p + 1) src len m)"

definition strncpy :: "nat \<Rightarrow> nat \<Rightarrow> nat \<Rightarrow> mem \<Rightarrow> mem \<times> nat" where
  "strncpy dst src len m = (strncpy_loop dst src len m, dst)"

text \<open>\<open>strcat\<close> returns what \<open>strcpy\<close> returns: the address of the appended part.\<close>

definition strcat :: "nat \<Rightarrow> nat \<Rightarrow> mem \<Rightarrow> (mem \<times> nat) option" where
  "strcat dst src m = do { n \<leftarrow> strlen m dst; strcpy (dst + n) src m }"

definition byte_diff :: "mem \<Rightarrow> nat \<Rightarrow> nat \<Rightarrow> int" where
  "byte_diff m s1 s2 = uint (m s1) - uint (m s2)"

partial_function (option) strcmp :: "mem \<Rightarrow> nat \<Rightarrow> nat \<Rightarrow> int option" where
  "strcmp m s1 s2 =
    (if m s1 \<noteq> 0 \<and> m s1 = m s2 then strcmp m (s1 + 1) (s2 + 1) else Some (byte_diff m s1 s2))"

fun strncmp :: "mem \<Rightarrow> nat \<Rightarrow> nat \<Rightarrow> nat \<Rightarrow> int" where
  "strncmp m s1 s2 0 = 0"
| "strncmp m s1 s2 (Suc n) =
    (if m s1 \<noteq> 0 \<and> m s1 = m s2 then strncmp m (s1 + 1) (s2 + 1) n else byte_diff m s1 s2)"

partial_function (option) strchr :: "mem \<Rightarrow> nat \<Rightarrow> 8 word \<Rightarrow> nat option option" where
  "strchr m s c = (if m s \<noteq> 0 then if m s = c then Some (Some s) else strchr m (s + 1) c else Some None)"

partial_function (option) strfind :: "mem \<Rightarrow> nat \<Rightarrow> 8 word \<Rightarrow> nat option" where
  "strfind m s c = (if m s \<noteq> 0 then if m s = c then Some s else strfind m (s + 1) c else Some s)"

fun memset :: "nat \<Rightarrow> 8 word \<Rightarrow> nat \<Rightarrow> mem \<Rightarrow> mem" where
  "memset p c 0 m = m"
| "memset p c (Suc n) m = memset (p + 1) c n (m(p := c))"

fun copy_up :: "nat \<Rightarrow> nat \<Rightarrow> nat \<Rightarrow> mem \<Rightarrow> mem" where
  "copy_up d s 0 m = m"
| "copy_up d s (Suc n) m = copy_up (d + 1) (s + 1) n (m(d := m s))"

fun copy_down :: "nat \<Rightarrow> nat \<Rightarrow> nat \<Rightarrow> mem \<Rightarrow> mem" where
  "copy_down d s 0 m = m"
| "copy_down d s (Suc n) m = (let d = d - 1; s = s - 1 in copy_down d s n (m(d := m s)))"

definition memmove :: "nat \<Rightarrow> nat \<Rightarrow> nat \<Rightarrow> mem \<Rightarrow> mem" where
  "memmove dst src n m =
    (if src < dst \<and> src + n > dst then copy_down (dst + n) (src + n) n m else copy_up dst src n m)"

definition memcpy :: "nat \<Rightarrow> nat \<Rightarrow> nat \<Rightarrow> mem \<Rightarrow> mem" where
  "memcpy dst src n m = copy_up dst src n m"

fun memcmp :: "mem \<Rightarrow> nat \<Rightarrow> nat \<Rightarrow> nat \<Rightarrow> int" where
  "memcmp m s1 s2 0 = 0"
| "memcmp m s1 s2 (Suc n) = (if m s1 \<noteq> m s2 then byte_diff m s1 s2 else memcmp m (s1 + 1) (s2 + 1) n)"

text \<open>\<open>strtol\<close>: \<open>val\<close> is a \<open>long\<close>, 64 bits that wrap around; the result has the end pointer.\<close>

definition digit_of :: "8 word \<Rightarrow> int option" where
  "digit_of c =
    (let c = uint c
     in if 48 \<le> c \<and> c \<le> 57 then Some (c - 48)
        else if 97 \<le> c \<and> c \<le> 122 then Some (c - 97 + 10)
        else if 65 \<le> c \<and> c \<le> 90 then Some (c - 65 + 10) else None)"

partial_function (option) skip_blanks :: "mem \<Rightarrow> nat \<Rightarrow> nat option" where
  "skip_blanks m s = (if m s = 32 \<or> m s = 9 then skip_blanks m (s + 1) else Some s)"

partial_function (option) digits_loop :: "mem \<Rightarrow> int \<Rightarrow> nat \<Rightarrow> 64 word \<Rightarrow> (64 word \<times> nat) option" where
  "digits_loop m base s val =
    (case digit_of (m s) of
       None \<Rightarrow> Some (val, s)
     | Some dig \<Rightarrow>
         if base \<le> dig then Some (val, s)
         else digits_loop m base (s + 1) (val * word_of_int base + word_of_int dig))"

definition strtol :: "mem \<Rightarrow> nat \<Rightarrow> int \<Rightarrow> (64 word \<times> nat) option" where
  "strtol m s base = do {
     s \<leftarrow> skip_blanks m s;
     let (s, neg) = (if m s = 43 then (s + 1, False) else if m s = 45 then (s + 1, True) else (s, False));
     let (s, base) =
       (if (base = 0 \<or> base = 16) \<and> m s = 48 \<and> m (s + 1) = 120 then (s + 2, 16)
        else if base = 0 \<and> m s = 48 then (s + 1, 8)
        else if base = 0 then (s, 10) else (s, base));
     (val, s) \<leftarrow> digits_loop m base s 0;
     Some (if neg then - val else val, s) }"

section \<open>Bytes and strings in memory\<close>

definition bytes :: "mem \<Rightarrow> nat \<Rightarrow> nat \<Rightarrow> 8 word list" where
  "bytes m p n = map (\<lambda>i. m (p + i)) [0..<n]"

lemma length_bytes [simp]: "length (bytes m p n) = n"
  by (simp add: bytes_def)

lemma nth_bytes [simp]: "i < n \<Longrightarrow> bytes m p n ! i = m (p + i)"
  by (simp add: bytes_def)

lemma bytes_0 [simp]: "bytes m p 0 = []"
  by (simp add: bytes_def)

lemma bytes_Suc: "bytes m p (Suc n) = m p # bytes m (Suc p) n"
proof -
  have "[0..<Suc n] = 0 # map Suc [0..<n]" by (simp only: map_Suc_upt) (simp only: upt_conv_Cons [of 0] zero_less_Suc)
  then show ?thesis by (simp only: bytes_def) (simp add: comp_def)
qed

lemma bytes_cong: "(\<And>i. i < n \<Longrightarrow> m' (p + i) = m (p + i)) \<Longrightarrow> bytes m' p n = bytes m p n"
  by (simp add: bytes_def)

fun cstr :: "mem \<Rightarrow> nat \<Rightarrow> 8 word list \<Rightarrow> bool" where
  "cstr m p [] \<longleftrightarrow> m p = 0"
| "cstr m p (c # cs) \<longleftrightarrow> c \<noteq> 0 \<and> m p = c \<and> cstr m (p + 1) cs"

lemma cstr_cong:
  "cstr m p cs \<Longrightarrow> (\<And>i. i \<le> length cs \<Longrightarrow> m' (p + i) = m (p + i)) \<Longrightarrow> cstr m' p cs"
proof (induction cs arbitrary: p)
  case (Cons c cs)
  have "cstr m' (p + 1) cs"
  proof (rule Cons.IH)
    show "cstr m (p + 1) cs" using Cons.prems(1) by simp
    show "m' (p + 1 + i) = m (p + 1 + i)" if "i \<le> length cs" for i
      using Cons.prems(2) [of "Suc i"] that by simp
  qed
  then show ?case using Cons.prems(1) Cons.prems(2) [of 0] by simp
next
  case Nil
  then show ?case using Nil(2) [of 0] by simp
qed

lemma strlen_loop_ok: "cstr m p cs \<Longrightarrow> strlen_loop m p k = Some (k + length cs)"
  by (induction cs arbitrary: p k) (subst strlen_loop.simps, simp)+

lemma strlen_ok: "cstr m p cs \<Longrightarrow> strlen m p = Some (length cs)"
  by (simp add: strlen_def strlen_loop_ok)

lemma strnlen_loop_ok:
  "cstr m p cs \<Longrightarrow> k \<le> n \<Longrightarrow> strnlen_loop m p n k = min n (k + length cs)"
proof (induction cs arbitrary: p k)
  case Nil
  then show ?case by (subst strnlen_loop.simps) simp
next
  case (Cons c cs)
  show ?case
  proof (cases "k < n")
    case True
    then show ?thesis using Cons.prems Cons.IH [of "p + 1" "k + 1"] by (subst strnlen_loop.simps) simp
  next
    case False
    then show ?thesis using Cons.prems by (subst strnlen_loop.simps) simp
  qed
qed

section \<open>Copying\<close>

lemma copy_up_ok:
  "d \<le> s \<or> s + n \<le> d \<Longrightarrow> copy_up d s n m x = (if d \<le> x \<and> x < d + n then m (s + (x - d)) else m x)"
proof (induction n arbitrary: d s m)
  case (Suc n)
  have "copy_up d s (Suc n) m x = copy_up (d + 1) (s + 1) n (m(d := m s)) x" by simp
  also have "\<dots> = (if d + 1 \<le> x \<and> x < d + 1 + n then (m(d := m s)) (s + 1 + (x - (d + 1))) else (m(d := m s)) x)"
    by (rule Suc.IH) (use Suc.prems in auto)
  also have "\<dots> = (if d \<le> x \<and> x < d + Suc n then m (s + (x - d)) else m x)"
  proof (cases "d + 1 \<le> x \<and> x < d + 1 + n")
    case True
    then have "s + 1 + (x - (d + 1)) = s + (x - d)" "s + (x - d) \<noteq> d" using Suc.prems by auto
    then show ?thesis using True by simp
  qed auto
  finally show ?case .
qed auto

lemma copy_down_ok:
  "s \<le> d \<Longrightarrow> copy_down (d + n) (s + n) n m x = (if d \<le> x \<and> x < d + n then m (s + (x - d)) else m x)"
proof (induction n arbitrary: m)
  case (Suc n)
  have "copy_down (d + Suc n) (s + Suc n) (Suc n) m x = copy_down (d + n) (s + n) n (m(d + n := m (s + n))) x"
    by (simp add: Let_def)
  also have "\<dots> = (if d \<le> x \<and> x < d + n then (m(d + n := m (s + n))) (s + (x - d)) else (m(d + n := m (s + n))) x)"
    by (rule Suc.IH [OF Suc.prems])
  also have "\<dots> = (if d \<le> x \<and> x < d + Suc n then m (s + (x - d)) else m x)"
    using Suc.prems by auto
  finally show ?case .
qed auto

lemma memmove_apply:
  "memmove dst src n m x = (if dst \<le> x \<and> x < dst + n then m (src + (x - dst)) else m x)"
proof (cases "src < dst \<and> src + n > dst")
  case True
  then show ?thesis using copy_down_ok [of src dst n m x] by (simp add: memmove_def)
next
  case False
  then have "dst \<le> src \<or> src + n \<le> dst" by auto
  moreover have "memmove dst src n m = copy_up dst src n m" using False by (simp only: memmove_def if_False)
  ultimately show ?thesis using copy_up_ok [of dst src n m x] by simp
qed

lemma memcpy_apply:
  "dst \<le> src \<or> src + n \<le> dst \<Longrightarrow> memcpy dst src n m x = (if dst \<le> x \<and> x < dst + n then m (src + (x - dst)) else m x)"
  by (simp add: memcpy_def copy_up_ok)

text \<open>An overlap that \<open>memcpy\<close> must not have: it repeats the first bytes.\<close>

lemma copy_up_overlap: "s < d \<Longrightarrow> d \<le> x \<Longrightarrow> x < d + n \<Longrightarrow> copy_up d s n m x = m (s + (x - d) mod (d - s))"
proof (induction n arbitrary: d s m)
  case (Suc n)
  have step: "copy_up d s (Suc n) m x = copy_up (d + 1) (s + 1) n (m(d := m s)) x" by simp
  show ?case
  proof (cases "x = d")
    case True
    have "copy_up e t k m' d = m' d" if "d < e" for e t k m'
      using that by (induction k arbitrary: e t m') auto
    from this [of "d + 1" "s + 1" n "m(d := m s)"] show ?thesis using step True by simp
  next
    case False
    define r where "r = (x - Suc d) mod (d - s)"
    have x: "d + 1 \<le> x" "x < d + 1 + n" "s + 1 < d + 1" using Suc.prems False by auto
    have r: "r < d - s" using Suc.prems by (simp add: r_def)
    have "x - d = Suc (x - Suc d)" using x by simp
    then have e: "(x - d) mod (d - s) = (if Suc r = d - s then 0 else Suc r)" by (simp add: mod_Suc r_def)
    have "copy_up d s (Suc n) m x = (m(d := m s)) (s + 1 + r)"
      using step Suc.IH [OF x(3,1,2)] by (simp add: r_def)
    also have "\<dots> = m (s + (x - d) mod (d - s))"
    proof (cases "Suc r = d - s")
      case True
      then have "s + 1 + r = d" using Suc.prems by simp
      then show ?thesis using True e by simp
    next
      case f: False
      then have "s + 1 + r \<noteq> d" using r by simp
      then show ?thesis using e f by simp
    qed
    finally show ?thesis .
  qed
qed simp

section \<open>Strings\<close>

lemma strcmp_ok:
  "cstr m p xs \<Longrightarrow> cstr m q ys \<Longrightarrow> \<exists>r. strcmp m p q = Some r \<and> (r < 0 \<longleftrightarrow> xs < ys) \<and> (r = 0 \<longleftrightarrow> xs = ys)"
proof (induction xs arbitrary: p q ys)
  case Nil
  then show ?case by (cases ys) (subst strcmp.simps, auto simp: byte_diff_def uint_0_iff intro: le_neq_trans)+
next
  case (Cons x xs)
  show ?case
  proof (cases ys)
    case ys: Nil
    then show ?thesis using Cons.prems
      by (subst strcmp.simps) (auto simp: byte_diff_def uint_0_iff intro: le_neq_trans)
  next
    case ys: (Cons y ys')
    show ?thesis
    proof (cases "x = y")
      case True
      have "strcmp m p q = strcmp m (p + 1) (q + 1)"
        using Cons.prems ys True by (subst strcmp.simps) simp
      then show ?thesis using Cons.IH [of "p + 1" "q + 1" ys'] Cons.prems ys True by simp
    next
      case False
      have "strcmp m p q = Some (uint x - uint y)"
        using Cons.prems ys False by (subst strcmp.simps) (simp add: byte_diff_def)
      moreover have "uint x \<noteq> uint y" using False by (simp add: word_uint_eq_iff)
      ultimately show ?thesis using ys False by (simp add: word_less_def)
    qed
  qed
qed

lemma strcpy_loop_ok:
  "cstr m q ys \<Longrightarrow> q + length ys < p \<or> p + length ys < q \<Longrightarrow>
     \<exists>m'. strcpy_loop p q m = Some m' \<and> cstr m' p ys \<and> (\<forall>x. x < p \<or> p + length ys < x \<longrightarrow> m' x = m x)"
proof (induction ys arbitrary: p q m)
  case Nil
  then show ?case by (subst strcpy_loop.simps) (simp add: Let_def)
next
  case (Cons y ys)
  let ?m = "m(p := m q)"
  have y: "y \<noteq> 0" "m q = y" "cstr m (q + 1) ys" using Cons.prems(1) by simp_all
  have "cstr ?m (q + 1) ys" by (rule cstr_cong [OF y(3)]) (use Cons.prems(2) in auto)
  moreover have "q + 1 + length ys < p + 1 \<or> p + 1 + length ys < q + 1" using Cons.prems(2) by auto
  ultimately obtain m' where 1: "strcpy_loop (p + 1) (q + 1) ?m = Some m'" "cstr m' (p + 1) ys"
    "\<forall>x. x < p + 1 \<or> p + 1 + length ys < x \<longrightarrow> m' x = ?m x" using Cons.IH by blast
  have "strcpy_loop p q m = Some m'" using 1(1) y by (subst strcpy_loop.simps) (simp add: Let_def)
  then show ?case using 1(2,3) y by auto
qed

lemma cstr_append: "cstr m p (xs @ ys) \<longleftrightarrow> (0 \<notin> set xs \<and> bytes m p (length xs) = xs \<and> cstr m (p + length xs) ys)"
  by (induction xs arbitrary: p) (auto simp: bytes_Suc)

lemma cstr_bytes: "cstr m p xs \<Longrightarrow> bytes m p (length xs) = xs \<and> 0 \<notin> set xs"
  using cstr_append [of m p xs "[]"] by simp

section \<open>Properties\<close>

text \<open>C40.
  \<open>memmove\<close> moves the bytes as they were before the call, however the two areas overlap, and
  writes nothing else.  \<open>memcpy\<close> does the same unless the target starts inside the source; then
  it repeats the first \<open>dst - src\<close> bytes.\<close>

theorem memmove_memcpy:
  "bytes (memmove dst src n m) dst n = bytes m src n \<and>
   (\<forall>x. x < dst \<or> dst + n \<le> x \<longrightarrow> memmove dst src n m x = m x) \<and>
   (dst \<le> src \<or> src + n \<le> dst \<longrightarrow> memcpy dst src n m = memmove dst src n m) \<and>
   (src < dst \<longrightarrow> bytes (memcpy dst src n m) dst n = map (\<lambda>i. m (src + i mod (dst - src))) [0..<n])"
proof (intro conjI)
  show "bytes (memmove dst src n m) dst n = bytes m src n"
    by (simp add: bytes_def memmove_apply)
  show "\<forall>x. x < dst \<or> dst + n \<le> x \<longrightarrow> memmove dst src n m x = m x" by (auto simp: memmove_apply)
  show "dst \<le> src \<or> src + n \<le> dst \<longrightarrow> memcpy dst src n m = memmove dst src n m"
    by (auto simp: fun_eq_iff memmove_apply memcpy_apply)
  show "src < dst \<longrightarrow> bytes (memcpy dst src n m) dst n = map (\<lambda>i. m (src + i mod (dst - src))) [0..<n]"
    by (auto simp: bytes_def memcpy_def copy_up_overlap)
qed

theorem memmove_memcpy_witness:
  "bytes (memcpy 2 0 4 (\<lambda>x. word_of_nat x)) 2 4 = [0, 1, 0, 1] \<and> memcpy 0 2 4 (\<lambda>x. word_of_nat x) = memmove 0 2 4 (\<lambda>x. word_of_nat x) \<and>
   memmove 2 0 4 (\<lambda>x. word_of_nat x) 6 = 6"
  using memmove_memcpy [of 2 0 4 "\<lambda>x. word_of_nat x"] memmove_memcpy [of 0 2 4 "\<lambda>x. word_of_nat x"]
  by (simp add: upt_rec)

text \<open>The string functions on two strings \<open>xs\<close> and \<open>ys\<close> in memory: \<open>strlen\<close> and \<open>strnlen\<close> return the
  length, \<open>strcmp\<close> returns with the sign of the lexicographic order of the unsigned bytes, and
  \<open>strcat\<close> leaves \<open>xs @ ys\<close> when there is room behind \<open>xs\<close>, with nothing else written; its
  result points to the appended part instead of the string.\<close>

theorem string_functions:
  assumes "cstr m p xs" and "cstr m q ys"
    and "q + length ys < p + length xs \<or> p + length xs + length ys < q"
  shows "strlen m p = Some (length xs) \<and> strnlen m p n = min n (length xs) \<and>
    (\<exists>r. strcmp m p q = Some r \<and> (r < 0 \<longleftrightarrow> xs < ys) \<and> (r = 0 \<longleftrightarrow> xs = ys)) \<and>
    (\<exists>m'. strcat p q m = Some (m', p + length xs) \<and> cstr m' p (xs @ ys) \<and>
       (\<forall>x. x < p + length xs \<or> p + length xs + length ys < x \<longrightarrow> m' x = m x))"
proof -
  obtain m' where 1: "strcpy_loop (p + length xs) q m = Some m'" "cstr m' (p + length xs) ys"
    "\<forall>x. x < p + length xs \<or> p + length xs + length ys < x \<longrightarrow> m' x = m x"
    using strcpy_loop_ok [OF assms(2,3)] by blast
  have "bytes m' p (length xs) = bytes m p (length xs)" by (rule bytes_cong) (simp add: 1(3))
  then have "cstr m' p (xs @ ys)" using 1(2) cstr_bytes [OF assms(1)] by (simp add: cstr_append)
  then show ?thesis
    using 1 strlen_ok [OF assms(1)] strnlen_loop_ok [OF assms(1), of 0 n] strcmp_ok [OF assms(1,2)]
    by (simp add: strcat_def strcpy_def strnlen_def)
qed

text \<open>The strings ``ab'' at 10 and ``b'' at 20.\<close>

definition sample_mem :: mem where
  "sample_mem = (\<lambda>_. 0)(10 := 97, 11 := 98, 20 := 98)"

theorem string_functions_witness:
  "strlen sample_mem 10 = Some 2 \<and> (\<exists>r. strcmp sample_mem 10 20 = Some r \<and> r < 0) \<and>
   (\<exists>m'. strcat 10 20 sample_mem = Some (m', 12) \<and> cstr m' 10 [97, 98, 98])"
  using string_functions [of sample_mem 10 "[97, 98]" 20 "[98]"] by (auto simp: sample_mem_def)

end
