(* ===== verification/Printf.thy ===== *)
theory Printf
  imports Strings
begin

text \<open>
  Formatted output, \<open>libs/printfmt.c\<close>.  The characters that go to \<open>putch\<close>, in order, are the
  result.  A format and a string argument are the bytes before the terminating zero, which
  printing must not overwrite; \<open>str_at\<close> gives the string at an address.  The variable arguments
  are an unbounded sequence of 64-bit words, of which an \<open>int\<close> reads the low half.  Width,
  precision and count are of type \<open>int\<close>: \<open>i32\<close> wraps around at 32 bits, as the machine does.
\<close>

section \<open>Numbers\<close>

definition i32 :: "int \<Rightarrow> int" where
  "i32 x = sint (word_of_int x :: 32 word)"

lemma i32_simps [simp]:
  "i32 (i32 x + y) = i32 (x + y)" "i32 (y + i32 x) = i32 (y + x)" "i32 (i32 x - y) = i32 (x - y)" "i32 (i32 x) = i32 x"
  by (simp_all add: i32_def)

lemma i32_small: "- (2 ^ 31) \<le> x \<Longrightarrow> x < 2 ^ 31 \<Longrightarrow> i32 x = x"
  by (simp add: i32_def sint_sbintrunc' signed_take_bit_int_eq_self)

definition hex_digit :: "64 word \<Rightarrow> int" where
  "hex_digit d = (if d < 10 then 48 + uint d else 87 + uint d)"

definition pad_chars :: "int \<Rightarrow> int \<Rightarrow> int list" where
  "pad_chars width padc = replicate (nat (i32 (width - 1))) padc"

partial_function (option) printnum :: "64 word \<Rightarrow> 64 word \<Rightarrow> int \<Rightarrow> int \<Rightarrow> int list option" where
  "printnum num base width padc =
    (if base = 0 then None
     else do {
       let result = num div base;
       let d = num mod base;
       out \<leftarrow> (if base \<le> num then printnum result base (i32 (width - 1)) padc else Some (pad_chars width padc));
       Some (out @ [hex_digit d]) })"

section \<open>Formats\<close>

type_synonym va_list = "nat \<Rightarrow> 64 word"

definition va_next :: "va_list \<Rightarrow> va_list" where
  "va_next ap = (\<lambda>i. ap (Suc i))"

definition va_int :: "va_list \<Rightarrow> int" where
  "va_int ap = sint (ucast (ap 0) :: 32 word)"

definition getuint :: "va_list \<Rightarrow> nat \<Rightarrow> 64 word" where
  "getuint ap lflag = (if lflag \<ge> 2 then ap 0 else if lflag \<noteq> 0 then ap 0 else ucast (ucast (ap 0) :: 32 word))"

definition getint :: "va_list \<Rightarrow> nat \<Rightarrow> 64 word" where
  "getint ap lflag = (if lflag \<ge> 2 then ap 0 else if lflag \<noteq> 0 then ap 0 else scast (ucast (ap 0) :: 32 word))"

record spec =
  padc :: "8 word"
  width :: int
  precision :: int
  lflag :: nat
  altflag :: bool

definition process_precision :: "int \<Rightarrow> spec \<Rightarrow> spec" where
  "process_precision n sp = (if width sp < 0 then sp\<lparr>width := n, precision := -1\<rparr> else sp\<lparr>precision := n\<rparr>)"

fun parse_number :: "int \<Rightarrow> 8 word \<Rightarrow> 8 word list \<Rightarrow> int \<times> 8 word list" where
  "parse_number n ch [] = (i32 (n * 10 + uint ch - 48), [])"
| "parse_number n ch (c # fmt) =
    (if c < 48 \<or> 57 < c then (i32 (n * 10 + uint ch - 48), c # fmt) else parse_number (i32 (n * 10 + uint ch - 48)) c fmt)"

lemma parse_number_shorter: "parse_number n ch fmt = (k, fmt') \<Longrightarrow> length fmt' \<le> length fmt"
  by (induction n ch fmt rule: parse_number.induct) (auto split: if_splits)

text \<open>From \<open>reswitch\<close> to the character of the conversion; the end of the format reads as 0.\<close>

function reswitch :: "8 word list \<Rightarrow> spec \<Rightarrow> va_list \<Rightarrow> 8 word \<times> 8 word list \<times> spec \<times> va_list" where
  "reswitch [] sp ap = (0, [], sp, ap)"
| "reswitch (ch # fmt) sp ap =
    (if ch = 45 then reswitch fmt (sp\<lparr>padc := 45\<rparr>) ap
     else if ch = 48 then reswitch fmt (sp\<lparr>padc := 48\<rparr>) ap
     else if 49 \<le> ch \<and> ch \<le> 57 then
       (case parse_number 0 ch fmt of (n, fmt') \<Rightarrow> reswitch fmt' (process_precision n sp) ap)
     else if ch = 42 then reswitch fmt (process_precision (va_int ap) sp) (va_next ap)
     else if ch = 46 then reswitch fmt (if width sp < 0 then sp\<lparr>width := 0\<rparr> else sp) ap
     else if ch = 35 then reswitch fmt (sp\<lparr>altflag := True\<rparr>) ap
     else if ch = 108 then reswitch fmt (sp\<lparr>lflag := lflag sp + 1\<rparr>) ap
     else (ch, fmt, sp, ap))"
  by pat_completeness auto
termination
  by (relation "measure (\<lambda>(fmt, sp, ap). length fmt)") (auto dest!: parse_number_shorter [OF sym])

definition str :: "string \<Rightarrow> 8 word list" where
  "str s = map of_char s"

definition MAXERROR :: int where "MAXERROR = 24"

definition error_string :: "int \<Rightarrow> string option" where
  "error_string = (\<lambda>_. None)(
     1 := Some ''unspecified error'', 2 := Some ''bad process'', 3 := Some ''invalid parameter'',
     4 := Some ''out of memory'', 5 := Some ''out of processes'', 6 := Some ''segmentation fault'',
     8 := Some ''invalid elf file'', 9 := Some ''process is killed'', 10 := Some ''panic failure'',
     13 := Some ''no such device'', 14 := Some ''device not available'', 15 := Some ''device/file is busy'',
     16 := Some ''no such file or directory'', 17 := Some ''is a directory'', 18 := Some ''not a directory'',
     19 := Some ''cross device link'', 20 := Some ''unimplemented feature'', 21 := Some ''illegal seek'',
     22 := Some ''too many files are open'', 23 := Some ''file or directory already exists'',
     24 := Some ''directory is not empty'')"

fun print_chars :: "8 word list \<Rightarrow> bool \<Rightarrow> int \<Rightarrow> int \<Rightarrow> int list \<times> int" where
  "print_chars [] alt prec w = ([], w)"
| "print_chars (ch # p) alt prec w =
    (if prec < 0 \<or> prec - 1 \<ge> 0 then
       (let (out, w') = print_chars p alt (if prec < 0 then prec else prec - 1) (i32 (w - 1))
        in ((if alt \<and> (ch < 32 \<or> 126 < ch) then 63 else uint ch) # out, w'))
     else ([], w))"

definition print_string :: "8 word list \<Rightarrow> spec \<Rightarrow> int list" where
  "print_string p sp =
    (let n = (if precision sp < 0 then length p else min (length p) (nat (precision sp)));
         (left, w) = (if 0 < width sp \<and> padc sp \<noteq> 45
                      then (replicate (nat (i32 (width sp - int n))) (uint (padc sp)), min 0 (i32 (width sp - int n)))
                      else ([], width sp));
         (out, w) = print_chars p (altflag sp) (precision sp) w
     in left @ out @ replicate (nat w) 32)"

definition spec0 :: spec where
  "spec0 = \<lparr>padc = 32, width = -1, precision = -1, lflag = 0, altflag = False\<rparr>"

definition print_number :: "8 word \<Rightarrow> spec \<Rightarrow> va_list \<Rightarrow> int list option" where
  "print_number ch sp ap =
    (if ch = 100 then do {
       let num = getint ap (lflag sp);
       if sint num < 0 then do {
         out \<leftarrow> printnum (- num) 10 (width sp) (uint (padc sp));
         Some (45 # out) }
       else printnum num 10 (width sp) (uint (padc sp)) }
     else if ch = 117 then printnum (getuint ap (lflag sp)) 10 (width sp) (uint (padc sp))
     else if ch = 111 then printnum (getuint ap (lflag sp)) 8 (width sp) (uint (padc sp))
     else if ch = 112 then do {
       out \<leftarrow> printnum (ap 0) 16 (width sp) (uint (padc sp));
       Some (48 # 120 # out) }
     else printnum (getuint ap (lflag sp)) 16 (width sp) (uint (padc sp)))"

definition is_number :: "8 word \<Rightarrow> bool" where
  "is_number ch \<longleftrightarrow> ch = 100 \<or> ch = 117 \<or> ch = 111 \<or> ch = 112 \<or> ch = 120"

text \<open>
  In \<open>%e\<close> the literal of the error table is passed to the inner \<open>printfmt\<close> at an address of
  its own; \<open>err\<close> is an \<open>int\<close>, whose least value has no negation: the table is read out of bounds.
\<close>

partial_function (option) vprintfmt ::
    "(64 word \<Rightarrow> 8 word list) \<Rightarrow> 8 word list \<Rightarrow> va_list \<Rightarrow> int list option" where
  "vprintfmt str_at fmt ap =
    (case fmt of
       [] \<Rightarrow> Some []
     | ch # fmt \<Rightarrow>
         if ch \<noteq> 37 then do { out \<leftarrow> vprintfmt str_at fmt ap; Some (uint ch # out) }
         else
           (case reswitch fmt spec0 ap of (ch, fmt', sp, ap) \<Rightarrow>
              if ch = 99 then do { out \<leftarrow> vprintfmt str_at fmt' (va_next ap); Some (va_int ap # out) }
              else if ch = 101 then do {
                let err = \<bar>va_int ap\<bar>;
                assert_k (err < 2 ^ 31);
                msg \<leftarrow> (if MAXERROR < err \<or> error_string err = None
                       then vprintfmt str_at (str ''error %d'') (\<lambda>_. word_of_int err)
                       else vprintfmt (\<lambda>_. str (the (error_string err))) (str ''%s'') (\<lambda>_. 1));
                out \<leftarrow> vprintfmt str_at fmt' (va_next ap);
                Some (msg @ out) }
              else if ch = 115 then do {
                out \<leftarrow> vprintfmt str_at fmt' (va_next ap);
                Some (print_string (if ap 0 = 0 then str ''(null)'' else str_at (ap 0)) sp @ out) }
              else if is_number ch then do {
                num \<leftarrow> print_number ch sp ap;
                out \<leftarrow> vprintfmt str_at fmt' (va_next ap);
                Some (num @ out) }
              else if ch = 37 then do { out \<leftarrow> vprintfmt str_at fmt' ap; Some (37 # out) }
              else do { out \<leftarrow> vprintfmt str_at fmt ap; Some (37 # out) }))"

section \<open>Printing into a buffer\<close>

record sprintbuf =
  sb_buf :: nat
  sb_ebuf :: nat
  sb_cnt :: int

definition sprintputch :: "int \<Rightarrow> sprintbuf \<times> mem \<Rightarrow> sprintbuf \<times> mem" where
  "sprintputch ch = (\<lambda>(b, m).
    (let b = b\<lparr>sb_cnt := i32 (sb_cnt b + 1)\<rparr>
     in if sb_buf b < sb_ebuf b then (b\<lparr>sb_buf := sb_buf b + 1\<rparr>, m(sb_buf b := word_of_int ch)) else (b, m)))"

text \<open>\<open>str + size - 1\<close> lies below \<open>str\<close> when \<open>size\<close> is 0; address 0 is the null pointer.\<close>

definition vsnprintf ::
    "(64 word \<Rightarrow> 8 word list) \<Rightarrow> nat \<Rightarrow> nat \<Rightarrow> 8 word list \<Rightarrow> va_list \<Rightarrow> mem \<Rightarrow> (mem \<times> int) option" where
  "vsnprintf str_at s sz fmt ap m =
    (let b = \<lparr>sb_buf = s, sb_ebuf = s + sz - 1, sb_cnt = 0\<rparr>
     in if s = 0 \<or> sb_buf b > sb_ebuf b then Some (m, - E_INVAL)
        else do {
          out \<leftarrow> vprintfmt str_at fmt ap;
          let (b, m) = fold sprintputch out (b, m);
          Some (m(sb_buf b := 0), sb_cnt b) })"

section \<open>Digits\<close>

function num_digits :: "nat \<Rightarrow> nat \<Rightarrow> nat list" where
  "num_digits base n = (if base < 2 \<or> n < base then [n] else num_digits base (n div base) @ [n mod base])"
  by pat_completeness auto
termination by (relation "measure snd") auto

declare num_digits.simps [simp del]

lemma num_digits_small: "n < base \<Longrightarrow> num_digits base n = [n]"
  by (subst num_digits.simps) simp

lemma num_digits_rec: "2 \<le> base \<Longrightarrow> base \<le> n \<Longrightarrow> num_digits base n = num_digits base (n div base) @ [n mod base]"
  by (subst num_digits.simps) simp

lemma num_digits_bound: "2 \<le> base \<Longrightarrow> d \<in> set (num_digits base n) \<Longrightarrow> d < base"
proof (induction n rule: less_induct)
  case (less n)
  show ?case
  proof (cases "n < base")
    case True
    then show ?thesis using less.prems by (simp add: num_digits_small)
  next
    case False
    then have "n div base < n" using less.prems(1) by simp
    from less.IH [OF this less.prems(1)] show ?thesis using less.prems False by (auto simp: num_digits_rec)
  qed
qed

lemma num_digits_value: "2 \<le> base \<Longrightarrow> foldl (\<lambda>v d. v * base + d) 0 (num_digits base n) = n"
proof (induction n rule: less_induct)
  case (less n)
  show ?case
  proof (cases "n < base")
    case True
    then show ?thesis by (simp add: num_digits_small)
  next
    case False
    then have "n div base < n" using less.prems(1) by simp
    then show ?thesis using less False by (simp add: num_digits_rec)
  qed
qed

lemma num_digits_not_Nil [simp]: "num_digits base n \<noteq> []"
  by (subst num_digits.simps) simp

definition digit_chars :: "nat \<Rightarrow> nat \<Rightarrow> int list" where
  "digit_chars base n = map (\<lambda>d. if d < 10 then 48 + int d else 87 + int d) (num_digits base n)"

text \<open>What \<open>printnum\<close> prints: the digits, padded on the left up to the width.\<close>

lemma printnum_ok:
  assumes "2 \<le> base"
  shows "printnum num base w c = Some (replicate (nat (i32 (w - int (length (digit_chars (unat base) (unat num)))))) c @
    digit_chars (unat base) (unat num))"
proof (induction "unat num" arbitrary: num w rule: less_induct)
  case less
  have b: "2 \<le> unat base" "base \<noteq> 0" using assms by (auto simp: word_le_nat_alt)
  have hd: "hex_digit d = (if unat d < 10 then 48 + int (unat d) else 87 + int (unat d))" for d
    by (simp add: hex_digit_def word_less_nat_alt)
  show ?case
  proof (cases "base \<le> num")
    case False
    then have lt: "unat num < unat base" by (simp add: word_le_nat_alt)
    then have "num mod base = num" using False by (simp add: mod_word_less)
    then show ?thesis using False b lt
      by (subst printnum.simps) (simp add: pad_chars_def digit_chars_def num_digits_small hd)
  next
    case True
    then have le: "unat base \<le> unat num" by (simp add: word_le_nat_alt)
    have "unat num div unat base < unat num" using b le by simp
    then have "unat (num div base) < unat num" by (simp add: unat_div)
    moreover have "uint (num mod base) = int (unat num mod unat base)" by (simp only: uint_nat unat_mod)
    ultimately show ?thesis using less [of "num div base" "i32 (w - 1)"] True b le
      by (subst printnum.simps) (simp add: digit_chars_def num_digits_rec hd unat_div unat_mod algebra_simps)
  qed
qed

text \<open>With base 1 it never returns, unless the number is 0.\<close>

lemma printnum_base_1: "printnum num 1 w c = Some out \<Longrightarrow> num = 0"
proof -
  have "base = 1 \<longrightarrow> num = 0" if "printnum num base w c = Some out" for num base w out
  proof (rule printnum.raw_induct [OF _ that])
    fix f num base w c out
    assume IH: "\<And>n b w c r. f n b w c = Some r \<Longrightarrow> b = 1 \<longrightarrow> n = 0"
      and r: "(if base = 0 then None else let result = num div base; d = num mod base in
        Option.bind (if base \<le> num then f result base (i32 (w - 1)) c else Some (pad_chars w c)) (\<lambda>out. Some (out @ [hex_digit d]))) = Some out"
    show "base = 1 \<longrightarrow> num = 0"
    proof
      assume b: "base = 1"
      show "num = 0"
      proof (rule ccontr)
        assume "num \<noteq> 0"
        then have "base \<le> num" using b by (simp add: word_le_nat_alt unat_gt_0 Suc_le_eq)
        then obtain r' where "f num 1 (i32 (w - 1)) c = Some r'" using r b by (auto simp: Option.bind_eq_Some_conv)
        from IH [OF this] show False using \<open>num \<noteq> 0\<close> by simp
      qed
    qed
  qed
  then show "printnum num 1 w c = Some out \<Longrightarrow> num = 0" by blast
qed

section \<open>Formats are consumed\<close>

lemma reswitch_shorter: "reswitch fmt sp ap = (ch, fmt', sp', ap') \<Longrightarrow> length fmt' \<le> length fmt"
proof (induction fmt sp ap rule: reswitch.induct)
  case (2 c fmt sp ap)
  then show ?case
    by (auto split: if_splits prod.splits dest: parse_number_shorter)
qed auto

lemma parse_number_set: "parse_number n ch fmt = (k, fmt') \<Longrightarrow> set fmt' \<subseteq> set fmt"
  by (induction n ch fmt rule: parse_number.induct) (auto split: if_splits)

lemma reswitch_set: "reswitch fmt sp ap = (ch, fmt', sp', ap') \<Longrightarrow> set fmt' \<subseteq> set fmt \<and> (ch \<in> set fmt \<or> ch = 0)"
proof (induction fmt sp ap rule: reswitch.induct)
  case (2 c fmt sp ap)
  then show ?case
    by (auto split: if_splits prod.splits dest: parse_number_set)
qed auto

lemma reswitch_args: "reswitch fmt sp ap = (ch, fmt', sp', ap') \<Longrightarrow> range ap' \<subseteq> range ap"
proof (induction fmt sp ap rule: reswitch.induct)
  case (2 c fmt sp ap)
  have "range (va_next ap) \<subseteq> range ap" by (auto simp: va_next_def)
  then show ?case using 2 by (auto split: if_splits prod.splits)
qed auto

lemma print_number_returns: "\<exists>out. print_number ch sp ap = Some out"
  by (simp add: print_number_def printnum_ok Let_def)

text \<open>The two inner formats of \<open>%e\<close>.\<close>

lemma vprintfmt_Nil [simp]: "vprintfmt str_at [] ap = Some []"
  by (subst vprintfmt.simps) simp

lemma vprintfmt_char: "ch \<noteq> 37 \<Longrightarrow> vprintfmt str_at (ch # fmt) ap = map_option (\<lambda>out. uint ch # out) (vprintfmt str_at fmt ap)"
  by (subst vprintfmt.simps) (simp add: map_option_case Option.bind_def split: option.split)

lemma vprintfmt_d [simp]: "vprintfmt str_at (37 # 100 # []) ap = print_number 100 spec0 ap"
  by (subst vprintfmt.simps) (cases "print_number 100 spec0 ap"; simp add: is_number_def)

lemma vprintfmt_s [simp]:
  "vprintfmt str_at (37 # 115 # []) ap = Some (print_string (if ap 0 = 0 then str ''(null)'' else str_at (ap 0)) spec0)"
  by (subst vprintfmt.simps) simp

lemma vprintfmt_total:
  assumes "101 \<in> set fmt \<longrightarrow> (\<forall>i. \<bar>sint (ucast (ap i) :: 32 word)\<bar> < 2 ^ 31)"
  shows "\<exists>out. vprintfmt str_at fmt ap = Some out"
  using assms
proof (induction "length fmt" arbitrary: fmt ap rule: less_induct)
  case less
  have va: "101 \<in> set fs \<longrightarrow> (\<forall>i. \<bar>sint (ucast (va_next ap' i) :: 32 word)\<bar> < 2 ^ 31)"
    if "101 \<in> set fs \<longrightarrow> (\<forall>i. \<bar>sint (ucast (ap' i) :: 32 word)\<bar> < 2 ^ 31)" for ap' fs using that by (simp add: va_next_def)
  show ?case
  proof (cases fmt)
    case (Cons ch rest)
    obtain c fmt' sp ap' where r: "reswitch rest spec0 ap = (c, fmt', sp, ap')" by (metis prod_cases4)
    have len: "length fmt' < length fmt" "length rest < length fmt" using reswitch_shorter [OF r] Cons by simp_all
    have ap_all: "101 \<in> set fmt \<longrightarrow> (\<forall>i. \<bar>sint (ucast (ap' i) :: 32 word)\<bar> < 2 ^ 31)"
      using less.prems reswitch_args [OF r] by (metis rangeE rangeI subsetD)
    have sets: "set fmt' \<subseteq> set fmt" "set rest \<subseteq> set fmt" "c = 101 \<Longrightarrow> 101 \<in> set fmt"
      using reswitch_set [OF r] Cons by auto
    have ap': "101 \<in> set fmt' \<longrightarrow> (\<forall>i. \<bar>sint (ucast (ap' i) :: 32 word)\<bar> < 2 ^ 31)"
      and apr: "101 \<in> set rest \<longrightarrow> (\<forall>i. \<bar>sint (ucast (ap' i) :: 32 word)\<bar> < 2 ^ 31)"
      and ap0: "101 \<in> set rest \<longrightarrow> (\<forall>i. \<bar>sint (ucast (ap i) :: 32 word)\<bar> < 2 ^ 31)"
      using ap_all less.prems sets(1,2) by blast+
    obtain o1 o2 o3 o4 o5 where o: "vprintfmt str_at rest ap = Some o1" "vprintfmt str_at fmt' (va_next ap') = Some o2"
      "vprintfmt str_at fmt' ap' = Some o3" "print_number c sp ap' = Some o4" "vprintfmt str_at rest ap' = Some o5"
      using less.hyps [OF len(2) ap0] less.hyps [OF len(1) va [OF ap']] less.hyps [OF len(1) ap']
        print_number_returns less.hyps [OF len(2) apr] by metis
    let ?e = "\<lambda>err. if MAXERROR < err \<or> error_string err = None
                   then vprintfmt str_at (str ''error %d'') (\<lambda>_. word_of_int err)
                   else vprintfmt (\<lambda>_. str (the (error_string err))) (str ''%s'') (\<lambda>_. 1)"
    have e: "\<exists>msg. ?e err = Some msg" for err
      using print_number_returns [of 100 spec0] by (auto simp: str_def vprintfmt_char)
    obtain o6 where e': "?e \<bar>va_int ap'\<bar> = Some o6" using e by blast
    show ?thesis
    proof (cases "c = 101")
      case True
      then have v: "\<bar>va_int ap'\<bar> < 2 ^ 31" using ap_all sets(3) by (simp add: va_int_def)
      show ?thesis
        unfolding Cons by (subst vprintfmt.simps) (simp only: list.case prod.case r o e' v Let_def bind_assert_k bind.bind_lunit if_True; simp)
    next
      case False
      show ?thesis
        unfolding Cons by (subst vprintfmt.simps) (simp only: list.case prod.case r o False Let_def bind.bind_lunit if_False; simp)
    qed
  qed simp
qed

text \<open>\<open>sprintputch\<close> fills the buffer and counts on.\<close>

lemma fold_sprintputch:
  "sb_buf b \<le> sb_ebuf b \<Longrightarrow> i32 (sb_cnt b) = sb_cnt b \<Longrightarrow> \<exists>b' m'. fold sprintputch out (b, m) = (b', m') \<and>
     sb_buf b' = min (sb_buf b + length out) (sb_ebuf b) \<and> sb_cnt b' = i32 (sb_cnt b + int (length out)) \<and>
     (\<forall>x. m' x = (if sb_buf b \<le> x \<and> x < sb_buf b' then word_of_int (out ! (x - sb_buf b)) else m x))"
proof (induction out arbitrary: b m)
  case (Cons c out)
  show ?case
  proof (cases "sb_buf b < sb_ebuf b")
    case True
    let ?b = "b\<lparr>sb_cnt := i32 (sb_cnt b + 1), sb_buf := sb_buf b + 1\<rparr>" and ?m = "m(sb_buf b := word_of_int c)"
    have "sb_buf ?b \<le> sb_ebuf ?b" "i32 (sb_cnt ?b) = sb_cnt ?b" using True by simp_all
    from Cons.IH [OF this, of ?m] obtain b' m' where 1: "fold sprintputch out (?b, ?m) = (b', m')"
      "sb_buf b' = min (sb_buf ?b + length out) (sb_ebuf ?b)" "sb_cnt b' = i32 (sb_cnt ?b + int (length out))"
      "\<forall>x. m' x = (if sb_buf ?b \<le> x \<and> x < sb_buf b' then word_of_int (out ! (x - sb_buf ?b)) else ?m x)" by blast
    have "m' x = (if sb_buf b \<le> x \<and> x < sb_buf b' then word_of_int ((c # out) ! (x - sb_buf b)) else m x)" for x
    proof (cases "x = sb_buf b")
      case xb: True
      then show ?thesis using 1(2) spec [OF 1(4), of x] True by simp
    next
      case False
      then have "sb_buf b \<le> x \<longleftrightarrow> sb_buf b + 1 \<le> x" by auto
      moreover have "sb_buf b + 1 \<le> x \<Longrightarrow> (c # out) ! (x - sb_buf b) = out ! (x - (sb_buf b + 1))"
        by (simp add: nth_Cons' )
      ultimately show ?thesis using spec [OF 1(4), of x] False by simp
    qed
    moreover have "sprintputch c (b, m) = (?b, ?m)" using True by (simp add: sprintputch_def Let_def)
    then have "fold sprintputch (c # out) (b, m) = (b', m')" using 1(1) by simp
    moreover have "sb_buf b' = min (sb_buf b + length (c # out)) (sb_ebuf b)"
      "sb_cnt b' = i32 (sb_cnt b + int (length (c # out)))" using 1(2,3) by (simp_all add: algebra_simps)
    ultimately show ?thesis by blast
  next
    case False
    then have eq: "sb_buf b = sb_ebuf b" using Cons.prems by simp
    let ?b = "b\<lparr>sb_cnt := i32 (sb_cnt b + 1)\<rparr>"
    have "sb_buf ?b \<le> sb_ebuf ?b" "i32 (sb_cnt ?b) = sb_cnt ?b" using Cons.prems by simp_all
    from Cons.IH [OF this, of m] show ?thesis using False eq by (auto simp: sprintputch_def Let_def algebra_simps)
  qed
qed auto

section \<open>Parsing what was printed\<close>

lemma num_digits_length: "2 \<le> base \<Longrightarrow> n < base ^ Suc k \<Longrightarrow> length (num_digits base n) \<le> Suc k"
proof (induction k arbitrary: n)
  case 0
  then show ?case by (simp add: num_digits_small)
next
  case (Suc k)
  show ?case
  proof (cases "n < base")
    case True
    then show ?thesis by (simp add: num_digits_small)
  next
    case False
    have "n < base * base ^ Suc k" using Suc.prems(2) by (simp add: mult.commute)
    then have "n div base < base ^ Suc k" using Suc.prems(1) by (simp add: less_mult_imp_div_less mult.commute)
    from Suc.IH [OF Suc.prems(1) this] show ?thesis using Suc.prems(1) False by (simp add: num_digits_rec)
  qed
qed

lemma digit_of_decimal: "d < 10 \<Longrightarrow> digit_of (word_of_int (48 + int d)) = Some (int d)"
proof -
  assume "d < 10"
  then have "d = 0 \<or> d = 1 \<or> d = 2 \<or> d = 3 \<or> d = 4 \<or> d = 5 \<or> d = 6 \<or> d = 7 \<or> d = 8 \<or> d = 9" by arith
  then show ?thesis by (elim disjE) (simp_all add: digit_of_def)
qed

lemma digits_loop_ok:
  assumes "\<forall>d\<in>set ds. d < 10"
  shows "cstr m s (map (\<lambda>d. word_of_int (48 + int d)) ds) \<Longrightarrow>
    digits_loop m 10 s (word_of_nat v) = Some (word_of_nat (foldl (\<lambda>v d. v * 10 + d) v ds), s + length ds)"
  using assms
proof (induction ds arbitrary: s v)
  case Nil
  then show ?case by (subst digits_loop.simps) (simp add: digit_of_def)
next
  case (Cons d ds)
  have d: "digit_of (m s) = Some (int d)" using Cons.prems digit_of_decimal [of d] by auto
  have "digits_loop m 10 s (word_of_nat v) = digits_loop m 10 (s + 1) (word_of_nat (v * 10 + d))"
    using d Cons.prems(2) by (subst digits_loop.simps) (simp add: mult.commute)
  then show ?case using Cons.IH [of "s + 1" "v * 10 + d"] Cons.prems by simp
qed

lemma digit_chars_10: "digit_chars 10 n = map (\<lambda>d. 48 + int d) (num_digits 10 n)"
  using num_digits_bound [of 10 _ n] by (simp add: digit_chars_def)

text \<open>A number printed in decimal, behind an optional minus sign, read again.\<close>

lemma strtol_decimal:
  assumes "cstr m s (map word_of_int (digit_chars 10 n))"
  shows "digits_loop m 10 s 0 = Some (word_of_nat n, s + length (digit_chars 10 n))"
    and "m s \<noteq> 32" "m s \<noteq> 9" "m s \<noteq> 43" "m s \<noteq> 45"
proof -
  let ?ds = "num_digits 10 n"
  have b: "\<forall>d\<in>set ?ds. d < 10" using num_digits_bound by simp
  have c: "cstr m s (map (\<lambda>d. word_of_int (48 + int d)) ?ds)" using assms by (simp add: digit_chars_10 comp_def)
  from digits_loop_ok [OF b this, of 0] show "digits_loop m 10 s 0 = Some (word_of_nat n, s + length (digit_chars 10 n))"
    using num_digits_value [of 10 n] by (simp add: digit_chars_10)
  obtain d ds where d: "?ds = d # ds" by (cases ?ds) auto
  then have "digit_of (m s) = Some (int d)" using b c digit_of_decimal [of d] by auto
  then show "m s \<noteq> 32" "m s \<noteq> 9" "m s \<noteq> 43" "m s \<noteq> 45" by (auto simp: digit_of_def)
qed

lemma strtol_positive:
  "cstr m s (map word_of_int (digit_chars 10 n)) \<Longrightarrow> strtol m s 10 = Some (word_of_nat n, s + length (digit_chars 10 n))"
  using strtol_decimal [of m s n] by (simp add: strtol_def skip_blanks.simps)

lemma strtol_negative:
  "m s = 45 \<Longrightarrow> cstr m (s + 1) (map word_of_int (digit_chars 10 n)) \<Longrightarrow>
     strtol m s 10 = Some (- word_of_nat n, s + 1 + length (digit_chars 10 n))"
  using strtol_decimal [of m "s + 1" n] by (simp add: strtol_def skip_blanks.simps)

lemma unat_word_of_int_64: "0 \<le> v \<Longrightarrow> v < 2 ^ 64 \<Longrightarrow> unat (word_of_int v :: 64 word) = nat v"
  by (simp add: unsigned_of_int take_bit_int_eq_self)

lemma print_decimal:
  "print_number 100 spec0 ap =
     Some (let x = va_int ap in if x < 0 then 45 # digit_chars 10 (nat (- x)) else digit_chars 10 (nat x))"
proof -
  let ?x = "ucast (ap 0) :: 32 word" and ?n = "word_of_int (va_int ap) :: 64 word"
  have b: "- (2 ^ 31) \<le> va_int ap" "va_int ap < 2 ^ 31"
    using sint_ge [of ?x] sint_less [of ?x] by (simp_all add: va_int_def)
  have n: "getint ap (lflag spec0) = ?n" by (simp add: getint_def spec0_def va_int_def)
  have s: "sint ?n = va_int ap" using b by (simp add: sint_sbintrunc' signed_take_bit_int_eq_self)
  have pad: "nat (i32 (- 1 - int (length (digit_chars 10 k)))) = 0" if "k \<le> 2 ^ 31" for k
  proof -
    have "length (digit_chars 10 k) \<le> 10" using that num_digits_length [of 10 k 9] by (simp add: digit_chars_def)
    then show ?thesis by (simp add: i32_small)
  qed
  show ?thesis
  proof (cases "va_int ap < 0")
    case True
    then have "nat (- va_int ap) \<le> 2 ^ 31" using b by simp
    note pad = pad [OF this]
    have "unat (word_of_int (- va_int ap) :: 64 word) = nat (- va_int ap)" by (rule unat_word_of_int_64) (use True b in simp_all)
    then have "unat (- ?n) = nat (- va_int ap)" by simp
    then show ?thesis using True n s pad by (simp add: print_number_def printnum_ok spec0_def Let_def)
  next
    case False
    then have "nat (va_int ap) \<le> 2 ^ 31" using b by simp
    note pad = pad [OF this]
    have "unat ?n = nat (va_int ap)" by (rule unat_word_of_int_64) (use False b in simp_all)
    then show ?thesis using False n s pad by (simp add: print_number_def printnum_ok spec0_def Let_def)
  qed
qed

lemma vsnprintf_ok:
  assumes "0 < s" and "0 < sz" and v: "vprintfmt str_at fmt ap = Some out"
  shows "\<exists>m'. vsnprintf str_at s sz fmt ap m = Some (m', i32 (int (length out))) \<and>
    (\<forall>x. x < s \<or> s + sz \<le> x \<longrightarrow> m' x = m x) \<and>
    bytes m' s (min (length out) (sz - 1)) = map word_of_int (take (sz - 1) out) \<and>
    m' (s + min (length out) (sz - 1)) = 0"
proof -
  let ?b = "\<lparr>sb_buf = s, sb_ebuf = s + sz - 1, sb_cnt = 0\<rparr>" and ?k = "min (length out) (sz - 1)"
  have le: "sb_buf ?b \<le> sb_ebuf ?b" "i32 (sb_cnt ?b) = sb_cnt ?b" using assms(2) by (simp_all add: i32_small)
  from fold_sprintputch [OF this, of out m] obtain b' m1 where 1: "fold sprintputch out (?b, m) = (b', m1)"
    "sb_buf b' = min (sb_buf ?b + length out) (sb_ebuf ?b)" "sb_cnt b' = i32 (sb_cnt ?b + int (length out))"
    "\<forall>x. m1 x = (if sb_buf ?b \<le> x \<and> x < sb_buf b' then word_of_int (out ! (x - sb_buf ?b)) else m x)" by blast
  have b': "sb_buf b' = s + ?k" using 1(2) assms(2) by auto
  have "vsnprintf str_at s sz fmt ap m = Some (m1(s + ?k := 0), i32 (int (length out)))"
    using v 1(1,3) assms(1,2) b' le(1) by (simp add: vsnprintf_def not_less [symmetric])
  moreover have "bytes (m1(s + ?k := 0)) s ?k = map word_of_int (take (sz - 1) out)"
    by (rule nth_equalityI) (use 1(4) b' in auto)
  moreover have "\<forall>x. x < s \<or> s + sz \<le> x \<longrightarrow> (m1(s + ?k := 0)) x = m x" using 1(4) b' assms(2) by auto
  ultimately show ?thesis by auto
qed

section \<open>Properties\<close>

text \<open>C38.
  \<open>vsnprintf\<close> returns for every format in which the letter \<open>e\<close> does not occur, and for every other
  format as long as no argument is the least \<open>int\<close>, which \<open>%e\<close> cannot negate.  It writes only into
  the buffer, which then holds the output cut to \<open>size - 1\<close> characters and a zero; its result is
  the length of the whole output as an \<open>int\<close>, so the length itself below \<open>2 ^ 31\<close>.  With size 0 it
  returns \<open>-E_INVAL\<close> and writes nothing.\<close>

theorem snprintf_bounded:
  assumes "101 \<in> set fmt \<longrightarrow> (\<forall>i. sint (ucast (ap i) :: 32 word) \<noteq> - (2 ^ 31))" and "0 < s"
  shows "vsnprintf str_at s 0 fmt ap m = Some (m, - E_INVAL) \<and>
    (0 < sz \<longrightarrow> (\<exists>out m'. vprintfmt str_at fmt ap = Some out \<and>
       vsnprintf str_at s sz fmt ap m = Some (m', i32 (int (length out))) \<and>
       (length out < 2 ^ 31 \<longrightarrow> i32 (int (length out)) = int (length out)) \<and>
       (\<forall>x. x < s \<or> s + sz \<le> x \<longrightarrow> m' x = m x) \<and>
       bytes m' s (min (length out) (sz - 1)) = map word_of_int (take (sz - 1) out) \<and>
       m' (s + min (length out) (sz - 1)) = 0))"
proof -
  have "101 \<in> set fmt \<longrightarrow> (\<forall>i. \<bar>sint (ucast (ap i) :: 32 word)\<bar> < 2 ^ 31)"
  proof (intro impI allI)
    fix i assume "101 \<in> set fmt"
    then have "sint (ucast (ap i) :: 32 word) \<noteq> - (2 ^ 31)" using assms(1) by blast
    then show "\<bar>sint (ucast (ap i) :: 32 word)\<bar> < 2 ^ 31"
      using sint_ge [of "ucast (ap i) :: 32 word"] sint_less [of "ucast (ap i) :: 32 word"] by simp
  qed
  then obtain out where out: "vprintfmt str_at fmt ap = Some out" using vprintfmt_total by blast
  have "length out < 2 ^ 31 \<longrightarrow> i32 (int (length out)) = int (length out)" by (auto intro: i32_small)
  with vsnprintf_ok [OF assms(2) _ out] out show ?thesis using assms(2) by (auto simp: vsnprintf_def)
qed

text \<open>\<open>snprintf(buf, 4, "%s", "abcdef")\<close> leaves ``abc'' and returns 6.\<close>

theorem snprintf_bounded_witness:
  "\<exists>m'. vsnprintf (\<lambda>_. str ''abcdef'') 100 4 (str ''%s'') (\<lambda>_. 1) (\<lambda>_. 7) = Some (m', 6) \<and>
    bytes m' 100 3 = str ''abc'' \<and> m' 103 = 0 \<and> m' 104 = 7"
proof -
  have "vprintfmt (\<lambda>_. str ''abcdef'') (str ''%s'') (\<lambda>_. 1) = Some [97, 98, 99, 100, 101, 102]"
    by (simp add: str_def print_string_def spec0_def i32_small)
  then show ?thesis
    using snprintf_bounded [of "str ''%s''" "\<lambda>_. 1" 100 "\<lambda>_. str ''abcdef''" "\<lambda>_. 7" 4]
    by (auto simp: str_def numeral_3_eq_3 i32_small)
qed

text \<open>C39.
  A number printed with \<open>%d\<close> into a buffer of at least 12 bytes and read back by \<open>strtol\<close> in
  base 10 is the same number, and the end pointer is behind its last digit, for every 32-bit
  value, the least one included.\<close>

theorem print_parse:
  assumes "0 < s" and "12 \<le> sz"
  shows "\<exists>m' n. vsnprintf str_at s sz (str ''%d'') ap m = Some (m', n) \<and>
    strtol m' s 10 = Some (word_of_int (va_int ap), s + nat n)"
proof -
  let ?x = "va_int ap"
  define ds where "ds = digit_chars 10 (nat \<bar>?x\<bar>)"
  define out where "out = (if ?x < 0 then 45 # ds else ds)"
  have "- (2 ^ 31) \<le> ?x" "?x < 2 ^ 31"
    using sint_ge [of "ucast (ap 0) :: 32 word"] sint_less [of "ucast (ap 0) :: 32 word"] by (simp_all add: va_int_def)
  then have "length ds \<le> 10"
    using num_digits_length [of 10 "nat \<bar>?x\<bar>" 9] by (simp add: ds_def digit_chars_def)
  then have k: "length out \<le> 11" by (simp add: out_def)
  have "vprintfmt str_at (str ''%d'') ap = Some out"
    by (simp add: str_def print_decimal out_def ds_def Let_def)
  from vsnprintf_ok [OF assms(1) _ this, of sz m] obtain m' where 1:
    "vsnprintf str_at s sz (str ''%d'') ap m = Some (m', i32 (int (length out)))"
    "bytes m' s (length out) = map word_of_int out" "m' (s + length out) = 0" using k assms(2) by (auto simp: min_absorb1)
  have len: "i32 (int (length out)) = int (length out)" using k by (intro i32_small) simp_all
  have nz: "0 \<notin> set (map word_of_int ds :: 8 word list)"
  proof
    assume "0 \<in> set (map word_of_int ds :: 8 word list)"
    then obtain d where d: "d < 10" "(word_of_int (48 + int d) :: 8 word) = 0"
      using num_digits_bound [of 10] by (force simp: ds_def digit_chars_10)
    show False using digit_of_decimal [OF d(1)] unfolding d(2) by (simp add: digit_of_def)
  qed
  then have c: "cstr m' s (map word_of_int out)"
    using cstr_append [of m' s "map word_of_int out" "[]"] 1(2,3) by (simp add: out_def)
  show ?thesis
  proof (cases "?x < 0")
    case True
    have "m' s = 45" "cstr m' (s + 1) (map word_of_int ds)" using c True by (simp_all add: out_def)
    from strtol_negative [OF this [unfolded ds_def]] show ?thesis
      using 1(1) len True by (simp add: out_def ds_def)
  next
    case False
    have "cstr m' s (map word_of_int ds)" using c False by (simp add: out_def)
    from strtol_positive [OF this [unfolded ds_def]] show ?thesis
      using 1(1) len False by (simp add: out_def ds_def)
  qed
qed

theorem print_parse_witness:
  "\<exists>m' n. vsnprintf (\<lambda>_. []) 100 12 (str ''%d'') (\<lambda>_. 0x80000000) (\<lambda>_. 0) = Some (m', n) \<and>
    strtol m' 100 10 = Some (- 2147483648, 100 + nat n)"
  using print_parse [of 100 12 "\<lambda>_. []" "\<lambda>_. 0x80000000" "\<lambda>_. 0"] by (simp add: va_int_def)

end
