(* ===== verification/Console.thy ===== *)
theory Console
  imports Semaphore File_Table Strings
begin

text \<open>
  Device inodes (\<open>fs/devs/dev.c\<close>) and the character devices \<open>stdin\<close> and \<open>stdout\<close>.  The
  keyboard interrupt puts characters into a ring of 4096 bytes with \<open>dev_stdin_write\<close>; a read
  that runs out of characters sleeps, so \<open>dev_stdin_read\<close> is split at its call of \<open>schedule\<close>:
  the definition of this name runs to the end or to that call, \<open>dev_stdin_resume\<close> goes on after it.  \<open>stdin_ok s ws\<close> is the invariant, \<open>stdin_chars s\<close> the unread characters.
\<close>

section \<open>Device inodes\<close>

text \<open>What an inode of a device passes through is the device's own function.\<close>

definition dev_open :: "(32 word \<Rightarrow> int) \<Rightarrow> 32 word \<Rightarrow> int" where
  "dev_open d_open open_flags =
    (if and open_flags (or O_CREAT (or O_TRUNC (or O_EXCL O_APPEND))) \<noteq> 0 then - E_INVAL
     else d_open open_flags)"

definition S_IFCHR :: nat where "S_IFCHR = 0x4000"
definition S_IFBLK :: nat where "S_IFBLK = 0x5000"

definition dev_gettype :: "nat \<Rightarrow> nat \<times> int" where
  "dev_gettype blocks = (if 0 < blocks then S_IFBLK else S_IFCHR, 0)"

text \<open>The products are \<open>size_t\<close>; \<open>pos\<close> is converted for the remainder.\<close>

definition dev_tryseek :: "nat \<Rightarrow> nat \<Rightarrow> int \<Rightarrow> int" where
  "dev_tryseek blocks blocksize pos =
    (if 0 < blocks \<and> pos mod 2 ^ 64 mod int blocksize = 0 \<and> 0 \<le> pos \<and> pos < int (u64 (blocks * blocksize))
     then 0 else - E_INVAL)"

definition dev_lookup :: "nat \<Rightarrow> string \<Rightarrow> 'w vfs \<Rightarrow> 'w vfs \<times> (int + nat)" where
  "dev_lookup node path s = (if path \<noteq> [] then (s, Inl (- E_NOENT)) else (inode_ref_inc node s, Inr node))"

section \<open>Standard output\<close>

definition stdout_open :: "32 word \<Rightarrow> int" where
  "stdout_open open_flags = (if open_flags \<noteq> O_WRONLY then - E_INVAL else 0)"

text \<open>\<open>stdout_io\<close>: the characters given to \<open>cputchar\<close>, the buffer descriptor and the result.\<close>

fun stdout_loop :: "mem \<Rightarrow> nat \<Rightarrow> nat \<Rightarrow> 8 word list" where
  "stdout_loop m data 0 = []"
| "stdout_loop m data (Suc resid) = m data # stdout_loop m (data + 1) resid"

definition stdout_io :: "mem \<Rightarrow> iobuf \<Rightarrow> bool \<Rightarrow> 8 word list \<times> iobuf \<times> int" where
  "stdout_io m iob write =
    (if write then (stdout_loop m (io_base iob) (io_resid iob), iob\<lparr>io_resid := 0\<rparr>, 0)
     else ([], iob, - E_INVAL))"

section \<open>Standard input\<close>

definition STDIN_BUFSIZE :: nat where "STDIN_BUFSIZE = 4096"
definition WT_KBD :: "32 word" where "WT_KBD = or 0x00000004 WT_INTERRUPTED"

text \<open>The wait queue of the device has number \<open>stdin_q\<close>.\<close>

record stdin =
  stdin_buffer :: "nat \<Rightarrow> 8 word"
  p_rpos :: nat
  p_wpos :: nat
  stdin_q :: nat
  kern :: kstate

definition stdin_device_init :: "stdin \<Rightarrow> stdin" where
  "stdin_device_init s = s\<lparr>p_rpos := 0, p_wpos := 0, kern := wait_queue_init (stdin_q s) (kern s)\<rparr>"

definition dev_stdin_write :: "sched_class \<Rightarrow> 8 word \<Rightarrow> stdin \<Rightarrow> stdin option" where
  "dev_stdin_write sc c s =
    (if c \<noteq> 0 then do {
       let s = s\<lparr>stdin_buffer := (stdin_buffer s)(p_wpos s mod STDIN_BUFSIZE := c)\<rparr>;
       let s = (if p_wpos s - p_rpos s < STDIN_BUFSIZE then s\<lparr>p_wpos := p_wpos s + 1\<rparr> else s);
       if \<not> wait_queue_empty (stdin_q s) (kern s) then do {
         k \<leftarrow> wakeup_queue sc (stdin_q s) WT_KBD True (kern s);
         Some (s\<lparr>kern := k\<rparr>) }
       else Some s }
     else Some s)"

text \<open>\<open>got\<close> is what has been put into the buffer of the caller; \<open>ret\<close> is its length.  The result
  \<open>Asleep\<close> says that \<open>schedule\<close> is called next.\<close>

datatype read_result = Finished "8 word list" | Asleep "8 word list"

function stdin_read_loop ::
    "nat \<Rightarrow> nat \<Rightarrow> 8 word list \<Rightarrow> stdin \<Rightarrow> (stdin \<times> read_result) option" where
  "stdin_read_loop w len got s =
    (if length got < len then
       if p_rpos s < p_wpos s
       then stdin_read_loop w len (got @ [stdin_buffer s (p_rpos s mod STDIN_BUFSIZE)]) (s\<lparr>p_rpos := p_rpos s + 1\<rparr>)
       else do {
         k \<leftarrow> wait_current_set (stdin_q s) w WT_KBD (kern s);
         Some (s\<lparr>kern := k\<rparr>, Asleep got) }
     else Some (s, Finished got))"
  by pat_completeness auto
termination by (relation "measure (\<lambda>(w, len, got, s). len - length got)") auto

declare stdin_read_loop.simps [simp del]

definition dev_stdin_read :: "nat \<Rightarrow> nat \<Rightarrow> stdin \<Rightarrow> (stdin \<times> read_result) option" where
  "dev_stdin_read w len s = stdin_read_loop w len [] s"

definition dev_stdin_resume ::
    "nat \<Rightarrow> nat \<Rightarrow> 8 word list \<Rightarrow> stdin \<Rightarrow> (stdin \<times> read_result) option" where
  "dev_stdin_resume w len got s = do {
     k \<leftarrow> wait_current_del (stdin_q s) w (kern s);
     let s = s\<lparr>kern := k\<rparr>;
     if wakeup_flags (waits k w) = WT_KBD then stdin_read_loop w len got s
     else Some (s, Finished got) }"

definition stdin_open :: "32 word \<Rightarrow> int" where
  "stdin_open open_flags = (if open_flags \<noteq> O_RDONLY then - E_INVAL else 0)"

text \<open>\<open>stdin_io\<close> calls \<open>dev_stdin_read\<close> with \<open>io_resid\<close>, and this when the read has finished.\<close>

definition stdin_io_done :: "8 word list \<Rightarrow> iobuf \<Rightarrow> iobuf \<times> int" where
  "stdin_io_done got iob =
    (let ret = length got
     in (if 0 < ret then iob\<lparr>io_resid := io_resid iob - ret\<rparr> else iob, int ret))"

definition stdin_io ::
    "nat \<Rightarrow> iobuf \<Rightarrow> bool \<Rightarrow> stdin \<Rightarrow> (stdin \<times> (iobuf \<times> int) option) option" where
  "stdin_io w iob write s =
    (if \<not> write then do {
       (s, r) \<leftarrow> dev_stdin_read w (io_resid iob) s;
       Some (s, case r of Finished got \<Rightarrow> Some (stdin_io_done got iob) | Asleep got \<Rightarrow> None) }
     else Some (s, Some (iob, - E_INVAL)))"

section \<open>Sleeping on a wait queue\<close>

context sched_laws
begin

lemma sleep_on:
  assumes wq: "wq_ok q s ws" and sch: "sched_ok rel s"
    and c: "current s = Some c" and w: "w \<notin> set ws"
  shows "\<exists>s'. wait_current_set q w fl s = Some s' \<and> wq_ok q s' (ws @ [w]) \<and>
    sched_ok rel s' \<and> w_proc (waits s' w) = Some c \<and> wakeup_flags (waits s' w) = WT_INTERRUPTED \<and>
    state (procs s' c) = PROC_SLEEPING \<and> (\<forall>p. p \<noteq> c \<longrightarrow> state (procs s' p) = state (procs s p)) \<and>
    (\<forall>v. v \<noteq> w \<longrightarrow> waits s' v = waits s v)"
proof -
  define s1 where "s1 = upd_proc c (\<lambda>x. x\<lparr>state := PROC_SLEEPING, wait_state := fl\<rparr>) (wait_init w c s)"
  have f: "waits s1 = (waits s)(w := (waits s w)\<lparr>w_proc := Some c, wakeup_flags := WT_INTERRUPTED\<rparr>)"
    "wait_links s1 = list_init (WaitLink w) (wait_links s)"
    "procs s1 = (procs s)(c := (procs s c)\<lparr>state := PROC_SLEEPING, wait_state := fl\<rparr>)"
    "current s1 = current s" "idleproc s1 = idleproc s"
    by (simp_all add: s1_def wait_init_def Let_def)
  have r: "ring (wait_links s) (WaitHead q) (map WaitLink ws)" using wq by (simp add: wq_ok_def)
  have "ring (wait_links s1) (WaitHead q) (map WaitLink ws)"
    unfolding f using w by (intro ring_list_init_other [OF r]) auto
  then have wq1: "wq_ok q s1 ws" using wq w by (auto simp: wq_ok_def f)
  have "list_empty (WaitLink w) (wait_links s1)" by (simp add: f list_init_def list_empty_def)
  then obtain s2 where s2: "wait_queue_add q w s1 = Some s2" "wq_ok q s2 (ws @ [w])"
    "s2 = s1\<lparr>waits := (waits s1)(w := (waits s1 w)\<lparr>wait_queue := q\<rparr>),
           wait_links := list_add_before (WaitHead q) (WaitLink w) (wait_links s1)\<rparr>"
    using wait_queue_add_ok [OF wq1, of w] by (auto simp: f)
  have set_ok: "wait_current_set q w fl s = Some s2"
    using c s2(1) by (simp add: wait_current_set_def s1_def)
  have sch1: "sched_ok rel s1"
    by (rule sched_ok_cong [OF sch]) (auto simp: same_rq_def s1_def wait_init_def Let_def c)
  have "sched_ok rel s2" by (rule sched_ok_cong [OF sch1]) (auto simp: same_rq_def s2(3))
  moreover have "procs s2 = procs s1" using s2(3) by simp
  moreover have "w_proc (waits s2 w) = Some c" "wakeup_flags (waits s2 w) = WT_INTERRUPTED"
    "\<forall>v. v \<noteq> w \<longrightarrow> waits s2 v = waits s v"
    by (simp_all add: s2(3) f)
  ultimately show ?thesis using set_ok s2(2) by (intro exI [of _ s2]) (simp add: f)
qed

end

section \<open>The ring as a queue\<close>

definition stdin_ok :: "stdin \<Rightarrow> nat list \<Rightarrow> bool" where
  "stdin_ok s ws \<longleftrightarrow> p_rpos s \<le> p_wpos s \<and> p_wpos s - p_rpos s \<le> STDIN_BUFSIZE \<and>
     wq_ok (stdin_q s) (kern s) ws \<and> sched_ok rr_rel (kern s) \<and>
     (\<forall>w\<in>set ws. \<exists>p. w_proc (waits (kern s) w) = Some p \<and> state (procs (kern s) p) = PROC_SLEEPING)"

definition stdin_chars :: "stdin \<Rightarrow> 8 word list" where
  "stdin_chars s = map (\<lambda>i. stdin_buffer s (i mod STDIN_BUFSIZE)) [p_rpos s..<p_wpos s]"

lemma length_stdin_chars [simp]: "length (stdin_chars s) = p_wpos s - p_rpos s"
  by (simp add: stdin_chars_def)

text \<open>Positions less than a buffer size apart have their own cells.\<close>

lemma ring_cells: "i < j \<Longrightarrow> j < i + n \<Longrightarrow> i mod n \<noteq> j mod (n :: nat)"
  by (metis add.commute le_add_diff_inverse less_imp_le mod_eq_dvd_iff_nat nat_dvd_not_less nat_add_left_cancel_less zero_less_diff)

lemma stdin_chars_put:
  fixes s :: stdin and c :: "8 word"
  assumes "p_rpos s \<le> p_wpos s" and "p_wpos s - p_rpos s \<le> STDIN_BUFSIZE"
  defines "b \<equiv> (stdin_buffer s)(p_wpos s mod STDIN_BUFSIZE := c)"
  shows "p_wpos s - p_rpos s < STDIN_BUFSIZE \<Longrightarrow>
      stdin_chars (s\<lparr>stdin_buffer := b, p_wpos := p_wpos s + 1\<rparr>) = stdin_chars s @ [c]"
    and "\<not> p_wpos s - p_rpos s < STDIN_BUFSIZE \<Longrightarrow> stdin_chars (s\<lparr>stdin_buffer := b\<rparr>) = c # tl (stdin_chars s)"
proof -
  assume lt: "p_wpos s - p_rpos s < STDIN_BUFSIZE"
  have "i mod STDIN_BUFSIZE \<noteq> p_wpos s mod STDIN_BUFSIZE" if "p_rpos s \<le> i" "i < p_wpos s" for i
    by (rule ring_cells) (use that lt in auto)
  then show "stdin_chars (s\<lparr>stdin_buffer := b, p_wpos := p_wpos s + 1\<rparr>) = stdin_chars s @ [c]"
    using assms(1) by (auto simp: stdin_chars_def b_def)
next
  assume "\<not> p_wpos s - p_rpos s < STDIN_BUFSIZE"
  then have full: "p_wpos s = p_rpos s + STDIN_BUFSIZE" using assms by simp
  have pos: "0 < STDIN_BUFSIZE" by (simp add: STDIN_BUFSIZE_def)
  have u: "[p_rpos s..<p_rpos s + STDIN_BUFSIZE] = p_rpos s # [Suc (p_rpos s)..<p_rpos s + STDIN_BUFSIZE]"
    using pos by (simp add: upt_conv_Cons)
  have "i mod STDIN_BUFSIZE \<noteq> p_rpos s mod STDIN_BUFSIZE" if "Suc (p_rpos s) \<le> i" "i < p_wpos s" for i
    using ring_cells [of "p_rpos s" i STDIN_BUFSIZE] that full by simp
  then show "stdin_chars (s\<lparr>stdin_buffer := b\<rparr>) = c # tl (stdin_chars s)"
    using u by (auto simp: stdin_chars_def b_def full)
qed

text \<open>Reading: what there is comes in order, then the reader sleeps as the last in the queue.\<close>

lemma stdin_take_one:
  assumes "p_rpos s < p_wpos s"
  shows "stdin_chars s = stdin_buffer s (p_rpos s mod STDIN_BUFSIZE) # stdin_chars (s\<lparr>p_rpos := p_rpos s + 1\<rparr>)"
  using assms by (simp add: stdin_chars_def upt_conv_Cons)

lemma read_loop_enough:
  "len \<le> length got + length (stdin_chars s) \<Longrightarrow> stdin_ok s ws \<Longrightarrow>
     \<exists>s'. stdin_read_loop w len got s = Some (s', Finished (got @ take (len - length got) (stdin_chars s))) \<and>
       stdin_ok s' ws \<and> kern s' = kern s \<and> stdin_chars s' = drop (len - length got) (stdin_chars s)"
proof (induction "len - length got" arbitrary: got s)
  case 0
  then show ?case by (subst stdin_read_loop.simps) simp
next
  case (Suc n)
  let ?s = "s\<lparr>p_rpos := p_rpos s + 1\<rparr>"
  have lt: "length got < len" "p_rpos s < p_wpos s" using Suc.hyps(2) Suc.prems by auto
  note one = stdin_take_one [OF lt(2)]
  have ok: "stdin_ok ?s ws" using Suc.prems(2) lt(2) by (auto simp: stdin_ok_def)
  have l: "n = len - length (got @ [stdin_buffer s (p_rpos s mod STDIN_BUFSIZE)])"
    "len \<le> length (got @ [stdin_buffer s (p_rpos s mod STDIN_BUFSIZE)]) + length (stdin_chars ?s)"
    using Suc.hyps(2) Suc.prems(1) lt(2) by simp_all
  have "len - length got = Suc n" using Suc.hyps(2) by simp
  with Suc.hyps(1) [OF l ok] show ?case using lt l(1) by (subst stdin_read_loop.simps) (simp add: one)
qed

lemma read_loop_runs_out:
  "length got + length (stdin_chars s) < len \<Longrightarrow> p_rpos s \<le> p_wpos s \<Longrightarrow>
     stdin_read_loop w len got s = do {
       k \<leftarrow> wait_current_set (stdin_q s) w WT_KBD (kern s);
       Some (s\<lparr>p_rpos := p_wpos s, kern := k\<rparr>, Asleep (got @ stdin_chars s)) }"
proof (induction "p_wpos s - p_rpos s" arbitrary: got s)
  case 0
  then have "p_rpos s = p_wpos s" "stdin_chars s = []" by (simp_all add: stdin_chars_def)
  then show ?case using 0(2) by (subst stdin_read_loop.simps) (cases s; simp)
next
  case (Suc n)
  let ?s = "s\<lparr>p_rpos := p_rpos s + 1\<rparr>"
  have lt: "p_rpos s < p_wpos s" "length got < len" using Suc.hyps(2) Suc.prems by auto
  note one = stdin_take_one [OF lt(1)]
  have "n = p_wpos ?s - p_rpos ?s"
    "length (got @ [stdin_buffer s (p_rpos s mod STDIN_BUFSIZE)]) + length (stdin_chars ?s) < len"
    "p_rpos ?s \<le> p_wpos ?s" using Suc.hyps(2) Suc.prems lt by auto
  from Suc.hyps(1) [OF this] show ?case using lt by (subst stdin_read_loop.simps) (simp add: one)
qed

lemma WT_KBD_value: "WT_KBD = 0x80000004"
  by (simp add: WT_KBD_def WT_INTERRUPTED_def)

lemma dev_stdin_write_ok:
  assumes ok: "stdin_ok s ws" and c: "c \<noteq> 0"
  shows "\<exists>s'. dev_stdin_write RR_class c s = Some s' \<and> stdin_ok s' [] \<and>
      stdin_chars s' = (if length (stdin_chars s) < STDIN_BUFSIZE then stdin_chars s @ [c] else c # tl (stdin_chars s)) \<and>
      (\<forall>w\<in>set ws. \<forall>p. w_proc (waits (kern s) w) = Some p \<longrightarrow>
         state (procs (kern s') p) = PROC_RUNNABLE \<and> wakeup_flags (waits (kern s') w) = WT_KBD) \<and>
      (\<forall>w\<in>set ws. \<not> wait_in_queue w (kern s')) \<and> stdin_q s' = stdin_q s"
proof -
  have b: "p_rpos s \<le> p_wpos s" "p_wpos s - p_rpos s \<le> STDIN_BUFSIZE" and wq: "wq_ok (stdin_q s) (kern s) ws"
    and sch: "sched_ok rr_rel (kern s)"
    and sl: "\<forall>w\<in>set ws. \<exists>p. w_proc (waits (kern s) w) = Some p \<and> state (procs (kern s) p) = PROC_SLEEPING"
    using ok by (simp_all add: stdin_ok_def)
  let ?b = "(stdin_buffer s)(p_wpos s mod STDIN_BUFSIZE := c)"
  define s1 where "s1 = (if p_wpos s - p_rpos s < STDIN_BUFSIZE
    then s\<lparr>stdin_buffer := ?b, p_wpos := p_wpos s + 1\<rparr> else s\<lparr>stdin_buffer := ?b\<rparr>)"
  have s1: "stdin_q s1 = stdin_q s" "kern s1 = kern s" "p_rpos s1 \<le> p_wpos s1" "p_wpos s1 - p_rpos s1 \<le> STDIN_BUFSIZE"
    using b by (auto simp: s1_def)
  have chars: "stdin_chars s1 = (if length (stdin_chars s) < STDIN_BUFSIZE then stdin_chars s @ [c] else c # tl (stdin_chars s))"
    using stdin_chars_put [OF b] by (simp add: s1_def)
  have keep: "stdin_chars (s1\<lparr>kern := k\<rparr>) = stdin_chars s1" for k by (simp add: stdin_chars_def)
  have "\<exists>k. wakeup_queue RR_class (stdin_q s) WT_KBD True (kern s) = Some k \<and> wq_ok (stdin_q s) k [] \<and> sched_ok rr_rel k \<and>
      (\<forall>v\<in>set ws. wakeup_flags (waits k v) = WT_KBD \<and>
        (\<forall>p. w_proc (waits (kern s) v) = Some p \<longrightarrow> state (procs k p) = PROC_RUNNABLE)) \<and>
      (\<forall>v\<in>set ws. \<not> wait_in_queue v k) \<and> (ws = [] \<longrightarrow> k = kern s)"
  proof (cases ws)
    case Nil
    then show ?thesis using wq sch wait_queue_first_eq [OF wq] by (simp add: wakeup_queue_def)
  next
    case (Cons w vs)
    have "\<forall>v\<in>set (w # vs). \<exists>p. w_proc (waits (kern s) v) = Some p \<and> state (procs (kern s) p) \<noteq> PROC_ZOMBIE"
      using sl Cons by fastforce
    from rr.wakeup_queue_del_ok [OF wq [unfolded Cons] sch this, of WT_KBD] show ?thesis
      using Cons wait_queue_first_eq [OF wq] by (auto simp: wakeup_queue_def)
  qed
  then obtain k where k: "wakeup_queue RR_class (stdin_q s) WT_KBD True (kern s) = Some k" "wq_ok (stdin_q s) k []"
    "sched_ok rr_rel k" "\<forall>v\<in>set ws. wakeup_flags (waits k v) = WT_KBD \<and>
        (\<forall>p. w_proc (waits (kern s) v) = Some p \<longrightarrow> state (procs k p) = PROC_RUNNABLE)"
    "ws = [] \<Longrightarrow> k = kern s" "\<forall>v\<in>set ws. \<not> wait_in_queue v k" by blast
  have "ring (wait_links (kern s)) (WaitHead (stdin_q s)) (map WaitLink ws)" using wq by (simp add: wq_ok_def)
  from ring_empty_iff [OF this] have e: "wait_queue_empty (stdin_q s) (kern s) \<longleftrightarrow> ws = []"
    by (simp add: wait_queue_empty_def)
  have run: "dev_stdin_write RR_class c s = Some (s1\<lparr>kern := k\<rparr>)"
  proof (cases "ws = []")
    case True
    then have "s1\<lparr>kern := k\<rparr> = s1" using k(5) s1(2) by simp
    then show ?thesis using c e True by (simp add: dev_stdin_write_def s1_def)
  next
    case False
    then show ?thesis using c e k(1) by (simp add: dev_stdin_write_def s1_def)
  qed
  have "stdin_ok (s1\<lparr>kern := k\<rparr>) []" using s1 k(2,3) by (simp add: stdin_ok_def)
  then show "\<exists>s'. dev_stdin_write RR_class c s = Some s' \<and> stdin_ok s' [] \<and>
      stdin_chars s' = (if length (stdin_chars s) < STDIN_BUFSIZE then stdin_chars s @ [c] else c # tl (stdin_chars s)) \<and>
      (\<forall>w\<in>set ws. \<forall>p. w_proc (waits (kern s) w) = Some p \<longrightarrow>
         state (procs (kern s') p) = PROC_RUNNABLE \<and> wakeup_flags (waits (kern s') w) = WT_KBD) \<and>
      (\<forall>w\<in>set ws. \<not> wait_in_queue w (kern s')) \<and> stdin_q s' = stdin_q s"
    using run k(4,6) chars keep s1(1) by (intro exI [of _ "s1\<lparr>kern := k\<rparr>"]) simp
qed

text \<open>A read that finds too few characters takes them all and sleeps.\<close>

lemma dev_stdin_read_sleeps:
  assumes ok: "stdin_ok s ws" and c: "current (kern s) = Some p" "w \<notin> set ws" and len: "length (stdin_chars s) < len"
  shows "\<exists>s'. dev_stdin_read w len s = Some (s', Asleep (stdin_chars s)) \<and> stdin_ok s' (ws @ [w]) \<and>
    stdin_chars s' = [] \<and> w_proc (waits (kern s') w) = Some p \<and> wakeup_flags (waits (kern s') w) = WT_INTERRUPTED \<and>
    state (procs (kern s') p) = PROC_SLEEPING"
proof -
  have b: "p_rpos s \<le> p_wpos s" "wq_ok (stdin_q s) (kern s) ws" "sched_ok rr_rel (kern s)"
    and sl: "\<forall>v\<in>set ws. \<exists>x. w_proc (waits (kern s) v) = Some x \<and> state (procs (kern s) x) = PROC_SLEEPING"
    using ok by (simp_all add: stdin_ok_def)
  obtain k where k: "wait_current_set (stdin_q s) w WT_KBD (kern s) = Some k"
    "wq_ok (stdin_q s) k (ws @ [w])" "sched_ok rr_rel k" "w_proc (waits k w) = Some p" "wakeup_flags (waits k w) = WT_INTERRUPTED"
    "state (procs k p) = PROC_SLEEPING"
    "\<forall>x. x \<noteq> p \<longrightarrow> state (procs k x) = state (procs (kern s) x)" "\<forall>v. v \<noteq> w \<longrightarrow> waits k v = waits (kern s) v"
    using rr.sleep_on [OF b(2,3) c, of WT_KBD] by blast
  let ?s = "s\<lparr>p_rpos := p_wpos s, kern := k\<rparr>"
  have "dev_stdin_read w len s = Some (?s, Asleep (stdin_chars s))"
    using read_loop_runs_out [of "[]" s len w] len b(1) k(1) by (simp add: dev_stdin_read_def)
  moreover have "\<exists>x. w_proc (waits k v) = Some x \<and> state (procs k x) = PROC_SLEEPING" if v: "v \<in> set (ws @ [w])" for v
  proof (cases "v = w")
    case True
    then show ?thesis using k(4,6) by simp
  next
    case False
    then obtain x where "w_proc (waits (kern s) v) = Some x" "state (procs (kern s) x) = PROC_SLEEPING"
      using v sl by auto
    then show ?thesis using False k(6-8) by metis
  qed
  then have "stdin_ok ?s (ws @ [w])" using k(2,3) by (simp add: stdin_ok_def)
  moreover have "stdin_chars ?s = []" by (simp add: stdin_chars_def)
  ultimately show ?thesis using k(4-6) by (intro exI [of _ ?s]) simp
qed

text \<open>What calls of \<open>schedule\<close> leave as it is, whatever \<open>proc_run\<close> makes the current process.\<close>

definition rescheduled :: "kstate \<Rightarrow> kstate \<Rightarrow> bool" where
  "rescheduled k k' \<longleftrightarrow> waits k' = waits k \<and> wait_links k' = wait_links k \<and> sched_ok rr_rel k' \<and>
     (\<forall>p. state (procs k' p) = state (procs k p) \<and> wait_state (procs k' p) = wait_state (procs k p))"

lemma rescheduled_schedule:
  "sched_ok rr_rel k \<Longrightarrow> current k = Some c \<Longrightarrow>
     \<exists>k'. schedule_with proc_run_lab5 RR_class k = Some k' \<and> rescheduled k k'"
  by (erule (1) rr.schedule_lab5_ok) (auto simp: rescheduled_def)

lemma stdin_ok_rescheduled: "stdin_ok s ws \<Longrightarrow> rescheduled (kern s) k \<Longrightarrow> stdin_ok (s\<lparr>kern := k\<rparr>) ws"
  using wq_ok_cong [of "stdin_q s" "kern s" ws k] by (simp add: stdin_ok_def rescheduled_def)

lemma stdin_chars_kern [simp]: "stdin_chars (s\<lparr>kern := k\<rparr>) = stdin_chars s"
  by (simp add: stdin_chars_def)

text \<open>A reader that goes on without a key press leaves the queue and returns what it has.\<close>

lemma stdin_resume_interrupted:
  assumes ok: "stdin_ok s (ws @ [w])" and fl: "wakeup_flags (waits (kern s) w) = WT_INTERRUPTED"
  shows "\<exists>s'. dev_stdin_resume w len got s = Some (s', Finished got) \<and> stdin_ok s' ws \<and> stdin_chars s' = stdin_chars s"
proof -
  have wq: "wq_ok (stdin_q s) (kern s) (ws @ w # [])" using ok by (simp add: stdin_ok_def)
  obtain k where k: "wait_queue_del (stdin_q s) w (kern s) = Some k" "wq_ok (stdin_q s) k ws"
    "k = (kern s)\<lparr>wait_links := list_del_init (WaitLink w) (wait_links (kern s))\<rparr>"
    using wait_queue_del_ok [OF wq] by auto
  have "ring (wait_links (kern s)) (WaitHead (stdin_q s)) (map WaitLink ws @ WaitLink w # [])"
    using wq by (simp add: wq_ok_def)
  from ring_member_next [OF this] have "wait_in_queue w (kern s)" by (simp add: wait_in_queue_def)
  then have "dev_stdin_resume w len got s = Some (s\<lparr>kern := k\<rparr>, Finished got)"
    using k(1) fl by (simp add: dev_stdin_resume_def wait_current_del_def k(3) WT_KBD_value WT_INTERRUPTED_def)
  moreover have "sched_ok rr_rel k"
    by (rule rr.sched_ok_cong [of "kern s"]) (use ok in \<open>simp_all add: stdin_ok_def same_rq_def k(3)\<close>)
  then have "stdin_ok (s\<lparr>kern := k\<rparr>) ws" using ok k(2,3) by (simp add: stdin_ok_def)
  ultimately show ?thesis by simp
qed

section \<open>Initialisation and opening\<close>

lemma stdin_device_init_ok:
  assumes "sched_ok rr_rel (kern s)"
  shows "stdin_ok (stdin_device_init s) []" and "stdin_chars (stdin_device_init s) = []"
proof -
  have "sched_ok rr_rel (wait_queue_init (stdin_q s) (kern s))"
    by (rule rr.sched_ok_cong [OF assms]) (simp_all add: same_rq_def wait_queue_init_def)
  then show "stdin_ok (stdin_device_init s) []"
    by (simp add: stdin_ok_def stdin_device_init_def wq_ok_def wait_queue_init_def ring_list_init)
  show "stdin_chars (stdin_device_init s) = []" by (simp add: stdin_chars_def stdin_device_init_def)
qed

text \<open>The two devices open in one mode only, and the file position of a character device never moves.\<close>

lemma dev_open_console:
  "dev_open stdin_open fl = (if fl = O_RDONLY then 0 else - E_INVAL)"
  "dev_open stdout_open fl = (if fl = O_WRONLY then 0 else - E_INVAL)"
  by (simp_all add: dev_open_def stdin_open_def stdout_open_def open_flags)

lemma dev_tryseek_console: "dev_tryseek 0 1 pos = - E_INVAL"
  by (simp add: dev_tryseek_def)

lemma stdout_io_write: "stdout_io m iob True = (bytes m (io_base iob) (io_resid iob), iob\<lparr>io_resid := 0\<rparr>, 0)"
proof -
  have "stdout_loop m data n = bytes m data n" for data n
    by (induction n arbitrary: data) (simp_all add: bytes_Suc)
  then show ?thesis by (simp add: stdout_io_def)
qed

text \<open>After a finished read of the device \<open>iobuf_used\<close> is the number of characters.\<close>

lemma stdin_io_used:
  "length got \<le> len \<Longrightarrow> len < 2 ^ 64 \<Longrightarrow>
     iobuf_used (fst (stdin_io_done got (iobuf_init base len off))) = length got \<and>
     snd (stdin_io_done got (iobuf_init base len off)) = int (length got)"
proof -
  assume "length got \<le> len" "len < 2 ^ 64"
  then have "len + (2 ^ 64 - (len - length got)) = 2 ^ 64 + length got" "len - length got < 2 ^ 64" by auto
  moreover have "u64 (2 ^ 64 + length got) = length got" using \<open>length got \<le> len\<close> \<open>len < 2 ^ 64\<close> by (simp add: u64_def)
  moreover have "fst (stdin_io_done got (iobuf_init base len off)) = (iobuf_init base len off)\<lparr>io_resid := len - length got\<rparr>"
    by (simp add: stdin_io_done_def iobuf_init_def Let_def)
  moreover have "snd (stdin_io_done got (iobuf_init base len off)) = int (length got)" by (simp add: stdin_io_done_def Let_def)
  ultimately show ?thesis by (simp add: iobuf_used_def iobuf_init_def)
qed

section \<open>Properties\<close>

text \<open>A key press: with room in the ring the character joins the unread ones at the end; with
  4096 unread characters it takes the place of the oldest one, so that the newest character
  is read first.  Every process that waits for the keyboard is made runnable and leaves the
  queue.  A zero byte is dropped.\<close>

theorem dev_stdin_write_queues:
  assumes "stdin_ok s ws"
  shows "dev_stdin_write RR_class 0 s = Some s \<and>
    (c \<noteq> 0 \<longrightarrow> (\<exists>s'. dev_stdin_write RR_class c s = Some s' \<and> stdin_ok s' [] \<and>
      stdin_chars s' = (if length (stdin_chars s) < STDIN_BUFSIZE then stdin_chars s @ [c] else c # tl (stdin_chars s)) \<and>
      (\<forall>w\<in>set ws. \<forall>p. w_proc (waits (kern s) w) = Some p \<longrightarrow>
         state (procs (kern s') p) = PROC_RUNNABLE \<and> wakeup_flags (waits (kern s') w) = WT_KBD)))"
  using dev_stdin_write_ok [OF assms, of c] by (auto simp: dev_stdin_write_def)


text \<open>Process 3 waits for the keyboard; the ring holds two characters.\<close>

definition stdin_sample :: stdin where
  "stdin_sample = \<lparr>stdin_buffer = (\<lambda>_. 0)(4095 := 97, 0 := 98), p_rpos = 4095, p_wpos = 4097, stdin_q = 0, kern = sem_sample\<rparr>"

lemma stdin_sample_chars: "stdin_chars stdin_sample = [97, 98]"
proof -
  have "[4095..<4097] = [4095, 4096 :: nat]" by (simp add: upt_rec)
  then show ?thesis by (simp add: stdin_chars_def stdin_sample_def STDIN_BUFSIZE_def)
qed

lemma stdin_sample_kern: "kern stdin_sample = sem_sample"
  by (simp add: stdin_sample_def)

lemma stdin_sample_ok: "stdin_ok stdin_sample [7]"
  using sem_sample_wq sem_sample_sched by (simp add: stdin_ok_def stdin_sample_def STDIN_BUFSIZE_def sem_sample_fields)

lemma dev_stdin_write_queues_witness:
  "\<exists>s'. dev_stdin_write RR_class 99 stdin_sample = Some s' \<and> stdin_chars s' = [97, 98, 99] \<and>
    state (procs (kern s') 3) = PROC_RUNNABLE"
  using dev_stdin_write_queues [OF stdin_sample_ok, of 99]
  by (auto simp: stdin_sample_chars STDIN_BUFSIZE_def stdin_sample_kern sem_sample_fields)

lemma rescheduled_refl: "sched_ok rr_rel k \<Longrightarrow> rescheduled k k"
  by (simp add: rescheduled_def)


end
