(* ===== verification/Sysfile.thy ===== *)
theory Sysfile
  imports Vmm Console
begin

text \<open>
  The system calls on files (\<open>kern/fs/sysfile.c\<close>) and the copying between user and kernel
  memory (\<open>copy_from_user\<close>, \<open>copy_to_user\<close>, \<open>copy_string\<close> of \<open>mm/vmm.c\<close>).  The memory of the
  current address space, user and kernel part, is \<open>wmem\<close> in the state below the file layer, so
  that inodes read and write it.  \<open>mm_sem\<close> is not contended here and \<open>lock_mm\<close> is left out.  The
  result of a \<open>kmalloc\<close> is an argument; \<open>kfree\<close> of the buffer has no effect on this state.
\<close>

section \<open>State\<close>

record 'w world =
  wmem :: mem
  wrest :: 'w

record 'w sys =
  files :: "'w world files_struct"
  vm :: vmm
  cur_mm :: "nat option"

definition sys_mem :: "'w sys \<Rightarrow> mem" where
  "sys_mem s = wmem (fsw (fvfs (files s)))"

definition upd_mem :: "(mem \<Rightarrow> mem) \<Rightarrow> 'w sys \<Rightarrow> 'w sys" where
  "upd_mem f s = s\<lparr>files := (files s)\<lparr>fvfs := (fvfs (files s))\<lparr>fsw := (fsw (fvfs (files s)))\<lparr>wmem := f (sys_mem s)\<rparr>\<rparr>\<rparr>\<rparr>"

section \<open>Copying from and to user memory\<close>

definition user_check :: "nat option \<Rightarrow> nat \<Rightarrow> nat \<Rightarrow> bool \<Rightarrow> 'w sys \<Rightarrow> ('w sys \<times> bool) option" where
  "user_check mm addr len wr s = do {
     (v, ok) \<leftarrow> user_mem_check mm addr len wr (vm s);
     Some (s\<lparr>vm := v\<rparr>, ok) }"

definition copy_from_user :: "nat option \<Rightarrow> nat \<Rightarrow> nat \<Rightarrow> nat \<Rightarrow> bool \<Rightarrow> 'w sys \<Rightarrow> ('w sys \<times> bool) option" where
  "copy_from_user mm dst src len writable s = do {
     (s, ok) \<leftarrow> user_check mm src len writable s;
     Some (if \<not> ok then (s, False) else (upd_mem (memcpy dst src len) s, True)) }"

definition copy_to_user :: "nat option \<Rightarrow> nat \<Rightarrow> nat \<Rightarrow> nat \<Rightarrow> 'w sys \<Rightarrow> ('w sys \<times> bool) option" where
  "copy_to_user mm dst src len s = do {
     (s, ok) \<leftarrow> user_check mm dst len True s;
     Some (if \<not> ok then (s, False) else (upd_mem (memcpy dst src len) s, True)) }"

partial_function (option) copy_string_loop ::
    "nat option \<Rightarrow> nat \<Rightarrow> nat \<Rightarrow> nat \<Rightarrow> nat \<Rightarrow> 'w sys \<Rightarrow> ('w sys \<times> bool) option" where
  "copy_string_loop mm dst src maxn part s =
    (let part = (if maxn < part then maxn else part) in do {
       (s, ok) \<leftarrow> user_check mm src part False s;
       if \<not> ok then Some (s, False)
       else (let alen = strnlen (sys_mem s) src part
             in if alen < part then Some (upd_mem (memcpy dst src (alen + 1)) s, True)
                else if part = maxn then Some (s, False)
                else copy_string_loop mm (dst + part) (src + part) (maxn - part) PGSIZE
                       (upd_mem (memcpy dst src part) s)) })"

definition copy_string :: "nat option \<Rightarrow> nat \<Rightarrow> nat \<Rightarrow> nat \<Rightarrow> 'w sys \<Rightarrow> ('w sys \<times> bool) option" where
  "copy_string mm dst src maxn s =
    copy_string_loop mm dst src maxn (ROUNDDOWN (src + PGSIZE) PGSIZE - src) s"

section \<open>System calls\<close>

definition IOBUF_SIZE :: nat where "IOBUF_SIZE = 4096"
definition FS_MAX_FPATH_LEN :: nat where "FS_MAX_FPATH_LEN = 4095"

text \<open>The path in a kernel buffer, as the file layer sees it.\<close>

definition path_at :: "nat \<Rightarrow> 'w sys \<Rightarrow> string" where
  "path_at p s = map (\<lambda>b. char_of (unat b)) (bytes (sys_mem s) p (strnlen (sys_mem s) p (FS_MAX_FPATH_LEN + 1)))"

definition copy_path :: "nat option \<Rightarrow> nat \<Rightarrow> 'w sys \<Rightarrow> ('w sys \<times> int) option" where
  "copy_path buf from s =
    (case buf of
       None \<Rightarrow> Some (s, - E_NO_MEM)
     | Some buffer \<Rightarrow> do {
         (s, ok) \<leftarrow> copy_string (cur_mm s) buffer from (FS_MAX_FPATH_LEN + 1) s;
         Some (s, if ok then 0 else - E_INVAL) })"

definition on_files ::
    "('w world files_struct \<Rightarrow> ('w world files_struct \<times> 'a) option) \<Rightarrow> 'w sys \<Rightarrow> ('w sys \<times> 'a) option" where
  "on_files f s = do { (t, r) \<leftarrow> f (files s); Some (s\<lparr>files := t\<rparr>, r) }"

definition on_vfs ::
    "('w world vfs \<Rightarrow> ('w world vfs \<times> 'a) option) \<Rightarrow> 'w sys \<Rightarrow> ('w sys \<times> 'a) option" where
  "on_vfs f s = do { (v, r) \<leftarrow> f (fvfs (files s)); Some (s\<lparr>files := (files s)\<lparr>fvfs := v\<rparr>\<rparr>, r) }"

definition sysfile_open :: "'w world layer \<Rightarrow> nat option \<Rightarrow> nat \<Rightarrow> 32 word \<Rightarrow> 'w sys \<Rightarrow> ('w sys \<times> int) option" where
  "sysfile_open L buf path open_flags s = do {
     (s, ret) \<leftarrow> copy_path buf path s;
     if ret \<noteq> 0 then Some (s, ret)
     else on_files (file_open L (path_at (the buf) s) open_flags) s }"

definition sysfile_close :: "'w world layer \<Rightarrow> int \<Rightarrow> 'w sys \<Rightarrow> ('w sys \<times> int) option" where
  "sysfile_close L fd s = on_files (file_close L fd) s"

partial_function (option) sysfile_read_loop ::
    "'w world layer \<Rightarrow> int \<Rightarrow> nat \<Rightarrow> nat \<Rightarrow> nat \<Rightarrow> nat \<Rightarrow> int \<Rightarrow> 'w sys \<Rightarrow> ('w sys \<times> int) option" where
  "sysfile_read_loop L fd buffer base len copied ret s =
    (if len = 0 then Some (s, if copied \<noteq> 0 then int copied else ret)
     else do {
       (t, alen, ret) \<leftarrow> file_read L fd buffer (min IOBUF_SIZE len) (files s);
       let s = s\<lparr>files := t\<rparr>;
       (s, base, len, copied, ret) \<leftarrow>
         (if alen \<noteq> 0 then do {
            (s, ok) \<leftarrow> copy_to_user (cur_mm s) base buffer alen s;
            if ok then do { assert_k (alen \<le> len); Some (s, base + alen, len - alen, copied + alen, ret) }
            else Some (s, base, len, copied, if ret = 0 then - E_INVAL else ret) }
          else Some (s, base, len, copied, ret));
       if ret \<noteq> 0 \<or> alen = 0 then Some (s, if copied \<noteq> 0 then int copied else ret)
       else sysfile_read_loop L fd buffer base len copied ret s })"

definition sysfile_read ::
    "'w world layer \<Rightarrow> nat option \<Rightarrow> int \<Rightarrow> nat \<Rightarrow> nat \<Rightarrow> 'w sys \<Rightarrow> ('w sys \<times> int) option" where
  "sysfile_read L buf fd base len s =
    (if len = 0 then Some (s, 0)
     else do {
       ok \<leftarrow> file_testfd fd True False (files s);
       if \<not> ok then Some (s, - E_INVAL)
       else case buf of
              None \<Rightarrow> Some (s, - E_NO_MEM)
            | Some buffer \<Rightarrow> sysfile_read_loop L fd buffer base len 0 0 s })"

partial_function (option) sysfile_write_loop ::
    "'w world layer \<Rightarrow> int \<Rightarrow> nat \<Rightarrow> nat \<Rightarrow> nat \<Rightarrow> nat \<Rightarrow> int \<Rightarrow> 'w sys \<Rightarrow> ('w sys \<times> int) option" where
  "sysfile_write_loop L fd buffer base len copied ret s =
    (if len = 0 then Some (s, if copied \<noteq> 0 then int copied else ret)
     else do {
       let alen = min IOBUF_SIZE len;
       (s, ok) \<leftarrow> copy_from_user (cur_mm s) buffer base alen False s;
       let ret = (if \<not> ok then - E_INVAL else ret);
       (s, base, len, copied, alen, ret) \<leftarrow>
         (if ret = 0 then do {
            (t, alen, ret) \<leftarrow> file_write L fd buffer alen (files s);
            let s = s\<lparr>files := t\<rparr>;
            if alen \<noteq> 0 then do { assert_k (alen \<le> len); Some (s, base + alen, len - alen, copied + alen, alen, ret) }
            else Some (s, base, len, copied, alen, ret) }
          else Some (s, base, len, copied, alen, ret));
       if ret \<noteq> 0 \<or> alen = 0 then Some (s, if copied \<noteq> 0 then int copied else ret)
       else sysfile_write_loop L fd buffer base len copied ret s })"

definition sysfile_write ::
    "'w world layer \<Rightarrow> nat option \<Rightarrow> int \<Rightarrow> nat \<Rightarrow> nat \<Rightarrow> 'w sys \<Rightarrow> ('w sys \<times> int) option" where
  "sysfile_write L buf fd base len s =
    (if len = 0 then Some (s, 0)
     else do {
       ok \<leftarrow> file_testfd fd False True (files s);
       if \<not> ok then Some (s, - E_INVAL)
       else case buf of
              None \<Rightarrow> Some (s, - E_NO_MEM)
            | Some buffer \<Rightarrow> sysfile_write_loop L fd buffer base len 0 0 s })"

definition sysfile_seek :: "'w world layer \<Rightarrow> int \<Rightarrow> int \<Rightarrow> int \<Rightarrow> 'w sys \<Rightarrow> ('w sys \<times> int) option" where
  "sysfile_seek L fd pos whence s = on_files (file_seek L fd pos whence) s"

definition sysfile_fsync :: "'w world layer \<Rightarrow> int \<Rightarrow> 'w sys \<Rightarrow> ('w sys \<times> int) option" where
  "sysfile_fsync L fd s = on_files (file_fsync L fd) s"

definition sysfile_chdir :: "'w world layer \<Rightarrow> nat option \<Rightarrow> nat \<Rightarrow> 'w sys \<Rightarrow> ('w sys \<times> int) option" where
  "sysfile_chdir L buf path s = do {
     (s, ret) \<leftarrow> copy_path buf path s;
     if ret \<noteq> 0 then Some (s, ret)
     else on_vfs (vfs_chdir L (path_at (the buf) s)) s }"

text \<open>\<open>vfs_link\<close>, \<open>vfs_rename\<close> and \<open>vfs_unlink\<close> only return \<open>-E_UNIMP\<close>.\<close>

definition sysfile_link :: "nat option \<Rightarrow> nat option \<Rightarrow> nat \<Rightarrow> nat \<Rightarrow> 'w sys \<Rightarrow> ('w sys \<times> int) option" where
  "sysfile_link buf1 buf2 path1 path2 s = do {
     (s, ret) \<leftarrow> copy_path buf1 path1 s;
     if ret \<noteq> 0 then Some (s, ret)
     else do {
       (s, ret) \<leftarrow> copy_path buf2 path2 s;
       Some (s, if ret \<noteq> 0 then ret else - E_UNIMP) } }"

definition sysfile_unlink :: "nat option \<Rightarrow> nat \<Rightarrow> 'w sys \<Rightarrow> ('w sys \<times> int) option" where
  "sysfile_unlink buf path s = do {
     (s, ret) \<leftarrow> copy_path buf path s;
     Some (s, if ret \<noteq> 0 then ret else - E_UNIMP) }"

definition sysfile_dup :: "int \<Rightarrow> int \<Rightarrow> 'w sys \<Rightarrow> ('w sys \<times> int) option" where
  "sysfile_dup fd1 fd2 s = on_files (file_dup fd1 fd2) s"

section \<open>Memory\<close>

lemma sys_mem_upd [simp]:
  "sys_mem (upd_mem f s) = f (sys_mem s)" "vm (upd_mem f s) = vm s" "cur_mm (upd_mem f s) = cur_mm s"
  "sys_mem (s\<lparr>vm := v\<rparr>) = sys_mem s"
  by (simp_all add: sys_mem_def upd_mem_def)

lemma user_ok_top: "vm_ok m vs s \<Longrightarrow> user_ok s vs wr a \<Longrightarrow> a < USERTOP"
  by (fastforce simp: vm_ok_def user_ok_def in_vma_def)

text \<open>\<open>user_mem_check\<close> on a range above \<open>USERBASE\<close> that is neither empty nor wraps around.\<close>

lemma user_check_ok:
  assumes "vm_ok m vs (vm s)" and "USERBASE \<le> addr" and "0 < len" and "addr + len < 2 ^ 64"
  shows "\<exists>v. user_check (Some m) addr len wr s = Some (s\<lparr>vm := v\<rparr>, \<forall>a. addr \<le> a \<and> a < addr + len \<longrightarrow> user_ok (vm s) vs wr a) \<and>
    vm_ok m vs v \<and> vmas v = vmas (vm s)"
proof (cases "addr + len \<le> USERTOP")
  case True
  then have "USER_ACCESS addr (addr + len)" using assms(2,3) by (simp add: USER_ACCESS_def)
  then show ?thesis
    using user_mem_loop_ok [OF assms(1), of addr "addr + len" wr] assms(4)
    by (auto simp: user_check_def user_mem_check_def)
next
  case False
  then have "\<not> USER_ACCESS addr (addr + len)" by (simp add: USER_ACCESS_def)
  then have "user_check (Some m) addr len wr s = Some (s\<lparr>vm := vm s\<rparr>, False)"
    using assms(4) by (simp add: user_check_def user_mem_check_def)
  moreover have "\<not> (\<forall>a. addr \<le> a \<and> a < addr + len \<longrightarrow> user_ok (vm s) vs wr a)"
    using False assms(3) user_ok_top [OF assms(1), of wr "addr + len - 1"] by (auto intro!: exI [of _ "addr + len - 1"])
  ultimately show ?thesis using assms(1) by fastforce
qed

section \<open>Strings from user memory\<close>

lemma strnlen_loop_bounds:
  "k \<le> len \<Longrightarrow> k \<le> strnlen_loop m s len k \<and> strnlen_loop m s len k \<le> len \<and>
     (\<forall>i. i < strnlen_loop m s len k - k \<longrightarrow> m (s + i) \<noteq> 0) \<and>
     (strnlen_loop m s len k < len \<longrightarrow> m (s + (strnlen_loop m s len k - k)) = 0)"
proof (induction m s len k rule: strnlen_loop.induct)
  case (1 m s len k)
  show ?case
  proof (cases "k < len \<and> m s \<noteq> 0")
    case False
    then show ?thesis using 1(2) by (subst (1 2 3 4 5) strnlen_loop.simps) auto
  next
    case True
    let ?r = "strnlen_loop m (s + 1) len (k + 1)"
    have r: "strnlen_loop m s len k = ?r" using True by (subst strnlen_loop.simps) simp
    have IH: "k + 1 \<le> ?r" "?r \<le> len" "\<forall>i. i < ?r - (k + 1) \<longrightarrow> m (s + 1 + i) \<noteq> 0"
      "?r < len \<longrightarrow> m (s + 1 + (?r - (k + 1))) = 0" using 1(1) [OF True] True by auto
    have "m (s + i) \<noteq> 0" if "i < ?r - k" for i
      using True IH(3) that by (cases i) auto
    moreover have e: "s + 1 + (?r - (k + 1)) = s + (?r - k)" using IH(1) by simp
    moreover have "?r < len \<longrightarrow> m (s + (?r - k)) = 0" using IH(4) unfolding e .
    moreover have "k \<le> ?r" using IH(1) by simp
    ultimately show ?thesis unfolding r using IH(2) by blast
  qed
qed

lemma strnlen_spec:
  "strnlen m s len \<le> len" "i < strnlen m s len \<Longrightarrow> m (s + i) \<noteq> 0" "strnlen m s len < len \<Longrightarrow> m (s + strnlen m s len) = 0"
  using strnlen_loop_bounds [of 0 len] by (auto simp: strnlen_def)

lemma strnlen_eqI:
  assumes "n \<le> len" and "\<And>i. i < n \<Longrightarrow> m (s + i) \<noteq> 0" and "n < len \<Longrightarrow> m (s + n) = 0"
  shows "strnlen m s len = n"
proof (rule linorder_cases [of "strnlen m s len" n])
  assume "strnlen m s len < n"
  then show ?thesis using strnlen_spec(3) [of m s len] assms(1,2) by fastforce
next
  assume "n < strnlen m s len"
  then show ?thesis using strnlen_spec(1) [of m s len] strnlen_spec(2) [of n m s len] assms(3) by fastforce
qed

lemma strnlen_cong:
  "(\<And>i. i < len \<Longrightarrow> m' (s + i) = m (s + i)) \<Longrightarrow> strnlen m' s len = strnlen m s len"
  by (rule strnlen_eqI) (use strnlen_spec(1,3) [of m s len] strnlen_spec(2) [of _ m s len] in auto)

lemma strnlen_split:
  assumes "p \<le> len" and "strnlen m s p = p"
  shows "strnlen m s len = p + strnlen m (s + p) (len - p)"
proof (rule strnlen_eqI)
  let ?n = "strnlen m (s + p) (len - p)"
  show "p + ?n \<le> len" using strnlen_spec(1) [of m "s + p" "len - p"] assms(1) by simp
  show "m (s + i) \<noteq> 0" if "i < p + ?n" for i
    using that strnlen_spec(2) [of i m s p] strnlen_spec(2) [of "i - p" m "s + p" "len - p"] assms
    by (cases "i < p") auto
  show "m (s + (p + ?n)) = 0" if "p + ?n < len"
    using that strnlen_spec(3) [of m "s + p" "len - p"] by (simp add: add.assoc)
qed

text \<open>The end of the page of an address.\<close>

definition page_end :: "nat \<Rightarrow> nat" where
  "page_end a = ROUNDDOWN a PGSIZE + PGSIZE"

lemma page_end_div: "page_end a = (a div PGSIZE + 1) * PGSIZE"
  by (simp add: page_end_def ROUNDDOWN_def minus_mod_eq_mult_div mult.commute)

lemma PGSIZE_pos [simp]: "0 < PGSIZE"
  by (simp add: PGSIZE_def)

lemma page_end_bounds: "a < page_end a" "page_end a \<le> a + PGSIZE" "page_end a mod PGSIZE = 0"
  using dividend_less_div_times [OF PGSIZE_pos, of a] div_times_less_eq_dividend [of a PGSIZE]
  by (simp_all add: page_end_div)

lemma page_end_mono: "a \<le> b \<Longrightarrow> page_end a \<le> page_end b"
  unfolding page_end_div by (intro mult_le_mono add_le_mono div_le_mono) simp_all

lemma page_end_same: "a \<le> b \<Longrightarrow> b < page_end a \<Longrightarrow> page_end b = page_end a"
proof -
  assume "a \<le> b" "b < page_end a"
  then have "a div PGSIZE \<le> b div PGSIZE" "b div PGSIZE < a div PGSIZE + 1"
    by (simp_all add: div_le_mono page_end_div less_mult_imp_div_less del: add_Suc_right add_mult_distrib mult_Suc)
  then show ?thesis by (simp add: page_end_div)
qed

lemma page_end_next: "page_end (page_end a) = page_end a + PGSIZE"
  using page_end_div [of "page_end a"] by (simp add: page_end_div [of a])

text \<open>\<open>string_ok\<close>: a string of less than \<open>maxn\<close> bytes, readable up to the end of its last page.\<close>

definition string_ok :: "nat list \<Rightarrow> nat \<Rightarrow> nat \<Rightarrow> 'w sys \<Rightarrow> bool" where
  "string_ok vs src maxn s \<longleftrightarrow>
    (let n = strnlen (sys_mem s) src maxn
     in n < maxn \<and> (\<forall>a. src \<le> a \<and> a < min (src + maxn) (page_end (src + n)) \<longrightarrow> user_ok (vm s) vs False a))"

lemma copy_string_loop_ok:
  assumes "vm_ok m vs (vm s)" and "USERBASE \<le> src" and "0 < maxn" and "src + maxn < 2 ^ 64"
    and "dst + maxn \<le> src \<or> src + maxn \<le> dst"
  shows "\<exists>s'. copy_string_loop (Some m) dst src maxn (page_end src - src) s = Some (s', string_ok vs src maxn s) \<and>
    vm_ok m vs (vm s') \<and> (\<forall>x. x < dst \<or> dst + maxn \<le> x \<longrightarrow> sys_mem s' x = sys_mem s x) \<and>
    (string_ok vs src maxn s \<longrightarrow> (\<forall>i. i \<le> strnlen (sys_mem s) src maxn \<longrightarrow> sys_mem s' (dst + i) = sys_mem s (src + i)))"
  using assms
proof (induction maxn arbitrary: dst src s rule: less_induct)
  case (less maxn)
  define part where "part = page_end src - src"
  define P where "P = min part maxn"
  define n where "n = strnlen (sys_mem s) src maxn"
  have part: "0 < part" "src + part = page_end src" using page_end_bounds(1) [of src] by (simp_all add: part_def)
  have P: "0 < P" "P \<le> maxn" "src + P < 2 ^ 64" using part less.prems(3,4) by (auto simp: P_def)
  obtain v where v: "user_check (Some m) src P False s = Some (s\<lparr>vm := v\<rparr>, \<forall>a. src \<le> a \<and> a < src + P \<longrightarrow> user_ok (vm s) vs False a)"
    "vm_ok m vs v" "vmas v = vmas (vm s)" using user_check_ok [OF less.prems(1,2) P(1,3)] by blast
  have cover: "src + P \<le> min (src + maxn) (page_end (src + n))"
    using P(2) part(2) page_end_mono [of src "src + n"] by (simp add: P_def)
  have Pd: "(if maxn < part then maxn else part) = P" by (simp add: P_def min_def)
  have user_step: "copy_string_loop (Some m) dst src maxn part s =
    (if \<forall>a. src \<le> a \<and> a < src + P \<longrightarrow> user_ok (vm s) vs False a then
       (let alen = strnlen (sys_mem s) src P in
        if alen < P then Some (upd_mem (memcpy dst src (alen + 1)) (s\<lparr>vm := v\<rparr>), True)
        else if P = maxn then Some (s\<lparr>vm := v\<rparr>, False)
        else copy_string_loop (Some m) (dst + P) (src + P) (maxn - P) PGSIZE (upd_mem (memcpy dst src P) (s\<lparr>vm := v\<rparr>)))
     else Some (s\<lparr>vm := v\<rparr>, False))"
    by (subst copy_string_loop.simps) (auto simp: Pd v(1))
  show ?case
  proof (cases "\<forall>a. src \<le> a \<and> a < src + P \<longrightarrow> user_ok (vm s) vs False a")
    case False
    then have "\<not> string_ok vs src maxn s" using cover by (fastforce simp: string_ok_def n_def [symmetric] Let_def)
    then show ?thesis using user_step False v(2) by (simp add: part_def)
  next
    case ok: True
    show ?thesis
    proof (cases "strnlen (sys_mem s) src P < P")
      case True
      have "n = strnlen (sys_mem s) src P" unfolding n_def
        by (rule strnlen_eqI) (use True P(2) strnlen_spec(2) [of _ "sys_mem s" src P] strnlen_spec(3) [of "sys_mem s" src P] in auto)
      then have n: "n < P" "n = strnlen (sys_mem s) src P" using True by simp_all
      have "page_end (src + n) = page_end src" by (rule page_end_same) (use n(1) part(2) in \<open>simp_all add: P_def\<close>)
      then have E: "min (src + maxn) (page_end (src + n)) = src + P" using part(2) by (simp add: P_def min_def)
      have "n < maxn" using n(1) P(2) by simp
      then have "string_ok vs src maxn s" unfolding string_ok_def Let_def n_def [symmetric] E using ok by blast
      moreover have "dst \<le> src \<or> src + (n + 1) \<le> dst" using less.prems(5) n(1) P(2) by auto
      then have "memcpy dst src (n + 1) (sys_mem s) x = (if dst \<le> x \<and> x < dst + (n + 1) then sys_mem s (src + (x - dst)) else sys_mem s x)" for x
        by (rule memcpy_apply)
      ultimately show ?thesis using user_step ok True v(2,3) n P(2)
        by (simp add: part_def Let_def n_def [symmetric])
    next
      case False
      then have full: "strnlen (sys_mem s) src P = P" using strnlen_spec(1) [of "sys_mem s" src P] by simp
      show ?thesis
      proof (cases "P = maxn")
        case True
        then have "\<not> string_ok vs src maxn s" using full by (simp add: string_ok_def)
        then show ?thesis using user_step ok full True v(2) by (simp add: part_def Let_def)
      next
        case nP: False
        then have Pp: "P = part" "P < maxn" using P(2) by (auto simp: P_def)
        let ?s = "upd_mem (memcpy dst src P) (s\<lparr>vm := v\<rparr>)"
        have dis: "dst \<le> src \<or> src + P \<le> dst" using less.prems(5) P(2) by auto
        have mem: "sys_mem ?s x = (if dst \<le> x \<and> x < dst + P then sys_mem s (src + (x - dst)) else sys_mem s x)" for x
          using memcpy_apply [OF dis, of "sys_mem s" x] by simp
        have nxt: "page_end (src + P) - (src + P) = PGSIZE" using part(2) Pp(1) page_end_next [of src] by simp
        have dis': "dst + P + (maxn - P) \<le> src + P \<or> src + P + (maxn - P) \<le> dst + P"
          using less.prems(5) P(2) by auto
        have pre: "maxn - P < maxn" "vm_ok m vs (vm ?s)" "USERBASE \<le> src + P" "0 < maxn - P" "src + P + (maxn - P) < 2 ^ 64"
          using less.prems P Pp v(2) by simp_all
        from less.IH [OF pre dis'] obtain s' where s': "copy_string_loop (Some m) (dst + P) (src + P) (maxn - P) PGSIZE ?s =
            Some (s', string_ok vs (src + P) (maxn - P) ?s)" "vm_ok m vs (vm s')"
          "\<forall>x. x < dst + P \<or> dst + P + (maxn - P) \<le> x \<longrightarrow> sys_mem s' x = sys_mem ?s x"
          "string_ok vs (src + P) (maxn - P) ?s \<longrightarrow>
             (\<forall>i. i \<le> strnlen (sys_mem ?s) (src + P) (maxn - P) \<longrightarrow> sys_mem s' (dst + P + i) = sys_mem ?s (src + P + i))"
          unfolding nxt by blast
        have src: "sys_mem ?s (src + P + i) = sys_mem s (src + P + i)" if "i < maxn - P" for i
          using mem less.prems(5) that by auto
        have len: "strnlen (sys_mem ?s) (src + P) (maxn - P) = strnlen (sys_mem s) (src + P) (maxn - P)"
          by (rule strnlen_cong) (rule src)
        have n: "n = P + strnlen (sys_mem s) (src + P) (maxn - P)"
          unfolding n_def by (rule strnlen_split) (use P(2) full in simp_all)
        have u: "user_ok (vm ?s) vs False a = user_ok (vm s) vs False a" for a
          by (rule user_ok_cong) (simp add: v(3))
        have e: "src + P + strnlen (sys_mem s) (src + P) (maxn - P) = src + n" "src + P + (maxn - P) = src + maxn"
          using n P(2) by simp_all
        have so: "string_ok vs (src + P) (maxn - P) ?s = string_ok vs src maxn s"
          using ok cover P(2) n unfolding string_ok_def Let_def len u e n_def [symmetric]
          by (auto simp: not_le) (metis le_eq_less_or_eq nat_le_linear not_less)
        have run: "copy_string_loop (Some m) dst src maxn part s = Some (s', string_ok vs src maxn s)"
          using user_step ok full nP s'(1) so by (simp add: Let_def)
        moreover have "sys_mem s' x = sys_mem s x" if "x < dst \<or> dst + maxn \<le> x" for x
          using s'(3) mem that P(2) by auto
        moreover have "sys_mem s' (dst + i) = sys_mem s (src + i)" if so': "string_ok vs src maxn s" and i: "i \<le> n" for i
        proof (cases "i < P")
          case True
          then show ?thesis using s'(3) mem by simp
        next
          case False
          have "n < maxn" using so' by (simp add: string_ok_def n_def [symmetric] Let_def)
          then have lt: "i - P < maxn - P" using i False by simp
          have "i - P \<le> strnlen (sys_mem ?s) (src + P) (maxn - P)" unfolding len using n i False by simp
          then have "sys_mem s' (dst + P + (i - P)) = sys_mem ?s (src + P + (i - P))"
            using s'(4) so so' by blast
          also have "\<dots> = sys_mem s (src + P + (i - P))" by (rule src [OF lt])
          finally have "sys_mem s' (dst + P + (i - P)) = sys_mem s (src + P + (i - P))" .
          then show ?thesis using False by simp
        qed
        ultimately show ?thesis using s'(2) by (simp add: part_def n_def [symmetric])
      qed
    qed
  qed
qed

section \<open>Writing to the console\<close>

text \<open>\<open>vop_write\<close> of the device \<open>stdout\<close>: \<open>dev_write\<close> calls \<open>stdout_io\<close>.  What has been
  printed is the rest of the state.\<close>

definition stdout_write ::
    "nat \<Rightarrow> iobuf \<Rightarrow> (8 word list) world vfs \<Rightarrow> ((8 word list) world vfs \<times> iobuf \<times> int) option" where
  "stdout_write n iob v =
    (case stdout_io (wmem (fsw v)) iob True of
       (cs, iob, ret) \<Rightarrow> Some (v\<lparr>fsw := (fsw v)\<lparr>wrest := wrest (fsw v) @ cs\<rparr>\<rparr>, iob, ret))"

definition stdout_file :: "(8 word list) world layer \<Rightarrow> nat \<Rightarrow> nat \<Rightarrow> (8 word list) world files_struct \<Rightarrow> bool" where
  "stdout_file L i n t \<longleftrightarrow> table_ok t \<and> i < 72 \<and> f_status (file_at t i) = FD_OPENED \<and> f_writable (file_at t i) \<and>
     f_node (file_at t i) = Some n \<and> inode_check n (fvfs t) \<and>
     (\<exists>ops. in_ops L n = Some ops \<and> op_write ops = Some stdout_write)"

abbreviation printed :: "(8 word list) sys \<Rightarrow> 8 word list" where
  "printed s \<equiv> wrest (fsw (fvfs (files s)))"

lemma file_write_stdout:
  assumes "stdout_file L i n t" and len: "len < 2 ^ 64"
  shows "\<exists>t'. file_write L (int i) base len t = Some (t', len, 0) \<and> stdout_file L i n t' \<and>
    fvfs t' = (fvfs t)\<lparr>fsw := (fsw (fvfs t))\<lparr>wrest := wrest (fsw (fvfs t)) @ bytes (wmem (fsw (fvfs t))) base len\<rparr>\<rparr>"
proof -
  have t: "table_ok t" "i < 72" "f_status (file_at t i) = FD_OPENED" "f_writable (file_at t i)"
    "f_node (file_at t i) = Some n" "inode_check n (fvfs t)" using assms(1) by (simp_all add: stdout_file_def)
  obtain ops where ops: "in_ops L n = Some ops" "op_write ops = Some stdout_write"
    using assms(1) by (auto simp: stdout_file_def)
  have l: "i < length (fd_array t)" using t(1,2) by (simp add: table_ok_def)
  let ?v = "(fvfs t)\<lparr>fsw := (fsw (fvfs t))\<lparr>wrest := wrest (fsw (fvfs t)) @ bytes (wmem (fsw (fvfs t))) base len\<rparr>\<rparr>"
  let ?iob = "(iobuf_init base len (f_pos (file_at t i)))\<lparr>io_resid := 0\<rparr>"
  have used: "iobuf_used ?iob = len" using len by (simp add: iobuf_used_def iobuf_init_def u64_def)
  have w: "stdout_write n (iobuf_init base len (f_pos (file_at t i))) (fvfs t) = Some (?v, ?iob, 0)"
    by (simp add: stdout_write_def stdout_io_write) (simp add: iobuf_init_def)
  let ?g = "\<lambda>f. f\<lparr>f_pos := f_pos f + int len\<rparr>"
  let ?t = "upd_file i (\<lambda>f. (?g (f\<lparr>f_open := f_open f + 1\<rparr>))\<lparr>f_open := f_open f\<rparr>) (t\<lparr>fvfs := ?v\<rparr>)"
  have rel: "fd_array_release L i (upd_file i ?g ((upd_file i (\<lambda>f. f\<lparr>f_open := f_open f + 1\<rparr>) t)\<lparr>fvfs := ?v\<rparr>)) = Some ?t"
    by (rule acquire_release(2) [OF t(1-3)]) simp_all
  have "file_write L (int i) base len t = Some (?t, len, 0)"
    using t ops w used l acquire_release(1) [OF t(1-3)] rel
    by (simp add: file_write_def fd2file_open vop_op_def Let_def)
  moreover have "table_ok ?t"
    using table_ok_upd [OF t(1,2), of ?g] table_entry [OF t(1,2)] t(2,3) by (simp add: entry_ok_def)
  then have "stdout_file L i n ?t" using t ops l by (auto simp: stdout_file_def inode_check_def)
  ultimately show ?thesis by (intro exI [of _ ?t]) simp
qed

lemma bytes_append: "bytes m p (k + n) = bytes m p k @ bytes m (p + k) n"
  by (induction k arbitrary: p) (simp_all add: bytes_Suc)

text \<open>
  \<open>read_up_to P base len n\<close>: \<open>n\<close> is the length of the leading 4096-byte chunks of the range in which
  every byte satisfies \<open>P\<close>; the chunk that follows, if there is one, has a byte that does not.\<close>

definition read_up_to :: "(nat \<Rightarrow> bool) \<Rightarrow> nat \<Rightarrow> nat \<Rightarrow> nat \<Rightarrow> bool" where
  "read_up_to P base len n \<longleftrightarrow> n \<le> len \<and> (\<forall>a. base \<le> a \<and> a < base + n \<longrightarrow> P a) \<and>
     (n = len \<or> IOBUF_SIZE dvd n \<and> (\<exists>a. base + n \<le> a \<and> a < base + min len (n + IOBUF_SIZE) \<and> \<not> P a))"

lemma read_up_to_Cons:
  assumes "k = min IOBUF_SIZE len" and "\<forall>a. base \<le> a \<and> a < base + k \<longrightarrow> P a" and "read_up_to P (base + k) (len - k) n"
  shows "read_up_to P base len (k + n)"
proof -
  have k: "k \<le> len" "n \<le> len - k" using assms(1,3) by (auto simp: read_up_to_def)
  have "k + n = len \<or> IOBUF_SIZE dvd k + n \<and> (\<exists>a. base + (k + n) \<le> a \<and> a < base + min len (k + n + IOBUF_SIZE) \<and> \<not> P a)"
  proof (cases "n = len - k")
    case False
    then have n: "IOBUF_SIZE dvd n" "\<exists>a. base + k + n \<le> a \<and> a < base + k + min (len - k) (n + IOBUF_SIZE) \<and> \<not> P a"
      using assms(3) by (auto simp: read_up_to_def)
    have "k = IOBUF_SIZE" using False k(2) assms(1) by auto
    moreover have "base + k + min (len - k) (n + IOBUF_SIZE) = base + min len (k + n + IOBUF_SIZE)" using k(1) by auto
    ultimately show ?thesis using n by (auto simp: add.assoc)
  qed (use k in simp)
  moreover have "P a" if "base \<le> a" "a < base + (k + n)" for a
    using that assms(2,3) by (cases "a < base + k") (auto simp: read_up_to_def)
  ultimately show ?thesis using k by (auto simp: read_up_to_def)
qed

lemma read_up_to_all: "(\<forall>a. base \<le> a \<and> a < base + len \<longrightarrow> P a) \<Longrightarrow> read_up_to P base len n \<longleftrightarrow> n = len"
  by (auto simp: read_up_to_def)

lemma write_loop_stdout:
  assumes "stdout_file L i n (files s)" and "cur_mm s = Some m" and "vm_ok m vs (vm s)"
    and "USERBASE \<le> base" and "base + len < 2 ^ 64" and "buffer + IOBUF_SIZE \<le> base \<or> base + len \<le> buffer"
  shows "\<exists>r s'. read_up_to (user_ok (vm s) vs False) base len r \<and>
    sysfile_write_loop L (int i) buffer base len copied 0 s =
      Some (s', if r < len \<and> copied + r = 0 then - E_INVAL else int (copied + r)) \<and>
    printed s' = printed s @ bytes (sys_mem s) base r \<and>
    (\<forall>x. x < buffer \<or> buffer + IOBUF_SIZE \<le> x \<longrightarrow> sys_mem s' x = sys_mem s x) \<and>
    stdout_file L i n (files s') \<and> vm_ok m vs (vm s')"
  using assms
proof (induction len arbitrary: base copied s rule: less_induct)
  case (less len)
  show ?case
  proof (cases "len = 0")
    case True
    then show ?thesis using less.prems by (subst sysfile_write_loop.simps) (auto simp: read_up_to_def)
  next
    case False
    define k where "k = min IOBUF_SIZE len"
    have k: "0 < k" "k \<le> len" "k \<le> IOBUF_SIZE" using False by (auto simp: k_def IOBUF_SIZE_def)
    have top: "base + k < 2 ^ 64" "k < 2 ^ 64" using less.prems(5) k(2) by simp_all
    obtain v where v: "user_check (Some m) base k False s = Some (s\<lparr>vm := v\<rparr>, \<forall>a. base \<le> a \<and> a < base + k \<longrightarrow> user_ok (vm s) vs False a)"
      "vm_ok m vs v" "vmas v = vmas (vm s)" using user_check_ok [OF less.prems(3,4) k(1) top(1)] by blast
    show ?thesis
    proof (cases "\<forall>a. base \<le> a \<and> a < base + k \<longrightarrow> user_ok (vm s) vs False a")
      case no: False
      have "copy_from_user (cur_mm s) buffer base k False s = Some (s\<lparr>vm := v\<rparr>, False)"
        unfolding copy_from_user_def less.prems(2) v(1) using no by simp
      then have run: "sysfile_write_loop L (int i) buffer base len copied 0 s =
          Some (s\<lparr>vm := v\<rparr>, if copied \<noteq> 0 then int copied else - E_INVAL)"
        using False by (subst sysfile_write_loop.simps) (simp add: E_INVAL_def k_def [symmetric])
      have r0: "read_up_to (user_ok (vm s) vs False) base len 0"
        using no by (auto simp: read_up_to_def k_def min.commute)
      have "stdout_file L i n (files (s\<lparr>vm := v\<rparr>))" using less.prems(1) by simp
      then show ?thesis using run r0 v(2) False by (intro exI [of _ 0] exI [of _ "s\<lparr>vm := v\<rparr>"]) (simp add: sys_mem_def)
    next
      case ok: True
      let ?s1 = "upd_mem (memcpy buffer base k) (s\<lparr>vm := v\<rparr>)"
      have copy: "copy_from_user (cur_mm s) buffer base k False s = Some (?s1, True)"
        unfolding copy_from_user_def less.prems(2) v(1) using ok by simp
      have dis: "buffer \<le> base \<or> base + k \<le> buffer" using less.prems(6) k by auto
      have mem: "sys_mem ?s1 x = (if buffer \<le> x \<and> x < buffer + k then sys_mem s (base + (x - buffer)) else sys_mem s x)" for x
        using memcpy_apply [OF dis, of "sys_mem s" x] by simp
      have "bytes (sys_mem ?s1) buffer k = bytes (sys_mem s) base k"
        by (rule nth_equalityI) (simp_all add: mem del: sys_mem_upd)
      moreover have "stdout_file L i n (files ?s1)"
        using less.prems(1) by (simp add: stdout_file_def upd_mem_def inode_check_def)
      ultimately obtain t where t: "file_write L (int i) buffer k (files ?s1) = Some (t, k, 0)" "stdout_file L i n t"
        "fvfs t = (fvfs (files ?s1))\<lparr>fsw := (fsw (fvfs (files ?s1)))\<lparr>wrest := printed ?s1 @ bytes (sys_mem s) base k\<rparr>\<rparr>"
        using file_write_stdout [OF _ top(2), of L i n "files ?s1" buffer] by (auto simp: sys_mem_def)
      let ?s2 = "?s1\<lparr>files := t\<rparr>"
      have s2: "printed ?s2 = printed s @ bytes (sys_mem s) base k" "sys_mem ?s2 = sys_mem ?s1" "vm ?s2 = v" "cur_mm ?s2 = Some m"
        using t(3) less.prems(2) by (simp_all add: sys_mem_def upd_mem_def)
      have step: "sysfile_write_loop L (int i) buffer base len copied 0 s =
          sysfile_write_loop L (int i) buffer (base + k) (len - k) (copied + k) 0 ?s2"
        using copy t(1) k False by (subst sysfile_write_loop.simps) (simp add: k_def [symmetric])
      have u: "user_ok (vm ?s2) vs False = user_ok (vm s) vs False"
        by (rule ext, rule user_ok_cong) (simp add: v(3))
      have pre: "len - k < len" "stdout_file L i n (files ?s2)" "cur_mm ?s2 = Some m" "vm_ok m vs (vm ?s2)" "USERBASE \<le> base + k"
        "base + k + (len - k) < 2 ^ 64" "buffer + IOBUF_SIZE \<le> base + k \<or> base + k + (len - k) \<le> buffer"
        using k t(2) s2 v(2) less.prems(4,5,6) by auto
      obtain r s' where s': "read_up_to (user_ok (vm s) vs False) (base + k) (len - k) r"
        "sysfile_write_loop L (int i) buffer (base + k) (len - k) (copied + k) 0 ?s2 =
          Some (s', if r < len - k \<and> copied + k + r = 0 then - E_INVAL else int (copied + k + r))"
        "printed s' = printed ?s2 @ bytes (sys_mem ?s2) (base + k) r"
        "\<forall>x. x < buffer \<or> buffer + IOBUF_SIZE \<le> x \<longrightarrow> sys_mem s' x = sys_mem ?s2 x"
        "stdout_file L i n (files s')" "vm_ok m vs (vm s')"
        using less.IH [OF pre, of "copied + k"] unfolding u by blast
      have rl: "r \<le> len - k" using s'(1) by (simp add: read_up_to_def)
      have "bytes (sys_mem ?s2) (base + k) r = bytes (sys_mem s) (base + k) r"
        by (rule bytes_cong) (use less.prems(6) k mem s2(2) rl in auto)
      then have "printed s' = printed s @ bytes (sys_mem s) base (k + r)"
        using s'(3) s2(1) bytes_append [of "sys_mem s" base k r] by simp
      moreover have "\<forall>x. x < buffer \<or> buffer + IOBUF_SIZE \<le> x \<longrightarrow> sys_mem s' x = sys_mem s x"
        using s'(4) s2(2) mem k(3) by auto
      moreover have "read_up_to (user_ok (vm s) vs False) base len (k + r)" by (rule read_up_to_Cons [OF k_def ok s'(1)])
      ultimately show ?thesis using step s'(2,5,6) k(1)
        by (intro exI [of _ "k + r"] exI [of _ s']) (simp add: add.assoc)
    qed
  qed
qed

section \<open>Properties\<close>

text \<open>C20.
  \<open>copy_string\<close> returns, and says yes exactly for a string that ends within \<open>maxn\<close> bytes and
  is readable for the process up to the end of the page of its last byte (or up to \<open>maxn\<close>).
  Then the whole string with its zero is in the kernel buffer.  It never writes outside the
  \<open>maxn\<close> bytes of the buffer, whatever the user passes.\<close>

theorem copy_string_exact:
  assumes "vm_ok m vs (vm s)" and "USERBASE \<le> src" and "0 < maxn" and "src + maxn < 2 ^ 64"
    and "dst + maxn \<le> src \<or> src + maxn \<le> dst"
  shows "\<exists>s'. copy_string (Some m) dst src maxn s = Some (s', string_ok vs src maxn s) \<and>
    vm_ok m vs (vm s') \<and> (\<forall>x. x < dst \<or> dst + maxn \<le> x \<longrightarrow> sys_mem s' x = sys_mem s x) \<and>
    (string_ok vs src maxn s \<longrightarrow> (\<forall>i. i \<le> strnlen (sys_mem s) src maxn \<longrightarrow> sys_mem s' (dst + i) = sys_mem s (src + i)))"
proof -
  have "ROUNDDOWN (src + PGSIZE) PGSIZE = page_end src"
    using mod_less_eq_dividend [of src PGSIZE] by (simp add: page_end_def ROUNDDOWN_def)
  then show ?thesis using copy_string_loop_ok [OF assms] by (simp add: copy_string_def)
qed

text \<open>C19.
  A \<open>write\<close> to the console of a range of user memory that does not wrap around: the leading
  4096-byte chunks that are readable as a whole are printed, every byte once and in order, and
  the call returns their length; if that is 0 it prints nothing and returns \<open>-E_INVAL\<close>.  Hence a
  range that is readable as a whole is printed as a whole.  Nothing but the kernel buffer is written.\<close>

theorem sysfile_write_prints:
  assumes "stdout_file L i n (files s)" and "cur_mm s = Some m" and "vm_ok m vs (vm s)" and "0 < len"
    and "USERBASE \<le> base" and "base + len < 2 ^ 64" and "buffer + IOBUF_SIZE \<le> base \<or> base + len \<le> buffer"
  shows "\<exists>r s'. read_up_to (user_ok (vm s) vs False) base len r \<and>
    sysfile_write L (Some buffer) (int i) base len s = Some (s', if r = 0 then - E_INVAL else int r) \<and>
    printed s' = printed s @ bytes (sys_mem s) base r \<and>
    (\<forall>x. x < buffer \<or> buffer + IOBUF_SIZE \<le> x \<longrightarrow> sys_mem s' x = sys_mem s x)"
proof -
  have t: "table_ok (files s)" "i < 72" "f_status (file_at (files s) i) = FD_OPENED" "f_writable (file_at (files s) i)"
    using assms(1) by (simp_all add: stdout_file_def)
  have "sysfile_write L (Some buffer) (int i) base len s = sysfile_write_loop L (int i) buffer base len 0 0 s"
    using t assms(4) by (simp add: sysfile_write_def file_testfd_def fd2file_open [OF t(1-3)])
  moreover obtain r s' where "read_up_to (user_ok (vm s) vs False) base len r"
    "sysfile_write_loop L (int i) buffer base len 0 0 s = Some (s', if r < len \<and> 0 + r = 0 then - E_INVAL else int (0 + r))"
    "printed s' = printed s @ bytes (sys_mem s) base r"
    "\<forall>x. x < buffer \<or> buffer + IOBUF_SIZE \<le> x \<longrightarrow> sys_mem s' x = sys_mem s x"
    using write_loop_stdout [OF assms(1-3,5-7), of 0] by blast
  ultimately show ?thesis using assms(4) by (intro exI [of _ r] exI [of _ s']) simp
qed

subsection \<open>The properties at work\<close>

text \<open>Descriptor 1 is open for writing on the console; the user area from \<open>0x200000\<close> holds
  ``hi'' at \<open>0x200FFF\<close>, across a page boundary.\<close>

definition hello_ops :: "(8 word list) world inode_ops" where
  "hello_ops = \<lparr>op_open = None, op_close = None, op_read = None, op_write = Some stdout_write, op_fstat = None,
     op_fsync = None, op_namefile = None, op_getdirentry = None, op_reclaim = None, op_gettype = None,
     op_tryseek = None, op_truncate = None, op_create = None, op_lookup = None\<rparr>"

definition hello_layer :: "(8 word list) world layer" where
  "hello_layer = \<lparr>in_ops = \<lambda>_. Some hello_ops,
     fs_calls = \<lparr>fs_sync = \<lambda>_ s. Some (s, 0), fs_get_root = \<lambda>_ s. Some (s, None),
       fs_unmount = \<lambda>_ s. Some (s, 0), fs_cleanup = \<lambda>_ s. Some s\<rparr>\<rparr>"

definition hello_sys :: "(8 word list) sys" where
  "hello_sys = \<lparr>files = \<lparr>fd_array = (map closed_file [0..<72])[1 := \<lparr>f_status = FD_OPENED, f_readable = False,
       f_writable = True, f_fd = 1, f_pos = 0, f_node = Some 3, f_open = 1\<rparr>], files_count = 1,
       fvfs = \<lparr>ref_count = \<lambda>_. 1, open_count = \<lambda>_. 1, in_fs = \<lambda>_. None, is_device = \<lambda>_. True, pwd = None,
         bootfs_node = None, vdev_list = [],
         fsw = \<lparr>wmem = (\<lambda>_. 0)(0x200FFF := 104, 0x201000 := 105), wrest = [62]\<rparr>\<rparr>\<rparr>,
     vm = vm_sample, cur_mm = Some 0\<rparr>"

lemma hello_fields:
  "vm hello_sys = vm_sample" "cur_mm hello_sys = Some 0" "printed hello_sys = [62]"
  "sys_mem hello_sys = (\<lambda>_. 0)(0x200FFF := 104, 0x201000 := 105)"
  by (simp_all add: hello_sys_def sys_mem_def)

lemma hello_file: "stdout_file hello_layer 1 3 (files hello_sys)"
proof -
  have "entry_ok i (file_at (files hello_sys) i)" if "i < 72" for i
    using that by (cases "i = 1") (simp_all add: hello_sys_def entry_ok_def closed_file_def)
  then have "table_ok (files hello_sys)" by (simp add: table_ok_def hello_sys_def)
  then show ?thesis
    by (simp add: stdout_file_def hello_layer_def hello_ops_def) (simp add: hello_sys_def inode_check_def MAX_INODE_COUNT_def)
qed

lemma hello_readable: "0x200000 \<le> a \<Longrightarrow> a < 0x203000 \<Longrightarrow> user_ok (vm hello_sys) [0, 1] False a"
  by (auto simp: user_ok_def hello_fields vm_sample_def in_vma_def VM_READ_def)

lemma hello_unreadable: "\<not> user_ok (vm hello_sys) [0, 1] False 0x300000"
  by (simp add: user_ok_def hello_fields vm_sample_def in_vma_def)

lemma sysfile_write_prints_witness:
  "\<exists>s' s''. sysfile_write hello_layer (Some 0xC0300000) 1 0x200FFF 2 hello_sys = Some (s', 2) \<and> printed s' = [62, 104, 105] \<and>
    sysfile_write hello_layer (Some 0xC0300000) 1 0x300000 2 hello_sys = Some (s'', - E_INVAL) \<and> printed s'' = [62]"
proof -
  have b: "bytes (sys_mem hello_sys) 0x200FFF 2 = [104, 105]" by (simp add: hello_fields bytes_Suc numeral_2_eq_2)
  have r: "\<forall>a. 0x200FFF \<le> a \<and> a < 0x200FFF + 2 \<longrightarrow> user_ok (vm hello_sys) [0, 1] False a"
    using hello_readable by simp
  have vm: "vm_ok 0 [0, 1] (vm hello_sys)" using vm_sample_ok by (simp add: hello_fields)
  have "\<exists>s'. sysfile_write hello_layer (Some 0xC0300000) 1 0x200FFF 2 hello_sys = Some (s', 2) \<and> printed s' = [62, 104, 105]"
    using sysfile_write_prints [OF hello_file hello_fields(2) vm, of 2 "0x200FFF" "0xC0300000"] b
    unfolding read_up_to_all [OF r] by (auto simp: IOBUF_SIZE_def USERBASE_def hello_fields)
  moreover obtain k s'' where "read_up_to (user_ok (vm hello_sys) [0, 1] False) 0x300000 2 k"
    "sysfile_write hello_layer (Some 0xC0300000) (int 1) 0x300000 2 hello_sys = Some (s'', if k = 0 then - E_INVAL else int k)"
    "printed s'' = printed hello_sys @ bytes (sys_mem hello_sys) 0x300000 k"
    using sysfile_write_prints [OF hello_file hello_fields(2) vm, of 2 "0x300000" "0xC0300000"]
    by (auto simp: IOBUF_SIZE_def USERBASE_def)
  moreover from calculation(2) have "k = 0"
    using hello_unreadable by (cases "k = 0") (auto simp: read_up_to_def)
  ultimately show ?thesis by (auto simp: hello_fields)
qed

lemma copy_string_exact_witness:
  "\<exists>s'. copy_string (Some 0) 0xC0300000 0x200FFF 4096 hello_sys = Some (s', True) \<and>
    sys_mem s' 0xC0300000 = 104 \<and> sys_mem s' 0xC0300001 = 105 \<and> sys_mem s' 0xC0300002 = 0"
proof -
  have n: "strnlen (sys_mem hello_sys) 0x200FFF 4096 = 2"
  proof (rule strnlen_eqI)
    show "sys_mem hello_sys (0x200FFF + i) \<noteq> 0" if "i < 2" for i
      using that by (auto simp: hello_fields less_2_cases_iff)
  qed (simp_all add: hello_fields)
  have "page_end (0x200FFF + 2) = 0x202000" by (simp add: page_end_def ROUNDDOWN_def PGSIZE_def)
  then have ok: "string_ok [0, 1] 0x200FFF 4096 hello_sys"
    using hello_readable by (simp add: string_ok_def n)
  have vm: "vm_ok 0 [0, 1] (vm hello_sys)" using vm_sample_ok by (simp add: hello_fields)
  obtain s' where s': "copy_string (Some 0) 0xC0300000 0x200FFF 4096 hello_sys = Some (s', True)"
    "\<forall>i. i \<le> 2 \<longrightarrow> sys_mem s' (0xC0300000 + i) = sys_mem hello_sys (0x200FFF + i)"
    using copy_string_exact [OF vm, of "0x200FFF" 4096 "0xC0300000"] ok n by (auto simp: USERBASE_def)
  show ?thesis using s'(1) spec [OF s'(2), of 0] spec [OF s'(2), of 1] spec [OF s'(2), of 2]
    by (auto simp: hello_fields)
qed

end
