(* ===== verification/Page_Bytes.thy ===== *)
theory Page_Bytes
  imports Page_Fault
begin

unbundle bit_operations_syntax

text \<open>
  The bytes of page frames, as \<open>memcpy\<close> and \<open>memset\<close> through \<open>page2kva\<close> see them, and of a user
  address space, as the machine sees them through the page tables.  A frame holds 512 words of
  eight bytes, least first.  The lemmas say what mapping a new page and writing into it do to
  the bytes of every address space.
\<close>

section \<open>Bytes of words and frames\<close>

definition word_byte :: "nat \<Rightarrow> 64 word \<Rightarrow> 8 word" where
  "word_byte k w = ucast (drop_bit (8 * k) w)"

definition set_word_byte :: "nat \<Rightarrow> 8 word \<Rightarrow> 64 word \<Rightarrow> 64 word" where
  "set_word_byte k b w = (w AND NOT (push_bit (8 * k) 0xFF)) OR push_bit (8 * k) (ucast b)"

definition phys_byte :: "machine \<Rightarrow> nat \<Rightarrow> 8 word" where
  "phys_byte s a = word_byte (a mod 8) (frames s (a div PGSIZE) (a mod PGSIZE div 8))"

definition set_phys_byte :: "nat \<Rightarrow> 8 word \<Rightarrow> machine \<Rightarrow> machine" where
  "set_phys_byte a b s =
    (let x = (a div PGSIZE, a mod PGSIZE div 8) in set_entry x (set_word_byte (a mod 8) b (entry_at x s)) s)"

text \<open>\<open>memcpy\<close> of \<open>n\<close> bytes of \<open>g\<close> from \<open>src\<close> on to the physical address \<open>a\<close>; \<open>memset\<close> has a constant \<open>g\<close>.\<close>

fun copy_bytes :: "(nat \<Rightarrow> 8 word) \<Rightarrow> nat \<Rightarrow> nat \<Rightarrow> nat \<Rightarrow> machine \<Rightarrow> machine" where
  "copy_bytes g src a 0 s = s"
| "copy_bytes g src a (Suc n) s = copy_bytes g (Suc src) (Suc a) n (set_phys_byte a (g src) s)"

text \<open>The byte at a user address, if a page is mapped there.\<close>

definition user_byte :: "machine \<Rightarrow> nat \<Rightarrow> nat \<Rightarrow> 8 word option" where
  "user_byte s d a =
    (if valid (pte_of s d a) then Some (phys_byte s (entry_ppn (pte_of s d a) * PGSIZE + a mod PGSIZE)) else None)"

lemma bit_word_byte: "bit (word_byte k w) n \<longleftrightarrow> n < 8 \<and> bit w (8 * k + n)"
  by (auto simp: word_byte_def bit_simps)

lemma bit_set_word_byte:
  "bit (set_word_byte k b w) n \<longleftrightarrow> n < 64 \<and> (if 8 * k \<le> n \<and> n < 8 * k + 8 then bit b (n - 8 * k) else bit w n)"
proof -
  have m: "(0xFF :: 64 word) = mask 8" by (simp add: mask_eq_exp_minus_1)
  have "bit b i \<Longrightarrow> i < 8" for i using bit_imp_le_length [of b i] by simp
  then show ?thesis unfolding set_word_byte_def m
    by (auto simp: bit_simps dest: bit_imp_le_length)
qed

lemma word_byte_set:
  assumes "j < 8" and "k < 8"
  shows "word_byte j (set_word_byte k b w) = (if j = k then b else word_byte j w)"
proof (rule bit_word_eqI)
  fix n :: nat assume n: "n < LENGTH(8)"
  have "(8 * k \<le> 8 * j + n \<and> 8 * j + n < 8 * k + 8) = (j = k)" using n assms by auto
  then show "bit (word_byte j (set_word_byte k b w)) n = bit (if j = k then b else word_byte j w) n"
    using n assms by (simp add: bit_word_byte bit_set_word_byte)
qed

lemma phys_index:
  assumes "a div PGSIZE = c div PGSIZE" and "a mod PGSIZE div 8 = c mod PGSIZE div 8" and "a mod 8 = c mod 8"
  shows "a = c"
proof -
  have e: "x = x div 4096 * 4096 + (x mod 4096 div 8 * 8 + x mod 8)" for x :: nat
  proof -
    have "x mod 4096 div 8 * 8 + x mod 8 = x mod 4096"
      using div_mult_mod_eq [of "x mod 4096" 8] mod_mod_cancel [of 8 4096 x] by simp
    then show ?thesis using div_mult_mod_eq [of x 4096] by simp
  qed
  show ?thesis using assms by (subst e [of a], subst e [of c]) (simp add: PGSIZE_def)
qed

lemma phys_byte_set: "phys_byte (set_phys_byte a b s) c = (if c = a then b else phys_byte s c)"
  using phys_index [of a c] word_byte_set [of "c mod 8" "a mod 8"]
  by (auto simp: phys_byte_def set_phys_byte_def set_entry_def entry_at_def Let_def)

lemma set_phys_byte_fields [simp]:
  "pm (set_phys_byte a b s) = pm s" "swap_init_ok (set_phys_byte a b s) = swap_init_ok s"
  by (simp_all add: set_phys_byte_def set_entry_def Let_def)

lemma phys_byte_copy:
  "phys_byte (copy_bytes g src a n s) c = (if a \<le> c \<and> c < a + n then g (src + (c - a)) else phys_byte s c)"
proof (induction n arbitrary: src a s)
  case (Suc n)
  have "Suc (src + c - Suc a) = src + c - a" if "Suc a \<le> c" using that by simp
  then show ?case by (auto simp: Suc.IH phys_byte_set)
qed auto

lemma copy_bytes_fields [simp]:
  "pm (copy_bytes g src a n s) = pm s" "swap_init_ok (copy_bytes g src a n s) = swap_init_ok s"
  by (induction n arbitrary: src a s) simp_all

text \<open>A block of bytes within one frame.\<close>

lemma frame_addr: "off < PGSIZE \<Longrightarrow> (h * PGSIZE + off) div PGSIZE = h" "off < PGSIZE \<Longrightarrow> (h * PGSIZE + off) mod PGSIZE = off"
  by (simp_all add: PGSIZE_def)

lemma copy_bytes_frames:
  assumes "off + n \<le> PGSIZE" and "f \<noteq> h"
  shows "frames (copy_bytes g src (h * PGSIZE + off) n s) f = frames s f"
  using assms(1)
proof (induction n arbitrary: src off s)
  case (Suc n)
  have "off < PGSIZE" using Suc.prems by simp
  then have "frames (set_phys_byte (h * PGSIZE + off) (g src) s) f = frames s f"
    using assms(2) by (simp add: set_phys_byte_def set_entry_def Let_def frame_addr(1))
  then show ?case using Suc.IH [of "Suc off"] Suc.prems by simp
qed simp

section \<open>Writing into a mapped page\<close>

text \<open>Frames that are no tables may change: the tables, the free pages and the counts stay as they are.\<close>

lemma pt_ok_frames:
  assumes ok: "pt_ok s D F" and fr: "\<And>h. is_table s D h \<Longrightarrow> frames s' h = frames s h" and pm: "pm s' = pm s"
  shows "pt_ok s' D F" and "\<And>h. is_table s' D h = is_table s D h"
    and "\<And>d a. d \<in> D \<Longrightarrow> a < USERTOP \<Longrightarrow> pte_of s' d a = pte_of s d a" and "\<And>q. mappers s' D q = mappers s D q"
proof -
  note st = same_tables [of s D s', OF fr]
  show tb: "is_table s' D h = is_table s D h" for h by (rule st(2))
  show pte: "pte_of s' d a = pte_of s d a" if "d \<in> D" "a < USERTOP" for d a by (rule st(4) [OF _ that])
  show mp: "mappers s' D q = mappers s D q" for q by (rule mappers_cong) (rule pte)
  have "tree_ok s' D F = tree_ok s D F" by (rule st(3))
  then show "pt_ok s' D F"
    using ok by (simp add: pt_ok_def pages_ok_def leaf_ok_def clean_def page_ref_def pm tb pte mp)
qed

text \<open>The only address that maps a page is the only one whose bytes change.\<close>

lemma page_write_ok:
  fixes g :: "nat \<Rightarrow> 8 word" and src :: nat
  assumes ok: "pt_ok s D F" and p: "p < 32768" "\<not> is_table s D (page2ppn p)" "mappers s D p = {(d, v)}"
    and n: "off + n \<le> PGSIZE"
  defines "s' \<equiv> copy_bytes g src (page2ppn p * PGSIZE + off) n s"
  shows "pt_ok s' D F" and "is_table s' D h = is_table s D h" and "mappers s' D q = mappers s D q"
    and "d' \<in> D \<Longrightarrow> a < USERTOP \<Longrightarrow> pte_of s' d' a = pte_of s d' a"
    and "d' \<in> D \<Longrightarrow> a < USERTOP \<Longrightarrow> user_byte s' d' a =
      (if d' = d \<and> a div PGSIZE = v \<and> off \<le> a mod PGSIZE \<and> a mod PGSIZE < off + n
       then Some (g (src + (a mod PGSIZE - off))) else user_byte s d' a)"
proof -
  have fr: "frames s' h = frames s h" if "is_table s D h" for h
    unfolding s'_def by (rule copy_bytes_frames [OF n]) (use that p(2) in auto)
  note pf = pt_ok_frames [where s' = s', OF ok fr]
  have pm: "pm s' = pm s" by (simp add: s'_def)
  show "pt_ok s' D F" by (rule pf(1)) (use pm in auto)
  show "is_table s' D h = is_table s D h" by (rule pf(2)) (use pm in auto)
  show "mappers s' D q = mappers s D q" by (rule pf(4)) (use pm in auto)
  show pte: "pte_of s' d' a = pte_of s d' a" if "d' \<in> D" "a < USERTOP" by (rule pf(3)) (use pm that in auto)
  show "user_byte s' d' a =
      (if d' = d \<and> a div PGSIZE = v \<and> off \<le> a mod PGSIZE \<and> a mod PGSIZE < off + n
       then Some (g (src + (a mod PGSIZE - off))) else user_byte s d' a)" if d: "d' \<in> D" "a < USERTOP"
  proof -
    let ?e = "pte_of s d' a" and ?b = "page2ppn p * PGSIZE + off"
    have here: "valid ?e \<and> entry_ppn ?e = page2ppn p \<longleftrightarrow> d' = d \<and> a div PGSIZE = v"
      using mapper_iff [OF d, of s p] p(3) by auto
    have m: "a mod PGSIZE < PGSIZE" by (simp add: PGSIZE_def)
    have in_block: "?b \<le> h * PGSIZE + a mod PGSIZE \<and> h * PGSIZE + a mod PGSIZE < ?b + n \<longleftrightarrow>
        h = page2ppn p \<and> off \<le> a mod PGSIZE \<and> a mod PGSIZE < off + n" for h
    proof
      assume b: "?b \<le> h * PGSIZE + a mod PGSIZE \<and> h * PGSIZE + a mod PGSIZE < ?b + n"
      then have "page2ppn p * PGSIZE < Suc h * PGSIZE" "h * PGSIZE < Suc (page2ppn p) * PGSIZE"
        using conjunct1 [OF b] conjunct2 [OF b] m n unfolding mult_Suc by linarith+
      then have "h = page2ppn p" unfolding mult_less_cancel2 by simp
      then show "h = page2ppn p \<and> off \<le> a mod PGSIZE \<and> a mod PGSIZE < off + n" using b by simp
    qed auto
    have pb: "phys_byte s' c = (if ?b \<le> c \<and> c < ?b + n then g (src + (c - ?b)) else phys_byte s c)" for c
      unfolding s'_def by (rule phys_byte_copy)
    show ?thesis
    proof (cases "valid ?e \<and> entry_ppn ?e = page2ppn p")
      case True
      then show ?thesis unfolding user_byte_def pte [OF d] pb in_block
        using here by simp
    next
      case False
      then have no: "\<not> (d' = d \<and> a div PGSIZE = v)" using here by blast
      show ?thesis unfolding user_byte_def pte [OF d] pb in_block
        by (cases "valid ?e") (use no False in auto)
    qed
  qed
qed

section \<open>Mapping a new page\<close>

lemma user_byte_frames:
  assumes ok: "pt_ok s D F" and d: "d \<in> D" "a < USERTOP" and pte: "pte_of s' d a = pte_of s d a"
    and fr: "\<And>q. q \<notin> F \<Longrightarrow> \<not> is_table s D (page2ppn q) \<Longrightarrow> frames s' (page2ppn q) = frames s (page2ppn q)"
  shows "user_byte s' d a = user_byte s d a"
proof (cases "valid (pte_of s d a)")
  case True
  obtain q where q: "entry_ppn (pte_of s d a) = page2ppn q" "q \<notin> F" "\<not> is_table s D (page2ppn q)"
    using leafE [OF ok d True] by blast
  have "a mod PGSIZE < PGSIZE" by (simp add: PGSIZE_def)
  then show ?thesis using fr [OF q(2,3)] by (simp add: user_byte_def pte q(1) phys_byte_def frame_addr)
qed (simp add: user_byte_def pte)

lemma free_no_mappers:
  assumes ok: "pt_ok s D F" and p: "p \<in> F"
  shows "mappers s D p = {}"
proof -
  have "False" if m: "(d, v) \<in> mappers s D p" for d v
  proof -
    have d: "d \<in> D" "v * PGSIZE < USERTOP" "valid (pte_of s d (v * PGSIZE))"
      "entry_ppn (pte_of s d (v * PGSIZE)) = page2ppn p" using m page_addr by (auto simp: mappers_def)
    obtain q where "page2ppn p = page2ppn q" "q \<notin> F" using leafE [OF ok d(1-3)] d(4) by metis
    then show False using p by simp
  qed
  then show ?thesis by auto
qed

definition same_outside :: "machine \<Rightarrow> machine \<Rightarrow> nat set \<Rightarrow> (nat \<Rightarrow> nat \<Rightarrow> bool) \<Rightarrow> bool" where
  "same_outside s s' D R \<longleftrightarrow> (\<forall>d\<in>D. \<forall>a<USERTOP. \<not> R d a \<longrightarrow>
     pte_of s' d a = pte_of s d a \<and> user_byte s' d a = user_byte s d a)"

text \<open>A page for an address without an entry: its only mapper is this address, no other byte changes.\<close>

lemma pgdir_alloc_page_new:
  assumes ok: "pt_ok s D F" and d: "d \<in> D" "la < USERTOP" and z: "pte_of s d la = 0"
    and F: "3 \<le> card F" and perm: "perm_ok perm"
  obtains s' F' p where "pgdir_alloc_page d la perm s = Some (s', Some p)" "p < 32768" "pt_ok s' D F'"
    "F' \<subseteq> F" "card F \<le> card F' + 3" "\<not> is_table s' D (page2ppn p)" "mappers s' D p = {(d, la div PGSIZE)}"
    "\<forall>a. a div PGSIZE = la div PGSIZE \<longrightarrow> pte_of s' d a = pte_create (page2ppn p) (PTE_V OR perm)"
    "same_outside s s' D (\<lambda>d' a. d' = d \<and> a div PGSIZE = la div PGSIZE)"
proof -
  have F0: "F \<noteq> {}" and fin: "finite F"
    using F ff_inv_subset [of NPAGES "pm s" F] ok finite_subset by (auto simp: pt_ok_def)
  obtain b p where b: "alloc_page s = Some (s\<lparr>pm := b\<rparr>, Some p)" "p \<in> F" "p < 32768"
    "pt_ok (s\<lparr>pm := b\<rparr>) D (F - {p})" "clean p (s\<lparr>pm := b\<rparr>)" "\<not> is_table (s\<lparr>pm := b\<rparr>) D (page2ppn p)"
    "\<forall>k. table_at (s\<lparr>pm := b\<rparr>) k = table_at s k" "\<forall>d la. pte_of (s\<lparr>pm := b\<rparr>) d la = pte_of s d la"
    using alloc_page_ok [OF ok F0] .
  let ?s0 = "s\<lparr>pm := b\<rparr>"
  have c0: "2 \<le> card (F - {p})" "card F = card (F - {p}) + 1" using F fin b(2) by simp_all
  obtain s1 g F1 where 1: "get_pte d la True ?s0 = Some (s1, Some (g, PTX la))" "pt_ok s1 D F1"
    "grown ?s0 s1 D (F - {p}) F1" "table_at s1 (Tab d (PDX1 la) (PDX0 la)) = Some g" "card (F - {p}) \<le> card F1 + 2"
    using get_pte_True [OF b(4) d c0(1)] .
  have pf: "p \<notin> F - {p}" by simp
  note gp = grown_page [OF 1(3) pf b(6)]
  have cl: "clean p s1" using gp(3) b(5) by simp
  have z1: "pte_of s1 d la = 0" using grown_pte [OF 1(3) d] b(8) z by simp
  let ?x = "(g, PTX la)" let ?e = "pte_create (page2ppn p) (PTE_V OR perm)"
  let ?s' = "set_entry ?x ?e (page_ref_inc p s1)"
  have e1: "\<not> valid (entry_at ?x (page_ref_inc p s1))"
    using entry_at_leaf [OF 1(4)] z1 by (simp add: entry_at_def page_ref_inc_def)
  have ins: "page_insert d p la perm ?s0 = Some (?s', 0)"
    using 1(1) e1 by (simp add: page_insert_def Let_def)
  have new: "pt_ok ?s' D F1 \<and> remapped s1 ?s' D d la ?e"
    using page_insert_mapped [OF 1(2) d 1(4) b(3) gp(1,2) cl perm] z1 e1 by (auto simp: Let_def)
  have pte: "pte_of ?s' d' a = (if d' = d \<and> a div PGSIZE = la div PGSIZE then ?e else pte_of s d' a)"
    if "d' \<in> D" "a < USERTOP" for d' a
    using new that grown_pte [OF 1(3) that] b(8) by (simp add: remapped_def)
  have tab: "is_table ?s' D h = is_table s1 D h" for h using new by (auto simp: is_table_def remapped_def)
  have g: "is_table s1 D g" using table_at_is_table [OF _ 1(4), of D] d by simp
  have fr: "frames ?s' (page2ppn q) = frames s (page2ppn q)" if "q \<notin> F" "\<not> is_table s D (page2ppn q)" for q
  proof -
    have "\<not> is_table ?s0 D (page2ppn q)" using that(2) b(7) by (simp add: is_table_def)
    then have n1: "\<not> is_table s1 D (page2ppn q)" using grown_page(2) [OF 1(3)] that(1) by auto
    then have "page2ppn q \<noteq> g" using g by auto
    moreover have "frames s1 (page2ppn q) = frames s (page2ppn q)" using 1(3) n1 by (simp add: grown_def)
    ultimately show ?thesis by (simp add: page_ref_inc_def)
  qed
  show ?thesis
  proof (rule that [of ?s' p F1])
    show "pgdir_alloc_page d la perm s = Some (?s', Some p)" using b(1) ins by (simp add: pgdir_alloc_page_def)
    show "F1 \<subseteq> F" using 1(3) by (auto simp: grown_def)
    show "card F \<le> card F1 + 3" using 1(5) c0(2) by simp
    show "\<not> is_table ?s' D (page2ppn p)" using gp(2) tab by simp
    show "mappers ?s' D p = {(d, la div PGSIZE)}"
      using mappers_update [OF d pte, of p] free_no_mappers [OF ok b(2)] entry_ppn_page [OF b(3) perm] by simp
    show "\<forall>a. a div PGSIZE = la div PGSIZE \<longrightarrow> pte_of ?s' d a = ?e"
    proof (intro allI impI)
      fix a assume a: "a div PGSIZE = la div PGSIZE"
      have "pte_of ?s' d la = ?e" using pte [OF d] by simp
      then show "pte_of ?s' d a = ?e" using pte_of_page [OF a, of ?s' d] by simp
    qed
    show "same_outside s ?s' D (\<lambda>d' a. d' = d \<and> a div PGSIZE = la div PGSIZE)"
      unfolding same_outside_def
    proof (intro ballI allI impI)
      fix d' a assume a: "d' \<in> D" "a < USERTOP" "\<not> (d' = d \<and> a div PGSIZE = la div PGSIZE)"
      have q: "pte_of ?s' d' a = pte_of s d' a" using pte [OF a(1,2)] a(3) by simp
      show "pte_of ?s' d' a = pte_of s d' a \<and> user_byte ?s' d' a = user_byte s d' a"
        by (intro conjI q user_byte_frames [OF ok a(1,2) q]) (rule fr)
    qed
  qed (use b(3) new in simp_all)
qed

end
