(* ===== verification/Load.thy ===== *)
theory Load
  imports Page_Bytes Process
begin

unbundle bit_operations_syntax

text \<open>
  Loading a program in lab 5: \<open>load_icode\<close> and \<open>do_execve\<close> of \<open>kern/process/proc.c\<close>, with the
  headers of \<open>libs/elf.h\<close>.  The image is a function from the distance to \<open>binary\<close> to a byte; it
  does not overlap page frames that are allocated.  Results of \<open>kmalloc\<close> are arguments.
\<close>

section \<open>Image headers\<close>

definition E_INVAL_ELF :: int where "E_INVAL_ELF = 8"
definition ELF_MAGIC :: nat where "ELF_MAGIC = 0x464C457F"
definition ELF_PT_LOAD :: nat where "ELF_PT_LOAD = 1"
definition VM_EXEC :: "32 word" where "VM_EXEC = 0x4"

type_synonym image = "nat \<Rightarrow> 8 word"

text \<open>The number in the \<open>n\<close> bytes from \<open>i\<close> on, least first.\<close>

fun field :: "image \<Rightarrow> nat \<Rightarrow> nat \<Rightarrow> nat" where
  "field b i 0 = 0"
| "field b i (Suc n) = unat (b i) + 256 * field b (Suc i) n"

record elfhdr =
  e_magic :: nat
  e_entry :: nat
  e_phoff :: nat
  e_phnum :: nat

definition elf_header :: "image \<Rightarrow> elfhdr" where
  "elf_header b = \<lparr>e_magic = field b 0 4, e_entry = field b 24 8, e_phoff = field b 32 8, e_phnum = field b 56 2\<rparr>"

record proghdr =
  p_type :: nat
  p_pflags :: nat
  p_offset :: nat
  p_va :: nat
  p_filesz :: nat
  p_memsz :: nat

definition PROGHDR_SIZE :: nat where "PROGHDR_SIZE = 56"

definition prog_header :: "image \<Rightarrow> nat \<Rightarrow> proghdr" where
  "prog_header b i =
    (let ph = e_phoff (elf_header b) + i * PROGHDR_SIZE; b = (\<lambda>k. b (u64 k))
     in \<lparr>p_type = field b ph 4, p_pflags = field b (ph + 4) 4, p_offset = field b (ph + 8) 8,
         p_va = field b (ph + 16) 8, p_filesz = field b (ph + 32) 8, p_memsz = field b (ph + 40) 8\<rparr>)"

definition seg_flags :: "nat \<Rightarrow> 32 word" where
  "seg_flags pf =
    (let f = (if bit pf 0 then VM_EXEC else 0);
         f = (if bit pf 1 then f OR VM_WRITE else f)
     in if bit pf 2 then f OR VM_READ else f)"

definition seg_perm :: "32 word \<Rightarrow> 64 word" where
  "seg_perm f =
    (let p = PTE_U OR PTE_V;
         p = (if f AND VM_READ \<noteq> 0 then p OR PTE_R else p);
         p = (if f AND VM_WRITE \<noteq> 0 then p OR (PTE_W OR PTE_R) else p)
     in if f AND VM_EXEC \<noteq> 0 then p OR PTE_X else p)"

section \<open>Filling the pages of a segment\<close>

definition sub64 :: "nat \<Rightarrow> nat \<Rightarrow> nat" where
  "sub64 a b = (a + 2 ^ 64 - b) mod 2 ^ 64"

text \<open>
  The loops that copy the file part and clear the rest differ in \<open>memcpy\<close> and \<open>memset\<close> only: \<open>g\<close> gives
  the bytes from \<open>src\<close> on.  The result is \<open>page\<close>, \<open>start\<close> and \<open>la\<close> after the loop, or none when there
  is no page.
\<close>

partial_function (option) load_loop ::
    "(nat \<Rightarrow> 8 word) \<Rightarrow> nat \<Rightarrow> 64 word \<Rightarrow> nat \<Rightarrow> nat option \<Rightarrow> nat \<Rightarrow> nat \<Rightarrow> nat \<Rightarrow> machine \<Rightarrow>
     (machine \<times> (nat option \<times> nat \<times> nat) option) option" where
  "load_loop g d perm fin page start la src s =
    (if start < fin then do {
       (s, r) \<leftarrow> pgdir_alloc_page d la perm s;
       (case r of
          None \<Rightarrow> Some (s, None)
        | Some p \<Rightarrow> do {
            k \<leftarrow> page2kva p;
            let off = sub64 start la;
            let n = sub64 PGSIZE off;
            let la = u64 (la + PGSIZE);
            let n = (if fin < la then sub64 n (sub64 la fin) else n);
            load_loop g d perm fin (Some p) (u64 (start + n)) la (u64 (src + n))
              (copy_bytes g src (k * PGSIZE + off) n s) }) }
     else Some (s, Some (page, start, la)))"

text \<open>What is left of the last page of the file part.\<close>

definition clear_rest :: "nat option \<Rightarrow> nat \<Rightarrow> nat \<Rightarrow> nat \<Rightarrow> machine \<Rightarrow> (machine \<times> nat) option" where
  "clear_rest page start fin la s = do {
     p \<leftarrow> page;
     k \<leftarrow> page2kva p;
     let off = sub64 (u64 (start + PGSIZE)) la;
     let n = sub64 PGSIZE off;
     let n = (if fin < la then sub64 n (sub64 la fin) else n);
     let s = copy_bytes (\<lambda>_. 0) 0 (k * PGSIZE + off) n s;
     let start = u64 (start + n);
     assert_k ((fin < la \<and> start = fin) \<or> (la \<le> fin \<and> start = la));
     Some (s, start) }"

definition load_pages :: "image \<Rightarrow> proghdr \<Rightarrow> nat \<Rightarrow> 64 word \<Rightarrow> machine \<Rightarrow> (machine \<times> bool) option" where
  "load_pages b ph d perm s = do {
     (s, r) \<leftarrow> load_loop (\<lambda>i. b (u64 i)) d perm (u64 (p_va ph + p_filesz ph)) None
        (p_va ph) (ROUNDDOWN (p_va ph) PGSIZE) (p_offset ph) s;
     (case r of
        None \<Rightarrow> Some (s, False)
      | Some (page, start, la) \<Rightarrow>
          let fin = u64 (p_va ph + p_memsz ph)
          in if start < la \<and> start = fin then Some (s, True)
             else do {
               (s, start) \<leftarrow> (if start < la then clear_rest page start fin la s else Some (s, start));
               (s, r) \<leftarrow> load_loop (\<lambda>_. 0) d perm fin None start la 0 s;
               Some (s, r \<noteq> None) }) }"

section \<open>Loading a program\<close>

definition load_segment :: "image \<Rightarrow> proghdr \<Rightarrow> nat \<Rightarrow> nat option \<Rightarrow> vmm \<Rightarrow> (vmm \<times> int) option" where
  "load_segment b ph m new v =
    (if p_type ph \<noteq> ELF_PT_LOAD then Some (v, 0)
     else if p_filesz ph > p_memsz ph then Some (v, - E_INVAL_ELF)
     else do {
       let flags = seg_flags (p_pflags ph);
       (v, ret, _) \<leftarrow> mm_map m (p_va ph) (p_memsz ph) flags new v;
       if ret \<noteq> 0 then Some (v, ret)
       else do {
         d \<leftarrow> pgdir_of (mms v m);
         (h, ok) \<leftarrow> load_pages b ph d (seg_perm flags) (mach v);
         Some (v\<lparr>mach := h\<rparr>, if ok then 0 else - E_NO_MEM) } })"

text \<open>The segments from header \<open>i\<close> on; \<open>new i\<close> is the memory for the area of the header.\<close>

fun load_segments :: "image \<Rightarrow> nat \<Rightarrow> nat \<Rightarrow> nat \<Rightarrow> (nat \<Rightarrow> nat option) \<Rightarrow> vmm \<Rightarrow> (vmm \<times> int) option" where
  "load_segments b i 0 m new v = Some (v, 0)"
| "load_segments b i (Suc n) m new v = do {
     (v, ret) \<leftarrow> load_segment b (prog_header b i) m (new i) v;
     if ret \<noteq> 0 then Some (v, ret) else load_segments b (Suc i) n m new v }"

definition USTACKTOP :: nat where "USTACKTOP = USERTOP"
definition USTACKSIZE :: nat where "USTACKSIZE = 256 * PGSIZE"

text \<open>\<open>n\<close> pages of stack from the one that ends \<open>i\<close> pages below the top downwards; each must be found.\<close>

fun stack_pages :: "nat \<Rightarrow> nat \<Rightarrow> nat \<Rightarrow> machine \<Rightarrow> machine option" where
  "stack_pages d i 0 s = Some s"
| "stack_pages d i (Suc n) s = do {
     (s, r) \<leftarrow> pgdir_alloc_page d (USTACKTOP - Suc i * PGSIZE) PTE_USER s;
     assert_k (r \<noteq> None);
     stack_pages d (Suc i) n s }"

definition build_stack :: "nat \<Rightarrow> nat option \<Rightarrow> vmm \<Rightarrow> (vmm \<times> int) option" where
  "build_stack m new v = do {
     (v, ret, _) \<leftarrow> mm_map m (USTACKTOP - USTACKSIZE) USTACKSIZE (VM_READ OR VM_WRITE OR VM_STACK) new v;
     if ret \<noteq> 0 then Some (v, ret)
     else do {
       d \<leftarrow> pgdir_of (mms v m);
       h \<leftarrow> stack_pages d 0 4 (mach v);
       Some (v\<lparr>mach := h\<rparr>, 0) } }"

text \<open>The address space of the program; the exits \<open>bad_...\<close> give back what was built.\<close>

definition build_image ::
    "image \<Rightarrow> nat \<Rightarrow> nat \<Rightarrow> (nat \<Rightarrow> nat option) \<Rightarrow> nat option \<Rightarrow> vmm \<Rightarrow> (vmm \<times> int) option" where
  "build_image b boot m new stack v = do {
     (v, ret) \<leftarrow> setup_pgdir boot m v;
     if ret \<noteq> 0 then do { v \<leftarrow> mm_destroy m v; Some (v, - E_NO_MEM) }
     else if e_magic (elf_header b) \<noteq> ELF_MAGIC then do {
       v \<leftarrow> put_pgdir m v;
       v \<leftarrow> mm_destroy m v;
       Some (v, - E_INVAL_ELF) }
     else do {
       (v, ret) \<leftarrow> load_segments b 0 (e_phnum (elf_header b)) m new v;
       (v, ret) \<leftarrow> (if ret \<noteq> 0 then Some (v, ret) else build_stack m stack v);
       if ret \<noteq> 0 then do {
         v \<leftarrow> exit_mmap m v;
         v \<leftarrow> put_pgdir m v;
         v \<leftarrow> mm_destroy m v;
         Some (v, ret) }
       else Some (v, 0) } }"

definition user_frame :: "nat \<Rightarrow> trapframe \<Rightarrow> trapframe" where
  "user_frame entry tf =
    \<lparr>tf_gpr = (\<lambda>_. 0)(2 := of_nat USTACKTOP), tf_status = tf_status tf AND NOT (0x100 OR 0x20),
     tf_epc = UserEntry entry\<rparr>"

definition load_icode ::
    "image \<Rightarrow> nat option \<Rightarrow> (nat \<Rightarrow> nat option) \<Rightarrow> nat option \<Rightarrow> pstate \<Rightarrow> (pstate \<times> int) option" where
  "load_icode b new_mm new stack s = do {
     c \<leftarrow> p_current s;
     assert_k (pr_mm (pcbs s c) = None);
     (case mm_create new_mm (space s) of
        (v, None) \<Rightarrow> Some (s\<lparr>space := v\<rparr>, - E_NO_MEM)
      | (v, Some m) \<Rightarrow> do {
          (v, ret) \<leftarrow> build_image b (boot_pgdir s) m new stack v;
          let s = s\<lparr>space := v\<rparr>;
          if ret \<noteq> 0 then Some (s, ret)
          else do {
            let v = mm_count_inc m v;
            d \<leftarrow> pgdir_of (mms v m);
            let s = upd_pcb c (\<lambda>q. q\<lparr>pr_mm := Some m, pr_cr3 := d\<rparr>) (s\<lparr>space := v\<rparr>);
            let s = s\<lparr>cr3_reg := d\<rparr>;
            Some (upd_pcb c (\<lambda>q. q\<lparr>pr_frame := user_frame (e_entry (elf_header b)) (pr_frame q)\<rparr>) s, 0) } }) }"

text \<open>
  \<open>do_execve\<close>; the copy of the name is left out.  The result \<open>None\<close> in the pair says that the process
  has gone through \<open>do_exit\<close>, which does not come back.
\<close>

definition do_execve ::
    "nat \<Rightarrow> nat \<Rightarrow> image \<Rightarrow> nat option \<Rightarrow> (nat \<Rightarrow> nat option) \<Rightarrow> nat option \<Rightarrow> pstate \<Rightarrow> (pstate \<times> int option) option" where
  "do_execve name len b new_mm new stack s = do {
     c \<leftarrow> p_current s;
     (v, ok) \<leftarrow> user_mem_check (pr_mm (pcbs s c)) name len False (space s);
     let s = s\<lparr>space := v\<rparr>;
     if \<not> ok then Some (s, Some (- E_INVAL))
     else do {
       s \<leftarrow> leave_mm c s;
       (s, ret) \<leftarrow> load_icode b new_mm new stack s;
       if ret \<noteq> 0 then do { s \<leftarrow> do_exit ret s; Some (s, None) }
       else Some (s, Some 0) } }"

section \<open>What filling pages does\<close>

lemma sub64_le [simp]: "b \<le> a \<Longrightarrow> a < 2 ^ 64 \<Longrightarrow> sub64 a b = a - b"
proof -
  assume "b \<le> a" "a < 2 ^ 64"
  then have "a + 2 ^ 64 - b = (a - b) + 2 ^ 64" "a - b < 2 ^ 64" by simp_all
  then show ?thesis by (simp only: sub64_def mod_add_self2 mod_less)
qed

text \<open>
  The pages of \<open>{lo..<hi}\<close> are mapped with the permissions, they hold the bytes of \<open>bs\<close>, and no
  other address of any address space changes.
\<close>

definition loaded :: "machine \<Rightarrow> machine \<Rightarrow> nat set \<Rightarrow> nat \<Rightarrow> 64 word \<Rightarrow> nat \<Rightarrow> nat \<Rightarrow> (nat \<Rightarrow> 8 word option) \<Rightarrow> bool" where
  "loaded s s' D d perm lo hi bs \<longleftrightarrow>
     (\<forall>a. lo \<le> a \<and> a < hi \<longrightarrow> (\<exists>p<32768. pte_of s' d a = pte_create (page2ppn p) (PTE_V OR perm))) \<and>
     (\<forall>a b. bs a = Some b \<and> lo \<le> a \<and> a < hi \<longrightarrow> user_byte s' d a = Some b) \<and>
     same_outside s s' D (\<lambda>d' a. d' = d \<and> lo \<le> a \<and> a < hi)"

lemma same_outside_trans:
  "same_outside s s1 D R \<Longrightarrow> same_outside s1 s2 D Q \<Longrightarrow> (\<And>d a. R d a \<or> Q d a \<Longrightarrow> P d a) \<Longrightarrow> same_outside s s2 D P"
  unfolding same_outside_def by metis

lemma loaded_trans:
  assumes 1: "loaded s s1 D d perm lo mid bs" and 2: "loaded s1 s2 D d perm mid hi bs"
    and b: "lo \<le> mid" "mid \<le> hi" "hi \<le> USERTOP" and d: "d \<in> D"
  shows "loaded s s2 D d perm lo hi bs"
  unfolding loaded_def
proof (intro conjI allI impI)
  have keep: "pte_of s2 d a = pte_of s1 d a \<and> user_byte s2 d a = user_byte s1 d a" if "a < mid" for a
    using 2 that b d unfolding loaded_def same_outside_def by auto
  fix a assume a: "lo \<le> a \<and> a < hi"
  show "\<exists>p<32768. pte_of s2 d a = pte_create (page2ppn p) (PTE_V OR perm)"
    using 1 2 a keep [of a] unfolding loaded_def by (cases "a < mid") auto
next
  have keep: "user_byte s2 d a = user_byte s1 d a" if "a < mid" for a
    using 2 that b d unfolding loaded_def same_outside_def by auto
  fix a c assume a: "bs a = Some c \<and> lo \<le> a \<and> a < hi"
  show "user_byte s2 d a = Some c"
    using 1 2 a keep [of a] unfolding loaded_def by (cases "a < mid") auto
next
  show "same_outside s s2 D (\<lambda>d' a. d' = d \<and> lo \<le> a \<and> a < hi)"
    by (rule same_outside_trans [where ?s1.0 = s1]) (use 1 2 b in \<open>auto simp: loaded_def\<close>)
qed

text \<open>One new page of number \<open>l\<close>, and the bytes written into it.\<close>

lemma page_interval: "a div PGSIZE = l \<longleftrightarrow> l * PGSIZE \<le> a \<and> a < l * PGSIZE + PGSIZE"
proof -
  have "a div 4096 * 4096 + a mod 4096 = a" "a mod 4096 < 4096" by simp_all
  moreover have "a div 4096 = l" if "l * 4096 \<le> a" "a < l * 4096 + 4096"
    by (rule div_nat_eqI) (use that in simp_all)
  ultimately show ?thesis unfolding PGSIZE_def by auto
qed

lemma load_step:
  fixes g :: "nat \<Rightarrow> 8 word" and src :: nat
  assumes ok: "pt_ok s D F" and d: "d \<in> D" "l * PGSIZE + PGSIZE \<le> USERTOP" and z: "pte_of s d (l * PGSIZE) = 0"
    and F: "3 \<le> card F" and perm: "perm_ok perm" and n: "off + n \<le> PGSIZE"
  obtains s1 p F' where "pgdir_alloc_page d (l * PGSIZE) perm s = Some (s1, Some p)" "page2kva p = Some (page2ppn p)"
    "p < 32768" "F' \<subseteq> F" "card F \<le> card F' + 3"
    "let s' = copy_bytes g src (page2ppn p * PGSIZE + off) n s1 in
       pt_ok s' D F' \<and> \<not> is_table s' D (page2ppn p) \<and> mappers s' D p = {(d, l)} \<and>
       loaded s s' D d perm (l * PGSIZE) (l * PGSIZE + PGSIZE)
         (\<lambda>a. if l * PGSIZE + off \<le> a \<and> a < l * PGSIZE + off + n then Some (g (src + (a - (l * PGSIZE + off)))) else None)"
proof -
  have la: "l * PGSIZE < USERTOP" "l * PGSIZE div PGSIZE = l" using d(2) by (simp_all add: PGSIZE_def)
  obtain s1 F' p where 1: "pgdir_alloc_page d (l * PGSIZE) perm s = Some (s1, Some p)" "p < 32768" "pt_ok s1 D F'"
    "F' \<subseteq> F" "card F \<le> card F' + 3" "\<not> is_table s1 D (page2ppn p)" "mappers s1 D p = {(d, l)}"
    "\<forall>a. a div PGSIZE = l \<longrightarrow> pte_of s1 d a = pte_create (page2ppn p) (PTE_V OR perm)"
    "same_outside s s1 D (\<lambda>d' a. d' = d \<and> a div PGSIZE = l)"
    using pgdir_alloc_page_new [OF ok d(1) la(1) z F perm] unfolding la(2) .
  let ?s' = "copy_bytes g src (page2ppn p * PGSIZE + off) n s1"
  let ?bs = "\<lambda>a. if l * PGSIZE + off \<le> a \<and> a < l * PGSIZE + off + n then Some (g (src + (a - (l * PGSIZE + off)))) else None"
  note w = page_write_ok [OF 1(3,2,6,7) n, where g = g and src = src]
  have inside: "a < USERTOP" if "a div PGSIZE = l" for a
    using that d(2) unfolding page_interval by simp
  have "loaded s ?s' D d perm (l * PGSIZE) (l * PGSIZE + PGSIZE) ?bs"
    unfolding loaded_def page_interval [symmetric]
  proof (intro conjI allI impI)
    fix a assume a: "a div PGSIZE = l"
    show "\<exists>p<32768. pte_of ?s' d a = pte_create (page2ppn p) (PTE_V OR perm)"
      using w(4) [OF d(1) inside [OF a]] 1(2,8) a by auto
  next
    fix a b assume a: "?bs a = Some b \<and> a div PGSIZE = l"
    have m: "a = l * PGSIZE + a mod PGSIZE" using a div_mult_mod_eq [of a PGSIZE] by simp
    have in_off: "l * PGSIZE + off \<le> a \<longleftrightarrow> off \<le> a mod PGSIZE"
      "a < l * PGSIZE + off + n \<longleftrightarrow> a mod PGSIZE < off + n" "a - (l * PGSIZE + off) = a mod PGSIZE - off"
      using m by linarith+
    have al: "a div PGSIZE = l" using a by blast
    show "user_byte ?s' d a = Some b"
      using w(5) [OF d(1) inside [OF al]] a by (simp add: in_off split: if_splits)
  next
    show "same_outside s ?s' D (\<lambda>d' a. d' = d \<and> a div PGSIZE = l)"
      by (rule same_outside_trans [OF 1(9), where Q = "\<lambda>d' a. d' = d \<and> a div PGSIZE = l"])
        (auto simp: same_outside_def w(4,5))
  qed
  then show ?thesis
    using that [OF 1(1) page2kva_ok [OF 1(2)] 1(2,4,5)] w(1-3) 1(6,7) by (simp add: Let_def)
qed

text \<open>One round of the loop, for a \<open>start\<close> in the page that begins at \<open>la\<close>.\<close>

lemma load_loop_round:
  assumes "start < fin" and "la \<le> start" "start < la + PGSIZE" and "fin \<le> USERTOP" "la + PGSIZE \<le> USERTOP"
    and "pgdir_alloc_page d la perm s = Some (s1, Some p)" "page2kva p = Some k"
  shows "load_loop g d perm fin page start la src s =
    load_loop g d perm fin (Some p) (min fin (la + PGSIZE)) (la + PGSIZE) (u64 (src + (min fin (la + PGSIZE) - start)))
      (copy_bytes g src (k * PGSIZE + (start - la)) (min fin (la + PGSIZE) - start) s1)"
proof -
  have off: "sub64 start la = start - la" "sub64 PGSIZE (start - la) = PGSIZE - (start - la)"
    using assms(2-5) by (simp_all add: PGSIZE_def USERTOP_def)
  have la: "u64 (la + PGSIZE) = la + PGSIZE" using assms(5) by (simp add: USERTOP_def)
  define n where "n = (if fin < la + PGSIZE then sub64 (PGSIZE - (start - la)) (sub64 (la + PGSIZE) fin) else PGSIZE - (start - la))"
  have n: "n = min fin (la + PGSIZE) - start"
  proof (cases "fin < la + PGSIZE")
    case True
    then have "sub64 (la + PGSIZE) fin = la + PGSIZE - fin" using assms(5) by (simp add: USERTOP_def)
    moreover have "sub64 (PGSIZE - (start - la)) (la + PGSIZE - fin) = PGSIZE - (start - la) - (la + PGSIZE - fin)"
      by (rule sub64_le) (use assms(1-3) True in \<open>simp_all add: PGSIZE_def\<close>)
    ultimately show ?thesis using True assms(1-3) by (simp add: n_def)
  next
    case False
    then show ?thesis using assms(2,3) by (simp add: n_def)
  qed
  have new: "u64 (start + n) = min fin (la + PGSIZE)"
    using n assms(1-4) by (simp add: USERTOP_def)
  have "load_loop g d perm fin page start la src s =
      load_loop g d perm fin (Some p) (u64 (start + n)) (la + PGSIZE) (u64 (src + n))
        (copy_bytes g src (k * PGSIZE + (start - la)) n s1)"
    unfolding load_loop.simps [of g d perm fin page start] n_def
    using assms(1,6,7) by (simp add: Let_def off la)
  then show ?thesis unfolding new unfolding n .
qed

lemma load_loop_ok:
  fixes g :: "nat \<Rightarrow> 8 word"
  assumes wrap: "\<And>i j. g (u64 i + j) = g (i + j)" and d: "d \<in> D" and perm: "perm_ok perm"
  shows "pt_ok s D F \<Longrightarrow> l * PGSIZE \<le> start \<Longrightarrow> start < l * PGSIZE + PGSIZE \<Longrightarrow> start < fin \<Longrightarrow>
    (l + k) * PGSIZE < fin \<Longrightarrow> fin \<le> (l + k) * PGSIZE + PGSIZE \<Longrightarrow> (l + k) * PGSIZE + PGSIZE \<le> USERTOP \<Longrightarrow>
    (\<And>a. l * PGSIZE \<le> a \<Longrightarrow> a < (l + k) * PGSIZE + PGSIZE \<Longrightarrow> pte_of s d a = 0) \<Longrightarrow> 3 * Suc k \<le> card F \<Longrightarrow>
    \<exists>s' F' p. load_loop g d perm fin page start (l * PGSIZE) src s =
        Some (s', Some (Some p, fin, (l + k) * PGSIZE + PGSIZE)) \<and>
      pt_ok s' D F' \<and> F' \<subseteq> F \<and> card F \<le> card F' + 3 * Suc k \<and>
      p < 32768 \<and> \<not> is_table s' D (page2ppn p) \<and> mappers s' D p = {(d, l + k)} \<and>
      loaded s s' D d perm (l * PGSIZE) ((l + k) * PGSIZE + PGSIZE)
        (\<lambda>a. if start \<le> a \<and> a < fin then Some (g (src + (a - start))) else None)"
proof (induction k arbitrary: s F l start src page)
  case (0 s F l start src page)
  have lt: "l * PGSIZE + PGSIZE \<le> USERTOP" and le: "fin \<le> l * PGSIZE + PGSIZE" using 0 by simp_all
  have z: "pte_of s d (l * PGSIZE) = 0" by (rule "0.prems"(8)) (simp_all add: PGSIZE_def)
  have F: "3 \<le> card F" using "0.prems"(9) by simp
  have n: "(start - l * PGSIZE) + (fin - start) \<le> PGSIZE" using 0(2-4) le by simp
  obtain s1 p F' where 1: "pgdir_alloc_page d (l * PGSIZE) perm s = Some (s1, Some p)" "page2kva p = Some (page2ppn p)"
    "p < 32768" "F' \<subseteq> F" "card F \<le> card F' + 3"
    "let s' = copy_bytes g src (page2ppn p * PGSIZE + (start - l * PGSIZE)) (fin - start) s1 in
       pt_ok s' D F' \<and> \<not> is_table s' D (page2ppn p) \<and> mappers s' D p = {(d, l)} \<and>
       loaded s s' D d perm (l * PGSIZE) (l * PGSIZE + PGSIZE)
         (\<lambda>a. if l * PGSIZE + (start - l * PGSIZE) \<le> a \<and> a < l * PGSIZE + (start - l * PGSIZE) + (fin - start)
           then Some (g (src + (a - (l * PGSIZE + (start - l * PGSIZE))))) else None)"
    using load_step [OF "0.prems"(1) d lt z F perm n] .
  let ?s2 = "copy_bytes g src (page2ppn p * PGSIZE + (start - l * PGSIZE)) (fin - start) s1"
  have st: "l * PGSIZE + (start - l * PGSIZE) = start" "start + (fin - start) = fin" using "0.prems"(2,4) by simp_all
  have s2: "pt_ok ?s2 D F' \<and> \<not> is_table ?s2 D (page2ppn p) \<and> mappers ?s2 D p = {(d, l)} \<and>
      loaded s ?s2 D d perm (l * PGSIZE) (l * PGSIZE + PGSIZE)
        (\<lambda>a. if start \<le> a \<and> a < fin then Some (g (src + (a - start))) else None)"
    using 1(6) unfolding st Let_def .
  have "fin \<le> USERTOP" using lt le by simp
  then have "load_loop g d perm fin page start (l * PGSIZE) src s = Some (?s2, Some (Some p, fin, l * PGSIZE + PGSIZE))"
    using load_loop_round [OF "0.prems"(4,2,3) _ lt 1(1,2), of g page src] le
    by (simp add: min_absorb1 load_loop.simps [of _ _ _ fin _ fin])
  then show ?case
    using s2 1(3-5) by (intro exI [of _ ?s2] exI [of _ F'] exI [of _ p]) simp
next
  case (Suc k s F l start src page)
  note pr = Suc.prems
  have lt: "l * PGSIZE + PGSIZE \<le> USERTOP" and le: "l * PGSIZE + PGSIZE < fin"
    using pr(5,7) by (simp_all add: PGSIZE_def)
  have z: "pte_of s d (l * PGSIZE) = 0" by (rule pr(8)) (simp_all add: PGSIZE_def)
  have F: "3 \<le> card F" using pr(9) by simp
  have n: "(start - l * PGSIZE) + (l * PGSIZE + PGSIZE - start) \<le> PGSIZE" using pr(2,3) by simp
  let ?mid = "l * PGSIZE + PGSIZE"
  let ?src = "u64 (src + (?mid - start))"
  let ?bs = "\<lambda>a. if start \<le> a \<and> a < fin then Some (g (src + (a - start))) else None"
  obtain s1 p F1 where 1: "pgdir_alloc_page d (l * PGSIZE) perm s = Some (s1, Some p)" "page2kva p = Some (page2ppn p)"
    "p < 32768" "F1 \<subseteq> F" "card F \<le> card F1 + 3"
    "let s' = copy_bytes g src (page2ppn p * PGSIZE + (start - l * PGSIZE)) (?mid - start) s1 in
       pt_ok s' D F1 \<and> \<not> is_table s' D (page2ppn p) \<and> mappers s' D p = {(d, l)} \<and>
       loaded s s' D d perm (l * PGSIZE) ?mid
         (\<lambda>a. if l * PGSIZE + (start - l * PGSIZE) \<le> a \<and> a < l * PGSIZE + (start - l * PGSIZE) + (?mid - start)
           then Some (g (src + (a - (l * PGSIZE + (start - l * PGSIZE))))) else None)"
    using load_step [OF pr(1) d lt z F perm n] .
  let ?s2 = "copy_bytes g src (page2ppn p * PGSIZE + (start - l * PGSIZE)) (?mid - start) s1"
  have s2: "pt_ok ?s2 D F1" "loaded s ?s2 D d perm (l * PGSIZE) ?mid ?bs"
    using 1(6) pr(2,3) le by (auto simp: Let_def loaded_def)
  have fin: "fin \<le> USERTOP" using pr(6,7) by simp
  have run: "load_loop g d perm fin page start (l * PGSIZE) src s =
      load_loop g d perm fin (Some p) ?mid (Suc l * PGSIZE) ?src ?s2"
    using load_loop_round [OF pr(4,2,3) fin lt 1(1,2), of g page src] le by (simp add: add.commute)
  have z2: "pte_of ?s2 d a = 0" if "Suc l * PGSIZE \<le> a" "a < (Suc l + k) * PGSIZE + PGSIZE" for a
    using s2(2) that d pr(7) pr(8) [of a] unfolding loaded_def same_outside_def by auto
  have "\<exists>s' F' q. load_loop g d perm fin (Some p) ?mid (Suc l * PGSIZE) ?src ?s2 =
        Some (s', Some (Some q, fin, (Suc l + k) * PGSIZE + PGSIZE)) \<and>
      pt_ok s' D F' \<and> F' \<subseteq> F1 \<and> card F1 \<le> card F' + 3 * Suc k \<and>
      q < 32768 \<and> \<not> is_table s' D (page2ppn q) \<and> mappers s' D q = {(d, Suc l + k)} \<and>
      loaded ?s2 s' D d perm (Suc l * PGSIZE) ((Suc l + k) * PGSIZE + PGSIZE)
        (\<lambda>a. if ?mid \<le> a \<and> a < fin then Some (g (?src + (a - ?mid))) else None)"
    by (rule Suc.IH [OF s2(1)]) (use le pr(5-7,9) 1(5) z2 in simp_all)
  then obtain s' F' q where 2: "load_loop g d perm fin (Some p) ?mid (Suc l * PGSIZE) ?src ?s2 =
        Some (s', Some (Some q, fin, (Suc l + k) * PGSIZE + PGSIZE))"
    "pt_ok s' D F'" "F' \<subseteq> F1" "card F1 \<le> card F' + 3 * Suc k" "q < 32768" "\<not> is_table s' D (page2ppn q)"
    "mappers s' D q = {(d, Suc l + k)}" "loaded ?s2 s' D d perm (Suc l * PGSIZE) ((Suc l + k) * PGSIZE + PGSIZE)
        (\<lambda>a. if ?mid \<le> a \<and> a < fin then Some (g (?src + (a - ?mid))) else None)" by blast
  have same: "g (?src + (a - ?mid)) = g (src + (a - start))" if "?mid \<le> a" for a
    using that pr(3) unfolding wrap by simp
  have ld: "loaded ?s2 s' D d perm ?mid ((l + Suc k) * PGSIZE + PGSIZE) ?bs"
    using 2(8) same pr(3) by (auto simp: loaded_def add.commute)
  have "loaded s s' D d perm (l * PGSIZE) ((l + Suc k) * PGSIZE + PGSIZE) ?bs"
    by (rule loaded_trans [OF s2(2) ld]) (use d pr(7) in \<open>simp_all add: PGSIZE_def\<close>)
  then show ?case
    using run 2(1-7) 1(4,5) by (intro exI [of _ s'] exI [of _ F'] exI [of _ q]) auto
qed

lemma loaded_mono:
  "loaded s s' D d perm lo hi bs \<Longrightarrow> (\<And>a b. lo \<le> a \<Longrightarrow> a < hi \<Longrightarrow> bs' a = Some b \<Longrightarrow> bs a = Some b) \<Longrightarrow>
    loaded s s' D d perm lo hi bs'"
  by (simp add: loaded_def)

lemma loaded_empty: "loaded s s D d perm hi hi bs"
  by (auto simp: loaded_def same_outside_def)

text \<open>The last loop, from a page boundary on; it may have nothing to do.\<close>

lemma zero_loop_ok:
  assumes ok: "pt_ok s D F" and d: "d \<in> D" and perm: "perm_ok perm" and jh: "j \<le> h"
    and h: "h * PGSIZE < fin + PGSIZE" "fin \<le> h * PGSIZE" "h * PGSIZE \<le> USERTOP"
    and z: "\<And>a. j * PGSIZE \<le> a \<Longrightarrow> a < h * PGSIZE \<Longrightarrow> pte_of s d a = 0" and F: "3 * (h - j) \<le> card F"
  shows "\<exists>s' F' r. load_loop (\<lambda>_. 0) d perm fin page (min fin (j * PGSIZE)) (j * PGSIZE) 0 s = Some (s', Some r) \<and>
    pt_ok s' D F' \<and> F' \<subseteq> F \<and> card F \<le> card F' + 3 * (h - j) \<and>
    loaded s s' D d perm (j * PGSIZE) (h * PGSIZE) (\<lambda>a. if a < fin then Some 0 else None)"
proof (cases "j = h")
  case True
  then have "\<not> min fin (j * PGSIZE) < fin" using h(2) by simp
  then show ?thesis
    using ok True loaded_empty [of s D d perm "h * PGSIZE"] by (auto simp: load_loop.simps [of _ _ _ fin])
next
  case False
  then obtain k where k: "h = Suc (j + k)" using jh less_imp_Suc_add [of j h] by auto
  have lt: "j * PGSIZE < fin" "(j + k) * PGSIZE < fin" using h(1) by (simp_all add: k PGSIZE_def)
  have pg: "0 < PGSIZE" by (simp add: PGSIZE_def)
  have mn: "min fin (j * PGSIZE) = j * PGSIZE" using lt by simp
  have hk: "h * PGSIZE = (j + k) * PGSIZE + PGSIZE" "h - j = Suc k" by (simp_all add: k)
  have "\<exists>s' F' p. load_loop (\<lambda>_. 0) d perm fin page (j * PGSIZE) (j * PGSIZE) 0 s =
        Some (s', Some (Some p, fin, (j + k) * PGSIZE + PGSIZE)) \<and>
      pt_ok s' D F' \<and> F' \<subseteq> F \<and> card F \<le> card F' + 3 * Suc k \<and>
      p < 32768 \<and> \<not> is_table s' D (page2ppn p) \<and> mappers s' D p = {(d, j + k)} \<and>
      loaded s s' D d perm (j * PGSIZE) ((j + k) * PGSIZE + PGSIZE)
        (\<lambda>a. if j * PGSIZE \<le> a \<and> a < fin then Some 0 else None)"
    by (rule load_loop_ok [OF _ d perm ok]) (use lt h(2,3) [unfolded hk] z [unfolded hk] F [unfolded hk] pg in simp_all)
  then obtain s' F' p where 1: "load_loop (\<lambda>_. 0) d perm fin page (j * PGSIZE) (j * PGSIZE) 0 s =
        Some (s', Some (Some p, fin, (j + k) * PGSIZE + PGSIZE))" "pt_ok s' D F'" "F' \<subseteq> F" "card F \<le> card F' + 3 * Suc k"
    "loaded s s' D d perm (j * PGSIZE) ((j + k) * PGSIZE + PGSIZE)
        (\<lambda>a. if j * PGSIZE \<le> a \<and> a < fin then Some 0 else None)" by blast
  have "loaded s s' D d perm (j * PGSIZE) ((j + k) * PGSIZE + PGSIZE) (\<lambda>a. if a < fin then Some 0 else None)"
    by (rule loaded_mono [OF 1(5)]) (simp split: if_splits)
  then show ?thesis unfolding mn hk using 1(1-4) by blast
qed

text \<open>Clearing the rest of the last page of the file part.\<close>

lemma clear_rest_ok:
  assumes ok: "pt_ok s D F" and p: "p < 32768" "\<not> is_table s D (page2ppn p)" "mappers s D p = {(d, l)}"
    and st: "l * PGSIZE \<le> start" "start < l * PGSIZE + PGSIZE" "start < fin"
    and top: "fin \<le> USERTOP" "l * PGSIZE + PGSIZE \<le> USERTOP"
  obtains s' where "clear_rest (Some p) start fin (l * PGSIZE + PGSIZE) s = Some (s', min fin (l * PGSIZE + PGSIZE))"
    "pt_ok s' D F" "\<And>d' a. d' \<in> D \<Longrightarrow> a < USERTOP \<Longrightarrow> pte_of s' d' a = pte_of s d' a"
    "\<And>d' a. d' \<in> D \<Longrightarrow> a < USERTOP \<Longrightarrow> user_byte s' d' a =
      (if d' = d \<and> start \<le> a \<and> a < min fin (l * PGSIZE + PGSIZE) then Some 0 else user_byte s d' a)"
proof -
  let ?la = "l * PGSIZE + PGSIZE"
  define off where "off = start - l * PGSIZE"
  define n where "n = min fin ?la - start"
  have o: "sub64 (u64 (start + PGSIZE)) ?la = off" "sub64 PGSIZE off = PGSIZE - off" "off < PGSIZE"
    using st top by (simp_all add: off_def PGSIZE_def USERTOP_def)
  have n1: "n = (if fin < ?la then sub64 (PGSIZE - off) (sub64 ?la fin) else PGSIZE - off)"
  proof (cases "fin < ?la")
    case True
    then have "sub64 ?la fin = ?la - fin" using top by (simp add: USERTOP_def)
    moreover have "sub64 (PGSIZE - off) (?la - fin) = PGSIZE - off - (?la - fin)"
      by (rule sub64_le) (use st True in \<open>simp_all add: off_def PGSIZE_def\<close>)
    ultimately show ?thesis using True st by (simp add: n_def off_def)
  qed (use st in \<open>simp add: n_def off_def\<close>)
  have new: "u64 (start + n) = min fin ?la" using st top by (simp add: n_def USERTOP_def)
  have len: "off + n \<le> PGSIZE" using st by (simp add: off_def n_def)
  let ?s' = "copy_bytes (\<lambda>_. 0) 0 (page2ppn p * PGSIZE + off) n s"
  note w = page_write_ok [OF ok p len, where g = "\<lambda>_. 0" and src = 0]
  have chk: "(fin < ?la \<and> min fin ?la = fin) \<or> (?la \<le> fin \<and> min fin ?la = ?la)" by auto
  have run: "clear_rest (Some p) start fin ?la s = Some (?s', min fin ?la)"
  proof -
    have "clear_rest (Some p) start fin ?la s = do {
        assert_k ((fin < ?la \<and> u64 (start + n) = fin) \<or> (?la \<le> fin \<and> u64 (start + n) = ?la));
        Some (?s', u64 (start + n)) }"
      unfolding clear_rest_def n1 using page2kva_ok [OF p(1)] by (simp add: o Let_def)
    then show ?thesis unfolding new using chk by simp
  qed
  have blk: "a div PGSIZE = l \<and> off \<le> a mod PGSIZE \<and> a mod PGSIZE < off + n \<longleftrightarrow> start \<le> a \<and> a < min fin ?la" for a
  proof -
    have "a mod PGSIZE = a - l * PGSIZE" if "a div PGSIZE = l" using minus_div_mult_eq_mod [of a PGSIZE] that by simp
    moreover have "a div PGSIZE = l" if "start \<le> a" "a < min fin ?la" unfolding page_interval using that st(1) by simp
    ultimately show ?thesis using st by (auto simp: off_def n_def page_interval)
  qed
  show ?thesis
    by (rule that [OF run w(1,4)]) (use w(5) in \<open>auto simp: blk\<close>)
qed

section \<open>A segment in memory\<close>

text \<open>The bytes that the header promises: the file part, then zeros.\<close>

definition seg_bytes :: "image \<Rightarrow> proghdr \<Rightarrow> nat \<Rightarrow> 8 word option" where
  "seg_bytes b ph a =
    (if p_va ph \<le> a \<and> a < p_va ph + p_filesz ph then Some (b (u64 (p_offset ph + (a - p_va ph))))
     else if p_va ph \<le> a \<and> a < p_va ph + p_memsz ph then Some 0 else None)"

definition seg_lo :: "proghdr \<Rightarrow> nat" where "seg_lo ph = p_va ph div PGSIZE"
definition seg_hi :: "proghdr \<Rightarrow> nat" where "seg_hi ph = (p_va ph + p_memsz ph + PGSIZE - 1) div PGSIZE"

lemma page_ceil:
  assumes "0 < x"
  shows "(x + PGSIZE - 1) div PGSIZE * PGSIZE < x + PGSIZE" and "x \<le> (x + PGSIZE - 1) div PGSIZE * PGSIZE"
proof -
  have "(x + 4095) div 4096 * 4096 + (x + 4095) mod 4096 = x + 4095" "(x + 4095) mod 4096 < 4096" by simp_all
  then show "(x + PGSIZE - 1) div PGSIZE * PGSIZE < x + PGSIZE" "x \<le> (x + PGSIZE - 1) div PGSIZE * PGSIZE"
    unfolding PGSIZE_def using assms by simp_all
qed

text \<open>From the end of the first loop on: what is left is cleared, then the pages of the rest are made.\<close>

lemma load_tail_ok:
  assumes ok: "pt_ok s D F" and d: "d \<in> D" and perm: "perm_ok perm"
    and p: "p < 32768" "\<not> is_table s D (page2ppn p)" "mappers s D p = {(d, l)}"
    and st: "l * PGSIZE \<le> start" "start \<le> l * PGSIZE + PGSIZE" "start \<le> fin"
    and h: "Suc l \<le> h" "h * PGSIZE < fin + PGSIZE" "fin \<le> h * PGSIZE" "h * PGSIZE \<le> USERTOP"
    and z: "\<And>a. Suc l * PGSIZE \<le> a \<Longrightarrow> a < h * PGSIZE \<Longrightarrow> pte_of s d a = 0" and F: "3 * (h - Suc l) \<le> card F"
  defines "la \<equiv> l * PGSIZE + PGSIZE"
  obtains s1 s' F' r where "(if start < la \<and> start \<noteq> fin then clear_rest (Some p) start fin la s else Some (s, start)) = Some (s1, min fin la)"
    "load_loop (\<lambda>_. 0) d perm fin None (min fin la) la 0 s1 = Some (s', Some r)"
    "pt_ok s' D F'" "F' \<subseteq> F" "card F \<le> card F' + 3 * (h - Suc l)"
    "\<And>d' a. d' \<in> D \<Longrightarrow> a < USERTOP \<Longrightarrow> user_byte s1 d' a =
      (if d' = d \<and> start \<le> a \<and> a < min fin la then Some 0 else user_byte s d' a)"
    "\<And>d' a. d' \<in> D \<Longrightarrow> a < USERTOP \<Longrightarrow> pte_of s1 d' a = pte_of s d' a"
    "loaded s1 s' D d perm la (h * PGSIZE) (\<lambda>a. if a < fin then Some 0 else None)"
proof -
  have top: "la \<le> USERTOP" "fin \<le> USERTOP" "la = Suc l * PGSIZE"
    using h(1,3,4) mult_le_mono1 [OF h(1), of PGSIZE] by (simp_all add: la_def add.commute)
  have st2: "start \<le> la" using st(2) by (simp add: la_def)
  obtain s1 where 1: "(if start < la \<and> start \<noteq> fin then clear_rest (Some p) start fin la s else Some (s, start)) = Some (s1, min fin la)"
    "pt_ok s1 D F" "\<And>d' a. d' \<in> D \<Longrightarrow> a < USERTOP \<Longrightarrow> pte_of s1 d' a = pte_of s d' a"
    "\<And>d' a. d' \<in> D \<Longrightarrow> a < USERTOP \<Longrightarrow> user_byte s1 d' a =
      (if d' = d \<and> start \<le> a \<and> a < min fin la then Some 0 else user_byte s d' a)"
  proof (cases "start < la \<and> start \<noteq> fin")
    case True
    then have lt: "start < l * PGSIZE + PGSIZE" "start < fin" using st(3) by (simp_all add: la_def)
    obtain s1 where 2: "clear_rest (Some p) start fin la s = Some (s1, min fin la)" "pt_ok s1 D F"
      "\<And>d' a. d' \<in> D \<Longrightarrow> a < USERTOP \<Longrightarrow> pte_of s1 d' a = pte_of s d' a"
      "\<And>d' a. d' \<in> D \<Longrightarrow> a < USERTOP \<Longrightarrow> user_byte s1 d' a =
        (if d' = d \<and> start \<le> a \<and> a < min fin la then Some 0 else user_byte s d' a)"
      using clear_rest_ok [OF ok p st(1) lt top(2) top(1) [unfolded la_def]] unfolding la_def by blast
    show ?thesis by (rule that [OF _ 2(2-4)]) (use True 2(1) in simp)
  next
    case False
    then have mn: "min fin la = start" using st(3) st2 by auto
    show ?thesis by (rule that [of s]) (use ok False mn in auto)
  qed
  have z1: "pte_of s1 d a = 0" if "Suc l * PGSIZE \<le> a" "a < h * PGSIZE" for a
    using z [OF that] 1(3) [OF d, of a] that h(4) by simp
  obtain s' F' r where 2: "load_loop (\<lambda>_. 0) d perm fin None (min fin la) la 0 s1 = Some (s', Some r)"
    "pt_ok s' D F'" "F' \<subseteq> F" "card F \<le> card F' + 3 * (h - Suc l)"
    "loaded s1 s' D d perm la (h * PGSIZE) (\<lambda>a. if a < fin then Some 0 else None)"
    using zero_loop_ok [OF 1(2) d perm h z1 F, of None] unfolding top(3) by blast
  show ?thesis
    by (rule that [OF 1(1) 2(1-4) 1(4,3) 2(5)])
qed

lemma load_pages_ok:
  assumes ok: "pt_ok s D F" and d: "d \<in> D" and perm: "perm_ok perm"
    and sz: "p_filesz ph \<le> p_memsz ph" "0 < p_memsz ph" and h: "seg_hi ph * PGSIZE \<le> USERTOP"
    and z: "\<And>a. seg_lo ph * PGSIZE \<le> a \<Longrightarrow> a < seg_hi ph * PGSIZE \<Longrightarrow> pte_of s d a = 0"
    and F: "3 * (seg_hi ph - seg_lo ph) \<le> card F"
  obtains s' F' where "load_pages b ph d perm s = Some (s', True)" "pt_ok s' D F'" "F' \<subseteq> F"
    "card F \<le> card F' + 3 * (seg_hi ph - seg_lo ph)"
    "loaded s s' D d perm (seg_lo ph * PGSIZE) (seg_hi ph * PGSIZE) (seg_bytes b ph)"
proof -
  let ?va = "p_va ph" let ?fin = "?va + p_memsz ph" let ?fe = "?va + p_filesz ph"
  let ?l = "seg_lo ph" and ?h = "seg_hi ph" and ?g = "\<lambda>i. b (u64 i)"
  have hb: "?h * PGSIZE < ?fin + PGSIZE" "?fin \<le> ?h * PGSIZE" using page_ceil [of ?fin] sz by (simp_all add: seg_hi_def)
  have top: "?fin < 2 ^ 64" "?fe < 2 ^ 64" using hb(2) h sz(1) by (simp_all add: USERTOP_def)
  have lb: "?l * PGSIZE \<le> ?va" "?va < ?l * PGSIZE + PGSIZE" using page_interval [of ?va ?l] by (simp_all add: seg_lo_def)
  have la: "ROUNDDOWN ?va PGSIZE = ?l * PGSIZE" by (simp add: ROUNDDOWN_def seg_lo_def minus_mod_eq_div_mult)
  have lh: "?l < ?h" using lb(1) hb(2) sz(2) mult_less_cancel2 [of ?l PGSIZE ?h] by linarith
  note run = load_pages_def [of b ph d perm s, unfolded la Let_def u64_id [OF top(1)] u64_id [OF top(2)]]
  show ?thesis
  proof (cases "p_filesz ph = 0")
    case True
    obtain k where k: "?h = Suc (?l + k)" using lh less_imp_Suc_add [of ?l ?h] by auto
    have hk: "?h * PGSIZE = (?l + k) * PGSIZE + PGSIZE" "?h - ?l = Suc k" by (simp_all add: k)
    have "\<exists>s' F' p. load_loop (\<lambda>_. 0) d perm ?fin None ?va (?l * PGSIZE) 0 s =
          Some (s', Some (Some p, ?fin, (?l + k) * PGSIZE + PGSIZE)) \<and>
        pt_ok s' D F' \<and> F' \<subseteq> F \<and> card F \<le> card F' + 3 * Suc k \<and>
        p < 32768 \<and> \<not> is_table s' D (page2ppn p) \<and> mappers s' D p = {(d, ?l + k)} \<and>
        loaded s s' D d perm (?l * PGSIZE) ((?l + k) * PGSIZE + PGSIZE)
          (\<lambda>a. if ?va \<le> a \<and> a < ?fin then Some 0 else None)"
      by (rule load_loop_ok [OF _ d perm ok])
        (use lb sz hb [unfolded hk] h [unfolded hk] z [unfolded hk] F [unfolded hk] in simp_all)
    then obtain s' F' p where 1: "load_loop (\<lambda>_. 0) d perm ?fin None ?va (?l * PGSIZE) 0 s =
          Some (s', Some (Some p, ?fin, (?l + k) * PGSIZE + PGSIZE))" "pt_ok s' D F'" "F' \<subseteq> F"
        "card F \<le> card F' + 3 * Suc k" "loaded s s' D d perm (?l * PGSIZE) ((?l + k) * PGSIZE + PGSIZE)
          (\<lambda>a. if ?va \<le> a \<and> a < ?fin then Some 0 else None)" by blast
    show ?thesis
    proof (rule that [unfolded hk, OF _ 1(2-4)])
      show "load_pages b ph d perm s = Some (s', True)"
        using 1(1) lb(1) True by (simp add: run load_loop.simps [of _ _ _ ?va _ ?va])
      show "loaded s s' D d perm (?l * PGSIZE) ((?l + k) * PGSIZE + PGSIZE) (seg_bytes b ph)"
        by (rule loaded_mono [OF 1(5)]) (simp add: seg_bytes_def True split: if_splits)
    qed
  next
    case False
    define j where "j = (?fe + PGSIZE - 1) div PGSIZE"
    have jb: "j * PGSIZE < ?fe + PGSIZE" "?fe \<le> j * PGSIZE" using page_ceil [of ?fe] False by (simp_all add: j_def)
    have lj: "?l < j" using lb(1) jb(2) False mult_less_cancel2 [of ?l PGSIZE j] by linarith
    have jh: "j \<le> ?h" unfolding j_def seg_hi_def by (intro div_le_mono) (use sz(1) in simp)
    obtain k where k: "j = Suc (?l + k)" using lj less_imp_Suc_add [of ?l j] by auto
    have jk: "j * PGSIZE = (?l + k) * PGSIZE + PGSIZE" "j - ?l = Suc k" by (simp_all add: k)
    have jt: "j * PGSIZE \<le> ?h * PGSIZE" using jh by simp
    have Fj: "3 * Suc k + 3 * (?h - j) \<le> card F" using F jh lj by (simp add: k)
    have zj: "pte_of s d a = 0" if "?l * PGSIZE \<le> a" "a < j * PGSIZE" for a
      by (rule z) (use that jt in linarith)+
    have "\<exists>s' F' p. load_loop ?g d perm ?fe None ?va (?l * PGSIZE) (p_offset ph) s =
          Some (s', Some (Some p, ?fe, (?l + k) * PGSIZE + PGSIZE)) \<and>
        pt_ok s' D F' \<and> F' \<subseteq> F \<and> card F \<le> card F' + 3 * Suc k \<and>
        p < 32768 \<and> \<not> is_table s' D (page2ppn p) \<and> mappers s' D p = {(d, ?l + k)} \<and>
        loaded s s' D d perm (?l * PGSIZE) ((?l + k) * PGSIZE + PGSIZE)
          (\<lambda>a. if ?va \<le> a \<and> a < ?fe then Some (?g (p_offset ph + (a - ?va))) else None)"
      by (rule load_loop_ok [OF _ d perm ok])
        (use lb False jb [unfolded jk] h jt [unfolded jk] zj [unfolded jk] Fj in \<open>simp_all add: u64_def mod_add_left_eq\<close>)
    then obtain s1 F1 p where 1: "load_loop ?g d perm ?fe None ?va (?l * PGSIZE) (p_offset ph) s =
          Some (s1, Some (Some p, ?fe, (?l + k) * PGSIZE + PGSIZE))" "pt_ok s1 D F1" "F1 \<subseteq> F"
        "card F \<le> card F1 + 3 * Suc k" "p < 32768" "\<not> is_table s1 D (page2ppn p)" "mappers s1 D p = {(d, ?l + k)}"
        "loaded s s1 D d perm (?l * PGSIZE) (j * PGSIZE)
          (\<lambda>a. if ?va \<le> a \<and> a < ?fe then Some (?g (p_offset ph + (a - ?va))) else None)" unfolding jk by blast
    have z1: "pte_of s1 d a = 0" if "Suc (?l + k) * PGSIZE \<le> a" "a < ?h * PGSIZE" for a
      using 1(8) z [of a] that d h lj unfolding k [symmetric] loaded_def same_outside_def
      by (metis (no_types, lifting) le_trans linorder_not_le mult_le_mono1 nless_le order_less_le_trans)
    have e1: "(?l + k) * PGSIZE \<le> ?fe" and e2: "?fe \<le> ?fin" using jb(1) sz(1) by (simp_all add: jk)
    have F1: "3 * (?h - Suc (?l + k)) \<le> card F1" using Fj 1(4) by (simp add: k)
    note tl = load_tail_ok [OF 1(2) d perm 1(5-7) e1 jb(2) [unfolded jk] e2 jh [unfolded k] hb h z1 F1,
        unfolded jk(1) [symmetric] k [symmetric]]
    obtain s2 s' F' r where 2: "(if ?fe < j * PGSIZE \<and> ?fe \<noteq> ?fin then clear_rest (Some p) ?fe ?fin (j * PGSIZE) s1
        else Some (s1, ?fe)) = Some (s2, min ?fin (j * PGSIZE))"
      "load_loop (\<lambda>_. 0) d perm ?fin None (min ?fin (j * PGSIZE)) (j * PGSIZE) 0 s2 = Some (s', Some r)"
      "pt_ok s' D F'" "F' \<subseteq> F1" "card F1 \<le> card F' + 3 * (?h - j)"
      "\<And>d' a. d' \<in> D \<Longrightarrow> a < USERTOP \<Longrightarrow> user_byte s2 d' a =
        (if d' = d \<and> ?fe \<le> a \<and> a < min ?fin (j * PGSIZE) then Some 0 else user_byte s1 d' a)"
      "\<And>d' a. d' \<in> D \<Longrightarrow> a < USERTOP \<Longrightarrow> pte_of s2 d' a = pte_of s1 d' a"
      "loaded s2 s' D d perm (j * PGSIZE) (?h * PGSIZE) (\<lambda>a. if a < ?fin then Some 0 else None)"
      by (rule tl) (assumption | rule that)+
    have run2: "load_pages b ph d perm s = Some (s', True)"
    proof (cases "?fe < j * PGSIZE \<and> ?fe = ?fin")
      case True
      then have "s2 = s1" "min ?fin (j * PGSIZE) = ?fin" using 2(1) by auto
      then have "s' = s1" using 2(2) by (simp add: load_loop.simps [of _ _ _ ?fin _ ?fin])
      then show ?thesis using 1(1) True unfolding run jk [symmetric] by simp
    next
      case False
      then have "(if ?fe < j * PGSIZE then clear_rest (Some p) ?fe ?fin (j * PGSIZE) s1 else Some (s1, ?fe)) =
          Some (s2, min ?fin (j * PGSIZE))" using 2(1) by auto
      then show ?thesis using 1(1) 2(2) False unfolding run jk [symmetric] by (cases r) auto
    qed
    have "loaded s s2 D d perm (?l * PGSIZE) (j * PGSIZE) (seg_bytes b ph)"
      unfolding loaded_def
    proof (intro conjI allI impI)
      fix a assume a: "?l * PGSIZE \<le> a \<and> a < j * PGSIZE"
      then have "a < USERTOP" using jt h by linarith
      then show "\<exists>p<32768. pte_of s2 d a = pte_create (page2ppn p) (PTE_V OR perm)"
        using 1(8) a 2(7) [OF d] by (simp add: loaded_def)
    next
      fix a c assume a: "seg_bytes b ph a = Some c \<and> ?l * PGSIZE \<le> a \<and> a < j * PGSIZE"
      then have "a < USERTOP" using jt h by linarith
      then show "user_byte s2 d a = Some c"
        using 1(8) a 2(6) [OF d] by (auto simp: loaded_def seg_bytes_def split: if_splits)
    next
      have 11: "same_outside s s1 D (\<lambda>d' a. d' = d \<and> ?l * PGSIZE \<le> a \<and> a < j * PGSIZE)"
        using 1(8) by (simp add: loaded_def)
      have 12: "same_outside s1 s2 D (\<lambda>d' a. d' = d \<and> ?l * PGSIZE \<le> a \<and> a < j * PGSIZE)"
        using 2(6,7) lb(1) by (auto simp: same_outside_def)
      show "same_outside s s2 D (\<lambda>d' a. d' = d \<and> ?l * PGSIZE \<le> a \<and> a < j * PGSIZE)"
        by (rule same_outside_trans [OF 11 12]) simp
    qed
    moreover have "loaded s2 s' D d perm (j * PGSIZE) (?h * PGSIZE) (seg_bytes b ph)"
      by (rule loaded_mono [OF 2(8)]) (use jb in \<open>auto simp: seg_bytes_def split: if_splits\<close>)
    ultimately have "loaded s s' D d perm (?l * PGSIZE) (?h * PGSIZE) (seg_bytes b ph)"
      by (rule loaded_trans) (use lj jt h d in simp_all)
    moreover have "card F \<le> card F' + 3 * (?h - ?l)" using 1(4) 2(5) k jh by simp
    ultimately show ?thesis using that [OF run2 2(3)] 2(4) 1(3) by blast
  qed
qed

end
