(* ===== verification/Load_Image.thy ===== *)
theory Load_Image
  imports Load
begin

unbundle bit_operations_syntax

text \<open>
  What \<open>load_icode\<close> makes of a well-formed image: the areas, the page tables and the bytes of the
  new address space, from the lemmas of \<open>Load\<close> on one segment and those of \<open>Vmm\<close> on areas.
\<close>

section \<open>One segment\<close>

abbreviation loadable :: "proghdr \<Rightarrow> bool" where "loadable ph \<equiv> p_type ph = ELF_PT_LOAD"

abbreviation lo_of :: "proghdr \<Rightarrow> nat" where "lo_of ph \<equiv> seg_lo ph * PGSIZE"
abbreviation hi_of :: "proghdr \<Rightarrow> nat" where "hi_of ph \<equiv> seg_hi ph * PGSIZE"

definition seg_ok :: "proghdr \<Rightarrow> bool" where
  "seg_ok ph \<longleftrightarrow> p_filesz ph \<le> p_memsz ph \<and> 0 < p_memsz ph \<and> USERBASE \<le> lo_of ph \<and> hi_of ph \<le> USTACKTOP - USTACKSIZE"

definition seg_area :: "proghdr \<Rightarrow> area" where
  "seg_area ph = (lo_of ph, hi_of ph, seg_flags (p_pflags ph))"

text \<open>The pages and the bytes of a segment are there.\<close>

definition seg_in :: "machine \<Rightarrow> nat \<Rightarrow> image \<Rightarrow> proghdr \<Rightarrow> bool" where
  "seg_in s d b ph \<longleftrightarrow>
     (\<forall>a. lo_of ph \<le> a \<and> a < hi_of ph \<longrightarrow>
        (\<exists>p<32768. pte_of s d a = pte_create (page2ppn p) (PTE_V OR seg_perm (seg_flags (p_pflags ph))))) \<and>
     (\<forall>a c. seg_bytes b ph a = Some c \<longrightarrow> user_byte s d a = Some c)"

lemma perm_ok_seg [simp]: "perm_ok (seg_perm f)"
  by (simp add: seg_perm_def Let_def perm_ok_def PTE_U_def PTE_V_def PTE_R_def PTE_W_def PTE_X_def)

lemma seg_bounds:
  assumes "0 < p_memsz ph"
  shows "lo_of ph \<le> p_va ph" "p_va ph + p_memsz ph \<le> hi_of ph" "lo_of ph < hi_of ph"
proof -
  show "lo_of ph \<le> p_va ph" using page_interval [of "p_va ph" "seg_lo ph"] by (simp add: seg_lo_def)
  moreover show "p_va ph + p_memsz ph \<le> hi_of ph"
    using page_ceil(2) [of "p_va ph + p_memsz ph"] assms by (simp add: seg_hi_def)
  ultimately show "lo_of ph < hi_of ph" using assms by linarith
qed

lemma seg_bytes_inside:
  "p_filesz ph \<le> p_memsz ph \<Longrightarrow> 0 < p_memsz ph \<Longrightarrow> seg_bytes b ph a = Some c \<Longrightarrow> lo_of ph \<le> a \<and> a < hi_of ph"
  using seg_bounds [of ph] by (auto simp: seg_bytes_def split: if_splits)

lemma mm_map_new:
  assumes ok: "vm_ok m vs v" and x: "x \<notin> set vs"
    and r: "ROUNDDOWN addr PGSIZE = start" "ROUNDUP (u64 (addr + len)) PGSIZE = fin" and acc: "USER_ACCESS start fin"
    and free: "\<forall>(b, e, f) \<in> set (map (area v) vs). e \<le> start \<or> fin \<le> b"
  obtains v' vs' where "mm_map m addr len flags (Some x) v = Some (v', 0, Some x)" "vm_ok m vs' v'"
    "set vs' \<subseteq> insert x (set vs)" "set (map (area v') vs') = insert (start, fin, flags) (set (map (area v) vs))"
    "mach v' = mach v" "pgdir_of (mms v' m) = pgdir_of (mms v m)" "mm_count (mms v' m) = mm_count (mms v m)"
proof -
  let ?as = "map (area v) vs"
  let ?new = "takeWhile (\<lambda>(b, _). b \<le> start) ?as @ (start, fin, flags) # dropWhile (\<lambda>(b, _). b \<le> start) ?as"
  have lt: "start < fin" using acc by (simp add: USER_ACCESS_def)
  have ne: "b < e" if "(b, e, f) \<in> set ?as" for b e f
    using that ok by (auto simp: area_def vm_ok_def)
  have "\<not> list_ex (\<lambda>(b, e, _). b \<le> start \<and> start < e) ?as" "\<not> list_ex (\<lambda>(b, e, _). b < fin \<and> start < e) ?as"
    using free ne lt unfolding list_ex_iff by fastforce+
  then have spec: "area_map ?as start fin flags True = Some (?new, 0)"
    using acc by (simp add: area_map_def)
  obtain v' vs' where 1: "mm_map m addr len flags (Some x) v = Some (v', 0, Some x)" "vm_ok m vs' v'"
    "map (area v') vs' = ?new" "mach v' = mach v" "set vs' \<subseteq> set vs \<union> set_option (Some x)"
    using mm_map_spec [OF ok, of "Some x" addr len flags] x spec unfolding r by auto
  have w: "set (takeWhile P xs @ y # dropWhile P xs) = insert y (set xs)" for P and y :: area and xs
    by (metis Un_insert_right list.simps(15) set_append takeWhile_dropWhile_id)
  have "set ?new = insert (start, fin, flags) (set ?as)" by (rule w)
  then show ?thesis using that [OF 1(1,2)] 1(3-5) mm_map_mm [OF 1(1), of m] by simp
qed

lemma seg_rounds:
  assumes "0 < p_memsz ph" and "hi_of ph \<le> USERTOP"
  shows "ROUNDDOWN (p_va ph) PGSIZE = lo_of ph" "ROUNDUP (u64 (p_va ph + p_memsz ph)) PGSIZE = hi_of ph"
proof -
  show "ROUNDDOWN (p_va ph) PGSIZE = lo_of ph" by (simp add: ROUNDDOWN_def seg_lo_def minus_mod_eq_div_mult)
  have top: "p_va ph + p_memsz ph \<le> USERTOP" using seg_bounds(2) [OF assms(1)] assms(2) by simp
  then have "u64 (p_va ph + p_memsz ph) = p_va ph + p_memsz ph" by (simp add: USERTOP_def)
  moreover have "u64 (p_va ph + p_memsz ph + PGSIZE - 1) = p_va ph + p_memsz ph + PGSIZE - 1"
    using top by (simp add: USERTOP_def PGSIZE_def)
  ultimately show "ROUNDUP (u64 (p_va ph + p_memsz ph)) PGSIZE = hi_of ph"
    by (simp add: ROUNDUP_def ROUNDDOWN_def seg_hi_def minus_mod_eq_div_mult)
qed

lemma load_segment_ok:
  assumes ok: "vm_ok m vs v" "pt_ok (mach v) D F" and d: "pgdir_of (mms v m) = Some d" "d \<in> D"
    and ph: "loadable ph" "seg_ok ph" and x: "new = Some x" "x \<notin> set vs"
    and free: "\<forall>(b, e, f) \<in> set (map (area v) vs). e \<le> lo_of ph \<or> hi_of ph \<le> b"
    and z: "\<And>a. lo_of ph \<le> a \<Longrightarrow> a < hi_of ph \<Longrightarrow> pte_of (mach v) d a = 0"
    and F: "3 * (seg_hi ph - seg_lo ph) \<le> card F"
  obtains v' vs' F' where "load_segment b ph m new v = Some (v', 0)" "vm_ok m vs' v'"
    "set vs' \<subseteq> insert x (set vs)" "set (map (area v') vs') = insert (seg_area ph) (set (map (area v) vs))"
    "pgdir_of (mms v' m) = Some d" "mm_count (mms v' m) = mm_count (mms v m)" "pt_ok (mach v') D F'"
    "card F \<le> card F' + 3 * (seg_hi ph - seg_lo ph)" "seg_in (mach v') d b ph"
    "same_outside (mach v) (mach v') D (\<lambda>d' a. d' = d \<and> lo_of ph \<le> a \<and> a < hi_of ph)"
proof -
  let ?fl = "seg_flags (p_pflags ph)"
  have sz: "p_filesz ph \<le> p_memsz ph" "0 < p_memsz ph" and bd: "USERBASE \<le> lo_of ph" "hi_of ph \<le> USERTOP"
    using ph(2) by (auto simp: seg_ok_def USTACKTOP_def)
  have acc: "USER_ACCESS (lo_of ph) (hi_of ph)" using bd seg_bounds(3) [OF sz(2)] by (simp add: USER_ACCESS_def)
  obtain v1 vs' where 1: "mm_map m (p_va ph) (p_memsz ph) ?fl (Some x) v = Some (v1, 0, Some x)" "vm_ok m vs' v1"
    "set vs' \<subseteq> insert x (set vs)" "set (map (area v1) vs') = insert (lo_of ph, hi_of ph, ?fl) (set (map (area v) vs))"
    "mach v1 = mach v" "pgdir_of (mms v1 m) = pgdir_of (mms v m)" "mm_count (mms v1 m) = mm_count (mms v m)"
    using mm_map_new [OF ok(1) x(2) seg_rounds [OF sz(2) bd(2)] acc free] .
  obtain h F' where 2: "load_pages b ph d (seg_perm ?fl) (mach v) = Some (h, True)" "pt_ok h D F'" "F' \<subseteq> F"
    "card F \<le> card F' + 3 * (seg_hi ph - seg_lo ph)"
    "loaded (mach v) h D d (seg_perm ?fl) (lo_of ph) (hi_of ph) (seg_bytes b ph)"
    by (rule load_pages_ok [OF ok(2) d(2) perm_ok_seg sz bd(2) z F]) (assumption | rule that)+
  have run: "load_segment b ph m new v = Some (v1\<lparr>mach := h\<rparr>, 0)"
    using ph(1) sz(1) 1(1,5,6) 2(1) d(1) x(1) by (simp add: load_segment_def Let_def)
  have sin: "seg_in h d b ph"
    using 2(5) seg_bytes_inside [OF sz] by (auto simp: seg_in_def loaded_def)
  have ar: "area (v1\<lparr>mach := h\<rparr>) = area v1" by (simp add: fun_eq_iff area_def)
  show ?thesis
    by (rule that [OF run, of vs' F'])
      (use 1(2-7) 2(2,4,5) sin d(1) in \<open>simp_all add: vm_ok_mach ar seg_area_def loaded_def\<close>)
qed

section \<open>All segments\<close>

definition segs_ok :: "image \<Rightarrow> nat set \<Rightarrow> bool" where
  "segs_ok b J \<longleftrightarrow> (\<forall>j\<in>J. loadable (prog_header b j) \<longrightarrow> seg_ok (prog_header b j) \<and>
     (\<forall>k\<in>J. loadable (prog_header b k) \<and> k \<noteq> j \<longrightarrow>
        hi_of (prog_header b j) \<le> lo_of (prog_header b k) \<or> hi_of (prog_header b k) \<le> lo_of (prog_header b j)))"

definition seg_at :: "image \<Rightarrow> nat set \<Rightarrow> nat \<Rightarrow> bool" where
  "seg_at b J a \<longleftrightarrow> (\<exists>j\<in>J. loadable (prog_header b j) \<and> lo_of (prog_header b j) \<le> a \<and> a < hi_of (prog_header b j))"

definition seg_pages :: "proghdr \<Rightarrow> nat" where
  "seg_pages ph = (if loadable ph then seg_hi ph - seg_lo ph else 0)"

definition seg_areas :: "image \<Rightarrow> nat set \<Rightarrow> area set" where
  "seg_areas b J = {seg_area (prog_header b j) |j. j \<in> J \<and> loadable (prog_header b j)}"

text \<open>The areas \<open>as\<close> leave room for the segments.\<close>

definition room :: "image \<Rightarrow> nat set \<Rightarrow> area set \<Rightarrow> bool" where
  "room b J as \<longleftrightarrow> (\<forall>j\<in>J. loadable (prog_header b j) \<longrightarrow>
     (\<forall>(x, e, f) \<in> as. e \<le> lo_of (prog_header b j) \<or> hi_of (prog_header b j) \<le> x))"

lemma seg_in_keep:
  assumes "seg_in s d b ph" and "same_outside s s' D (\<lambda>d' a. d' = d \<and> Q a)" and "d \<in> D"
    and "\<And>a. lo_of ph \<le> a \<Longrightarrow> a < hi_of ph \<Longrightarrow> \<not> Q a" and "seg_ok ph"
  shows "seg_in s' d b ph"
proof -
  have ok: "p_filesz ph \<le> p_memsz ph" "0 < p_memsz ph" "hi_of ph \<le> USERTOP"
    using assms(5) by (auto simp: seg_ok_def USTACKTOP_def)
  have k: "pte_of s' d a = pte_of s d a \<and> user_byte s' d a = user_byte s d a" if "lo_of ph \<le> a" "a < hi_of ph" for a
    using assms(2-4) that ok(3) unfolding same_outside_def by simp
  show ?thesis
    unfolding seg_in_def
  proof (intro conjI allI impI)
    fix a assume a: "lo_of ph \<le> a \<and> a < hi_of ph"
    then show "\<exists>p<32768. pte_of s' d a = pte_create (page2ppn p) (PTE_V OR seg_perm (seg_flags (p_pflags ph)))"
      using assms(1) k [of a] by (simp add: seg_in_def)
  next
    fix a c assume a: "seg_bytes b ph a = Some c"
    then show "user_byte s' d a = Some c"
      using assms(1) k [of a] seg_bytes_inside [OF ok(1,2) a] by (simp add: seg_in_def)
  qed
qed

lemma segs_ok_sub: "segs_ok b (insert i J) \<Longrightarrow> segs_ok b J"
  by (simp add: segs_ok_def)

lemma segs_apart:
  assumes "segs_ok b (insert i J)" and "i \<notin> J" and "loadable (prog_header b i)"
    and "lo_of (prog_header b i) \<le> a" "a < hi_of (prog_header b i)"
  shows "\<not> seg_at b J a"
proof
  assume "seg_at b J a"
  then obtain j where j: "j \<in> J" "loadable (prog_header b j)" "lo_of (prog_header b j) \<le> a" "a < hi_of (prog_header b j)"
    by (auto simp: seg_at_def)
  have "hi_of (prog_header b i) \<le> lo_of (prog_header b j) \<or> hi_of (prog_header b j) \<le> lo_of (prog_header b i)"
    using assms(1-3) j(1,2) by (auto simp: segs_ok_def)
  then show False using assms(4,5) j(3,4) by linarith
qed

lemma load_segments_ok:
  "vm_ok m vs v \<Longrightarrow> pt_ok (mach v) D F \<Longrightarrow> pgdir_of (mms v m) = Some d \<Longrightarrow> d \<in> D \<Longrightarrow> segs_ok b {i..<i + n} \<Longrightarrow>
    inj_on new {i..<i + n} \<Longrightarrow> (\<And>j. j \<in> {i..<i + n} \<Longrightarrow> \<exists>x. new j = Some x \<and> x \<notin> set vs) \<Longrightarrow>
    room b {i..<i + n} (set (map (area v) vs)) \<Longrightarrow> (\<And>a. seg_at b {i..<i + n} a \<Longrightarrow> pte_of (mach v) d a = 0) \<Longrightarrow>
    3 * (\<Sum>j\<in>{i..<i + n}. seg_pages (prog_header b j)) \<le> card F \<Longrightarrow>
    \<exists>v' vs' F'. load_segments b i n m new v = Some (v', 0) \<and> vm_ok m vs' v' \<and>
      (\<forall>x\<in>set vs'. x \<in> set vs \<or> Some x \<in> new ` {i..<i + n}) \<and>
      set (map (area v') vs') = set (map (area v) vs) \<union> seg_areas b {i..<i + n} \<and>
      pgdir_of (mms v' m) = Some d \<and> mm_count (mms v' m) = mm_count (mms v m) \<and> pt_ok (mach v') D F' \<and>
      card F \<le> card F' + 3 * (\<Sum>j\<in>{i..<i + n}. seg_pages (prog_header b j)) \<and>
      (\<forall>j\<in>{i..<i + n}. loadable (prog_header b j) \<longrightarrow> seg_in (mach v') d b (prog_header b j)) \<and>
      same_outside (mach v) (mach v') D (\<lambda>d' a. d' = d \<and> seg_at b {i..<i + n} a)"
proof (induction n arbitrary: i v vs F)
  case 0
  have "same_outside (mach v) (mach v) D (\<lambda>d' a. d' = d \<and> seg_at b {i..<i + 0} a)" by (simp add: same_outside_def)
  then show ?case using 0 by (auto simp: seg_areas_def)
next
  case (Suc n i v vs F)
  let ?ph = "prog_header b i" and ?J = "{Suc i..<Suc i + n}"
  have J: "{i..<i + Suc n} = insert i ?J" "i \<notin> ?J" by auto
  note pr = Suc.prems [unfolded J(1)]
  have sub: "segs_ok b ?J" "inj_on new ?J" using pr(5,6) segs_ok_sub by auto
  have sum: "(\<Sum>j\<in>insert i ?J. seg_pages (prog_header b j)) = seg_pages ?ph + (\<Sum>j\<in>?J. seg_pages (prog_header b j))" by simp
  show ?case
  proof (cases "loadable ?ph")
    case False
    have eq: "seg_areas b (insert i ?J) = seg_areas b ?J" "seg_at b (insert i ?J) = seg_at b ?J" "seg_pages ?ph = 0"
      using False by (auto simp: seg_areas_def seg_at_def seg_pages_def)
    have "\<exists>v' vs' F'. load_segments b (Suc i) n m new v = Some (v', 0) \<and> vm_ok m vs' v' \<and>
      (\<forall>x\<in>set vs'. x \<in> set vs \<or> Some x \<in> new ` ?J) \<and>
      set (map (area v') vs') = set (map (area v) vs) \<union> seg_areas b ?J \<and>
      pgdir_of (mms v' m) = Some d \<and> mm_count (mms v' m) = mm_count (mms v m) \<and> pt_ok (mach v') D F' \<and>
      card F \<le> card F' + 3 * (\<Sum>j\<in>?J. seg_pages (prog_header b j)) \<and>
      (\<forall>j\<in>?J. loadable (prog_header b j) \<longrightarrow> seg_in (mach v') d b (prog_header b j)) \<and>
      same_outside (mach v) (mach v') D (\<lambda>d' a. d' = d \<and> seg_at b ?J a)"
    proof (rule Suc.IH [OF pr(1-4) sub])
      show "room b ?J (set (map (area v) vs))" using pr(8) by (simp add: room_def)
      show "pte_of (mach v) d a = 0" if "seg_at b ?J a" for a using pr(9) that eq(2) by simp
      show "3 * (\<Sum>j\<in>?J. seg_pages (prog_header b j)) \<le> card F" using pr(10) unfolding sum eq(3) by simp
    qed (use pr(7) in auto)
    then obtain v' vs' F' where 1: "load_segments b (Suc i) n m new v = Some (v', 0)" "vm_ok m vs' v'"
      "\<forall>x\<in>set vs'. x \<in> set vs \<or> Some x \<in> new ` ?J"
      "set (map (area v') vs') = set (map (area v) vs) \<union> seg_areas b ?J"
      "pgdir_of (mms v' m) = Some d" "mm_count (mms v' m) = mm_count (mms v m)" "pt_ok (mach v') D F'"
      "card F \<le> card F' + 3 * (\<Sum>j\<in>?J. seg_pages (prog_header b j))"
      "\<forall>j\<in>?J. loadable (prog_header b j) \<longrightarrow> seg_in (mach v') d b (prog_header b j)"
      "same_outside (mach v) (mach v') D (\<lambda>d' a. d' = d \<and> seg_at b ?J a)" by blast
    have run: "load_segments b i (Suc n) m new v = Some (v', 0)" using False 1(1) by (simp add: load_segment_def)
    show ?thesis unfolding J(1) eq(1,2) sum eq(3)
      by (intro exI [of _ v'] exI [of _ vs'] exI [of _ F'] conjI run 1(2,4-7,10)) (use 1(3,8,9) False in auto)
  next
    case True
    have so: "seg_ok ?ph" using pr(5) True by (simp add: segs_ok_def)
    obtain x where x: "new i = Some x" "x \<notin> set vs" using pr(7) [of i] by auto
    have free: "\<forall>(s, e, f) \<in> set (map (area v) vs). e \<le> lo_of ?ph \<or> hi_of ?ph \<le> s"
      using pr(8) True by (simp add: room_def del: set_map)
    have z: "pte_of (mach v) d a = 0" if "lo_of ?ph \<le> a" "a < hi_of ?ph" for a
      by (rule pr(9)) (use that True in \<open>auto simp: seg_at_def\<close>)
    have pg: "seg_pages ?ph = seg_hi ?ph - seg_lo ?ph" using True by (simp add: seg_pages_def)
    have F: "3 * (seg_hi ?ph - seg_lo ?ph) + 3 * (\<Sum>j\<in>?J. seg_pages (prog_header b j)) \<le> card F"
      using pr(10) unfolding sum pg by simp
    have F0: "3 * (seg_hi ?ph - seg_lo ?ph) \<le> card F" using F by simp
    obtain v1 vs1 F1 where 1: "load_segment b ?ph m (new i) v = Some (v1, 0)" "vm_ok m vs1 v1"
      "set vs1 \<subseteq> insert x (set vs)" "set (map (area v1) vs1) = insert (seg_area ?ph) (set (map (area v) vs))"
      "pgdir_of (mms v1 m) = Some d" "mm_count (mms v1 m) = mm_count (mms v m)" "pt_ok (mach v1) D F1"
      "card F \<le> card F1 + 3 * (seg_hi ?ph - seg_lo ?ph)" "seg_in (mach v1) d b ?ph"
      "same_outside (mach v) (mach v1) D (\<lambda>d' a. d' = d \<and> lo_of ?ph \<le> a \<and> a < hi_of ?ph)"
      by (rule load_segment_ok [OF pr(1-4) True so x free z F0]) (assumption | rule that)+
    have new1: "\<exists>y. new j = Some y \<and> y \<notin> set vs1" if "j \<in> ?J" for j
    proof -
      obtain y where y: "new j = Some y" "y \<notin> set vs" using pr(7) [of j] \<open>j \<in> ?J\<close> by auto
      have "new j \<noteq> new i" using pr(6) that J(2) unfolding inj_on_def by blast
      then show ?thesis using y x(1) 1(3) by auto
    qed
    have room1: "room b ?J (set (map (area v1) vs1))"
      using pr(5,8) J(2) True unfolding 1(4) by (fastforce simp: room_def segs_ok_def seg_area_def simp del: set_map)
    have apart: "\<not> seg_at b ?J a" if "lo_of ?ph \<le> a" "a < hi_of ?ph" for a
      by (rule segs_apart [OF pr(5) J(2) True that])
    have z1: "pte_of (mach v1) d a = 0" if a: "seg_at b ?J a" for a
    proof -
      have "a < USERTOP" using a sub(1) by (fastforce simp: seg_at_def segs_ok_def seg_ok_def USTACKTOP_def)
      moreover have "\<not> (lo_of ?ph \<le> a \<and> a < hi_of ?ph)" using apart a by blast
      moreover have "pte_of (mach v) d a = 0" by (rule pr(9)) (use a in \<open>auto simp: seg_at_def\<close>)
      ultimately show ?thesis using 1(10) pr(4) by (simp add: same_outside_def)
    qed
    have F1: "3 * (\<Sum>j\<in>?J. seg_pages (prog_header b j)) \<le> card F1" using F 1(8) by simp
    obtain v' vs' F' where 2: "load_segments b (Suc i) n m new v1 = Some (v', 0)" "vm_ok m vs' v'"
      "\<forall>x\<in>set vs'. x \<in> set vs1 \<or> Some x \<in> new ` ?J"
      "set (map (area v') vs') = set (map (area v1) vs1) \<union> seg_areas b ?J"
      "pgdir_of (mms v' m) = Some d" "mm_count (mms v' m) = mm_count (mms v1 m)" "pt_ok (mach v') D F'"
      "card F1 \<le> card F' + 3 * (\<Sum>j\<in>?J. seg_pages (prog_header b j))"
      "\<forall>j\<in>?J. loadable (prog_header b j) \<longrightarrow> seg_in (mach v') d b (prog_header b j)"
      "same_outside (mach v1) (mach v') D (\<lambda>d' a. d' = d \<and> seg_at b ?J a)"
      using Suc.IH [OF 1(2,7,5) pr(4) sub new1 room1 z1 F1] by blast
    have run: "load_segments b i (Suc n) m new v = Some (v', 0)" using 1(1) 2(1) by simp
    have sin: "seg_in (mach v') d b ?ph" by (rule seg_in_keep [OF 1(9) 2(10) pr(4) apart so])
    have out: "same_outside (mach v) (mach v') D (\<lambda>d' a. d' = d \<and> seg_at b (insert i ?J) a)"
      by (rule same_outside_trans [OF 1(10) 2(10)]) (use True in \<open>auto simp: seg_at_def\<close>)
    have ars: "set (map (area v') vs') = set (map (area v) vs) \<union> seg_areas b (insert i ?J)"
      unfolding 2(4) 1(4) using True by (auto simp: seg_areas_def)
    have mem: "\<forall>y\<in>set vs'. y \<in> set vs \<or> Some y \<in> new ` insert i ?J" using 2(3) 1(3) x(1) by auto
    have cF: "card F \<le> card F' + 3 * (\<Sum>j\<in>insert i ?J. seg_pages (prog_header b j))"
      using 1(8) 2(8) unfolding sum pg by simp
    show ?thesis unfolding J(1)
      by (intro exI [of _ v'] exI [of _ vs'] exI [of _ F'] conjI run 2(2,5,7) mem ars cF out)
        (use 1(6) 2(6,9) sin in auto)
  qed
qed

section \<open>The directory and the stack\<close>

lemma same_outside_refl [simp]: "same_outside s s D R"
  by (simp add: same_outside_def)

lemma same_outside_sub: "same_outside s s' D R \<Longrightarrow> E \<subseteq> D \<Longrightarrow> (\<And>d a. d \<in> E \<Longrightarrow> R d a \<Longrightarrow> Q d a) \<Longrightarrow> same_outside s s' E Q"
  unfolding same_outside_def by blast

lemma mm_create_ok:
  obtains v1 where "mm_create (Some m) v = (v1, Some m)" "vm_ok m [] v1" "mach v1 = mach v" "mm_count (mms v1 m) = 0"
proof
  show "vm_ok m [] (fst (mm_create (Some m) v))"
    using ring_list_init [of "Mmap m" "vm_links v"] by (simp add: mm_create_def vm_ok_def)
qed (simp_all add: mm_create_def)

lemma setup_pgdir_ok:
  assumes ok: "vm_ok m vs v" "pt_ok (mach v) D F" and F: "F \<noteq> {}"
    and boot: "\<forall>i<2. \<not> valid (frames (mach v) boot i)"
  obtains v' d F' where "setup_pgdir boot m v = Some (v', 0)" "vm_ok m vs v'" "area v' = area v" "mm_count (mms v' m) = mm_count (mms v m)"
    "pgdir_of (mms v' m) = Some d" "d \<notin> D" "pt_ok (mach v') (insert d D) F'" "card F \<le> card F' + 1"
    "\<forall>a<USERTOP. pte_of (mach v') d a = 0" "same_outside (mach v) (mach v') D (\<lambda>_ _. False)"
proof -
  have fin: "finite F" using ff_inv_subset [of NPAGES "pm (mach v)" F] ok(2) finite_subset by (auto simp: pt_ok_def)
  obtain b p where b: "alloc_page (mach v) = Some (mach v\<lparr>pm := b\<rparr>, Some p)" "p \<in> F" "p < 32768"
    "pt_ok (mach v\<lparr>pm := b\<rparr>) D (F - {p})" "clean p (mach v\<lparr>pm := b\<rparr>)" "\<not> is_table (mach v\<lparr>pm := b\<rparr>) D (page2ppn p)"
    "\<forall>k. table_at (mach v\<lparr>pm := b\<rparr>) k = table_at (mach v) k" "\<forall>d la. pte_of (mach v\<lparr>pm := b\<rparr>) d la = pte_of (mach v) d la"
    using alloc_page_ok [OF ok(2) F] .
  let ?s = "mach v\<lparr>pm := b\<rparr>" and ?d = "page2ppn p"
  let ?h = "copy_frame ?d boot ?s"
  let ?v = "upd_mm m (\<lambda>x. x\<lparr>pgdir_of := Some ?d\<rparr>) (v\<lparr>mach := ?h\<rparr>)"
  have fr: "frames ?h f = frames ?s f" if "is_table ?s D f" for f
    using that b(6) by (auto simp: copy_frame_def)
  have pm: "pm ?h = pm ?s" by (simp add: copy_frame_def)
  note pf = pt_ok_frames [where s' = ?h, OF b(4) fr pm]
  have mp: "mappers ?s D p = {}"
    using free_no_mappers [OF ok(2) b(2)] b(8) by (simp add: mappers_def)
  have ref: "page_ref p ?h = 0"
    using b(3,4,6) mp pm by (simp add: pt_ok_def pages_ok_def page_ref_def)
  have nt: "\<not> is_table ?h D ?d" using pf(2) b(6) by blast
  have e: "\<forall>i<2. \<not> valid (frames ?h ?d i)" using boot by (simp add: copy_frame_def)
  have ok1: "pt_ok ?h D (F - {p})" by (rule pf(1)) blast
  have pF: "p \<notin> F - {p}" by simp
  note nd = pt_ok_new_dir [OF ok1 b(3) pF nt ref e]
  have dD: "?d \<notin> D" using nt table_at_is_table [of "Root ?d" D ?h ?d] by auto
  have out: "same_outside (mach v) ?h D (\<lambda>_ _. False)"
    unfolding same_outside_def
  proof (intro ballI allI impI)
    fix d' a assume a: "d' \<in> D" "a < USERTOP"
    have q: "pte_of ?h d' a = pte_of (mach v) d' a" using pf(3) [OF _ a] b(8) by simp
    have "user_byte ?h d' a = user_byte (mach v) d' a"
      by (rule user_byte_frames [OF ok(2) a q]) (use b(2) in \<open>auto simp: copy_frame_def\<close>)
    then show "pte_of ?h d' a = pte_of (mach v) d' a \<and> user_byte ?h d' a = user_byte (mach v) d' a" using q by simp
  qed
  show ?thesis
  proof (rule that [of ?v ?d "F - {p}"])
    show "setup_pgdir boot m v = Some (?v, 0)"
      using b(1) page2kva_ok [OF b(3)] by (simp add: setup_pgdir_def)
    show "vm_ok m vs ?v" using ok(1) by (simp add: vm_ok_def)
    show "area ?v = area v" by (simp add: fun_eq_iff area_def)
    show "card F \<le> card (F - {p}) + 1" using fin b(2) by simp
  qed (use nd dD out in simp_all)
qed

text \<open>A page of memory that the process can read, write and execute.\<close>

definition user_page :: "machine \<Rightarrow> nat \<Rightarrow> nat \<Rightarrow> bool" where
  "user_page s d a \<longleftrightarrow> (\<exists>p<32768. pte_of s d a = pte_create (page2ppn p) (PTE_V OR PTE_USER))"

lemma stack_pages_ok:
  "pt_ok s D F \<Longrightarrow> d \<in> D \<Longrightarrow> i + n \<le> 256 \<Longrightarrow>
    (\<And>a. USTACKTOP - (i + n) * PGSIZE \<le> a \<Longrightarrow> a < USTACKTOP - i * PGSIZE \<Longrightarrow> pte_of s d a = 0) \<Longrightarrow> 3 * n \<le> card F \<Longrightarrow>
    \<exists>s' F'. stack_pages d i n s = Some s' \<and> pt_ok s' D F' \<and> card F \<le> card F' + 3 * n \<and>
      (\<forall>a. USTACKTOP - (i + n) * PGSIZE \<le> a \<and> a < USTACKTOP - i * PGSIZE \<longrightarrow> user_page s' d a) \<and>
      same_outside s s' D (\<lambda>d' a. d' = d \<and> USTACKTOP - (i + n) * PGSIZE \<le> a \<and> a < USTACKTOP - i * PGSIZE)"
proof (induction n arbitrary: i s F)
  case 0
  then show ?case by auto
next
  case (Suc n i s F)
  note pr = Suc.prems
  define l where "l = 524288 - Suc i"
  have l: "USTACKTOP - Suc i * PGSIZE = l * PGSIZE" "USTACKTOP - i * PGSIZE = l * PGSIZE + PGSIZE" "l * PGSIZE < USERTOP"
    "l * PGSIZE div PGSIZE = l" "USTACKTOP - (i + Suc n) * PGSIZE \<le> l * PGSIZE"
    using pr(3) by (simp_all add: l_def USTACKTOP_def USERTOP_def PGSIZE_def)
  have z: "pte_of s d (l * PGSIZE) = 0" by (rule pr(4)) (use l in \<open>simp_all add: PGSIZE_def\<close>)
  have F: "3 \<le> card F" using pr(5) by simp
  obtain s1 F1 p where 1: "pgdir_alloc_page d (l * PGSIZE) PTE_USER s = Some (s1, Some p)" "p < 32768" "pt_ok s1 D F1"
    "F1 \<subseteq> F" "card F \<le> card F1 + 3" "\<not> is_table s1 D (page2ppn p)" "mappers s1 D p = {(d, l)}"
    "\<forall>a. a div PGSIZE = l \<longrightarrow> pte_of s1 d a = pte_create (page2ppn p) (PTE_V OR PTE_USER)"
    "same_outside s s1 D (\<lambda>d' a. d' = d \<and> a div PGSIZE = l)"
    using pgdir_alloc_page_new [OF pr(1,2) l(3) z F perm_bits(3)] unfolding l(4) .
  have here: "a div PGSIZE = l \<longleftrightarrow> USTACKTOP - Suc i * PGSIZE \<le> a \<and> a < USTACKTOP - i * PGSIZE" for a
    unfolding page_interval l ..
  have z1: "pte_of s1 d a = 0" if a: "USTACKTOP - (Suc i + n) * PGSIZE \<le> a" "a < USTACKTOP - Suc i * PGSIZE" for a
  proof -
    have "a < USTACKTOP - i * PGSIZE" "a < USERTOP" using a(2) l by simp_all
    then have "pte_of s d a = 0" using pr(4) a(1) by simp
    moreover have "\<not> a div PGSIZE = l" using a(2) here [of a] by simp
    ultimately show ?thesis using 1(9) pr(2) \<open>a < USERTOP\<close> by (simp add: same_outside_def)
  qed
  have c: "Suc i + n \<le> 256" "3 * n \<le> card F1" using pr(3,5) 1(5) by simp_all
  obtain s' F' where 2: "stack_pages d (Suc i) n s1 = Some s'" "pt_ok s' D F'" "card F1 \<le> card F' + 3 * n"
    "\<forall>a. USTACKTOP - (Suc i + n) * PGSIZE \<le> a \<and> a < USTACKTOP - Suc i * PGSIZE \<longrightarrow> user_page s' d a"
    "same_outside s1 s' D (\<lambda>d' a. d' = d \<and> USTACKTOP - (Suc i + n) * PGSIZE \<le> a \<and> a < USTACKTOP - Suc i * PGSIZE)"
    using Suc.IH [OF 1(3) pr(2) c(1) z1 c(2)] by blast
  have run: "stack_pages d i (Suc n) s = Some s'" using 1(1) 2(1) by (simp add: l(1) [simplified])
  have val: "user_page s' d a" if "USTACKTOP - (i + Suc n) * PGSIZE \<le> a" "a < USTACKTOP - i * PGSIZE" for a
  proof (cases "a < USTACKTOP - Suc i * PGSIZE")
    case True
    then show ?thesis using 2(4) that by simp
  next
    case False
    then have "user_page s1 d a" using 1(2,8) here [of a] that by (auto simp: user_page_def)
    moreover have "a < USERTOP" using that(2) l(1) by (simp add: USTACKTOP_def)
    ultimately show ?thesis using 2(5) pr(2) False by (simp add: same_outside_def user_page_def)
  qed
  have "same_outside s s' D (\<lambda>d' a. d' = d \<and> USTACKTOP - (i + Suc n) * PGSIZE \<le> a \<and> a < USTACKTOP - i * PGSIZE)"
    by (rule same_outside_trans [OF 1(9) 2(5)]) (use l in \<open>auto simp: here\<close>)
  then show ?case
    using run 2(2,3) 1(5) val by (intro exI [of _ s'] exI [of _ F']) simp
qed

definition stack_area :: area where
  "stack_area = (USTACKTOP - USTACKSIZE, USTACKTOP, VM_READ OR VM_WRITE OR VM_STACK)"

definition in_stack :: "nat \<Rightarrow> bool" where
  "in_stack a \<longleftrightarrow> USTACKTOP - 4 * PGSIZE \<le> a \<and> a < USTACKTOP"

lemma build_stack_ok:
  assumes ok: "vm_ok m vs v" "pt_ok (mach v) D F" and d: "pgdir_of (mms v m) = Some d" "d \<in> D"
    and x: "new = Some x" "x \<notin> set vs" and free: "\<forall>(b, e, f) \<in> set (map (area v) vs). e \<le> USTACKTOP - USTACKSIZE"
    and z: "\<And>a. in_stack a \<Longrightarrow> pte_of (mach v) d a = 0" and F: "12 \<le> card F"
  obtains v' vs' F' where "build_stack m new v = Some (v', 0)" "vm_ok m vs' v'"
    "set (map (area v') vs') = insert stack_area (set (map (area v) vs))"
    "pgdir_of (mms v' m) = Some d" "mm_count (mms v' m) = mm_count (mms v m)" "pt_ok (mach v') D F'"
    "\<forall>a. in_stack a \<longrightarrow> user_page (mach v') d a" "same_outside (mach v) (mach v') D (\<lambda>d' a. d' = d \<and> in_stack a)"
proof -
  let ?lo = "USTACKTOP - USTACKSIZE" and ?fl = "VM_READ OR VM_WRITE OR VM_STACK"
  have r: "ROUNDDOWN ?lo PGSIZE = ?lo" "ROUNDUP (u64 (?lo + USTACKSIZE)) PGSIZE = USTACKTOP"
    and acc: "USER_ACCESS ?lo USTACKTOP"
    by (simp_all add: ROUNDDOWN_def ROUNDUP_def USTACKTOP_def USTACKSIZE_def USERTOP_def PGSIZE_def USER_ACCESS_def USERBASE_def)
  have fr: "\<forall>(b, e, f) \<in> set (map (area v) vs). e \<le> ?lo \<or> USTACKTOP \<le> b" using free by blast
  obtain v1 vs' where 1: "mm_map m ?lo USTACKSIZE ?fl (Some x) v = Some (v1, 0, Some x)" "vm_ok m vs' v1"
    "set vs' \<subseteq> insert x (set vs)" "set (map (area v1) vs') = insert (?lo, USTACKTOP, ?fl) (set (map (area v) vs))"
    "mach v1 = mach v" "pgdir_of (mms v1 m) = pgdir_of (mms v m)" "mm_count (mms v1 m) = mm_count (mms v m)"
    using mm_map_new [OF ok(1) x(2) r acc fr] .
  have z0: "pte_of (mach v) d a = 0" if "USTACKTOP - (0 + 4) * PGSIZE \<le> a" "a < USTACKTOP - 0 * PGSIZE" for a
    by (rule z) (use that in \<open>simp add: in_stack_def\<close>)
  have c: "0 + 4 \<le> (256 :: nat)" "3 * 4 \<le> card F" using F by simp_all
  obtain h F' where 2: "stack_pages d 0 4 (mach v) = Some h" "pt_ok h D F'"
    "\<forall>a. USTACKTOP - (0 + 4) * PGSIZE \<le> a \<and> a < USTACKTOP - 0 * PGSIZE \<longrightarrow> user_page h d a"
    "same_outside (mach v) h D (\<lambda>d' a. d' = d \<and> USTACKTOP - (0 + 4) * PGSIZE \<le> a \<and> a < USTACKTOP - 0 * PGSIZE)"
    using stack_pages_ok [OF ok(2) d(2) c(1) z0 c(2)] by blast
  have st: "USTACKTOP - (0 + 4) * PGSIZE \<le> a \<and> a < USTACKTOP - 0 * PGSIZE \<longleftrightarrow> in_stack a" for a
    by (simp add: in_stack_def)
  have run: "build_stack m new v = Some (v1\<lparr>mach := h\<rparr>, 0)"
    using 1(1,5,6) 2(1) d(1) x(1) by (simp add: build_stack_def)
  have ar: "area (v1\<lparr>mach := h\<rparr>) = area v1" by (simp add: fun_eq_iff area_def)
  show ?thesis
    by (rule that [OF run, of vs' F'])
      (use 1(2,4,6,7) 2(2) 2(3,4) [unfolded st] d(1) in \<open>simp_all add: vm_ok_mach ar stack_area_def\<close>)
qed

section \<open>The whole image\<close>

definition headers :: "image \<Rightarrow> nat set" where "headers b = {0..<e_phnum (elf_header b)}"

definition image_ok :: "image \<Rightarrow> bool" where
  "image_ok b \<longleftrightarrow> e_magic (elf_header b) = ELF_MAGIC \<and> segs_ok b (headers b)"

definition image_pages :: "image \<Rightarrow> nat" where
  "image_pages b = (\<Sum>j\<in>headers b. seg_pages (prog_header b j))"

text \<open>The memory for the areas: one block for every header and one for the stack, all different.\<close>

definition fresh_areas :: "(nat \<Rightarrow> nat option) \<Rightarrow> nat option \<Rightarrow> nat set \<Rightarrow> bool" where
  "fresh_areas new stack J \<longleftrightarrow> stack \<noteq> None \<and> inj_on new J \<and> (\<forall>j\<in>J. new j \<noteq> None \<and> new j \<noteq> stack)"

definition image_loaded :: "image \<Rightarrow> nat \<Rightarrow> vmm \<Rightarrow> bool" where
  "image_loaded b d v \<longleftrightarrow>
     (\<forall>j\<in>headers b. loadable (prog_header b j) \<longrightarrow> seg_in (mach v) d b (prog_header b j)) \<and>
     (\<forall>a. in_stack a \<longrightarrow> user_page (mach v) d a) \<and>
     (\<forall>a<USERTOP. \<not> seg_at b (headers b) a \<and> \<not> in_stack a \<longrightarrow> pte_of (mach v) d a = 0)"

lemma seg_at_bound: "segs_ok b J \<Longrightarrow> seg_at b J a \<Longrightarrow> a < USTACKTOP - USTACKSIZE"
  unfolding segs_ok_def seg_at_def seg_ok_def by fastforce

lemma build_image_ok:
  assumes ok: "vm_ok m [] v" "pt_ok (mach v) D F" and boot: "\<forall>i<2. \<not> valid (frames (mach v) boot i)"
    and img: "image_ok b" and new: "fresh_areas new stack (headers b)" and F: "3 * image_pages b + 13 \<le> card F"
  obtains v' vs d F' where "build_image b boot m new stack v = Some (v', 0)" "vm_ok m vs v'"
    "set (map (area v') vs) = insert stack_area (seg_areas b (headers b))" "pgdir_of (mms v' m) = Some d" "d \<notin> D"
    "mm_count (mms v' m) = mm_count (mms v m)" "pt_ok (mach v') (insert d D) F'" "image_loaded b d v'"
    "same_outside (mach v) (mach v') D (\<lambda>_ _. False)"
proof -
  let ?n = "e_phnum (elf_header b)"
  have J: "headers b = {0..<0 + ?n}" by (simp add: headers_def)
  have seg: "segs_ok b {0..<0 + ?n}" and magic: "e_magic (elf_header b) = ELF_MAGIC" using img by (simp_all add: image_ok_def J)
  have Fne: "F \<noteq> {}" using F by auto
  obtain v1 d F1 where 1: "setup_pgdir boot m v = Some (v1, 0)" "vm_ok m [] v1" "area v1 = area v"
    "mm_count (mms v1 m) = mm_count (mms v m)" "pgdir_of (mms v1 m) = Some d" "d \<notin> D" "pt_ok (mach v1) (insert d D) F1"
    "card F \<le> card F1 + 1" "\<forall>a<USERTOP. pte_of (mach v1) d a = 0" "same_outside (mach v) (mach v1) D (\<lambda>_ _. False)"
    using setup_pgdir_ok [OF ok Fne boot] .
  have dD: "d \<in> insert d D" by simp
  have new0: "\<exists>x. new j = Some x \<and> x \<notin> set []" if "j \<in> {0..<0 + ?n}" for j
    using new that by (auto simp: fresh_areas_def J)
  have room0: "room b {0..<0 + ?n} (set (map (area v1) []))" by (simp add: room_def)
  have top: "USTACKTOP - USTACKSIZE < USERTOP" by (simp add: USTACKTOP_def USTACKSIZE_def USERTOP_def PGSIZE_def)
  have z0: "pte_of (mach v1) d a = 0" if "seg_at b {0..<0 + ?n} a" for a
    using 1(9) seg_at_bound [OF seg that] top by simp
  have inj: "inj_on new {0..<0 + ?n}" using new by (simp add: fresh_areas_def J)
  have F0: "3 * (\<Sum>j\<in>{0..<0 + ?n}. seg_pages (prog_header b j)) \<le> card F1" using F 1(8) by (simp add: image_pages_def J)
  obtain v2 vs2 F2 where 2: "load_segments b 0 ?n m new v1 = Some (v2, 0)" "vm_ok m vs2 v2"
      "\<forall>x\<in>set vs2. x \<in> set [] \<or> Some x \<in> new ` {0..<0 + ?n}"
      "set (map (area v2) vs2) = set (map (area v1) []) \<union> seg_areas b {0..<0 + ?n}"
      "pgdir_of (mms v2 m) = Some d" "mm_count (mms v2 m) = mm_count (mms v1 m)" "pt_ok (mach v2) (insert d D) F2"
      "card F1 \<le> card F2 + 3 * (\<Sum>j\<in>{0..<0 + ?n}. seg_pages (prog_header b j))"
      "\<forall>j\<in>{0..<0 + ?n}. loadable (prog_header b j) \<longrightarrow> seg_in (mach v2) d b (prog_header b j)"
      "same_outside (mach v1) (mach v2) (insert d D) (\<lambda>d' a. d' = d \<and> seg_at b {0..<0 + ?n} a)"
    using load_segments_ok [OF 1(2,7,5) dD seg inj new0 room0 z0 F0] by blast
  obtain x where x: "stack = Some x" using new by (auto simp: fresh_areas_def)
  have xn: "x \<notin> set vs2"
  proof
    assume "x \<in> set vs2"
    then obtain j where "j \<in> headers b" "new j = stack" using 2(3) x unfolding J by force
    then show False using new by (simp add: fresh_areas_def)
  qed
  have free: "\<forall>(s, e, f) \<in> set (map (area v2) vs2). e \<le> USTACKTOP - USTACKSIZE"
    unfolding 2(4) using seg by (auto simp: seg_areas_def seg_area_def segs_ok_def seg_ok_def)
  have nstack: "\<not> seg_at b {0..<0 + ?n} a" "a < USERTOP" if "in_stack a" for a
    using seg_at_bound [OF seg, of a] that by (auto simp: in_stack_def USTACKTOP_def USTACKSIZE_def USERTOP_def PGSIZE_def)
  have z2: "pte_of (mach v2) d a = 0" if "in_stack a" for a
    using 2(10) 1(9) nstack [OF that] by (simp add: same_outside_def)
  have F2: "12 \<le> card F2" using F 1(8) 2(8) by (simp add: image_pages_def J)
  obtain v' vs' F' where 3: "build_stack m stack v2 = Some (v', 0)" "vm_ok m vs' v'"
    "set (map (area v') vs') = insert stack_area (set (map (area v2) vs2))"
    "pgdir_of (mms v' m) = Some d" "mm_count (mms v' m) = mm_count (mms v2 m)" "pt_ok (mach v') (insert d D) F'"
    "\<forall>a. in_stack a \<longrightarrow> user_page (mach v') d a"
    "same_outside (mach v2) (mach v') (insert d D) (\<lambda>d' a. d' = d \<and> in_stack a)"
    by (rule build_stack_ok [OF 2(2,7,5) dD x xn free z2 F2]) (assumption | rule that)+
  have run: "build_image b boot m new stack v = Some (v', 0)"
    using 1(1) 2(1) 3(1) magic by (simp add: build_image_def)
  have keep: "seg_in (mach v') d b (prog_header b j)" if j: "j \<in> headers b" "loadable (prog_header b j)" for j
  proof (rule seg_in_keep [OF _ 3(8) dD])
    show "seg_in (mach v2) d b (prog_header b j)" using 2(9) j unfolding J by blast
    show so: "seg_ok (prog_header b j)" using seg j unfolding J by (simp add: segs_ok_def)
    show "\<not> in_stack a" if "lo_of (prog_header b j) \<le> a" "a < hi_of (prog_header b j)" for a
      using so that(2) by (auto simp: in_stack_def seg_ok_def USTACKTOP_def USTACKSIZE_def USERTOP_def PGSIZE_def)
  qed
  have rest: "pte_of (mach v') d a = 0" if a: "a < USERTOP" "\<not> seg_at b {0..<0 + ?n} a" "\<not> in_stack a" for a
    using a 1(9) 2(10) 3(8) by (simp add: same_outside_def)
  have out2: "same_outside (mach v1) (mach v2) D (\<lambda>_ _. False)" "same_outside (mach v2) (mach v') D (\<lambda>_ _. False)"
    by (rule same_outside_sub [OF 2(10)] same_outside_sub [OF 3(8)]; use 1(6) in auto)+
  have "same_outside (mach v) (mach v2) D (\<lambda>_ _. False)" by (rule same_outside_trans [OF 1(10) out2(1)]) simp
  then have out: "same_outside (mach v) (mach v') D (\<lambda>_ _. False)" by (rule same_outside_trans [OF _ out2(2)]) simp
  show ?thesis
    by (rule that [OF run 3(2) _ 3(4) 1(6) _ 3(6) _ out])
      (use 1(4) 2(4,6) 3(3,5,7) keep rest in \<open>simp_all add: J image_loaded_def\<close>)
qed

text \<open>C9. Loading a program.  For an image with the right magic number whose segments lie in user
  memory below the stack, do not share pages and have a file part no longer than the memory
  part, and with enough free pages, \<open>load_icode\<close> returns 0.  The new address space has one area
  for every segment and one for the stack; at every address of a segment it holds the byte of
  the file, or zero behind the file part, with the permissions of the header; the four topmost
  stack pages are mapped to pages the process can read and write, and nothing else of the user
  addresses is mapped.  All registers of the trap frame are 0 but the stack pointer, which is
  the top of the stack; it starts at the entry point, and its status is the old one without
  the bits \<open>SPP\<close> and \<open>SPIE\<close>.  No page table entry and no byte of another address space changes.\<close>

theorem load_icode_image:
  assumes cur: "p_current s = Some c" "pr_mm (pcbs s c) = None" and ok: "pt_ok (mach (space s)) D F"
    and boot: "\<forall>i<2. \<not> valid (frames (mach (space s)) (boot_pgdir s) i)"
    and img: "image_ok b" and new: "fresh_areas new stack (headers b)" and F: "3 * image_pages b + 13 \<le> card F"
  shows "\<exists>s' d vs F'. load_icode b (Some m) new stack s = Some (s', 0) \<and>
    pr_mm (pcbs s' c) = Some m \<and> pgdir_of (mms (space s') m) = Some d \<and> mm_count (mms (space s') m) = 1 \<and>
    pr_cr3 (pcbs s' c) = d \<and> cr3_reg s' = d \<and> d \<notin> D \<and>
    vm_ok m vs (space s') \<and> set (map (area (space s')) vs) = insert stack_area (seg_areas b (headers b)) \<and>
    pt_ok (mach (space s')) (insert d D) F' \<and> image_loaded b d (space s') \<and>
    pr_frame (pcbs s' c) = \<lparr>tf_gpr = (\<lambda>r. if r = 2 then of_nat USTACKTOP else 0),
      tf_status = tf_status (pr_frame (pcbs s c)) AND NOT (0x100 OR 0x20),
      tf_epc = UserEntry (e_entry (elf_header b))\<rparr> \<and>
    same_outside (mach (space s)) (mach (space s')) D (\<lambda>_ _. False)"
proof -
  obtain v1 where 1: "mm_create (Some m) (space s) = (v1, Some m)" "vm_ok m [] v1" "mach v1 = mach (space s)"
    "mm_count (mms v1 m) = 0" using mm_create_ok .
  have ok1: "pt_ok (mach v1) D F" and boot1: "\<forall>i<2. \<not> valid (frames (mach v1) (boot_pgdir s) i)"
    using ok boot 1(3) by simp_all
  obtain v2 vs d F' where 2: "build_image b (boot_pgdir s) m new stack v1 = Some (v2, 0)" "vm_ok m vs v2"
    "set (map (area v2) vs) = insert stack_area (seg_areas b (headers b))" "pgdir_of (mms v2 m) = Some d" "d \<notin> D"
    "mm_count (mms v2 m) = mm_count (mms v1 m)" "pt_ok (mach v2) (insert d D) F'" "image_loaded b d v2"
    "same_outside (mach v1) (mach v2) D (\<lambda>_ _. False)"
    using build_image_ok [OF 1(2) ok1 boot1 img new F] .
  let ?v = "mm_count_inc m v2"
  have v: "mach ?v = mach v2" "vm_ok m vs ?v" "area ?v = area v2" "pgdir_of (mms ?v m) = Some d" "mm_count (mms ?v m) = 1"
    "image_loaded b d ?v"
    using 2(2,4,6,8) 1(4) by (simp_all add: mm_count_inc_def vm_ok_def fun_eq_iff area_def image_loaded_def)
  have fr: "(\<lambda>_. 0)(2 := x) = (\<lambda>r. if r = 2 then x else 0)" for x :: "64 word" by auto
  show ?thesis
    using cur 1(1) 2(1) v 2(3,5,7,9) 1(3)
    by (simp add: load_icode_def upd_pcb_def user_frame_def fr Let_def) blast
qed

section \<open>An example\<close>

text \<open>One segment of four bytes of file and twelve of memory at \<open>0x800020\<close>; the entry point is its start.\<close>

definition elf_sample :: image where
  "elf_sample = (\<lambda>_. 0)(0 := 0x7F, 1 := 0x45, 2 := 0x4C, 3 := 0x46, 24 := 0x20, 26 := 0x80, 32 := 64, 56 := 1,
     64 := 1, 68 := 5, 72 := 120, 80 := 0x20, 82 := 0x80, 96 := 4, 104 := 12, 120 := 0x13, 121 := 0x05, 122 := 0xA0, 123 := 0x02)"

definition load_area :: free_area where
  "load_area = \<lparr>fa_pages = (\<lambda>_. \<lparr>p_ref = 0, p_flags = 0, p_property = 0\<rparr>)
       (20 := SetPageProperty \<lparr>p_ref = 0, p_flags = 0, p_property = 40\<rparr>),
     fa_links = list_add FreeList (PageLink 20) (list_init FreeList \<lparr>l_next = id, l_prev = id\<rparr>),
     fa_nr_free = 40\<rparr>"

definition load_machine :: machine where
  "load_machine = \<lparr>pm = load_area, frames = (\<lambda>_ _. 0), swap_init_ok = False\<rparr>"

definition load_sample :: pstate where
  "load_sample = \<lparr>p_links = \<lparr>l_next = id, l_prev = id\<rparr>,
     pcbs = (\<lambda>p. \<lparr>pr_state = PROC_RUNNABLE, pr_pid = int p, pr_runs = 0, pr_kstack = 0, pr_need_resched = False,
       pr_parent = None, pr_mm = None, pr_ctx_ra = NoEntry, pr_ctx_sp = 0, pr_tf = 0,
       pr_frame = \<lparr>tf_gpr = (\<lambda>_. 7), tf_status = 0x120, tf_epc = KernelThreadEntry\<rparr>, pr_cr3 = 0, pr_flags = 0,
       pr_exit_code = 0, pr_wait = 0, cptr = None, yptr = None, optr = None\<rparr>),
     p_current = Some 2, p_idle = Some 0, p_init = Some 1, nr_process = 3, next_safe = MAX_PID, last_pid = 2,
     cr3_reg = 0, boot_pgdir = 0, freed = [],
     space = \<lparr>vm_links = \<lparr>l_next = id, l_prev = id\<rparr>, vmas = (\<lambda>_. \<lparr>vm_mm = 0, vm_start = 0, vm_end = 0, vm_flags = 0\<rparr>),
       mms = (\<lambda>_. \<lparr>mmap_cache = None, pgdir_of = None, map_count = 0, mm_count = 0\<rparr>), kfreed = [], mach = load_machine\<rparr>\<rparr>"

lemma load_machine_ok: "pt_ok load_machine {} {20..<60}"
proof -
  have "ff_ok NPAGES load_area [20]"
    using ring_list_add_head [OF ring_list_init, of "PageLink 20" FreeList "\<lparr>l_next = id, l_prev = id\<rparr>"]
    by (simp add: ff_ok_def load_area_def prop_of_def)
  moreover have "free_set load_area [20] = {20..<60}" by (simp add: free_set_def prop_of_def load_area_def)
  ultimately have ff: "ff_inv NPAGES load_area {20..<60}" unfolding ff_inv_def by (intro exI [of _ "[20]"]) simp
  have k: "user_keys {} = {}" by (simp add: user_keys_def)
  have m: "mappers load_machine {} p = {}" for p by (simp add: mappers_def)
  have "page_ref p load_machine = 0" for p by (simp add: page_ref_def load_machine_def load_area_def)
  moreover have "\<not> PageReserved (fa_pages load_area p)" for p
    by (simp add: load_area_def PageReserved_def SetPageProperty_def PG_reserved_def PG_property_def bit_simps)
  ultimately show ?thesis
    using ff by (simp add: pt_ok_def tree_ok_def pages_ok_def k m) (simp add: load_machine_def)
qed

lemma field_numeral: "field b i (numeral n) = unat (b i) + 256 * field b (Suc i) (pred_numeral n)"
  by (simp add: numeral_eq_Suc)

lemma elf_sample_header:
  "elf_header elf_sample = \<lparr>e_magic = ELF_MAGIC, e_entry = 0x800020, e_phoff = 64, e_phnum = 1\<rparr>"
  by (simp add: elf_header_def field_numeral elf_sample_def ELF_MAGIC_def)

lemma elf_sample_segment:
  "prog_header elf_sample 0 =
    \<lparr>p_type = 1, p_pflags = 5, p_offset = 120, p_va = 0x800020, p_filesz = 4, p_memsz = 12\<rparr>"
  by (simp add: prog_header_def elf_sample_header field_numeral) (simp add: elf_sample_def)

lemma elf_sample_ok:
  "headers elf_sample = {0}" "image_ok elf_sample" "image_pages elf_sample = 1"
  "fresh_areas (\<lambda>j. Some (Suc j)) (Some 0) (headers elf_sample)"
proof -
  show h: "headers elf_sample = {0}" by (auto simp: headers_def elf_sample_header)
  have s: "seg_lo (prog_header elf_sample 0) = 2048" "seg_hi (prog_header elf_sample 0) = 2049"
    by (simp_all add: seg_lo_def seg_hi_def elf_sample_segment PGSIZE_def)
  show "image_ok elf_sample"
    by (simp add: image_ok_def segs_ok_def h seg_ok_def s)
      (simp add: elf_sample_header elf_sample_segment USTACKTOP_def USTACKSIZE_def USERTOP_def USERBASE_def PGSIZE_def)
  show "image_pages elf_sample = 1" by (simp add: image_pages_def h seg_pages_def s) (simp add: elf_sample_segment ELF_PT_LOAD_def)
  show "fresh_areas (\<lambda>j. Some (Suc j)) (Some 0) (headers elf_sample)" by (simp add: fresh_areas_def h)
qed

lemma load_icode_image_witness:
  "\<exists>s' d. load_icode elf_sample (Some 0) (\<lambda>j. Some (Suc j)) (Some 0) load_sample = Some (s', 0) \<and>
     user_byte (mach (space s')) d 0x800020 = Some 0x13 \<and> user_byte (mach (space s')) d 0x80002B = Some 0 \<and>
     tf_epc (pr_frame (pcbs s' 2)) = UserEntry 0x800020 \<and> tf_status (pr_frame (pcbs s' 2)) = 0 \<and>
     tf_gpr (pr_frame (pcbs s' 2)) 1 = 0 \<and> user_page (mach (space s')) d 0x7FFFF000"
proof -
  have b: "\<forall>i<2. \<not> valid (frames (mach (space load_sample)) (boot_pgdir load_sample) i)"
    by (simp add: load_sample_def load_machine_def)
  have c: "p_current load_sample = Some 2" "pr_mm (pcbs load_sample 2) = None"
    "pt_ok (mach (space load_sample)) {} {20..<60}" "3 * image_pages elf_sample + 13 \<le> card {20..<60 :: nat}"
    by (simp_all add: load_sample_def load_machine_ok elf_sample_ok)
  obtain s' d where 1: "load_icode elf_sample (Some 0) (\<lambda>j. Some (Suc j)) (Some 0) load_sample = Some (s', 0)"
    "image_loaded elf_sample d (space s')"
    "pr_frame (pcbs s' 2) = \<lparr>tf_gpr = (\<lambda>r. if r = 2 then of_nat USTACKTOP else 0),
      tf_status = tf_status (pr_frame (pcbs load_sample 2)) AND NOT (0x100 OR 0x20),
      tf_epc = UserEntry (e_entry (elf_header elf_sample))\<rparr>"
    using load_icode_image [OF c(1-3) b elf_sample_ok(2,4) c(4)] by blast
  have "seg_in (mach (space s')) d elf_sample (prog_header elf_sample 0)"
    using 1(2) by (simp add: image_loaded_def elf_sample_ok elf_sample_segment ELF_PT_LOAD_def)
  moreover have "seg_bytes elf_sample (prog_header elf_sample 0) 0x800020 = Some 0x13"
    "seg_bytes elf_sample (prog_header elf_sample 0) 0x80002B = Some 0"
    by (simp_all add: seg_bytes_def elf_sample_segment) (simp add: elf_sample_def)
  moreover have "tf_status (pr_frame (pcbs load_sample 2)) = 0x120" by (simp add: load_sample_def)
  moreover have "in_stack 0x7FFFF000" by (simp add: in_stack_def USTACKTOP_def USERTOP_def PGSIZE_def)
  then have "user_page (mach (space s')) d 0x7FFFF000" using 1(2) unfolding image_loaded_def by blast
  ultimately show ?thesis using 1(1,3) by (auto simp: seg_in_def elf_sample_header)
qed

end
