(* ===== verification/Spec2Isabelle.thy ===== *)
theory Spec2Isabelle
  imports Best_Fit Buddy Semaphore Philosophers File_Table Process_Life Kmalloc Sfs_Mount Swap Skew_Heap Printf Sysfile Load_Image
begin

text \<open>
  A verification library for the teaching kernel uCore as it stands in this repository.

  \<^bold>\<open>The program.\<close>  The directories \<open>Lab1\<close> to \<open>lab8\<close> are eight stages of one RISC-V kernel; most files are
  copied from stage to stage and grow.  Each component is modelled from the stage where it is complete:
  the best-fit and buddy managers from \<open>lab2\<close>, swapping from \<open>lab3\<close>, memory management, processes, program
  loading and copy on write from \<open>lab5\<close>, the round-robin class and the philosophers from \<open>lab7\<close>, scheduling,
  synchronisation, page faults, the library, the console and the file systems from \<open>lab8\<close>.  The manifest names
  file and lines of every definition.

  \<^bold>\<open>Theories and sources.\<close>
  \<^item> \<open>Kernel_Prelude\<close>: error numbers (\<open>libs/error.h\<close>), unsigned fields, runs that do not return, lemmas on
    lists and options.  \<open>List_Ring\<close>: the circular lists of \<open>libs/list.h\<close> on pointer maps, the predicate
    \<open>ring\<close>, and the contract of a first-in-first-out queue.
  \<^item> Physical memory: \<open>Page_Frame\<close> (\<open>memlayout.h\<close>, and the contract \<open>page_allocator\<close> of \<open>struct pmm_manager\<close>),
    \<open>First_Fit\<close> (\<open>default_pmm.c\<close>), \<open>Best_Fit\<close> (\<open>best_fit_pmm.c\<close>), \<open>Buddy\<close> (\<open>buddy_pmm.c\<close>), \<open>Kmalloc\<close> (\<open>kmalloc.c\<close>,
    over that contract).
  \<^item> Virtual memory: \<open>Page_Table\<close> (\<open>pmm.c\<close>, \<open>mmu.h\<close>), \<open>Cow\<close> (\<open>cow.c\<close>), \<open>Vmm\<close> (\<open>vmm.c\<close>), \<open>Page_Fault\<close>
    (\<open>do_pgfault\<close> of \<open>vmm.c\<close>, \<open>trap.c\<close>), \<open>Page_Bytes\<close> (the bytes of the frames, as a process sees them).
  \<^item> Swapping: \<open>Swap_Manager\<close> (\<open>swap_fifo.c\<close>, \<open>swap_clock.c\<close>, \<open>swap_lru.c\<close> and the contract \<open>swap_policy\<close> of
    \<open>struct swap_manager\<close>, which FIFO and clock meet), \<open>Swap\<close> (\<open>swap.c\<close>, \<open>swapfs.c\<close>, \<open>ide.c\<close>, over any class
    that meets it).
  \<^item> Scheduling: \<open>Sched\<close> (\<open>sched.c\<close> over a record of function pointers with the contract \<open>sched_laws\<close>),
    \<open>Round_Robin\<close> (\<open>default_sched_c.c\<close>, an instance), \<open>Timers\<close> (the timer list of \<open>sched.c\<close>), \<open>Skew_Heap\<close>
    (\<open>skew_heap.h\<close> over any \<open>comparison\<close>, with the one of \<open>default_sched_stride.c\<close>).
  \<^item> Synchronisation: \<open>Semaphore\<close> (\<open>wait.c\<close>, \<open>sem.c\<close>), \<open>Philosophers\<close> (\<open>check_sync.c\<close>, as interleaved steps).
  \<^item> Processes of lab 5: \<open>Process\<close> (\<open>proc.c\<close>, \<open>sched.c\<close>), with lemmas on the process list and the hash
    chains in \<open>Process_Lists\<close>, on the family pointers in \<open>Process_Family\<close>, on waiting and forking in
    \<open>Process_Life\<close>; loading of programs in \<open>Load\<close> (\<open>load_icode\<close>, \<open>do_execve\<close>, \<open>elf.h\<close>), with what a well-formed
    image becomes in \<open>Load_Image\<close>.
  \<^item> Files: \<open>Vfs\<close> (\<open>fs/vfs\<close>, over records of function pointers), \<open>File_Table\<close> (\<open>file.c\<close>, \<open>fs.c\<close>), \<open>Console\<close>
    (\<open>dev.c\<close>, \<open>dev_stdin.c\<close>, \<open>dev_stdout.c\<close>), \<open>Sysfile\<close> (\<open>sysfile.c\<close>, copying to and from user memory in
    \<open>vmm.c\<close>).
  \<^item> Library: \<open>Strings\<close> (\<open>string.c\<close>), \<open>Printf\<close> (\<open>printfmt.c\<close>).
  \<^item> The Simple File System: \<open>Bitmap\<close> (\<open>bitmap.c\<close>), \<open>Disk\<close> (\<open>ramdisk.c\<close>, \<open>ide.c\<close>, \<open>dev_disk0.c\<close>, and the
    contract \<open>block_device\<close>), \<open>Sfs_Blocks\<close> (\<open>sfs_io.c\<close> and the block map of \<open>sfs_inode.c\<close>), \<open>Sfs_Inode\<close>
    (directories and file sizes), \<open>Sfs_Mount\<close> (the table of inodes, \<open>sfs_fs.c\<close>).

  \<^bold>\<open>How the code is modelled.\<close>  A C function is a HOL function from the state to the new state and the
  result, with the assignments in the order of the source.  A pointer to a structure is a number or an
  index, its fields are maps or records; linked lists keep their two pointers per entry, so that a damaged
  list is walked as the C code walks it.  The result type is an option: \<open>None\<close> says that the function does
  not return normally, because an assertion fails, \<open>panic\<close> is called, a null pointer is followed or a loop
  does not end.  Error numbers are values.  Unsigned fields are natural numbers with \<open>u32\<close> or \<open>u64\<close>
  where an operation can wrap, the signed width, precision and count of \<open>printfmt.c\<close> wrap with \<open>i32\<close>; bit
  masks, page table entries, bytes and hash values are words.  The results of \<open>kmalloc\<close> are arguments.  An
  address is a natural number, memory a function to bytes (or to the words of a frame), the variable
  arguments of a call a sequence of 64-bit words.  An operation that sleeps is split
  at its call of \<open>schedule\<close> into the part before and the part after, and what other processes do in between
  is any state the theorem allows.  \<open>proc_run\<close> of labs 6 to 8 is an exercise that is not filled in: the
  definition \<open>proc_run\<close> does nothing, as there, and \<open>schedule\<close> calls it; the body of lab 5 is \<open>proc_run_lab5\<close>,
  and \<open>schedule_with\<close> takes either.  Code that cannot be read here, or function pointers, are arguments too:
  the scheduling class, the operations of a file system, the device; what their clients rely on are the
  assumptions of a locale, which is interpreted on the definitions that provide them.

  \<^bold>\<open>Loops.\<close>  Loops over a counter are recursive functions with a measure.  Loops over linked lists are
  \<open>partial_function\<close>s, so that not returning is the value \<open>None\<close>; no fuel is used.  That such a loop
  returns is proved from the invariant of the list (of \<open>get_pid\<close>, \<open>unmap_range\<close>,
  \<open>mm_destroy\<close>, \<open>slob_free\<close>, \<open>skew_heap_merge\<close>, \<open>strlen\<close> and others).

  \<^bold>\<open>What the lemmas show.\<close>
  \<^item> First fit: the invariant \<open>ff_ok\<close> of the free list and what allocation and release do to the set of free
    pages and to the blocks.  A release is regular when no page is free or a free page lies above the block;
    releasing above all free blocks links the last block to itself (a missing \<open>break\<close>), after which a
    page is handed out twice.  The theorems on release cover both cases.  Best fit refines first fit but for its search.
    The buddy allocator keeps disjoint blocks of powers of two and splits them exactly; releasing next to a
    free block loses pages.
  \<^item> The heap: \<open>slob_free\<close> keeps the circle of free blocks in address order without touching neighbours,
    \<open>kmalloc\<close> and \<open>kfree\<close> are inverse on it, large blocks are too small for some sizes.
  \<^item> Page tables: the tree of tables keeps apart from data pages and free pages; mapping, unmapping and
    sharing change exactly the entries of the range, count every reference, and free exactly the pages that
    lose their last mapping (with a free page above them, as first fit needs).
  \<^item> Address spaces: \<open>find_vma\<close> with its cache is a search in the list of areas, \<open>mm_map\<close> refines a
    specification on that list, the check of user ranges is exact; the first access to a page of an area
    maps exactly this page, every other fault is refused.
  \<^item> Swapping: a page that was swapped out and faulted in again has its old content and nothing else changed;
    FIFO evicts in order; the clock gives a second chance as long as the word it reads at the list head is
    no mark, and takes the head or turns for ever otherwise; the unlinking of the LRU class goes wrong.
  \<^item> Loading: a well-formed image gets exactly its areas, bytes, permissions, stack and trap frame and no other
    mapping, and other address spaces keep their bytes; everything around the segments is left from the last owner of the frame.
  \<^item> Scheduling: for every class that meets \<open>sched_laws\<close>, with the \<open>proc_run\<close> of lab 5 the run queue holds exactly
    the runnable processes that do not run, and round robin runs a process after as many calls as there
    are processes before it; with the empty one the process taken from the queue never runs.
    The skew heap refines functions on trees that keep order and contents.
  \<^item> Timers, wait queues and semaphores refine delta lists, queues and counted waiters.  The philosophers
    exclude each other and never deadlock in any interleaving.
  \<^item> Processes: pids are unique, \<open>find_proc\<close> finds the process of a pid, exit hands over all children,
    wait reaps a zombie child, a failing fork leaves every process as it was, a successful one links a
    runnable child with a new pid into all lists.
  \<^item> Files: descriptors are the lowest free ones, reading advances the position; an exclusive open that
    fails keeps a reference.  A reader of the console gets the characters in order, a write prints every chunk
    of its buffer up to the first unreadable one, a path is copied from user memory exactly or refused.
  \<^item> The Simple File System: the bitmap is a set of free blocks, the disk carries out whole requests; the
    invariants \<open>fs_ok\<close>, \<open>file_ok\<close> and \<open>mount_ok\<close> are kept; growing and shrinking a file move exactly the
    blocks they should and no other file changes; directory search is a search in the list of entries; what
    is synchronised is found again after mounting; a file without names gives back all its blocks.

  \<^bold>\<open>Bounds.\<close>  The number of pages is below \<open>2 ^ 20\<close> where page numbers enter page table entries, a drive has
  fewer than \<open>2 ^ 23\<close> sectors (its size in bytes is an \<open>unsigned int\<close>), a pid is below \<open>MAX_PID\<close>; the
  hypotheses of the theorems say so.

  \<^bold>\<open>Not modelled.\<close>  Start-up, trap entry and context switch are assembly and machine registers; \<open>trap.c\<close>
  (but for the page fault) and the drivers talk to the machine.  \<open>proc_run\<close> of labs 6 to 8 (modelled as the
  empty function it is), the functions of the stride class,
  \<open>cond_wait\<close> and \<open>cond_signal\<close> of the monitors, the transfer loop of \<open>sfs_io_nolock\<close> and \<open>load_icode\<close> of the
  last stage are exercises that are not filled in.  Locks and interrupt flags are left out where one
  operation runs at a time.  Left out for their size or small content: the table of \<open>syscall.c\<close>, which passes
  registers on; \<open>fstat\<close>, \<open>getdirentry\<close> and \<open>getcwd\<close>, which copy C structures; \<open>kernel_execve\<close>, which traps;
  \<open>rand.c\<close>, \<open>readline.c\<close> and \<open>stdio.c\<close>; \<open>slub.c\<close>, an exercise of lab 2 that writes through null pointers;
  the self-tests, the kernel monitor, user programs, the host tool \<open>mksfs.c\<close>, and the copies of a file in the
  other stages.
\<close>

end
